(* ===== verification/PB_Prelude.thy ===== *)
theory PB_Prelude
  imports Main "HOL-Library.Word" "HOL-Library.Char_ord" "HOL-Library.List_Lexorder"
begin

text \<open>
  Shared vocabulary of the development: the machine integers and byte strings of the Rust
  sources, checked and saturating arithmetic, big-endian encodings, decimal and hexadecimal
  printing, the ordered maps (Rust's \<open>BTreeMap\<close>, and \<open>HashMap\<close> where no iteration order is
  observable) and the two generic interfaces the components are proved against: a finite map
  with its cardinality laws (\<open>keyed_map\<close>) and a transition system with an inductive invariant
  (\<open>invariant_system\<close>).

  Rust strings are UTF-8 byte strings; here they are \<open>string\<close> (lists of \<open>char\<close>, one per byte),
  so \<open>length\<close> is Rust's \<open>str::len\<close> and the lexicographic order is Rust's order on \<open>str\<close>.
\<close>

unbundle bit_operations_syntax

named_theorems pb_defs \<open>definitions that proofs about whole components unfold\<close>
named_theorems pb_inv \<open>preservation lemmas of component invariants\<close>
named_theorems pb_bytes \<open>laws of the byte encodings\<close>

type_synonym u8 = "8 word"
type_synonym u16 = "16 word"
type_synonym u32 = "32 word"
type_synonym u64 = "64 word"
type_synonym bytes = "u8 list"

text \<open>Fallible code returns \<open>'e + 'a\<close>: \<open>Inl\<close> is \<open>Err\<close>, \<open>Inr\<close> is \<open>Ok\<close>.\<close>

type_synonym ('e, 'a) result = "'e + 'a"

definition rbind :: "('e, 'a) result \<Rightarrow> ('a \<Rightarrow> ('e, 'b) result) \<Rightarrow> ('e, 'b) result" where
  "rbind r f = (case r of Inl e \<Rightarrow> Inl e | Inr a \<Rightarrow> f a)"

definition is_ok :: "('e, 'a) result \<Rightarrow> bool" where
  "is_ok r = (case r of Inl _ \<Rightarrow> False | Inr _ \<Rightarrow> True)"

lemma rbind_simps [simp]: "rbind (Inl e) f = Inl e" "rbind (Inr a) f = f a"
  by (simp_all add: rbind_def)

lemma is_ok_simps [simp]: "\<not> is_ok (Inl e)" "is_ok (Inr a)"
  by (simp_all add: is_ok_def)

lemma rbind_eq_Inr [simp]: "rbind r f = Inr b \<longleftrightarrow> (\<exists>a. r = Inr a \<and> f a = Inr b)"
  by (cases r) auto

section \<open>Machine arithmetic\<close>

definition checked_add :: "'a::len word \<Rightarrow> 'a word \<Rightarrow> 'a word option" where
  "checked_add a b = (if unat a + unat b < 2 ^ LENGTH('a) then Some (a + b) else None)"

definition saturating_add :: "'a::len word \<Rightarrow> 'a word \<Rightarrow> 'a word" where
  "saturating_add a b = (if unat a + unat b < 2 ^ LENGTH('a) then a + b else - 1)"

lemma unat_plus_small: "unat (a :: 'a::len word) + unat b < 2 ^ LENGTH('a) \<Longrightarrow> unat (a + b) = unat a + unat b"
  by (simp add: unat_word_ariths)

lemma unat_u8_less: "unat (b :: u8) < 256"
proof -
  have "unat b < 2 ^ LENGTH(8)" by (rule unsigned_less)
  then show ?thesis by simp
qed

lemma unat_u32_less: "unat (b :: u32) < 2 ^ 32"
proof -
  have "unat b < 2 ^ LENGTH(32)" by (rule unsigned_less)
  then show ?thesis by simp
qed

lemma unat_u64_less: "unat (b :: u64) < 2 ^ 64"
proof -
  have "unat b < 2 ^ LENGTH(64)" by (rule unsigned_less)
  then show ?thesis by simp
qed

lemma checked_add_Some: "checked_add a b = Some c \<longleftrightarrow> c = a + b \<and> unat c = unat a + unat b"
  for a b c :: "'a::len word"
proof -
  have "unat (a + b) < 2 ^ LENGTH('a)" by (rule unsigned_less)
  then show ?thesis
    by (cases "unat a + unat b < 2 ^ LENGTH('a)") (auto simp: checked_add_def unat_plus_small simp del: unsigned_less)
qed

lemma checked_add_None: "checked_add a b = None \<longleftrightarrow> 2 ^ LENGTH('a) \<le> unat a + unat b"
  for a b :: "'a::len word"
  by (auto simp: checked_add_def)

lemma checked_add_one: "checked_add a 1 = Some c \<longleftrightarrow> c = a + 1 \<and> unat c = Suc (unat a)"
  for a c :: "'a::len word"
  by (simp only: checked_add_Some) auto

lemma checked_add_oneD: "checked_add a 1 = Some c \<Longrightarrow> unat c = Suc (unat a)"
  for a c :: "'a::len word"
  by (blast dest: checked_add_one[THEN iffD1])

lemma unat_saturating_add:
  "unat (saturating_add a b) = min (unat a + unat b) (2 ^ LENGTH('a) - 1)"
  for a b :: "'a::len word"
  by (auto simp: saturating_add_def unat_plus_small unsigned_minus_1_eq_mask mask_eq_exp_minus_1)

lemma saturating_add_ge: "a \<le> saturating_add a b"
  for a b :: "'a::len word"
proof -
  have "unat a < 2 ^ LENGTH('a)" by (rule unsigned_less)
  then have "unat a \<le> 2 ^ LENGTH('a) - 1" by linarith
  then show ?thesis by (simp add: word_le_nat_alt unat_saturating_add)
qed

section \<open>Big-endian encodings\<close>

text \<open>
  \<open>to_be_bytes\<close> and \<open>from_be_bytes\<close> of the Rust integer types, over the natural number a
  word denotes: \<open>be_bytes n x\<close> is the \<open>n\<close>-byte big-endian encoding, \<open>be_val\<close> reads one.
\<close>

primrec be_bytes :: "nat \<Rightarrow> nat \<Rightarrow> bytes" where
  "be_bytes 0 x = []"
| "be_bytes (Suc n) x = be_bytes n (x div 256) @ [of_nat x]"

definition be_val :: "bytes \<Rightarrow> nat" where
  "be_val bs = foldl (\<lambda>acc b. acc * 256 + unat b) 0 bs"

definition to_be :: "'a::len word \<Rightarrow> bytes" where
  "to_be w = be_bytes (LENGTH('a) div 8) (unat w)"

definition from_be :: "bytes \<Rightarrow> 'a::len word" where
  "from_be bs = of_nat (be_val bs)"

lemma length_be_bytes [simp]: "length (be_bytes n x) = n"
  by (induction n arbitrary: x) auto

lemma be_val_snoc [simp]: "be_val (bs @ [b]) = be_val bs * 256 + unat b"
  by (simp add: be_val_def)

lemma be_val_Nil [simp]: "be_val [] = 0"
  by (simp add: be_val_def)

lemma be_val_be_bytes: "x < 256 ^ n \<Longrightarrow> be_val (be_bytes n x) = x"
proof (induction n arbitrary: x)
  case 0
  then show ?case by simp
next
  case (Suc n)
  then have "x div 256 < 256 ^ n" by (simp add: less_mult_imp_div_less mult.commute)
  then have "be_val (be_bytes n (x div 256)) = x div 256" by (rule Suc.IH)
  then show ?case by (simp add: unat_of_nat)
qed

lemma be_bytes_inject: "x < 256 ^ n \<Longrightarrow> y < 256 ^ n \<Longrightarrow> be_bytes n x = be_bytes n y \<longleftrightarrow> x = y"
  by (metis be_val_be_bytes)

text \<open>
  A fixed-width codec: every value is encoded in \<open>width\<close> bytes and decodes back. The clients
  are the frame header, the nonce, the key-derivation label and the token MAC input, which
  concatenate such fields.
\<close>

locale fixed_codec =
  fixes enc :: "'a \<Rightarrow> bytes" and dec :: "bytes \<Rightarrow> 'a" and width :: nat
  assumes enc_length: "length (enc x) = width"
    and dec_enc: "dec (enc x) = x"
begin

lemma enc_inject: "enc x = enc y \<longleftrightarrow> x = y"
  by (metis dec_enc)

lemma enc_append_inject: "enc x @ r = enc y @ s \<longleftrightarrow> x = y \<and> r = s"
proof
  assume eq: "enc x @ r = enc y @ s"
  have "length (enc x) = length (enc y)" by (simp add: enc_length)
  with eq have "enc x = enc y \<and> r = s" by simp
  then show "x = y \<and> r = s" by (simp add: enc_inject)
qed simp

lemma take_enc: "take width (enc x @ r) = enc x"
  by (simp add: enc_length)

lemma drop_enc: "drop width (enc x @ r) = r"
  by (simp add: enc_length)

lemma read_enc: "dec (take width (enc x @ r)) = x"
  by (simp add: enc_length dec_enc)

end

lemma from_be_to_be_gen:
  assumes "LENGTH('a::len) = 8 * n"
  shows "from_be (be_bytes n (unat (w :: 'a word))) = w"
proof -
  have "unat w < 2 ^ LENGTH('a)" by (rule unsigned_less)
  also have "(2::nat) ^ LENGTH('a) = 256 ^ n" by (simp add: assms power_mult)
  finally have "be_val (be_bytes n (unat w)) = unat w" by (rule be_val_be_bytes)
  then show ?thesis by (simp add: from_be_def)
qed

interpretation be16: fixed_codec "to_be :: u16 \<Rightarrow> bytes" "from_be :: bytes \<Rightarrow> u16" 2
  by unfold_locales (simp_all add: to_be_def from_be_to_be_gen)

interpretation be32: fixed_codec "to_be :: u32 \<Rightarrow> bytes" "from_be :: bytes \<Rightarrow> u32" 4
  by unfold_locales (simp_all add: to_be_def from_be_to_be_gen)

interpretation be64: fixed_codec "to_be :: u64 \<Rightarrow> bytes" "from_be :: bytes \<Rightarrow> u64" 8
  by unfold_locales (simp_all add: to_be_def from_be_to_be_gen)

lemmas [pb_bytes] =
  be16.enc_length be32.enc_length be64.enc_length
  be16.dec_enc be32.dec_enc be64.dec_enc
  be16.enc_append_inject be32.enc_append_inject be64.enc_append_inject

section \<open>Strings\<close>

text \<open>\<open>str_bytes\<close> is Rust's \<open>str::as_bytes\<close>.\<close>

definition str_bytes :: "string \<Rightarrow> bytes" where
  "str_bytes s = map of_char s"

lemma length_str_bytes [simp]: "length (str_bytes s) = length s"
  by (simp add: str_bytes_def)

lemma of_char_word_inject: "(of_char c :: u8) = of_char d \<longleftrightarrow> c = d"
proof
  assume "(of_char c :: u8) = of_char d"
  then have "(of_nat (of_char c) :: u8) = of_nat (of_char d)" by (simp only: of_nat_of_char)
  then have "unat (of_nat (of_char c) :: u8) = unat (of_nat (of_char d) :: u8)" by (rule arg_cong)
  then have "(of_char c :: nat) mod 256 = of_char d mod 256" by (simp add: unat_of_nat)
  then show "c = d" by simp
qed simp

lemma unat_of_char: "unat (of_char c :: u8) = of_char c"
proof -
  have "unat (of_nat (of_char c) :: u8) = of_char c mod 256" by (simp add: unat_of_nat del: of_nat_of_char)
  then show ?thesis by (simp only: of_nat_of_char) simp
qed

lemma str_bytes_inject [simp]: "str_bytes s = str_bytes t \<longleftrightarrow> s = t"
proof -
  have "inj (of_char :: char \<Rightarrow> u8)" by (rule injI) (simp add: of_char_word_inject)
  then show ?thesis by (simp add: str_bytes_def inj_map_eq_map)
qed

text \<open>Decimal rendering of an unsigned integer (\<open>{}\<close> in a format string).\<close>

fun show_nat :: "nat \<Rightarrow> string" where
  "show_nat n = (if n < 10 then [char_of (48 + n)] else show_nat (n div 10) @ [char_of (48 + n mod 10)])"

declare show_nat.simps [simp del]

text \<open>Hexadecimal digits and bytes: \<open>{b:02x}\<close> and \<open>{b:02X}\<close>.\<close>

definition hex_digit :: "nat \<Rightarrow> char" where
  "hex_digit n = (if n < 10 then char_of (48 + n) else char_of (87 + n))"

definition hex_digit_upper :: "nat \<Rightarrow> char" where
  "hex_digit_upper n = (if n < 10 then char_of (48 + n) else char_of (55 + n))"

definition hex_byte :: "u8 \<Rightarrow> string" where
  "hex_byte b = [hex_digit (unat b div 16), hex_digit (unat b mod 16)]"

definition hex_byte_upper :: "u8 \<Rightarrow> string" where
  "hex_byte_upper b = [hex_digit_upper (unat b div 16), hex_digit_upper (unat b mod 16)]"

text \<open>
  Escapes that write one code word per symbol. A map of symbols to non-empty words in which
  no word is a prefix of another extends injectively to strings.
\<close>

locale prefix_code =
  fixes esc :: "'a \<Rightarrow> 'b list"
  assumes esc_nonempty: "esc a \<noteq> []"
    and esc_prefix_free: "esc a @ r = esc b @ s \<Longrightarrow> a = b"
begin

lemma concat_esc_inject: "concat (map esc xs) = concat (map esc ys) \<longleftrightarrow> xs = ys"
proof
  assume "concat (map esc xs) = concat (map esc ys)"
  then show "xs = ys"
  proof (induction xs arbitrary: ys)
    case Nil
    then show ?case by (cases ys) (auto simp: esc_nonempty)
  next
    case (Cons x xs)
    then obtain y ys' where ys: "ys = y # ys'"
      by (cases ys) (auto simp: esc_nonempty)
    with Cons.prems have eq: "esc x @ concat (map esc xs) = esc y @ concat (map esc ys')" by simp
    then have "x = y" by (rule esc_prefix_free)
    with eq Cons.IH[of ys'] ys show ?case by simp
  qed
qed simp

end

section \<open>Ordered maps\<close>

text \<open>
  A map kept as a list of pairs with strictly increasing keys: the iteration order of a
  \<open>BTreeMap\<close>. Lookup is \<open>map_of\<close>. \<open>HashMap\<close>s whose iteration order the code never observes
  use the same representation.
\<close>

type_synonym ('k, 'v) omap = "('k \<times> 'v) list"

definition om_inv :: "('k::linorder, 'v) omap \<Rightarrow> bool" where
  "om_inv m = sorted_wrt (<) (map fst m)"

fun om_insert :: "'k::linorder \<Rightarrow> 'v \<Rightarrow> ('k, 'v) omap \<Rightarrow> ('k, 'v) omap" where
  "om_insert k v [] = [(k, v)]"
| "om_insert k v (p # m) =
     (if fst p < k then p # om_insert k v m
      else if fst p = k then (k, v) # m
      else (k, v) # p # m)"

definition om_remove :: "'k \<Rightarrow> ('k, 'v) omap \<Rightarrow> ('k, 'v) omap" where
  "om_remove k m = filter (\<lambda>p. fst p \<noteq> k) m"

definition om_keys :: "('k, 'v) omap \<Rightarrow> 'k list" where
  "om_keys m = map fst m"

definition om_member :: "'k \<Rightarrow> ('k, 'v) omap \<Rightarrow> bool" where
  "om_member k m = (map_of m k \<noteq> None)"

text \<open>\<open>collect\<close> into a map: later pairs overwrite earlier ones.\<close>

definition om_collect :: "('k::linorder \<times> 'v) list \<Rightarrow> ('k, 'v) omap" where
  "om_collect ps = fold (\<lambda>(k, v). om_insert k v) ps []"

lemma om_inv_Nil [simp]: "om_inv []"
  by (simp add: om_inv_def)

lemma om_inv_Cons: "om_inv (p # m) \<longleftrightarrow> (\<forall>k \<in> fst ` set m. fst p < k) \<and> om_inv m"
  by (auto simp: om_inv_def)

lemma om_inv_distinct: "om_inv m \<Longrightarrow> distinct (map fst m)"
  by (auto simp: om_inv_def strict_sorted_iff)

lemma fst_set_om_insert: "fst ` set (om_insert k v m) = insert k (fst ` set m)"
  by (induction k v m rule: om_insert.induct) auto

lemma om_inv_insert [intro, simp]: "om_inv m \<Longrightarrow> om_inv (om_insert k v m)"
  by (induction k v m rule: om_insert.induct) (auto simp: om_inv_Cons fst_set_om_insert)

lemma om_inv_remove [intro, simp]: "om_inv m \<Longrightarrow> om_inv (om_remove k m)"
  by (induction m) (auto simp: om_inv_Cons om_remove_def)

lemma map_of_om_insert: "map_of (om_insert k v m) = (map_of m)(k \<mapsto> v)"
  by (induction k v m rule: om_insert.induct) auto

lemma map_of_om_insert_app [simp]: "map_of (om_insert k v m) k' = (if k' = k then Some v else map_of m k')"
  by (simp add: map_of_om_insert)

lemma map_of_om_remove [simp]: "map_of (om_remove k m) k' = (if k' = k then None else map_of m k')"
  by (induction m) (auto simp: om_remove_def)

lemma om_insert_not_Nil [simp]: "om_insert k v m \<noteq> []"
  by (cases m) auto

lemma length_om_remove: "length (om_remove k m) \<le> length m"
  by (simp add: om_remove_def)

lemma om_remove_absent: "map_of m k = None \<Longrightarrow> om_remove k m = m"
  by (induction m) (auto simp: om_remove_def split: if_splits)

lemma length_om_insert: "om_inv m \<Longrightarrow> length (om_insert k v m) = (if map_of m k = None then Suc (length m) else length m)"
proof (induction k v m rule: om_insert.induct)
  case (2 k v p m)
  have "map_of m k = None" if "k < fst p" "om_inv (p # m)"
    using that by (auto simp: om_inv_Cons map_of_eq_None_iff)
  with 2 show ?case by (auto simp: om_inv_Cons)
qed simp

lemma om_inv_collect [simp]: "om_inv (om_collect ps)"
proof -
  have "om_inv m \<Longrightarrow> om_inv (fold (\<lambda>(k, v). om_insert k v) ps m)" for m :: "('a, 'b) omap"
    by (induction ps arbitrary: m) (auto split: prod.splits)
  then show ?thesis by (simp add: om_collect_def)
qed

lemma map_of_fold_om_insert:
  "map_of (fold (\<lambda>(k, v). om_insert k v) ps m) k = (case map_of (rev ps) k of Some v \<Rightarrow> Some v | None \<Rightarrow> map_of m k)"
proof (induction ps arbitrary: m)
  case (Cons p ps)
  then show ?case by (cases p) (auto simp: map_of_append split: option.splits)
qed simp

lemma map_of_om_collect: "map_of (om_collect ps) = map_of (rev ps)"
  by (rule ext) (simp add: om_collect_def map_of_fold_om_insert split: option.splits)

lemma map_of_rev_distinct: "distinct (map fst ps) \<Longrightarrow> map_of (rev ps) = map_of ps"
  by (subst map_of_inject_set) (simp_all flip: rev_map)

lemma om_member_keys: "om_member k m \<longleftrightarrow> k \<in> fst ` set m"
  by (simp add: om_member_def map_of_eq_None_iff)

text \<open>
  Two ordered maps with the same lookup are the same list.
\<close>

lemma om_keys_values: "distinct (map fst m) \<Longrightarrow> map (\<lambda>k. (k, the (map_of m k))) (map fst m) = m"
  by (auto simp: comp_def intro!: map_idI)

lemma om_eqI:
  assumes "om_inv m" "om_inv m'" "map_of m = map_of m'"
  shows "m = m'"
proof -
  have d: "distinct (map fst m)" "distinct (map fst m')" using assms by (auto dest: om_inv_distinct)
  have "set (map fst m) = set (map fst m')"
    using assms(3) by (metis dom_map_of_conv_image_fst list.set_map)
  then have "map fst m = map fst m'"
    using assms(1,2) by (metis om_inv_def sorted_distinct_set_unique strict_sorted_iff)
  then show ?thesis using d assms(3) by (metis om_keys_values)
qed

text \<open>
  The finite-map interface of the components that count their entries (the channel registry
  and the resumable set): an insertion adds at most one key, a removal none.
\<close>

locale keyed_map =
  fixes get :: "'m \<Rightarrow> 'k \<Rightarrow> 'v option"
    and ins :: "'k \<Rightarrow> 'v \<Rightarrow> 'm \<Rightarrow> 'm"
    and del :: "'k \<Rightarrow> 'm \<Rightarrow> 'm"
    and size_of :: "'m \<Rightarrow> nat"
    and inv :: "'m \<Rightarrow> bool"
  assumes get_ins: "inv m \<Longrightarrow> get (ins k v m) k' = (if k' = k then Some v else get m k')"
    and get_del: "inv m \<Longrightarrow> get (del k m) k' = (if k' = k then None else get m k')"
    and inv_ins: "inv m \<Longrightarrow> inv (ins k v m)"
    and inv_del: "inv m \<Longrightarrow> inv (del k m)"
    and finite_keys: "inv m \<Longrightarrow> finite (dom (get m))"
    and size_keys: "inv m \<Longrightarrow> size_of m = card (dom (get m))"
begin

lemma keys_ins: "inv m \<Longrightarrow> dom (get (ins k v m)) = insert k (dom (get m))"
  by (auto simp: get_ins dom_def)

lemma keys_del: "inv m \<Longrightarrow> dom (get (del k m)) = dom (get m) - {k}"
  by (auto simp: get_del dom_def)

lemma size_ins: "inv m \<Longrightarrow> size_of (ins k v m) = (if get m k = None then Suc (size_of m) else size_of m)"
  by (simp add: size_keys inv_ins keys_ins finite_keys card_insert_if domIff)

lemma size_ins_le: "inv m \<Longrightarrow> size_of (ins k v m) \<le> Suc (size_of m)"
  by (simp add: size_ins)

lemma size_del_le: "inv m \<Longrightarrow> size_of (del k m) \<le> size_of m"
  by (simp add: size_keys inv_del keys_del finite_keys card_Diff1_le)

lemma size_del_present: "inv m \<Longrightarrow> get m k \<noteq> None \<Longrightarrow> Suc (size_of (del k m)) = size_of m"
  by (simp only: size_keys inv_del keys_del) (simp add: card_Suc_Diff1 finite_keys domIff del: card_Diff_insert)

end

lemma card_om_keys: "om_inv m \<Longrightarrow> card (dom (map_of m)) = length m"
  by (metis distinct_card dom_map_of_conv_image_fst length_map list.set_map om_inv_distinct)

interpretation om: keyed_map map_of om_insert om_remove length om_inv
  by unfold_locales (auto simp: card_om_keys finite_dom_map_of)

section \<open>Transition systems\<close>

text \<open>
  A state machine with an invariant that holds initially and that every step keeps: it holds
  in every reachable state. Each stateful component interprets this with its own steps.
\<close>

locale invariant_system =
  fixes initial :: "'s \<Rightarrow> bool" and step :: "'s \<Rightarrow> 's \<Rightarrow> bool" and inv :: "'s \<Rightarrow> bool"
  assumes inv_init: "initial s \<Longrightarrow> inv s"
    and inv_step: "inv s \<Longrightarrow> step s t \<Longrightarrow> inv t"
begin

lemma inv_steps: "step\<^sup>*\<^sup>* s t \<Longrightarrow> inv s \<Longrightarrow> inv t"
  by (induction rule: rtranclp_induct) (auto intro: inv_step)

lemma inv_reachable: "initial s \<Longrightarrow> step\<^sup>*\<^sup>* s t \<Longrightarrow> inv t"
  by (blast intro: inv_steps inv_init)

end

section \<open>A coding for examples\<close>

text \<open>A self-delimiting coding of a field: every byte of a field is announced by a 1.\<close>

definition toy_put :: "bytes \<Rightarrow> bytes" where
  "toy_put xs = concat (map (\<lambda>x. [1, x]) xs) @ [0]"

fun toy_get :: "bytes \<Rightarrow> bytes \<times> bytes" where
  "toy_get (t # x # r) = (if t = 0 then ([], x # r) else case toy_get r of (xs, r') \<Rightarrow> (x # xs, r'))"
| "toy_get bs = ([], [])"

lemma toy_get_put [simp]: "toy_get (toy_put xs @ r) = (xs, r)" "toy_get (toy_put xs) = (xs, [])"
proof -
  show "toy_get (toy_put xs @ r) = (xs, r)" for r
  proof (induction xs)
    case Nil
    then show ?case by (cases r) (simp_all add: toy_put_def)
  qed (simp add: toy_put_def)
  from this[of "[]"] show "toy_get (toy_put xs) = (xs, [])" by simp
qed

definition toy_str :: "bytes \<Rightarrow> string" where
  "toy_str = map (\<lambda>b. char_of (unat b))"

lemma toy_str_bytes [simp]: "toy_str (str_bytes s) = s"
proof -
  have "char_of (unat (of_char c :: u8)) = c" for c by (simp add: unat_of_char)
  then show ?thesis by (induction s) (simp_all add: toy_str_def str_bytes_def)
qed

end
