(* ===== verification/PB_Frame.thy ===== *)
theory PB_Frame
  imports PB_Session_Types
begin

text \<open>
  The session frame and its wire codec (\<open>peerbeam-domain/src/session/frame.rs\<close>) and the hex
  decoder every peer-supplied hex string goes through (\<open>peerbeam-domain/src/hex.rs\<close>).

  Shown here: encoding then decoding gives the frame back as long as the payload length fits
  the 32-bit length field; a frame that decodes is the encoding of its result (one frame, one
  byte string); a payload that does not fit is emitted with a saturated length and is refused
  by the decoder; hex decoding inverts the hex printers and accepts only hex text.
\<close>

section \<open>Message flags\<close>

type_synonym message_flags = u8

definition FLAG_NONE :: message_flags where "FLAG_NONE = 0"
definition FLAG_OPTIONAL :: message_flags where "FLAG_OPTIONAL = 1"
definition FLAG_END_OF_MESSAGE :: message_flags where "FLAG_END_OF_MESSAGE = 2"

definition flags_contains :: "message_flags \<Rightarrow> message_flags \<Rightarrow> bool" where
  "flags_contains self other = (self AND other = other)"

definition flags_with :: "message_flags \<Rightarrow> message_flags \<Rightarrow> message_flags" where
  "flags_with self other = self OR other"

definition is_optional :: "message_flags \<Rightarrow> bool" where
  "is_optional f = flags_contains f FLAG_OPTIONAL"

lemma flags_with_contains: "flags_contains (flags_with a b) b"
  by (auto simp: flags_contains_def flags_with_def bit_eq_iff bit_simps)

section \<open>The frame\<close>

record session_frame =
  sf_channel :: channel_id
  sf_message_type :: message_type
  sf_flags :: message_flags
  sf_payload :: bytes

definition HEADER_LEN :: nat where
  "HEADER_LEN = 8 + 2 + 1 + 4"

text \<open>\<open>u32::try_from(len).unwrap_or(u32::MAX)\<close>.\<close>

definition payload_len :: "bytes \<Rightarrow> u32" where
  "payload_len p = (if length p < 2 ^ 32 then of_nat (length p) else - 1)"

definition frame_encode :: "session_frame \<Rightarrow> bytes" where
  "frame_encode f =
     to_be (sf_channel f) @ to_be (sf_message_type f) @ [sf_flags f] @
     to_be (payload_len (sf_payload f)) @ sf_payload f"

text \<open>
  \<open>read_array\<close> cannot fail here: the slices are inside the header, whose length was checked.
\<close>

definition frame_decode :: "bytes \<Rightarrow> (session_error, session_frame) result" where
  "frame_decode buf =
     (if length buf < HEADER_LEN then
        Inl (FrameDecode (''frame too short: '' @ show_nat (length buf) @ '' < 15 header bytes''))
      else
        let channel = from_be (take 8 buf);
            message_type = from_be (take 2 (drop 8 buf));
            flags = buf ! 10;
            len = unat (from_be (take 4 (drop 11 buf)) :: u32);
            body = drop HEADER_LEN buf
        in if length body \<noteq> len then
             Inl (FrameDecode (''payload length mismatch: header says '' @ show_nat len @
                               '', got '' @ show_nat (length body)))
           else Inr \<lparr>sf_channel = channel, sf_message_type = message_type,
                      sf_flags = flags, sf_payload = body\<rparr>)"

lemma length_header:
  "length (to_be (c :: u64) @ to_be (m :: u16) @ [f] @ to_be (l :: u32)) = HEADER_LEN"
  by (simp add: HEADER_LEN_def pb_bytes)

lemma frame_decode_header:
  "frame_decode (to_be c @ to_be m @ [f] @ to_be (l :: u32) @ body) =
     (if length body = unat l then
        Inr \<lparr>sf_channel = c, sf_message_type = m, sf_flags = f, sf_payload = body\<rparr>
      else Inl (FrameDecode (''payload length mismatch: header says '' @ show_nat (unat l) @
                               '', got '' @ show_nat (length body))))"
  by (simp add: frame_decode_def HEADER_LEN_def pb_bytes nth_append Let_def)

text \<open>
  The header splits any sufficiently long buffer.
\<close>

lemma be_bytes_be_val: "be_bytes (length bs) (be_val bs) = bs"
proof (induction bs rule: rev_induct)
  case (snoc b bs)
  have "(be_val bs * 256 + unat b) div 256 = be_val bs"
    using unat_u8_less[of b] by simp
  moreover have "of_nat (be_val bs * 256 + unat b) = b"
  proof (rule unsigned_word_eqI)
    show "unat (of_nat (be_val bs * 256 + unat b) :: u8) = unat b"
      using unat_u8_less[of b] by (simp only: unat_of_nat) (simp add: take_bit_eq_mod)
  qed
  ultimately show ?case using snoc by simp
qed simp


lemma be_val_less: "be_val bs < 256 ^ length bs"
proof (induction bs rule: rev_induct)
  case (snoc b bs)
  then show ?case using unat_u8_less[of b] by simp
qed simp

lemma to_be_from_be:
  assumes "length bs = n" "LENGTH('a::len) = 8 * n"
  shows "to_be (from_be bs :: 'a word) = bs"
proof -
  have "be_val bs < 2 ^ LENGTH('a)" using be_val_less[of bs] assms by (simp add: power_mult)
  then have "unat (of_nat (be_val bs) :: 'a word) = be_val bs"
    by (simp add: unat_of_nat take_bit_nat_eq_self)
  then show ?thesis using be_bytes_be_val[of bs] assms by (simp add: to_be_def from_be_def)
qed

lemma buffer_split:
  assumes "HEADER_LEN \<le> length buf"
  shows "buf = take 8 buf @ take 2 (drop 8 buf) @ [buf ! 10] @ take 4 (drop 11 buf) @ drop HEADER_LEN buf"
proof -
  have "buf = take 8 buf @ drop 8 buf" by simp
  also have "drop 8 buf = take 2 (drop 8 buf) @ drop 10 buf"
    using append_take_drop_id[of 2 "drop 8 buf", symmetric] by simp
  also have "drop 10 buf = [buf ! 10] @ drop 11 buf"
    using assms Cons_nth_drop_Suc[of 10 buf] by (simp add: HEADER_LEN_def)
  also have "drop 11 buf = take 4 (drop 11 buf) @ drop 15 buf"
    using append_take_drop_id[of 4 "drop 11 buf", symmetric] by simp
  finally show ?thesis by (simp add: HEADER_LEN_def)
qed

lemma frame_decode_encode:
  assumes "length (sf_payload f) < 2 ^ 32"
  shows "frame_decode (frame_encode f) = Inr f"
proof -
  have "unat (payload_len (sf_payload f)) = length (sf_payload f)"
    using assms by (simp add: payload_len_def unat_of_nat take_bit_nat_eq_self)
  then show ?thesis by (simp add: frame_encode_def frame_decode_header[simplified])
qed

text \<open>
  Frames survive the wire: whatever channel, message type and flags a frame carries,
  decoding its encoding returns that very frame, for every payload whose length fits the
  32-bit length field; and the encoding is 15 header bytes plus the payload.
\<close>

lemma frame_roundtrip:
  assumes "length (sf_payload f) < 2 ^ 32"
  shows "frame_decode (frame_encode f) = Inr f \<and> length (frame_encode f) = HEADER_LEN + length (sf_payload f)"
  using frame_decode_encode[OF assms] by (simp add: frame_encode_def pb_bytes HEADER_LEN_def)

lemma frame_roundtrip_witness:
  "length (sf_payload \<lparr>sf_channel = 5, sf_message_type = 2, sf_flags = 3, sf_payload = [1, 2, 255]\<rparr>) < 2 ^ 32
   \<and> frame_decode (frame_encode \<lparr>sf_channel = 5, sf_message_type = 2, sf_flags = 3, sf_payload = [1, 2, 255]\<rparr>)
     = Inr \<lparr>sf_channel = 5, sf_message_type = 2, sf_flags = 3, sf_payload = [1, 2, 255]\<rparr>"
  using frame_roundtrip[of "\<lparr>sf_channel = 5, sf_message_type = 2, sf_flags = 3, sf_payload = [1, 2, 255]\<rparr>"]
  by simp

text \<open>
  C1. The decoder is exact: a byte string it accepts is precisely the encoding of the frame it
  returns, so no two byte strings decode to the same frame and nothing trails a frame; and a
  frame whose payload is too long for the length field is never accepted, because the
  saturated length in its header disagrees with its body.
\<close>

theorem frame_decode_exact:
  "(frame_decode buf = Inr f \<longrightarrow> frame_encode f = buf)
   \<and> (2 ^ 32 \<le> length (sf_payload g) \<longrightarrow> (\<exists>e. frame_decode (frame_encode g) = Inl e))"
proof (intro conjI impI)
  assume ok: "frame_decode buf = Inr f"
  then have len: "HEADER_LEN \<le> length buf" by (auto simp: frame_decode_def split: if_splits)
  define body where "body = drop HEADER_LEN buf"
  from ok len have f: "f = \<lparr>sf_channel = from_be (take 8 buf), sf_message_type = from_be (take 2 (drop 8 buf)),
      sf_flags = buf ! 10, sf_payload = body\<rparr>"
    and body_len: "length body = unat (from_be (take 4 (drop 11 buf)) :: u32)"
    by (auto simp: frame_decode_def body_def Let_def split: if_splits)
  have "payload_len body = from_be (take 4 (drop 11 buf))"
    using body_len unat_u32_less[of "from_be (take 4 (drop 11 buf))"] by (simp add: payload_len_def)
  then have "frame_encode f = take 8 buf @ take 2 (drop 8 buf) @ [buf ! 10] @ take 4 (drop 11 buf) @ body"
    using len by (simp add: f frame_encode_def to_be_from_be HEADER_LEN_def)
  also have "\<dots> = buf" using buffer_split[OF len] by (simp add: body_def)
  finally show "frame_encode f = buf" .
next
  assume big: "2 ^ 32 \<le> length (sf_payload g)"
  then have "length (sf_payload g) \<noteq> unat (payload_len (sf_payload g))"
    using unat_u32_less[of "payload_len (sf_payload g)"] by linarith
  then show "\<exists>e. frame_decode (frame_encode g) = Inl e"
    by (simp add: frame_encode_def frame_decode_header[simplified])
qed

theorem frame_decode_exact_witness:
  "frame_encode \<lparr>sf_channel = 0, sf_message_type = 6, sf_flags = 2, sf_payload = [49]\<rparr>
     = [0, 0, 0, 0, 0, 0, 0, 0, 0, 6, 2, 0, 0, 0, 1, 49]"
proof -
  let ?f = "\<lparr>sf_channel = 0, sf_message_type = 6, sf_flags = 2, sf_payload = [49]\<rparr>"
  let ?b = "[0, 0, 0, 0, 0, 0, 0, 0, 0, 6, 2, 0, 0, 0, 1, 49] :: bytes"
  have "frame_decode ?b = Inr ?f"
    by (simp add: frame_decode_def HEADER_LEN_def from_be_def be_val_def)
  then show ?thesis using frame_decode_exact[of ?b ?f] by simp
qed

section \<open>Hex decoding\<close>

text \<open>\<open>char::to_digit(16)\<close> on a byte.\<close>

definition to_digit16 :: "char \<Rightarrow> nat option" where
  "to_digit16 c =
     (let n = of_char c in
      if 48 \<le> n \<and> n \<le> 57 then Some (n - 48)
      else if 97 \<le> n \<and> n \<le> 102 then Some (n - 87)
      else if 65 \<le> n \<and> n \<le> 70 then Some (n - 55)
      else None)"

definition is_ascii :: "string \<Rightarrow> bool" where
  "is_ascii s = list_all (\<lambda>c. of_char c < (128 :: nat)) s"

text \<open>\<open>chunks_exact(2)\<close> mapped to bytes, collected into an \<open>Option\<close>.\<close>

fun hex_pairs :: "string \<Rightarrow> bytes option" where
  "hex_pairs [] = Some []"
| "hex_pairs [c] = Some []"
| "hex_pairs (c # d # s) =
     (case (to_digit16 c, to_digit16 d) of
        (Some hi, Some lo) \<Rightarrow> map_option ((#) (of_nat (hi * 16 + lo))) (hex_pairs s)
      | _ \<Rightarrow> None)"

definition hex_decode :: "string \<Rightarrow> bytes option" where
  "hex_decode s = (if \<not> is_ascii s \<or> length s mod 2 \<noteq> 0 then None else hex_pairs s)"

definition hex_encode :: "bytes \<Rightarrow> string" where
  "hex_encode bs = concat (map hex_byte bs)"

lemma to_digit16_hex_digit: "n < 16 \<Longrightarrow> to_digit16 (hex_digit n) = Some n \<and> to_digit16 (hex_digit_upper n) = Some n"
  by (simp add: to_digit16_def hex_digit_def hex_digit_upper_def Let_def)

lemma hex_byte_digits: "to_digit16 (hex_byte b ! 0) = Some (unat b div 16)" "to_digit16 (hex_byte b ! 1) = Some (unat b mod 16)"
  using unat_u8_less[of b] to_digit16_hex_digit[of "unat b div 16"] to_digit16_hex_digit[of "unat b mod 16"]
  by (simp_all add: hex_byte_def less_mult_imp_div_less)

lemma hex_pairs_encode: "hex_pairs (hex_encode bs) = Some bs"
  by (induction bs) (use hex_byte_digits in \<open>auto simp: hex_encode_def hex_byte_def\<close>)

lemma to_digit16_ascii: "to_digit16 c = Some d \<Longrightarrow> of_char c < (128 :: nat) \<and> d < 16"
  by (auto simp: to_digit16_def Let_def split: if_splits)

lemma hex_encode_ascii: "is_ascii (hex_encode bs) \<and> length (hex_encode bs) = 2 * length bs"
  by (induction bs)
    (use hex_byte_digits in \<open>auto simp: hex_encode_def hex_byte_def is_ascii_def dest: to_digit16_ascii\<close>)

lemma hex_pairs_sound: "even (length s) \<Longrightarrow> hex_pairs s = Some bs \<Longrightarrow>
    length s = 2 * length bs \<and> list_all (\<lambda>c. to_digit16 c \<noteq> None) s"
  by (induction s arbitrary: bs rule: hex_pairs.induct) (auto split: option.splits)

lemma hex_digits_ascii: "list_all (\<lambda>c. to_digit16 c \<noteq> None) s \<Longrightarrow> is_ascii s"
  by (induction s) (auto simp: is_ascii_def dest: to_digit16_ascii)

lemma hex_pairs_total: "list_all (\<lambda>c. to_digit16 c \<noteq> None) s \<Longrightarrow> \<exists>bs. hex_pairs s = Some bs"
  by (induction s rule: hex_pairs.induct) (auto split: option.splits)

text \<open>
  Hex sent by a peer is decoded faithfully and totally: decoding the lower-case hex of any
  byte string returns it, and a string is accepted exactly when it is an even number of hex
  digits; anything else (odd length, a non-ASCII byte, another character) is refused.
\<close>

lemma hex_decode_correct:
  "hex_decode (hex_encode bs) = Some bs
   \<and> ((\<exists>r. hex_decode s = Some r) \<longleftrightarrow> even (length s) \<and> list_all (\<lambda>c. to_digit16 c \<noteq> None) s)"
proof
  show "hex_decode (hex_encode bs) = Some bs"
    by (simp add: hex_decode_def hex_encode_ascii hex_pairs_encode)
  show "(\<exists>r. hex_decode s = Some r) \<longleftrightarrow> even (length s) \<and> list_all (\<lambda>c. to_digit16 c \<noteq> None) s"
  proof
    assume "\<exists>r. hex_decode s = Some r"
    then obtain r where "even (length s)" "hex_pairs s = Some r"
      by (auto simp: hex_decode_def even_iff_mod_2_eq_zero split: if_splits)
    then show "even (length s) \<and> list_all (\<lambda>c. to_digit16 c \<noteq> None) s"
      using hex_pairs_sound by blast
  next
    assume h: "even (length s) \<and> list_all (\<lambda>c. to_digit16 c \<noteq> None) s"
    then have "hex_decode s = hex_pairs s"
      using hex_digits_ascii[of s] by (simp add: hex_decode_def even_iff_mod_2_eq_zero)
    then show "\<exists>r. hex_decode s = Some r" using h hex_pairs_total[of s] by simp
  qed
qed

end
