(* ===== verification/PB_Negotiation.thy ===== *)
theory PB_Negotiation
  imports PB_Session_Types
begin

text \<open>
  Version and capability negotiation (\<open>peerbeam-domain/src/session/negotiation.rs\<close>). A
  \<open>CapabilitySet\<close> is the vector the code keeps, looked up by binary search; the search is
  modelled as such and shown to agree with the map the vector denotes while the vector is
  sorted by channel without repeats, which every operation and the decoder keep.

  Shown here: both peers compute the same agreed version and, entry for entry, the same agreed
  capability set; an agreed channel is one both advertised, with the feature bits both set.
\<close>

section \<open>Versions\<close>

definition VERSION_CURRENT :: version where
  "VERSION_CURRENT = \<lparr>major = 1, minor = 0\<rparr>"

definition is_compatible_with :: "version \<Rightarrow> version \<Rightarrow> bool" where
  "is_compatible_with a b = (major a = major b)"

datatype version_negotiation = Agreed version | Incompatible version version

definition negotiate_version :: "version \<Rightarrow> version \<Rightarrow> version_negotiation" where
  "negotiate_version loc peer =
     (if major loc = major peer
      then Agreed \<lparr>major = major loc, minor = min (minor loc) (minor peer)\<rparr>
      else Incompatible loc peer)"

section \<open>Capability sets\<close>

definition CHAT_FEAT_FILEREF :: u32 where "CHAT_FEAT_FILEREF = 1"
definition CHAT_FEAT_FILEDECLINE :: u32 where "CHAT_FEAT_FILEDECLINE = 2"
definition CHAT_FEAT_REACTION :: u32 where "CHAT_FEAT_REACTION = 4"
definition CHAT_FEAT_RECEIPT :: u32 where "CHAT_FEAT_RECEIPT = 8"
definition CHAT_FEAT_GROUP :: u32 where "CHAT_FEAT_GROUP = 16"

record capability =
  cap_channel :: channel_type
  cap_features :: u32

definition capability_new :: "channel_type \<Rightarrow> capability" where
  "capability_new c = \<lparr>cap_channel = c, cap_features = 0\<rparr>"

definition capability_with_features :: "channel_type \<Rightarrow> u32 \<Rightarrow> capability" where
  "capability_with_features c f = \<lparr>cap_channel = c, cap_features = f\<rparr>"

type_synonym capability_set = "capability list"

text \<open>
  \<open>slice::binary_search_by_key\<close>: \<open>Inr i\<close> is \<open>Ok(i)\<close>, an index holding the key; \<open>Inl i\<close> is
  \<open>Err(i)\<close>, where it would be inserted.
\<close>

function bsearch :: "'k::linorder list \<Rightarrow> 'k \<Rightarrow> nat \<Rightarrow> nat \<Rightarrow> nat + nat" where
  "bsearch ks k lo hi =
     (if lo < hi then
        let mid = (lo + hi) div 2 in
        if ks ! mid = k then Inr mid
        else if ks ! mid < k then bsearch ks k (Suc mid) hi
        else bsearch ks k lo mid
      else Inl lo)"
  by pat_completeness auto
termination
  by (relation "measure (\<lambda>(ks, k, lo, hi). hi - lo)") auto

declare bsearch.simps [simp del]

definition binary_search_by_channel :: "capability_set \<Rightarrow> channel_type \<Rightarrow> nat + nat" where
  "binary_search_by_channel cs c = bsearch (map cap_channel cs) c 0 (length cs)"

definition cap_insert :: "capability \<Rightarrow> capability_set \<Rightarrow> capability_set" where
  "cap_insert cap cs =
     (case binary_search_by_channel cs (cap_channel cap) of
        Inr idx \<Rightarrow> cs[idx := cap]
      | Inl idx \<Rightarrow> take idx cs @ cap # drop idx cs)"

definition cap_features_of :: "capability_set \<Rightarrow> channel_type \<Rightarrow> u32 option" where
  "cap_features_of cs c =
     (case binary_search_by_channel cs c of
        Inr idx \<Rightarrow> Some (cap_features (cs ! idx))
      | Inl _ \<Rightarrow> None)"

definition supports :: "capability_set \<Rightarrow> channel_type \<Rightarrow> bool" where
  "supports cs c = (cap_features_of cs c \<noteq> None)"

definition cap_intersect :: "capability_set \<Rightarrow> capability_set \<Rightarrow> capability_set" where
  "cap_intersect self other =
     fold (\<lambda>cap out. case cap_features_of other (cap_channel cap) of
                        Some their \<Rightarrow> cap_insert (capability_with_features (cap_channel cap) (cap_features cap AND their)) out
                      | None \<Rightarrow> out) self []"

text \<open>The custom \<open>Deserialize\<close>: rebuild through \<open>insert\<close> whatever order the wire had.\<close>

definition cap_deserialize :: "capability list \<Rightarrow> capability_set" where
  "cap_deserialize raw = fold cap_insert raw []"

section \<open>The vector denotes a map\<close>

definition caps_ok :: "capability_set \<Rightarrow> bool" where
  "caps_ok cs = sorted_wrt (<) (map cap_channel cs)"

definition caps_map :: "capability_set \<Rightarrow> channel_type \<rightharpoonup> u32" where
  "caps_map cs = map_of (map (\<lambda>c. (cap_channel c, cap_features c)) cs)"

text \<open>What a search over a strictly sorted slice returns.\<close>

lemma bsearch_spec:
  assumes "sorted_wrt (<) ks" "lo \<le> hi" "hi \<le> length ks"
    and "\<forall>i < lo. ks ! i < k" "\<forall>i. hi \<le> i \<and> i < length ks \<longrightarrow> k < ks ! i"
  shows "case bsearch ks k lo hi of
           Inr i \<Rightarrow> i < length ks \<and> ks ! i = k
         | Inl i \<Rightarrow> i \<le> length ks \<and> (\<forall>j < i. ks ! j < k) \<and> (\<forall>j. i \<le> j \<and> j < length ks \<longrightarrow> k < ks ! j)"
  using assms
proof (induction ks k lo hi rule: bsearch.induct)
  case (1 ks k lo hi)
  show ?case
  proof (cases "lo < hi")
    case True
    define mid where "mid = (lo + hi) div 2"
    have mid: "lo \<le> mid" "mid < hi" using True by (auto simp: mid_def)
    have below: "ks ! i \<le> ks ! mid" if "i \<le> mid" for i
      using that mid "1.prems" by (metis le_neq_implies_less less_imp_le order_less_le_trans sorted_wrt_nth_less order_refl)
    have above: "ks ! mid \<le> ks ! i" if "mid \<le> i" "i < length ks" for i
      using that "1.prems"(1) by (metis le_neq_implies_less less_imp_le sorted_wrt_nth_less order_refl)
    consider "ks ! mid = k" | "ks ! mid < k" | "k < ks ! mid" by (rule linorder_cases)
    then show ?thesis
    proof cases
      case 1
      then show ?thesis using True mid "1.prems"(3) by (simp add: bsearch.simps[of ks k lo hi] mid_def Let_def)
    next
      case 2
      have *: "\<forall>i < Suc mid. ks ! i < k" using below 2 by (meson le_less_trans less_Suc_eq_le)
      have "bsearch ks k lo hi = bsearch ks k (Suc mid) hi"
        using True less_imp_neq[OF 2] 2 by (simp add: bsearch.simps[of ks k lo hi] mid_def Let_def)
      then show ?thesis using "1.IH"(1)[OF True mid_def less_imp_neq[OF 2] 2] "1.prems" mid * by simp
    next
      case 3
      have *: "\<forall>i. mid \<le> i \<and> i < length ks \<longrightarrow> k < ks ! i" using above 3 by (meson order_less_le_trans)
      have nk: "ks ! mid \<noteq> k" "\<not> ks ! mid < k" using 3 by auto
      have "bsearch ks k lo hi = bsearch ks k lo mid"
        using True nk by (simp add: bsearch.simps[of ks k lo hi] mid_def[symmetric] Let_def)
      then show ?thesis using "1.IH"(2)[OF True mid_def nk] "1.prems" mid * by simp
    qed
  next
    case False
    then have "bsearch ks k lo hi = Inl lo" by (simp add: bsearch.simps[of ks k lo hi])
    with False show ?thesis using "1.prems" by simp
  qed
qed

lemma bsearch_whole:
  assumes "sorted_wrt (<) ks"
  shows "case bsearch ks k 0 (length ks) of
           Inr i \<Rightarrow> i < length ks \<and> ks ! i = k
         | Inl i \<Rightarrow> i \<le> length ks \<and> (\<forall>j < i. ks ! j < k) \<and> (\<forall>j. i \<le> j \<and> j < length ks \<longrightarrow> k < ks ! j)"
  by (rule bsearch_spec[OF assms]) auto

lemma binary_search_found:
  "caps_ok cs \<Longrightarrow> binary_search_by_channel cs c = Inr i \<Longrightarrow> i < length cs \<and> cap_channel (cs ! i) = c"
  using bsearch_whole[of "map cap_channel cs" c]
  by (auto simp: caps_ok_def binary_search_by_channel_def)

lemma binary_search_absent:
  assumes "caps_ok cs" "binary_search_by_channel cs c = Inl i"
  shows "i \<le> length cs \<and> (\<forall>j < i. cap_channel (cs ! j) < c) \<and> (\<forall>j. i \<le> j \<and> j < length cs \<longrightarrow> c < cap_channel (cs ! j))"
  using assms bsearch_whole[of "map cap_channel cs" c]
  by (auto simp: caps_ok_def binary_search_by_channel_def)

lemma absent_split:
  assumes "caps_ok cs" "binary_search_by_channel cs c = Inl i"
  shows "\<forall>x \<in> set (take i cs). cap_channel x < c" "\<forall>x \<in> set (drop i cs). c < cap_channel x"
proof -
  note b = binary_search_absent[OF assms]
  show "\<forall>x \<in> set (take i cs). cap_channel x < c"
    using b by (auto simp: in_set_conv_nth)
  show "\<forall>x \<in> set (drop i cs). c < cap_channel x"
  proof
    fix x assume "x \<in> set (drop i cs)"
    then obtain j where "j < length (drop i cs)" "x = drop i cs ! j" by (metis in_set_conv_nth)
    then have "x = cs ! (i + j)" "i \<le> i + j" "i + j < length cs" using b by auto
    then show "c < cap_channel x" using b by blast
  qed
qed

text \<open>The insertion is the insertion of the ordered map the vector stands for.\<close>

definition caps_om :: "capability_set \<Rightarrow> (channel_type, u32) omap" where
  "caps_om cs = map (\<lambda>c. (cap_channel c, cap_features c)) cs"

lemma caps_om_simps [simp]:
  "caps_om [] = []" "caps_om (c # cs) = (cap_channel c, cap_features c) # caps_om cs"
  by (simp_all add: caps_om_def)

lemma caps_om_inv: "om_inv (caps_om cs) = caps_ok cs"
  by (simp add: om_inv_def caps_om_def caps_ok_def comp_def)

lemma caps_map_om: "caps_map cs = map_of (caps_om cs)"
  by (simp add: caps_map_def caps_om_def)

lemma om_insert_append:
  "\<forall>p \<in> set xs. fst p < k \<Longrightarrow> om_insert k v (xs @ ys) = xs @ om_insert k v ys"
  by (induction xs) auto

lemma om_insert_front: "\<forall>p \<in> set ys. k < fst p \<Longrightarrow> om_insert k v ys = (k, v) # ys"
  by (cases ys) (auto simp: less_imp_neq)

lemma om_insert_replace: "fst p = k \<Longrightarrow> om_insert k v (p # ys) = (k, v) # ys"
  by simp

lemma caps_om_insert:
  assumes "caps_ok cs"
  shows "caps_om (cap_insert cap cs) = om_insert (cap_channel cap) (cap_features cap) (caps_om cs)"
proof (cases "binary_search_by_channel cs (cap_channel cap)")
  case (Inl i)
  note sp = absent_split[OF assms Inl]
  have "caps_om cs = caps_om (take i cs) @ caps_om (drop i cs)"
    by (simp add: caps_om_def flip: map_append)
  then show ?thesis using Inl sp
    by (simp add: cap_insert_def om_insert_append om_insert_front caps_om_def)
next
  case (Inr i)
  then have i: "i < length cs" "cap_channel (cs ! i) = cap_channel cap"
    using binary_search_found[OF assms Inr] by auto
  have "\<forall>x \<in> set (take i cs). cap_channel x < cap_channel cap"
    using assms i sorted_wrt_nth_less[of "(<)" "map cap_channel cs" _ i] by (force simp: caps_ok_def in_set_conv_nth)
  moreover have "caps_om cs = caps_om (take i cs) @ (cap_channel cap, cap_features (cs ! i)) # caps_om (drop (Suc i) cs)"
    using i id_take_nth_drop[of i cs] by (metis (no_types, lifting) caps_om_def list.simps(9) map_append)
  ultimately show ?thesis using Inr i
    by (simp add: cap_insert_def om_insert_append upd_conv_take_nth_drop caps_om_def)
qed

lemma caps_ok_insert [pb_inv]: "caps_ok cs \<Longrightarrow> caps_ok (cap_insert cap cs)"
  using caps_om_insert[of cs cap] caps_om_inv om_inv_insert by metis

lemma caps_map_insert: "caps_ok cs \<Longrightarrow> caps_map (cap_insert cap cs) = (caps_map cs)(cap_channel cap \<mapsto> cap_features cap)"
  by (simp add: caps_map_om caps_om_insert map_of_om_insert)

lemma caps_ok_Nil [simp]: "caps_ok []"
  by (simp add: caps_ok_def)

lemma cap_features_of_map: "caps_ok cs \<Longrightarrow> cap_features_of cs c = caps_map cs c"
proof (cases "binary_search_by_channel cs c")
  case (Inl i)
  assume ok: "caps_ok cs"
  have "c \<notin> cap_channel ` set cs"
    using absent_split[OF ok Inl] by (metis append_take_drop_id image_iff less_irrefl set_append Un_iff)
  then have "caps_map cs c = None" by (simp add: caps_map_def map_of_eq_None_iff image_image)
  then show ?thesis using Inl by (simp add: cap_features_of_def)
next
  case (Inr i)
  assume ok: "caps_ok cs"
  have "(c, cap_features (cs ! i)) \<in> set (caps_om cs)"
    using binary_search_found[OF ok Inr] by (auto simp: caps_om_def image_iff intro!: bexI[of _ "cs ! i"])
  then have "caps_map cs c = Some (cap_features (cs ! i))"
    using ok by (simp add: caps_map_om caps_om_inv om_inv_distinct)
  then show ?thesis using Inr by (simp add: cap_features_of_def)
qed


section \<open>Intersection and agreement\<close>

definition inter_step :: "capability_set \<Rightarrow> capability \<Rightarrow> capability_set \<Rightarrow> capability_set" where
  "inter_step other cap out =
     (case cap_features_of other (cap_channel cap) of
        Some their \<Rightarrow> cap_insert (capability_with_features (cap_channel cap) (cap_features cap AND their)) out
      | None \<Rightarrow> out)"

lemma cap_intersect_fold: "cap_intersect self other = fold (inter_step other) self []"
  by (simp add: cap_intersect_def inter_step_def[abs_def])

lemma caps_ok_fold:
  "caps_ok out \<Longrightarrow> caps_ok (fold (inter_step other) cs out)"
  by (induction cs arbitrary: out) (auto simp: inter_step_def caps_ok_insert split: option.splits)

lemma caps_ok_intersect [pb_inv]: "caps_ok (cap_intersect a b)"
  by (simp add: cap_intersect_fold caps_ok_fold)

lemma caps_map_fold:
  assumes "caps_ok out" "caps_ok other" "distinct (map cap_channel cs)"
  shows "caps_map (fold (inter_step other) cs out) c =
    (case (caps_map cs c, caps_map other c) of (Some f, Some g) \<Rightarrow> Some (f AND g) | _ \<Rightarrow> caps_map out c)"
  using assms
proof (induction cs arbitrary: out)
  case Nil
  then show ?case by (simp add: caps_map_def)
next
  case (Cons x cs)
  have ok: "caps_ok (inter_step other x out)"
    using Cons.prems by (auto simp: inter_step_def caps_ok_insert split: option.splits)
  have "caps_map (inter_step other x out) c =
     (if c = cap_channel x then (case caps_map other c of Some g \<Rightarrow> Some (cap_features x AND g) | None \<Rightarrow> caps_map out c)
      else caps_map out c)"
    using Cons.prems
    by (auto simp: inter_step_def caps_map_insert cap_features_of_map capability_with_features_def split: option.splits)
  moreover have "caps_map cs c = None" if "c = cap_channel x"
    using Cons.prems(3) that by (auto simp: caps_map_def map_of_eq_None_iff)
  moreover have "caps_map (x # cs) c = (if c = cap_channel x then Some (cap_features x) else caps_map cs c)"
    by (simp add: caps_map_def)
  ultimately show ?case using Cons.IH[OF ok] Cons.prems by (auto split: option.splits)
qed

lemma caps_ok_distinct: "caps_ok cs \<Longrightarrow> distinct (map cap_channel cs)"
  by (auto simp: caps_ok_def strict_sorted_iff)

lemma caps_map_intersect:
  assumes "caps_ok a" "caps_ok b"
  shows "caps_map (cap_intersect a b) c =
    (case (caps_map a c, caps_map b c) of (Some f, Some g) \<Rightarrow> Some (f AND g) | _ \<Rightarrow> None)"
  using caps_map_fold[OF caps_ok_Nil assms(2) caps_ok_distinct[OF assms(1)], of c]
  by (simp add: cap_intersect_fold caps_map_def split: option.splits)

lemma caps_eqI:
  assumes "caps_ok a" "caps_ok b" "caps_map a = caps_map b"
  shows "a = b"
proof -
  have "caps_om a = caps_om b" using assms by (intro om_eqI) (simp_all add: caps_om_inv caps_map_om)
  moreover have "inj (\<lambda>c :: capability. (cap_channel c, cap_features c))"
    by (rule injI) simp
  ultimately show ?thesis by (simp add: caps_om_def inj_map_eq_map)
qed

lemma caps_ok_deserialize [pb_inv]: "caps_ok (cap_deserialize raw)"
proof -
  have "caps_ok out \<Longrightarrow> caps_ok (fold cap_insert raw out)" for out
    by (induction raw arbitrary: out) (auto simp: caps_ok_insert)
  then show ?thesis by (simp add: cap_deserialize_def)
qed

lemma cap_deserialize_ok:
  assumes "caps_ok cs"
  shows "cap_deserialize cs = cs"
proof -
  have "caps_om (fold cap_insert raw out) = fold (\<lambda>(k, v). om_insert k v) (caps_om raw) (caps_om out)"
    if "caps_ok out" for raw out
    using that by (induction raw arbitrary: out) (auto simp: caps_om_insert caps_ok_insert)
  from this[of "[]" cs] have "caps_om (cap_deserialize cs) = om_collect (caps_om cs)"
    by (simp add: cap_deserialize_def om_collect_def caps_ok_def)
  then have "caps_map (cap_deserialize cs) = map_of (rev (caps_om cs))"
    by (simp add: caps_map_om map_of_om_collect)
  also have "\<dots> = caps_map cs"
    using assms by (simp add: caps_map_om map_of_rev_distinct om_inv_distinct caps_om_inv)
  finally show ?thesis using assms by (intro caps_eqI caps_ok_deserialize)
qed

lemma cap_intersect_commute:
  assumes "caps_ok a" "caps_ok b"
  shows "cap_intersect a b = cap_intersect b a"
  by (rule caps_eqI)
     (auto simp: assms caps_ok_intersect caps_map_intersect fun_eq_iff and.commute split: option.splits)

text \<open>
  Whatever order a peer lists its capabilities in, both ends agree: the negotiated set is
  the same vector computed from either side, it is sorted and duplicate-free so later binary
  searches are valid, and looking a channel up in it succeeds exactly when both sides
  advertised the channel, returning the feature bits they have in common.
\<close>

lemma capability_negotiation_agrees:
  fixes wa wb :: "capability list"
  defines "a \<equiv> cap_deserialize wa" and "b \<equiv> cap_deserialize wb"
  shows "cap_intersect a b = cap_intersect b a
    \<and> caps_ok (cap_intersect a b)
    \<and> cap_features_of (cap_intersect a b) c =
        (case (cap_features_of a c, cap_features_of b c) of (Some f, Some g) \<Rightarrow> Some (f AND g) | _ \<Rightarrow> None)"
proof (intro conjI)
  have ok: "caps_ok a" "caps_ok b" by (simp_all add: a_def b_def caps_ok_deserialize)
  show "caps_ok (cap_intersect a b)" by (rule caps_ok_intersect)
  show "cap_intersect a b = cap_intersect b a" by (rule cap_intersect_commute[OF ok])
  show "cap_features_of (cap_intersect a b) c =
        (case (cap_features_of a c, cap_features_of b c) of (Some f, Some g) \<Rightarrow> Some (f AND g) | _ \<Rightarrow> None)"
    using ok by (simp add: cap_features_of_map caps_ok_intersect caps_map_intersect)
qed

text \<open>
  Version negotiation is symmetric and never exceeds what either side speaks: the two
  peers reach the same verdict, an agreement keeps the common major at the lower minor, and
  disagreement happens exactly on different majors.
\<close>

lemma version_negotiation_agrees:
  "(\<forall>v. negotiate_version a b = Agreed v \<longleftrightarrow> negotiate_version b a = Agreed v)
   \<and> (negotiate_version a b = Agreed v \<longleftrightarrow>
        is_compatible_with a b \<and> major v = major a \<and> minor v \<le> minor a \<and> minor v \<le> minor b
        \<and> (minor v = minor a \<or> minor v = minor b))"
  by (auto simp: negotiate_version_def is_compatible_with_def min_def)

end
