(* ===== verification/PB_Crypto.thy ===== *)
theory PB_Crypto
  imports PB_Frame PB_Negotiation
begin

text \<open>
  The cryptographic adapter (\<open>peerbeam-crypto/src/lib.rs\<close>) and the per-channel contexts of
  the session (\<open>peerbeam-transfer/src/session/crypto.rs\<close>), with the frame codec of the sealed
  links (\<open>secure.rs\<close>).

  The primitives are third-party crates: AES-256-GCM, HMAC-SHA256, SHA-256 and X25519 are the
  fields of a record \<open>prims\<close> that every definition takes. What is relied on of them is stated
  as named hypotheses: \<open>gcm_ok\<close> (decryption inverts encryption, and only a ciphertext that
  encryption produces is accepted), \<open>hmac_len\<close> (32-byte tags) and \<open>dh_ok\<close> (the two halves of
  a Diffie-Hellman exchange agree). Nothing is assumed about secrecy.

  Shown here: the key-derivation labels are injective in every input; the two ends of a
  channel derive mirrored keys and the same resume key; a channel delivers what was sent, in
  order; an adversary who can replay, drop, reorder and inject frames makes the receiver
  accept only a prefix of what was sent; no nonce is used twice under one context.
\<close>

section \<open>Primitives\<close>

record prims =
  gcm_encrypt :: "bytes \<Rightarrow> bytes \<Rightarrow> bytes \<Rightarrow> bytes option"
  gcm_decrypt :: "bytes \<Rightarrow> bytes \<Rightarrow> bytes \<Rightarrow> bytes option"
  hmac_sha256 :: "bytes \<Rightarrow> bytes \<Rightarrow> bytes"
  sha256 :: "bytes \<Rightarrow> bytes"
  x25519_public :: "bytes \<Rightarrow> bytes"
  x25519_dh :: "bytes \<Rightarrow> bytes \<Rightarrow> bytes"
  contributory :: "bytes \<Rightarrow> bool"

definition gcm_ok :: "prims \<Rightarrow> bool" where
  "gcm_ok P = (\<forall>k n p c. gcm_encrypt P k n p = Some c \<longleftrightarrow> gcm_decrypt P k n c = Some p)"

definition hmac_len :: "prims \<Rightarrow> bool" where
  "hmac_len P = (\<forall>k m. length (hmac_sha256 P k m) = 32)"

definition dh_ok :: "prims \<Rightarrow> bool" where
  "dh_ok P = (\<forall>a b. x25519_dh P a (x25519_public P b) = x25519_dh P b (x25519_public P a))"

section \<open>The adapter\<close>

record session_keys =
  sk_send :: bytes
  sk_recv :: bytes

definition kdf :: "prims \<Rightarrow> bytes \<Rightarrow> bytes \<Rightarrow> bytes" where
  "kdf P shared label = sha256 P (shared @ label)"

definition key_exchange :: "prims \<Rightarrow> bytes \<Rightarrow> bytes \<Rightarrow> (domain_error, session_keys) result" where
  "key_exchange P ours theirs =
     (let our_public = x25519_public P ours;
          shared = x25519_dh P ours theirs
      in if \<not> contributory P shared then
           Inl (EEncryption ''key exchange produced a non-contributory (low-order) shared secret'')
         else
           let lo = kdf P shared (str_bytes ''peerbeam-key-lo'');
               hi = kdf P shared (str_bytes ''peerbeam-key-hi'')
           in if our_public < theirs
              then Inr \<lparr>sk_send = lo, sk_recv = hi\<rparr>
              else Inr \<lparr>sk_send = hi, sk_recv = lo\<rparr>)"

text \<open>
  \<open>Aes256Gcm::new_from_slice\<close> fails only on a key that is not 32 bytes, which the key type
  rules out.
\<close>

definition enc_seal :: "prims \<Rightarrow> bytes \<Rightarrow> bytes \<Rightarrow> bytes \<Rightarrow> (domain_error, bytes) result" where
  "enc_seal P key nonce plaintext =
     (case gcm_encrypt P key nonce plaintext of
        None \<Rightarrow> Inl (EEncryption ''seal failed'')
      | Some ciphertext \<Rightarrow> Inr (nonce @ ciphertext))"

definition enc_open :: "prims \<Rightarrow> bytes \<Rightarrow> bytes \<Rightarrow> (domain_error, bytes) result" where
  "enc_open P key ciphertext =
     (if length ciphertext < 12 then Inl (EEncryption ''ciphertext too short'')
      else case gcm_decrypt P key (take 12 ciphertext) (drop 12 ciphertext) of
             None \<Rightarrow> Inl (EEncryption ''open failed (bad tag or key)'')
           | Some plain \<Rightarrow> Inr plain)"

definition to_hex :: "bytes \<Rightarrow> string" where
  "to_hex bs = concat (map hex_byte bs)"

definition to_hex_upper :: "bytes \<Rightarrow> string" where
  "to_hex_upper bs = concat (map hex_byte_upper bs)"

definition fingerprint :: "prims \<Rightarrow> bytes \<Rightarrow> string" where
  "fingerprint P public = to_hex (sha256 P public)"

text \<open>The loop over \<open>hex.chars().enumerate()\<close>: a space before every fourth digit but the first.\<close>

primrec group_fours :: "nat \<Rightarrow> string \<Rightarrow> string" where
  "group_fours i [] = []"
| "group_fours i (ch # cs) =
     (if i \<noteq> 0 \<and> i mod 4 = 0 then CHR '' '' # ch # group_fours (Suc i) cs
      else ch # group_fours (Suc i) cs)"

definition pairing_code :: "prims \<Rightarrow> bytes \<Rightarrow> bytes \<Rightarrow> string" where
  "pairing_code P a b =
     (let (lo, hi) = (if a \<le> b then (a, b) else (b, a));
          digest = sha256 P (str_bytes ''peerbeam-pairing-v1'' @ lo @ hi)
      in group_fours 0 (to_hex_upper (take 16 digest)))"

section \<open>Key derivation\<close>

definition DOMAIN_LABEL :: bytes where "DOMAIN_LABEL = str_bytes ''peerbeam-channel-keys-v1''"
definition RESUME_LABEL :: bytes where "RESUME_LABEL = str_bytes ''peerbeam-resume-key-v1''"
definition PURPOSE_KEY :: u8 where "PURPOSE_KEY = 1"
definition PURPOSE_NONCE :: u8 where "PURPOSE_NONCE = 2"
definition CONTROL_VERSION :: version where "CONTROL_VERSION = \<lparr>major = 1, minor = 0\<rparr>"

datatype direction = Forward | Reverse

definition dir_byte :: "direction \<Rightarrow> u8" where
  "dir_byte d = (case d of Forward \<Rightarrow> 0 | Reverse \<Rightarrow> 1)"

text \<open>
  The expansion loop. It ends because the block counter is checked: at most 255 rounds.
\<close>

function hkdf_loop :: "prims \<Rightarrow> bytes \<Rightarrow> bytes \<Rightarrow> nat \<Rightarrow> bytes \<Rightarrow> bytes \<Rightarrow> u8 \<Rightarrow> (session_error, bytes) result" where
  "hkdf_loop P prk inp out_len out block counter =
     (if length out < out_len then
        let block = hmac_sha256 P prk (block @ inp @ [counter]);
            out = out @ block
        in case checked_add counter 1 of
             None \<Rightarrow> Inl (ChannelErr ''hkdf: output too long'')
           | Some counter \<Rightarrow> hkdf_loop P prk inp out_len out block counter
      else Inr (take out_len out))"
  by pat_completeness auto
termination
proof (relation "measure (\<lambda>(P, prk, inp, n, out, block, ctr). 256 - unat ctr)", goal_cases)
  case (2 P prk inp out_len out block ctr x xa c)
  then have "unat c = Suc (unat ctr)" by (blast dest: checked_add_oneD)
  then show ?case using unat_u8_less[of c] by simp
qed simp

declare hkdf_loop.simps [simp del]

definition hkdf_expand :: "prims \<Rightarrow> bytes \<Rightarrow> bytes \<Rightarrow> nat \<Rightarrow> (session_error, bytes) result" where
  "hkdf_expand P prk inp out_len = hkdf_loop P prk inp out_len [] [] 1"

definition info :: "u8 \<Rightarrow> channel_id \<Rightarrow> version \<Rightarrow> direction \<Rightarrow> u64 \<Rightarrow> bytes" where
  "info purpose channel ver dir epoch =
     DOMAIN_LABEL @ [purpose] @ to_be channel @ to_be (major ver) @ to_be (minor ver) @
     [dir_byte dir] @ to_be epoch"

definition derive_key :: "prims \<Rightarrow> bytes \<Rightarrow> channel_id \<Rightarrow> version \<Rightarrow> direction \<Rightarrow> u64 \<Rightarrow> (session_error, bytes) result" where
  "derive_key P master channel ver dir epoch =
     hkdf_expand P master (info PURPOSE_KEY channel ver dir epoch) 32"

definition derive_prefix :: "prims \<Rightarrow> bytes \<Rightarrow> channel_id \<Rightarrow> version \<Rightarrow> direction \<Rightarrow> u64 \<Rightarrow> (session_error, bytes) result" where
  "derive_prefix P master channel ver dir epoch =
     hkdf_expand P master (info PURPOSE_NONCE channel ver dir epoch) 4"

section \<open>A channel's context\<close>

record channel_crypto =
  send_key :: bytes
  recv_key :: bytes
  send_prefix :: bytes
  recv_prefix :: bytes
  send_ctr :: u64
  recv_ctr :: u64

definition from_keys :: "bytes \<Rightarrow> bytes \<Rightarrow> bytes \<Rightarrow> bytes \<Rightarrow> channel_crypto" where
  "from_keys sk rk sp rp =
     \<lparr>send_key = sk, recv_key = rk, send_prefix = sp, recv_prefix = rp, send_ctr = 0, recv_ctr = 0\<rparr>"

definition nonce :: "bytes \<Rightarrow> u64 \<Rightarrow> bytes" where
  "nonce prefix ctr = prefix @ to_be ctr"

definition cc_seal :: "prims \<Rightarrow> channel_crypto \<Rightarrow> bytes \<Rightarrow> (session_error, bytes) result" where
  "cc_seal P cc plaintext =
     (case enc_seal P (send_key cc) (nonce (send_prefix cc) (send_ctr cc)) plaintext of
        Inl e \<Rightarrow> Inl (session_error_from e)
      | Inr sealed \<Rightarrow> Inr sealed)"

definition advance_send :: "channel_crypto \<Rightarrow> (session_error, channel_crypto) result" where
  "advance_send cc =
     (case checked_add (send_ctr cc) 1 of
        None \<Rightarrow> Inl (ChannelErr ''send nonce counter overflow'')
      | Some c \<Rightarrow> Inr (cc\<lparr>send_ctr := c\<rparr>))"

text \<open>On every error the context is unchanged, so an error carries none.\<close>

definition cc_open :: "prims \<Rightarrow> channel_crypto \<Rightarrow> bytes \<Rightarrow> (session_error, bytes \<times> channel_crypto) result" where
  "cc_open P cc sealed =
     (if length sealed < 12 then Inl (ChannelErr ''secure frame too short'')
      else
        let got_prefix = take 4 sealed;
            got_ctr = from_be (take 8 (drop 4 sealed))
        in if got_prefix \<noteq> recv_prefix cc \<or> got_ctr \<noteq> recv_ctr cc then
             Inl (ChannelErr ''replayed, reordered, or forged frame'')
           else case enc_open P (recv_key cc) sealed of
                  Inl e \<Rightarrow> Inl (session_error_from e)
                | Inr plain \<Rightarrow>
                    (case checked_add (recv_ctr cc) 1 of
                       None \<Rightarrow> Inl (ChannelErr ''recv nonce counter overflow'')
                     | Some c \<Rightarrow> Inr (plain, cc\<lparr>recv_ctr := c\<rparr>)))"

section \<open>The session's context\<close>

datatype session_role = Initiator | Responder

record session_crypto =
  master_send :: bytes
  master_recv :: bytes
  sc_role :: session_role
  sc_epoch :: u64

text \<open>The outcome of the authenticated handshake (\<open>auth.rs\<close>), which keys the session.\<close>

record auth_session =
  as_send_key :: bytes
  as_recv_key :: bytes
  as_send_prefix :: bytes
  as_recv_prefix :: bytes
  as_peer_id :: device_id
  as_peer_name :: string
  as_newly_trusted :: bool
  as_pairing_code :: string
  as_transcript :: bytes

definition from_session :: "auth_session \<Rightarrow> session_role \<Rightarrow> session_crypto" where
  "from_session a role = \<lparr>master_send = as_send_key a, master_recv = as_recv_key a, sc_role = role, sc_epoch = 0\<rparr>"

definition with_epoch :: "session_crypto \<Rightarrow> u64 \<Rightarrow> session_crypto" where
  "with_epoch sc e = sc\<lparr>sc_epoch := e\<rparr>"

definition resume_key :: "prims \<Rightarrow> session_crypto \<Rightarrow> (session_error, bytes) result" where
  "resume_key P sc =
     (let (lo, hi) = (if master_send sc \<le> master_recv sc
                      then (master_send sc, master_recv sc) else (master_recv sc, master_send sc))
      in hkdf_expand P (lo @ hi) RESUME_LABEL 32)"

definition send_dir :: "session_crypto \<Rightarrow> direction" where
  "send_dir sc = (case sc_role sc of Initiator \<Rightarrow> Forward | Responder \<Rightarrow> Reverse)"

definition recv_dir :: "session_crypto \<Rightarrow> direction" where
  "recv_dir sc = (case sc_role sc of Initiator \<Rightarrow> Reverse | Responder \<Rightarrow> Forward)"

definition derive :: "prims \<Rightarrow> session_crypto \<Rightarrow> channel_id \<Rightarrow> version \<Rightarrow> (session_error, channel_crypto) result" where
  "derive P sc channel ver =
     (let e = sc_epoch sc in
      rbind (derive_key P (master_send sc) channel ver (send_dir sc) e) (\<lambda>sk.
      rbind (derive_key P (master_recv sc) channel ver (recv_dir sc) e) (\<lambda>rk.
      rbind (derive_prefix P (master_send sc) channel ver (send_dir sc) e) (\<lambda>sp.
      rbind (derive_prefix P (master_recv sc) channel ver (recv_dir sc) e) (\<lambda>rp.
      Inr (from_keys sk rk sp rp))))))"

definition control_crypto :: "prims \<Rightarrow> session_crypto \<Rightarrow> (session_error, channel_crypto) result" where
  "control_crypto P sc = derive P sc CONTROL CONTROL_VERSION"

section \<open>The frame codec of sealed links\<close>

datatype frame_kind = Handshake | Meta | Chunk_frame | Ack | Control_frame

record link_frame =
  lf_kind :: frame_kind
  lf_payload :: bytes

definition kind_tag :: "frame_kind \<Rightarrow> u8" where
  "kind_tag k = (case k of Handshake \<Rightarrow> 0 | Meta \<Rightarrow> 1 | Chunk_frame \<Rightarrow> 2 | Ack \<Rightarrow> 3 | Control_frame \<Rightarrow> 4)"

definition tag_kind :: "u8 \<Rightarrow> (domain_error, frame_kind) result" where
  "tag_kind t =
     (if t = 0 then Inr Handshake else if t = 1 then Inr Meta else if t = 2 then Inr Chunk_frame
      else if t = 3 then Inr Ack else if t = 4 then Inr Control_frame
      else Inl (EIntegrity (''unknown frame tag '' @ show_nat (unat t))))"

definition encode_link_frame :: "link_frame \<Rightarrow> bytes" where
  "encode_link_frame f = kind_tag (lf_kind f) # lf_payload f"

definition decode_link_frame :: "bytes \<Rightarrow> (domain_error, link_frame) result" where
  "decode_link_frame bs =
     (case bs of
        [] \<Rightarrow> Inl (EIntegrity ''empty secure frame'')
      | tag # payload \<Rightarrow> rbind (tag_kind tag) (\<lambda>k. Inr \<lparr>lf_kind = k, lf_payload = payload\<rparr>))"

section \<open>Labels and derivation\<close>

lemma dir_byte_inject [simp]: "dir_byte d = dir_byte d' \<longleftrightarrow> d = d'"
  by (cases d; cases d') (simp_all add: dir_byte_def)

lemma info_inject:
  "info p c v d e = info p' c' v' d' e' \<longleftrightarrow> p = p' \<and> c = c' \<and> v = v' \<and> d = d' \<and> e = e'"
  by (auto simp: info_def be64.enc_append_inject be16.enc_append_inject be64.enc_inject)

lemma length_info: "length (info p c v d e) = 46"
  by (simp add: info_def DOMAIN_LABEL_def pb_bytes)

lemma info_not_resume_label: "info p c v d e \<noteq> RESUME_LABEL"
proof
  assume "info p c v d e = RESUME_LABEL"
  then have "length (info p c v d e) = length RESUME_LABEL" by simp
  then show False by (simp add: length_info RESUME_LABEL_def)
qed

text \<open>
  The expansion succeeds with exactly the requested length up to 254 blocks, and fails beyond
  (one block short of the 255 that RFC 5869 allows: the counter is incremented after the last
  block too).
\<close>

lemma hkdf_loop_spec:
  assumes "hmac_len P" "length out = 32 * (unat ctr - 1)" "1 \<le> unat ctr"
  shows "if out_len \<le> 32 * 254
         then \<exists>r. hkdf_loop P prk inp out_len out block ctr = Inr r \<and> length r = out_len
         else hkdf_loop P prk inp out_len out block ctr = Inl (ChannelErr ''hkdf: output too long'')"
  using assms
proof (induction P prk inp out_len out block ctr rule: hkdf_loop.induct)
  case (1 P prk inp out_len out block ctr)
  let ?b = "hmac_sha256 P prk (block @ inp @ [ctr])"
  show ?case
  proof (cases "length out < out_len")
    case True
    show ?thesis
    proof (cases "checked_add ctr 1")
      case None
      then have "256 \<le> unat ctr + 1" by (simp add: checked_add_None)
      then have "unat ctr = 255" using unat_u8_less[of ctr] by simp
      then show ?thesis using True None 1 by (simp add: hkdf_loop.simps[of P prk inp out_len out])
    next
      case (Some c)
      then have c: "unat c = Suc (unat ctr)" by (rule checked_add_oneD)
      have l: "length (out @ ?b) = 32 * (unat c - 1)" using 1 c by (simp add: hmac_len_def)
      have "hkdf_loop P prk inp out_len out block ctr = hkdf_loop P prk inp out_len (out @ ?b) ?b c"
        using True Some by (simp add: hkdf_loop.simps[of P prk inp out_len out] Let_def)
      then show ?thesis using "1.IH"[OF True refl refl Some] "1.prems"(1) l c by (simp only:) simp
    qed
  next
    case False
    have "unat ctr \<le> 255" using unat_u8_less[of ctr] by simp
    then have "out_len \<le> 32 * 254" using False 1 by simp
    then show ?thesis using False by (simp add: hkdf_loop.simps[of P prk inp out_len out])
  qed
qed

lemma hkdf_expand_ok:
  assumes "hmac_len P" "out_len \<le> 32 * 254"
  obtains r where "hkdf_expand P prk inp out_len = Inr r" "length r = out_len"
  using hkdf_loop_spec[OF assms(1), of "[]" 1 out_len prk inp "[]"] assms(2)
  by (auto simp: hkdf_expand_def)

lemma hkdf_expand_block:
  assumes "hmac_len P" "0 < n" "n \<le> 32"
  shows "hkdf_expand P prk inp n = Inr (take n (hmac_sha256 P prk (inp @ [1])))"
proof -
  have s: "checked_add (1 :: u8) 1 = Some 2" by (simp add: checked_add_def)
  have l: "length (hmac_sha256 P prk (inp @ [1])) = 32" using assms(1) by (simp add: hmac_len_def)
  show ?thesis using assms(2,3) l
    by (simp add: hkdf_expand_def hkdf_loop.simps[of P prk inp n "[]"] s
                  hkdf_loop.simps[of P prk inp n _ _ 2])
qed

section \<open>Both ends\<close>

definition sc_mirror :: "session_crypto \<Rightarrow> session_crypto \<Rightarrow> bool" where
  "sc_mirror a b = (master_send a = master_recv b \<and> master_recv a = master_send b
                    \<and> sc_role a \<noteq> sc_role b \<and> sc_epoch a = sc_epoch b)"

text \<open>The sending half of \<open>a\<close> matches the receiving half of \<open>b\<close>.\<close>

definition paired :: "channel_crypto \<Rightarrow> channel_crypto \<Rightarrow> bool" where
  "paired a b = (send_key a = recv_key b \<and> send_prefix a = recv_prefix b \<and> send_ctr a = recv_ctr b
                 \<and> length (send_prefix a) = 4)"

lemma mirror_dirs: "sc_mirror a b \<Longrightarrow> send_dir a = recv_dir b \<and> recv_dir a = send_dir b"
  by (cases "sc_role a"; cases "sc_role b") (auto simp: sc_mirror_def send_dir_def recv_dir_def)

lemma derive_ok:
  assumes "hmac_len P"
  obtains cc where "derive P sc channel ver = Inr cc" "length (send_prefix cc) = 4" "length (recv_prefix cc) = 4"
    "derive_key P (master_send sc) channel ver (send_dir sc) (sc_epoch sc) = Inr (send_key cc)"
    "derive_key P (master_recv sc) channel ver (recv_dir sc) (sc_epoch sc) = Inr (recv_key cc)"
    "derive_prefix P (master_send sc) channel ver (send_dir sc) (sc_epoch sc) = Inr (send_prefix cc)"
    "derive_prefix P (master_recv sc) channel ver (recv_dir sc) (sc_epoch sc) = Inr (recv_prefix cc)"
    "send_ctr cc = 0" "recv_ctr cc = 0"
proof -
  obtain sk where sk: "derive_key P (master_send sc) channel ver (send_dir sc) (sc_epoch sc) = Inr sk"
    using hkdf_expand_block[OF assms, of 32] by (simp add: derive_key_def)
  obtain rk where rk: "derive_key P (master_recv sc) channel ver (recv_dir sc) (sc_epoch sc) = Inr rk"
    using hkdf_expand_block[OF assms, of 32] by (simp add: derive_key_def)
  obtain sp where sp: "derive_prefix P (master_send sc) channel ver (send_dir sc) (sc_epoch sc) = Inr sp" "length sp = 4"
    using hkdf_expand_block[OF assms, of 4] assms by (simp add: derive_prefix_def hmac_len_def)
  obtain rp where rp: "derive_prefix P (master_recv sc) channel ver (recv_dir sc) (sc_epoch sc) = Inr rp" "length rp = 4"
    using hkdf_expand_block[OF assms, of 4] assms by (simp add: derive_prefix_def hmac_len_def)
  have "derive P sc channel ver = Inr (from_keys sk rk sp rp)"
    by (simp add: derive_def Let_def sk rk sp rp)
  then show thesis using sk rk sp rp by (intro that[of "from_keys sk rk sp rp"]) (simp_all add: from_keys_def)
qed

lemma derive_mirrored:
  assumes "hmac_len P" "sc_mirror a b"
  shows "\<exists>ca cb. derive P a channel ver = Inr ca \<and> derive P b channel ver = Inr cb
           \<and> paired ca cb \<and> paired cb ca \<and> send_ctr ca = 0 \<and> recv_ctr ca = 0
           \<and> is_ok (resume_key P a) \<and> resume_key P a = resume_key P b"
proof -
  obtain ca where ca: "derive P a channel ver = Inr ca" "length (send_prefix ca) = 4"
    "derive_key P (master_send a) channel ver (send_dir a) (sc_epoch a) = Inr (send_key ca)"
    "derive_key P (master_recv a) channel ver (recv_dir a) (sc_epoch a) = Inr (recv_key ca)"
    "derive_prefix P (master_send a) channel ver (send_dir a) (sc_epoch a) = Inr (send_prefix ca)"
    "derive_prefix P (master_recv a) channel ver (recv_dir a) (sc_epoch a) = Inr (recv_prefix ca)"
    "send_ctr ca = 0" "recv_ctr ca = 0"
    using derive_ok[OF assms(1), of a channel ver] by metis
  obtain cb where cb: "derive P b channel ver = Inr cb" "length (send_prefix cb) = 4"
    "derive_key P (master_send b) channel ver (send_dir b) (sc_epoch b) = Inr (send_key cb)"
    "derive_key P (master_recv b) channel ver (recv_dir b) (sc_epoch b) = Inr (recv_key cb)"
    "derive_prefix P (master_send b) channel ver (send_dir b) (sc_epoch b) = Inr (send_prefix cb)"
    "derive_prefix P (master_recv b) channel ver (recv_dir b) (sc_epoch b) = Inr (recv_prefix cb)"
    "send_ctr cb = 0" "recv_ctr cb = 0"
    using derive_ok[OF assms(1), of b channel ver] by metis
  note m = assms(2)[unfolded sc_mirror_def] mirror_dirs[OF assms(2)]
  have "paired ca cb" "paired cb ca"
    using ca cb m by (auto simp: paired_def)
  moreover have "resume_key P a = resume_key P b"
    using m by (auto simp: resume_key_def Let_def)
  moreover have "is_ok (resume_key P a)"
    by (simp add: resume_key_def Let_def hkdf_expand_block[OF assms(1)] split: prod.splits)
  ultimately show ?thesis using ca cb by blast
qed

text \<open>
  Isolation and agreement of the derived keys: the two ends of a session (same masters
  seen from opposite sides, opposite roles, same epoch) always derive a context for any
  channel and version, the contexts match in both directions with counters at zero, and both
  ends compute the same resume key.
\<close>

lemma session_ends_agree:
  assumes "hmac_len P" "sc_mirror a b"
  shows "\<exists>ca cb. derive P a channel ver = Inr ca \<and> derive P b channel ver = Inr cb
           \<and> paired ca cb \<and> paired cb ca \<and> send_ctr ca = 0 \<and> recv_ctr ca = 0
           \<and> is_ok (resume_key P a) \<and> resume_key P a = resume_key P b"
  by (rule derive_mirrored[OF assms])

section \<open>Sealed streams\<close>

text \<open>A sender that seals and advances once per message, and a receiver fed arbitrary frames.\<close>

fun seal_all :: "prims \<Rightarrow> channel_crypto \<Rightarrow> bytes list \<Rightarrow> (session_error, bytes list \<times> channel_crypto) result" where
  "seal_all P cc [] = Inr ([], cc)"
| "seal_all P cc (m # ms) =
     rbind (cc_seal P cc m) (\<lambda>s. rbind (advance_send cc) (\<lambda>cc'.
     rbind (seal_all P cc' ms) (\<lambda>(ss, cc''). Inr (s # ss, cc''))))"

fun open_all :: "prims \<Rightarrow> channel_crypto \<Rightarrow> bytes list \<Rightarrow> bytes list \<times> channel_crypto" where
  "open_all P cc [] = ([], cc)"
| "open_all P cc (f # fs) =
     (case cc_open P cc f of
        Inl _ \<Rightarrow> open_all P cc fs
      | Inr (p, cc') \<Rightarrow> (let (ps, cc'') = open_all P cc' fs in (p # ps, cc'')))"

lemma cc_seal_Inr:
  "cc_seal P cc m = Inr s \<longleftrightarrow>
     (\<exists>c. gcm_encrypt P (send_key cc) (nonce (send_prefix cc) (send_ctr cc)) m = Some c
          \<and> s = nonce (send_prefix cc) (send_ctr cc) @ c)"
  by (auto simp: cc_seal_def enc_seal_def split: option.splits)

lemma advance_send_Inr:
  "advance_send cc = Inr cc' \<longleftrightarrow>
     (\<exists>c. checked_add (send_ctr cc) 1 = Some c \<and> cc' = cc\<lparr>send_ctr := c\<rparr>)"
  by (auto simp: advance_send_def split: option.splits)

lemma nonce_parts:
  assumes "length p = 4"
  shows "take 4 (nonce p c @ r) = p" "take 8 (drop 4 (nonce p c @ r)) = to_be c"
    "take 12 (nonce p c @ r) = nonce p c" "drop 12 (nonce p c @ r) = r" "length (nonce p c) = 12"
    "take 4 (nonce p c) = p" "drop 4 (nonce p c) = to_be c"
  using assms by (simp_all add: nonce_def pb_bytes)

text \<open>A frame is accepted exactly when it is the sealing of its plaintext at the current counter.\<close>

lemma cc_open_Inr:
  assumes "gcm_ok P" "length (recv_prefix cc) = 4"
  shows "cc_open P cc f = Inr (p, cc') \<longleftrightarrow>
     (\<exists>c ct. f = nonce (recv_prefix cc) (recv_ctr cc) @ ct
           \<and> gcm_encrypt P (recv_key cc) (nonce (recv_prefix cc) (recv_ctr cc)) p = Some ct
           \<and> checked_add (recv_ctr cc) 1 = Some c \<and> cc' = cc\<lparr>recv_ctr := c\<rparr>)"
    (is "?L \<longleftrightarrow> ?R")
proof
  assume L: ?L
  then have len: "12 \<le> length f" and pre: "take 4 f = recv_prefix cc"
    and ctr: "(from_be (take 8 (drop 4 f)) :: u64) = recv_ctr cc"
    by (auto simp: cc_open_def Let_def split: if_splits)
  have "to_be (recv_ctr cc) = take 8 (drop 4 f)"
    using len by (simp flip: ctr) (simp add: to_be_from_be[where n = 8])
  moreover have "take 8 (drop 4 f) @ drop 12 f = drop 4 f"
    using append_take_drop_id[of 8 "drop 4 f"] by simp
  ultimately have f: "f = nonce (recv_prefix cc) (recv_ctr cc) @ drop 12 f"
    by (simp add: nonce_def flip: pre)
  have "take 12 f = nonce (recv_prefix cc) (recv_ctr cc)"
    using nonce_parts(3)[OF assms(2)] f by metis
  then show ?R using L f assms(1)
    by (auto simp: cc_open_def Let_def enc_open_def gcm_ok_def split: if_splits option.splits)
next
  assume ?R
  then show ?L using assms
    by (auto simp: cc_open_def Let_def enc_open_def gcm_ok_def nonce_parts be64.enc_length be64.dec_enc)
qed

lemma nonce_inject: "length p = 4 \<Longrightarrow> nonce p c @ r = nonce p d @ s \<longleftrightarrow> c = d \<and> r = s"
  by (simp add: nonce_def be64.enc_append_inject)

text \<open>What a run of the sender emits: the \<open>i\<close>-th frame carries the counter \<open>send_ctr + i\<close>.\<close>

lemma seal_all_frames:
  assumes "seal_all P cc ms = Inr (ss, cc')"
  shows "length ss = length ms"
    and "unat (send_ctr cc) + length ms < 2 ^ 64"
    and "cc' = cc\<lparr>send_ctr := send_ctr cc + of_nat (length ms)\<rparr>"
    and "i < length ms \<Longrightarrow> \<exists>ct. ss ! i = nonce (send_prefix cc) (send_ctr cc + of_nat i) @ ct
           \<and> gcm_encrypt P (send_key cc) (nonce (send_prefix cc) (send_ctr cc + of_nat i)) (ms ! i) = Some ct"
proof -
  have "length ss = length ms \<and> unat (send_ctr cc) + length ms < 2 ^ 64
        \<and> cc' = cc\<lparr>send_ctr := send_ctr cc + of_nat (length ms)\<rparr>
        \<and> (\<forall>i < length ms. \<exists>ct. ss ! i = nonce (send_prefix cc) (send_ctr cc + of_nat i) @ ct
           \<and> gcm_encrypt P (send_key cc) (nonce (send_prefix cc) (send_ctr cc + of_nat i)) (ms ! i) = Some ct)"
    using assms
  proof (induction P cc ms arbitrary: ss cc' rule: seal_all.induct)
    case (1 P cc)
    then show ?case using unat_u64_less[of "send_ctr cc"] by simp
  next
    case (2 P cc m ms)
    then obtain s cc1 ss1 where s: "cc_seal P cc m = Inr s" and a: "advance_send cc = Inr cc1"
      and r: "seal_all P cc1 ms = Inr (ss1, cc')" and ss: "ss = s # ss1"
      by auto
    from a have c1: "cc1 = cc\<lparr>send_ctr := send_ctr cc + 1\<rparr>" and u: "unat (send_ctr cc1) = Suc (unat (send_ctr cc))"
      by (auto simp: advance_send_Inr checked_add_one dest: checked_add_oneD)
    note IH = "2.IH"[OF r]
    show ?case
    proof (intro conjI allI impI)
      show "length ss = length (m # ms)" using IH ss by simp
      show "unat (send_ctr cc) + length (m # ms) < 2 ^ 64" using IH u by simp
      show "cc' = cc\<lparr>send_ctr := send_ctr cc + of_nat (length (m # ms))\<rparr>" using IH c1 by (simp add: ac_simps)
      fix i assume i: "i < length (m # ms)"
      show "\<exists>ct. ss ! i = nonce (send_prefix cc) (send_ctr cc + of_nat i) @ ct
           \<and> gcm_encrypt P (send_key cc) (nonce (send_prefix cc) (send_ctr cc + of_nat i)) ((m # ms) ! i) = Some ct"
      proof (cases i)
        case 0
        then show ?thesis using s ss by (auto simp: cc_seal_Inr)
      next
        case (Suc j)
        then show ?thesis using IH i ss c1 by (auto simp: ac_simps)
      qed
    qed
  qed
  then show "length ss = length ms" "unat (send_ctr cc) + length ms < 2 ^ 64"
    "cc' = cc\<lparr>send_ctr := send_ctr cc + of_nat (length ms)\<rparr>"
    "i < length ms \<Longrightarrow> \<exists>ct. ss ! i = nonce (send_prefix cc) (send_ctr cc + of_nat i) @ ct
           \<and> gcm_encrypt P (send_key cc) (nonce (send_prefix cc) (send_ctr cc + of_nat i)) (ms ! i) = Some ct"
    by blast+
qed

lemma ctr_offset_inject:
  assumes "unat (c :: u64) + n < 2 ^ 64" "i \<le> n" "j \<le> n"
  shows "c + of_nat i = c + of_nat j \<longleftrightarrow> i = j"
proof -
  have "i < 2 ^ LENGTH(64)" "j < 2 ^ LENGTH(64)" using assms by simp_all
  then have "unat (of_nat i :: u64) = i" "unat (of_nat j :: u64) = j" by (simp_all add: unat_of_nat take_bit_nat_eq_self)
  then show ?thesis by (metis add_left_cancel)
qed

lemma unat_ctr_offset: "unat (c :: u64) + i < 2 ^ 64 \<Longrightarrow> unat (c + of_nat i) = unat c + i"
proof -
  assume a: "unat c + i < 2 ^ 64"
  then have "unat (of_nat i :: u64) = i" by (simp add: unat_of_nat take_bit_nat_eq_self)
  then show ?thesis using a unat_plus_small[of c "of_nat i"] by simp
qed

lemma ctr_offset_next:
  "unat (c :: u64) + Suc i < 2 ^ 64 \<Longrightarrow> checked_add (c + of_nat i) 1 = Some (c + of_nat (Suc i))"
proof -
  assume a: "unat c + Suc i < 2 ^ 64"
  then have u: "unat (c + of_nat i) = unat c + i" by (intro unat_ctr_offset) simp
  have "c + of_nat (Suc i) = c + of_nat i + 1" by (simp add: ac_simps)
  then show ?thesis using a unfolding checked_add_def u by simp
qed


text \<open>The frame a receiver at offset \<open>i\<close> of the run accepts is the \<open>i\<close>-th, and only that one.\<close>

lemma open_sealed_at:
  assumes P: "gcm_ok P" and run: "seal_all P a ms = Inr (ss, a')" and i: "i \<le> length ms"
    and key: "recv_key b = send_key a" "recv_prefix b = send_prefix a" "length (send_prefix a) = 4"
    and ctr: "recv_ctr b = send_ctr a + of_nat i" and mem: "f \<in> set ss"
  shows "cc_open P b f = Inr (p, b') \<longleftrightarrow>
           i < length ms \<and> f = ss ! i \<and> p = ms ! i \<and> b' = b\<lparr>recv_ctr := send_ctr a + of_nat (Suc i)\<rparr>"
proof -
  note F = seal_all_frames[OF run]
  obtain j where j: "j < length ms" "f = ss ! j" using mem F(1) by (metis in_set_conv_nth)
  obtain ct where ct: "ss ! j = nonce (send_prefix a) (send_ctr a + of_nat j) @ ct"
    "gcm_encrypt P (send_key a) (nonce (send_prefix a) (send_ctr a + of_nat j)) (ms ! j) = Some ct"
    using F(4)[OF j(1)] by blast
  have ij: "send_ctr a + of_nat j = send_ctr a + of_nat i \<longleftrightarrow> j = i"
    using ctr_offset_inject[OF F(2)] i j(1) by simp
  have lp: "length (recv_prefix b) = 4" using key by simp
  have next_ctr: "checked_add (send_ctr a + of_nat i) 1 = Some (send_ctr a + of_nat (Suc i))" if "i < length ms"
    by (rule ctr_offset_next) (use F(2) that in simp)
  have dec: "p = q" if "gcm_encrypt P k n p = Some ct" "gcm_encrypt P k n q = Some ct" for k n q
    using P that by (simp add: gcm_ok_def)
  show ?thesis
  proof (cases "j = i")
    case True
    have "cc_open P b f = Inr (p, b') \<longleftrightarrow> p = ms ! i \<and> b' = b\<lparr>recv_ctr := send_ctr a + of_nat (Suc i)\<rparr>"
      unfolding cc_open_Inr[OF P lp] ctr key
      using ct j True dec[of "send_key a"] next_ctr by (auto simp del: of_nat_Suc)
    then show ?thesis using j True by simp
  next
    case False
    have "f \<noteq> ss ! i" if "i < length ms"
      using F(4)[OF that] ct(1) j(2) ij False nonce_inject[OF key(3)] by metis
    moreover have "cc_open P b f \<noteq> Inr (p, b')"
      unfolding cc_open_Inr[OF P lp] ctr key
      using ct(1) j(2) ij False nonce_inject[OF key(3)] by metis
    ultimately show ?thesis by blast
  qed
qed

text \<open>A receiver at offset \<open>i\<close> of the sender's run.\<close>

definition at_offset :: "channel_crypto \<Rightarrow> nat \<Rightarrow> channel_crypto \<Rightarrow> bool" where
  "at_offset a i b = (recv_key b = send_key a \<and> recv_prefix b = send_prefix a
                      \<and> length (send_prefix a) = 4 \<and> recv_ctr b = send_ctr a + of_nat i)"

lemma at_offset_0: "at_offset a 0 b \<longleftrightarrow> paired a b"
  by (auto simp: at_offset_def paired_def)

lemma at_offset_step: "at_offset a i b \<Longrightarrow> at_offset a (Suc i) (b\<lparr>recv_ctr := send_ctr a + of_nat (Suc i)\<rparr>)"
  by (simp add: at_offset_def)

lemma open_sealed_offset:
  assumes "gcm_ok P" "seal_all P a ms = Inr (ss, a')" "i \<le> length ms" "at_offset a i b" "f \<in> set ss"
  shows "cc_open P b f = Inr (p, b') \<longleftrightarrow>
           i < length ms \<and> f = ss ! i \<and> p = ms ! i \<and> b' = b\<lparr>recv_ctr := send_ctr a + of_nat (Suc i)\<rparr>"
  using open_sealed_at[OF assms(1-3) _ _ _ _ assms(5), of b p b'] assms(4) by (simp add: at_offset_def)

lemma open_all_run:
  assumes "gcm_ok P" "seal_all P a ms = Inr (ss, a')" "i \<le> length ms" "at_offset a i b"
  shows "\<exists>b'. open_all P b (drop i ss) = (drop i ms, b') \<and> at_offset a (length ms) b'"
  using assms(3,4)
proof (induction "length ms - i" arbitrary: i b)
  case 0
  then show ?case using seal_all_frames(1)[OF assms(2)] by simp
next
  case (Suc n)
  then have i: "i < length ms" "i < length ss" using seal_all_frames(1)[OF assms(2)] by auto
  define b1 where "b1 = b\<lparr>recv_ctr := send_ctr a + of_nat (Suc i)\<rparr>"
  have o: "cc_open P b (ss ! i) = Inr (ms ! i, b1)"
    using open_sealed_offset[OF assms(1,2) Suc.prems] i by (simp add: b1_def)
  have "at_offset a (Suc i) b1" unfolding b1_def by (rule at_offset_step[OF Suc.prems(2)])
  then obtain b' where "open_all P b1 (drop (Suc i) ss) = (drop (Suc i) ms, b')" "at_offset a (length ms) b'"
    using Suc.hyps(1)[of "Suc i" b1] Suc.hyps(2) i by fastforce
  then show ?case using o i by (auto simp: Cons_nth_drop_Suc[symmetric])
qed

lemma seal_all_paired:
  assumes "seal_all P a ms = Inr (ss, a')" "at_offset a (length ms) b'"
  shows "paired a' b'"
  using seal_all_frames(3)[OF assms(1)] assms(2) by (simp add: at_offset_def paired_def)

text \<open>
  Delivery: if the two ends of a channel direction match and the sender seals a sequence of
  messages, the receiver opens exactly that sequence, in order, and the ends still match.
\<close>

lemma channel_delivers_in_order:
  assumes "gcm_ok P" "paired a b" "seal_all P a ms = Inr (ss, a')"
  shows "\<exists>b'. open_all P b ss = (ms, b') \<and> paired a' b'"
proof -
  have "at_offset a 0 b" using assms(2) by (simp only: at_offset_0)
  then obtain b' where "open_all P b ss = (ms, b')" "at_offset a (length ms) b'"
    using open_all_run[OF assms(1,3), of 0 b] by auto
  then show ?thesis using seal_all_paired[OF assms(3)] by blast
qed

lemma open_all_prefix:
  assumes "gcm_ok P" "seal_all P a ms = Inr (ss, a')"
    and "\<forall>f \<in> set fs. is_ok (enc_open P (send_key a) f) \<longrightarrow> f \<in> set ss"
    and "i \<le> length ms" "at_offset a i b"
  shows "\<exists>k. fst (open_all P b fs) = take k (drop i ms)"
  using assms(3-5)
proof (induction fs arbitrary: i b)
  case Nil
  then show ?case by (auto intro: exI[of _ 0])
next
  case (Cons f fs)
  show ?case
  proof (cases "cc_open P b f")
    case (Inl e)
    then show ?thesis using Cons.IH[of i b] Cons.prems by simp
  next
    case (Inr r)
    obtain p b1 where r: "r = (p, b1)" by (cases r)
    have "recv_key b = send_key a" using Cons.prems(3) by (simp add: at_offset_def)
    then have "is_ok (enc_open P (send_key a) f)"
      using Inr by (auto simp: cc_open_def Let_def is_ok_def split: if_splits sum.splits)
    then have "f \<in> set ss" using Cons.prems(1) by simp
    then have acc: "i < length ms" "p = ms ! i" "b1 = b\<lparr>recv_ctr := send_ctr a + of_nat (Suc i)\<rparr>"
      using open_sealed_offset[OF assms(1,2) Cons.prems(2,3)] Inr r by simp_all
    then have "at_offset a (Suc i) b1" using at_offset_step[OF Cons.prems(3)] by simp
    then obtain k where "fst (open_all P b1 fs) = take k (drop (Suc i) ms)"
      using Cons.IH[of "Suc i" b1] Cons.prems(1) acc(1) by auto
    then have "fst (open_all P b (f # fs)) = take (Suc k) (drop i ms)"
      using Inr r acc(1,2) by (auto simp: Cons_nth_drop_Suc[symmetric] split: prod.splits)
    then show ?thesis by blast
  qed
qed

text \<open>
  C3. Replay, reordering and injection: feed the receiver any sequence of frames - replayed,
  dropped, reordered, truncated or made up - in which only frames the sender sealed pass the
  cipher's tag check. What it accepts is a prefix of what was sent: nothing twice, nothing out
  of order, nothing forged.
\<close>

theorem adversary_gets_a_prefix:
  assumes "gcm_ok P" "paired a b" "seal_all P a ms = Inr (ss, a')"
    and "\<forall>f \<in> set fs. is_ok (enc_open P (recv_key b) f) \<longrightarrow> f \<in> set ss"
  shows "\<exists>k. fst (open_all P b fs) = take k ms"
proof -
  have "at_offset a 0 b" using assms(2) by (simp only: at_offset_0)
  then show ?thesis using open_all_prefix[OF assms(1,3), of fs 0 b] assms(2,4) by (simp add: paired_def)
qed

section \<open>The handshake keys\<close>

lemma key_exchange_mirrored:
  assumes "dh_ok P" "x25519_public P a \<noteq> x25519_public P b"
  shows "(case (key_exchange P a (x25519_public P b), key_exchange P b (x25519_public P a)) of
            (Inr ka, Inr kb) \<Rightarrow> sk_send ka = sk_recv kb \<and> sk_recv ka = sk_send kb
          | (Inl e, Inl e') \<Rightarrow> e = e'
          | _ \<Rightarrow> False)
         \<and> pairing_code P (x25519_public P a) (x25519_public P b) = pairing_code P (x25519_public P b) (x25519_public P a)"
proof -
  have "x25519_dh P a (x25519_public P b) = x25519_dh P b (x25519_public P a)"
    using assms(1) by (simp add: dh_ok_def)
  then show ?thesis using assms(2) by (auto simp: key_exchange_def Let_def pairing_code_def)
qed

section \<open>A concrete instance\<close>

text \<open>
  Primitives with the assumed behaviour (and no security), to evaluate the theorems on.
\<close>

definition toy_prims :: prims where
  "toy_prims = \<lparr>gcm_encrypt = (\<lambda>k n p. Some (k @ n @ p)),
     gcm_decrypt = (\<lambda>k n c. if take (length (k @ n)) c = k @ n then Some (drop (length (k @ n)) c) else None),
     hmac_sha256 = (\<lambda>k m. take 32 (m @ k @ replicate 32 0)),
     sha256 = (\<lambda>m. take 32 (m @ replicate 32 0)),
     x25519_public = (\<lambda>s. s),
     x25519_dh = (\<lambda>a b. if a \<le> b then a @ b else b @ a),
     contributory = (\<lambda>s. s \<noteq> [])\<rparr>"

lemma toy_gcm: "gcm_ok toy_prims"
proof -
  have "k @ n @ p = c \<longleftrightarrow> take (length (k @ n)) c = k @ n \<and> drop (length (k @ n)) c = p" for k n p c :: bytes
    by (metis append_assoc append_eq_conv_conj)
  then show ?thesis by (auto simp: gcm_ok_def toy_prims_def)
qed

lemma toy_hmac: "hmac_len toy_prims"
  by (simp add: hmac_len_def toy_prims_def min_def)

lemma toy_dh: "dh_ok toy_prims"
  by (auto simp: dh_ok_def toy_prims_def)

definition toy_cc :: channel_crypto where
  "toy_cc = from_keys [1] [2] [1, 2, 3, 4] [1, 2, 3, 4]"

definition toy_peer :: channel_crypto where
  "toy_peer = from_keys [2] [1] [1, 2, 3, 4] [1, 2, 3, 4]"

lemma toy_paired: "paired toy_cc toy_peer"
  by (simp add: paired_def toy_cc_def toy_peer_def from_keys_def)

text \<open>Two messages sealed, at counters 0 and 1.\<close>

definition toy_frame :: "u8 \<Rightarrow> u8 \<Rightarrow> bytes" where
  "toy_frame c m = (let n = [1, 2, 3, 4, 0, 0, 0, 0, 0, 0, 0, c] in n @ [1] @ n @ [m])"

lemma toy_ctr: "to_be (0 :: u64) = [0, 0, 0, 0, 0, 0, 0, 0]" "to_be (1 :: u64) = [0, 0, 0, 0, 0, 0, 0, 1]"
  by code_simp+

lemma toy_run:
  "seal_all toy_prims toy_cc [[7], [8]] = Inr ([toy_frame 0 7, toy_frame 1 8], toy_cc\<lparr>send_ctr := 2\<rparr>)"
  by (simp add: cc_seal_def enc_seal_def advance_send_def toy_prims_def toy_cc_def from_keys_def
      nonce_def toy_ctr checked_add_def toy_frame_def Let_def)

lemma session_ends_agree_witness:
  "let a = \<lparr>master_send = [1], master_recv = [2], sc_role = Initiator, sc_epoch = 0\<rparr>;
       b = \<lparr>master_send = [2], master_recv = [1], sc_role = Responder, sc_epoch = 0\<rparr>
   in \<exists>ca cb. derive toy_prims a 1 VERSION_CURRENT = Inr ca \<and> derive toy_prims b 1 VERSION_CURRENT = Inr cb
           \<and> paired ca cb \<and> paired cb ca \<and> resume_key toy_prims a = resume_key toy_prims b"
proof -
  let ?a = "\<lparr>master_send = [1], master_recv = [2], sc_role = Initiator, sc_epoch = 0\<rparr>"
  let ?b = "\<lparr>master_send = [2], master_recv = [1], sc_role = Responder, sc_epoch = 0\<rparr>"
  have "sc_mirror ?a ?b" by (simp add: sc_mirror_def)
  from session_ends_agree[OF toy_hmac this, of 1 VERSION_CURRENT] show ?thesis by (auto simp: Let_def)
qed


lemma channel_delivers_in_order_witness:
  "\<exists>b'. open_all toy_prims toy_peer [toy_frame 0 7, toy_frame 1 8] = ([[7], [8]], b')"
  using channel_delivers_in_order[OF toy_gcm toy_paired toy_run] by blast

theorem adversary_gets_a_prefix_witness:
  "\<exists>k. fst (open_all toy_prims toy_peer [toy_frame 1 8, toy_frame 0 7, toy_frame 0 7, [9]]) = take k [[7], [8]]"
proof -
  have "\<not> is_ok (enc_open toy_prims (recv_key toy_peer) [9])" by (simp add: enc_open_def)
  then have "\<forall>f \<in> set [toy_frame 1 8, toy_frame 0 7, toy_frame 0 7, [9]].
      is_ok (enc_open toy_prims (recv_key toy_peer) f) \<longrightarrow> f \<in> set [toy_frame 0 7, toy_frame 1 8]" by auto
  from adversary_gets_a_prefix[OF toy_gcm toy_paired toy_run this] show ?thesis .
qed

end
