(* ===== verification/PB_Resume.thy ===== *)
theory PB_Resume
  imports PB_Crypto
begin

text \<open>
  Session resume tokens (\<open>peerbeam-transfer/src/session/resume.rs\<close>): a MAC over an immutable
  binding, minted for one epoch and verified once.

  Shown here: the MAC input determines every bound field (with the two device ids as an
  unordered pair); verification accepts exactly the tokens whose MAC is right, that are bound
  to this session, pair and version, are not expired and whose epoch is new; a minted token
  verifies at the other end until it expires, and never again once its epoch is consumed.
\<close>

record resume_binding =
  rb_session_id :: session_id
  rb_local :: device_id
  rb_peer :: device_id
  rb_version :: version

definition ordered_pair :: "device_id \<Rightarrow> device_id \<Rightarrow> string \<times> string" where
  "ordered_pair x y = (if x \<le> y then (x, y) else (y, x))"

record resume_token =
  rt_session_id :: session_id
  rt_local :: device_id
  rt_peer :: device_id
  rt_version :: version
  rt_epoch :: u64
  rt_created_at_ms :: u64
  rt_expires_at_ms :: u64
  rt_mac :: bytes

text \<open>\<open>len as u32\<close> keeps the low 32 bits of the length.\<close>

definition mac_input :: "session_id \<Rightarrow> device_id \<Rightarrow> device_id \<Rightarrow> version \<Rightarrow> u64 \<Rightarrow> u64 \<Rightarrow> u64 \<Rightarrow> bytes" where
  "mac_input session_id loc peer ver epoch created_at_ms expires_at_ms =
     (let (lo, hi) = ordered_pair loc peer;
          lo = str_bytes lo; hi = str_bytes hi
      in session_id @ to_be (of_nat (length lo) :: u32) @ lo @ to_be (of_nat (length hi) :: u32) @ hi @
         to_be (major ver) @ to_be (minor ver) @ to_be epoch @ to_be created_at_ms @ to_be expires_at_ms)"

text \<open>\<open>HmacSha256::new_from_slice\<close> accepts every key length, so computing a MAC does not fail.\<close>

definition compute_mac :: "prims \<Rightarrow> bytes \<Rightarrow> bytes \<Rightarrow> bytes" where
  "compute_mac P key input = hmac_sha256 P key input"

definition mint :: "prims \<Rightarrow> bytes \<Rightarrow> resume_binding \<Rightarrow> u64 \<Rightarrow> u64 \<Rightarrow> u64 \<Rightarrow> resume_token" where
  "mint P key binding epoch now_ms ttl_ms =
     (let expires_at_ms = saturating_add now_ms ttl_ms;
          mac = compute_mac P key (mac_input (rb_session_id binding) (rb_local binding) (rb_peer binding)
                                     (rb_version binding) epoch now_ms expires_at_ms)
      in \<lparr>rt_session_id = rb_session_id binding, rt_local = rb_local binding, rt_peer = rb_peer binding,
          rt_version = rb_version binding, rt_epoch = epoch, rt_created_at_ms = now_ms,
          rt_expires_at_ms = expires_at_ms, rt_mac = mac\<rparr>)"

definition token_mac_input :: "resume_token \<Rightarrow> bytes" where
  "token_mac_input t = mac_input (rt_session_id t) (rt_local t) (rt_peer t) (rt_version t)
                         (rt_epoch t) (rt_created_at_ms t) (rt_expires_at_ms t)"

definition verify :: "prims \<Rightarrow> resume_token \<Rightarrow> bytes \<Rightarrow> resume_binding \<Rightarrow> u64 \<Rightarrow> u64 \<Rightarrow> (session_error, unit) result" where
  "verify P t key expected now_ms consumed_epoch =
     (if hmac_sha256 P key (token_mac_input t) \<noteq> rt_mac t then
        Inl (ResumeRejected ''token MAC mismatch (tampered or forged)'')
      else if rt_session_id t \<noteq> rb_session_id expected then
        Inl (ResumeRejected ''session id mismatch'')
      else if ordered_pair (rt_local t) (rt_peer t) \<noteq> ordered_pair (rb_local expected) (rb_peer expected) then
        Inl (ResumeRejected ''peer identity mismatch'')
      else if rt_version t \<noteq> rb_version expected then
        Inl (ResumeRejected ''protocol version mismatch'')
      else if rt_expires_at_ms t \<le> now_ms then Inl ResumeExpired
      else if rt_epoch t \<le> consumed_epoch then Inl ResumeReplayed
      else Inr ())"

section \<open>The MAC input determines the binding\<close>

lemma ordered_pair_commute: "ordered_pair a b = ordered_pair b a"
  by (auto simp: ordered_pair_def)

lemma ordered_pair_eq:
  "ordered_pair a b = ordered_pair c d \<longleftrightarrow> (a = c \<and> b = d) \<or> (a = d \<and> b = c)"
  by (auto simp: ordered_pair_def)

text \<open>A length-prefixed field determines the string as long as lengths fit the prefix.\<close>

lemma length_prefixed_inject:
  assumes "length x < 2 ^ 32" "length y < 2 ^ 32"
  shows "to_be (of_nat (length x) :: u32) @ x @ r = to_be (of_nat (length y) :: u32) @ y @ s \<longleftrightarrow> x = y \<and> r = s"
proof
  assume eq: "to_be (of_nat (length x) :: u32) @ x @ r = to_be (of_nat (length y) :: u32) @ y @ s"
  then have w: "(of_nat (length x) :: u32) = of_nat (length y)" and rest: "x @ r = y @ s"
    by (simp_all add: be32.enc_append_inject)
  have "unat (of_nat (length x) :: u32) = length x" "unat (of_nat (length y) :: u32) = length y"
    using assms by (simp_all add: unat_of_nat take_bit_nat_eq_self)
  then have "length x = length y" using w by metis
  with rest show "x = y \<and> r = s" by simp
qed simp

lemma str_field_inject:
  assumes "length x < 2 ^ 32" "length y < 2 ^ 32"
  shows "to_be (of_nat (length x) :: u32) @ str_bytes x @ r = to_be (of_nat (length y) :: u32) @ str_bytes y @ s
         \<longleftrightarrow> x = y \<and> r = s"
  using length_prefixed_inject[of "str_bytes x" "str_bytes y"] assms by simp

lemma length_ordered_pair:
  assumes "length a < n" "length b < n" "ordered_pair a b = (lo, hi)"
  shows "length lo < n" "length hi < n"
  using assms by (auto simp: ordered_pair_def split: if_splits)

lemma mac_input_inject:
  assumes "length sid = 16" "length sid' = 16"
    and "length l < 2 ^ 32" "length p < 2 ^ 32" "length l' < 2 ^ 32" "length p' < 2 ^ 32"
  shows "mac_input sid l p v e c x = mac_input sid' l' p' v' e' c' x' \<longleftrightarrow>
     sid = sid' \<and> ordered_pair l p = ordered_pair l' p' \<and> v = v' \<and> e = e' \<and> c = c' \<and> x = x'"
proof -
  obtain lo hi where o: "ordered_pair l p = (lo, hi)" by (cases "ordered_pair l p")
  obtain lo' hi' where o': "ordered_pair l' p' = (lo', hi')" by (cases "ordered_pair l' p'")
  note len = length_ordered_pair[OF assms(3,4) o] length_ordered_pair[OF assms(5,6) o']
  show ?thesis
    unfolding mac_input_def o o' Let_def prod.case
    using assms(1,2) len
    by (auto simp: str_field_inject be16.enc_append_inject be64.enc_append_inject be64.enc_inject)
qed

section \<open>Verification\<close>

definition binding_matches :: "resume_token \<Rightarrow> resume_binding \<Rightarrow> bool" where
  "binding_matches t b =
     (rt_session_id t = rb_session_id b \<and> rt_version t = rb_version b
      \<and> ((rt_local t = rb_local b \<and> rt_peer t = rb_peer b) \<or> (rt_local t = rb_peer b \<and> rt_peer t = rb_local b)))"

lemma verify_ok_iff:
  "verify P t key b now consumed = Inr () \<longleftrightarrow>
     hmac_sha256 P key (token_mac_input t) = rt_mac t \<and> binding_matches t b
     \<and> now < rt_expires_at_ms t \<and> consumed < rt_epoch t"
  by (auto simp: verify_def binding_matches_def ordered_pair_eq not_le)

lemma verify_Inr: "is_ok (verify P t key b now consumed) \<longleftrightarrow> verify P t key b now consumed = Inr ()"
  by (cases "verify P t key b now consumed") auto

lemma verify_minted:
  "verify P (mint P key b e now ttl) key (b\<lparr>rb_local := rb_peer b, rb_peer := rb_local b\<rparr>) t consumed = Inr ()
     \<longleftrightarrow> unat t < min (unat now + unat ttl) (2 ^ 64 - 1) \<and> consumed < e"
proof -
  let ?m = "mint P key b e now ttl"
  have mac: "hmac_sha256 P key (token_mac_input ?m) = rt_mac ?m"
    by (simp add: mint_def Let_def token_mac_input_def compute_mac_def)
  have "binding_matches ?m (b\<lparr>rb_local := rb_peer b, rb_peer := rb_local b\<rparr>)"
    by (simp add: mint_def Let_def binding_matches_def)
  moreover have "t < saturating_add now ttl \<longleftrightarrow> unat t < min (unat now + unat ttl) (2 ^ 64 - 1)"
    by (simp add: word_less_nat_alt unat_saturating_add)
  ultimately show ?thesis
    using mac by (simp add: verify_ok_iff) (simp add: mint_def Let_def)
qed

text \<open>
  What a resume token is worth. A token minted for one epoch is accepted by the other end
  of the same session (which names the two devices the other way round) exactly while the
  clock is before its expiry and the epoch has not been consumed; and any token accepted under
  the same MAC key whose tag is that of another token carries the same bound fields - session,
  device pair, version, epoch and both timestamps - so a change to any of them is a tag
  mismatch unless the tag itself collides.
\<close>

lemma resume_token_correct:
  fixes b :: resume_binding
  defines "peer_view \<equiv> b\<lparr>rb_local := rb_peer b, rb_peer := rb_local b\<rparr>"
  assumes sizes: "length (rb_session_id b) = 16" "length (rb_local b) < 2 ^ 32" "length (rb_peer b) < 2 ^ 32"
    and no_collision: "\<forall>m. hmac_sha256 P key m = hmac_sha256 P key (token_mac_input (mint P key b e now ttl))
                           \<longrightarrow> m = token_mac_input (mint P key b e now ttl)"
  shows "(verify P (mint P key b e now ttl) key peer_view t consumed = Inr ()
            \<longleftrightarrow> unat t < min (unat now + unat ttl) (2 ^ 64 - 1) \<and> consumed < e)
    \<and> (\<forall>tok. rt_mac tok = rt_mac (mint P key b e now ttl) \<and> verify P tok key peer_view t consumed = Inr ()
          \<and> length (rt_session_id tok) = 16 \<and> length (rt_local tok) < 2 ^ 32 \<and> length (rt_peer tok) < 2 ^ 32
          \<longrightarrow> rt_epoch tok = e \<and> rt_created_at_ms tok = now \<and> rt_expires_at_ms tok = saturating_add now ttl
              \<and> binding_matches tok b)"
proof
  let ?m = "mint P key b e now ttl"
  have mac: "hmac_sha256 P key (token_mac_input ?m) = rt_mac ?m"
    by (simp add: mint_def Let_def token_mac_input_def compute_mac_def)
  show "verify P ?m key peer_view t consumed = Inr ()
            \<longleftrightarrow> unat t < min (unat now + unat ttl) (2 ^ 64 - 1) \<and> consumed < e"
    unfolding peer_view_def by (rule verify_minted)
  show "\<forall>tok. rt_mac tok = rt_mac ?m \<and> verify P tok key peer_view t consumed = Inr ()
          \<and> length (rt_session_id tok) = 16 \<and> length (rt_local tok) < 2 ^ 32 \<and> length (rt_peer tok) < 2 ^ 32
          \<longrightarrow> rt_epoch tok = e \<and> rt_created_at_ms tok = now \<and> rt_expires_at_ms tok = saturating_add now ttl
              \<and> binding_matches tok b"
  proof (intro allI impI)
    fix tok
    assume a: "rt_mac tok = rt_mac ?m \<and> verify P tok key peer_view t consumed = Inr ()
          \<and> length (rt_session_id tok) = 16 \<and> length (rt_local tok) < 2 ^ 32 \<and> length (rt_peer tok) < 2 ^ 32"
    then have "hmac_sha256 P key (token_mac_input tok) = hmac_sha256 P key (token_mac_input ?m)"
      using mac by (simp add: verify_ok_iff)
    then have "token_mac_input tok = token_mac_input ?m" using no_collision by blast
    then have "rt_session_id tok = rb_session_id b \<and> ordered_pair (rt_local tok) (rt_peer tok) = ordered_pair (rb_local b) (rb_peer b)
        \<and> rt_version tok = rb_version b \<and> rt_epoch tok = e \<and> rt_created_at_ms tok = now
        \<and> rt_expires_at_ms tok = saturating_add now ttl"
      unfolding token_mac_input_def mint_def Let_def
      using a sizes by (simp add: mac_input_inject)
    then show "rt_epoch tok = e \<and> rt_created_at_ms tok = now \<and> rt_expires_at_ms tok = saturating_add now ttl
              \<and> binding_matches tok b"
      by (auto simp: binding_matches_def ordered_pair_eq)
  qed
qed

definition ident_mac_prims :: prims where
  "ident_mac_prims = toy_prims\<lparr>hmac_sha256 := (\<lambda>k m. m)\<rparr>"

definition toy_binding :: resume_binding where
  "toy_binding = \<lparr>rb_session_id = replicate 16 0, rb_local = ''a'', rb_peer = ''b'', rb_version = VERSION_CURRENT\<rparr>"

lemma resume_token_correct_witness:
  "verify ident_mac_prims (mint ident_mac_prims [1, 2] toy_binding 1 10 100) [1, 2]
     (toy_binding\<lparr>rb_local := ''b'', rb_peer := ''a''\<rparr>) 50 0 = Inr ()"
proof -
  have "\<forall>m. hmac_sha256 ident_mac_prims [1, 2] m
              = hmac_sha256 ident_mac_prims [1, 2] (token_mac_input (mint ident_mac_prims [1, 2] toy_binding 1 10 100))
         \<longrightarrow> m = token_mac_input (mint ident_mac_prims [1, 2] toy_binding 1 10 100)"
    by (simp add: ident_mac_prims_def)
  from conjunct1[OF resume_token_correct[OF _ _ _ this]] show ?thesis
    by (simp add: toy_binding_def)
qed

end
