(* ===== verification/PB_Control.thy ===== *)
theory PB_Control
  imports PB_Resume
begin

text \<open>
  The control channel: its messages and their codec
  (\<open>peerbeam-transfer/src/session/control.rs\<close>), the sealed and plain send/receive helpers and
  the resume handshake of \<open>session/mod.rs\<close> (\<open>resume\<close>, \<open>accept_resume\<close>,
  \<open>recv_resume_reply\<close>).

  Bodies are serialized by \<open>serde_json\<close>, a third-party crate: the record \<open>json\<close> holds its
  encoder and, per body type, its decoder; \<open>json_ok\<close> says that decoding an encoding gives the
  value back. The capability set's own \<open>Deserialize\<close> is this program's code and runs on top.

  Shown here: every control message survives encoding and decoding; a resume handshake between
  the two ends of a session completes and leaves them with matching control keys of the new
  epoch; a consumed epoch is refused; and the redialling side also accepts an acceptance that
  nobody sealed.
\<close>

section \<open>Messages\<close>

definition HELLO :: message_type where "HELLO = 1"
definition CHANNEL_OPEN :: message_type where "CHANNEL_OPEN = 2"
definition CHANNEL_ACCEPT :: message_type where "CHANNEL_ACCEPT = 3"
definition CHANNEL_REJECT :: message_type where "CHANNEL_REJECT = 4"
definition CHANNEL_CLOSE :: message_type where "CHANNEL_CLOSE = 5"
definition PING :: message_type where "PING = 6"
definition PONG :: message_type where "PONG = 7"
definition SHUTDOWN :: message_type where "SHUTDOWN = 8"
definition RESUME_REQUEST :: message_type where "RESUME_REQUEST = 9"
definition RESUME_ACK :: message_type where "RESUME_ACK = 10"
definition UNSUPPORTED :: message_type where "UNSUPPORTED = 11"
definition CHANNEL_CLOSED :: message_type where "CHANNEL_CLOSED = 13"
definition PROTOCOL_ERROR :: message_type where "PROTOCOL_ERROR = 14"
definition CHANNEL_ERROR :: message_type where "CHANNEL_ERROR = 15"

lemmas control_ids = HELLO_def CHANNEL_OPEN_def CHANNEL_ACCEPT_def CHANNEL_REJECT_def CHANNEL_CLOSE_def
  PING_def PONG_def SHUTDOWN_def RESUME_REQUEST_def RESUME_ACK_def UNSUPPORTED_def CHANNEL_CLOSED_def
  PROTOCOL_ERROR_def CHANNEL_ERROR_def

record session_hello =
  sh_version :: version
  sh_capabilities :: capability_set
  sh_session_id :: session_id

datatype control_message =
    Hello session_hello
  | Ping u64
  | Pong u64
  | Shutdown string
  | ResumeRequest resume_token
  | ResumeAck bool string
  | Unsupported u16
  | ChannelOpen channel_id channel_type
  | ChannelAccept channel_id
  | ChannelReject channel_id string
  | ChannelClose channel_id
  | ChannelClosed channel_id
  | ProtocolError string
  | ChannelError channel_id string

definition message_type_of :: "control_message \<Rightarrow> message_type" where
  "message_type_of m = (case m of
       Hello _ \<Rightarrow> HELLO
     | Ping _ \<Rightarrow> PING
     | Pong _ \<Rightarrow> PONG
     | Shutdown _ \<Rightarrow> SHUTDOWN
     | ResumeRequest _ \<Rightarrow> RESUME_REQUEST
     | ResumeAck _ _ \<Rightarrow> RESUME_ACK
     | Unsupported _ \<Rightarrow> UNSUPPORTED
     | ChannelOpen _ _ \<Rightarrow> CHANNEL_OPEN
     | ChannelAccept _ \<Rightarrow> CHANNEL_ACCEPT
     | ChannelReject _ _ \<Rightarrow> CHANNEL_REJECT
     | ChannelClose _ \<Rightarrow> CHANNEL_CLOSE
     | ChannelClosed _ \<Rightarrow> CHANNEL_CLOSED
     | ProtocolError _ \<Rightarrow> PROTOCOL_ERROR
     | ChannelError _ _ \<Rightarrow> CHANNEL_ERROR)"

text \<open>The JSON bodies; a hello carries its capabilities as the list on the wire.\<close>

datatype body =
    BHello version "capability list" session_id
  | BU64 u64 | BU16 u16 | BStr string
  | BToken resume_token | BAck bool string
  | BOpen channel_id channel_type | BChannel channel_id | BChannelStr channel_id string

record json =
  j_enc :: "body \<Rightarrow> (string, bytes) result"
  j_hello :: "bytes \<Rightarrow> (string, version \<times> capability list \<times> session_id) result"
  j_u64 :: "bytes \<Rightarrow> (string, u64) result"
  j_u16 :: "bytes \<Rightarrow> (string, u16) result"
  j_str :: "bytes \<Rightarrow> (string, string) result"
  j_token :: "bytes \<Rightarrow> (string, resume_token) result"
  j_ack :: "bytes \<Rightarrow> (string, bool \<times> string) result"
  j_open :: "bytes \<Rightarrow> (string, channel_id \<times> channel_type) result"
  j_channel :: "bytes \<Rightarrow> (string, channel_id) result"
  j_channel_str :: "bytes \<Rightarrow> (string, channel_id \<times> string) result"
  cm_debug :: "control_message \<Rightarrow> string"

definition json_ok :: "json \<Rightarrow> bool" where
  "json_ok J = (\<forall>b bs. j_enc J b = Inr bs \<longrightarrow>
     (case b of
        BHello v cs sid \<Rightarrow> j_hello J bs = Inr (v, cs, sid)
      | BU64 n \<Rightarrow> j_u64 J bs = Inr n
      | BU16 n \<Rightarrow> j_u16 J bs = Inr n
      | BStr s \<Rightarrow> j_str J bs = Inr s
      | BToken t \<Rightarrow> j_token J bs = Inr t
      | BAck a r \<Rightarrow> j_ack J bs = Inr (a, r)
      | BOpen c ct \<Rightarrow> j_open J bs = Inr (c, ct)
      | BChannel c \<Rightarrow> j_channel J bs = Inr c
      | BChannelStr c s \<Rightarrow> j_channel_str J bs = Inr (c, s)))"

definition json_encode :: "json \<Rightarrow> body \<Rightarrow> (session_error, bytes) result" where
  "json_encode J b = (case j_enc J b of Inl e \<Rightarrow> Inl (Serialization e) | Inr bs \<Rightarrow> Inr bs)"

definition json_decode :: "(bytes \<Rightarrow> (string, 'a) result) \<Rightarrow> bytes \<Rightarrow> (session_error, 'a) result" where
  "json_decode d bs = (case d bs of Inl e \<Rightarrow> Inl (Serialization e) | Inr a \<Rightarrow> Inr a)"

definition message_body :: "control_message \<Rightarrow> body" where
  "message_body m = (case m of
       Hello h \<Rightarrow> BHello (sh_version h) (sh_capabilities h) (sh_session_id h)
     | Ping n \<Rightarrow> BU64 n
     | Pong n \<Rightarrow> BU64 n
     | Shutdown reason \<Rightarrow> BStr reason
     | ResumeRequest token \<Rightarrow> BToken token
     | ResumeAck accepted reason \<Rightarrow> BAck accepted reason
     | Unsupported mt \<Rightarrow> BU16 mt
     | ChannelOpen channel channel_type \<Rightarrow> BOpen channel channel_type
     | ChannelAccept channel \<Rightarrow> BChannel channel
     | ChannelClose channel \<Rightarrow> BChannel channel
     | ChannelClosed channel \<Rightarrow> BChannel channel
     | ChannelReject channel reason \<Rightarrow> BChannelStr channel reason
     | ProtocolError detail \<Rightarrow> BStr detail
     | ChannelError channel detail \<Rightarrow> BChannelStr channel detail)"

definition to_frame :: "json \<Rightarrow> control_message \<Rightarrow> (session_error, session_frame) result" where
  "to_frame J m =
     rbind (json_encode J (message_body m)) (\<lambda>payload.
     Inr \<lparr>sf_channel = CONTROL, sf_message_type = message_type_of m,
          sf_flags = FLAG_END_OF_MESSAGE, sf_payload = payload\<rparr>)"

definition from_frame :: "json \<Rightarrow> session_frame \<Rightarrow> (session_error, control_message) result" where
  "from_frame J f =
     (let mt = sf_message_type f; p = sf_payload f in
      if mt = HELLO then rbind (json_decode (j_hello J) p) (\<lambda>(v, raw, sid).
        Inr (Hello \<lparr>sh_version = v, sh_capabilities = cap_deserialize raw, sh_session_id = sid\<rparr>))
      else if mt = PING then rbind (json_decode (j_u64 J) p) (\<lambda>n. Inr (Ping n))
      else if mt = PONG then rbind (json_decode (j_u64 J) p) (\<lambda>n. Inr (Pong n))
      else if mt = SHUTDOWN then rbind (json_decode (j_str J) p) (\<lambda>s. Inr (Shutdown s))
      else if mt = RESUME_REQUEST then rbind (json_decode (j_token J) p) (\<lambda>t. Inr (ResumeRequest t))
      else if mt = RESUME_ACK then rbind (json_decode (j_ack J) p) (\<lambda>(a, r). Inr (ResumeAck a r))
      else if mt = UNSUPPORTED then rbind (json_decode (j_u16 J) p) (\<lambda>n. Inr (Unsupported n))
      else if mt = CHANNEL_OPEN then rbind (json_decode (j_open J) p) (\<lambda>(c, ct). Inr (ChannelOpen c ct))
      else if mt = CHANNEL_ACCEPT then rbind (json_decode (j_channel J) p) (\<lambda>c. Inr (ChannelAccept c))
      else if mt = CHANNEL_REJECT then rbind (json_decode (j_channel_str J) p) (\<lambda>(c, s). Inr (ChannelReject c s))
      else if mt = CHANNEL_CLOSE then rbind (json_decode (j_channel J) p) (\<lambda>c. Inr (ChannelClose c))
      else if mt = CHANNEL_CLOSED then rbind (json_decode (j_channel J) p) (\<lambda>c. Inr (ChannelClosed c))
      else if mt = PROTOCOL_ERROR then rbind (json_decode (j_str J) p) (\<lambda>s. Inr (ProtocolError s))
      else if mt = CHANNEL_ERROR then rbind (json_decode (j_channel_str J) p) (\<lambda>(c, s). Inr (ChannelError c s))
      else Inl (FrameDecode (''unknown control message type '' @ show_nat (unat mt))))"

section \<open>Sending and receiving\<close>

text \<open>
  The link is the transport: \<open>link_send\<close> is the outcome of handing it one frame payload, and a
  received frame is \<open>None\<close> when the stream has ended.
\<close>

type_synonym link_send = "bytes \<Rightarrow> (domain_error, unit) result"

definition lift_link :: "(domain_error, 'a) result \<Rightarrow> (session_error, 'a) result" where
  "lift_link r = (case r of Inl e \<Rightarrow> Inl (session_error_from e) | Inr a \<Rightarrow> Inr a)"

text \<open>Seal and send; the first component is what was handed to the link.\<close>

definition send_control :: "prims \<Rightarrow> json \<Rightarrow> link_send \<Rightarrow> channel_crypto \<Rightarrow> control_message
    \<Rightarrow> bytes list \<times> (session_error, channel_crypto) result" where
  "send_control P J send crypto msg =
     (case rbind (to_frame J msg) (\<lambda>sf. cc_seal P crypto (frame_encode sf)) of
        Inl e \<Rightarrow> ([], Inl e)
      | Inr sealed \<Rightarrow> ([sealed], rbind (lift_link (send sealed)) (\<lambda>_. advance_send crypto)))"

definition recv_session_frame :: "prims \<Rightarrow> channel_crypto \<Rightarrow> bytes option
    \<Rightarrow> (session_error, session_frame option \<times> channel_crypto) result" where
  "recv_session_frame P crypto received =
     (case received of
        None \<Rightarrow> Inr (None, crypto)
      | Some payload \<Rightarrow>
          rbind (cc_open P crypto payload) (\<lambda>(plain, crypto').
          rbind (frame_decode plain) (\<lambda>sf. Inr (Some sf, crypto'))))"

definition recv_hello :: "prims \<Rightarrow> json \<Rightarrow> channel_crypto \<Rightarrow> bytes option
    \<Rightarrow> (session_error, session_hello \<times> channel_crypto) result" where
  "recv_hello P J crypto received =
     rbind (recv_session_frame P crypto received) (\<lambda>(f, crypto').
     case f of
       None \<Rightarrow> Inl (LinkError ''link closed during negotiation'')
     | Some frame \<Rightarrow> rbind (from_frame J frame) (\<lambda>m. case m of
           Hello h \<Rightarrow> Inr (h, crypto')
         | other \<Rightarrow> Inl (UnexpectedMessage Negotiating (''expected Hello, got '' @ cm_debug J other))))"

definition control_plain :: "json \<Rightarrow> control_message \<Rightarrow> (session_error, bytes) result" where
  "control_plain J msg = rbind (to_frame J msg) (\<lambda>sf. Inr (frame_encode sf))"

definition recv_control_plain :: "json \<Rightarrow> bytes option \<Rightarrow> (session_error, control_message) result" where
  "recv_control_plain J received =
     (case received of
        None \<Rightarrow> Inl (LinkError ''link closed during resume'')
      | Some payload \<Rightarrow> rbind (frame_decode payload) (from_frame J))"

section \<open>The resume handshake\<close>

datatype resume_reply = Accepted | Rejected string

definition reply_from :: "bool \<Rightarrow> string \<Rightarrow> resume_reply" where
  "reply_from accepted reason = (if accepted then Accepted else Rejected reason)"

definition recv_resume_reply :: "prims \<Rightarrow> json \<Rightarrow> channel_crypto \<Rightarrow> bytes option
    \<Rightarrow> (session_error, resume_reply \<times> channel_crypto) result" where
  "recv_resume_reply P J crypto received =
     (case received of
        None \<Rightarrow> Inl (LinkError ''link closed awaiting resume ack'')
      | Some payload \<Rightarrow>
          (case cc_open P crypto payload of
             Inr (plain, crypto') \<Rightarrow>
               (case rbind (frame_decode plain) (from_frame J) of
                  Inr (ResumeAck accepted reason) \<Rightarrow> Inr (reply_from accepted reason, crypto')
                | _ \<Rightarrow> Inl (ResumeRejected ''malformed sealed resume ack''))
           | Inl _ \<Rightarrow>
               rbind (frame_decode payload) (\<lambda>sf. rbind (from_frame J sf) (\<lambda>m.
                 case m of
                   ResumeAck accepted reason \<Rightarrow> Inr (reply_from accepted reason, crypto)
                 | other \<Rightarrow> Inl (UnexpectedMessage Recovering (''expected ResumeAck, got '' @ cm_debug J other))))))"

record preserved_session =
  ps_session_id :: session_id
  ps_local :: device_id
  ps_peer :: device_id
  ps_role :: session_role
  ps_version :: version
  ps_capabilities :: capability_set
  ps_crypto :: session_crypto
  ps_consumed_epoch :: u64
  ps_channels :: "(channel_id \<times> channel_type) list"

definition preserved_binding :: "preserved_session \<Rightarrow> resume_binding" where
  "preserved_binding ps = \<lparr>rb_session_id = ps_session_id ps, rb_local = ps_local ps,
                            rb_peer = ps_peer ps, rb_version = ps_version ps\<rparr>"

text \<open>
  The redialling side: the request it sends, with the contexts of the new epoch, and what it
  makes of the reply. The session it then assembles carries those contexts.
\<close>

definition resume_request :: "prims \<Rightarrow> json \<Rightarrow> preserved_session \<Rightarrow> u64 \<Rightarrow> u64 \<Rightarrow> u64
    \<Rightarrow> (session_error, bytes \<times> session_crypto \<times> channel_crypto) result" where
  "resume_request P J ps epoch now_ms token_ttl_ms =
     (let sc = with_epoch (ps_crypto ps) epoch in
      rbind (control_crypto P sc) (\<lambda>cc.
      rbind (resume_key P sc) (\<lambda>key.
      rbind (control_plain J (ResumeRequest (mint P key (preserved_binding ps) epoch now_ms token_ttl_ms))) (\<lambda>req.
      Inr (req, sc, cc)))))"

definition resume_finish :: "prims \<Rightarrow> json \<Rightarrow> channel_crypto \<Rightarrow> bytes option \<Rightarrow> (session_error, channel_crypto) result" where
  "resume_finish P J cc received =
     rbind (recv_resume_reply P J cc received) (\<lambda>(reply, cc').
     case reply of
       Accepted \<Rightarrow> Inr cc'
     | Rejected reason \<Rightarrow> Inl (ResumeRejected reason))"

text \<open>
  The accepting side. The first component is what it writes on the control stream; the
  \<open>to_string\<close> of the verification error is the refusal's reason.
\<close>

definition plain_reply :: "json \<Rightarrow> control_message \<Rightarrow> bytes list" where
  "plain_reply J m = (case control_plain J m of Inl _ \<Rightarrow> [] | Inr bs \<Rightarrow> [bs])"

definition accept_resume :: "prims \<Rightarrow> json \<Rightarrow> link_send \<Rightarrow> preserved_session \<Rightarrow> bytes option \<Rightarrow> u64
    \<Rightarrow> bytes list \<times> (session_error, session_crypto \<times> channel_crypto \<times> u64) result" where
  "accept_resume P J send ps received now_ms =
     (case recv_control_plain J received of
        Inl e \<Rightarrow> ([], Inl e)
      | Inr (ResumeRequest token) \<Rightarrow>
          (case resume_key P (ps_crypto ps) of
             Inl e \<Rightarrow> ([], Inl e)
           | Inr key \<Rightarrow>
               (case verify P token key (preserved_binding ps) now_ms (ps_consumed_epoch ps) of
                  Inl e \<Rightarrow> (plain_reply J (ResumeAck False (session_error_show e)), Inl e)
                | Inr _ \<Rightarrow>
                    (let epoch = rt_epoch token; sc = with_epoch (ps_crypto ps) epoch in
                     case control_crypto P sc of
                       Inl e \<Rightarrow> ([], Inl e)
                     | Inr cc \<Rightarrow>
                         (case send_control P J send cc (ResumeAck True []) of
                            (out, r) \<Rightarrow> (out, rbind r (\<lambda>cc'. Inr (sc, cc', epoch)))))))
      | Inr other \<Rightarrow> ([], Inl (UnexpectedMessage Recovering (''expected ResumeRequest, got '' @ cm_debug J other))))"

section \<open>The message codec\<close>

lemma json_ok_decode:
  assumes "json_ok J" "j_enc J b = Inr bs"
  shows "case b of
        BHello v cs sid \<Rightarrow> json_decode (j_hello J) bs = Inr (v, cs, sid)
      | BU64 n \<Rightarrow> json_decode (j_u64 J) bs = Inr n
      | BU16 n \<Rightarrow> json_decode (j_u16 J) bs = Inr n
      | BStr s \<Rightarrow> json_decode (j_str J) bs = Inr s
      | BToken t \<Rightarrow> json_decode (j_token J) bs = Inr t
      | BAck a r \<Rightarrow> json_decode (j_ack J) bs = Inr (a, r)
      | BOpen c ct \<Rightarrow> json_decode (j_open J) bs = Inr (c, ct)
      | BChannel c \<Rightarrow> json_decode (j_channel J) bs = Inr c
      | BChannelStr c s \<Rightarrow> json_decode (j_channel_str J) bs = Inr (c, s)"
  using assms unfolding json_ok_def by (cases b) (fastforce simp: json_decode_def)+

definition hello_ok :: "control_message \<Rightarrow> bool" where
  "hello_ok m = (case m of Hello h \<Rightarrow> caps_ok (sh_capabilities h) | _ \<Rightarrow> True)"

lemma from_to_frame:
  assumes "json_ok J" "hello_ok m" "to_frame J m = Inr f"
  shows "from_frame J f = Inr m"
proof -
  from assms(3) obtain bs where e: "j_enc J (message_body m) = Inr bs"
    and f: "f = \<lparr>sf_channel = CONTROL, sf_message_type = message_type_of m,
                 sf_flags = FLAG_END_OF_MESSAGE, sf_payload = bs\<rparr>"
    by (auto simp: to_frame_def json_encode_def split: sum.splits)
  note d = json_ok_decode[OF assms(1) e]
  show ?thesis using d assms(2) unfolding f
    by (cases m)
       (simp_all add: from_frame_def Let_def message_type_of_def message_body_def control_ids
          hello_ok_def cap_deserialize_ok)
qed

text \<open>
  C4. Control messages survive the wire: whatever message is encoded, if its capability list
  (for a hello) is in the canonical order every \<open>CapabilitySet\<close> is kept in, decoding the
  encoded frame gives the message back; the frame is on the control channel.
\<close>

theorem control_message_roundtrip:
  assumes "json_ok J" "hello_ok m" "to_frame J m = Inr f" "length (sf_payload f) < 2 ^ 32"
  shows "sf_channel f = CONTROL \<and> rbind (frame_decode (frame_encode f)) (from_frame J) = Inr m"
  using from_to_frame[OF assms(1-3)] frame_decode_encode[OF assms(4)] assms(3)
  by (auto simp: to_frame_def)

section \<open>Resuming\<close>

definition ps_mirror :: "preserved_session \<Rightarrow> preserved_session \<Rightarrow> bool" where
  "ps_mirror a b = (ps_session_id a = ps_session_id b \<and> ps_local a = ps_peer b \<and> ps_peer a = ps_local b
     \<and> ps_version a = ps_version b \<and> master_send (ps_crypto a) = master_recv (ps_crypto b)
     \<and> master_recv (ps_crypto a) = master_send (ps_crypto b) \<and> sc_role (ps_crypto a) \<noteq> sc_role (ps_crypto b))"

lemma ps_mirror_crypto: "ps_mirror a b \<Longrightarrow> sc_mirror (with_epoch (ps_crypto a) e) (with_epoch (ps_crypto b) e)"
  by (simp add: ps_mirror_def sc_mirror_def with_epoch_def)

lemma resume_key_epoch: "resume_key P (with_epoch sc e) = resume_key P sc"
  by (simp add: resume_key_def with_epoch_def)

lemma accept_resume_refuses:
  assumes "recv_control_plain J received = Inr (ResumeRequest token)" "resume_key P (ps_crypto ps) = Inr key"
    and "verify P token key (preserved_binding ps) now_ms (ps_consumed_epoch ps) = Inl e"
  shows "snd (accept_resume P J send ps received now_ms) = Inl e"
  using assms by (simp add: accept_resume_def)

lemma accept_resume_Inr:
  assumes "accept_resume P J send ps received now_ms = (out, Inr (sc, cc, epoch))"
  obtains token key cc0 where "recv_control_plain J received = Inr (ResumeRequest token)"
    "resume_key P (ps_crypto ps) = Inr key"
    "verify P token key (preserved_binding ps) now_ms (ps_consumed_epoch ps) = Inr ()"
    "epoch = rt_epoch token" "sc = with_epoch (ps_crypto ps) epoch"
    "control_crypto P sc = Inr cc0" "send_control P J send cc0 (ResumeAck True []) = (out, Inr cc)"
  using assms that
  by (auto simp: accept_resume_def Let_def split: sum.splits control_message.splits prod.splits)

text \<open>
  C6. A resume token is single-use: once the accepting side has resumed at some epoch and
  recorded it as consumed, the request that got it there - and any other request carrying an
  epoch at or below it - is refused with a typed error at any later time, while every accepted
  request was authenticated by the resume key and bound to this session, pair and version.
\<close>

theorem resume_single_use:
  assumes "accept_resume P J send ps received now = (out, Inr (sc, cc, epoch))"
  shows "ps_consumed_epoch ps < epoch
    \<and> (\<exists>token key. resume_key P (ps_crypto ps) = Inr key \<and> recv_control_plain J received = Inr (ResumeRequest token)
         \<and> hmac_sha256 P key (token_mac_input token) = rt_mac token \<and> binding_matches token (preserved_binding ps)
         \<and> rt_epoch token = epoch \<and> sc = with_epoch (ps_crypto ps) epoch)
    \<and> (\<forall>out' sc' cc' received' send' now' epoch'.
         accept_resume P J send' (ps\<lparr>ps_consumed_epoch := epoch\<rparr>) received' now' = (out', Inr (sc', cc', epoch'))
           \<longrightarrow> epoch < epoch' \<and> received' \<noteq> received)"
proof -
  obtain token key where t: "recv_control_plain J received = Inr (ResumeRequest token)"
    "resume_key P (ps_crypto ps) = Inr key"
    "verify P token key (preserved_binding ps) now (ps_consumed_epoch ps) = Inr ()"
    "epoch = rt_epoch token" "sc = with_epoch (ps_crypto ps) epoch"
    using accept_resume_Inr[OF assms] by metis
  have later: "epoch < epoch' \<and> received' \<noteq> received"
    if acc: "accept_resume P J send' (ps\<lparr>ps_consumed_epoch := epoch\<rparr>) received' now' = (out', Inr (sc', cc', epoch'))"
    for out' sc' cc' received' send' now' epoch'
  proof -
    obtain token' key' where t': "recv_control_plain J received' = Inr (ResumeRequest token')"
      "verify P token' key' (preserved_binding (ps\<lparr>ps_consumed_epoch := epoch\<rparr>)) now' epoch = Inr ()"
      "epoch' = rt_epoch token'"
      using accept_resume_Inr[OF acc] by (metis preserved_session.select_convs(8) preserved_session.surjective preserved_session.update_convs(8))
    then have "epoch < epoch'" by (simp add: verify_ok_iff)
    moreover have "received' \<noteq> received" using t' t(1,4) \<open>epoch < epoch'\<close> by auto
    ultimately show ?thesis by blast
  qed
  show ?thesis using t later by (auto simp: verify_ok_iff)
qed

lemma recv_plain_of_control_plain:
  assumes "json_ok J" "hello_ok m" "control_plain J m = Inr req" "length req < 2 ^ 32"
  shows "recv_control_plain J (Some req) = Inr m"
proof -
  obtain f where f: "to_frame J m = Inr f" "req = frame_encode f"
    using assms(3) by (auto simp: control_plain_def)
  have "length (sf_payload f) < 2 ^ 32" using assms(4) f(2) by (simp add: frame_encode_def)
  then show ?thesis
    using from_to_frame[OF assms(1,2) f(1)] frame_decode_encode f(2) by (simp add: recv_control_plain_def)
qed

lemma send_control_ok:
  assumes "to_frame J m = Inr f" "gcm_encrypt P (send_key cc) (nonce (send_prefix cc) (send_ctr cc)) (frame_encode f) = Some ct"
    and "send (nonce (send_prefix cc) (send_ctr cc) @ ct) = Inr ()" "send_ctr cc = 0"
  shows "send_control P J send cc m = ([nonce (send_prefix cc) (send_ctr cc) @ ct], Inr (cc\<lparr>send_ctr := 1\<rparr>))"
  using assms by (simp add: send_control_def cc_seal_def enc_seal_def advance_send_def lift_link_def checked_add_def)

lemma recv_reply_ok:
  assumes "gcm_ok P" "json_ok J" "to_frame J (ResumeAck True r) = Inr f" "length (sf_payload f) < 2 ^ 32"
    and "length (recv_prefix cc) = 4" "recv_ctr cc = 0"
    and "gcm_encrypt P (recv_key cc) (nonce (recv_prefix cc) 0) (frame_encode f) = Some ct"
  shows "resume_finish P J cc (Some (nonce (recv_prefix cc) 0 @ ct)) = Inr (cc\<lparr>recv_ctr := 1\<rparr>)"
proof -
  have "cc_open P cc (nonce (recv_prefix cc) 0 @ ct) = Inr (frame_encode f, cc\<lparr>recv_ctr := 1\<rparr>)"
    using assms by (simp add: cc_open_Inr checked_add_def)
  then show ?thesis
    using from_to_frame[OF assms(2) _ assms(3)] frame_decode_encode[OF assms(4)]
    by (simp add: resume_finish_def recv_resume_reply_def hello_ok_def reply_from_def)
qed

lemma resume_exchange:
  assumes P: "hmac_len P" "gcm_ok P" "\<forall>k n p. gcm_encrypt P k n p \<noteq> None" and J: "json_ok J"
    and mirror: "ps_mirror a b" and up: "\<forall>bs. send bs = Inr ()"
    and req: "resume_request P J a epoch t0 ttl = Inr (req, sc, cc)" "length req < 2 ^ 32"
    and ack: "to_frame J (ResumeAck True []) = Inr ackf" "length (sf_payload ackf) < 2 ^ 32"
    and fresh: "ps_consumed_epoch b < epoch" "unat now < min (unat t0 + unat ttl) (2 ^ 64 - 1)"
  shows "\<exists>reply sc' cc' cc2. accept_resume P J send b (Some req) now = ([reply], Inr (sc', cc', epoch))
           \<and> resume_finish P J cc (Some reply) = Inr cc2
           \<and> sc_mirror sc sc' \<and> sc_epoch sc' = epoch \<and> paired cc2 cc' \<and> paired cc' cc2"
proof -
  let ?tok = "\<lambda>key. mint P key (preserved_binding a) epoch t0 ttl"
  let ?sa = "with_epoch (ps_crypto a) epoch" and ?sb = "with_epoch (ps_crypto b) epoch"
  obtain key where key: "resume_key P ?sa = Inr key" "control_crypto P ?sa = Inr cc" "sc = ?sa"
    "control_plain J (ResumeRequest (?tok key)) = Inr req"
    using req(1) by (auto simp: resume_request_def Let_def)
  obtain ca cb where d: "derive P ?sa CONTROL CONTROL_VERSION = Inr ca" "derive P ?sb CONTROL CONTROL_VERSION = Inr cb"
    "paired ca cb" "paired cb ca" "send_ctr ca = 0" "recv_ctr ca = 0" "resume_key P ?sa = resume_key P ?sb"
    using derive_mirrored[OF P(1) ps_mirror_crypto[OF mirror]] by blast
  have ca: "ca = cc" and cb: "control_crypto P ?sb = Inr cb" using d key(2) by (simp_all add: control_crypto_def)
  have keyb: "resume_key P (ps_crypto b) = Inr key" using d(7) key(1) by (simp add: resume_key_epoch)
  have r: "recv_control_plain J (Some req) = Inr (ResumeRequest (?tok key))"
    by (rule recv_plain_of_control_plain[OF J _ key(4) req(2)]) (simp add: hello_ok_def)
  have "preserved_binding b = (preserved_binding a)\<lparr>rb_local := rb_peer (preserved_binding a), rb_peer := rb_local (preserved_binding a)\<rparr>"
    using mirror by (simp add: preserved_binding_def ps_mirror_def)
  then have v: "verify P (?tok key) key (preserved_binding b) now (ps_consumed_epoch b) = Inr ()"
    using fresh by (simp only: verify_minted)
  obtain ct where ct: "gcm_encrypt P (send_key cb) (nonce (send_prefix cb) (send_ctr cb)) (frame_encode ackf) = Some ct"
    using P(3) by blast
  let ?reply = "nonce (send_prefix cb) (send_ctr cb) @ ct"
  have cb0: "send_ctr cb = 0" using d(4,6) by (simp add: paired_def)
  note sent = send_control_ok[where send = send, OF ack(1) ct _ cb0]
  have epoch_tok: "rt_epoch (?tok key) = epoch" by (simp add: mint_def Let_def)
  have acc: "accept_resume P J send b (Some req) now = ([?reply], Inr (?sb, cb\<lparr>send_ctr := 1\<rparr>, epoch))"
    using r keyb v cb sent up by (simp add: accept_resume_def Let_def epoch_tok)
  have prefix: "recv_prefix cc = send_prefix cb" "recv_key cc = send_key cb" "length (recv_prefix cc) = 4"
    using d(4) ca by (auto simp: paired_def)
  have fin: "resume_finish P J cc (Some ?reply) = Inr (cc\<lparr>recv_ctr := 1\<rparr>)"
    using recv_reply_ok[OF P(2) J ack, of cc ct] prefix ct cb0 d(6) ca by simp
  have "paired (cc\<lparr>recv_ctr := 1\<rparr>) (cb\<lparr>send_ctr := 1\<rparr>)" "paired (cb\<lparr>send_ctr := 1\<rparr>) (cc\<lparr>recv_ctr := 1\<rparr>)"
    using d(3,4) ca by (auto simp: paired_def)
  moreover have "sc_mirror sc ?sb" "sc_epoch ?sb = epoch"
    using ps_mirror_crypto[OF mirror] key(3) by (simp_all add: with_epoch_def)
  ultimately show ?thesis using acc fin by blast
qed

text \<open>
  C5. Reconnecting works: when the two ends of a lost session run the resume handshake over a
  working link before the token expires and with an epoch the accepter has not consumed, the
  accepter answers with one frame, both sides succeed, and they end with matching control
  contexts - in both directions - under the keys of the new epoch.
\<close>

theorem resume_handshake_completes:
  assumes P: "hmac_len P" "gcm_ok P" "\<forall>k n p. gcm_encrypt P k n p \<noteq> None" and J: "json_ok J"
    and mirror: "ps_mirror a b" and up: "\<forall>bs. send bs = Inr ()"
    and req: "resume_request P J a epoch t0 ttl = Inr (req, sc, cc)" "length req < 2 ^ 32"
    and ack: "to_frame J (ResumeAck True []) = Inr ackf" "length (sf_payload ackf) < 2 ^ 32"
    and fresh: "ps_consumed_epoch b < epoch" "unat now < min (unat t0 + unat ttl) (2 ^ 64 - 1)"
  shows "\<exists>reply sc' cc' cc2. accept_resume P J send b (Some req) now = ([reply], Inr (sc', cc', epoch))
           \<and> resume_finish P J cc (Some reply) = Inr cc2
           \<and> sc_mirror sc sc' \<and> sc_epoch sc' = epoch \<and> paired cc2 cc' \<and> paired cc' cc2"
  by (rule resume_exchange[OF assms])

text \<open>
  C13. The redialling side takes an acceptance that nobody sealed: for any keys, if the received
  bytes do not open under the control key of the new epoch but are a plaintext \<open>ResumeAck\<close> with
  \<open>accepted = true\<close>, the resume handshake succeeds. The acceptance therefore does not prove
  that the peer holds the session's master secret; only the frames that follow do.
\<close>

lemma unsealed_acceptance_taken:
  assumes "json_ok J" "to_frame J (ResumeAck True r) = Inr f" "length (sf_payload f) < 2 ^ 32"
    and "cc_open P cc (frame_encode f) = Inl e"
  shows "resume_finish P J cc (Some (frame_encode f)) = Inr cc"
  using from_to_frame[OF assms(1) _ assms(2)] frame_decode_encode[OF assms(3)] assms(4)
  by (simp add: resume_finish_def recv_resume_reply_def hello_ok_def reply_from_def)

section \<open>A concrete instance\<close>

text \<open>A codec for the bodies the examples send, with one known token.\<close>

definition toy_json :: "resume_token \<Rightarrow> json" where
  "toy_json tok = \<lparr>
     j_enc = (\<lambda>b. case b of
        BAck a r \<Rightarrow> Inr ((if a then 1 else 0) # str_bytes r)
      | BU64 n \<Rightarrow> Inr (to_be n)
      | BToken t \<Rightarrow> if t = tok then Inr [9] else Inl ''token''
      | _ \<Rightarrow> Inl ''body''),
     j_hello = (\<lambda>_. Inl ''hello''), j_u64 = (\<lambda>bs. Inr (from_be bs)), j_u16 = (\<lambda>_. Inl ''u16''),
     j_str = (\<lambda>_. Inl ''str''), j_token = (\<lambda>_. Inr tok),
     j_ack = (\<lambda>bs. Inr (hd bs = 1, map (\<lambda>b. char_of (unat b)) (tl bs))),
     j_open = (\<lambda>_. Inl ''open''), j_channel = (\<lambda>_. Inl ''channel''), j_channel_str = (\<lambda>_. Inl ''channel''),
     cm_debug = (\<lambda>_. [])\<rparr>"

lemma toy_json_ok: "json_ok (toy_json tok)"
  by (auto simp: json_ok_def toy_json_def str_bytes_def comp_def unat_of_char be64.dec_enc
           split: body.splits if_splits)

definition toy_key :: bytes where
  "toy_key = take 32 (hmac_sha256 toy_prims [1, 2] (RESUME_LABEL @ [1]))"

definition toy_ps :: "bool \<Rightarrow> preserved_session" where
  "toy_ps ini = \<lparr>ps_session_id = replicate 16 0,
     ps_local = (if ini then ''a'' else ''b''), ps_peer = (if ini then ''b'' else ''a''),
     ps_role = (if ini then Initiator else Responder), ps_version = VERSION_CURRENT, ps_capabilities = [],
     ps_crypto = \<lparr>master_send = (if ini then [1] else [2]), master_recv = (if ini then [2] else [1]),
                  sc_role = (if ini then Initiator else Responder), sc_epoch = 0\<rparr>,
     ps_consumed_epoch = 0, ps_channels = []\<rparr>"

abbreviation toy_J :: json where
  "toy_J \<equiv> toy_json (mint toy_prims toy_key (preserved_binding (toy_ps True)) 1 10 100)"

lemma toy_mirror: "ps_mirror (toy_ps True) (toy_ps False)"
  by (simp add: ps_mirror_def toy_ps_def)

lemma toy_ack: "to_frame toy_J (ResumeAck True []) =
    Inr \<lparr>sf_channel = CONTROL, sf_message_type = RESUME_ACK, sf_flags = FLAG_END_OF_MESSAGE, sf_payload = [1]\<rparr>"
  by (simp add: to_frame_def json_encode_def message_body_def toy_json_def message_type_of_def str_bytes_def)

lemma toy_request:
  obtains req sc cc where "resume_request toy_prims toy_J (toy_ps True) 1 10 100 = Inr (req, sc, cc)" "length req < 2 ^ 32"
    "length (recv_prefix cc) = 4"
proof -
  obtain cc where cc: "control_crypto toy_prims (with_epoch (ps_crypto (toy_ps True)) 1) = Inr cc" "length (recv_prefix cc) = 4"
    unfolding control_crypto_def using derive_ok[OF toy_hmac] by metis
  have k: "resume_key toy_prims (with_epoch (ps_crypto (toy_ps True)) 1) = Inr toy_key"
    by (simp add: resume_key_def with_epoch_def toy_ps_def hkdf_expand_block[OF toy_hmac] toy_key_def)
  let ?f = "\<lparr>sf_channel = CONTROL, sf_message_type = RESUME_REQUEST, sf_flags = FLAG_END_OF_MESSAGE, sf_payload = [9]\<rparr>"
  have "control_plain toy_J (ResumeRequest (mint toy_prims toy_key (preserved_binding (toy_ps True)) 1 10 100)) = Inr (frame_encode ?f)"
    by (simp add: control_plain_def to_frame_def json_encode_def message_body_def toy_json_def message_type_of_def)
  with cc k show thesis
    by (intro that[of "frame_encode ?f"]) (simp_all add: resume_request_def Let_def frame_encode_def pb_bytes)
qed

lemma toy_gcm_total: "\<forall>k n p. gcm_encrypt toy_prims k n p \<noteq> None"
  by (simp add: toy_prims_def)

theorem control_message_roundtrip_witness:
  "rbind (frame_decode (frame_encode \<lparr>sf_channel = CONTROL, sf_message_type = RESUME_ACK,
       sf_flags = FLAG_END_OF_MESSAGE, sf_payload = [1]\<rparr>)) (from_frame toy_J) = Inr (ResumeAck True [])"
  using control_message_roundtrip[OF toy_json_ok _ toy_ack] by (simp add: hello_ok_def)

lemma toy_exchange:
  "\<exists>req sc cc reply sc' cc'.
     resume_request toy_prims toy_J (toy_ps True) 1 10 100 = Inr (req, sc, cc)
     \<and> accept_resume toy_prims toy_J (\<lambda>_. Inr ()) (toy_ps False) (Some req) 50 = ([reply], Inr (sc', cc', 1))"
proof -
  obtain req sc cc where r: "resume_request toy_prims toy_J (toy_ps True) 1 10 100 = Inr (req, sc, cc)" "length req < 2 ^ 32"
    by (rule toy_request)
  have "ps_consumed_epoch (toy_ps False) < 1" by (simp add: toy_ps_def)
  then show ?thesis
    using resume_exchange[OF toy_hmac toy_gcm toy_gcm_total toy_json_ok toy_mirror _ r toy_ack,
        where send = "\<lambda>_. Inr ()" and now = 50] r(1)
    by simp blast
qed

theorem resume_handshake_completes_witness:
  "\<exists>req sc cc reply sc' cc' cc2.
     resume_request toy_prims toy_J (toy_ps True) 1 10 100 = Inr (req, sc, cc)
     \<and> accept_resume toy_prims toy_J (\<lambda>_. Inr ()) (toy_ps False) (Some req) 50 = ([reply], Inr (sc', cc', 1))
     \<and> resume_finish toy_prims toy_J cc (Some reply) = Inr cc2"
proof -
  obtain req sc cc where r: "resume_request toy_prims toy_J (toy_ps True) 1 10 100 = Inr (req, sc, cc)" "length req < 2 ^ 32"
    by (rule toy_request)
  have "ps_consumed_epoch (toy_ps False) < 1" by (simp add: toy_ps_def)
  then show ?thesis
    using resume_handshake_completes[OF toy_hmac toy_gcm toy_gcm_total toy_json_ok toy_mirror _ r toy_ack,
        where send = "\<lambda>_. Inr ()" and now = 50] r(1)
    by simp blast
qed

theorem resume_single_use_witness:
  "\<exists>req out sc cc. accept_resume toy_prims toy_J (\<lambda>_. Inr ()) (toy_ps False) (Some req) 50 = (out, Inr (sc, cc, 1))
     \<and> \<not> is_ok (snd (accept_resume toy_prims toy_J (\<lambda>_. Inr ()) ((toy_ps False)\<lparr>ps_consumed_epoch := 1\<rparr>) (Some req) 50))"
proof -
  obtain req out sc cc where a: "accept_resume toy_prims toy_J (\<lambda>_. Inr ()) (toy_ps False) (Some req) 50 = (out, Inr (sc, cc, 1))"
    using toy_exchange by (elim exE conjE)
  obtain out' r where r: "accept_resume toy_prims toy_J (\<lambda>_. Inr ()) ((toy_ps False)\<lparr>ps_consumed_epoch := 1\<rparr>) (Some req) 50 = (out', r)"
    by fastforce
  have "r \<noteq> Inr (sc', cc', e)" for sc' cc' e using resume_single_use[OF a] r by blast
  then have "\<not> is_ok r" by (cases r) auto
  then show ?thesis using a r by (intro exI[of _ req] exI[of _ out] exI[of _ sc] exI[of _ cc]) simp
qed

lemma unsealed_acceptance_taken_witness:
  "resume_finish toy_prims toy_J (from_keys [1] [2] [1, 2, 3, 4] [5, 6, 7, 8])
     (Some (frame_encode \<lparr>sf_channel = CONTROL, sf_message_type = RESUME_ACK,
        sf_flags = FLAG_END_OF_MESSAGE, sf_payload = [1]\<rparr>))
   = Inr (from_keys [1] [2] [1, 2, 3, 4] [5, 6, 7, 8])"
proof -
  let ?f = "\<lparr>sf_channel = CONTROL, sf_message_type = RESUME_ACK, sf_flags = FLAG_END_OF_MESSAGE, sf_payload = [1]\<rparr>"
  let ?cc = "from_keys [1] [2] [1, 2, 3, 4] [5, 6, 7, 8]"
  have "take 4 (frame_encode ?f) = [0, 0, 0, 0]" "\<not> length (frame_encode ?f) < 12"
    by (simp_all add: frame_encode_def CONTROL_def toy_ctr pb_bytes)
  then have "\<exists>e. cc_open toy_prims ?cc (frame_encode ?f) = Inl e"
    by (simp add: cc_open_def Let_def from_keys_def)
  then show ?thesis using unsealed_acceptance_taken[OF toy_json_ok toy_ack] by auto
qed

end
