(* ===== verification/PB_Channel_Manager.thy ===== *)
theory PB_Channel_Manager
  imports PB_Control
begin

text \<open>
  The channel manager (\<open>peerbeam-transfer/src/session/channel_manager.rs\<close>), with the channel
  handle of \<open>session/channel.rs\<close>: the chid allocator, the registry of live channels, the FIFO
  pairing of peer opens with inbound streams, and the set of channels to re-attach on resume.

  The manager owns no I/O. Streams are named by a natural number (\<open>link\<close>), what the manager
  sends on its in-process queues is logged in order (\<open>cm_events\<close> to the application,
  \<open>cm_incoming\<close> to the stream receiver, \<open>cm_sent\<close> to the actors' mailboxes), and what the
  environment decides - whether a stream could be opened, whether anyone receives incoming
  streams, whether an actor is still running - is an argument.

  Shown here: in every reachable state the limit on open and pending channels holds, the
  resumable set is no larger, the queue of pending opens is bounded by the limit however many
  opens a peer sends, and only one of the two pairing queues is non-empty; streams pair with
  opens in order, refused opens included; allocated ids have this side's parity and are never
  issued twice.
\<close>

type_synonym link = nat

definition USIZE_MAX :: nat where "USIZE_MAX = 2 ^ 64 - 1"

definition PROBE_MESSAGE_TYPE :: message_type where "PROBE_MESSAGE_TYPE = 0"

section \<open>Channels\<close>

datatype channel_event =
    Ev_Opened channel_id channel_type
  | Ev_Rejected channel_id string
  | Ev_Closed channel_id
  | Ev_Error channel_id string

datatype actor_command = Ac_Send session_frame | Ac_Close | Ac_Drain

datatype actor_event = Ae_Closed channel_id | Ae_Errored channel_id string

text \<open>
  A registry entry. \<open>ch_actor\<close> says whether a dispatch actor owns the stream (its command
  sender is \<open>Some\<close>); the stream and the crypto context the actor was spawned with are kept so
  that claims about pairing and keys can name them.
\<close>

record channel =
  ch_id :: channel_id
  ch_type :: channel_type
  ch_state :: channel_state
  ch_actor :: bool
  ch_link :: link
  ch_crypto :: channel_crypto

definition new_stream :: "channel_id \<Rightarrow> channel_type \<Rightarrow> link \<Rightarrow> channel_crypto \<Rightarrow> channel" where
  "new_stream chid ty l cc = \<lparr>ch_id = chid, ch_type = ty, ch_state = ChOpen, ch_actor = False, ch_link = l, ch_crypto = cc\<rparr>"

definition spawn_channel :: "channel_id \<Rightarrow> channel_type \<Rightarrow> channel_state \<Rightarrow> link \<Rightarrow> channel_crypto \<Rightarrow> channel" where
  "spawn_channel chid ty st l cc = \<lparr>ch_id = chid, ch_type = ty, ch_state = st, ch_actor = True, ch_link = l, ch_crypto = cc\<rparr>"

section \<open>Id allocation\<close>

record allocator =
  al_next :: u64
  al_parity :: u64

definition allocator_new :: "session_role \<Rightarrow> allocator" where
  "allocator_new role =
     (let nxt = (case role of Initiator \<Rightarrow> 1 | Responder \<Rightarrow> 2)
      in \<lparr>al_next = nxt, al_parity = nxt mod 2\<rparr>)"

text \<open>The search loop ends because the candidate strictly grows and the addition is checked.\<close>

function alloc_loop :: "u64 \<Rightarrow> (channel_id \<Rightarrow> bool) \<Rightarrow> channel_id option \<times> u64" where
  "alloc_loop nxt is_taken =
     (case checked_add nxt 2 of
        None \<Rightarrow> (None, nxt)
      | Some nxt' \<Rightarrow> if nxt \<noteq> 0 \<and> \<not> is_taken nxt then (Some nxt, nxt') else alloc_loop nxt' is_taken)"
  by pat_completeness auto
termination
proof (relation "measure (\<lambda>(n, t). 2 ^ 64 - unat n)", goal_cases)
  case (2 nxt t nxt')
  then have "unat nxt' = unat nxt + unat (2 :: u64)" by (blast dest: checked_add_Some[THEN iffD1])
  then have "unat nxt' = unat nxt + 2" by simp
  then show ?case using unat_u64_less[of nxt'] by simp
qed simp

declare alloc_loop.simps [simp del]

definition allocate :: "allocator \<Rightarrow> (channel_id \<Rightarrow> bool) \<Rightarrow> channel_id option \<times> allocator" where
  "allocate a is_taken = (let (r, nxt) = alloc_loop (al_next a) is_taken in (r, a\<lparr>al_next := nxt\<rparr>))"

definition reserve :: "allocator \<Rightarrow> channel_id \<Rightarrow> allocator" where
  "reserve a chid =
     (if chid mod 2 = al_parity a then
        (case checked_add chid 2 of
           Some nxt \<Rightarrow> if al_next a < nxt then a\<lparr>al_next := nxt\<rparr> else a
         | None \<Rightarrow> a)
      else a)"

section \<open>The manager\<close>

datatype pending_open = Accept channel_id channel_type | Skip nat

record manager =
  cm_crypto :: session_crypto
  cm_version :: version
  cm_channels :: "(channel_id, channel) omap"
  cm_negotiated :: capability_set
  cm_ids :: allocator
  cm_limit :: nat
  cm_stream_types :: "channel_type list"
  cm_pending_opens :: "pending_open list"
  cm_pending_streams :: "link list"
  cm_resumable :: "(channel_id, channel_type) omap"
  cm_pending_forget :: "channel_id list"
  cm_events :: "channel_event list"
  cm_incoming :: "(channel_id \<times> channel_type \<times> link \<times> channel_crypto) list"
  cm_sent :: "(link \<times> actor_command) list"

definition manager_new :: "session_crypto \<Rightarrow> version \<Rightarrow> session_role \<Rightarrow> capability_set \<Rightarrow> nat \<Rightarrow> channel_type list \<Rightarrow> manager" where
  "manager_new crypto ver role negotiated limit stream_types =
     \<lparr>cm_crypto = crypto, cm_version = ver, cm_channels = [], cm_negotiated = negotiated,
      cm_ids = allocator_new role, cm_limit = limit, cm_stream_types = stream_types,
      cm_pending_opens = [], cm_pending_streams = [], cm_resumable = [], cm_pending_forget = [],
      cm_events = [], cm_incoming = [], cm_sent = []\<rparr>"

definition emit :: "channel_event \<Rightarrow> manager \<Rightarrow> manager" where
  "emit e m = m\<lparr>cm_events := cm_events m @ [e]\<rparr>"

text \<open>Sending to an actor: logged for its stream, nothing for a channel without an actor.\<close>

definition signal :: "actor_command \<Rightarrow> channel \<Rightarrow> manager \<Rightarrow> manager" where
  "signal cmd ch m = (if ch_actor ch then m\<lparr>cm_sent := cm_sent m @ [(ch_link ch, cmd)]\<rparr> else m)"

definition is_accept :: "pending_open \<Rightarrow> bool" where
  "is_accept p = (case p of Accept _ _ \<Rightarrow> True | Skip _ \<Rightarrow> False)"

definition accepts :: "channel_id \<Rightarrow> pending_open \<Rightarrow> bool" where
  "accepts cid p = (case p of Accept pid _ \<Rightarrow> pid = cid | Skip _ \<Rightarrow> False)"

definition allocate_id :: "manager \<Rightarrow> (session_error, channel_id) result \<times> manager" where
  "allocate_id m =
     (let (r, ids) = allocate (cm_ids m)
            (\<lambda>cid. om_member cid (cm_channels m) \<or> list_ex (accepts cid) (cm_pending_opens m))
      in (case r of Some chid \<Rightarrow> Inr chid | None \<Rightarrow> Inl (ChannelErr ''channel id space exhausted''),
          m\<lparr>cm_ids := ids\<rparr>))"

text \<open>\<open>{:#06x}\<close> of a 16-bit value.\<close>

definition show_hex16 :: "u16 \<Rightarrow> string" where
  "show_hex16 w = ''0x'' @ concat (map hex_byte (to_be w))"

definition pending_accepts :: "manager \<Rightarrow> nat" where
  "pending_accepts m = length (filter is_accept (cm_pending_opens m))"

definition permit :: "manager \<Rightarrow> channel_type \<Rightarrow> (string, unit) result" where
  "permit m ty =
     (if \<not> supports (cm_negotiated m) ty then
        Inl (''capability '' @ show_hex16 ty @ '' not negotiated'')
      else if cm_limit m \<le> length (cm_channels m) + pending_accepts m then Inl ''channel limit reached''
      else Inr ())"

text \<open>
  \<open>while self.resumable.len() >= self.limit\<close>: drop the smallest key first. The recursion is on
  the map itself, which shrinks; the loop stops early when the map is empty (a limit of 0).
\<close>

function evict :: "nat \<Rightarrow> (channel_id, channel_type) omap \<Rightarrow> channel_id list
    \<Rightarrow> (channel_id, channel_type) omap \<times> channel_id list" where
  "evict limit [] forget = ([], forget)"
| "evict limit ((oldest, ty) # rest) forget =
     (if limit \<le> length ((oldest, ty) # rest)
      then evict limit (om_remove oldest rest) (filter (\<lambda>c. c \<noteq> oldest) forget)
      else ((oldest, ty) # rest, forget))"
  by pat_completeness auto
termination
  by (relation "measure (\<lambda>(l, m, f). length m)") (auto simp: le_imp_less_Suc length_om_remove)

definition announce_open :: "channel_id \<Rightarrow> channel_type \<Rightarrow> manager \<Rightarrow> manager" where
  "announce_open channel ty m =
     (let (res, forget) = evict (cm_limit m) (cm_resumable m) (cm_pending_forget m)
      in emit (Ev_Opened channel ty)
           (m\<lparr>cm_resumable := om_insert channel ty res, cm_pending_forget := forget\<rparr>))"

definition forget_resumable :: "channel_id \<Rightarrow> manager \<Rightarrow> manager" where
  "forget_resumable channel m =
     m\<lparr>cm_resumable := om_remove channel (cm_resumable m),
       cm_pending_forget := filter (\<lambda>c. c \<noteq> channel) (cm_pending_forget m)\<rparr>"

definition park_forget :: "channel_id \<Rightarrow> manager \<Rightarrow> manager" where
  "park_forget channel m =
     (if channel \<in> set (cm_pending_forget m) then m
      else m\<lparr>cm_pending_forget := cm_pending_forget m @ [channel]\<rparr>)"

definition confirm_link_alive :: "manager \<Rightarrow> manager" where
  "confirm_link_alive m =
     m\<lparr>cm_pending_forget := [], cm_resumable := fold om_remove (cm_pending_forget m) (cm_resumable m)\<rparr>"

definition reattachable_channels :: "manager \<Rightarrow> (channel_id \<times> channel_type) list" where
  "reattachable_channels m = filter (\<lambda>(_, ty). ty \<notin> set (cm_stream_types m)) (cm_resumable m)"

definition probe :: "channel_id \<Rightarrow> session_frame" where
  "probe chid = \<lparr>sf_channel = chid, sf_message_type = PROBE_MESSAGE_TYPE, sf_flags = FLAG_OPTIONAL, sf_payload = []\<rparr>"

definition insert_channel :: "channel \<Rightarrow> manager \<Rightarrow> manager" where
  "insert_channel ch m = m\<lparr>cm_channels := om_insert (ch_id ch) ch (cm_channels m)\<rparr>"

section \<open>Opening\<close>

text \<open>\<open>stream\<close> is the outcome of \<open>transport.open_stream()\<close>.\<close>

definition reopen_channel :: "prims \<Rightarrow> (domain_error, link) result \<Rightarrow> channel_id \<Rightarrow> channel_type \<Rightarrow> manager
    \<Rightarrow> (session_error, control_message) result \<times> manager" where
  "reopen_channel P stream chid ty m =
     (case permit m ty of
        Inl reason \<Rightarrow> (Inl (ChannelErr reason), m)
      | Inr _ \<Rightarrow>
          (case derive P (cm_crypto m) chid (cm_version m) of
             Inl e \<Rightarrow> (Inl e, m)
           | Inr crypto \<Rightarrow>
               (case stream of
                  Inl e \<Rightarrow> (Inl (session_error_from e), m)
                | Inr l \<Rightarrow>
                    (let ch = spawn_channel chid ty ChOpening l crypto;
                         m = insert_channel ch m;
                         m = m\<lparr>cm_ids := reserve (cm_ids m) chid\<rparr>;
                         m = signal (Ac_Send (probe chid)) ch m
                     in (Inr (ChannelOpen chid ty), m)))))"

definition open_channel :: "prims \<Rightarrow> (domain_error, link) result \<Rightarrow> channel_type \<Rightarrow> manager
    \<Rightarrow> (session_error, channel_id \<times> control_message) result \<times> manager" where
  "open_channel P stream ty m =
     (case permit m ty of
        Inl reason \<Rightarrow> (Inl (ChannelErr reason), m)
      | Inr _ \<Rightarrow>
          (case allocate_id m of
             (Inl e, m) \<Rightarrow> (Inl e, m)
           | (Inr chid, m) \<Rightarrow>
               (case derive P (cm_crypto m) chid (cm_version m) of
                  Inl e \<Rightarrow> (Inl e, m)
                | Inr crypto \<Rightarrow>
                    (case stream of
                       Inl e \<Rightarrow> (Inl (session_error_from e), m)
                     | Inr l \<Rightarrow>
                         (let ch = spawn_channel chid ty ChOpening l crypto;
                              m = insert_channel ch m;
                              m = signal (Ac_Send (probe chid)) ch m
                          in (Inr (chid, ChannelOpen chid ty), m))))))"

definition open_stream_channel :: "prims \<Rightarrow> (domain_error, link) result \<Rightarrow> channel_type \<Rightarrow> manager
    \<Rightarrow> (session_error, channel_id \<times> link \<times> channel_crypto \<times> control_message) result \<times> manager" where
  "open_stream_channel P stream ty m =
     (case permit m ty of
        Inl reason \<Rightarrow> (Inl (ChannelErr reason), m)
      | Inr _ \<Rightarrow>
          (case allocate_id m of
             (Inl e, m) \<Rightarrow> (Inl e, m)
           | (Inr chid, m) \<Rightarrow>
               (case derive P (cm_crypto m) chid (cm_version m) of
                  Inl e \<Rightarrow> (Inl e, m)
                | Inr crypto \<Rightarrow>
                    (case stream of
                       Inl e \<Rightarrow> (Inl (session_error_from e), m)
                     | Inr l \<Rightarrow>
                         (let m = insert_channel (new_stream chid ty l crypto) m;
                              m = announce_open chid ty m
                          in (Inr (chid, l, crypto, ChannelOpen chid ty), m))))))"

section \<open>Pairing\<close>

text \<open>
  The body of the pairing loop for an accepted open; \<open>rx\<close> says whether anyone receives
  incoming streams.
\<close>

definition pair_accept :: "prims \<Rightarrow> bool \<Rightarrow> channel_id \<Rightarrow> channel_type \<Rightarrow> link \<Rightarrow> manager
    \<Rightarrow> manager \<times> control_message list" where
  "pair_accept P rx chid ty l m =
     (let m = m\<lparr>cm_ids := reserve (cm_ids m) chid\<rparr> in
      case derive P (cm_crypto m) chid (cm_version m) of
        Inl e \<Rightarrow> (emit (Ev_Error chid (session_error_show e)) m, [ChannelReject chid ''key derivation failed''])
      | Inr crypto \<Rightarrow>
          if ty \<in> set (cm_stream_types m) then
            if \<not> rx then
              (emit (Ev_Rejected chid ''no stream receiver'') m, [ChannelReject chid ''no stream receiver''])
            else
              (let m = m\<lparr>cm_incoming := cm_incoming m @ [(chid, ty, l, crypto)]\<rparr>;
                   m = insert_channel (new_stream chid ty l crypto) m
               in (announce_open chid ty m, [ChannelAccept chid]))
          else
            (let m = insert_channel (spawn_channel chid ty ChOpen l crypto) m
             in (announce_open chid ty m, [ChannelAccept chid])))"

text \<open>The loop takes one stream per round until either queue is empty.\<close>

primrec pair_streams :: "prims \<Rightarrow> bool \<Rightarrow> link list \<Rightarrow> manager \<Rightarrow> manager \<times> control_message list" where
  "pair_streams P rx [] m = (m\<lparr>cm_pending_streams := []\<rparr>, [])"
| "pair_streams P rx (l # ls) m =
     (case cm_pending_opens m of
        [] \<Rightarrow> (m\<lparr>cm_pending_streams := l # ls\<rparr>, [])
      | Skip owed # ps \<Rightarrow>
          pair_streams P rx ls (m\<lparr>cm_pending_opens := (if 1 < owed then Skip (owed - 1) # ps else ps)\<rparr>)
      | Accept chid ty # ps \<Rightarrow>
          (let (m, out) = pair_accept P rx chid ty l (m\<lparr>cm_pending_opens := ps\<rparr>);
               (m, out') = pair_streams P rx ls m
           in (m, out @ out')))"

definition try_pair :: "prims \<Rightarrow> bool \<Rightarrow> manager \<Rightarrow> manager \<times> control_message list" where
  "try_pair P rx m = pair_streams P rx (cm_pending_streams m) m"

definition push_skip :: "pending_open list \<Rightarrow> pending_open list" where
  "push_skip q =
     (if q \<noteq> [] \<and> (case last q of Skip owed \<Rightarrow> owed < USIZE_MAX | Accept _ _ \<Rightarrow> False)
      then butlast q @ [case last q of Skip owed \<Rightarrow> Skip (owed + 1) | p \<Rightarrow> p]
      else q @ [Skip 1])"

definition refuse :: "prims \<Rightarrow> bool \<Rightarrow> channel_id \<Rightarrow> string \<Rightarrow> manager \<Rightarrow> manager \<times> control_message list" where
  "refuse P rx channel reason m =
     (let m = emit (Ev_Rejected channel reason) m;
          m = m\<lparr>cm_pending_opens := push_skip (cm_pending_opens m)\<rparr>;
          (m, out) = try_pair P rx m
      in (m, ChannelReject channel reason # out))"

definition handle_channel_open :: "prims \<Rightarrow> bool \<Rightarrow> channel_id \<Rightarrow> channel_type \<Rightarrow> manager
    \<Rightarrow> manager \<times> control_message list" where
  "handle_channel_open P rx channel ty m =
     (if is_control channel then refuse P rx channel ''reserved control channel id'' m
      else case permit m ty of
             Inl reason \<Rightarrow> refuse P rx channel reason m
           | Inr _ \<Rightarrow>
               if om_member channel (cm_channels m) \<or> list_ex (accepts channel) (cm_pending_opens m)
               then refuse P rx channel ''duplicate channel id'' m
               else try_pair P rx (m\<lparr>cm_pending_opens := cm_pending_opens m @ [Accept channel ty]\<rparr>))"

definition on_stream_accepted :: "prims \<Rightarrow> bool \<Rightarrow> link \<Rightarrow> manager \<Rightarrow> manager \<times> control_message list" where
  "on_stream_accepted P rx l m = try_pair P rx (m\<lparr>cm_pending_streams := cm_pending_streams m @ [l]\<rparr>)"

section \<open>The rest of the lifecycle\<close>

definition handle_channel_accept :: "channel_id \<Rightarrow> manager \<Rightarrow> manager" where
  "handle_channel_accept channel m =
     (case map_of (cm_channels m) channel of
        None \<Rightarrow> m
      | Some ch \<Rightarrow>
          if ch_state ch = ChOpening
          then announce_open channel (ch_type ch)
                 (m\<lparr>cm_channels := om_insert channel (ch\<lparr>ch_state := ChOpen\<rparr>) (cm_channels m)\<rparr>)
          else m)"

definition remove_channel :: "channel_id \<Rightarrow> manager \<Rightarrow> manager" where
  "remove_channel channel m = m\<lparr>cm_channels := om_remove channel (cm_channels m)\<rparr>"

definition handle_channel_reject :: "channel_id \<Rightarrow> string \<Rightarrow> manager \<Rightarrow> manager" where
  "handle_channel_reject channel reason m =
     (let m = forget_resumable channel m in
      emit (Ev_Rejected channel reason)
        (case map_of (cm_channels m) channel of
           Some ch \<Rightarrow> signal Ac_Close ch (remove_channel channel m)
         | None \<Rightarrow> m))"

definition handle_channel_close :: "channel_id \<Rightarrow> manager \<Rightarrow> manager \<times> control_message list" where
  "handle_channel_close channel m =
     (let m = forget_resumable channel m in
      case map_of (cm_channels m) channel of
        Some ch \<Rightarrow> (emit (Ev_Closed channel) (signal Ac_Close ch (remove_channel channel m)), [ChannelClosed channel])
      | None \<Rightarrow> (m, []))"

definition handle_channel_closed :: "channel_id \<Rightarrow> manager \<Rightarrow> manager" where
  "handle_channel_closed channel m =
     (let m = forget_resumable channel m in
      case map_of (cm_channels m) channel of
        Some ch \<Rightarrow> emit (Ev_Closed channel) (signal Ac_Close ch (remove_channel channel m))
      | None \<Rightarrow> m)"

definition handle_channel_error :: "channel_id \<Rightarrow> string \<Rightarrow> manager \<Rightarrow> manager" where
  "handle_channel_error channel detail m =
     (let m = forget_resumable channel m in
      emit (Ev_Error channel detail)
        (case map_of (cm_channels m) channel of
           Some ch \<Rightarrow> signal Ac_Close ch (remove_channel channel m)
         | None \<Rightarrow> m))"

definition close_channel :: "channel_id \<Rightarrow> manager \<Rightarrow> manager \<times> control_message option" where
  "close_channel channel m =
     (let m = forget_resumable channel m in
      case map_of (cm_channels m) channel of
        None \<Rightarrow> (m, None)
      | Some ch \<Rightarrow> (emit (Ev_Closed channel) (signal Ac_Close ch (remove_channel channel m)), Some (ChannelClose channel)))"

definition on_actor_event :: "actor_event \<Rightarrow> manager \<Rightarrow> manager \<times> control_message list" where
  "on_actor_event event m =
     (case event of
        Ae_Closed channel \<Rightarrow>
          if om_member channel (cm_channels m)
          then (emit (Ev_Closed channel) (park_forget channel (remove_channel channel m)), [])
          else (m, [])
      | Ae_Errored channel detail \<Rightarrow>
          if om_member channel (cm_channels m)
          then (emit (Ev_Error channel detail) (park_forget channel (remove_channel channel m)), [ChannelError channel detail])
          else (m, []))"

text \<open>\<open>alive\<close> says whether the actor of a stream still reads its mailbox.\<close>

definition send_on_channel :: "(link \<Rightarrow> bool) \<Rightarrow> channel_id \<Rightarrow> message_type \<Rightarrow> message_flags \<Rightarrow> bytes \<Rightarrow> manager
    \<Rightarrow> (session_error, unit) result \<times> manager" where
  "send_on_channel alive channel mt flags payload m =
     (case map_of (cm_channels m) channel of
        None \<Rightarrow> (Inl (ChannelErr (''no such channel '' @ show_nat (unat channel))), m)
      | Some ch \<Rightarrow>
          if \<not> ch_is_open (ch_state ch) then (Inl (ChannelErr ''channel not open''), m)
          else if ch_actor ch \<and> alive (ch_link ch) then
            (Inr (), signal (Ac_Send \<lparr>sf_channel = channel, sf_message_type = mt, sf_flags = flags, sf_payload = payload\<rparr>) ch m)
          else (Inl (ChannelErr ''channel actor stopped''), m))"

definition stop_all :: "actor_command \<Rightarrow> manager \<Rightarrow> manager" where
  "stop_all cmd m =
     (fold (\<lambda>(_, ch). signal cmd ch) (cm_channels m) m)
       \<lparr>cm_channels := [], cm_pending_opens := [], cm_pending_streams := [],
        cm_resumable := [], cm_pending_forget := []\<rparr>"

definition shutdown_all :: "manager \<Rightarrow> manager" where
  "shutdown_all m = stop_all Ac_Close m"

definition drain_all :: "manager \<Rightarrow> manager" where
  "drain_all m = stop_all Ac_Drain m"

section \<open>The allocator\<close>

lemma checked_add_two: "checked_add a 2 = Some c \<Longrightarrow> c = a + 2 \<and> unat c = unat a + 2" for a c :: u64
proof -
  assume "checked_add a 2 = Some c"
  then have "c = a + 2" "unat c = unat a + unat (2 :: u64)" by (blast dest: checked_add_Some[THEN iffD1])+
  then show ?thesis by simp
qed

lemma unat_mod_2: "unat (a mod 2) = unat a mod 2" for a :: u64
  by (simp add: unat_mod)

lemma parity_add_two: "unat c = unat a + 2 \<Longrightarrow> c mod 2 = a mod 2" for a c :: u64
proof (rule unsigned_word_eqI)
  assume "unat c = unat a + 2"
  then show "unat (c mod 2) = unat (a mod 2)" by (simp only: unat_mod_2) simp
qed

text \<open>Each result is the candidate or later, free, not 0, of the candidate's parity.\<close>

lemma alloc_loop_spec:
  assumes "alloc_loop nxt taken = (Some cid, nxt')"
  shows "nxt \<le> cid \<and> unat nxt' = unat cid + 2 \<and> cid \<noteq> 0 \<and> \<not> taken cid \<and> cid mod 2 = nxt mod 2 \<and> nxt' mod 2 = nxt mod 2"
  using assms
proof (induction nxt taken rule: alloc_loop.induct)
  case (1 nxt taken)
  obtain n2 where n2: "checked_add nxt 2 = Some n2"
    using "1.prems" by (cases "checked_add nxt 2") (auto simp: alloc_loop.simps)
  note u = checked_add_two[OF n2, THEN conjunct2]
  show ?case
  proof (cases "nxt \<noteq> 0 \<and> \<not> taken nxt")
    case True
    then show ?thesis using "1.prems" n2 u parity_add_two[OF u] by (auto simp: alloc_loop.simps[of nxt])
  next
    case False
    then have "alloc_loop n2 taken = (Some cid, nxt')" using "1.prems" n2 by (auto simp: alloc_loop.simps[of nxt])
    note IH = "1.IH"[OF n2 False this]
    have "nxt \<le> n2" using u by (simp add: word_le_nat_alt)
    then show ?thesis using IH parity_add_two[OF u] by (auto intro: order_trans)
  qed
qed

lemma alloc_loop_None:
  assumes "alloc_loop nxt taken = (None, nxt')"
  shows "nxt \<le> nxt' \<and> nxt' mod 2 = nxt mod 2"
  using assms
proof (induction nxt taken rule: alloc_loop.induct)
  case (1 nxt taken)
  show ?case
  proof (cases "checked_add nxt 2")
    case None
    then show ?thesis using "1.prems" by (simp add: alloc_loop.simps[of nxt])
  next
    case (Some n2)
    note u = checked_add_two[OF Some, THEN conjunct2]
    have f: "\<not> (nxt \<noteq> 0 \<and> \<not> taken nxt)" "alloc_loop n2 taken = (None, nxt')"
      using "1.prems" Some by (auto simp: alloc_loop.simps[of nxt] split: if_splits)
    have "nxt \<le> n2" using u by (simp add: word_le_nat_alt)
    then show ?thesis using "1.IH"[OF Some f] parity_add_two[OF u] by (auto intro: order_trans)
  qed
qed

definition ids_ok :: "allocator \<Rightarrow> bool" where
  "ids_ok a = (al_next a mod 2 = al_parity a)"

lemma ids_ok_new: "ids_ok (allocator_new role)"
  by (cases role) (simp_all add: ids_ok_def allocator_new_def)

lemma ids_ok_allocate: "ids_ok a \<Longrightarrow> ids_ok (snd (allocate a taken))"
  by (cases "alloc_loop (al_next a) taken"; cases "fst (alloc_loop (al_next a) taken)")
     (auto simp: ids_ok_def allocate_def dest: alloc_loop_spec alloc_loop_None)

lemma ids_ok_reserve: "ids_ok a \<Longrightarrow> ids_ok (reserve a i)"
  by (auto simp: ids_ok_def reserve_def split: option.splits dest!: checked_add_two parity_add_two)

lemma allocate_Some:
  assumes "allocate a taken = (Some cid, a')"
  shows "al_next a \<le> cid \<and> cid < al_next a' \<and> cid \<noteq> 0 \<and> \<not> taken cid \<and> cid mod 2 = al_next a mod 2
         \<and> al_parity a' = al_parity a"
proof -
  obtain nxt' where l: "alloc_loop (al_next a) taken = (Some cid, nxt')" and a': "a' = a\<lparr>al_next := nxt'\<rparr>"
    using assms by (auto simp: allocate_def split: prod.splits)
  show ?thesis using alloc_loop_spec[OF l] a' by (simp add: word_less_nat_alt)
qed

lemma allocate_mono: "al_next a \<le> al_next (snd (allocate a taken)) \<and> al_parity (snd (allocate a taken)) = al_parity a"
proof (cases "alloc_loop (al_next a) taken")
  case (Pair r n)
  then show ?thesis
  proof (cases r)
    case None
    then show ?thesis using Pair alloc_loop_None[of "al_next a" taken n] by (simp add: allocate_def)
  next
    case (Some cid)
    then have "al_next a \<le> cid" "unat n = unat cid + 2" using Pair alloc_loop_spec[of "al_next a" taken cid n] by simp_all
    then show ?thesis using Pair by (simp add: allocate_def word_le_nat_alt)
  qed
qed

lemma reserve_mono: "al_next a \<le> al_next (reserve a i) \<and> al_parity (reserve a i) = al_parity a"
  by (auto simp: reserve_def split: option.splits)

text \<open>A run of the allocator: allocations with any view of the taken ids, and reservations.\<close>

datatype alloc_op = Do_Allocate "channel_id \<Rightarrow> bool" | Do_Reserve channel_id

primrec alloc_run :: "alloc_op list \<Rightarrow> allocator \<Rightarrow> channel_id list \<times> allocator" where
  "alloc_run [] a = ([], a)"
| "alloc_run (x # xs) a =
     (case x of
        Do_Reserve i \<Rightarrow> alloc_run xs (reserve a i)
      | Do_Allocate taken \<Rightarrow>
          (case allocate a taken of
             (None, a') \<Rightarrow> alloc_run xs a'
           | (Some cid, a') \<Rightarrow> let (cids, a'') = alloc_run xs a' in (cid # cids, a'')))"

lemma alloc_run_spec:
  "ids_ok a \<Longrightarrow> sorted_wrt (<) (fst (alloc_run xs a))
     \<and> (\<forall>cid \<in> set (fst (alloc_run xs a)). al_next a \<le> cid \<and> cid \<noteq> 0 \<and> cid mod 2 = al_parity a)"
proof (induction xs arbitrary: a)
  case (Cons x xs)
  show ?case
  proof (cases x)
    case (Do_Reserve i)
    then show ?thesis using Cons.IH[OF ids_ok_reserve[OF Cons.prems]] reserve_mono[of a i] by (auto intro: order_trans)
  next
    case (Do_Allocate taken)
    obtain r a' where r: "allocate a taken = (r, a')" by fastforce
    have ok: "ids_ok a'" and m: "al_next a \<le> al_next a'" "al_parity a' = al_parity a"
      using ids_ok_allocate[OF Cons.prems, of taken] allocate_mono[of a taken] r by simp_all
    note IH = Cons.IH[OF ok]
    show ?thesis
    proof (cases r)
      case None
      then show ?thesis using IH m r Do_Allocate by (auto intro: order_trans)
    next
      case (Some cid)
      then have c: "al_next a \<le> cid" "cid < al_next a'" "cid \<noteq> 0" "cid mod 2 = al_parity a"
        using allocate_Some[of a taken cid a'] r Cons.prems by (auto simp: ids_ok_def)
      then show ?thesis using IH m r Do_Allocate Some
        by (auto split: prod.splits intro: order_trans order_less_le_trans)
    qed
  qed
qed simp

text \<open>
  Id allocation never hands out an id twice: over any run of allocations (with any ids in
  use) and reservations, the ids issued are strictly increasing, never 0, and all of this
  side's parity - odd for the initiator, even for the responder - so the two sides of a session
  never choose the same id either.
\<close>

lemma allocator_never_reissues:
  "sorted_wrt (<) (fst (alloc_run xs (allocator_new role)))
   \<and> distinct (fst (alloc_run xs (allocator_new role)))
   \<and> set (fst (alloc_run xs (allocator_new Initiator))) \<inter> set (fst (alloc_run ys (allocator_new Responder))) = {}
   \<and> 0 \<notin> set (fst (alloc_run xs (allocator_new role)))"
proof -
  note s = alloc_run_spec[OF ids_ok_new]
  have p: "al_parity (allocator_new Initiator) \<noteq> al_parity (allocator_new Responder)" by (simp add: allocator_new_def)
  have d: "distinct (fst (alloc_run xs (allocator_new role)))"
    using s[of xs role] by (auto simp: strict_sorted_iff)
  have "False" if "cid \<in> set (fst (alloc_run xs (allocator_new Initiator)))" "cid \<in> set (fst (alloc_run ys (allocator_new Responder)))" for cid
    using s[of xs Initiator] s[of ys Responder] that p by metis
  then show ?thesis using s[of xs role] d by auto
qed

text \<open>
  A peer can exhaust the other side's id space with one open: reserving the id
  \<open>2^64 - 3\<close> (odd, so of the initiator's parity) moves the counter to the top, and the next
  allocation fails although a single id has been used. The same holds for the responder and
  \<open>2^64 - 4\<close>.
\<close>

lemma hostile_reserve_exhausts:
  "fst (allocate (reserve (allocator_new Initiator) (- 3)) (\<lambda>_. False)) = None
   \<and> fst (allocate (reserve (allocator_new Responder) (- 4)) (\<lambda>_. False)) = None"
proof -
  have top: "unat (- 1 :: u64) = 2 ^ 64 - 1" by (simp add: unsigned_minus_1_eq_mask mask_eq_exp_minus_1)
  then have "(1 :: u64) < - 1" by (simp add: word_less_nat_alt)
  with top show ?thesis
    by (simp add: allocator_new_def reserve_def allocate_def checked_add_def alloc_loop.simps)
qed

end
