(* ===== verification/PB_Channel_Inv.thy ===== *)
theory PB_Channel_Inv
  imports PB_Channel_Manager
begin

text \<open>
  Invariants of the channel manager over every sequence of its operations, and the pairing of
  peer opens with inbound streams. The operations of \<open>PB_Channel_Manager\<close> are the steps of a
  transition system (\<open>cm_step\<close>, one rule per public operation); \<open>cm_inv\<close> is its invariant.
\<close>

section \<open>The invariant\<close>

definition keys_ok :: "(channel_id, channel) omap \<Rightarrow> bool" where
  "keys_ok chs = (\<forall>(k, ch) \<in> set chs. ch_id ch = k \<and> k \<noteq> CONTROL)"

definition opens_ok :: "pending_open list \<Rightarrow> bool" where
  "opens_ok q = list_all (\<lambda>p. case p of Accept i _ \<Rightarrow> i \<noteq> CONTROL | Skip n \<Rightarrow> 1 \<le> n) q"

text \<open>What holds inside an operation too, before the pairing loop has run to its end.\<close>

definition cm_pre :: "manager \<Rightarrow> bool" where
  "cm_pre m =
     (om_inv (cm_channels m) \<and> om_inv (cm_resumable m) \<and> keys_ok (cm_channels m) \<and> opens_ok (cm_pending_opens m)
      \<and> length (cm_channels m) + pending_accepts m \<le> cm_limit m \<and> length (cm_resumable m) \<le> cm_limit m
      \<and> CONTROL \<notin> fst ` set (cm_resumable m) \<and> ids_ok (cm_ids m))"

definition cm_inv :: "manager \<Rightarrow> bool" where
  "cm_inv m = (cm_pre m \<and> (cm_pending_opens m = [] \<or> cm_pending_streams m = []))"

lemma keys_ok_insert: "keys_ok chs \<Longrightarrow> ch_id ch \<noteq> CONTROL \<Longrightarrow> keys_ok (om_insert (ch_id ch) ch chs)"
  by (induction "ch_id ch" ch chs rule: om_insert.induct) (auto simp: keys_ok_def)

lemma keys_ok_remove: "keys_ok chs \<Longrightarrow> keys_ok (om_remove k chs)"
  by (auto simp: keys_ok_def om_remove_def)

lemma fst_set_om_remove: "fst ` set (om_remove k m) = fst ` set m - {k}"
  by (force simp: om_remove_def)

lemma fold_om_remove:
  "om_inv m \<Longrightarrow> om_inv (fold om_remove ks m) \<and> length (fold om_remove ks m) \<le> length m
     \<and> fst ` set (fold om_remove ks m) \<subseteq> fst ` set m"
proof (induction ks arbitrary: m)
  case (Cons k ks)
  have "om_inv (om_remove k m)" "length (om_remove k m) \<le> length m" "fst ` set (om_remove k m) \<subseteq> fst ` set m"
    using Cons.prems by (auto simp: length_om_remove fst_set_om_remove)
  then show ?case using Cons.IH[of "om_remove k m"] by (simp, meson order_trans)
qed simp

lemma pending_accepts_pending:
  "cm_pending_opens m = cm_pending_opens m' \<Longrightarrow> pending_accepts m = pending_accepts m'"
  by (simp add: pending_accepts_def)

section \<open>Building blocks keep it\<close>

lemma evict_spec:
  "om_inv r \<Longrightarrow> evict limit r f = (r', f') \<Longrightarrow>
     om_inv r' \<and> (length r' < limit \<or> r' = []) \<and> length r' \<le> length r \<and> set r' \<subseteq> set r"
proof (induction limit r f arbitrary: r' f' rule: evict.induct)
  case (2 limit oldest ty rest forget)
  show ?case
  proof (cases "limit \<le> length ((oldest, ty) # rest)")
    case True
    have "om_inv (om_remove oldest rest)" using "2.prems"(1) by (simp add: om_inv_Cons)
    moreover have "evict limit (om_remove oldest rest) (filter (\<lambda>c. c \<noteq> oldest) forget) = (r', f')"
      using True "2.prems"(2) by simp
    moreover have "length (om_remove oldest rest) \<le> length rest" "set (om_remove oldest rest) \<subseteq> set rest"
      by (auto simp: om_remove_def)
    ultimately have "om_inv r' \<and> (length r' < limit \<or> r' = []) \<and> length r' \<le> length rest \<and> set r' \<subseteq> set rest"
      using "2.IH"[OF True, of r' f'] by (meson order_trans)
    then show ?thesis by auto
  next
    case False
    then show ?thesis using "2.prems" by auto
  qed
qed auto

lemma announce_open_fields [simp]:
  "cm_channels (announce_open c t m) = cm_channels m"
  "cm_pending_opens (announce_open c t m) = cm_pending_opens m"
  "cm_pending_streams (announce_open c t m) = cm_pending_streams m"
  "cm_limit (announce_open c t m) = cm_limit m" "cm_ids (announce_open c t m) = cm_ids m"
  "cm_crypto (announce_open c t m) = cm_crypto m" "cm_version (announce_open c t m) = cm_version m"
  "cm_negotiated (announce_open c t m) = cm_negotiated m"
  "cm_stream_types (announce_open c t m) = cm_stream_types m"
  "cm_incoming (announce_open c t m) = cm_incoming m"
  by (simp_all add: announce_open_def emit_def split: prod.split)

lemma emit_fields [simp]:
  "cm_channels (emit e m) = cm_channels m" "cm_pending_opens (emit e m) = cm_pending_opens m"
  "cm_pending_streams (emit e m) = cm_pending_streams m" "cm_limit (emit e m) = cm_limit m"
  "cm_ids (emit e m) = cm_ids m" "cm_resumable (emit e m) = cm_resumable m"
  "cm_crypto (emit e m) = cm_crypto m" "cm_version (emit e m) = cm_version m"
  "cm_negotiated (emit e m) = cm_negotiated m" "cm_stream_types (emit e m) = cm_stream_types m"
  "cm_incoming (emit e m) = cm_incoming m"
  by (simp_all add: emit_def)

lemma signal_fields [simp]:
  "cm_channels (signal c ch m) = cm_channels m" "cm_pending_opens (signal c ch m) = cm_pending_opens m"
  "cm_pending_streams (signal c ch m) = cm_pending_streams m" "cm_limit (signal c ch m) = cm_limit m"
  "cm_ids (signal c ch m) = cm_ids m" "cm_resumable (signal c ch m) = cm_resumable m"
  by (simp_all add: signal_def)

lemma announce_resumable:
  assumes "om_inv (cm_resumable m)" "1 \<le> cm_limit m" "c \<noteq> CONTROL" "CONTROL \<notin> fst ` set (cm_resumable m)"
  shows "om_inv (cm_resumable (announce_open c t m)) \<and> length (cm_resumable (announce_open c t m)) \<le> cm_limit m
         \<and> CONTROL \<notin> fst ` set (cm_resumable (announce_open c t m))"
proof -
  obtain r f where e: "evict (cm_limit m) (cm_resumable m) (cm_pending_forget m) = (r, f)" by fastforce
  have s: "om_inv r" "length r < cm_limit m \<or> r = []" "set r \<subseteq> set (cm_resumable m)"
    using evict_spec[OF assms(1) e] by blast+
  have "cm_resumable (announce_open c t m) = om_insert c t r" by (simp add: announce_open_def e emit_def)
  moreover have "length (om_insert c t r) \<le> Suc (length r)" using om.size_ins_le[OF s(1)] .
  ultimately show ?thesis using s assms(2-4) by (auto simp: fst_set_om_insert)
qed

text \<open>Registering and announcing a channel when there is room for one.\<close>

lemma pre_insert:
  assumes "om_inv (cm_channels m)" "om_inv (cm_resumable m)" "keys_ok (cm_channels m)" "opens_ok (cm_pending_opens m)"
    and "length (cm_channels m) + pending_accepts m < cm_limit m" "length (cm_resumable m) \<le> cm_limit m"
    and "CONTROL \<notin> fst ` set (cm_resumable m)" "ids_ok (cm_ids m)" "ch_id ch \<noteq> CONTROL"
  shows "cm_pre (insert_channel ch m)"
proof -
  have "length (om_insert (ch_id ch) ch (cm_channels m)) \<le> Suc (length (cm_channels m))"
    using om.size_ins_le[OF assms(1)] .
  then show ?thesis using assms
    by (simp add: cm_pre_def insert_channel_def keys_ok_insert pending_accepts_def)
qed

lemma pre_announce:
  assumes "cm_pre m" "c \<noteq> CONTROL" "1 \<le> cm_limit m"
  shows "cm_pre (announce_open c t m)"
  using assms announce_resumable[of m c t] by (simp add: cm_pre_def pending_accepts_def)

lemma pre_emit [simp]: "cm_pre (emit e m) = cm_pre m"
  by (simp add: cm_pre_def pending_accepts_def)

lemma pre_signal [simp]: "cm_pre (signal c ch m) = cm_pre m"
  by (simp add: cm_pre_def pending_accepts_def)

lemma inv_emit [simp]: "cm_inv (emit e m) = cm_inv m"
  by (simp add: cm_inv_def)

lemma inv_signal [simp]: "cm_inv (signal c ch m) = cm_inv m"
  by (simp add: cm_inv_def)

lemma inv_forget: "cm_inv m \<Longrightarrow> cm_inv (forget_resumable c m)"
  by (auto simp: cm_inv_def cm_pre_def forget_resumable_def pending_accepts_def fst_set_om_remove
           intro: order_trans[OF length_om_remove])

lemma inv_remove: "cm_inv m \<Longrightarrow> cm_inv (remove_channel c m)"
  using length_om_remove[of c "cm_channels m"]
  by (auto simp: cm_inv_def cm_pre_def remove_channel_def pending_accepts_def keys_ok_remove)

lemma inv_park: "cm_inv m \<Longrightarrow> cm_inv (park_forget c m)"
  by (simp add: cm_inv_def cm_pre_def park_forget_def pending_accepts_def)

lemma inv_confirm: "cm_inv m \<Longrightarrow> cm_inv (confirm_link_alive m)"
  using fold_om_remove[of "cm_resumable m" "cm_pending_forget m"]
  by (auto simp: cm_inv_def cm_pre_def confirm_link_alive_def pending_accepts_def)

lemma snd_allocate_id:
  "snd (allocate_id m) = m\<lparr>cm_ids := snd (allocate (cm_ids m)
      (\<lambda>cid. om_member cid (cm_channels m) \<or> list_ex (accepts cid) (cm_pending_opens m)))\<rparr>"
  by (simp add: allocate_id_def split: prod.splits)

lemma inv_allocate: "cm_inv m \<Longrightarrow> cm_inv (snd (allocate_id m))"
  by (simp add: snd_allocate_id cm_inv_def cm_pre_def pending_accepts_def ids_ok_allocate)

lemma inv_reserve: "cm_inv m \<Longrightarrow> cm_inv (m\<lparr>cm_ids := reserve (cm_ids m) i\<rparr>)"
  by (simp add: cm_inv_def cm_pre_def pending_accepts_def ids_ok_reserve)

lemma permit_room: "permit m ty = Inr u \<Longrightarrow> length (cm_channels m) + pending_accepts m < cm_limit m"
  by (auto simp: permit_def split: if_splits)

lemma inv_insert:
  assumes "cm_inv m" "length (cm_channels m) + pending_accepts m < cm_limit m" "ch_id ch \<noteq> CONTROL"
  shows "cm_inv (insert_channel ch m)"
  using pre_insert[of m ch] assms by (auto simp: cm_inv_def cm_pre_def insert_channel_def)

lemma inv_announce: "cm_inv m \<Longrightarrow> c \<noteq> CONTROL \<Longrightarrow> 1 \<le> cm_limit m \<Longrightarrow> cm_inv (announce_open c t m)"
  by (simp add: cm_inv_def pre_announce)

lemmas inv_blocks = inv_forget inv_remove inv_park inv_confirm inv_insert inv_announce

section \<open>Pairing keeps it\<close>

lemma pair_accept_fields [simp]:
  "cm_pending_opens (fst (pair_accept P rx i ty l m)) = cm_pending_opens m"
  "cm_pending_streams (fst (pair_accept P rx i ty l m)) = cm_pending_streams m"
  "cm_limit (fst (pair_accept P rx i ty l m)) = cm_limit m"
  by (simp_all add: pair_accept_def Let_def insert_channel_def split: sum.split)

lemma pre_pair_accept:
  assumes "cm_pre m" "length (cm_channels m) + pending_accepts m < cm_limit m" "i \<noteq> CONTROL"
  shows "cm_pre (fst (pair_accept P rx i ty l m))"
proof -
  let ?m = "m\<lparr>cm_ids := reserve (cm_ids m) i\<rparr>"
  have base: "cm_pre ?m" "cm_pre (?m\<lparr>cm_incoming := x\<rparr>)" for x
    using assms(1) by (simp_all add: cm_pre_def pending_accepts_def ids_ok_reserve)
  have ins: "cm_pre (insert_channel ch ?m)" "cm_pre (insert_channel ch (?m\<lparr>cm_incoming := x\<rparr>))" if "ch_id ch = i" for ch x
    using pre_insert[of ?m ch] pre_insert[of "?m\<lparr>cm_incoming := x\<rparr>" ch] base(1) base(2)[of x] assms(2,3) that
    by (simp_all add: cm_pre_def pending_accepts_def)
  have lim: "1 \<le> cm_limit m" using assms(2) by simp
  have "cm_pre (announce_open i ty (insert_channel ch ?m))" "cm_pre (announce_open i ty (insert_channel ch (?m\<lparr>cm_incoming := x\<rparr>)))"
    if "ch_id ch = i" for ch x
    using pre_announce[OF ins(1)[OF that] assms(3)] pre_announce[OF ins(2)[OF that] assms(3)] lim
    by (simp_all add: insert_channel_def)
  then show ?thesis
    using base(1) by (auto simp: pair_accept_def Let_def new_stream_def spawn_channel_def split: sum.split)
qed

lemma opens_ok_Cons: "opens_ok (p # q) \<longleftrightarrow> (case p of Accept i _ \<Rightarrow> i \<noteq> CONTROL | Skip n \<Rightarrow> 1 \<le> n) \<and> opens_ok q"
  by (simp add: opens_ok_def)

lemma pair_streams_inv:
  "cm_pre m \<Longrightarrow> cm_inv (fst (pair_streams P rx ls m))"
proof (induction ls arbitrary: m)
  case Nil
  then show ?case by (simp add: cm_inv_def cm_pre_def pending_accepts_def)
next
  case (Cons l ls)
  show ?case
  proof (cases "cm_pending_opens m")
    case Nil
    then show ?thesis using Cons.prems by (simp add: cm_inv_def cm_pre_def pending_accepts_def)
  next
    case (Cons p ps)
    show ?thesis
    proof (cases p)
      case (Skip owed)
      let ?m = "m\<lparr>cm_pending_opens := (if 1 < owed then Skip (owed - 1) # ps else ps)\<rparr>"
      have "cm_pre ?m" using Cons.prems \<open>cm_pending_opens m = p # ps\<close> Skip
        by (auto simp: cm_pre_def pending_accepts_def is_accept_def opens_ok_Cons)
      then show ?thesis using Cons.IH[of ?m] \<open>cm_pending_opens m = p # ps\<close> Skip by simp
    next
      case (Accept i ty)
      let ?m = "m\<lparr>cm_pending_opens := ps\<rparr>"
      have "cm_pre ?m" "length (cm_channels ?m) + pending_accepts ?m < cm_limit ?m" "i \<noteq> CONTROL"
        using Cons.prems \<open>cm_pending_opens m = p # ps\<close> Accept
        by (auto simp: cm_pre_def pending_accepts_def is_accept_def opens_ok_Cons)
      from Cons.IH[OF pre_pair_accept[OF this]] show ?thesis
        using \<open>cm_pending_opens m = p # ps\<close> Accept by (simp add: Let_def split: prod.splits) (metis fst_conv)
    qed
  qed
qed

lemma try_pair_inv: "cm_pre m \<Longrightarrow> cm_inv (fst (try_pair P rx m))"
  by (simp add: try_pair_def pair_streams_inv)

lemma push_skip_cases:
  obtains q' n where "q = q' @ [Skip n]" "n < USIZE_MAX" "push_skip q = q' @ [Skip (n + 1)]"
  | "push_skip q = q @ [Skip 1]" "\<not> (\<exists>q' n. q = q' @ [Skip n] \<and> n < USIZE_MAX)"
proof (cases q rule: rev_cases)
  case Nil
  then show thesis by (intro that(2)) (simp_all add: push_skip_def)
next
  case (snoc q' p)
  then show thesis using that by (cases p) (auto simp: push_skip_def)
qed

lemma opens_ok_append: "opens_ok (a @ b) \<longleftrightarrow> opens_ok a \<and> opens_ok b"
  by (simp add: opens_ok_def)

lemma push_skip_pre:
  "opens_ok q \<Longrightarrow> opens_ok (push_skip q) \<and> length (filter is_accept (push_skip q)) = length (filter is_accept q)"
  by (cases q rule: push_skip_cases) (auto simp: opens_ok_append opens_ok_Cons is_accept_def, simp add: opens_ok_def)

lemma refuse_inv: "cm_inv m \<Longrightarrow> cm_inv (fst (refuse P rx c r m))"
proof -
  assume "cm_inv m"
  then have "cm_pre (m\<lparr>cm_events := cm_events m @ [Ev_Rejected c r], cm_pending_opens := push_skip (cm_pending_opens m)\<rparr>)"
    using push_skip_pre[of "cm_pending_opens m"] by (simp add: cm_inv_def cm_pre_def pending_accepts_def)
  from try_pair_inv[OF this, of P rx] show ?thesis
    by (auto simp: refuse_def Let_def emit_def split: prod.splits)
qed

lemma handle_open_inv: "cm_inv m \<Longrightarrow> cm_inv (fst (handle_channel_open P rx c ty m))"
proof -
  assume inv: "cm_inv m"
  have "cm_pre (m\<lparr>cm_pending_opens := cm_pending_opens m @ [Accept c ty]\<rparr>)"
    if "\<not> is_control c" "permit m ty = Inr u" for u
    using inv that permit_room[OF that(2)]
    by (auto simp: cm_inv_def cm_pre_def pending_accepts_def opens_ok_append opens_ok_Cons is_accept_def
        is_control_def CONTROL_def) (simp_all add: opens_ok_def)
  then show ?thesis using inv
    by (auto simp: handle_channel_open_def refuse_inv try_pair_inv split: sum.split)
qed

lemma stream_accepted_inv: "cm_inv m \<Longrightarrow> cm_inv (fst (on_stream_accepted P rx l m))"
  unfolding on_stream_accepted_def
  by (rule try_pair_inv) (simp add: cm_inv_def cm_pre_def pending_accepts_def)

section \<open>The transition system\<close>

text \<open>
  One rule per operation the session calls. A re-attached channel is one an earlier manager
  reported, so its id is never the control channel's (\<open>cm_pre\<close> keeps that of \<open>cm_resumable\<close>).
\<close>

inductive cm_step :: "prims \<Rightarrow> manager \<Rightarrow> manager \<Rightarrow> bool" for P where
  step_open: "cm_step P m (snd (open_channel P stream ty m))"
| step_open_stream: "cm_step P m (snd (open_stream_channel P stream ty m))"
| step_reopen: "i \<noteq> CONTROL \<Longrightarrow> cm_step P m (snd (reopen_channel P stream i ty m))"
| step_peer_open: "cm_step P m (fst (handle_channel_open P rx c ty m))"
| step_stream: "cm_step P m (fst (on_stream_accepted P rx l m))"
| step_accept: "cm_step P m (handle_channel_accept c m)"
| step_reject: "cm_step P m (handle_channel_reject c r m)"
| step_close: "cm_step P m (fst (handle_channel_close c m))"
| step_closed: "cm_step P m (handle_channel_closed c m)"
| step_error: "cm_step P m (handle_channel_error c r m)"
| step_local_close: "cm_step P m (fst (close_channel c m))"
| step_actor: "cm_step P m (fst (on_actor_event e m))"
| step_send: "cm_step P m (snd (send_on_channel alive c mt fl payload m))"
| step_alive: "cm_step P m (confirm_link_alive m)"
| step_stop: "cm_step P m (stop_all cmd m)"

inductive_cases cm_step_E: "cm_step P m m'"

lemma allocate_id_spec:
  assumes "allocate_id m = (Inr i, m')"
  shows "i \<noteq> CONTROL \<and> cm_channels m' = cm_channels m \<and> cm_pending_opens m' = cm_pending_opens m \<and> cm_limit m' = cm_limit m"
proof -
  let ?taken = "\<lambda>cid. om_member cid (cm_channels m) \<or> list_ex (accepts cid) (cm_pending_opens m)"
  obtain a where a: "allocate (cm_ids m) ?taken = (Some i, a)" and m': "m' = m\<lparr>cm_ids := a\<rparr>"
    using assms by (auto simp: allocate_id_def split: prod.splits option.splits)
  show ?thesis using allocate_Some[OF a] m' by (simp add: CONTROL_def)
qed

lemma open_channel_inv: "cm_inv m \<Longrightarrow> cm_inv (snd (open_channel P stream ty m))"
proof -
  assume inv: "cm_inv m"
  have "cm_inv (insert_channel ch m')" if "permit m ty = Inr u" "allocate_id m = (Inr i, m')" "ch_id ch = i" for u i m' ch
    using inv_allocate[OF inv] permit_room[OF that(1)] allocate_id_spec[OF that(2)] that
    by (intro inv_insert) (simp_all add: pending_accepts_def)
  then show ?thesis using inv inv_allocate[OF inv]
    by (auto simp: open_channel_def Let_def spawn_channel_def split: sum.split prod.split)
qed

lemma open_stream_channel_inv: "cm_inv m \<Longrightarrow> cm_inv (snd (open_stream_channel P stream ty m))"
proof -
  assume inv: "cm_inv m"
  have "cm_inv (announce_open i ty (insert_channel ch m'))"
    if "permit m ty = Inr u" "allocate_id m = (Inr i, m')" "ch_id ch = i" for u i m' ch
  proof -
    have "cm_inv (insert_channel ch m')"
      using inv_allocate[OF inv] permit_room[OF that(1)] allocate_id_spec[OF that(2)] that
      by (intro inv_insert) (simp_all add: pending_accepts_def)
    then show ?thesis using allocate_id_spec[OF that(2)] permit_room[OF that(1)]
      by (intro inv_announce) (simp_all add: insert_channel_def)
  qed
  then show ?thesis using inv inv_allocate[OF inv]
    by (auto simp: open_stream_channel_def Let_def new_stream_def split: sum.split prod.split)
qed

lemma reopen_channel_inv: "cm_inv m \<Longrightarrow> i \<noteq> CONTROL \<Longrightarrow> cm_inv (snd (reopen_channel P stream i ty m))"
proof -
  assume inv: "cm_inv m" and i: "i \<noteq> CONTROL"
  have "cm_inv ((insert_channel ch m)\<lparr>cm_ids := reserve (cm_ids (insert_channel ch m)) i\<rparr>)"
    if "permit m ty = Inr u" "ch_id ch = i" for u ch
    using inv_insert[OF inv permit_room[OF that(1)]] i that by (intro inv_reserve) simp
  then show ?thesis using inv by (auto simp: reopen_channel_def Let_def spawn_channel_def split: sum.split)
qed

lemma handle_accept_inv: "cm_inv m \<Longrightarrow> cm_inv (handle_channel_accept c m)"
proof -
  assume inv: "cm_inv m"
  have "cm_inv (announce_open c (ch_type ch) (m\<lparr>cm_channels := om_insert c (ch\<lparr>ch_state := ChOpen\<rparr>) (cm_channels m)\<rparr>))"
    if get: "map_of (cm_channels m) c = Some ch" for ch
  proof (rule inv_announce)
    have ko: "ch_id ch = c" "c \<noteq> CONTROL" using inv map_of_SomeD[OF get] by (auto simp: cm_inv_def cm_pre_def keys_ok_def)
    have o: "om_inv (cm_channels m)" using inv by (simp add: cm_inv_def cm_pre_def)
    have len: "length (om_insert c (ch\<lparr>ch_state := ChOpen\<rparr>) (cm_channels m)) = length (cm_channels m)"
      using get by (simp add: length_om_insert[OF o])
    have "keys_ok (om_insert c (ch\<lparr>ch_state := ChOpen\<rparr>) (cm_channels m))"
      using keys_ok_insert[of "cm_channels m" "ch\<lparr>ch_state := ChOpen\<rparr>"] inv ko by (simp add: cm_inv_def cm_pre_def)
    then show "cm_inv (m\<lparr>cm_channels := om_insert c (ch\<lparr>ch_state := ChOpen\<rparr>) (cm_channels m)\<rparr>)"
      using inv len by (simp add: cm_inv_def cm_pre_def pending_accepts_def)
    show "c \<noteq> CONTROL" by (rule ko(2))
    have "cm_channels m \<noteq> []" using get by auto
    then have "0 < length (cm_channels m)" by simp
    moreover have "length (cm_channels m) \<le> cm_limit m" using inv by (simp add: cm_inv_def cm_pre_def)
    ultimately have "1 \<le> cm_limit m" by linarith
    then show "1 \<le> cm_limit (m\<lparr>cm_channels := om_insert c (ch\<lparr>ch_state := ChOpen\<rparr>) (cm_channels m)\<rparr>)" by simp
  qed
  then show ?thesis using inv by (auto simp: handle_channel_accept_def split: option.split)
qed

lemma signals_fields [simp]:
  "cm_limit (fold (\<lambda>(_, ch). signal cmd ch) chs m) = cm_limit m"
  "cm_ids (fold (\<lambda>(_, ch). signal cmd ch) chs m) = cm_ids m"
  by (induction chs arbitrary: m) auto

lemma stop_all_inv: "cm_inv m \<Longrightarrow> cm_inv (stop_all cmd m)"
  by (simp add: stop_all_def cm_inv_def cm_pre_def pending_accepts_def keys_ok_def opens_ok_def)

lemma step_inv: "cm_inv m \<Longrightarrow> cm_step P m m' \<Longrightarrow> cm_inv m'"
  by (erule cm_step_E)
     (auto simp: open_channel_inv open_stream_channel_inv reopen_channel_inv handle_open_inv stream_accepted_inv
        handle_accept_inv stop_all_inv inv_confirm handle_channel_reject_def handle_channel_close_def
        handle_channel_closed_def handle_channel_error_def close_channel_def on_actor_event_def send_on_channel_def
        Let_def inv_forget inv_remove inv_park split: option.split actor_event.split)

lemma new_inv: "cm_inv (manager_new crypto ver role neg limit sts)"
  by (simp add: manager_new_def cm_inv_def cm_pre_def keys_ok_def opens_ok_def pending_accepts_def ids_ok_new)

interpretation cm: invariant_system
  "\<lambda>m. \<exists>crypto ver role neg limit sts. m = manager_new crypto ver role neg limit sts" "cm_step P" cm_inv
  for P
  by unfold_locales (auto simp: new_inv intro: step_inv)

section \<open>The queue of opens\<close>

text \<open>How many streams are owed to refused opens, and that runs of refusals are merged.\<close>

definition owed :: "pending_open list \<Rightarrow> nat" where
  "owed q = sum_list (map (\<lambda>p. case p of Skip n \<Rightarrow> n | Accept _ _ \<Rightarrow> 0) q)"

definition skips_apart :: "pending_open list \<Rightarrow> bool" where
  "skips_apart q = successively (\<lambda>a b. is_accept a \<or> is_accept b) q"

lemma skips_apart_length: "skips_apart q \<Longrightarrow> length q \<le> 2 * length (filter is_accept q) + 1"
proof -
  have "(length q \<le> 2 * length (filter is_accept q) + 1)
        \<and> (q \<noteq> [] \<and> is_accept (hd q) \<longrightarrow> length q \<le> 2 * length (filter is_accept q))" if "skips_apart q"
    using that unfolding skips_apart_def
  proof (induction q)
    case (Cons p q)
    then show ?case by (cases q) auto
  qed simp
  then show "skips_apart q \<Longrightarrow> length q \<le> 2 * length (filter is_accept q) + 1" by blast
qed

lemma owed_simps [simp]:
  "owed [] = 0" "owed (Skip n # q) = n + owed q" "owed (Accept i t # q) = owed q" "owed (a @ b) = owed a + owed b"
  by (simp_all add: owed_def)

lemma skips_apart_Cons_D: "skips_apart (p # q) \<Longrightarrow> skips_apart q"
  by (cases q) (simp_all add: skips_apart_def)

lemma pair_streams_queue:
  "owed (cm_pending_opens (fst (pair_streams P rx ls m))) \<le> owed (cm_pending_opens m)
   \<and> (skips_apart (cm_pending_opens m) \<longrightarrow> skips_apart (cm_pending_opens (fst (pair_streams P rx ls m))))"
proof (induction ls arbitrary: m)
  case (Cons l ls)
  show ?case
  proof (cases "cm_pending_opens m")
    case Nil
    then show ?thesis by simp
  next
    case q: (Cons p ps)
    show ?thesis
    proof (cases p)
      case (Skip n)
      let ?q = "if 1 < n then Skip (n - 1) # ps else ps"
      have "owed ?q \<le> owed (p # ps)" "skips_apart (p # ps) \<Longrightarrow> skips_apart ?q"
        using Skip by (auto dest: skips_apart_Cons_D) (cases ps; simp add: skips_apart_def is_accept_def)
      then show ?thesis using Cons.IH[of "m\<lparr>cm_pending_opens := ?q\<rparr>"] q Skip by (auto intro: order_trans)
    next
      case (Accept i ty)
      let ?m = "fst (pair_accept P rx i ty l (m\<lparr>cm_pending_opens := ps\<rparr>))"
      have "fst (pair_streams P rx (l # ls) m) = fst (pair_streams P rx ls ?m)"
        using q Accept by (simp add: Let_def split: prod.splits)
      moreover have "cm_pending_opens ?m = ps" by simp
      ultimately show ?thesis using Cons.IH[of ?m] q Accept skips_apart_Cons_D[of p ps] by simp
    qed
  qed
qed simp

lemma push_skip_queue:
  "owed (push_skip q) = owed q + 1" "owed q < USIZE_MAX \<Longrightarrow> skips_apart q \<Longrightarrow> skips_apart (push_skip q)"
proof -
  show "owed (push_skip q) = owed q + 1" by (cases q rule: push_skip_cases) auto
  assume o: "owed q < USIZE_MAX" and s: "skips_apart q"
  show "skips_apart (push_skip q)"
  proof (cases q rule: push_skip_cases)
    case (1 q' n)
    then show ?thesis using s by (auto simp: skips_apart_def successively_append_iff is_accept_def)
  next
    case 2
    have "is_accept (last q)" if "q \<noteq> []"
    proof (rule ccontr)
      assume "\<not> is_accept (last q)"
      then obtain n where n: "last q = Skip n" by (cases "last q") (auto simp: is_accept_def)
      then have q: "q = butlast q @ [Skip n]" using that by (metis append_butlast_last_id)
      have "owed q = owed (butlast q) + n" by (subst q) simp
      with o have "n < USIZE_MAX" by simp
      with q 2(2) show False by blast
    qed
    then show ?thesis using s 2(1) by (auto simp: skips_apart_def successively_append_iff)
  qed
qed

text \<open>The state with the number of operations so far.\<close>

definition counted_inv :: "nat \<times> manager \<Rightarrow> bool" where
  "counted_inv = (\<lambda>(n, m). cm_inv m \<and> owed (cm_pending_opens m) \<le> n
     \<and> (n < USIZE_MAX \<longrightarrow> skips_apart (cm_pending_opens m)))"

definition counted_step :: "prims \<Rightarrow> nat \<times> manager \<Rightarrow> nat \<times> manager \<Rightarrow> bool" where
  "counted_step P = (\<lambda>(n, m) (n', m'). n' = Suc n \<and> cm_step P m m')"

text \<open>Every operation leaves the queue alone, consumes from its front, appends one open, or clears it.\<close>

lemma open_same:
  "cm_pending_opens (snd (open_channel P stream ty m)) = cm_pending_opens m"
  "cm_pending_opens (snd (open_stream_channel P stream ty m)) = cm_pending_opens m"
proof -
  obtain r m1 where a: "allocate_id m = (r, m1)" by fastforce
  then have "cm_pending_opens m1 = cm_pending_opens m" using snd_allocate_id[of m] by simp
  with a show "cm_pending_opens (snd (open_channel P stream ty m)) = cm_pending_opens m"
    "cm_pending_opens (snd (open_stream_channel P stream ty m)) = cm_pending_opens m"
    by (simp_all add: open_channel_def open_stream_channel_def Let_def insert_channel_def split: sum.split)
qed

lemma forget_fields [simp]:
  "cm_channels (forget_resumable c m) = cm_channels m" "cm_pending_opens (forget_resumable c m) = cm_pending_opens m"
  by (simp_all add: forget_resumable_def)

lemma remove_fields [simp]:
  "cm_pending_opens (remove_channel c m) = cm_pending_opens m" "cm_pending_opens (park_forget c m) = cm_pending_opens m"
  by (simp_all add: remove_channel_def park_forget_def)

lemma lifecycle_same:
  "cm_pending_opens (snd (reopen_channel P stream i ty m)) = cm_pending_opens m"
  "cm_pending_opens (handle_channel_accept c m) = cm_pending_opens m"
  "cm_pending_opens (handle_channel_reject c r m) = cm_pending_opens m"
  "cm_pending_opens (fst (handle_channel_close c m)) = cm_pending_opens m"
  "cm_pending_opens (handle_channel_closed c m) = cm_pending_opens m"
  "cm_pending_opens (handle_channel_error c r m) = cm_pending_opens m"
  "cm_pending_opens (fst (close_channel c m)) = cm_pending_opens m"
  "cm_pending_opens (fst (on_actor_event e m)) = cm_pending_opens m"
  "cm_pending_opens (snd (send_on_channel alive c mt fl payload m)) = cm_pending_opens m"
  "cm_pending_opens (confirm_link_alive m) = cm_pending_opens m"
  subgoal by (simp add: reopen_channel_def Let_def insert_channel_def split: sum.split)
  subgoal by (simp add: handle_channel_accept_def split: option.split)
  subgoal by (simp add: handle_channel_reject_def Let_def split: option.split)
  subgoal by (simp add: handle_channel_close_def Let_def split: option.split)
  subgoal by (simp add: handle_channel_closed_def Let_def split: option.split)
  subgoal by (simp add: handle_channel_error_def Let_def split: option.split)
  subgoal by (simp add: close_channel_def Let_def split: option.split)
  subgoal by (simp add: on_actor_event_def split: actor_event.split)
  subgoal by (simp add: send_on_channel_def split: option.split)
  subgoal by (simp add: confirm_link_alive_def)
  done

definition queue_step :: "pending_open list \<Rightarrow> pending_open list \<Rightarrow> bool" where
  "queue_step q q' = (owed q' \<le> Suc (owed q) \<and> (owed q < USIZE_MAX \<longrightarrow> skips_apart q \<longrightarrow> skips_apart q'))"

lemma queue_step_refl [simp]: "queue_step q q"
  by (simp add: queue_step_def)

lemma try_pair_queue:
  "owed (cm_pending_opens (fst (try_pair P rx m))) \<le> owed (cm_pending_opens m)"
  "skips_apart (cm_pending_opens m) \<Longrightarrow> skips_apart (cm_pending_opens (fst (try_pair P rx m)))"
  using pair_streams_queue[of P rx "cm_pending_streams m" m] by (simp_all add: try_pair_def)

lemma refuse_try_pair:
  "fst (refuse P rx c r m) = fst (try_pair P rx ((emit (Ev_Rejected c r) m)\<lparr>cm_pending_opens := push_skip (cm_pending_opens m)\<rparr>))"
  by (simp add: refuse_def Let_def split: prod.splits)

lemma refuse_queue: "queue_step (cm_pending_opens m) (cm_pending_opens (fst (refuse P rx c r m)))"
  unfolding queue_step_def refuse_try_pair
  using try_pair_queue[where P = P and rx = rx and m = "(emit (Ev_Rejected c r) m)\<lparr>cm_pending_opens := push_skip (cm_pending_opens m)\<rparr>"]
    push_skip_queue[of "cm_pending_opens m"] by simp

lemma skips_apart_accept: "skips_apart (q @ [Accept i t]) \<longleftrightarrow> skips_apart q"
  by (auto simp: skips_apart_def successively_append_iff is_accept_def)

lemma handle_open_queue: "queue_step (cm_pending_opens m) (cm_pending_opens (fst (handle_channel_open P rx c ty m)))"
proof -
  let ?m = "m\<lparr>cm_pending_opens := cm_pending_opens m @ [Accept c ty]\<rparr>"
  have "queue_step (cm_pending_opens m) (cm_pending_opens (fst (try_pair P rx ?m)))"
    using try_pair_queue[where m = ?m and P = P and rx = rx] by (simp add: queue_step_def skips_apart_accept)
  then show ?thesis using refuse_queue[of m P rx c]
    by (simp add: handle_channel_open_def split: sum.split)
qed

lemma stream_queue: "queue_step (cm_pending_opens m) (cm_pending_opens (fst (on_stream_accepted P rx l m)))"
  using try_pair_queue[where m = "m\<lparr>cm_pending_streams := cm_pending_streams m @ [l]\<rparr>" and P = P and rx = rx]
  by (simp add: queue_step_def on_stream_accepted_def)

lemma queue_step_Nil [simp]: "queue_step q []"
  by (simp add: queue_step_def skips_apart_def)

lemma step_queue: "cm_step P m m' \<Longrightarrow> queue_step (cm_pending_opens m) (cm_pending_opens m')"
  by (erule cm_step_E)
     (simp_all add: open_same lifecycle_same handle_open_queue stream_queue stop_all_def)

interpretation counted: invariant_system
  "\<lambda>(n, m). n = 0 \<and> (\<exists>crypto ver role neg limit sts. m = manager_new crypto ver role neg limit sts)"
  "counted_step P" counted_inv
  for P
proof unfold_locales
  fix s :: "nat \<times> manager"
  assume "case s of (n, m) \<Rightarrow> n = 0 \<and> (\<exists>crypto ver role neg limit sts. m = manager_new crypto ver role neg limit sts)"
  then show "counted_inv s" by (auto simp: counted_inv_def new_inv) (simp_all add: manager_new_def skips_apart_def)
next
  fix s t :: "nat \<times> manager"
  assume inv: "counted_inv s" and step: "counted_step P s t"
  obtain n m n' m' where s: "s = (n, m)" "t = (n', m')" by (cases s, cases t)
  then show "counted_inv t"
    using inv step step_inv[of m P m'] step_queue[of P m m'] by (auto simp: counted_inv_def counted_step_def queue_step_def)
qed

lemma counted_reach:
  "(cm_step P ^^ n) s m \<Longrightarrow> (counted_step P)\<^sup>*\<^sup>* (0, s) (n, m)"
proof (induction n arbitrary: m)
  case (Suc n)
  then obtain m1 where "(cm_step P ^^ n) s m1" "cm_step P m1 m" by auto
  with Suc.IH[of m1] show ?case
    by (auto simp: counted_step_def intro: rtranclp.rtrancl_into_rtrancl)
qed simp

lemma manager_reachable_inv:
  assumes "(cm_step P ^^ n) (manager_new crypto ver role neg limit sts) m"
  shows "counted_inv (n, m)"
  by (rule counted.inv_reachable[OF _ counted_reach[OF assms]]) blast

lemma pair_streams_limit [simp]: "cm_limit (fst (pair_streams P rx ls m)) = cm_limit m"
proof (induction ls arbitrary: m)
  case (Cons l ls)
  show ?case
  proof (cases "cm_pending_opens m")
    case q: (Cons p ps)
    show ?thesis
    proof (cases p)
      case (Accept i ty)
      let ?m = "fst (pair_accept P rx i ty l (m\<lparr>cm_pending_opens := ps\<rparr>))"
      have "fst (pair_streams P rx (l # ls) m) = fst (pair_streams P rx ls ?m)"
        using q Accept by (simp add: Let_def split: prod.splits)
      then show ?thesis using Cons.IH[of ?m] by simp
    qed (use q Cons.IH in simp)
  qed simp
qed simp

lemma pairing_limit [simp]:
  "cm_limit (fst (try_pair P rx m)) = cm_limit m" "cm_limit (fst (refuse P rx c r m)) = cm_limit m"
  "cm_limit (fst (handle_channel_open P rx c ty m)) = cm_limit m" "cm_limit (fst (on_stream_accepted P rx l m)) = cm_limit m"
proof -
  show t: "cm_limit (fst (try_pair P rx m)) = cm_limit m" for m by (simp add: try_pair_def)
  show r: "cm_limit (fst (refuse P rx c r m)) = cm_limit m" for r by (simp add: refuse_try_pair t)
  show "cm_limit (fst (handle_channel_open P rx c ty m)) = cm_limit m"
    by (simp add: handle_channel_open_def r t split: sum.split)
  show "cm_limit (fst (on_stream_accepted P rx l m)) = cm_limit m" by (simp add: on_stream_accepted_def t)
qed

lemma block_limit [simp]:
  "cm_limit (forget_resumable c m) = cm_limit m" "cm_limit (remove_channel c m) = cm_limit m"
  "cm_limit (park_forget c m) = cm_limit m" "cm_limit (insert_channel ch m) = cm_limit m"
  "cm_limit (snd (allocate_id m)) = cm_limit m"
  by (simp_all add: forget_resumable_def remove_channel_def park_forget_def insert_channel_def snd_allocate_id)

lemma open_limit [simp]:
  "cm_limit (snd (open_channel P stream ty m)) = cm_limit m"
  "cm_limit (snd (open_stream_channel P stream ty m)) = cm_limit m"
proof -
  obtain r m1 where a: "allocate_id m = (r, m1)" by fastforce
  then have "cm_limit m1 = cm_limit m" using block_limit(5)[of m] by simp
  with a show "cm_limit (snd (open_channel P stream ty m)) = cm_limit m"
    "cm_limit (snd (open_stream_channel P stream ty m)) = cm_limit m"
    by (simp_all add: open_channel_def open_stream_channel_def Let_def split: sum.split)
qed

lemma lifecycle_limit [simp]:
  "cm_limit (snd (reopen_channel P stream i ty m)) = cm_limit m"
  "cm_limit (handle_channel_accept c m) = cm_limit m"
  "cm_limit (handle_channel_reject c r m) = cm_limit m"
  "cm_limit (fst (handle_channel_close c m)) = cm_limit m"
  "cm_limit (handle_channel_closed c m) = cm_limit m"
  "cm_limit (handle_channel_error c r m) = cm_limit m"
  "cm_limit (fst (close_channel c m)) = cm_limit m"
  "cm_limit (fst (on_actor_event e m)) = cm_limit m"
  "cm_limit (snd (send_on_channel alive c mt fl payload m)) = cm_limit m"
  "cm_limit (confirm_link_alive m) = cm_limit m"
  "cm_limit (stop_all cmd m) = cm_limit m"
  subgoal by (simp add: reopen_channel_def Let_def split: sum.split)
  subgoal by (simp add: handle_channel_accept_def split: option.split)
  subgoal by (simp add: handle_channel_reject_def Let_def split: option.split)
  subgoal by (simp add: handle_channel_close_def Let_def split: option.split)
  subgoal by (simp add: handle_channel_closed_def Let_def split: option.split)
  subgoal by (simp add: handle_channel_error_def Let_def split: option.split)
  subgoal by (simp add: close_channel_def Let_def split: option.split)
  subgoal by (simp add: on_actor_event_def split: actor_event.split)
  subgoal by (simp add: send_on_channel_def split: option.split)
  subgoal by (simp add: confirm_link_alive_def)
  subgoal by (simp add: stop_all_def)
  done

lemma step_limit: "cm_step P m m' \<Longrightarrow> cm_limit m' = cm_limit m"
  by (erule cm_step_E) simp_all

lemma steps_limit: "(cm_step P ^^ n) s m \<Longrightarrow> cm_limit m = cm_limit s"
  by (induction n arbitrary: m) (auto dest: step_limit)

text \<open>
  A peer cannot make a session grow without bound. After any sequence of fewer than
  \<open>2^64 - 1\<close> operations - peer opens, streams, accepts, rejects, closes, errors, actor deaths,
  local opens, in any order - live and pending channels together stay within the channel limit,
  the set to re-attach on resume stays within it too, the queue of pending opens holds at most
  \<open>2 * limit + 1\<close> entries however many opens were refused, and one of the two pairing queues is
  empty.
\<close>

lemma manager_stays_bounded:
  assumes "(cm_step P ^^ n) (manager_new crypto ver role neg limit sts) m" "n < USIZE_MAX"
  shows "length (cm_channels m) + pending_accepts m \<le> limit \<and> length (cm_resumable m) \<le> limit
    \<and> length (cm_pending_opens m) \<le> 2 * limit + 1
    \<and> (cm_pending_opens m = [] \<or> cm_pending_streams m = [])"
proof -
  have inv: "cm_inv m" "skips_apart (cm_pending_opens m)"
    using manager_reachable_inv[OF assms(1)] assms(2) by (simp_all add: counted_inv_def)
  have l: "cm_limit m = limit" using steps_limit[OF assms(1)] by (simp add: manager_new_def)
  have "length (cm_pending_opens m) \<le> 2 * pending_accepts m + 1"
    using skips_apart_length[OF inv(2)] by (simp add: pending_accepts_def)
  then show ?thesis using inv(1) l by (auto simp: cm_inv_def cm_pre_def)
qed

text \<open>
  The control channel's keys are never handed to a data channel: in every reachable state
  no registered channel, no pending open and no channel remembered for resume has id 0, and
  each channel is registered under its own id.
\<close>

lemma control_id_never_a_channel:
  assumes "(cm_step P)\<^sup>*\<^sup>* (manager_new crypto ver role neg limit sts) m"
  shows "(\<forall>(k, ch) \<in> set (cm_channels m). ch_id ch = k \<and> k \<noteq> CONTROL)
    \<and> (\<forall>i ty. Accept i ty \<in> set (cm_pending_opens m) \<longrightarrow> i \<noteq> CONTROL)
    \<and> CONTROL \<notin> fst ` set (cm_resumable m) \<and> distinct (map fst (cm_channels m))"
proof -
  have "cm_inv m" by (rule cm.inv_reachable[OF _ assms]) blast
  then show ?thesis
    by (fastforce simp: cm_inv_def cm_pre_def keys_ok_def opens_ok_def list_all_iff dest: om_inv_distinct)
qed

section \<open>Streams pair with opens in order\<close>

text \<open>
  The abstract queue: one slot per peer open, in the order the opens arrived - \<open>Some\<close> for an
  admitted open, \<open>None\<close> for a refused one - and one entry per stream, in arrival order. The
  \<open>n\<close>-th slot goes with the \<open>n\<close>-th stream.
\<close>

type_synonym slot = "(channel_id \<times> channel_type) option"

definition slots :: "pending_open list \<Rightarrow> slot list" where
  "slots q = concat (map (\<lambda>p. case p of Accept i t \<Rightarrow> [Some (i, t)] | Skip n \<Rightarrow> replicate n None) q)"

definition pair_one :: "prims \<Rightarrow> bool \<Rightarrow> slot \<times> link \<Rightarrow> manager \<times> control_message list \<Rightarrow> manager \<times> control_message list" where
  "pair_one P rx = (\<lambda>(s, l) (m, out).
     case s of None \<Rightarrow> (m, out)
     | Some (i, ty) \<Rightarrow> (case pair_accept P rx i ty l m of (m', o') \<Rightarrow> (m', out @ o')))"

definition with_queues :: "pending_open list \<Rightarrow> link list \<Rightarrow> manager \<Rightarrow> manager" where
  "with_queues q ls m = m\<lparr>cm_pending_opens := q, cm_pending_streams := ls\<rparr>"

definition queues_after :: "pending_open list \<Rightarrow> link list \<Rightarrow> manager \<times> control_message list \<Rightarrow> manager \<times> control_message list" where
  "queues_after q ls = (\<lambda>(m, out). (with_queues q ls m, out))"

lemma slots_simps [simp]:
  "slots [] = []" "slots (Accept i t # q) = Some (i, t) # slots q" "slots (Skip n # q) = replicate n None @ slots q"
  "slots (a @ b) = slots a @ slots b"
  by (simp_all add: slots_def)

lemma slots_push_skip: "slots (push_skip q) = slots q @ [None]"
  by (cases q rule: push_skip_cases) (auto simp: replicate_append_same)

text \<open>Pairing does not read the queues.\<close>

lemma announce_queues: "announce_open c t (with_queues q ls m) = with_queues q ls (announce_open c t m)"
  by (simp add: announce_open_def with_queues_def emit_def split: prod.split)

lemma pair_accept_queues:
  "pair_accept P rx i ty l (with_queues q ls m) = queues_after q ls (pair_accept P rx i ty l m)"
proof -
  have f: "cm_ids (with_queues q ls m) = cm_ids m" "cm_crypto (with_queues q ls m) = cm_crypto m"
    "cm_version (with_queues q ls m) = cm_version m" "cm_stream_types (with_queues q ls m) = cm_stream_types m"
    "cm_incoming (with_queues q ls m) = cm_incoming m" for m
    by (simp_all add: with_queues_def)
  have u: "(with_queues q ls m)\<lparr>cm_ids := x\<rparr> = with_queues q ls (m\<lparr>cm_ids := x\<rparr>)"
    "(with_queues q ls m)\<lparr>cm_incoming := y\<rparr> = with_queues q ls (m\<lparr>cm_incoming := y\<rparr>)"
    "emit e (with_queues q ls m) = with_queues q ls (emit e m)"
    "insert_channel ch (with_queues q ls m) = with_queues q ls (insert_channel ch m)" for m x y e ch
    by (simp_all add: with_queues_def emit_def insert_channel_def)
  show ?thesis
    by (simp add: pair_accept_def Let_def f u announce_queues queues_after_def split: sum.split)
qed

lemma pair_one_queues: "pair_one P rx sl (queues_after q ls s) = queues_after q ls (pair_one P rx sl s)"
  by (cases sl; cases s)
     (auto simp: pair_one_def queues_after_def pair_accept_queues split: option.split prod.split)

lemma fold_pair_queues:
  "fold (pair_one P rx) zs (queues_after q ls s) = queues_after q ls (fold (pair_one P rx) zs s)"
  by (induction zs arbitrary: s) (simp_all add: pair_one_queues)

lemma fold_pair_out:
  "fold (pair_one P rx) zs (m, out) = (let (m', o') = fold (pair_one P rx) zs (m, []) in (m', out @ o'))"
proof (induction zs arbitrary: m out)
  case (Cons z zs)
  obtain s l where z: "z = (s, l)" by (cases z)
  show ?case
  proof (cases s)
    case None
    then show ?thesis using Cons.IH[of m out] z by (simp add: pair_one_def)
  next
    case (Some a)
    obtain i ty where a: "a = (i, ty)" by (cases a)
    obtain m1 o1 where p: "pair_accept P rx i ty l m = (m1, o1)" by fastforce
    show ?thesis using Cons.IH[of m1 "out @ o1"] Cons.IH[of m1 o1] z Some a p
      by (simp add: pair_one_def split: prod.splits)
  qed
qed simp

lemma queues_after_twice [simp]: "queues_after q ls (queues_after q' ls' s) = queues_after q ls s"
  by (cases s) (simp add: queues_after_def with_queues_def)

lemma queues_after_fields [simp]:
  "cm_pending_opens (fst (queues_after q ls s)) = q" "cm_pending_streams (fst (queues_after q ls s)) = ls"
  by (cases s; simp add: queues_after_def with_queues_def)+

lemma with_queues_opens: "(with_queues q ls m)\<lparr>cm_pending_opens := q'\<rparr> = with_queues q' ls m"
  by (simp add: with_queues_def)

lemma with_queues_field: "cm_pending_opens (with_queues q ls m) = q"
  by (simp add: with_queues_def)

text \<open>The loop with its two queues pulled out of the state.\<close>

lemma pair_streams_spec:
  "opens_ok q \<Longrightarrow> \<exists>q'. slots q' = drop (length ls) (slots q)
     \<and> pair_streams P rx ls (with_queues q ls' m) =
         queues_after q' (drop (length (slots q)) ls) (fold (pair_one P rx) (zip (slots q) ls) (m, []))"
proof (induction ls arbitrary: q m)
  case Nil
  show ?case by (intro exI[of _ q]) (simp add: queues_after_def with_queues_def)
next
  case (Cons l ls)
  show ?case
  proof (cases q)
    case Nil
    then show ?thesis by (intro exI[of _ "[]"]) (simp add: queues_after_def with_queues_def)
  next
    case q: (Cons p ps)
    show ?thesis
    proof (cases p)
      case (Skip n)
      then obtain k where n: "n = Suc k" using Cons.prems q by (cases n) (auto simp: opens_ok_Cons)
      define q2 where "q2 = (if 1 < n then Skip (n - 1) # ps else ps)"
      have ok: "opens_ok q2" and sl: "slots q = None # slots q2"
        using Cons.prems q Skip n by (auto simp: opens_ok_Cons q2_def)
      have st: "pair_streams P rx (l # ls) (with_queues q ls' m) = pair_streams P rx ls (with_queues q2 ls' m)"
        using q Skip by (simp add: with_queues_opens with_queues_field q2_def)
      show ?thesis using Cons.IH[OF ok, of m] by (simp only: st sl) (simp add: pair_one_def)
    next
      case (Accept i ty)
      have ok: "opens_ok ps" using Cons.prems q by (simp add: opens_ok_Cons)
      obtain m1 o1 where p1: "pair_accept P rx i ty l m = (m1, o1)" by fastforce
      have "(with_queues q ls' m)\<lparr>cm_pending_opens := ps\<rparr> = with_queues ps ls' m" by (simp add: with_queues_def)
      then have pa: "pair_accept P rx i ty l ((with_queues q ls' m)\<lparr>cm_pending_opens := ps\<rparr>) = (with_queues ps ls' m1, o1)"
        using pair_accept_queues[of P rx i ty l ps ls' m] p1 by (simp add: queues_after_def)
      obtain q' where q': "slots q' = drop (length ls) (slots ps)"
        "pair_streams P rx ls (with_queues ps ls' m1) =
           queues_after q' (drop (length (slots ps)) ls) (fold (pair_one P rx) (zip (slots ps) ls) (m1, []))"
        using Cons.IH[OF ok, of m1] by blast
      have "cm_pending_opens (with_queues q ls' m) = Accept i ty # ps" using q Accept by (simp add: with_queues_def)
      then have "pair_streams P rx (l # ls) (with_queues q ls' m) =
          (let (m2, o2) = pair_streams P rx ls (with_queues ps ls' m1) in (m2, o1 @ o2))"
        using pa by (simp add: Let_def)
      also have "\<dots> = queues_after q' (drop (length (slots q)) (l # ls)) (fold (pair_one P rx) (zip (slots q) (l # ls)) (m, []))"
        using q' q Accept p1 fold_pair_out[of P rx "zip (slots ps) ls" m1 o1]
        by (simp add: queues_after_def pair_one_def split: prod.splits)
      finally show ?thesis using q'(1) q Accept by (intro exI[of _ q']) simp
    qed
  qed
qed

lemma try_pair_spec:
  assumes "opens_ok (cm_pending_opens m)"
  shows "\<exists>q'. slots q' = drop (length (cm_pending_streams m)) (slots (cm_pending_opens m))
     \<and> try_pair P rx m =
         queues_after q' (drop (length (slots (cm_pending_opens m))) (cm_pending_streams m))
           (fold (pair_one P rx) (zip (slots (cm_pending_opens m)) (cm_pending_streams m)) (m, []))"
proof -
  have "with_queues (cm_pending_opens m) (cm_pending_streams m) m = m" by (simp add: with_queues_def)
  then show ?thesis
    using pair_streams_spec[OF assms, of "cm_pending_streams m" P rx "cm_pending_streams m" m]
    by (simp add: try_pair_def)
qed

text \<open>The slot a peer's open takes: its own if it is admitted, an empty one if it is refused.\<close>

definition admitted :: "manager \<Rightarrow> channel_id \<Rightarrow> channel_type \<Rightarrow> bool" where
  "admitted m c ty = (\<not> is_control c \<and> is_ok (permit m ty) \<and> \<not> om_member c (cm_channels m)
                      \<and> \<not> list_ex (accepts c) (cm_pending_opens m))"

definition abs_queues :: "manager \<Rightarrow> slot list \<times> link list" where
  "abs_queues m = (slots (cm_pending_opens m), cm_pending_streams m)"

definition fifo :: "slot list \<times> link list \<Rightarrow> slot list \<times> link list" where
  "fifo = (\<lambda>(ss, ls). (drop (length ls) ss, drop (length ss) ls))"

text \<open>
  C10. The pairing refines a pair of FIFO queues. A peer's open adds exactly one slot and an
  inbound stream exactly one stream, whatever was refused; then the queues are zipped: the
  \<open>n\<close>-th waiting open is served with the \<open>n\<close>-th waiting stream, in order, and what remains is
  the longer queue's tail. So a refusal never makes a later open take another open's stream.
\<close>

theorem pairing_refines_fifo:
  assumes "cm_inv m"
  shows "abs_queues (fst (handle_channel_open P rx c ty m)) =
           fifo (fst (abs_queues m) @ [if admitted m c ty then Some (c, ty) else None], snd (abs_queues m))
    \<and> abs_queues (fst (on_stream_accepted P rx l m)) = fifo (fst (abs_queues m), snd (abs_queues m) @ [l])
    \<and> (\<exists>q ls. on_stream_accepted P rx l m =
          queues_after q ls (fold (pair_one P rx) (zip (slots (cm_pending_opens m)) (cm_pending_streams m @ [l]))
             (m\<lparr>cm_pending_streams := cm_pending_streams m @ [l]\<rparr>, [])))"
proof -
  have tp: "abs_queues (fst (try_pair P rx m')) = fifo (abs_queues m')" if "opens_ok (cm_pending_opens m')" for m'
    using try_pair_spec[OF that, of P rx] by (auto simp: abs_queues_def fifo_def)
  have ok: "opens_ok (cm_pending_opens m)" using assms by (simp add: cm_inv_def cm_pre_def)
  let ?r = "\<lambda>r. (emit (Ev_Rejected c r) m)\<lparr>cm_pending_opens := push_skip (cm_pending_opens m)\<rparr>"
  have ref: "abs_queues (fst (refuse P rx c r m)) = fifo (fst (abs_queues m) @ [None], snd (abs_queues m))" for r
    unfolding refuse_try_pair using tp[of "?r r"] push_skip_pre[OF ok] by (simp add: abs_queues_def slots_push_skip)
  have acc: "abs_queues (fst (try_pair P rx (m\<lparr>cm_pending_opens := cm_pending_opens m @ [Accept c ty]\<rparr>)))
      = fifo (fst (abs_queues m) @ [Some (c, ty)], snd (abs_queues m))" if "\<not> is_control c"
    using tp[of "m\<lparr>cm_pending_opens := cm_pending_opens m @ [Accept c ty]\<rparr>"] ok that
    by (simp add: abs_queues_def opens_ok_append) (simp add: opens_ok_def is_control_def CONTROL_def)
  have op: "abs_queues (fst (handle_channel_open P rx c ty m)) =
           fifo (fst (abs_queues m) @ [if admitted m c ty then Some (c, ty) else None], snd (abs_queues m))"
    using ref acc by (auto simp: handle_channel_open_def admitted_def split: sum.split)
  let ?s = "m\<lparr>cm_pending_streams := cm_pending_streams m @ [l]\<rparr>"
  have "abs_queues (fst (on_stream_accepted P rx l m)) = fifo (fst (abs_queues m), snd (abs_queues m) @ [l])"
    using tp[of ?s] ok by (simp add: on_stream_accepted_def abs_queues_def)
  moreover have "\<exists>q ls. on_stream_accepted P rx l m =
          queues_after q ls (fold (pair_one P rx) (zip (slots (cm_pending_opens m)) (cm_pending_streams m @ [l])) (?s, []))"
    using try_pair_spec[of ?s P rx] ok by (auto simp: on_stream_accepted_def)
  ultimately show ?thesis using op by blast
qed

section \<open>Evaluated instances\<close>

definition toy_manager :: manager where
  "toy_manager = manager_new \<lparr>master_send = [1], master_recv = [2], sc_role = Responder, sc_epoch = 0\<rparr>
     VERSION_CURRENT Responder [capability_new CT_CHAT] 1 []"

lemma toy_manager_step:
  "(cm_step toy_prims ^^ 1) toy_manager (fst (handle_channel_open toy_prims True 1 CT_CHAT toy_manager))"
  unfolding relpowp_1 by (rule step_peer_open)

lemma manager_stays_bounded_witness:
  "length (cm_pending_opens (fst (handle_channel_open toy_prims True 1 CT_CHAT toy_manager))) \<le> 3"
proof -
  have "1 < USIZE_MAX" by (simp add: USIZE_MAX_def)
  then show ?thesis
    using manager_stays_bounded[OF toy_manager_step[unfolded toy_manager_def]] by (simp add: toy_manager_def)
qed

lemma control_id_never_a_channel_witness:
  "CONTROL \<notin> fst ` set (cm_resumable (fst (handle_channel_open toy_prims True 1 CT_CHAT toy_manager)))
    \<and> distinct (map fst (cm_channels (fst (handle_channel_open toy_prims True 1 CT_CHAT toy_manager))))"
proof -
  have "(cm_step toy_prims)\<^sup>*\<^sup>* toy_manager (fst (handle_channel_open toy_prims True 1 CT_CHAT toy_manager))"
    by (rule r_into_rtranclp) (rule step_peer_open)
  then show ?thesis using control_id_never_a_channel unfolding toy_manager_def by blast
qed

theorem pairing_refines_fifo_witness:
  "abs_queues (fst (handle_channel_open toy_prims True 0 CT_CHAT toy_manager)) = ([None], [])"
proof -
  have "cm_inv toy_manager" by (simp add: toy_manager_def new_inv)
  from pairing_refines_fifo[OF this, of toy_prims True 0 CT_CHAT]
  show ?thesis by (simp add: admitted_def is_control_def abs_queues_def fifo_def) (simp add: toy_manager_def manager_new_def)
qed

end
