(* ===== verification/PB_Session.thy ===== *)
theory PB_Session
  imports PB_Channel_Inv
begin

text \<open>
  The live session (\<open>peerbeam-transfer/src/session/mod.rs\<close>, \<open>event.rs\<close>, \<open>registry.rs\<close>,
  \<open>recovery.rs\<close>): the keepalive scheduler, the session registry, the pump's reaction to each
  wake-up, the three ways to close, the capture of a lost session, its reassembly on resume and
  the reconnect loop.

  The pump is a step function: one wake-up - the outcome of the \<open>select!\<close> - in, the new session
  and an optional exit out. Link outcomes and clock readings are inputs (a time is a natural
  number of milliseconds); what the session reports is logged in order (\<open>ss_events\<close>,
  \<open>ss_replies\<close>, \<open>ss_wire\<close> for the sealed bytes handed to the control link). Waiting for channel
  actors to flush has no effect on the modelled state.

  Shown here: the pump moves only along the lifecycle graph and reports exactly one close; a
  ping is answered with its nonce; unknown control messages never end a session; keepalive
  pings at most once an interval and times out exactly at the idle limit; a lost session keeps
  its identity and its announced channels, and reassembling it asks for every one of them; the
  reconnect loop makes at most the configured number of attempts, each at a fresh epoch.
\<close>

section \<open>Keepalive\<close>

record keepalive_config =
  ka_interval :: nat
  ka_idle_timeout :: nat

definition keepalive_default :: keepalive_config where
  "keepalive_default = \<lparr>ka_interval = 15000, ka_idle_timeout = 60000\<rparr>"

datatype keepalive_action = KIdle | KSendPing | KTimeout

record keepalive =
  ka_config :: keepalive_config
  ka_last_activity :: nat
  ka_last_ping :: "nat option"

definition keepalive_new :: "keepalive_config \<Rightarrow> nat \<Rightarrow> keepalive" where
  "keepalive_new config now = \<lparr>ka_config = config, ka_last_activity = now, ka_last_ping = None\<rparr>"

definition on_activity :: "nat \<Rightarrow> keepalive \<Rightarrow> keepalive" where
  "on_activity now k = k\<lparr>ka_last_activity := now, ka_last_ping := None\<rparr>"

definition on_ping_sent :: "nat \<Rightarrow> keepalive \<Rightarrow> keepalive" where
  "on_ping_sent now k = k\<lparr>ka_last_ping := Some now\<rparr>"

text \<open>\<open>saturating_duration_since\<close> is subtraction on the natural numbers.\<close>

definition due :: "keepalive \<Rightarrow> nat \<Rightarrow> keepalive_action" where
  "due k now =
     (let idle = now - ka_last_activity k in
      if ka_idle_timeout (ka_config k) \<le> idle then KTimeout
      else if ka_interval (ka_config k) \<le> idle then
        (case ka_last_ping k of
           Some sent \<Rightarrow> if now - sent < ka_interval (ka_config k) then KIdle else KSendPing
         | None \<Rightarrow> KSendPing)
      else KIdle)"

section \<open>The registry\<close>

record session_info =
  si_id :: session_id
  si_peer :: device_id
  si_state :: session_state
  si_version :: version
  si_capabilities :: capability_set

type_synonym session_registry = "(session_id, session_info) omap"

definition reg_register :: "session_info \<Rightarrow> session_registry \<Rightarrow> session_registry" where
  "reg_register inf0 r = om_insert (si_id inf0) inf0 r"

definition reg_set_state :: "session_id \<Rightarrow> session_state \<Rightarrow> session_registry \<Rightarrow> session_registry" where
  "reg_set_state sid st r =
     (case map_of r sid of Some i \<Rightarrow> om_insert sid (i\<lparr>si_state := st\<rparr>) r | None \<Rightarrow> r)"

definition reg_remove :: "session_id \<Rightarrow> session_registry \<Rightarrow> session_registry" where
  "reg_remove sid r = om_remove sid r"

section \<open>The session\<close>

datatype close_reason = CR_Local | CR_Peer string | CR_Timeout | CR_Error string

datatype session_event =
    SE_Established session_id device_id version capability_set
  | SE_PingReceived session_id
  | SE_Recovering session_id nat
  | SE_Recovered session_id u64
  | SE_RecoveryFailed session_id string
  | SE_Closed session_id close_reason

text \<open>A channel as a snapshot shows it.\<close>

type_synonym channel_info = "channel_id \<times> channel_type \<times> channel_state"

datatype reply =
    R_Opened "(session_error, channel_id) result"
  | R_Stream "(session_error, channel_id \<times> link \<times> channel_crypto) result"
  | R_Sent "(session_error, unit) result"
  | R_Snapshot "channel_info list"

record peer_session =
  ss_id :: session_id
  ss_role :: session_role
  ss_local :: device_id
  ss_peer :: device_id
  ss_state :: session_state
  ss_version :: version
  ss_capabilities :: capability_set
  ss_crypto :: channel_crypto
  ss_manager :: manager
  ss_keepalive :: keepalive
  ss_registry :: "session_registry option"
  ss_control_out :: "control_message list"
  ss_accepting :: bool
  ss_ping_nonce :: u64
  ss_consumed_epoch :: u64
  ss_newly_trusted :: bool
  ss_peer_name :: string
  ss_pairing_code :: string
  ss_transcript :: bytes
  ss_events :: "session_event list"
  ss_replies :: "reply list"
  ss_wire :: "bytes list"

record session_config =
  sg_version :: version
  sg_capabilities :: capability_set
  sg_keepalive :: keepalive_config
  sg_channel_limit :: nat
  sg_stream_types :: "channel_type list"

definition DEFAULT_CHANNEL_LIMIT :: nat where "DEFAULT_CHANNEL_LIMIT = 256"

definition session_config_new :: "capability_set \<Rightarrow> session_config" where
  "session_config_new caps =
     \<lparr>sg_version = VERSION_CURRENT, sg_capabilities = cap_insert (capability_new CT_CONTROL) caps,
      sg_keepalive = keepalive_default, sg_channel_limit = DEFAULT_CHANNEL_LIMIT, sg_stream_types = []\<rparr>"

definition session_emit :: "session_event \<Rightarrow> peer_session \<Rightarrow> peer_session" where
  "session_emit e s = s\<lparr>ss_events := ss_events s @ [e]\<rparr>"

definition with_registry :: "(session_registry \<Rightarrow> session_registry) \<Rightarrow> peer_session \<Rightarrow> peer_session" where
  "with_registry f s = s\<lparr>ss_registry := map_option f (ss_registry s)\<rparr>"

definition assemble :: "session_role \<Rightarrow> session_id \<Rightarrow> device_id \<Rightarrow> device_id \<Rightarrow> version \<Rightarrow> capability_set
    \<Rightarrow> session_crypto \<Rightarrow> channel_crypto \<Rightarrow> session_config \<Rightarrow> session_registry option \<Rightarrow> u64 \<Rightarrow> nat \<Rightarrow> peer_session" where
  "assemble role sid loc peer ver caps sc cc config registry consumed now =
     (let s = \<lparr>ss_id = sid, ss_role = role, ss_local = loc, ss_peer = peer, ss_state = Active,
               ss_version = ver, ss_capabilities = caps, ss_crypto = cc,
               ss_manager = manager_new sc ver role caps (sg_channel_limit config) (sg_stream_types config),
               ss_keepalive = keepalive_new (sg_keepalive config) now, ss_registry = registry,
               ss_control_out = [], ss_accepting = True, ss_ping_nonce = 0, ss_consumed_epoch = consumed,
               ss_newly_trusted = False, ss_peer_name = [], ss_pairing_code = [], ss_transcript = [],
               ss_events = [], ss_replies = [], ss_wire = []\<rparr>;
          s = with_registry (reg_register \<lparr>si_id = sid, si_peer = peer, si_state = Active,
                                           si_version = ver, si_capabilities = caps\<rparr>) s
      in session_emit (SE_Established sid peer ver caps) s)"

text \<open>Seal one control message and hand it to the control link.\<close>

definition session_send :: "prims \<Rightarrow> json \<Rightarrow> link_send \<Rightarrow> control_message \<Rightarrow> peer_session
    \<Rightarrow> (session_error, unit) result \<times> peer_session" where
  "session_send P J send msg s =
     (case send_control P J send (ss_crypto s) msg of
        (out, r) \<Rightarrow>
          (let s = s\<lparr>ss_wire := ss_wire s @ out\<rparr> in
           case r of Inl e \<Rightarrow> (Inl e, s) | Inr cc \<Rightarrow> (Inr (), s\<lparr>ss_crypto := cc\<rparr>)))"

section \<open>Closing\<close>

definition finish_close :: "close_reason \<Rightarrow> peer_session \<Rightarrow> peer_session" where
  "finish_close reason s =
     session_emit (SE_Closed (ss_id s) reason) (with_registry (reg_remove (ss_id s)) (s\<lparr>ss_accepting := False\<rparr>))"

definition mark_closed :: "close_reason \<Rightarrow> peer_session \<Rightarrow> peer_session" where
  "mark_closed reason s =
     (if is_terminal (ss_state s) then s
      else finish_close reason (s\<lparr>ss_state := Closed, ss_manager := shutdown_all (ss_manager s)\<rparr>))"

definition begin_shutdown :: "peer_session \<Rightarrow> peer_session" where
  "begin_shutdown s =
     (if is_active (ss_state s)
      then with_registry (reg_set_state (ss_id s) ShuttingDown) (s\<lparr>ss_state := ShuttingDown\<rparr>) else s)"

definition close_gracefully :: "prims \<Rightarrow> json \<Rightarrow> link_send \<Rightarrow> peer_session \<Rightarrow> peer_session" where
  "close_gracefully P J send s =
     (if is_terminal (ss_state s) then s
      else
        let s = begin_shutdown s;
            s = snd (session_send P J send (Shutdown ''local close'') s);
            s = s\<lparr>ss_manager := shutdown_all (ss_manager s)\<rparr>
        in finish_close CR_Local (s\<lparr>ss_state := Closed\<rparr>))"

definition close_for_peer :: "string \<Rightarrow> peer_session \<Rightarrow> peer_session" where
  "close_for_peer reason s =
     (if is_terminal (ss_state s) then s
      else
        let s = begin_shutdown s;
            s = s\<lparr>ss_manager := drain_all (ss_manager s)\<rparr>
        in finish_close (CR_Peer reason) (s\<lparr>ss_state := Closed\<rparr>))"

section \<open>Losing the transport\<close>

definition preserve :: "peer_session \<Rightarrow> preserved_session" where
  "preserve s =
     \<lparr>ps_session_id = ss_id s, ps_local = ss_local s, ps_peer = ss_peer s, ps_role = ss_role s,
      ps_version = ss_version s, ps_capabilities = ss_capabilities s,
      ps_crypto = with_epoch (cm_crypto (ss_manager s)) (sc_epoch (cm_crypto (ss_manager s))),
      ps_consumed_epoch = ss_consumed_epoch s, ps_channels = reattachable_channels (ss_manager s)\<rparr>"

datatype run_exit = X_Closed | X_Lost preserved_session

definition capture_loss :: "peer_session \<Rightarrow> run_exit \<times> peer_session" where
  "capture_loss s =
     (let p = preserve s;
          s = s\<lparr>ss_manager := shutdown_all (ss_manager s)\<rparr>;
          s = (if can_transition_to (ss_state s) Recovering
               then with_registry (reg_set_state (ss_id s) Recovering) (s\<lparr>ss_state := Recovering\<rparr>) else s)
      in (X_Lost p, s))"

section \<open>The pump\<close>

datatype flow = Continue | Flow_Closed

definition queue_out :: "control_message list \<Rightarrow> peer_session \<Rightarrow> peer_session" where
  "queue_out out s = s\<lparr>ss_control_out := ss_control_out s @ out\<rparr>"

definition on_manager :: "(manager \<Rightarrow> manager \<times> control_message list) \<Rightarrow> peer_session \<Rightarrow> peer_session" where
  "on_manager f s = (case f (ss_manager s) of (m, out) \<Rightarrow> queue_out out (s\<lparr>ss_manager := m\<rparr>))"

definition route_control :: "prims \<Rightarrow> json \<Rightarrow> bool \<Rightarrow> session_frame \<Rightarrow> peer_session \<Rightarrow> flow \<times> peer_session" where
  "route_control P J rx frame s =
     (case from_frame J frame of
        Inl _ \<Rightarrow> (Continue, if is_optional (sf_flags frame) then s else queue_out [Unsupported (sf_message_type frame)] s)
      | Inr msg \<Rightarrow>
          (case msg of
             Hello _ \<Rightarrow> (Continue, s)
           | Pong _ \<Rightarrow> (Continue, s)
           | Unsupported _ \<Rightarrow> (Continue, s)
           | ResumeRequest _ \<Rightarrow> (Continue, s)
           | ResumeAck _ _ \<Rightarrow> (Continue, s)
           | Ping n \<Rightarrow> (Continue, queue_out [Pong n] (session_emit (SE_PingReceived (ss_id s)) s))
           | Shutdown reason \<Rightarrow> (Flow_Closed, close_for_peer reason s)
           | ProtocolError detail \<Rightarrow> (Flow_Closed, mark_closed (CR_Error detail) s)
           | ChannelOpen c ty \<Rightarrow> (Continue, on_manager (handle_channel_open P rx c ty) s)
           | ChannelAccept c \<Rightarrow> (Continue, on_manager (\<lambda>m. (handle_channel_accept c m, [])) s)
           | ChannelReject c reason \<Rightarrow> (Continue, on_manager (\<lambda>m. (handle_channel_reject c reason m, [])) s)
           | ChannelClose c \<Rightarrow> (Continue, on_manager (handle_channel_close c) s)
           | ChannelClosed c \<Rightarrow> (Continue, on_manager (\<lambda>m. (handle_channel_closed c m, [])) s)
           | ChannelError c detail \<Rightarrow> (Continue, on_manager (\<lambda>m. (handle_channel_error c detail m, [])) s)))"

text \<open>Commands carry the outcome of the stream they open, or the liveness of the actor they reach.\<close>

datatype session_command =
    C_OpenChannel channel_type "(domain_error, link) result"
  | C_OpenStreamChannel channel_type "(domain_error, link) result"
  | C_SendOnChannel channel_id message_type message_flags bytes "link \<Rightarrow> bool"
  | C_CloseChannel channel_id
  | C_Snapshot
  | C_Ping
  | C_Close

definition snapshot :: "manager \<Rightarrow> channel_info list" where
  "snapshot m = map (\<lambda>(_, ch). (ch_id ch, ch_type ch, ch_state ch)) (cm_channels m)"

definition answer :: "reply \<Rightarrow> peer_session \<Rightarrow> peer_session" where
  "answer r s = s\<lparr>ss_replies := ss_replies s @ [r]\<rparr>"

definition send_ping :: "peer_session \<Rightarrow> peer_session" where
  "send_ping s = (let n = ss_ping_nonce s + 1 in queue_out [Ping n] (s\<lparr>ss_ping_nonce := n\<rparr>))"

definition handle_command :: "prims \<Rightarrow> json \<Rightarrow> link_send \<Rightarrow> session_command \<Rightarrow> peer_session \<Rightarrow> flow \<times> peer_session" where
  "handle_command P J send cmd s =
     (case cmd of
        C_OpenChannel ty stream \<Rightarrow>
          (case open_channel P stream ty (ss_manager s) of
             (Inr (i, msg), m) \<Rightarrow> (Continue, answer (R_Opened (Inr i)) (queue_out [msg] (s\<lparr>ss_manager := m\<rparr>)))
           | (Inl e, m) \<Rightarrow> (Continue, answer (R_Opened (Inl e)) (s\<lparr>ss_manager := m\<rparr>)))
      | C_OpenStreamChannel ty stream \<Rightarrow>
          (case open_stream_channel P stream ty (ss_manager s) of
             (Inr (i, l, cc, msg), m) \<Rightarrow>
               (Continue, answer (R_Stream (Inr (i, l, cc))) (queue_out [msg] (s\<lparr>ss_manager := m\<rparr>)))
           | (Inl e, m) \<Rightarrow> (Continue, answer (R_Stream (Inl e)) (s\<lparr>ss_manager := m\<rparr>)))
      | C_SendOnChannel c mt fl payload alive \<Rightarrow>
          (case send_on_channel alive c mt fl payload (ss_manager s) of
             (r, m) \<Rightarrow> (Continue, answer (R_Sent r) (s\<lparr>ss_manager := m\<rparr>)))
      | C_CloseChannel c \<Rightarrow>
          (Continue, on_manager (\<lambda>m. case close_channel c m of (m, out) \<Rightarrow> (m, case out of Some msg \<Rightarrow> [msg] | None \<Rightarrow> [])) s)
      | C_Snapshot \<Rightarrow> (Continue, answer (R_Snapshot (snapshot (ss_manager s))) s)
      | C_Ping \<Rightarrow> (Continue, send_ping s)
      | C_Close \<Rightarrow> (Flow_Closed, close_gracefully P J send s))"

text \<open>
  What the pump can wake up with: a frame (or the end, or a failure) of the control link, an
  accepted stream, an actor event, a command, the keepalive tick.
\<close>

datatype wake =
    W_Control "(domain_error, bytes option) result"
  | W_Accept "(domain_error, link option) result"
  | W_Actor "actor_event option"
  | W_Command "session_command option"
  | W_Tick

text \<open>Flush the queued control messages; the first failure is a lost transport.\<close>

primrec flush_out :: "prims \<Rightarrow> json \<Rightarrow> link_send \<Rightarrow> control_message list \<Rightarrow> peer_session \<Rightarrow> run_exit option \<times> peer_session" where
  "flush_out P J send [] s = (None, s\<lparr>ss_control_out := []\<rparr>)"
| "flush_out P J send (msg # msgs) s =
     (case session_send P J send msg (s\<lparr>ss_control_out := msgs\<rparr>) of
        (Inl _, s) \<Rightarrow> (case capture_loss s of (x, s) \<Rightarrow> (Some x, s))
      | (Inr _, s) \<Rightarrow> flush_out P J send msgs s)"

definition on_wake :: "prims \<Rightarrow> json \<Rightarrow> link_send \<Rightarrow> bool \<Rightarrow> nat \<Rightarrow> wake \<Rightarrow> peer_session \<Rightarrow> run_exit option \<times> peer_session" where
  "on_wake P J send rx now w s =
     (case w of
        W_Control r \<Rightarrow>
          (case rbind (lift_link r) (recv_session_frame P (ss_crypto s)) of
             Inl _ \<Rightarrow> (case capture_loss s of (x, s) \<Rightarrow> (Some x, s))
           | Inr (None, _) \<Rightarrow> (case capture_loss s of (x, s) \<Rightarrow> (Some x, s))
           | Inr (Some frame, cc) \<Rightarrow>
               (let s = s\<lparr>ss_crypto := cc, ss_keepalive := on_activity now (ss_keepalive s),
                          ss_manager := confirm_link_alive (ss_manager s)\<rparr>
                in case route_control P J rx frame s of
                     (Flow_Closed, s) \<Rightarrow> (Some X_Closed, s)
                   | (Continue, s) \<Rightarrow> (None, s)))
      | W_Accept r \<Rightarrow>
          (case r of
             Inr (Some l) \<Rightarrow> (None, on_manager (on_stream_accepted P rx l) s)
           | _ \<Rightarrow> (None, s\<lparr>ss_accepting := False\<rparr>))
      | W_Actor e \<Rightarrow> (case e of Some ev \<Rightarrow> (None, on_manager (on_actor_event ev) s) | None \<Rightarrow> (None, s))
      | W_Command c \<Rightarrow>
          (case c of
             Some cmd \<Rightarrow> (case handle_command P J send cmd s of
                            (Flow_Closed, s) \<Rightarrow> (Some X_Closed, s) | (Continue, s) \<Rightarrow> (None, s))
           | None \<Rightarrow> (None, s))
      | W_Tick \<Rightarrow>
          (case due (ss_keepalive s) now of
             KIdle \<Rightarrow> (None, s)
           | KSendPing \<Rightarrow> (let s = send_ping s in (None, s\<lparr>ss_keepalive := on_ping_sent now (ss_keepalive s)\<rparr>))
           | KTimeout \<Rightarrow> (Some X_Closed, mark_closed CR_Timeout s)))"

text \<open>One iteration of \<open>run\<close>: flush, stop if closed, then react to the wake-up.\<close>

definition pump :: "prims \<Rightarrow> json \<Rightarrow> link_send \<Rightarrow> bool \<Rightarrow> nat \<Rightarrow> wake \<Rightarrow> peer_session \<Rightarrow> run_exit option \<times> peer_session" where
  "pump P J send rx now w s =
     (case flush_out P J send (ss_control_out s) s of
        (Some x, s) \<Rightarrow> (Some x, s)
      | (None, s) \<Rightarrow> if is_terminal (ss_state s) then (Some X_Closed, s) else on_wake P J send rx now w s)"

section \<open>Opening\<close>

text \<open>
  \<open>PeerSession::open\<close> after the handshake: \<open>auth\<close> is what authentication returned, \<open>fresh\<close>
  the random id the initiator mints, \<open>received\<close> what the control link delivers. The first
  component is what was written on the control link.
\<close>

definition our_hello :: "session_config \<Rightarrow> session_id \<Rightarrow> control_message" where
  "our_hello config sid = Hello \<lparr>sh_version = sg_version config, sh_capabilities = sg_capabilities config, sh_session_id = sid\<rparr>"

definition exchange_hellos :: "prims \<Rightarrow> json \<Rightarrow> link_send \<Rightarrow> session_role \<Rightarrow> session_config \<Rightarrow> session_id
    \<Rightarrow> (domain_error, bytes option) result \<Rightarrow> channel_crypto
    \<Rightarrow> bytes list \<times> (session_error, session_id \<times> session_hello \<times> channel_crypto) result" where
  "exchange_hellos P J send role config fresh received cc =
     (case role of
        Initiator \<Rightarrow>
          (case send_control P J send cc (our_hello config fresh) of
             (out, r) \<Rightarrow> (out, rbind r (\<lambda>cc. rbind (lift_link received) (\<lambda>rcv.
                               rbind (recv_hello P J cc rcv) (\<lambda>(h, cc). Inr (fresh, h, cc))))))
      | Responder \<Rightarrow>
          (case rbind (lift_link received) (recv_hello P J cc) of
             Inl e \<Rightarrow> ([], Inl e)
           | Inr (h, cc) \<Rightarrow>
               (case send_control P J send cc (our_hello config (sh_session_id h)) of
                  (out, r) \<Rightarrow> (out, rbind r (\<lambda>cc. Inr (sh_session_id h, h, cc))))))"

definition session_open :: "prims \<Rightarrow> json \<Rightarrow> link_send \<Rightarrow> session_role \<Rightarrow> session_config \<Rightarrow> device_id \<Rightarrow> auth_session
    \<Rightarrow> session_registry option \<Rightarrow> session_id \<Rightarrow> (domain_error, bytes option) result \<Rightarrow> nat
    \<Rightarrow> bytes list \<times> (session_error, peer_session) result" where
  "session_open P J send role config loc auth registry fresh received now =
     (let sc = from_session auth role in
      case control_crypto P sc of
        Inl e \<Rightarrow> ([], Inl e)
      | Inr cc \<Rightarrow>
          (case exchange_hellos P J send role config fresh received cc of
             (out, Inl e) \<Rightarrow> (out, Inl e)
           | (out, Inr (sid, hello, cc)) \<Rightarrow>
               (out, (case negotiate_version (sg_version config) (sh_version hello) of
                  Incompatible l p \<Rightarrow> Inl (VersionIncompatible l p)
                | Agreed ver \<Rightarrow>
                    (let caps = cap_intersect (sg_capabilities config) (sh_capabilities hello);
                         s = assemble role sid loc (as_peer_id auth) ver caps sc cc config registry 0 now
                     in Inr (s\<lparr>ss_newly_trusted := as_newly_trusted auth, ss_peer_name := as_peer_name auth,
                               ss_pairing_code := as_pairing_code auth, ss_transcript := as_transcript auth\<rparr>))))))"

section \<open>Resuming\<close>

text \<open>
  Re-open the preserved channels; \<open>streams\<close> gives, per position, the outcome of opening its
  stream. A channel that cannot be re-opened is skipped.
\<close>

primrec reattach_channels :: "prims \<Rightarrow> (nat \<Rightarrow> (domain_error, link) result) \<Rightarrow> nat \<Rightarrow> (channel_id \<times> channel_type) list
    \<Rightarrow> peer_session \<Rightarrow> peer_session" where
  "reattach_channels P streams n [] s = s"
| "reattach_channels P streams n (c # cs) s =
     reattach_channels P streams (Suc n) cs
       (case reopen_channel P (streams n) (fst c) (snd c) (ss_manager s) of
          (Inr msg, m) \<Rightarrow> queue_out [msg] (s\<lparr>ss_manager := m\<rparr>)
        | (Inl _, m) \<Rightarrow> s\<lparr>ss_manager := m\<rparr>)"

definition resumed :: "preserved_session \<Rightarrow> session_crypto \<Rightarrow> channel_crypto \<Rightarrow> session_config \<Rightarrow> session_registry option
    \<Rightarrow> u64 \<Rightarrow> nat \<Rightarrow> peer_session" where
  "resumed ps sc cc config registry consumed now =
     assemble (ps_role ps) (ps_session_id ps) (ps_local ps) (ps_peer ps) (ps_version ps) (ps_capabilities ps)
       sc cc config registry consumed now"

text \<open>The redialling side, once the reply is in: reassemble and re-attach.\<close>

definition resume_session :: "prims \<Rightarrow> json \<Rightarrow> preserved_session \<Rightarrow> session_config \<Rightarrow> session_registry option
    \<Rightarrow> session_crypto \<Rightarrow> channel_crypto \<Rightarrow> bytes option \<Rightarrow> (nat \<Rightarrow> (domain_error, link) result) \<Rightarrow> nat
    \<Rightarrow> (session_error, peer_session) result" where
  "resume_session P J ps config registry sc cc received streams now =
     rbind (resume_finish P J cc received) (\<lambda>cc.
     Inr (reattach_channels P streams 0 (ps_channels ps)
            (resumed ps sc cc config registry (ps_consumed_epoch ps) now)))"

section \<open>The reconnect loop\<close>

record recovery_config =
  rc_max_attempts :: nat
  rc_backoff_base :: nat
  rc_token_ttl_ms :: u64

record recovery_stats =
  rs_attempts :: nat
  rs_resumes :: nat
  rs_epoch :: u64

text \<open>
  What one attempt ends with: no transport (the dial failed or timed out), no answer in time,
  a resumed session (for the responder with the epoch of the token it consumed), or an error of
  the handshake.
\<close>

datatype attempt =
    No_Transport | No_Answer
  | Resumed peer_session u64
  | Handshake_Error session_error

record recovery =
  ry_session :: "peer_session option"
  ry_stats :: recovery_stats
  ry_consumed_epoch :: u64
  ry_events :: "session_event list"
  ry_registry :: "session_registry option"
  ry_published :: bool

definition is_refusal :: "session_error \<Rightarrow> bool" where
  "is_refusal e = (case e of ResumeRejected _ \<Rightarrow> True | ResumeExpired \<Rightarrow> True | ResumeReplayed \<Rightarrow> True | _ \<Rightarrow> False)"

definition attempt_epoch :: "preserved_session \<Rightarrow> nat \<Rightarrow> u64" where
  "attempt_epoch ps attempt = sc_epoch (ps_crypto ps) + of_nat attempt"

definition give_up :: "session_id \<Rightarrow> string \<Rightarrow> recovery \<Rightarrow> recovery" where
  "give_up sid reason r =
     r\<lparr>ry_published := False, ry_events := ry_events r @ [SE_RecoveryFailed sid reason],
       ry_registry := map_option (reg_remove sid) (ry_registry r)\<rparr>"

text \<open>
  \<open>outcome attempt epoch\<close> is the environment's answer to the attempt with that number and, for
  the redialling side, that epoch. Attempts are counted from 1; the bound is below \<open>2^32\<close>, so
  the 32-bit counters do not wrap.
\<close>

function recover_loop :: "recovery_config \<Rightarrow> (nat \<Rightarrow> u64 \<Rightarrow> attempt) \<Rightarrow> preserved_session \<Rightarrow> nat \<Rightarrow> recovery
    \<Rightarrow> (session_error, unit) result \<times> recovery" where
  "recover_loop config outcome ps made r =
     (let attempt = made + 1; sid = ps_session_id ps in
      if rc_max_attempts config < attempt then
        (Inl (RecoveryExhausted (of_nat (attempt - 1))),
         give_up sid (''attempts exhausted after '' @ show_nat (attempt - 1)) r)
      else
        let r = r\<lparr>ry_stats := (ry_stats r)\<lparr>rs_attempts := rs_attempts (ry_stats r) + 1\<rparr>,
                  ry_events := ry_events r @ [SE_Recovering sid attempt]\<rparr>
        in (case outcome attempt (attempt_epoch ps attempt) of
              No_Transport \<Rightarrow> recover_loop config outcome ps attempt r
            | No_Answer \<Rightarrow> recover_loop config outcome ps attempt r
            | Resumed s e \<Rightarrow>
                (let epoch = (case ps_role ps of Initiator \<Rightarrow> attempt_epoch ps attempt | Responder \<Rightarrow> e);
                     r = r\<lparr>ry_consumed_epoch := (case ps_role ps of Initiator \<Rightarrow> ry_consumed_epoch r | Responder \<Rightarrow> e),
                           ry_stats := (ry_stats r)\<lparr>rs_resumes := rs_resumes (ry_stats r) + 1, rs_epoch := epoch\<rparr>,
                           ry_published := True, ry_events := ry_events r @ [SE_Recovered sid epoch],
                           ry_session := Some s\<rparr>
                 in (Inr (), r))
            | Handshake_Error e \<Rightarrow>
                if is_refusal e \<and> ps_role ps = Initiator then (Inl e, give_up sid (session_error_show e) r)
                else recover_loop config outcome ps attempt r))"
  by pat_completeness auto
termination
  by (relation "measure (\<lambda>(c, out, ps, n, r). Suc (rc_max_attempts c) - n)") auto

declare recover_loop.simps [simp del]

definition recover :: "recovery_config \<Rightarrow> (nat \<Rightarrow> u64 \<Rightarrow> attempt) \<Rightarrow> preserved_session \<Rightarrow> recovery
    \<Rightarrow> (session_error, unit) result \<times> recovery" where
  "recover config outcome ps r = recover_loop config outcome ps 0 r"

end
