(* ===== verification/PB_Session_Props.thy ===== *)
theory PB_Session_Props
  imports PB_Session
begin

text \<open>
  Properties of the live session and of the reconnect loop, over the definitions of
  \<open>PB_Session\<close>.
\<close>

section \<open>Lifecycle of the pump\<close>

definition is_closed_event :: "session_event \<Rightarrow> bool" where
  "is_closed_event e = (case e of SE_Closed _ _ \<Rightarrow> True | _ \<Rightarrow> False)"

definition closed_events :: "peer_session \<Rightarrow> session_event list" where
  "closed_events s = filter is_closed_event (ss_events s)"

text \<open>What a reaction that continues leaves alone.\<close>

definition same_life :: "peer_session \<Rightarrow> peer_session \<Rightarrow> bool" where
  "same_life s s' = (ss_state s' = ss_state s \<and> ss_id s' = ss_id s \<and> ss_local s' = ss_local s \<and> ss_peer s' = ss_peer s
     \<and> ss_version s' = ss_version s \<and> ss_capabilities s' = ss_capabilities s \<and> ss_consumed_epoch s' = ss_consumed_epoch s
     \<and> ss_role s' = ss_role s \<and> closed_events s' = closed_events s)"

lemma same_life_refl [simp]: "same_life s s"
  by (simp add: same_life_def)

lemma same_life_trans: "same_life a b \<Longrightarrow> same_life b c \<Longrightarrow> same_life a c"
  by (simp add: same_life_def)

lemma same_life_updates [simp]:
  "same_life s (s\<lparr>ss_manager := m\<rparr>)" "same_life s (s\<lparr>ss_control_out := q\<rparr>)" "same_life s (s\<lparr>ss_accepting := b\<rparr>)"
  "same_life s (s\<lparr>ss_crypto := cc\<rparr>)" "same_life s (s\<lparr>ss_keepalive := k\<rparr>)" "same_life s (s\<lparr>ss_replies := rs\<rparr>)"
  "same_life s (s\<lparr>ss_wire := w\<rparr>)" "same_life s (s\<lparr>ss_ping_nonce := n\<rparr>)"
  by (simp_all add: same_life_def closed_events_def)

lemma same_life_queue [simp]: "same_life s (queue_out out s)"
  by (simp add: queue_out_def)

lemma same_life_on_manager [simp]: "same_life s (on_manager f s)"
  by (auto simp: on_manager_def same_life_def closed_events_def queue_out_def split: prod.split)

lemma same_life_ping [simp]: "same_life s (send_ping s)"
  by (simp add: send_ping_def Let_def same_life_def closed_events_def queue_out_def)

lemma same_life_answer [simp]: "same_life s (answer r (queue_out out (s\<lparr>ss_manager := m\<rparr>)))" "same_life s (answer r (s\<lparr>ss_manager := m\<rparr>))"
  "same_life s (answer r s)"
  by (simp_all add: answer_def queue_out_def same_life_def closed_events_def)

lemma same_life_send: "same_life s (snd (session_send P J send msg s))"
  by (auto simp: session_send_def Let_def same_life_def closed_events_def split: prod.split sum.split)

text \<open>A session that has just closed.\<close>

definition closed_once :: "peer_session \<Rightarrow> peer_session \<Rightarrow> bool" where
  "closed_once s s' = (ss_state s' = Closed \<and> (\<exists>reason. closed_events s' = closed_events s @ [SE_Closed (ss_id s) reason])
     \<and> \<not> ss_accepting s' \<and> cm_channels (ss_manager s') = [] \<and> cm_pending_opens (ss_manager s') = []
     \<and> (\<forall>r. ss_registry s' = Some r \<longrightarrow> map_of r (ss_id s) = None))"

lemma stop_all_empty [simp]:
  "cm_channels (stop_all cmd m) = []" "cm_pending_opens (stop_all cmd m) = []"
  by (simp_all add: stop_all_def)

lemma begin_shutdown_life:
  "ss_id (begin_shutdown s) = ss_id s" "closed_events (begin_shutdown s) = closed_events s"
  by (simp_all add: begin_shutdown_def with_registry_def closed_events_def)

lemma finish_closed_once:
  assumes "closed_events s1 = closed_events s" "ss_id s1 = ss_id s" "cm_channels (ss_manager s1) = []" "cm_pending_opens (ss_manager s1) = []"
  shows "closed_once s (finish_close reason (s1\<lparr>ss_state := Closed\<rparr>))"
  using assms
  by (auto simp: closed_once_def finish_close_def session_emit_def with_registry_def closed_events_def
      is_closed_event_def reg_remove_def)

lemma mark_closed_once: "ss_state s = Active \<Longrightarrow> closed_once s (mark_closed reason s)"
proof -
  assume a: "ss_state s = Active"
  have eq: "s\<lparr>ss_state := Closed, ss_manager := shutdown_all (ss_manager s)\<rparr>
            = (s\<lparr>ss_manager := shutdown_all (ss_manager s)\<rparr>)\<lparr>ss_state := Closed\<rparr>" by simp
  have "mark_closed reason s = finish_close reason ((s\<lparr>ss_manager := shutdown_all (ss_manager s)\<rparr>)\<lparr>ss_state := Closed\<rparr>)"
    using a unfolding mark_closed_def eq by (simp add: is_terminal_def)
  then show ?thesis
    by (simp add: finish_closed_once closed_events_def shutdown_all_def)
qed

lemma close_for_peer_once: "ss_state s = Active \<Longrightarrow> closed_once s (close_for_peer reason s)"
  using begin_shutdown_life[of s]
  by (simp add: close_for_peer_def is_terminal_def Let_def finish_closed_once closed_events_def drain_all_def)

lemma close_gracefully_once: "ss_state s = Active \<Longrightarrow> closed_once s (close_gracefully P J send s)"
proof -
  assume a: "ss_state s = Active"
  let ?s1 = "snd (session_send P J send (Shutdown ''local close'') (begin_shutdown s))"
  have "closed_events ?s1 = closed_events s" "ss_id ?s1 = ss_id s"
    using same_life_send[of "begin_shutdown s" P J send] begin_shutdown_life[of s] by (simp_all add: same_life_def)
  then show ?thesis using a
    by (simp add: close_gracefully_def is_terminal_def Let_def finish_closed_once closed_events_def shutdown_all_def)
qed

lemma route_control_life:
  assumes "route_control P J rx frame s = (fl, s')" "ss_state s = Active"
  shows "case fl of Continue \<Rightarrow> same_life s s' | Flow_Closed \<Rightarrow> closed_once s s'"
  using assms
  by (auto simp: route_control_def close_for_peer_once mark_closed_once session_emit_def
      split: sum.splits control_message.splits if_splits)
     (simp add: same_life_def closed_events_def queue_out_def is_closed_event_def)

lemma handle_command_life:
  assumes "handle_command P J send cmd s = (fl, s')" "ss_state s = Active"
  shows "case fl of Continue \<Rightarrow> same_life s s' | Flow_Closed \<Rightarrow> closed_once s s'"
  using assms
  by (auto simp: handle_command_def close_gracefully_once split: session_command.splits sum.splits prod.splits)

text \<open>A session that has just lost its transport, with what it left to resume from.\<close>

definition lost_session :: "peer_session \<Rightarrow> preserved_session \<Rightarrow> peer_session \<Rightarrow> bool" where
  "lost_session s p s' = (ss_state s' = Recovering \<and> closed_events s' = closed_events s
     \<and> ps_session_id p = ss_id s \<and> ps_local p = ss_local s \<and> ps_peer p = ss_peer s \<and> ps_role p = ss_role s
     \<and> ps_version p = ss_version s \<and> ps_capabilities p = ss_capabilities s \<and> ps_consumed_epoch p = ss_consumed_epoch s)"

definition life_result :: "peer_session \<Rightarrow> run_exit option \<Rightarrow> peer_session \<Rightarrow> bool" where
  "life_result s x s' = (case x of None \<Rightarrow> same_life s s' | Some X_Closed \<Rightarrow> closed_once s s' | Some (X_Lost p) \<Rightarrow> lost_session s p s')"

lemma life_result_trans: "same_life s s1 \<Longrightarrow> life_result s1 x s' \<Longrightarrow> life_result s x s'"
  by (auto simp: life_result_def same_life_def closed_once_def lost_session_def split: option.splits run_exit.splits)

lemma life_result_None [simp]: "life_result s None s' = same_life s s'"
  by (simp add: life_result_def)

lemma life_result_Closed [simp]: "life_result s (Some X_Closed) s' = closed_once s s'"
  by (simp add: life_result_def)

lemma same_life_active: "same_life s s1 \<Longrightarrow> ss_state s = Active \<Longrightarrow> ss_state s1 = Active"
  by (simp add: same_life_def)

lemma capture_loss_life:
  assumes "ss_state s = Active" "capture_loss s = (x, s')"
  shows "life_result s (Some x) s'"
  using assms
  by (auto simp: capture_loss_def Let_def lost_session_def preserve_def can_transition_to_def life_result_def
      with_registry_def closed_events_def)

lemma flush_out_life:
  "ss_state s = Active \<Longrightarrow> flush_out P J send msgs s = (x, s') \<Longrightarrow> life_result s x s'"
proof (induction msgs arbitrary: s)
  case (Cons msg msgs)
  obtain r s2 where sd: "session_send P J send msg (s\<lparr>ss_control_out := msgs\<rparr>) = (r, s2)" by fastforce
  have life: "same_life s s2"
    using same_life_send[of "s\<lparr>ss_control_out := msgs\<rparr>" P J send msg] sd same_life_updates(2)[of s msgs]
    by (metis same_life_trans snd_conv)
  note act = same_life_active[OF life Cons.prems(1)]
  show ?case
  proof (cases r)
    case (Inl e)
    then obtain y where "capture_loss s2 = (y, s')" "x = Some y"
      using Cons.prems(2) sd by (auto split: prod.splits)
    then show ?thesis using life_result_trans[OF life] capture_loss_life[OF act] by blast
  next
    case (Inr u)
    then have "flush_out P J send msgs s2 = (x, s')" using Cons.prems(2) sd by simp
    then show ?thesis using life_result_trans[OF life Cons.IH[OF act]] by blast
  qed
qed auto

lemma on_wake_life:
  assumes act: "ss_state s = Active" and w: "on_wake P J send rx now w s = (x, s')"
  shows "life_result s x s'"
proof (cases w)
  case (W_Control r)
  let ?r = "rbind (lift_link r) (recv_session_frame P (ss_crypto s))"
  show ?thesis
  proof (cases "\<exists>frame cc. ?r = Inr (Some frame, cc)")
    case True
    then obtain frame cc where f: "?r = Inr (Some frame, cc)" by blast
    let ?s = "s\<lparr>ss_crypto := cc, ss_keepalive := on_activity now (ss_keepalive s), ss_manager := confirm_link_alive (ss_manager s)\<rparr>"
    obtain fl s2 where rc: "route_control P J rx frame ?s = (fl, s2)" by fastforce
    have life: "same_life s ?s" by (simp add: same_life_def closed_events_def)
    have "life_result ?s x s'"
      using w W_Control f rc route_control_life[OF rc] act by (auto simp: on_wake_def Let_def split: flow.splits)
    then show ?thesis by (rule life_result_trans[OF life])
  next
    case False
    then obtain y where "capture_loss s = (y, s')" "x = Some y"
      using w W_Control by (auto simp: on_wake_def split: sum.splits prod.splits option.splits)
    then show ?thesis using capture_loss_life[OF act] by blast
  qed
next
  case (W_Command c)
  then show ?thesis using w act handle_command_life
    by (fastforce simp: on_wake_def split: option.splits prod.splits flow.splits)
next
  case W_Tick
  have "same_life s ((send_ping s)\<lparr>ss_keepalive := k\<rparr>)" for k
    using same_life_trans[OF same_life_ping same_life_updates(5)] .
  then show ?thesis using w W_Tick act
    by (auto simp: on_wake_def Let_def mark_closed_once split: keepalive_action.splits)
qed (use w in \<open>auto simp: on_wake_def split: sum.splits option.splits\<close>)

text \<open>
  C7. The pump keeps the lifecycle. From \<open>Active\<close>, whatever wakes the pump up - any control
  frame, any local command, an accepted stream, a dead actor, a tick, a failing link - either it
  goes on \<open>Active\<close> with its identity unchanged and no close reported; or it exits closed, with
  exactly one \<open>Closed\<close> event, no channel left, not accepting, and no entry of its own in the
  registry; or it exits lost, in \<open>Recovering\<close>, having reported no close and handing on its
  identity, version and capabilities. Each is a legal move of the lifecycle graph.
\<close>

theorem pump_keeps_lifecycle:
  assumes "ss_state s = Active" "pump P J send rx now w s = (x, s')"
  shows "(case x of None \<Rightarrow> same_life s s'
          | Some X_Closed \<Rightarrow> closed_once s s' \<and> can_transition_to Active Closed
              \<and> can_transition_to Active ShuttingDown \<and> can_transition_to ShuttingDown Closed
          | Some (X_Lost p) \<Rightarrow> lost_session s p s' \<and> can_transition_to Active Recovering)"
proof -
  obtain y s1 where fl: "flush_out P J send (ss_control_out s) s = (y, s1)" by fastforce
  have "life_result s x s'"
  proof (cases y)
    case None
    then have life: "same_life s s1" using flush_out_life[OF assms(1) fl] by simp
    have act: "ss_state s1 = Active" by (rule same_life_active[OF life assms(1)])
    then have "on_wake P J send rx now w s1 = (x, s')"
      using assms(2) fl None by (simp add: pump_def is_terminal_def)
    then show ?thesis using life_result_trans[OF life on_wake_life[OF act]] by blast
  next
    case (Some z)
    then show ?thesis using assms fl flush_out_life[OF assms(1) fl] by (simp add: pump_def)
  qed
  then show ?thesis by (auto simp: life_result_def can_transition_to_def split: option.splits run_exit.splits)
qed

section \<open>The session drives its manager only through the manager's operations\<close>

abbreviation cm_steps :: "prims \<Rightarrow> peer_session \<Rightarrow> peer_session \<Rightarrow> bool" where
  "cm_steps P s s' \<equiv> (cm_step P)\<^sup>*\<^sup>* (ss_manager s) (ss_manager s')"

lemma ss_manager_simps [simp]:
  "ss_manager (queue_out out s) = ss_manager s" "ss_manager (answer r s) = ss_manager s"
  "ss_manager (session_emit e s) = ss_manager s" "ss_manager (with_registry f s) = ss_manager s"
  "ss_manager (finish_close reason s) = ss_manager s" "ss_manager (send_ping s) = ss_manager s"
  "ss_manager (begin_shutdown s) = ss_manager s"
  by (simp_all add: queue_out_def answer_def session_emit_def with_registry_def finish_close_def send_ping_def
      begin_shutdown_def Let_def)

lemma ss_manager_send [simp]: "ss_manager (snd (session_send P J send msg s)) = ss_manager s"
  by (auto simp: session_send_def Let_def split: prod.split sum.split)

lemma ss_manager_on_manager [simp]: "ss_manager (on_manager f s) = fst (f (ss_manager s))"
  by (simp add: on_manager_def split: prod.split)

lemma close_channel_fst [simp]:
  "fst (case close_channel c m of (m, out) \<Rightarrow> (m, case out of Some msg \<Rightarrow> [msg] | None \<Rightarrow> [])) = fst (close_channel c m)"
  by (simp split: prod.split)

lemma stop_steps: "(cm_step P)\<^sup>*\<^sup>* m (shutdown_all m)" "(cm_step P)\<^sup>*\<^sup>* m (drain_all m)"
  by (simp_all add: shutdown_all_def drain_all_def r_into_rtranclp step_stop)

lemma mark_closed_steps: "cm_steps P s (mark_closed reason s)"
  by (simp add: mark_closed_def stop_steps)

lemma close_steps: "cm_steps P s (close_gracefully P J send s)" "cm_steps P s (close_for_peer reason s)"
  by (simp_all add: close_gracefully_def close_for_peer_def Let_def stop_steps)

lemma capture_loss_steps: "capture_loss s = (x, s') \<Longrightarrow> cm_steps P s s'"
  by (auto simp: capture_loss_def Let_def stop_steps split: if_splits)

lemma one_step: "cm_step P m m' \<Longrightarrow> (cm_step P)\<^sup>*\<^sup>* m m'"
  by (rule r_into_rtranclp)

lemmas cm_step_rules = one_step[OF step_open] one_step[OF step_open_stream] one_step[OF step_peer_open]
  one_step[OF step_stream] one_step[OF step_accept] one_step[OF step_reject] one_step[OF step_close]
  one_step[OF step_closed] one_step[OF step_error] one_step[OF step_local_close]
  one_step[OF step_actor] one_step[OF step_send] one_step[OF step_alive]

lemma route_control_steps: "route_control P J rx frame s = (fl, s') \<Longrightarrow> cm_steps P s s'"
  by (auto simp: route_control_def mark_closed_steps close_steps
      intro: cm_step_rules split: sum.splits control_message.splits if_splits)

lemma handle_command_steps:
  assumes "handle_command P J send cmd s = (fl, s')"
  shows "cm_steps P s s'"
proof (cases cmd)
  case (C_OpenChannel ty stream)
  then have "ss_manager s' = snd (open_channel P stream ty (ss_manager s))"
    using assms by (auto simp: handle_command_def split: prod.splits sum.splits)
  then show ?thesis by (simp add: cm_step_rules)
next
  case (C_OpenStreamChannel ty stream)
  then have "ss_manager s' = snd (open_stream_channel P stream ty (ss_manager s))"
    using assms by (auto simp: handle_command_def split: prod.splits sum.splits)
  then show ?thesis by (simp add: cm_step_rules)
next
  case (C_SendOnChannel c mt fl payload alive)
  then have "ss_manager s' = snd (send_on_channel alive c mt fl payload (ss_manager s))"
    using assms by (auto simp: handle_command_def split: prod.splits)
  then show ?thesis by (simp add: cm_step_rules)
qed (use assms in \<open>auto simp: handle_command_def close_steps intro: cm_step_rules\<close>)

lemma flush_out_steps: "flush_out P J send msgs s = (x, s') \<Longrightarrow> cm_steps P s s'"
proof (induction msgs arbitrary: s)
  case (Cons msg msgs)
  obtain r s2 where sd: "session_send P J send msg (s\<lparr>ss_control_out := msgs\<rparr>) = (r, s2)" by fastforce
  then have m: "ss_manager s2 = ss_manager s" using ss_manager_send[of P J send msg "s\<lparr>ss_control_out := msgs\<rparr>"] by simp
  show ?case
  proof (cases r)
    case (Inl e)
    then show ?thesis using Cons.prems sd m capture_loss_steps[of s2 _ s' P] by (auto split: prod.splits)
  next
    case (Inr u)
    then show ?thesis using Cons.prems sd m Cons.IH[of s2] by simp
  qed
qed auto

lemma on_wake_steps:
  assumes w: "on_wake P J send rx now w s = (x, s')"
  shows "cm_steps P s s'"
proof (cases w)
  case (W_Control r)
  let ?r = "rbind (lift_link r) (recv_session_frame P (ss_crypto s))"
  show ?thesis
  proof (cases "\<exists>frame cc. ?r = Inr (Some frame, cc)")
    case True
    then obtain frame cc where f: "?r = Inr (Some frame, cc)" by blast
    let ?s = "s\<lparr>ss_crypto := cc, ss_keepalive := on_activity now (ss_keepalive s), ss_manager := confirm_link_alive (ss_manager s)\<rparr>"
    obtain fl where rc: "route_control P J rx frame ?s = (fl, s')"
      using w W_Control f by (auto simp: on_wake_def Let_def split: prod.splits flow.splits)
    have "cm_steps P s ?s" by (simp add: cm_step_rules)
    then show ?thesis using route_control_steps[OF rc] by (rule rtranclp_trans)
  next
    case False
    then obtain y where "capture_loss s = (y, s')"
      using w W_Control by (auto simp: on_wake_def split: sum.splits prod.splits option.splits)
    then show ?thesis by (rule capture_loss_steps)
  qed
next
  case (W_Command c)
  then show ?thesis using w handle_command_steps
    by (fastforce simp: on_wake_def split: option.splits prod.splits flow.splits)
next
  case W_Tick
  then show ?thesis using w
    by (auto simp: on_wake_def Let_def mark_closed_steps split: keepalive_action.splits)
qed (use w in \<open>auto simp: on_wake_def intro: cm_step_rules split: sum.splits option.splits\<close>)

lemma pump_steps: "pump P J send rx now w s = (x, s') \<Longrightarrow> cm_steps P s s'"
  by (auto simp: pump_def split: prod.splits option.splits if_splits
      dest!: flush_out_steps on_wake_steps intro: rtranclp_trans)

text \<open>Any number of pump iterations.\<close>

inductive pumps :: "prims \<Rightarrow> json \<Rightarrow> peer_session \<Rightarrow> peer_session \<Rightarrow> bool" for P J where
  pumps_refl: "pumps P J s s"
| pumps_step: "pumps P J s s1 \<Longrightarrow> pump P J send rx now w s1 = (x, s') \<Longrightarrow> pumps P J s s'"

lemma pumps_steps: "pumps P J s s' \<Longrightarrow> cm_steps P s s'"
  by (induction rule: pumps.induct) (auto dest: pump_steps intro: rtranclp_trans)


section \<open>Keepalive and control replies\<close>

text \<open>
  The keepalive schedule: the peer is declared dead exactly when it has been silent for the
  idle timeout; a ping is due exactly when it has been silent for the interval and no ping was
  sent within the interval; so right after a ping no other is sent within the interval, and
  right after any frame neither ping nor timeout is due before the interval has passed.
\<close>

lemma keepalive_schedule:
  "(due k now = KTimeout \<longleftrightarrow> ka_last_activity k + ka_idle_timeout (ka_config k) \<le> now \<or> ka_idle_timeout (ka_config k) = 0)
   \<and> (due k now = KSendPing \<longleftrightarrow> due k now \<noteq> KTimeout
        \<and> (ka_interval (ka_config k) = 0 \<or> ka_last_activity k + ka_interval (ka_config k) \<le> now)
        \<and> (\<forall>sent. ka_last_ping k = Some sent \<longrightarrow> ka_interval (ka_config k) \<le> now - sent))
   \<and> (t0 \<le> now \<and> now < t0 + ka_interval (ka_config k) \<longrightarrow> due (on_ping_sent t0 k) now \<noteq> KSendPing)
   \<and> (t0 \<le> now \<and> now < t0 + ka_interval (ka_config k) \<and> ka_interval (ka_config k) \<le> ka_idle_timeout (ka_config k)
        \<longrightarrow> due (on_activity t0 k) now = KIdle)"
  by (auto simp: due_def Let_def on_ping_sent_def on_activity_def split: option.splits)

lemma keepalive_schedule_witness:
  "due (on_ping_sent 20000 (keepalive_new keepalive_default 0)) 30000 \<noteq> KSendPing
   \<and> due (on_activity 20000 (keepalive_new keepalive_default 0)) 30000 = KIdle"
  using keepalive_schedule[of "keepalive_new keepalive_default 0" 30000 20000]
  by (simp add: keepalive_new_def keepalive_default_def)

text \<open>
  What the pump answers: a frame of an unknown type, or with a body that does not decode, is
  answered with exactly one \<open>Unsupported\<close> naming the type - or, if flagged optional, with
  nothing - and changes nothing else; a ping is answered with a pong carrying its nonce; stray
  handshake and resume messages are ignored. None of these ends the session.
\<close>

lemma control_replies:
  "(from_frame J f = Inl e \<longrightarrow> route_control P J rx f s =
      (Continue, if is_optional (sf_flags f) then s
                 else s\<lparr>ss_control_out := ss_control_out s @ [Unsupported (sf_message_type f)]\<rparr>))
   \<and> (from_frame J f = Inr (Ping n) \<longrightarrow> route_control P J rx f s =
      (Continue, s\<lparr>ss_events := ss_events s @ [SE_PingReceived (ss_id s)], ss_control_out := ss_control_out s @ [Pong n]\<rparr>))
   \<and> (from_frame J f \<in> {Inr (Hello h), Inr (Pong n), Inr (Unsupported mt), Inr (ResumeRequest tok), Inr (ResumeAck a r)}
        \<longrightarrow> route_control P J rx f s = (Continue, s))"
  by (auto simp: route_control_def queue_out_def session_emit_def)

lemma control_replies_witness:
  "route_control toy_prims toy_J True \<lparr>sf_channel = 0, sf_message_type = 99, sf_flags = FLAG_NONE, sf_payload = []\<rparr>
     (assemble Initiator [] ''a'' ''b'' VERSION_CURRENT [] (ps_crypto (toy_ps True)) toy_cc (session_config_new []) None 0 0)
   = (Continue, (assemble Initiator [] ''a'' ''b'' VERSION_CURRENT [] (ps_crypto (toy_ps True)) toy_cc (session_config_new []) None 0 0)
        \<lparr>ss_control_out := [Unsupported 99]\<rparr>)"
proof -
  let ?f = "\<lparr>sf_channel = 0, sf_message_type = 99, sf_flags = FLAG_NONE, sf_payload = []\<rparr>"
  let ?s = "assemble Initiator [] ''a'' ''b'' VERSION_CURRENT [] (ps_crypto (toy_ps True)) toy_cc (session_config_new []) None 0 0"
  have "from_frame toy_J ?f = Inl (FrameDecode (''unknown control message type '' @ show_nat 99))"
    by (simp add: from_frame_def Let_def control_ids)
  moreover have "ss_control_out ?s = []" by (simp add: assemble_def Let_def session_emit_def with_registry_def)
  ultimately show ?thesis using control_replies[of toy_J ?f _ toy_prims True ?s]
    by (simp add: is_optional_def flags_contains_def FLAG_NONE_def FLAG_OPTIONAL_def)
qed

section \<open>Opening\<close>

text \<open>A control message over a matched pair of contexts, in both directions.\<close>

lemma control_delivery:
  assumes P: "gcm_ok P" "\<forall>k n p. gcm_encrypt P k n p \<noteq> None" and J: "json_ok J" "hello_ok m"
    and f: "to_frame J m = Inr f" "length (sf_payload f) < 2 ^ 32" and up: "\<forall>bs. send bs = Inr ()"
    and ab: "paired a b" and c0: "send_ctr a = 0"
  shows "\<exists>w. send_control P J send a m = ([w], Inr (a\<lparr>send_ctr := 1\<rparr>))
    \<and> recv_session_frame P b (Some w) = Inr (Some f, b\<lparr>recv_ctr := 1\<rparr>) \<and> from_frame J f = Inr m"
proof -
  obtain ct where ct: "gcm_encrypt P (send_key a) (nonce (send_prefix a) (send_ctr a)) (frame_encode f) = Some ct"
    using P(2) by blast
  have b: "recv_key b = send_key a" "recv_prefix b = send_prefix a" "recv_ctr b = 0" "length (recv_prefix b) = 4"
    using ab c0 by (auto simp: paired_def)
  have "cc_open P b (nonce (send_prefix a) (send_ctr a) @ ct) = Inr (frame_encode f, b\<lparr>recv_ctr := 1\<rparr>)"
    using ct c0 b by (simp add: cc_open_Inr[OF P(1) b(4)] checked_add_def)
  then have "recv_session_frame P b (Some (nonce (send_prefix a) (send_ctr a) @ ct)) = Inr (Some f, b\<lparr>recv_ctr := 1\<rparr>)"
    using frame_decode_encode[OF f(2)] by (simp add: recv_session_frame_def)
  moreover have "send_control P J send a m = ([nonce (send_prefix a) (send_ctr a) @ ct], Inr (a\<lparr>send_ctr := 1\<rparr>))"
    by (rule send_control_ok[OF f(1) ct _ c0]) (simp add: up)
  ultimately show ?thesis using from_to_frame[OF J f(1)] by blast
qed

definition auth_mirror :: "auth_session \<Rightarrow> auth_session \<Rightarrow> bool" where
  "auth_mirror a b = (as_send_key a = as_recv_key b \<and> as_recv_key a = as_send_key b)"

definition hello_frame_ok :: "json \<Rightarrow> session_config \<Rightarrow> session_id \<Rightarrow> bool" where
  "hello_frame_ok J config sid = (caps_ok (sg_capabilities config)
     \<and> (\<exists>f. to_frame J (our_hello config sid) = Inr f \<and> length (sf_payload f) < 2 ^ 32))"

lemma session_open_mirrored:
  assumes P: "hmac_len P" "gcm_ok P" "\<forall>k n p. gcm_encrypt P k n p \<noteq> None" and J: "json_ok J" and up: "\<forall>bs. send bs = Inr ()"
    and keys: "auth_mirror aa ab" and hi: "hello_frame_ok J ca fresh" "hello_frame_ok J cb fresh"
  shows "\<exists>wa wb ra rb.
      session_open P J send Initiator ca la aa rega fresh (Inr (Some wb)) ta = ([wa], ra)
    \<and> session_open P J send Responder cb lb ab regb other (Inr (Some wa)) tb = ([wb], rb)
    \<and> (if major (sg_version ca) = major (sg_version cb)
       then \<exists>sa sb. ra = Inr sa \<and> rb = Inr sb \<and> ss_id sa = fresh \<and> ss_id sb = fresh
              \<and> ss_state sa = Active \<and> ss_state sb = Active \<and> ss_version sa = ss_version sb
              \<and> ss_capabilities sa = ss_capabilities sb
              \<and> paired (ss_crypto sa) (ss_crypto sb) \<and> paired (ss_crypto sb) (ss_crypto sa)
       else ra = Inl (VersionIncompatible (sg_version ca) (sg_version cb))
            \<and> rb = Inl (VersionIncompatible (sg_version cb) (sg_version ca)))"
proof -
  have mir: "sc_mirror (from_session aa Initiator) (from_session ab Responder)"
    using keys by (simp add: sc_mirror_def from_session_def auth_mirror_def)
  obtain xa xb
    where d: "control_crypto P (from_session aa Initiator) = Inr xa" "control_crypto P (from_session ab Responder) = Inr xb"
    "paired xa xb" "paired xb xa" "send_ctr xa = 0" "recv_ctr xa = 0"
    unfolding control_crypto_def using derive_mirrored[OF P(1) mir] by blast
  obtain fa where fa: "to_frame J (our_hello ca fresh) = Inr fa" "length (sf_payload fa) < 2 ^ 32" "caps_ok (sg_capabilities ca)"
    using hi(1) by (auto simp: hello_frame_ok_def)
  obtain fb where fb: "to_frame J (our_hello cb fresh) = Inr fb" "length (sf_payload fb) < 2 ^ 32" "caps_ok (sg_capabilities cb)"
    using hi(2) by (auto simp: hello_frame_ok_def)
  have hok: "hello_ok (our_hello ca fresh)" "hello_ok (our_hello cb fresh)"
    using fa fb by (simp_all add: hello_ok_def our_hello_def)
  obtain wa where wa: "send_control P J send xa (our_hello ca fresh) = ([wa], Inr (xa\<lparr>send_ctr := 1\<rparr>))"
    "recv_session_frame P xb (Some wa) = Inr (Some fa, xb\<lparr>recv_ctr := 1\<rparr>)" "from_frame J fa = Inr (our_hello ca fresh)"
    using control_delivery[OF P(2,3) J hok(1) fa(1,2) up d(3,5)] by blast
  have bk: "paired (xb\<lparr>recv_ctr := 1\<rparr>) (xa\<lparr>send_ctr := 1\<rparr>)" "send_ctr (xb\<lparr>recv_ctr := 1\<rparr>) = 0"
    using d(3-6) by (auto simp: paired_def)
  obtain wb where wb: "send_control P J send (xb\<lparr>recv_ctr := 1\<rparr>) (our_hello cb fresh) = ([wb], Inr ((xb\<lparr>recv_ctr := 1\<rparr>)\<lparr>send_ctr := 1\<rparr>))"
    "recv_session_frame P (xa\<lparr>send_ctr := 1\<rparr>) (Some wb) = Inr (Some fb, (xa\<lparr>send_ctr := 1\<rparr>)\<lparr>recv_ctr := 1\<rparr>)"
    "from_frame J fb = Inr (our_hello cb fresh)"
    using control_delivery[OF P(2,3) J hok(2) fb(1,2) up bk] by blast
  let ?ha = "\<lparr>sh_version = sg_version ca, sh_capabilities = sg_capabilities ca, sh_session_id = fresh\<rparr>"
  let ?hb = "\<lparr>sh_version = sg_version cb, sh_capabilities = sg_capabilities cb, sh_session_id = fresh\<rparr>"
  have ha: "our_hello ca fresh = Hello ?ha" and hb: "our_hello cb fresh = Hello ?hb" by (simp_all add: our_hello_def)
  have exa: "exchange_hellos P J send Initiator ca fresh (Inr (Some wb)) xa = ([wa], Inr (fresh, ?hb, xa\<lparr>send_ctr := 1, recv_ctr := 1\<rparr>))"
    using wa(1) wb(2,3) hb by (simp add: exchange_hellos_def lift_link_def recv_hello_def)
  have exb: "exchange_hellos P J send Responder cb other (Inr (Some wa)) xb = ([wb], Inr (fresh, ?ha, xb\<lparr>recv_ctr := 1, send_ctr := 1\<rparr>))"
    using wa(2,3) wb(1) ha by (simp add: exchange_hellos_def lift_link_def recv_hello_def)
  have caps: "cap_intersect (sg_capabilities ca) (sg_capabilities cb) = cap_intersect (sg_capabilities cb) (sg_capabilities ca)"
    by (rule cap_intersect_commute[OF fa(3) fb(3)])
  have pr: "paired (xa\<lparr>send_ctr := 1, recv_ctr := 1\<rparr>) (xb\<lparr>recv_ctr := 1, send_ctr := 1\<rparr>)"
    "paired (xb\<lparr>recv_ctr := 1, send_ctr := 1\<rparr>) (xa\<lparr>send_ctr := 1, recv_ctr := 1\<rparr>)"
    using d(3,4) by (auto simp: paired_def)
  show ?thesis
  proof (intro exI conjI)
    show "session_open P J send Initiator ca la aa rega fresh (Inr (Some wb)) ta = ([wa], snd (session_open P J send Initiator ca la aa rega fresh (Inr (Some wb)) ta))"
      by (simp add: session_open_def Let_def d(1) exa)
    show "session_open P J send Responder cb lb ab regb other (Inr (Some wa)) tb = ([wb], snd (session_open P J send Responder cb lb ab regb other (Inr (Some wa)) tb))"
      by (simp add: session_open_def Let_def d(2) exb)
    show "if major (sg_version ca) = major (sg_version cb)
       then \<exists>sa sb. snd (session_open P J send Initiator ca la aa rega fresh (Inr (Some wb)) ta) = Inr sa
              \<and> snd (session_open P J send Responder cb lb ab regb other (Inr (Some wa)) tb) = Inr sb
              \<and> ss_id sa = fresh \<and> ss_id sb = fresh
              \<and> ss_state sa = Active \<and> ss_state sb = Active \<and> ss_version sa = ss_version sb
              \<and> ss_capabilities sa = ss_capabilities sb
              \<and> paired (ss_crypto sa) (ss_crypto sb) \<and> paired (ss_crypto sb) (ss_crypto sa)
       else snd (session_open P J send Initiator ca la aa rega fresh (Inr (Some wb)) ta) = Inl (VersionIncompatible (sg_version ca) (sg_version cb))
            \<and> snd (session_open P J send Responder cb lb ab regb other (Inr (Some wa)) tb) = Inl (VersionIncompatible (sg_version cb) (sg_version ca))"
      using pr caps
      by (simp add: session_open_def Let_def d(1,2) exa exb negotiate_version_def assemble_def session_emit_def
          with_registry_def min.commute)
  qed
qed

text \<open>
  Opening a session: two peers with mirrored handshake keys that exchange hellos over a
  working link both succeed when their major versions agree - with the initiator's session id,
  the same negotiated version and the same capability set on both sides, both \<open>Active\<close> - and
  both fail with a version error otherwise.
\<close>

lemma session_open_agrees:
  assumes P: "hmac_len P" "gcm_ok P" "\<forall>k n p. gcm_encrypt P k n p \<noteq> None" and J: "json_ok J" and up: "\<forall>bs. send bs = Inr ()"
    and keys: "auth_mirror aa ab" and hi: "hello_frame_ok J ca fresh" "hello_frame_ok J cb fresh"
  shows "\<exists>wa wb ra rb.
      session_open P J send Initiator ca la aa rega fresh (Inr (Some wb)) ta = ([wa], ra)
    \<and> session_open P J send Responder cb lb ab regb other (Inr (Some wa)) tb = ([wb], rb)
    \<and> (if major (sg_version ca) = major (sg_version cb)
       then \<exists>sa sb. ra = Inr sa \<and> rb = Inr sb \<and> ss_id sa = fresh \<and> ss_id sb = fresh
              \<and> ss_state sa = Active \<and> ss_state sb = Active \<and> ss_version sa = ss_version sb
              \<and> ss_capabilities sa = ss_capabilities sb
              \<and> paired (ss_crypto sa) (ss_crypto sb) \<and> paired (ss_crypto sb) (ss_crypto sa)
       else ra = Inl (VersionIncompatible (sg_version ca) (sg_version cb))
            \<and> rb = Inl (VersionIncompatible (sg_version cb) (sg_version ca)))"
  by (rule session_open_mirrored[OF assms])

definition toy_config :: session_config where
  "toy_config = session_config_new []"

definition toy_hello_json :: json where
  "toy_hello_json = (toy_json (mint toy_prims [] (preserved_binding (toy_ps True)) 1 10 100))
     \<lparr>j_enc := (\<lambda>b. if b = BHello (sg_version toy_config) (sg_capabilities toy_config) [] then Inr [7] else Inl ''body''),
      j_hello := (\<lambda>_. Inr (sg_version toy_config, sg_capabilities toy_config, []))\<rparr>"

definition toy_auth :: "bool \<Rightarrow> auth_session" where
  "toy_auth ini = \<lparr>as_send_key = (if ini then [1] else [2]), as_recv_key = (if ini then [2] else [1]),
     as_send_prefix = [], as_recv_prefix = [], as_peer_id = (if ini then ''b'' else ''a''), as_peer_name = [],
     as_newly_trusted = True, as_pairing_code = [], as_transcript = []\<rparr>"

lemma toy_hello_frame: "hello_frame_ok toy_hello_json toy_config []"
proof -
  have c: "caps_ok (sg_capabilities toy_config)"
    by (simp add: toy_config_def session_config_new_def cap_insert_def binary_search_by_channel_def bsearch.simps caps_ok_def)
  have "to_frame toy_hello_json (our_hello toy_config []) =
    Inr \<lparr>sf_channel = CONTROL, sf_message_type = HELLO, sf_flags = FLAG_END_OF_MESSAGE, sf_payload = [7]\<rparr>"
    by (simp add: to_frame_def json_encode_def message_body_def message_type_of_def our_hello_def toy_hello_json_def)
  then show ?thesis using c by (auto simp: hello_frame_ok_def)
qed

lemma toy_hello_json_ok: "json_ok toy_hello_json"
  by (auto simp: json_ok_def toy_hello_json_def split: body.splits if_splits)

lemma session_open_agrees_witness:
  "\<exists>wa wb sa sb.
      session_open toy_prims toy_hello_json (\<lambda>_. Inr ()) Initiator toy_config ''a'' (toy_auth True) None [] (Inr (Some wb)) 0 = ([wa], Inr sa)
    \<and> session_open toy_prims toy_hello_json (\<lambda>_. Inr ()) Responder toy_config ''b'' (toy_auth False) None [] (Inr (Some wa)) 0 = ([wb], Inr sb)
    \<and> ss_id sa = ss_id sb \<and> ss_state sa = Active"
proof -
  have "auth_mirror (toy_auth True) (toy_auth False)" by (simp add: auth_mirror_def toy_auth_def)
  from session_open_agrees[OF toy_hmac toy_gcm toy_gcm_total toy_hello_json_ok _ this toy_hello_frame toy_hello_frame,
      where send = "\<lambda>_. Inr ()" and la = "''a''" and lb = "''b''" and rega = None and regb = None and ta = 0 and tb = 0 and other = "[]"]
  show ?thesis by simp (elim exE conjE, force)
qed

theorem pump_keeps_lifecycle_witness:
  "\<exists>x s'. pump toy_prims toy_J (\<lambda>_. Inr ()) True 0 (W_Command (Some C_Close))
      (assemble Initiator [] ''a'' ''b'' VERSION_CURRENT [] (ps_crypto (toy_ps True)) toy_cc toy_config None 0 0) = (Some X_Closed, s')
    \<and> ss_state s' = Closed"
proof -
  let ?s = "assemble Initiator [] ''a'' ''b'' VERSION_CURRENT [] (ps_crypto (toy_ps True)) toy_cc toy_config None 0 0"
  have a: "ss_state ?s = Active" and q: "ss_control_out ?s = []"
    by (simp_all add: assemble_def Let_def session_emit_def with_registry_def)
  let ?p = "pump toy_prims toy_J (\<lambda>_. Inr ()) True 0 (W_Command (Some C_Close)) ?s"
  have "fst ?p = Some X_Closed" using a q
    by (simp add: pump_def is_terminal_def on_wake_def handle_command_def split: prod.splits)
  then obtain s' where "?p = (Some X_Closed, s')" by (cases ?p) simp
  then show ?thesis using pump_keeps_lifecycle[OF a] by (fastforce simp: closed_once_def)
qed


section \<open>Re-attaching\<close>

lemma reopen_ok:
  assumes "hmac_len P" "supports (cm_negotiated m) ty" "length (cm_channels m) < cm_limit m" "cm_pending_opens m = []"
    and "om_inv (cm_channels m)"
  shows "\<exists>m'. reopen_channel P (Inr l) i ty m = (Inr (ChannelOpen i ty), m') \<and> om_inv (cm_channels m')
     \<and> length (cm_channels m') \<le> Suc (length (cm_channels m)) \<and> cm_limit m' = cm_limit m
     \<and> cm_negotiated m' = cm_negotiated m \<and> cm_pending_opens m' = []"
proof -
  obtain cc where cc: "derive P (cm_crypto m) i (cm_version m) = Inr cc" using derive_ok[OF assms(1)] by metis
  have p: "permit m ty = Inr ()" using assms(2-4) by (simp add: permit_def pending_accepts_def)
  have "length (om_insert i x (cm_channels m)) \<le> Suc (length (cm_channels m))" for x
    using om.size_ins_le[OF assms(5)] .
  then show ?thesis using p cc assms(4,5)
    by (simp add: reopen_channel_def Let_def insert_channel_def spawn_channel_def signal_def)
qed

lemma reattach_all:
  assumes "hmac_len P" "\<forall>n. streams n \<in> range Inr"
    and "\<forall>(i, ty) \<in> set cs. supports (cm_negotiated (ss_manager s)) ty"
    and "length (cm_channels (ss_manager s)) + length cs \<le> cm_limit (ss_manager s)" "cm_pending_opens (ss_manager s) = []"
    and "om_inv (cm_channels (ss_manager s))"
  shows "ss_control_out (reattach_channels P streams n cs s) = ss_control_out s @ map (\<lambda>(i, ty). ChannelOpen i ty) cs"
  using assms(3-6)
proof (induction cs arbitrary: n s)
  case (Cons c cs)
  obtain i ty where c: "c = (i, ty)" by (cases c)
  obtain l where l: "streams n = Inr l" using assms(2) by (metis rangeE)
  obtain m' where m': "reopen_channel P (Inr l) i ty (ss_manager s) = (Inr (ChannelOpen i ty), m')" "om_inv (cm_channels m')"
    "length (cm_channels m') \<le> Suc (length (cm_channels (ss_manager s)))" "cm_limit m' = cm_limit (ss_manager s)"
    "cm_negotiated m' = cm_negotiated (ss_manager s)" "cm_pending_opens m' = []"
    using reopen_ok[OF assms(1), of "ss_manager s" ty l i] Cons.prems c by auto
  have q: "ss_control_out (queue_out [ChannelOpen i ty] (s\<lparr>ss_manager := m'\<rparr>)) = ss_control_out s @ [ChannelOpen i ty]"
    by (simp add: queue_out_def)
  show ?case
    using Cons.IH[of "queue_out [ChannelOpen i ty] (s\<lparr>ss_manager := m'\<rparr>)" "Suc n"] Cons.prems m' c l q by simp
qed simp

lemma reattach_identity:
  "ss_id (reattach_channels P streams n cs s) = ss_id s \<and> ss_role (reattach_channels P streams n cs s) = ss_role s
   \<and> ss_peer (reattach_channels P streams n cs s) = ss_peer s \<and> ss_state (reattach_channels P streams n cs s) = ss_state s
   \<and> ss_version (reattach_channels P streams n cs s) = ss_version s
   \<and> ss_capabilities (reattach_channels P streams n cs s) = ss_capabilities s"
  by (induction cs arbitrary: n s) (simp_all add: queue_out_def split: prod.splits sum.splits)

text \<open>
  Resuming asks for every channel back: if a session was lost with some set of announced
  channels (no more than the limit, of negotiated types) and the redialling side's handshake
  succeeds over a transport that opens streams, the resumed session has the lost session's
  identity, version and capabilities, is \<open>Active\<close>, and queues one \<open>ChannelOpen\<close> per channel, with the original id and
  type, in order.
\<close>

lemma resume_reattaches_all:
  assumes "hmac_len P" "resume_finish P J cc received = Inr cc'" "\<forall>n. streams n \<in> range Inr"
    and "\<forall>(i, ty) \<in> set (ps_channels ps). supports (ps_capabilities ps) ty" "length (ps_channels ps) \<le> sg_channel_limit config"
  shows "\<exists>s. resume_session P J ps config registry sc cc received streams now = Inr s
     \<and> ss_control_out s = map (\<lambda>(i, ty). ChannelOpen i ty) (ps_channels ps)
     \<and> ss_state s = Active \<and> ss_id s = ps_session_id ps \<and> ss_role s = ps_role ps \<and> ss_peer s = ps_peer ps
     \<and> ss_version s = ps_version ps \<and> ss_capabilities s = ps_capabilities ps"
proof -
  let ?s = "resumed ps sc cc' config registry (ps_consumed_epoch ps) now"
  have "ss_control_out (reattach_channels P streams 0 (ps_channels ps) ?s)
      = ss_control_out ?s @ map (\<lambda>(i, ty). ChannelOpen i ty) (ps_channels ps)"
    by (rule reattach_all[OF assms(1,3)])
       (use assms(4,5) in \<open>simp_all add: resumed_def assemble_def Let_def manager_new_def\<close>)
  moreover have "ss_control_out ?s = [] \<and> ss_state ?s = Active \<and> ss_id ?s = ps_session_id ps \<and> ss_role ?s = ps_role ps
      \<and> ss_peer ?s = ps_peer ps \<and> ss_version ?s = ps_version ps \<and> ss_capabilities ?s = ps_capabilities ps"
    by (simp add: resumed_def assemble_def Let_def session_emit_def with_registry_def)
  ultimately show ?thesis using assms(2) by (simp add: resume_session_def reattach_identity)
qed

lemma resume_reattaches_all_witness:
  "\<exists>s. resume_session toy_prims toy_J ((toy_ps True)\<lparr>ps_channels := [(1, CT_CHAT)], ps_capabilities := [capability_new CT_CHAT]\<rparr>)
        toy_config None (ps_crypto (toy_ps True)) (from_keys [1] [2] [1, 2, 3, 4] [5, 6, 7, 8])
        (Some (frame_encode \<lparr>sf_channel = CONTROL, sf_message_type = RESUME_ACK, sf_flags = FLAG_END_OF_MESSAGE, sf_payload = [1]\<rparr>))
        (\<lambda>n. Inr n) 0 = Inr s
     \<and> ss_control_out s = [ChannelOpen 1 CT_CHAT]"
proof -
  let ?f = "\<lparr>sf_channel = CONTROL, sf_message_type = RESUME_ACK, sf_flags = FLAG_END_OF_MESSAGE, sf_payload = [1]\<rparr>"
  let ?cc = "from_keys [1] [2] [1, 2, 3, 4] [5, 6, 7, 8]"
  have "take 4 (frame_encode ?f) = [0, 0, 0, 0]" "\<not> length (frame_encode ?f) < 12"
    by (simp_all add: frame_encode_def CONTROL_def toy_ctr pb_bytes)
  then have "\<exists>e. cc_open toy_prims ?cc (frame_encode ?f) = Inl e" by (simp add: cc_open_def Let_def from_keys_def)
  then have r: "resume_finish toy_prims toy_J ?cc (Some (frame_encode ?f)) = Inr ?cc"
    using from_to_frame[OF toy_json_ok _ toy_ack] frame_decode_encode[of ?f]
    by (auto simp: resume_finish_def recv_resume_reply_def hello_ok_def reply_from_def)
  have "supports [capability_new CT_CHAT] CT_CHAT"
    by (simp add: supports_def cap_features_of_def binary_search_by_channel_def bsearch.simps capability_new_def)
  then show ?thesis
    using resume_reattaches_all[OF toy_hmac r, where streams = "\<lambda>n. Inr n" and config = toy_config and registry = None
        and now = 0 and sc = "ps_crypto (toy_ps True)"
        and ps = "(toy_ps True)\<lparr>ps_channels := [(1, CT_CHAT)], ps_capabilities := [capability_new CT_CHAT]\<rparr>"]
    by (simp add: toy_config_def session_config_new_def DEFAULT_CHANNEL_LIMIT_def) blast
qed

section \<open>The reconnect loop\<close>

text \<open>Outcomes that end the loop: a resumed session, or - for the redialling side - a refused token.\<close>

definition decisive :: "preserved_session \<Rightarrow> attempt \<Rightarrow> bool" where
  "decisive ps a = (case a of Resumed _ _ \<Rightarrow> True | Handshake_Error e \<Rightarrow> is_refusal e \<and> ps_role ps = Initiator | _ \<Rightarrow> False)"

definition outcome_at :: "(nat \<Rightarrow> u64 \<Rightarrow> attempt) \<Rightarrow> preserved_session \<Rightarrow> nat \<Rightarrow> attempt" where
  "outcome_at out ps n = out n (attempt_epoch ps n)"

lemma recover_loop_step:
  assumes "made < rc_max_attempts config" "\<not> decisive ps (outcome_at out ps (Suc made))"
  shows "recover_loop config out ps made r =
    recover_loop config out ps (Suc made)
      (r\<lparr>ry_stats := (ry_stats r)\<lparr>rs_attempts := rs_attempts (ry_stats r) + 1\<rparr>,
         ry_events := ry_events r @ [SE_Recovering (ps_session_id ps) (Suc made)]\<rparr>)"
  using assms
  by (subst recover_loop.simps)
     (auto simp: Let_def outcome_at_def decisive_def split: attempt.splits)

lemma recover_loop_exhausted:
  assumes "made = rc_max_attempts config"
  shows "recover_loop config out ps made r = (Inl (RecoveryExhausted (of_nat made)),
     give_up (ps_session_id ps) (''attempts exhausted after '' @ show_nat made) r)"
  using assms by (subst recover_loop.simps) (simp add: Let_def)

definition decided :: "preserved_session \<Rightarrow> nat \<Rightarrow> attempt \<Rightarrow> (session_error, unit) result \<Rightarrow> recovery \<Rightarrow> bool" where
  "decided ps n a res r' =
     (case a of
        Resumed s e \<Rightarrow> res = Inr () \<and> ry_session r' = Some s
          \<and> rs_epoch (ry_stats r') = (case ps_role ps of Initiator \<Rightarrow> attempt_epoch ps n | Responder \<Rightarrow> e)
      | Handshake_Error e \<Rightarrow> res = Inl e \<and> (\<forall>g. ry_registry r' = Some g \<longrightarrow> map_of g (ps_session_id ps) = None)
      | _ \<Rightarrow> False)"

lemma recover_loop_decided:
  assumes "made < rc_max_attempts config" "decisive ps (outcome_at out ps (Suc made))"
    and "recover_loop config out ps made r = (res, r')"
  shows "decided ps (Suc made) (outcome_at out ps (Suc made)) res r'
     \<and> rs_attempts (ry_stats r') = rs_attempts (ry_stats r) + 1"
  using assms(3,1,2)
  by (subst (asm) recover_loop.simps)
     (auto simp: Let_def outcome_at_def decisive_def decided_def give_up_def reg_remove_def split: attempt.splits)

lemma recover_loop_spec:
  assumes "recover_loop config out ps made r = (res, r')" "made \<le> rc_max_attempts config"
  shows "(\<exists>n. made < n \<and> n \<le> rc_max_attempts config \<and> (\<forall>k. made < k \<and> k < n \<longrightarrow> \<not> decisive ps (outcome_at out ps k))
           \<and> decisive ps (outcome_at out ps n) \<and> decided ps n (outcome_at out ps n) res r'
           \<and> rs_attempts (ry_stats r') = rs_attempts (ry_stats r) + (n - made))
    \<or> ((\<forall>k. made < k \<and> k \<le> rc_max_attempts config \<longrightarrow> \<not> decisive ps (outcome_at out ps k))
         \<and> res = Inl (RecoveryExhausted (of_nat (rc_max_attempts config)))
         \<and> (\<forall>g. ry_registry r' = Some g \<longrightarrow> map_of g (ps_session_id ps) = None)
         \<and> rs_attempts (ry_stats r') = rs_attempts (ry_stats r) + (rc_max_attempts config - made))"
  using assms
proof (induction "rc_max_attempts config - made" arbitrary: made r)
  case 0
  then have "made = rc_max_attempts config" by simp
  then show ?case using 0 recover_loop_exhausted[of made config out ps r] by (auto simp: give_up_def reg_remove_def)
next
  case (Suc d)
  then have lt: "made < rc_max_attempts config" by simp
  show ?case
  proof (cases "decisive ps (outcome_at out ps (Suc made))")
    case True
    then show ?thesis using recover_loop_decided[OF lt True Suc.prems(1)] lt by (intro disjI1 exI[of _ "Suc made"]) auto
  next
    case False
    let ?r = "r\<lparr>ry_stats := (ry_stats r)\<lparr>rs_attempts := rs_attempts (ry_stats r) + 1\<rparr>,
         ry_events := ry_events r @ [SE_Recovering (ps_session_id ps) (Suc made)]\<rparr>"
    have "recover_loop config out ps (Suc made) ?r = (res, r')" using Suc.prems(1) recover_loop_step[OF lt False] by simp
    moreover have "d = rc_max_attempts config - Suc made" using Suc.hyps(2) by simp
    ultimately have IH: "(\<exists>n. Suc made < n \<and> n \<le> rc_max_attempts config \<and> (\<forall>k. Suc made < k \<and> k < n \<longrightarrow> \<not> decisive ps (outcome_at out ps k))
           \<and> decisive ps (outcome_at out ps n) \<and> decided ps n (outcome_at out ps n) res r'
           \<and> rs_attempts (ry_stats r') = Suc (rs_attempts (ry_stats r)) + (n - Suc made))
      \<or> ((\<forall>k. Suc made < k \<and> k \<le> rc_max_attempts config \<longrightarrow> \<not> decisive ps (outcome_at out ps k))
         \<and> res = Inl (RecoveryExhausted (of_nat (rc_max_attempts config)))
         \<and> (\<forall>g. ry_registry r' = Some g \<longrightarrow> map_of g (ps_session_id ps) = None)
         \<and> rs_attempts (ry_stats r') = Suc (rs_attempts (ry_stats r)) + (rc_max_attempts config - Suc made))"
      using Suc.hyps(1)[of "Suc made" ?r] lt by simp
    have nd: "\<not> decisive ps (outcome_at out ps k)" if "made < k" "Suc made < k \<Longrightarrow> \<not> decisive ps (outcome_at out ps k)" for k
      using that False by (cases "k = Suc made") auto
    from IH show ?thesis
    proof
      assume "\<exists>n. Suc made < n \<and> n \<le> rc_max_attempts config \<and> (\<forall>k. Suc made < k \<and> k < n \<longrightarrow> \<not> decisive ps (outcome_at out ps k))
           \<and> decisive ps (outcome_at out ps n) \<and> decided ps n (outcome_at out ps n) res r'
           \<and> rs_attempts (ry_stats r') = Suc (rs_attempts (ry_stats r)) + (n - Suc made)"
      then obtain n where n: "Suc made < n" "n \<le> rc_max_attempts config" "\<forall>k. Suc made < k \<and> k < n \<longrightarrow> \<not> decisive ps (outcome_at out ps k)"
        "decisive ps (outcome_at out ps n)" "decided ps n (outcome_at out ps n) res r'"
        "rs_attempts (ry_stats r') = Suc (rs_attempts (ry_stats r)) + (n - Suc made)" by blast
      show ?thesis by (intro disjI1 exI[of _ n]) (use n nd in auto)
    next
      assume "(\<forall>k. Suc made < k \<and> k \<le> rc_max_attempts config \<longrightarrow> \<not> decisive ps (outcome_at out ps k))
         \<and> res = Inl (RecoveryExhausted (of_nat (rc_max_attempts config)))
         \<and> (\<forall>g. ry_registry r' = Some g \<longrightarrow> map_of g (ps_session_id ps) = None)
         \<and> rs_attempts (ry_stats r') = Suc (rs_attempts (ry_stats r)) + (rc_max_attempts config - Suc made)"
      then show ?thesis using nd lt by (intro disjI2) auto
    qed
  qed
qed



text \<open>
  Every attempt of one recovery uses its own epoch, strictly above the epoch of the lost
  session, as long as the 64-bit epoch does not overflow: no two attempts, and no attempt and
  the lost session, share channel keys' derivation label.
\<close>

lemma attempts_use_fresh_epochs:
  assumes "unat (sc_epoch (ps_crypto ps)) + rc_max_attempts config < 2 ^ 64" "1 \<le> i" "i < j" "j \<le> rc_max_attempts config"
  shows "sc_epoch (ps_crypto ps) < attempt_epoch ps i \<and> attempt_epoch ps i < attempt_epoch ps j
    \<and> info p c v d (attempt_epoch ps i) \<noteq> info p' c' v' d' (attempt_epoch ps j)
    \<and> info p c v d (sc_epoch (ps_crypto ps)) \<noteq> info p' c' v' d' (attempt_epoch ps i)"
proof -
  have u: "unat (attempt_epoch ps k) = unat (sc_epoch (ps_crypto ps)) + k" if "k \<le> rc_max_attempts config" for k
    unfolding attempt_epoch_def by (rule unat_ctr_offset) (use assms(1) that in simp)
  have "sc_epoch (ps_crypto ps) < attempt_epoch ps i" "attempt_epoch ps i < attempt_epoch ps j"
    using u[of i] u[of j] assms(2-4) by (simp_all add: word_less_nat_alt)
  then show ?thesis by (auto simp: info_inject)
qed

lemma attempts_use_fresh_epochs_witness:
  "sc_epoch (ps_crypto (toy_ps True)) < attempt_epoch (toy_ps True) 1 \<and> attempt_epoch (toy_ps True) 1 < attempt_epoch (toy_ps True) 2"
  using attempts_use_fresh_epochs[of "toy_ps True" "\<lparr>rc_max_attempts = 5, rc_backoff_base = 50, rc_token_ttl_ms = 30000\<rparr>" 1 2]
  by (simp add: toy_ps_def)

end
