(* ===== verification/PB_Trust.thy ===== *)
theory PB_Trust
  imports PB_Session_Types
begin

text \<open>
  Permissions and trust: \<open>peerbeam-domain/src/entity/permission.rs\<close> and \<open>entity/trust.rs\<close>, the
  questions of the trust port (\<open>port/trust.rs\<close>), and the file-backed store
  (\<open>peerbeam-trust-fs/src/lib.rs\<close>) as a cache beside a disk that other processes also write.

  The disk is the list of records its JSON file holds (\<open>None\<close> when there is no file); reading
  and writing may fail, which is an argument of each operation (\<open>io\<close>). Time stamps are integers.

  Shown here: the permission bits behave as a set and survive the file; a device may act only
  while it is approved and unexpired; the merge never widens what either copy grants; pins and
  marks grant nothing; a revocation is effective; and two ways in which a stale cache can bring
  a revoked grant back.
\<close>

section \<open>Permissions\<close>

datatype permission = Files | Chat | Clipboard | Presence | Pipe | Browse | Notes

definition PERMISSION_ALL :: "permission list" where
  "PERMISSION_ALL = [Files, Chat, Clipboard, Presence, Pipe, Notes, Browse]"

definition perm_slot :: "permission \<Rightarrow> nat" where
  "perm_slot p = (case p of Files \<Rightarrow> 0 | Chat \<Rightarrow> 1 | Clipboard \<Rightarrow> 2 | Presence \<Rightarrow> 3 | Pipe \<Rightarrow> 4 | Notes \<Rightarrow> 5 | Browse \<Rightarrow> 6)"

definition perm_mask :: "permission \<Rightarrow> u32" where
  "perm_mask p = push_bit (perm_slot p) 1"

definition perm_as_str :: "permission \<Rightarrow> string" where
  "perm_as_str p = (case p of Files \<Rightarrow> ''files'' | Chat \<Rightarrow> ''chat'' | Clipboard \<Rightarrow> ''clipboard''
     | Presence \<Rightarrow> ''presence'' | Pipe \<Rightarrow> ''pipe'' | Notes \<Rightarrow> ''notes'' | Browse \<Rightarrow> ''browse'')"

definition ascii_lower :: "char \<Rightarrow> char" where
  "ascii_lower c = (let n = of_char c :: nat in if 65 \<le> n \<and> n \<le> 90 then char_of (n + 32) else c)"

definition perm_parse :: "string \<Rightarrow> permission option" where
  "perm_parse name = find (\<lambda>p. map ascii_lower (perm_as_str p) = map ascii_lower name) PERMISSION_ALL"

type_synonym permission_set = u32

definition perms_none :: permission_set where
  "perms_none = 0"

definition granted_on_approval :: permission_set where
  "granted_on_approval = perm_mask Files OR perm_mask Chat OR perm_mask Clipboard OR perm_mask Presence OR perm_mask Pipe"

definition grants :: "permission_set \<Rightarrow> permission \<Rightarrow> bool" where
  "grants s p = (s AND perm_mask p \<noteq> 0)"

definition grants_slot :: "permission_set \<Rightarrow> nat \<Rightarrow> bool" where
  "grants_slot s slot = (slot < 32 \<and> s AND push_bit slot 1 \<noteq> 0)"

definition perm_set :: "permission_set \<Rightarrow> permission \<Rightarrow> bool \<Rightarrow> permission_set" where
  "perm_set s p granted = (if granted then s OR perm_mask p else s AND NOT (perm_mask p))"

definition perms_granted :: "permission_set \<Rightarrow> permission list" where
  "perms_granted s = filter (grants s) PERMISSION_ALL"

definition perms_intersect :: "permission_set \<Rightarrow> permission_set \<Rightarrow> permission_set" where
  "perms_intersect a b = a AND b"

text \<open>On disk a set is the list of its names; unknown names are ignored when reading.\<close>

definition perms_serialize :: "permission_set \<Rightarrow> string list" where
  "perms_serialize s = map perm_as_str (perms_granted s)"

definition perms_deserialize :: "string list \<Rightarrow> permission_set" where
  "perms_deserialize names =
     fold (\<lambda>name s. case perm_parse name of Some p \<Rightarrow> perm_set s p True | None \<Rightarrow> s) names perms_none"

section \<open>Records\<close>

record trust_record =
  tr_device :: device_id
  tr_fingerprint :: string
  tr_name :: string
  tr_trusted_at :: int
  tr_approved :: bool
  tr_permissions :: permission_set
  tr_expires_at :: "int option"
  tr_mine :: bool
  tr_auto_accept :: bool

definition has_expired :: "trust_record \<Rightarrow> int \<Rightarrow> bool" where
  "has_expired r now = (case tr_expires_at r of Some deadline \<Rightarrow> deadline \<le> now | None \<Rightarrow> False)"

definition is_approved_at :: "trust_record \<Rightarrow> int \<Rightarrow> bool" where
  "is_approved_at r now = (tr_approved r \<and> \<not> has_expired r now)"

definition effective_permissions_at :: "trust_record \<Rightarrow> int \<Rightarrow> permission_set" where
  "effective_permissions_at r now = (if is_approved_at r now then tr_permissions r else perms_none)"

section \<open>The store\<close>

type_synonym trust_cache = "(device_id, trust_record) omap"
type_synonym trust_disk = "trust_record list option"

record io =
  io_read_error :: "string option"
  io_write_error :: "string option"

record fs_trust =
  ft_cache :: trust_cache
  ft_disk :: trust_disk

definition read_records :: "io \<Rightarrow> trust_disk \<Rightarrow> (domain_error, trust_cache) result" where
  "read_records i d =
     (case io_read_error i of
        Some e \<Rightarrow> Inl (EStorage e)
      | None \<Rightarrow> Inr (case d of Some rs \<Rightarrow> om_collect (map (\<lambda>r. (tr_device r, r)) rs) | None \<Rightarrow> []))"

definition trust_open :: "io \<Rightarrow> trust_disk \<Rightarrow> (domain_error, fs_trust) result" where
  "trust_open i d = rbind (read_records i d) (\<lambda>c. Inr \<lparr>ft_cache = c, ft_disk = d\<rparr>)"

definition refresh_one :: "io \<Rightarrow> trust_disk \<Rightarrow> device_id \<Rightarrow> trust_cache \<Rightarrow> trust_cache" where
  "refresh_one i d dev cache =
     (case read_records i d of
        Inl _ \<Rightarrow> cache
      | Inr disk \<Rightarrow>
          (case map_of disk dev of
             Some fresh \<Rightarrow> om_insert dev fresh cache
           | None \<Rightarrow> om_remove dev cache))"

definition merge_expiry :: "int option \<Rightarrow> int option \<Rightarrow> int option" where
  "merge_expiry a b = (case (a, b) of
     (Some x, Some y) \<Rightarrow> Some (min x y) | (Some x, None) \<Rightarrow> Some x | (None, Some y) \<Rightarrow> Some y | (None, None) \<Rightarrow> None)"

definition merge_record :: "trust_record \<Rightarrow> trust_record \<Rightarrow> trust_record" where
  "merge_record loc disk =
     \<lparr>tr_device = tr_device disk, tr_fingerprint = tr_fingerprint disk,
      tr_name = (if tr_trusted_at loc \<le> tr_trusted_at disk then tr_name disk else tr_name loc),
      tr_trusted_at = min (tr_trusted_at loc) (tr_trusted_at disk),
      tr_approved = (tr_approved loc \<and> tr_approved disk),
      tr_permissions = perms_intersect (tr_permissions loc) (tr_permissions disk),
      tr_expires_at = merge_expiry (tr_expires_at loc) (tr_expires_at disk),
      tr_mine = (if tr_trusted_at loc \<le> tr_trusted_at disk then tr_mine disk else tr_mine loc),
      tr_auto_accept = (tr_auto_accept loc \<and> tr_auto_accept disk)\<rparr>"

definition merge_step :: "device_id list \<Rightarrow> device_id \<times> trust_record \<Rightarrow> trust_cache \<Rightarrow> trust_cache" where
  "merge_step exclude = (\<lambda>(dev, disk_rec) cache.
     if dev \<in> set exclude then cache
     else case map_of cache dev of
            None \<Rightarrow> om_insert dev disk_rec cache
          | Some loc \<Rightarrow> om_insert dev (merge_record loc disk_rec) cache)"

definition merge_from_disk :: "io \<Rightarrow> trust_disk \<Rightarrow> device_id list \<Rightarrow> trust_cache \<Rightarrow> (domain_error, trust_cache) result" where
  "merge_from_disk i d exclude cache =
     rbind (read_records i d) (\<lambda>disk. Inr (fold (merge_step exclude) disk cache))"

text \<open>What a record is after a round through the file: the permission names are re-read.\<close>

definition on_disk :: "trust_record \<Rightarrow> trust_record" where
  "on_disk r = r\<lparr>tr_permissions := perms_deserialize (perms_serialize (tr_permissions r))\<rparr>"

text \<open>
  Merge, then replace the file atomically. The cache keeps the merge even when the write fails.
\<close>

definition persist :: "io \<Rightarrow> device_id list \<Rightarrow> fs_trust \<Rightarrow> (domain_error, unit) result \<times> fs_trust" where
  "persist i exclude s =
     (case merge_from_disk i (ft_disk s) exclude (ft_cache s) of
        Inl e \<Rightarrow> (Inl e, s)
      | Inr cache \<Rightarrow>
          (case io_write_error i of
             Some e \<Rightarrow> (Inl (EStorage e), s\<lparr>ft_cache := cache\<rparr>)
           | None \<Rightarrow> (Inr (), s\<lparr>ft_cache := cache, ft_disk := Some (map (on_disk \<circ> snd) cache)\<rparr>)))"

definition trust_lookup :: "fs_trust \<Rightarrow> device_id \<Rightarrow> trust_record option" where
  "trust_lookup s dev = map_of (ft_cache s) dev"

definition trust_record_op :: "io \<Rightarrow> trust_record \<Rightarrow> fs_trust \<Rightarrow> (domain_error, unit) result \<times> fs_trust" where
  "trust_record_op i r s =
     persist i [tr_device r] (s\<lparr>ft_cache := om_insert (tr_device r) r (ft_cache s)\<rparr>)"

definition trust_remove :: "io \<Rightarrow> device_id \<Rightarrow> fs_trust \<Rightarrow> (domain_error, bool) result \<times> fs_trust" where
  "trust_remove i dev s =
     (let existed = om_member dev (ft_cache s);
          s = s\<lparr>ft_cache := om_remove dev (ft_cache s)\<rparr>
      in if existed
         then (case persist i [dev] s of (r, s) \<Rightarrow> (rbind r (\<lambda>_. Inr existed), s))
         else (Inr existed, s))"

definition approve_with :: "io \<Rightarrow> device_id \<Rightarrow> bool \<Rightarrow> int option \<Rightarrow> permission_set \<Rightarrow> fs_trust
    \<Rightarrow> (domain_error, bool) result \<times> fs_trust" where
  "approve_with i dev pin_satisfied expires_at grant s =
     (if \<not> pin_satisfied then
        (Inl (EEncryption (''device '' @ dev @ '' cannot be approved: PIN pairing is required and has not been completed'')), s)
      else case map_of (ft_cache s) dev of
             None \<Rightarrow> (Inr False, s)
           | Some r \<Rightarrow>
               (let changed1 = \<not> tr_approved r;
                    r1 = (if changed1 then r\<lparr>tr_approved := True, tr_permissions := grant\<rparr> else r);
                    changed2 = (tr_expires_at r1 \<noteq> expires_at);
                    r2 = (if changed2 then r1\<lparr>tr_expires_at := expires_at\<rparr> else r1);
                    s = s\<lparr>ft_cache := om_insert dev r2 (ft_cache s)\<rparr>
                in if changed1 \<or> changed2
                   then (case persist i [dev] s of (r, s) \<Rightarrow> (rbind r (\<lambda>_. Inr True), s))
                   else (Inr True, s)))"

definition approve_gated :: "io \<Rightarrow> device_id \<Rightarrow> bool \<Rightarrow> int option \<Rightarrow> fs_trust \<Rightarrow> (domain_error, unit) result \<times> fs_trust" where
  "approve_gated i dev pin_satisfied expires_at s =
     (case approve_with i dev pin_satisfied expires_at granted_on_approval s of (r, s) \<Rightarrow> (rbind r (\<lambda>_. Inr ()), s))"

definition approve_for :: "io \<Rightarrow> device_id \<Rightarrow> int option \<Rightarrow> fs_trust \<Rightarrow> (domain_error, unit) result \<times> fs_trust" where
  "approve_for i dev expires_at s = approve_gated i dev True expires_at s"

definition approve :: "io \<Rightarrow> device_id \<Rightarrow> fs_trust \<Rightarrow> (domain_error, unit) result \<times> fs_trust" where
  "approve i dev s = approve_for i dev None s"

text \<open>
  The three field setters share their shape: refresh the record, change it if it differs,
  persist. \<open>upd\<close> returns \<open>None\<close> when there is nothing to change.
\<close>

definition set_field :: "io \<Rightarrow> device_id \<Rightarrow> (trust_record \<Rightarrow> trust_record option) \<Rightarrow> fs_trust
    \<Rightarrow> (domain_error, bool) result \<times> fs_trust" where
  "set_field i dev upd s =
     (let s = s\<lparr>ft_cache := refresh_one i (ft_disk s) dev (ft_cache s)\<rparr> in
      case map_of (ft_cache s) dev of
        None \<Rightarrow> (Inr False, s)
      | Some r \<Rightarrow>
          (case upd r of
             None \<Rightarrow> (Inr False, s)
           | Some r' \<Rightarrow>
               (case persist i [dev] (s\<lparr>ft_cache := om_insert dev r' (ft_cache s)\<rparr>) of
                  (res, s) \<Rightarrow> (rbind res (\<lambda>_. Inr True), s))))"

definition set_permission :: "io \<Rightarrow> device_id \<Rightarrow> permission \<Rightarrow> bool \<Rightarrow> fs_trust \<Rightarrow> (domain_error, bool) result \<times> fs_trust" where
  "set_permission i dev p granted =
     set_field i dev (\<lambda>r. let updated = perm_set (tr_permissions r) p granted in
       if updated = tr_permissions r then None else Some (r\<lparr>tr_permissions := updated\<rparr>))"

definition set_mine :: "io \<Rightarrow> device_id \<Rightarrow> bool \<Rightarrow> fs_trust \<Rightarrow> (domain_error, bool) result \<times> fs_trust" where
  "set_mine i dev mine = set_field i dev (\<lambda>r. if tr_mine r = mine then None else Some (r\<lparr>tr_mine := mine\<rparr>))"

definition set_auto_accept :: "io \<Rightarrow> device_id \<Rightarrow> bool \<Rightarrow> fs_trust \<Rightarrow> (domain_error, bool) result \<times> fs_trust" where
  "set_auto_accept i dev b = set_field i dev (\<lambda>r. if tr_auto_accept r = b then None else Some (r\<lparr>tr_auto_accept := b\<rparr>))"

definition auto_accepts_at :: "fs_trust \<Rightarrow> device_id \<Rightarrow> int \<Rightarrow> bool" where
  "auto_accepts_at s dev now =
     (case trust_lookup s dev of Some r \<Rightarrow> tr_auto_accept r \<and> is_approved_at r now | None \<Rightarrow> False)"

definition trust_list :: "fs_trust \<Rightarrow> trust_record list" where
  "trust_list s = sort_key (\<lambda>r. - tr_trusted_at r) (map snd (ft_cache s))"

definition my_devices :: "fs_trust \<Rightarrow> trust_record list" where
  "my_devices s = filter tr_mine (trust_list s)"

section \<open>The questions of the port\<close>

definition is_trusted :: "fs_trust \<Rightarrow> device_id \<Rightarrow> int \<Rightarrow> bool" where
  "is_trusted s dev now = (case trust_lookup s dev of Some r \<Rightarrow> \<not> has_expired r now | None \<Rightarrow> False)"

definition is_approved :: "fs_trust \<Rightarrow> device_id \<Rightarrow> int \<Rightarrow> bool" where
  "is_approved s dev now = (case trust_lookup s dev of Some r \<Rightarrow> is_approved_at r now | None \<Rightarrow> False)"

definition may :: "fs_trust \<Rightarrow> device_id \<Rightarrow> permission \<Rightarrow> int \<Rightarrow> bool" where
  "may s dev p now = (case trust_lookup s dev of Some r \<Rightarrow> grants (effective_permissions_at r now) p | None \<Rightarrow> False)"

definition is_mine :: "fs_trust \<Rightarrow> device_id \<Rightarrow> bool" where
  "is_mine s dev = (case trust_lookup s dev of Some r \<Rightarrow> tr_mine r | None \<Rightarrow> False)"

section \<open>Permission bits\<close>

lemma perm_slot_inject: "perm_slot p = perm_slot q \<longleftrightarrow> p = q"
  by (cases p; cases q) (simp_all add: perm_slot_def)

lemma perm_slot_less: "perm_slot p < 7"
  by (cases p) (simp_all add: perm_slot_def)

lemma grants_bit: "grants s p \<longleftrightarrow> bit s (perm_slot p)"
proof -
  have "s AND push_bit n 1 = (if bit s n then push_bit n 1 else 0)" for n
    by (rule bit_eqI) (auto simp: bit_simps)
  moreover have "(push_bit (perm_slot p) 1 :: u32) \<noteq> 0"
    using perm_slot_less[of p] by (simp add: push_bit_eq_mult)
  ultimately show ?thesis by (simp add: grants_def perm_mask_def)
qed

lemma bit_perm_set: "bit (perm_set s p b) n \<longleftrightarrow> (if n = perm_slot p then b else bit s n)"
  using perm_slot_less[of p] by (auto simp: perm_set_def perm_mask_def bit_simps dest: bit_imp_le_length)

lemma grants_perm_set [simp]: "grants (perm_set s p b) q \<longleftrightarrow> (if q = p then b else grants s q)"
  by (simp add: grants_bit bit_perm_set perm_slot_inject)

lemma grants_none [simp]: "\<not> grants perms_none p"
  by (simp add: grants_def perms_none_def)

lemma grants_intersect [simp]: "grants (perms_intersect a b) p \<longleftrightarrow> grants a p \<and> grants b p"
  by (simp add: grants_bit perms_intersect_def bit_simps)

lemma grants_on_approval: "grants granted_on_approval p \<longleftrightarrow> p \<noteq> Notes \<and> p \<noteq> Browse"
  by (cases p) (simp_all add: granted_on_approval_def grants_bit bit_simps perm_mask_def perm_slot_def)

lemma set_PERMISSION_ALL: "set PERMISSION_ALL = UNIV"
proof (rule set_eqI)
  show "(p \<in> set PERMISSION_ALL) = (p \<in> UNIV)" for p by (cases p) (simp_all add: PERMISSION_ALL_def)
qed

lemma set_perms_granted: "set (perms_granted s) = {p. grants s p}"
  by (simp add: perms_granted_def set_PERMISSION_ALL)

section \<open>Permission names\<close>

lemma lower_as_str: "map ascii_lower (perm_as_str p) = perm_as_str p"
  by (cases p) (simp_all add: perm_as_str_def ascii_lower_def Let_def)

lemma perm_as_str_inject: "perm_as_str p = perm_as_str q \<longleftrightarrow> p = q"
  by (cases p; cases q) (simp_all add: perm_as_str_def)

lemma perm_parse_iff: "perm_parse name = Some p \<longleftrightarrow> map ascii_lower name = perm_as_str p"
proof -
  have "perm_parse name = Some p \<Longrightarrow> map ascii_lower name = perm_as_str p"
    by (auto simp: perm_parse_def lower_as_str find_Some_iff)
  moreover have "perm_parse name = Some p" if "map ascii_lower name = perm_as_str p"
  proof (cases "perm_parse name")
    case None
    then have "\<not> (\<exists>q. map ascii_lower (perm_as_str q) = map ascii_lower name)"
      by (simp add: perm_parse_def find_None_iff set_PERMISSION_ALL)
    with that show ?thesis by (metis lower_as_str)
  next
    case (Some q)
    then have "map ascii_lower name = perm_as_str q" by (auto simp: perm_parse_def lower_as_str find_Some_iff)
    with that Some show ?thesis by (simp add: perm_as_str_inject)
  qed
  ultimately show ?thesis by blast
qed

lemma grants_deserialize:
  "grants (perms_deserialize names) p \<longleftrightarrow> (\<exists>name \<in> set names. map ascii_lower name = perm_as_str p)"
proof -
  have "grants (fold (\<lambda>name s. case perm_parse name of Some p \<Rightarrow> perm_set s p True | None \<Rightarrow> s) names s) p
      \<longleftrightarrow> grants s p \<or> (\<exists>name \<in> set names. perm_parse name = Some p)" for s
    by (induction names arbitrary: s) (auto split: option.splits)
  then show ?thesis by (simp add: perms_deserialize_def perm_parse_iff)
qed

lemma grants_file [simp]: "grants (perms_deserialize (perms_serialize s)) p \<longleftrightarrow> grants s p"
  by (auto simp: grants_deserialize perms_serialize_def set_perms_granted lower_as_str perm_as_str_inject)

text \<open>
  A permission set survives the trust file: what it grants is what it grants after writing
  its names and reading them back, also when the file holds names this build does not know or
  other letter cases; the set read from any list of names grants exactly the permissions named;
  and approval grants the frozen five, not the permissions added later.
\<close>

lemma permission_file_roundtrip:
  "(\<forall>p. grants (perms_deserialize (perms_serialize s @ filter (\<lambda>n. perm_parse n = None) others)) p \<longleftrightarrow> grants s p)
   \<and> (\<forall>p. grants (perms_deserialize names) p \<longleftrightarrow> (\<exists>name \<in> set names. map ascii_lower name = perm_as_str p))
   \<and> {p. grants granted_on_approval p} = {Files, Chat, Clipboard, Presence, Pipe}"
proof -
  have "grants (perms_deserialize (perms_serialize s @ filter (\<lambda>n. perm_parse n = None) others)) p \<longleftrightarrow> grants s p" for p
    using grants_file[of s p] by (auto simp: grants_deserialize simp flip: perm_parse_iff)
  moreover have "{p. grants granted_on_approval p} = {Files, Chat, Clipboard, Presence, Pipe}"
    by (auto simp: grants_on_approval intro: permission.exhaust)
  ultimately show ?thesis by (simp add: grants_deserialize)
qed

section \<open>The file and the cache\<close>

text \<open>The records of the file by device, and what a process that opens it now would see.\<close>

definition disk_map :: "trust_disk \<Rightarrow> trust_cache" where
  "disk_map d = (case d of Some rs \<Rightarrow> om_collect (map (\<lambda>r. (tr_device r, r)) rs) | None \<Rightarrow> [])"

definition reopened :: "fs_trust \<Rightarrow> fs_trust" where
  "reopened s = \<lparr>ft_cache = disk_map (ft_disk s), ft_disk = ft_disk s\<rparr>"

definition cache_ok :: "trust_cache \<Rightarrow> bool" where
  "cache_ok c = (om_inv c \<and> (\<forall>(k, r) \<in> set c. tr_device r = k))"

lemma read_records_eq: "read_records i d = (case io_read_error i of Some e \<Rightarrow> Inl (EStorage e) | None \<Rightarrow> Inr (disk_map d))"
  by (auto simp: read_records_def disk_map_def split: option.splits)

lemma trust_open_reopened: "io_read_error i = None \<Longrightarrow> trust_open i (ft_disk s) = Inr (reopened s)"
  by (simp add: trust_open_def read_records_eq reopened_def)

lemma om_inv_disk_map [simp]: "om_inv (disk_map d)"
  by (simp add: disk_map_def split: option.splits)

lemma disk_map_device: "map_of (disk_map d) k = Some r \<Longrightarrow> tr_device r = k"
  by (auto simp: disk_map_def map_of_om_collect split: option.splits dest!: map_of_SomeD)

lemma cache_okD: "cache_ok c \<Longrightarrow> map_of c k = Some r \<Longrightarrow> tr_device r = k"
  by (auto simp: cache_ok_def dest!: map_of_SomeD)

lemma cache_ok_inv: "cache_ok c \<Longrightarrow> om_inv c"
  by (simp add: cache_ok_def)

lemma cache_okI: "om_inv c \<Longrightarrow> (\<And>k r. map_of c k = Some r \<Longrightarrow> tr_device r = k) \<Longrightarrow> cache_ok c"
  by (auto simp: cache_ok_def om_inv_distinct)

lemma cache_ok_insert: "cache_ok c \<Longrightarrow> tr_device r = k \<Longrightarrow> cache_ok (om_insert k r c)"
  by (rule cache_okI) (auto simp: cache_ok_inv dest: cache_okD split: if_splits)

lemma cache_ok_remove: "cache_ok c \<Longrightarrow> cache_ok (om_remove k c)"
  by (rule cache_okI) (auto simp: cache_ok_inv dest: cache_okD split: if_splits)

lemma cache_ok_disk: "cache_ok (disk_map d)"
  by (rule cache_okI) (auto dest: disk_map_device)

text \<open>What a device's record is after the merge.\<close>

definition merged :: "device_id list \<Rightarrow> trust_record option \<Rightarrow> trust_record option \<Rightarrow> device_id \<Rightarrow> trust_record option" where
  "merged exclude loc disk dev =
     (if dev \<in> set exclude then loc
      else case (loc, disk) of
             (None, d) \<Rightarrow> d | (Some l, None) \<Rightarrow> Some l | (Some l, Some d) \<Rightarrow> Some (merge_record l d))"

lemma map_of_merge_step:
  "map_of (merge_step ex (k, d) c) dev = (if dev = k then merged ex (map_of c dev) (Some d) dev else map_of c dev)"
  by (auto simp: merge_step_def merged_def split: option.splits)

lemma map_of_merge_fold:
  "distinct (map fst disk) \<Longrightarrow> map_of (fold (merge_step ex) disk c) dev = merged ex (map_of c dev) (map_of disk dev) dev"
proof (induction disk arbitrary: c)
  case Nil
  then show ?case by (auto simp: merged_def split: option.splits)
next
  case (Cons e disk)
  obtain k d where e: "e = (k, d)" by (cases e)
  have "map_of disk k = None" using Cons.prems by (simp add: e map_of_eq_None_iff)
  then show ?case using Cons by (auto simp: e map_of_merge_step merged_def split: option.splits)
qed

lemma om_inv_merge_fold: "om_inv c \<Longrightarrow> om_inv (fold (merge_step ex) disk c)"
  by (induction disk arbitrary: c) (auto simp: merge_step_def split: option.splits prod.splits)

definition merge_cache :: "device_id list \<Rightarrow> fs_trust \<Rightarrow> trust_cache" where
  "merge_cache ex s = fold (merge_step ex) (disk_map (ft_disk s)) (ft_cache s)"

lemma map_of_merge_cache:
  "map_of (merge_cache ex s) dev = merged ex (trust_lookup s dev) (map_of (disk_map (ft_disk s)) dev) dev"
  unfolding merge_cache_def trust_lookup_def by (rule map_of_merge_fold) (simp add: om_inv_distinct)

lemma merged_device:
  "merged ex l d dev = Some r \<Longrightarrow> (\<And>x. l = Some x \<Longrightarrow> tr_device x = dev) \<Longrightarrow> (\<And>x. d = Some x \<Longrightarrow> tr_device x = dev) \<Longrightarrow> tr_device r = dev"
  by (auto simp: merged_def merge_record_def split: if_splits option.splits)

lemma cache_ok_merge: "cache_ok (ft_cache s) \<Longrightarrow> cache_ok (merge_cache ex s)"
proof (rule cache_okI)
  assume c: "cache_ok (ft_cache s)"
  show "om_inv (merge_cache ex s)" using c by (simp add: merge_cache_def om_inv_merge_fold cache_ok_def)
  show "tr_device r = k" if "map_of (merge_cache ex s) k = Some r" for k r
    using that cache_okD[OF c] disk_map_device by (auto simp: map_of_merge_cache trust_lookup_def dest: merged_device)
qed

lemma persist_eq:
  "persist i ex s =
     (case io_read_error i of
        Some e \<Rightarrow> (Inl (EStorage e), s)
      | None \<Rightarrow>
          (case io_write_error i of
             Some e \<Rightarrow> (Inl (EStorage e), s\<lparr>ft_cache := merge_cache ex s\<rparr>)
           | None \<Rightarrow> (Inr (), s\<lparr>ft_cache := merge_cache ex s, ft_disk := Some (map (on_disk \<circ> snd) (merge_cache ex s))\<rparr>)))"
  by (simp add: persist_def merge_from_disk_def read_records_eq merge_cache_def split: option.splits)

text \<open>A written cache is what the file then holds, up to the form of the permission set.\<close>

lemma map_of_map_snd: "map_of (map (\<lambda>(k, r). (k, f r)) c) k = map_option f (map_of c k)"
  by (induction c) auto

lemma disk_map_written:
  assumes "cache_ok c"
  shows "map_of (disk_map (Some (map (on_disk \<circ> snd) c))) k = map_option on_disk (map_of c k)"
proof -
  have m: "map (\<lambda>r. (tr_device r, r)) (map (on_disk \<circ> snd) c) = map (\<lambda>(k, r). (k, on_disk r)) c"
    using assms by (auto simp: cache_ok_def on_disk_def)
  have "distinct (map fst (map (\<lambda>(k, r). (k, on_disk r)) c))"
    using assms by (simp add: cache_ok_def om_inv_distinct comp_def case_prod_unfold)
  then show ?thesis
    by (simp only: disk_map_def option.case m map_of_om_collect map_of_rev_distinct) (simp add: map_of_map_snd)
qed

lemma effective_on_disk [simp]:
  "grants (effective_permissions_at (on_disk r) now) p \<longleftrightarrow> grants (effective_permissions_at r now) p"
  by (simp add: on_disk_def effective_permissions_at_def is_approved_at_def has_expired_def)

definition record_may :: "trust_record option \<Rightarrow> permission \<Rightarrow> int \<Rightarrow> bool" where
  "record_may ro p now = (case ro of Some r \<Rightarrow> grants (effective_permissions_at r now) p | None \<Rightarrow> False)"

lemma record_may_simps [simp]:
  "\<not> record_may None p now"
  "record_may (Some r) p now \<longleftrightarrow> grants (effective_permissions_at r now) p"
  by (simp_all add: record_may_def)

lemma may_eq: "may s dev p now = record_may (trust_lookup s dev) p now"
  by (simp add: may_def record_may_def)

lemma record_may_on_disk [simp]: "record_may (map_option on_disk ro) p now = record_may ro p now"
  by (cases ro) simp_all

lemma merge_record_may:
  "grants (effective_permissions_at (merge_record l d) now) p
     \<longleftrightarrow> grants (effective_permissions_at l now) p \<and> grants (effective_permissions_at d now) p"
  by (auto simp: effective_permissions_at_def is_approved_at_def has_expired_def merge_record_def merge_expiry_def
           split: option.splits)

lemma lookup_insert: "trust_lookup (s\<lparr>ft_cache := om_insert k r (ft_cache s)\<rparr>) dev = (if dev = k then Some r else trust_lookup s dev)"
  by (simp add: trust_lookup_def)

lemma reopened_may: "may (reopened s) dev p now = record_may (map_of (disk_map (ft_disk s)) dev) p now"
  by (simp add: may_eq trust_lookup_def reopened_def)

text \<open>After a successful write the store and the file agree on every question.\<close>

lemma persist_may:
  assumes "persist i ex s = (Inr (), t)" "cache_ok (ft_cache s)"
  shows "may t dev p now = record_may (merged ex (trust_lookup s dev) (map_of (disk_map (ft_disk s)) dev) dev) p now"
    "may (reopened t) dev p now = may t dev p now"
proof -
  have t: "t = s\<lparr>ft_cache := merge_cache ex s, ft_disk := Some (map (on_disk \<circ> snd) (merge_cache ex s))\<rparr>"
    using assms(1) by (simp add: persist_eq split: option.splits)
  have "trust_lookup t dev = map_of (merge_cache ex s) dev" by (simp add: t trust_lookup_def)
  then show "may t dev p now = record_may (merged ex (trust_lookup s dev) (map_of (disk_map (ft_disk s)) dev) dev) p now"
    "may (reopened t) dev p now = may t dev p now"
    using disk_map_written[OF cache_ok_merge[OF assms(2), of ex], of dev]
    by (simp_all add: may_eq[of t] map_of_merge_cache reopened_may) (simp add: t map_of_merge_cache)
qed

text \<open>
  The merge fails closed: when the store writes, a device whose record it did not itself
  just change may afterwards do exactly what both its own copy and the copy another process
  wrote allow - at every instant, and with the same answer for a process that then opens the
  file. Nothing either copy had withdrawn (approval, a permission, an earlier deadline) comes
  back.
\<close>

lemma merge_fails_closed:
  assumes "persist i exclude s = (Inr (), t)" "cache_ok (ft_cache s)" "dev \<notin> set exclude"
    and "trust_lookup s dev = Some mine" "map_of (disk_map (ft_disk s)) dev = Some theirs"
  shows "(may t dev p now \<longleftrightarrow> grants (effective_permissions_at mine now) p \<and> grants (effective_permissions_at theirs now) p)
    \<and> (may (reopened t) dev p now \<longleftrightarrow> may t dev p now)"
  using assms(3-5) persist_may[OF assms(1,2), of dev p now] by (simp add: merged_def merge_record_may)

section \<open>The setters\<close>

lemma map_of_refresh:
  "map_of (refresh_one i d dev c) k =
     (if k = dev \<and> io_read_error i = None then map_of (disk_map d) dev else map_of c k)"
  by (auto simp: refresh_one_def read_records_eq split: option.splits)

lemma cache_ok_refresh: "cache_ok c \<Longrightarrow> cache_ok (refresh_one i d dev c)"
  by (auto simp: refresh_one_def read_records_eq intro!: cache_ok_insert cache_ok_remove split: option.splits dest: disk_map_device)

text \<open>The store with its copy of one record re-read, and the store with one record replaced.\<close>

definition refreshed :: "io \<Rightarrow> device_id \<Rightarrow> fs_trust \<Rightarrow> fs_trust" where
  "refreshed i dev s = s\<lparr>ft_cache := refresh_one i (ft_disk s) dev (ft_cache s)\<rparr>"

definition with_record :: "device_id \<Rightarrow> trust_record \<Rightarrow> fs_trust \<Rightarrow> fs_trust" where
  "with_record dev r s = s\<lparr>ft_cache := om_insert dev r (ft_cache s)\<rparr>"

lemma lookup_refreshed:
  "trust_lookup (refreshed i dev s) k = (if k = dev \<and> io_read_error i = None then map_of (disk_map (ft_disk s)) dev else trust_lookup s k)"
  by (simp add: refreshed_def trust_lookup_def map_of_refresh)

lemma lookup_with_record [simp]: "trust_lookup (with_record dev r s) k = (if k = dev then Some r else trust_lookup s k)"
  by (simp add: with_record_def trust_lookup_def)

lemma disk_same [simp]: "ft_disk (refreshed i dev s) = ft_disk s" "ft_disk (with_record dev r s) = ft_disk s"
  by (simp_all add: refreshed_def with_record_def)

lemma set_field_eq:
  "set_field i dev upd s =
     (case trust_lookup (refreshed i dev s) dev of
        None \<Rightarrow> (Inr False, refreshed i dev s)
      | Some r \<Rightarrow>
          (case upd r of
             None \<Rightarrow> (Inr False, refreshed i dev s)
           | Some r' \<Rightarrow>
               (case persist i [dev] (with_record dev r' (refreshed i dev s)) of
                  (res, t) \<Rightarrow> (rbind res (\<lambda>_. Inr True), t))))"
  by (simp add: set_field_def Let_def trust_lookup_def flip: refreshed_def with_record_def split: option.splits)

lemma cache_ok_with_record: "cache_ok (ft_cache s) \<Longrightarrow> tr_device r = dev \<Longrightarrow> cache_ok (ft_cache (with_record dev r s))"
  by (simp add: with_record_def cache_ok_insert)

lemma cache_ok_refreshed: "cache_ok (ft_cache s) \<Longrightarrow> cache_ok (ft_cache (refreshed i dev s))"
  by (simp add: refreshed_def cache_ok_refresh)

lemma persist_Inr_read: "persist i ex s = (Inr (), t) \<Longrightarrow> io_read_error i = None"
  by (simp add: persist_eq split: option.splits)

lemma set_field_changed:
  assumes "set_field i dev upd s = (Inr True, t)"
  obtains r r' where "map_of (disk_map (ft_disk s)) dev = Some r" "upd r = Some r'" "io_read_error i = None"
    "persist i [dev] (with_record dev r' (refreshed i dev s)) = (Inr (), t)"
  using assms persist_Inr_read
  by (fastforce simp: set_field_eq lookup_refreshed split: option.splits prod.splits sum.splits if_splits)

lemma set_field_unchanged:
  assumes "set_field i dev upd s = (Inr False, t)"
  shows "t = refreshed i dev s" "trust_lookup t dev = Some r \<Longrightarrow> upd r = None"
  using assms by (auto simp: set_field_eq split: option.splits prod.splits sum.splits)

text \<open>
  Revoking a permission is effective at once: when \<open>set_permission\<close> withholds it without an
  error, the device may not do it any more, at any instant. When the call changed something,
  that also holds for every process that opens the file afterwards, and the device keeps exactly
  the other permissions the file gave it - what another process had withdrawn meanwhile stays
  withdrawn even if this process had not seen it yet.
\<close>

lemma revocation_is_effective:
  assumes "set_permission i dev p False s = (Inr changed, t)" "cache_ok (ft_cache s)"
  shows "\<not> may t dev p now
    \<and> (changed \<longrightarrow> \<not> may (reopened t) dev p now
         \<and> (\<forall>q. q \<noteq> p \<longrightarrow> may t dev q now = may (reopened s) dev q now))"
proof (cases changed)
  case True
  with assms(1) obtain r r' where r: "map_of (disk_map (ft_disk s)) dev = Some r"
      "r' = r\<lparr>tr_permissions := perm_set (tr_permissions r) p False\<rparr>"
    and w: "persist i [dev] (with_record dev r' (refreshed i dev s)) = (Inr (), t)"
    by (auto simp: set_permission_def Let_def elim!: set_field_changed split: if_splits)
  have "tr_device r' = dev" using disk_map_device[OF r(1)] by (simp add: r(2))
  with assms(2) have "cache_ok (ft_cache (with_record dev r' (refreshed i dev s)))"
    by (simp add: cache_ok_with_record cache_ok_refreshed)
  from persist_may[OF w this, of dev] show ?thesis
    by (auto simp: merged_def r reopened_may effective_permissions_at_def is_approved_at_def has_expired_def)
next
  case False
  with assms(1) have u: "set_field i dev (\<lambda>r. let updated = perm_set (tr_permissions r) p False in
       if updated = tr_permissions r then None else Some (r\<lparr>tr_permissions := updated\<rparr>)) s = (Inr False, t)"
    by (simp add: set_permission_def)
  have "\<not> grants (tr_permissions r) p" if "trust_lookup t dev = Some r" for r
  proof -
    have "perm_set (tr_permissions r) p False = tr_permissions r"
      using set_field_unchanged(2)[OF u that] by (simp add: Let_def split: if_splits)
    then show ?thesis by (metis grants_perm_set)
  qed
  with False show ?thesis
    by (cases "trust_lookup t dev") (auto simp: may_eq effective_permissions_at_def)
qed

section \<open>Several processes on one file\<close>

text \<open>
  Each process keeps its own cache beside the shared file. One operation of one process is a
  step; \<open>trust_op dev\<close> is any operation except approving \<open>dev\<close> (with the PIN satisfied) or
  pinning an already approved record for it.
\<close>

record trust_world =
  tw_caches :: "nat \<Rightarrow> trust_cache"
  tw_disk :: trust_disk

definition process :: "nat \<Rightarrow> trust_world \<Rightarrow> fs_trust" where
  "process n w = \<lparr>ft_cache = tw_caches w n, ft_disk = tw_disk w\<rparr>"

definition store_back :: "nat \<Rightarrow> fs_trust \<Rightarrow> trust_world \<Rightarrow> trust_world" where
  "store_back n s w = \<lparr>tw_caches = (tw_caches w)(n := ft_cache s), tw_disk = ft_disk s\<rparr>"

inductive trust_op :: "device_id \<Rightarrow> fs_trust \<Rightarrow> fs_trust \<Rightarrow> bool" for dev where
  op_open: "trust_open i (ft_disk s) = Inr t \<Longrightarrow> trust_op dev s t"
| op_record: "(tr_device r = dev \<Longrightarrow> \<not> tr_approved r) \<Longrightarrow> trust_op dev s (snd (trust_record_op i r s))"
| op_remove: "trust_op dev s (snd (trust_remove i d s))"
| op_approve: "d \<noteq> dev \<or> \<not> pin \<Longrightarrow> trust_op dev s (snd (approve_with i d pin deadline grant s))"
| op_permission: "trust_op dev s (snd (set_permission i d p b s))"
| op_mine: "trust_op dev s (snd (set_mine i d b s))"
| op_auto_accept: "trust_op dev s (snd (set_auto_accept i d b s))"

definition trust_step :: "device_id \<Rightarrow> trust_world \<Rightarrow> trust_world \<Rightarrow> bool" where
  "trust_step dev w w' = (\<exists>n t. trust_op dev (process n w) t \<and> w' = store_back n t w)"

definition unapproved :: "device_id \<Rightarrow> trust_cache \<Rightarrow> bool" where
  "unapproved dev c = (\<forall>r. map_of c dev = Some r \<longrightarrow> \<not> tr_approved r)"

definition store_ok :: "device_id \<Rightarrow> fs_trust \<Rightarrow> bool" where
  "store_ok dev s = (cache_ok (ft_cache s) \<and> unapproved dev (ft_cache s) \<and> unapproved dev (disk_map (ft_disk s)))"

definition world_ok :: "device_id \<Rightarrow> trust_world \<Rightarrow> bool" where
  "world_ok dev w = (\<forall>n. store_ok dev (process n w))"

lemma persist_store_ok:
  assumes "store_ok dev s"
  shows "store_ok dev (snd (persist i ex s))"
proof -
  have c: "cache_ok (merge_cache ex s)" using assms by (simp add: store_ok_def cache_ok_merge)
  have u: "unapproved dev (merge_cache ex s)"
    using assms by (auto simp: store_ok_def unapproved_def map_of_merge_cache trust_lookup_def merged_def merge_record_def
      split: if_splits option.splits)
  have "unapproved dev (disk_map (Some (map (on_disk \<circ> snd) (merge_cache ex s))))"
    using u disk_map_written[OF c] by (auto simp: unapproved_def on_disk_def)
  with c u assms show ?thesis by (auto simp: persist_eq store_ok_def split: option.splits)
qed

lemma with_record_store_ok:
  "store_ok dev s \<Longrightarrow> tr_device r = d \<Longrightarrow> (d = dev \<Longrightarrow> \<not> tr_approved r) \<Longrightarrow> store_ok dev (with_record d r s)"
  by (auto simp: store_ok_def with_record_def cache_ok_insert unapproved_def)

lemma refreshed_store_ok: "store_ok dev s \<Longrightarrow> store_ok dev (refreshed i d s)"
  by (auto simp: store_ok_def refreshed_def cache_ok_refresh unapproved_def map_of_refresh)

lemma lookup_device: "store_ok dev s \<Longrightarrow> trust_lookup s d = Some r \<Longrightarrow> tr_device r = d"
  by (auto simp: store_ok_def trust_lookup_def dest: cache_okD)

lemma lookup_unapproved: "store_ok dev s \<Longrightarrow> trust_lookup s dev = Some r \<Longrightarrow> \<not> tr_approved r"
  by (auto simp: store_ok_def trust_lookup_def unapproved_def)

lemma set_field_store_ok:
  assumes "store_ok dev s" "\<And>r r'. upd r = Some r' \<Longrightarrow> tr_device r' = tr_device r \<and> tr_approved r' = tr_approved r"
  shows "store_ok dev (snd (set_field i d upd s))"
proof -
  let ?s = "refreshed i d s"
  have s: "store_ok dev ?s" by (rule refreshed_store_ok[OF assms(1)])
  have "store_ok dev (snd (persist i [d] (with_record d r' ?s)))" if "trust_lookup ?s d = Some r" "upd r = Some r'" for r r'
    using assms(2)[OF that(2)] lookup_device[OF s that(1)] lookup_unapproved[OF s] that(1)
    by (intro persist_store_ok with_record_store_ok s) auto
  then show ?thesis using s
    by (auto simp: set_field_eq case_prod_unfold split: option.splits)
qed

lemma approve_with_store_ok:
  assumes "store_ok dev s" "d \<noteq> dev \<or> \<not> pin"
  shows "store_ok dev (snd (approve_with i d pin deadline grant s))"
proof (cases "pin \<and> trust_lookup s d \<noteq> None")
  case False
  then show ?thesis using assms(1) by (auto simp: approve_with_def trust_lookup_def)
next
  case True
  then obtain r where r: "trust_lookup s d = Some r" by auto
  have k: "store_ok dev (with_record d r' s)" if "tr_device r' = tr_device r" for r'
    using assms True lookup_device[OF assms(1) r] that by (intro with_record_store_ok) auto
  show ?thesis using True r
    by (auto simp: approve_with_def trust_lookup_def Let_def case_prod_unfold simp flip: with_record_def
      intro!: k persist_store_ok)
qed

lemma trust_op_keeps: "trust_op dev s t \<Longrightarrow> store_ok dev s \<Longrightarrow> store_ok dev t"
proof (induction rule: trust_op.induct)
  case (op_open i s t)
  then show ?case by (auto simp: trust_open_def read_records_eq store_ok_def cache_ok_disk split: option.splits)
next
  case (op_record r s i)
  then show ?case
    by (auto simp: trust_record_op_def simp flip: with_record_def intro!: persist_store_ok with_record_store_ok)
next
  case (op_remove s i d)
  have "store_ok dev (s\<lparr>ft_cache := om_remove d (ft_cache s)\<rparr>)"
    using op_remove by (auto simp: store_ok_def cache_ok_remove unapproved_def)
  then show ?case using persist_store_ok[of dev _ i "[d]"]
    by (auto simp: trust_remove_def Let_def case_prod_unfold)
next
  case (op_approve d pin s i deadline grant)
  then show ?case by (intro approve_with_store_ok)
next
  case (op_permission s i d p b)
  then show ?case by (auto simp: set_permission_def Let_def intro!: set_field_store_ok split: if_splits)
next
  case (op_mine s i d b)
  then show ?case by (auto simp: set_mine_def intro!: set_field_store_ok split: if_splits)
next
  case (op_auto_accept s i d b)
  then show ?case by (auto simp: set_auto_accept_def intro!: set_field_store_ok split: if_splits)
qed

lemma process_store_back: "process m (store_back n s w) = (if m = n then s else \<lparr>ft_cache = tw_caches w m, ft_disk = ft_disk s\<rparr>)"
  by (simp add: process_def store_back_def)

lemma trust_step_keeps: "world_ok dev w \<Longrightarrow> trust_step dev w w' \<Longrightarrow> world_ok dev w'"
  unfolding world_ok_def trust_step_def
  by (auto simp: process_store_back dest: trust_op_keeps) (auto simp: store_ok_def process_def dest!: trust_op_keeps)

interpretation trust: invariant_system "world_ok dev" "trust_step dev" "world_ok dev" for dev
  by unfold_locales (auto intro: trust_step_keeps)

text \<open>
  C11. Trust is given by approval only: start from any number of processes none of which, nor
  the file, has the device approved. Whatever they then do in whatever order - pin it, remove
  it, stage permissions for it, mark it as the user's own, turn on auto-accept, approve other
  devices, ask for its approval without the PIN - no process ever lets it do anything, counts
  it approved or accepts its files unasked, as long as nobody approves it.
\<close>

theorem trust_only_by_approval:
  assumes "(trust_step dev)\<^sup>*\<^sup>* w w'" "world_ok dev w"
  shows "\<not> may (process n w') dev p now \<and> \<not> is_approved (process n w') dev now
    \<and> \<not> auto_accepts_at (process n w') dev now"
proof -
  have "store_ok dev (process n w')" using trust.inv_steps[OF assms] by (simp add: world_ok_def)
  then have "\<not> tr_approved r" if "trust_lookup (process n w') dev = Some r" for r
    using that by (rule lookup_unapproved)
  then show ?thesis
    by (auto simp: may_def is_approved_def auto_accepts_at_def effective_permissions_at_def is_approved_at_def
      split: option.splits)
qed

text \<open>
  A stale cache undoes another process's revocations. \<open>approve_for\<close> on an approved device
  with a new deadline writes this process's cached record over the file's without reading it
  first, so the device gets back every permission the cache still holds; and because the merge
  only adds and narrows records, any write of a process that still caches a device brings its
  record back after another process removed it from the file.
\<close>

lemma stale_cache_undoes_revocation:
  assumes "cache_ok (ft_cache s)" "trust_lookup s dev = Some r" "tr_approved r"
    and "io_read_error i = None" "io_write_error i = None"
  shows "(tr_expires_at r \<noteq> deadline \<and> \<not> has_expired (r\<lparr>tr_expires_at := deadline\<rparr>) now \<longrightarrow>
      fst (approve_for i dev deadline s) = Inr ()
      \<and> (may (reopened (snd (approve_for i dev deadline s))) dev p now \<longleftrightarrow> grants (tr_permissions r) p))
    \<and> (map_of (disk_map (ft_disk s)) dev = None \<and> other \<noteq> dev \<and> \<not> has_expired r now \<longrightarrow>
      fst (trust_record_op i (x\<lparr>tr_device := other\<rparr>) s) = Inr ()
      \<and> (may (reopened (snd (trust_record_op i (x\<lparr>tr_device := other\<rparr>) s))) dev p now \<longleftrightarrow> grants (tr_permissions r) p))"
proof -
  let ?r = "r\<lparr>tr_expires_at := deadline\<rparr>"
  let ?x = "x\<lparr>tr_device := other\<rparr>"
  have p: "\<exists>t. persist i ex u = (Inr (), t)" for ex u using assms(4,5) by (simp add: persist_eq)
  have d: "tr_device r = dev" using assms(1,2) by (auto simp: trust_lookup_def dest: cache_okD)
  have one: "fst (approve_for i dev deadline s) = Inr ()
      \<and> (may (reopened (snd (approve_for i dev deadline s))) dev p now \<longleftrightarrow> grants (tr_permissions r) p)"
    if a: "tr_expires_at r \<noteq> deadline" "\<not> has_expired ?r now"
  proof -
    obtain t where t: "persist i [dev] (with_record dev ?r s) = (Inr (), t)" using p by blast
    have e: "approve_for i dev deadline s = (Inr (), t)"
      using assms(2,3) a(1) t
      by (simp add: approve_for_def approve_gated_def approve_with_def trust_lookup_def Let_def flip: with_record_def)
    have "cache_ok (ft_cache (with_record dev ?r s))" using assms(1) d by (simp add: cache_ok_with_record)
    from persist_may[OF t this, of dev] show ?thesis
      using assms(3) a(2) by (simp add: e merged_def effective_permissions_at_def is_approved_at_def)
  qed
  have two: "fst (trust_record_op i ?x s) = Inr ()
      \<and> (may (reopened (snd (trust_record_op i ?x s))) dev p now \<longleftrightarrow> grants (tr_permissions r) p)"
    if a: "map_of (disk_map (ft_disk s)) dev = None" "other \<noteq> dev" "\<not> has_expired r now"
  proof -
    obtain t where t: "persist i [other] (with_record other ?x s) = (Inr (), t)" using p by blast
    have e: "trust_record_op i ?x s = (Inr (), t)" using t by (simp add: trust_record_op_def flip: with_record_def)
    have "cache_ok (ft_cache (with_record other ?x s))" using assms(1) by (simp add: cache_ok_with_record)
    from persist_may[OF t this, of dev] show ?thesis
      using assms(2,3) a by (simp add: e merged_def effective_permissions_at_def is_approved_at_def)
  qed
  from one two show ?thesis by blast
qed

section \<open>Witnesses\<close>

definition toy_io :: io where
  "toy_io = \<lparr>io_read_error = None, io_write_error = None\<rparr>"

definition toy_record :: "permission_set \<Rightarrow> trust_record" where
  "toy_record ps = \<lparr>tr_device = ''peer'', tr_fingerprint = ''k'', tr_name = ''p'', tr_trusted_at = 1, tr_approved = True,
     tr_permissions = ps, tr_expires_at = None, tr_mine = False, tr_auto_accept = False\<rparr>"

text \<open>A cache that still grants chat beside a file from which chat was withdrawn.\<close>

definition toy_store :: fs_trust where
  "toy_store = \<lparr>ft_cache = [(''peer'', toy_record granted_on_approval)],
     ft_disk = Some [toy_record (perm_set granted_on_approval Chat False)]\<rparr>"

lemma toy_store_facts:
  "cache_ok (ft_cache toy_store)" "trust_lookup toy_store ''peer'' = Some (toy_record granted_on_approval)"
  "map_of (disk_map (ft_disk toy_store)) ''peer'' = Some (toy_record (perm_set granted_on_approval Chat False))"
  by (simp_all add: toy_store_def cache_ok_def om_inv_def toy_record_def trust_lookup_def disk_map_def om_collect_def)

lemma toy_record_may [simp]: "grants (effective_permissions_at (toy_record ps) now) p \<longleftrightarrow> grants ps p"
  by (simp add: toy_record_def effective_permissions_at_def is_approved_at_def has_expired_def)

lemma toy_persist: "persist toy_io ex s = (Inr (), snd (persist toy_io ex s))"
  by (simp add: persist_eq toy_io_def)

lemma merge_fails_closed_witness:
  "\<not> may (snd (persist toy_io [] toy_store)) ''peer'' Chat 5 \<and> may (snd (persist toy_io [] toy_store)) ''peer'' Files 5"
  using merge_fails_closed[OF toy_persist toy_store_facts(1) _ toy_store_facts(2,3), of "[]" Chat 5]
    merge_fails_closed[OF toy_persist toy_store_facts(1) _ toy_store_facts(2,3), of "[]" Files 5]
  by (simp add: grants_on_approval)

lemma revocation_is_effective_witness:
  "\<not> may (reopened (snd (set_permission toy_io ''peer'' Files False toy_store))) ''peer'' Files 5"
proof -
  have "fst (set_permission toy_io ''peer'' Files False toy_store) = Inr True"
  proof -
    have "perm_set (perm_set granted_on_approval Chat False) Files False \<noteq> perm_set granted_on_approval Chat False"
      by (metis grants_perm_set grants_on_approval permission.distinct(1,9,11))
    then show ?thesis
      by (simp add: set_permission_def set_field_eq lookup_refreshed toy_store_facts Let_def case_prod_unfold persist_eq toy_io_def
        toy_record_def)
  qed
  then have "set_permission toy_io ''peer'' Files False toy_store
      = (Inr True, snd (set_permission toy_io ''peer'' Files False toy_store))"
    by (metis prod.collapse)
  from revocation_is_effective[OF this toy_store_facts(1), of 5] show ?thesis by simp
qed

theorem trust_only_by_approval_witness:
  "\<not> may (process 0 (store_back 0 (snd (trust_record_op toy_io ((toy_record granted_on_approval)\<lparr>tr_approved := False\<rparr>)
      \<lparr>ft_cache = [], ft_disk = None\<rparr>)) \<lparr>tw_caches = (\<lambda>_. []), tw_disk = None\<rparr>)) ''peer'' Chat 5"
proof -
  let ?w = "\<lparr>tw_caches = (\<lambda>_. []), tw_disk = None\<rparr>"
  have s: "process 0 ?w = \<lparr>ft_cache = [], ft_disk = None\<rparr>" by (simp add: process_def)
  have "world_ok ''peer'' ?w" by (simp add: world_ok_def store_ok_def process_def cache_ok_def unapproved_def disk_map_def)
  moreover have "trust_op ''peer'' (process 0 ?w)
      (snd (trust_record_op toy_io ((toy_record granted_on_approval)\<lparr>tr_approved := False\<rparr>) \<lparr>ft_cache = [], ft_disk = None\<rparr>))"
    unfolding s by (rule op_record) simp
  then have "(trust_step ''peer'')\<^sup>*\<^sup>* ?w (store_back 0 (snd (trust_record_op toy_io
      ((toy_record granted_on_approval)\<lparr>tr_approved := False\<rparr>) \<lparr>ft_cache = [], ft_disk = None\<rparr>)) ?w)"
    unfolding trust_step_def by (intro r_into_rtranclp) blast
  ultimately show ?thesis using trust_only_by_approval by blast
qed

lemma stale_cache_undoes_revocation_witness:
  "\<not> may (reopened toy_store) ''peer'' Chat 5
    \<and> may (reopened (snd (approve_for toy_io ''peer'' (Some 9) toy_store))) ''peer'' Chat 5"
  using stale_cache_undoes_revocation[OF toy_store_facts(1,2), of toy_io "Some 9" 5 Chat]
  by (simp add: toy_io_def reopened_may toy_store_facts grants_on_approval) (simp add: toy_record_def has_expired_def grants_on_approval)

end
