(* ===== verification/PB_Auth.thy ===== *)
theory PB_Auth
  imports PB_Session_Props PB_Trust
begin

text \<open>
  The mutual-authentication handshake (\<open>peerbeam-transfer/src/auth.rs\<close>) and \<open>PeerSession::open\<close>
  around it. What the link delivers is a script of receive outcomes; a script that runs out
  means that nothing more arrives, which \<open>open\<close> turns into a timeout. The JSON coding of the
  two messages is a parameter, and so is the trust store the handshake pins keys in: the file
  store is one instance of the interface \<open>pin_store\<close>.

  Shown here: two honest devices derive mirrored keys and the same transcript and open a
  session; a session is only handed out for a key that confirmed the handshake and that the
  store has pinned; a changed key is refused; the transcript determines both presented
  identities.
\<close>

section \<open>Messages\<close>

datatype auth_msg =
    AuthHello device_id string bytes bytes
  | AuthConfirm bytes

record auth_json =
  aj_enc :: "auth_msg \<Rightarrow> bytes"
  aj_dec :: "bytes \<Rightarrow> (string, auth_msg) result"

definition auth_json_ok :: "auth_json \<Rightarrow> bool" where
  "auth_json_ok A = (\<forall>m. aj_dec A (aj_enc A m) = Inr m)"

record identity =
  id_device :: device_id
  id_name :: string
  id_public :: bytes
  id_secret :: bytes

type_synonym inbound = "(domain_error, link_frame option) result list"

definition auth_frame :: "auth_json \<Rightarrow> auth_msg \<Rightarrow> link_frame" where
  "auth_frame A msg = \<lparr>lf_kind = Handshake, lf_payload = aj_enc A msg\<rparr>"

text \<open>Frames of other kinds are skipped; \<open>None\<close> when the link delivers nothing more.\<close>

fun recv_auth :: "auth_json \<Rightarrow> inbound \<Rightarrow> ((domain_error, auth_msg) result \<times> inbound) option" where
  "recv_auth A [] = None"
| "recv_auth A (r # rest) =
     (case r of
        Inl e \<Rightarrow> Some (Inl e, rest)
      | Inr None \<Rightarrow> Some (Inl (EEncryption ''link closed during handshake''), rest)
      | Inr (Some frame) \<Rightarrow>
          if lf_kind frame = Handshake then
            Some (case aj_dec A (lf_payload frame) of
                    Inl e \<Rightarrow> Inl (EEncryption (''bad auth message: '' @ e)) | Inr m \<Rightarrow> Inr m, rest)
          else recv_auth A rest)"

section \<open>The transcript\<close>

record handshake_side =
  hs_pubkey :: bytes
  hs_nonce :: bytes
  hs_device :: string
  hs_name :: string

definition side_bytes :: "handshake_side \<Rightarrow> bytes" where
  "side_bytes h = hs_pubkey h @ hs_nonce h
     @ to_be (of_nat (length (hs_device h)) :: u32) @ str_bytes (hs_device h)
     @ to_be (of_nat (length (hs_name h)) :: u32) @ str_bytes (hs_name h)"

definition transcript :: "handshake_side \<Rightarrow> handshake_side \<Rightarrow> bytes" where
  "transcript a b =
     (let (first, second) = (if hs_pubkey a \<le> hs_pubkey b then (a, b) else (b, a))
      in side_bytes first @ side_bytes second)"

definition auth_kdf :: "prims \<Rightarrow> bytes \<Rightarrow> bytes \<Rightarrow> bytes" where
  "auth_kdf P key label = sha256 P (key @ label)"

definition auth_hmac :: "prims \<Rightarrow> bytes \<Rightarrow> bytes \<Rightarrow> bytes" where
  "auth_hmac P key data = hmac_sha256 P key data"

definition auth_prefix :: "bytes \<Rightarrow> bytes" where
  "auth_prefix bs = take 4 bs"

definition constant_time_eq :: "bytes \<Rightarrow> bytes \<Rightarrow> bool" where
  "constant_time_eq a b =
     (if length a \<noteq> length b then False
      else fold (\<lambda>(x, y) diff. diff OR (x XOR y)) (zip a b) 0 = 0)"

section \<open>The handshake\<close>

record 's trust_port =
  tp_lookup :: "'s \<Rightarrow> device_id \<Rightarrow> (domain_error, trust_record option) result"
  tp_record :: "trust_record \<Rightarrow> 's \<Rightarrow> (domain_error, unit) result \<times> 's"

definition new_pin :: "device_id \<Rightarrow> string \<Rightarrow> string \<Rightarrow> int \<Rightarrow> trust_record" where
  "new_pin dev fp name now =
     \<lparr>tr_device = dev, tr_fingerprint = fp, tr_name = name, tr_trusted_at = now, tr_approved = False,
      tr_permissions = perms_none, tr_expires_at = None, tr_mine = False, tr_auto_accept = False\<rparr>"

definition pin_peer :: "'s trust_port \<Rightarrow> device_id \<Rightarrow> string \<Rightarrow> string \<Rightarrow> int \<Rightarrow> 's \<Rightarrow> (domain_error, bool) result \<times> 's" where
  "pin_peer T dev fp name now s =
     (case tp_lookup T s dev of
        Inl e \<Rightarrow> (Inl e, s)
      | Inr (Some rec) \<Rightarrow>
          if tr_fingerprint rec \<noteq> fp
          then (Inl (EEncryption (''peer '' @ dev @ '' key changed since it was trusted (possible MITM)'')), s)
          else (Inr False, s)
      | Inr None \<Rightarrow> (case tp_record T (new_pin dev fp name now) s of (r, s) \<Rightarrow> (rbind r (\<lambda>_. Inr True), s)))"

definition auth_finish :: "prims \<Rightarrow> session_keys \<Rightarrow> bytes \<Rightarrow> device_id \<Rightarrow> string \<Rightarrow> bool \<Rightarrow> bytes \<Rightarrow> bytes \<Rightarrow> auth_session" where
  "auth_finish P keys tr dev name newly our_pub peer_pub =
     (let send_key = auth_kdf P (sk_send keys) tr; recv_key = auth_kdf P (sk_recv keys) tr
      in \<lparr>as_send_key = send_key, as_recv_key = recv_key,
          as_send_prefix = auth_prefix (auth_kdf P send_key (str_bytes ''peerbeam-nonce'')),
          as_recv_prefix = auth_prefix (auth_kdf P recv_key (str_bytes ''peerbeam-nonce'')),
          as_peer_id = dev, as_peer_name = name, as_newly_trusted = newly,
          as_pairing_code = pairing_code P our_pub peer_pub, as_transcript = tr\<rparr>)"

text \<open>
  The result is what was sent, the outcome (\<open>None\<close> while the peer stays silent) and the store.
\<close>

definition authenticate :: "prims \<Rightarrow> auth_json \<Rightarrow> (link_frame \<Rightarrow> (domain_error, unit) result) \<Rightarrow> 's trust_port \<Rightarrow> identity
    \<Rightarrow> bytes \<Rightarrow> int \<Rightarrow> inbound \<Rightarrow> 's \<Rightarrow> link_frame list \<times> (domain_error, auth_session) result option \<times> 's" where
  "authenticate P A send T me our_nonce now inbound s =
     (let our_pub = id_public me;
          hello = auth_frame A (AuthHello (id_device me) (id_name me) our_pub our_nonce)
      in case send hello of
           Inl e \<Rightarrow> ([], Some (Inl e), s)
         | Inr _ \<Rightarrow>
      case recv_auth A inbound of
        None \<Rightarrow> ([hello], None, s)
      | Some (Inl e, _) \<Rightarrow> ([hello], Some (Inl e), s)
      | Some (Inr (AuthConfirm _), _) \<Rightarrow> ([hello], Some (Inl (EEncryption ''expected Hello'')), s)
      | Some (Inr (AuthHello dev name pub peer_nonce), inbound) \<Rightarrow>
      (case key_exchange P (id_secret me) pub of
        Inl e \<Rightarrow> ([hello], Some (Inl e), s)
      | Inr keys \<Rightarrow>
          let tr = transcript
                \<lparr>hs_pubkey = our_pub, hs_nonce = our_nonce, hs_device = id_device me, hs_name = id_name me\<rparr>
                \<lparr>hs_pubkey = pub, hs_nonce = peer_nonce, hs_device = dev, hs_name = name\<rparr>;
              confirm = auth_frame A (AuthConfirm (auth_hmac P (sk_send keys) tr))
          in case send confirm of
               Inl e \<Rightarrow> ([hello], Some (Inl e), s)
             | Inr _ \<Rightarrow>
          case recv_auth A inbound of
            None \<Rightarrow> ([hello, confirm], None, s)
          | Some (Inl e, _) \<Rightarrow> ([hello, confirm], Some (Inl e), s)
          | Some (Inr (AuthHello _ _ _ _), _) \<Rightarrow> ([hello, confirm], Some (Inl (EEncryption ''expected Confirm'')), s)
          | Some (Inr (AuthConfirm tag), _) \<Rightarrow>
              if \<not> constant_time_eq tag (auth_hmac P (sk_recv keys) tr)
              then ([hello, confirm], Some (Inl (EEncryption ''authentication failed: key confirmation mismatch'')), s)
              else case pin_peer T dev (fingerprint P pub) name now s of
                     (Inl e, s) \<Rightarrow> ([hello, confirm], Some (Inl e), s)
                   | (Inr newly, s) \<Rightarrow>
                       ([hello, confirm], Some (Inr (auth_finish P keys tr dev name newly our_pub pub)), s)))"

text \<open>
  \<open>PeerSession::open\<close>: obtain the control stream (\<open>stream\<close> is what the transport returns),
  authenticate within the time limit, then exchange hellos.
\<close>

definition peer_session_open :: "prims \<Rightarrow> json \<Rightarrow> auth_json \<Rightarrow> (link_frame \<Rightarrow> (domain_error, unit) result) \<Rightarrow> link_send
    \<Rightarrow> session_role \<Rightarrow> session_config \<Rightarrow> identity \<Rightarrow> 's trust_port \<Rightarrow> (domain_error, link option) result \<Rightarrow> bytes \<Rightarrow> int
    \<Rightarrow> inbound \<Rightarrow> session_registry option \<Rightarrow> session_id \<Rightarrow> (domain_error, bytes option) result \<Rightarrow> nat \<Rightarrow> 's
    \<Rightarrow> link_frame list \<times> bytes list \<times> (session_error, peer_session) result \<times> 's" where
  "peer_session_open P J A send csend role config me T stream our_nonce clock inbound registry fresh received now s =
     (case stream of
        Inl e \<Rightarrow> ([], [], Inl (session_error_from e), s)
      | Inr None \<Rightarrow> ([], [], Inl (LinkError ''transport closed before control stream''), s)
      | Inr (Some _) \<Rightarrow>
          (case authenticate P A send T me our_nonce clock inbound s of
             (out, None, s) \<Rightarrow> (out, [], Inl (LinkError ''the peer did not complete the handshake in time''), s)
           | (out, Some (Inl e), s) \<Rightarrow> (out, [], Inl (session_error_from e), s)
           | (out, Some (Inr auth), s) \<Rightarrow>
               (case session_open P J csend role config (id_device me) auth registry fresh received now of
                  (wire, r) \<Rightarrow> (out, wire, r, s))))"

text \<open>The file store behind the port.\<close>

definition fs_port :: "io \<Rightarrow> fs_trust trust_port" where
  "fs_port i = \<lparr>tp_lookup = (\<lambda>s dev. Inr (trust_lookup s dev)), tp_record = trust_record_op i\<rparr>"

section \<open>The transcript\<close>

lemma fold_diff: "fold (\<lambda>(x, y) diff. diff OR (x XOR y)) ps (d :: u8) = 0 \<longleftrightarrow> d = 0 \<and> (\<forall>(x, y) \<in> set ps. x = y)"
proof (induction ps arbitrary: d)
  case (Cons p ps)
  have "x XOR y = 0 \<longleftrightarrow> x = y" for x y :: u8 by (auto simp: bit_eq_iff bit_simps)
  then have "d OR (x XOR y) = 0 \<longleftrightarrow> d = 0 \<and> x = y" for x y :: u8 by (simp add: or_eq_0_iff)
  with Cons show ?case by (cases p) auto
qed simp

lemma constant_time_eq_iff: "constant_time_eq a b \<longleftrightarrow> a = b"
  by (auto simp: constant_time_eq_def fold_diff list_eq_iff_zip_eq in_set_zip)

lemma transcript_commute: "hs_pubkey a \<noteq> hs_pubkey b \<Longrightarrow> transcript a b = transcript b a"
  by (auto simp: transcript_def)

definition side_ok :: "handshake_side \<Rightarrow> bool" where
  "side_ok h = (length (hs_pubkey h) = 32 \<and> length (hs_nonce h) = 16
     \<and> length (hs_device h) < 2 ^ 32 \<and> length (hs_name h) < 2 ^ 32)"

lemma side_bytes_inject:
  assumes "side_ok a" "side_ok b"
  shows "side_bytes a @ r = side_bytes b @ s \<longleftrightarrow> a = b \<and> r = s"
  using assms by (auto simp: side_bytes_def side_ok_def str_field_inject)

text \<open>
  The transcript both sides sign determines what each presented: two handshakes with the
  same transcript are between the same two (key, nonce, device id, name) presentations. Whoever
  rewrites a device id or a name in flight therefore changes the transcript, and with it the
  message the confirmation tag is computed over. The comparison of the tags is equality.
\<close>

lemma transcript_binds_identities:
  assumes "side_ok a" "side_ok b" "side_ok a'" "side_ok b'"
  shows "(transcript a b = transcript a' b' \<longrightarrow> {a, b} = {a', b'})
    \<and> (hs_pubkey a \<noteq> hs_pubkey b \<longrightarrow> transcript a b = transcript b a)
    \<and> (constant_time_eq s t \<longleftrightarrow> s = t)"
proof -
  have "{a, b} = {a', b'}" if "transcript a b = transcript a' b'"
    using that assms side_bytes_inject[where r = "side_bytes x" and s = "side_bytes y" for x y]
      side_bytes_inject[where r = "[]" and s = "[]"]
    by (auto simp: transcript_def split: if_splits)
  then show ?thesis by (simp add: transcript_commute constant_time_eq_iff)
qed

section \<open>The pin-store interface\<close>

text \<open>What the handshake needs of a trust store: a recorded pin is what a lookup then returns.\<close>

locale pin_store =
  fixes T :: "'s trust_port"
  assumes record_pins: "tp_record T r s = (Inr (), t) \<Longrightarrow> tp_lookup T t (tr_device r) = Inr (Some r)"
begin

lemma pin_peer_ok:
  assumes "pin_peer T dev fp name now s = (Inr newly, t)"
  shows "\<exists>r. tp_lookup T t dev = Inr (Some r) \<and> tr_fingerprint r = fp
    \<and> (if newly then tp_lookup T s dev = Inr None \<and> r = new_pin dev fp name now else t = s)"
  using assms record_pins[of "new_pin dev fp name now" s t]
  by (auto simp: pin_peer_def new_pin_def split: sum.splits option.splits if_splits prod.splits)

lemma pin_peer_known:
  "tp_lookup T s dev = Inr (Some r) \<Longrightarrow> pin_peer T dev fp name now s =
     (if tr_fingerprint r = fp then Inr False
      else Inl (EEncryption (''peer '' @ dev @ '' key changed since it was trusted (possible MITM)'')), s)"
  by (simp add: pin_peer_def)

lemma authenticate_sound:
  assumes "authenticate P A send T me our_nonce now inbound s = (out, Some (Inr sess), t)"
  shows "\<exists>pub peer_nonce keys rest rest' r.
      recv_auth A inbound = Some (Inr (AuthHello (as_peer_id sess) (as_peer_name sess) pub peer_nonce), rest)
    \<and> key_exchange P (id_secret me) pub = Inr keys
    \<and> as_transcript sess = transcript
         \<lparr>hs_pubkey = id_public me, hs_nonce = our_nonce, hs_device = id_device me, hs_name = id_name me\<rparr>
         \<lparr>hs_pubkey = pub, hs_nonce = peer_nonce, hs_device = as_peer_id sess, hs_name = as_peer_name sess\<rparr>
    \<and> recv_auth A rest = Some (Inr (AuthConfirm (auth_hmac P (sk_recv keys) (as_transcript sess))), rest')
    \<and> tp_lookup T t (as_peer_id sess) = Inr (Some r) \<and> tr_fingerprint r = fingerprint P pub
    \<and> (if as_newly_trusted sess
       then tp_lookup T s (as_peer_id sess) = Inr None \<and> r = new_pin (as_peer_id sess) (fingerprint P pub) (as_peer_name sess) now
       else t = s)"
  using assms
  by (auto simp: authenticate_def auth_finish_def Let_def constant_time_eq_iff dest!: pin_peer_ok
      split: sum.splits option.splits prod.splits auth_msg.splits if_splits)

end

lemma fs_record_pins:
  assumes "trust_record_op i r s = (Inr (), t)"
  shows "trust_lookup t (tr_device r) = Some r"
proof -
  let ?s = "with_record (tr_device r) r s"
  have "t = ?s\<lparr>ft_cache := merge_cache [tr_device r] ?s, ft_disk := Some (map (on_disk \<circ> snd) (merge_cache [tr_device r] ?s))\<rparr>"
    using assms by (simp add: trust_record_op_def persist_eq flip: with_record_def split: option.splits)
  moreover have "map_of (merge_cache [tr_device r] ?s) (tr_device r) = Some r" by (simp add: map_of_merge_cache merged_def)
  ultimately show ?thesis by (simp add: trust_lookup_def)
qed

lemma fs_port_simps: "tp_lookup (fs_port i) s dev = Inr (trust_lookup s dev)" "tp_record (fs_port i) = trust_record_op i"
  by (simp_all add: fs_port_def)

interpretation fs: pin_store "fs_port i" for i
  by unfold_locales (simp add: fs_port_def fs_record_pins)

text \<open>
  C13. No session without a confirmed and pinned key: when the handshake hands out a session,
  the peer presented the id and name the session carries with some public key, its confirmation
  is the tag that only the shared secret with that key gives over the transcript of exactly
  these presentations, and the trust store now holds that key's fingerprint for that id. If the
  id was pinned before, it was pinned to this key and the store did not change; if not, the
  fresh pin approves and permits nothing.
\<close>

theorem authenticated_peer_is_pinned:
  assumes "authenticate P A send (fs_port i) me our_nonce now inbound s = (out, Some (Inr sess), t)"
  shows "\<exists>pub peer_nonce keys rest rest' r.
      recv_auth A inbound = Some (Inr (AuthHello (as_peer_id sess) (as_peer_name sess) pub peer_nonce), rest)
    \<and> key_exchange P (id_secret me) pub = Inr keys
    \<and> as_transcript sess = transcript
         \<lparr>hs_pubkey = id_public me, hs_nonce = our_nonce, hs_device = id_device me, hs_name = id_name me\<rparr>
         \<lparr>hs_pubkey = pub, hs_nonce = peer_nonce, hs_device = as_peer_id sess, hs_name = as_peer_name sess\<rparr>
    \<and> recv_auth A rest = Some (Inr (AuthConfirm (auth_hmac P (sk_recv keys) (as_transcript sess))), rest')
    \<and> trust_lookup t (as_peer_id sess) = Some r \<and> tr_fingerprint r = fingerprint P pub
    \<and> (if as_newly_trusted sess
       then trust_lookup s (as_peer_id sess) = None \<and> \<not> (\<exists>p at. may t (as_peer_id sess) p at) \<and> \<not> tr_auto_accept r
       else t = s)"
proof -
  obtain pub peer_nonce keys rest rest' r where
      *: "recv_auth A inbound = Some (Inr (AuthHello (as_peer_id sess) (as_peer_name sess) pub peer_nonce), rest)"
      "key_exchange P (id_secret me) pub = Inr keys"
      "as_transcript sess = transcript
         \<lparr>hs_pubkey = id_public me, hs_nonce = our_nonce, hs_device = id_device me, hs_name = id_name me\<rparr>
         \<lparr>hs_pubkey = pub, hs_nonce = peer_nonce, hs_device = as_peer_id sess, hs_name = as_peer_name sess\<rparr>"
      "recv_auth A rest = Some (Inr (AuthConfirm (auth_hmac P (sk_recv keys) (as_transcript sess))), rest')"
      "trust_lookup t (as_peer_id sess) = Some r" "tr_fingerprint r = fingerprint P pub"
      "if as_newly_trusted sess
       then trust_lookup s (as_peer_id sess) = None \<and> r = new_pin (as_peer_id sess) (fingerprint P pub) (as_peer_name sess) now
       else t = s"
    using fs.authenticate_sound[OF assms, unfolded fs_port_simps sum.inject] by (elim exE conjE) (rule that)
  have "\<not> may t (as_peer_id sess) p at \<and> \<not> tr_auto_accept r" if "as_newly_trusted sess" for p at
    using *(5,7) that by (simp add: may_eq new_pin_def effective_permissions_at_def)
  with * show ?thesis by (intro exI[of _ pub] exI[of _ peer_nonce] exI[of _ keys] exI[of _ rest] exI[of _ rest'] exI[of _ r]) auto
qed

section \<open>Honest peers\<close>

definition identity_ok :: "prims \<Rightarrow> identity \<Rightarrow> bool" where
  "identity_ok P me = (id_public me = x25519_public P (id_secret me))"

text \<open>The peer is either unknown to the store or pinned to its real key.\<close>

definition pin_agrees :: "prims \<Rightarrow> fs_trust \<Rightarrow> identity \<Rightarrow> bool" where
  "pin_agrees P s peer = (\<forall>r. trust_lookup s (id_device peer) = Some r \<longrightarrow> tr_fingerprint r = fingerprint P (id_public peer))"

lemma pin_peer_agrees:
  assumes "pin_agrees P s peer" "io_read_error i = None" "io_write_error i = None"
  shows "\<exists>t. pin_peer (fs_port i) (id_device peer) (fingerprint P (id_public peer)) name now s
      = (Inr (trust_lookup s (id_device peer) = None), t)"
  using assms
  by (auto simp: pin_peer_def fs_port_def pin_agrees_def trust_record_op_def persist_eq split: option.splits)

definition hello_of :: "auth_json \<Rightarrow> identity \<Rightarrow> bytes \<Rightarrow> link_frame" where
  "hello_of A me n = auth_frame A (AuthHello (id_device me) (id_name me) (id_public me) n)"

definition side_of :: "identity \<Rightarrow> bytes \<Rightarrow> handshake_side" where
  "side_of me n = \<lparr>hs_pubkey = id_public me, hs_nonce = n, hs_device = id_device me, hs_name = id_name me\<rparr>"

lemma recv_auth_frame [simp]: "auth_json_ok A \<Longrightarrow> recv_auth A (Inr (Some (auth_frame A m)) # rest) = Some (Inr m, rest)"
  by (simp add: auth_frame_def auth_json_ok_def)

declare recv_auth.simps(2) [simp del]

lemma authenticate_honest:
  assumes A: "auth_json_ok A" and up: "\<forall>f. send f = Inr ()" and pin: "pin_agrees P s peer"
    and io: "io_read_error i = None" "io_write_error i = None"
    and k: "key_exchange P (id_secret me) (id_public peer) = Inr keys"
  shows "\<exists>t. authenticate P A send (fs_port i) me n now
      [Inr (Some (hello_of A peer m)), Inr (Some (auth_frame A (AuthConfirm (auth_hmac P (sk_recv keys) (transcript (side_of me n) (side_of peer m))))))] s
    = ([hello_of A me n, auth_frame A (AuthConfirm (auth_hmac P (sk_send keys) (transcript (side_of me n) (side_of peer m))))],
       Some (Inr (auth_finish P keys (transcript (side_of me n) (side_of peer m)) (id_device peer) (id_name peer)
         (trust_lookup s (id_device peer) = None) (id_public me) (id_public peer))), t)"
proof -
  obtain t where "pin_peer (fs_port i) (id_device peer) (fingerprint P (id_public peer)) (id_name peer) now s
      = (Inr (trust_lookup s (id_device peer) = None), t)"
    using pin_peer_agrees[OF pin io] by blast
  then show ?thesis using A up k
    by (simp add: authenticate_def Let_def hello_of_def side_of_def constant_time_eq_iff)
qed

lemma pinned_after:
  assumes "authenticate P A send (fs_port i) me n now inbound s = (out, Some (Inr sess), t)"
    and "recv_auth A inbound = Some (Inr (AuthHello dev name pub m), rest)"
  shows "map_option tr_fingerprint (trust_lookup t dev) = Some (fingerprint P pub)"
  using fs.authenticate_sound[OF assms(1), unfolded fs_port_simps sum.inject] assms(2) by auto

lemma session_open_auth:
  "session_open P J send role config me auth registry fresh received now = (w, Inr s) \<Longrightarrow>
     ss_peer s = as_peer_id auth \<and> ss_pairing_code s = as_pairing_code auth \<and> ss_transcript s = as_transcript auth
     \<and> ss_newly_trusted s = as_newly_trusted auth"
  by (auto simp: session_open_def Let_def assemble_def session_emit_def with_registry_def
      split: sum.splits prod.splits version_negotiation.splits)

lemma auth_finish_mirror:
  assumes "sk_send ka = sk_recv kb" "sk_recv ka = sk_send kb"
  shows "auth_mirror (auth_finish P ka tr d n w p q) (auth_finish P kb tr d' n' w' p' q')"
  using assms by (simp add: auth_mirror_def auth_finish_def Let_def)

lemma auth_finish_simps [simp]:
  "as_peer_id (auth_finish P k tr d n w p q) = d" "as_transcript (auth_finish P k tr d n w p q) = tr"
  "as_pairing_code (auth_finish P k tr d n w p q) = pairing_code P p q" "as_newly_trusted (auth_finish P k tr d n w p q) = w"
  by (simp_all add: auth_finish_def Let_def)

text \<open>
  C12. Two honest devices connect: over working links and with primitives that behave as
  documented, two devices with different keys, compatible versions, and stores that either do
  not know the other or have its real key pinned, both end \<open>PeerSession::open\<close> with an active
  session - with each other, with the same id, version, capabilities, pairing code and
  transcript, and with control channels that read each other; each store then has the other's
  key pinned.
\<close>

theorem honest_peers_open_session:
  assumes P: "hmac_len P" "gcm_ok P" "\<forall>k n p. gcm_encrypt P k n p \<noteq> None" "dh_ok P" and J: "json_ok J" "auth_json_ok A"
    and up: "\<forall>f. send f = Inr ()" "\<forall>bs. csend bs = Inr ()" and io: "io_read_error i = None" "io_write_error i = None"
    and ids: "identity_ok P a" "identity_ok P b" "id_public a \<noteq> id_public b" "contributory P (x25519_dh P (id_secret a) (id_public b))"
    and pins: "pin_agrees P s b" "pin_agrees P t a"
    and cfg: "hello_frame_ok J ca fresh" "hello_frame_ok J cb fresh" "major (sg_version ca) = major (sg_version cb)"
  shows "\<exists>fa fb wa wb sa sb s' t'.
      peer_session_open P J A send csend Initiator ca a (fs_port i) (Inr (Some la)) na ka (map (Inr \<circ> Some) fb) ra fresh (Inr (Some wb)) ua s
        = (fa, [wa], Inr sa, s')
    \<and> peer_session_open P J A send csend Responder cb b (fs_port i) (Inr (Some lb)) nb kb (map (Inr \<circ> Some) fa) rb other (Inr (Some wa)) ub t
        = (fb, [wb], Inr sb, t')
    \<and> ss_state sa = Active \<and> ss_state sb = Active \<and> ss_peer sa = id_device b \<and> ss_peer sb = id_device a
    \<and> ss_id sa = ss_id sb \<and> ss_version sa = ss_version sb \<and> ss_capabilities sa = ss_capabilities sb
    \<and> ss_pairing_code sa = ss_pairing_code sb \<and> ss_transcript sa = ss_transcript sb
    \<and> paired (ss_crypto sa) (ss_crypto sb) \<and> paired (ss_crypto sb) (ss_crypto sa)
    \<and> map_option tr_fingerprint (trust_lookup s' (id_device b)) = Some (fingerprint P (id_public b))
    \<and> map_option tr_fingerprint (trust_lookup t' (id_device a)) = Some (fingerprint P (id_public a))"
proof -
  have pub: "id_public a = x25519_public P (id_secret a)" "id_public b = x25519_public P (id_secret b)"
    using ids(1,2) by (simp_all add: identity_ok_def)
  obtain xa xb where k: "key_exchange P (id_secret a) (id_public b) = Inr xa" "key_exchange P (id_secret b) (id_public a) = Inr xb"
      "sk_send xa = sk_recv xb" "sk_recv xa = sk_send xb"
      and pc: "pairing_code P (id_public a) (id_public b) = pairing_code P (id_public b) (id_public a)"
    using key_exchange_mirrored[OF P(4), of "id_secret a" "id_secret b"] ids(3,4)
    by (auto simp: pub key_exchange_def Let_def split: sum.splits if_splits)
  have tr: "transcript (side_of b nb) (side_of a na) = transcript (side_of a na) (side_of b nb)"
    by (rule transcript_commute) (simp add: side_of_def ids(3)[symmetric])
  let ?tr = "transcript (side_of a na) (side_of b nb)"
  let ?fa = "[hello_of A a na, auth_frame A (AuthConfirm (auth_hmac P (sk_send xa) ?tr))]"
  let ?fb = "[hello_of A b nb, auth_frame A (AuthConfirm (auth_hmac P (sk_send xb) ?tr))]"
  let ?aa = "auth_finish P xa ?tr (id_device b) (id_name b) (trust_lookup s (id_device b) = None) (id_public a) (id_public b)"
  let ?ab = "auth_finish P xb ?tr (id_device a) (id_name a) (trust_lookup t (id_device a) = None) (id_public b) (id_public a)"
  obtain s' where s': "authenticate P A send (fs_port i) a na ka (map (Inr \<circ> Some) ?fb) s = (?fa, Some (Inr ?aa), s')"
    using authenticate_honest[OF J(2) up(1) pins(1) io k(1), of na ka nb] by (auto simp: k(4))
  obtain t' where t': "authenticate P A send (fs_port i) b nb kb (map (Inr \<circ> Some) ?fa) t = (?fb, Some (Inr ?ab), t')"
    using authenticate_honest[OF J(2) up(1) pins(2) io k(2), of nb kb na] by (auto simp: k(3) tr)
  have mir: "auth_mirror ?aa ?ab" by (rule auth_finish_mirror[OF k(3,4)])
  obtain wa wb sa sb where o:
      "session_open P J csend Initiator ca (id_device a) ?aa ra fresh (Inr (Some wb)) ua = ([wa], Inr sa)"
      "session_open P J csend Responder cb (id_device b) ?ab rb other (Inr (Some wa)) ub = ([wb], Inr sb)"
      "ss_id sa = fresh" "ss_id sb = fresh" "ss_state sa = Active" "ss_state sb = Active" "ss_version sa = ss_version sb"
      "ss_capabilities sa = ss_capabilities sb" "paired (ss_crypto sa) (ss_crypto sb)" "paired (ss_crypto sb) (ss_crypto sa)"
    using session_open_mirrored[OF P(1-3) J(1) up(2) mir cfg(1,2), where la = "id_device a" and lb = "id_device b"
        and rega = ra and regb = rb and ta = ua and tb = ub and other = other] unfolding if_P[OF cfg(3)]
    by (elim exE conjE) (rule that; simp)
  have "map_option tr_fingerprint (trust_lookup s' (id_device b)) = Some (fingerprint P (id_public b))"
    using pinned_after[OF s'] J(2) by (auto simp: hello_of_def)
  moreover have "map_option tr_fingerprint (trust_lookup t' (id_device a)) = Some (fingerprint P (id_public a))"
    using pinned_after[OF t'] J(2) by (auto simp: hello_of_def)
  ultimately show ?thesis
    using o s' t' session_open_auth[OF o(1)] session_open_auth[OF o(2)] pc
    by (intro exI[of _ ?fa] exI[of _ ?fb] exI[of _ wa] exI[of _ wb] exI[of _ sa] exI[of _ sb] exI[of _ s'] exI[of _ t'])
       (simp add: peer_session_open_def)
qed

section \<open>Witnesses\<close>

definition toy_auth_json :: auth_json where
  "toy_auth_json =
     \<lparr>aj_enc = (\<lambda>m. case m of
        AuthHello d n p k \<Rightarrow> 0 # toy_put (str_bytes d) @ toy_put (str_bytes n) @ toy_put p @ toy_put k
      | AuthConfirm t \<Rightarrow> 1 # toy_put t),
      aj_dec = (\<lambda>bs. case bs of
        [] \<Rightarrow> Inl ''empty''
      | t # r \<Rightarrow>
          if t = 0 then
            (case toy_get r of (d, r) \<Rightarrow> case toy_get r of (n, r) \<Rightarrow> case toy_get r of (p, r) \<Rightarrow>
               Inr (AuthHello (toy_str d) (toy_str n) p (fst (toy_get r))))
          else Inr (AuthConfirm (fst (toy_get r))))\<rparr>"

lemma toy_auth_json_ok: "auth_json_ok toy_auth_json"
  unfolding auth_json_ok_def
proof
  show "aj_dec toy_auth_json (aj_enc toy_auth_json m) = Inr m" for m by (cases m) (simp_all add: toy_auth_json_def)
qed

definition toy_identity :: "bool \<Rightarrow> identity" where
  "toy_identity ini = \<lparr>id_device = (if ini then ''a'' else ''b''), id_name = [], id_public = (if ini then [1] else [2]),
     id_secret = (if ini then [1] else [2])\<rparr>"

definition toy_empty :: fs_trust where
  "toy_empty = \<lparr>ft_cache = [], ft_disk = None\<rparr>"

lemma toy_parties:
  "identity_ok toy_prims (toy_identity b)" "id_public (toy_identity True) \<noteq> id_public (toy_identity False)"
  "contributory toy_prims (x25519_dh toy_prims (id_secret (toy_identity True)) (id_public (toy_identity False)))"
  "pin_agrees toy_prims toy_empty me" "io_read_error toy_io = None" "io_write_error toy_io = None"
  by (simp_all add: identity_ok_def toy_identity_def toy_prims_def pin_agrees_def toy_empty_def trust_lookup_def toy_io_def)

lemma transcript_binds_identities_witness:
  "transcript \<lparr>hs_pubkey = replicate 32 0, hs_nonce = replicate 16 0, hs_device = ''a'', hs_name = ''x''\<rparr>
              \<lparr>hs_pubkey = replicate 32 1, hs_nonce = replicate 16 0, hs_device = ''b'', hs_name = []\<rparr>
   \<noteq> transcript \<lparr>hs_pubkey = replicate 32 0, hs_nonce = replicate 16 0, hs_device = ''m'', hs_name = ''x''\<rparr>
              \<lparr>hs_pubkey = replicate 32 1, hs_nonce = replicate 16 0, hs_device = ''b'', hs_name = []\<rparr>"
proof -
  let ?b = "\<lparr>hs_pubkey = replicate 32 1, hs_nonce = replicate 16 0, hs_device = ''b'', hs_name = []\<rparr>"
  let ?a = "\<lambda>d. \<lparr>hs_pubkey = replicate 32 0, hs_nonce = replicate 16 0, hs_device = d, hs_name = ''x''\<rparr>"
  have ok: "side_ok ?b" "side_ok (?a ''a'')" "side_ok (?a ''m'')" by (simp_all add: side_ok_def)
  show ?thesis using transcript_binds_identities[OF ok(2,1) ok(3,1), of "[]" "[]"] by (auto simp: doubleton_eq_iff)
qed

theorem authenticated_peer_is_pinned_witness:
  "\<exists>inbound out sess t r. authenticate toy_prims toy_auth_json (\<lambda>_. Inr ()) (fs_port toy_io) (toy_identity True) [5] 7 inbound toy_empty
      = (out, Some (Inr sess), t)
    \<and> trust_lookup t ''b'' = Some r \<and> tr_fingerprint r = fingerprint toy_prims [2]"
proof -
  let ?me = "toy_identity True" and ?peer = "toy_identity False"
  obtain keys where k: "key_exchange toy_prims (id_secret ?me) (id_public ?peer) = Inr keys"
    by (simp add: key_exchange_def Let_def toy_prims_def toy_identity_def)
  obtain t where t: "authenticate toy_prims toy_auth_json (\<lambda>_. Inr ()) (fs_port toy_io) ?me [5] 7
      [Inr (Some (hello_of toy_auth_json ?peer [6])), Inr (Some (auth_frame toy_auth_json (AuthConfirm
         (auth_hmac toy_prims (sk_recv keys) (transcript (side_of ?me [5]) (side_of ?peer [6]))))))] toy_empty
    = ([hello_of toy_auth_json ?me [5], auth_frame toy_auth_json (AuthConfirm
         (auth_hmac toy_prims (sk_send keys) (transcript (side_of ?me [5]) (side_of ?peer [6]))))],
       Some (Inr (auth_finish toy_prims keys (transcript (side_of ?me [5]) (side_of ?peer [6])) (id_device ?peer) (id_name ?peer)
         (trust_lookup toy_empty (id_device ?peer) = None) (id_public ?me) (id_public ?peer))), t)"
    using authenticate_honest[OF toy_auth_json_ok _ toy_parties(4-6) k, of "\<lambda>_. Inr ()" "[5]" 7 "[6]"] by auto
  have d: "id_device ?peer = ''b''" "id_public ?peer = [2]" by (simp_all add: toy_identity_def)
  obtain r where "trust_lookup t ''b'' = Some r" "tr_fingerprint r = fingerprint toy_prims [2]"
    using authenticated_peer_is_pinned[OF t] toy_auth_json_ok by (auto simp: hello_of_def d)
  with t show ?thesis by blast
qed

theorem honest_peers_open_session_witness:
  "\<exists>fa fb wa wb sa sb s' t'.
      peer_session_open toy_prims toy_hello_json toy_auth_json (\<lambda>_. Inr ()) (\<lambda>_. Inr ()) Initiator toy_config (toy_identity True)
        (fs_port toy_io) (Inr (Some 0)) [5] 0 (map (Inr \<circ> Some) fb) None [] (Inr (Some wb)) 0 toy_empty = (fa, [wa], Inr sa, s')
    \<and> peer_session_open toy_prims toy_hello_json toy_auth_json (\<lambda>_. Inr ()) (\<lambda>_. Inr ()) Responder toy_config (toy_identity False)
        (fs_port toy_io) (Inr (Some 0)) [6] 0 (map (Inr \<circ> Some) fa) None [] (Inr (Some wa)) 0 toy_empty = (fb, [wb], Inr sb, t')
    \<and> ss_id sa = ss_id sb"
  using honest_peers_open_session[OF toy_hmac toy_gcm toy_gcm_total toy_dh toy_hello_json_ok toy_auth_json_ok _ _ toy_parties(5,6,1,1,2,3)
      toy_parties(4,4) toy_hello_frame toy_hello_frame refl, of "\<lambda>_. Inr ()" "\<lambda>_. Inr ()" 0 "[5]" 0 None 0 0 "[6]" 0 None "[]" 0]
  by (elim meta_impE) (simp, simp, blast)

end
