(* ===== verification/PB_Paths.thy ===== *)
theory PB_Paths
  imports PB_Prelude
begin

text \<open>
  Paths on the wire and as storage keys: \<open>peerbeam-domain/src/wire_path.rs\<close>, the record keys of
  \<open>peerbeam-sync/src/index.rs\<close> and the namespace slugs of \<open>index.rs\<close> and \<open>store.rs\<close>.

  A host path is the list of its components. How a host splits a string into components differs
  between platforms, so \<open>local_path\<close> takes the host's \<open>Path::components\<close> as an argument;
  \<open>components_unix\<close> is the one of Unix.

  Shown here: a path a peer names lands below the root or nowhere, on every host; a path inside a
  folder survives the wire; record keys and namespaces never collide and stay within the
  alphabet the store accepts.
\<close>

section \<open>Components\<close>

datatype path_component = Prefix string | RootDir | CurDir | ParentDir | Normal string

type_synonym path = "path_component list"

fun split_on :: "char \<Rightarrow> string \<Rightarrow> string list" where
  "split_on c [] = [[]]"
| "split_on c (x # s) =
     (if x = c then [] # split_on c s
      else case split_on c s of seg # segs \<Rightarrow> (x # seg) # segs | [] \<Rightarrow> [[x]])"

text \<open>Empty and \<open>.\<close> segments vanish, except a leading \<open>.\<close>.\<close>

definition components_unix :: "string \<Rightarrow> path" where
  "components_unix s =
     (let segs = split_on (CHR ''/'') s;
          keep = List.map_filter (\<lambda>seg. if seg = [] \<or> seg = ''.'' then None
                                        else if seg = ''..'' then Some ParentDir else Some (Normal seg))
      in case segs of
           [] \<Rightarrow> []
         | seg # rest \<Rightarrow>
             if seg = [] \<and> s \<noteq> [] then RootDir # keep rest
             else if seg = ''.'' then CurDir # keep rest
             else keep segs)"

section \<open>Wire paths\<close>

fun join_with :: "char \<Rightarrow> string list \<Rightarrow> string" where
  "join_with c [] = []"
| "join_with c [s] = s"
| "join_with c (s # t # ss) = s @ c # join_with c (t # ss)"

definition wire_path :: "path \<Rightarrow> string" where
  "wire_path rel = join_with (CHR ''/'') (List.map_filter (\<lambda>c. case c of Normal part \<Rightarrow> Some part | _ \<Rightarrow> None) rel)"

definition local_segment :: "(string \<Rightarrow> path) \<Rightarrow> string \<Rightarrow> path \<Rightarrow> path" where
  "local_segment host seg out =
     (if seg = [] \<or> seg = ''.'' \<or> seg = ''..'' then out
      else case host seg of [Normal name] \<Rightarrow> out @ [Normal name] | _ \<Rightarrow> out)"

definition local_path :: "(string \<Rightarrow> path) \<Rightarrow> path \<Rightarrow> string \<Rightarrow> path" where
  "local_path host root rel = fold (local_segment host) (split_on (CHR ''/'') rel) root"

section \<open>Storage keys\<close>

definition replace_char :: "char \<Rightarrow> string \<Rightarrow> string \<Rightarrow> string" where
  "replace_char c w s = concat (map (\<lambda>x. if x = c then w else [x]) s)"

definition record_key :: "string \<Rightarrow> string" where
  "record_key path = replace_char (CHR ''/'') ''%2F'' (replace_char (CHR ''%'') ''%25'' path)"

definition is_ascii_alphanumeric :: "char \<Rightarrow> bool" where
  "is_ascii_alphanumeric c = (let n = of_char c :: nat in 48 \<le> n \<and> n \<le> 57 \<or> 65 \<le> n \<and> n \<le> 90 \<or> 97 \<le> n \<and> n \<le> 122)"

definition slug_byte :: "char \<Rightarrow> string" where
  "slug_byte c =
     (if is_ascii_alphanumeric c \<or> c = CHR ''.'' \<or> c = CHR ''-'' then [c]
      else if c = CHR ''_'' then ''__''
      else CHR ''_'' # hex_byte_upper (of_char c))"

definition namespace_slug :: "string \<Rightarrow> string" where
  "namespace_slug folder = concat (map slug_byte folder)"

section \<open>Containment and the round trip\<close>

lemma split_on_ne [simp]: "split_on c s \<noteq> []"
  by (induction s) (auto split: list.splits)

lemma split_on_one: "c \<notin> set s \<Longrightarrow> split_on c s = [s]"
  by (induction s) auto

lemma split_on_app: "c \<notin> set s \<Longrightarrow> split_on c (s @ c # t) = s # split_on c t"
  by (induction s) (auto split: list.splits)

lemma split_on_join:
  assumes "segs \<noteq> []" "\<forall>s \<in> set segs. c \<notin> set s"
  shows "split_on c (join_with c segs) = segs"
  using assms by (induction c segs rule: join_with.induct) (auto simp: split_on_one split_on_app)

lemma local_path_extends:
  "\<exists>names. local_path host root rel = root @ map Normal names \<and> set names \<subseteq> {n. \<exists>seg. host seg = [Normal n]}"
proof -
  have "\<exists>names. fold (local_segment host) segs out = out @ map Normal names \<and> set names \<subseteq> {n. \<exists>seg. host seg = [Normal n]}" for segs out
  proof (induction segs arbitrary: out)
    case (Cons seg segs)
    have "\<exists>names. local_segment host seg out = out @ map Normal names \<and> set names \<subseteq> {n. \<exists>seg. host seg = [Normal n]}"
    proof (cases "seg \<noteq> [] \<and> seg \<noteq> ''.'' \<and> seg \<noteq> ''..'' \<and> (\<exists>n. host seg = [Normal n])")
      case True
      then obtain n where "host seg = [Normal n]" by blast
      with True have "local_segment host seg out = out @ map Normal [n] \<and> set [n] \<subseteq> {n. \<exists>seg. host seg = [Normal n]}"
        by (auto simp: local_segment_def)
      then show ?thesis by blast
    next
      case False
      then have "local_segment host seg out = out"
        by (auto simp: local_segment_def split: list.splits path_component.splits)
      then show ?thesis by (intro exI[of _ "[]"]) simp
    qed
    then obtain ns where ns: "local_segment host seg out = out @ map Normal ns" "set ns \<subseteq> {n. \<exists>seg. host seg = [Normal n]}" by blast
    obtain ms where "fold (local_segment host) segs (out @ map Normal ns) = (out @ map Normal ns) @ map Normal ms"
      "set ms \<subseteq> {n. \<exists>seg. host seg = [Normal n]}"
      using Cons by blast
    with ns show ?case by (intro exI[of _ "ns @ ms"]) simp
  qed (intro exI[of _ "[]"], simp)
  then show ?thesis by (simp add: local_path_def)
qed

text \<open>Names a host keeps as they are: what a directory listing returns.\<close>

definition plain_name :: "(string \<Rightarrow> path) \<Rightarrow> string \<Rightarrow> bool" where
  "plain_name host n = (n \<noteq> [] \<and> n \<noteq> ''.'' \<and> n \<noteq> ''..'' \<and> CHR ''/'' \<notin> set n \<and> host n = [Normal n])"

lemma wire_path_names: "wire_path (map Normal names) = join_with (CHR ''/'') names"
proof -
  have "List.map_filter (\<lambda>c. case c of Normal part \<Rightarrow> Some part | _ \<Rightarrow> None) (map Normal names) = names"
    by (induction names) (simp_all add: List.map_filter_def)
  then show ?thesis by (simp add: wire_path_def)
qed

lemma local_path_names:
  assumes "\<forall>n \<in> set names. plain_name host n"
  shows "local_path host root (wire_path (map Normal names)) = root @ map Normal names"
proof (cases "names = []")
  case True
  then show ?thesis by (simp add: wire_path_def List.map_filter_def local_path_def local_segment_def)
next
  case False
  have "fold (local_segment host) names root = root @ map Normal names"
    using assms by (induction names arbitrary: root) (auto simp: local_segment_def plain_name_def)
  then show ?thesis using split_on_join[OF False, of "CHR ''/''"] assms
    by (simp add: wire_path_names local_path_def plain_name_def)
qed

lemma plain_name_unix: "plain_name components_unix n \<longleftrightarrow> n \<noteq> [] \<and> n \<noteq> ''.'' \<and> n \<noteq> ''..'' \<and> CHR ''/'' \<notin> set n"
proof -
  show ?thesis using split_on_one[of "CHR ''/''" n] by (auto simp: plain_name_def components_unix_def Let_def List.map_filter_def)
qed



section \<open>Keys never collide\<close>

definition key_byte :: "char \<Rightarrow> string" where
  "key_byte c = (if c = CHR ''%'' then ''%25'' else if c = CHR ''/'' then ''%2F'' else [c])"

lemma record_key_bytes: "record_key p = concat (map key_byte p)"
  by (induction p) (auto simp: record_key_def replace_char_def key_byte_def)

interpretation key: prefix_code key_byte
  by unfold_locales (auto simp: key_byte_def split: if_splits)

lemma char_less_256: "(of_char c :: nat) < 256"
  using unat_u8_less[of "of_char c"] by (simp add: unat_of_char)

lemma char_nibbles: "(of_char c :: nat) div 16 < 16" "(of_char c :: nat) mod 16 < 16"
  using char_less_256[of c] by (simp_all add: less_mult_imp_div_less)

lemma hex_digit_upper_code: "n < 16 \<Longrightarrow> (of_char (hex_digit_upper n) :: nat) = (if n < 10 then 48 + n else 55 + n)"
  by (simp add: hex_digit_upper_def)

lemma hex_byte_upper_inject: "hex_byte_upper (of_char a) @ r = hex_byte_upper (of_char b) @ s \<Longrightarrow> a = b"
proof -
  assume "hex_byte_upper (of_char a) @ r = hex_byte_upper (of_char b) @ s"
  then have "(of_char (hex_digit_upper (of_char a div 16)) :: nat) = of_char (hex_digit_upper (of_char b div 16))"
    "(of_char (hex_digit_upper (of_char a mod 16)) :: nat) = of_char (hex_digit_upper (of_char b mod 16))"
    by (simp_all add: hex_byte_upper_def unat_of_char)
  then have "(of_char a :: nat) div 16 = of_char b div 16" "(of_char a :: nat) mod 16 = of_char b mod 16"
    unfolding hex_digit_upper_code[OF char_nibbles(1)] hex_digit_upper_code[OF char_nibbles(2)] by (simp_all split: if_splits) 
  then have "(of_char a :: nat) = of_char b" by (metis div_mult_mod_eq)
  then show "a = b" by simp
qed

text \<open>What \<open>FsAppStore\<close> accepts in a namespace.\<close>

definition slug_char :: "char \<Rightarrow> bool" where
  "slug_char c = (is_ascii_alphanumeric c \<or> c = CHR ''.'' \<or> c = CHR ''_'' \<or> c = CHR ''-'')"

lemma hex_digit_upper_slug: "n < 16 \<Longrightarrow> is_ascii_alphanumeric (hex_digit_upper n)"
  by (simp add: is_ascii_alphanumeric_def Let_def hex_digit_upper_code)

lemma underscore_not_alnum: "\<not> is_ascii_alphanumeric (CHR ''_'')"
  by (simp add: is_ascii_alphanumeric_def)

lemma slug_byte_chars: "list_all slug_char (slug_byte c)"
proof -
  show ?thesis using char_nibbles[of c]
    by (simp add: slug_byte_def slug_char_def hex_byte_upper_def hex_digit_upper_slug unat_of_char)
qed

definition slug_plain :: "char \<Rightarrow> bool" where
  "slug_plain c = (is_ascii_alphanumeric c \<or> c = CHR ''.'' \<or> c = CHR ''-'')"

lemma slug_byte_eq:
  "slug_byte c = (if slug_plain c then [c] else CHR ''_'' # (if c = CHR ''_'' then ''_'' else hex_byte_upper (of_char c)))"
  by (simp add: slug_byte_def slug_plain_def)

lemma underscore_not_plain: "\<not> slug_plain (CHR ''_'')"
  by (simp add: slug_plain_def underscore_not_alnum)

lemma hex_not_underscore: "hex_byte_upper (of_char c) @ r \<noteq> CHR ''_'' # s"
  using hex_digit_upper_slug[OF char_nibbles(1)[of c]] underscore_not_alnum by (auto simp: hex_byte_upper_def unat_of_char)

lemma slug_prefix_free:
  assumes "slug_byte a @ r = slug_byte b @ s"
  shows "a = b"
proof (cases "slug_plain a \<or> slug_plain b")
  case True
  have "hd (slug_byte a @ r) = hd (slug_byte b @ s)" by (simp add: assms)
  then have "(if slug_plain a then a else CHR ''_'') = (if slug_plain b then b else CHR ''_'')"
    by (simp add: slug_byte_eq split: if_split_asm)
  with True underscore_not_plain show ?thesis by (metis (full_types))
next
  case False
  then have "(if a = CHR ''_'' then ''_'' else hex_byte_upper (of_char a)) @ r
      = (if b = CHR ''_'' then ''_'' else hex_byte_upper (of_char b)) @ s"
    using assms by (simp add: slug_byte_eq)
  then have eq: "wa @ r = wb @ s" if "wa = (if a = CHR ''_'' then ''_'' else hex_byte_upper (of_char a))"
    "wb = (if b = CHR ''_'' then ''_'' else hex_byte_upper (of_char b))" for wa wb
    using that by simp
  consider "a = b" | "a = CHR ''_''" "b \<noteq> CHR ''_''" | "a \<noteq> CHR ''_''" "b = CHR ''_''" | "a \<noteq> CHR ''_''" "b \<noteq> CHR ''_''" by argo
  then show ?thesis
  proof cases
    case 2
    with eq have "''_'' @ r = hex_byte_upper (of_char b) @ s" by presburger
    then show ?thesis using hex_not_underscore[of b s r] by simp
  next
    case 3
    with eq have "hex_byte_upper (of_char a) @ r = ''_'' @ s" by presburger
    then show ?thesis using hex_not_underscore[of a r s] by simp
  next
    case 4
    with eq have "hex_byte_upper (of_char a) @ r = hex_byte_upper (of_char b) @ s" by presburger
    then show ?thesis by (rule hex_byte_upper_inject)
  qed
qed

interpretation slug: prefix_code slug_byte
  by unfold_locales (auto simp: slug_byte_def intro: slug_prefix_free)

text \<open>
  Storage names are faithful: two files of a folder never share a record key and two folders
  never share a namespace; a key contains no separator, and a namespace contains only the
  characters the store accepts, so no folder name makes the store refuse it.
\<close>

lemma storage_names_never_collide:
  "(record_key p = record_key q \<longleftrightarrow> p = q) \<and> CHR ''/'' \<notin> set (record_key p)
   \<and> (namespace_slug f = namespace_slug g \<longleftrightarrow> f = g) \<and> list_all slug_char (namespace_slug f)"
proof -
  have "CHR ''/'' \<notin> set (record_key p)" by (auto simp: record_key_bytes key_byte_def split: if_splits)
  moreover have "list_all slug_char (namespace_slug f)"
    using slug_byte_chars by (induction f) (auto simp: namespace_slug_def)
  ultimately show ?thesis
    using key.concat_esc_inject slug.concat_esc_inject by (simp add: record_key_bytes namespace_slug_def)
qed

end
