(* ===== verification/PB_Fs.thy ===== *)
theory PB_Fs
  imports PB_Prelude "HOL-Library.AList"
begin

text \<open>
  The part of \<open>std::fs\<close> the stores and folder sync use: a tree of files and directories below a
  root directory, and the calls on it with the three kinds of answer the callers tell apart - the
  result, "not found", and any other error. A directory's entries are in the order \<open>read_dir\<close>
  returns them, which nothing relies on. Failures of the device itself (a full disk, a permission)
  are not part of the tree: the operations that can meet one take its answer as an argument.

  A symbolic link is a node of its own; no call here follows one.
\<close>

section \<open>Trees and calls\<close>

datatype fs_node = FileN bytes int | DirN "(string \<times> fs_node) list" | LinkN

type_synonym dirents = "(string \<times> fs_node) list"

datatype 'a io_res = IoOk 'a | IoNotFound | IoErr

fun fs_lookup :: "string list \<Rightarrow> fs_node option \<Rightarrow> fs_node io_res" where
  "fs_lookup p None = IoNotFound"
| "fs_lookup [] (Some n) = IoOk n"
| "fs_lookup (x # p) (Some (DirN es)) = fs_lookup p (map_of es x)"
| "fs_lookup (x # p) (Some _) = IoErr"

definition fs_read :: "string list \<Rightarrow> fs_node option \<Rightarrow> bytes io_res" where
  "fs_read p t = (case fs_lookup p t of
     IoOk (FileN b m) \<Rightarrow> IoOk b | IoOk _ \<Rightarrow> IoErr | IoNotFound \<Rightarrow> IoNotFound | IoErr \<Rightarrow> IoErr)"

definition fs_read_dir :: "string list \<Rightarrow> fs_node option \<Rightarrow> dirents io_res" where
  "fs_read_dir p t = (case fs_lookup p t of
     IoOk (DirN es) \<Rightarrow> IoOk es | IoOk _ \<Rightarrow> IoErr | IoNotFound \<Rightarrow> IoNotFound | IoErr \<Rightarrow> IoErr)"

text \<open>\<open>create_dir_all\<close>: every missing directory on the way; an error when a file is in the way.\<close>

fun fs_mkdirs :: "string list \<Rightarrow> fs_node option \<Rightarrow> fs_node option" where
  "fs_mkdirs [] None = Some (DirN [])"
| "fs_mkdirs [] (Some (DirN es)) = Some (DirN es)"
| "fs_mkdirs [] (Some _) = None"
| "fs_mkdirs (x # p) None = map_option (\<lambda>n. DirN [(x, n)]) (fs_mkdirs p None)"
| "fs_mkdirs (x # p) (Some (DirN es)) = map_option (\<lambda>n. DirN (AList.update x n es)) (fs_mkdirs p (map_of es x))"
| "fs_mkdirs (x # p) (Some _) = None"

text \<open>Replacing what is at a path whose parent directory exists.\<close>

fun fs_set :: "string list \<Rightarrow> fs_node option \<Rightarrow> fs_node option \<Rightarrow> fs_node option" where
  "fs_set [] v t = v"
| "fs_set (x # p) v (Some (DirN es)) =
     Some (DirN (case fs_set p v (map_of es x) of None \<Rightarrow> AList.delete x es | Some n \<Rightarrow> AList.update x n es))"
| "fs_set (x # p) v t = t"

definition fs_remove_file :: "string list \<Rightarrow> fs_node option \<Rightarrow> unit io_res \<times> fs_node option" where
  "fs_remove_file p t = (case fs_lookup p t of
     IoOk (DirN es) \<Rightarrow> (IoErr, t) | IoOk _ \<Rightarrow> (IoOk (), fs_set p None t)
   | IoNotFound \<Rightarrow> (IoNotFound, t) | IoErr \<Rightarrow> (IoErr, t))"

definition fs_remove_dir_all :: "string list \<Rightarrow> fs_node option \<Rightarrow> unit io_res \<times> fs_node option" where
  "fs_remove_dir_all p t = (case fs_lookup p t of
     IoOk (DirN es) \<Rightarrow> (IoOk (), fs_set p None t) | IoOk _ \<Rightarrow> (IoErr, t)
   | IoNotFound \<Rightarrow> (IoNotFound, t) | IoErr \<Rightarrow> (IoErr, t))"

definition fs_is_dir :: "string list \<Rightarrow> fs_node option \<Rightarrow> bool" where
  "fs_is_dir p t = (case fs_lookup p t of IoOk (DirN _) \<Rightarrow> True | _ \<Rightarrow> False)"

text \<open>
  \<open>rename\<close>: a file replaces a file but no directory; a directory replaces nothing or an empty
  directory and does not move below itself. The parent of the destination has to exist.
\<close>

definition fs_rename :: "string list \<Rightarrow> string list \<Rightarrow> fs_node option \<Rightarrow> bool \<times> fs_node option" where
  "fs_rename src dst t =
     (let moved = (\<lambda>n. (True, fs_set dst (Some n) (fs_set src None t)))
      in if src = dst then (case fs_lookup src t of IoOk _ \<Rightarrow> (True, t) | _ \<Rightarrow> (False, t))
         else if dst = [] \<or> \<not> fs_is_dir (butlast dst) t then (False, t)
         else case fs_lookup src t of
                IoOk (DirN es) \<Rightarrow>
                  if take (length src) dst = src then (False, t)
                  else (case fs_lookup dst t of
                          IoNotFound \<Rightarrow> moved (DirN es) | IoOk (DirN []) \<Rightarrow> moved (DirN es) | _ \<Rightarrow> (False, t))
              | IoOk n \<Rightarrow> if fs_is_dir dst t then (False, t) else moved n
              | _ \<Rightarrow> (False, t))"

section \<open>Laws\<close>

text \<open>Two paths neither of which is inside the other.\<close>

fun apart :: "'a list \<Rightarrow> 'a list \<Rightarrow> bool" where
  "apart (x # p) (y # q) = (x \<noteq> y \<or> apart p q)"
| "apart _ _ = False"

lemma apart_snoc: "apart (p @ [x]) (p @ [y]) \<longleftrightarrow> x \<noteq> y"
  by (induction p) auto

lemma apart_sym: "apart p q = apart q p"
  by (induction p q rule: apart.induct) auto

lemma lookup_set_apart: "apart p q \<Longrightarrow> fs_lookup p (fs_set q v t) = fs_lookup p t"
proof (induction q v t arbitrary: p rule: fs_set.induct)
  case (2 y q v es)
  then obtain x p' where p: "p = x # p'" by (cases p) auto
  with 2 show ?case by (auto simp: update_conv' delete_conv' split: option.splits)
qed (auto elim: apart.elims)

text \<open>A path is writable when its parent is a directory.\<close>

lemma lookup_set_same:
  "fs_is_dir p t \<Longrightarrow> fs_lookup (p @ [x]) (fs_set (p @ [x]) v t) = (case v of None \<Rightarrow> IoNotFound | Some n \<Rightarrow> IoOk n)"
proof (induction p t rule: fs_lookup.induct)
  case (2 n)
  then show ?case by (cases n) (auto simp: fs_is_dir_def update_conv' delete_conv' split: option.splits)
next
  case (3 y p es)
  then have d: "fs_is_dir p (map_of es y)" by (simp add: fs_is_dir_def)
  then have "map_of es y \<noteq> None" by (cases "map_of es y") (auto simp: fs_is_dir_def)
  moreover from this d have "fs_set (p @ [x]) v (map_of es y) \<noteq> None"
    by (cases p; cases "map_of es y"; cases "the (map_of es y)") (auto simp: fs_is_dir_def)
  ultimately show ?case using 3(1)[OF d] by (auto simp: update_conv')
qed (auto simp: fs_is_dir_def)

lemma lookup_below_set:
  "fs_is_dir p t \<Longrightarrow> fs_lookup (p @ [y]) (fs_set (p @ [x]) v t) =
     (if y = x then (case v of None \<Rightarrow> IoNotFound | Some n \<Rightarrow> IoOk n) else fs_lookup (p @ [y]) t)"
  using lookup_set_same[of p t x v] lookup_set_apart[of "p @ [y]" "p @ [x]" v t] by (auto simp: apart_snoc)

lemma read_dir_lookup: "fs_read_dir p t = IoOk es \<Longrightarrow> fs_lookup (p @ [x]) t = (case map_of es x of None \<Rightarrow> IoNotFound | Some n \<Rightarrow> IoOk n)"
proof (induction p t rule: fs_lookup.induct)
  case (2 n)
  then show ?case by (cases n; cases "map_of es x") (auto simp: fs_read_dir_def)
qed (auto simp: fs_read_dir_def)

lemma read_dir_is_dir: "fs_is_dir p t \<longleftrightarrow> (\<exists>es. fs_read_dir p t = IoOk es)"
  by (auto simp: fs_is_dir_def fs_read_dir_def split: io_res.splits fs_node.splits)

lemma mkdirs_is_dir: "fs_mkdirs p t = Some n \<Longrightarrow> fs_is_dir p (Some n)"
proof (induction p t arbitrary: n rule: fs_mkdirs.induct)
  case (4 x p)
  then show ?case by (auto simp: fs_is_dir_def)
next
  case (5 x p es)
  then show ?case by (auto simp: fs_is_dir_def update_conv')
qed (auto simp: fs_is_dir_def)

text \<open>Creating directories changes no file and no listing of names but those of new directories.\<close>

lemma mkdirs_read: "fs_mkdirs p t = Some n \<Longrightarrow> fs_read q t \<noteq> IoErr \<Longrightarrow> fs_read q (Some n) = fs_read q t \<or> fs_is_dir q (Some n)"
proof (induction p t arbitrary: n q rule: fs_mkdirs.induct)
  case 1
  then show ?case by (cases q) (auto simp: fs_read_def fs_is_dir_def)
next
  case (4 x p)
  then obtain m where m: "fs_mkdirs p None = Some m" "n = DirN [(x, m)]" by auto
  show ?case
  proof (cases q)
    case (Cons y q')
    then show ?thesis using 4(1)[OF m(1), of q'] m by (auto simp: fs_read_def fs_is_dir_def)
  qed (simp add: m fs_is_dir_def)
next
  case (5 x p es)
  then obtain m where m: "fs_mkdirs p (map_of es x) = Some m" "n = DirN (AList.update x m es)" by auto
  show ?case
  proof (cases q)
    case (Cons y q')
    then show ?thesis using 5(1)[OF m(1), of q'] 5(3) m by (auto simp: fs_read_def fs_is_dir_def update_conv')
  qed (simp add: m fs_is_dir_def)
qed auto

section \<open>Well-formed trees\<close>

text \<open>No directory holds two entries of one name.\<close>

fun fs_ok :: "fs_node \<Rightarrow> bool" where
  "fs_ok (DirN es) = (distinct (map fst es) \<and> list_all (\<lambda>e. fs_ok (snd e)) es)"
| "fs_ok _ = True"

definition fs_wf :: "fs_node option \<Rightarrow> bool" where
  "fs_wf t = (case t of None \<Rightarrow> True | Some n \<Rightarrow> fs_ok n)"

lemma fs_wf_simps [simp]: "fs_wf None" "fs_wf (Some n) = fs_ok n"
  by (simp_all add: fs_wf_def)

lemma fs_wf_entry: "fs_ok (DirN es) \<Longrightarrow> fs_wf (map_of es x)"
  by (cases "map_of es x") (auto simp: list_all_iff dest: map_of_SomeD)

lemma set_update_subset: "set (AList.update x n es) \<subseteq> insert (x, n) (set es)"
  by (induction es) auto

lemma fs_ok_update: "fs_ok (DirN es) \<Longrightarrow> fs_ok n \<Longrightarrow> fs_ok (DirN (AList.update x n es))"
  using set_update_subset[of x n es] by (auto simp: distinct_update list_all_iff)

lemma fs_ok_delete: "fs_ok (DirN es) \<Longrightarrow> fs_ok (DirN (AList.delete x es))"
proof -
  assume "fs_ok (DirN es)"
  then have "distinct (map fst (AList.delete x es))" "\<forall>e \<in> set (AList.delete x es). fs_ok (snd e)"
    by (auto simp: distinct_delete list_all_iff) (auto simp: AList.delete_eq)
  then show ?thesis by (simp add: list_all_iff)
qed

lemma fs_wf_mkdirs: "fs_wf t \<Longrightarrow> fs_mkdirs p t = Some n \<Longrightarrow> fs_ok n"
proof (induction p t arbitrary: n rule: fs_mkdirs.induct)
  case (5 x p es)
  then show ?case by (auto intro!: fs_ok_update dest: fs_wf_entry simp del: fs_ok.simps)
qed auto

lemma fs_wf_set: "fs_wf t \<Longrightarrow> fs_wf v \<Longrightarrow> fs_wf (fs_set p v t)"
proof (induction p v t rule: fs_set.induct)
  case (2 x p v es)
  then have "fs_wf (fs_set p v (map_of es x))" using fs_wf_entry[of es x] by simp
  with 2 show ?case by (auto intro!: fs_ok_update fs_ok_delete simp del: fs_ok.simps split: option.splits)
qed auto

lemma fs_wf_read_dir: "fs_wf t \<Longrightarrow> fs_read_dir p t = IoOk es \<Longrightarrow> fs_ok (DirN es)"
proof (induction p t rule: fs_lookup.induct)
  case (3 x p es')
  then show ?case using fs_wf_entry[of es' x] by (simp add: fs_read_dir_def)
qed (auto simp: fs_read_dir_def split: fs_node.splits)

section \<open>The files of a tree\<close>

text \<open>The regular files of a tree, which is what its users observe.\<close>

definition file_at :: "fs_node option \<Rightarrow> string list \<Rightarrow> (bytes \<times> int) option" where
  "file_at t names = (case fs_lookup names t of IoOk (FileN b m) \<Rightarrow> Some (b, m) | _ \<Rightarrow> None)"

lemma file_at_simps [simp]:
  "file_at None names = None" "file_at (Some n) [] = (case n of FileN b m \<Rightarrow> Some (b, m) | _ \<Rightarrow> None)"
  "file_at (Some (DirN es)) (x # names) = file_at (map_of es x) names"
  "file_at (Some (FileN b m)) (x # names) = None" "file_at (Some LinkN) (x # names) = None"
  by (simp_all add: file_at_def)

definition below :: "string list \<Rightarrow> string list \<Rightarrow> bool" where
  "below p q = (take (length p) q = p)"

lemma below_simps [simp]: "below [] q" "below (x # p) (y # q) = (x = y \<and> below p q)" "\<not> below (x # p) []"
  by (auto simp: below_def)

lemma file_at_set: "\<not> below p q \<Longrightarrow> file_at (fs_set p v t) q = file_at t q"
proof (induction p v t arbitrary: q rule: fs_set.induct)
  case (2 x p v es)
  show ?case
  proof (cases q)
    case (Cons y q')
    then show ?thesis using 2(1)[of q'] 2(2)
      by (cases "x = y") (auto simp: update_conv' delete_conv' split: option.splits)
  qed simp
qed auto

lemma file_at_mkdirs: "fs_mkdirs p t = Some d \<Longrightarrow> file_at (Some d) q = file_at t q"
proof (induction p t arbitrary: d q rule: fs_mkdirs.induct)
  case 1
  then show ?case by (cases q) auto
next
  case (4 x p)
  then show ?case by (cases q) auto
next
  case (5 x p es)
  then show ?case by (cases q) (auto simp: update_conv')
qed auto

lemma file_at_rename: "\<not> below src q \<Longrightarrow> \<not> below dst q \<Longrightarrow> file_at (snd (fs_rename src dst t)) q = file_at t q"
  by (auto simp: fs_rename_def Let_def file_at_set split: io_res.splits fs_node.splits list.splits)

lemma file_at_remove: "\<not> below p q \<Longrightarrow> file_at (snd (fs_remove_file p t)) q = file_at t q"
  by (auto simp: fs_remove_file_def file_at_set split: io_res.splits fs_node.splits)

lemma file_lookup: "file_at t p = Some (b, m) \<longleftrightarrow> fs_lookup p t = IoOk (FileN b m)"
  by (auto simp: file_at_def split: io_res.splits fs_node.splits)

lemma below_self: "below p p"
  by (simp add: below_def)

lemma file_removed: "file_at t p = Some (b, m) \<Longrightarrow> p \<noteq> [] \<Longrightarrow> file_at (fs_set p None t) p = None"
proof (induction p "None :: fs_node option" t rule: fs_set.induct)
  case (2 x p es)
  then show ?case by (cases p) (auto simp: update_conv' delete_conv' split: option.splits)
qed auto

definition fs_files :: "fs_node option \<Rightarrow> string list \<Rightarrow> bytes option" where
  "fs_files t p = map_option fst (file_at t p)"

lemma not_dir_below: "\<not> fs_is_dir p t \<Longrightarrow> zs \<noteq> [] \<Longrightarrow> file_at t (p @ zs) = None"
proof (induction p t rule: fs_lookup.induct)
  case (2 n)
  then show ?case by (cases n; cases zs) (auto simp: fs_is_dir_def)
next
  case (3 x p es)
  then show ?case by (simp add: fs_is_dir_def)
qed (auto simp: file_at_def)

lemma below_cases:
  obtains "\<not> below p q" | zs where "zs \<noteq> []" "q = p @ zs" | "q = p"
proof (cases "below p q")
  case True
  then obtain zs where "q = p @ zs" unfolding below_def by (metis append_take_drop_id)
  then show ?thesis using that(2)[of zs] that(3) by (cases "zs = []") auto
qed (use that in blast)

lemma set_lookup:
  assumes "p \<noteq> []" "fs_is_dir (butlast p) t"
  shows "fs_lookup p (fs_set p v t) = (case v of None \<Rightarrow> IoNotFound | Some n \<Rightarrow> IoOk n)"
  using lookup_set_same[OF assms(2), of "last p" v] assms(1) by simp

lemma set_no_parent: "p \<noteq> [] \<Longrightarrow> \<not> fs_is_dir (butlast p) t \<Longrightarrow> fs_set p None t = t \<and> file_at t p = None"
proof (induction p "None :: fs_node option" t rule: fs_set.induct)
  case (2 x p es)
  show ?case
  proof (cases "p = []")
    case False
    then show ?thesis using 2 by (auto simp: fs_is_dir_def AList.update_triv map_of_eq_None_iff split: option.splits)
  qed (use 2 in \<open>auto simp: fs_is_dir_def\<close>)
qed (auto simp: fs_is_dir_def split: fs_node.splits)

lemma files_set_at:
  assumes "\<not> fs_is_dir p t" "\<not> fs_is_dir p (fs_set p v t)" "file_at (fs_set p v t) p = r"
  shows "fs_files (fs_set p v t) = (fs_files t)(p := map_option fst r)"
proof
  fix q
  show "fs_files (fs_set p v t) q = ((fs_files t)(p := map_option fst r)) q"
    using assms below_self[of p] by (cases rule: below_cases[of p q]) (auto simp: fs_files_def file_at_set not_dir_below)
qed

lemma files_set_file:
  assumes "p \<noteq> []" "fs_is_dir (butlast p) t" "\<not> fs_is_dir p t"
  shows "fs_files (fs_set p (Some (FileN b m)) t) = (fs_files t)(p \<mapsto> b)"
  using files_set_at[OF assms(3), of "Some (FileN b m)" "Some (b, m)"] set_lookup[OF assms(1,2), of "Some (FileN b m)"]
  by (simp add: fs_is_dir_def file_at_def)

lemma files_set_none:
  assumes "p \<noteq> []" "\<not> fs_is_dir p t"
  shows "fs_files (fs_set p None t) = (fs_files t)(p := None)"
proof (cases "fs_is_dir (butlast p) t")
  case True
  then show ?thesis using files_set_at[OF assms(2), of None None] set_lookup[OF assms(1), of t None]
    by (simp add: fs_is_dir_def file_at_def)
next
  case False
  then show ?thesis using set_no_parent[OF assms(1) False] by (auto simp: fs_files_def)
qed

lemma files_mkdirs [simp]: "fs_mkdirs p t = Some d \<Longrightarrow> fs_files (Some d) = fs_files t"
  by (simp add: fs_files_def file_at_mkdirs fun_eq_iff)

end
