(* ===== verification/PB_AppStore.thy ===== *)
theory PB_AppStore
  imports PB_Crypto PB_Paths PB_Fs
begin

text \<open>
  The encrypted record store (\<open>peerbeam-appstore-fs/src/lib.rs\<close>) behind the \<open>AppStore\<close> port
  (\<open>peerbeam-domain/src/port/appstore.rs\<close>): one directory per namespace, one file per record,
  named by the record's key in hex, its content sealed. Chat, notes, clipboard history and the
  sync index keep their state in it.

  A Rust \<open>str\<close> is the list of its bytes, valid UTF-8. The nonce of a \<open>put\<close> and what the device
  answers to its writes are an argument; the text of an operating-system error is left out of the
  error messages.

  Shown here: the store refines a map from namespace and key to value. The laws its clients rely
  on are the locale \<open>record_store\<close>, which the file store is an interpretation of.
\<close>

section \<open>UTF-8\<close>

definition utf8_cont :: "u8 \<Rightarrow> bool" where
  "utf8_cont b = (128 \<le> unat b \<and> unat b < 192)"

text \<open>What \<open>String::from_utf8\<close> accepts: no overlong forms, no surrogates, nothing above 10FFFF.\<close>

fun from_utf8_ok :: "bytes \<Rightarrow> bool" where
  "from_utf8_ok [] = True"
| "from_utf8_ok (a # r) =
     (let n = unat a in
      if n < 128 then from_utf8_ok r
      else if 194 \<le> n \<and> n < 224 then
        (case r of b # r' \<Rightarrow> utf8_cont b \<and> from_utf8_ok r' | _ \<Rightarrow> False)
      else if 224 \<le> n \<and> n < 240 then
        (case r of b # c # r' \<Rightarrow> utf8_cont b \<and> (n = 224 \<longrightarrow> 160 \<le> unat b) \<and> (n = 237 \<longrightarrow> unat b < 160)
             \<and> utf8_cont c \<and> from_utf8_ok r' | _ \<Rightarrow> False)
      else if 240 \<le> n \<and> n < 245 then
        (case r of b # c # d # r' \<Rightarrow> utf8_cont b \<and> (n = 240 \<longrightarrow> 144 \<le> unat b) \<and> (n = 244 \<longrightarrow> unat b < 144)
             \<and> utf8_cont c \<and> utf8_cont d \<and> from_utf8_ok r' | _ \<Rightarrow> False)
      else False)"

abbreviation str_ok :: "string \<Rightarrow> bool" where
  "str_ok s \<equiv> from_utf8_ok (str_bytes s)"

definition bytes_str :: "bytes \<Rightarrow> string" where
  "bytes_str bs = map (\<lambda>b. char_of (unat b)) bs"

lemma bytes_str_bytes [simp]: "bytes_str (str_bytes s) = s"
  by (induction s) (simp_all add: bytes_str_def str_bytes_def unat_of_char)

lemma utf8_append: "from_utf8_ok a \<Longrightarrow> from_utf8_ok (a @ b) = from_utf8_ok b"
  by (induction a rule: from_utf8_ok.induct) (auto simp: Let_def split: if_splits list.splits)

lemma str_bytes_app: "str_bytes (a @ b) = str_bytes a @ str_bytes b"
  by (simp add: str_bytes_def)

lemma str_ok_append: "str_ok a \<Longrightarrow> str_ok b \<Longrightarrow> str_ok (a @ b)"
  by (simp add: str_bytes_app utf8_append)

section \<open>File names\<close>

text \<open>\<open>u8::from_str_radix(s, 16)\<close> on two characters: a leading plus sign is accepted.\<close>

definition from_str_radix16 :: "char \<Rightarrow> char \<Rightarrow> u8 option" where
  "from_str_radix16 c d =
     (if c = CHR ''+'' then map_option of_nat (to_digit16 d)
      else case (to_digit16 c, to_digit16 d) of
             (Some hi, Some lo) \<Rightarrow> Some (of_nat (hi * 16 + lo)) | _ \<Rightarrow> None)"

fun radix_pairs :: "string \<Rightarrow> bytes option" where
  "radix_pairs (c # d # s) =
     (case (from_str_radix16 c d, radix_pairs s) of (Some b, Some bs) \<Rightarrow> Some (b # bs) | _ \<Rightarrow> None)"
| "radix_pairs _ = Some []"

definition app_hex_decode :: "string \<Rightarrow> bytes option" where
  "app_hex_decode s = (if length s mod 2 \<noteq> 0 \<or> \<not> is_ascii s then None else radix_pairs s)"

definition namespace_ok :: "string \<Rightarrow> bool" where
  "namespace_ok ns = (ns \<noteq> [] \<and> ns \<noteq> ''.'' \<and> ns \<noteq> ''..'' \<and> list_all slug_char ns)"

definition namespace_dir :: "string \<Rightarrow> (domain_error, string list) result" where
  "namespace_dir ns = (if namespace_ok ns then Inr [ns] else Inl (EStorage ''invalid namespace''))"

definition record_path :: "string \<Rightarrow> string \<Rightarrow> (domain_error, string list) result" where
  "record_path ns key = rbind (namespace_dir ns) (\<lambda>d. Inr (d @ [hex_encode (str_bytes key)]))"

section \<open>The store\<close>

record app_store =
  as_key :: bytes
  as_pid :: nat
  as_seq :: u64
  as_root :: "fs_node option"

text \<open>The random nonce of a write and what the device answers to its steps.\<close>

record put_io =
  pi_nonce :: bytes
  pi_mkdir :: bool
  pi_create :: bool
  pi_write :: bool
  pi_written :: nat
  pi_sync :: bool
  pi_rename :: "nat \<Rightarrow> bool"
  pi_remove :: bool
  pi_now :: int

definition COMMIT_ATTEMPTS :: nat where "COMMIT_ATTEMPTS = 20"

definition unique_tmp :: "nat \<Rightarrow> u64 \<Rightarrow> string list \<Rightarrow> string list" where
  "unique_tmp pid n path = butlast path @ [last path @ ''.'' @ show_nat pid @ ''.'' @ show_nat (unat n) @ ''.tmp'']"

definition remove_tmp :: "put_io \<Rightarrow> string list \<Rightarrow> fs_node option \<Rightarrow> fs_node option" where
  "remove_tmp i tmp t = (if pi_remove i then snd (fs_remove_file tmp t) else t)"

text \<open>\<open>create_new\<close> fails when the name is taken; a failed write leaves some of the bytes.\<close>

definition write_tmp :: "put_io \<Rightarrow> string list \<Rightarrow> bytes \<Rightarrow> fs_node option \<Rightarrow> (domain_error, unit) result \<times> fs_node option" where
  "write_tmp i tmp bytes t =
     (if \<not> pi_create i \<or> fs_lookup tmp t \<noteq> IoNotFound \<or> \<not> fs_is_dir (butlast tmp) t
      then (Inl (EStorage ''create record tmp''), t)
      else if \<not> pi_write i then
        (Inl (EStorage ''write record tmp''), remove_tmp i tmp (fs_set tmp (Some (FileN (take (pi_written i) bytes) (pi_now i))) t))
      else if \<not> pi_sync i then
        (Inl (EStorage ''fsync record tmp''), remove_tmp i tmp (fs_set tmp (Some (FileN bytes (pi_now i))) t))
      else (Inr (), fs_set tmp (Some (FileN bytes (pi_now i))) t))"

text \<open>The commit loop: the remaining attempts, and the index of the next one.\<close>

primrec commit_loop :: "put_io \<Rightarrow> string list \<Rightarrow> string list \<Rightarrow> nat \<Rightarrow> nat \<Rightarrow> fs_node option \<Rightarrow> bool \<times> fs_node option" where
  "commit_loop i tmp path 0 k t = (False, t)"
| "commit_loop i tmp path (Suc n) k t =
     (let (ok, t') = (if pi_rename i k then fs_rename tmp path t else (False, t))
      in if ok then (True, t') else commit_loop i tmp path n (Suc k) t)"

definition write_private :: "put_io \<Rightarrow> string list \<Rightarrow> bytes \<Rightarrow> app_store \<Rightarrow> (domain_error, unit) result \<times> app_store" where
  "write_private i path bytes s =
     (let tmp = unique_tmp (as_pid s) (as_seq s) path;
          s = s\<lparr>as_seq := as_seq s + 1\<rparr>
      in case write_tmp i tmp bytes (as_root s) of
           (Inl e, t) \<Rightarrow> (Inl e, s\<lparr>as_root := t\<rparr>)
         | (Inr _, t) \<Rightarrow>
             (case commit_loop i tmp path COMMIT_ATTEMPTS 0 t of
                (True, t) \<Rightarrow> (Inr (), s\<lparr>as_root := t\<rparr>)
              | (False, t) \<Rightarrow> (Inl (EStorage ''commit record after 20 attempts''), s\<lparr>as_root := remove_tmp i tmp t\<rparr>)))"

definition app_put :: "prims \<Rightarrow> put_io \<Rightarrow> string \<Rightarrow> string \<Rightarrow> bytes \<Rightarrow> app_store \<Rightarrow> (domain_error, unit) result \<times> app_store" where
  "app_put P i ns key val s =
     (case record_path ns key of
        Inl e \<Rightarrow> (Inl e, s)
      | Inr path \<Rightarrow>
          (case enc_seal P (as_key s) (pi_nonce i) val of
             Inl e \<Rightarrow> (Inl e, s)
           | Inr sealed \<Rightarrow>
               (case (if pi_mkdir i then fs_mkdirs (butlast path) (as_root s) else None) of
                  None \<Rightarrow> (Inl (EStorage ''appstore dir''), s)
                | Some t \<Rightarrow> write_private i path sealed (s\<lparr>as_root := Some t\<rparr>))))"

definition app_get :: "prims \<Rightarrow> string \<Rightarrow> string \<Rightarrow> app_store \<Rightarrow> (domain_error, bytes option) result" where
  "app_get P ns key s =
     rbind (record_path ns key) (\<lambda>path.
       case fs_read path (as_root s) of
         IoOk b \<Rightarrow> rbind (enc_open P (as_key s) b) (\<lambda>v. Inr (Some v))
       | IoNotFound \<Rightarrow> Inr None
       | IoErr \<Rightarrow> Inl (EStorage ''read record''))"

text \<open>One directory entry of a listing: skipped, a failure, or a record.\<close>

definition list_entry :: "prims \<Rightarrow> app_store \<Rightarrow> string \<times> fs_node \<Rightarrow> (domain_error, (string \<times> bytes) option) result" where
  "list_entry P s e =
     (case snd e of
        FileN b m \<Rightarrow>
          (if \<not> str_ok (fst e) then Inr None
           else case app_hex_decode (fst e) of
             None \<Rightarrow> Inr None
           | Some kb \<Rightarrow>
               if \<not> from_utf8_ok kb then Inr None
               else rbind (enc_open P (as_key s) b) (\<lambda>v. Inr (Some (bytes_str kb, v))))
      | _ \<Rightarrow> Inr None)"

fun list_loop :: "prims \<Rightarrow> app_store \<Rightarrow> dirents \<Rightarrow> (string \<times> bytes) list \<Rightarrow> (domain_error, (string \<times> bytes) list) result" where
  "list_loop P s [] out = Inr out"
| "list_loop P s (e # es) out =
     rbind (list_entry P s e) (\<lambda>r. list_loop P s es (case r of None \<Rightarrow> out | Some kv \<Rightarrow> out @ [kv]))"

definition app_list :: "prims \<Rightarrow> string \<Rightarrow> app_store \<Rightarrow> (domain_error, (string \<times> bytes) list) result" where
  "app_list P ns s =
     rbind (namespace_dir ns) (\<lambda>dir.
       case fs_read_dir dir (as_root s) of
         IoNotFound \<Rightarrow> Inr []
       | IoErr \<Rightarrow> Inl (EStorage ''list namespace'')
       | IoOk es \<Rightarrow> rbind (list_loop P s es []) (\<lambda>out. Inr (sort_key fst out)))"

definition app_namespaces :: "string \<Rightarrow> app_store \<Rightarrow> (domain_error, string list) result" where
  "app_namespaces prefix s =
     (case fs_read_dir [] (as_root s) of
        IoNotFound \<Rightarrow> Inr []
      | IoErr \<Rightarrow> Inl (EStorage ''list namespaces'')
      | IoOk es \<Rightarrow>
          Inr (sort (map fst (filter (\<lambda>e. (case snd e of DirN xs \<Rightarrow> xs \<noteq> [] | _ \<Rightarrow> False)
             \<and> str_ok (fst e) \<and> take (length prefix) (fst e) = prefix) es))))"

definition app_delete :: "string \<Rightarrow> string \<Rightarrow> app_store \<Rightarrow> (domain_error, bool) result \<times> app_store" where
  "app_delete ns key s =
     (case record_path ns key of
        Inl e \<Rightarrow> (Inl e, s)
      | Inr path \<Rightarrow>
          (case fs_remove_file path (as_root s) of
             (IoOk _, t) \<Rightarrow> (Inr True, s\<lparr>as_root := t\<rparr>)
           | (IoNotFound, t) \<Rightarrow> (Inr False, s\<lparr>as_root := t\<rparr>)
           | (IoErr, t) \<Rightarrow> (Inl (EStorage ''delete record''), s\<lparr>as_root := t\<rparr>)))"

definition app_clear :: "string \<Rightarrow> app_store \<Rightarrow> (domain_error, unit) result \<times> app_store" where
  "app_clear ns s =
     (case namespace_dir ns of
        Inl e \<Rightarrow> (Inl e, s)
      | Inr dir \<Rightarrow>
          (case fs_remove_dir_all dir (as_root s) of
             (IoOk _, t) \<Rightarrow> (Inr (), s\<lparr>as_root := t\<rparr>)
           | (IoNotFound, t) \<Rightarrow> (Inr (), s\<lparr>as_root := t\<rparr>)
           | (IoErr, t) \<Rightarrow> (Inl (EStorage ''clear namespace''), s\<lparr>as_root := t\<rparr>)))"

section \<open>The port\<close>

record 's app_port =
  ap_put :: "string \<Rightarrow> string \<Rightarrow> bytes \<Rightarrow> 's \<Rightarrow> (domain_error, unit) result \<times> 's"
  ap_get :: "string \<Rightarrow> string \<Rightarrow> 's \<Rightarrow> (domain_error, bytes option) result"
  ap_list :: "string \<Rightarrow> 's \<Rightarrow> (domain_error, (string \<times> bytes) list) result"
  ap_namespaces :: "string \<Rightarrow> 's \<Rightarrow> (domain_error, string list) result"
  ap_delete :: "string \<Rightarrow> string \<Rightarrow> 's \<Rightarrow> (domain_error, bool) result \<times> 's"
  ap_clear :: "string \<Rightarrow> 's \<Rightarrow> (domain_error, unit) result \<times> 's"

text \<open>The file store behind the port; \<open>io n\<close> is the environment of its \<open>n\<close>-th write.\<close>

definition fs_app_port :: "prims \<Rightarrow> (nat \<Rightarrow> put_io) \<Rightarrow> (app_store \<times> nat) app_port" where
  "fs_app_port P io = \<lparr>
     ap_put = (\<lambda>ns k v (s, n). case app_put P (io n) ns k v s of (r, s') \<Rightarrow> (r, s', Suc n)),
     ap_get = (\<lambda>ns k (s, n). app_get P ns k s),
     ap_list = (\<lambda>ns (s, n). app_list P ns s),
     ap_namespaces = (\<lambda>p (s, n). app_namespaces p s),
     ap_delete = (\<lambda>ns k (s, n). case app_delete ns k s of (r, s') \<Rightarrow> (r, s', n)),
     ap_clear = (\<lambda>ns (s, n). case app_clear ns s of (r, s') \<Rightarrow> (r, s', n))\<rparr>"

section \<open>Record names\<close>

lemma no_digits: "to_digit16 CHR ''+'' = None" "to_digit16 CHR ''.'' = None"
  by (simp_all add: to_digit16_def Let_def)

lemma radix_of_digits: "to_digit16 c = Some a \<Longrightarrow> to_digit16 d = Some b \<Longrightarrow> from_str_radix16 c d = Some (of_nat (a * 16 + b))"
  by (cases "c = CHR ''+''") (simp_all add: from_str_radix16_def no_digits)

lemma radix_pairs_encode: "radix_pairs (hex_encode bs) = Some bs"
proof (induction bs)
  case (Cons b bs)
  have "from_str_radix16 (hex_digit (unat b div 16)) (hex_digit (unat b mod 16)) = Some b"
    using radix_of_digits hex_byte_digits[of b] by (fastforce simp: hex_byte_def)
  with Cons show ?case by (simp add: hex_encode_def hex_byte_def)
qed (simp add: hex_encode_def)

lemma app_hex_roundtrip: "app_hex_decode (hex_encode bs) = Some bs"
  by (simp add: app_hex_decode_def hex_encode_ascii radix_pairs_encode)

lemma hex_encode_inject: "hex_encode a = hex_encode b \<longleftrightarrow> a = b"
  by (metis app_hex_roundtrip option.inject)

lemma radix_pairs_dot: "CHR ''.'' \<in> set s \<Longrightarrow> even (length s) \<Longrightarrow> radix_pairs s = None"
  by (induction s rule: radix_pairs.induct) (auto simp: from_str_radix16_def no_digits split: option.splits)

lemma tmp_no_record: "app_hex_decode (x @ ''.'' @ y) = None"
  using radix_pairs_dot[of "x @ ''.'' @ y"] by (auto simp: app_hex_decode_def even_iff_mod_2_eq_zero)

abbreviation record_name :: "string \<Rightarrow> string" where
  "record_name key \<equiv> hex_encode (str_bytes key)"

lemma str_bytes_eq: "str_bytes a = str_bytes b \<longleftrightarrow> a = b"
  by (metis bytes_str_bytes)

section \<open>The records of a namespace\<close>

text \<open>The entries of a namespace directory whose name is hex: everything else is not a record.\<close>

definition recs :: "dirents \<Rightarrow> string \<Rightarrow> fs_node option" where
  "recs es x = (if app_hex_decode x = None then None else map_of es x)"

lemma recs_update: "recs (AList.update x n es) = (if app_hex_decode x = None then recs es else (recs es)(x \<mapsto> n))"
  by (auto simp: recs_def update_conv' fun_eq_iff)

lemma recs_delete: "recs (AList.delete x es) = (recs es)(x := None)"
  by (auto simp: recs_def delete_conv' fun_eq_iff)

lemma recs_tmp: "app_hex_decode x = None \<Longrightarrow> (recs es)(x := None) = recs es"
  by (auto simp: recs_def)

definition ns_recs :: "fs_node option \<Rightarrow> string \<Rightarrow> string \<Rightarrow> fs_node option" where
  "ns_recs t ns = (case fs_read_dir [ns] t of IoOk es \<Rightarrow> recs es | _ \<Rightarrow> Map.empty)"

text \<open>What the store keeps: readable namespaces, whose records it can name and open.\<close>

definition app_inv :: "prims \<Rightarrow> app_store \<Rightarrow> bool" where
  "app_inv P s = (fs_wf (as_root s)
     \<and> (\<forall>ns. fs_read_dir [ns] (as_root s) \<noteq> IoErr)
     \<and> (\<forall>ns x n. ns_recs (as_root s) ns x = Some n \<longrightarrow>
          (\<exists>k b m v. str_ok k \<and> x = record_name k \<and> n = FileN b m \<and> enc_open P (as_key s) b = Inr v)))"

lemma lookup_record:
  "fs_lookup [ns, x] t = (case fs_read_dir [ns] t of
     IoOk es \<Rightarrow> (case map_of es x of None \<Rightarrow> IoNotFound | Some n \<Rightarrow> IoOk n)
   | IoNotFound \<Rightarrow> IoNotFound | IoErr \<Rightarrow> IoErr)"
proof (cases t)
  case (Some r)
  then show ?thesis
  proof (cases r)
    case (DirN rs)
    have "fs_lookup [ns, x] t = fs_lookup [x] (map_of rs ns)" "fs_read_dir [ns] t = fs_read_dir [] (map_of rs ns)"
      using Some DirN by (simp_all add: fs_read_dir_def)
    moreover have "fs_lookup [x] d = (case fs_read_dir [] d of
       IoOk es \<Rightarrow> (case map_of es x of None \<Rightarrow> IoNotFound | Some n \<Rightarrow> IoOk n)
     | IoNotFound \<Rightarrow> IoNotFound | IoErr \<Rightarrow> IoErr)" for d
      by (cases d; cases "the d") (auto simp: fs_read_dir_def split: option.splits fs_node.splits)
    ultimately show ?thesis by simp
  qed (simp_all add: fs_read_dir_def)
qed (simp add: fs_read_dir_def)

lemma fs_read_record:
  "fs_read [ns, x] t = (case fs_read_dir [ns] t of
     IoOk es \<Rightarrow> (case map_of es x of None \<Rightarrow> IoNotFound | Some (FileN b m) \<Rightarrow> IoOk b | _ \<Rightarrow> IoErr)
   | IoNotFound \<Rightarrow> IoNotFound | IoErr \<Rightarrow> IoErr)"
  by (simp add: fs_read_def lookup_record split: io_res.splits option.splits fs_node.splits)

lemma read_dir_set:
  "fs_read_dir [ns] t = IoOk es \<Longrightarrow> fs_read_dir [ns'] (fs_set [ns, x] v t) =
     (if ns' = ns then IoOk (case v of None \<Rightarrow> AList.delete x es | Some n \<Rightarrow> AList.update x n es) else fs_read_dir [ns'] t)"
  by (cases t; cases "the t"; cases "map_of (case the t of DirN es \<Rightarrow> es | _ \<Rightarrow> []) ns")
    (auto simp: fs_read_dir_def update_conv' split: fs_node.splits option.splits)

lemma read_dir_mkdirs:
  "fs_mkdirs [ns] t = Some n \<Longrightarrow> fs_read_dir [ns'] (Some n) =
     (if ns' = ns then IoOk (case fs_read_dir [ns] t of IoOk es \<Rightarrow> es | _ \<Rightarrow> []) else fs_read_dir [ns'] t)"
proof (cases t)
  case (Some r)
  assume m: "fs_mkdirs [ns] t = Some n"
  with Some obtain rs where r: "r = DirN rs" by (cases r) auto
  show ?thesis
  proof (cases "map_of rs ns")
    case None
    then show ?thesis using m Some r by (auto simp: fs_read_dir_def update_conv')
  next
    case (Some d)
    then show ?thesis using m \<open>t = Some r\<close> r by (cases d) (auto simp: fs_read_dir_def update_conv')
  qed
qed (auto simp: fs_read_dir_def)

section \<open>What each operation does to the records\<close>

definition keeps :: "fs_node option \<Rightarrow> fs_node option \<Rightarrow> bool" where
  "keeps t t' = ((fs_wf t \<longrightarrow> fs_wf t') \<and> ns_recs t' = ns_recs t
     \<and> (\<forall>ns. fs_read_dir [ns] t' = IoErr \<longrightarrow> fs_read_dir [ns] t = IoErr))"

lemma keeps_refl [simp]: "keeps t t"
  by (simp add: keeps_def)

lemma keeps_trans: "keeps a b \<Longrightarrow> keeps b c \<Longrightarrow> keeps a c"
  by (auto simp: keeps_def)

lemma keeps_mkdirs: "fs_mkdirs [ns] t = Some n \<Longrightarrow> keeps t (Some n)"
  using read_dir_mkdirs[of ns t n] fs_wf_mkdirs[of t "[ns]" n]
  by (auto simp: keeps_def ns_recs_def recs_def fun_eq_iff split: io_res.splits if_splits)

lemma keeps_tmp:
  "fs_is_dir [ns] t \<Longrightarrow> app_hex_decode y = None \<Longrightarrow> fs_wf v \<Longrightarrow> keeps t (fs_set [ns, y] v t)"
  using fs_wf_set[of t v "[ns, y]"]
  by (auto simp: keeps_def read_dir_is_dir ns_recs_def read_dir_set recs_update recs_delete recs_tmp fun_eq_iff
      split: option.splits if_split_asm)

lemma ns_recs_set:
  "fs_is_dir [ns] t \<Longrightarrow> app_hex_decode x \<noteq> None \<Longrightarrow>
     ns_recs (fs_set [ns, x] v t) = (ns_recs t)(ns := (ns_recs t ns)(x := v))
     \<and> (\<forall>ns'. fs_read_dir [ns'] (fs_set [ns, x] v t) = IoErr \<longrightarrow> fs_read_dir [ns'] t = IoErr)
     \<and> fs_is_dir [ns] (fs_set [ns, x] v t)"
  by (auto simp: read_dir_is_dir ns_recs_def read_dir_set recs_update recs_delete fun_eq_iff
      split: option.splits if_split_asm)

lemma is_dir_set: "fs_is_dir [ns] t \<Longrightarrow> fs_is_dir [ns] (fs_set [ns, x] v t)"
  by (auto simp: read_dir_is_dir read_dir_set)

lemma keeps_remove_file: "app_hex_decode y = None \<Longrightarrow> keeps t (snd (fs_remove_file [ns, y] t))"
  by (auto simp: fs_remove_file_def lookup_record read_dir_is_dir keeps_tmp split: io_res.splits fs_node.splits option.splits)

lemma keeps_remove_tmp: "app_hex_decode y = None \<Longrightarrow> keeps t (remove_tmp i [ns, y] t)"
  by (simp add: remove_tmp_def keeps_remove_file)

lemma write_tmp_keeps:
  assumes "app_hex_decode y = None" "write_tmp i [ns, y] b t = (r, t')"
  shows "keeps t t' \<and> (r = Inr () \<longrightarrow> fs_is_dir [ns] t \<and> fs_lookup [ns, y] t' = IoOk (FileN b (pi_now i)) \<and> fs_is_dir [ns] t')"
proof -
  have "keeps t (fs_set [ns, y] (Some (FileN c m)) t)" if "fs_is_dir [ns] t" for c m
    using keeps_tmp[OF that assms(1)] by simp
  then show ?thesis
    using assms keeps_trans[OF _ keeps_remove_tmp[OF assms(1)]] lookup_set_same[of "[ns]" t y] is_dir_set[of ns t y]
    by (auto simp: write_tmp_def split: if_splits)
qed

lemma commit_loop_False: "commit_loop i tmp path n k t = (False, t') \<Longrightarrow> t' = t"
  by (induction n arbitrary: k) (auto simp: Let_def split: if_splits prod.splits)

lemma commit_loop_True: "commit_loop i tmp path n k t = (True, t') \<Longrightarrow> fs_rename tmp path t = (True, t')"
  by (induction n arbitrary: k) (auto simp: Let_def split: if_splits prod.splits)

lemma commit_loop_ok:
  assumes "k \<le> a" "a < k + n" "pi_rename i a" "fst (fs_rename tmp path t)"
  shows "fst (commit_loop i tmp path n k t)"
  using assms
proof (induction n arbitrary: k)
  case (Suc n)
  show ?case
  proof (cases "pi_rename i k")
    case False
    with Suc.prems have "Suc k \<le> a" by (metis Suc_leI le_eq_less_or_eq)
    with Suc False show ?thesis by (simp add: Let_def)
  qed (use Suc in \<open>auto simp: Let_def split: prod.splits\<close>)
qed simp

lemma tmp_path: "unique_tmp pid n [ns, x] = [ns, x @ ''.'' @ show_nat pid @ ''.'' @ show_nat (unat n) @ ''.tmp'']"
  by (simp add: unique_tmp_def)

lemma rename_to_record:
  assumes "fs_is_dir [ns] t" "app_hex_decode y = None" "app_hex_decode x \<noteq> None"
    "fs_lookup [ns, y] t = IoOk (FileN b m)" "fs_rename [ns, y] [ns, x] t = (True, t')"
  shows "ns_recs t' = (ns_recs t)(ns := (ns_recs t ns)(x \<mapsto> FileN b m)) \<and> (fs_wf t \<longrightarrow> fs_wf t')
    \<and> (\<forall>ns'. fs_read_dir [ns'] t' = IoErr \<longrightarrow> fs_read_dir [ns'] t = IoErr)"
proof -
  have t': "t' = fs_set [ns, x] (Some (FileN b m)) (fs_set [ns, y] None t)"
    using assms(2-5) by (auto simp: fs_rename_def Let_def split: if_splits)
  have "keeps t (fs_set [ns, y] None t)" using keeps_tmp[OF assms(1,2)] by simp
  then show ?thesis
    using ns_recs_set[OF is_dir_set[OF assms(1), of y None] assms(3), of "Some (FileN b m)"]
      fs_wf_set[of "fs_set [ns, y] None t" "Some (FileN b m)" "[ns, x]"]
    by (auto simp: t' keeps_def)
qed

lemma app_put_records:
  assumes "app_put P i ns k v s = (r, s')"
  shows "as_key s' = as_key s \<and> (fs_wf (as_root s) \<longrightarrow> fs_wf (as_root s'))
    \<and> (\<forall>ns'. fs_read_dir [ns'] (as_root s') = IoErr \<longrightarrow> fs_read_dir [ns'] (as_root s) = IoErr)
    \<and> (if r = Inr () then namespace_ok ns \<and> (\<exists>b m. enc_seal P (as_key s) (pi_nonce i) v = Inr b
         \<and> ns_recs (as_root s') = (ns_recs (as_root s))(ns := (ns_recs (as_root s) ns)(record_name k \<mapsto> FileN b m)))
       else ns_recs (as_root s') = ns_recs (as_root s))"
proof (cases "namespace_ok ns \<and> pi_mkdir i \<and> is_ok (enc_seal P (as_key s) (pi_nonce i) v) \<and> fs_mkdirs [ns] (as_root s) \<noteq> None")
  case False
  then show ?thesis using assms
    by (auto simp: app_put_def record_path_def namespace_dir_def is_ok_def split: sum.splits if_splits option.splits)
next
  case True
  then obtain b d where b: "enc_seal P (as_key s) (pi_nonce i) v = Inr b" and d: "fs_mkdirs [ns] (as_root s) = Some d"
    by (auto simp: is_ok_def split: sum.splits)
  let ?x = "record_name k" let ?tmp = "?x @ ''.'' @ show_nat (as_pid s) @ ''.'' @ show_nat (unat (as_seq s)) @ ''.tmp''"
  have dec: "app_hex_decode ?tmp = None" "app_hex_decode ?x \<noteq> None"
    by (rule tmp_no_record) (simp add: app_hex_roundtrip)
  obtain r1 t1 where w: "write_tmp i [ns, ?tmp] b (Some d) = (r1, t1)" by fastforce
  have k1: "keeps (as_root s) t1" using keeps_trans[OF keeps_mkdirs[OF d]] write_tmp_keeps[OF dec(1) w] by blast
  have p: "app_put P i ns k v s = write_private i [ns, ?x] b (s\<lparr>as_root := Some d\<rparr>)"
    using True b d by (simp add: app_put_def record_path_def namespace_dir_def)
  show ?thesis
  proof (cases r1)
    case (Inl e)
    then show ?thesis using k1 w assms p by (auto simp: write_private_def tmp_path keeps_def)
  next
    case (Inr u)
    then have t1: "fs_is_dir [ns] t1" "fs_lookup [ns, ?tmp] t1 = IoOk (FileN b (pi_now i))"
      using write_tmp_keeps[OF dec(1) w] by simp_all
    obtain ok t2 where c: "commit_loop i [ns, ?tmp] [ns, ?x] COMMIT_ATTEMPTS 0 t1 = (ok, t2)" by fastforce
    show ?thesis
    proof (cases ok)
      case True
      then show ?thesis
        using rename_to_record[OF t1(1) dec t1(2), of t2] commit_loop_True[of i _ _ COMMIT_ATTEMPTS 0 t1 t2] c k1 w Inr assms p b \<open>namespace_ok ns \<and> _\<close>
        by (auto simp: write_private_def tmp_path keeps_def)
    next
      case False
      then have "t2 = t1" using commit_loop_False c by simp
      then show ?thesis using False c w Inr assms p keeps_trans[OF k1 keeps_remove_tmp[OF dec(1), of t1 i ns]]
        by (auto simp: write_private_def tmp_path keeps_def)
    qed
  qed
qed

lemma app_get_records:
  assumes "app_inv P s"
  shows "app_get P ns k s = (if \<not> namespace_ok ns then Inl (EStorage ''invalid namespace'')
     else case ns_recs (as_root s) ns (record_name k) of
        Some (FileN b m) \<Rightarrow> rbind (enc_open P (as_key s) b) (\<lambda>v. Inr (Some v)) | _ \<Rightarrow> Inr None)"
proof -
  have e: "fs_read_dir [ns] (as_root s) \<noteq> IoErr"
    and r: "ns_recs (as_root s) ns (record_name k) = Some n \<Longrightarrow> \<exists>b m. n = FileN b m" for n
    using assms unfolding app_inv_def by blast+
  then show ?thesis
    by (auto simp: app_get_def record_path_def namespace_dir_def fs_read_record ns_recs_def recs_def app_hex_roundtrip
        split: io_res.splits option.splits fs_node.splits)
qed

section \<open>Refinement of a map\<close>

definition rec_value :: "prims \<Rightarrow> bytes \<Rightarrow> fs_node option \<Rightarrow> bytes option" where
  "rec_value P key n = (case n of Some (FileN b m) \<Rightarrow> (case enc_open P key b of Inr v \<Rightarrow> Some v | Inl _ \<Rightarrow> None) | _ \<Rightarrow> None)"

definition app_abs :: "prims \<Rightarrow> app_store \<Rightarrow> string \<Rightarrow> string \<Rightarrow> bytes option" where
  "app_abs P s ns k = rec_value P (as_key s) (ns_recs (as_root s) ns (record_name k))"

lemma rec_value_simps [simp]: "rec_value P key None = None"
  "enc_open P key b = Inr v \<Longrightarrow> rec_value P key (Some (FileN b m)) = Some v"
  by (simp_all add: rec_value_def)

lemma app_get_abs: "app_inv P s \<Longrightarrow> app_get P ns k s = (if namespace_ok ns then Inr (app_abs P s ns k) else Inl (EStorage ''invalid namespace''))"
proof -
  assume a: "app_inv P s"
  then have "ns_recs (as_root s) ns (record_name k) = Some n \<Longrightarrow> \<exists>b m v. n = FileN b m \<and> enc_open P (as_key s) b = Inr v" for n
    unfolding app_inv_def by blast
  then show ?thesis unfolding app_get_records[OF a] by (auto simp: app_abs_def split: option.splits)
qed

lemma seal_opens: "gcm_ok P \<Longrightarrow> length n = 12 \<Longrightarrow> enc_seal P key n v = Inr b \<Longrightarrow> enc_open P key b = Inr v"
  by (auto simp: enc_seal_def enc_open_def gcm_ok_def split: option.splits)

lemma record_name_eq: "record_name a = record_name b \<longleftrightarrow> a = b"
  by (simp add: hex_encode_inject str_bytes_eq)

lemma app_put_refines:
  assumes "app_inv P s" "gcm_ok P" "length (pi_nonce i) = 12" "str_ok k" "app_put P i ns k v s = (r, s')"
  shows "app_inv P s' \<and> as_key s' = as_key s \<and> (r = Inr () \<longrightarrow> namespace_ok ns)
    \<and> app_abs P s' = (if r = Inr () then (app_abs P s)(ns := (app_abs P s ns)(k \<mapsto> v)) else app_abs P s)"
proof (cases "r = Inr ()")
  case True
  note e = app_put_records[OF assms(5)]
  with True obtain b m where b: "enc_seal P (as_key s) (pi_nonce i) v = Inr b"
    and n: "ns_recs (as_root s') = (ns_recs (as_root s))(ns := (ns_recs (as_root s) ns)(record_name k \<mapsto> FileN b m))" by auto
  note o = seal_opens[OF assms(2,3) b]
  have "app_inv P s'" using assms(1,4) e o n unfolding app_inv_def by (auto split: if_splits)
  with e o n True show ?thesis by (auto simp: app_abs_def fun_eq_iff record_name_eq)
next
  case False
  with app_put_records[OF assms(5)] assms(1) show ?thesis by (auto simp: app_inv_def app_abs_def fun_eq_iff)
qed

lemma ascii_utf8: "is_ascii s \<Longrightarrow> str_ok s"
  by (induction s) (auto simp: is_ascii_def str_bytes_def unat_of_char)

lemma list_entry_record:
  "str_ok k \<Longrightarrow> enc_open P (as_key s) b = Inr v \<Longrightarrow> list_entry P s (record_name k, FileN b m) = Inr (Some (k, v))"
  by (simp add: list_entry_def app_hex_roundtrip ascii_utf8 hex_encode_ascii)

lemma list_entry_other: "app_hex_decode x = None \<Longrightarrow> list_entry P s (x, n) = Inr None"
  by (cases n) (simp_all add: list_entry_def)

lemma list_loop_spec:
  assumes "distinct (map fst es)"
    "\<And>x n. (x, n) \<in> set es \<Longrightarrow> app_hex_decode x \<noteq> None \<Longrightarrow>
       \<exists>k b m v. str_ok k \<and> x = record_name k \<and> n = FileN b m \<and> enc_open P (as_key s) b = Inr v"
  shows "\<exists>rows. list_loop P s es out = Inr (out @ rows) \<and> distinct (map fst rows)
     \<and> map_of rows = (\<lambda>k. rec_value P (as_key s) (recs es (record_name k)))"
  using assms
proof (induction es arbitrary: out)
  case Nil
  then show ?case by (auto simp: recs_def fun_eq_iff)
next
  case (Cons e es)
  obtain x n where e: "e = (x, n)" by fastforce
  show ?case
  proof (cases "app_hex_decode x = None")
    case True
    moreover have "recs (e # es) = recs es" using True e by (auto simp: recs_def fun_eq_iff)
    ultimately show ?thesis using Cons e by (simp add: list_entry_other)
  next
    case False
    with Cons.prems(2)[of x n] e obtain k b m v where k: "str_ok k" "x = record_name k" "n = FileN b m" "enc_open P (as_key s) b = Inr v"
      by auto
    obtain rows where rows: "list_loop P s es (out @ [(k, v)]) = Inr ((out @ [(k, v)]) @ rows)" "distinct (map fst rows)"
      "map_of rows = (\<lambda>k. rec_value P (as_key s) (recs es (record_name k)))"
      using Cons.IH[of "out @ [(k, v)]"] Cons.prems by auto
    have "recs es (record_name k) = None" using Cons.prems(1) e k
      by (auto simp: recs_def map_of_eq_None_iff)
    then have nk: "k \<notin> fst ` set rows" using rows(3) by (metis map_of_eq_None_iff rec_value_simps(1))
    have "map_of ((k, v) # rows) = (\<lambda>k'. rec_value P (as_key s) (recs (e # es) (record_name k')))"
      using k e False rows(3) by (auto simp: recs_def fun_eq_iff record_name_eq app_hex_roundtrip)
    with rows nk k e show ?thesis by (intro exI[of _ "(k, v) # rows"]) (simp add: list_entry_record)
  qed
qed

lemma sort_key_map_of: "distinct (map fst rows) \<Longrightarrow> map_of (sort_key fst rows) = map_of rows
    \<and> sorted (map fst (sort_key fst rows)) \<and> distinct (map fst (sort_key fst rows))"
proof -
  assume d: "distinct (map fst rows)"
  then have "distinct (map fst (sort_key fst rows))" by (metis distinct_map distinct_sort set_sort)
  with d show ?thesis by (simp add: map_of_inject_set)
qed

lemma app_list_refines:
  assumes "app_inv P s" "namespace_ok ns"
  shows "\<exists>rows. app_list P ns s = Inr rows \<and> sorted (map fst rows) \<and> distinct (map fst rows) \<and> map_of rows = app_abs P s ns"
proof (cases "fs_read_dir [ns] (as_root s)")
  case (IoOk es)
  have d: "distinct (map fst es)" using assms(1) fs_wf_read_dir[OF _ IoOk] by (simp add: app_inv_def)
  have "\<exists>k b m v. str_ok k \<and> x = record_name k \<and> n = FileN b m \<and> enc_open P (as_key s) b = Inr v"
    if "(x, n) \<in> set es" "app_hex_decode x \<noteq> None" for x n
  proof -
    have "ns_recs (as_root s) ns x = Some n" using that d IoOk by (simp add: ns_recs_def recs_def)
    then show ?thesis using assms(1) unfolding app_inv_def by blast
  qed
  from list_loop_spec[OF d this, where out = "[]"] obtain rows where "list_loop P s es [] = Inr rows" "distinct (map fst rows)"
    "map_of rows = (\<lambda>k. rec_value P (as_key s) (recs es (record_name k)))" by auto
  then show ?thesis using IoOk assms(2) sort_key_map_of[of rows]
    by (simp add: app_list_def namespace_dir_def app_abs_def fun_eq_iff ns_recs_def)
next
  case IoNotFound
  then show ?thesis using assms(2) by (simp add: app_list_def namespace_dir_def app_abs_def ns_recs_def fun_eq_iff)
qed (use assms in \<open>simp add: app_inv_def\<close>)

lemma app_delete_refines:
  assumes "app_inv P s" "namespace_ok ns" "app_delete ns k s = (r, s')"
  shows "r = Inr (app_abs P s ns k \<noteq> None) \<and> app_inv P s' \<and> as_key s' = as_key s
    \<and> app_abs P s' = (app_abs P s)(ns := (app_abs P s ns)(k := None))"
proof -
  let ?t = "as_root s" and ?x = "record_name k"
  have dec: "app_hex_decode ?x \<noteq> None" by (simp add: app_hex_roundtrip)
  have isf: "\<exists>b m v. n = FileN b m \<and> enc_open P (as_key s) b = Inr v" if "ns_recs ?t ns ?x = Some n" for n
    using assms(1) that unfolding app_inv_def by blast
  have "s' = s\<lparr>as_root := ?t\<rparr> \<and> r = Inr False \<and> ns_recs ?t ns ?x = None
      \<or> s' = s\<lparr>as_root := fs_set [ns, ?x] None ?t\<rparr> \<and> r = Inr True \<and> ns_recs ?t ns ?x \<noteq> None \<and> fs_is_dir [ns] ?t"
  proof (cases "fs_read_dir [ns] ?t")
    case (IoOk es)
    then have "ns_recs ?t ns ?x = map_of es ?x" by (simp add: ns_recs_def recs_def app_hex_roundtrip)
    with IoOk isf assms(2,3) show ?thesis
      by (auto simp: app_delete_def record_path_def namespace_dir_def fs_remove_file_def lookup_record read_dir_is_dir
          split: option.splits fs_node.splits)
  next
    case IoNotFound
    then show ?thesis using assms(2,3)
      by (auto simp: app_delete_def record_path_def namespace_dir_def fs_remove_file_def lookup_record ns_recs_def)
  qed (use assms(1) in \<open>simp add: app_inv_def\<close>)
  then show ?thesis
  proof (elim disjE conjE)
    assume d: "s' = s\<lparr>as_root := fs_set [ns, ?x] None ?t\<rparr>" "r = Inr True" "ns_recs ?t ns ?x \<noteq> None" "fs_is_dir [ns] ?t"
    note e = ns_recs_set[OF d(4) dec, of None]
    have "app_inv P s'" using assms(1) d(1) e fs_wf_set[of ?t None] by (auto simp: app_inv_def split: if_splits)
    moreover have "app_abs P s ns k \<noteq> None" using d(3) isf by (fastforce simp: app_abs_def)
    ultimately show ?thesis using d e by (auto simp: app_abs_def fun_eq_iff record_name_eq)
  qed (use assms(1) in \<open>auto simp: app_abs_def fun_eq_iff\<close>)
qed

lemma read_dir_clear:
  "fs_read_dir [ns] t = IoOk es \<Longrightarrow> fs_read_dir [ns'] (fs_set [ns] None t) = (if ns' = ns then IoNotFound else fs_read_dir [ns'] t)"
  by (cases t; cases "the t") (auto simp: fs_read_dir_def delete_conv')

lemma app_clear_refines:
  assumes "app_inv P s" "namespace_ok ns" "app_clear ns s = (r, s')"
  shows "r = Inr () \<and> app_inv P s' \<and> as_key s' = as_key s \<and> app_abs P s' = (app_abs P s)(ns := Map.empty)"
proof (cases "fs_read_dir [ns] (as_root s)")
  case (IoOk es)
  then have "fs_lookup [ns] (as_root s) = IoOk (DirN es)"
    by (auto simp: fs_read_dir_def split: io_res.splits fs_node.splits)
  then have s': "s' = s\<lparr>as_root := fs_set [ns] None (as_root s)\<rparr>" "r = Inr ()"
    using assms(2,3) by (auto simp: app_clear_def namespace_dir_def fs_remove_dir_all_def)
  have n: "ns_recs (as_root s') = (ns_recs (as_root s))(ns := Map.empty)"
    using IoOk by (auto simp: s' ns_recs_def read_dir_clear fun_eq_iff)
  have "app_inv P s'" using assms(1) n fs_wf_set[of "as_root s" None "[ns]"] read_dir_clear[OF IoOk]
    by (auto simp: app_inv_def s' split: if_splits)
  with n s' show ?thesis by (auto simp: app_abs_def fun_eq_iff)
next
  case IoNotFound
  then have "fs_lookup [ns] (as_root s) = IoNotFound"
    by (auto simp: fs_read_dir_def split: io_res.splits fs_node.splits)
  then have "s' = s" "r = Inr ()" using assms(2,3) by (auto simp: app_clear_def namespace_dir_def fs_remove_dir_all_def)
  with IoNotFound assms(1) show ?thesis by (auto simp: app_abs_def ns_recs_def fun_eq_iff)
qed (use assms(1) in \<open>simp add: app_inv_def\<close>)

text \<open>A write completes when the device does its part and one of the twenty renames goes through.\<close>

definition put_served :: "prims \<Rightarrow> put_io \<Rightarrow> string \<Rightarrow> string \<Rightarrow> bytes \<Rightarrow> app_store \<Rightarrow> bool" where
  "put_served P i ns k v s = (namespace_ok ns \<and> is_ok (enc_seal P (as_key s) (pi_nonce i) v)
     \<and> pi_mkdir i \<and> pi_create i \<and> pi_write i \<and> pi_sync i \<and> (\<exists>a < COMMIT_ATTEMPTS. pi_rename i a)
     \<and> fs_lookup (unique_tmp (as_pid s) (as_seq s) [ns, record_name k]) (as_root s) = IoNotFound)"

lemma mkdirs_ok: "fs_read_dir [ns] t \<noteq> IoErr \<Longrightarrow> fs_mkdirs [ns] t \<noteq> None"
  by (cases t; cases "the t"; cases "map_of (case the t of DirN es \<Rightarrow> es | _ \<Rightarrow> []) ns";
      cases "the (map_of (case the t of DirN es \<Rightarrow> es | _ \<Rightarrow> []) ns)") (auto simp: fs_read_dir_def)

lemma app_put_completes:
  assumes inv: "app_inv P s" and sv: "put_served P i ns k v s"
  shows "fst (app_put P i ns k v s) = Inr ()"
proof -
  let ?x = "record_name k" let ?tmp = "?x @ ''.'' @ show_nat (as_pid s) @ ''.'' @ show_nat (unat (as_seq s)) @ ''.tmp''"
  obtain b where b: "enc_seal P (as_key s) (pi_nonce i) v = Inr b" using sv by (auto simp: put_served_def is_ok_def split: sum.splits)
  obtain d where d: "fs_mkdirs [ns] (as_root s) = Some d"
    using mkdirs_ok[of ns "as_root s"] inv by (auto simp: app_inv_def)
  have isd: "fs_is_dir [ns] (Some d)" by (rule mkdirs_is_dir[OF d])
  have nf: "fs_lookup [ns, ?tmp] (Some d) = IoNotFound"
    using sv read_dir_mkdirs[OF d, of ns] by (auto simp: put_served_def tmp_path lookup_record split: io_res.splits)
  have dec: "app_hex_decode ?tmp = None" "app_hex_decode ?x \<noteq> None" by (rule tmp_no_record) (simp add: app_hex_roundtrip)
  let ?t = "fs_set [ns, ?tmp] (Some (FileN b (pi_now i))) (Some d)"
  have w: "write_tmp i [ns, ?tmp] b (Some d) = (Inr (), ?t)"
    using sv isd nf by (simp add: write_tmp_def put_served_def)
  have k: "keeps (as_root s) ?t" using keeps_trans[OF keeps_mkdirs[OF d]] write_tmp_keeps[OF dec(1) w] by blast
  have t: "fs_is_dir [ns] ?t" "fs_lookup [ns, ?tmp] ?t = IoOk (FileN b (pi_now i))"
    using write_tmp_keeps[OF dec(1) w] by simp_all
  have "\<not> fs_is_dir [ns, ?x] ?t"
  proof
    assume "fs_is_dir [ns, ?x] ?t"
    then obtain es where "ns_recs ?t ns ?x = Some (DirN es)"
      using t(1) dec(2) by (auto simp: fs_is_dir_def lookup_record ns_recs_def recs_def split: io_res.splits option.splits fs_node.splits)
    then show False using k inv by (fastforce simp: keeps_def app_inv_def)
  qed
  then have "fst (fs_rename [ns, ?tmp] [ns, ?x] ?t)" using t by (simp add: fs_rename_def Let_def)
  then have "fst (commit_loop i [ns, ?tmp] [ns, ?x] COMMIT_ATTEMPTS 0 ?t)"
    using commit_loop_ok sv by (fastforce simp: put_served_def)
  then show ?thesis using sv b d w
    by (auto simp: app_put_def record_path_def namespace_dir_def write_private_def tmp_path put_served_def Let_def split: prod.splits bool.splits)
qed

text \<open>A successful write leaves no temporary file behind.\<close>

lemma app_put_success:
  assumes "app_put P i ns k v s = (Inr (), s')"
  shows "\<exists>d b tmp. fs_mkdirs [ns] (as_root s) = Some d \<and> fs_is_dir [ns] (Some d) \<and> app_hex_decode tmp = None
    \<and> as_root s' = fs_set [ns, record_name k] (Some (FileN b (pi_now i))) (fs_set [ns, tmp] None (fs_set [ns, tmp] (Some (FileN b (pi_now i))) (Some d)))"
proof -
  let ?x = "record_name k" let ?tmp = "?x @ ''.'' @ show_nat (as_pid s) @ ''.'' @ show_nat (unat (as_seq s)) @ ''.tmp''"
  have dec: "app_hex_decode ?tmp = None" "app_hex_decode ?x \<noteq> None" by (rule tmp_no_record) (simp add: app_hex_roundtrip)
  obtain b d where b: "enc_seal P (as_key s) (pi_nonce i) v = Inr b" and d: "fs_mkdirs [ns] (as_root s) = Some d"
    and w: "write_private i [ns, ?x] b (s\<lparr>as_root := Some d\<rparr>) = (Inr (), s')"
    using assms by (auto simp: app_put_def record_path_def namespace_dir_def split: sum.splits if_splits option.splits)
  have isd: "fs_is_dir [ns] (Some d)" by (rule mkdirs_is_dir[OF d])
  obtain t1 where t1: "write_tmp i [ns, ?tmp] b (Some d) = (Inr (), t1)" "commit_loop i [ns, ?tmp] [ns, ?x] COMMIT_ATTEMPTS 0 t1 = (True, as_root s')"
    using w by (auto simp: write_private_def tmp_path Let_def split: prod.splits sum.splits bool.splits)
  have "t1 = fs_set [ns, ?tmp] (Some (FileN b (pi_now i))) (Some d)" using t1(1) by (auto simp: write_tmp_def split: if_splits)
  moreover have "as_root s' = fs_set [ns, ?x] (Some (FileN b (pi_now i))) (fs_set [ns, ?tmp] None t1)"
    using commit_loop_True[OF t1(2)] write_tmp_keeps[OF dec(1) t1(1)] by (auto simp: fs_rename_def Let_def split: if_splits)
  ultimately show ?thesis using d isd dec by blast
qed

definition no_leftover :: "app_store \<Rightarrow> bool" where
  "no_leftover s = (\<forall>ns y n. app_hex_decode y = None \<longrightarrow> fs_lookup [ns, y] (as_root s) \<noteq> IoOk n)"

lemma app_put_clean: "no_leftover s \<Longrightarrow> app_put P i ns k v s = (Inr (), s') \<Longrightarrow> no_leftover s'"
  unfolding no_leftover_def
proof (intro allI impI notI)
  fix ns' y n
  assume c: "\<forall>ns y n. app_hex_decode y = None \<longrightarrow> fs_lookup [ns, y] (as_root s) \<noteq> IoOk n" and p: "app_put P i ns k v s = (Inr (), s')"
    and y: "app_hex_decode y = None" and l: "fs_lookup [ns', y] (as_root s') = IoOk n"
  obtain d b tmp where d: "fs_mkdirs [ns] (as_root s) = Some d" "fs_is_dir [ns] (Some d)"
    "as_root s' = fs_set [ns, record_name k] (Some (FileN b (pi_now i))) (fs_set [ns, tmp] None (fs_set [ns, tmp] (Some (FileN b (pi_now i))) (Some d)))"
    using app_put_success[OF p] by blast
  let ?t1 = "fs_set [ns, tmp] (Some (FileN b (pi_now i))) (Some d)"
  have "y \<noteq> record_name k" using y by (auto simp: app_hex_roundtrip)
  then have "fs_lookup [ns', y] (fs_set [ns, tmp] None ?t1) = IoOk n" using l lookup_set_apart[of "[ns', y]" "[ns, record_name k]"] d(3) by simp
  moreover have "fs_lookup [ns, tmp] (fs_set [ns, tmp] None ?t1) = IoNotFound"
    using lookup_set_same[of "[ns]" ?t1 tmp None] is_dir_set[OF d(2)] by simp
  ultimately have "[ns', y] \<noteq> [ns, tmp]" by auto
  then have "fs_lookup [ns', y] (fs_set [ns, tmp] None ?t1) = fs_lookup [ns', y] (Some d)"
    using lookup_set_apart[of "[ns', y]" "[ns, tmp]"] by simp
  then have "fs_lookup [ns', y] (Some d) = IoOk n" using \<open>fs_lookup [ns', y] (fs_set [ns, tmp] None ?t1) = IoOk n\<close> by simp
  then have "fs_lookup [ns', y] (as_root s) = IoOk n"
    using read_dir_mkdirs[OF d(1), of ns'] by (auto simp: lookup_record split: if_splits io_res.splits)
  with c y show False by blast
qed

lemma no_leftover_served:
  assumes "app_inv P s" "no_leftover s"
  shows "fs_lookup (unique_tmp pid n [ns, record_name k]) (as_root s) = IoNotFound"
proof -
  let ?y = "record_name k @ ''.'' @ show_nat pid @ ''.'' @ show_nat (unat n) @ ''.tmp''"
  have "fs_lookup [ns, ?y] (as_root s) \<noteq> IoOk n" for n using assms(2) tmp_no_record[of "record_name k"] by (simp add: no_leftover_def)
  moreover have "fs_lookup [ns, ?y] (as_root s) \<noteq> IoErr" using assms(1) by (auto simp: app_inv_def lookup_record split: io_res.splits option.splits)
  ultimately show ?thesis unfolding tmp_path by (cases "fs_lookup [ns, ?y] (as_root s)") auto
qed

section \<open>The contract of the port\<close>

locale record_store =
  fixes A :: "'s app_port" and inv :: "'s \<Rightarrow> bool" and abs :: "'s \<Rightarrow> string \<Rightarrow> string \<Rightarrow> bytes option"
  assumes put_law: "inv s \<Longrightarrow> str_ok k \<Longrightarrow> ap_put A ns k v s = (r, t) \<Longrightarrow>
      inv t \<and> (r = Inr () \<longrightarrow> namespace_ok ns) \<and> abs t = (if r = Inr () then (abs s)(ns := (abs s ns)(k \<mapsto> v)) else abs s)"
    and get_law: "inv s \<Longrightarrow> namespace_ok ns \<Longrightarrow> ap_get A ns k s = Inr (abs s ns k)"
    and list_law: "inv s \<Longrightarrow> namespace_ok ns \<Longrightarrow>
      \<exists>rows. ap_list A ns s = Inr rows \<and> sorted (map fst rows) \<and> distinct (map fst rows) \<and> map_of rows = abs s ns"
    and delete_law: "inv s \<Longrightarrow> namespace_ok ns \<Longrightarrow> ap_delete A ns k s = (rd, t) \<Longrightarrow>
      rd = Inr (abs s ns k \<noteq> None) \<and> inv t \<and> abs t = (abs s)(ns := (abs s ns)(k := None))"
    and clear_law: "inv s \<Longrightarrow> namespace_ok ns \<Longrightarrow> ap_clear A ns s = (r, t) \<Longrightarrow>
      r = Inr () \<and> inv t \<and> abs t = (abs s)(ns := Map.empty)"
begin

lemma put_get:
  "inv s \<Longrightarrow> str_ok k \<Longrightarrow> ap_put A ns k v s = (Inr (), t) \<Longrightarrow> namespace_ok ns' \<Longrightarrow>
     ap_get A ns' k' t = (if ns' = ns \<and> k' = k then Inr (Some v) else ap_get A ns' k' s)"
  using put_law[of s k ns v "Inr ()" t] get_law by auto

lemma list_rows: "inv s \<Longrightarrow> namespace_ok ns \<Longrightarrow> ap_list A ns s = Inr rows \<Longrightarrow> (k, v) \<in> set rows \<longleftrightarrow> abs s ns k = Some v"
  using list_law[of s ns] by (metis map_of_eq_Some_iff sum.inject(2))

end

definition app_port_inv :: "prims \<Rightarrow> (nat \<Rightarrow> put_io) \<Rightarrow> app_store \<times> nat \<Rightarrow> bool" where
  "app_port_inv P io = (\<lambda>(s, n). app_inv P s \<and> gcm_ok P \<and> (\<forall>m. length (pi_nonce (io m)) = 12))"

definition app_port_abs :: "prims \<Rightarrow> app_store \<times> nat \<Rightarrow> string \<Rightarrow> string \<Rightarrow> bytes option" where
  "app_port_abs P = (\<lambda>(s, n). app_abs P s)"

interpretation app: record_store "fs_app_port P io" "app_port_inv P io" "app_port_abs P" for P io
proof unfold_locales
  fix s :: "app_store \<times> nat" and t k ns v and r :: "(domain_error, unit) result" and rd :: "(domain_error, bool) result"
  obtain a n where s: "s = (a, n)" by fastforce
  show "app_port_inv P io s \<Longrightarrow> str_ok k \<Longrightarrow> ap_put (fs_app_port P io) ns k v s = (r, t) \<Longrightarrow>
      app_port_inv P io t \<and> (r = Inr () \<longrightarrow> namespace_ok ns)
      \<and> app_port_abs P t = (if r = Inr () then (app_port_abs P s)(ns := (app_port_abs P s ns)(k \<mapsto> v)) else app_port_abs P s)"
    using app_put_refines[of P a "io n" k ns v r "fst t"]
    by (auto simp: s app_port_inv_def app_port_abs_def fs_app_port_def split: prod.splits)
  show "app_port_inv P io s \<Longrightarrow> namespace_ok ns \<Longrightarrow> ap_get (fs_app_port P io) ns k s = Inr (app_port_abs P s ns k)"
    by (simp add: s app_port_inv_def app_port_abs_def fs_app_port_def app_get_abs)
  show "app_port_inv P io s \<Longrightarrow> namespace_ok ns \<Longrightarrow> \<exists>rows. ap_list (fs_app_port P io) ns s = Inr rows
      \<and> sorted (map fst rows) \<and> distinct (map fst rows) \<and> map_of rows = app_port_abs P s ns"
    using app_list_refines[of P a ns] by (auto simp: s app_port_inv_def app_port_abs_def fs_app_port_def)
  show "app_port_inv P io s \<Longrightarrow> namespace_ok ns \<Longrightarrow> ap_delete (fs_app_port P io) ns k s = (rd, t) \<Longrightarrow>
      rd = Inr (app_port_abs P s ns k \<noteq> None) \<and> app_port_inv P io t
      \<and> app_port_abs P t = (app_port_abs P s)(ns := (app_port_abs P s ns)(k := None))"
    using app_delete_refines[of P a ns k rd "fst t"]
    by (auto simp: s app_port_inv_def app_port_abs_def fs_app_port_def split: prod.splits)
  show "app_port_inv P io s \<Longrightarrow> namespace_ok ns \<Longrightarrow> ap_clear (fs_app_port P io) ns s = (r, t) \<Longrightarrow>
      r = Inr () \<and> app_port_inv P io t \<and> app_port_abs P t = (app_port_abs P s)(ns := Map.empty)"
    using app_clear_refines[of P a ns r "fst t"]
    by (auto simp: s app_port_inv_def app_port_abs_def fs_app_port_def split: prod.splits)
qed

text \<open>
  What a client with untrusted namespaces also relies on: a name the store does not accept is
  refused and nothing changes, keys are valid strings, and \<open>namespaces\<close> lists at least the
  namespaces that hold a record, in order.
\<close>

locale strict_store = record_store A inv abs for A :: "'s app_port" and inv abs +
  assumes bad_get: "inv s \<Longrightarrow> \<not> namespace_ok ns \<Longrightarrow> \<exists>e. ap_get A ns k s = Inl e"
    and bad_list: "inv s \<Longrightarrow> \<not> namespace_ok ns \<Longrightarrow> \<exists>e. ap_list A ns s = Inl e"
    and bad_delete: "inv s \<Longrightarrow> \<not> namespace_ok ns \<Longrightarrow> \<exists>e. ap_delete A ns k s = (Inl e, s)"
    and key_law: "inv s \<Longrightarrow> abs s ns k = Some v \<Longrightarrow> str_ok k"
    and names_law: "inv s \<Longrightarrow> \<exists>names. ap_namespaces A p s = Inr names \<and> sorted names \<and> distinct names
      \<and> (\<forall>n \<in> set names. str_ok n \<and> take (length p) n = p)
      \<and> (\<forall>n k v. abs s n k = Some v \<longrightarrow> str_ok n \<longrightarrow> take (length p) n = p \<longrightarrow> n \<in> set names)"
begin

lemma get_cases:
  "inv s \<Longrightarrow> (namespace_ok ns \<and> ap_get A ns k s = Inr (abs s ns k)) \<or> (\<not> namespace_ok ns \<and> (\<exists>e. ap_get A ns k s = Inl e))"
  using get_law bad_get by blast

lemma delete_cases:
  assumes "inv s" "ap_delete A ns k s = (r, t)"
  shows "inv t \<and> abs t = (if namespace_ok ns then (abs s)(ns := (abs s ns)(k := None)) else abs s)
    \<and> (case r of Inr b \<Rightarrow> namespace_ok ns \<and> b = (abs s ns k \<noteq> None) | Inl _ \<Rightarrow> \<not> namespace_ok ns)"
  using delete_law[OF assms(1) _ assms(2)] bad_delete[OF assms(1), of ns k] assms by (cases "namespace_ok ns") auto

end

lemma app_inv_fresh: "as_root s = None \<Longrightarrow> app_inv P s \<and> app_abs P s = (\<lambda>_ _. None)"
  by (simp add: app_inv_def app_abs_def ns_recs_def fs_read_dir_def fun_eq_iff)

text \<open>
  C21. The file store is a map from namespace and key to value: a store with no directory yet is
  the empty map; a \<open>put\<close> that succeeds sets exactly its entry, one that fails - encryption,
  directory, temporary file, flush or all twenty renames - changes no entry, and a \<open>put\<close> whose
  environment does its part succeeds; \<open>get\<close> returns the entry; \<open>list\<close> returns all entries of
  the namespace in order of their keys, whatever temporary files interrupted writes left behind;
  \<open>delete\<close> reports whether the entry was there and removes only it; \<open>clear\<close> empties only its
  namespace. Every one of them keeps the store's invariant.
\<close>

theorem app_store_refines_map:
  assumes "app_inv P s" "gcm_ok P" "length (pi_nonce i) = 12" "namespace_ok ns" "str_ok k"
    "app_put P i ns k v s = (r, s1)" "app_delete ns k s = (rd, s2)" "app_clear ns s = (rc, s3)" "as_root s0 = None"
  shows "app_inv P s0 \<and> app_abs P s0 = (\<lambda>_ _. None)
    \<and> app_inv P s1 \<and> app_abs P s1 = (if r = Inr () then (app_abs P s)(ns := (app_abs P s ns)(k \<mapsto> v)) else app_abs P s)
    \<and> (put_served P i ns k v s \<longrightarrow> r = Inr ())
    \<and> app_get P ns k s = Inr (app_abs P s ns k)
    \<and> (\<exists>rows. app_list P ns s = Inr rows \<and> sorted (map fst rows) \<and> distinct (map fst rows) \<and> map_of rows = app_abs P s ns)
    \<and> app_inv P s2 \<and> rd = Inr (app_abs P s ns k \<noteq> None) \<and> app_abs P s2 = (app_abs P s)(ns := (app_abs P s ns)(k := None))
    \<and> app_inv P s3 \<and> rc = Inr () \<and> app_abs P s3 = (app_abs P s)(ns := Map.empty)"
  using app_inv_fresh[OF assms(9), of P] app_put_refines[OF assms(1-3,5,6)] app_put_completes[OF assms(1), of i ns k v] assms(4,6)
    app_get_abs[OF assms(1), of ns k] app_list_refines[OF assms(1,4)] app_delete_refines[OF assms(1,4,7)] app_clear_refines[OF assms(1,4,8)]
  by simp

text \<open>
  A namespace with a record is listed by \<open>namespaces\<close>; so is one whose only file is what an
  interrupted write left behind, which holds no record.
\<close>

lemma namespaces_complete:
  assumes "app_inv P s" "app_abs P s ns k = Some v" "str_ok ns" "take (length prefix) ns = prefix"
  shows "\<exists>names. app_namespaces prefix s = Inr names \<and> ns \<in> set names"
proof -
  obtain es n where e: "fs_read_dir [ns] (as_root s) = IoOk es" "map_of es (record_name k) = Some n"
    using assms(2) by (auto simp: app_abs_def ns_recs_def recs_def rec_value_def split: io_res.splits if_splits option.splits)
  then obtain rs where r: "as_root s = Some (DirN rs)" "map_of rs ns = Some (DirN es)"
  proof (cases "as_root s"; cases "the (as_root s)")
    fix r rs assume "as_root s = Some r" "the (as_root s) = DirN rs"
    with e that show ?thesis by (cases "map_of rs ns"; cases "the (map_of rs ns)") (auto simp: fs_read_dir_def)
  qed (use e in \<open>auto simp: fs_read_dir_def\<close>)
  moreover from e have "es \<noteq> []" by auto
  ultimately show ?thesis using assms(3,4) by (force simp: app_namespaces_def fs_read_dir_def dest: map_of_SomeD)
qed

lemma namespaces_listed:
  assumes "app_inv P s"
  shows "\<exists>names. app_namespaces prefix s = Inr names \<and> sorted names \<and> distinct names
    \<and> (\<forall>n \<in> set names. str_ok n \<and> take (length prefix) n = prefix)"
proof (cases "fs_read_dir [] (as_root s)")
  case (IoOk es)
  with assms have "fs_ok (DirN es)" unfolding app_inv_def by (blast dest: fs_wf_read_dir)
  then have "distinct (map fst es)" by simp
  with IoOk show ?thesis by (auto simp: app_namespaces_def distinct_map_filter)
next
  case IoErr
  then have "fs_read_dir [x] (as_root s) = IoErr" for x
    by (cases "as_root s"; cases "the (as_root s)") (auto simp: fs_read_dir_def)
  then show ?thesis using assms unfolding app_inv_def by blast
qed (simp add: app_namespaces_def)

interpretation strict: strict_store "fs_app_port P io" "app_port_inv P io" "app_port_abs P" for P io
proof unfold_locales
  fix s :: "app_store \<times> nat" and ns k v p
  obtain a n where s: "s = (a, n)" by fastforce
  assume i: "app_port_inv P io s"
  then have a: "app_inv P a" by (simp add: s app_port_inv_def)
  show "\<not> namespace_ok ns \<Longrightarrow> \<exists>e. ap_get (fs_app_port P io) ns k s = Inl e"
    by (simp add: s fs_app_port_def app_get_abs[OF a])
  show "\<not> namespace_ok ns \<Longrightarrow> \<exists>e. ap_list (fs_app_port P io) ns s = Inl e"
    by (simp add: s fs_app_port_def app_list_def namespace_dir_def rbind_def)
  show "\<not> namespace_ok ns \<Longrightarrow> \<exists>e. ap_delete (fs_app_port P io) ns k s = (Inl e, s)"
    by (simp add: s fs_app_port_def app_delete_def record_path_def namespace_dir_def rbind_def)
  show "str_ok k" if v: "app_port_abs P s ns k = Some v"
  proof -
    obtain nd where "ns_recs (as_root a) ns (record_name k) = Some nd"
      using v by (auto simp: s app_port_abs_def app_abs_def rec_value_def split: option.splits)
    then show ?thesis using a unfolding app_inv_def by (metis record_name_eq)
  qed
  show "\<exists>names. ap_namespaces (fs_app_port P io) p s = Inr names \<and> sorted names \<and> distinct names
      \<and> (\<forall>n \<in> set names. str_ok n \<and> take (length p) n = p)
      \<and> (\<forall>n k v. app_port_abs P s n k = Some v \<longrightarrow> str_ok n \<longrightarrow> take (length p) n = p \<longrightarrow> n \<in> set names)"
    using namespaces_listed[OF a, of p] namespaces_complete[OF a, of _ _ _ p] by (fastforce simp: s fs_app_port_def app_port_abs_def)
qed

text \<open>
  A store whose writes succeed as long as it stays calm: the device does its part, sealing works,
  and no temporary file of an interrupted write is in the way.
\<close>

locale served_store = strict_store A inv abs for A :: "'s app_port" and inv abs +
  fixes calm :: "'s \<Rightarrow> bool"
  assumes put_served: "inv s \<Longrightarrow> calm s \<Longrightarrow> namespace_ok ns \<Longrightarrow> str_ok k \<Longrightarrow> ap_put A ns k v s = (r, t) \<Longrightarrow> r = Inr () \<and> calm t"
    and delete_calm: "inv s \<Longrightarrow> calm s \<Longrightarrow> ap_delete A ns k s = (rd, t) \<Longrightarrow> calm t"

definition io_served :: "put_io \<Rightarrow> bool" where
  "io_served i = (pi_mkdir i \<and> pi_create i \<and> pi_write i \<and> pi_sync i \<and> (\<exists>a < COMMIT_ATTEMPTS. pi_rename i a))"

definition app_port_calm :: "prims \<Rightarrow> (nat \<Rightarrow> put_io) \<Rightarrow> app_store \<times> nat \<Rightarrow> bool" where
  "app_port_calm P io = (\<lambda>(s, n). no_leftover s \<and> (\<forall>m. io_served (io m)) \<and> (\<forall>m v. is_ok (enc_seal P (as_key s) (pi_nonce (io m)) v)))"

lemma app_delete_clean:
  assumes "no_leftover s" "app_delete ns k s = (r, s')"
  shows "no_leftover s' \<and> as_key s' = as_key s"
proof -
  have "s' = s \<or> as_key s' = as_key s \<and> as_root s' \<in> {as_root s, fs_set [ns, record_name k] None (as_root s)}"
    using assms(2) by (auto simp: app_delete_def record_path_def namespace_dir_def rbind_def fs_remove_file_def
        split: if_splits io_res.splits fs_node.splits)
  moreover have "fs_lookup [ns', y] (fs_set [ns, record_name k] None (as_root s)) = fs_lookup [ns', y] (as_root s)"
    if "app_hex_decode y = None" for ns' y
  proof -
    have "y \<noteq> record_name k" using that by (auto simp: app_hex_roundtrip)
    then show ?thesis by (intro lookup_set_apart) simp
  qed
  ultimately show ?thesis using assms(1) by (auto simp: no_leftover_def)
qed

interpretation served: served_store "fs_app_port P io" "app_port_inv P io" "app_port_abs P" "app_port_calm P io" for P io
proof unfold_locales
  fix s :: "app_store \<times> nat" and t ns k v and r :: "(domain_error, unit) result" and rd :: "(domain_error, bool) result"
  obtain a n where s: "s = (a, n)" by fastforce
  assume i: "app_port_inv P io s" and c: "app_port_calm P io s"
  then have a: "app_inv P a" "no_leftover a" by (auto simp: s app_port_inv_def app_port_calm_def)
  show "ap_delete (fs_app_port P io) ns k s = (rd, t) \<Longrightarrow> app_port_calm P io t"
    using c app_delete_clean[OF a(2)] by (auto simp: s app_port_calm_def fs_app_port_def split: prod.splits)
  assume n: "namespace_ok ns" and k: "str_ok k" and p: "ap_put (fs_app_port P io) ns k v s = (r, t)"
  then have pt: "app_put P (io n) ns k v a = (r, fst t)" by (auto simp: s fs_app_port_def split: prod.splits)
  have "put_served P (io n) ns k v a"
    using c n no_leftover_served[OF a] by (auto simp: s put_served_def app_port_calm_def io_served_def)
  from app_put_completes[OF a(1) this] pt have r: "r = Inr ()" by simp
  have "as_key (fst t) = as_key a"
    using app_put_refines[OF a(1) _ _ k pt] i by (simp add: s app_port_inv_def)
  then show "r = Inr () \<and> app_port_calm P io t" using r c app_put_clean[OF a(2), of P "io n" ns k v "fst t"] pt
    by (auto simp: s app_port_calm_def split: prod.splits)
qed

section \<open>Witnesses\<close>

definition toy_put_io :: put_io where
  "toy_put_io = \<lparr>pi_nonce = replicate 12 0, pi_mkdir = True, pi_create = True, pi_write = True, pi_written = 0,
     pi_sync = True, pi_rename = (\<lambda>n. n = 1), pi_remove = False, pi_now = 0\<rparr>"

definition toy_app :: app_store where
  "toy_app = \<lparr>as_key = [1], as_pid = 7, as_seq = 0, as_root = None\<rparr>"

lemma toy_app_served: "put_served toy_prims toy_put_io ''n'' ''k'' [5] toy_app"
  by (auto simp: put_served_def toy_put_io_def toy_app_def namespace_ok_def slug_char_def is_ascii_alphanumeric_def
      enc_seal_def toy_prims_def is_ok_def COMMIT_ATTEMPTS_def)

lemma toy_put_ok:
  assumes "app_inv toy_prims s" "no_leftover s" "namespace_ok ns" "str_ok k"
  shows "\<exists>s'. app_put toy_prims toy_put_io ns k v s = (Inr (), s') \<and> app_inv toy_prims s' \<and> no_leftover s'"
proof -
  have "put_served toy_prims toy_put_io ns k v s"
    using toy_app_served assms(3) no_leftover_served[OF assms(1,2)]
    by (simp add: put_served_def enc_seal_def toy_prims_def is_ok_def)
  from app_put_completes[OF assms(1) this] obtain s' where p: "app_put toy_prims toy_put_io ns k v s = (Inr (), s')"
    by (metis prod.collapse)
  moreover have "length (pi_nonce toy_put_io) = 12" by (simp add: toy_put_io_def)
  ultimately show ?thesis using app_put_refines[OF assms(1) toy_gcm _ assms(4) p] app_put_clean[OF assms(2) p] by blast
qed

theorem app_store_refines_map_witness:
  "app_get toy_prims ''n'' ''k'' (snd (app_put toy_prims toy_put_io ''n'' ''k'' [5] toy_app)) = Inr (Some [5])"
proof -
  obtain r s1 rd s2 rc s3 where e: "app_put toy_prims toy_put_io ''n'' ''k'' [5] toy_app = (r, s1)"
    "app_delete ''n'' ''k'' toy_app = (rd, s2)" "app_clear ''n'' toy_app = (rc, s3)" by (metis prod.exhaust)
  have h: "length (pi_nonce toy_put_io) = 12" "namespace_ok ''n''" "str_ok ''k''" "as_root toy_app = None"
    using toy_app_served by (simp_all add: toy_put_io_def put_served_def str_bytes_def unat_of_char toy_app_def)
  note i0 = app_inv_fresh[OF h(4), of toy_prims]
  have u: "app_inv toy_prims s1 \<and> app_abs toy_prims s1 ''n'' ''k'' = Some [5]"
    using app_store_refines_map[OF conjunct1[OF i0] toy_gcm h(1-3) e h(4)] toy_app_served by auto
  obtain r' s1' rd' s2' rc' s3' where e': "app_put toy_prims toy_put_io ''n'' ''k'' [5] s1 = (r', s1')"
    "app_delete ''n'' ''k'' s1 = (rd', s2')" "app_clear ''n'' s1 = (rc', s3')" by (metis prod.exhaust)
  show ?thesis
    using app_store_refines_map[OF conjunct1[OF u] toy_gcm h(1-3) e' h(4)] u e(1) by auto
qed

abbreviation toy_port :: "(app_store \<times> nat) app_port" where
  "toy_port \<equiv> fs_app_port toy_prims (\<lambda>_. toy_put_io)"

lemma toy_port_inv: "app_port_inv toy_prims (\<lambda>_. toy_put_io) (toy_app, 0)" "app_port_abs toy_prims (toy_app, 0) = (\<lambda>_ _. None)"
  using app_inv_fresh[of toy_app toy_prims] toy_gcm
  by (simp_all add: app_port_inv_def app_port_abs_def toy_app_def toy_put_io_def)

lemma toy_port_calm: "app_port_calm toy_prims (\<lambda>_. toy_put_io) (toy_app, 0)"
  by (auto simp: app_port_calm_def toy_app_def toy_put_io_def io_served_def no_leftover_def COMMIT_ATTEMPTS_def
      enc_seal_def toy_prims_def is_ok_def)

end
