(* ===== verification/PB_Chunk.thy ===== *)
theory PB_Chunk
  imports PB_Crypto
begin

text \<open>
  Content-defined chunking (\<open>peerbeam-chunk/src/lib.rs\<close>) and delta transfer
  (\<open>peerbeam-sync/src/delta.rs\<close>). SHA-256 is the parameter of the crypto theory; what serves a
  chunk - a peer or a local file - is a function from its hash.

  Shown here: the chunks of a file tile it within their size bounds; a delta plan asks exactly
  once for exactly the missing content; reassembly yields the file whose chunk map it was given
  or nothing; and a streamed fetch publishes the complete file or leaves the old one in place.
\<close>

section \<open>Chunks\<close>

definition MIN_CHUNK :: nat where "MIN_CHUNK = 16 * 1024"
definition AVG_CHUNK :: nat where "AVG_CHUNK = 64 * 1024"
definition MAX_CHUNK :: nat where "MAX_CHUNK = 256 * 1024"
definition CHUNK_MASK :: u64 where "CHUNK_MASK = push_bit 16 1 - 1"

record chunk =
  ck_offset :: u64
  ck_len :: u32
  ck_hash :: string

primrec build_gear :: "nat \<Rightarrow> u64 \<Rightarrow> u64 list" where
  "build_gear 0 state = []"
| "build_gear (Suc n) state =
     (let state = state * 6364136223846793005 + 1442695040888963407 in state # build_gear n state)"

definition GEAR :: "u64 list" where
  "GEAR = build_gear 256 0x0123456789abcdef"

definition chunk_hash :: "prims \<Rightarrow> bytes \<Rightarrow> string" where
  "chunk_hash P data = to_hex (sha256 P data)"

text \<open>The loop over the bytes from the floor to the limit; \<open>i\<close> is the index of the next byte.\<close>

fun cut_loop :: "u64 \<Rightarrow> nat \<Rightarrow> bytes \<Rightarrow> nat" where
  "cut_loop digest i [] = i"
| "cut_loop digest i (b # bs) =
     (let digest = push_bit 1 digest + GEAR ! unat b
      in if digest AND CHUNK_MASK = 0 then i + 1 else cut_loop digest (i + 1) bs)"

definition next_boundary :: "bytes \<Rightarrow> nat" where
  "next_boundary data =
     (if length data \<le> MIN_CHUNK then length data
      else let limit = min (length data) MAX_CHUNK
           in cut_loop 0 MIN_CHUNK (drop MIN_CHUNK (take limit data)))"

lemma cut_loop_bounds: "i \<le> cut_loop d i bs \<and> cut_loop d i bs \<le> i + length bs \<and> (bs \<noteq> [] \<longrightarrow> i < cut_loop d i bs)"
proof (induction d i bs rule: cut_loop.induct)
  case (2 d i b bs)
  then show ?case by (auto simp: Let_def)
qed simp

lemma next_boundary_le: "next_boundary data \<le> length data \<and> next_boundary data \<le> MAX_CHUNK"
proof (cases "length data \<le> MIN_CHUNK")
  case True
  then show ?thesis by (simp add: next_boundary_def MIN_CHUNK_def MAX_CHUNK_def)
next
  case False
  let ?l = "min (length data) MAX_CHUNK"
  have "cut_loop 0 MIN_CHUNK (drop MIN_CHUNK (take ?l data)) \<le> MIN_CHUNK + (?l - MIN_CHUNK)"
    using cut_loop_bounds[of MIN_CHUNK 0 "drop MIN_CHUNK (take ?l data)"] by simp
  moreover have "MIN_CHUNK \<le> ?l" using False by (simp add: MIN_CHUNK_def MAX_CHUNK_def)
  ultimately show ?thesis using False by (simp add: next_boundary_def Let_def)
qed

lemma next_boundary_ge: "min (length data) MIN_CHUNK \<le> next_boundary data"
  using cut_loop_bounds[of MIN_CHUNK 0 "drop MIN_CHUNK (take (min (length data) MAX_CHUNK) data)"]
  by (simp add: next_boundary_def Let_def)

lemma next_boundary_pos: "data \<noteq> [] \<Longrightarrow> 0 < next_boundary data"
  using next_boundary_ge[of data] by (cases data) (auto simp: MIN_CHUNK_def)

function split_from :: "prims \<Rightarrow> nat \<Rightarrow> bytes \<Rightarrow> chunk list" where
  "split_from P start data =
     (if data = [] then []
      else let n = next_boundary data
           in \<lparr>ck_offset = of_nat start, ck_len = of_nat n, ck_hash = chunk_hash P (take n data)\<rparr>
              # split_from P (start + n) (drop n data))"
  by pat_completeness auto
termination
  by (relation "measure (\<lambda>(P, s, d). length d)") (auto simp: next_boundary_pos)

declare split_from.simps [simp del]

definition chunk_split :: "prims \<Rightarrow> bytes \<Rightarrow> chunk list" where
  "chunk_split P data = split_from P 0 data"

section \<open>Delta transfer\<close>

record chunk_map =
  cm_path :: string
  cm_chunks :: "chunk list"

definition total_bytes :: "chunk_map \<Rightarrow> u64" where
  "total_bytes m = sum_list (map (\<lambda>c. ucast (ck_len c)) (cm_chunks m))"

record need =
  need_fetch :: "string list"
  need_fetch_bytes :: u64
  need_reuse_bytes :: u64

definition need_default :: need where
  "need_default = \<lparr>need_fetch = [], need_fetch_bytes = 0, need_reuse_bytes = 0\<rparr>"

definition is_satisfied :: "need \<Rightarrow> bool" where
  "is_satisfied n = (need_fetch n = [])"

definition plan_step :: "string set \<Rightarrow> chunk \<Rightarrow> need \<Rightarrow> need" where
  "plan_step have c need =
     (if ck_hash c \<in> have then need\<lparr>need_reuse_bytes := need_reuse_bytes need + ucast (ck_len c)\<rparr>
      else if ck_hash c \<notin> set (need_fetch need) then
        need\<lparr>need_fetch := need_fetch need @ [ck_hash c], need_fetch_bytes := need_fetch_bytes need + ucast (ck_len c)\<rparr>
      else need\<lparr>need_reuse_bytes := need_reuse_bytes need + ucast (ck_len c)\<rparr>)"

definition plan_delta :: "chunk_map \<Rightarrow> string set \<Rightarrow> need" where
  "plan_delta want have = fold (plan_step have) (cm_chunks want) need_default"

definition MAX_REASSEMBLE :: u64 where "MAX_REASSEMBLE = 256 * 1024 * 1024"

definition fits_in_memory :: "chunk_map \<Rightarrow> bool" where
  "fits_in_memory m = (total_bytes m \<le> MAX_REASSEMBLE)"

text \<open>
  The bytes written before the loop stops, and whether it ran to the end. \<open>write\<close> says whether
  writing at that length succeeds.
\<close>

fun reassemble_loop :: "prims \<Rightarrow> (string \<Rightarrow> bytes option) \<Rightarrow> (nat \<Rightarrow> bool) \<Rightarrow> bytes \<Rightarrow> chunk list \<Rightarrow> bytes \<times> bool" where
  "reassemble_loop P supply write out [] = (out, True)"
| "reassemble_loop P supply write out (c # cs) =
     (case supply (ck_hash c) of
        None \<Rightarrow> (out, False)
      | Some bytes \<Rightarrow>
          if length bytes \<noteq> unat (ck_len c) then (out, False)
          else if chunk_hash P bytes \<noteq> ck_hash c then (out, False)
          else if \<not> write (length out) then (out, False)
          else reassemble_loop P supply write (out @ bytes) cs)"

definition reassemble_into :: "prims \<Rightarrow> chunk_map \<Rightarrow> (string \<Rightarrow> bytes option) \<Rightarrow> (nat \<Rightarrow> bool) \<Rightarrow> bytes \<Rightarrow> bytes \<times> nat option" where
  "reassemble_into P m supply write out =
     (case reassemble_loop P supply write out (cm_chunks m) of
        (out', True) \<Rightarrow> (out', Some (length out' - length out)) | (out', False) \<Rightarrow> (out', None))"

definition reassemble :: "prims \<Rightarrow> chunk_map \<Rightarrow> (string \<Rightarrow> bytes option) \<Rightarrow> bytes option" where
  "reassemble P m supply =
     (if MAX_REASSEMBLE < total_bytes m then None
      else case reassemble_loop P supply (\<lambda>_. True) [] (cm_chunks m) of (out, True) \<Rightarrow> Some out | (_, False) \<Rightarrow> None)"

definition FETCH_WINDOW :: nat where "FETCH_WINDOW = 64"

definition staging_path :: "string \<Rightarrow> string" where
  "staging_path dest = dest @ ''.pbsync''"

text \<open>
  One window of chunks at a time: ask the peer for those this device does not have, then write
  the window, each chunk from the peer's answer or else from this device. \<open>fetch n\<close> is the peer's
  answer to the \<open>n\<close>-th request.
\<close>

definition window_fetched :: "string set \<Rightarrow> (nat \<Rightarrow> string list \<Rightarrow> string \<Rightarrow> bytes option) \<Rightarrow> nat \<Rightarrow> chunk list \<Rightarrow> string \<Rightarrow> bytes option" where
  "window_fetched hv fetch n window =
     (let missing = map ck_hash (filter (\<lambda>c. ck_hash c \<notin> hv) window)
      in if missing = [] then (\<lambda>_. None) else fetch n missing)"

definition window_supply :: "(string \<Rightarrow> bytes option) \<Rightarrow> (string \<Rightarrow> bytes option) \<Rightarrow> string \<Rightarrow> bytes option" where
  "window_supply fetched loc h = (case fetched h of Some b \<Rightarrow> Some b | None \<Rightarrow> loc h)"

definition window_reuse :: "(string \<Rightarrow> bytes option) \<Rightarrow> (string \<Rightarrow> bytes option) \<Rightarrow> chunk list \<Rightarrow> u64" where
  "window_reuse fetched loc window = sum_list (map (\<lambda>c. case fetched (ck_hash c) of
     Some _ \<Rightarrow> 0 | None \<Rightarrow> (case loc (ck_hash c) of Some b \<Rightarrow> of_nat (length b) | None \<Rightarrow> 0)) window)"

function window_loop :: "prims \<Rightarrow> string set \<Rightarrow> (string \<Rightarrow> bytes option) \<Rightarrow> (nat \<Rightarrow> string list \<Rightarrow> string \<Rightarrow> bytes option) \<Rightarrow> (nat \<Rightarrow> bool)
    \<Rightarrow> nat \<Rightarrow> u64 \<Rightarrow> bytes \<Rightarrow> chunk list \<Rightarrow> bytes \<times> u64 option" where
  "window_loop P hv loc fetch write n reuse out cs =
     (if cs = [] then (out, Some reuse)
      else
        let window = take FETCH_WINDOW cs;
            fetched = window_fetched hv fetch n window
        in case reassemble_loop P (window_supply fetched loc) write out window of
             (out, False) \<Rightarrow> (out, None)
           | (out, True) \<Rightarrow>
               window_loop P hv loc fetch write (Suc n) (reuse + window_reuse fetched loc window) out (drop FETCH_WINDOW cs))"
  by pat_completeness auto
termination
  by (relation "measure (\<lambda>(P, h, l, f, w, n, r, out, cs). length cs)") (auto simp: FETCH_WINDOW_def)

declare window_loop.simps [simp del]

text \<open>What the file system answers: the directory, the staging file, its writes, the flush, the rename, the removal.\<close>

record stage_io =
  st_parent :: bool
  st_create :: bool
  st_write :: "nat \<Rightarrow> bool"
  st_flush :: bool
  st_rename :: bool
  st_remove :: bool

type_synonym tree_files = "string \<Rightarrow> bytes option"

definition fetch_streamed :: "prims \<Rightarrow> stage_io \<Rightarrow> chunk_map \<Rightarrow> string \<Rightarrow> string set \<Rightarrow> (string \<Rightarrow> bytes option)
    \<Rightarrow> (nat \<Rightarrow> string list \<Rightarrow> string \<Rightarrow> bytes option) \<Rightarrow> tree_files \<Rightarrow> u64 option \<times> tree_files" where
  "fetch_streamed P i m dest have loc fetch files =
     (if \<not> st_parent i then (None, files)
      else if \<not> st_create i then (None, files)
      else
        case window_loop P have loc fetch (st_write i) 0 0 [] (cm_chunks m) of
          (out, built) \<Rightarrow>
            if built = None \<or> \<not> st_flush i \<or> \<not> st_rename i then (None, files(staging_path dest := (if st_remove i then None else Some out)))
            else (built, files(staging_path dest := None, dest \<mapsto> out)))"

section \<open>Chunks tile the file\<close>

definition chunk_slice :: "bytes \<Rightarrow> chunk \<Rightarrow> bytes" where
  "chunk_slice data c = take (unat (ck_len c)) (drop (unat (ck_offset c)) data)"

lemma unat_small: "n < 2 ^ 32 \<Longrightarrow> unat (of_nat n :: u32) = n" "n < 2 ^ 64 \<Longrightarrow> unat (of_nat n :: u64) = n"
  by (simp_all add: unat_of_nat take_bit_nat_eq_self)

lemma boundary_u32: "unat (of_nat (next_boundary d) :: u32) = next_boundary d"
  using next_boundary_le[of d] by (intro unat_small(1)) (simp add: MAX_CHUNK_def)

text \<open>The facts about a chunk of a file, and about the list as a whole.\<close>

definition chunk_ok :: "prims \<Rightarrow> bytes \<Rightarrow> chunk \<Rightarrow> bool" where
  "chunk_ok P data c = (0 < unat (ck_len c) \<and> unat (ck_len c) \<le> MAX_CHUNK
     \<and> unat (ck_offset c) + unat (ck_len c) \<le> length data \<and> ck_hash c = chunk_hash P (chunk_slice data c))"

lemma split_from_tiles:
  "length (pre @ data) < 2 ^ 64 \<Longrightarrow>
     concat (map (chunk_slice (pre @ data)) (split_from P (length pre) data)) = data
     \<and> list_all (chunk_ok P (pre @ data)) (split_from P (length pre) data)
     \<and> list_all (\<lambda>c. MIN_CHUNK \<le> unat (ck_len c)) (butlast (split_from P (length pre) data))"
proof (induction "length data" arbitrary: pre data rule: less_induct)
  case less
  show ?case
  proof (cases "data = []")
    case True
    then show ?thesis by (simp add: split_from.simps)
  next
    case False
    let ?n = "next_boundary data"
    let ?c = "\<lparr>ck_offset = of_nat (length pre), ck_len = of_nat ?n, ck_hash = chunk_hash P (take ?n data)\<rparr>"
    have n: "0 < ?n" "?n \<le> length data" "?n \<le> MAX_CHUNK"
      using next_boundary_pos[OF False] next_boundary_le[of data] by auto
    have s: "split_from P (length pre) data = ?c # split_from P (length (pre @ take ?n data)) (drop ?n data)"
      using False n by (subst split_from.simps) (simp add: Let_def)
    have c: "chunk_slice (pre @ data) ?c = take ?n data" "chunk_ok P (pre @ data) ?c"
      using less.prems n by (simp_all add: chunk_slice_def chunk_ok_def boundary_u32 unat_small(2))
    have ih: "concat (map (chunk_slice (pre @ data)) (split_from P (length (pre @ take ?n data)) (drop ?n data))) = drop ?n data"
      "list_all (chunk_ok P (pre @ data)) (split_from P (length (pre @ take ?n data)) (drop ?n data))"
      "list_all (\<lambda>c. MIN_CHUNK \<le> unat (ck_len c)) (butlast (split_from P (length (pre @ take ?n data)) (drop ?n data)))"
      using less.hyps[of "drop ?n data" "pre @ take ?n data"] less.prems n by auto
    have "MIN_CHUNK \<le> ?n" if "drop ?n data \<noteq> []" using that next_boundary_ge[of data] n by (auto simp: min_def split: if_splits)
    moreover have "split_from P k (drop ?n data) \<noteq> [] \<Longrightarrow> drop ?n data \<noteq> []" for k
      by (subst (asm) split_from.simps) (simp split: if_splits)
    ultimately have "list_all (\<lambda>c. MIN_CHUNK \<le> unat (ck_len c)) (butlast (split_from P (length pre) data))"
      using ih(3) s by (auto simp: boundary_u32 simp del: length_append)
    with c ih s show ?thesis by (auto simp del: length_append)
  qed
qed

lemma chunk_split_tiles:
  assumes "length data < 2 ^ 64"
  shows "concat (map (chunk_slice data) (chunk_split P data)) = data" "list_all (chunk_ok P data) (chunk_split P data)"
    "list_all (\<lambda>c. MIN_CHUNK \<le> unat (ck_len c)) (butlast (chunk_split P data))"
  using split_from_tiles[of "[]" data P] assms by (simp_all add: chunk_split_def)

text \<open>
  The chunks of a file tile it: put together in order their byte ranges are the file, each
  range lies inside it, carries the hash of its bytes and is between one byte and the maximum
  chunk size long; every chunk but the last has at least the minimum size, so a file of \<open>n\<close>
  bytes has at most one chunk more than \<open>n\<close> divided by the minimum.
\<close>

lemma chunks_tile_file:
  assumes "length data < 2 ^ 64"
  shows "concat (map (chunk_slice data) (chunk_split P data)) = data
    \<and> list_all (chunk_ok P data) (chunk_split P data)
    \<and> list_all (\<lambda>c. MIN_CHUNK \<le> unat (ck_len c)) (butlast (chunk_split P data))
    \<and> length (chunk_split P data) \<le> length data div MIN_CHUNK + 1"
proof -
  let ?cs = "chunk_split P data"
  note t = chunk_split_tiles[OF assms, of P]
  have "length ?cs \<le> length data div MIN_CHUNK + 1"
  proof (cases ?cs rule: rev_cases)
    case (snoc xs x)
    have len: "length (chunk_slice data c) = unat (ck_len c)" if "c \<in> set ?cs" for c
      using t(2) that by (auto simp: chunk_slice_def chunk_ok_def list_all_iff)
    have "list_all (\<lambda>c. MIN_CHUNK \<le> unat (ck_len c)) xs" using t(3) snoc by simp
    then have "length xs * MIN_CHUNK \<le> sum_list (map (\<lambda>c. unat (ck_len c)) xs)" by (induction xs) auto
    also have "\<dots> = length (concat (map (chunk_slice data) xs))"
      using len snoc by (simp add: length_concat comp_def cong: map_cong)
    also have "\<dots> \<le> length (concat (map (chunk_slice data) ?cs))" using snoc by simp
    also have "\<dots> = length data" by (simp only: t(1))
    finally have "length xs \<le> length data div MIN_CHUNK" by (simp add: MIN_CHUNK_def less_eq_div_iff_mult_less_eq)
    with snoc show ?thesis by simp
  qed simp
  with t show ?thesis by simp
qed

section \<open>Plans\<close>

lemma plan_fold:
  "set (need_fetch (fold (plan_step have) cs n)) = set (need_fetch n) \<union> (ck_hash ` set cs - have)
   \<and> (distinct (need_fetch n) \<longrightarrow> distinct (need_fetch (fold (plan_step have) cs n)))
   \<and> need_fetch_bytes (fold (plan_step have) cs n) + need_reuse_bytes (fold (plan_step have) cs n)
       = need_fetch_bytes n + need_reuse_bytes n + sum_list (map (\<lambda>c. ucast (ck_len c)) cs)"
  by (induction cs arbitrary: n) (auto simp: plan_step_def ac_simps)

section \<open>Reassembly\<close>

definition serves :: "prims \<Rightarrow> chunk \<Rightarrow> bytes \<Rightarrow> bool" where
  "serves P c p = (length p = unat (ck_len c) \<and> chunk_hash P p = ck_hash c)"

lemma reassemble_loop_True:
  "reassemble_loop P supply w out cs = (out', True) \<Longrightarrow>
     \<exists>ps. out' = out @ concat ps \<and> list_all2 (serves P) cs ps"
proof (induction P "supply" w out cs rule: reassemble_loop.induct)
  case (2 P "supply" w out c cs)
  then obtain b where b: "supply (ck_hash c) = Some b" "serves P c b"
    and r: "reassemble_loop P supply w (out @ b) cs = (out', True)" "w (length out)"
    by (auto simp: serves_def split: option.splits if_splits)
  have "\<exists>ps. out' = (out @ b) @ concat ps \<and> list_all2 (serves P) cs ps"
    using 2(1)[OF b(1) _ _ _ r(1)] b(2) r(2) unfolding serves_def[of P c b] by simp
  then obtain ps where "out' = out @ b @ concat ps" "list_all2 (serves P) cs ps" by auto
  with b(2) show ?case by (intro exI[of _ "b # ps"]) simp
qed simp

lemma reassemble_loop_all:
  "list_all (\<lambda>c. \<exists>p. supply (ck_hash c) = Some p \<and> serves P c p) cs \<Longrightarrow> \<forall>n. w n \<Longrightarrow>
     reassemble_loop P supply w out cs = (out @ concat (map (\<lambda>c. the (supply (ck_hash c))) cs), True)"
  by (induction cs arbitrary: out) (auto simp: serves_def)

lemma window_loop_Some:
  "window_loop P hv loc fetch w n reuse out cs = (out', Some r) \<Longrightarrow> \<exists>ps. out' = out @ concat ps \<and> list_all2 (serves P) cs ps"
proof (induction "length cs" arbitrary: n reuse out cs rule: less_induct)
  case less
  show ?case
  proof (cases "cs = []")
    case True
    then show ?thesis using less.prems by (simp add: window_loop.simps)
  next
    case False
    let ?win = "take FETCH_WINDOW cs"
    let ?f = "window_fetched hv fetch n ?win"
    obtain o1 where r: "reassemble_loop P (window_supply ?f loc) w out ?win = (o1, True)"
      and nxt: "window_loop P hv loc fetch w (Suc n) (reuse + window_reuse ?f loc ?win) o1 (drop FETCH_WINDOW cs) = (out', Some r)"
      using less.prems False
      by (subst (asm) window_loop.simps) (auto simp: Let_def split: prod.splits bool.splits)
    have "length (drop FETCH_WINDOW cs) < length cs" using False by (simp add: FETCH_WINDOW_def)
    from less.hyps[OF this nxt] obtain qs where qs: "out' = o1 @ concat qs" "list_all2 (serves P) (drop FETCH_WINDOW cs) qs" by blast
    obtain ps where ps: "o1 = out @ concat ps" "list_all2 (serves P) ?win ps"
      using reassemble_loop_True[OF r] by blast
    have "list_all2 (serves P) cs (ps @ qs)" using list_all2_appendI[OF ps(2) qs(2)] by simp
    with ps qs show ?thesis by (intro exI[of _ "ps @ qs"]) simp
  qed
qed

lemma window_loop_all:
  assumes "\<forall>k. w k" and "\<And>n cs'. \<forall>c \<in> set cs' \<inter> set all. \<exists>p. window_supply (window_fetched hv fetch n cs') loc (ck_hash c) = Some p \<and> serves P c p"
  shows "set cs \<subseteq> set all \<Longrightarrow> \<exists>out' r. window_loop P hv loc fetch w n reuse out cs = (out', Some r)"
proof (induction "length cs" arbitrary: n reuse out cs rule: less_induct)
  case less
  show ?case
  proof (cases "cs = []")
    case True
    then show ?thesis by (simp add: window_loop.simps)
  next
    case False
    let ?win = "take FETCH_WINDOW cs"
    let ?f = "window_fetched hv fetch n ?win"
    have "list_all (\<lambda>c. \<exists>p. window_supply ?f loc (ck_hash c) = Some p \<and> serves P c p) ?win"
      using assms(2)[of ?win n] less.prems by (auto simp: list_all_iff dest: in_set_takeD)
    from reassemble_loop_all[OF this assms(1)]
    obtain o1 where r: "reassemble_loop P (window_supply ?f loc) w out ?win = (o1, True)" by blast
    have "length (drop FETCH_WINDOW cs) < length cs" "set (drop FETCH_WINDOW cs) \<subseteq> set all"
      using False less.prems by (auto simp: FETCH_WINDOW_def dest: in_set_dropD)
    from less.hyps[OF this] show ?thesis using False r by (subst window_loop.simps) (simp add: Let_def)
  qed
qed

text \<open>
  No other bytes of the same length have a chunk's hash: collision resistance of SHA-256, for
  the chunks of one file.
\<close>

definition collision_free :: "prims \<Rightarrow> bytes \<Rightarrow> bool" where
  "collision_free P data = (\<forall>c \<in> set (chunk_split P data). \<forall>b. serves P c b \<longrightarrow> b = chunk_slice data c)"

definition file_map :: "prims \<Rightarrow> string \<Rightarrow> bytes \<Rightarrow> chunk_map" where
  "file_map P path data = \<lparr>cm_path = path, cm_chunks = chunk_split P data\<rparr>"

lemma served_file:
  assumes "length data < 2 ^ 64" "collision_free P data" "list_all2 (serves P) (chunk_split P data) ps"
  shows "concat ps = data"
proof -
  have "ps = map (chunk_slice data) (chunk_split P data)"
    using assms(2,3) by (intro nth_equalityI) (auto simp: collision_free_def list_all2_conv_all_nth)
  then show ?thesis using chunk_split_tiles(1)[OF assms(1)] by simp
qed

lemma slice_serves: "length data < 2 ^ 64 \<Longrightarrow> c \<in> set (chunk_split P data) \<Longrightarrow> serves P c (chunk_slice data c)"
  using chunk_split_tiles(2)[of data P] by (auto simp: serves_def chunk_ok_def list_all_iff chunk_slice_def)

lemma total_bytes_file:
  assumes "length data < 2 ^ 64"
  shows "total_bytes (file_map P path data) = of_nat (length data)"
proof -
  have "sum_list (map (\<lambda>c. ucast (ck_len c)) cs) = (of_nat (length (concat (map (chunk_slice data) cs))) :: u64)"
    if "list_all (chunk_ok P data) cs" for cs
    using that
  proof (induction cs)
    case (Cons c cs)
    then have "length (chunk_slice data c) = unat (ck_len c)" by (auto simp: chunk_ok_def chunk_slice_def)
    with Cons show ?case by simp
  qed simp
  then show ?thesis using chunk_split_tiles[OF assms, of P]
    by (simp add: total_bytes_def file_map_def)
qed

text \<open>
  C20. Delta transfer rebuilds the file or nothing: for the chunk map of a file, whatever serves
  the chunks - a lying peer, a file edited meanwhile - reassembly returns either nothing or
  exactly the file, given that no two chunk-sized strings here share a hash; and it returns the
  file whenever it is at most the reassembly limit and every chunk the plan asked for is served
  by the peer and every other from this device. The plan asks for each missing hash once, asks
  for no hash this device has, and its two byte counts add up to the size of the file.
\<close>

theorem delta_rebuilds_file:
  fixes path :: string
  assumes "length data < 2 ^ 64" "collision_free P data"
  defines "m \<equiv> file_map P path data"
  shows "(reassemble P m supply = Some out \<longrightarrow> out = data)
    \<and> ((\<forall>c \<in> set (cm_chunks m). (if ck_hash c \<in> set (need_fetch (plan_delta m hv)) then fetched (ck_hash c) else loc (ck_hash c))
            = Some (chunk_slice data c)) \<and> length data \<le> 256 * 1024 * 1024
        \<longrightarrow> reassemble P m (\<lambda>h. if h \<in> set (need_fetch (plan_delta m hv)) then fetched h else loc h) = Some data)
    \<and> set (need_fetch (plan_delta m hv)) = ck_hash ` set (cm_chunks m) - hv \<and> distinct (need_fetch (plan_delta m hv))
    \<and> need_fetch_bytes (plan_delta m hv) + need_reuse_bytes (plan_delta m hv) = of_nat (length data)"
proof -
  have one: "out = data" if "reassemble P m supply = Some out"
  proof -
    have "reassemble_loop P supply (\<lambda>_. True) [] (chunk_split P data) = (out, True)"
      using that by (auto simp: reassemble_def m_def file_map_def split: if_splits prod.splits bool.splits)
    from reassemble_loop_True[OF this] show ?thesis using served_file[OF assms(1,2)] by auto
  qed
  have two: "reassemble P m S = Some data"
    if "\<forall>c \<in> set (cm_chunks m). S (ck_hash c) = Some (chunk_slice data c)" "length data \<le> 256 * 1024 * 1024" for S
  proof -
    have l: "list_all (\<lambda>c. \<exists>p. S (ck_hash c) = Some p \<and> serves P c p) (cm_chunks m)"
      using that(1) slice_serves[OF assms(1)] by (auto simp: list_all_iff m_def file_map_def)
    have "map (\<lambda>c. the (S (ck_hash c))) (cm_chunks m) = map (chunk_slice data) (chunk_split P data)"
      using that(1) by (auto simp: m_def file_map_def)
    then have r: "reassemble_loop P S (\<lambda>_. True) [] (cm_chunks m) = (data, True)"
      using reassemble_loop_all[OF l, of "\<lambda>_. True" "[]"] chunk_split_tiles(1)[OF assms(1), of P] by simp
    have "(of_nat (length data) :: u64) \<le> MAX_REASSEMBLE"
      using that(2) unat_small(2)[OF assms(1)] by (simp add: word_le_nat_alt MAX_REASSEMBLE_def)
    then have "\<not> MAX_REASSEMBLE < total_bytes m" using total_bytes_file[OF assms(1)] by (simp add: m_def)
    with r show ?thesis by (simp add: reassemble_def)
  qed
  have three: "set (need_fetch (plan_delta m hv)) = ck_hash ` set (cm_chunks m) - hv" "distinct (need_fetch (plan_delta m hv))"
    "need_fetch_bytes (plan_delta m hv) + need_reuse_bytes (plan_delta m hv) = of_nat (length data)"
    using plan_fold[of hv "cm_chunks m" need_default] total_bytes_file[OF assms(1), of P path]
    by (simp_all add: plan_delta_def need_default_def total_bytes_def m_def)
  from one two three show ?thesis by auto
qed

text \<open>A window is served when every chunk the device has is read back and every other is answered.\<close>

lemma window_loop_served:
  assumes len: "length data < 2 ^ 64" and w: "\<forall>n. write n"
    and s: "\<forall>c \<in> set (chunk_split P data). if ck_hash c \<in> hv then loc (ck_hash c) = Some (chunk_slice data c)
             else \<forall>n hs. ck_hash c \<in> set hs \<longrightarrow> fetch n hs (ck_hash c) = Some (chunk_slice data c)"
    and f: "\<forall>n hs h. h \<notin> set hs \<longrightarrow> fetch n hs h = None"
  shows "\<exists>out k. window_loop P hv loc fetch write 0 0 [] (chunk_split P data) = (out, Some k)"
proof (rule window_loop_all[OF w, where all = "chunk_split P data"])
  fix n cs'
  show "\<forall>c \<in> set cs' \<inter> set (chunk_split P data). \<exists>p. window_supply (window_fetched hv fetch n cs') loc (ck_hash c) = Some p \<and> serves P c p"
  proof
    fix c assume c: "c \<in> set cs' \<inter> set (chunk_split P data)"
    then have c': "c \<in> set (chunk_split P data)" by simp
    have "window_supply (window_fetched hv fetch n cs') loc (ck_hash c) = Some (chunk_slice data c)"
    proof (cases "ck_hash c \<in> hv")
      case True
      then have "ck_hash c \<notin> set (map ck_hash (filter (\<lambda>c. ck_hash c \<notin> hv) cs'))" by auto
      then have "window_fetched hv fetch n cs' (ck_hash c) = None" using f by (simp add: window_fetched_def Let_def)
      then show ?thesis using s[rule_format, OF c'] True by (simp add: window_supply_def)
    next
      case False
      then have "ck_hash c \<in> set (map ck_hash (filter (\<lambda>c. ck_hash c \<notin> hv) cs'))" using c by auto
      moreover from this have "map ck_hash (filter (\<lambda>c. ck_hash c \<notin> hv) cs') \<noteq> []" by force
      ultimately have "window_fetched hv fetch n cs' (ck_hash c) = Some (chunk_slice data c)"
        using s[rule_format, OF c'] False by (simp add: window_fetched_def Let_def)
      then show ?thesis by (simp add: window_supply_def)
    qed
    with slice_serves[OF len c'] show "\<exists>p. window_supply (window_fetched hv fetch n cs') loc (ck_hash c) = Some p \<and> serves P c p" by blast
  qed
qed simp

text \<open>
  A streamed fetch publishes the whole file or nothing: if it reports success, the
  destination holds exactly the file its chunk map describes; if it reports failure - no answer,
  a wrong or missing chunk, a failed write, flush or rename - the destination is what it was
  before. No other file changes except the staging file. It succeeds when the
  file system does its part and every chunk is served by the peer or by this device.
\<close>

lemma streamed_fetch_is_atomic:
  fixes path dest :: string and i :: stage_io and hv :: "string set" and loc :: "string \<Rightarrow> bytes option"
    and fetch :: "nat \<Rightarrow> string list \<Rightarrow> string \<Rightarrow> bytes option" and files :: tree_files
  assumes "length data < 2 ^ 64" "collision_free P data"
  defines "m \<equiv> file_map P path data"
  defines "r \<equiv> fetch_streamed P i m dest hv loc fetch files"
  shows "(fst r \<noteq> None \<longrightarrow> snd r dest = Some data) \<and> (fst r = None \<longrightarrow> snd r dest = files dest)
    \<and> (\<forall>q. q \<noteq> dest \<and> q \<noteq> staging_path dest \<longrightarrow> snd r q = files q)
    \<and> (st_parent i \<and> st_create i \<and> st_flush i \<and> st_rename i \<and> (\<forall>n. st_write i n)
        \<and> (\<forall>c \<in> set (chunk_split P data). if ck_hash c \<in> hv then loc (ck_hash c) = Some (chunk_slice data c)
             else \<forall>n hs. ck_hash c \<in> set hs \<longrightarrow> fetch n hs (ck_hash c) = Some (chunk_slice data c))
        \<and> (\<forall>n hs h. h \<notin> set hs \<longrightarrow> fetch n hs h = None)
       \<longrightarrow> fst r \<noteq> None)"
proof -
  have st: "staging_path dest \<noteq> dest" by (simp add: staging_path_def)
  have ok: "out = data" if "window_loop P hv loc fetch (st_write i) 0 0 [] (cm_chunks m) = (out, Some k)" for out k
    using window_loop_Some[OF that] served_file[OF assms(1,2)] by (auto simp: m_def file_map_def)
  show ?thesis
  proof (intro conjI impI allI)
    show "snd r dest = Some data" if "fst r \<noteq> None"
      using that ok by (auto simp: r_def fetch_streamed_def split: if_splits prod.splits)
    show "snd r dest = files dest" if "fst r = None"
      using that st by (auto simp: r_def fetch_streamed_def split: if_splits prod.splits)
    show "snd r q = files q" if "q \<noteq> dest \<and> q \<noteq> staging_path dest" for q
      using that by (auto simp: r_def fetch_streamed_def split: prod.splits)
    show "fst r \<noteq> None" if "st_parent i \<and> st_create i \<and> st_flush i \<and> st_rename i \<and> (\<forall>n. st_write i n)
        \<and> (\<forall>c \<in> set (chunk_split P data). if ck_hash c \<in> hv then loc (ck_hash c) = Some (chunk_slice data c)
             else \<forall>n hs. ck_hash c \<in> set hs \<longrightarrow> fetch n hs (ck_hash c) = Some (chunk_slice data c))
        \<and> (\<forall>n hs h. h \<notin> set hs \<longrightarrow> fetch n hs h = None)"
      using window_loop_served[OF assms(1), of "st_write i" P hv loc fetch] that
      by (fastforce simp: r_def fetch_streamed_def m_def file_map_def)
  qed
qed

section \<open>Witnesses\<close>

text \<open>A file of one byte, and the crypto parameter's instance: it pads short strings to 32 bytes.\<close>

lemma to_hex_inject: "to_hex a = to_hex b \<Longrightarrow> a = b"
  using hex_pairs_encode[of a] hex_pairs_encode[of b] by (simp add: hex_encode_def to_hex_def)

definition toy_chunk :: chunk where
  "toy_chunk = \<lparr>ck_offset = 0, ck_len = 1, ck_hash = chunk_hash toy_prims [5]\<rparr>"

lemma toy_split: "chunk_split toy_prims [5] = [toy_chunk]"
  by (simp add: chunk_split_def split_from.simps next_boundary_def MIN_CHUNK_def toy_chunk_def)

lemma toy_slice: "chunk_slice [5] toy_chunk = [5]"
  by (simp add: chunk_slice_def toy_chunk_def)

lemma toy_collision_free: "collision_free toy_prims [5]"
proof -
  have sha: "sha256 toy_prims m = take 32 (m @ replicate 32 0)" for m by (simp add: toy_prims_def)
  have "b = [5]" if "serves toy_prims toy_chunk b" for b
    using that by (auto simp: serves_def toy_chunk_def chunk_hash_def sha length_Suc_conv dest!: to_hex_inject)
  then show ?thesis unfolding collision_free_def toy_split using toy_slice by (metis empty_iff insert_iff list.set)
qed

lemma chunks_tile_file_witness:
  "concat (map (chunk_slice [5]) (chunk_split toy_prims [5])) = [5] \<and> length (chunk_split toy_prims [5]) \<le> 1"
  using chunks_tile_file[of "[5]" toy_prims] by (simp add: MIN_CHUNK_def)

theorem delta_rebuilds_file_witness:
  "reassemble toy_prims (file_map toy_prims ''f'' [5])
     (\<lambda>h. if h \<in> set (need_fetch (plan_delta (file_map toy_prims ''f'' [5]) {})) then Some [5] else None) = Some [5]"
  using delta_rebuilds_file[of "[5]" toy_prims "''f''" "\<lambda>_. None" "[]" "{}" "\<lambda>_. Some [5]" "\<lambda>_. None"] toy_collision_free
  by (simp add: file_map_def toy_split toy_slice plan_delta_def plan_step_def need_default_def)

lemma streamed_fetch_is_atomic_witness:
  "fst (fetch_streamed toy_prims \<lparr>st_parent = True, st_create = True, st_write = \<lambda>_. True, st_flush = True, st_rename = True, st_remove = True\<rparr>
      (file_map toy_prims ''f'' [5]) ''d'' {} (\<lambda>_. None) (\<lambda>n hs h. if h \<in> set hs then Some [5] else None) (\<lambda>_. None)) \<noteq> None
   \<and> snd (fetch_streamed toy_prims \<lparr>st_parent = True, st_create = True, st_write = \<lambda>_. True, st_flush = True, st_rename = True, st_remove = True\<rparr>
      (file_map toy_prims ''f'' [5]) ''d'' {} (\<lambda>_. None) (\<lambda>n hs h. if h \<in> set hs then Some [5] else None) (\<lambda>_. None)) ''d'' = Some [5]"
  using streamed_fetch_is_atomic[of "[5]" toy_prims "\<lparr>st_parent = True, st_create = True, st_write = \<lambda>_. True, st_flush = True, st_rename = True, st_remove = True\<rparr>"
      "''f''" "''d''" "{}" "\<lambda>_. None" "\<lambda>n hs h. if h \<in> set hs then Some [5] else None" "\<lambda>_. None"] toy_collision_free
  by (simp add: toy_split toy_slice)

end
