(* ===== verification/PB_Version_Vector.thy ===== *)
theory PB_Version_Vector
  imports PB_Prelude
begin

text \<open>
  Version vectors (\<open>peerbeam-sync/src/version.rs\<close>): a map from device to the number of edits it
  made, kept in key order as the \<open>BTreeMap\<close> does. Counters are 64-bit words.

  Shown here: \<open>relate\<close> decides the pointwise order, \<open>merge\<close> is its least upper bound, and an
  edit moves a vector strictly ahead of everything it was ahead of.
\<close>

datatype relation = Same | Behind | Ahead | Diverged

type_synonym version_vector = "(string, u64) omap"

definition vv_new :: version_vector where
  "vv_new = []"

definition vv_get :: "version_vector \<Rightarrow> string \<Rightarrow> u64" where
  "vv_get v device = (case map_of v device of Some n \<Rightarrow> n | None \<Rightarrow> 0)"

definition vv_bump :: "string \<Rightarrow> version_vector \<Rightarrow> version_vector" where
  "vv_bump device v = om_insert device ((case map_of v device of Some n \<Rightarrow> n | None \<Rightarrow> 0) + 1) v"

definition vv_is_empty :: "version_vector \<Rightarrow> bool" where
  "vv_is_empty v = (v = [])"

definition merge_entry :: "string \<times> u64 \<Rightarrow> version_vector \<Rightarrow> version_vector" where
  "merge_entry = (\<lambda>(device, count) out.
     om_insert device (max (case map_of out device of Some n \<Rightarrow> n | None \<Rightarrow> 0) count) out)"

definition vv_merge :: "version_vector \<Rightarrow> version_vector \<Rightarrow> version_vector" where
  "vv_merge v other = fold merge_entry other v"

definition relate_step :: "version_vector \<Rightarrow> version_vector \<Rightarrow> string \<Rightarrow> bool \<times> bool \<Rightarrow> bool \<times> bool" where
  "relate_step v other device = (\<lambda>(self_higher, other_higher).
     if vv_get other device < vv_get v device then (True, other_higher)
     else if vv_get v device < vv_get other device then (self_higher, True)
     else (self_higher, other_higher))"

definition relate :: "version_vector \<Rightarrow> version_vector \<Rightarrow> relation" where
  "relate v other =
     (case fold (relate_step v other) (om_keys v @ om_keys other) (False, False) of
        (False, False) \<Rightarrow> Same
      | (True, False) \<Rightarrow> Ahead
      | (False, True) \<Rightarrow> Behind
      | (True, True) \<Rightarrow> Diverged)"

section \<open>The order on versions\<close>

text \<open>\<open>a\<close> is part of \<open>b\<close>: \<open>b\<close> has seen every edit \<open>a\<close> has.\<close>

definition vv_le :: "version_vector \<Rightarrow> version_vector \<Rightarrow> bool" where
  "vv_le a b = (\<forall>d. vv_get a d \<le> vv_get b d)"

lemma vv_get_absent: "d \<notin> set (om_keys v) \<Longrightarrow> vv_get v d = 0"
  by (force simp: vv_get_def om_keys_def split: option.splits dest!: map_of_SomeD)

lemma fold_relate:
  "fold (relate_step a b) ds (s, t) =
     (s \<or> (\<exists>d \<in> set ds. vv_get b d < vv_get a d), t \<or> (\<exists>d \<in> set ds. vv_get a d < vv_get b d))"
  by (induction ds arbitrary: s t) (auto simp: relate_step_def dest: less_asym)

lemma relate_keys: "(\<exists>d \<in> set (om_keys a @ om_keys b). vv_get a d < vv_get b d) \<longleftrightarrow> \<not> vv_le b a"
  "(\<exists>d \<in> set (om_keys a @ om_keys b). vv_get b d < vv_get a d) \<longleftrightarrow> \<not> vv_le a b"
  by (metis (no_types, lifting) Un_iff linorder_not_less set_append vv_get_absent vv_le_def word_zero_le)+

lemma relate_eq:
  "relate a b = (if vv_le a b then if vv_le b a then Same else Behind else if vv_le b a then Ahead else Diverged)"
  unfolding relate_def fold_relate relate_keys by auto

lemma vv_get_bump: "vv_get (vv_bump d v) e = (if e = d then vv_get v d + 1 else vv_get v e)"
  by (simp add: vv_get_def vv_bump_def)

lemma vv_get_merge: "om_inv b \<Longrightarrow> vv_get (vv_merge a b) d = max (vv_get a d) (vv_get b d)"
proof (induction b arbitrary: a)
  case (Cons p b)
  obtain e n where p: "p = (e, n)" by (cases p)
  have inv: "om_inv b" "e \<notin> fst ` set b" using Cons.prems by (auto simp: p om_inv_Cons)
  have "vv_get (merge_entry p a) d = (if d = e then max (vv_get a e) n else vv_get a d)"
    by (auto simp: p merge_entry_def vv_get_def)
  moreover have "map_of b e = None" using inv(2) by (simp add: map_of_eq_None_iff)
  ultimately show ?case using Cons.IH[OF inv(1)]
    by (auto simp: p vv_merge_def vv_get_def[of "(e, n) # b"] vv_get_def[of b])
qed (simp add: vv_merge_def vv_get_def)

lemma plus_one_less: "x \<noteq> - 1 \<Longrightarrow> x < x + 1" for x :: u64
proof -
  assume "x \<noteq> - 1"
  then have "1 + x \<noteq> 0" by (metis add.commute add_eq_0_iff)
  then have "unat (1 + x) = Suc (unat x)" by (rule unatSuc)
  then show ?thesis by (simp add: word_less_nat_alt add.commute)
qed

lemma om_inv_vv_bump [simp]: "om_inv v \<Longrightarrow> om_inv (vv_bump d v)"
  by (simp add: vv_bump_def)

lemma om_inv_vv_merge [simp]: "om_inv a \<Longrightarrow> om_inv (vv_merge a b)"
proof (induction b arbitrary: a)
  case (Cons p b)
  then show ?case by (cases p) (simp add: vv_merge_def merge_entry_def)
qed (simp add: vv_merge_def)

text \<open>
  A join of versions: a preorder with least upper bounds. Replicas that merge what they hear
  reach the same version in whatever order they hear it.
\<close>

locale version_join =
  fixes le :: "'v \<Rightarrow> 'v \<Rightarrow> bool" and join :: "'v \<Rightarrow> 'v \<Rightarrow> 'v" and ok :: "'v \<Rightarrow> bool"
  assumes le_refl: "le a a"
    and le_trans: "le a b \<Longrightarrow> le b c \<Longrightarrow> le a c"
    and join_ok: "ok a \<Longrightarrow> ok b \<Longrightarrow> ok (join a b)"
    and join_le: "ok a \<Longrightarrow> ok b \<Longrightarrow> le (join a b) c \<longleftrightarrow> le a c \<and> le b c"
begin

lemma join_upper: "ok a \<Longrightarrow> ok b \<Longrightarrow> le a (join a b) \<and> le b (join a b)"
  using join_le le_refl by blast

lemma fold_ok: "ok a \<Longrightarrow> \<forall>x \<in> set xs. ok x \<Longrightarrow> ok (fold (\<lambda>x v. join v x) xs a)"
  by (induction xs arbitrary: a) (auto intro: join_ok)

lemma fold_join_le:
  "ok a \<Longrightarrow> \<forall>x \<in> set xs. ok x \<Longrightarrow> le (fold (\<lambda>x v. join v x) xs a) c \<longleftrightarrow> le a c \<and> (\<forall>x \<in> set xs. le x c)"
  by (induction xs arbitrary: a) (auto simp: join_ok join_le)

lemma fold_join_set:
  assumes "ok a" "\<forall>x \<in> set xs. ok x" "set xs = set ys"
  shows "le (fold (\<lambda>x v. join v x) xs a) (fold (\<lambda>x v. join v x) ys a)"
proof -
  let ?f = "\<lambda>zs. fold (\<lambda>x v. join v x) zs a"
  have "le a (?f ys) \<and> (\<forall>x \<in> set ys. le x (?f ys))"
    using fold_join_le[OF assms(1), of ys "?f ys"] assms(2,3) le_refl by simp
  then show ?thesis using fold_join_le[OF assms(1,2)] assms(3) by simp
qed

end

interpretation vv: version_join vv_le vv_merge om_inv
proof unfold_locales
  show "om_inv a \<Longrightarrow> om_inv b \<Longrightarrow> vv_le (vv_merge a b) c \<longleftrightarrow> vv_le a c \<and> vv_le b c" for a b c
    by (auto simp: vv_le_def vv_get_merge)
qed (auto simp: vv_le_def intro: order_trans)

text \<open>
  Version vectors order edits: \<open>relate\<close> answers \<open>Same\<close>, \<open>Behind\<close>, \<open>Ahead\<close> or \<open>Diverged\<close>
  exactly by the pointwise comparison of the two vectors - absent devices counting as zero - so
  the two ends always get opposite answers; \<open>merge\<close> is the least vector that covers both, so
  merging a set of vectors in any order ends in the same version; and an edit (below the
  counter's maximum) puts a vector strictly ahead of its old self and moves no other counter.
\<close>

lemma version_vectors_order_edits:
  assumes "om_inv a" "om_inv b" "\<forall>x \<in> set xs. om_inv x" "set xs = set ys" "vv_get a d \<noteq> - 1"
  shows "relate a b = (if vv_le a b then if vv_le b a then Same else Behind else if vv_le b a then Ahead else Diverged)
    \<and> (vv_le (vv_merge a b) c \<longleftrightarrow> vv_le a c \<and> vv_le b c)
    \<and> relate (fold (\<lambda>x v. vv_merge v x) xs a) (fold (\<lambda>x v. vv_merge v x) ys a) = Same
    \<and> relate (vv_bump d a) a = Ahead"
proof -
  have "relate (fold (\<lambda>x v. vv_merge v x) xs a) (fold (\<lambda>x v. vv_merge v x) ys a) = Same"
    using vv.fold_join_set[OF assms(1,3,4)] vv.fold_join_set[OF assms(1) _ assms(4)[symmetric]] assms(3,4)
    by (simp add: relate_eq)
  moreover have "vv_get a d < vv_get a d + 1"
    by (rule plus_one_less[OF assms(5)])
  then have "relate (vv_bump d a) a = Ahead"
    by (auto simp: relate_eq vv_le_def vv_get_bump dest: leD intro: less_imp_le)
  ultimately show ?thesis using vv.join_le[OF assms(1,2)] by (simp add: relate_eq)
qed

lemma version_vectors_order_edits_witness:
  "relate (vv_bump ''a'' [(''a'', 1)]) [(''a'', 1)] = Ahead"
  using version_vectors_order_edits[of "[(''a'', 1)]" "[]" "[]" "[]" "''a''"] by (simp add: om_inv_def vv_get_def)

end
