(* ===== verification/PB_Sync_Index.thy ===== *)
theory PB_Sync_Index
  imports PB_AppStore PB_Chunk PB_Reconcile "HOL-Library.Product_Lexorder"
begin

text \<open>
  What a device knows about the files it syncs: the folder index of \<open>peerbeam-sync/src/index.rs\<close>
  with its scan of the disk, and the chunk maps of \<open>store.rs\<close> it records while scanning. Both
  live in an \<open>AppStore\<close>, here any store that meets the contract of the port; JSON coding is a
  parameter. The folder is a tree of the file-system theory, and its paths are slash-separated
  names.

  Shown here: a scan brings the index in line with the disk - exactly the edited, new and
  vanished files gain one of this device's edits - and a scan that is cut short by a failing
  store leaves every entry either as it was or as a whole scan would leave it; scanning again
  changes nothing; a chunk read back from the folder is always the chunk asked for.
\<close>

section \<open>Records\<close>

datatype sync_error = SyncSerialization string | SyncWrongType u16 | SyncPathTooLong nat

record sync_json =
  sj_entry :: "index_entry \<Rightarrow> (string, bytes) result"
  sj_entry_of :: "bytes \<Rightarrow> index_entry option"
  sj_chunks :: "chunk list \<Rightarrow> (string, bytes) result"
  sj_chunks_of :: "bytes \<Rightarrow> chunk list option"

definition sync_json_ok :: "sync_json \<Rightarrow> bool" where
  "sync_json_ok J = ((\<forall>e b. sj_entry J e = Inr b \<longrightarrow> sj_entry_of J b = Some e)
     \<and> (\<forall>cs b. sj_chunks J cs = Inr b \<longrightarrow> sj_chunks_of J b = Some cs))"

definition store_err :: "domain_error \<Rightarrow> sync_error" where
  "store_err e = SyncSerialization (domain_error_show e)"

definition index_namespace :: "string \<Rightarrow> string" where
  "index_namespace folder = ''sync-index-'' @ namespace_slug folder"

definition chunk_namespace :: "string \<Rightarrow> string" where
  "chunk_namespace folder = ''sync-chunks-'' @ namespace_slug folder"

section \<open>Chunk maps\<close>

definition chunks_put :: "sync_json \<Rightarrow> 's app_port \<Rightarrow> string \<Rightarrow> string \<Rightarrow> chunk list \<Rightarrow> 's \<Rightarrow> (sync_error, unit) result \<times> 's" where
  "chunks_put J A folder content chunks s =
     (case sj_chunks J chunks of
        Inl e \<Rightarrow> (Inl (SyncSerialization e), s)
      | Inr bytes \<Rightarrow> (case ap_put A (chunk_namespace folder) content bytes s of
          (Inl e, s) \<Rightarrow> (Inl (store_err e), s) | (Inr _, s) \<Rightarrow> (Inr (), s)))"

definition chunks_get :: "sync_json \<Rightarrow> 's app_port \<Rightarrow> string \<Rightarrow> string \<Rightarrow> 's \<Rightarrow> chunk list option" where
  "chunks_get J A folder content s =
     (case ap_get A (chunk_namespace folder) content s of
        Inr (Some raw) \<Rightarrow> sj_chunks_of J raw | _ \<Rightarrow> None)"

definition chunks_have :: "sync_json \<Rightarrow> 's app_port \<Rightarrow> string \<Rightarrow> 's \<Rightarrow> string set" where
  "chunks_have J A folder s =
     (case ap_list A (chunk_namespace folder) s of
        Inl _ \<Rightarrow> {}
      | Inr rows \<Rightarrow> set (map ck_hash (concat (List.map_filter (\<lambda>(_, v). sj_chunks_of J v) rows))))"

definition path_names :: "string \<Rightarrow> string list" where
  "path_names p = split_on (CHR ''/'') p"

text \<open>\<open>seek\<close> and \<open>read_exact\<close>: past the end there is nothing to read.\<close>

definition read_range :: "fs_node option \<Rightarrow> string list \<Rightarrow> u64 \<Rightarrow> u32 \<Rightarrow> bytes option" where
  "read_range tree path offset len =
     (case fs_read path tree of
        IoOk b \<Rightarrow> (let out = take (unat len) (drop (unat offset) b) in if length out = unat len then Some out else None)
      | _ \<Rightarrow> None)"

fun chunks_read :: "prims \<Rightarrow> sync_json \<Rightarrow> 's app_port \<Rightarrow> string \<Rightarrow> fs_node option \<Rightarrow> 's \<Rightarrow> index_entry list \<Rightarrow> string \<Rightarrow> bytes option" where
  "chunks_read P J A folder tree s [] want = None"
| "chunks_read P J A folder tree s (e # es) want =
     (if ie_deleted e \<or> ie_content e = [] then chunks_read P J A folder tree s es want
      else case chunks_get J A folder (ie_content e) s of
        None \<Rightarrow> chunks_read P J A folder tree s es want
      | Some chunks \<Rightarrow>
          (case find (\<lambda>c. ck_hash c = want) chunks of
             None \<Rightarrow> chunks_read P J A folder tree s es want
           | Some c \<Rightarrow>
               (case read_range tree (path_names (ie_path e)) (ck_offset c) (ck_len c) of
                  Some bytes \<Rightarrow> if chunk_hash P bytes = want then Some bytes
                                else chunks_read P J A folder tree s es want
                | None \<Rightarrow> chunks_read P J A folder tree s es want)))"

section \<open>The index\<close>

definition index_load :: "sync_json \<Rightarrow> 's app_port \<Rightarrow> string \<Rightarrow> 's \<Rightarrow> (sync_error, sync_index) result" where
  "index_load J A folder s =
     (case ap_list A (index_namespace folder) s of
        Inl e \<Rightarrow> Inl (store_err e)
      | Inr rows \<Rightarrow> Inr (om_collect (map (\<lambda>e. (ie_path e, e)) (List.map_filter (\<lambda>(_, v). sj_entry_of J v) rows))))"

definition index_put :: "sync_json \<Rightarrow> 's app_port \<Rightarrow> string \<Rightarrow> index_entry \<Rightarrow> 's \<Rightarrow> (sync_error, unit) result \<times> 's" where
  "index_put J A folder e s =
     (case sj_entry J e of
        Inl x \<Rightarrow> (Inl (SyncSerialization x), s)
      | Inr bytes \<Rightarrow> (case ap_put A (index_namespace folder) (record_key (ie_path e)) bytes s of
          (Inl x, s) \<Rightarrow> (Inl (store_err x), s) | (Inr _, s) \<Rightarrow> (Inr (), s)))"

definition MAX_CHUNKABLE :: nat where "MAX_CHUNKABLE = 256 * 1024 * 1024"

definition content_hash :: "prims \<Rightarrow> fs_node option \<Rightarrow> string list \<Rightarrow> string" where
  "content_hash P tree path = (case fs_read path tree of IoOk b \<Rightarrow> chunk_hash P b | _ \<Rightarrow> [])"

definition hash_and_chunk :: "prims \<Rightarrow> fs_node option \<Rightarrow> string list \<Rightarrow> (string \<times> chunk list) option" where
  "hash_and_chunk P tree path =
     (case fs_read path tree of
        IoOk b \<Rightarrow>
          (if MAX_CHUNKABLE < length b then
             (let h = content_hash P tree path in if h \<noteq> [] then Some (h, []) else None)
           else Some (chunk_hash P b, chunk_split P b))
      | _ \<Rightarrow> None)"

definition record_chunks :: "prims \<Rightarrow> sync_json \<Rightarrow> 's app_port \<Rightarrow> string \<Rightarrow> fs_node option \<Rightarrow> string list \<Rightarrow> 's \<Rightarrow> string \<times> 's" where
  "record_chunks P J A folder tree path s =
     (case hash_and_chunk P tree path of
        None \<Rightarrow> ([], s)
      | Some (content, chunks) \<Rightarrow>
          (content, if chunks \<noteq> [] then snd (chunks_put J A folder content chunks s) else s))"

fun collect :: "string list \<Rightarrow> fs_node \<Rightarrow> (string \<times> u64 \<times> int) list" where
  "collect rel (DirN es) = concat (map (\<lambda>e. case snd e of
       LinkN \<Rightarrow> []
     | DirN _ \<Rightarrow> collect (rel @ [fst e]) (snd e)
     | FileN b m \<Rightarrow> [(wire_path (map Normal (rel @ [fst e])), of_nat (length b), max 0 m)]) es)"
| "collect rel _ = []"

definition walk :: "fs_node option \<Rightarrow> (string \<times> u64 \<times> int) list" where
  "walk tree = sort (case tree of None \<Rightarrow> [] | Some n \<Rightarrow> collect [] n)"

text \<open>Each file the walk found, against what is left of the index; then what is left.\<close>

fun scan_loop :: "prims \<Rightarrow> sync_json \<Rightarrow> 's app_port \<Rightarrow> string \<Rightarrow> string \<Rightarrow> fs_node option \<Rightarrow> (string \<times> u64 \<times> int) list
    \<Rightarrow> sync_index \<Rightarrow> string list \<Rightarrow> 's \<Rightarrow> (sync_error, sync_index \<times> string list) result \<times> 's" where
  "scan_loop P J A device folder tree [] known changed s = (Inr (known, changed), s)"
| "scan_loop P J A device folder tree ((path, sz, modified) # files) known changed s =
     (case map_of known path of
        Some e \<Rightarrow>
          if \<not> ie_deleted e \<and> ie_size e = sz \<and> ie_modified e = modified then
            (case index_put J A folder (e\<lparr>ie_deleted := False\<rparr>) s of
               (Inl x, s) \<Rightarrow> (Inl x, s)
             | (Inr _, s) \<Rightarrow> scan_loop P J A device folder tree files (om_remove path known) changed s)
          else
            (case record_chunks P J A folder tree (path_names path) s of
               (content, s) \<Rightarrow>
                 (case index_put J A folder (e\<lparr>ie_size := sz, ie_modified := modified, ie_content := content,
                        ie_deleted := False, ie_version := vv_bump device (ie_version e)\<rparr>) s of
                    (Inl x, s) \<Rightarrow> (Inl x, s)
                  | (Inr _, s) \<Rightarrow> scan_loop P J A device folder tree files (om_remove path known) (changed @ [path]) s))
      | None \<Rightarrow>
          (case record_chunks P J A folder tree (path_names path) s of
             (content, s) \<Rightarrow>
               (case index_put J A folder \<lparr>ie_path = path, ie_size = sz, ie_modified = modified,
                      ie_version = vv_bump device vv_new, ie_content = content, ie_deleted = False\<rparr> s of
                  (Inl x, s) \<Rightarrow> (Inl x, s)
                | (Inr _, s) \<Rightarrow> scan_loop P J A device folder tree files known (changed @ [path]) s)))"

fun gone_loop :: "sync_json \<Rightarrow> 's app_port \<Rightarrow> string \<Rightarrow> string \<Rightarrow> sync_index \<Rightarrow> string list \<Rightarrow> 's
    \<Rightarrow> (sync_error, string list) result \<times> 's" where
  "gone_loop J A device folder [] changed s = (Inr changed, s)"
| "gone_loop J A device folder ((path, e) # known) changed s =
     (if ie_deleted e then gone_loop J A device folder known changed s
      else case index_put J A folder (e\<lparr>ie_deleted := True, ie_size := 0, ie_version := vv_bump device (ie_version e)\<rparr>) s of
             (Inl x, s) \<Rightarrow> (Inl x, s)
           | (Inr _, s) \<Rightarrow> gone_loop J A device folder known (changed @ [path]) s)"

definition rescan :: "prims \<Rightarrow> sync_json \<Rightarrow> 's app_port \<Rightarrow> string \<Rightarrow> string \<Rightarrow> fs_node option \<Rightarrow> 's
    \<Rightarrow> (sync_error, string list) result \<times> 's" where
  "rescan P J A device folder tree s =
     (case index_load J A folder s of
        Inl e \<Rightarrow> (Inl e, s)
      | Inr known \<Rightarrow>
          (case scan_loop P J A device folder tree (walk tree) known [] s of
             (Inl e, s) \<Rightarrow> (Inl e, s)
           | (Inr (known, changed), s) \<Rightarrow> gone_loop J A device folder known changed s))"

section \<open>Fetching a file by its chunks\<close>

record chunk_map_response =
  cmr_path :: string
  cmr_denied :: bool
  cmr_chunks :: "chunk list"

text \<open>
  \<open>fetch_by_delta\<close> of the command line and of the FFI: \<open>answer\<close> is the peer's chunk map and
  \<open>fetch\<close> its answers to the chunk requests; files are named relative to the synced folder.
\<close>

definition fetch_by_delta :: "prims \<Rightarrow> sync_json \<Rightarrow> 's app_port \<Rightarrow> stage_io \<Rightarrow> string \<Rightarrow> fs_node option \<Rightarrow> string \<Rightarrow> string \<Rightarrow> 's
    \<Rightarrow> chunk_map_response option \<Rightarrow> (nat \<Rightarrow> string list \<Rightarrow> string \<Rightarrow> bytes option) \<Rightarrow> tree_files \<Rightarrow> u64 option \<times> tree_files" where
  "fetch_by_delta P J A i folder tree remote_path write_to s answer fetch files =
     (case answer of
        None \<Rightarrow> (None, files)
      | Some a \<Rightarrow>
          if cmr_denied a \<or> cmr_chunks a = [] then (None, files)
          else
            let have = chunks_have J A folder s
            in case index_load J A folder s of
                 Inl _ \<Rightarrow> (None, files)
               | Inr loc \<Rightarrow>
                   fetch_streamed P i \<lparr>cm_path = remote_path, cm_chunks = cmr_chunks a\<rparr>
                     (wire_path (local_path components_unix [] write_to)) have
                     (chunks_read P J A folder tree s (map snd loc)) fetch files)"

section \<open>Names and keys\<close>

lemma record_key_eq: "record_key p = record_key q \<longleftrightarrow> p = q"
  using key.concat_esc_inject by (simp add: record_key_bytes)

text \<open>Escaping ASCII characters by ASCII text keeps a string valid.\<close>

lemma utf8_escape:
  assumes "\<And>b. 128 \<le> unat b \<Longrightarrow> f b = [b]" "\<And>b r. unat b < 128 \<Longrightarrow> from_utf8_ok (f b @ r) = from_utf8_ok r"
  shows "from_utf8_ok bs \<Longrightarrow> from_utf8_ok (concat (map f bs))"
proof (induction bs rule: from_utf8_ok.induct)
  case (2 a r)
  have c: "f b = [b]" if "utf8_cont b" for b using that assms(1) by (simp add: utf8_cont_def)
  consider "unat a < 128" | "194 \<le> unat a" "unat a < 224" | "224 \<le> unat a" "unat a < 240" | "240 \<le> unat a" "unat a < 245"
    using "2.prems" by (auto simp: Let_def split: if_splits)
  then show ?case
  proof cases
    case 1
    then show ?thesis using 2 assms(2) by (simp add: Let_def)
  next
    case 2
    then obtain b r' where "r = b # r'" "utf8_cont b" "from_utf8_ok r'" using "2.prems" by (auto simp: Let_def split: list.splits)
    then show ?thesis using 2 "2.IH"(2)[OF refl] assms(1)[of a] c by (simp add: Let_def)
  next
    case 3
    then obtain b d r' where "r = b # d # r'" "utf8_cont b" "utf8_cont d" "from_utf8_ok r'"
      "unat a = 224 \<longrightarrow> 160 \<le> unat b" "unat a = 237 \<longrightarrow> unat b < 160"
      using "2.prems" by (auto simp: Let_def split: list.splits)
    then show ?thesis using 3 "2.IH"(3)[OF refl] assms(1)[of a] c by (simp add: Let_def)
  next
    case 4
    then obtain b d e r' where "r = b # d # e # r'" "utf8_cont b" "utf8_cont d" "utf8_cont e" "from_utf8_ok r'"
      "unat a = 240 \<longrightarrow> 144 \<le> unat b" "unat a = 244 \<longrightarrow> unat b < 144"
      using "2.prems" by (auto simp: Let_def split: list.splits)
    then show ?thesis using 4 "2.IH"(4)[OF refl] assms(1)[of a] c by (simp add: Let_def)
  qed
qed simp

lemma str_ok_record_key: "str_ok p \<Longrightarrow> str_ok (record_key p)"
proof -
  assume p: "str_ok p"
  let ?f = "\<lambda>b. if b = 37 then [37, 50, 53] else if b = 47 then [37, 50, 70] else [b :: u8]"
  have "str_bytes (key_byte c) = ?f (of_char c)" for c
  proof -
    have "(of_char c = (37 :: u8)) = (c = CHR ''%'')" "(of_char c = (47 :: u8)) = (c = CHR ''/'')"
      using of_char_word_inject[of c "CHR ''%''"] of_char_word_inject[of c "CHR ''/''"] by simp_all
    then show ?thesis by (simp add: key_byte_def str_bytes_def)
  qed
  then have "str_bytes (record_key p) = concat (map ?f (str_bytes p))"
    by (induction p) (simp_all add: record_key_bytes str_bytes_def)
  moreover have "from_utf8_ok (concat (map ?f (str_bytes p)))"
    by (rule utf8_escape[OF _ _ p]) auto
  ultimately show ?thesis by simp
qed

lemma namespaces_ok [simp]: "namespace_ok (index_namespace folder)" "namespace_ok (chunk_namespace folder)"
proof -
  have "list_all slug_char (namespace_slug folder)" using slug_byte_chars by (induction folder) (auto simp: namespace_slug_def)
  then show "namespace_ok (index_namespace folder)" "namespace_ok (chunk_namespace folder)"
    by (simp_all add: namespace_ok_def index_namespace_def chunk_namespace_def slug_char_def is_ascii_alphanumeric_def)
qed

lemma namespaces_apart [simp]:
  "index_namespace f = index_namespace g \<longleftrightarrow> f = g" "index_namespace f \<noteq> chunk_namespace g" "chunk_namespace g \<noteq> index_namespace f"
  using slug.concat_esc_inject by (auto simp: index_namespace_def chunk_namespace_def namespace_slug_def)

section \<open>The index as a map\<close>

definition index_view :: "sync_json \<Rightarrow> (string \<Rightarrow> string \<Rightarrow> bytes option) \<Rightarrow> string \<Rightarrow> string \<Rightarrow> index_entry option" where
  "index_view J a folder p = Option.bind (a (index_namespace folder) (record_key p)) (sj_entry_of J)"

text \<open>Every record of an index namespace is an entry stored under the key of its own path.\<close>

definition index_wf :: "sync_json \<Rightarrow> (string \<Rightarrow> string \<Rightarrow> bytes option) \<Rightarrow> bool" where
  "index_wf J a = (\<forall>folder k v. a (index_namespace folder) k = Some v \<longrightarrow>
     (\<exists>e. sj_entry_of J v = Some e \<and> k = record_key (ie_path e) \<and> str_ok (ie_path e)))"

lemma index_view_path: "index_wf J a \<Longrightarrow> index_view J a folder p = Some e \<Longrightarrow> ie_path e = p \<and> str_ok p"
proof -
  assume w: "index_wf J a" and "index_view J a folder p = Some e"
  then obtain v where v: "a (index_namespace folder) (record_key p) = Some v" "sj_entry_of J v = Some e"
    by (auto simp: index_view_def bind_eq_Some_conv)
  with w obtain e' where "sj_entry_of J v = Some e'" "record_key p = record_key (ie_path e')" "str_ok (ie_path e')"
    unfolding index_wf_def by blast
  with v show ?thesis by (simp add: record_key_eq)
qed

lemma option_eqI: "(\<And>e. x = Some e \<longleftrightarrow> y = Some e) \<Longrightarrow> x = y"
  by (cases x; cases y) auto

lemma index_rows:
  assumes "index_wf J a" "map_of rows = a (index_namespace folder)" "distinct (map fst rows)"
  defines "es \<equiv> List.map_filter (\<lambda>(_, v). sj_entry_of J v) rows"
  shows "distinct (map ie_path es)" "map_of (map (\<lambda>e. (ie_path e, e)) es) = index_view J a folder"
proof -
  have dec: "\<exists>e. sj_entry_of J v = Some e \<and> k = record_key (ie_path e)" if "(k, v) \<in> set rows" for k v
    using assms(1-3) that unfolding index_wf_def by (metis map_of_eq_Some_iff)
  then have "map record_key (map ie_path es) = map fst rows"
    unfolding es_def by (induction rows) (fastforce simp: map_filter_simps)+
  then show d: "distinct (map ie_path es)" using assms(3) by (metis distinct_map)
  have m: "e \<in> set es \<longleftrightarrow> (\<exists>k v. (k, v) \<in> set rows \<and> sj_entry_of J v = Some e)" for e
    unfolding es_def set_map_filter_iff Bex_def by auto
  have view: "map_of (map (\<lambda>e. (ie_path e, e)) es) p = Some e \<longleftrightarrow> index_view J a folder p = Some e" for p e
  proof -
    have "map_of (map (\<lambda>e. (ie_path e, e)) es) p = Some e \<longleftrightarrow> e \<in> set es \<and> ie_path e = p"
      using d by (subst map_of_eq_Some_iff) (force simp: comp_def)+
    also have "\<dots> \<longleftrightarrow> (\<exists>v. (record_key p, v) \<in> set rows \<and> sj_entry_of J v = Some e)"
    proof
      assume "e \<in> set es \<and> ie_path e = p"
      then obtain k v where k: "(k, v) \<in> set rows" "sj_entry_of J v = Some e" "ie_path e = p" unfolding m by blast
      with dec[OF k(1)] show "\<exists>v. (record_key p, v) \<in> set rows \<and> sj_entry_of J v = Some e" by auto
    next
      assume "\<exists>v. (record_key p, v) \<in> set rows \<and> sj_entry_of J v = Some e"
      then obtain v where k: "(record_key p, v) \<in> set rows" "sj_entry_of J v = Some e" by blast
      with dec[OF k(1)] m[of e] show "e \<in> set es \<and> ie_path e = p" by (auto simp: record_key_eq)
    qed
    also have "\<dots> \<longleftrightarrow> index_view J a folder p = Some e"
      unfolding index_view_def bind_eq_Some_conv assms(2)[symmetric] map_of_eq_Some_iff[OF assms(3)] ..
    finally show ?thesis .
  qed
  show "map_of (map (\<lambda>e. (ie_path e, e)) es) = index_view J a folder"
    by (rule ext, rule option_eqI, rule view)
qed

context record_store
begin

lemma index_load_view:
  assumes "inv s" "index_wf J (abs s)"
  shows "\<exists>m. index_load J A folder s = Inr m \<and> om_inv m \<and> map_of m = index_view J (abs s) folder"
proof -
  obtain rows where r: "ap_list A (index_namespace folder) s = Inr rows" "distinct (map fst rows)"
    "map_of rows = abs s (index_namespace folder)" using list_law[OF assms(1) namespaces_ok(1)] by blast
  note v = index_rows[OF assms(2) r(3,2)]
  then show ?thesis using r(1) by (simp add: index_load_def map_of_om_collect map_of_rev_distinct comp_def)
qed

lemma index_put_view:
  assumes "inv s" "index_wf J (abs s)" "sync_json_ok J" "str_ok (ie_path e)" "index_put J A folder e s = (r, t)"
  shows "inv t \<and> index_wf J (abs t)
    \<and> index_view J (abs t) = (if r = Inr () then (index_view J (abs s))(folder := (index_view J (abs s) folder)(ie_path e \<mapsto> e))
        else index_view J (abs s))"
proof (cases "sj_entry J e")
  case (Inl x)
  then show ?thesis using assms by (auto simp: index_put_def)
next
  case (Inr b)
  obtain x s1 where p: "ap_put A (index_namespace folder) (record_key (ie_path e)) b s = (x, s1)" by fastforce
  have d: "sj_entry_of J b = Some e" using assms(3) Inr by (simp add: sync_json_ok_def)
  note l = put_law[OF assms(1) str_ok_record_key[OF assms(4)] p]
  have r: "t = s1" "r = Inr () \<longleftrightarrow> x = Inr ()" using p Inr assms(5) by (auto simp: index_put_def split: sum.splits)
  have "index_wf J (abs s1)" using l assms(2,4) d unfolding index_wf_def by (auto split: if_splits)
  with l r d show ?thesis by (auto simp: index_view_def fun_eq_iff record_key_eq)
qed

lemma chunks_put_view:
  assumes "inv s" "str_ok content" "chunks_put J A folder content chunks s = (r, t)"
  shows "inv t \<and> (\<forall>f. abs t (index_namespace f) = abs s (index_namespace f))"
proof (cases "sj_chunks J chunks")
  case (Inr b)
  obtain x s1 where "ap_put A (chunk_namespace folder) content b s = (x, s1)" by fastforce
  with put_law[OF assms(1,2) this] Inr assms(3) show ?thesis by (auto simp: chunks_put_def split: sum.splits)
qed (use assms in \<open>auto simp: chunks_put_def\<close>)

lemma record_chunks_view:
  assumes "inv s" "record_chunks P J A folder tree path s = (c, t)"
  shows "inv t \<and> (index_wf J (abs t) \<longleftrightarrow> index_wf J (abs s)) \<and> index_view J (abs t) = index_view J (abs s)
    \<and> c = (case hash_and_chunk P tree path of None \<Rightarrow> [] | Some (c, _) \<Rightarrow> c)"
proof (cases "hash_and_chunk P tree path")
  case (Some h)
  obtain c' cs where h: "h = (c', cs)" by fastforce
  have "str_ok c'" using Some h
    by (auto simp: hash_and_chunk_def content_hash_def chunk_hash_def to_hex_def Let_def split: io_res.splits if_splits
        intro!: ascii_utf8 simp flip: hex_encode_def simp: hex_encode_ascii)
  then have "inv t \<and> (\<forall>f. abs t (index_namespace f) = abs s (index_namespace f))"
    using assms Some h chunks_put_view[OF assms(1), of c' J folder cs]
    by (cases "chunks_put J A folder c' cs s") (auto simp: record_chunks_def split: if_splits)
  then show ?thesis using assms(2) Some h by (auto simp: record_chunks_def index_wf_def index_view_def fun_eq_iff)
qed (use assms in \<open>auto simp: record_chunks_def\<close>)

end

section \<open>What a scan does\<close>

definition content_of :: "prims \<Rightarrow> fs_node option \<Rightarrow> string list \<Rightarrow> string" where
  "content_of P tree path = (case hash_and_chunk P tree path of None \<Rightarrow> [] | Some (c, _) \<Rightarrow> c)"

definition edited :: "u64 \<Rightarrow> int \<Rightarrow> index_entry option \<Rightarrow> bool" where
  "edited sz md old = (case old of Some e \<Rightarrow> ie_deleted e \<or> ie_size e \<noteq> sz \<or> ie_modified e \<noteq> md | None \<Rightarrow> True)"

text \<open>The entry of a file that is there, and of one that is not.\<close>

definition scanned :: "prims \<Rightarrow> string \<Rightarrow> fs_node option \<Rightarrow> string \<Rightarrow> u64 \<Rightarrow> int \<Rightarrow> index_entry option \<Rightarrow> index_entry" where
  "scanned P device tree path sz md old =
     (if edited sz md old then
        \<lparr>ie_path = path, ie_size = sz, ie_modified = md,
         ie_version = vv_bump device (case old of Some e \<Rightarrow> ie_version e | None \<Rightarrow> vv_new),
         ie_content = content_of P tree (path_names path), ie_deleted = False\<rparr>
      else the old)"

definition gone :: "string \<Rightarrow> index_entry \<Rightarrow> index_entry" where
  "gone device e = (if ie_deleted e then e
     else e\<lparr>ie_deleted := True, ie_size := 0, ie_version := vv_bump device (ie_version e)\<rparr>)"

definition scan_view :: "prims \<Rightarrow> string \<Rightarrow> fs_node option \<Rightarrow> (string \<Rightarrow> index_entry option) \<Rightarrow> string \<Rightarrow> index_entry option" where
  "scan_view P device tree old p =
     (case map_of (walk tree) p of
        Some (sz, md) \<Rightarrow> Some (scanned P device tree p sz md (old p))
      | None \<Rightarrow> map_option (gone device) (old p))"

lemma scan_loop_step:
  assumes "\<And>e. map_of known path = Some e \<Longrightarrow> ie_path e = path"
  shows "scan_loop P J A device folder tree ((path, sz, md) # files) known changed s =
    (let old = map_of known path;
         s1 = (if edited sz md old then snd (record_chunks P J A folder tree (path_names path) s) else s)
     in case index_put J A folder (scanned P device tree path sz md old) s1 of
          (Inl x, s2) \<Rightarrow> (Inl x, s2)
        | (Inr _, s2) \<Rightarrow> scan_loop P J A device folder tree files (om_remove path known)
            (if edited sz md old then changed @ [path] else changed) s2)"
proof -
  obtain s' where c: "record_chunks P J A folder tree (path_names path) s = (content_of P tree (path_names path), s')"
    by (cases "hash_and_chunk P tree (path_names path)") (auto simp: record_chunks_def content_of_def)
  show ?thesis
  proof (cases "map_of known path")
    case None
    then have "om_remove path known = known" by (rule om_remove_absent)
    then show ?thesis using None c unfolding \<open>om_remove path known = known\<close> by (simp add: edited_def scanned_def Let_def)
  next
    case (Some e)
    then have p: "ie_path e = path" by (rule assms)
    show ?thesis
    proof (cases "edited sz md (Some e)")
      case True
      then have "e\<lparr>ie_size := sz, ie_modified := md, ie_content := content_of P tree (path_names path), ie_deleted := False,
          ie_version := vv_bump device (ie_version e)\<rparr> = scanned P device tree path sz md (Some e)"
        using p by (simp add: scanned_def)
      then show ?thesis using True Some c by (auto simp: edited_def Let_def)
    next
      case False
      then have "e\<lparr>ie_deleted := False\<rparr> = scanned P device tree path sz md (Some e)" by (simp add: scanned_def edited_def)
      then show ?thesis using False Some by (simp add: edited_def Let_def)
    qed
  qed
qed

lemma scanned_path: "(\<And>e. old = Some e \<Longrightarrow> ie_path e = path) \<Longrightarrow> ie_path (scanned P device tree path sz md old) = path"
  by (cases old) (auto simp: scanned_def edited_def split: if_splits)

lemma gone_path: "ie_path (gone device e) = ie_path e"
  by (simp add: gone_def)

lemma filter_om_remove: "filter (\<lambda>e. fst e \<notin> S) (om_remove p m) = filter (\<lambda>e. fst e \<notin> insert p S) m"
  by (auto simp: om_remove_def filter_filter intro: filter_cong)

context record_store
begin

lemma scan_loop_view:
  assumes "inv s" "index_wf J (abs s)" "sync_json_ok J" "distinct (map fst files)" "\<forall>p \<in> fst ` set files. str_ok p"
    "\<forall>p \<in> fst ` set files. map_of known p = index_view J (abs s) folder p"
    "scan_loop P J A device folder tree files known changed s = (r, t)"
  shows "inv t \<and> index_wf J (abs t) \<and> (\<forall>f. f \<noteq> folder \<longrightarrow> index_view J (abs t) f = index_view J (abs s) f)
    \<and> (\<forall>p. index_view J (abs t) folder p = index_view J (abs s) folder p
         \<or> (\<exists>sz md. map_of files p = Some (sz, md)
              \<and> index_view J (abs t) folder p = Some (scanned P device tree p sz md (index_view J (abs s) folder p))))
    \<and> (\<forall>known' changed'. r = Inr (known', changed') \<longrightarrow>
         (\<forall>p. index_view J (abs t) folder p = (case map_of files p of
            Some (sz, md) \<Rightarrow> Some (scanned P device tree p sz md (index_view J (abs s) folder p))
          | None \<Rightarrow> index_view J (abs s) folder p))
         \<and> known' = filter (\<lambda>e. fst e \<notin> fst ` set files) known
         \<and> changed' = changed @ map fst (filter (\<lambda>(p, sz, md). edited sz md (index_view J (abs s) folder p)) files))"
  using assms
proof (induction files arbitrary: known changed s)
  case Nil
  then show ?case by auto
next
  case (Cons x files)
  obtain path sz md where x: "x = (path, sz, md)" by (cases x) auto
  let ?old = "index_view J (abs s) folder path"
  let ?new = "scanned P device tree path sz md ?old"
  have k: "map_of known path = ?old" using Cons.prems(6) x by simp
  have op: "?old = Some e \<Longrightarrow> ie_path e = path" for e using index_view_path[OF Cons.prems(2)] by blast
  define s1 where "s1 = (if edited sz md ?old then snd (record_chunks P J A folder tree (path_names path) s) else s)"
  have s1: "inv s1" "index_wf J (abs s1)" "index_view J (abs s1) = index_view J (abs s)"
    using record_chunks_view[OF Cons.prems(1), where J = J and P = P and folder = folder and tree = tree and path = "path_names path"] Cons.prems(1,2)
    by (auto simp: s1_def) (metis prod.collapse)+
  obtain y s2 where y: "index_put J A folder ?new s1 = (y, s2)" by fastforce
  have np: "ie_path ?new = path" using scanned_path op by blast
  have sp: "str_ok (ie_path ?new)" using Cons.prems(5) x np by simp
  note v = index_put_view[OF s1(1,2) Cons.prems(3) sp y, unfolded np s1(3)]
  have step: "scan_loop P J A device folder tree (x # files) known changed s =
    (case y of Inl e \<Rightarrow> (Inl e, s2) | Inr _ \<Rightarrow> scan_loop P J A device folder tree files (om_remove path known)
        (if edited sz md ?old then changed @ [path] else changed) s2)"
    using scan_loop_step[of known path P J A device folder tree sz md files changed s] op k y
    by (simp add: x s1_def Let_def split: sum.splits)
  show ?case
  proof (cases y)
    case (Inl e)
    then show ?thesis using step v Cons.prems(7) by auto
  next
    case (Inr u)
    then have v': "inv s2" "index_wf J (abs s2)" "index_view J (abs s2) = (index_view J (abs s))(folder := (index_view J (abs s) folder)(path \<mapsto> ?new))"
      using v by auto
    have r: "scan_loop P J A device folder tree files (om_remove path known) (if edited sz md ?old then changed @ [path] else changed) s2 = (r, t)"
      using step Inr Cons.prems(7) by simp
    have np': "path \<notin> fst ` set files" using Cons.prems(4) x by auto
    then have other: "p \<in> fst ` set files \<Longrightarrow> index_view J (abs s2) folder p = index_view J (abs s) folder p" for p
      using v'(3) by auto
    have kn: "\<forall>p \<in> fst ` set files. map_of (om_remove path known) p = index_view J (abs s2) folder p"
    proof
      fix p assume "p \<in> fst ` set files"
      then show "map_of (om_remove path known) p = index_view J (abs s2) folder p"
        using Cons.prems(6) other[of p] np' by (cases "p = path") auto
    qed
    have fl: "filter (\<lambda>(p, sz, md). edited sz md (index_view J (abs s2) folder p)) files
        = filter (\<lambda>(p, sz, md). edited sz md (index_view J (abs s) folder p)) files"
      using other[OF imageI[of _ _ fst]] by (intro filter_cong) (simp_all add: case_prod_unfold)
    have dd: "distinct (map fst files)" "\<forall>p \<in> fst ` set files. str_ok p" using Cons.prems(4,5) by auto
    note ih = Cons.IH[OF v'(1,2) Cons.prems(3) dd kn r]
    have nf: "map_of files path = None" using np' by (simp add: map_of_eq_None_iff)
    show ?thesis
    proof (intro conjI allI impI)
      show "inv t" "index_wf J (abs t)" using ih by auto
      show "index_view J (abs t) f = index_view J (abs s) f" if "f \<noteq> folder" for f
        using ih that v'(3) by auto
      show "index_view J (abs t) folder p = index_view J (abs s) folder p
         \<or> (\<exists>sz md. map_of (x # files) p = Some (sz, md)
              \<and> index_view J (abs t) folder p = Some (scanned P device tree p sz md (index_view J (abs s) folder p)))" for p
        using ih[THEN conjunct2, THEN conjunct2, THEN conjunct2, THEN conjunct1, rule_format, of p] v'(3) nf
        by (cases "p = path") (auto simp: x)
      fix known' changed' assume i: "r = Inr (known', changed')"
      note fin = ih[THEN conjunct2, THEN conjunct2, THEN conjunct2, THEN conjunct2, rule_format, OF i]
      show "index_view J (abs t) folder p = (case map_of (x # files) p of
            Some (sz, md) \<Rightarrow> Some (scanned P device tree p sz md (index_view J (abs s) folder p))
          | None \<Rightarrow> index_view J (abs s) folder p)" for p
        using fin[THEN conjunct1, rule_format, of p] v'(3) nf by (cases "p = path") (auto simp: x split: option.splits)
      show "known' = filter (\<lambda>e. fst e \<notin> fst ` set (x # files)) known"
        using fin by (simp add: x filter_om_remove)
      show "changed' = changed @ map fst (filter (\<lambda>(p, sz, md). edited sz md (index_view J (abs s) folder p)) (x # files))"
        using fin fl by (simp add: x)
    qed
  qed
qed

end

context record_store
begin

lemma gone_loop_view:
  assumes "inv s" "index_wf J (abs s)" "sync_json_ok J" "distinct (map fst known)"
    "\<forall>(p, e) \<in> set known. index_view J (abs s) folder p = Some e"
    "gone_loop J A device folder known changed s = (r, t)"
  shows "inv t \<and> index_wf J (abs t) \<and> (\<forall>f. f \<noteq> folder \<longrightarrow> index_view J (abs t) f = index_view J (abs s) f)
    \<and> (\<forall>p. index_view J (abs t) folder p = index_view J (abs s) folder p
         \<or> p \<in> fst ` set known \<and> index_view J (abs t) folder p = map_option (gone device) (index_view J (abs s) folder p))
    \<and> (\<forall>changed'. r = Inr changed' \<longrightarrow>
         (\<forall>p. index_view J (abs t) folder p = (if p \<in> fst ` set known
            then map_option (gone device) (index_view J (abs s) folder p) else index_view J (abs s) folder p))
         \<and> changed' = changed @ map fst (filter (\<lambda>(p, e). \<not> ie_deleted e) known))"
  using assms
proof (induction known arbitrary: changed s)
  case Nil
  then show ?case by auto
next
  case (Cons x known)
  obtain path e where x: "x = (path, e)" by fastforce
  have v0: "index_view J (abs s) folder path = Some e" using Cons.prems(5) x by simp
  have np: "path \<notin> fst ` set known" "distinct (map fst known)" using Cons.prems(4) x by auto
  have kn: "\<forall>(p, e) \<in> set known. index_view J (abs s) folder p = Some e" using Cons.prems(5) by auto
  show ?case
  proof (cases "ie_deleted e")
    case True
    then have r: "gone_loop J A device folder known changed s = (r, t)" using Cons.prems(6) x by simp
    have "gone device e = e" using True by (simp add: gone_def)
    then show ?thesis using Cons.IH[OF Cons.prems(1-3) np(2) kn r] True x v0 np(1) by (auto split: if_splits)
  next
    case False
    obtain y s2 where y: "index_put J A folder (gone device e) s = (y, s2)" by fastforce
    have p: "ie_path (gone device e) = path" "str_ok (ie_path (gone device e))"
      using index_view_path[OF Cons.prems(2) v0] by (simp_all add: gone_path)
    note v = index_put_view[OF Cons.prems(1-3) p(2) y, unfolded p(1)]
    have step: "gone_loop J A device folder (x # known) changed s =
        (case y of Inl z \<Rightarrow> (Inl z, s2) | Inr _ \<Rightarrow> gone_loop J A device folder known (changed @ [path]) s2)"
      using False y by (simp add: x gone_def split: sum.splits)
    show ?thesis
    proof (cases y)
      case (Inl z)
      then show ?thesis using step v Cons.prems(6) by auto
    next
      case (Inr u)
      then have v': "inv s2" "index_wf J (abs s2)"
        "index_view J (abs s2) = (index_view J (abs s))(folder := (index_view J (abs s) folder)(path \<mapsto> gone device e))"
        using v by auto
      have r: "gone_loop J A device folder known (changed @ [path]) s2 = (r, t)" using step Inr Cons.prems(6) by simp
      have kn': "\<forall>(p, e) \<in> set known. index_view J (abs s2) folder p = Some e" using kn np(1) v'(3) by force
      note ih = Cons.IH[OF v'(1,2) Cons.prems(3) np(2) kn' r]
      show ?thesis
      proof (intro conjI allI impI)
        show "inv t" "index_wf J (abs t)" "f \<noteq> folder \<Longrightarrow> index_view J (abs t) f = index_view J (abs s) f" for f
          using ih v'(3) by auto
        show "index_view J (abs t) folder p = index_view J (abs s) folder p
         \<or> p \<in> fst ` set (x # known) \<and> index_view J (abs t) folder p = map_option (gone device) (index_view J (abs s) folder p)" for p
          using ih[THEN conjunct2, THEN conjunct2, THEN conjunct2, THEN conjunct1, rule_format, of p] v'(3) v0 np(1)
          by (cases "p = path") (auto simp: x)
        fix changed' assume i: "r = Inr changed'"
        note fin = ih[THEN conjunct2, THEN conjunct2, THEN conjunct2, THEN conjunct2, rule_format, OF i]
        show "index_view J (abs t) folder p = (if p \<in> fst ` set (x # known)
            then map_option (gone device) (index_view J (abs s) folder p) else index_view J (abs s) folder p)" for p
          using fin[THEN conjunct1, rule_format, of p] v'(3) v0 np(1) by (cases "p = path") (auto simp: x)
        show "changed' = changed @ map fst (filter (\<lambda>(p, e). \<not> ie_deleted e) (x # known))" using fin False by (simp add: x)
      qed
    qed
  qed
qed

end

section \<open>The walk\<close>

text \<open>A folder a Unix host can hold: distinct plain names in UTF-8 in every directory.\<close>

fun tree_ok :: "fs_node \<Rightarrow> bool" where
  "tree_ok (DirN es) = (distinct (map fst es)
     \<and> list_all (\<lambda>e. plain_name components_unix (fst e) \<and> str_ok (fst e) \<and> tree_ok (snd e)) es)"
| "tree_ok _ = True"

definition folder_ok :: "fs_node option \<Rightarrow> bool" where
  "folder_ok t = (case t of None \<Rightarrow> True | Some n \<Rightarrow> tree_ok n)"

fun collect_names :: "string list \<Rightarrow> fs_node \<Rightarrow> (string list \<times> u64 \<times> int) list" where
  "collect_names rel (DirN es) = concat (map (\<lambda>e. case snd e of
       LinkN \<Rightarrow> []
     | DirN _ \<Rightarrow> collect_names (rel @ [fst e]) (snd e)
     | FileN b m \<Rightarrow> [(rel @ [fst e], of_nat (length b), max 0 m)]) es)"
| "collect_names rel _ = []"

lemma collect_names: "collect rel n = map (\<lambda>(names, r). (wire_path (map Normal names), r)) (collect_names rel n)"
proof (induction rel n rule: collect.induct)
  case (1 rel es)
  let ?w = "\<lambda>(names, r). (wire_path (map Normal names), r)"
  have "(case snd e of LinkN \<Rightarrow> [] | DirN _ \<Rightarrow> collect (rel @ [fst e]) (snd e)
      | FileN b m \<Rightarrow> [(wire_path (map Normal (rel @ [fst e])), of_nat (length b), max 0 m)])
    = map ?w (case snd e of LinkN \<Rightarrow> [] | DirN _ \<Rightarrow> collect_names (rel @ [fst e]) (snd e)
      | FileN b m \<Rightarrow> [(rel @ [fst e], of_nat (length b), max 0 m)])" if "e \<in> set es" for e
    using 1[OF that] by (cases "snd e") auto
  then show ?case unfolding collect.simps collect_names.simps map_concat map_map comp_def
    by (intro arg_cong[where f = concat] map_cong) auto
qed auto

lemma collect_names_below: "x \<in> set (collect_names rel n) \<Longrightarrow> \<exists>y ys. fst x = rel @ y # ys"
proof (induction rel n arbitrary: x rule: collect_names.induct)
  case (1 rel es)
  then obtain e where e: "e \<in> set es" "x \<in> set (case snd e of LinkN \<Rightarrow> [] | DirN _ \<Rightarrow> collect_names (rel @ [fst e]) (snd e)
     | FileN b m \<Rightarrow> [(rel @ [fst e], of_nat (length b), max 0 m)])" by auto
  then show ?case using 1(1)[OF e(1), of _ x] by (fastforce split: fs_node.splits)
qed auto

lemma collect_names_distinct: "tree_ok n \<Longrightarrow> distinct (map fst (collect_names rel n))"
proof (induction rel n rule: collect_names.induct)
  case (1 rel es)
  let ?f = "\<lambda>e. case snd e of LinkN \<Rightarrow> [] | DirN _ \<Rightarrow> collect_names (rel @ [fst e]) (snd e)
     | FileN b m \<Rightarrow> [(rel @ [fst e], of_nat (length b), max 0 m)]"
  have hd: "\<exists>ys. fst x = rel @ fst e # ys" if "x \<in> set (?f e)" for x e
    using that collect_names_below[of x "rel @ [fst e]" "snd e"] by (auto split: fs_node.splits)
  have one: "distinct (map fst (?f e))" if "e \<in> set es" for e
    using 1(1)[OF that] 1(2) that by (auto simp: list_all_iff split: fs_node.splits)
  have "distinct (map fst (concat (map ?f xs)))" if "set xs \<subseteq> set es" "distinct (map fst xs)" for xs
    using that
  proof (induction xs)
    case (Cons e xs)
    have "fst ` set (?f e) \<inter> fst ` set (concat (map ?f xs)) = {}"
    proof (rule ccontr)
      assume "fst ` set (?f e) \<inter> fst ` set (concat (map ?f xs)) \<noteq> {}"
      then obtain x x' where x: "x \<in> set (?f e)" "x' \<in> set (concat (map ?f xs))" "fst x = fst x'" by blast
      then obtain e' where "e' \<in> set xs" "x' \<in> set (?f e')" by auto
      with x hd[of x e] hd[of x' e'] have "fst e = fst e'" by auto
      with Cons.prems(2) \<open>e' \<in> set xs\<close> show False by auto
    qed
    with Cons one[of e] show ?case by auto
  qed simp
  then show ?case using 1(2) by simp
qed auto

abbreviation name_ok :: "string \<Rightarrow> bool" where
  "name_ok x \<equiv> plain_name components_unix x \<and> str_ok x"

lemma collect_names_iff:
  "tree_ok n \<Longrightarrow> (names, sz, md) \<in> set (collect_names rel n) \<longleftrightarrow>
     (\<exists>ys b m. ys \<noteq> [] \<and> names = rel @ ys \<and> file_at (Some n) ys = Some (b, m) \<and> sz = of_nat (length b) \<and> md = max 0 m)"
proof (induction rel n arbitrary: names rule: collect_names.induct [case_names dir plain link])
  case (dir rel es)
  have d: "distinct (map fst es)" and ok: "\<And>e. e \<in> set es \<Longrightarrow> tree_ok (snd e)" using dir(2) by (auto simp: list_all_iff)
  have e: "(names, sz, md) \<in> set (case snd e of LinkN \<Rightarrow> [] | DirN _ \<Rightarrow> collect_names (rel @ [fst e]) (snd e)
        | FileN b m \<Rightarrow> [(rel @ [fst e], of_nat (length b), max 0 m)]) \<longleftrightarrow>
      (\<exists>zs b m. names = rel @ fst e # zs \<and> file_at (Some (snd e)) zs = Some (b, m) \<and> sz = of_nat (length b) \<and> md = max 0 m)"
    if "e \<in> set es" for e
  proof (cases "snd e")
    case (DirN xs)
    have "file_at (Some (snd e)) zs = Some r \<Longrightarrow> zs \<noteq> []" for zs r using DirN by auto
    then have "(\<exists>ys b m. ys \<noteq> [] \<and> names = (rel @ [fst e]) @ ys \<and> file_at (Some (snd e)) ys = Some (b, m) \<and> sz = of_nat (length b) \<and> md = max 0 m)
      \<longleftrightarrow> (\<exists>zs b m. names = rel @ fst e # zs \<and> file_at (Some (snd e)) zs = Some (b, m) \<and> sz = of_nat (length b) \<and> md = max 0 m)"
      by fastforce
    with dir(1)[OF that DirN ok[OF that], of names] show ?thesis by (simp only: DirN fs_node.case)
  next
    case (FileN b m)
    have "file_at (Some (FileN b m)) zs = Some r \<longleftrightarrow> zs = [] \<and> r = (b, m)" for zs r by (cases zs) auto
    then show ?thesis using FileN by auto
  next
    case LinkN
    have "file_at (Some LinkN) zs = None" for zs by (cases zs) auto
    then show ?thesis using LinkN by auto
  qed
  have "(names, sz, md) \<in> set (collect_names rel (DirN es)) \<longleftrightarrow>
      (\<exists>e \<in> set es. \<exists>zs b m. names = rel @ fst e # zs \<and> file_at (Some (snd e)) zs = Some (b, m) \<and> sz = of_nat (length b) \<and> md = max 0 m)"
    using e by auto
  also have "\<dots> \<longleftrightarrow> (\<exists>ys b m. ys \<noteq> [] \<and> names = rel @ ys \<and> file_at (Some (DirN es)) ys = Some (b, m) \<and> sz = of_nat (length b) \<and> md = max 0 m)"
  proof
    assume "\<exists>e \<in> set es. \<exists>zs b m. names = rel @ fst e # zs \<and> file_at (Some (snd e)) zs = Some (b, m) \<and> sz = of_nat (length b) \<and> md = max 0 m"
    then obtain x n zs b m where x: "(x, n) \<in> set es" "names = rel @ x # zs" "file_at (Some n) zs = Some (b, m)" "sz = of_nat (length b)" "md = max 0 m"
      by auto
    then have "map_of es x = Some n" using d by simp
    with x show "\<exists>ys b m. ys \<noteq> [] \<and> names = rel @ ys \<and> file_at (Some (DirN es)) ys = Some (b, m) \<and> sz = of_nat (length b) \<and> md = max 0 m"
      by (intro exI[of _ "x # zs"]) auto
  next
    assume "\<exists>ys b m. ys \<noteq> [] \<and> names = rel @ ys \<and> file_at (Some (DirN es)) ys = Some (b, m) \<and> sz = of_nat (length b) \<and> md = max 0 m"
    then obtain x zs b m where x: "names = rel @ x # zs" "file_at (map_of es x) zs = Some (b, m)" "sz = of_nat (length b)" "md = max 0 m"
      by (auto simp: neq_Nil_conv)
    then obtain n where "map_of es x = Some n" by (cases "map_of es x") auto
    with x show "\<exists>e \<in> set es. \<exists>zs b m. names = rel @ fst e # zs \<and> file_at (Some (snd e)) zs = Some (b, m) \<and> sz = of_nat (length b) \<and> md = max 0 m"
      by (intro bexI[of _ "(x, n)"]) (auto dest: map_of_SomeD)
  qed
  finally show ?case .
next
  case (plain rel b m)
  have "file_at (Some (FileN b m)) zs = Some r \<Longrightarrow> zs = []" for zs r by (cases zs) auto
  then show ?case by auto
next
  case (link rel)
  have "file_at (Some LinkN) zs = None" for zs by (cases zs) auto
  then show ?case by auto
qed

lemma file_at_names: "folder_ok t \<Longrightarrow> file_at t ys = Some r \<Longrightarrow> \<forall>y \<in> set ys. name_ok y"
proof (induction ys arbitrary: t)
  case (Cons y ys)
  then obtain es n where t: "t = Some (DirN es)" "map_of es y = Some n" "file_at (Some n) ys = Some r"
    by (cases t; cases "the t"; cases "map_of (case the t of DirN es \<Rightarrow> es | _ \<Rightarrow> []) y") auto
  moreover have "folder_ok (Some n)" "name_ok y"
    using Cons.prems(1) t map_of_SomeD[OF t(2)] by (auto simp: folder_ok_def list_all_iff)
  ultimately show ?case using Cons.IH[of "Some n"] by auto
qed simp

lemma path_names_wire: "ys \<noteq> [] \<Longrightarrow> \<forall>y \<in> set ys. name_ok y \<Longrightarrow> path_names (wire_path (map Normal ys)) = ys"
  using split_on_join[of ys "CHR ''/''"] by (simp add: path_names_def wire_path_names plain_name_def)

lemma join_split: "join_with c (split_on c s) = s"
proof (induction s)
  case (Cons x s)
  obtain a b where "split_on c s = a # b" by (cases "split_on c s") auto
  with Cons show ?case by (cases b) auto
qed simp

lemma str_ok_join: "\<forall>y \<in> set ys. name_ok y \<Longrightarrow> str_ok (join_with (CHR ''/'') ys)"
proof (induction "CHR ''/''" ys rule: join_with.induct)
  case (3 s t ss)
  have "str_ok (CHR ''/'' # join_with (CHR ''/'') (t # ss))" using 3 by (simp add: str_bytes_def unat_of_char)
  then show ?case using 3 str_ok_append[of s] by simp
qed (simp_all add: str_bytes_def)

lemma wire_path_names_of: "wire_path (map Normal (path_names p)) = p"
  by (simp add: path_names_def wire_path_names join_split)

lemma walk_files:
  assumes "folder_ok tree"
  shows "map_of (walk tree) p = map_option (\<lambda>(b, m). (of_nat (length b), max 0 m)) (file_at tree (path_names p))"
    and "distinct (map fst (walk tree))" "p \<in> fst ` set (walk tree) \<Longrightarrow> str_ok p"
proof -
  define ns where "ns = (case tree of None \<Rightarrow> [] | Some n \<Rightarrow> collect_names [] n)"
  let ?w = "\<lambda>(names, r). (wire_path (map Normal names), r)"
  have w: "walk tree = sort (map ?w ns)" by (simp add: walk_def ns_def collect_names split: option.splits)
  have m: "(ys, sz, md) \<in> set ns \<longleftrightarrow> ys \<noteq> [] \<and> (\<exists>b m. file_at tree ys = Some (b, m) \<and> sz = of_nat (length b) \<and> md = max 0 m)" for ys sz md
    using assms collect_names_iff[of _ ys sz md "[]"] by (auto simp: ns_def folder_ok_def split: option.splits)
  have nm: "ys \<noteq> [] \<and> (\<forall>y \<in> set ys. name_ok y)" if "(ys, r) \<in> set ns" for ys r
    using that m[of ys "fst r" "snd r"] file_at_names[OF assms] by (cases r) auto
  have pn: "path_names (wire_path (map Normal ys)) = ys" if "(ys, r) \<in> set ns" for ys r
    using nm[OF that] path_names_wire by blast
  have dn: "distinct (map fst ns)" using collect_names_distinct assms by (auto simp: ns_def folder_ok_def split: option.splits)
  have "map path_names (map fst (map ?w ns)) = map fst ns" using pn by (auto simp: case_prod_unfold)
  then have dw: "distinct (map fst (map ?w ns))" using dn by (metis distinct_map)
  have "distinct (map fst (sort L))" if "distinct (map fst L)" for L :: "(string \<times> u64 \<times> int) list"
    using that by (simp add: distinct_map)
  with dw show d: "distinct (map fst (walk tree))" unfolding w by blast
  have s: "(p, sz, md) \<in> set (walk tree) \<longleftrightarrow> (path_names p, sz, md) \<in> set ns" for p sz md
  proof
    assume "(p, sz, md) \<in> set (walk tree)"
    then obtain ys where "(ys, sz, md) \<in> set ns" "p = wire_path (map Normal ys)" by (auto simp: w)
    with pn show "(path_names p, sz, md) \<in> set ns" by auto
  next
    assume "(path_names p, sz, md) \<in> set ns"
    then have "?w (path_names p, sz, md) \<in> set (walk tree)" unfolding w set_sort set_map by (rule imageI)
    then show "(p, sz, md) \<in> set (walk tree)" by (simp add: wire_path_names_of)
  qed
  show "map_of (walk tree) p = map_option (\<lambda>(b, m). (of_nat (length b), max 0 m)) (file_at tree (path_names p))"
  proof (rule option_eqI)
    fix e :: "u64 \<times> int"
    have "map_of (walk tree) p = Some e \<longleftrightarrow> (path_names p, e) \<in> set ns"
      using s[of p "fst e" "snd e"] map_of_eq_Some_iff[OF d, of p e] by simp
    also have "\<dots> \<longleftrightarrow> map_option (\<lambda>(b, m). (of_nat (length b), max 0 m)) (file_at tree (path_names p)) = Some e"
      using m[of "path_names p" "fst e" "snd e"] by (cases e) (auto simp: path_names_def)
    finally show "map_of (walk tree) p = Some e \<longleftrightarrow>
      map_option (\<lambda>(b, m). (of_nat (length b), max 0 m)) (file_at tree (path_names p)) = Some e" .
  qed
  show "str_ok p" if "p \<in> fst ` set (walk tree)"
  proof -
    from that obtain r where "(p, r) \<in> set (walk tree)" by auto
    then have "(path_names p, r) \<in> set ns" using s[of p "fst r" "snd r"] by simp
    from nm[OF this] have "str_ok (join_with (CHR ''/'') (path_names p))"
      using str_ok_join by blast
    then show ?thesis by (simp add: path_names_def join_split)
  qed
qed

section \<open>A scan as a whole\<close>

lemma vv_bump_changes: "vv_bump d v \<noteq> v"
proof
  assume "vv_bump d v = v"
  then have "vv_get (vv_bump d v) d = vv_get v d" by simp
  then show False by (simp add: vv_get_bump)
qed

lemma scanned_same: "Some (scanned P device tree p sz md old) = old \<longleftrightarrow> \<not> edited sz md old"
  using vv_bump_changes[of device] by (cases old) (auto simp: scanned_def edited_def dest: arg_cong[where f = ie_version])

lemma gone_same: "gone device e = e \<longleftrightarrow> ie_deleted e"
  using vv_bump_changes[of device] by (auto simp: gone_def dest: arg_cong[where f = ie_deleted])

lemma scan_view_changed:
  "scan_view P device tree old p \<noteq> old p \<longleftrightarrow> (case map_of (walk tree) p of
     Some (sz, md) \<Rightarrow> edited sz md (old p) | None \<Rightarrow> (\<exists>e. old p = Some e \<and> \<not> ie_deleted e))"
  using scanned_same[of P device tree p _ _ "old p"] gone_same[of device]
  by (cases "old p") (auto simp: scan_view_def split: option.splits)

lemma scan_view_again: "scan_view P device tree (scan_view P device tree old) = scan_view P device tree old"
proof
  fix p
  show "scan_view P device tree (scan_view P device tree old) p = scan_view P device tree old p"
  proof (cases "map_of (walk tree) p")
    case None
    then show ?thesis by (cases "old p") (auto simp: scan_view_def gone_def)
  next
    case (Some r)
    obtain sz md where r: "r = (sz, md)" by fastforce
    have "\<not> edited sz md (Some (scanned P device tree p sz md (old p)))"
      by (cases "old p") (auto simp: scanned_def edited_def)
    then show ?thesis using Some r by (simp add: scan_view_def scanned_def)
  qed
qed

text \<open>The paths a scan reports, from the files of the walk and the entries that are left.\<close>

lemma changed_paths:
  assumes "distinct (map fst (walk tree))" "distinct (map fst left)"
    and left: "\<And>p e. (p, e) \<in> set left \<longleftrightarrow> map_of (walk tree) p = None \<and> v p = Some e"
  defines "changed \<equiv> map fst (filter (\<lambda>(p, sz, md). edited sz md (v p)) (walk tree)) @ map fst (filter (\<lambda>(p, e). \<not> ie_deleted e) left)"
  shows "distinct changed \<and> set changed = {p. scan_view P device tree v p \<noteq> v p}"
proof
  have lp: "p \<in> fst ` set left \<longleftrightarrow> map_of (walk tree) p = None \<and> v p \<noteq> None" for p using left by force
  then have "fst ` set (walk tree) \<inter> fst ` set left = {}" by (auto simp: map_of_eq_None_iff)
  then have "fst ` set (filter Q (walk tree)) \<inter> fst ` set (filter Q' left) = {}" for Q Q'
    by (meson Int_mono disjoint_iff filter_is_subset image_mono subset_empty subset_iff)
  then show "distinct changed" unfolding changed_def distinct_append set_map
    using distinct_map_filter[OF assms(1)] distinct_map_filter[OF assms(2)] by blast
  have a: "p \<in> fst ` set (filter (\<lambda>(p, sz, md). edited sz md (v p)) (walk tree)) \<longleftrightarrow>
      (\<exists>sz md. map_of (walk tree) p = Some (sz, md) \<and> edited sz md (v p))" for p
    using assms(1) by (force simp: image_iff)
  have b: "p \<in> fst ` set (filter (\<lambda>(p, e). \<not> ie_deleted e) left) \<longleftrightarrow>
      map_of (walk tree) p = None \<and> (\<exists>e. v p = Some e \<and> \<not> ie_deleted e)" for p
    using left by (force simp: image_iff)
  show "set changed = {p. scan_view P device tree v p \<noteq> v p}"
  proof (rule set_eqI)
    fix p
    show "p \<in> set changed \<longleftrightarrow> p \<in> {p. scan_view P device tree v p \<noteq> v p}"
      unfolding changed_def set_append set_map Un_iff a b scan_view_changed mem_Collect_eq by (auto split: option.splits)
  qed
qed

context record_store
begin

lemma rescan_view:
  assumes "inv s" "index_wf J (abs s)" "sync_json_ok J" "folder_ok tree" "rescan P J A device folder tree s = (r, t)"
  shows "inv t" "index_wf J (abs t)" "f \<noteq> folder \<Longrightarrow> index_view J (abs t) f = index_view J (abs s) f"
    "index_view J (abs t) folder p = index_view J (abs s) folder p
       \<or> index_view J (abs t) folder p = scan_view P device tree (index_view J (abs s) folder) p"
    "r = Inr changed \<Longrightarrow> index_view J (abs t) folder = scan_view P device tree (index_view J (abs s) folder)
       \<and> distinct changed \<and> set changed = {p. index_view J (abs t) folder p \<noteq> index_view J (abs s) folder p}"
proof -
  let ?v = "index_view J (abs s) folder"
  obtain known where known: "index_load J A folder s = Inr known" "om_inv known" "map_of known = ?v"
    using index_load_view[OF assms(1,2)] by blast
  obtain r1 s1 where l1: "scan_loop P J A device folder tree (walk tree) known [] s = (r1, s1)" by fastforce
  note w = walk_files[OF assms(4)]
  have k: "\<forall>p \<in> fst ` set (walk tree). map_of known p = ?v p" "\<forall>p \<in> fst ` set (walk tree). str_ok p"
    using known(3) w(3) by auto
  note v1 = scan_loop_view[OF assms(1-3) w(2) k(2) k(1) l1]
  have mid: "index_view J (abs s1) folder p = ?v p \<or> index_view J (abs s1) folder p = scan_view P device tree ?v p" for p
    using v1[THEN conjunct2, THEN conjunct2, THEN conjunct2, THEN conjunct1, rule_format, of p] by (auto simp: scan_view_def)
  have *: "inv t \<and> index_wf J (abs t) \<and> (\<forall>f. f \<noteq> folder \<longrightarrow> index_view J (abs t) f = index_view J (abs s) f)
    \<and> (\<forall>p. index_view J (abs t) folder p = ?v p \<or> index_view J (abs t) folder p = scan_view P device tree ?v p)
    \<and> (\<forall>changed. r = Inr changed \<longrightarrow> index_view J (abs t) folder = scan_view P device tree ?v
       \<and> distinct changed \<and> set changed = {p. scan_view P device tree ?v p \<noteq> ?v p})"
  proof (cases r1)
    case (Inl e)
    then have "r = Inl e" "t = s1" using assms(5) known l1 by (simp_all add: rescan_def)
    then show ?thesis using v1 mid by auto
  next
    case (Inr kc)
    obtain known' ch where kc: "kc = (known', ch)" by fastforce
    note f1 = v1[THEN conjunct2, THEN conjunct2, THEN conjunct2, THEN conjunct2, rule_format, OF Inr[unfolded kc]]
    have l2: "gone_loop J A device folder known' ch s1 = (r, t)" using assms(5) known l1 Inr kc by (simp add: rescan_def)
    have dk: "distinct (map fst known)" by (rule om_inv_distinct[OF known(2)])
    have d': "distinct (map fst known')" using f1 dk by (simp add: distinct_map_filter)
    have left: "(p, e) \<in> set known' \<longleftrightarrow> map_of (walk tree) p = None \<and> ?v p = Some e" for p e
      using f1 dk known(3) by (auto simp: map_of_eq_None_iff) (metis map_of_eq_Some_iff)+
    have k': "\<forall>(p, e) \<in> set known'. index_view J (abs s1) folder p = Some e" using left f1 by auto
    note v2 = gone_loop_view[OF _ _ assms(3) d' k' l2]
    have v2: "inv t \<and> index_wf J (abs t) \<and> (\<forall>f. f \<noteq> folder \<longrightarrow> index_view J (abs t) f = index_view J (abs s1) f)
      \<and> (\<forall>p. index_view J (abs t) folder p = index_view J (abs s1) folder p
         \<or> p \<in> fst ` set known' \<and> index_view J (abs t) folder p = map_option (gone device) (index_view J (abs s1) folder p))
      \<and> (\<forall>changed'. r = Inr changed' \<longrightarrow>
         (\<forall>p. index_view J (abs t) folder p = (if p \<in> fst ` set known'
            then map_option (gone device) (index_view J (abs s1) folder p) else index_view J (abs s1) folder p))
         \<and> changed' = ch @ map fst (filter (\<lambda>(p, e). \<not> ie_deleted e) known'))" using v2 v1 by blast
    have lp: "p \<in> fst ` set known' \<longleftrightarrow> map_of (walk tree) p = None \<and> ?v p \<noteq> None" for p
      using left by force
    show ?thesis
    proof (intro conjI allI impI)
      show "inv t" "index_wf J (abs t)" using v2 by auto
      show "index_view J (abs t) f = index_view J (abs s) f" if "f \<noteq> folder" for f using v2 v1 that by auto
      show "index_view J (abs t) folder p = ?v p \<or> index_view J (abs t) folder p = scan_view P device tree ?v p" for p
        using v2[THEN conjunct2, THEN conjunct2, THEN conjunct2, THEN conjunct1, rule_format, of p] mid[of p] lp[of p]
          f1[THEN conjunct1, rule_format, of p] by (auto simp: scan_view_def)
      fix changed assume i: "r = Inr changed"
      note f2 = v2[THEN conjunct2, THEN conjunct2, THEN conjunct2, THEN conjunct2, rule_format, OF i]
      show "index_view J (abs t) folder = scan_view P device tree ?v"
      proof
        fix p
        show "index_view J (abs t) folder p = scan_view P device tree ?v p"
          using f2[THEN conjunct1, rule_format, of p] f1[THEN conjunct1, rule_format, of p] lp[of p]
          by (cases "?v p") (auto simp: scan_view_def split: option.splits)
      qed
      have ch: "changed = map fst (filter (\<lambda>(p, sz, md). edited sz md (?v p)) (walk tree)) @ map fst (filter (\<lambda>(p, e). \<not> ie_deleted e) known')"
        using f1 f2 by simp
      show "distinct changed" "set changed = {p. scan_view P device tree ?v p \<noteq> ?v p}"
        unfolding ch using changed_paths[OF w(2) d' left, where P = P and device = device] by blast+
    qed
  qed
  then show "inv t" "index_wf J (abs t)" "f \<noteq> folder \<Longrightarrow> index_view J (abs t) f = index_view J (abs s) f"
    "index_view J (abs t) folder p = ?v p \<or> index_view J (abs t) folder p = scan_view P device tree ?v p"
    "r = Inr changed \<Longrightarrow> index_view J (abs t) folder = scan_view P device tree ?v
       \<and> distinct changed \<and> set changed = {p. index_view J (abs t) folder p \<noteq> ?v p}"
    by auto
qed

end

section \<open>The scanned index and the disk\<close>

lemma content_of_file: "file_at tree names = Some (b, m) \<Longrightarrow> content_of P tree names = (if MAX_CHUNKABLE < length b \<and> sha256 P b = [] then [] else chunk_hash P b)"
  by (auto simp: file_at_def content_of_def hash_and_chunk_def content_hash_def fs_read_def Let_def chunk_hash_def to_hex_def
      split: io_res.splits fs_node.splits)

lemma scan_view_disk:
  assumes "folder_ok tree" "\<And>e. old p = Some e \<Longrightarrow> ie_path e = p"
  shows "case file_at tree (path_names p) of
      Some (b, m) \<Rightarrow> (\<exists>e. scan_view P device tree old p = Some e \<and> ie_path e = p \<and> \<not> ie_deleted e
         \<and> ie_size e = of_nat (length b) \<and> ie_modified e = max 0 m
         \<and> (Some e = old p \<or> ie_content e = content_of P tree (path_names p)
              \<and> ie_version e = vv_bump device (case old p of Some e \<Rightarrow> ie_version e | None \<Rightarrow> vv_new)))
    | None \<Rightarrow> (case old p of None \<Rightarrow> scan_view P device tree old p = None
         | Some e \<Rightarrow> (\<exists>e'. scan_view P device tree old p = Some e' \<and> ie_deleted e' \<and> ie_content e' = ie_content e
              \<and> (e' = e \<or> ie_version e' = vv_bump device (ie_version e))))"
proof (cases "file_at tree (path_names p)")
  case None
  then show ?thesis using walk_files(1)[OF assms(1), of p] by (auto simp: scan_view_def gone_def split: option.splits)
next
  case (Some r)
  obtain b m where r: "r = (b, m)" by fastforce
  show ?thesis using walk_files(1)[OF assms(1), of p] Some r assms(2)
    by (cases "old p") (auto simp: scan_view_def scanned_def edited_def)
qed


section \<open>Chunks read back\<close>

lemma chunks_read_sound: "chunks_read P J A folder tree s es want = Some b \<Longrightarrow> chunk_hash P b = want"
  by (induction P J A folder tree s es want rule: chunks_read.induct) (auto split: if_splits option.splits)

lemma chunks_read_None:
  "chunks_read P J A folder tree s es want = None \<longleftrightarrow>
     (\<forall>e \<in> set es. ie_deleted e \<or> ie_content e = [] \<or> (case chunks_get J A folder (ie_content e) s of
        None \<Rightarrow> True | Some cs \<Rightarrow> (case find (\<lambda>c. ck_hash c = want) cs of None \<Rightarrow> True
          | Some c \<Rightarrow> (case read_range tree (path_names (ie_path e)) (ck_offset c) (ck_len c) of
              None \<Rightarrow> True | Some b \<Rightarrow> chunk_hash P b \<noteq> want))))"
  by (induction P J A folder tree s es want rule: chunks_read.induct) (auto split: option.splits)

text \<open>A chunk that is neither asked for nor read back stops the fetch.\<close>

lemma reassemble_loop_missing:
  "c \<in> set cs \<Longrightarrow> supply (ck_hash c) = None \<Longrightarrow> snd (reassemble_loop P supply w out cs) = False"
  by (induction P "supply" w out cs rule: reassemble_loop.induct) (auto split: option.splits)

lemma window_loop_missing:
  assumes "ck_hash c \<in> hv" "loc (ck_hash c) = None" "\<forall>n hs h. h \<notin> set hs \<longrightarrow> fetch n hs h = None"
  shows "c \<in> set cs \<Longrightarrow> snd (window_loop P hv loc fetch w n reuse out cs) = None"
proof (induction "length cs" arbitrary: n reuse out cs rule: less_induct)
  case less
  let ?win = "take FETCH_WINDOW cs"
  let ?f = "window_fetched hv fetch n ?win"
  have "ck_hash c \<notin> set (map ck_hash (filter (\<lambda>c. ck_hash c \<notin> hv) ?win))" using assms(1) by auto
  then have f: "?f (ck_hash c) = None" using assms(3) by (simp add: window_fetched_def Let_def)
  obtain o1 ok where r: "reassemble_loop P (window_supply ?f loc) w out ?win = (o1, ok)" by fastforce
  show ?case
  proof (cases ok)
    case True
    then have "c \<notin> set ?win"
      using reassemble_loop_missing[of c ?win "window_supply ?f loc" P w out] f assms(2) r by (auto simp: window_supply_def)
    then have "c \<in> set (drop FETCH_WINDOW cs)" using less.prems by (metis Un_iff append_take_drop_id set_append)
    moreover have "length (drop FETCH_WINDOW cs) < length cs" using less.prems by (cases cs) (auto simp: FETCH_WINDOW_def)
    ultimately show ?thesis using less.hyps less.prems r True by (subst window_loop.simps) (auto simp: Let_def)
  qed (use less.prems r in \<open>subst window_loop.simps, auto simp: Let_def\<close>)
qed

context record_store
begin

lemma chunks_have_iff:
  assumes "inv s"
  shows "h \<in> chunks_have J A folder s \<longleftrightarrow>
    (\<exists>content cs. chunks_get J A folder content s = Some cs \<and> h \<in> ck_hash ` set cs)"
proof -
  obtain rows where r: "ap_list A (chunk_namespace folder) s = Inr rows" "distinct (map fst rows)"
    "map_of rows = abs s (chunk_namespace folder)" using list_law[OF assms namespaces_ok(2)] by blast
  have gl: "ap_get A (chunk_namespace folder) content s = Inr (map_of rows content)" for content
    using get_law[OF assms namespaces_ok(2), of folder content] by (simp only: r(3))
  have g: "chunks_get J A folder content s = Some cs \<longleftrightarrow> (\<exists>v. (content, v) \<in> set rows \<and> sj_chunks_of J v = Some cs)" for content cs
    unfolding map_of_eq_Some_iff[OF r(2), symmetric] chunks_get_def gl by (cases "map_of rows content") simp_all
  have "cs \<in> set (List.map_filter (\<lambda>(_, v). sj_chunks_of J v) rows) \<longleftrightarrow> (\<exists>content. chunks_get J A folder content s = Some cs)" for cs
    unfolding set_map_filter_iff Bex_def g by auto
  then show ?thesis by (simp add: chunks_have_def r(1)) blast
qed

end

text \<open>
  C23. A chunk map outlives the bytes it describes, and then blocks the fetch that needs them:
  \<open>have\<close> reports every chunk of every map ever recorded for the folder, while reading a chunk
  back needs a live file with that content. So once a file's old content is gone, no fetch of a
  version that contains one of its chunks can succeed - the chunk is never asked for, whatever
  the peer would send - and the destination stays as it was.
\<close>

theorem stale_chunk_map_blocks_fetch:
  fixes files :: tree_files
  assumes "app_port_inv P io s" "index_wf J (app_port_abs P s)"
    "chunks_get J (fs_app_port P io) folder content s = Some recorded" "c \<in> set recorded"
    "c' \<in> set (cmr_chunks a)" "ck_hash c' = ck_hash c"
    "\<forall>p e. index_view J (app_port_abs P s) folder p = Some e \<longrightarrow> ie_deleted e \<or> ie_content e = []
       \<or> (\<forall>cs. chunks_get J (fs_app_port P io) folder (ie_content e) s = Some cs \<longrightarrow> ck_hash c \<notin> ck_hash ` set cs)"
    "\<forall>n hs h. h \<notin> set hs \<longrightarrow> fetch n hs h = None"
  shows "fst (fetch_by_delta P J (fs_app_port P io) i folder tree remote_path write_to s (Some a) fetch files) = None
    \<and> snd (fetch_by_delta P J (fs_app_port P io) i folder tree remote_path write_to s (Some a) fetch files)
        (wire_path (local_path components_unix [] write_to)) = files (wire_path (local_path components_unix [] write_to))"
proof -
  let ?A = "fs_app_port P io" and ?d = "wire_path (local_path components_unix [] write_to)"
  obtain m where m: "index_load J ?A folder s = Inr m" "om_inv m" "map_of m = index_view J (app_port_abs P s) folder"
    using app.index_load_view[OF assms(1,2)] by blast
  have hv: "ck_hash c' \<in> chunks_have J ?A folder s" using app.chunks_have_iff[OF assms(1)] assms(3,4,6) by blast
  have "chunks_read P J ?A folder tree s (map snd m) (ck_hash c') = None"
    unfolding chunks_read_None
  proof
    fix e assume "e \<in> set (map snd m)"
    then obtain p where "(p, e) \<in> set m" by auto
    then have "index_view J (app_port_abs P s) folder p = Some e"
      using m(2,3) om_inv_distinct map_of_eq_Some_iff by metis
    with assms(7) have "ie_deleted e \<or> ie_content e = []
       \<or> (\<forall>cs. chunks_get J ?A folder (ie_content e) s = Some cs \<longrightarrow> ck_hash c \<notin> ck_hash ` set cs)" by blast
    then show "ie_deleted e \<or> ie_content e = [] \<or> (case chunks_get J ?A folder (ie_content e) s of
        None \<Rightarrow> True | Some cs \<Rightarrow> (case find (\<lambda>c. ck_hash c = ck_hash c') cs of None \<Rightarrow> True
          | Some c \<Rightarrow> (case read_range tree (path_names (ie_path e)) (ck_offset c) (ck_len c) of
              None \<Rightarrow> True | Some b \<Rightarrow> chunk_hash P b \<noteq> ck_hash c')))"
      using assms(6) by (auto simp: find_Some_iff image_iff split: option.splits) (metis nth_mem)
  qed
  from window_loop_missing[where c = c' and loc = "chunks_read P J ?A folder tree s (map snd m)", OF hv this assms(8), of "cmr_chunks a"] assms(5)
  have "snd (window_loop P (chunks_have J ?A folder s) (chunks_read P J ?A folder tree s (map snd m)) fetch (st_write i) 0 0 [] (cmr_chunks a)) = None"
    by blast
  moreover have "staging_path ?d \<noteq> ?d" by (simp add: staging_path_def)
  ultimately show ?thesis using m(1)
    by (auto simp: fetch_by_delta_def fetch_streamed_def Let_def split: prod.splits)
qed

section \<open>Witnesses\<close>

definition toy_entry_f :: index_entry where
  "toy_entry_f = \<lparr>ie_path = ''f'', ie_size = 1, ie_modified = 0, ie_version = [(''d'', 1)],
     ie_content = chunk_hash toy_prims [5], ie_deleted = False\<rparr>"

definition toy_sync_json :: sync_json where
  "toy_sync_json = \<lparr>sj_entry = (\<lambda>e. if e = toy_entry_f then Inr [1] else Inl []),
     sj_entry_of = (\<lambda>b. if b = [1] then Some toy_entry_f else None),
     sj_chunks = (\<lambda>_. Inl []), sj_chunks_of = (\<lambda>b. if b = [2] then Some [toy_chunk] else None)\<rparr>"

definition toy_folder :: "fs_node option" where
  "toy_folder = Some (DirN [(''f'', FileN [5] 0)])"

lemma toy_json_sync: "sync_json_ok toy_sync_json"
  by (simp add: sync_json_ok_def toy_sync_json_def)

lemma toy_served: "namespace_ok ns \<Longrightarrow> put_served toy_prims toy_put_io ns k v toy_app"
  using toy_app_served by (simp add: put_served_def toy_app_def enc_seal_def toy_prims_def is_ok_def)

lemma toy_walk: "walk toy_folder = [(''f'', 1, 0)]"
  by (simp add: walk_def toy_folder_def wire_path_def List.map_filter_def)

lemma toy_scan: "fst (rescan toy_prims toy_sync_json toy_port ''d'' ''s'' toy_folder (toy_app, 0)) = Inr [''f'']"
proof -
  have ld: "index_load toy_sync_json toy_port ''s'' (toy_app, 0) = Inr []"
    by (simp add: index_load_def fs_app_port_def app_list_def namespace_dir_def toy_app_def fs_read_dir_def map_filter_simps om_collect_def)
  have rc: "record_chunks toy_prims toy_sync_json toy_port ''s'' toy_folder (path_names ''f'') (toy_app, 0) = (chunk_hash toy_prims [5], (toy_app, 0))"
    by (simp add: record_chunks_def hash_and_chunk_def path_names_def toy_folder_def fs_read_def MAX_CHUNKABLE_def
        chunks_put_def toy_sync_json_def)
  obtain x where "app_put toy_prims toy_put_io (index_namespace ''s'') (record_key ''f'') [1] toy_app = (Inr (), x)"
    using app_put_completes[OF conjunct1[OF app_inv_fresh] toy_served[OF namespaces_ok(1)]] by (metis prod.collapse toy_app_def app_store.select_convs(4))
  then have ip: "index_put toy_sync_json toy_port ''s'' toy_entry_f (toy_app, 0) = (Inr (), (x, 1))"
    by (simp add: index_put_def toy_sync_json_def fs_app_port_def) (simp add: toy_entry_f_def)
  have e: "\<lparr>ie_path = ''f'', ie_size = 1, ie_modified = 0, ie_version = vv_bump ''d'' vv_new, ie_content = chunk_hash toy_prims [5],
      ie_deleted = False\<rparr> = toy_entry_f" by (simp add: toy_entry_f_def vv_bump_def vv_new_def)
  show ?thesis by (simp add: rescan_def ld toy_walk rc e ip)
qed


theorem stale_chunk_map_blocks_fetch_witness:
  "fst (fetch_by_delta toy_prims toy_sync_json toy_port
     \<lparr>st_parent = True, st_create = True, st_write = \<lambda>_. True, st_flush = True, st_rename = True, st_remove = True\<rparr>
     ''s'' toy_folder ''f'' ''f'' (snd (app_put toy_prims toy_put_io (chunk_namespace ''s'') ''c'' [2] toy_app), 1)
     (Some \<lparr>cmr_path = ''f'', cmr_denied = False, cmr_chunks = [toy_chunk]\<rparr>)
     (\<lambda>n hs h. if h \<in> set hs then Some [5] else None) (\<lambda>_. None)) = None"
proof -
  let ?ns = "chunk_namespace ''s''"
  obtain x where x: "app_put toy_prims toy_put_io ?ns ''c'' [2] toy_app = (Inr (), x)"
    using app_put_completes[OF conjunct1[OF app_inv_fresh] toy_served[OF namespaces_ok(2)]] by (metis prod.collapse toy_app_def app_store.select_convs(4))
  have r: "app_inv toy_prims x" "app_abs toy_prims x = (\<lambda>_ _. None)(?ns := [''c'' \<mapsto> [2]])"
    using app_put_refines[OF _ toy_gcm _ _ x] app_inv_fresh[of toy_app toy_prims]
    by (simp_all add: toy_app_def toy_put_io_def str_bytes_def unat_of_char)
  have i: "app_port_inv toy_prims (\<lambda>_. toy_put_io) (x, 1)" "app_port_abs toy_prims (x, n) = (\<lambda>_ _. None)(?ns := [''c'' \<mapsto> [2]])" for n
    using r toy_port_inv(1) by (simp_all add: app_port_inv_def app_port_abs_def)
  have w: "index_wf toy_sync_json (app_port_abs toy_prims (x, 1))" by (simp add: i(2) index_wf_def)
  have g: "chunks_get toy_sync_json toy_port ''s'' ''c'' (x, 1) = Some [toy_chunk]"
    using app.get_law[OF i(1), of ?ns "''c''"] by (simp add: chunks_get_def i(2) toy_sync_json_def)
  show ?thesis
    using stale_chunk_map_blocks_fetch[OF i(1) w g, of toy_chunk toy_chunk "\<lparr>cmr_path = ''f'', cmr_denied = False, cmr_chunks = [toy_chunk]\<rparr>"
        "\<lambda>n hs h. if h \<in> set hs then Some [5] else None"] i(2) x by (simp add: index_view_def)
qed

end
