(* ===== verification/PB_Sync_Apply.thy ===== *)
theory PB_Sync_Apply
  imports PB_Sync_Index
begin

text \<open>
  Carrying out a sync plan on this device (\<open>peerbeam-sync/src/apply.rs\<close>) and deciding when a
  changing folder has settled (\<open>scan.rs\<close>). The folder is a tree of the file-system theory; what
  the device answers to the renames and removals is an argument, per action of the plan.

  Shown here: applying a plan changes no file the plan does not delete or move, and none outside
  the folder; an applied deletion leaves nothing to do for that file at the next reconciliation,
  whereas an applied rename leaves an entry that the next reconciliation can take for a conflict;
  a file is reported as settled exactly when it was seen unchanged for the second time in a row.
\<close>

section \<open>Applying a plan\<close>

record outcome =
  oc_renamed :: nat
  oc_fetching :: nat
  oc_pushing :: nat
  oc_deleted :: nat
  oc_conflicts :: "string list"

definition outcome_default :: outcome where
  "outcome_default = \<lparr>oc_renamed = 0, oc_fetching = 0, oc_pushing = 0, oc_deleted = 0, oc_conflicts = []\<rparr>"

text \<open>What the device answers for the \<open>n\<close>-th action; the length it reports for a directory.\<close>

record apply_io =
  ai_mkdir :: "nat \<Rightarrow> bool"
  ai_rename :: "nat \<Rightarrow> bool"
  ai_remove :: "nat \<Rightarrow> bool"
  ai_dir_len :: u64

text \<open>\<open>local_path\<close> below the root of the folder, as names.\<close>

definition local_names :: "string \<Rightarrow> string list" where
  "local_names p = List.map_filter (\<lambda>c. case c of Normal n \<Rightarrow> Some n | _ \<Rightarrow> None) (local_path components_unix [] p)"

definition metadata_len :: "apply_io \<Rightarrow> string list \<Rightarrow> fs_node option \<Rightarrow> u64" where
  "metadata_len i p t = (case fs_lookup p t of
     IoOk (FileN b m) \<Rightarrow> of_nat (length b) | IoOk (DirN _) \<Rightarrow> ai_dir_len i | _ \<Rightarrow> 0)"

definition apply_rename :: "sync_json \<Rightarrow> 's app_port \<Rightarrow> apply_io \<Rightarrow> nat \<Rightarrow> string \<Rightarrow> sync_index \<Rightarrow> string \<Rightarrow> string
    \<Rightarrow> outcome \<times> fs_node option \<times> 's \<Rightarrow> (sync_error, outcome) result \<times> fs_node option \<times> 's" where
  "apply_rename J A i n folder known from to = (\<lambda>(out, t, s).
     let src = local_names from;
         dst = local_names to;
         t = (if ai_mkdir i n then case fs_mkdirs (butlast dst) t of Some d \<Rightarrow> Some d | None \<Rightarrow> t else t);
         (ok, t') = (if ai_rename i n then fs_rename src dst t else (False, t))
     in if ok then
          (case map_of known from of
             None \<Rightarrow> (Inr (out\<lparr>oc_renamed := oc_renamed out + 1\<rparr>), t', s)
           | Some e \<Rightarrow>
               (case index_put J A folder (e\<lparr>ie_deleted := True, ie_size := 0\<rparr>) s of
                  (Inl x, s) \<Rightarrow> (Inl x, t', s)
                | (Inr _, s) \<Rightarrow>
                    (case index_put J A folder \<lparr>ie_path = to, ie_size = metadata_len i dst t', ie_modified = 0,
                           ie_version = ie_version e, ie_content = ie_content e, ie_deleted = False\<rparr> s of
                       (Inl x, s) \<Rightarrow> (Inl x, t', s)
                     | (Inr _, s) \<Rightarrow> (Inr (out\<lparr>oc_renamed := oc_renamed out + 1\<rparr>), t', s))))
        else (Inr (out\<lparr>oc_fetching := oc_fetching out + 1\<rparr>), t, s))"

definition tombstone :: "(string, version_vector) omap \<Rightarrow> string \<Rightarrow> index_entry option \<Rightarrow> index_entry" where
  "tombstone remote_versions path old =
     (case old of
        Some e \<Rightarrow> e\<lparr>ie_deleted := True, ie_size := 0,
          ie_version := (case map_of remote_versions path of Some v \<Rightarrow> vv_merge (ie_version e) v | None \<Rightarrow> ie_version e)\<rparr>
      | None \<Rightarrow> \<lparr>ie_path = path, ie_size = 0, ie_modified = 0,
          ie_version = (case map_of remote_versions path of Some v \<Rightarrow> v | None \<Rightarrow> vv_new),
          ie_content = [], ie_deleted = True\<rparr>)"

definition apply_delete :: "sync_json \<Rightarrow> 's app_port \<Rightarrow> apply_io \<Rightarrow> nat \<Rightarrow> string \<Rightarrow> sync_index \<Rightarrow> (string, version_vector) omap \<Rightarrow> string
    \<Rightarrow> outcome \<times> fs_node option \<times> 's \<Rightarrow> (sync_error, outcome) result \<times> fs_node option \<times> 's" where
  "apply_delete J A i n folder known remote_versions path = (\<lambda>(out, t, s).
     case (if ai_remove i n then fs_remove_file (local_names path) t else (IoErr, t)) of
       (IoErr, t) \<Rightarrow> (Inr out, t, s)
     | (_, t) \<Rightarrow>
         (case index_put J A folder (tombstone remote_versions path (map_of known path)) s of
            (Inl x, s) \<Rightarrow> (Inl x, t, s)
          | (Inr _, s) \<Rightarrow> (Inr (out\<lparr>oc_deleted := oc_deleted out + 1\<rparr>), t, s)))"

fun apply_action :: "sync_json \<Rightarrow> 's app_port \<Rightarrow> apply_io \<Rightarrow> nat \<Rightarrow> string \<Rightarrow> sync_index \<Rightarrow> (string, version_vector) omap \<Rightarrow> action
    \<Rightarrow> outcome \<times> fs_node option \<times> 's \<Rightarrow> (sync_error, outcome) result \<times> fs_node option \<times> 's" where
  "apply_action J A i n folder known rv (Act_Rename from to) st = apply_rename J A i n folder known from to st"
| "apply_action J A i n folder known rv (Act_Fetch p) (out, t, s) = (Inr (out\<lparr>oc_fetching := oc_fetching out + 1\<rparr>), t, s)"
| "apply_action J A i n folder known rv (Act_Push p) (out, t, s) = (Inr (out\<lparr>oc_pushing := oc_pushing out + 1\<rparr>), t, s)"
| "apply_action J A i n folder known rv (Act_Conflict p keep_as) (out, t, s) =
     (Inr (out\<lparr>oc_conflicts := oc_conflicts out @ [keep_as]\<rparr>), t, s)"
| "apply_action J A i n folder known rv (Act_Delete p) st = apply_delete J A i n folder known rv p st"

fun apply_loop :: "sync_json \<Rightarrow> 's app_port \<Rightarrow> apply_io \<Rightarrow> nat \<Rightarrow> string \<Rightarrow> sync_index \<Rightarrow> (string, version_vector) omap \<Rightarrow> action list
    \<Rightarrow> outcome \<times> fs_node option \<times> 's \<Rightarrow> (sync_error, outcome) result \<times> fs_node option \<times> 's" where
  "apply_loop J A i n folder known rv [] (out, t, s) = (Inr out, t, s)"
| "apply_loop J A i n folder known rv (a # as) st =
     (case apply_action J A i n folder known rv a st of
        (Inl x, ts) \<Rightarrow> (Inl x, ts)
      | (Inr out, ts) \<Rightarrow> apply_loop J A i (Suc n) folder known rv as (out, ts))"

definition apply_local :: "sync_json \<Rightarrow> 's app_port \<Rightarrow> apply_io \<Rightarrow> string \<Rightarrow> action list \<Rightarrow> (string, version_vector) omap
    \<Rightarrow> fs_node option \<times> 's \<Rightarrow> (sync_error, outcome) result \<times> fs_node option \<times> 's" where
  "apply_local J A i folder actions rv = (\<lambda>(t, s).
     case index_load J A folder s of
       Inl e \<Rightarrow> (Inl e, t, s)
     | Inr known \<Rightarrow> apply_loop J A i 0 folder known rv actions (outcome_default, t, s))"

section \<open>Settling\<close>

record observed =
  ob_size :: u64
  ob_modified :: int

record pending =
  pd_seen :: observed
  pd_holds :: u32
  pd_reported :: bool

type_synonym settling = "(string, pending) omap"

definition settling_new :: settling where
  "settling_new = []"

definition REQUIRED_HOLDS :: u32 where "REQUIRED_HOLDS = 2"

definition observe_one :: "settling \<Rightarrow> string \<times> observed \<Rightarrow> string list \<times> settling \<Rightarrow> string list \<times> settling" where
  "observe_one old = (\<lambda>(path, now) (settled, nxt).
     let (holds, already) = (case map_of old path of
           Some prev \<Rightarrow> if pd_seen prev = now then (saturating_add (pd_holds prev) 1, pd_reported prev) else (1, False)
         | None \<Rightarrow> (1, False));
         report = (REQUIRED_HOLDS \<le> holds \<and> \<not> already)
     in (if report then settled @ [path] else settled,
         om_insert path \<lparr>pd_seen = now, pd_holds = holds, pd_reported = already \<or> report\<rparr> nxt))"

definition observe :: "(string \<times> observed) list \<Rightarrow> settling \<Rightarrow> string list \<times> settling" where
  "observe scan st = (case fold (observe_one st) scan ([], []) of (settled, nxt) \<Rightarrow> (sort settled, nxt))"

definition unsettled :: "settling \<Rightarrow> nat" where
  "unsettled st = length (filter (\<lambda>(_, p). \<not> pd_reported p) st)"

section \<open>What an action touches\<close>

fun paths_of :: "action \<Rightarrow> string list" where
  "paths_of (Act_Delete p) = [p]"
| "paths_of (Act_Rename from to) = [from, to]"
| "paths_of _ = []"

lemma tombstone_path: "(\<And>e. old = Some e \<Longrightarrow> ie_path e = p) \<Longrightarrow> ie_path (tombstone rv p old) = p"
  by (cases old) (auto simp: tombstone_def)

context record_store
begin

text \<open>An action writes the entries of its own paths only, and moves or removes no other file.\<close>

definition acts_locally :: "sync_json \<Rightarrow> string \<Rightarrow> string set \<Rightarrow> fs_node option \<times> 's \<Rightarrow> fs_node option \<times> 's \<Rightarrow> bool" where
  "acts_locally J folder ps = (\<lambda>(t, s) (t', s'). inv s' \<and> index_wf J (abs s')
     \<and> (\<forall>f. f \<noteq> folder \<longrightarrow> index_view J (abs s') f = index_view J (abs s) f)
     \<and> (\<forall>p. p \<notin> ps \<longrightarrow> index_view J (abs s') folder p = index_view J (abs s) folder p)
     \<and> (\<forall>q. (\<forall>p \<in> ps. \<not> below (local_names p) q) \<longrightarrow> file_at t' q = file_at t q))"

lemma acts_refl: "inv s \<Longrightarrow> index_wf J (abs s) \<Longrightarrow> acts_locally J folder ps (t, s) (t, s)"
  by (simp add: acts_locally_def)

lemma acts_trans: "acts_locally J folder ps a b \<Longrightarrow> acts_locally J folder qs b c \<Longrightarrow> acts_locally J folder (ps \<union> qs) a c"
  by (auto simp: acts_locally_def)

lemma acts_put:
  assumes "inv s" "index_wf J (abs s)" "sync_json_ok J" "str_ok (ie_path e)" "index_put J A folder e s = (r, s')" "ie_path e \<in> ps"
  shows "acts_locally J folder ps (t, s) (t, s')"
  using index_put_view[OF assms(1-5)] assms(6) by (auto simp: acts_locally_def)

lemma acts_tree:
  "inv s \<Longrightarrow> index_wf J (abs s) \<Longrightarrow> (\<And>q. \<forall>p \<in> ps. \<not> below (local_names p) q \<Longrightarrow> file_at t' q = file_at t q)
     \<Longrightarrow> acts_locally J folder ps (t, s) (t', s)"
  by (simp add: acts_locally_def)

lemma acts_file: "acts_locally J folder ps (t, s) (t', s') \<Longrightarrow> \<forall>p \<in> ps. \<not> below (local_names p) q \<Longrightarrow> file_at t' q = file_at t q"
  by (simp add: acts_locally_def)

lemma acts_view: "acts_locally J folder ps (t, s) (t', s') \<Longrightarrow> p \<notin> ps \<Longrightarrow> index_view J (abs s') folder p = index_view J (abs s) folder p"
  by (simp add: acts_locally_def)

lemma acts_ok: "acts_locally J folder ps (t, s) (t', s') \<Longrightarrow> inv s' \<and> index_wf J (abs s')"
  by (simp add: acts_locally_def)

end

text \<open>The two steps of a rename: the tree first, then the entries.\<close>

definition rename_tree :: "apply_io \<Rightarrow> nat \<Rightarrow> string \<Rightarrow> string \<Rightarrow> fs_node option \<Rightarrow> bool \<times> fs_node option" where
  "rename_tree i n from to t =
     (let t' = (if ai_mkdir i n then case fs_mkdirs (butlast (local_names to)) t of Some d \<Rightarrow> Some d | None \<Rightarrow> t else t)
      in if ai_rename i n then fs_rename (local_names from) (local_names to) t' else (False, t'))"

lemma file_at_rename_tree:
  assumes "\<not> below (local_names from) q" "\<not> below (local_names to) q"
  shows "file_at (snd (rename_tree i n from to t)) q = file_at t q"
proof -
  have "file_at (if ai_mkdir i n then case fs_mkdirs (butlast (local_names to)) t of Some d \<Rightarrow> Some d | None \<Rightarrow> t else t) q = file_at t q"
    by (auto simp: file_at_mkdirs split: option.splits)
  then show ?thesis using file_at_rename[OF assms] by (auto simp: rename_tree_def Let_def)
qed

lemma apply_rename_eq:
  "apply_rename J A i n folder known from to (out, t, s) =
     (case rename_tree i n from to t of
        (False, t') \<Rightarrow> (Inr (out\<lparr>oc_fetching := oc_fetching out + 1\<rparr>), t', s)
      | (True, t') \<Rightarrow>
          (case map_of known from of
             None \<Rightarrow> (Inr (out\<lparr>oc_renamed := oc_renamed out + 1\<rparr>), t', s)
           | Some e \<Rightarrow>
               (case index_put J A folder (e\<lparr>ie_deleted := True, ie_size := 0\<rparr>) s of
                  (Inl x, s) \<Rightarrow> (Inl x, t', s)
                | (Inr _, s) \<Rightarrow>
                    (case index_put J A folder \<lparr>ie_path = to, ie_size = metadata_len i (local_names to) t', ie_modified = 0,
                           ie_version = ie_version e, ie_content = ie_content e, ie_deleted = False\<rparr> s of
                       (Inl x, s) \<Rightarrow> (Inl x, t', s)
                     | (Inr _, s) \<Rightarrow> (Inr (out\<lparr>oc_renamed := oc_renamed out + 1\<rparr>), t', s)))))"
proof -
  have f: "fs_rename src dst t = (False, t') \<Longrightarrow> t' = t" for src dst t t'
    by (auto simp: fs_rename_def Let_def split: if_splits io_res.splits fs_node.splits list.splits)
  show ?thesis
    by (auto simp: apply_rename_def rename_tree_def Let_def dest!: f split: prod.splits bool.splits)
qed

context record_store
begin

lemma apply_rename_acts:
  assumes "inv s" "index_wf J (abs s)" "sync_json_ok J" "str_ok from" "str_ok to" "\<And>e. map_of known from = Some e \<Longrightarrow> ie_path e = from"
    "apply_rename J A i n folder known from to (out, t, s) = (r, t', s')"
  shows "acts_locally J folder {from, to} (t, s) (t', s')"
proof -
  obtain ok t1 where t1: "rename_tree i n from to t = (ok, t1)" by fastforce
  have a1: "acts_locally J folder {from, to} (t, s) (t1, s)"
    using file_at_rename_tree[of "from" _ to i n t] t1 by (intro acts_tree[OF assms(1,2)]) auto
  show ?thesis
  proof (cases "ok \<and> map_of known from \<noteq> None")
    case False
    then show ?thesis using a1 assms(7) t1 by (auto simp: apply_rename_eq split: bool.splits option.splits)
  next
    case True
    then obtain e where e: "map_of known from = Some e" by auto
    let ?e1 = "e\<lparr>ie_deleted := True, ie_size := 0\<rparr>"
    let ?e2 = "\<lparr>ie_path = to, ie_size = metadata_len i (local_names to) t1, ie_modified = 0,
         ie_version = ie_version e, ie_content = ie_content e, ie_deleted = False\<rparr>"
    obtain r1 s1 where p1: "index_put J A folder ?e1 s = (r1, s1)" by fastforce
    have a2: "acts_locally J folder {from, to} (t1, s) (t1, s1)"
      using acts_put[OF assms(1-3) _ p1, of "{from, to}" t1] assms(4) assms(6)[OF e] by simp
    obtain r2 s2 where p2: "index_put J A folder ?e2 s1 = (r2, s2)" by fastforce
    have i1: "inv s1" "index_wf J (abs s1)" using acts_ok[OF a2] by auto
    have a3: "acts_locally J folder {from, to} (t1, s1) (t1, s2)"
      using acts_put[OF i1 assms(3) _ p2, of "{from, to}" t1] assms(5) by simp
    have "t' = t1 \<and> (s' = s1 \<or> s' = s2)"
      using assms(7) t1 True e p1 p2 by (auto simp: apply_rename_eq split: sum.splits)
    then show ?thesis using acts_trans[OF a1 a2] acts_trans[OF acts_trans[OF a1 a2] a3] by auto
  qed
qed

lemma apply_delete_acts:
  assumes "inv s" "index_wf J (abs s)" "sync_json_ok J" "str_ok p" "\<And>e. map_of known p = Some e \<Longrightarrow> ie_path e = p"
    "apply_delete J A i n folder known rv p (out, t, s) = (r, t', s')"
  shows "acts_locally J folder {p} (t, s) (t', s')"
proof -
  obtain io t1 where t1: "(if ai_remove i n then fs_remove_file (local_names p) t else (IoErr, t)) = (io, t1)" by fastforce
  have a1: "acts_locally J folder {p} (t, s) (t1, s)"
    using file_at_remove[of "local_names p" _ t] t1 by (intro acts_tree[OF assms(1,2)]) (auto split: if_splits)
  obtain r2 s2 where p2: "index_put J A folder (tombstone rv p (map_of known p)) s = (r2, s2)" by fastforce
  have tp: "ie_path (tombstone rv p (map_of known p)) = p" using tombstone_path[of "map_of known p" p] assms(5) by blast
  have a2: "acts_locally J folder {p} (t1, s) (t1, s2)" using acts_put[OF assms(1-3) _ p2, of "{p}" t1] assms(4) tp by simp
  have "t' = t1 \<and> (s' = s \<or> s' = s2)"
    using assms(6) t1 p2 by (cases io) (auto simp: apply_delete_def split: sum.splits)
  then show ?thesis using a1 acts_trans[OF a1 a2] by auto
qed

lemma apply_action_acts:
  assumes "inv s" "index_wf J (abs s)" "sync_json_ok J" "\<forall>p \<in> set (paths_of a). str_ok p" "\<And>p e. map_of known p = Some e \<Longrightarrow> ie_path e = p"
    "apply_action J A i n folder known rv a (out, t, s) = (r, t', s')"
  shows "acts_locally J folder (set (paths_of a)) (t, s) (t', s')"
proof (cases a)
  case (Act_Rename x y)
  then show ?thesis using apply_rename_acts[OF assms(1-3), of x y known i n folder out t r t' s'] assms by auto
next
  case (Act_Delete p)
  then show ?thesis using apply_delete_acts[OF assms(1-3), of p known i n folder rv out t r t' s'] assms by auto
qed (use assms acts_refl in auto)

lemma apply_loop_acts:
  assumes "inv s" "index_wf J (abs s)" "sync_json_ok J" "\<forall>a \<in> set as. \<forall>p \<in> set (paths_of a). str_ok p"
    "\<And>p e. map_of known p = Some e \<Longrightarrow> ie_path e = p" "apply_loop J A i n folder known rv as (out, t, s) = (r, t', s')"
  shows "acts_locally J folder (\<Union>a \<in> set as. set (paths_of a)) (t, s) (t', s')"
  using assms
proof (induction as arbitrary: n out t s)
  case Nil
  then show ?case by (simp add: acts_refl)
next
  case (Cons a as)
  obtain r1 t1 s1 where a: "apply_action J A i n folder known rv a (out, t, s) = (r1, t1, s1)" by (metis prod_cases3)
  have a1: "acts_locally J folder (set (paths_of a)) (t, s) (t1, s1)"
    using apply_action_acts[OF Cons.prems(1-3) _ Cons.prems(5) a] Cons.prems(4) by auto
  have i1: "inv s1" "index_wf J (abs s1)" using acts_ok[OF a1] by auto
  show ?case
  proof (cases r1)
    case (Inl x)
    then have "t' = t1" "s' = s1" using Cons.prems(6) a by auto
    then show ?thesis using acts_trans[OF a1 acts_refl[OF i1]] by simp
  next
    case (Inr o1)
    then have "apply_loop J A i (Suc n) folder known rv as (o1, t1, s1) = (r, t', s')" using Cons.prems(6) a by simp
    from Cons.IH[OF i1 Cons.prems(3) _ Cons.prems(5) this] Cons.prems(4) acts_trans[OF a1] show ?thesis by simp
  qed
qed

end

text \<open>
  Applying a plan touches only what it names: whatever the store and the disk answer, every
  file that is neither at nor below the target of a deletion or an end of a rename keeps its
  bytes, and every index entry of another path - and every other folder's index - stays as it
  was. In particular fetches, pushes and conflicts change nothing here.
\<close>

lemma apply_stays_in_plan:
  assumes "app_port_inv P io s" "index_wf J (app_port_abs P s)" "sync_json_ok J"
    "\<forall>a \<in> set actions. \<forall>p \<in> set (paths_of a). str_ok p"
    "apply_local J (fs_app_port P io) i folder actions rv (t, s) = (r, t', s')"
  shows "app_port_inv P io s' \<and> index_wf J (app_port_abs P s')
    \<and> (\<forall>f. f \<noteq> folder \<longrightarrow> index_view J (app_port_abs P s') f = index_view J (app_port_abs P s) f)
    \<and> (\<forall>p. (\<forall>a \<in> set actions. p \<notin> set (paths_of a)) \<longrightarrow>
         index_view J (app_port_abs P s') folder p = index_view J (app_port_abs P s) folder p)
    \<and> (\<forall>q. (\<forall>a \<in> set actions. \<forall>p \<in> set (paths_of a). \<not> below (local_names p) q) \<longrightarrow> file_at t' q = file_at t q)"
proof -
  obtain known where k: "index_load J (fs_app_port P io) folder s = Inr known"
    "map_of known = index_view J (app_port_abs P s) folder" using app.index_load_view[OF assms(1,2)] by blast
  have "apply_loop J (fs_app_port P io) i 0 folder known rv actions (outcome_default, t, s) = (r, t', s')"
    using assms(5) k(1) by (simp add: apply_local_def)
  moreover have "map_of known p = Some e \<Longrightarrow> ie_path e = p" for p e using k(2) index_view_path[OF assms(2)] by simp
  ultimately have "app.acts_locally P io J folder (\<Union>a \<in> set actions. set (paths_of a)) (t, s) (t', s')"
    using app.apply_loop_acts[OF assms(1-4)] by blast
  then show ?thesis unfolding app.acts_locally_def by auto
qed

section \<open>After a deletion, after a rename\<close>

lemma apply_loop_append:
  "apply_loop J A i n folder known rv (as @ bs) (out, t, s) =
     (case apply_loop J A i n folder known rv as (out, t, s) of
        (Inl x, ts) \<Rightarrow> (Inl x, ts)
      | (Inr out, ts) \<Rightarrow> apply_loop J A i (n + length as) folder known rv bs (out, ts))"
proof (induction as arbitrary: n out t s)
  case (Cons a as)
  obtain r1 t1 s1 where "apply_action J A i n folder known rv a (out, t, s) = (r1, t1, s1)" by (metis prod_cases3)
  with Cons show ?case by (cases r1) (simp_all split: prod.splits sum.splits)
qed simp

lemma vv_merge_behind: "om_inv v \<Longrightarrow> vv_le a v \<Longrightarrow> relate (vv_merge a v) v = Same"
  by (auto simp: relate_eq vv_le_def vv_get_merge max_def)

text \<open>
  An applied deletion is settled: for a plan that deletes \<open>p\<close> and names it nowhere else, on a
  device that can remove the file, the file is gone afterwards and its entry is a tombstone with
  the same content hash whose version is the peer's; so reconciling with the peer's deletion
  again - whatever else changed - yields no action for \<open>p\<close>.
\<close>

lemma applied_delete_settles:
  assumes "app_port_inv P io s" "index_wf J (app_port_abs P s)" "sync_json_ok J"
    "\<forall>a \<in> set (as @ Act_Delete p # bs). \<forall>p \<in> set (paths_of a). str_ok p"
    "apply_local J (fs_app_port P io) i folder (as @ Act_Delete p # bs) rv (t, s) = (Inr out, t', s')"
    "\<forall>a \<in> set (as @ bs). \<forall>p' \<in> set (paths_of a). p' \<noteq> p \<and> \<not> below (local_names p') (local_names p)"
    "index_view J (app_port_abs P s) folder p = Some e" "map_of rv p = Some v" "om_inv v" "vv_le (ie_version e) v"
    "file_at t (local_names p) = Some (b, m)" "local_names p \<noteq> []" "ai_remove i (length as)"
  shows "file_at t' (local_names p) = None
    \<and> (\<exists>e'. index_view J (app_port_abs P s') folder p = Some e' \<and> ie_deleted e' \<and> ie_content e' = ie_content e \<and> relate (ie_version e') v = Same)
    \<and> (\<forall>loc peer f. map_of loc = index_view J (app_port_abs P s') folder \<and> rf_path f = p \<and> rf_version f = v \<longrightarrow> remote_action loc peer f = [])"
proof -
  let ?A = "fs_app_port P io"
  obtain known where k: "index_load J ?A folder s = Inr known" "map_of known = index_view J (app_port_abs P s) folder"
    using app.index_load_view[OF assms(1,2)] by blast
  have kp: "\<And>q e. map_of known q = Some e \<Longrightarrow> ie_path e = q" using k(2) index_view_path[OF assms(2)] by simp
  have run: "apply_loop J ?A i 0 folder known rv (as @ Act_Delete p # bs) (outcome_default, t, s) = (Inr out, t', s')"
    using assms(5) k(1) by (simp add: apply_local_def)
  then obtain o1 t1 s1 where l1: "apply_loop J ?A i 0 folder known rv as (outcome_default, t, s) = (Inr o1, t1, s1)"
    by (auto simp: apply_loop_append split: prod.splits sum.splits)
  have ok: "\<forall>a \<in> set as. \<forall>p \<in> set (paths_of a). str_ok p" "\<forall>a \<in> set bs. \<forall>p \<in> set (paths_of a). str_ok p" "str_ok p"
    using assms(4) by auto
  have a1: "app.acts_locally P io J folder (\<Union>a \<in> set as. set (paths_of a)) (t, s) (t1, s1)"
    by (rule app.apply_loop_acts[OF assms(1-3) ok(1) kp l1])
  have s1: "app_port_inv P io s1" "index_wf J (app_port_abs P s1)" using app.acts_ok[OF a1] by auto
  have f1: "file_at t1 (local_names p) = Some (b, m)"
    using app.acts_file[OF a1, of "local_names p"] assms(6,11) by auto
  let ?e = "tombstone rv p (Some e)"
  obtain r2 s2 where p2: "index_put J ?A folder ?e s1 = (r2, s2)" by (meson surj_pair)
  have e: "ie_path ?e = p" "ie_deleted ?e" "ie_content ?e = ie_content e" "relate (ie_version ?e) v = Same"
    using index_view_path[OF assms(2,7)] assms(8-10) vv_merge_behind by (simp_all add: tombstone_def)
  have act: "apply_action J ?A i (length as) folder known rv (Act_Delete p) (o1, t1, s1) =
      (case r2 of Inl x \<Rightarrow> (Inl x, fs_set (local_names p) None t1, s2)
       | Inr _ \<Rightarrow> (Inr (o1\<lparr>oc_deleted := oc_deleted o1 + 1\<rparr>), fs_set (local_names p) None t1, s2))"
    using f1 assms(7,13) p2 k(2) by (simp add: apply_delete_def fs_remove_file_def file_lookup split: sum.splits)
  then have r2: "r2 = Inr ()" and l3: "apply_loop J ?A i (Suc (length as)) folder known rv bs
      (o1\<lparr>oc_deleted := oc_deleted o1 + 1\<rparr>, fs_set (local_names p) None t1, s2) = (Inr out, t', s')"
    using run l1 by (auto simp: apply_loop_append split: sum.splits)
  have v2: "app_port_inv P io s2" "index_wf J (app_port_abs P s2)" "index_view J (app_port_abs P s2) folder p = Some ?e"
    using app.index_put_view[OF s1 assms(3) _ p2] r2 e(1) ok(3) by auto
  have a3: "app.acts_locally P io J folder (\<Union>a \<in> set bs. set (paths_of a)) (fs_set (local_names p) None t1, s2) (t', s')"
    by (rule app.apply_loop_acts[OF v2(1,2) assms(3) ok(2) kp l3])
  have fin: "index_view J (app_port_abs P s') folder p = Some ?e" "file_at t' (local_names p) = file_at (fs_set (local_names p) None t1) (local_names p)"
    using app.acts_view[OF a3, of p] app.acts_file[OF a3, of "local_names p"] assms(6) v2(3) by auto
  then show ?thesis using e file_removed[OF f1 assms(12)] by (auto simp: remote_action_def)
qed

text \<open>
  An applied rename can come back as a conflict: the entry written for the new path carries
  the old path's local version and no modification time, not the version the peer has for the
  new path. If those two versions are not ordered - as when the peer's scan saw the moved file as
  a new one - the next reconciliation with the same peer file reports a conflict for it, and the
  next scan counts the moved file as edited unless its modification time is zero.
\<close>

lemma renamed_file_conflicts:
  assumes "app_port_inv P io s" "index_wf J (app_port_abs P s)" "sync_json_ok J" "str_ok from" "str_ok to"
    "apply_local J (fs_app_port P io) i folder [Act_Rename from to] rv (t, s) = (Inr out, t', s')" "oc_renamed out = 1"
    "index_view J (app_port_abs P s) folder from = Some e" "relate (ie_version e) (rf_version f) = Diverged" "rf_path f = to"
  shows "\<exists>e'. index_view J (app_port_abs P s') folder to = Some e' \<and> ie_version e' = ie_version e \<and> ie_content e' = ie_content e
    \<and> (\<forall>loc peer. map_of loc = index_view J (app_port_abs P s') folder \<longrightarrow>
         remote_action loc peer f = [Act_Conflict to (conflict_name to peer)])
    \<and> (\<forall>sz md. md \<noteq> 0 \<longrightarrow> edited sz md (Some e'))"
proof -
  let ?A = "fs_app_port P io"
  obtain known where k: "index_load J ?A folder s = Inr known" "map_of known = index_view J (app_port_abs P s) folder"
    using app.index_load_view[OF assms(1,2)] by blast
  have run: "apply_rename J ?A i 0 folder known from to (outcome_default, t, s) = (Inr out, t', s')"
    using assms(6) k(1) by (auto simp: apply_local_def split: prod.splits sum.splits)
  let ?e1 = "e\<lparr>ie_deleted := True, ie_size := 0\<rparr>"
  obtain t1 where t1: "rename_tree i 0 from to t = (True, t1)"
    using run assms(7) by (cases "rename_tree i 0 from to t") (auto simp: apply_rename_eq outcome_default_def split: bool.splits)
  let ?e2 = "\<lparr>ie_path = to, ie_size = metadata_len i (local_names to) t1, ie_modified = 0,
       ie_version = ie_version e, ie_content = ie_content e, ie_deleted = False\<rparr>"
  obtain s1 where p1: "index_put J ?A folder ?e1 s = (Inr (), s1)" and p2: "index_put J ?A folder ?e2 s1 = (Inr (), s')"
    using run t1 k(2) assms(8) by (auto simp: apply_rename_eq split: prod.splits sum.splits)
  have pe: "str_ok (ie_path ?e1)" using assms(4) index_view_path[OF assms(2,8)] by simp
  note v1 = app.index_put_view[OF assms(1-3) pe p1]
  have "index_view J (app_port_abs P s') folder to = Some ?e2"
    using app.index_put_view[OF _ _ assms(3) _ p2] v1 assms(5) by auto
  then show ?thesis using assms(9,10)
    by (intro exI[of _ ?e2]) (simp add: remote_action_def edited_def)
qed

section \<open>Settled files\<close>

text \<open>The scans so far, newest first: how often in a row a path was seen as it is now.\<close>

fun streak :: "(string \<times> observed) list list \<Rightarrow> string \<Rightarrow> nat" where
  "streak [] p = 0"
| "streak (scan # older) p =
     (case map_of scan p of
        None \<Rightarrow> 0
      | Some now \<Rightarrow> if older \<noteq> [] \<and> map_of (hd older) p = Some now then Suc (streak older p) else 1)"

fun settling_after :: "(string \<times> observed) list list \<Rightarrow> settling" where
  "settling_after [] = settling_new"
| "settling_after (scan # older) = snd (observe scan (settling_after older))"

definition next_pending :: "settling \<Rightarrow> string \<times> observed \<Rightarrow> bool \<times> pending" where
  "next_pending old = (\<lambda>(path, now).
     let (holds, already) = (case map_of old path of
           Some prev \<Rightarrow> if pd_seen prev = now then (saturating_add (pd_holds prev) 1, pd_reported prev) else (1, False)
         | None \<Rightarrow> (1, False));
         report = (REQUIRED_HOLDS \<le> holds \<and> \<not> already)
     in (report, \<lparr>pd_seen = now, pd_holds = holds, pd_reported = already \<or> report\<rparr>))"

lemma observe_one_eq:
  "observe_one old x (settled, nxt) =
     (if fst (next_pending old x) then settled @ [fst x] else settled, om_insert (fst x) (snd (next_pending old x)) nxt)"
  by (cases x) (simp add: observe_one_def next_pending_def Let_def split: prod.splits)

lemma observe_eq:
  "observe scan old = (sort (map fst (filter (fst \<circ> next_pending old) scan)), om_collect (map (\<lambda>x. (fst x, snd (next_pending old x))) scan))"
proof -
  have "fold (observe_one old) scan (settled, nxt) =
      (settled @ map fst (filter (fst \<circ> next_pending old) scan),
       fold (\<lambda>(k, v). om_insert k v) (map (\<lambda>x. (fst x, snd (next_pending old x))) scan) nxt)" for settled nxt
    by (induction scan arbitrary: settled nxt) (simp_all add: observe_one_eq)
  then show ?thesis by (simp add: observe_def om_collect_def)
qed

text \<open>A count held in a saturating 32-bit counter.\<close>

definition held :: "nat \<Rightarrow> u32" where
  "held n = of_nat (min n (2 ^ 32 - 1))"

lemma unat_held: "unat (held n) = min n (2 ^ 32 - 1)"
  unfolding held_def by (rule unat_small(1)) simp

lemma held_Suc: "saturating_add (held n) 1 = held (Suc n)"
  by (rule word_unat_eq_iff[THEN iffD2]) (simp add: unat_saturating_add unat_held min_def)

lemma held_reached: "REQUIRED_HOLDS \<le> held n \<longleftrightarrow> 2 \<le> n"
  by (simp add: REQUIRED_HOLDS_def word_le_nat_alt unat_held)

lemma held_1: "held 1 = 1" "held (Suc 0) = 1"
  by (simp_all add: held_def)

lemma next_pending_streak:
  assumes "map_of older_st p = (if older \<noteq> [] then (case map_of (hd older) p of None \<Rightarrow> None
      | Some o' \<Rightarrow> Some \<lparr>pd_seen = o', pd_holds = held (streak older p), pd_reported = (2 \<le> streak older p)\<rparr>) else None)"
    "map_of scan p = Some now"
  shows "next_pending older_st (p, now) = (streak (scan # older) p = 2,
    \<lparr>pd_seen = now, pd_holds = held (streak (scan # older) p), pd_reported = (2 \<le> streak (scan # older) p)\<rparr>)"
proof (cases "older \<noteq> [] \<and> map_of (hd older) p = Some now")
  case True
  let ?k = "streak older p"
  have pos: "1 \<le> ?k" using True by (cases older) (auto split: if_splits)
  show ?thesis using True assms pos by (auto simp: next_pending_def held_Suc held_reached)
next
  case False
  have "\<not> REQUIRED_HOLDS \<le> 1" using held_reached[of 1] by (simp add: held_1)
  then show ?thesis using False assms by (auto simp: next_pending_def held_1 split: option.splits if_splits)
qed

lemma settling_state:
  assumes "\<forall>scan \<in> set hist. distinct (map fst scan)"
  shows "map_of (settling_after hist) p = (if hist \<noteq> [] then (case map_of (hd hist) p of None \<Rightarrow> None
      | Some o' \<Rightarrow> Some \<lparr>pd_seen = o', pd_holds = held (streak hist p), pd_reported = (2 \<le> streak hist p)\<rparr>) else None)"
  using assms
proof (induction hist)
  case (Cons scan older)
  then have st: "map_of (settling_after older) p = (if older \<noteq> [] then (case map_of (hd older) p of None \<Rightarrow> None
      | Some o' \<Rightarrow> Some \<lparr>pd_seen = o', pd_holds = held (streak older p), pd_reported = (2 \<le> streak older p)\<rparr>) else None)" by simp
  have "map_of (map (\<lambda>x. (fst x, snd (next_pending (settling_after older) x))) xs) p =
      map_option (\<lambda>now. snd (next_pending (settling_after older) (p, now))) (map_of xs p)" for xs
    by (induction xs) auto
  moreover have "distinct (map fst scan)" using Cons.prems by simp
  ultimately have "map_of (settling_after (scan # older)) p = map_option (\<lambda>now. snd (next_pending (settling_after older) (p, now))) (map_of scan p)"
    by (simp add: observe_eq map_of_om_collect map_of_rev_distinct comp_def)
  then show ?case using next_pending_streak[OF st] by (auto split: option.splits)
qed (simp add: settling_new_def)

text \<open>
  A changing file is reported exactly when it has settled: for any history of scans, the
  next scan reports a path precisely when it sees the same size and modification time for the
  second time in a row - so a file that keeps changing is never reported, one that settled is
  reported once, and again only after it changed or vanished and settled anew - and the
  saturating 32-bit counter never brings a report back. The files counted as still moving are
  those of the last scan not yet seen twice.
\<close>

lemma settled_files_reported_once:
  assumes "\<forall>scan \<in> set (scan # hist). distinct (map fst scan)"
  shows "set (fst (observe scan (settling_after hist))) = {p. streak (scan # hist) p = 2}
    \<and> sorted (fst (observe scan (settling_after hist))) \<and> distinct (fst (observe scan (settling_after hist)))
    \<and> unsettled (settling_after (scan # hist)) = card {p. streak (scan # hist) p = 1}"
proof -
  let ?st = "settling_after hist"
  have d: "distinct (map fst scan)" "\<forall>scan \<in> set hist. distinct (map fst scan)" using assms by auto
  have np: "fst (next_pending ?st (p, now)) \<longleftrightarrow> streak (scan # hist) p = 2" if "(p, now) \<in> set scan" for p now
    using next_pending_streak[OF settling_state[OF d(2)], of scan p now] d(1) that by simp
  have st0: "streak (scan # hist) p \<noteq> 0 \<longleftrightarrow> p \<in> fst ` set scan" for p
    using map_of_eq_None_iff[of scan p] by (auto split: option.splits)
  have s1: "set (fst (observe scan ?st)) = {p. streak (scan # hist) p = 2}"
  proof (rule set_eqI)
    fix p
    have "p \<in> set (fst (observe scan ?st)) \<longleftrightarrow> (\<exists>now. (p, now) \<in> set scan \<and> fst (next_pending ?st (p, now)))"
      by (force simp: observe_eq)
    also have "\<dots> \<longleftrightarrow> (\<exists>now. (p, now) \<in> set scan) \<and> streak (scan # hist) p = 2" using np by blast
    also have "(\<exists>now. (p, now) \<in> set scan) \<longleftrightarrow> streak (scan # hist) p \<noteq> 0" unfolding st0 by force
    also have "streak (scan # hist) p \<noteq> 0 \<and> streak (scan # hist) p = 2 \<longleftrightarrow> streak (scan # hist) p = 2" by linarith
    finally show "p \<in> set (fst (observe scan ?st)) \<longleftrightarrow> p \<in> {p. streak (scan # hist) p = 2}" by simp
  qed
  have "settling_after (scan # hist) = om_collect (map (\<lambda>x. (fst x, snd (next_pending ?st x))) scan)"
    by (simp add: observe_eq)
  then have inv: "om_inv (settling_after (scan # hist))" by (simp only: om_inv_collect)
  have dk: "distinct (map fst (settling_after (scan # hist)))" by (rule om_inv_distinct[OF inv])
  have "unsettled (settling_after (scan # hist)) = card (fst ` set (filter (\<lambda>(_, p). \<not> pd_reported p) (settling_after (scan # hist))))"
    using distinct_map_filter[OF dk] distinct_card[of "map fst (filter (\<lambda>(_, p). \<not> pd_reported p) (settling_after (scan # hist)))"]
    by (simp add: unsettled_def)
  also have "fst ` set (filter (\<lambda>(_, p). \<not> pd_reported p) (settling_after (scan # hist))) = {p. streak (scan # hist) p = 1}"
  proof (rule set_eqI)
    fix p
    have "p \<in> fst ` set (filter (\<lambda>(_, p). \<not> pd_reported p) (settling_after (scan # hist)))
        \<longleftrightarrow> (\<exists>q. map_of (settling_after (scan # hist)) p = Some q \<and> \<not> pd_reported q)"
      unfolding map_of_eq_Some_iff[OF dk] by force
    also have "\<dots> \<longleftrightarrow> streak (scan # hist) p = 1"
      unfolding settling_state[OF assms] using st0[of p] map_of_eq_None_iff[of scan p] by (auto split: option.splits)
    finally show "p \<in> fst ` set (filter (\<lambda>(_, p). \<not> pd_reported p) (settling_after (scan # hist))) \<longleftrightarrow> p \<in> {p. streak (scan # hist) p = 1}" by simp
  qed
  finally show ?thesis using s1 d(1) distinct_map_filter[OF d(1)] by (simp add: observe_eq)
qed

lemma settled_files_reported_once_witness:
  "let a = \<lparr>ob_size = 1, ob_modified = 0\<rparr>; b = \<lparr>ob_size = 2, ob_modified = 0\<rparr>
   in set (fst (observe [(''f'', b)] (settling_after [[(''f'', b)], [(''f'', a)]]))) = {''f''}"
proof -
  have "{p. streak [[(''f'', \<lparr>ob_size = 2, ob_modified = 0\<rparr>)], [(''f'', \<lparr>ob_size = 2, ob_modified = 0\<rparr>)], [(''f'', \<lparr>ob_size = 1, ob_modified = 0\<rparr>)]] p = 2} = {''f''}"
    by auto
  then show ?thesis
    using settled_files_reported_once[of "[(''f'', \<lparr>ob_size = 2, ob_modified = 0\<rparr>)]" "[[(''f'', \<lparr>ob_size = 2, ob_modified = 0\<rparr>)], [(''f'', \<lparr>ob_size = 1, ob_modified = 0\<rparr>)]]"]
    by (simp add: Let_def)
qed

section \<open>Witnesses\<close>

text \<open>A JSON coding of a fixed list of entries: the position of the entry in the list.\<close>

definition listed_json :: "index_entry list \<Rightarrow> sync_json" where
  "listed_json es = \<lparr>sj_entry = (\<lambda>e. if e \<in> set es then Inr (replicate (length (takeWhile (\<lambda>x. x \<noteq> e) es)) 0) else Inl []),
     sj_entry_of = (\<lambda>b. if length b < length es then Some (es ! length b) else None),
     sj_chunks = (\<lambda>_. Inl []), sj_chunks_of = (\<lambda>_. None)\<rparr>"

lemma listed_json_ok: "sync_json_ok (listed_json es)"
proof -
  have "length (takeWhile (\<lambda>x. x \<noteq> e) es) < length es \<and> es ! length (takeWhile (\<lambda>x. x \<noteq> e) es) = e" if "e \<in> set es" for e
    using that by (induction es) auto
  then show ?thesis by (auto simp: sync_json_ok_def listed_json_def)
qed

text \<open>A store whose index holds one entry.\<close>

lemma toy_index_put:
  assumes "app_port_inv toy_prims (\<lambda>_. toy_put_io) st" "no_leftover (fst st)" "index_wf J (app_port_abs toy_prims st)" "sync_json_ok J"
    "sj_entry J e = Inr b" "str_ok (ie_path e)"
  shows "\<exists>st'. index_put J toy_port folder e st = (Inr (), st') \<and> app_port_inv toy_prims (\<lambda>_. toy_put_io) st' \<and> no_leftover (fst st')
    \<and> index_wf J (app_port_abs toy_prims st')
    \<and> index_view J (app_port_abs toy_prims st') = (index_view J (app_port_abs toy_prims st))(folder := (index_view J (app_port_abs toy_prims st) folder)(ie_path e \<mapsto> e))"
proof -
  obtain s n where st: "st = (s, n)" by fastforce
  obtain s' where s': "app_put toy_prims toy_put_io (index_namespace folder) (record_key (ie_path e)) b s = (Inr (), s')" "no_leftover s'"
    using toy_put_ok[of s "index_namespace folder" "record_key (ie_path e)" b] assms(1,2,6) str_ok_record_key
    by (auto simp: st app_port_inv_def)
  then have p: "index_put J toy_port folder e st = (Inr (), (s', Suc n))" using assms(5) by (simp add: index_put_def st fs_app_port_def)
  from app.index_put_view[OF assms(1,3,4,6) p] s'(2) p show ?thesis by auto
qed

lemma toy_no_leftover: "no_leftover toy_app"
  by (simp add: no_leftover_def toy_app_def)

lemma toy_names: "local_names ''f'' = [''f'']" "local_names ''g'' = [''g'']"
  by (simp_all add: local_names_def local_path_def local_segment_def components_unix_def Let_def List.map_filter_def)

lemma apply_stays_in_plan_witness:
  "file_at (fst (snd (apply_local toy_sync_json toy_port \<lparr>ai_mkdir = \<lambda>_. True, ai_rename = \<lambda>_. True, ai_remove = \<lambda>_. True, ai_dir_len = 0\<rparr>
     ''s'' [Act_Delete ''g'', Act_Conflict ''f'' ''h''] [] (toy_folder, (toy_app, 0))))) [''f''] = Some ([5], 0)"
proof -
  let ?i = "\<lparr>ai_mkdir = \<lambda>_. True, ai_rename = \<lambda>_. True, ai_remove = \<lambda>_. True, ai_dir_len = 0\<rparr>"
  obtain r t' s' where a: "apply_local toy_sync_json toy_port ?i ''s'' [Act_Delete ''g'', Act_Conflict ''f'' ''h''] [] (toy_folder, (toy_app, 0)) = (r, t', s')"
    by (metis prod_cases3)
  have w: "index_wf toy_sync_json (app_port_abs toy_prims (toy_app, 0))" by (simp add: toy_port_inv(2) index_wf_def)
  have st: "\<forall>x \<in> set [Act_Delete ''g'', Act_Conflict ''f'' ''h'']. \<forall>p \<in> set (paths_of x). str_ok p" by (simp add: str_bytes_def unat_of_char)
  have "file_at t' [''f''] = file_at toy_folder [''f'']"
    using apply_stays_in_plan[OF toy_port_inv(1) w toy_json_sync st a] by (simp add: toy_names)
  then show ?thesis using a by (simp add: toy_folder_def)
qed

lemma applied_delete_settles_witness:
  "\<exists>s t' s' out. index_view (listed_json [toy_entry_f, tombstone [(''f'', [(''d'', 2)])] ''f'' (Some toy_entry_f)]) (app_port_abs toy_prims s) ''s'' ''f'' = Some toy_entry_f
     \<and> apply_local (listed_json [toy_entry_f, tombstone [(''f'', [(''d'', 2)])] ''f'' (Some toy_entry_f)]) toy_port
         \<lparr>ai_mkdir = \<lambda>_. True, ai_rename = \<lambda>_. True, ai_remove = \<lambda>_. True, ai_dir_len = 0\<rparr>
         ''s'' [Act_Delete ''f''] [(''f'', [(''d'', 2)])] (toy_folder, s) = (Inr out, t', s')
     \<and> file_at t' [''f''] = None"
proof -
  let ?rv = "[(''f'', [(''d'', 2 :: u64)])]"
  let ?e = "tombstone ?rv ''f'' (Some toy_entry_f)"
  let ?J = "listed_json [toy_entry_f, ?e]"
  let ?i = "\<lparr>ai_mkdir = \<lambda>_. True, ai_rename = \<lambda>_. True, ai_remove = \<lambda>_. True, ai_dir_len = 0\<rparr>"
  note f = toy_names(1)
  have str: "str_ok ''f''" by (simp add: str_bytes_def unat_of_char)
  have pe: "ie_path toy_entry_f = ''f''" "ie_path ?e = ''f''" by (simp_all add: toy_entry_f_def tombstone_def)
  have w0: "index_wf ?J (app_port_abs toy_prims (toy_app, 0))" by (simp add: toy_port_inv(2) index_wf_def)
  obtain b1 b2 where b: "sj_entry ?J toy_entry_f = Inr b1" "sj_entry ?J ?e = Inr b2" by (simp add: listed_json_def)
  obtain s where s: "app_port_inv toy_prims (\<lambda>_. toy_put_io) s" "no_leftover (fst s)" "index_wf ?J (app_port_abs toy_prims s)"
    "index_view ?J (app_port_abs toy_prims s) ''s'' ''f'' = Some toy_entry_f"
    using toy_index_put[OF toy_port_inv(1) _ w0 listed_json_ok b(1), of "''s''"] toy_no_leftover pe(1) str by auto
  obtain s' where p: "index_put ?J toy_port ''s'' ?e s = (Inr (), s')"
    using toy_index_put[OF s(1-3) listed_json_ok b(2), of "''s''"] pe(2) str by auto
  obtain known where k: "index_load ?J toy_port ''s'' s = Inr known" "map_of known ''f'' = Some toy_entry_f"
    using app.index_load_view[OF s(1,3), of "''s''"] s(4) by auto
  obtain out t' where a: "apply_local ?J toy_port ?i ''s'' ([] @ Act_Delete ''f'' # []) ?rv (toy_folder, s) = (Inr out, t', s')"
    using k p by (simp add: apply_local_def apply_delete_def f toy_folder_def fs_remove_file_def)
  have le: "vv_le (ie_version toy_entry_f) [(''d'', 2)]" by (simp add: vv_le_def vv_get_def toy_entry_f_def)
  have "file_at t' (local_names ''f'') = None"
    using applied_delete_settles[OF s(1,3) listed_json_ok _ a, of toy_entry_f "[(''d'', 2)]" "[5]" 0] s(4) le str f
    by (simp add: toy_folder_def om_inv_def)
  then show ?thesis using s(4) a f by (metis append_Nil)
qed

lemma renamed_file_conflicts_witness:
  "\<exists>J s t' s' out loc. apply_local J toy_port \<lparr>ai_mkdir = \<lambda>_. True, ai_rename = \<lambda>_. True, ai_remove = \<lambda>_. True, ai_dir_len = 0\<rparr>
         ''s'' [Act_Rename ''f'' ''g''] [] (toy_folder, s) = (Inr out, t', s')
     \<and> index_load J toy_port ''s'' s' = Inr loc
     \<and> remote_action loc ''p'' \<lparr>rf_path = ''g'', rf_size = 1, rf_version = [(''p'', 1)], rf_content = chunk_hash toy_prims [5], rf_deleted = False\<rparr>
         = [Act_Conflict ''g'' (conflict_name ''g'' ''p'')]"
proof -
  let ?e1 = "toy_entry_f\<lparr>ie_deleted := True, ie_size := 0\<rparr>"
  let ?e2 = "\<lparr>ie_path = ''g'', ie_size = 1, ie_modified = 0, ie_version = ie_version toy_entry_f, ie_content = ie_content toy_entry_f, ie_deleted = False\<rparr>"
  let ?J = "listed_json [toy_entry_f, ?e1, ?e2]"
  let ?i = "\<lparr>ai_mkdir = \<lambda>_. True, ai_rename = \<lambda>_. True, ai_remove = \<lambda>_. True, ai_dir_len = 0\<rparr>"
  let ?f = "\<lparr>rf_path = ''g'', rf_size = 1, rf_version = [(''p'', 1)], rf_content = chunk_hash toy_prims [5], rf_deleted = False\<rparr>"
  have str: "str_ok ''f''" "str_ok ''g''" by (simp_all add: str_bytes_def unat_of_char)
  have pe: "ie_path toy_entry_f = ''f''" "ie_path ?e1 = ''f''" by (simp_all add: toy_entry_f_def)
  have w0: "index_wf ?J (app_port_abs toy_prims (toy_app, 0))" by (simp add: toy_port_inv(2) index_wf_def)
  obtain b1 b2 b3 where b: "sj_entry ?J toy_entry_f = Inr b1" "sj_entry ?J ?e1 = Inr b2" "sj_entry ?J ?e2 = Inr b3"
    by (simp add: listed_json_def)
  obtain s where s: "app_port_inv toy_prims (\<lambda>_. toy_put_io) s" "no_leftover (fst s)" "index_wf ?J (app_port_abs toy_prims s)"
    "index_view ?J (app_port_abs toy_prims s) ''s'' ''f'' = Some toy_entry_f"
    using toy_index_put[OF toy_port_inv(1) _ w0 listed_json_ok b(1), of "''s''"] toy_no_leftover pe(1) str by auto
  obtain s1 where s1: "index_put ?J toy_port ''s'' ?e1 s = (Inr (), s1)" "app_port_inv toy_prims (\<lambda>_. toy_put_io) s1" "no_leftover (fst s1)"
    "index_wf ?J (app_port_abs toy_prims s1)" using toy_index_put[OF s(1-3) listed_json_ok b(2), of "''s''"] pe(2) str by auto
  obtain s' where s': "index_put ?J toy_port ''s'' ?e2 s1 = (Inr (), s')" "app_port_inv toy_prims (\<lambda>_. toy_put_io) s'" "index_wf ?J (app_port_abs toy_prims s')"
    using toy_index_put[OF s1(2-4) listed_json_ok b(3), of "''s''"] str by auto
  obtain known where k: "index_load ?J toy_port ''s'' s = Inr known" "map_of known ''f'' = Some toy_entry_f"
    using app.index_load_view[OF s(1,3), of "''s''"] s(4) by auto
  have tr: "rename_tree ?i 0 ''f'' ''g'' toy_folder = (True, Some (DirN [(''g'', FileN [5] 0)]))"
    by (simp add: rename_tree_def toy_names toy_folder_def fs_rename_def Let_def fs_is_dir_def)
  have a: "apply_local ?J toy_port ?i ''s'' [Act_Rename ''f'' ''g''] [] (toy_folder, s) = (Inr (outcome_default\<lparr>oc_renamed := 1\<rparr>), Some (DirN [(''g'', FileN [5] 0)]), s')"
    using k s1(1) s'(1) by (simp add: apply_local_def apply_rename_eq tr metadata_len_def toy_names outcome_default_def)
  obtain loc where loc: "index_load ?J toy_port ''s'' s' = Inr loc" "map_of loc = index_view ?J (app_port_abs toy_prims s') ''s''"
    using app.index_load_view[OF s'(2,3), of "''s''"] by auto
  have "relate (ie_version toy_entry_f) (rf_version ?f) = Diverged" by (simp add: relate_def relate_step_def vv_get_def toy_entry_f_def om_keys_def)
  then have "remote_action loc ''p'' ?f = [Act_Conflict ''g'' (conflict_name ''g'' ''p'')]"
    using renamed_file_conflicts[OF s(1,3) listed_json_ok str a _ s(4), of ?f] loc(2) by auto
  then show ?thesis using a loc(1) by blast
qed

end
