(* ===== verification/PB_Storage.thy ===== *)
theory PB_Storage
  imports PB_Session_Types PB_Fs
begin

text \<open>
  The file-system storage provider (\<open>peerbeam-storage-fs/src/lib.rs\<close>) behind the
  \<open>StorageProvider\<close> port (\<open>peerbeam-domain/src/port/storage.rs\<close>), over the tree of \<open>PB_Fs\<close>.

  A path is a directory, given as its names from the root, and a name in it. The provider's state
  is the tree and a counter of the calls made to the device; whether the device serves the n-th
  call, and how many bytes of a failed write it kept, is an argument (\<open>dev\<close>). Symbolic links on
  the way are not followed. Operating-system error texts are left out of the messages.

  Shown here: what each call does to the files of the tree, that reserving a free name always
  ends, and that publishing a finished file never overwrites one.
\<close>

section \<open>Paths and the device\<close>

type_synonym fpath = "string list \<times> string"

definition fp_names :: "fpath \<Rightarrow> string list" where
  "fp_names p = fst p @ [snd p]"

record dev =
  d_ok :: "nat \<Rightarrow> bool"
  d_kept :: "nat \<Rightarrow> nat"
  d_now :: int
  d_dir_len :: u64

record disk =
  dk_root :: "fs_node option"
  dk_calls :: nat

definition tick :: "disk \<Rightarrow> disk" where
  "tick s = s\<lparr>dk_calls := Suc (dk_calls s)\<rparr>"

definition served :: "dev \<Rightarrow> disk \<Rightarrow> bool" where
  "served D s = d_ok D (dk_calls s)"

definition put_node :: "fpath \<Rightarrow> fs_node \<Rightarrow> disk \<Rightarrow> disk" where
  "put_node p n s = s\<lparr>dk_root := fs_set (fp_names p) (Some n) (dk_root s)\<rparr>"

section \<open>Streams\<close>

text \<open>\<open>create_dir_all\<close> of the parent.\<close>

definition create_parent :: "dev \<Rightarrow> fpath \<Rightarrow> disk \<Rightarrow> (domain_error, unit) result \<times> disk" where
  "create_parent D p s =
     (case (if served D s then fs_mkdirs (fst p) (dk_root s) else None) of
        None \<Rightarrow> (Inl (EStorage ''create dir''), tick s)
      | Some t \<Rightarrow> (Inr (), tick (s\<lparr>dk_root := Some t\<rparr>)))"

definition open_write :: "dev \<Rightarrow> fpath \<Rightarrow> disk \<Rightarrow> (domain_error, unit) result \<times> disk" where
  "open_write D p s =
     (case create_parent D p s of
        (Inl e, s) \<Rightarrow> (Inl e, s)
      | (Inr _, s) \<Rightarrow>
          (case fs_lookup (fp_names p) (dk_root s) of
             IoOk (FileN b m) \<Rightarrow>
               if served D s then (Inr (), tick (put_node p (FileN [] (d_now D)) s)) else (Inl (EStorage ''create''), tick s)
           | IoNotFound \<Rightarrow>
               if served D s then (Inr (), tick (put_node p (FileN [] (d_now D)) s)) else (Inl (EStorage ''create''), tick s)
           | _ \<Rightarrow> (Inl (EStorage ''create''), tick s)))"

definition open_append :: "dev \<Rightarrow> fpath \<Rightarrow> disk \<Rightarrow> (domain_error, unit) result \<times> disk" where
  "open_append D p s =
     (case create_parent D p s of
        (Inl e, s) \<Rightarrow> (Inl e, s)
      | (Inr _, s) \<Rightarrow>
          (case fs_lookup (fp_names p) (dk_root s) of
             IoOk (FileN b m) \<Rightarrow> if served D s then (Inr (), tick s) else (Inl (EStorage ''append''), tick s)
           | IoNotFound \<Rightarrow>
               if served D s then (Inr (), tick (put_node p (FileN [] (d_now D)) s)) else (Inl (EStorage ''append''), tick s)
           | _ \<Rightarrow> (Inl (EStorage ''append''), tick s)))"

text \<open>A reader is what is left to read.\<close>

definition open_read :: "dev \<Rightarrow> fpath \<Rightarrow> u64 \<Rightarrow> disk \<Rightarrow> (domain_error, bytes) result \<times> disk" where
  "open_read D p off s =
     (case fs_read (fp_names p) (dk_root s) of
        IoOk b \<Rightarrow> if served D s then (Inr (drop (unat off) b), tick s) else (Inl (EStorage ''open''), tick s)
      | _ \<Rightarrow> (Inl (EStorage ''open''), tick s))"

definition storage_size :: "dev \<Rightarrow> fpath \<Rightarrow> disk \<Rightarrow> (domain_error, u64 option) result \<times> disk" where
  "storage_size D p s =
     (if \<not> served D s then (Inl (EStorage ''stat''), tick s)
      else (case fs_lookup (fp_names p) (dk_root s) of
              IoOk (FileN b m) \<Rightarrow> Inr (Some (of_nat (length b)))
            | IoOk (DirN es) \<Rightarrow> Inr (Some (d_dir_len D))
            | IoNotFound \<Rightarrow> Inr None
            | _ \<Rightarrow> Inl (EStorage ''stat''), tick s))"

text \<open>
  The writer returned by \<open>open_write\<close> and \<open>open_append\<close> adds at the end of its file. A failed
  write leaves some of its bytes; a failed flush may lose bytes that were accepted before.
\<close>

definition write_all :: "dev \<Rightarrow> fpath \<Rightarrow> bytes \<Rightarrow> disk \<Rightarrow> (domain_error, unit) result \<times> disk" where
  "write_all D p bs s =
     (case fs_lookup (fp_names p) (dk_root s) of
        IoOk (FileN b m) \<Rightarrow>
          if served D s then (Inr (), tick (put_node p (FileN (b @ bs) (d_now D)) s))
          else (Inl (EStorage ''write chunk''), tick (put_node p (FileN (b @ take (d_kept D (dk_calls s)) bs) (d_now D)) s))
      | _ \<Rightarrow> (if served D s then Inr () else Inl (EStorage ''write chunk''), tick s))"

definition flush_file :: "dev \<Rightarrow> fpath \<Rightarrow> disk \<Rightarrow> (domain_error, unit) result \<times> disk" where
  "flush_file D p s =
     (if served D s then (Inr (), tick s)
      else (Inl (EStorage ''flush''),
        tick (case fs_lookup (fp_names p) (dk_root s) of
                IoOk (FileN b m) \<Rightarrow> put_node p (FileN (take (d_kept D (dk_calls s)) b) (d_now D)) s | _ \<Rightarrow> s)))"

definition close_file :: "dev \<Rightarrow> disk \<Rightarrow> (domain_error, unit) result \<times> disk" where
  "close_file D s = (if served D s then Inr () else Inl (EStorage ''close''), tick s)"

definition remove_file :: "dev \<Rightarrow> fpath \<Rightarrow> disk \<Rightarrow> bool \<times> disk" where
  "remove_file D p s =
     (case (if served D s then fs_remove_file (fp_names p) (dk_root s) else (IoErr, dk_root s)) of
        (IoOk _, t) \<Rightarrow> (True, tick (s\<lparr>dk_root := t\<rparr>)) | (_, t) \<Rightarrow> (False, tick s))"

section \<open>Publishing\<close>

text \<open>\<open>rsplit_once\<close>: the parts before and after the last occurrence.\<close>

fun rsplit_once :: "char \<Rightarrow> string \<Rightarrow> (string \<times> string) option" where
  "rsplit_once c [] = None"
| "rsplit_once c (x # s) =
     (case rsplit_once c s of
        Some (a, b) \<Rightarrow> Some (x # a, b)
      | None \<Rightarrow> if x = c then Some ([], s) else None)"

text \<open>
  The stem and the extension of a file name, as \<open>Path::file_stem\<close> and \<open>Path::extension\<close> give
  them: split at the last dot, unless nothing is before it.
\<close>

definition name_parts :: "string \<Rightarrow> string \<times> string option" where
  "name_parts name =
     (case rsplit_once (CHR ''.'') name of
        Some (stem, ext) \<Rightarrow> if stem \<noteq> [] then (stem, Some ext) else (name, None)
      | None \<Rightarrow> (name, None))"

definition numbered :: "nat \<Rightarrow> string \<Rightarrow> string" where
  "numbered n name =
     (case name_parts name of
        (stem, Some ext) \<Rightarrow> stem @ '' ('' @ show_nat n @ '').'' @ ext
      | (stem, None) \<Rightarrow> stem @ '' ('' @ show_nat n @ '')'')"

definition promote :: "dev \<Rightarrow> fpath \<Rightarrow> fpath \<Rightarrow> disk \<Rightarrow> (domain_error, unit) result \<times> disk" where
  "promote D temp final s =
     (if \<not> served D s \<or> (case fs_lookup (fp_names temp) (dk_root s) of IoOk _ \<Rightarrow> False | _ \<Rightarrow> True) then (Inl (EStorage ''set perms''), tick s)
      else let s = tick s in
        case (if served D s then fs_rename (fp_names temp) (fp_names final) (dk_root s) else (False, dk_root s)) of
          (True, t) \<Rightarrow> (Inr (), tick (s\<lparr>dk_root := t\<rparr>))
        | (False, t) \<Rightarrow> (Inl (EStorage ''finalize''), tick s))"

text \<open>\<open>O_CREAT | O_EXCL\<close>.\<close>

definition try_reserve :: "dev \<Rightarrow> fpath \<Rightarrow> disk \<Rightarrow> (domain_error, bool) result \<times> disk" where
  "try_reserve D p s =
     (if \<not> served D s then (Inl (EStorage ''reserve''), tick s)
      else case fs_lookup (fp_names p) (dk_root s) of
             IoOk n \<Rightarrow> (Inr False, tick s)
           | IoNotFound \<Rightarrow>
               if fs_is_dir (fst p) (dk_root s) then (Inr True, tick (put_node p (FileN [] (d_now D)) s))
               else (Inl (EStorage ''reserve''), tick s)
           | IoErr \<Rightarrow> (Inl (EStorage ''reserve''), tick s))"

text \<open>
  The candidates \<open>name (1)\<close>, \<open>name (2)\<close> and so on, until one is free. Candidates differ, so a
  directory of finitely many entries has a free one and the loop ends.
\<close>

definition taken_from :: "fpath \<Rightarrow> nat \<Rightarrow> disk \<Rightarrow> nat set" where
  "taken_from dest n s = {k. n \<le> k \<and> (\<exists>x. fs_lookup (fst dest @ [numbered k (snd dest)]) (dk_root s) = IoOk x)}"

lemma show_nat_ne: "show_nat n \<noteq> []" "[] \<noteq> show_nat n"
  by (simp_all add: show_nat.simps)

lemma digit_inject: "a < 10 \<Longrightarrow> b < 10 \<Longrightarrow> char_of (48 + a :: nat) = (char_of (48 + b) :: char) \<Longrightarrow> a = b"
  by (drule arg_cong[of _ _ "of_char :: char \<Rightarrow> nat"]) (simp add: of_char_of)

lemma show_nat_inject: "show_nat a = show_nat b \<Longrightarrow> a = b"
proof (induction a arbitrary: b rule: show_nat.induct)
  case (1 a)
  show ?case
  proof (cases "a < 10 \<or> b < 10")
    case True
    then show ?thesis using 1(2) digit_inject[of a b] by (auto simp: show_nat.simps[of a] show_nat.simps[of b] show_nat_ne split: if_splits)
  next
    case False
    then have "show_nat (a div 10) @ [char_of (48 + a mod 10)] = show_nat (b div 10) @ [char_of (48 + b mod 10)]"
      using 1(2) by (simp add: show_nat.simps[of a] show_nat.simps[of b])
    then have "a div 10 = b div 10" "a mod 10 = b mod 10" using 1(1) False digit_inject[of "a mod 10" "b mod 10"] by auto
    then show ?thesis by (metis div_mult_mod_eq)
  qed
qed

lemma numbered_inject: "numbered a name = numbered b name \<Longrightarrow> a = b"
  by (auto simp: numbered_def split: prod.splits option.splits dest: show_nat_inject)

lemma finite_taken: "finite (taken_from dest n s)"
proof (cases "fs_read_dir (fst dest) (dk_root s)")
  case (IoOk es)
  have "taken_from dest n s \<subseteq> {k. numbered k (snd dest) \<in> fst ` set es}"
    using read_dir_lookup[OF IoOk] by (auto simp: taken_from_def split: option.splits dest!: map_of_SomeD intro: rev_image_eqI)
  moreover have "finite {k. numbered k (snd dest) \<in> fst ` set es}"
    using numbered_inject by (intro finite_vimageI[of "fst ` set es" "\<lambda>k. numbered k (snd dest)", unfolded vimage_def] injI) auto
  ultimately show ?thesis by (rule finite_subset)
next
  case IoNotFound
  have "fs_read_dir p t = IoNotFound \<Longrightarrow> fs_lookup (p @ [x]) t \<noteq> IoOk y" for p t x y
    by (induction p t rule: fs_lookup.induct) (auto simp: fs_read_dir_def split: fs_node.splits)
  then show ?thesis using IoNotFound by (simp add: taken_from_def)
next
  case IoErr
  have "fs_read_dir p t = IoErr \<Longrightarrow> fs_lookup (p @ [x]) t \<noteq> IoOk y" for p t x y
    by (induction p t rule: fs_lookup.induct) (auto simp: fs_read_dir_def split: fs_node.splits)
  then show ?thesis using IoErr by (simp add: taken_from_def)
qed

lemma taken_less:
  assumes "(Inr False, s') = try_reserve D (fst dest, numbered n (snd dest)) s"
  shows "card (taken_from dest (Suc n) s') < card (taken_from dest n s)"
proof -
  have "dk_root s' = dk_root s" "\<exists>x. fs_lookup (fst dest @ [numbered n (snd dest)]) (dk_root s) = IoOk x"
    using assms by (auto simp: try_reserve_def tick_def fp_names_def split: if_splits io_res.splits)
  then have "n \<in> taken_from dest n s" "taken_from dest (Suc n) s' = taken_from dest n s - {n}"
    by (auto simp: taken_from_def)
  then show ?thesis using card_Diff1_less[OF finite_taken, of n dest n s] by simp
qed

function reserve_loop :: "dev \<Rightarrow> fpath \<Rightarrow> nat \<Rightarrow> disk \<Rightarrow> (domain_error, fpath) result \<times> disk" where
  "reserve_loop D dest n s =
     (let candidate = (fst dest, numbered n (snd dest)) in
      case try_reserve D candidate s of
        (Inl e, s) \<Rightarrow> (Inl e, s)
      | (Inr True, s) \<Rightarrow> (Inr candidate, s)
      | (Inr False, s) \<Rightarrow> reserve_loop D dest (Suc n) s)"
  by pat_completeness auto
termination
  by (relation "measure (\<lambda>(D, dest, n, s). card (taken_from dest n s))") (auto intro!: taken_less)

declare reserve_loop.simps [simp del]

definition unique_path :: "dev \<Rightarrow> fpath \<Rightarrow> disk \<Rightarrow> (domain_error, fpath) result \<times> disk" where
  "unique_path D dest s =
     (case try_reserve D dest s of
        (Inl e, s) \<Rightarrow> (Inl e, s)
      | (Inr True, s) \<Rightarrow> (Inr dest, s)
      | (Inr False, s) \<Rightarrow> reserve_loop D dest 1 s)"

definition finalize :: "dev \<Rightarrow> fpath \<Rightarrow> fpath \<Rightarrow> disk \<Rightarrow> (domain_error, fpath) result \<times> disk" where
  "finalize D temp dest s =
     (case unique_path D dest s of
        (Inl e, s) \<Rightarrow> (Inl e, s)
      | (Inr final, s) \<Rightarrow>
          (case promote D temp final s of
             (Inr _, s) \<Rightarrow> (Inr final, s)
           | (Inl e, s) \<Rightarrow> (Inl e, snd (remove_file D final s))))"

definition finalize_replacing :: "dev \<Rightarrow> fpath \<Rightarrow> fpath \<Rightarrow> disk \<Rightarrow> (domain_error, fpath) result \<times> disk" where
  "finalize_replacing D temp dest s =
     (case promote D temp dest s of
        (Inr _, s) \<Rightarrow> (Inr dest, s)
      | (Inl first, s) \<Rightarrow>
          (case storage_size D dest s of
             (Inr (Some _), s) \<Rightarrow>
               (case remove_file D dest s of
                  (False, s) \<Rightarrow> (Inl (EStorage ''replace''), s)
                | (True, s) \<Rightarrow> (case promote D temp dest s of (r, s) \<Rightarrow> (rbind r (\<lambda>_. Inr dest), s)))
           | (_, s) \<Rightarrow> (Inl first, s)))"

section \<open>What the calls do to the files\<close>

definition dfiles :: "disk \<Rightarrow> string list \<Rightarrow> bytes option" where
  "dfiles s = fs_files (dk_root s)"

lemma tick_simps [simp]: "dk_root (tick s) = dk_root s" "dfiles (tick s) = dfiles s" "dfiles (s\<lparr>dk_root := t\<rparr>) = fs_files t"
  by (simp_all add: tick_def dfiles_def)

lemma fp_names_simps [simp]: "fp_names p \<noteq> []" "butlast (fp_names p) = fst p" "fp_names p = fp_names q \<longleftrightarrow> p = q"
  by (auto simp: fp_names_def prod_eq_iff)

lemma lookup_parent: "fs_lookup p t = IoOk n \<Longrightarrow> p \<noteq> [] \<Longrightarrow> fs_is_dir (butlast p) t"
  by (induction p t rule: fs_lookup.induct) (auto simp: fs_is_dir_def neq_Nil_conv split: option.splits)

lemma dfiles_put:
  assumes "fs_is_dir (fst p) (dk_root s)" "\<not> fs_is_dir (fp_names p) (dk_root s)"
  shows "dfiles (put_node p (FileN b m) s) = (dfiles s)(fp_names p \<mapsto> b)"
  using files_set_file[of "fp_names p" "dk_root s" b m] assms by (simp add: dfiles_def put_node_def)

lemma put_node_lookup: "fs_is_dir (fst p) (dk_root s) \<Longrightarrow> fs_lookup (fp_names p) (dk_root (put_node p n s)) = IoOk n"
  using set_lookup[of "fp_names p" "dk_root s" "Some n"] by (simp add: put_node_def)

lemma dfiles_lookup: "dfiles s (fp_names p) = Some b \<longleftrightarrow> (\<exists>m. fs_lookup (fp_names p) (dk_root s) = IoOk (FileN b m))"
  by (auto simp: dfiles_def fs_files_def file_at_def split: io_res.splits fs_node.splits)

lemma dfiles_absent: "fs_lookup (fp_names p) (dk_root s) = IoNotFound \<Longrightarrow> dfiles s (fp_names p) = None"
  by (simp add: dfiles_def fs_files_def file_at_def)

lemma dfiles_put_file:
  assumes "fs_lookup (fp_names p) (dk_root s) = IoOk (FileN c k)"
  shows "dfiles (put_node p (FileN b m) s) = (dfiles s)(fp_names p \<mapsto> b)"
  using assms lookup_parent[OF assms] by (intro dfiles_put) (simp_all add: fs_is_dir_def)

lemma create_parent_files:
  assumes "create_parent D p s = (r, s')"
  shows "dfiles s' = dfiles s \<and> (is_ok r \<longrightarrow> fs_is_dir (fst p) (dk_root s'))"
  using assms by (auto simp: create_parent_def dfiles_def mkdirs_is_dir split: option.splits if_splits)

lemma put_new_file:
  assumes "fs_is_dir (fst p) (dk_root s)" "fs_lookup (fp_names p) (dk_root s) = IoNotFound"
  shows "dfiles (put_node p (FileN b m) s) = (dfiles s)(fp_names p \<mapsto> b)"
  using assms by (intro dfiles_put) (simp_all add: fs_is_dir_def)

lemma open_write_files:
  assumes "open_write D p s = (r, s')"
  shows "dfiles s' = (if is_ok r then (dfiles s)(fp_names p \<mapsto> []) else dfiles s)"
proof -
  obtain r1 s1 where c: "create_parent D p s = (r1, s1)" by fastforce
  note d = create_parent_files[OF c]
  show ?thesis using assms d c
    by (cases r1) (auto simp: open_write_def dfiles_put_file put_new_file split: io_res.splits fs_node.splits if_splits)
qed

lemma open_append_files:
  assumes "open_append D p s = (r, s')"
  shows "dfiles s' = (if is_ok r then (dfiles s)(fp_names p \<mapsto> (case dfiles s (fp_names p) of Some b \<Rightarrow> b | None \<Rightarrow> [])) else dfiles s)"
proof -
  obtain r1 s1 where c: "create_parent D p s = (r1, s1)" by fastforce
  note d = create_parent_files[OF c]
  have "fs_lookup (fp_names p) (dk_root s1) = IoNotFound \<Longrightarrow> dfiles s (fp_names p) = None"
    "fs_lookup (fp_names p) (dk_root s1) = IoOk (FileN b m) \<Longrightarrow> dfiles s (fp_names p) = Some b" for b m
    using d dfiles_absent[of p s1] dfiles_lookup[of s1 p b] by auto
  then show ?thesis using assms d c
    by (cases r1) (auto simp: open_append_def put_new_file split: io_res.splits fs_node.splits if_splits)
qed

lemma open_read_files:
  assumes "open_read D p off s = (r, s')"
  shows "dfiles s' = dfiles s \<and> (\<forall>data. r = Inr data \<longrightarrow> (\<exists>b. dfiles s (fp_names p) = Some b \<and> data = drop (unat off) b))"
  using assms by (auto simp: open_read_def fs_read_def dfiles_lookup split: io_res.splits fs_node.splits if_splits)

lemma storage_size_files:
  assumes "storage_size D p s = (r, s')"
  shows "dfiles s' = dfiles s \<and> (\<forall>b n. dfiles s (fp_names p) = Some b \<and> r = Inr n \<longrightarrow> n = Some (of_nat (length b)))
    \<and> (r = Inr None \<longrightarrow> dfiles s (fp_names p) = None)"
  using assms by (auto simp: storage_size_def dfiles_lookup dest: dfiles_absent split: io_res.splits fs_node.splits if_splits)

lemma write_all_files:
  assumes "write_all D p bs s = (r, s')"
  shows "\<exists>k. (is_ok r \<longrightarrow> k = length bs) \<and> dfiles s' = (case dfiles s (fp_names p) of
           None \<Rightarrow> dfiles s | Some b \<Rightarrow> (dfiles s)(fp_names p \<mapsto> b @ take k bs))"
proof (cases "dfiles s (fp_names p)")
  case None
  then show ?thesis using assms by (auto simp: write_all_def dest: dfiles_lookup[THEN iffD2, OF exI] split: io_res.splits fs_node.splits if_splits)
next
  case (Some b)
  then obtain m where "fs_lookup (fp_names p) (dk_root s) = IoOk (FileN b m)" using dfiles_lookup by blast
  then show ?thesis using assms Some by (auto simp: write_all_def dfiles_put_file split: if_splits intro: exI[of _ "length bs"])
qed

lemma flush_file_files:
  assumes "flush_file D p s = (r, s')"
  shows "\<exists>k. dfiles s' = (case dfiles s (fp_names p) of None \<Rightarrow> dfiles s
           | Some b \<Rightarrow> (dfiles s)(fp_names p \<mapsto> (if is_ok r then b else take k b)))"
proof (cases "dfiles s (fp_names p)")
  case None
  then show ?thesis using assms by (auto simp: flush_file_def dest: dfiles_lookup[THEN iffD2, OF exI] split: io_res.splits fs_node.splits if_splits)
next
  case (Some b)
  then obtain m where "fs_lookup (fp_names p) (dk_root s) = IoOk (FileN b m)" using dfiles_lookup by blast
  then show ?thesis using assms Some by (auto simp: flush_file_def dfiles_put_file fun_eq_iff split: if_splits)
qed

lemma close_file_files: "close_file D s = (r, s') \<Longrightarrow> dfiles s' = dfiles s"
  by (auto simp: close_file_def)

lemma remove_file_files:
  assumes "remove_file D p s = (ok, s')"
  shows "dfiles s' = (if ok then (dfiles s)(fp_names p := None) else dfiles s)"
proof -
  have "\<not> fs_is_dir (fp_names p) (dk_root s) \<Longrightarrow> fs_files (fs_set (fp_names p) None (dk_root s)) = (dfiles s)(fp_names p := None)"
    by (simp add: files_set_none dfiles_def)
  then show ?thesis using assms
    by (auto simp: remove_file_def fs_remove_file_def fs_is_dir_def split: io_res.splits fs_node.splits if_splits)
qed

text \<open>Reserving and publishing.\<close>

lemma try_reserve_files:
  assumes "try_reserve D p s = (r, s')"
  shows "(r = Inr True \<longrightarrow> dfiles s (fp_names p) = None \<and> fs_lookup (fp_names p) (dk_root s) = IoNotFound
        \<and> dfiles s' = (dfiles s)(fp_names p \<mapsto> []) \<and> fs_lookup (fp_names p) (dk_root s') = IoOk (FileN [] (d_now D)))
    \<and> (r \<noteq> Inr True \<longrightarrow> dk_root s' = dk_root s)"
  using assms by (auto simp: try_reserve_def dfiles_absent put_new_file put_node_lookup split: if_splits io_res.splits)

definition candidates :: "fpath \<Rightarrow> fpath set" where
  "candidates dest = insert dest {(fst dest, numbered n (snd dest)) |n. 1 \<le> n}"

lemma reserve_loop_files:
  assumes "reserve_loop D dest n s = (r, s')"
  shows "(\<forall>p. r = Inr p \<longrightarrow> (\<exists>k\<ge>n. p = (fst dest, numbered k (snd dest))) \<and> dfiles s (fp_names p) = None
        \<and> fs_lookup (fp_names p) (dk_root s) = IoNotFound
        \<and> dfiles s' = (dfiles s)(fp_names p \<mapsto> []) \<and> fs_lookup (fp_names p) (dk_root s') = IoOk (FileN [] (d_now D)))
    \<and> (\<not> is_ok r \<longrightarrow> dk_root s' = dk_root s)"
  using assms
proof (induction D dest n s rule: reserve_loop.induct)
  case (1 D dest n s)
  obtain r1 s1 where t: "try_reserve D (fst dest, numbered n (snd dest)) s = (r1, s1)" by fastforce
  note f = try_reserve_files[OF t]
  show ?case
  proof (cases "r1 = Inr False")
    case True
    have "dfiles s1 = dfiles s" "dk_root s1 = dk_root s" using f True by (simp_all add: dfiles_def)
    moreover have "reserve_loop D dest (Suc n) s1 = (r, s')" using 1(2) t True by (subst (asm) reserve_loop.simps) simp
    ultimately show ?thesis using 1(1)[OF refl t[symmetric] True] by (fastforce dest: Suc_leD)
  next
    case False
    then show ?thesis using 1(2) t f by (subst (asm) reserve_loop.simps) (auto split: sum.splits bool.splits)
  qed
qed

lemma unique_path_files:
  assumes "unique_path D dest s = (r, s')"
  shows "(\<forall>p. r = Inr p \<longrightarrow> p \<in> candidates dest \<and> dfiles s (fp_names p) = None
        \<and> fs_lookup (fp_names p) (dk_root s) = IoNotFound
        \<and> dfiles s' = (dfiles s)(fp_names p \<mapsto> []) \<and> fs_lookup (fp_names p) (dk_root s') = IoOk (FileN [] (d_now D)))
    \<and> (\<not> is_ok r \<longrightarrow> dk_root s' = dk_root s)"
proof -
  obtain r1 s1 where t: "try_reserve D dest s = (r1, s1)" by fastforce
  note f = try_reserve_files[OF t]
  show ?thesis
  proof (cases "r1 = Inr False")
    case True
    have "dfiles s1 = dfiles s" "dk_root s1 = dk_root s" using f True by (simp_all add: dfiles_def)
    moreover have "reserve_loop D dest 1 s1 = (r, s')" using assms t True by (simp add: unique_path_def)
    ultimately show ?thesis using reserve_loop_files[of D dest 1 s1 r s'] by (fastforce simp: candidates_def)
  next
    case False
    then show ?thesis using assms t f by (auto simp: unique_path_def candidates_def split: sum.splits bool.splits)
  qed
qed

lemma dir_at_set: "\<not> below p q \<Longrightarrow> fs_is_dir q (fs_set p v t) = fs_is_dir q t"
proof (induction p v t arbitrary: q rule: fs_set.induct)
  case (2 x p v es)
  show ?case
  proof (cases q)
    case Nil
    then show ?thesis by (simp add: fs_is_dir_def)
  next
    case (Cons y q')
    then show ?thesis using 2(1)[of q'] 2(2)
      by (cases "x = y") (auto simp: fs_is_dir_def update_conv' delete_conv' split: option.splits)
  qed
qed auto

lemma file_not_above_dir: "fs_lookup p t = IoOk (FileN b m) \<Longrightarrow> fs_is_dir q t \<Longrightarrow> \<not> below p q"
proof
  assume a: "fs_lookup p t = IoOk (FileN b m)" "fs_is_dir q t" "below p q"
  then obtain zs where q: "q = p @ zs" unfolding below_def by (metis append_take_drop_id)
  have "fs_lookup p t = IoOk (FileN b m) \<Longrightarrow> fs_is_dir (p @ zs) t \<Longrightarrow> False"
    by (induction p t rule: fs_lookup.induct) (cases zs; auto simp: fs_is_dir_def)+
  then show False using a q by blast
qed

lemma rename_file:
  assumes "fs_lookup src t = IoOk (FileN b m)" "src \<noteq> []" "fs_rename src dst t = (True, t')"
  shows "fs_files t' = (fs_files t)(src := None, dst \<mapsto> b)"
proof (cases "src = dst")
  case True
  then show ?thesis using assms by (auto simp: fs_rename_def fs_files_def file_at_def)
next
  case False
  then have d: "dst \<noteq> []" "fs_is_dir (butlast dst) t" "\<not> fs_is_dir dst t" "t' = fs_set dst (Some (FileN b m)) (fs_set src None t)"
    using assms by (auto simp: fs_rename_def Let_def split: if_splits)
  have n: "\<not> below src (butlast dst)" using file_not_above_dir[OF assms(1) d(2)] .
  have "\<not> below src dst"
  proof
    assume "below src dst"
    then obtain zs where "dst = src @ zs" unfolding below_def by (metis append_take_drop_id)
    with False n show False by (cases zs rule: rev_cases) (auto simp: below_def butlast_append)
  qed
  then have "fs_is_dir (butlast dst) (fs_set src None t)" "\<not> fs_is_dir dst (fs_set src None t)"
    using d n by (simp_all add: dir_at_set)
  moreover have "\<not> fs_is_dir src t" using assms(1) by (simp add: fs_is_dir_def)
  ultimately show ?thesis using d assms(2) by (simp add: files_set_file files_set_none)
qed

lemma promote_files:
  assumes "promote D temp final s = (r, s')"
  shows "(is_ok r \<longrightarrow> (\<forall>b. dfiles s (fp_names temp) = Some b \<longrightarrow> dfiles s' = (dfiles s)(fp_names temp := None, fp_names final \<mapsto> b)))
    \<and> (\<not> is_ok r \<longrightarrow> dk_root s' = dk_root s)"
proof -
  have "dfiles s' = (dfiles s)(fp_names temp := None, fp_names final \<mapsto> b)"
    if ok: "is_ok r" and b: "dfiles s (fp_names temp) = Some b" for b
  proof -
    obtain m where m: "fs_lookup (fp_names temp) (dk_root s) = IoOk (FileN b m)" using b dfiles_lookup by blast
    show ?thesis using assms ok m rename_file[OF m]
      by (auto simp: promote_def Let_def dfiles_def split: if_splits prod.splits bool.splits)
  qed
  then show ?thesis using assms by (auto simp: promote_def Let_def split: if_splits prod.splits bool.splits)
qed

lemma finalize_files:
  assumes "finalize D temp dest s = (r, s')" "dfiles s (fp_names temp) = Some b"
  shows "case r of
      Inr final \<Rightarrow> final \<in> candidates dest \<and> fs_lookup (fp_names final) (dk_root s) = IoNotFound
        \<and> dfiles s' = (dfiles s)(fp_names temp := None, fp_names final \<mapsto> b)
    | Inl e \<Rightarrow> dfiles s' = dfiles s \<or>
        (\<exists>p \<in> candidates dest. fs_lookup (fp_names p) (dk_root s) = IoNotFound \<and> dfiles s' = (dfiles s)(fp_names p \<mapsto> []))"
proof -
  obtain r1 s1 where u: "unique_path D dest s = (r1, s1)" by fastforce
  note uf = unique_path_files[OF u]
  show ?thesis
  proof (cases r1)
    case (Inl e)
    then show ?thesis using assms u uf by (auto simp: finalize_def dfiles_def)
  next
    case (Inr final)
    obtain r2 s2 where p: "promote D temp final s1 = (r2, s2)" by fastforce
    obtain ok s3 where m: "remove_file D final s2 = (ok, s3)" by fastforce
    have f: "final \<in> candidates dest" "dfiles s (fp_names final) = None" "fs_lookup (fp_names final) (dk_root s) = IoNotFound"
      "dfiles s1 = (dfiles s)(fp_names final \<mapsto> [])" using uf Inr by auto
    have ne: "temp \<noteq> final" using f(2) assms(2) by auto
    then have t1: "dfiles s1 (fp_names temp) = Some b" using f(4) assms(2) by simp
    show ?thesis
    proof (cases r2)
      case (Inl e)
      then have "dk_root s2 = dk_root s1" using promote_files[OF p] by simp
      then have "dfiles s3 = (if ok then dfiles s else dfiles s1)"
        using remove_file_files[OF m] f by (auto simp: dfiles_def fun_upd_idem)
      then show ?thesis using assms u Inr p Inl m f by (auto simp: finalize_def)
    next
      case (Inr x)
      then have "dfiles s2 = (dfiles s)(fp_names temp := None, fp_names final \<mapsto> b)"
        using promote_files[OF p] t1 f(4) ne by (auto simp: fun_eq_iff)
      then show ?thesis using assms u \<open>r1 = Inr final\<close> p Inr f by (auto simp: finalize_def)
    qed
  qed
qed

text \<open>On a device that serves every call publishing succeeds, at the requested name when it is free.\<close>

lemma lookup_in_dir: "fs_is_dir d t \<Longrightarrow> fs_lookup (d @ [x]) t \<noteq> IoErr"
proof -
  assume "fs_is_dir d t"
  then obtain es where "fs_read_dir d t = IoOk es" using read_dir_is_dir by blast
  from read_dir_lookup[OF this] show ?thesis by (simp split: option.splits)
qed

lemma try_reserve_served:
  assumes "\<forall>n. d_ok D n" "fs_is_dir (fst p) (dk_root s)"
  shows "\<exists>free s'. try_reserve D p s = (Inr free, s') \<and> (free \<longleftrightarrow> fs_lookup (fp_names p) (dk_root s) = IoNotFound)"
  using assms lookup_in_dir[OF assms(2), of "snd p"] by (auto simp: try_reserve_def served_def fp_names_def split: io_res.splits)

lemma reserve_loop_served:
  assumes "\<forall>n. d_ok D n" "fs_is_dir (fst dest) (dk_root s)"
  shows "is_ok (fst (reserve_loop D dest n s))"
  using assms
proof (induction D dest n s rule: reserve_loop.induct)
  case (1 D dest n s)
  obtain free s1 where t: "try_reserve D (fst dest, numbered n (snd dest)) s = (Inr free, s1)"
    using try_reserve_served[OF 1(2), of "(fst dest, numbered n (snd dest))" s] 1(3) by auto
  show ?case
  proof (cases free)
    case False
    then have "dk_root s1 = dk_root s" using try_reserve_files[OF t] by simp
    then show ?thesis using 1 t False by (subst reserve_loop.simps) simp
  qed (subst reserve_loop.simps, simp add: t)
qed

lemma promote_served:
  assumes "\<forall>n. d_ok D n" "fs_lookup (fp_names temp) (dk_root s) = IoOk (FileN b m)"
    "fs_lookup (fp_names final) (dk_root s) = IoOk (FileN c k)"
  shows "is_ok (fst (promote D temp final s))"
  using assms lookup_parent[OF assms(3)]
  by (auto simp: promote_def served_def fs_rename_def fs_is_dir_def Let_def split: if_splits bool.splits prod.splits)

lemma finalize_served:
  assumes "\<forall>n. d_ok D n" "dfiles s (fp_names temp) = Some b" "fs_is_dir (fst dest) (dk_root s)"
  obtains final s' where "finalize D temp dest s = (Inr final, s')" "final \<in> candidates dest"
    "dfiles s' = (dfiles s)(fp_names temp := None, fp_names final \<mapsto> b)"
    "fs_lookup (fp_names dest) (dk_root s) = IoNotFound \<longrightarrow> final = dest" "dfiles s (fp_names final) = None"
proof -
  obtain free s0 where t: "try_reserve D dest s = (Inr free, s0)" "free \<longleftrightarrow> fs_lookup (fp_names dest) (dk_root s) = IoNotFound"
    using try_reserve_served[OF assms(1,3)] by blast
  obtain r1 s1 where u: "unique_path D dest s = (r1, s1)" by fastforce
  have "is_ok r1"
  proof (cases free)
    case False
    then have "dk_root s0 = dk_root s" using try_reserve_files[OF t(1)] by simp
    then show ?thesis using u t False reserve_loop_served[OF assms(1), of dest s0 1] assms(3) by (simp add: unique_path_def)
  qed (use u t in \<open>auto simp: unique_path_def\<close>)
  then obtain final where f: "r1 = Inr final" by (cases r1) auto
  note uf = unique_path_files[OF u]
  have ne: "temp \<noteq> final" using uf f assms(2) by auto
  then have "dfiles s1 (fp_names temp) = Some b" using uf f assms(2) by simp
  then obtain m where "fs_lookup (fp_names temp) (dk_root s1) = IoOk (FileN b m)" using dfiles_lookup by blast
  then have p: "is_ok (fst (promote D temp final s1))" using promote_served[OF assms(1)] uf f by blast
  then obtain s' where fin: "finalize D temp dest s = (Inr final, s')"
    using u f by (cases "promote D temp final s1"; cases "fst (promote D temp final s1)") (auto simp: finalize_def)
  show ?thesis using that[OF fin] finalize_files[OF fin assms(2)] t u f uf
    by (auto simp: unique_path_def)
qed

text \<open>
  Publishing a received file never costs another one: finalising a staging file that exists
  either fails, and then every file is as it was - at most an empty placeholder is left at a name
  that was free, when the device also refuses to remove it - or moves the staging file, content
  and all, to the requested name or a numbered variant of it at which nothing was before. The
  search for a free name ends, and on a device that serves every call, with the directory there,
  publishing succeeds, at the requested name itself when that is free.
\<close>

lemma finalize_never_overwrites:
  assumes "dfiles s (fp_names temp) = Some b"
  shows "(case finalize D temp dest s of
      (Inr final, s') \<Rightarrow> final \<in> candidates dest \<and> fs_lookup (fp_names final) (dk_root s) = IoNotFound
        \<and> dfiles s' = (dfiles s)(fp_names temp := None, fp_names final \<mapsto> b)
    | (Inl e, s') \<Rightarrow> dfiles s' = dfiles s \<or>
        (\<exists>p \<in> candidates dest. fs_lookup (fp_names p) (dk_root s) = IoNotFound \<and> dfiles s' = (dfiles s)(fp_names p \<mapsto> [])))
    \<and> ((\<forall>n. d_ok D n) \<and> fs_is_dir (fst dest) (dk_root s) \<longrightarrow>
        (\<exists>final s'. finalize D temp dest s = (Inr final, s') \<and> (fs_lookup (fp_names dest) (dk_root s) = IoNotFound \<longrightarrow> final = dest)))"
proof -
  obtain r s' where f: "finalize D temp dest s = (r, s')" by fastforce
  show ?thesis using finalize_files[OF f assms] finalize_served[of D s temp b dest] assms f
    by (auto split: sum.splits)
qed

definition toy_dev :: dev where
  "toy_dev = \<lparr>d_ok = \<lambda>_. True, d_kept = \<lambda>_. 0, d_now = 0, d_dir_len = 0\<rparr>"

definition toy_disk :: disk where
  "toy_disk = \<lparr>dk_root = Some (DirN [(''d'', DirN [(''f.txt'', FileN [1] 0), (''f.txt.part'', FileN [2, 3] 0)])]), dk_calls = 0\<rparr>"

text \<open>A name that is taken: the new file lands beside the old one.\<close>

lemma finalize_never_overwrites_witness:
  "fst (finalize toy_dev ([''d''], ''f.txt.part'') ([''d''], ''f.txt'') toy_disk) = Inr ([''d''], ''f (1).txt'')
   \<and> dfiles (snd (finalize toy_dev ([''d''], ''f.txt.part'') ([''d''], ''f.txt'') toy_disk)) [''d'', ''f.txt''] = Some [1]"
proof -
  have d: "dfiles toy_disk (fp_names ([''d''], ''f.txt.part'')) = Some [2, 3]"
    by (simp add: toy_disk_def dfiles_def fs_files_def file_at_def fp_names_def)
  have n: "numbered 1 ''f.txt'' = ''f (1).txt''"
    by code_simp
  have e: "fst (finalize toy_dev ([''d''], ''f.txt.part'') ([''d''], ''f.txt'') toy_disk) = Inr ([''d''], ''f (1).txt'')"
    using n by (simp add: finalize_def unique_path_def reserve_loop.simps try_reserve_def toy_dev_def toy_disk_def served_def
        fp_names_def tick_def put_node_def promote_def fs_rename_def fs_is_dir_def Let_def)
  from finalize_never_overwrites[OF d, where D = toy_dev and dest = "([''d''], ''f.txt'')"] e
  have "dfiles (snd (finalize toy_dev ([''d''], ''f.txt.part'') ([''d''], ''f.txt'') toy_disk)) =
      (dfiles toy_disk)([''d'', ''f.txt.part''] := None, [''d'', ''f (1).txt''] \<mapsto> [2, 3])"
    by (auto simp: fp_names_def split: prod.splits sum.splits)
  with e show ?thesis by (simp add: toy_disk_def dfiles_def fs_files_def file_at_def)
qed

end
