(* ===== verification/PB_Names.thy ===== *)
theory PB_Names
  imports PB_Paths PB_Storage
begin

text \<open>
  What a receiver makes of the names a peer sends: the base name of a single file and the
  platform's rules for one path component (\<open>sanitize_file_name\<close>, \<open>safe_component\<close> and
  \<open>windows_safe_component\<close> of \<open>peerbeam-transfer/src/stream.rs\<close>), and the relative paths and the
  root name of a folder (\<open>sanitize_rel\<close>, \<open>dest_path\<close>, \<open>sanitize_name\<close> and \<open>base_name\<close> of
  \<open>folder.rs\<close>). \<open>cfg!(windows)\<close> and the host's \<open>Path::components\<close> are arguments.

  Strings are their UTF-8 bytes; the only rules that look at characters beyond ASCII concern the
  control characters U+0080 to U+009F and three superscript digits, which are two bytes each.
\<close>

section \<open>Windows components\<close>

definition win_reserved :: "char \<Rightarrow> bool" where
  "win_reserved c = (c \<in> {CHR ''<'', CHR ''>'', CHR '':'', CHR 0x22, CHR ''|'', CHR ''?'', CHR ''*'', CHR ''/'', CHR 0x5C})"

definition ascii_control :: "char \<Rightarrow> bool" where
  "ascii_control c = (let n = of_char c :: nat in n < 32 \<or> n = 127)"

definition win_char :: "char \<Rightarrow> char" where
  "win_char c = (if win_reserved c \<or> ascii_control c then CHR ''_'' else c)"

text \<open>The two bytes of a control character above ASCII.\<close>

definition c1_control :: "char \<Rightarrow> char \<Rightarrow> bool" where
  "c1_control a b = (a = CHR 0xC2 \<and> 128 \<le> (of_char b :: nat) \<and> (of_char b :: nat) < 160)"

fun win_map :: "string \<Rightarrow> string" where
  "win_map (a # b # s) = (if c1_control a b then CHR ''_'' # win_map s else win_char a # win_map (b # s))"
| "win_map [a] = [win_char a]"
| "win_map [] = []"

definition dot_or_space :: "char \<Rightarrow> bool" where
  "dot_or_space c = (c = CHR ''.'' \<or> c = CHR '' '')"

definition trim_end :: "(char \<Rightarrow> bool) \<Rightarrow> string \<Rightarrow> string" where
  "trim_end f s = rev (dropWhile f (rev s))"

definition win_tail :: "string \<Rightarrow> string" where
  "win_tail out = (let keep = trim_end dot_or_space out in if length keep < length out then keep @ ''_'' else out)"

definition ascii_upper :: "char \<Rightarrow> char" where
  "ascii_upper c = (let n = of_char c :: nat in if 97 \<le> n \<and> n \<le> 122 then char_of (n - 32) else c)"

definition port_number :: "string \<Rightarrow> bool" where
  "port_number port =
     ((length port = 1 \<and> 48 \<le> (of_char (hd port) :: nat) \<and> (of_char (hd port) :: nat) \<le> 57)
      \<or> port \<in> {[CHR 0xC2, CHR 0xB9], [CHR 0xC2, CHR 0xB2], [CHR 0xC2, CHR 0xB3]})"

definition is_windows_device :: "string \<Rightarrow> bool" where
  "is_windows_device segment =
     (let upper = map ascii_upper (trim_end (\<lambda>c. c = CHR '' '') segment)
      in upper \<in> {''CON'', ''PRN'', ''AUX'', ''NUL'', ''CONIN$'', ''CONOUT$''}
         \<or> (take 3 upper = ''COM'' \<or> take 3 upper = ''LPT'') \<and> port_number (drop 3 upper))"

definition first_segment :: "string \<Rightarrow> string" where
  "first_segment s = takeWhile (\<lambda>c. c \<noteq> CHR ''.'') s"

definition windows_safe_component :: "string \<Rightarrow> string" where
  "windows_safe_component name =
     (let out = win_tail (win_map name);
          seg = first_segment out
      in if is_windows_device seg then seg @ ''_'' @ drop (length seg) out else out)"

definition safe_component :: "bool \<Rightarrow> string \<Rightarrow> string" where
  "safe_component windows name = (if windows then windows_safe_component name else name)"

section \<open>Names off the wire\<close>

text \<open>\<open>Path::file_name\<close>.\<close>

definition file_name :: "path \<Rightarrow> string option" where
  "file_name p = (if p = [] then None else case last p of Normal n \<Rightarrow> Some n | _ \<Rightarrow> None)"

definition sanitize_file_name :: "(string \<Rightarrow> path) \<Rightarrow> bool \<Rightarrow> string \<Rightarrow> string" where
  "sanitize_file_name host windows name =
     safe_component windows (case file_name (host name) of Some n \<Rightarrow> n | None \<Rightarrow> ''received.bin'')"

definition base_name :: "(string \<Rightarrow> path) \<Rightarrow> string \<Rightarrow> string" where
  "base_name host p = (case file_name (host p) of Some n \<Rightarrow> n | None \<Rightarrow> ''folder'')"

definition sanitize_name :: "(string \<Rightarrow> path) \<Rightarrow> bool \<Rightarrow> string \<Rightarrow> string" where
  "sanitize_name host windows name =
     (let base = (case file_name (host name) of Some n \<Rightarrow> n | None \<Rightarrow> [])
      in if base = [] \<or> base = ''.'' \<or> base = ''..'' then ''folder'' else safe_component windows base)"

fun sanitize_parts :: "bool \<Rightarrow> string list \<Rightarrow> string list option" where
  "sanitize_parts windows [] = Some []"
| "sanitize_parts windows (c # cs) =
     (if CHR 0x00 \<in> set c then None
      else if c = [] \<or> c = ''.'' then sanitize_parts windows cs
      else if c = ''..'' then None
      else map_option (Cons (safe_component windows c)) (sanitize_parts windows cs))"

definition sanitize_rel :: "bool \<Rightarrow> string \<Rightarrow> string list option" where
  "sanitize_rel windows rel =
     (case sanitize_parts windows (split_on (CHR ''/'') (map (\<lambda>c. if c = CHR 0x5C then CHR ''/'' else c) rel)) of
        Some (p # ps) \<Rightarrow> Some (p # ps) | _ \<Rightarrow> None)"

definition dest_path :: "bool \<Rightarrow> string list \<Rightarrow> string \<Rightarrow> string \<Rightarrow> fpath option" where
  "dest_path windows dest_dir root rel =
     map_option (\<lambda>parts. (dest_dir @ root # butlast parts, last parts)) (sanitize_rel windows rel)"

section \<open>The Windows rules\<close>

text \<open>The names Windows creates as they are.\<close>

definition win_clean :: "string \<Rightarrow> bool" where
  "win_clean s = ((\<forall>c \<in> set s. \<not> win_reserved c \<and> \<not> ascii_control c)
     \<and> (\<forall>i. Suc i < length s \<longrightarrow> \<not> c1_control (s ! i) (s ! Suc i)))"

definition win_ok :: "string \<Rightarrow> bool" where
  "win_ok s = (win_clean s \<and> (s \<noteq> [] \<longrightarrow> \<not> dot_or_space (last s)) \<and> \<not> is_windows_device (first_segment s))"

lemma win_clean_simps [simp]:
  "win_clean []" "win_clean [a] \<longleftrightarrow> \<not> win_reserved a \<and> \<not> ascii_control a"
  "win_clean (a # b # s) \<longleftrightarrow> \<not> win_reserved a \<and> \<not> ascii_control a \<and> \<not> c1_control a b \<and> win_clean (b # s)"
  by (auto simp: win_clean_def nth_Cons less_Suc_eq_0_disj split: nat.splits)

lemma win_clean_append: "win_clean (s @ t) \<longleftrightarrow> win_clean s \<and> win_clean t \<and> (s \<noteq> [] \<and> t \<noteq> [] \<longrightarrow> \<not> c1_control (last s) (hd t))"
proof (induction s rule: win_map.induct)
  case (2 a)
  then show ?case by (cases t) auto
qed auto

lemma win_char_simps [simp]: "\<not> win_reserved (win_char a)" "\<not> ascii_control (win_char a)" "\<not> c1_control a (CHR ''_'')"
  "\<not> c1_control (CHR ''_'') b" "\<not> win_reserved (CHR ''_'')" "\<not> ascii_control (CHR ''_'')"
  by (auto simp: win_char_def win_reserved_def ascii_control_def c1_control_def Let_def)

lemma win_map_clean: "win_clean (win_map s)"
proof (induction s rule: win_map.induct)
  case (1 a b s)
  have "\<not> c1_control a b \<Longrightarrow> \<not> c1_control (win_char a) (hd (win_map (b # s)))"
    by (cases s) (auto simp: c1_control_def win_char_def split: if_splits)
  moreover have "win_map (b # s) \<noteq> []" by (cases s) auto
  ultimately show ?case using 1 by (cases "win_map (b # s)"; cases "win_map s") auto
qed auto

lemma win_map_id: "win_clean s \<Longrightarrow> win_map s = s"
  by (induction s rule: win_map.induct) (auto simp: win_char_def)

lemma win_map_Nil [simp]: "win_map s = [] \<longleftrightarrow> s = []"
  by (cases s rule: win_map.cases) auto

lemma trim_end_prefix: "\<exists>t. s = trim_end f s @ t \<and> (\<forall>c \<in> set t. f c)"
proof -
  have "s = trim_end f s @ rev (takeWhile f (rev s))"
    unfolding trim_end_def by (metis rev_append rev_rev_ident takeWhile_dropWhile_id)
  then show ?thesis by (metis set_rev set_takeWhileD)
qed

lemma trim_end_last: "trim_end f s \<noteq> [] \<Longrightarrow> \<not> f (last (trim_end f s))"
  by (simp add: trim_end_def last_rev hd_dropWhile)

lemma trim_end_id: "s = [] \<or> \<not> f (last s) \<Longrightarrow> trim_end f s = s"
  by (cases s rule: rev_cases) (auto simp: trim_end_def)

lemma win_tail_spec: "win_clean s \<Longrightarrow> win_clean (win_tail s) \<and> (win_tail s = [] \<longleftrightarrow> s = []) \<and> (s \<noteq> [] \<longrightarrow> \<not> dot_or_space (last (win_tail s)))"
proof -
  assume c: "win_clean s"
  obtain t where t: "s = trim_end dot_or_space s @ t" using trim_end_prefix by blast
  then have k: "win_clean (trim_end dot_or_space s)" using c by (metis win_clean_append)
  have "\<not> length (trim_end dot_or_space s) < length s \<Longrightarrow> trim_end dot_or_space s = s" using t by (metis append_Nil2 length_append length_greater_0_conv less_add_same_cancel1)
  then show ?thesis using c k trim_end_last[of dot_or_space s]
    by (auto simp: win_tail_def Let_def win_clean_append dot_or_space_def)
qed

lemma win_tail_id: "s = [] \<or> \<not> dot_or_space (last s) \<Longrightarrow> win_tail s = s"
  by (simp add: win_tail_def trim_end_id)

lemma device_not_underscore: "\<not> is_windows_device (s @ ''_'')"
proof -
  have t: "trim_end (\<lambda>c. c = CHR '' '') (s @ ''_'') = s @ ''_''" by (simp add: trim_end_def)
  have u: "ascii_upper (CHR ''_'') = CHR ''_''" by (simp add: ascii_upper_def)
  let ?u = "map ascii_upper s @ ''_''"
  have "?u \<notin> {''CON'', ''PRN'', ''AUX'', ''NUL'', ''CONIN$'', ''CONOUT$''}"
    by (auto dest!: arg_cong[of _ _ last])
  moreover have "\<not> port_number (drop 3 ?u)"
  proof (cases "drop 3 ?u" rule: rev_cases)
    case (snoc xs x)
    then have "x = CHR ''_''" by (metis append_is_Nil_conv last_drop last_snoc not_Cons_self2 drop_all not_le_imp_less)
    then show ?thesis using snoc by (auto simp: port_number_def)
  qed (simp add: port_number_def)
  ultimately show ?thesis using u by (auto simp: is_windows_device_def t Let_def)
qed

lemma first_segment_split: "\<exists>r. s = first_segment s @ r \<and> (r \<noteq> [] \<longrightarrow> hd r = CHR ''.'')"
  unfolding first_segment_def
  by (rule exI[of _ "dropWhile (\<lambda>c. c \<noteq> CHR ''.'') s"]) (use hd_dropWhile[of "\<lambda>c. c \<noteq> CHR ''.''" s] in auto)

lemma first_segment_insert: "first_segment (first_segment s @ ''_'' @ r) = first_segment s @ ''_''" if "r \<noteq> [] \<longrightarrow> hd r = CHR ''.''"
proof -
  have "\<forall>c \<in> set (first_segment s). c \<noteq> CHR ''.''" by (auto simp: first_segment_def dest: set_takeWhileD)
  then show ?thesis using that by (cases r) (simp_all add: first_segment_def[of "_ @ _"] takeWhile_append)
qed

lemma windows_safe_ok: "win_ok (windows_safe_component name) \<and> (windows_safe_component name = [] \<longleftrightarrow> name = [])"
proof -
  define out where "out = win_tail (win_map name)"
  note o = win_tail_spec[OF win_map_clean[of name], folded out_def]
  obtain r where r: "out = first_segment out @ r" "r \<noteq> [] \<longrightarrow> hd r = CHR ''.''" using first_segment_split by blast
  let ?w = "first_segment out @ ''_'' @ r"
  have "win_clean ?w" using o r(1) by (metis win_clean_append win_clean_simps(2) win_char_simps(3,4,5,6) append_is_Nil_conv hd_append2 last_ConsL list.sel(1) not_Cons_self2)
  moreover have "\<not> dot_or_space (last ?w)" 
  proof (cases "r = []")
    case False
    then have "last ?w = last out" by (subst r(1)) simp
    then show ?thesis using o False r(1) by (metis append_is_Nil_conv win_map_Nil)
  qed (simp add: dot_or_space_def)
  moreover have "\<not> is_windows_device (first_segment ?w)" using first_segment_insert[OF r(2)] device_not_underscore by simp
  moreover have "drop (length (first_segment out)) out = r" using r(1) by (metis append_eq_conv_conj)
  moreover have "\<not> is_windows_device (first_segment [])"
    by (simp add: is_windows_device_def first_segment_def trim_end_def port_number_def)
  ultimately show ?thesis using o
    by (auto simp: windows_safe_component_def Let_def win_ok_def simp flip: out_def)
qed

lemma windows_safe_id: "win_ok name \<Longrightarrow> windows_safe_component name = name"
  by (auto simp: windows_safe_component_def win_ok_def win_map_id win_tail_id Let_def)



section \<open>Names stay inside the destination\<close>

definition plain_part :: "string \<Rightarrow> bool" where
  "plain_part n = (n \<noteq> [] \<and> n \<noteq> ''.'' \<and> n \<noteq> ''..'' \<and> CHR ''/'' \<notin> set n)"

text \<open>What a host's path parser promises of an ordinary component.\<close>

definition host_ok :: "(string \<Rightarrow> path) \<Rightarrow> bool" where
  "host_ok host = (\<forall>s n. Normal n \<in> set (host s) \<longrightarrow> plain_part n)"

lemma safe_component_plain:
  assumes "plain_part c"
  shows "plain_part (safe_component windows c)"
proof (cases windows)
  case True
  let ?w = "windows_safe_component c"
  have w: "win_ok ?w" "?w \<noteq> []" using windows_safe_ok[of c] assms by (simp_all add: plain_part_def)
  have "CHR ''/'' \<notin> set ?w" using w(1) unfolding win_ok_def win_clean_def by (metis (no_types) insertCI win_reserved_def)
  moreover have "last ?w \<noteq> CHR ''.''" using w unfolding win_ok_def dot_or_space_def by blast
  ultimately show ?thesis using True w(2) by (auto simp: plain_part_def safe_component_def)
qed (use assms in \<open>simp add: safe_component_def\<close>)

lemma host_ok_unix: "host_ok components_unix"
proof -
  have keep: "\<forall>n. Normal n \<in> set (List.map_filter (\<lambda>seg. if seg = [] \<or> seg = ''.'' then None
      else if seg = ''..'' then Some ParentDir else Some (Normal seg)) segs) \<longrightarrow> n \<in> set segs \<and> n \<noteq> [] \<and> n \<noteq> ''.'' \<and> n \<noteq> ''..''" for segs
    by (auto simp: List.map_filter_def split: if_splits)
  have sep: "CHR ''/'' \<notin> set s" if "s \<in> set (split_on (CHR ''/'') x)" for s x
    using that by (induction x arbitrary: s) (auto split: if_splits list.splits)
  show ?thesis unfolding host_ok_def
  proof (intro allI impI)
    fix s n
    assume "Normal n \<in> set (components_unix s)"
    then have "n \<in> set (split_on (CHR ''/'') s) \<and> n \<noteq> [] \<and> n \<noteq> ''.'' \<and> n \<noteq> ''..''"
      using keep[rule_format, of n] by (cases "split_on (CHR ''/'') s") (auto simp: components_unix_def Let_def split: if_splits)
    then show "plain_part n" using sep by (auto simp: plain_part_def)
  qed
qed

lemma file_name_plain: "host_ok host \<Longrightarrow> file_name (host s) = Some n \<Longrightarrow> plain_part n"
  by (auto simp: file_name_def host_ok_def split: if_splits path_component.splits) (metis last_in_set)

lemma sanitize_file_name_plain: "host_ok host \<Longrightarrow> plain_part (sanitize_file_name host windows name)"
  by (auto simp: sanitize_file_name_def intro!: safe_component_plain dest: file_name_plain split: option.splits)
    (simp add: plain_part_def)

lemma sanitize_parts_plain:
  "sanitize_parts windows cs = Some ps \<Longrightarrow> \<forall>c \<in> set cs. CHR ''/'' \<notin> set c \<Longrightarrow> \<forall>p \<in> set ps. plain_part p"
proof (induction windows cs arbitrary: ps rule: sanitize_parts.induct)
  case (2 windows c cs)
  note p = safe_component_plain[of c windows]
  show ?case
  proof (cases "c = [] \<or> c = ''.''")
    case False
    then have n: "CHR 0x00 \<notin> set c" "c \<noteq> ''..''" using 2(3) by (auto split: if_splits)
    then have "plain_part c" using False 2(4) by (simp add: plain_part_def)
    then show ?thesis using 2(2)[OF n(1) False n(2)] 2(3,4) False n p by auto
  qed (use 2 in \<open>auto split: if_splits\<close>)
qed simp

lemma sanitize_name_plain: "host_ok host \<Longrightarrow> plain_part (sanitize_name host windows name)"
proof -
  assume h: "host_ok host"
  have "plain_part ''folder''" by (simp add: plain_part_def)
  moreover have "plain_part n" if "file_name (host name) = Some n" for n using file_name_plain[OF h that] .
  ultimately show ?thesis using safe_component_plain
    by (cases "file_name (host name)") (auto simp: sanitize_name_def Let_def)
qed

lemma sanitize_parts_refuses:
  "c \<in> set cs \<Longrightarrow> CHR 0x00 \<in> set c \<or> c = ''..'' \<Longrightarrow> sanitize_parts windows cs = None"
  by (induction windows cs rule: sanitize_parts.induct) auto

lemma in_segment: "c \<in> set s \<Longrightarrow> c \<noteq> d \<Longrightarrow> \<exists>seg \<in> set (split_on d s). c \<in> set seg"
  by (induction s) (auto split: list.splits)

lemma split_on_cases: "split_on c (x # s) = (if x = c then [] # split_on c s else (x # hd (split_on c s)) # tl (split_on c s))"
  by (auto split: list.splits)

text \<open>Turning further characters into separators keeps the segments that hold none of them.\<close>

lemma split_on_more:
  assumes f: "\<forall>x. f x = x \<or> f x = c"
  shows "((\<forall>x \<in> set (hd (split_on c s)). f x = x) \<longrightarrow> hd (split_on c (map f s)) = hd (split_on c s))
    \<and> (\<forall>seg \<in> set (tl (split_on c s)). (\<forall>x \<in> set seg. f x = x) \<longrightarrow> seg \<in> set (tl (split_on c (map f s))))"
proof (induction s)
  case (Cons x s)
  have sub: "set (tl (split_on c t)) \<subseteq> set (split_on c t)" "hd (split_on c t) \<in> set (split_on c t)"
    "set (split_on c t) = insert (hd (split_on c t)) (set (tl (split_on c t)))" for t
    using split_on_ne[of c t] by (cases "split_on c t"; auto)+
  have "f c = c" using f by metis
  show ?case
  proof (cases "x = c")
    case True
    then show ?thesis using Cons sub(3)[of s] sub(3)[of "map f s"] \<open>f c = c\<close> by (auto simp: split_on_cases simp del: split_on.simps)
  next
    case False
    then show ?thesis using Cons f sub(1)[of "map f s"] by (cases "f x = c") (auto simp: split_on_cases simp del: split_on.simps)
  qed
qed simp

lemma segment_kept:
  assumes "\<forall>x. f x = x \<or> f x = c" "seg \<in> set (split_on c s)" "\<forall>x \<in> set seg. f x = x"
  shows "seg \<in> set (split_on c (map f s))"
proof -
  have h: "seg = hd (split_on c s) \<or> seg \<in> set (tl (split_on c s))" "hd (split_on c (map f s)) \<in> set (split_on c (map f s))"
    "set (tl (split_on c (map f s))) \<subseteq> set (split_on c (map f s))"
    using assms(2) split_on_ne[of c s] split_on_ne[of c "map f s"] by (cases "split_on c s"; cases "split_on c (map f s)"; auto)+
  then show ?thesis using split_on_more[OF assms(1), of s] assms(3) by (metis subsetD)
qed

lemma sanitize_rel_refuses:
  assumes "CHR 0x00 \<in> set rel \<or> ''..'' \<in> set (split_on (CHR ''/'') rel)"
  shows "sanitize_rel windows rel = None"
proof -
  let ?f = "\<lambda>c :: char. if c = CHR 0x5C then CHR ''/'' else c"
  let ?segs = "split_on (CHR ''/'') (map ?f rel)"
  have "\<exists>c \<in> set ?segs. CHR 0x00 \<in> set c \<or> c = ''..''"
  proof (cases "CHR 0x00 \<in> set rel")
    case True
    then have "CHR 0x00 \<in> set (map ?f rel)" by force
    then show ?thesis using in_segment[of "CHR 0x00" "map ?f rel" "CHR ''/''"] by auto
  next
    case False
    then have "''..'' \<in> set ?segs" using assms by (intro segment_kept) auto
    then show ?thesis by blast
  qed
  then have "sanitize_parts windows ?segs = None" using sanitize_parts_refuses by blast
  then show ?thesis by (simp add: sanitize_rel_def)
qed

lemma sanitize_parts_keeps:
  "list_all (\<lambda>n. plain_part n \<and> CHR 0x00 \<notin> set n) names \<Longrightarrow> sanitize_parts False names = Some names"
  by (induction names) (auto simp: plain_part_def safe_component_def)

lemma sanitize_rel_keeps:
  assumes "names \<noteq> []" "list_all (\<lambda>n. plain_part n \<and> CHR 0x00 \<notin> set n \<and> CHR 0x5C \<notin> set n) names"
  shows "sanitize_rel False (join_with (CHR ''/'') names) = Some names"
proof -
  let ?f = "\<lambda>c :: char. if c = CHR 0x5C then CHR ''/'' else c"
  have "list_all (\<lambda>n. CHR 0x5C \<notin> set n) names \<Longrightarrow> map ?f (join_with (CHR ''/'') names) = join_with (CHR ''/'') names"
    by (induction "CHR ''/''" names rule: join_with.induct) (auto intro!: map_idI)
  then have "map ?f (join_with (CHR ''/'') names) = join_with (CHR ''/'') names" using assms(2) by (simp add: list_all_iff)
  moreover have "split_on (CHR ''/'') (join_with (CHR ''/'') names) = names"
    using assms by (intro split_on_join) (auto simp: list_all_iff plain_part_def)
  moreover have "sanitize_parts False names = Some names"
    using assms(2) by (intro sanitize_parts_keeps) (auto simp: list_all_iff)
  ultimately show ?thesis using assms(1) by (cases names) (simp_all add: sanitize_rel_def)
qed

lemma dest_path_plain:
  assumes "dest_path windows dir root rel = Some p"
  shows "\<exists>parts. fp_names p = dir @ root # parts \<and> parts \<noteq> [] \<and> list_all plain_part parts"
proof -
  let ?f = "\<lambda>c :: char. if c = CHR 0x5C then CHR ''/'' else c"
  let ?segs = "split_on (CHR ''/'') (map ?f rel)"
  have sep: "CHR ''/'' \<notin> set s" if "s \<in> set (split_on (CHR ''/'') x)" for s x
    using that by (induction x arbitrary: s) (auto split: if_splits list.splits)
  obtain q qs where q: "sanitize_parts windows ?segs = Some (q # qs)" "p = (dir @ root # butlast (q # qs), last (q # qs))"
    using assms by (auto simp: dest_path_def sanitize_rel_def split: option.splits list.splits)
  then have "fp_names p = dir @ root # q # qs" by (simp add: fp_names_def)
  moreover have "list_all plain_part (q # qs)" using sanitize_parts_plain[OF q(1)] sep by (auto simp: list_all_iff)
  ultimately show ?thesis by (intro exI[of _ "q # qs"]) simp
qed

text \<open>
  Whatever name or path a peer sends, a receiver writes below its destination only, on every
  host and with the Windows rules or without: a single file gets one ordinary name, the root of a
  folder one ordinary name, and an entry of a folder a path of ordinary names below that root;
  an entry whose path climbs or holds a NUL byte is refused. On Unix an entry's path that
  consists of ordinary names without a backslash or NUL is kept as it is.
\<close>

lemma received_names_stay_inside:
  assumes "host_ok host"
  shows "plain_part (sanitize_file_name host windows name) \<and> plain_part (sanitize_name host windows name)
    \<and> (\<forall>p. dest_path windows dir root rel = Some p \<longrightarrow>
         (\<exists>parts. fp_names p = dir @ root # parts \<and> parts \<noteq> [] \<and> list_all plain_part parts))
    \<and> (CHR 0x00 \<in> set rel \<or> ''..'' \<in> set (split_on (CHR ''/'') rel) \<longrightarrow> dest_path windows dir root rel = None)
    \<and> (names \<noteq> [] \<and> list_all (\<lambda>n. plain_part n \<and> CHR 0x00 \<notin> set n \<and> CHR 0x5C \<notin> set n) names \<longrightarrow>
         map_option fp_names (dest_path False dir root (join_with (CHR ''/'') names)) = Some (dir @ root # names))"
proof (intro conjI allI impI)
  show "plain_part (sanitize_file_name host windows name)" by (rule sanitize_file_name_plain[OF assms])
  show "plain_part (sanitize_name host windows name)"
    by (rule sanitize_name_plain[OF assms])
  fix p
  assume "dest_path windows dir root rel = Some p"
  then show "\<exists>parts. fp_names p = dir @ root # parts \<and> parts \<noteq> [] \<and> list_all plain_part parts" by (rule dest_path_plain)
next
  assume "CHR 0x00 \<in> set rel \<or> ''..'' \<in> set (split_on (CHR ''/'') rel)"
  then show "dest_path windows dir root rel = None"
    using sanitize_rel_refuses by (auto simp: dest_path_def)
next
  assume "names \<noteq> [] \<and> list_all (\<lambda>n. plain_part n \<and> CHR 0x00 \<notin> set n \<and> CHR 0x5C \<notin> set n) names"
  then show "map_option fp_names (dest_path False dir root (join_with (CHR ''/'') names)) = Some (dir @ root # names)"
    using sanitize_rel_keeps[of names] by (auto simp: dest_path_def fp_names_def)
qed

lemma received_names_stay_inside_witness:
  "dest_path True [''dl''] ''photos'' ''a/../../etc/passwd'' = None
   \<and> map_option fp_names (dest_path False [''dl''] ''photos'' (join_with (CHR ''/'') [''a'', ''b:c''])) = Some [''dl'', ''photos'', ''a'', ''b:c'']"
proof -
  have "''..'' \<in> set (split_on (CHR ''/'') ''a/../../etc/passwd'')" by simp
  moreover have "list_all (\<lambda>n. plain_part n \<and> CHR 0x00 \<notin> set n \<and> CHR 0x5C \<notin> set n) [''a'', ''b:c'']"
    by (simp add: plain_part_def)
  ultimately show ?thesis
    using received_names_stay_inside[OF host_ok_unix, where windows = True and dir = "[''dl'']" and root = "''photos''"
        and rel = "''a/../../etc/passwd''" and names = "[''a'', ''b:c'']"] by simp
qed

end
