(* ===== verification/PB_Transfer.thy ===== *)
theory PB_Transfer
  imports PB_Chunk PB_Names
begin

text \<open>
  What the transfer engines share: the frames of a link (\<open>peerbeam-domain/src/port/transfer.rs\<close>),
  the transfer protocol's messages (\<open>peerbeam-transfer/src/protocol.rs\<close>), progress reports, the
  staging claims, and the helpers of \<open>stream.rs\<close> both the file and the folder engine use.

  A run of an engine is a function of the world: the disk, the frames the link still delivers and
  those sent, the progress reported, and the staging names in use. What the outside answers is an
  argument (\<open>tenv\<close>): the device, whether the n-th send succeeds, how a read is split up, and what
  the user's pause and cancel handle says in the n-th round of a loop. A run that waits for a
  frame or a user that never comes has the result \<open>None\<close>.
\<close>

section \<open>Frames and messages\<close>

record transfer_meta =
  tm_id :: string
  tm_name :: string
  tm_size :: u64
  tm_chunk_size :: u32

datatype tcontrol = ResumeAck_ctl u64 | Complete_ctl string | Verify_ctl bool | Cancel_ctl | Pause_ctl | Resume_ctl

text \<open>The JSON coding of the two payloads.\<close>

record tjson =
  tj_meta :: "transfer_meta \<Rightarrow> bytes"
  tj_parse_meta :: "bytes \<Rightarrow> (string, transfer_meta) result"
  tj_control :: "tcontrol \<Rightarrow> bytes"
  tj_parse_control :: "bytes \<Rightarrow> (string, tcontrol) result"

definition tjson_ok :: "tjson \<Rightarrow> bool" where
  "tjson_ok J = ((\<forall>m. tj_parse_meta J (tj_meta J m) = Inr m) \<and> (\<forall>c. tj_parse_control J (tj_control J c) = Inr c))"

definition meta_frame :: "tjson \<Rightarrow> transfer_meta \<Rightarrow> link_frame" where
  "meta_frame J m = \<lparr>lf_kind = Meta, lf_payload = tj_meta J m\<rparr>"

definition chunk_frame :: "bytes \<Rightarrow> link_frame" where
  "chunk_frame data = \<lparr>lf_kind = Chunk_frame, lf_payload = data\<rparr>"

definition control_frame :: "tjson \<Rightarrow> tcontrol \<Rightarrow> link_frame" where
  "control_frame J c = \<lparr>lf_kind = Control_frame, lf_payload = tj_control J c\<rparr>"

definition parse_meta :: "tjson \<Rightarrow> link_frame \<Rightarrow> (domain_error, transfer_meta) result" where
  "parse_meta J f = (case tj_parse_meta J (lf_payload f) of
     Inl e \<Rightarrow> Inl (ETransfer (''bad transfer meta: '' @ e)) | Inr m \<Rightarrow> Inr m)"

definition parse_control :: "tjson \<Rightarrow> link_frame \<Rightarrow> (domain_error, tcontrol) result" where
  "parse_control J f = (case tj_parse_control J (lf_payload f) of
     Inl e \<Rightarrow> Inl (ETransfer (''bad control: '' @ e)) | Inr c \<Rightarrow> Inr c)"

lemma parse_frames [simp]:
  "tjson_ok J \<Longrightarrow> parse_meta J (meta_frame J m) = Inr m"
  "tjson_ok J \<Longrightarrow> parse_control J (control_frame J c) = Inr c"
  "lf_kind (meta_frame J m) = Meta" "lf_kind (chunk_frame b) = Chunk_frame" "lf_kind (control_frame J c) = Control_frame"
  "lf_payload (chunk_frame b) = b"
  by (simp_all add: tjson_ok_def parse_meta_def parse_control_def meta_frame_def control_frame_def chunk_frame_def)

section \<open>Progress\<close>

datatype transfer_direction = Sending | Receiving

datatype transfer_status = TS_Pending | TS_Connecting | TS_Transferring | TS_Paused | TS_Completed | TS_Failed | TS_Cancelled

record progress =
  pg_transfer :: string
  pg_direction :: transfer_direction
  pg_status :: transfer_status
  pg_total :: u64
  pg_done :: u64
  pg_file :: string
  pg_files_completed :: u32
  pg_files_total :: u32

definition build_progress :: "string \<Rightarrow> transfer_direction \<Rightarrow> transfer_status \<Rightarrow> u64 \<Rightarrow> u64 \<Rightarrow> string \<Rightarrow> u32 \<Rightarrow> u32 \<Rightarrow> progress" where
  "build_progress tid dir status tot dn name completed files =
     \<lparr>pg_transfer = tid, pg_direction = dir, pg_status = status, pg_total = tot, pg_done = dn, pg_file = name,
      pg_files_completed = completed, pg_files_total = files\<rparr>"

definition make_progress :: "string \<Rightarrow> transfer_direction \<Rightarrow> transfer_status \<Rightarrow> u64 \<Rightarrow> u64 \<Rightarrow> string \<Rightarrow> progress" where
  "make_progress tid dir status tot dn name =
     build_progress tid dir status tot dn name (if status = TS_Completed then 1 else 0) 1"

section \<open>The world of a run\<close>

type_synonym inbox = "(domain_error, link_frame option) result list"

record world =
  w_disk :: disk
  w_in :: inbox
  w_out :: "link_frame list"
  w_tries :: nat
  w_reads :: nat
  w_progress :: "progress list"
  w_claims :: "fpath list"

text \<open>
  The user's handle in one round of a loop: whether a cancel is seen at the top, whether the
  transfer is paused, whether that pause never ends, and whether a cancel ends the round's wait.
\<close>

record ctl =
  c_cancelled :: bool
  c_paused :: bool
  c_stuck :: bool
  c_cancel_wait :: bool

record tenv =
  te_dev :: dev
  te_send :: "nat \<Rightarrow> domain_error option"
  te_read :: "nat \<Rightarrow> nat option"
  te_ctl :: "nat \<Rightarrow> ctl"

type_synonym 'a run = "world \<Rightarrow> (domain_error, 'a) result option \<times> world"

definition done_with :: "'a \<Rightarrow> 'a run" where
  "done_with a w = (Some (Inr a), w)"

definition fail_with :: "domain_error \<Rightarrow> 'a run" where
  "fail_with e w = (Some (Inl e), w)"

definition wbind :: "'a run \<Rightarrow> ('a \<Rightarrow> 'b run) \<Rightarrow> 'b run" where
  "wbind m f w = (case m w of
     (None, w) \<Rightarrow> (None, w) | (Some (Inl e), w) \<Rightarrow> (Some (Inl e), w) | (Some (Inr a), w) \<Rightarrow> f a w)"

text \<open>A call of the storage provider.\<close>

definition on_disk_run :: "(disk \<Rightarrow> (domain_error, 'a) result \<times> disk) \<Rightarrow> 'a run" where
  "on_disk_run f w = (case f (w_disk w) of (r, d) \<Rightarrow> (Some r, w\<lparr>w_disk := d\<rparr>))"

definition report :: "progress \<Rightarrow> world \<Rightarrow> world" where
  "report p w = w\<lparr>w_progress := w_progress w @ [p]\<rparr>"

section \<open>The link\<close>

definition send_frame :: "tenv \<Rightarrow> link_frame \<Rightarrow> unit run" where
  "send_frame E f w = (case te_send E (w_tries w) of
     None \<Rightarrow> (Some (Inr ()), w\<lparr>w_tries := Suc (w_tries w), w_out := w_out w @ [f]\<rparr>)
   | Some e \<Rightarrow> (Some (Inl e), w\<lparr>w_tries := Suc (w_tries w)\<rparr>))"

primrec send_with_retry :: "tenv \<Rightarrow> link_frame \<Rightarrow> nat \<Rightarrow> unit run" where
  "send_with_retry E f 0 w = send_frame E f w"
| "send_with_retry E f (Suc n) w = (case send_frame E f w of
     (Some (Inl e), w) \<Rightarrow> send_with_retry E f n w | r \<Rightarrow> r)"

text \<open>Reading frames until one is picked: \<open>None\<close> skips the frame.\<close>

fun recv_until :: "(link_frame \<Rightarrow> (domain_error, 'a) result option) \<Rightarrow> string \<Rightarrow> inbox
    \<Rightarrow> (domain_error, 'a) result option \<times> inbox" where
  "recv_until pick closed [] = (None, [])"
| "recv_until pick closed (Inl e # r) = (Some (Inl e), r)"
| "recv_until pick closed (Inr None # r) = (Some (Inl (ETransfer closed)), r)"
| "recv_until pick closed (Inr (Some f) # r) =
     (case pick f of Some x \<Rightarrow> (Some x, r) | None \<Rightarrow> recv_until pick closed r)"

definition recv_picking :: "(link_frame \<Rightarrow> (domain_error, 'a) result option) \<Rightarrow> string \<Rightarrow> 'a run" where
  "recv_picking pick closed w = (case recv_until pick closed (w_in w) of (x, r) \<Rightarrow> (x, w\<lparr>w_in := r\<rparr>))"

definition recv_meta :: "tjson \<Rightarrow> transfer_meta run" where
  "recv_meta J = recv_picking
     (\<lambda>f. if lf_kind f = Meta then Some (parse_meta J f) else None) ''link closed before meta''"

definition recv_resume_ack :: "tjson \<Rightarrow> u64 run" where
  "recv_resume_ack J = recv_picking
     (\<lambda>f. if lf_kind f = Control_frame
          then (case parse_control J f of Inl e \<Rightarrow> Some (Inl e) | Inr (ResumeAck_ctl off) \<Rightarrow> Some (Inr off) | _ \<Rightarrow> None)
          else None) ''link closed before resume ack''"

definition recv_verify :: "tjson \<Rightarrow> bool run" where
  "recv_verify J = recv_picking
     (\<lambda>f. if lf_kind f = Control_frame
          then (case parse_control J f of
                  Inl e \<Rightarrow> Some (Inl e) | Inr (Verify_ctl ok) \<Rightarrow> Some (Inr ok) | Inr Cancel_ctl \<Rightarrow> Some (Inl ECancelled) | _ \<Rightarrow> None)
          else None) ''link closed before verify''"

section \<open>Readers\<close>

text \<open>
  Filling a buffer: a read returns at least one byte and at most what is asked for, or nothing at
  the end of the file; \<open>te_read\<close> says how many, or that the read failed.
\<close>

lemma fill_less: "m < want \<Longrightarrow> data \<noteq> [] \<Longrightarrow> want - (m + min (length data) (max (Suc 0) k)) < want - m"
  by (cases data) (auto simp: min_def max_def)

function read_fill :: "(nat \<Rightarrow> nat option) \<Rightarrow> nat \<Rightarrow> nat \<Rightarrow> bytes \<Rightarrow> bytes
    \<Rightarrow> (domain_error, bytes \<times> bytes \<times> nat) result" where
  "read_fill R want i data buf =
     (if length buf < want then
        case R i of
          None \<Rightarrow> Inl (EStorage ''read chunk'')
        | Some k \<Rightarrow>
            if data = [] then Inr (buf, data, Suc i)
            else let n = max 1 (min k (want - length buf))
                 in read_fill R want (Suc i) (drop n data) (buf @ take n data)
      else Inr (buf, data, i))"
  by pat_completeness auto
termination
  by (relation "measure (\<lambda>(R, want, i, data, buf). want - length buf)") (auto intro!: fill_less)

declare read_fill.simps [simp del]

definition HASH_BUF :: nat where "HASH_BUF = 64 * 1024"

function hash_loop :: "(nat \<Rightarrow> nat option) \<Rightarrow> nat \<Rightarrow> nat \<Rightarrow> bytes \<Rightarrow> bytes \<Rightarrow> (domain_error, bytes \<times> nat) result" where
  "hash_loop R remaining i data h =
     (if 0 < remaining then
        let want = min remaining HASH_BUF in
        case R i of
          None \<Rightarrow> Inl (EStorage ''hash prefix'')
        | Some k \<Rightarrow>
            if data = [] then Inr (h, Suc i)
            else let buf = take (max 1 (min k want)) data
                 in hash_loop R (remaining - length buf) (Suc i) (drop (length buf) data) (h @ buf)
      else Inr (h, i))"
  by pat_completeness auto
termination
  by (relation "measure (\<lambda>(R, remaining, i, data, h). remaining)") (auto simp: HASH_BUF_def)

declare hash_loop.simps [simp del]

text \<open>A hasher is the bytes it has absorbed.\<close>

definition hash_prefix :: "tenv \<Rightarrow> fpath \<Rightarrow> u64 \<Rightarrow> bytes \<Rightarrow> bytes run" where
  "hash_prefix E path len h =
     wbind (on_disk_run (open_read (te_dev E) path 0)) (\<lambda>data w.
       case hash_loop (te_read E) (unat len) (w_reads w) data h of
         Inl e \<Rightarrow> (Some (Inl e), w)
       | Inr (h, i) \<Rightarrow> (Some (Inr h), w\<lparr>w_reads := i\<rparr>))"

section \<open>Pausing and cancelling\<close>

definition signal_pause_edge :: "tenv \<Rightarrow> ctl \<Rightarrow> link_frame \<Rightarrow> link_frame \<Rightarrow> bool \<Rightarrow> world \<Rightarrow> bool \<times> world" where
  "signal_pause_edge E c pause resume signalled w =
     (if c_paused c \<and> \<not> signalled then (True, snd (send_frame E pause w))
      else if \<not> c_paused c \<and> signalled then (False, snd (send_frame E resume w))
      else (signalled, w))"

text \<open>\<open>True\<close> when the transfer was cancelled; the frame that says so is sent with its failure ignored.\<close>

definition cancel_or_pause :: "tenv \<Rightarrow> ctl \<Rightarrow> link_frame \<Rightarrow> nat \<Rightarrow> bool run" where
  "cancel_or_pause E c cancel retries w =
     (if c_cancelled c then (Some (Inr True), snd (send_with_retry E cancel retries w))
      else if c_cancel_wait c then (Some (Inr True), snd (send_with_retry E cancel retries w))
      else if c_paused c \<and> c_stuck c then (None, w)
      else (Some (Inr False), w))"

section \<open>Staging names\<close>

definition PART_SUFFIX :: string where "PART_SUFFIX = ''.part''"

definition part_path :: "fpath \<Rightarrow> fpath" where
  "part_path dest = (fst dest, snd dest @ PART_SUFFIX)"

text \<open>The candidates for n from the given number, as many as attempts are left.\<close>

primrec free_loop :: "dev \<Rightarrow> fpath \<Rightarrow> nat \<Rightarrow> nat \<Rightarrow> disk \<Rightarrow> (domain_error, fpath) result \<times> disk" where
  "free_loop D dest n 0 s = (Inl (ETransfer (''no free name for '' @ snd dest)), s)"
| "free_loop D dest n (Suc left) s =
     (let candidate = (fst dest, numbered n (snd dest)) in
      case storage_size D candidate s of
        (Inl e, s) \<Rightarrow> (Inl e, s)
      | (Inr None, s) \<Rightarrow> (Inr candidate, s)
      | (Inr (Some _), s) \<Rightarrow> free_loop D dest (Suc n) left s)"

definition FREE_ATTEMPTS :: nat where "FREE_ATTEMPTS = 1000"

definition free_destination :: "dev \<Rightarrow> fpath \<Rightarrow> disk \<Rightarrow> (domain_error, fpath) result \<times> disk" where
  "free_destination D dest s = free_loop D dest 1 FREE_ATTEMPTS s"

definition take_claim :: "fpath \<Rightarrow> world \<Rightarrow> bool \<times> world" where
  "take_claim p w = (if p \<in> set (w_claims w) then (False, w) else (True, w\<lparr>w_claims := p # w_claims w\<rparr>))"

definition drop_claim :: "fpath \<Rightarrow> world \<Rightarrow> world" where
  "drop_claim p w = w\<lparr>w_claims := removeAll p (w_claims w)\<rparr>"

definition claim_destination :: "tenv \<Rightarrow> fpath \<Rightarrow> (fpath \<times> fpath) run" where
  "claim_destination E dest w =
     (case take_claim (part_path dest) w of
        (True, w) \<Rightarrow> (Some (Inr (dest, part_path dest)), w)
      | (False, w) \<Rightarrow>
          wbind (on_disk_run (free_destination (te_dev E) dest)) (\<lambda>free w.
            case take_claim (part_path free) w of
              (True, w) \<Rightarrow> (Some (Inr (free, part_path free)), w)
            | (False, w) \<Rightarrow> (Some (Inl (ETransfer (''could not claim a staging file for '' @ snd dest))), w)) w)"

section \<open>What the helpers do\<close>

lemma wbind_cases:
  assumes "wbind m f w = (r, w')"
  obtains (stop) r0 where "m w = (r0, w')" "\<not> (\<exists>a. r0 = Some (Inr a))" "r = (case r0 of None \<Rightarrow> None | Some (Inl e) \<Rightarrow> Some (Inl e) | _ \<Rightarrow> r)" "\<not> (\<exists>a. r = Some (Inr a))"
  | (step) a w1 where "m w = (Some (Inr a), w1)" "f a w1 = (r, w')"
  using assms by (auto simp: wbind_def split: prod.splits option.splits sum.splits)

lemma wbind_ok: "m w = (Some (Inr a), w1) \<Longrightarrow> wbind m f w = f a w1"
  by (simp add: wbind_def)

lemma send_frame_same:
  "w_disk (snd (send_frame E f w)) = w_disk w" "w_in (snd (send_frame E f w)) = w_in w" "w_claims (snd (send_frame E f w)) = w_claims w"
  by (auto simp: send_frame_def split: option.splits)

lemma send_with_retry_same:
  "w_disk (snd (send_with_retry E f n w)) = w_disk w \<and> w_in (snd (send_with_retry E f n w)) = w_in w
   \<and> w_claims (snd (send_with_retry E f n w)) = w_claims w"
proof (induction n arbitrary: w)
  case 0
  then show ?case using send_frame_same by simp
next
  case (Suc n)
  then show ?case using send_frame_same[of E f w] by (auto split: prod.splits option.splits sum.splits)
qed

text \<open>Short reads do not show: a filled buffer is the front of what was left.\<close>

lemma read_fill_spec:
  "read_fill R want i data buf = Inr (out, rest, j) \<Longrightarrow> length buf \<le> want
    \<Longrightarrow> out = buf @ take (want - length buf) data \<and> rest = drop (want - length buf) data"
proof (induction R want i data buf rule: read_fill.induct)
  case (1 R want i data buf)
  show ?case
  proof (cases "length buf < want \<and> data \<noteq> []")
    case True
    then obtain k where k: "R i = Some k" using 1(2) by (auto simp: read_fill.simps[of R want] split: option.splits)
    define n where "n = max 1 (min k (want - length buf))"
    have n: "n \<le> want - length buf" using True by (auto simp: n_def)
    have r: "read_fill R want (Suc i) (drop n data) (buf @ take n data) = Inr (out, rest, j)"
      using 1(2) True k by (simp add: read_fill.simps[of R want i] n_def Let_def)
    have "length (buf @ take n data) \<le> want" using n True by auto
    note ih = 1(1)[OF _ k _ _ , OF _ _ n_def, OF _ _ r this]
    have a: "out = (buf @ take n data) @ take (want - length (buf @ take n data)) (drop n data)"
      "rest = drop (want - length (buf @ take n data)) (drop n data)" using ih True by auto
    show ?thesis
    proof (cases "n \<le> length data")
      case True
      then have "length (buf @ take n data) = length buf + n" by simp
      moreover have "n + (want - (n + length buf)) = want - length buf" using n by simp
      ultimately show ?thesis using a by (simp add: add.commute flip: take_add)
    next
      case False
      then show ?thesis using a n by simp
    qed
  qed (use 1(2) in \<open>auto simp: read_fill.simps[of R want] split: option.splits if_splits\<close>)
qed

lemma read_fill_served:
  "\<forall>i. R i \<noteq> None \<Longrightarrow> \<exists>r. read_fill R want i data buf = Inr r"
proof (induction R want i data buf rule: read_fill.induct)
  case (1 R want i data buf)
  then obtain k where "R i = Some k" by blast
  with 1 show ?case by (subst read_fill.simps) (auto simp: Let_def)
qed

lemma read_fill_all:
  assumes "\<forall>i. R i \<noteq> None"
  obtains j where "read_fill R want i data [] = Inr (take want data, drop want data, j)"
proof -
  obtain out rest j where r: "read_fill R want i data [] = Inr (out, rest, j)" using read_fill_served[OF assms] by (metis prod_cases3)
  from read_fill_spec[OF r] that[of j] r show ?thesis by auto
qed

lemma hash_loop_spec:
  "hash_loop R remaining i data h = Inr (h', j) \<Longrightarrow> h' = h @ take remaining data"
proof (induction R remaining i data h rule: hash_loop.induct)
  case (1 R remaining i data h)
  show ?case
  proof (cases "0 < remaining \<and> data \<noteq> []")
    case True
    then obtain k where k: "R i = Some k" using 1(2) by (auto simp: hash_loop.simps[of R remaining] Let_def split: option.splits)
    define buf where "buf = take (max 1 (min k (min remaining HASH_BUF))) data"
    have l: "length buf \<le> remaining" using True by (auto simp: buf_def)
    have "\<exists>n. buf = take n data" unfolding buf_def by blast
    then have p: "buf = take (length buf) data" by (metis append_eq_conv_conj append_take_drop_id)
    have "hash_loop R (remaining - length buf) (Suc i) (drop (length buf) data) (h @ buf) = Inr (h', j)"
      using 1(2) True k by (simp add: hash_loop.simps[of R remaining i] buf_def Let_def)
    then have "h' = (h @ buf) @ take (remaining - length buf) (drop (length buf) data)"
      using 1(1)[OF _ refl k _ buf_def] True by simp
    moreover have "buf @ take (remaining - length buf) (drop (length buf) data) = take remaining data"
      using l p by (metis le_add_diff_inverse take_add)
    ultimately show ?thesis by simp
  qed (use 1(2) in \<open>auto simp: hash_loop.simps[of R remaining] Let_def split: option.splits if_splits\<close>)
qed

lemma hash_loop_served: "\<forall>i. R i \<noteq> None \<Longrightarrow> \<exists>r. hash_loop R remaining i data h = Inr r"
proof (induction R remaining i data h rule: hash_loop.induct)
  case (1 R remaining i data h)
  then obtain k where "R i = Some k" by blast
  with 1 show ?case by (subst hash_loop.simps) (auto simp: Let_def)
qed

lemma hash_prefix_spec:
  assumes "hash_prefix E path len h w = (r, w')"
  shows "w_claims w' = w_claims w \<and> w_in w' = w_in w \<and> w_out w' = w_out w \<and> dfiles (w_disk w') = dfiles (w_disk w)
    \<and> (\<forall>h'. r = Some (Inr h') \<longrightarrow> (\<exists>b. dfiles (w_disk w) (fp_names path) = Some b \<and> h' = h @ take (unat len) b))"
proof -
  obtain x d where x: "open_read (te_dev E) path 0 (w_disk w) = (x, d)" by fastforce
  show ?thesis
    using assms open_read_files[OF x] hash_loop_spec[of "te_read E" "unat len" "w_reads w" _ h]
    by (auto simp: hash_prefix_def wbind_def on_disk_run_def x split: sum.splits)
qed

end
