(* ===== verification/PB_Stream.thy ===== *)
theory PB_Stream
  imports PB_Transfer
begin

text \<open>
  Sending and receiving one file (\<open>peerbeam-transfer/src/stream.rs\<close>), over the world of
  \<open>PB_Transfer\<close>. The sender announces the file, learns how much of it the receiver already has,
  and streams the rest and a checksum of the whole; the receiver appends to a staging file,
  compares the checksum and only then publishes the file under its name and says so.

  The destination is a directory and the sanitized base name in it, which is what \<open>local_path\<close>
  yields for an ordinary name. A source file is read as it was when it was opened. The rate limiter only delays a send and is
  left out; so is the bounded wait for the sender to hang up after the verdict, of which at most
  one more frame is read.
\<close>

datatype transfer_outcome = T_Completed | T_Cancelled

record send_request =
  sr_id :: string
  sr_name :: string
  sr_path :: fpath
  sr_size :: u64
  sr_chunk_size :: u32

record received =
  rv_outcome :: transfer_outcome
  rv_name :: string
  rv_bytes :: u64
  rv_id :: string

section \<open>Sending\<close>

datatype send_end = Streamed u64 bytes | Stopped

definition send_progress :: "send_request \<Rightarrow> transfer_status \<Rightarrow> u64 \<Rightarrow> world \<Rightarrow> world" where
  "send_progress req status sent =
     report (make_progress (sr_id req) Sending status (max (sr_size req) sent) sent (sr_name req))"

lemma fill_shrinks:
  assumes "read_fill R want i data [] = Inr (buf, rest, j)" "buf \<noteq> []"
  shows "length rest < length data"
proof -
  have "buf = take want data" "rest = drop want data" using read_fill_spec[OF assms(1)] by simp_all
  then show ?thesis using assms(2) by (cases want; cases data) auto
qed

text \<open>One round per chunk: the reader's remaining bytes, what was sent and what was hashed so far.\<close>

function send_loop :: "tenv \<Rightarrow> tjson \<Rightarrow> send_request \<Rightarrow> nat \<Rightarrow> nat \<Rightarrow> nat \<Rightarrow> bool \<Rightarrow> bytes \<Rightarrow> u64 \<Rightarrow> bytes \<Rightarrow> send_end run" where
  "send_loop E J req retries chunk k signalled data sent h w =
     (let c = te_ctl E k;
          (signalled, w) = signal_pause_edge E c (control_frame J Pause_ctl) (control_frame J Resume_ctl) signalled w
      in case cancel_or_pause E c (control_frame J Cancel_ctl) retries w of
           (None, w) \<Rightarrow> (None, w)
         | (Some (Inl e), w) \<Rightarrow> (Some (Inl e), w)
         | (Some (Inr True), w) \<Rightarrow> (Some (Inr Stopped), w)
         | (Some (Inr False), w) \<Rightarrow>
             (case read_fill (te_read E) chunk (w_reads w) data [] of
                Inl e \<Rightarrow> (Some (Inl e), w)
              | Inr (buf, rest, i) \<Rightarrow>
                  let w = w\<lparr>w_reads := i\<rparr> in
                  if buf = [] then (Some (Inr (Streamed sent h)), w)
                  else (case send_with_retry E (chunk_frame buf) retries w of
                          (None, w) \<Rightarrow> (None, w)
                        | (Some (Inl e), w) \<Rightarrow> (Some (Inl e), w)
                        | (Some (Inr _), w) \<Rightarrow>
                            let sent = sent + of_nat (length buf) in
                            send_loop E J req retries chunk (Suc k) signalled rest sent (h @ buf)
                              (send_progress req TS_Transferring sent w))))"
  by pat_completeness auto
termination
  by (relation "measure (\<lambda>(E, J, req, retries, chunk, k, signalled, data, sent, h, w). length data)")
    (auto dest!: sym[of "Inr _"] fill_shrinks)

declare send_loop.simps [simp del]

definition request_meta :: "send_request \<Rightarrow> transfer_meta" where
  "request_meta req = \<lparr>tm_id = sr_id req, tm_name = sr_name req, tm_size = sr_size req, tm_chunk_size = sr_chunk_size req\<rparr>"

definition send_file :: "tenv \<Rightarrow> prims \<Rightarrow> tjson \<Rightarrow> send_request \<Rightarrow> nat \<Rightarrow> transfer_outcome run" where
  "send_file E P J req retries =
     wbind (send_with_retry E (meta_frame J (request_meta req)) retries) (\<lambda>_.
     wbind (recv_resume_ack J) (\<lambda>ack.
       let off = min ack (sr_size req) in
     wbind (if 0 < off then hash_prefix E (sr_path req) off [] else done_with []) (\<lambda>h.
     wbind (on_disk_run (open_read (te_dev E) (sr_path req) off)) (\<lambda>data.
     wbind (send_loop E J req retries (unat (max (sr_chunk_size req) 1)) 0 False data off h) (\<lambda>r.
       case r of
         Stopped \<Rightarrow> done_with T_Cancelled
       | Streamed sent h \<Rightarrow>
           wbind (send_with_retry E (control_frame J (Complete_ctl (to_hex (sha256 P h)))) retries) (\<lambda>_.
           wbind (recv_verify J) (\<lambda>ok.
             if ok then (\<lambda>w. (Some (Inr T_Completed), send_progress req TS_Completed sent w))
             else fail_with (EIntegrity ''receiver reported checksum mismatch''))))))))"

section \<open>Receiving\<close>

definition recv_progress :: "transfer_meta \<Rightarrow> string \<Rightarrow> transfer_status \<Rightarrow> u64 \<Rightarrow> world \<Rightarrow> world" where
  "recv_progress meta name status rcvd =
     report (make_progress (tm_id meta) Receiving status (max (tm_size meta) rcvd) rcvd name)"

text \<open>The receiver's own pause is reported once per edge.\<close>

definition pause_report :: "transfer_meta \<Rightarrow> string \<Rightarrow> ctl \<Rightarrow> bool \<Rightarrow> u64 \<Rightarrow> world \<Rightarrow> bool \<times> world" where
  "pause_report meta base c signalled rcvd w =
     (if c_paused c \<and> \<not> signalled then (True, recv_progress meta base TS_Paused rcvd w)
      else if \<not> c_paused c \<and> signalled then (False, recv_progress meta base TS_Transferring rcvd w)
      else (signalled, w))"

text \<open>How the receiving loop ends: the outcome, the bytes received, and whether the checksum agreed.\<close>

record recv_end =
  re_outcome :: transfer_outcome
  re_bytes :: u64
  re_intact :: bool

lemma pause_report_in: "pause_report meta base c s n w = (s', w') \<Longrightarrow> w_in w' = w_in w"
  by (auto simp: pause_report_def recv_progress_def report_def split: if_splits)

text \<open>One frame: the loop goes on with what was received and hashed, or ends.\<close>

datatype recv_next = Again u64 bytes world | Ended "(domain_error, recv_end) result" world

definition on_control :: "prims \<Rightarrow> transfer_meta \<Rightarrow> string \<Rightarrow> tcontrol \<Rightarrow> u64 \<Rightarrow> bytes \<Rightarrow> world \<Rightarrow> recv_next" where
  "on_control P meta base c rcvd h w =
     (case c of
        Complete_ctl checksum \<Rightarrow>
          Ended (Inr \<lparr>re_outcome = T_Completed, re_bytes = rcvd, re_intact = (to_hex (sha256 P h) = checksum)\<rparr>) w
      | Cancel_ctl \<Rightarrow> Ended (Inr \<lparr>re_outcome = T_Cancelled, re_bytes = rcvd, re_intact = True\<rparr>) w
      | Pause_ctl \<Rightarrow> Again rcvd h (recv_progress meta base TS_Paused rcvd w)
      | Resume_ctl \<Rightarrow> Again rcvd h (recv_progress meta base TS_Transferring rcvd w)
      | _ \<Rightarrow> Again rcvd h w)"

definition on_chunk :: "tenv \<Rightarrow> transfer_meta \<Rightarrow> string \<Rightarrow> fpath \<Rightarrow> bytes \<Rightarrow> u64 \<Rightarrow> bytes \<Rightarrow> world \<Rightarrow> recv_next" where
  "on_chunk E meta base part payload rcvd h w =
     (let total = rcvd + of_nat (length payload) in
      if tm_size meta < total then Ended (Inl (ETransfer ''sender exceeded the size it declared'')) w
      else case write_all (te_dev E) part payload (w_disk w) of
             (Inl e, d) \<Rightarrow> Ended (Inl e) (w\<lparr>w_disk := d\<rparr>)
           | (Inr _, d) \<Rightarrow> Again total (h @ payload) (recv_progress meta base TS_Transferring total (w\<lparr>w_disk := d\<rparr>)))"

definition on_frame :: "tenv \<Rightarrow> prims \<Rightarrow> tjson \<Rightarrow> transfer_meta \<Rightarrow> string \<Rightarrow> fpath \<Rightarrow> link_frame \<Rightarrow> u64 \<Rightarrow> bytes \<Rightarrow> world \<Rightarrow> recv_next" where
  "on_frame E P J meta base part f rcvd h w =
     (case lf_kind f of
        Chunk_frame \<Rightarrow> on_chunk E meta base part (lf_payload f) rcvd h w
      | Control_frame \<Rightarrow>
          (case parse_control J f of Inl e \<Rightarrow> Ended (Inl e) w | Inr c \<Rightarrow> on_control P meta base c rcvd h w)
      | _ \<Rightarrow> Again rcvd h w)"

lemma on_frame_in: "on_frame E P J meta base part f rcvd h w = Again rcvd' h' w' \<Longrightarrow> w_in w' = w_in w"
  by (auto simp: on_frame_def on_chunk_def on_control_def recv_progress_def report_def Let_def
      split: frame_kind.splits sum.splits tcontrol.splits if_splits prod.splits)

definition stop_receiving :: "tenv \<Rightarrow> tjson \<Rightarrow> u64 \<Rightarrow> recv_end run" where
  "stop_receiving E J rcvd w =
     (Some (Inr \<lparr>re_outcome = T_Cancelled, re_bytes = rcvd, re_intact = True\<rparr>), snd (send_frame E (control_frame J Cancel_ctl) w))"

function recv_loop :: "tenv \<Rightarrow> prims \<Rightarrow> tjson \<Rightarrow> transfer_meta \<Rightarrow> string \<Rightarrow> fpath \<Rightarrow> nat \<Rightarrow> bool \<Rightarrow> u64 \<Rightarrow> bytes \<Rightarrow> recv_end run" where
  "recv_loop E P J meta base part k signalled rcvd h w =
     (let c = te_ctl E k in
      if c_cancelled c then stop_receiving E J rcvd w
      else case pause_report meta base c signalled rcvd w of
        (signalled, w) \<Rightarrow>
          if c_cancel_wait c then stop_receiving E J rcvd w
          else if c_paused c \<and> c_stuck c then (None, w)
          else case w_in w of
                 [] \<Rightarrow> (None, w)
               | Inl e # r \<Rightarrow> (Some (Inl e), w\<lparr>w_in := r\<rparr>)
               | Inr None # r \<Rightarrow> (Some (Inl (ETransfer ''link closed before transfer completed'')), w\<lparr>w_in := r\<rparr>)
               | Inr (Some f) # r \<Rightarrow>
                   (case on_frame E P J meta base part f rcvd h (w\<lparr>w_in := r\<rparr>) of
                      Again rcvd h w \<Rightarrow> recv_loop E P J meta base part (Suc k) signalled rcvd h w
                    | Ended x w \<Rightarrow> (Some x, w)))"
  by pat_completeness auto
termination
  by (relation "measure (\<lambda>(E, P, J, meta, base, part, k, signalled, rcvd, h, w). length (w_in w))")
    (auto dest!: sym[of "(_, _)" "pause_report _ _ _ _ _ _"] pause_report_in on_frame_in)

declare recv_loop.simps [simp del]

text \<open>Everything that has to succeed before the file counts as received.\<close>

definition land :: "tenv \<Rightarrow> string \<Rightarrow> recv_end \<Rightarrow> fpath \<Rightarrow> fpath \<Rightarrow> disk \<Rightarrow> (domain_error, fpath option) result \<times> disk" where
  "land E base r part dest d =
     (case flush_file (te_dev E) part d of
        (Inl e, d) \<Rightarrow> (Inl e, d)
      | (Inr _, d) \<Rightarrow>
          (case close_file (te_dev E) d of
             (Inl e, d) \<Rightarrow> (Inl e, d)
           | (Inr _, d) \<Rightarrow>
               if re_outcome r \<noteq> T_Completed then (Inr None, d)
               else if \<not> re_intact r
               then (Inl (EIntegrity (''checksum mismatch for '' @ base)), snd (remove_file (te_dev E) part d))
               else (case finalize (te_dev E) part dest d of (x, d) \<Rightarrow> (rbind x (\<lambda>p. Inr (Some p)), d))))"

definition open_part :: "tenv \<Rightarrow> fpath \<Rightarrow> u64 \<Rightarrow> bytes run" where
  "open_part E part existing =
     (if 0 < existing
      then wbind (hash_prefix E part existing []) (\<lambda>h. wbind (on_disk_run (open_append (te_dev E) part)) (\<lambda>_. done_with h))
      else wbind (on_disk_run (open_write (te_dev E) part)) (\<lambda>_. done_with []))"

text \<open>The verdict, sent once the file has landed or failed to; then the wait for the sender.\<close>

definition answer_verify :: "tenv \<Rightarrow> tjson \<Rightarrow> bool \<Rightarrow> world \<Rightarrow> world" where
  "answer_verify E J ok w =
     (let w = snd (send_with_retry E (control_frame J (Verify_ctl ok)) 0 w) in w\<lparr>w_in := drop 1 (w_in w)\<rparr>)"

definition finish_receive :: "tenv \<Rightarrow> tjson \<Rightarrow> transfer_meta \<Rightarrow> string \<Rightarrow> fpath \<Rightarrow> fpath \<Rightarrow> recv_end \<Rightarrow> received run" where
  "finish_receive E J meta base part dest r w =
     (case land E base r part dest (w_disk w) of
        (landed, d) \<Rightarrow>
          let w = w\<lparr>w_disk := d\<rparr>;
              w = (if re_outcome r = T_Completed then answer_verify E J (is_ok landed) w else w)
          in case landed of
               Inl e \<Rightarrow> (Some (Inl e), w)
             | Inr None \<Rightarrow> (Some (Inr \<lparr>rv_outcome = re_outcome r, rv_name = base, rv_bytes = re_bytes r, rv_id = tm_id meta\<rparr>), w)
             | Inr (Some final) \<Rightarrow>
                 (Some (Inr \<lparr>rv_outcome = re_outcome r, rv_name = snd final, rv_bytes = re_bytes r, rv_id = tm_id meta\<rparr>),
                  recv_progress meta (snd final) TS_Completed (re_bytes r) w))"

text \<open>The body under the staging claim, which is released on every way out.\<close>

definition receive_claimed :: "tenv \<Rightarrow> prims \<Rightarrow> tjson \<Rightarrow> transfer_meta \<Rightarrow> string \<Rightarrow> fpath \<Rightarrow> fpath \<Rightarrow> received run" where
  "receive_claimed E P J meta base dest part =
     wbind (on_disk_run (storage_size (te_dev E) part)) (\<lambda>sz.
       let existing = min (case sz of None \<Rightarrow> 0 | Some n \<Rightarrow> n) (tm_size meta) in
     wbind (send_with_retry E (control_frame J (ResumeAck_ctl existing)) 0) (\<lambda>_.
     wbind (open_part E part existing) (\<lambda>h.
     wbind (recv_loop E P J meta base part 0 False existing h) (finish_receive E J meta base part dest))))"

definition receive_file :: "tenv \<Rightarrow> prims \<Rightarrow> tjson \<Rightarrow> (string \<Rightarrow> path) \<Rightarrow> bool \<Rightarrow> string list \<Rightarrow> received run" where
  "receive_file E P J host windows dest_dir =
     wbind (recv_meta J) (\<lambda>meta.
       let base = sanitize_file_name host windows (tm_name meta) in
     wbind (claim_destination E (dest_dir, base)) (\<lambda>(dest, part) w.
       case receive_claimed E P J meta base dest part w of
         (r, w) \<Rightarrow> (r, if r = None then w else drop_claim part w)))"

end
