(* ===== verification/PB_Stream_Props.thy ===== *)
theory PB_Stream_Props
  imports PB_Stream
begin

text \<open>
  What a receive does to the files of the destination directory whatever the peer sends: the
  receiving loop, the staging file, landing, and the claim on the staging name.
\<close>

section \<open>The receiving loop\<close>

definition chunk_bytes :: "inbox \<Rightarrow> nat" where
  "chunk_bytes xs = sum_list (map (\<lambda>x. case x of Inr (Some f) \<Rightarrow> length (lf_payload f) | _ \<Rightarrow> 0) xs)"

lemma chunk_bytes_simps [simp]:
  "chunk_bytes [] = 0" "chunk_bytes (Inl e # r) = chunk_bytes r" "chunk_bytes (Inr None # r) = chunk_bytes r"
  "chunk_bytes (Inr (Some f) # r) = length (lf_payload f) + chunk_bytes r"
  by (simp_all add: chunk_bytes_def)

lemma report_same [simp]:
  "w_disk (report p w) = w_disk w" "w_in (report p w) = w_in w" "w_claims (report p w) = w_claims w" "w_out (report p w) = w_out w"
  "w_tries (report p w) = w_tries w" "w_reads (report p w) = w_reads w"
  by (simp_all add: report_def)

lemma recv_progress_same [simp]:
  "w_disk (recv_progress m b s n w) = w_disk w" "w_in (recv_progress m b s n w) = w_in w"
  "w_claims (recv_progress m b s n w) = w_claims w" "w_out (recv_progress m b s n w) = w_out w"
  by (simp_all add: recv_progress_def)

lemma pause_report_same:
  "pause_report m b c s n w = (s', w') \<Longrightarrow> w_disk w' = w_disk w \<and> w_in w' = w_in w \<and> w_claims w' = w_claims w \<and> w_out w' = w_out w \<and> w_tries w' = w_tries w"
  by (auto simp: pause_report_def recv_progress_def split: if_splits)

text \<open>What a run of the loop adds to the staging file, and what it reports.\<close>

definition completes_with :: "tjson \<Rightarrow> inbox \<Rightarrow> string \<Rightarrow> bool" where
  "completes_with J xs checksum =
     (\<exists>f. Inr (Some f) \<in> set xs \<and> lf_kind f = Control_frame \<and> parse_control J f = Inr (Complete_ctl checksum))"

lemma completes_with_mono: "completes_with J xs c \<Longrightarrow> set xs \<subseteq> set ys \<Longrightarrow> completes_with J ys c"
  by (auto simp: completes_with_def)

definition loop_result :: "prims \<Rightarrow> tjson \<Rightarrow> transfer_meta \<Rightarrow> fpath \<Rightarrow> u64 \<Rightarrow> bytes \<Rightarrow> bytes \<Rightarrow> world
    \<Rightarrow> (domain_error, recv_end) result option \<Rightarrow> world \<Rightarrow> bytes \<Rightarrow> bool" where
  "loop_result P J meta part rcvd h b w r w' ws =
     (dfiles (w_disk w') = (dfiles (w_disk w))(fp_names part \<mapsto> b @ ws) \<and> unat rcvd + length ws \<le> unat (tm_size meta)
      \<and> w_claims w' = w_claims w
      \<and> (\<forall>e. r = Some (Inr e) \<longrightarrow> unat (re_bytes e) = unat rcvd + length ws
           \<and> (re_outcome e = T_Completed \<longrightarrow>
                (\<exists>c. completes_with J (w_in w) c \<and> re_intact e = (to_hex (sha256 P (h @ ws)) = c)))))"

lemma loop_result_stop:
  assumes "dfiles (w_disk w) (fp_names part) = Some b" "dfiles (w_disk w') = dfiles (w_disk w)" "w_claims w' = w_claims w"
    "unat rcvd \<le> unat (tm_size meta)" "\<forall>e. r = Some (Inr e) \<longrightarrow> re_bytes e = rcvd \<and> re_outcome e = T_Cancelled"
  shows "loop_result P J meta part rcvd h b w r w' []"
  using assms by (auto simp: loop_result_def)

lemma loop_result_chunk:
  assumes "loop_result P J meta part (rcvd + of_nat (length p)) (h @ p) (b @ p) w1 r w' ws"
    "dfiles (w_disk w1) = (dfiles (w_disk w))(fp_names part \<mapsto> b @ p)" "w_claims w1 = w_claims w"
    "set (w_in w1) \<subseteq> set (w_in w)" "unat (rcvd + of_nat (length p)) = unat rcvd + length p"
  shows "loop_result P J meta part rcvd h b w r w' (p @ ws)"
  using assms(1-3,5) completes_with_mono[OF _ assms(4), of J] unfolding loop_result_def by (auto; blast)

lemma loop_result_skip:
  assumes "loop_result P J meta part rcvd h b w1 r w' ws" "dfiles (w_disk w1) = dfiles (w_disk w)" "w_claims w1 = w_claims w"
    "set (w_in w1) \<subseteq> set (w_in w)"
  shows "loop_result P J meta part rcvd h b w r w' ws"
  using assms(1-3) completes_with_mono[OF _ assms(4), of J] unfolding loop_result_def by (auto; blast)

text \<open>One round, by what the user's handle and the link say.\<close>

definition ctl_stops :: "ctl \<Rightarrow> bool" where
  "ctl_stops c = (c_cancelled c \<or> c_cancel_wait c \<or> c_paused c \<and> c_stuck c)"

lemma recv_loop_stops:
  assumes "ctl_stops (te_ctl E k)" "recv_loop E P J meta base part k sg rcvd h w = (r, w')"
  shows "w_disk w' = w_disk w \<and> w_claims w' = w_claims w \<and> (\<forall>e. r = Some (Inr e) \<longrightarrow> re_bytes e = rcvd \<and> re_outcome e = T_Cancelled)"
proof -
  obtain sg1 w1 where p: "pause_report meta base (te_ctl E k) sg rcvd w = (sg1, w1)" by fastforce
  note s = pause_report_same[OF p]
  note f = send_frame_same[of E "control_frame J Cancel_ctl"]
  show ?thesis
    using assms s f by (auto simp: recv_loop.simps[of E P J meta base part k sg rcvd h w] p ctl_stops_def stop_receiving_def Let_def split: if_splits)
qed

lemma recv_loop_round:
  assumes "\<not> ctl_stops (te_ctl E k)"
  obtains sg1 w1 where "w_disk w1 = w_disk w" "w_in w1 = w_in w" "w_claims w1 = w_claims w" "w_out w1 = w_out w"
    "w_tries w1 = w_tries w"
    "recv_loop E P J meta base part k sg rcvd h w =
       (case w_in w of
          [] \<Rightarrow> (None, w1)
        | Inl e # t \<Rightarrow> (Some (Inl e), w1\<lparr>w_in := t\<rparr>)
        | Inr None # t \<Rightarrow> (Some (Inl (ETransfer ''link closed before transfer completed'')), w1\<lparr>w_in := t\<rparr>)
        | Inr (Some f) # t \<Rightarrow>
            (case on_frame E P J meta base part f rcvd h (w1\<lparr>w_in := t\<rparr>) of
               Again rcvd h w \<Rightarrow> recv_loop E P J meta base part (Suc k) sg1 rcvd h w
             | Ended x w \<Rightarrow> (Some x, w)))"
proof -
  obtain sg1 w1 where p: "pause_report meta base (te_ctl E k) sg rcvd w = (sg1, w1)" by fastforce
  note s = pause_report_same[OF p]
  have c: "\<not> c_cancelled (te_ctl E k)" "\<not> c_cancel_wait (te_ctl E k)" "(c_paused (te_ctl E k) \<and> c_stuck (te_ctl E k)) = False"
    using assms by (auto simp: ctl_stops_def)
  show ?thesis
    by (rule that[of w1 sg1]) (use s c in \<open>auto simp: recv_loop.simps[of E P J meta base part k sg rcvd h w] p Let_def\<close>)
qed

lemma on_frame_spec:
  assumes "dfiles (w_disk w) (fp_names part) = Some b" "unat rcvd + length (lf_payload f) < 2 ^ 64" "unat rcvd \<le> unat (tm_size meta)"
  shows "case on_frame E P J meta base part f rcvd h w of
      Again rcvd' h' w' \<Rightarrow> \<exists>p. h' = h @ p \<and> unat rcvd' = unat rcvd + length p \<and> unat rcvd' \<le> unat (tm_size meta) \<and> length p \<le> length (lf_payload f)
        \<and> dfiles (w_disk w') = (dfiles (w_disk w))(fp_names part \<mapsto> b @ p) \<and> w_claims w' = w_claims w \<and> w_in w' = w_in w
        \<and> w_out w' = w_out w
    | Ended x w' \<Rightarrow> \<exists>p. (is_ok x \<longrightarrow> p = []) \<and> unat rcvd + length p \<le> unat (tm_size meta)
        \<and> dfiles (w_disk w') = (dfiles (w_disk w))(fp_names part \<mapsto> b @ p) \<and> w_claims w' = w_claims w
        \<and> (\<forall>e. x = Inr e \<longrightarrow> re_bytes e = rcvd \<and> (re_outcome e = T_Completed \<longrightarrow>
             lf_kind f = Control_frame \<and> (\<exists>c. parse_control J f = Inr (Complete_ctl c) \<and> re_intact e = (to_hex (sha256 P h) = c))))"
proof (cases "lf_kind f = Chunk_frame")
  case True
  let ?p = "lf_payload f"
  have u: "unat (rcvd + of_nat (length ?p)) = unat rcvd + length ?p"
    using assms(2) by (subst unat_plus_small) (simp_all add: unat_small)
  obtain x d where x: "write_all (te_dev E) part ?p (w_disk w) = (x, d)" by fastforce
  show ?thesis
  proof (cases "tm_size meta < rcvd + of_nat (length ?p)")
    case True
    then show ?thesis using \<open>lf_kind f = Chunk_frame\<close> assms
      by (auto simp: on_frame_def on_chunk_def Let_def fun_upd_idem intro!: exI[of _ "[]"])
  next
    case False
    then have le: "unat rcvd + length ?p \<le> unat (tm_size meta)" using u by (simp add: word_less_nat_alt)
    obtain n where "is_ok x \<longrightarrow> n = length ?p" "dfiles d = (dfiles (w_disk w))(fp_names part \<mapsto> b @ take n ?p)"
      using write_all_files[OF x] assms(1) by auto
    then show ?thesis using True False le u x
      by (cases x) (auto simp: on_frame_def on_chunk_def Let_def intro!: exI[of _ "take n ?p"])
  qed
next
  case False
  then show ?thesis using assms
    by (auto simp: on_frame_def on_control_def fun_upd_idem intro!: exI[of _ "[]"] split: frame_kind.splits sum.splits tcontrol.splits)
qed

lemma recv_loop_spec:
  assumes "recv_loop E P J meta base part k sg rcvd h w = (r, w')" "dfiles (w_disk w) (fp_names part) = Some b"
    "unat rcvd + chunk_bytes (w_in w) < 2 ^ 64" "unat rcvd \<le> unat (tm_size meta)"
  shows "\<exists>ws. loop_result P J meta part rcvd h b w r w' ws"
  using assms
proof (induction "length (w_in w)" arbitrary: k sg rcvd h w b rule: less_induct)
  case less
  show ?case
  proof (cases "ctl_stops (te_ctl E k)")
    case True
    then show ?thesis using recv_loop_stops[OF True less(2)] loop_result_stop[OF less(3)] less(5) by metis
  next
    case False
    obtain sg1 w1 where w1: "w_disk w1 = w_disk w" "w_in w1 = w_in w" "w_claims w1 = w_claims w" and
      run: "recv_loop E P J meta base part k sg rcvd h w = (case w_in w of
          [] \<Rightarrow> (None, w1)
        | Inl e # t \<Rightarrow> (Some (Inl e), w1\<lparr>w_in := t\<rparr>)
        | Inr None # t \<Rightarrow> (Some (Inl (ETransfer ''link closed before transfer completed'')), w1\<lparr>w_in := t\<rparr>)
        | Inr (Some f) # t \<Rightarrow>
            (case on_frame E P J meta base part f rcvd h (w1\<lparr>w_in := t\<rparr>) of
               Again rcvd h w \<Rightarrow> recv_loop E P J meta base part (Suc k) sg1 rcvd h w
             | Ended x w \<Rightarrow> (Some x, w)))"
      by (rule recv_loop_round[OF False])
    note run = run[unfolded less(2)]
    show ?thesis
    proof (cases "\<exists>f t. w_in w = Inr (Some f) # t")
      case False
      then have "w_disk w' = w_disk w" "w_claims w' = w_claims w" "\<nexists>e. r = Some (Inr e)"
        using run w1 by (auto split: list.splits sum.splits option.splits)
      then show ?thesis using loop_result_stop[OF less(3)] less(5) by metis
    next
      case True
      then obtain f t where f: "w_in w = Inr (Some f) # t" by blast
      let ?w = "w1\<lparr>w_in := t\<rparr>"
      have fits: "unat rcvd + length (lf_payload f) < 2 ^ 64" using less(4) f by simp
      note spec = on_frame_spec[of ?w part b, OF _ fits less(5), where E = E and P = P and J = J and base = base and h = h]
      show ?thesis
      proof (cases "on_frame E P J meta base part f rcvd h ?w")
        case (Again rcvd' h' w2)
        then obtain p where p: "h' = h @ p" "unat rcvd' = unat rcvd + length p" "unat rcvd' \<le> unat (tm_size meta)" "length p \<le> length (lf_payload f)"
          "dfiles (w_disk w2) = (dfiles (w_disk w))(fp_names part \<mapsto> b @ p)" "w_claims w2 = w_claims w" "w_in w2 = t"
          using spec w1 less(3) by auto
        have "recv_loop E P J meta base part (Suc k) sg1 rcvd' h' w2 = (r, w')" using run f Again by simp
        then obtain ws where "loop_result P J meta part rcvd' h' (b @ p) w2 r w' ws"
          using less(1)[of w2 "Suc k" sg1 rcvd' h' "b @ p"] p less(4) f by fastforce
        moreover have "rcvd' = rcvd + of_nat (length p)"
          using p(2,4) fits by (simp add: word_unat_eq_iff unat_plus_small unat_small)
        ultimately show ?thesis using loop_result_chunk[of P J meta part rcvd p h b w2 r w' ws w] p f by auto
      next
        case (Ended x w2)
        then have r: "r = Some x" "w' = w2" using run f by auto
        from Ended spec w1 less(3) obtain p where "is_ok x \<longrightarrow> p = []" "unat rcvd + length p \<le> unat (tm_size meta)"
          "dfiles (w_disk w2) = (dfiles (w_disk w))(fp_names part \<mapsto> b @ p)" "w_claims w2 = w_claims w"
          "\<forall>e. x = Inr e \<longrightarrow> re_bytes e = rcvd \<and> (re_outcome e = T_Completed \<longrightarrow>
             lf_kind f = Control_frame \<and> (\<exists>c. parse_control J f = Inr (Complete_ctl c) \<and> re_intact e = (to_hex (sha256 P h) = c)))"
          by auto
        moreover have "lf_kind f = Control_frame \<Longrightarrow> parse_control J f = Inr (Complete_ctl c) \<Longrightarrow> completes_with J (w_in w) c" for c
          using f by (auto simp: completes_with_def)
        ultimately have "loop_result P J meta part rcvd h b w r w' p" using r by (fastforce simp: loop_result_def)
        then show ?thesis by blast
      qed
    qed
  qed
qed

section \<open>Landing\<close>

text \<open>Where a file may land.\<close>

definition new_file :: "fpath \<Rightarrow> (string list \<Rightarrow> bytes option) \<Rightarrow> fpath \<Rightarrow> bool" where
  "new_file dest F p = (p \<in> candidates dest \<and> F (fp_names p) = None)"

lemma land_spec:
  assumes "land E base r part dest d = (x, d')" "dfiles d (fp_names part) = Some b"
  shows "case x of
      Inr (Some final) \<Rightarrow> re_outcome r = T_Completed \<and> re_intact r \<and> new_file dest (dfiles d) final
        \<and> dfiles d' = (dfiles d)(fp_names part := None, fp_names final \<mapsto> b)
    | Inr None \<Rightarrow> re_outcome r \<noteq> T_Completed \<and> dfiles d' = dfiles d
    | Inl e \<Rightarrow> (\<exists>c. dfiles d' = (dfiles d)(fp_names part := c)
        \<or> (\<exists>p. new_file dest (dfiles d) p \<and> dfiles d' = (dfiles d)(fp_names part := c, fp_names p \<mapsto> [])))"
proof -
  obtain x1 d1 where f: "flush_file (te_dev E) part d = (x1, d1)" by fastforce
  obtain k where k: "dfiles d1 = (dfiles d)(fp_names part \<mapsto> (if is_ok x1 then b else take k b))"
    using flush_file_files[OF f] assms(2) by auto
  obtain x2 d2 where c: "close_file (te_dev E) d1 = (x2, d2)" by fastforce
  have d2: "dfiles d2 = dfiles d1" using close_file_files[OF c] .
  obtain ok d3 where m: "remove_file (te_dev E) part d2 = (ok, d3)" by fastforce
  obtain x4 d4 where z: "finalize (te_dev E) part dest d2 = (x4, d4)" by fastforce
  show ?thesis
  proof (cases "is_ok x1 \<and> is_ok x2")
    case False
    then have "x = Inl (case x1 of Inl e \<Rightarrow> e | _ \<Rightarrow> projl x2)" "dfiles d' = dfiles d1"
      using assms(1) f c d2 by (auto simp: land_def split: sum.splits)
    then show ?thesis using k by auto
  next
    case True
    then have same: "dfiles d2 = dfiles d" using k d2 assms(2) by (simp add: fun_upd_idem)
    note t = True f c assms(1)
    show ?thesis
    proof (cases "re_outcome r = T_Completed \<and> re_intact r")
      case False
      have "dfiles d3 = (dfiles d)(fp_names part := (if ok then None else Some b))"
        using remove_file_files[OF m] same assms(2) by (simp add: fun_upd_idem)
      then show ?thesis using t same m False by (cases x1; cases x2) (auto simp: land_def split: if_splits)
    next
      case True
      have b2: "dfiles d2 (fp_names part) = Some b" using same assms(2) by simp
      have x: "x = rbind x4 (\<lambda>p. Inr (Some p))" "d' = d4" using t True z by (cases x1; cases x2; auto simp: land_def)+
      have abs: "fs_lookup (fp_names p) (dk_root d2) = IoNotFound \<Longrightarrow> dfiles d (fp_names p) = None" for p
        using same dfiles_absent[of p d2] by simp
      show ?thesis
      proof (cases x4)
        case (Inl e)
        then have "dfiles d4 = (dfiles d)(fp_names part \<mapsto> b)
            \<or> (\<exists>p. new_file dest (dfiles d) p \<and> dfiles d4 = (dfiles d)(fp_names part \<mapsto> b, fp_names p \<mapsto> []))"
          using finalize_files[OF z b2] abs same assms(2) by (auto simp: new_file_def fun_upd_idem)
        then have "\<exists>c. dfiles d' = (dfiles d)(fp_names part := c)
            \<or> (\<exists>p. new_file dest (dfiles d) p \<and> dfiles d' = (dfiles d)(fp_names part := c, fp_names p \<mapsto> []))" unfolding x(2) by blast
        then show ?thesis using x(1) Inl by simp
      next
        case (Inr final)
        then show ?thesis using finalize_files[OF z b2] abs[of final] same x True by (auto simp: new_file_def)
      qed
    qed
  qed
qed

section \<open>One receive\<close>

lemma open_part_spec:
  assumes "open_part E part ex w = (r, w')"
  shows "w_claims w' = w_claims w \<and> w_in w' = w_in w \<and>
    (case r of
       Some (Inr h) \<Rightarrow> (if 0 < ex then (\<exists>b. dfiles (w_disk w) (fp_names part) = Some b \<and> h = take (unat ex) b \<and> dfiles (w_disk w') = dfiles (w_disk w))
                        else h = [] \<and> dfiles (w_disk w') = (dfiles (w_disk w))(fp_names part \<mapsto> []))
     | _ \<Rightarrow> dfiles (w_disk w') = dfiles (w_disk w))"
proof (cases "0 < ex")
  case True
  obtain r1 w1 where h: "hash_prefix E part ex [] w = (r1, w1)" by fastforce
  obtain x d where a: "open_append (te_dev E) part (w_disk w1) = (x, d)" by fastforce
  show ?thesis using assms True hash_prefix_spec[OF h] open_append_files[OF a] h a
    by (auto simp: open_part_def wbind_def on_disk_run_def done_with_def fun_upd_idem split: option.splits sum.splits if_splits)
next
  case False
  obtain x d where a: "open_write (te_dev E) part (w_disk w) = (x, d)" by fastforce
  show ?thesis using assms False open_write_files[OF a] a
    by (cases x) (auto simp: open_part_def wbind_def on_disk_run_def done_with_def)
qed

text \<open>The part of the old staging file that is kept.\<close>

definition kept_part :: "transfer_meta \<Rightarrow> bytes option \<Rightarrow> bytes" where
  "kept_part meta old = (case old of None \<Rightarrow> [] | Some b \<Rightarrow> if tm_size meta = 0 then [] else b)"

definition receive_result :: "prims \<Rightarrow> tjson \<Rightarrow> transfer_meta \<Rightarrow> fpath \<Rightarrow> fpath \<Rightarrow> world
    \<Rightarrow> (domain_error, received) result option \<Rightarrow> world \<Rightarrow> bool" where
  "receive_result P J meta dest part w r w' =
     (let F = dfiles (w_disk w); F' = dfiles (w_disk w') in
      w_claims w' = w_claims w \<and>
      (case r of
         Some (Inr rv) \<Rightarrow>
           if rv_outcome rv = T_Completed
           then (\<exists>final ws checksum. let b = kept_part meta (F (fp_names part)); content = b @ ws in
                   new_file dest F final \<and> snd final = rv_name rv \<and> F' = F(fp_names part := None, fp_names final \<mapsto> content)
                   \<and> completes_with J (w_in w) checksum \<and> to_hex (sha256 P (take (unat (tm_size meta)) b @ ws)) = checksum
                   \<and> unat (rv_bytes rv) = min (length b) (unat (tm_size meta)) + length ws \<and> unat (rv_bytes rv) \<le> unat (tm_size meta))
           else (\<exists>c. F' = F(fp_names part := c))
       | _ \<Rightarrow> (\<exists>c. F' = F(fp_names part := c) \<or> (\<exists>p. new_file dest F p \<and> F' = F(fp_names part := c, fp_names p \<mapsto> [])))))"

lemma receive_result_keep:
  assumes "w_claims w' = w_claims w" "dfiles (w_disk w') = (dfiles (w_disk w))(fp_names part := c)" "\<not> (\<exists>rv. r = Some (Inr rv))"
  shows "receive_result P J meta dest part w r w'"
  using assms by (auto simp: receive_result_def Let_def split: option.splits sum.splits)

lemma answer_verify_same [simp]: "w_disk (answer_verify E J ok w) = w_disk w" "w_claims (answer_verify E J ok w) = w_claims w"
  using send_with_retry_same[of E "control_frame J (Verify_ctl ok)" 0 w] by (auto simp: answer_verify_def Let_def)

lemma new_file_upd: "new_file dest (F(fp_names part \<mapsto> b)) p \<Longrightarrow> new_file dest F p \<and> p \<noteq> part"
  by (auto simp: new_file_def split: if_splits)

lemma finish_receive_spec:
  assumes run: "finish_receive E J meta base part dest e w1 = (r, w')"
    and loop: "dfiles (w_disk w1) = F(fp_names part \<mapsto> b @ ws)" "w_claims w1 = w_claims w" "F = dfiles (w_disk w)"
      "unat (re_bytes e) = min (length b) (unat (tm_size meta)) + length ws" "unat (re_bytes e) \<le> unat (tm_size meta)"
      "re_outcome e = T_Completed \<longrightarrow> (\<exists>c. completes_with J (w_in w) c \<and> re_intact e = (to_hex (sha256 P (take (unat (tm_size meta)) b @ ws)) = c))"
    and b: "b = kept_part meta (F (fp_names part))"
  shows "receive_result P J meta dest part w r w'"
proof -
  obtain x d where l: "land E base e part dest (w_disk w1) = (x, d)" by fastforce
  have "dfiles (w_disk w1) (fp_names part) = Some (b @ ws)" using loop(1) by simp
  note spec = land_spec[OF l this]
  have w': "w_disk w' = d" "w_claims w' = w_claims w" using run l loop(2) by (auto simp: finish_receive_def Let_def split: sum.splits option.splits if_splits)
  show ?thesis
  proof (cases x)
    case (Inl err)
    then obtain c where "dfiles d = F(fp_names part := c) \<or> (\<exists>p. new_file dest F p \<and> dfiles d = F(fp_names part := c, fp_names p \<mapsto> []))"
      using spec loop(1) new_file_upd[of dest F part "b @ ws"] by fastforce
    moreover have "r = Some (Inl err)" using run l Inl by (simp add: finish_receive_def Let_def)
    ultimately show ?thesis using w' loop(3) by (auto simp: receive_result_def Let_def)
  next
    case (Inr y)
    show ?thesis
    proof (cases y)
      case None
      then have "re_outcome e \<noteq> T_Completed" "dfiles d = F(fp_names part \<mapsto> b @ ws)" using spec Inr loop(1) by auto
      then show ?thesis using run l Inr None w' loop(3) by (auto simp: finish_receive_def receive_result_def Let_def)
    next
      case (Some final)
      then have s: "re_outcome e = T_Completed" "re_intact e" "new_file dest F final" "final \<noteq> part"
        "dfiles d = F(fp_names part := None, fp_names final \<mapsto> b @ ws)"
        using spec Inr loop(1) new_file_upd[of dest F part "b @ ws" final] by auto
      then have "completes_with J (w_in w) (to_hex (sha256 P (take (unat (tm_size meta)) b @ ws)))" using loop(6) by auto
      moreover have "\<exists>w2. r = Some (Inr \<lparr>rv_outcome = T_Completed, rv_name = snd final, rv_bytes = re_bytes e, rv_id = tm_id meta\<rparr>)"
        using run l Inr Some s(1) by (simp add: finish_receive_def Let_def)
      ultimately show ?thesis using s w' loop b by (auto simp: receive_result_def Let_def simp del: split_paired_Ex intro!: exI[of _ final] exI[of _ ws])
    qed
  qed
qed

text \<open>How the staging file is prepared.\<close>

lemma open_part_kept:
  assumes "storage_size D part d = (Inr sz, d')" "F = dfiles d" "dfiles (w_disk w) = F"
    and "open_part E part ex w = (Some (Inr h), w')" "ex = min (case sz of None \<Rightarrow> 0 | Some n \<Rightarrow> n) (tm_size meta)"
    and "\<forall>b. F (fp_names part) = Some b \<longrightarrow> length b < 2 ^ 64"
  defines "b \<equiv> kept_part meta (F (fp_names part))"
  shows "dfiles (w_disk w') = F(fp_names part \<mapsto> b) \<and> h = take (unat (tm_size meta)) b \<and> unat ex = min (length b) (unat (tm_size meta))"
proof -
  note sz = storage_size_files[OF assms(1)]
  note op = open_part_spec[OF assms(4)]
  have u: "unat ex = min (length c) (unat (tm_size meta))" if "F (fp_names part) = Some c" for c
  proof -
    have "sz = Some (of_nat (length c))" "length c < 2 ^ 64" using sz that assms(2,6) by auto
    then show ?thesis using assms(5) by (simp add: min_def word_le_nat_alt unat_small)
  qed
  show ?thesis
  proof (cases "0 < ex")
    case True
    then obtain c where c: "F (fp_names part) = Some c" "h = take (unat ex) c" "dfiles (w_disk w') = F" using op assms(3) by auto
    moreover have "tm_size meta \<noteq> 0" using True assms(5) by (auto simp: min_def split: if_splits)
    ultimately show ?thesis using u by (auto simp: b_def kept_part_def fun_upd_idem min_def)
  next
    case False
    then have "unat ex = 0" by (simp add: word_gt_0)
    then have "b = []" using u by (auto simp: b_def kept_part_def min_def unat_eq_zero split: option.splits if_splits)
    then show ?thesis using False op assms(3) \<open>unat ex = 0\<close> by auto
  qed
qed

lemma receive_claimed_spec:
  assumes run: "receive_claimed E P J meta base dest part w = (r, w')"
    and fits: "\<forall>b. dfiles (w_disk w) (fp_names part) = Some b \<longrightarrow> length b + chunk_bytes (w_in w) < 2 ^ 64" "chunk_bytes (w_in w) < 2 ^ 64"
  shows "receive_result P J meta dest part w r w'"
proof -
  define F where "F = dfiles (w_disk w)"
  have id: "F(fp_names part := F (fp_names part)) = F" by simp
  obtain x d where x: "storage_size (te_dev E) part (w_disk w) = (x, d)" by fastforce
  note xs = storage_size_files[OF x]
  show ?thesis
  proof (cases x)
    case (Inl e)
    then have "r = Some (Inl e)" "w' = w\<lparr>w_disk := d\<rparr>" using run x by (simp_all add: receive_claimed_def wbind_def on_disk_run_def)
    then show ?thesis using xs id F_def by (intro receive_result_keep) auto
  next
    case (Inr sz)
    define ex where "ex = min (case sz of None \<Rightarrow> 0 | Some n \<Rightarrow> n) (tm_size meta)"
    define w1 where "w1 = w\<lparr>w_disk := d\<rparr>"
    obtain r2 w2 where a: "send_with_retry E (control_frame J (ResumeAck_ctl ex)) 0 w1 = (r2, w2)" by fastforce
    have w2: "w_disk w2 = d" "w_in w2 = w_in w" "w_claims w2 = w_claims w"
      using send_with_retry_same[of E "control_frame J (ResumeAck_ctl ex)" 0 w1] a by (auto simp: w1_def)
    obtain r3 w3 where o: "open_part E part ex w2 = (r3, w3)" by fastforce
    note os = open_part_spec[OF o]
    obtain r4 w4 where l: "\<And>h. r3 = Some (Inr h) \<Longrightarrow> recv_loop E P J meta base part 0 False ex h w3 = (r4, w4)"
      by (cases "recv_loop E P J meta base part 0 False ex (projr (the r3)) w3") (metis option.sel sum.sel(2))
    have body: "(r, w') = (case r2 of None \<Rightarrow> (None, w2) | Some (Inl e) \<Rightarrow> (Some (Inl e), w2) | Some (Inr _) \<Rightarrow>
        (case r3 of None \<Rightarrow> (None, w3) | Some (Inl e) \<Rightarrow> (Some (Inl e), w3) | Some (Inr h) \<Rightarrow>
        (case r4 of None \<Rightarrow> (None, w4) | Some (Inl e) \<Rightarrow> (Some (Inl e), w4) | Some (Inr e) \<Rightarrow> finish_receive E J meta base part dest e w4)))"
      using run x Inr a o l by (auto simp: receive_claimed_def wbind_def on_disk_run_def ex_def w1_def Let_def split: option.splits sum.splits)
    show ?thesis
    proof (cases "(\<exists>u. r2 = Some (Inr u)) \<and> (\<exists>h. r3 = Some (Inr h))")
      case False
      then have "w_claims w' = w_claims w" "dfiles (w_disk w') = F" "\<not> (\<exists>rv. r = Some (Inr rv))"
        using body w2 os xs F_def by (auto split: option.splits sum.splits)
      then show ?thesis using id F_def by (intro receive_result_keep[of w' w part "F (fp_names part)"]) auto
    next
      case True
      then obtain h where h: "r3 = Some (Inr h)" by blast
      define b where "b = kept_part meta (F (fp_names part))"
      have pre: "dfiles (w_disk w3) = F(fp_names part \<mapsto> b)" "h = take (unat (tm_size meta)) b" "unat ex = min (length b) (unat (tm_size meta))"
        using open_part_kept[OF x[unfolded Inr] F_def, of w2 E ex h w3 meta] o h w2 xs fits ex_def F_def b_def by fastforce+
      have fit: "unat ex + chunk_bytes (w_in w3) < 2 ^ 64"
        using fits pre(3) os w2 by (auto simp: b_def kept_part_def F_def[symmetric] split: option.splits if_splits)
      obtain ws where ws: "loop_result P J meta part ex h b w3 r4 w4 ws"
        using recv_loop_spec[OF l[OF h], of b] pre fit by auto
      have w4: "dfiles (w_disk w4) = F(fp_names part \<mapsto> b @ ws)" "w_claims w4 = w_claims w"
        using ws pre os w2 by (auto simp: loop_result_def)
      show ?thesis
      proof (cases "\<exists>e. r4 = Some (Inr e)")
        case False
        then have "w' = w4" "\<not> (\<exists>rv. r = Some (Inr rv))" using body True h by (auto split: option.splits sum.splits)
        then show ?thesis using w4 F_def by (intro receive_result_keep) auto
      next
        case e: True
        then obtain e where e: "r4 = Some (Inr e)" by blast
        then have "finish_receive E J meta base part dest e w4 = (r, w')" using body True h by auto
        then show ?thesis
        proof (rule finish_receive_spec[OF _ w4(1,2) F_def])
          show "unat (re_bytes e) = min (length b) (unat (tm_size meta)) + length ws" "unat (re_bytes e) \<le> unat (tm_size meta)"
            using ws e pre(3) by (auto simp: loop_result_def)
          show "re_outcome e = T_Completed \<longrightarrow> (\<exists>c. completes_with J (w_in w) c \<and> re_intact e = (to_hex (sha256 P (take (unat (tm_size meta)) b @ ws)) = c))"
            using ws e pre(2) os w2 by (auto simp: loop_result_def)
        qed (simp add: b_def)
      qed
    qed
  qed
qed

section \<open>Claims\<close>

lemma free_loop_spec:
  "free_loop D dest n left s = (r, s') \<Longrightarrow> dfiles s' = dfiles s \<and> (\<forall>p. r = Inr p \<longrightarrow> (\<exists>k\<ge>n. p = (fst dest, numbered k (snd dest))))"
proof (induction left arbitrary: n s)
  case (Suc left)
  obtain x d where x: "storage_size D (fst dest, numbered n (snd dest)) s = (x, d)" by fastforce
  then show ?case using Suc.prems Suc.IH[of "Suc n" d] storage_size_files[OF x]
    by (auto simp: Let_def split: sum.splits option.splits) (use Suc_leD in blast)
qed auto

lemma claim_destination_spec:
  assumes "claim_destination E dest w = (r, w')"
  shows "dfiles (w_disk w') = dfiles (w_disk w) \<and> w_in w' = w_in w \<and> r \<noteq> None
    \<and> (case r of Some (Inr (d, part)) \<Rightarrow> d \<in> candidates dest \<and> part = part_path d \<and> part \<notin> set (w_claims w) \<and> w_claims w' = part # w_claims w
        | _ \<Rightarrow> w_claims w' = w_claims w)"
proof (cases "part_path dest \<in> set (w_claims w)")
  case True
  obtain x d where x: "free_destination (te_dev E) dest (w_disk w) = (x, d)" by fastforce
  have "dfiles d = dfiles (w_disk w)" "\<And>p. x = Inr p \<Longrightarrow> p \<in> candidates dest"
    using free_loop_spec[OF x[unfolded free_destination_def]] by (auto simp: candidates_def)
  then show ?thesis using assms True x
    by (cases x) (auto simp: claim_destination_def take_claim_def wbind_def on_disk_run_def split: if_splits)
next
  case False
  then show ?thesis using assms by (auto simp: claim_destination_def take_claim_def candidates_def)
qed

lemma recv_until_rest: "recv_until pick closed xs = (r, rest) \<Longrightarrow> set rest \<subseteq> set xs \<and> chunk_bytes rest \<le> chunk_bytes xs"
  by (induction pick closed xs rule: recv_until.induct) (auto split: option.splits)

lemma show_nat_digits: "c \<in> set (show_nat n) \<Longrightarrow> \<exists>d<10. c = char_of (48 + d :: nat)"
proof (induction n rule: show_nat.induct)
  case (1 n)
  show ?case
  proof (cases "n < 10")
    case True
    then show ?thesis using 1(2) by (subst (asm) show_nat.simps) auto
  next
    case False
    then have "c \<in> set (show_nat (n div 10)) \<or> c = char_of (48 + n mod 10)" using 1(2) by (subst (asm) show_nat.simps) auto
    moreover have "n mod 10 < 10" by simp
    ultimately show ?thesis using 1(1)[OF False] by blast
  qed
qed

lemma numbered_plain: "plain_part name \<Longrightarrow> plain_part (numbered n name)"
proof -
  assume p: "plain_part name"
  have sl: "CHR ''/'' \<notin> set (show_nat n)"
  proof
    assume "CHR ''/'' \<in> set (show_nat n)"
    then obtain d :: nat where "d < 10" "CHR ''/'' = char_of (48 + d)" using show_nat_digits by blast
    then have "(of_char (CHR ''/'') :: nat) = 48 + d" by (simp add: of_char_of)
    then show False by simp
  qed
  have "rsplit_once c s = Some (a, b) \<Longrightarrow> set a \<subseteq> set s \<and> set b \<subseteq> set s" for c s a b
    by (induction c s arbitrary: a b rule: rsplit_once.induct) (auto split: option.splits if_splits)
  then have sub: "set (fst (name_parts name)) \<subseteq> set name \<and> (\<forall>e. snd (name_parts name) = Some e \<longrightarrow> set e \<subseteq> set name)"
    by (auto simp: name_parts_def split: option.splits if_splits)
  obtain stem e where np: "name_parts name = (stem, e)" by fastforce
  have "CHR ''/'' \<notin> set (numbered n name)" "CHR ''('' \<in> set (numbered n name)"
    using p sl sub np by (cases e; auto simp: numbered_def plain_part_def)+
  then show ?thesis by (auto simp: plain_part_def)
qed

lemma candidates_plain: "q \<in> candidates (dir, base) \<Longrightarrow> plain_part base \<Longrightarrow> fst q = dir \<and> plain_part (snd q)"
  using numbered_plain by (auto simp: candidates_def)

lemma candidates_twice: "q \<in> candidates dest \<Longrightarrow> fst q = fst dest"
  by (auto simp: candidates_def)

lemma candidates_plain2: "d \<in> candidates (dir, base) \<Longrightarrow> q \<in> candidates d \<Longrightarrow> plain_part base \<Longrightarrow> fp_names q = dir @ [snd q] \<and> plain_part (snd q)"
  using candidates_plain[of d dir base] candidates_plain[of q dir "snd d"] by (cases d) (auto simp: fp_names_def)

text \<open>What a result says of the files of the destination directory.\<close>

definition confined :: "string list \<Rightarrow> string list \<Rightarrow> (string list \<Rightarrow> bytes option) \<Rightarrow> (string list \<Rightarrow> bytes option) \<Rightarrow> bool" where
  "confined dir part F F' = ((\<exists>n. plain_part n \<and> part = dir @ [n @ ''.part''])
    \<and> (\<forall>p. F' p \<noteq> F p \<longrightarrow> (\<exists>n. plain_part n \<and> p = dir @ [n]))
    \<and> (\<forall>p b. F p = Some b \<and> p \<noteq> part \<longrightarrow> F' p = Some b))"

definition published :: "prims \<Rightarrow> tjson \<Rightarrow> transfer_meta \<Rightarrow> inbox \<Rightarrow> string list \<Rightarrow> string list
    \<Rightarrow> (string list \<Rightarrow> bytes option) \<Rightarrow> (string list \<Rightarrow> bytes option) \<Rightarrow> received \<Rightarrow> bool" where
  "published P J meta xs dir part F F' rv =
     (\<exists>content. F (dir @ [rv_name rv]) = None \<and> F' = F(part := None, dir @ [rv_name rv] \<mapsto> content)
        \<and> ((\<forall>old. F part = Some old \<longrightarrow> length old \<le> unat (tm_size meta)) \<longrightarrow>
              length content = unat (rv_bytes rv) \<and> length content \<le> unat (tm_size meta)
              \<and> completes_with J xs (to_hex (sha256 P content))))"

lemma receive_result_confined:
  assumes "receive_result P J meta dest part w r w'" "dest \<in> candidates (dir, base)" "plain_part base" "part = part_path dest"
  shows "confined dir (fp_names part) (dfiles (w_disk w)) (dfiles (w_disk w'))"
proof -
  let ?F = "dfiles (w_disk w)" and ?F' = "dfiles (w_disk w')"
  obtain n where n: "dest = (dir, n)" "plain_part n" using candidates_plain[OF assms(2,3)] by (cases dest) auto
  have part: "fp_names part = dir @ [n @ ''.part'']" "plain_part (n @ ''.part'')"
    using assms(4) n by (auto simp: part_path_def PART_SUFFIX_def fp_names_def plain_part_def)
  obtain c q v where shape: "?F' = ?F(fp_names part := c) \<or> new_file dest ?F q \<and> ?F' = ?F(fp_names part := c, fp_names q := v)"
    using assms(1) by (auto simp: receive_result_def Let_def split: option.splits sum.splits if_splits simp del: split_paired_Ex)
  have "new_file dest ?F q \<Longrightarrow> fp_names q = dir @ [snd q] \<and> plain_part (snd q)"
    using candidates_plain2[OF assms(2) _ assms(3)] by (simp add: new_file_def)
  then show ?thesis using shape part n by (auto simp: confined_def new_file_def split: if_splits)
qed

lemma receive_result_published:
  assumes "receive_result P J meta dest part w r w'" "dest \<in> candidates (dir, base)" "plain_part base" "r = Some (Inr rv)" "rv_outcome rv = T_Completed"
  shows "published P J meta (w_in w) dir (fp_names part) (dfiles (w_disk w)) (dfiles (w_disk w')) rv"
proof -
  let ?F = "dfiles (w_disk w)"
  define b where "b = kept_part meta (?F (fp_names part))"
  obtain final ws where f: "new_file dest ?F final" "snd final = rv_name rv"
    "dfiles (w_disk w') = ?F(fp_names part := None, fp_names final \<mapsto> b @ ws)"
    "completes_with J (w_in w) (to_hex (sha256 P (take (unat (tm_size meta)) b @ ws)))"
    "unat (rv_bytes rv) = min (length b) (unat (tm_size meta)) + length ws" "unat (rv_bytes rv) \<le> unat (tm_size meta)"
    using assms(1,4,5) b_def by (auto simp: receive_result_def Let_def)
  have "fp_names final = dir @ [rv_name rv]" using f candidates_plain2[OF assms(2) _ assms(3), of final] by (simp add: new_file_def)
  moreover have "length b \<le> unat (tm_size meta)" if "\<forall>old. ?F (fp_names part) = Some old \<longrightarrow> length old \<le> unat (tm_size meta)"
    using that by (auto simp: b_def kept_part_def split: option.splits)
  ultimately show ?thesis using f by (auto simp: published_def new_file_def intro!: exI[of _ "b @ ws"])
qed

text \<open>A run up to its staging claim, or one that ended before it.\<close>

lemma receive_file_cases:
  assumes "receive_file E P J host windows dir w = (r, w')" "host_ok host"
    and "\<forall>p b. dfiles (w_disk w) p = Some b \<longrightarrow> length b + chunk_bytes (w_in w) < 2 ^ 64" "chunk_bytes (w_in w) < 2 ^ 64"
  obtains (early) "dfiles (w_disk w') = dfiles (w_disk w)" "w_claims w' = w_claims w" "\<not> (\<exists>rv. r = Some (Inr rv))"
  | (claimed) meta base dest part w1 w2 where "fst (recv_meta J w) = Some (Inr meta)" "plain_part base" "dest \<in> candidates (dir, base)"
    "part = part_path dest" "receive_result P J meta dest part w1 r w2" "dfiles (w_disk w1) = dfiles (w_disk w)"
    "set (w_in w1) \<subseteq> set (w_in w)" "dfiles (w_disk w2) = dfiles (w_disk w')" "r \<noteq> None \<longrightarrow> w_claims w' = w_claims w"
proof -
  obtain r0 w0 where m: "recv_meta J w = (r0, w0)" by fastforce
  have w0: "w_disk w0 = w_disk w" "w_claims w0 = w_claims w" "set (w_in w0) \<subseteq> set (w_in w)" "chunk_bytes (w_in w0) \<le> chunk_bytes (w_in w)"
    using m by (auto simp: recv_meta_def recv_picking_def dest!: recv_until_rest split: prod.splits)
  show ?thesis
  proof (cases "\<exists>meta. r0 = Some (Inr meta)")
    case False
    then show ?thesis using assms(1) m w0 by (intro early) (auto simp: receive_file_def wbind_def split: option.splits sum.splits)
  next
    case True
    then obtain meta where meta: "r0 = Some (Inr meta)" by blast
    define base where "base = sanitize_file_name host windows (tm_name meta)"
    have base: "plain_part base" unfolding base_def by (rule sanitize_file_name_plain[OF assms(2)])
    obtain r1 w1 where c: "claim_destination E (dir, base) w0 = (r1, w1)" by fastforce
    note cs = claim_destination_spec[OF c]
    show ?thesis
    proof (cases "\<exists>x. r1 = Some (Inr x)")
      case False
      then obtain e where e: "r1 = Some (Inl e)" using cs by (cases r1; cases "the r1") auto
      then have "r = Some (Inl e)" "w' = w1" using assms(1) m meta c by (auto simp: receive_file_def wbind_def Let_def base_def)
      then show ?thesis using cs w0 e by (intro early) auto
    next
      case True
      then obtain dest part where dp: "r1 = Some (Inr (dest, part))" by (metis surj_pair)
      obtain r2 w2 where k: "receive_claimed E P J meta base dest part w1 = (r2, w2)" by fastforce
      have w1: "dfiles (w_disk w1) = dfiles (w_disk w)" "w_in w1 = w_in w0" "dest \<in> candidates (dir, base)" "part = part_path dest"
        "part \<notin> set (w_claims w)" "w_claims w1 = part # w_claims w" using cs dp w0 by auto
      have res: "r = r2" "dfiles (w_disk w2) = dfiles (w_disk w')" "r \<noteq> None \<longrightarrow> w_claims w' = removeAll part (w_claims w2)"
        using assms(1) m meta c dp k by (auto simp: receive_file_def wbind_def Let_def base_def drop_claim_def)
      have rr: "receive_result P J meta dest part w1 r2 w2"
        using assms(3,4) w0 w1 by (intro receive_claimed_spec[OF k]) fastforce+
      then have "r \<noteq> None \<longrightarrow> w_claims w' = w_claims w" using res(3) w1(5,6) by (simp add: receive_result_def Let_def)
      then show ?thesis using claimed[OF _ base w1(3,4), of meta w1 w2] m meta rr res w1 w0(3) by simp
    qed
  qed
qed

end
