(* ===== verification/PB_Folder.thy ===== *)
theory PB_Folder
  imports PB_Stream_Props
begin

text \<open>
  Sending and receiving a folder (\<open>peerbeam-transfer/src/folder.rs\<close>), over the world of
  \<open>PB_Transfer\<close>: a manifest, then every file as a header, chunks and a digest, then a confirmation.
  The receiver stages each entry and replaces what is under its name once the digest agrees.

  What the storage provider lists below the root, the lower-casing of a path and the JSON coding
  are arguments. A writer is the path it writes to. Of the thirty seconds the sender waits for
  the confirmation only the outcome matters: frames that come, or none, which is the result
  \<open>None\<close> of a run that waits.
\<close>

section \<open>Messages\<close>

record file_meta =
  fm_path :: string
  fm_size :: u64

datatype folder_message =
    Manifest string string "file_meta list"
  | ResumeState "u64 list"
  | FileHeader u32 string u64 u64
  | FileEnd u32 "string option"
  | Folder_Complete
  | Folder_Received u64 u64
  | Folder_Cancel
  | Folder_Pause
  | Folder_Resume

record fjson =
  fj_enc :: "folder_message \<Rightarrow> bytes"
  fj_dec :: "bytes \<Rightarrow> (string, folder_message) result"

definition fjson_ok :: "fjson \<Rightarrow> bool" where
  "fjson_ok J = (\<forall>m. fj_dec J (fj_enc J m) = Inr m)"

definition folder_frame :: "fjson \<Rightarrow> folder_message \<Rightarrow> link_frame" where
  "folder_frame J m = \<lparr>lf_kind = Control_frame, lf_payload = fj_enc J m\<rparr>"

definition parse_folder :: "fjson \<Rightarrow> link_frame \<Rightarrow> (domain_error, folder_message) result" where
  "parse_folder J f = (case fj_dec J (lf_payload f) of
     Inl e \<Rightarrow> Inl (ETransfer (''bad folder message: '' @ e)) | Inr m \<Rightarrow> Inr m)"

lemma parse_folder_frame [simp]:
  "fjson_ok J \<Longrightarrow> parse_folder J (folder_frame J m) = Inr m" "lf_kind (folder_frame J m) = Control_frame"
  by (simp_all add: parse_folder_def folder_frame_def fjson_ok_def)

text \<open>What a caller can show of a folder before accepting it.\<close>

definition manifest_preview :: "fjson \<Rightarrow> (string \<Rightarrow> path) \<Rightarrow> bool \<Rightarrow> link_frame \<Rightarrow> (string \<times> string \<times> u64) option" where
  "manifest_preview J host windows f =
     (case parse_folder J f of
        Inr (Manifest tid root files) \<Rightarrow>
          Some (tid, sanitize_name host windows root, fold (\<lambda>m acc. saturating_add acc (fm_size m)) files 0)
      | _ \<Rightarrow> None)"

definition recv_folder_message :: "fjson \<Rightarrow> (folder_message \<Rightarrow> (domain_error, 'a) result option) \<Rightarrow> string \<Rightarrow> 'a run" where
  "recv_folder_message J want closed = recv_picking
     (\<lambda>f. if lf_kind f = Control_frame
          then (case parse_folder J f of Inl e \<Rightarrow> Some (Inl e) | Inr m \<Rightarrow> want m)
          else None) closed"

definition recv_resume :: "fjson \<Rightarrow> u64 list run" where
  "recv_resume J = recv_folder_message J
     (\<lambda>m. case m of ResumeState held \<Rightarrow> Some (Inr held) | _ \<Rightarrow> None) ''link closed before resume state''"

definition recv_manifest :: "fjson \<Rightarrow> (string \<Rightarrow> path) \<Rightarrow> bool \<Rightarrow> (string \<times> string \<times> file_meta list) run" where
  "recv_manifest J host windows = recv_folder_message J
     (\<lambda>m. case m of Manifest tid root files \<Rightarrow> Some (Inr (tid, sanitize_name host windows root, files)) | _ \<Rightarrow> None)
     ''link closed before manifest''"

text \<open>Waiting for the receiver's confirmation.\<close>

definition wait_for_folder_ack :: "fjson \<Rightarrow> u32 \<Rightarrow> unit run" where
  "wait_for_folder_ack J files_total =
     wbind (recv_folder_message J
       (\<lambda>m. case m of
          Folder_Received files corrupt \<Rightarrow> Some (Inr (files, corrupt))
        | Folder_Cancel \<Rightarrow> Some (Inl (ETransfer ''the receiver cancelled the folder''))
        | _ \<Rightarrow> None) ''the link closed before the receiver confirmed the folder'')
     (\<lambda>(files, corrupt).
       if 0 < corrupt
       then fail_with (EIntegrity (show_nat (unat corrupt) @ '' of '' @ show_nat (unat files_total)
              @ '' folder entries failed their checksum and were not written''))
       else done_with ())"

section \<open>Sending\<close>

record folder_send_request =
  fr_id :: string
  fr_root_path :: string
  fr_chunk_size :: u32

record folder_received =
  fd_outcome :: transfer_outcome
  fd_root :: string
  fd_files :: u32
  fd_bytes :: u64
  fd_id :: string

definition emit_progress :: "string \<Rightarrow> u64 \<Rightarrow> u64 \<Rightarrow> string \<Rightarrow> u32 \<Rightarrow> u32 \<Rightarrow> transfer_direction \<Rightarrow> transfer_status \<Rightarrow> world \<Rightarrow> world" where
  "emit_progress tid tot dn name completed files dir status =
     report (build_progress tid dir status (max tot dn) dn name completed files)"

text \<open>\<open>local_path\<close> of an entry below the root, as a directory and a name.\<close>

definition path_of_names :: "string list \<Rightarrow> fpath" where
  "path_of_names ns = (butlast ns, last ns)"

definition normal_names :: "path \<Rightarrow> string list" where
  "normal_names p = List.map_filter (\<lambda>c. case c of Normal n \<Rightarrow> Some n | _ \<Rightarrow> None) p"

definition folder_join :: "(string \<Rightarrow> path) \<Rightarrow> string \<Rightarrow> string \<Rightarrow> fpath" where
  "folder_join host root rel = path_of_names (normal_names (local_path host (host root) rel))"

datatype entry_end = Entry_sent nat bool u64 bytes | Entry_stopped

function send_entry_loop :: "tenv \<Rightarrow> fjson \<Rightarrow> (u64 \<Rightarrow> world \<Rightarrow> world) \<Rightarrow> nat \<Rightarrow> nat \<Rightarrow> nat \<Rightarrow> bool \<Rightarrow> bytes \<Rightarrow> u64 \<Rightarrow> bytes \<Rightarrow> entry_end run" where
  "send_entry_loop E J rep retries chunk k signalled data dn h w =
     (let c = te_ctl E k;
          (signalled, w) = signal_pause_edge E c (folder_frame J Folder_Pause) (folder_frame J Folder_Resume) signalled w
      in case cancel_or_pause E c (folder_frame J Folder_Cancel) retries w of
           (None, w) \<Rightarrow> (None, w)
         | (Some (Inl e), w) \<Rightarrow> (Some (Inl e), w)
         | (Some (Inr True), w) \<Rightarrow> (Some (Inr Entry_stopped), w)
         | (Some (Inr False), w) \<Rightarrow>
             (case read_fill (te_read E) chunk (w_reads w) data [] of
                Inl e \<Rightarrow> (Some (Inl e), w)
              | Inr (buf, rest, i) \<Rightarrow>
                  let w = w\<lparr>w_reads := i\<rparr> in
                  if buf = [] then (Some (Inr (Entry_sent (Suc k) signalled dn h)), w)
                  else (case send_with_retry E (chunk_frame buf) retries w of
                          (None, w) \<Rightarrow> (None, w)
                        | (Some (Inl e), w) \<Rightarrow> (Some (Inl e), w)
                        | (Some (Inr _), w) \<Rightarrow>
                            let dn = dn + of_nat (length buf) in
                            send_entry_loop E J rep retries chunk (Suc k) signalled rest dn (h @ buf) (rep dn w))))"
  by pat_completeness auto
termination
  by (relation "measure (\<lambda>(E, J, rep, retries, chunk, k, signalled, data, dn, h, w). length data)")
    (auto dest!: sym[of "Inr _"] fill_shrinks)

declare send_entry_loop.simps [simp del]

text \<open>The entries from the given index: \<open>None\<close> when the user cancelled.\<close>

fun send_entries :: "tenv \<Rightarrow> prims \<Rightarrow> fjson \<Rightarrow> (string \<Rightarrow> path) \<Rightarrow> folder_send_request \<Rightarrow> nat \<Rightarrow> u64 \<Rightarrow> u32 \<Rightarrow> u64 list
    \<Rightarrow> (string \<times> u64) list \<Rightarrow> nat \<Rightarrow> nat \<Rightarrow> bool \<Rightarrow> u64 \<Rightarrow> u32 \<Rightarrow> unit option run" where
  "send_entries E P J host req retries tot files_total held [] i k signalled dn completed w = (Some (Inr (Some ())), w)"
| "send_entries E P J host req retries tot files_total held ((rel, sz) # rest) i k signalled dn completed w =
     (let already = min (if i < length held then held ! i else 0) sz in
      if 0 < sz \<and> sz \<le> already then
        let dn = dn + sz; completed = completed + 1 in
        send_entries E P J host req retries tot files_total held rest (Suc i) k signalled dn completed
          (emit_progress (fr_id req) tot dn rel completed files_total Sending TS_Transferring w)
      else
        let c = te_ctl E k;
            (signalled, w) = signal_pause_edge E c (folder_frame J Folder_Pause) (folder_frame J Folder_Resume) signalled w
        in case cancel_or_pause E c (folder_frame J Folder_Cancel) retries w of
             (None, w) \<Rightarrow> (None, w)
           | (Some (Inl e), w) \<Rightarrow> (Some (Inl e), w)
           | (Some (Inr True), w) \<Rightarrow> (Some (Inr None), w)
           | (Some (Inr False), w) \<Rightarrow>
               (case open_read (te_dev E) (folder_join host (fr_root_path req) rel) already (w_disk w) of
                  (Inl e, d) \<Rightarrow>
                    send_entries E P J host req retries tot files_total held rest (Suc i) (Suc k) signalled dn completed (w\<lparr>w_disk := d\<rparr>)
                | (Inr data, d) \<Rightarrow>
                    (case wbind (send_with_retry E (folder_frame J (FileHeader (of_nat i) rel sz already)) retries) (\<lambda>_.
                          wbind (send_entry_loop E J (\<lambda>n. emit_progress (fr_id req) tot n rel completed files_total Sending TS_Transferring) retries
                            (unat (max (fr_chunk_size req) 1)) (Suc k) signalled data (dn + already) []) (\<lambda>x.
                          case x of
                            Entry_stopped \<Rightarrow> done_with Entry_stopped
                          | Entry_sent k signalled dn h \<Rightarrow>
                              wbind (send_with_retry E (folder_frame J (FileEnd (of_nat i) (Some (to_hex (sha256 P h))))) retries) (\<lambda>_.
                                done_with (Entry_sent k signalled dn h)))) (w\<lparr>w_disk := d\<rparr>) of
                       (None, w) \<Rightarrow> (None, w)
                     | (Some (Inl e), w) \<Rightarrow> (Some (Inl e), w)
                     | (Some (Inr Entry_stopped), w) \<Rightarrow> (Some (Inr None), w)
                     | (Some (Inr (Entry_sent k signalled dn h)), w) \<Rightarrow>
                         send_entries E P J host req retries tot files_total held rest (Suc i) k signalled dn (completed + 1) w)))"

definition sum_sizes :: "u64 list \<Rightarrow> u64" where
  "sum_sizes xs = sum_list xs"

definition folder_manifest :: "(string \<Rightarrow> path) \<Rightarrow> folder_send_request \<Rightarrow> (string \<times> u64) list \<Rightarrow> folder_message" where
  "folder_manifest host req files =
     Manifest (fr_id req) (base_name host (fr_root_path req)) (map (\<lambda>(p, s). \<lparr>fm_path = p, fm_size = s\<rparr>) files)"

definition send_folder :: "tenv \<Rightarrow> prims \<Rightarrow> fjson \<Rightarrow> (string \<Rightarrow> path) \<Rightarrow> (domain_error, (string \<times> u64) list) result
    \<Rightarrow> folder_send_request \<Rightarrow> nat \<Rightarrow> bool \<Rightarrow> transfer_outcome run" where
  "send_folder E P J host listing req retries expect_ack =
     wbind (\<lambda>w. (Some listing, w)) (\<lambda>files.
       let root = base_name host (fr_root_path req);
           tot = sum_sizes (map snd files);
           files_total = of_nat (length files)
       in
     wbind (send_with_retry E (folder_frame J (folder_manifest host req files)) retries) (\<lambda>_.
     wbind (recv_resume J) (\<lambda>held.
     wbind (send_entries E P J host req retries tot files_total held files 0 0 False 0 0) (\<lambda>x.
       case x of
         None \<Rightarrow> done_with T_Cancelled
       | Some _ \<Rightarrow>
           wbind (send_with_retry E (folder_frame J Folder_Complete) retries) (\<lambda>_.
           wbind (if expect_ack then wait_for_folder_ack J files_total else done_with ()) (\<lambda>_ w.
             (Some (Inr T_Completed), emit_progress (fr_id req) tot tot root files_total files_total Sending TS_Completed w)))))))"

section \<open>Receiving\<close>

record frecv =
  fv_done :: u64
  fv_completed :: u32
  fv_written :: "string list"
  fv_current :: "fpath option"
  fv_paths :: "(fpath \<times> fpath) option"
  fv_hash :: bytes
  fv_limit :: u64
  fv_entry :: u64
  fv_corrupt :: u64
  fv_skipped :: bool

definition frecv_start :: frecv where
  "frecv_start = \<lparr>fv_done = 0, fv_completed = 0, fv_written = [], fv_current = None, fv_paths = None, fv_hash = [],
     fv_limit = 0, fv_entry = 0, fv_corrupt = 0, fv_skipped = False\<rparr>"

text \<open>What stays the same during a receive.\<close>

record fctx =
  fc_id :: string
  fc_root :: string
  fc_total :: u64
  fc_files :: u32
  fc_dir :: "string list"
  fc_windows :: bool
  fc_lower :: "string \<Rightarrow> string"

definition folder_report :: "fctx \<Rightarrow> frecv \<Rightarrow> transfer_status \<Rightarrow> world \<Rightarrow> world" where
  "folder_report C st status = emit_progress (fc_id C) (fc_total C) (fv_done st) (fc_root C) (fv_completed st) (fc_files C) Receiving status"

text \<open>Dropping a staging claim with the paths that hold it.\<close>

definition release :: "(fpath \<times> fpath) option \<Rightarrow> world \<Rightarrow> world" where
  "release paths w = (case paths of None \<Rightarrow> w | Some (part, dest) \<Rightarrow> drop_claim part w)"

definition close_writer :: "tenv \<Rightarrow> fpath option \<Rightarrow> disk \<Rightarrow> (domain_error, unit) result \<times> disk" where
  "close_writer E writer d =
     (case writer of
        None \<Rightarrow> (Inr (), d)
      | Some p \<Rightarrow>
          (case flush_file (te_dev E) p d of
             (Inl e, d) \<Rightarrow> (Inl e, d)
           | (Inr _, d) \<Rightarrow> close_file (te_dev E) d))"

definition finish_entry :: "tenv \<Rightarrow> fpath option \<Rightarrow> (fpath \<times> fpath) option \<Rightarrow> world \<Rightarrow> (domain_error, bool) result \<times> world" where
  "finish_entry E writer paths w =
     (case close_writer E writer (w_disk w) of
        (Inl e, d) \<Rightarrow> (Inl e, release paths (w\<lparr>w_disk := d\<rparr>))
      | (Inr _, d) \<Rightarrow>
          (case paths of
             None \<Rightarrow> (Inr False, w\<lparr>w_disk := d\<rparr>)
           | Some (part, dest) \<Rightarrow>
               (case finalize_replacing (te_dev E) part dest d of
                  (x, d) \<Rightarrow> (Inr (is_ok x), release paths (w\<lparr>w_disk := d\<rparr>)))))"

definition skip_entry :: "frecv \<Rightarrow> frecv" where
  "skip_entry st = st\<lparr>fv_current := None, fv_paths := None, fv_skipped := True\<rparr>"

definition path_key :: "(string \<Rightarrow> string) \<Rightarrow> fpath \<Rightarrow> string" where
  "path_key lower p = lower (join_with (CHR ''/'') (fp_names p))"

text \<open>A destination no earlier entry of this folder was written to, up to case.\<close>

definition own_name :: "tenv \<Rightarrow> fctx \<Rightarrow> fpath \<Rightarrow> frecv \<Rightarrow> world \<Rightarrow> fpath option \<times> frecv \<times> world" where
  "own_name E C dp st w =
     (if path_key (fc_lower C) dp \<notin> set (fv_written st)
      then (Some dp, st\<lparr>fv_written := path_key (fc_lower C) dp # fv_written st\<rparr>, w)
      else (case free_destination (te_dev E) dp (w_disk w) of
              (Inr free, d) \<Rightarrow> (Some free, st\<lparr>fv_written := path_key (fc_lower C) free # fv_written st\<rparr>, w\<lparr>w_disk := d\<rparr>)
            | (Inl e, d) \<Rightarrow> (None, st, w\<lparr>w_disk := d\<rparr>)))"

definition open_entry :: "tenv \<Rightarrow> fpath \<Rightarrow> frecv \<Rightarrow> world \<Rightarrow> frecv \<times> world" where
  "open_entry E dp st w =
     (let st = st\<lparr>fv_hash := []\<rparr> in
      case claim_destination E dp w of
        (Some (Inr (dp, part)), w) \<Rightarrow>
          (case open_write (te_dev E) part (w_disk w) of
             (Inr _, d) \<Rightarrow> (st\<lparr>fv_current := Some part, fv_paths := Some (part, dp), fv_skipped := False\<rparr>, w\<lparr>w_disk := d\<rparr>)
           | (Inl e, d) \<Rightarrow> (skip_entry st, drop_claim part (w\<lparr>w_disk := d\<rparr>)))
      | (_, w) \<Rightarrow> (skip_entry st, w))"

datatype folder_next = F_again frecv world | F_ended "(domain_error, transfer_outcome) result" frecv world

definition on_header :: "tenv \<Rightarrow> fctx \<Rightarrow> string \<Rightarrow> u64 \<Rightarrow> u64 \<Rightarrow> frecv \<Rightarrow> world \<Rightarrow> folder_next" where
  "on_header E C path sz off st w =
     (let st = st\<lparr>fv_limit := if off \<le> sz then sz - off else 0, fv_entry := 0\<rparr> in
      case finish_entry E (fv_current st) (fv_paths st) w of
        (Inl e, w) \<Rightarrow> F_ended (Inl e) (st\<lparr>fv_current := None, fv_paths := None\<rparr>) w
      | (Inr _, w) \<Rightarrow>
          let st = st\<lparr>fv_current := None, fv_paths := None\<rparr> in
          case dest_path (fc_windows C) (fc_dir C) (fc_root C) path of
            None \<Rightarrow> F_again (skip_entry st) w
          | Some dp \<Rightarrow>
              (case own_name E C dp st w of
                 (None, st, w) \<Rightarrow> F_again (skip_entry st) w
               | (Some dp, st, w) \<Rightarrow> (case open_entry E dp st w of (st, w) \<Rightarrow> F_again st w)))"

definition on_file_end :: "tenv \<Rightarrow> prims \<Rightarrow> string option \<Rightarrow> frecv \<Rightarrow> world \<Rightarrow> folder_next" where
  "on_file_end E P checksum st w =
     (let digest = to_hex (sha256 P (fv_hash st)); st = st\<lparr>fv_hash := []\<rparr> in
      if (case checksum of Some want \<Rightarrow> want \<noteq> digest | None \<Rightarrow> False)
      then F_again (st\<lparr>fv_corrupt := fv_corrupt st + 1, fv_current := None, fv_paths := None, fv_skipped := False\<rparr>)
             (release (fv_paths st) (w\<lparr>w_disk := snd (close_writer E (fv_current st) (w_disk w))\<rparr>))
      else (case finish_entry E (fv_current st) (fv_paths st) w of
              (Inl e, w) \<Rightarrow> F_ended (Inl e) (st\<lparr>fv_current := None, fv_paths := None\<rparr>) w
            | (Inr landed, w) \<Rightarrow>
                F_again (st\<lparr>fv_current := None, fv_paths := None,
                   fv_completed := if \<not> fv_skipped st \<and> landed then fv_completed st + 1 else fv_completed st, fv_skipped := False\<rparr>) w))"

definition on_folder_chunk :: "tenv \<Rightarrow> fctx \<Rightarrow> bytes \<Rightarrow> frecv \<Rightarrow> world \<Rightarrow> folder_next" where
  "on_folder_chunk E C payload st w =
     (case fv_current st of
        None \<Rightarrow> F_again st w
      | Some p \<Rightarrow>
          let n = of_nat (length payload) in
          if fv_limit st < fv_entry st + n
          then F_ended (Inl (ETransfer ''sender exceeded the size its manifest declared'')) st w
          else case write_all (te_dev E) p payload (w_disk w) of
                 (Inl e, d) \<Rightarrow> F_ended (Inl e) st (w\<lparr>w_disk := d\<rparr>)
               | (Inr _, d) \<Rightarrow>
                   let st = st\<lparr>fv_hash := fv_hash st @ payload, fv_entry := fv_entry st + n, fv_done := fv_done st + n\<rparr>
                   in F_again st (folder_report C st TS_Transferring (w\<lparr>w_disk := d\<rparr>)))"

definition on_folder_frame :: "tenv \<Rightarrow> prims \<Rightarrow> fjson \<Rightarrow> fctx \<Rightarrow> link_frame \<Rightarrow> frecv \<Rightarrow> world \<Rightarrow> folder_next" where
  "on_folder_frame E P J C f st w =
     (case lf_kind f of
        Chunk_frame \<Rightarrow> on_folder_chunk E C (lf_payload f) st w
      | Control_frame \<Rightarrow>
          (case parse_folder J f of
             Inl e \<Rightarrow> F_ended (Inl e) st w
           | Inr (FileHeader i path sz off) \<Rightarrow> on_header E C path sz off st w
           | Inr (FileEnd i checksum) \<Rightarrow> on_file_end E P checksum st w
           | Inr Folder_Complete \<Rightarrow>
               (case finish_entry E (fv_current st) (fv_paths st) w of
                  (Inl e, w) \<Rightarrow> F_ended (Inl e) (st\<lparr>fv_current := None, fv_paths := None\<rparr>) w
                | (Inr _, w) \<Rightarrow> F_ended (Inr T_Completed) (st\<lparr>fv_current := None, fv_paths := None\<rparr>) w)
           | Inr Folder_Cancel \<Rightarrow>
               F_ended (Inr T_Cancelled) (st\<lparr>fv_current := None\<rparr>)
                 (w\<lparr>w_disk := snd (close_writer E (fv_current st) (w_disk w))\<rparr>)
           | Inr Folder_Pause \<Rightarrow> F_again st (folder_report C st TS_Paused w)
           | Inr Folder_Resume \<Rightarrow> F_again st (folder_report C st TS_Transferring w)
           | Inr _ \<Rightarrow> F_again st w)
      | _ \<Rightarrow> F_again st w)"

lemma release_same [simp]:
  "w_disk (release p w) = w_disk w" "w_in (release p w) = w_in w" "w_out (release p w) = w_out w"
  by (auto simp: release_def drop_claim_def split: option.splits)

lemma emit_progress_same [simp]:
  "w_disk (emit_progress a b c d e f g h w) = w_disk w" "w_in (emit_progress a b c d e f g h w) = w_in w" "w_out (emit_progress a b c d e f g h w) = w_out w"
  "w_claims (emit_progress a b c d e f g h w) = w_claims w"
  by (simp_all add: emit_progress_def)

lemma folder_report_same [simp]:
  "w_disk (folder_report C st s w) = w_disk w" "w_in (folder_report C st s w) = w_in w" "w_out (folder_report C st s w) = w_out w"
  "w_claims (folder_report C st s w) = w_claims w"
  by (simp_all add: folder_report_def)

lemma finish_entry_in: "finish_entry E wr p w = (x, w') \<Longrightarrow> w_in w' = w_in w \<and> w_out w' = w_out w"
  by (auto simp: finish_entry_def split: prod.splits sum.splits option.splits)

lemma own_name_in: "own_name E C dp st w = (x, st', w') \<Longrightarrow> w_in w' = w_in w \<and> w_out w' = w_out w \<and> w_claims w' = w_claims w"
  by (auto simp: own_name_def split: prod.splits sum.splits if_splits)

lemma claim_destination_in: "claim_destination E dp w = (x, w') \<Longrightarrow> w_in w' = w_in w"
  using claim_destination_spec by blast

lemma open_entry_in: "open_entry E dp st w = (st', w') \<Longrightarrow> w_in w' = w_in w"
  by (auto simp: open_entry_def drop_claim_def Let_def dest!: claim_destination_in split: prod.splits sum.splits option.splits)

lemma on_header_in: "on_header E C path sz off st w = F_again st' w' \<Longrightarrow> w_in w' = w_in w"
  by (auto simp: on_header_def Let_def dest!: finish_entry_in own_name_in open_entry_in split: prod.splits sum.splits option.splits)

lemma on_folder_frame_in: "on_folder_frame E P J C f st w = F_again st' w' \<Longrightarrow> w_in w' = w_in w"
  by (auto simp: on_folder_frame_def on_folder_chunk_def on_file_end_def Let_def dest!: on_header_in finish_entry_in
      split: frame_kind.splits sum.splits folder_message.splits prod.splits option.splits if_splits)

definition folder_pause_report :: "fctx \<Rightarrow> ctl \<Rightarrow> bool \<Rightarrow> frecv \<Rightarrow> world \<Rightarrow> bool \<times> world" where
  "folder_pause_report C c signalled st w =
     (if c_paused c \<and> \<not> signalled then (True, folder_report C st TS_Paused w)
      else if \<not> c_paused c \<and> signalled then (False, folder_report C st TS_Transferring w)
      else (signalled, w))"

lemma folder_pause_report_same:
  "folder_pause_report C c s st w = (s', w') \<Longrightarrow> w_disk w' = w_disk w \<and> w_in w' = w_in w \<and> w_claims w' = w_claims w \<and> w_out w' = w_out w"
  by (auto simp: folder_pause_report_def split: if_splits)

definition stop_folder :: "tenv \<Rightarrow> fjson \<Rightarrow> world \<Rightarrow> world" where
  "stop_folder E J w = snd (send_frame E (folder_frame J Folder_Cancel) w)"

text \<open>The loop; its state is returned with the result, as the staging claim is dropped with it.\<close>

function folder_loop :: "tenv \<Rightarrow> prims \<Rightarrow> fjson \<Rightarrow> fctx \<Rightarrow> nat \<Rightarrow> bool \<Rightarrow> frecv \<Rightarrow> world
    \<Rightarrow> (domain_error, transfer_outcome) result option \<times> frecv \<times> world" where
  "folder_loop E P J C k signalled st w =
     (let c = te_ctl E k in
      if c_cancelled c then (Some (Inr T_Cancelled), st, stop_folder E J w)
      else case folder_pause_report C c signalled st w of
        (signalled, w) \<Rightarrow>
          if c_cancel_wait c then (Some (Inr T_Cancelled), st, stop_folder E J w)
          else if c_paused c \<and> c_stuck c then (None, st, w)
          else case w_in w of
                 [] \<Rightarrow> (None, st, w)
               | Inl e # r \<Rightarrow> (Some (Inl e), st, w\<lparr>w_in := r\<rparr>)
               | Inr None # r \<Rightarrow> (Some (Inl (ETransfer ''link closed before folder completed'')), st, w\<lparr>w_in := r\<rparr>)
               | Inr (Some f) # r \<Rightarrow>
                   (case on_folder_frame E P J C f st (w\<lparr>w_in := r\<rparr>) of
                      F_again st w \<Rightarrow> folder_loop E P J C (Suc k) signalled st w
                    | F_ended x st w \<Rightarrow> (Some x, st, w)))"
  by pat_completeness auto
termination
  by (relation "measure (\<lambda>(E, P, J, C, k, signalled, st, w). length (w_in w))")
    (auto dest!: sym[of "(_, _)" "folder_pause_report _ _ _ _ _"] folder_pause_report_same on_folder_frame_in)

declare folder_loop.simps [simp del]

definition finish_folder :: "tenv \<Rightarrow> fjson \<Rightarrow> fctx \<Rightarrow> bool \<Rightarrow> transfer_outcome \<Rightarrow> frecv \<Rightarrow> world \<Rightarrow> folder_received \<times> world" where
  "finish_folder E J C ack outcome st w =
     (let w = (if ack \<and> outcome = T_Completed
               then snd (send_frame E (folder_frame J (Folder_Received (ucast (fv_completed st)) (fv_corrupt st))) w) else w);
          w = (if outcome = T_Completed
               then emit_progress (fc_id C) (fc_total C) (fv_done st) (fc_root C) (fc_files C) (fc_files C) Receiving TS_Completed w else w)
      in (\<lparr>fd_outcome = outcome, fd_root = fc_root C, fd_files = fv_completed st, fd_bytes = fv_done st, fd_id = fc_id C\<rparr>, w))"

definition receive_folder :: "tenv \<Rightarrow> prims \<Rightarrow> fjson \<Rightarrow> (string \<Rightarrow> path) \<Rightarrow> bool \<Rightarrow> (string \<Rightarrow> string) \<Rightarrow> string list \<Rightarrow> bool \<Rightarrow> folder_received run" where
  "receive_folder E P J host windows lower dest_dir ack =
     wbind (recv_manifest J host windows) (\<lambda>(tid, root, files).
       let C = \<lparr>fc_id = tid, fc_root = root, fc_total = sum_sizes (map fm_size files), fc_files = of_nat (length files),
                fc_dir = dest_dir, fc_windows = windows, fc_lower = lower\<rparr> in
     wbind (send_with_retry E (folder_frame J (ResumeState (replicate (length files) 0))) 0) (\<lambda>_ w.
       case folder_loop E P J C 0 False frecv_start w of
         (None, st, w) \<Rightarrow> (None, w)
       | (Some (Inl e), st, w) \<Rightarrow> (Some (Inl e), release (fv_paths st) w)
       | (Some (Inr outcome), st, w) \<Rightarrow>
           (case finish_folder E J C ack outcome st w of (r, w) \<Rightarrow> (Some (Inr r), release (fv_paths st) w))))"

end
