(* ===== verification/PB_Stream_Delivery.thy ===== *)
theory PB_Stream_Delivery
  imports PB_Stream_Props
begin

text \<open>
  Delivery between an honest sender and an honest receiver (\<open>send_file\<close> and \<open>receive_file\<close> of
  \<open>peerbeam-transfer/src/stream.rs\<close>), and with reconnects (\<open>recover.rs\<close>).
\<close>

section \<open>An environment without faults\<close>

text \<open>The device serves every call, every send succeeds, and the user does not interfere.\<close>

definition calm :: "tenv \<Rightarrow> bool" where
  "calm E = ((\<forall>n. d_ok (te_dev E) n) \<and> (\<forall>n. te_send E n = None) \<and> (\<forall>i. te_read E i \<noteq> None)
     \<and> (\<forall>k. \<not> c_cancelled (te_ctl E k) \<and> \<not> c_paused (te_ctl E k) \<and> \<not> c_cancel_wait (te_ctl E k)))"

lemma calmD:
  "calm E \<Longrightarrow> d_ok (te_dev E) n" "calm E \<Longrightarrow> te_send E n = None" "calm E \<Longrightarrow> \<forall>i. te_read E i \<noteq> None"
  "calm E \<Longrightarrow> \<not> ctl_stops (te_ctl E k)" "calm E \<Longrightarrow> \<not> c_paused (te_ctl E k)" "calm E \<Longrightarrow> served (te_dev E) d"
  by (auto simp: calm_def ctl_stops_def served_def)

lemma send_calm:
  assumes "calm E"
  shows "send_with_retry E f n w = (Some (Inr ()), w\<lparr>w_tries := Suc (w_tries w), w_out := w_out w @ [f]\<rparr>)"
  using calmD(2)[OF assms] by (cases n) (simp_all add: send_frame_def)

section \<open>The sender\<close>

function pieces :: "nat \<Rightarrow> bytes \<Rightarrow> bytes list" where
  "pieces n data = (if n = 0 \<or> data = [] then [] else take n data # pieces n (drop n data))"
  by pat_completeness auto
termination
  by (relation "measure (\<lambda>(n, data). length data)") auto

declare pieces.simps [simp del]

lemma pieces_simps [simp]: "pieces n [] = []" "data \<noteq> [] \<Longrightarrow> pieces (Suc n) data = take (Suc n) data # pieces (Suc n) (drop (Suc n) data)"
  by (simp_all add: pieces.simps[of n] pieces.simps[of "Suc n"])

lemma concat_pieces: "0 < n \<Longrightarrow> concat (pieces n data) = data"
proof (induction n data rule: pieces.induct)
  case (1 n data)
  then show ?case by (cases "data = []") (simp_all add: pieces.simps[of n data])
qed

lemma send_loop_calm:
  assumes "calm E" "0 < chunk"
  shows "\<exists>w'. send_loop E J req retries chunk k False data sent h w = (Some (Inr (Streamed (sent + of_nat (length data)) (h @ data))), w')
    \<and> w_out w' = w_out w @ map chunk_frame (pieces chunk data) \<and> w_in w' = w_in w \<and> w_disk w' = w_disk w \<and> w_claims w' = w_claims w"
proof (induction "length data" arbitrary: k data sent h w rule: less_induct)
  case less
  have e: "signal_pause_edge E (te_ctl E k) p q False w = (False, w)" for p q
    using calmD(5)[OF assms(1)] by (simp add: signal_pause_edge_def)
  have c: "cancel_or_pause E (te_ctl E k) f retries w = (Some (Inr False), w)" for f
    using calmD(4)[OF assms(1), of k] by (simp add: cancel_or_pause_def ctl_stops_def)
  obtain i where i: "read_fill (te_read E) chunk (w_reads w) data [] = Inr (take chunk data, drop chunk data, i)"
    using read_fill_all[OF calmD(3)[OF assms(1)]] by blast
  show ?case
  proof (cases "data = []")
    case True
    then show ?thesis using i by (simp add: send_loop.simps[of E J req retries chunk k] e c Let_def)
  next
    case False
    define w1 where "w1 = w\<lparr>w_reads := i, w_tries := Suc (w_tries w), w_out := w_out w @ [chunk_frame (take chunk data)]\<rparr>"
    define sent1 where "sent1 = sent + of_nat (length (take chunk data))"
    have step: "send_loop E J req retries chunk k False data sent h w =
        send_loop E J req retries chunk (Suc k) False (drop chunk data) sent1 (h @ take chunk data) (send_progress req TS_Transferring sent1 w1)"
      using i False assms(2) by (simp add: send_loop.simps[of E J req retries chunk k] e c Let_def send_calm[OF assms(1)] w1_def sent1_def)
    have len: "sent1 + of_nat (length (drop chunk data)) = sent + of_nat (length data)"
      by (simp add: sent1_def add.assoc flip: of_nat_add) (metis append_take_drop_id length_append length_drop length_take)
    have "length (drop chunk data) < length data" using False assms(2) by (cases data) auto
    note ih = less[OF this, where k = "Suc k" and sent = sent1 and h = "h @ take chunk data" and w = "send_progress req TS_Transferring sent1 w1"]
    have "pieces chunk data = take chunk data # pieces chunk (drop chunk data)"
      using False assms(2) by (subst pieces.simps) simp
    then show ?thesis using ih step len by (auto simp: w1_def send_progress_def)
  qed
qed

text \<open>The frames a sender emits, given what the receiver has.\<close>

definition sent_frames :: "prims \<Rightarrow> tjson \<Rightarrow> send_request \<Rightarrow> bytes \<Rightarrow> nat \<Rightarrow> link_frame list" where
  "sent_frames P J req src off =
     meta_frame J (request_meta req) # map chunk_frame (pieces (unat (max (sr_chunk_size req) 1)) (drop off src))
       @ [control_frame J (Complete_ctl (to_hex (sha256 P src)))]"

lemma open_read_calm:
  assumes "calm E" "dfiles d (fp_names p) = Some b"
  shows "open_read (te_dev E) p off d = (Inr (drop (unat off) b), tick d)"
  using assms(2) calmD(6)[OF assms(1)] by (auto simp: open_read_def fs_read_def dfiles_lookup)

lemma hash_prefix_calm:
  assumes "calm E" "dfiles (w_disk w) (fp_names p) = Some b"
  obtains w' where "hash_prefix E p len h w = (Some (Inr (h @ take (unat len) b)), w')"
    "w_out w' = w_out w" "w_in w' = w_in w" "dfiles (w_disk w') = dfiles (w_disk w)" "w_claims w' = w_claims w"
proof -
  obtain x j where x: "hash_loop (te_read E) (unat len) (w_reads w) b h = Inr (x, j)"
    using hash_loop_served[OF calmD(3)[OF assms(1)]] by (metis surj_pair)
  then have "x = h @ take (unat len) b" by (rule hash_loop_spec)
  then show ?thesis using that x open_read_calm[OF assms, of 0]
    by (auto simp: hash_prefix_def wbind_def on_disk_run_def)
qed

lemma recv_ack_verify:
  assumes "tjson_ok J"
  shows "w_in w = Inr (Some (control_frame J (ResumeAck_ctl off))) # r \<Longrightarrow> recv_resume_ack J w = (Some (Inr off), w\<lparr>w_in := r\<rparr>)"
    "w_in w = Inr (Some (control_frame J (Verify_ctl ok))) # r \<Longrightarrow> recv_verify J w = (Some (Inr ok), w\<lparr>w_in := r\<rparr>)"
    "w_in w = Inr (Some (meta_frame J m)) # r \<Longrightarrow> recv_meta J w = (Some (Inr m), w\<lparr>w_in := r\<rparr>)"
  using assms by (simp_all add: recv_resume_ack_def recv_verify_def recv_meta_def recv_picking_def)

lemma send_file_calm:
  assumes "calm E" "tjson_ok J" "dfiles (w_disk w) (fp_names (sr_path req)) = Some src" "sr_size req = of_nat (length src)" "length src < 2 ^ 64"
    and "off \<le> length src" "w_in w = map (\<lambda>f. Inr (Some f)) [control_frame J (ResumeAck_ctl (of_nat off)), control_frame J (Verify_ctl ok)]"
  shows "\<exists>w'. send_file E P J req retries w =
      ((if ok then Some (Inr T_Completed) else Some (Inl (EIntegrity ''receiver reported checksum mismatch''))), w')
    \<and> w_out w' = w_out w @ sent_frames P J req src off \<and> dfiles (w_disk w') = dfiles (w_disk w)"
proof -
  let ?off = "of_nat off :: u64"
  have u: "unat ?off = off" "min ?off (sr_size req) = ?off"
    using assms(4-6) by (auto simp: unat_small min_def word_le_nat_alt)
  define w1 where "w1 = w\<lparr>w_tries := Suc (w_tries w), w_out := w_out w @ [meta_frame J (request_meta req)]\<rparr>"
  define w2 where "w2 = w1\<lparr>w_in := [Inr (Some (control_frame J (Verify_ctl ok)))]\<rparr>"
  have ack: "recv_resume_ack J w1 = (Some (Inr ?off), w2)"
    using assms(7) by (subst recv_ack_verify(1)[OF assms(2), where r = "[Inr (Some (control_frame J (Verify_ctl ok)))]"]) (simp_all add: w1_def w2_def)
  obtain w3 where w3: "(if 0 < ?off then hash_prefix E (sr_path req) ?off [] else done_with []) w2 = (Some (Inr (take off src)), w3)"
    "w_out w3 = w_out w2" "w_in w3 = w_in w2" "dfiles (w_disk w3) = dfiles (w_disk w)"
  proof (cases "0 < ?off")
    case True
    have "dfiles (w_disk w2) (fp_names (sr_path req)) = Some src" using assms(3) by (simp add: w2_def w1_def)
    from hash_prefix_calm[OF assms(1) this, of ?off "[]"] show ?thesis using that True u by (auto simp: w2_def w1_def)
  next
    case False
    then have "off = 0" using u(1) by (simp add: word_gt_0)
    then show ?thesis using that[of w2] by (simp add: done_with_def w2_def w1_def)
  qed
  have r: "open_read (te_dev E) (sr_path req) ?off (w_disk w3) = (Inr (drop off src), tick (w_disk w3))"
    using open_read_calm[OF assms(1), of "w_disk w3" "sr_path req" src ?off] w3(4) assms(3) u by simp
  have ch: "0 < unat (max (sr_chunk_size req) 1)" by (auto simp: max_def word_le_nat_alt split: if_splits)
  let ?w4 = "w3\<lparr>w_disk := tick (w_disk w3)\<rparr>"
  obtain w5 where l: "send_loop E J req retries (unat (max (sr_chunk_size req) 1)) 0 False (drop off src) ?off (take off src) ?w4 =
      (Some (Inr (Streamed (?off + of_nat (length (drop off src))) (take off src @ drop off src))), w5)"
    "w_out w5 = w_out w3 @ map chunk_frame (pieces (unat (max (sr_chunk_size req) 1)) (drop off src))" "w_in w5 = w_in w3"
    "dfiles (w_disk w5) = dfiles (w_disk w)"
    using send_loop_calm[OF assms(1) ch, of J req retries 0 "drop off src" ?off "take off src" ?w4] w3(4) by auto
  have v: "w_in w5 = [Inr (Some (control_frame J (Verify_ctl ok)))]" using l(3) w3(3) by (simp add: w2_def)
  have m: "send_with_retry E (meta_frame J (request_meta req)) retries w = (Some (Inr ()), w1)" by (simp add: send_calm[OF assms(1)] w1_def)
  have o: "on_disk_run (open_read (te_dev E) (sr_path req) ?off) w3 = (Some (Inr (drop off src)), ?w4)" by (simp add: on_disk_run_def r)
  let ?c = "control_frame J (Complete_ctl (to_hex (sha256 P src)))"
  let ?w6 = "w5\<lparr>w_tries := Suc (w_tries w5), w_out := w_out w5 @ [?c]\<rparr>"
  have c: "send_with_retry E ?c retries w5 = (Some (Inr ()), ?w6)" by (rule send_calm[OF assms(1)])
  have vf: "recv_verify J ?w6 = (Some (Inr ok), ?w6\<lparr>w_in := []\<rparr>)" using v by (intro recv_ack_verify(2)[OF assms(2)]) simp
  show ?thesis unfolding send_file_def Let_def wbind_def m prod.case option.case sum.case ack u(2) w3(1) o l(1)[unfolded append_take_drop_id]
      send_end.case c vf
    using l(2,4) w3(2) by (auto simp: fail_with_def sent_frames_def send_progress_def w2_def w1_def)
qed

section \<open>The receiver\<close>

lemma update_same: "map_of es x = Some n \<Longrightarrow> AList.update x n es = es"
  by (induction es) auto

lemma mkdirs_existing: "fs_is_dir p t \<Longrightarrow> fs_mkdirs p t = t"
proof (induction p t rule: fs_mkdirs.induct)
  case (5 x p es)
  then show ?case by (cases "map_of es x") (auto simp: fs_is_dir_def update_same)
qed (auto simp: fs_is_dir_def)

text \<open>A staging file of the given content, which when empty may also be absent.\<close>

definition staged :: "disk \<Rightarrow> fpath \<Rightarrow> bytes \<Rightarrow> bool" where
  "staged d part b = (dfiles d (fp_names part) = Some b
     \<or> b = [] \<and> fs_lookup (fp_names part) (dk_root d) = IoNotFound \<and> fs_is_dir (fst part) (dk_root d))"

lemma file_parent: "dfiles d (fp_names p) = Some b \<Longrightarrow> fs_is_dir (fst p) (dk_root d)"
  using lookup_parent[of "fp_names p" "dk_root d"] by (auto simp: dfiles_lookup)

lemma staged_dir: "staged d part b \<Longrightarrow> fs_is_dir (fst part) (dk_root d)"
  using file_parent[of d part b] by (auto simp: staged_def)

lemma storage_size_calm:
  assumes "calm E" "staged d part b"
  shows "\<exists>sz. storage_size (te_dev E) part d = (Inr sz, tick d) \<and> (case sz of None \<Rightarrow> 0 | Some n \<Rightarrow> n) = of_nat (length b)"
  using assms calmD(6)[OF assms(1)] by (auto simp: storage_size_def staged_def dfiles_lookup)

lemma create_parent_calm:
  assumes "calm E" "fs_is_dir (fst p) (dk_root d)"
  shows "create_parent (te_dev E) p d = (Inr (), tick d)"
proof -
  obtain n where n: "dk_root d = Some n" using assms(2) by (cases "dk_root d"; cases "fst p") (auto simp: fs_is_dir_def)
  then have "tick (d\<lparr>dk_root := Some n\<rparr>) = tick d" by (cases d) (simp add: tick_def)
  then show ?thesis using n mkdirs_existing[OF assms(2)] calmD(6)[OF assms(1)] by (simp add: create_parent_def)
qed

lemma open_write_calm:
  assumes "calm E" "staged d p b"
  shows "is_ok (fst (open_write (te_dev E) p d))"
  using create_parent_calm[OF assms(1) staged_dir[OF assms(2)]] assms(2) calmD(6)[OF assms(1)]
  by (auto simp: open_write_def staged_def dfiles_lookup)

lemma open_append_calm:
  assumes "calm E" "dfiles d (fp_names p) = Some b"
  shows "is_ok (fst (open_append (te_dev E) p d))"
  using create_parent_calm[OF assms(1) file_parent[OF assms(2)]] assms(2) calmD(6)[OF assms(1)]
  by (auto simp: open_append_def dfiles_lookup)

lemma open_part_calm:
  assumes "calm E" "staged (w_disk w) part b" "m < 2 ^ 64" "m \<le> length b" "m = 0 \<longrightarrow> b = []" "ex = of_nat m"
  shows "\<exists>w'. open_part E part ex w = (Some (Inr (take m b)), w') \<and> dfiles (w_disk w') = (dfiles (w_disk w))(fp_names part \<mapsto> b)
    \<and> w_in w' = w_in w \<and> w_out w' = w_out w \<and> w_claims w' = w_claims w"
proof (cases "0 < ex")
  case True
  then have b: "dfiles (w_disk w) (fp_names part) = Some b" using assms(2,4,6) by (auto simp: staged_def)
  have u: "unat ex = m" using assms(3,6) by (simp add: unat_small)
  from hash_prefix_calm[OF assms(1) b, of ex "[]"] obtain w1 where w1: "hash_prefix E part ex [] w = (Some (Inr (take m b)), w1)"
    "w_out w1 = w_out w" "w_in w1 = w_in w" "dfiles (w_disk w1) = dfiles (w_disk w)" "w_claims w1 = w_claims w" using u by auto
  obtain x d where x: "open_append (te_dev E) part (w_disk w1) = (x, d)" by fastforce
  have "is_ok x" using open_append_calm[OF assms(1), of "w_disk w1" part b] w1 b x by simp
  then show ?thesis using open_append_files[OF x] w1 x b True
    by (cases x) (auto simp: open_part_def wbind_def on_disk_run_def done_with_def)
next
  case False
  then have "unat ex = 0" by (simp add: word_gt_0)
  then have b: "b = []" using assms(3,5,6) by (simp add: unat_small)
  obtain x d where x: "open_write (te_dev E) part (w_disk w) = (x, d)" by fastforce
  have "is_ok x" using open_write_calm[OF assms(1,2)] x by simp
  then show ?thesis using open_write_files[OF x] x b False
    by (cases x) (auto simp: open_part_def wbind_def on_disk_run_def done_with_def)
qed

lemma write_all_calm:
  assumes "calm E" "dfiles d (fp_names p) = Some b"
  shows "\<exists>d'. write_all (te_dev E) p bs d = (Inr (), d') \<and> dfiles d' = (dfiles d)(fp_names p \<mapsto> b @ bs)"
proof -
  obtain x d' where x: "write_all (te_dev E) p bs d = (x, d')" by fastforce
  have "x = Inr ()" using x assms(2) calmD(6)[OF assms(1)] by (auto simp: write_all_def dfiles_lookup)
  then show ?thesis using write_all_files[OF x] x assms(2) by auto
qed

abbreviation wire :: "link_frame list \<Rightarrow> inbox" where
  "wire fs \<equiv> map (\<lambda>f. Inr (Some f)) fs"

text \<open>Chunks that stay within the announced size are appended one by one.\<close>

lemma recv_loop_chunks:
  assumes "calm E"
  shows "dfiles (w_disk w) (fp_names part) = Some b \<Longrightarrow> w_in w = wire (map chunk_frame ps) @ xs
    \<Longrightarrow> unat rcvd + length (concat ps) \<le> unat (tm_size meta) \<Longrightarrow>
    \<exists>k' sg' w'. recv_loop E P J meta base part k sg rcvd h w =
        recv_loop E P J meta base part k' sg' (rcvd + of_nat (length (concat ps))) (h @ concat ps) w'
      \<and> dfiles (w_disk w') = (dfiles (w_disk w))(fp_names part \<mapsto> b @ concat ps) \<and> w_in w' = xs \<and> w_out w' = w_out w \<and> w_claims w' = w_claims w"
proof (induction ps arbitrary: k sg rcvd h w b)
  case Nil
  then show ?case by (auto simp: fun_upd_idem)
next
  case (Cons p ps)
  have lim: "unat (tm_size meta) < 2 ^ 64" by (rule order_less_le_trans[OF unsigned_less]) simp
  have u: "unat (rcvd + of_nat (length p)) = unat rcvd + length p"
    using Cons.prems(3) lim by (subst unat_plus_small) (simp_all add: unat_small)
  have guard: "\<not> tm_size meta < rcvd + of_nat (length p)" using u Cons.prems(3) by (simp add: word_less_nat_alt)
  obtain sg1 w1 where w1: "w_disk w1 = w_disk w" "w_in w1 = w_in w" "w_claims w1 = w_claims w" "w_out w1 = w_out w" and
    run: "recv_loop E P J meta base part k sg rcvd h w = (case w_in w of
          [] \<Rightarrow> (None, w1)
        | Inl e # t \<Rightarrow> (Some (Inl e), w1\<lparr>w_in := t\<rparr>)
        | Inr None # t \<Rightarrow> (Some (Inl (ETransfer ''link closed before transfer completed'')), w1\<lparr>w_in := t\<rparr>)
        | Inr (Some f) # t \<Rightarrow>
            (case on_frame E P J meta base part f rcvd h (w1\<lparr>w_in := t\<rparr>) of
               Again rcvd h w \<Rightarrow> recv_loop E P J meta base part (Suc k) sg1 rcvd h w
             | Ended x w \<Rightarrow> (Some x, w)))"
    by (rule recv_loop_round[OF calmD(4)[OF assms, of k]])
  obtain d where d: "write_all (te_dev E) part p (w_disk w) = (Inr (), d)" "dfiles d = (dfiles (w_disk w))(fp_names part \<mapsto> b @ p)"
    using write_all_calm[OF assms Cons.prems(1)] by blast
  define w2 where "w2 = recv_progress meta base TS_Transferring (rcvd + of_nat (length p)) (w1\<lparr>w_in := wire (map chunk_frame ps) @ xs, w_disk := d\<rparr>)"
  have step: "recv_loop E P J meta base part k sg rcvd h w = recv_loop E P J meta base part (Suc k) sg1 (rcvd + of_nat (length p)) (h @ p) w2"
    unfolding run using guard d(1) Cons.prems(2) w1 by (simp add: on_frame_def on_chunk_def Let_def w2_def comp_def)
  have "dfiles (w_disk w2) (fp_names part) = Some (b @ p)" "w_in w2 = wire (map chunk_frame ps) @ xs"
    "unat (rcvd + of_nat (length p)) + length (concat ps) \<le> unat (tm_size meta)" using d u Cons.prems(3) by (simp_all add: w2_def comp_def)
  from Cons.IH[OF this, of "Suc k" sg1 "h @ p"] obtain k' sg' w' where
    "recv_loop E P J meta base part (Suc k) sg1 (rcvd + of_nat (length p)) (h @ p) w2 =
      recv_loop E P J meta base part k' sg' (rcvd + of_nat (length p) + of_nat (length (concat ps))) ((h @ p) @ concat ps) w'"
    "dfiles (w_disk w') = (dfiles (w_disk w2))(fp_names part \<mapsto> (b @ p) @ concat ps)" "w_in w' = xs" "w_out w' = w_out w2" "w_claims w' = w_claims w2"
    by blast
  then show ?case using step d w1 by (intro exI[of _ k'] exI[of _ sg'] exI[of _ w']) (simp add: w2_def add.assoc)
qed

lemma recv_loop_last:
  assumes "calm E" "w_in w = x # xs"
  obtains w1 where "w_disk w1 = w_disk w" "w_in w1 = xs" "w_claims w1 = w_claims w" "w_out w1 = w_out w"
    "x = Inl e \<longrightarrow> recv_loop E P J meta base part k sg rcvd h w = (Some (Inl e), w1)"
    "x = Inr None \<longrightarrow> recv_loop E P J meta base part k sg rcvd h w = (Some (Inl (ETransfer ''link closed before transfer completed'')), w1)"
    "tjson_ok J \<and> x = Inr (Some (control_frame J (Complete_ctl c))) \<longrightarrow> recv_loop E P J meta base part k sg rcvd h w =
       (Some (Inr \<lparr>re_outcome = T_Completed, re_bytes = rcvd, re_intact = (to_hex (sha256 P h) = c)\<rparr>), w1)"
proof -
  obtain sg1 w1 where w1: "w_disk w1 = w_disk w" "w_in w1 = w_in w" "w_claims w1 = w_claims w" "w_out w1 = w_out w" and
    run: "recv_loop E P J meta base part k sg rcvd h w = (case w_in w of
          [] \<Rightarrow> (None, w1)
        | Inl e # t \<Rightarrow> (Some (Inl e), w1\<lparr>w_in := t\<rparr>)
        | Inr None # t \<Rightarrow> (Some (Inl (ETransfer ''link closed before transfer completed'')), w1\<lparr>w_in := t\<rparr>)
        | Inr (Some f) # t \<Rightarrow>
            (case on_frame E P J meta base part f rcvd h (w1\<lparr>w_in := t\<rparr>) of
               Again rcvd h w \<Rightarrow> recv_loop E P J meta base part (Suc k) sg1 rcvd h w
             | Ended x w \<Rightarrow> (Some x, w)))"
    by (rule recv_loop_round[OF calmD(4)[OF assms(1), of k]])
  show ?thesis using that[of "w1\<lparr>w_in := xs\<rparr>"] w1 assms(2) unfolding run by (auto simp: on_frame_def on_control_def)
qed

text \<open>The frames that follow the announcement, on a link that may break: some chunks, then the end.\<close>

lemma land_calm:
  assumes "calm E" "dfiles d (fp_names part) = Some b" "part = part_path dest" "re_outcome e = T_Completed" "re_intact e"
  obtains final d' where "land E base e part dest d = (Inr (Some final), d')" "new_file dest (dfiles d) final"
    "dfiles d' = (dfiles d)(fp_names part := None, fp_names final \<mapsto> b)"
proof -
  have ok: "\<forall>n. d_ok (te_dev E) n" using calmD(1)[OF assms(1)] by blast
  have dir: "fs_is_dir (fst dest) (dk_root (tick (tick d)))" using file_parent[OF assms(2)] assms(3) by (simp add: part_path_def)
  have b: "dfiles (tick (tick d)) (fp_names part) = Some b" using assms(2) by simp
  obtain final d' where f: "finalize (te_dev E) part dest (tick (tick d)) = (Inr final, d')" "final \<in> candidates dest"
    "dfiles d' = (dfiles (tick (tick d)))(fp_names part := None, fp_names final \<mapsto> b)" "dfiles (tick (tick d)) (fp_names final) = None"
    by (rule finalize_served[OF ok b dir])
  then show ?thesis using that[of final d'] assms(4,5) calmD(6)[OF assms(1)]
    by (simp add: land_def flush_file_def close_file_def new_file_def)
qed

text \<open>A receive up to the end of the chunks.\<close>

lemma receive_claimed_calm:
  assumes "calm E" "staged (w_disk w) part b" "length b < 2 ^ 64" "w_in w = wire (map chunk_frame ps) @ xs"
    and "m = min (length b) (unat (tm_size meta))" "m = 0 \<longrightarrow> b = []" "m + length (concat ps) \<le> unat (tm_size meta)"
  shows "\<exists>k sg w'. receive_claimed E P J meta base dest part w =
      wbind (recv_loop E P J meta base part k sg (of_nat (m + length (concat ps))) (take m b @ concat ps)) (finish_receive E J meta base part dest) w'
    \<and> dfiles (w_disk w') = (dfiles (w_disk w))(fp_names part \<mapsto> b @ concat ps) \<and> w_in w' = xs
    \<and> w_out w' = w_out w @ [control_frame J (ResumeAck_ctl (of_nat m))] \<and> w_claims w' = w_claims w"
proof -
  have lim: "unat (tm_size meta) < 2 ^ 64" by (rule unat_u64_less)
  obtain sz where sz: "storage_size (te_dev E) part (w_disk w) = (Inr sz, tick (w_disk w))" "(case sz of None \<Rightarrow> 0 | Some n \<Rightarrow> n) = (of_nat (length b) :: u64)"
    using storage_size_calm[OF assms(1,2)] by blast
  have m: "m < 2 ^ 64" "m \<le> length b" using assms(3,5) by simp_all
  then have u: "unat (of_nat m :: u64) = m" by (simp add: unat_small)
  have ex: "min (case sz of None \<Rightarrow> 0 | Some n \<Rightarrow> n) (tm_size meta) = of_nat m"
    using sz(2) assms(3,5) by (simp add: min_def word_le_nat_alt unat_small)
  define w1 where "w1 = w\<lparr>w_disk := tick (w_disk w)\<rparr>"
  have s: "on_disk_run (storage_size (te_dev E) part) w = (Some (Inr sz), w1)" by (simp add: on_disk_run_def sz w1_def)
  define w2 where "w2 = w1\<lparr>w_tries := Suc (w_tries w1), w_out := w_out w1 @ [control_frame J (ResumeAck_ctl (of_nat m))]\<rparr>"
  have a: "send_with_retry E (control_frame J (ResumeAck_ctl (of_nat m))) 0 w1 = (Some (Inr ()), w2)"
    unfolding w2_def by (rule send_calm[OF assms(1)])
  have "staged (w_disk w2) part b" using assms(2) by (simp add: staged_def w2_def w1_def)
  then obtain w3 where w3: "open_part E part (of_nat m) w2 = (Some (Inr (take m b)), w3)" "dfiles (w_disk w3) = (dfiles (w_disk w))(fp_names part \<mapsto> b)"
    "w_in w3 = w_in w" "w_out w3 = w_out w2" "w_claims w3 = w_claims w"
    using open_part_calm[OF assms(1), of w2 part b m "of_nat m"] assms(6) m by (auto simp: w2_def w1_def)
  obtain k sg w4 where w4: "recv_loop E P J meta base part 0 False (of_nat m) (take m b) w3 =
      recv_loop E P J meta base part k sg (of_nat m + of_nat (length (concat ps))) (take m b @ concat ps) w4"
    "dfiles (w_disk w4) = (dfiles (w_disk w3))(fp_names part \<mapsto> b @ concat ps)" "w_in w4 = xs" "w_out w4 = w_out w3" "w_claims w4 = w_claims w3"
    using recv_loop_chunks[OF assms(1), of w3 part b ps xs "of_nat m" meta P J base 0 False "take m b"] w3 assms(4,7) u by auto
  have "receive_claimed E P J meta base dest part w =
      wbind (recv_loop E P J meta base part k sg (of_nat (m + length (concat ps))) (take m b @ concat ps)) (finish_receive E J meta base part dest) w4"
    unfolding receive_claimed_def wbind_def s prod.case option.case sum.case Let_def ex a w3(1) w4(1) of_nat_add ..
  then show ?thesis using w3 w4 by (auto simp: w2_def w1_def)
qed

text \<open>The way into a receive when the staging name is not in use.\<close>

lemma receive_file_start:
  assumes "tjson_ok J" "w_in w = Inr (Some (meta_frame J meta)) # xs" "base = sanitize_file_name host windows (tm_name meta)"
    "part = part_path (dir, base)" "part \<notin> set (w_claims w)"
  shows "receive_file E P J host windows dir w =
    (case receive_claimed E P J meta base (dir, base) part (w\<lparr>w_in := xs, w_claims := part # w_claims w\<rparr>) of
       (r, w') \<Rightarrow> (r, if r = None then w' else drop_claim part w'))"
  using assms recv_ack_verify(3)[OF assms(1,2)]
  by (simp add: receive_file_def wbind_def claim_destination_def take_claim_def Let_def split: prod.split)

text \<open>What an honest sender delivers, whole or cut short.\<close>

lemma pieces_prefix: "0 < n \<Longrightarrow> concat (take i (pieces n data)) = take (length (concat (take i (pieces n data)))) data"
  by (metis append_eq_conv_conj append_take_drop_id concat_append concat_pieces)

lemma request_meta_simps [simp]: "tm_size (request_meta req) = sr_size req" "tm_name (request_meta req) = sr_name req" "tm_id (request_meta req) = sr_id req"
  by (simp_all add: request_meta_def)

lemma chunk_positive: "0 < unat (max (sr_chunk_size req) 1)"
  by (auto simp: max_def word_le_nat_alt split: if_splits)

definition offers :: "send_request \<Rightarrow> bytes \<Rightarrow> bool" where
  "offers req src = (sr_size req = of_nat (length src) \<and> length src < 2 ^ 64)"

lemma offersD: "offers req src \<Longrightarrow> unat (sr_size req) = length src"
  by (simp add: offers_def unat_small)

lemma receive_resumed:
  assumes "calm E" "tjson_ok J" "offers req src" "off = min (length b) (length src)" "w_in w = wire (sent_frames P J req src off)"
    and "base = sanitize_file_name host windows (sr_name req)" "part = part_path (dir, base)" "part \<notin> set (w_claims w)"
    and "staged (w_disk w) part b" "take off b = take off src" "length b < 2 ^ 64" "src = [] \<longrightarrow> b = []"
  obtains final w' where "receive_file E P J host windows dir w =
      (Some (Inr \<lparr>rv_outcome = T_Completed, rv_name = snd final, rv_bytes = of_nat (length src), rv_id = sr_id req\<rparr>), w')"
    "new_file (dir, base) (dfiles (w_disk w)) final" "dfiles (w_disk w') = (dfiles (w_disk w))(fp_names part := None, fp_names final \<mapsto> b @ drop off src)"
    "w_out w' = w_out w @ [control_frame J (ResumeAck_ctl (of_nat off)), control_frame J (Verify_ctl True)]" "w_claims w' = w_claims w"
    "final \<noteq> part"
proof -
  let ?n = "unat (max (sr_chunk_size req) 1)" and ?meta = "request_meta req"
  define ps where "ps = pieces ?n (drop off src)"
  define c where "c = to_hex (sha256 P src)"
  have ps: "take off src @ concat ps = src" by (simp add: ps_def concat_pieces[OF chunk_positive])
  let ?w = "w\<lparr>w_in := wire (map chunk_frame ps) @ wire [control_frame J (Complete_ctl c)], w_claims := part # w_claims w\<rparr>"
  have start: "receive_file E P J host windows dir w = (case receive_claimed E P J ?meta base (dir, base) part ?w of
      (r, w') \<Rightarrow> (r, if r = None then w' else drop_claim part w'))"
    using assms(5-8) by (intro receive_file_start[OF assms(2)]) (simp_all add: sent_frames_def ps_def c_def)
  have rest: "concat ps = drop off src" by (simp add: ps_def concat_pieces[OF chunk_positive])
  have "off = min (length b) (unat (tm_size ?meta))" "off + length (concat ps) \<le> unat (tm_size ?meta)" "off = 0 \<longrightarrow> b = []"
    using assms(4,12) offersD[OF assms(3)] unfolding rest by (auto simp: min_def split: if_splits)
  from receive_claimed_calm[OF assms(1) _ assms(11) _ this(1,3,2), of ?w part "wire [control_frame J (Complete_ctl c)]" P J base "(dir, base)"] obtain k sg w1 where
    w1: "receive_claimed E P J ?meta base (dir, base) part ?w =
      wbind (recv_loop E P J ?meta base part k sg (of_nat (length src)) src) (finish_receive E J ?meta base part (dir, base)) w1"
    "dfiles (w_disk w1) = (dfiles (w_disk w))(fp_names part \<mapsto> b @ drop off src)" "w_in w1 = wire [control_frame J (Complete_ctl c)]"
    "w_out w1 = w_out w @ [control_frame J (ResumeAck_ctl (of_nat off))]" "w_claims w1 = part # w_claims w"
    using assms(4,9,10) ps rest by (auto simp: min_def)
  let ?e = "\<lparr>re_outcome = T_Completed, re_bytes = of_nat (length src), re_intact = True\<rparr>"
  obtain w2 where w2: "w_disk w2 = w_disk w1" "w_claims w2 = w_claims w1" "w_out w2 = w_out w1"
    "recv_loop E P J ?meta base part k sg (of_nat (length src)) src w1 = (Some (Inr ?e), w2)"
    using recv_loop_last[OF assms(1), of w1 "Inr (Some (control_frame J (Complete_ctl c)))" "[]" undefined P J ?meta base part k sg "of_nat (length src)" src c]
      w1(3) assms(2) by (auto simp: c_def)
  have "dfiles (w_disk w2) (fp_names part) = Some (b @ drop off src)" using w1 w2 by simp
  from land_calm[OF assms(1) this assms(7), of ?e base] obtain final d where l: "land E base ?e part (dir, base) (w_disk w2) = (Inr (Some final), d)"
    "new_file (dir, base) (dfiles (w_disk w2)) final" "dfiles d = (dfiles (w_disk w2))(fp_names part := None, fp_names final \<mapsto> b @ drop off src)" by auto
  let ?w3 = "recv_progress ?meta (snd final) TS_Completed (of_nat (length src)) (answer_verify E J True (w2\<lparr>w_disk := d\<rparr>))"
  have fin: "finish_receive E J ?meta base part (dir, base) ?e w2 =
      (Some (Inr \<lparr>rv_outcome = T_Completed, rv_name = snd final, rv_bytes = of_nat (length src), rv_id = sr_id req\<rparr>), ?w3)"
    using l(1) by (simp add: finish_receive_def)
  have new: "new_file (dir, base) (dfiles (w_disk w)) final" "final \<noteq> part" using l(2) w1(2) w2(1) new_file_upd by fastforce+
  show ?thesis
  proof (rule that[of final "drop_claim part ?w3"])
    show "receive_file E P J host windows dir w =
      (Some (Inr \<lparr>rv_outcome = T_Completed, rv_name = snd final, rv_bytes = of_nat (length src), rv_id = sr_id req\<rparr>), drop_claim part ?w3)"
      unfolding start w1(1) wbind_def w2(4) prod.case option.case sum.case fin by simp
  qed (use new l(3) w1 w2 assms(8) in \<open>auto simp: drop_claim_def answer_verify_def send_calm[OF assms(1), where n = 0, simplified] Let_def\<close>)
qed

lemma receive_whole:
  assumes "calm E" "tjson_ok J" "offers req src" "off \<le> length src" "w_in w = wire (sent_frames P J req src off)"
    and "base = sanitize_file_name host windows (sr_name req)" "part = part_path (dir, base)" "part \<notin> set (w_claims w)"
    and "staged (w_disk w) part (take off src)"
  obtains final w' where "receive_file E P J host windows dir w =
      (Some (Inr \<lparr>rv_outcome = T_Completed, rv_name = snd final, rv_bytes = of_nat (length src), rv_id = sr_id req\<rparr>), w')"
    "new_file (dir, base) (dfiles (w_disk w)) final" "dfiles (w_disk w') = (dfiles (w_disk w))(fp_names part := None, fp_names final \<mapsto> src)"
    "w_out w' = w_out w @ [control_frame J (ResumeAck_ctl (of_nat off)), control_frame J (Verify_ctl True)]" "w_claims w' = w_claims w"
    "final \<noteq> part"
proof -
  have "off = min (length (take off src)) (length src)" "take off (take off src) = take off src" "length (take off src) < 2 ^ 64"
    "src = [] \<longrightarrow> take off src = []" using assms(3,4) by (simp_all add: offers_def)
  then show ?thesis using receive_resumed[OF assms(1-3) _ assms(5-9)] that unfolding append_take_drop_id by metis
qed

text \<open>A link that breaks after some of the frames leaves a longer prefix in the staging file.\<close>

definition link_end :: "(domain_error, link_frame option) result \<Rightarrow> bool" where
  "link_end x = (case x of Inl e \<Rightarrow> True | Inr None \<Rightarrow> True | _ \<Rightarrow> False)"

definition interrupted :: "prims \<Rightarrow> tjson \<Rightarrow> send_request \<Rightarrow> bytes \<Rightarrow> nat \<Rightarrow> inbox \<Rightarrow> bool" where
  "interrupted P J req src off xs = (\<exists>n x. n < length (sent_frames P J req src off) \<and> link_end x
     \<and> xs = wire (take n (sent_frames P J req src off)) @ [x])"

definition end_error :: "(domain_error, link_frame option) result \<Rightarrow> domain_error \<Rightarrow> bool" where
  "end_error x err = (case x of Inl e \<Rightarrow> err = e | _ \<Rightarrow> \<exists>m. err = ETransfer m)"

lemma receive_broken:
  assumes "calm E" "tjson_ok J" "offers req src" "off \<le> length src" "link_end x"
    and "n < length (sent_frames P J req src off)" "w_in w = wire (take n (sent_frames P J req src off)) @ [x]"
    and "base = sanitize_file_name host windows (sr_name req)" "part = part_path (dir, base)" "part \<notin> set (w_claims w)"
    and "staged (w_disk w) part (take off src)"
  shows "\<exists>err w' off'. receive_file E P J host windows dir w = (Some (Inl err), w') \<and> end_error x err \<and> off \<le> off' \<and> off' \<le> length src
    \<and> staged (w_disk w') part (take off' src) \<and> (\<forall>p. p \<noteq> fp_names part \<longrightarrow> dfiles (w_disk w') p = dfiles (w_disk w) p) \<and> w_claims w' = w_claims w"
proof (cases n)
  case 0
  then have "\<exists>err. receive_file E P J host windows dir w = (Some (Inl err), w\<lparr>w_in := []\<rparr>) \<and> end_error x err"
    using assms(5,7) by (auto simp: receive_file_def wbind_def recv_meta_def recv_picking_def link_end_def end_error_def split: sum.splits option.splits)
  then show ?thesis using assms(4,11) by auto
next
  case (Suc m)
  let ?n = "unat (max (sr_chunk_size req) 1)" and ?meta = "request_meta req"
  define ps where "ps = take m (pieces ?n (drop off src))"
  define off' where "off' = off + length (concat ps)"
  have ps: "concat ps = take (length (concat ps)) (drop off src)" unfolding ps_def by (rule pieces_prefix[OF chunk_positive])
  then have "length (concat ps) \<le> length (drop off src)" by (metis length_take min.bounded_iff order_refl)
  then have off': "off' \<le> length src" using assms(4) by (simp add: off'_def)
  have pre: "take off src @ concat ps = take off' src" unfolding off'_def take_add using ps by simp
  let ?w = "w\<lparr>w_in := wire (map chunk_frame ps) @ [x], w_claims := part # w_claims w\<rparr>"
  have start: "receive_file E P J host windows dir w = (case receive_claimed E P J ?meta base (dir, base) part ?w of
      (r, w') \<Rightarrow> (r, if r = None then w' else drop_claim part w'))"
    using assms(6-10) Suc by (intro receive_file_start[OF assms(2)]) (simp_all add: sent_frames_def ps_def take_map)
  have len: "off + length (concat ps) \<le> unat (tm_size ?meta)" "off = min (length (take off src)) (unat (tm_size ?meta))"
    "length (take off src) < 2 ^ 64" "off = 0 \<longrightarrow> take off src = []"
    using off' offersD[OF assms(3)] assms(3,4) by (simp_all add: offers_def off'_def)
  from receive_claimed_calm[OF assms(1) _ len(3) _ len(2,4,1), of ?w part "[x]" P J base "(dir, base)"] obtain k sg w1 where
    w1: "receive_claimed E P J ?meta base (dir, base) part ?w =
      wbind (recv_loop E P J ?meta base part k sg (of_nat off') (take off' src)) (finish_receive E J ?meta base part (dir, base)) w1"
    "dfiles (w_disk w1) = (dfiles (w_disk w))(fp_names part \<mapsto> take off' src)" "w_in w1 = [x]" "w_claims w1 = part # w_claims w"
    using assms(11) pre unfolding off'_def by auto
  obtain err w2 where w2: "w_disk w2 = w_disk w1" "w_claims w2 = w_claims w1" "end_error x err"
    "recv_loop E P J ?meta base part k sg (of_nat off') (take off' src) w1 = (Some (Inl err), w2)"
  proof (cases x)
    case (Inl e)
    obtain w2 where "w_disk w2 = w_disk w1" "w_claims w2 = w_claims w1" "x = Inl e \<longrightarrow>
        recv_loop E P J ?meta base part k sg (of_nat off') (take off' src) w1 = (Some (Inl e), w2)"
      by (rule recv_loop_last[OF assms(1) w1(3), of e])
    then show ?thesis using that[of w2 e] Inl by (simp add: end_error_def)
  next
    case (Inr y)
    then have "x = Inr None" using assms(5) by (cases y) (auto simp: link_end_def)
    moreover obtain w2 where "w_disk w2 = w_disk w1" "w_claims w2 = w_claims w1" "x = Inr None \<longrightarrow>
        recv_loop E P J ?meta base part k sg (of_nat off') (take off' src) w1 =
          (Some (Inl (ETransfer ''link closed before transfer completed'')), w2)"
      by (rule recv_loop_last[OF assms(1) w1(3)])
    ultimately show ?thesis using that[of w2 "ETransfer ''link closed before transfer completed''"] by (simp add: end_error_def)
  qed
  have "receive_file E P J host windows dir w = (Some (Inl err), drop_claim part w2)"
    unfolding start w1(1) wbind_def w2(4) by simp
  then show ?thesis using w1 w2 assms(10) off'
    by (intro exI[of _ err] exI[of _ "drop_claim part w2"] exI[of _ off']) (auto simp: drop_claim_def staged_def off'_def)
qed

section \<open>Recovery\<close>

text \<open>
  \<open>recover.rs\<close>: whether an error is worth another attempt, and the two loops. Every attempt has
  a link of its own, or no link; what it delivers may depend on where the run is. The
  pause between attempts is left out. Of the checkpoint store it is kept which ids are saved.
\<close>

definition recoverable :: "domain_error \<Rightarrow> bool" where
  "recoverable e = (case e of EIntegrity _ \<Rightarrow> False | ECancelled \<Rightarrow> False | _ \<Rightarrow> True)"

function receive_file_recover :: "(nat \<Rightarrow> tenv) \<Rightarrow> prims \<Rightarrow> tjson \<Rightarrow> (string \<Rightarrow> path) \<Rightarrow> bool \<Rightarrow> string list
    \<Rightarrow> (nat \<Rightarrow> world \<Rightarrow> (domain_error, inbox) result) \<Rightarrow> nat \<Rightarrow> nat \<Rightarrow> received run" where
  "receive_file_recover Es P J host windows dir connect max_attempts attempt w =
     (let attempt = attempt + 1 in
      case (case connect attempt w of
              Inr xs \<Rightarrow> receive_file (Es attempt) P J host windows dir (w\<lparr>w_in := xs\<rparr>)
            | Inl e \<Rightarrow> (Some (Inl e), w)) of
        (None, w) \<Rightarrow> (None, w)
      | (Some (Inr r), w) \<Rightarrow> (Some (Inr r), w)
      | (Some (Inl e), w) \<Rightarrow>
          if recoverable e \<and> attempt < max_attempts
          then receive_file_recover Es P J host windows dir connect max_attempts attempt w
          else (Some (Inl e), w))"
  by pat_completeness auto
termination
  by (relation "measure (\<lambda>(Es, P, J, host, windows, dir, connect, max_attempts, attempt, w). max_attempts - attempt)") auto

declare receive_file_recover.simps [simp del]

record checkpoints =
  cp_saved :: "string set"
  cp_save_fails :: "domain_error option"
  cp_clear_fails :: "domain_error option"

function send_attempts :: "(nat \<Rightarrow> tenv) \<Rightarrow> prims \<Rightarrow> tjson \<Rightarrow> (nat \<Rightarrow> world \<Rightarrow> (domain_error, inbox) result) \<Rightarrow> send_request
    \<Rightarrow> nat \<Rightarrow> nat \<Rightarrow> nat \<Rightarrow> transfer_outcome run" where
  "send_attempts Es P J connect req max_attempts inner_retries attempt w =
     (let attempt = attempt + 1 in
      case (case connect attempt w of
              Inr xs \<Rightarrow> send_file (Es attempt) P J req inner_retries (w\<lparr>w_in := xs\<rparr>)
            | Inl e \<Rightarrow> (Some (Inl e), w)) of
        (None, w) \<Rightarrow> (None, w)
      | (Some (Inr r), w) \<Rightarrow> (Some (Inr r), w)
      | (Some (Inl e), w) \<Rightarrow>
          if recoverable e \<and> attempt < max_attempts
          then send_attempts Es P J connect req max_attempts inner_retries attempt w
          else (Some (Inl e), w))"
  by pat_completeness auto
termination
  by (relation "measure (\<lambda>(Es, P, J, connect, req, max_attempts, inner_retries, attempt, w). max_attempts - attempt)") auto

declare send_attempts.simps [simp del]

definition send_file_recover :: "(nat \<Rightarrow> tenv) \<Rightarrow> prims \<Rightarrow> tjson \<Rightarrow> (nat \<Rightarrow> world \<Rightarrow> (domain_error, inbox) result) \<Rightarrow> send_request
    \<Rightarrow> string \<Rightarrow> nat \<Rightarrow> nat \<Rightarrow> world \<Rightarrow> checkpoints \<Rightarrow> (domain_error, transfer_outcome) result option \<times> world \<times> checkpoints" where
  "send_file_recover Es P J connect req checkpoint max_attempts inner_retries w cps =
     (case cp_save_fails cps of
        Some e \<Rightarrow> (Some (Inl e), w, cps)
      | None \<Rightarrow>
          let cps = cps\<lparr>cp_saved := insert checkpoint (cp_saved cps)\<rparr> in
          case send_attempts Es P J connect req max_attempts inner_retries 0 w of
            (Some (Inr outcome), w) \<Rightarrow>
              (case cp_clear_fails cps of
                 Some e \<Rightarrow> (Some (Inl e), w, cps)
               | None \<Rightarrow> (Some (Inr outcome), w, cps\<lparr>cp_saved := cp_saved cps - {checkpoint}\<rparr>))
          | (r, w) \<Rightarrow> (r, w, cps))"

text \<open>
  The links of a run of attempts by an honest sender: no link, a link that breaks, or a whole
  exchange, each starting from what the staging file holds.
\<close>

definition honest_link :: "prims \<Rightarrow> tjson \<Rightarrow> send_request \<Rightarrow> bytes \<Rightarrow> fpath \<Rightarrow> world \<Rightarrow> (domain_error, inbox) result \<Rightarrow> bool" where
  "honest_link P J req src part w link =
     (\<forall>off \<le> length src. staged (w_disk w) part (take off src) \<longrightarrow>
        (case link of
           Inl e \<Rightarrow> recoverable e
         | Inr xs \<Rightarrow> xs = wire (sent_frames P J req src off)
             \<or> (\<exists>n x. n < length (sent_frames P J req src off) \<and> link_end x \<and> (\<forall>e. x = Inl e \<longrightarrow> recoverable e)
                  \<and> xs = wire (take n (sent_frames P J req src off)) @ [x])))"

definition whole_link :: "prims \<Rightarrow> tjson \<Rightarrow> send_request \<Rightarrow> bytes \<Rightarrow> fpath \<Rightarrow> world \<Rightarrow> (domain_error, inbox) result \<Rightarrow> bool" where
  "whole_link P J req src part w link =
     (\<forall>off \<le> length src. staged (w_disk w) part (take off src) \<longrightarrow> link = Inr (wire (sent_frames P J req src off)))"

lemma end_error_recoverable: "end_error x err \<Longrightarrow> link_end x \<Longrightarrow> \<forall>e. x = Inl e \<longrightarrow> recoverable e \<Longrightarrow> recoverable err"
  by (auto simp: end_error_def link_end_def recoverable_def split: sum.splits option.splits)

text \<open>One attempt of the loop.\<close>

definition attempt_result :: "(nat \<Rightarrow> tenv) \<Rightarrow> prims \<Rightarrow> tjson \<Rightarrow> (string \<Rightarrow> path) \<Rightarrow> bool \<Rightarrow> string list
    \<Rightarrow> (nat \<Rightarrow> world \<Rightarrow> (domain_error, inbox) result) \<Rightarrow> nat \<Rightarrow> received run" where
  "attempt_result Es P J host windows dir connect n w =
     (case connect n w of
        Inr xs \<Rightarrow> receive_file (Es n) P J host windows dir (w\<lparr>w_in := xs\<rparr>)
      | Inl e \<Rightarrow> (Some (Inl e), w))"

lemma honest_attempt:
  assumes "calm (Es n)" "tjson_ok J" "offers req src" "off \<le> length src" "honest_link P J req src part w (connect n w)"
    and "base = sanitize_file_name host windows (sr_name req)" "part = part_path (dir, base)" "part \<notin> set (w_claims w)"
    and "staged (w_disk w) part (take off src)"
  obtains (complete) final w' where "attempt_result Es P J host windows dir connect n w =
      (Some (Inr \<lparr>rv_outcome = T_Completed, rv_name = snd final, rv_bytes = of_nat (length src), rv_id = sr_id req\<rparr>), w')"
    "new_file (dir, base) (dfiles (w_disk w)) final" "dfiles (w_disk w') = (dfiles (w_disk w))(fp_names part := None, fp_names final \<mapsto> src)"
    "w_claims w' = w_claims w" "final \<noteq> part"
  | (cut) err w' off' where "attempt_result Es P J host windows dir connect n w = (Some (Inl err), w')" "recoverable err"
    "off' \<le> length src" "staged (w_disk w') part (take off' src)" "\<forall>p. p \<noteq> fp_names part \<longrightarrow> dfiles (w_disk w') p = dfiles (w_disk w) p"
    "w_claims w' = w_claims w" "\<not> whole_link P J req src part w (connect n w)"
proof (cases "connect n w")
  case (Inl e)
  then show ?thesis using assms(4,5,9) by (intro cut[of e w off]) (auto simp: attempt_result_def honest_link_def whole_link_def)
next
  case (Inr xs)
  let ?w = "w\<lparr>w_in := xs\<rparr>"
  have st: "staged (w_disk ?w) part (take off src)" "part \<notin> set (w_claims ?w)" using assms(8,9) by simp_all
  show ?thesis
  proof (cases "xs = wire (sent_frames P J req src off)")
    case True
    then have "w_in ?w = wire (sent_frames P J req src off)" by simp
    note whole = receive_whole[OF assms(1-4) this assms(6,7) st(2,1)]
    obtain final w' where "receive_file (Es n) P J host windows dir ?w =
      (Some (Inr \<lparr>rv_outcome = T_Completed, rv_name = snd final, rv_bytes = of_nat (length src), rv_id = sr_id req\<rparr>), w')"
      "new_file (dir, base) (dfiles (w_disk w)) final" "dfiles (w_disk w') = (dfiles (w_disk w))(fp_names part := None, fp_names final \<mapsto> src)"
      "w_claims w' = w_claims w" "final \<noteq> part" by (rule whole) simp
    then show ?thesis using complete[of final w'] Inr by (simp add: attempt_result_def)
  next
    case False
    then obtain m x where x: "m < length (sent_frames P J req src off)" "link_end x" "\<forall>e. x = Inl e \<longrightarrow> recoverable e"
      "w_in ?w = wire (take m (sent_frames P J req src off)) @ [x]" using assms(4,5,9) Inr by (auto simp: honest_link_def)
    from receive_broken[OF assms(1-4) x(2,1,4) assms(6,7) st(2,1)] obtain err w' off' where
      "receive_file (Es n) P J host windows dir ?w = (Some (Inl err), w')" "end_error x err" "off' \<le> length src"
      "staged (w_disk w') part (take off' src)" "\<forall>p. p \<noteq> fp_names part \<longrightarrow> dfiles (w_disk w') p = dfiles (w_disk w) p" "w_claims w' = w_claims w"
      by auto
    then show ?thesis using Inr False end_error_recoverable[OF _ x(2,3)] assms(4,9)
      by (intro cut[of err w' off']) (auto simp: attempt_result_def whole_link_def)
  qed
qed

lemma recover_attempt:
  "receive_file_recover Es P J host windows dir connect m k w =
     (case attempt_result Es P J host windows dir connect (Suc k) w of
        (None, w) \<Rightarrow> (None, w)
      | (Some (Inr r), w) \<Rightarrow> (Some (Inr r), w)
      | (Some (Inl e), w) \<Rightarrow>
          if recoverable e \<and> Suc k < m then receive_file_recover Es P J host windows dir connect m (Suc k) w else (Some (Inl e), w))"
  unfolding receive_file_recover.simps[of Es P J host windows dir connect m k w] attempt_result_def Let_def Suc_eq_plus1 ..

lemma recover_completes:
  assumes "\<forall>n. calm (Es n)" "tjson_ok J" "offers req src" "\<forall>n w. honest_link P J req src part w (connect n w)"
    and "base = sanitize_file_name host windows (sr_name req)" "part = part_path (dir, base)"
    and "\<forall>w. whole_link P J req src part w (connect good w)" "good \<le> max_attempts"
  shows "k < good \<Longrightarrow> off \<le> length src \<Longrightarrow> part \<notin> set (w_claims w) \<Longrightarrow> staged (w_disk w) part (take off src) \<Longrightarrow>
    \<exists>final w'. receive_file_recover Es P J host windows dir connect max_attempts k w =
      (Some (Inr \<lparr>rv_outcome = T_Completed, rv_name = snd final, rv_bytes = of_nat (length src), rv_id = sr_id req\<rparr>), w')
    \<and> new_file (dir, base) (dfiles (w_disk w)) final \<and> dfiles (w_disk w') = (dfiles (w_disk w))(fp_names part := None, fp_names final \<mapsto> src)
    \<and> w_claims w' = w_claims w \<and> final \<noteq> part"
proof (induction "good - k" arbitrary: k off w rule: less_induct)
  case less
  have e: "calm (Es (Suc k))" "honest_link P J req src part w (connect (Suc k) w)" using assms(1,4) by blast+
  from e(1) assms(2,3) less(3) e(2) assms(5,6) less(4,5) show ?case
  proof (cases rule: honest_attempt)
    case (complete final w')
    then show ?thesis by (subst recover_attempt) (auto simp del: split_paired_Ex)
  next
    case (cut err w' off')
    then have "Suc k < good" using assms(7) less(2) by (metis Suc_lessI)
    moreover from this have "Suc k < max_attempts" using assms(8) by simp
    ultimately have step: "receive_file_recover Es P J host windows dir connect max_attempts k w =
        receive_file_recover Es P J host windows dir connect max_attempts (Suc k) w'" "Suc k < good"
      using cut(1,2) by (simp_all add: recover_attempt[of Es P J host windows dir connect max_attempts k])
    moreover have "good - Suc k < good - k" "part \<notin> set (w_claims w')" using step(2) cut(6) less(4) by simp_all
    note ih = less(1)[OF this(1) step(2) cut(3) this(2) cut(4)]
    then obtain final w'' where f: "receive_file_recover Es P J host windows dir connect max_attempts k w =
      (Some (Inr \<lparr>rv_outcome = T_Completed, rv_name = snd final, rv_bytes = of_nat (length src), rv_id = sr_id req\<rparr>), w'')"
      "new_file (dir, base) (dfiles (w_disk w')) final" "dfiles (w_disk w'') = (dfiles (w_disk w'))(fp_names part := None, fp_names final \<mapsto> src)"
      "w_claims w'' = w_claims w'" "final \<noteq> part"
      unfolding step(1) by blast
    moreover have "new_file (dir, base) (dfiles (w_disk w)) final" using f(2,5) cut(5) by (simp add: new_file_def)
    moreover have "dfiles (w_disk w'') = (dfiles (w_disk w))(fp_names part := None, fp_names final \<mapsto> src)"
      using f(3) cut(5) by (auto simp: fun_eq_iff)
    moreover have "w_claims w'' = w_claims w" using f(4) cut(6) by simp
    ultimately show ?thesis using f(1,5) by blast
  qed
qed

section \<open>Delivery\<close>

text \<open>An exchange of an honest pair, whatever the staging file holds beyond the announced size.\<close>

lemma exchange:
  assumes env: "calm ES" "calm ER" "tjson_ok J"
    and src: "dfiles (w_disk ws) (fp_names (sr_path req)) = Some src" "sr_size req = of_nat (length src)" "length src < 2 ^ 64"
    and part: "part = part_path (dir, base)" "base = sanitize_file_name host windows (sr_name req)" "part \<notin> set (w_claims wr)" "staged (w_disk wr) part b"
    and old: "off = min (length b) (length src)" "take off b = take off src" "length b < 2 ^ 64" "src = [] \<longrightarrow> b = []"
  shows "\<exists>frames acks final ws' wr'.
      send_file ES P J req retries (ws\<lparr>w_in := wire acks\<rparr>) = (Some (Inr T_Completed), ws') \<and> w_out ws' = w_out ws @ frames
      \<and> receive_file ER P J host windows dir (wr\<lparr>w_in := wire frames\<rparr>) =
          (Some (Inr \<lparr>rv_outcome = T_Completed, rv_name = snd final, rv_bytes = sr_size req, rv_id = sr_id req\<rparr>), wr')
      \<and> w_out wr' = w_out wr @ acks
      \<and> concat (map lf_payload (filter (\<lambda>f. lf_kind f = Chunk_frame) frames)) = drop off src
      \<and> new_file (dir, base) (dfiles (w_disk wr)) final
      \<and> dfiles (w_disk wr') = (dfiles (w_disk wr))(fp_names part := None, fp_names final \<mapsto> b @ drop off src)
      \<and> w_claims wr' = w_claims wr \<and> dfiles (w_disk ws') = dfiles (w_disk ws)"
proof -
  define frames where "frames = sent_frames P J req src off"
  define acks where "acks = [control_frame J (ResumeAck_ctl (of_nat off)), control_frame J (Verify_ctl True)]"
  let ?ws = "ws\<lparr>w_in := wire acks\<rparr>" and ?wr = "wr\<lparr>w_in := wire frames\<rparr>"
  have o: "offers req src" "off \<le> length src" using src old(1) by (simp_all add: offers_def)
  have "dfiles (w_disk ?ws) (fp_names (sr_path req)) = Some src" "w_in ?ws = wire acks" using src by simp_all
  from send_file_calm[OF env(1,3) this(1) src(2,3) o(2), where ok = True, of P retries] this(2)
  obtain ws' where s: "send_file ES P J req retries ?ws = (Some (Inr T_Completed), ws')" "w_out ws' = w_out ws @ frames" "dfiles (w_disk ws') = dfiles (w_disk ws)"
    by (auto simp: frames_def acks_def)
  have "w_in ?wr = wire (sent_frames P J req src off)" "part \<notin> set (w_claims ?wr)" "staged (w_disk ?wr) part b"
    using part by (simp_all add: frames_def)
  note resumed = receive_resumed[OF env(2,3) o(1) old(1) this(1) part(2,1) this(2,3) old(2-4)]
  obtain final wr' where r: "receive_file ER P J host windows dir ?wr =
      (Some (Inr \<lparr>rv_outcome = T_Completed, rv_name = snd final, rv_bytes = of_nat (length src), rv_id = sr_id req\<rparr>), wr')"
    "new_file (dir, base) (dfiles (w_disk wr)) final"
    "dfiles (w_disk wr') = (dfiles (w_disk wr))(fp_names part := None, fp_names final \<mapsto> b @ drop off src)"
    "w_out wr' = w_out wr @ acks" "w_claims wr' = w_claims wr" by (rule resumed) (simp add: acks_def)
  have "filter (\<lambda>f. lf_kind f = Chunk_frame) (map chunk_frame xs) = map chunk_frame xs" "map (lf_payload \<circ> chunk_frame) xs = xs" for xs
    by (induction xs) simp_all
  then have "concat (map lf_payload (filter (\<lambda>f. lf_kind f = Chunk_frame) frames)) = drop off src"
    by (simp add: frames_def sent_frames_def concat_pieces[OF chunk_positive])
  with s r src(2) show ?thesis by metis
qed

text \<open>
  C26. An honest pair delivers the file: when the receiver's staging file is absent or holds a
  prefix of the source from an earlier attempt, there is an exchange - each side reading exactly
  the frames the other sends - in which both sides complete, the sender transmits only the bytes
  the receiver does not have, and afterwards the source is stored under a name that was free,
  every other file is as it was and the staging file and its claim are gone.
\<close>

theorem transfer_delivers:
  assumes env: "calm ES" "calm ER" "tjson_ok J"
    and src: "dfiles (w_disk ws) (fp_names (sr_path req)) = Some src" "sr_size req = of_nat (length src)" "length src < 2 ^ 64"
    and part: "part = part_path (dir, base)" "base = sanitize_file_name host windows (sr_name req)" "part \<notin> set (w_claims wr)"
      "off \<le> length src" "staged (w_disk wr) part (take off src)"
  shows "\<exists>frames acks final ws' wr'.
      send_file ES P J req retries (ws\<lparr>w_in := wire acks\<rparr>) = (Some (Inr T_Completed), ws') \<and> w_out ws' = w_out ws @ frames
      \<and> receive_file ER P J host windows dir (wr\<lparr>w_in := wire frames\<rparr>) =
          (Some (Inr \<lparr>rv_outcome = T_Completed, rv_name = snd final, rv_bytes = sr_size req, rv_id = sr_id req\<rparr>), wr')
      \<and> w_out wr' = w_out wr @ acks
      \<and> concat (map lf_payload (filter (\<lambda>f. lf_kind f = Chunk_frame) frames)) = drop off src
      \<and> new_file (dir, base) (dfiles (w_disk wr)) final
      \<and> dfiles (w_disk wr') = (dfiles (w_disk wr))(fp_names part := None, fp_names final \<mapsto> src)
      \<and> w_claims wr' = w_claims wr \<and> dfiles (w_disk ws') = dfiles (w_disk ws)"
proof -
  have "off = min (length (take off src)) (length src)" "take off (take off src) = take off src" "length (take off src) < 2 ^ 64"
    "src = [] \<longrightarrow> take off src = []" using src(3) part(4) by simp_all
  from exchange[OF env src part(1-3,5) this] show ?thesis unfolding append_take_drop_id .
qed

text \<open>
  C27. A staging file left behind by a longer file spoils a transfer unnoticed: when the source,
  not empty, is a proper beginning of what the staging file holds, the receiver asks for nothing,
  hashes only as many bytes as were announced, and publishes the staging file whole - the source
  followed by the old tail - while both sides report a verified, completed transfer.
\<close>

theorem stale_part_spoils:
  assumes env: "calm ES" "calm ER" "tjson_ok J"
    and src: "dfiles (w_disk ws) (fp_names (sr_path req)) = Some src" "sr_size req = of_nat (length src)" "src \<noteq> []"
    and part: "part = part_path (dir, base)" "base = sanitize_file_name host windows (sr_name req)" "part \<notin> set (w_claims wr)"
      "dfiles (w_disk wr) (fp_names part) = Some (src @ tail)" "length (src @ tail) < 2 ^ 64"
  shows "\<exists>frames acks final ws' wr'.
      send_file ES P J req retries (ws\<lparr>w_in := wire acks\<rparr>) = (Some (Inr T_Completed), ws') \<and> w_out ws' = w_out ws @ frames
      \<and> receive_file ER P J host windows dir (wr\<lparr>w_in := wire frames\<rparr>) =
          (Some (Inr \<lparr>rv_outcome = T_Completed, rv_name = snd final, rv_bytes = sr_size req, rv_id = sr_id req\<rparr>), wr')
      \<and> w_out wr' = w_out wr @ acks
      \<and> dfiles (w_disk wr') (fp_names final) = Some (src @ tail)"
proof -
  let ?off = "length src"
  have st: "staged (w_disk wr) part (src @ tail)" "length src < 2 ^ 64" using part(4,5) by (simp_all add: staged_def)
  have "?off = min (length (src @ tail)) (length src)" "take ?off (src @ tail) = take ?off src" "src = [] \<longrightarrow> src @ tail = []"
    using src(3) by simp_all
  from exchange[OF env src(1,2) st(2) part(1-3) st(1) this(1,2) part(5) this(3), of P retries]
  obtain frames acks final ws' wr' where
    "send_file ES P J req retries (ws\<lparr>w_in := wire acks\<rparr>) = (Some (Inr T_Completed), ws')" "w_out ws' = w_out ws @ frames"
    "receive_file ER P J host windows dir (wr\<lparr>w_in := wire frames\<rparr>) =
      (Some (Inr \<lparr>rv_outcome = T_Completed, rv_name = snd final, rv_bytes = sr_size req, rv_id = sr_id req\<rparr>), wr')"
    "w_out wr' = w_out wr @ acks"
    "dfiles (w_disk wr') = (dfiles (w_disk wr))(fp_names part := None, fp_names final \<mapsto> (src @ tail) @ drop ?off src)" by blast
  moreover from this(5) have "dfiles (w_disk wr') (fp_names final) = Some (src @ tail)" by simp
  ultimately show ?thesis by blast
qed

text \<open>
  C28. Interruptions cost nothing but time: while an honest sender's links fail to open or break
  after any number of frames, with errors worth another attempt, each attempt resumes where the
  last one stopped; if one of the allowed attempts gets through, receiving with recovery
  completes, the source is stored whole under a name that was free, and every other file is as it
  was.
\<close>

theorem recovery_delivers:
  assumes "\<forall>n. calm (Es n)" "tjson_ok J" "offers req src" "\<forall>n w. honest_link P J req src part w (connect n w)"
    and "part = part_path (dir, sanitize_file_name host windows (sr_name req))" "part \<notin> set (w_claims w)"
    and "off \<le> length src" "staged (w_disk w) part (take off src)"
    and "0 < good" "good \<le> max_attempts" "\<forall>w. whole_link P J req src part w (connect good w)"
  shows "\<exists>final w'. receive_file_recover Es P J host windows dir connect max_attempts 0 w =
      (Some (Inr \<lparr>rv_outcome = T_Completed, rv_name = snd final, rv_bytes = sr_size req, rv_id = sr_id req\<rparr>), w')
    \<and> new_file (dir, sanitize_file_name host windows (sr_name req)) (dfiles (w_disk w)) final
    \<and> dfiles (w_disk w') = (dfiles (w_disk w))(fp_names part := None, fp_names final \<mapsto> src) \<and> w_claims w' = w_claims w"
  using recover_completes[OF assms(1-4) refl assms(5,11,10,9,7,6,8)] assms(3) by (auto simp: offers_def)

section \<open>Witnesses\<close>

definition toy_tjson :: tjson where
  "toy_tjson =
     \<lparr>tj_meta = (\<lambda>m. toy_put (str_bytes (tm_id m)) @ toy_put (str_bytes (tm_name m)) @ toy_put (to_be (tm_size m)) @ to_be (tm_chunk_size m)),
      tj_parse_meta = (\<lambda>bs. case toy_get bs of (i, r) \<Rightarrow> case toy_get r of (n, r) \<Rightarrow> case toy_get r of (z, r) \<Rightarrow>
        Inr \<lparr>tm_id = toy_str i, tm_name = toy_str n, tm_size = from_be z, tm_chunk_size = from_be r\<rparr>),
      tj_control = (\<lambda>c. case c of ResumeAck_ctl n \<Rightarrow> 0 # to_be n | Complete_ctl s \<Rightarrow> 1 # str_bytes s
        | Verify_ctl b \<Rightarrow> [2, if b then 1 else 0] | Cancel_ctl \<Rightarrow> [3] | Pause_ctl \<Rightarrow> [4] | Resume_ctl \<Rightarrow> [5]),
      tj_parse_control = (\<lambda>bs. case bs of [] \<Rightarrow> Inl ''empty'' | t # r \<Rightarrow>
        if t = 0 then Inr (ResumeAck_ctl (from_be r)) else if t = 1 then Inr (Complete_ctl (toy_str r))
        else if t = 2 then Inr (Verify_ctl (r = [1])) else if t = 3 then Inr Cancel_ctl else if t = 4 then Inr Pause_ctl else Inr Resume_ctl)\<rparr>"

lemma toy_tjson_ok: "tjson_ok toy_tjson"
  unfolding tjson_ok_def
proof (intro conjI allI)
  show "tj_parse_control toy_tjson (tj_control toy_tjson c) = Inr c" for c
    by (cases c) (simp_all add: toy_tjson_def be64.dec_enc)
qed (simp add: toy_tjson_def be64.dec_enc be32.dec_enc)

definition toy_tenv :: tenv where
  "toy_tenv = \<lparr>te_dev = toy_dev, te_send = \<lambda>_. None, te_read = \<lambda>_. Some 1,
     te_ctl = \<lambda>_. \<lparr>c_cancelled = False, c_paused = False, c_stuck = False, c_cancel_wait = False\<rparr>\<rparr>"

lemma toy_calm: "calm toy_tenv"
  by (simp add: calm_def toy_tenv_def toy_dev_def)

definition toy_world :: "(string \<times> fs_node) list \<Rightarrow> inbox \<Rightarrow> world" where
  "toy_world es xs = \<lparr>w_disk = \<lparr>dk_root = Some (DirN [(''d'', DirN es)]), dk_calls = 0\<rparr>, w_in = xs, w_out = [], w_tries = 0, w_reads = 0,
     w_progress = [], w_claims = []\<rparr>"

definition toy_send :: send_request where
  "toy_send = \<lparr>sr_id = ''t'', sr_name = ''f.txt'', sr_path = ([''d''], ''s''), sr_size = 3, sr_chunk_size = 2\<rparr>"

definition toy_sender :: world where
  "toy_sender = toy_world [(''s'', FileN [7, 8, 9] 0)] []"

lemma toy_name: "sanitize_file_name components_unix False ''f.txt'' = ''f.txt''"
  by code_simp

lemma toy_send_simps [simp]: "sr_name toy_send = ''f.txt''" "sr_size toy_send = 3" "sr_id toy_send = ''t''" "sr_path toy_send = ([''d''], ''s'')"
  by (simp_all add: toy_send_def)

lemma toy_source: "dfiles (w_disk toy_sender) (fp_names (sr_path toy_send)) = Some [7, 8, 9]"
  by (simp add: toy_sender_def toy_world_def dfiles_def fs_files_def file_at_def fp_names_def)

lemma toy_staged: "dfiles (w_disk (toy_world [(''f.txt.part'', FileN b 0)] xs)) (fp_names (part_path ([''d''], ''f.txt''))) = Some b"
  by (simp add: toy_world_def dfiles_def fs_files_def file_at_def fp_names_def part_path_def PART_SUFFIX_def)

lemma toy_world_simps [simp]: "w_claims (toy_world es xs) = []" "(toy_world es ys)\<lparr>w_in := xs\<rparr> = toy_world es xs" "w_in (toy_world es xs) = xs"
  by (simp_all add: toy_world_def)

text \<open>One byte is there already; the other two are sent.\<close>

theorem transfer_delivers_witness:
  "\<exists>frames acks final ws' wr'.
     send_file toy_tenv toy_prims toy_tjson toy_send 0 (toy_sender\<lparr>w_in := wire acks\<rparr>) = (Some (Inr T_Completed), ws')
     \<and> receive_file toy_tenv toy_prims toy_tjson components_unix False [''d''] (toy_world [(''f.txt.part'', FileN [7] 0)] (wire frames)) =
         (Some (Inr \<lparr>rv_outcome = T_Completed, rv_name = snd final, rv_bytes = 3, rv_id = ''t''\<rparr>), wr')
     \<and> concat (map lf_payload (filter (\<lambda>f. lf_kind f = Chunk_frame) frames)) = [8, 9]
     \<and> dfiles (w_disk wr') (fp_names final) = Some [7, 8, 9]"
proof -
  have st: "staged (w_disk (toy_world [(''f.txt.part'', FileN [7] 0)] [])) (part_path ([''d''], ''f.txt'')) (take 1 [7, 8, 9])"
    using toy_staged[of "[7]"] by (simp add: staged_def)
  have "sr_size toy_send = of_nat (length [7, 8, 9 :: u8])" "length [7, 8, 9 :: u8] < 2 ^ 64" "''f.txt'' = sanitize_file_name components_unix False (sr_name toy_send)"
    "part_path ([''d''], ''f.txt'') \<notin> set (w_claims (toy_world [(''f.txt.part'', FileN [7] 0)] []))" "1 \<le> length [7, 8, 9 :: u8]"
    using toy_name by simp_all
  from transfer_delivers[OF toy_calm toy_calm toy_tjson_ok toy_source this(1,2) refl this(3-5) st, of toy_prims 0]
  show ?thesis unfolding toy_world_simps toy_send_simps by (elim exE conjE) (intro exI conjI, assumption, assumption, simp_all)
qed

text \<open>The staging file of a longer file that starts the same way.\<close>

theorem stale_part_spoils_witness:
  "\<exists>frames acks final ws' wr'.
     send_file toy_tenv toy_prims toy_tjson toy_send 0 (toy_sender\<lparr>w_in := wire acks\<rparr>) = (Some (Inr T_Completed), ws')
     \<and> receive_file toy_tenv toy_prims toy_tjson components_unix False [''d''] (toy_world [(''f.txt.part'', FileN [7, 8, 9, 1] 0)] (wire frames)) =
         (Some (Inr \<lparr>rv_outcome = T_Completed, rv_name = snd final, rv_bytes = 3, rv_id = ''t''\<rparr>), wr')
     \<and> dfiles (w_disk wr') (fp_names final) = Some [7, 8, 9, 1]"
proof -
  have "sr_size toy_send = of_nat (length [7, 8, 9 :: u8])" "[7, 8, 9 :: u8] \<noteq> []" "''f.txt'' = sanitize_file_name components_unix False (sr_name toy_send)"
    "part_path ([''d''], ''f.txt'') \<notin> set (w_claims (toy_world [(''f.txt.part'', FileN [7, 8, 9, 1] 0)] []))" "length ([7, 8, 9 :: u8] @ [1]) < 2 ^ 64"
    "dfiles (w_disk (toy_world [(''f.txt.part'', FileN [7, 8, 9, 1] 0)] [])) (fp_names (part_path ([''d''], ''f.txt''))) = Some ([7, 8, 9] @ [1])"
    using toy_name toy_staged[of "[7, 8, 9, 1]" "[]"] by simp_all
  from stale_part_spoils[OF toy_calm toy_calm toy_tjson_ok toy_source this(1,2) refl this(3,4,6,5), of toy_prims 0]
  show ?thesis unfolding toy_world_simps toy_send_simps by (elim exE conjE) (intro exI conjI, assumption, assumption, simp_all)
qed

text \<open>A first link that breaks after one chunk, then a whole one.\<close>

abbreviation toy_part :: fpath where
  "toy_part \<equiv> part_path ([''d''], ''f.txt'')"

definition toy_frames :: "world \<Rightarrow> link_frame list" where
  "toy_frames w = sent_frames toy_prims toy_tjson toy_send [7, 8, 9]
     (case dfiles (w_disk w) (fp_names toy_part) of None \<Rightarrow> 0 | Some b \<Rightarrow> length b)"

definition toy_connect :: "nat \<Rightarrow> world \<Rightarrow> (domain_error, inbox) result" where
  "toy_connect n w = Inr (if n = 1 then wire (take 1 (toy_frames w)) @ [Inr None] else wire (toy_frames w))"

lemma staged_length: "staged d p b \<Longrightarrow> (case dfiles d (fp_names p) of None \<Rightarrow> 0 | Some b \<Rightarrow> length b) = length b"
  using dfiles_absent[of p d] by (auto simp: staged_def)

lemma toy_links: "honest_link toy_prims toy_tjson toy_send [7, 8, 9] toy_part w (toy_connect n w)"
  "whole_link toy_prims toy_tjson toy_send [7, 8, 9] toy_part w (toy_connect 2 w)"
proof -
  have f: "toy_frames w = sent_frames toy_prims toy_tjson toy_send [7, 8, 9] off"
    if "off \<le> length [7, 8, 9 :: u8]" "staged (w_disk w) toy_part (take off [7, 8, 9])" for off
  proof -
    have "length (take off [7, 8, 9 :: u8]) = off" using that(1) by simp
    then show ?thesis using staged_length[OF that(2)] by (simp only: toy_frames_def)
  qed
  have c: "1 < length (sent_frames toy_prims toy_tjson toy_send [7, 8, 9] off)" for off by (simp add: sent_frames_def)
  show "honest_link toy_prims toy_tjson toy_send [7, 8, 9] toy_part w (toy_connect n w)"
    using f c by (auto simp: honest_link_def toy_connect_def link_end_def simp del: One_nat_def intro!: exI[of _ 1])
  show "whole_link toy_prims toy_tjson toy_send [7, 8, 9] toy_part w (toy_connect 2 w)"
    using f by (simp add: whole_link_def toy_connect_def)
qed

theorem recovery_delivers_witness:
  "\<exists>final w'. receive_file_recover (\<lambda>_. toy_tenv) toy_prims toy_tjson components_unix False [''d''] toy_connect 2 0
       (toy_world [(''f.txt.part'', FileN [7] 0)] []) =
     (Some (Inr \<lparr>rv_outcome = T_Completed, rv_name = snd final, rv_bytes = 3, rv_id = ''t''\<rparr>), w')
   \<and> dfiles (w_disk w') (fp_names final) = Some [7, 8, 9]"
proof -
  let ?w = "toy_world [(''f.txt.part'', FileN [7] 0)] []"
  have "staged (w_disk ?w) toy_part (take 1 [7, 8, 9])" "\<forall>n :: nat. calm toy_tenv" "offers toy_send [7, 8, 9]" "1 \<le> length [7, 8, 9 :: u8]"
    "toy_part = part_path ([''d''], sanitize_file_name components_unix False (sr_name toy_send))" "toy_part \<notin> set (w_claims ?w)"
    using toy_staged[of "[7]" "[]"] toy_name toy_calm by (simp_all add: staged_def offers_def)
  moreover have "\<forall>n w. honest_link toy_prims toy_tjson toy_send [7, 8, 9] toy_part w (toy_connect n w)"
    "\<forall>w. whole_link toy_prims toy_tjson toy_send [7, 8, 9] toy_part w (toy_connect 2 w)" using toy_links by blast+
  ultimately have "\<exists>final w'. receive_file_recover (\<lambda>_. toy_tenv) toy_prims toy_tjson components_unix False [''d''] toy_connect 2 0 ?w =
      (Some (Inr \<lparr>rv_outcome = T_Completed, rv_name = snd final, rv_bytes = sr_size toy_send, rv_id = sr_id toy_send\<rparr>), w')
    \<and> new_file ([''d''], sanitize_file_name components_unix False (sr_name toy_send)) (dfiles (w_disk ?w)) final
    \<and> dfiles (w_disk w') = (dfiles (w_disk ?w))(fp_names toy_part := None, fp_names final \<mapsto> [7, 8, 9]) \<and> w_claims w' = w_claims ?w"
    by (intro recovery_delivers[where good = 2 and off = 1] toy_tjson_ok) simp_all
  then show ?thesis unfolding toy_send_simps by (elim exE conjE) (intro exI conjI, assumption, simp)
qed

section \<open>Any peer\<close>


lemma toy_put_length: "length (toy_put xs) = 2 * length xs + 1"
  by (induction xs) (simp_all add: toy_put_def)


end
