(* ===== verification/PB_Folder_Props.thy ===== *)
theory PB_Folder_Props
  imports PB_Folder PB_Stream_Delivery
begin

text \<open>
  What receiving a folder guarantees whatever the peer sends: it stays below the folder's root,
  every file it writes is no longer than a header announced, and its staging claims are released.
\<close>

section \<open>Replacing a file\<close>

lemma finalize_replacing_files:
  assumes "finalize_replacing D temp dest s = (r, s')" "dfiles s (fp_names temp) = Some b" "temp \<noteq> dest"
  shows "(is_ok r \<longrightarrow> dfiles s' = (dfiles s)(fp_names temp := None, fp_names dest \<mapsto> b))
    \<and> (\<not> is_ok r \<longrightarrow> dfiles s' = dfiles s \<or> dfiles s' = (dfiles s)(fp_names dest := None))"
proof -
  obtain r1 s1 where p1: "promote D temp dest s = (r1, s1)" by fastforce
  obtain z s2 where z: "storage_size D dest s1 = (z, s2)" by fastforce
  obtain ok s3 where m: "remove_file D dest s2 = (ok, s3)" by fastforce
  obtain r4 s4 where p4: "promote D temp dest s3 = (r4, s4)" by fastforce
  note pf = promote_files[OF p1]
  show ?thesis
  proof (cases "is_ok r1")
    case True
    then show ?thesis using assms p1 pf by (cases r1) (auto simp: finalize_replacing_def)
  next
    case False
    then have same: "dfiles s2 = dfiles s" using pf storage_size_files[OF z] by (simp add: dfiles_def)
    then have d3: "dfiles s3 = (if ok then (dfiles s)(fp_names dest := None) else dfiles s)" using remove_file_files[OF m] by simp
    then have "dfiles s3 (fp_names temp) = Some b" using assms(2,3) by simp
    then have "is_ok r4 \<Longrightarrow> dfiles s4 = (dfiles s3)(fp_names temp := None, fp_names dest \<mapsto> b)" "\<not> is_ok r4 \<Longrightarrow> dfiles s4 = dfiles s3"
      using promote_files[OF p4] by (auto simp: dfiles_def)
    then show ?thesis using assms p1 z m p4 False d3 same
      by (cases r1; cases z; cases r4) (auto simp: finalize_replacing_def split: option.splits bool.splits if_splits)
  qed
qed

section \<open>The invariant of a receive\<close>

definition inside :: "fctx \<Rightarrow> string list \<Rightarrow> bool" where
  "inside C p = (\<exists>parts. p = fc_dir C @ fc_root C # parts \<and> parts \<noteq> [] \<and> list_all plain_part parts)"

definition announced :: "fjson \<Rightarrow> inbox \<Rightarrow> nat \<Rightarrow> bool" where
  "announced J xs n = (\<exists>f i path sz off. Inr (Some f) \<in> set xs \<and> lf_kind f = Control_frame
     \<and> parse_folder J f = Inr (FileHeader i path sz off) \<and> n \<le> unat sz)"

lemma announced_less: "announced J xs n \<Longrightarrow> m \<le> n \<Longrightarrow> announced J xs m"
  by (auto simp: announced_def intro: order_trans)

definition files_inv :: "fjson \<Rightarrow> inbox \<Rightarrow> fctx \<Rightarrow> (string list \<Rightarrow> bytes option) \<Rightarrow> (string list \<Rightarrow> bytes option) \<Rightarrow> bool" where
  "files_inv J xs C F F' = (\<forall>p. F' p \<noteq> F p \<longrightarrow> inside C p \<and> (\<forall>c. F' p = Some c \<longrightarrow> announced J xs (length c)))"

lemma files_inv_upd:
  assumes "files_inv J xs C F F'" "inside C p" "\<forall>c. v = Some c \<longrightarrow> announced J xs (length c)"
  shows "files_inv J xs C F (F'(p := v))"
  using assms by (auto simp: files_inv_def)

definition staging_inv :: "fjson \<Rightarrow> inbox \<Rightarrow> fctx \<Rightarrow> world \<Rightarrow> frecv \<Rightarrow> world \<Rightarrow> bool" where
  "staging_inv J xs C w0 st w =
     (case fv_paths st of
        None \<Rightarrow> fv_current st = None \<and> w_claims w = w_claims w0
      | Some (part, dest) \<Rightarrow> inside C (fp_names part) \<and> inside C (fp_names dest) \<and> part \<noteq> dest
          \<and> part \<notin> set (w_claims w0) \<and> w_claims w = part # w_claims w0 \<and> fv_current st \<in> {None, Some part}
          \<and> unat (fv_entry st) \<le> unat (fv_limit st) \<and> announced J xs (unat (fv_limit st))
          \<and> (\<exists>c. dfiles (w_disk w) (fp_names part) = Some c \<and> length c \<le> unat (fv_entry st)))"

definition folder_inv :: "fjson \<Rightarrow> inbox \<Rightarrow> fctx \<Rightarrow> world \<Rightarrow> frecv \<Rightarrow> world \<Rightarrow> bool" where
  "folder_inv J xs C w0 st w = (files_inv J xs C (dfiles (w_disk w0)) (dfiles (w_disk w)) \<and> staging_inv J xs C w0 st w)"

text \<open>What a run that ended has left: the claim goes with the paths.\<close>

definition ended_inv :: "fjson \<Rightarrow> inbox \<Rightarrow> fctx \<Rightarrow> world \<Rightarrow> frecv \<Rightarrow> world \<Rightarrow> bool" where
  "ended_inv J xs C w0 st w = (files_inv J xs C (dfiles (w_disk w0)) (dfiles (w_disk w)) \<and> w_claims (release (fv_paths st) w) = w_claims w0)"

lemma ended_inv: "folder_inv J xs C w0 st w \<Longrightarrow> ended_inv J xs C w0 st w"
  by (cases "fv_paths st") (auto simp: folder_inv_def staging_inv_def ended_inv_def release_def drop_claim_def)

text \<open>The steps, each with the files and the claims it leaves.\<close>

lemma close_writer_files:
  assumes "close_writer E wr d = (r, d')"
  shows "case wr of None \<Rightarrow> dfiles d' = dfiles d
    | Some p \<Rightarrow> \<exists>k. dfiles d' = (case dfiles d (fp_names p) of None \<Rightarrow> dfiles d
        | Some b \<Rightarrow> (dfiles d)(fp_names p \<mapsto> (if is_ok r then b else take k b)))"
proof (cases wr)
  case (Some p)
  obtain x d1 where f: "flush_file (te_dev E) p d = (x, d1)" by fastforce
  obtain y d2 where c: "close_file (te_dev E) d1 = (y, d2)" by fastforce
  obtain k where k: "dfiles d1 = (case dfiles d (fp_names p) of None \<Rightarrow> dfiles d | Some b \<Rightarrow> (dfiles d)(fp_names p \<mapsto> (if is_ok x then b else take k b)))"
    using flush_file_files[OF f] by blast
  show ?thesis
  proof (cases x)
    case (Inl e)
    then show ?thesis using assms Some f k by (auto simp: close_writer_def)
  next
    case (Inr u)
    then have "dfiles d' = dfiles d1" using assms Some f c close_file_files[OF c] by (auto simp: close_writer_def)
    then show ?thesis using k Inr Some by (auto split: option.splits intro: exI[of _ "length (the (dfiles d (fp_names p)))"])
  qed
qed (use assms in \<open>simp add: close_writer_def\<close>)

lemma closed_writer:
  assumes "close_writer E wr d = (r, d')" "dfiles d (fp_names part) = Some c" "wr \<in> {None, Some part}"
  obtains c' where "dfiles d' = (dfiles d)(fp_names part \<mapsto> c')" "length c' \<le> length c"
proof (cases "wr = None")
  case True
  then show ?thesis using that[of c] close_writer_files[OF assms(1)] assms(2) by (simp add: fun_upd_idem)
next
  case False
  then have "wr = Some part" using assms(3) by auto
  then obtain k where "dfiles d' = (dfiles d)(fp_names part \<mapsto> (if is_ok r then c else take k c))"
    using close_writer_files[OF assms(1)] assms(2) by auto
  then show ?thesis using that by (cases "is_ok r") auto
qed

lemma release_claims: "w_claims w = part # cs \<Longrightarrow> part \<notin> set cs \<Longrightarrow> w_claims (release (Some (part, dest)) w) = cs"
  by (simp add: release_def drop_claim_def)

lemma finish_entry_inv:
  assumes "folder_inv J xs C w0 st w" "finish_entry E (fv_current st) (fv_paths st) w = (r, w')"
  shows "files_inv J xs C (dfiles (w_disk w0)) (dfiles (w_disk w')) \<and> w_claims w' = w_claims w0"
proof (cases "fv_paths st")
  case None
  then show ?thesis using assms by (auto simp: folder_inv_def staging_inv_def finish_entry_def close_writer_def)
next
  case (Some pd)
  then obtain part dest where pd: "fv_paths st = Some (part, dest)" by (cases pd) auto
  have fi: "files_inv J xs C (dfiles (w_disk w0)) (dfiles (w_disk w))" using assms(1) by (simp add: folder_inv_def)
  have i: "inside C (fp_names part)" "inside C (fp_names dest)" "part \<noteq> dest" "part \<notin> set (w_claims w0)" "w_claims w = part # w_claims w0"
    "fv_current st \<in> {None, Some part}" "unat (fv_entry st) \<le> unat (fv_limit st)" "announced J xs (unat (fv_limit st))"
    using assms(1) pd by (auto simp: folder_inv_def staging_inv_def)
  obtain c where c: "dfiles (w_disk w) (fp_names part) = Some c" "length c \<le> unat (fv_entry st)"
    using assms(1) pd by (auto simp: folder_inv_def staging_inv_def)
  obtain x d where cl: "close_writer E (fv_current st) (w_disk w) = (x, d)" by fastforce
  obtain c' where c': "dfiles d = (dfiles (w_disk w))(fp_names part \<mapsto> c')" "length c' \<le> length c"
    by (rule closed_writer[OF cl c(1) i(6)])
  have ann: "announced J xs (length c')" using announced_less[OF i(8)] c'(2) c(2) i(7) by simp
  have fd: "files_inv J xs C (dfiles (w_disk w0)) (dfiles d)" unfolding c'(1) by (rule files_inv_upd[OF fi i(1)]) (simp add: ann)
  obtain y d2 where z: "finalize_replacing (te_dev E) part dest d = (y, d2)" by fastforce
  have fz: "files_inv J xs C (dfiles (w_disk w0)) (dfiles d2)"
    using finalize_replacing_files[OF z _ i(3), of c'] c'(1) fi fd i(1,2) ann by (cases "is_ok y") (auto intro!: files_inv_upd)
  have cl2: "w_claims (release (Some (part, dest)) (w\<lparr>w_disk := e\<rparr>)) = w_claims w0" for e
    using i(4,5) by (intro release_claims) simp_all
  show ?thesis using assms(2) pd cl z fd fz cl2 by (cases x) (auto simp: finish_entry_def)
qed

text \<open>Where an entry goes.\<close>

lemma dest_path_inside:
  assumes "dest_path (fc_windows C) (fc_dir C) (fc_root C) path = Some p"
  shows "\<exists>parts. fst p = fc_dir C @ fc_root C # parts \<and> list_all plain_part parts \<and> plain_part (snd p)"
proof -
  have "\<exists>parts. fp_names p = fc_dir C @ fc_root C # parts \<and> parts \<noteq> [] \<and> list_all plain_part parts"
    using dest_path_plain[OF assms] .
  then obtain parts where "fp_names p = fc_dir C @ fc_root C # parts" "parts \<noteq> []" "list_all plain_part parts" by blast
  then show ?thesis by (cases parts rule: rev_cases) (auto simp: fp_names_def)
qed

definition placed :: "fctx \<Rightarrow> fpath \<Rightarrow> bool" where
  "placed C p = (\<exists>parts. fst p = fc_dir C @ fc_root C # parts \<and> list_all plain_part parts \<and> plain_part (snd p))"

lemma placed_inside: "placed C p \<Longrightarrow> inside C (fp_names p)"
  by (auto simp: placed_def inside_def fp_names_def)

lemma placed_candidate: "placed C p \<Longrightarrow> q \<in> candidates p \<Longrightarrow> placed C q"
  using candidates_plain[of q "fst p" "snd p"] by (auto simp: placed_def)

lemma placed_part: "placed C p \<Longrightarrow> placed C (part_path p)"
  by (auto simp: placed_def part_path_def PART_SUFFIX_def plain_part_def)

lemma part_not_dest: "part_path p \<noteq> p"
  by (cases p) (simp add: part_path_def PART_SUFFIX_def)

lemma own_name_spec:
  assumes "own_name E C dp st w = (x, st', w')" "placed C dp"
  shows "dfiles (w_disk w') = dfiles (w_disk w) \<and> w_claims w' = w_claims w \<and> (\<forall>q. x = Some q \<longrightarrow> placed C q)
    \<and> fv_paths st' = fv_paths st \<and> fv_current st' = fv_current st \<and> fv_limit st' = fv_limit st \<and> fv_entry st' = fv_entry st"
proof (cases "path_key (fc_lower C) dp \<in> set (fv_written st)")
  case True
  obtain y d where f: "free_destination (te_dev E) dp (w_disk w) = (y, d)" by fastforce
  have "dfiles d = dfiles (w_disk w)" "\<And>q. y = Inr q \<Longrightarrow> q \<in> candidates dp"
    using free_loop_spec[OF f[unfolded free_destination_def]] by (auto simp: candidates_def)
  then show ?thesis using assms True f placed_candidate[OF assms(2)] by (cases y) (auto simp: own_name_def)
qed (use assms in \<open>auto simp: own_name_def\<close>)

lemma open_entry_inv:
  assumes "open_entry E dp st w = (st', w')" "placed C dp" "files_inv J xs C (dfiles (w_disk w0)) (dfiles (w_disk w))" "w_claims w = w_claims w0"
    and "fv_paths st = None" "fv_current st = None" "fv_entry st = 0" "announced J xs (unat (fv_limit st))"
  shows "folder_inv J xs C w0 st' w' \<and> fv_entry st' = 0"
proof -
  obtain r w1 where c: "claim_destination E dp w = (r, w1)" by fastforce
  note cs = claim_destination_spec[OF c]
  show ?thesis
  proof (cases "\<exists>d part. r = Some (Inr (d, part))")
    case False
    then have "st' = skip_entry (st\<lparr>fv_hash := []\<rparr>)" "w' = w1" "w_claims w1 = w_claims w" "dfiles (w_disk w1) = dfiles (w_disk w)"
      using assms(1) c cs by (auto simp: open_entry_def Let_def split: option.splits sum.splits)
    then show ?thesis using assms by (simp add: folder_inv_def staging_inv_def skip_entry_def)
  next
    case True
    then obtain d part where r: "r = Some (Inr (d, part))" by blast
    have k: "placed C d" "part = part_path d" "part \<notin> set (w_claims w)" "w_claims w1 = part # w_claims w" "dfiles (w_disk w1) = dfiles (w_disk w)"
      using cs r placed_candidate[OF assms(2)] by auto
    obtain y e where o: "open_write (te_dev E) part (w_disk w1) = (y, e)" by fastforce
    note of = open_write_files[OF o]
    have pi: "inside C (fp_names part)" "inside C (fp_names d)" "part \<noteq> d"
      using placed_inside[OF placed_part[OF k(1)]] placed_inside[OF k(1)] part_not_dest[of d] k(2) by simp_all
    show ?thesis
    proof (cases y)
      case (Inl err)
      then have "st' = skip_entry (st\<lparr>fv_hash := []\<rparr>)" "w' = drop_claim part (w1\<lparr>w_disk := e\<rparr>)"
        using assms(1) c r o by (auto simp: open_entry_def Let_def)
      then show ?thesis using assms of Inl k by (simp add: folder_inv_def staging_inv_def skip_entry_def drop_claim_def)
    next
      case (Inr u)
      then have e: "st' = st\<lparr>fv_hash := [], fv_current := Some part, fv_paths := Some (part, d), fv_skipped := False\<rparr>" "w' = w1\<lparr>w_disk := e\<rparr>"
        "dfiles e = (dfiles (w_disk w))(fp_names part \<mapsto> [])" using assms(1) c r o of k(5) by (auto simp: open_entry_def Let_def)
      then have "files_inv J xs C (dfiles (w_disk w0)) (dfiles (w_disk w'))"
        using files_inv_upd[OF assms(3) pi(1), of "Some []"] announced_less[OF assms(8), of 0] by simp
      then show ?thesis using e pi k assms(4,7,8) by (simp add: folder_inv_def staging_inv_def)
    qed
  qed
qed

lemma on_header_inv:
  assumes "folder_inv J xs C w0 st w" "announced J xs (unat sz)"
  shows "case on_header E C path sz off st w of
      F_again st' w' \<Rightarrow> folder_inv J xs C w0 st' w' \<and> fv_entry st' = 0
    | F_ended x st' w' \<Rightarrow> ended_inv J xs C w0 st' w'"
proof -
  define lim where "lim = (if off \<le> sz then sz - off else 0)"
  have "unat lim \<le> unat sz" by (auto simp: lim_def word_le_nat_alt unat_sub)
  then have ann: "announced J xs (unat lim)" using announced_less[OF assms(2)] by blast
  define st1 where "st1 = st\<lparr>fv_limit := lim, fv_entry := 0, fv_current := None, fv_paths := None\<rparr>"
  have rec: "st\<lparr>fv_limit := lim, fv_entry := 0\<rparr>\<lparr>fv_current := None, fv_paths := None\<rparr> = st1" by (simp add: st1_def)
  obtain r w1 where f: "finish_entry E (fv_current st) (fv_paths st) w = (r, w1)" by fastforce
  note fi = finish_entry_inv[OF assms(1) f]
  have base: "folder_inv J xs C w0 st1 w1" "folder_inv J xs C w0 (skip_entry st1) w1"
    using fi by (simp_all add: folder_inv_def staging_inv_def st1_def skip_entry_def)
  show ?thesis
  proof (cases r)
    case (Inl e)
    then show ?thesis using f ended_inv[OF base(1)] by (simp add: on_header_def Let_def lim_def[symmetric] st1_def)
  next
    case (Inr landed)
    show ?thesis
    proof (cases "dest_path (fc_windows C) (fc_dir C) (fc_root C) path")
      case None
      then show ?thesis using f Inr base by (simp add: on_header_def Let_def lim_def[symmetric] st1_def skip_entry_def)
    next
      case (Some dp)
      have pl: "placed C dp" using dest_path_inside[OF Some] by (simp add: placed_def)
      obtain x st2 w2 where o: "own_name E C dp st1 w1 = (x, st2, w2)" by (metis surj_pair)
      note os = own_name_spec[OF o pl]
      have step: "on_header E C path sz off st w = (case x of None \<Rightarrow> F_again (skip_entry st2) w2
          | Some dp \<Rightarrow> (case open_entry E dp st2 w2 of (st, w) \<Rightarrow> F_again st w))"
        using f Inr Some o by (simp add: on_header_def Let_def lim_def[symmetric] rec[symmetric] split: option.split)
      show ?thesis
      proof (cases x)
        case None
        then show ?thesis using step os fi by (simp add: folder_inv_def staging_inv_def skip_entry_def st1_def)
      next
        case (Some q)
        obtain st3 w3 where e: "open_entry E q st2 w2 = (st3, w3)" by fastforce
        have "folder_inv J xs C w0 st3 w3 \<and> fv_entry st3 = 0"
          using os Some fi ann by (intro open_entry_inv[OF e]) (auto simp: st1_def)
        then show ?thesis using step Some e by simp
      qed
    qed
  qed
qed

lemma inv_cleared:
  assumes "files_inv J xs C (dfiles (w_disk w0)) (dfiles (w_disk w))" "w_claims w = w_claims w0" "fv_paths st = None" "fv_current st = None"
  shows "folder_inv J xs C w0 st w"
  using assms by (simp add: folder_inv_def staging_inv_def)

lemma inv_same:
  assumes "folder_inv J xs C w0 st w" "dfiles (w_disk w') = dfiles (w_disk w)" "w_claims w' = w_claims w"
  shows "folder_inv J xs C w0 st w'"
  using assms by (cases "fv_paths st") (auto simp: folder_inv_def staging_inv_def)

text \<open>Closing the writer without publishing, the paths kept or dropped.\<close>

lemma close_inv:
  assumes "folder_inv J xs C w0 st w" "d = snd (close_writer E (fv_current st) (w_disk w))"
  shows "folder_inv J xs C w0 (st\<lparr>fv_current := None\<rparr>) (w\<lparr>w_disk := d\<rparr>)"
    "files_inv J xs C (dfiles (w_disk w0)) (dfiles d)" "w_claims (release (fv_paths st) (w\<lparr>w_disk := d\<rparr>)) = w_claims w0"
proof -
  have A: "folder_inv J xs C w0 (st\<lparr>fv_current := None\<rparr>) (w\<lparr>w_disk := d\<rparr>)
    \<and> w_claims (release (fv_paths st) (w\<lparr>w_disk := d\<rparr>)) = w_claims w0"
  proof (cases "fv_paths st")
    case None
    then show ?thesis using assms by (auto simp: folder_inv_def staging_inv_def close_writer_def release_def)
  next
    case (Some pd)
    then obtain part dest where pd: "fv_paths st = Some (part, dest)" by (cases pd) auto
    obtain r where cl: "close_writer E (fv_current st) (w_disk w) = (r, d)" using assms(2) by (metis prod.collapse)
    obtain c where c: "dfiles (w_disk w) (fp_names part) = Some c" "length c \<le> unat (fv_entry st)" "fv_current st \<in> {None, Some part}"
      using assms(1) pd by (auto simp: folder_inv_def staging_inv_def)
    obtain c' where c': "dfiles d = (dfiles (w_disk w))(fp_names part \<mapsto> c')" "length c' \<le> length c"
      by (rule closed_writer[OF cl c(1,3)])
    have i: "inside C (fp_names part)" "announced J xs (length c')" "files_inv J xs C (dfiles (w_disk w0)) (dfiles (w_disk w))"
      using assms(1) pd c(2) c'(2) announced_less[of J xs "unat (fv_limit st)" "length c'"] by (auto simp: folder_inv_def staging_inv_def)
    then have "files_inv J xs C (dfiles (w_disk w0)) (dfiles d)" unfolding c'(1) by (intro files_inv_upd) simp_all
    then show ?thesis using assms(1) pd c' c(2) release_claims[of "w\<lparr>w_disk := d\<rparr>" part "w_claims w0" dest]
      by (auto simp: folder_inv_def staging_inv_def)
  qed
  then show "folder_inv J xs C w0 (st\<lparr>fv_current := None\<rparr>) (w\<lparr>w_disk := d\<rparr>)"
    "w_claims (release (fv_paths st) (w\<lparr>w_disk := d\<rparr>)) = w_claims w0" by simp_all
  show "files_inv J xs C (dfiles (w_disk w0)) (dfiles d)" using A by (simp add: folder_inv_def)
qed

lemma on_file_end_inv:
  assumes "folder_inv J xs C w0 st w"
  shows "case on_file_end E P checksum st w of
      F_again st' w' \<Rightarrow> folder_inv J xs C w0 st' w' \<and> fv_entry st' = fv_entry st
    | F_ended x st' w' \<Rightarrow> ended_inv J xs C w0 st' w'"
proof -
  obtain r w1 where f: "finish_entry E (fv_current st) (fv_paths st) w = (r, w1)" by fastforce
  have a: "folder_inv J xs C w0 st' w1" if "fv_paths st' = None" "fv_current st' = None" for st'
    using finish_entry_inv[OF assms f] that by (auto intro: inv_cleared)
  have b: "folder_inv J xs C w0 st' (release (fv_paths st) (w\<lparr>w_disk := snd (close_writer E (fv_current st) (w_disk w))\<rparr>))"
    if "fv_paths st' = None" "fv_current st' = None" for st'
    using close_inv(2,3)[OF assms refl, where E = E] that by (intro inv_cleared) simp_all
  show ?thesis
    by (cases r) (auto simp: on_file_end_def Let_def f a b intro!: ended_inv)
qed

lemma on_chunk_inv:
  assumes "folder_inv J xs C w0 st w" "unat (fv_entry st) + length payload < 2 ^ 64"
  shows "case on_folder_chunk E C payload st w of
      F_again st' w' \<Rightarrow> folder_inv J xs C w0 st' w' \<and> unat (fv_entry st') \<le> unat (fv_entry st) + length payload
    | F_ended x st' w' \<Rightarrow> ended_inv J xs C w0 st' w'"
proof (cases "fv_current st")
  case None
  then show ?thesis using assms by (simp add: on_folder_chunk_def)
next
  case (Some p)
  then obtain dest c where i: "fv_paths st = Some (p, dest)" "inside C (fp_names p)" "announced J xs (unat (fv_limit st))"
    "dfiles (w_disk w) (fp_names p) = Some c" "length c \<le> unat (fv_entry st)" "files_inv J xs C (dfiles (w_disk w0)) (dfiles (w_disk w))"
    using assms(1) by (auto simp: folder_inv_def staging_inv_def split: option.splits)
  have u: "unat (fv_entry st + of_nat (length payload)) = unat (fv_entry st) + length payload"
    using assms(2) by (subst unat_plus_small) (simp_all add: unat_small)
  obtain x d where wr: "write_all (te_dev E) p payload (w_disk w) = (x, d)" by fastforce
  obtain k where k: "is_ok x \<longrightarrow> k = length payload" "dfiles d = (dfiles (w_disk w))(fp_names p \<mapsto> c @ take k payload)"
    using write_all_files[OF wr] i(4) by auto
  show ?thesis
  proof (cases "fv_limit st < fv_entry st + of_nat (length payload)")
    case True
    then show ?thesis using Some ended_inv[OF assms(1)] by (simp add: on_folder_chunk_def)
  next
    case False
    then have le: "unat (fv_entry st) + length payload \<le> unat (fv_limit st)" using u by (simp add: word_less_nat_alt)
    define st' where "st' = st\<lparr>fv_hash := fv_hash st @ payload, fv_entry := fv_entry st + of_nat (length payload), fv_done := fv_done st + of_nat (length payload)\<rparr>"
    have len: "length (c @ take k payload) \<le> unat (fv_limit st)" using le i(5) by simp
    have fi: "files_inv J xs C (dfiles (w_disk w0)) (dfiles d)"
      unfolding k(2) using announced_less[OF i(3) len] by (intro files_inv_upd[OF i(6,2)]) simp
    have ok: "folder_inv J xs C w0 st' (folder_report C st' TS_Transferring (w\<lparr>w_disk := d\<rparr>))"
      using fi assms(1) i(1,5) u le k(2) by (auto simp: folder_inv_def staging_inv_def st'_def)
    show ?thesis
    proof (cases x)
      case (Inr a)
      then show ?thesis using Some False wr ok u by (simp add: on_folder_chunk_def Let_def st'_def)
    next
      case (Inl e)
      have "w_claims w = p # w_claims w0" "p \<notin> set (w_claims w0)" using assms(1) i(1) by (auto simp: folder_inv_def staging_inv_def)
      then show ?thesis using Some False wr Inl fi i(1) by (simp add: on_folder_chunk_def Let_def ended_inv_def release_def drop_claim_def)
    qed
  qed
qed

lemma on_folder_frame_inv:
  assumes "folder_inv J xs C w0 st w" "unat (fv_entry st) + length (lf_payload f) < 2 ^ 64" "Inr (Some f) \<in> set xs"
  shows "case on_folder_frame E P J C f st w of
      F_again st' w' \<Rightarrow> folder_inv J xs C w0 st' w' \<and> unat (fv_entry st') \<le> unat (fv_entry st) + length (lf_payload f)
    | F_ended x st' w' \<Rightarrow> ended_inv J xs C w0 st' w'"
proof (cases "lf_kind f")
  case Chunk_frame
  then show ?thesis using on_chunk_inv[OF assms(1,2)] by (simp add: on_folder_frame_def)
next
  case Control_frame
  show ?thesis
  proof (cases "parse_folder J f")
    case (Inl e)
    then show ?thesis using Control_frame ended_inv[OF assms(1)] by (simp add: on_folder_frame_def)
  next
    case (Inr m)
    obtain r w1 where f: "finish_entry E (fv_current st) (fv_paths st) w = (r, w1)" by fastforce
    have e: "ended_inv J xs C w0 (st\<lparr>fv_current := None, fv_paths := None\<rparr>) w1"
      using finish_entry_inv[OF assms(1) f] by (intro ended_inv inv_cleared) simp_all
    have h: "announced J xs (unat sz)" if "m = FileHeader i path sz off" for i path sz off
      using that Inr Control_frame assms(3) by (fastforce simp: announced_def)
    have rp: "folder_inv J xs C w0 st (folder_report C st s w)" for s using assms(1) by (rule inv_same) simp_all
    show ?thesis
    proof (cases m)
      case (FileHeader i path sz off)
      then show ?thesis using Control_frame Inr on_header_inv[OF assms(1) h[OF FileHeader], of E path off]
        by (auto simp: on_folder_frame_def split: folder_next.splits)
    next
      case (FileEnd i checksum)
      then show ?thesis using Control_frame Inr on_file_end_inv[OF assms(1), of E P checksum]
        by (auto simp: on_folder_frame_def split: folder_next.splits)
    next
      case Folder_Complete
      then show ?thesis using Control_frame Inr f e by (auto simp: on_folder_frame_def split: sum.splits)
    next
      case Folder_Cancel
      then show ?thesis using Control_frame Inr ended_inv[OF close_inv(1)[OF assms(1) refl]] by (simp add: on_folder_frame_def)
    qed (use Control_frame Inr assms(1) rp in \<open>auto simp: on_folder_frame_def\<close>)
  qed
qed (use assms in \<open>auto simp: on_folder_frame_def\<close>)

lemma folder_loop_inv:
  assumes "folder_inv J xs C w0 st w" "set (w_in w) \<subseteq> set xs" "unat (fv_entry st) + chunk_bytes (w_in w) < 2 ^ 64"
    "folder_loop E P J C k sg st w = (r, st', w')"
  shows "ended_inv J xs C w0 st' w'"
  using assms
proof (induction "length (w_in w)" arbitrary: k sg st w rule: less_induct)
  case less
  obtain sg1 w1 where p: "folder_pause_report C (te_ctl E k) sg st w = (sg1, w1)" by fastforce
  note same = folder_pause_report_same[OF p]
  have i1: "folder_inv J xs C w0 st v" if "w_disk v = w_disk w" "w_claims v = w_claims w" for v
    using that by (intro inv_same[OF less(2)]) simp_all
  have stop: "ended_inv J xs C w0 st v" if "w_disk v = w_disk w" "w_claims v = w_claims w" for v
    using i1[OF that] by (rule ended_inv)
  note halt = stop[of "stop_folder E J w"] stop[of "stop_folder E J w1"]
  show ?case
  proof (cases "ctl_stops (te_ctl E k) \<or> (\<nexists>f t. w_in w = Inr (Some f) # t)")
    case True
    then show ?thesis using less(5) same halt stop send_frame_same[of E "folder_frame J Folder_Cancel"]
      by (auto simp: folder_loop.simps[of E P J C k sg st w] p ctl_stops_def stop_folder_def Let_def
          split: if_splits list.splits sum.splits option.splits)
  next
    case False
    then obtain f t where f: "w_in w = Inr (Some f) # t" by blast
    let ?w = "w1\<lparr>w_in := t\<rparr>"
    have run: "(case on_folder_frame E P J C f st ?w of F_again st w \<Rightarrow> folder_loop E P J C (Suc k) sg1 st w | F_ended x st w \<Rightarrow> (Some x, st, w)) = (r, st', w')"
      using less(5) False f same by (auto simp: folder_loop.simps[of E P J C k sg st w] p ctl_stops_def Let_def split: if_splits)
    have "unat (fv_entry st) + length (lf_payload f) < 2 ^ 64" "Inr (Some f) \<in> set xs" using less(3,4) f by auto
    from on_folder_frame_inv[OF i1 this, of ?w E P] same
    have inv: "case on_folder_frame E P J C f st ?w of
        F_again st' w' \<Rightarrow> folder_inv J xs C w0 st' w' \<and> unat (fv_entry st') \<le> unat (fv_entry st) + length (lf_payload f)
      | F_ended x st' w' \<Rightarrow> ended_inv J xs C w0 st' w'" by simp
    show ?thesis
    proof (cases "on_folder_frame E P J C f st ?w")
      case (F_again st2 w2)
      have "w_in w2 = t" using on_folder_frame_in[OF F_again] by simp
      then show ?thesis using less(1)[of w2 st2 "Suc k" sg1] inv run F_again less(3,4) f by auto
    next
      case (F_ended x st2 w2)
      then show ?thesis using inv run by simp
    qed
  qed
qed

lemma recv_until_picked: "recv_until pick closed xs = (Some (Inr a), rest) \<Longrightarrow> \<exists>f. pick f = Some (Inr a)"
  by (induction pick closed xs rule: recv_until.induct) (auto split: option.splits)

lemma recv_manifest_root:
  assumes "recv_manifest J host windows w = (Some (Inr (tid, root, files)), w')"
  shows "\<exists>name. root = sanitize_name host windows name"
proof -
  let ?pick = "\<lambda>f. if lf_kind f = Control_frame then (case parse_folder J f of Inl e \<Rightarrow> Some (Inl e)
     | Inr m \<Rightarrow> (case m of Manifest tid root files \<Rightarrow> Some (Inr (tid, sanitize_name host windows root, files)) | _ \<Rightarrow> None)) else None"
  obtain f where "?pick f = Some (Inr (tid, root, files))"
    using assms recv_until_picked[of ?pick "''link closed before manifest''" "w_in w" "(tid, root, files)"]
    by (auto simp: recv_manifest_def recv_folder_message_def recv_picking_def simp del: split_paired_Ex split: prod.splits)
  then show ?thesis by (auto split: if_splits sum.splits folder_message.splits)
qed

end
