(* ===== verification/PB_Folder_Delivery.thy ===== *)
theory PB_Folder_Delivery
  imports PB_Folder_Props
begin

text \<open>
  Delivery of a folder between an honest sender and an honest receiver: what arrives, what is
  confirmed, and what an entry the receiver has to skip does to the sender's verdict.
\<close>

section \<open>Directories and links of a tree\<close>

lemma dir_prefix: "fs_is_dir (p @ zs) t \<Longrightarrow> fs_is_dir p t"
  by (induction p t rule: fs_lookup.induct) (auto simp: fs_is_dir_def split: io_res.splits fs_node.splits, (cases zs; auto)+)

lemma mkdirs_dirs: "fs_mkdirs p t = Some n \<Longrightarrow> fs_is_dir q (Some n) \<longleftrightarrow> fs_is_dir q t \<or> below q p"
proof (induction p t arbitrary: n q rule: fs_mkdirs.induct)
  case 1
  then show ?case by (cases q) (auto simp: fs_is_dir_def)
next
  case (2 es)
  then show ?case by (cases q) (auto simp: fs_is_dir_def)
next
  case (4 x p)
  then obtain m where m: "fs_mkdirs p None = Some m" "n = DirN [(x, m)]" by auto
  show ?case
  proof (cases q)
    case (Cons y q')
    then show ?thesis using 4(1)[OF m(1), of q'] m(2) by (auto simp: fs_is_dir_def)
  qed (simp add: m fs_is_dir_def)
next
  case (5 x p es)
  then obtain m where m: "fs_mkdirs p (map_of es x) = Some m" "n = DirN (AList.update x m es)" by auto
  show ?case
  proof (cases q)
    case (Cons y q')
    then show ?thesis using 5(1)[OF m(1), of q'] m(2) by (auto simp: fs_is_dir_def update_conv')
  qed (simp add: m fs_is_dir_def)
qed auto

lemma mkdirs_links: "fs_mkdirs p t = Some n \<Longrightarrow> fs_lookup q (Some n) = IoOk LinkN \<Longrightarrow> fs_lookup q t = IoOk LinkN"
proof (induction p t arbitrary: n q rule: fs_mkdirs.induct)
  case 1
  then show ?case by (cases q) auto
next
  case (4 x p)
  then obtain z where z: "fs_mkdirs p None = Some z" "n = DirN [(x, z)]" by auto
  then show ?case using 4(1)[OF z(1)] 4(3) by (cases q) (auto split: if_splits)
next
  case (5 x p es)
  then show ?case by (cases q) (auto simp: update_conv' split: if_splits)
qed auto

lemma mkdirs_clear:
  "\<forall>q. below q p \<longrightarrow> file_at t q = None \<and> fs_lookup q t \<noteq> IoOk LinkN \<Longrightarrow> \<exists>n. fs_mkdirs p t = Some n"
proof (induction p t rule: fs_mkdirs.induct)
  case (5 x p es)
  have "\<forall>q. below q p \<longrightarrow> file_at (map_of es x) q = None \<and> fs_lookup q (map_of es x) \<noteq> IoOk LinkN"
    using 5(2) by (metis below_simps(2) file_at_simps(3) fs_lookup.simps(3))
  then show ?case using 5(1) by auto
qed (auto dest: spec[of _ "[]"])

lemma set_links: "fs_lookup q (fs_set p v t) = IoOk LinkN \<Longrightarrow> v \<noteq> Some LinkN \<Longrightarrow> \<not> (\<exists>es. v = Some (DirN es)) \<Longrightarrow> fs_lookup q t = IoOk LinkN"
proof (induction p v t arbitrary: q rule: fs_set.induct)
  case (1 v t)
  then show ?case by (cases v; cases q; cases "the v") auto
next
  case (2 x p v es)
  then show ?case by (cases q) (auto simp: update_conv' delete_conv' split: option.splits if_splits)
qed auto

lemma set_file_dirs:
  assumes "p \<noteq> []" "fs_is_dir (butlast p) t" "\<not> fs_is_dir p t"
  shows "fs_is_dir q (fs_set p (Some (FileN b m)) t) = fs_is_dir q t"
proof -
  have l: "fs_lookup p (fs_set p (Some (FileN b m)) t) = IoOk (FileN b m)" using set_lookup[OF assms(1,2), of "Some (FileN b m)"] by simp
  show ?thesis
  proof (cases rule: below_cases[of p q])
    case 1
    then show ?thesis by (rule dir_at_set)
  next
    case (2 zs)
    then have "below p q" by (simp add: below_def)
    then show ?thesis using file_not_above_dir[OF l] dir_prefix[of p zs t] assms(3) 2 by blast
  qed (use l assms(3) in \<open>simp add: fs_is_dir_def\<close>)
qed

lemma set_none_dirs:
  assumes "p \<noteq> []" "\<not> fs_is_dir p t"
  shows "fs_is_dir q (fs_set p None t) = fs_is_dir q t"
proof (cases "fs_is_dir (butlast p) t")
  case True
  have l: "fs_lookup p (fs_set p None t) = IoNotFound" using set_lookup[OF assms(1) True, of None] by simp
  then have "\<not> fs_is_dir p (fs_set p None t)" by (simp add: fs_is_dir_def)
  then show ?thesis using assms(2) dir_at_set[of p q None t] dir_prefix[of p _ "fs_set p None t"] dir_prefix[of p _ t]
    by (cases rule: below_cases[of p q]) auto
qed (use set_no_parent[OF assms(1)] in simp)

section \<open>Room for an entry\<close>

definition isdir :: "disk \<Rightarrow> string list \<Rightarrow> bool" where
  "isdir d q = fs_is_dir q (dk_root d)"

definition islink :: "disk \<Rightarrow> string list \<Rightarrow> bool" where
  "islink d q = (fs_lookup q (dk_root d) = IoOk LinkN)"

definition roomy :: "disk \<Rightarrow> fpath \<Rightarrow> bool" where
  "roomy d dp = ((\<forall>q. below q (fst dp) \<longrightarrow> dfiles d q = None \<and> \<not> islink d q)
     \<and> (\<forall>x \<in> {dp, part_path dp}. \<not> isdir d (fp_names x) \<and> \<not> islink d (fp_names x)))"

lemma not_below_longer: "length q < length p \<Longrightarrow> \<not> below p q"
  by (auto simp: below_def dest: arg_cong[of _ _ length])

lemma name_not_below [simp]: "\<not> below (fp_names p) (fst p)" "\<not> below (fp_names (part_path p)) (fst p)"
  by (simp_all add: not_below_longer fp_names_def part_path_def)

text \<open>A file put where only a file or nothing is changes no directory and adds no link.\<close>

lemma put_node_shape:
  assumes "fs_is_dir (fst p) (dk_root d)" "\<not> isdir d (fp_names p)"
  shows "isdir (put_node p (FileN b m) d) q = isdir d q" "islink (put_node p (FileN b m) d) q \<Longrightarrow> islink d q"
  using set_file_dirs[of "fp_names p" "dk_root d" q b m] set_links[of q "fp_names p" "Some (FileN b m)" "dk_root d"] assms
  by (auto simp: isdir_def islink_def put_node_def)

lemma tick_shape [simp]: "isdir (tick d) q = isdir d q" "islink (tick d) q = islink d q"
  by (simp_all add: isdir_def islink_def)

lemma open_entry_file:
  assumes "calm E" "roomy d dp"
  shows "\<exists>d'. open_write (te_dev E) (part_path dp) d = (Inr (), d') \<and> dfiles d' = (dfiles d)(fp_names (part_path dp) \<mapsto> [])
    \<and> (\<forall>q. isdir d' q \<longleftrightarrow> isdir d q \<or> below q (fst dp)) \<and> (\<forall>q. islink d' q \<longrightarrow> islink d q)"
proof -
  let ?p = "part_path dp"
  have fst: "fst ?p = fst dp" by (simp add: part_path_def)
  have "\<forall>q. below q (fst dp) \<longrightarrow> file_at (dk_root d) q = None \<and> fs_lookup q (dk_root d) \<noteq> IoOk LinkN"
    using assms(2) by (auto simp: roomy_def dfiles_def fs_files_def islink_def)
  then obtain n where n: "fs_mkdirs (fst dp) (dk_root d) = Some n" using mkdirs_clear by blast
  define d1 where "d1 = tick (d\<lparr>dk_root := Some n\<rparr>)"
  have c: "create_parent (te_dev E) ?p d = (Inr (), d1)" using n calmD(6)[OF assms(1)] fst by (simp add: create_parent_def d1_def)
  have dirs: "isdir d1 q \<longleftrightarrow> isdir d q \<or> below q (fst dp)" "islink d1 q \<longrightarrow> islink d q" for q
    using mkdirs_dirs[OF n, of q] mkdirs_links[OF n, of q] by (simp_all add: isdir_def islink_def d1_def)
  have par: "fs_is_dir (fst ?p) (dk_root d1)" "\<not> isdir d1 (fp_names ?p)" "\<not> islink d1 (fp_names ?p)"
    using create_parent_files[OF c] dirs[of "fp_names ?p"] assms(2) by (auto simp: roomy_def)
  have files: "dfiles d1 = dfiles d" using create_parent_files[OF c] by simp
  have "fs_lookup (fp_names ?p) (dk_root d1) \<noteq> IoErr"
    using lookup_in_dir[OF par(1), of "snd ?p"] by (simp add: fp_names_def)
  then have l: "fs_lookup (fp_names ?p) (dk_root d1) = IoNotFound \<or> (\<exists>b m. fs_lookup (fp_names ?p) (dk_root d1) = IoOk (FileN b m))"
    using par(2,3) by (cases "fs_lookup (fp_names ?p) (dk_root d1)") (auto simp: isdir_def islink_def fs_is_dir_def split: fs_node.splits)
  define d2 where "d2 = tick (put_node ?p (FileN [] (d_now (te_dev E))) d1)"
  have o: "open_write (te_dev E) ?p d = (Inr (), d2)" using c l calmD(6)[OF assms(1)] by (auto simp: open_write_def d2_def)
  show ?thesis using o open_write_files[OF o] files put_node_shape[OF par(1,2)] dirs by (fastforce simp: d2_def)
qed

lemma write_shape:
  assumes "calm E" "dfiles d (fp_names p) = Some b"
  shows "\<exists>d'. write_all (te_dev E) p bs d = (Inr (), d') \<and> dfiles d' = (dfiles d)(fp_names p \<mapsto> b @ bs)
    \<and> (\<forall>q. isdir d' q = isdir d q) \<and> (\<forall>q. islink d' q \<longrightarrow> islink d q)"
proof -
  obtain m where m: "fs_lookup (fp_names p) (dk_root d) = IoOk (FileN b m)" using assms(2) dfiles_lookup by blast
  have s: "fs_is_dir (fst p) (dk_root d)" "\<not> isdir d (fp_names p)" using lookup_parent[OF m] m by (simp_all add: isdir_def fs_is_dir_def)
  define d1 where "d1 = tick (put_node p (FileN (b @ bs) (d_now (te_dev E))) d)"
  have w: "write_all (te_dev E) p bs d = (Inr (), d1)" using m calmD(6)[OF assms(1)] by (simp add: write_all_def d1_def)
  show ?thesis using w write_all_files[OF w] assms(2) put_node_shape[OF s] by (auto simp: d1_def)
qed

lemma close_calm: "calm E \<Longrightarrow> close_writer E (Some p) d = (Inr (), tick (tick d))"
  using calmD(6) by (auto simp: close_writer_def flush_file_def close_file_def)

lemma replace_shape:
  assumes "calm E" "dfiles d (fp_names temp) = Some b" "temp \<noteq> dest" "fst temp = fst dest" "\<not> isdir d (fp_names dest)"
  shows "\<exists>d'. finalize_replacing (te_dev E) temp dest d = (Inr dest, d')
    \<and> dfiles d' = (dfiles d)(fp_names temp := None, fp_names dest \<mapsto> b) \<and> (\<forall>q. isdir d' q = isdir d q) \<and> (\<forall>q. islink d' q \<longrightarrow> islink d q)"
proof -
  obtain m where m: "fs_lookup (fp_names temp) (dk_root d) = IoOk (FileN b m)" using assms(2) dfiles_lookup by blast
  have s: "fs_is_dir (fst temp) (dk_root d)" "\<not> fs_is_dir (fp_names temp) (dk_root d)" using lookup_parent[OF m] m by (simp_all add: fs_is_dir_def)
  define t1 where "t1 = fs_set (fp_names temp) None (dk_root d)"
  define t2 where "t2 = fs_set (fp_names dest) (Some (FileN b m)) t1"
  have r: "fs_rename (fp_names temp) (fp_names dest) (dk_root d) = (True, t2)"
    using m assms(3-5) s by (simp add: fs_rename_def Let_def t1_def t2_def isdir_def)
  define d' where "d' = tick (tick d\<lparr>dk_root := t2\<rparr>)"
  have f: "finalize_replacing (te_dev E) temp dest d = (Inr dest, d')"
    using r m calmD(6)[OF assms(1)] by (simp add: finalize_replacing_def promote_def Let_def d'_def)
  have d1: "fs_is_dir q t1 = fs_is_dir q (dk_root d)" for q using set_none_dirs[of "fp_names temp"] s(2) by (simp add: t1_def)
  have "fs_is_dir q t2 = fs_is_dir q (dk_root d)" for q
    using set_file_dirs[of "fp_names dest" t1 q b m] d1 assms(4,5) s(1) by (simp add: t2_def isdir_def)
  moreover have "fs_lookup q t2 = IoOk LinkN \<Longrightarrow> fs_lookup q (dk_root d) = IoOk LinkN" for q
    using set_links[of q "fp_names dest" "Some (FileN b m)" t1] set_links[of q "fp_names temp" None "dk_root d"] by (auto simp: t1_def t2_def)
  ultimately show ?thesis using f finalize_replacing_files[OF f assms(2,3)] by (auto simp: d'_def isdir_def islink_def)
qed

section \<open>The receiver\<close>

text \<open>The loop gets from one state to another, whatever it reported on the way.\<close>

definition reaches :: "tenv \<Rightarrow> prims \<Rightarrow> fjson \<Rightarrow> fctx \<Rightarrow> frecv \<Rightarrow> world \<Rightarrow> (frecv \<Rightarrow> world \<Rightarrow> bool) \<Rightarrow> bool" where
  "reaches E P J C st w Q = (\<forall>k sg. \<exists>k' sg' st' w'. folder_loop E P J C k sg st w = folder_loop E P J C k' sg' st' w' \<and> Q st' w')"

lemma reaches_here: "Q st w \<Longrightarrow> reaches E P J C st w Q"
  by (auto simp: reaches_def)

lemma reaches_trans:
  assumes "reaches E P J C st w Q" "\<And>st' w'. Q st' w' \<Longrightarrow> reaches E P J C st' w' R"
  shows "reaches E P J C st w R"
  unfolding reaches_def
proof (intro allI)
  fix k sg
  obtain k' sg' st' w' where a: "folder_loop E P J C k sg st w = folder_loop E P J C k' sg' st' w'" "Q st' w'"
    using assms(1) unfolding reaches_def by blast
  from assms(2)[OF a(2)] show "\<exists>k' sg' st' w'. folder_loop E P J C k sg st w = folder_loop E P J C k' sg' st' w' \<and> R st' w'"
    unfolding reaches_def a(1) by blast
qed

lemma reaches_mono: "reaches E P J C st w Q \<Longrightarrow> (\<And>st' w'. Q st' w' \<Longrightarrow> R st' w') \<Longrightarrow> reaches E P J C st w R"
  unfolding reaches_def by metis

definition like :: "world \<Rightarrow> inbox \<Rightarrow> world \<Rightarrow> bool" where
  "like w xs w' = (w_disk w' = w_disk w \<and> w_claims w' = w_claims w \<and> w_out w' = w_out w \<and> w_in w' = xs)"

lemma folder_loop_calm:
  assumes "calm E" "w_in w = Inr (Some f) # t"
  shows "\<exists>sg1 w1. like w t w1 \<and> folder_loop E P J C k sg st w =
    (case on_folder_frame E P J C f st w1 of F_again st w \<Rightarrow> folder_loop E P J C (Suc k) sg1 st w | F_ended x st w \<Rightarrow> (Some x, st, w))"
proof -
  obtain sg1 w1 where p: "folder_pause_report C (te_ctl E k) sg st w = (sg1, w1)" by fastforce
  have c: "\<not> c_cancelled (te_ctl E k)" "\<not> c_cancel_wait (te_ctl E k)" "\<not> c_paused (te_ctl E k)"
    using calmD(4,5)[OF assms(1), of k] by (auto simp: ctl_stops_def)
  show ?thesis using folder_pause_report_same[OF p] assms(2) c
    by (intro exI[of _ sg1] exI[of _ "w1\<lparr>w_in := t\<rparr>"]) (simp add: folder_loop.simps[of E P J C k sg st w] p Let_def like_def)
qed

lemma reaches_frame:
  assumes "calm E" "w_in w = Inr (Some f) # t"
    and "\<And>w1. like w t w1 \<Longrightarrow> \<exists>st' w'. on_folder_frame E P J C f st w1 = F_again st' w' \<and> Q st' w'"
  shows "reaches E P J C st w Q"
  unfolding reaches_def
proof (intro allI)
  fix k sg
  obtain sg1 w1 where a: "like w t w1" "folder_loop E P J C k sg st w =
    (case on_folder_frame E P J C f st w1 of F_again st w \<Rightarrow> folder_loop E P J C (Suc k) sg1 st w | F_ended x st w \<Rightarrow> (Some x, st, w))"
    using folder_loop_calm[OF assms(1,2)] by blast
  obtain st' w' where b: "on_folder_frame E P J C f st w1 = F_again st' w'" "Q st' w'" using assms(3)[OF a(1)] by blast
  then have "folder_loop E P J C k sg st w = folder_loop E P J C (Suc k) sg1 st' w'" using a(2) by simp
  with b(2) show "\<exists>k' sg' st' w'. folder_loop E P J C k sg st w = folder_loop E P J C k' sg' st' w' \<and> Q st' w'" by blast
qed

text \<open>Chunks of an entry that is written, and of one that is skipped.\<close>

definition writing :: "fctx \<Rightarrow> fpath \<Rightarrow> bytes \<Rightarrow> nat \<Rightarrow> frecv \<Rightarrow> bool" where
  "writing C dp h lim st = (fv_current st = Some (part_path dp) \<and> fv_paths st = Some (part_path dp, dp) \<and> fv_hash st = h
     \<and> unat (fv_entry st) = length h \<and> unat (fv_limit st) = lim \<and> \<not> fv_skipped st)"

definition kept :: "frecv \<Rightarrow> frecv \<Rightarrow> bool" where
  "kept st st' = (fv_completed st' = fv_completed st \<and> fv_corrupt st' = fv_corrupt st \<and> fv_written st' = fv_written st)"

definition shaped :: "disk \<Rightarrow> disk \<Rightarrow> bool" where
  "shaped d d' = ((\<forall>q. isdir d' q = isdir d q) \<and> (\<forall>q. islink d' q \<longrightarrow> islink d q))"

lemma chunks_written:
  assumes "calm E"
  shows "writing C dp h lim st \<Longrightarrow> dfiles (w_disk w) (fp_names (part_path dp)) = Some h \<Longrightarrow> w_in w = wire (map chunk_frame ps) @ xs
    \<Longrightarrow> length h + length (concat ps) \<le> lim \<Longrightarrow>
    reaches E P J C st w (\<lambda>st' w'. writing C dp (h @ concat ps) lim st' \<and> kept st st' \<and> shaped (w_disk w) (w_disk w')
      \<and> dfiles (w_disk w') = (dfiles (w_disk w))(fp_names (part_path dp) \<mapsto> h @ concat ps)
      \<and> w_in w' = xs \<and> w_claims w' = w_claims w \<and> w_out w' = w_out w)"
proof (induction ps arbitrary: h st w)
  case Nil
  then show ?case by (intro reaches_here) (simp add: kept_def shaped_def fun_upd_idem)
next
  case (Cons p ps)
  let ?st = "st\<lparr>fv_hash := fv_hash st @ p, fv_entry := fv_entry st + of_nat (length p), fv_done := fv_done st + of_nat (length p)\<rparr>"
  have lim: "unat (fv_limit st) < 2 ^ 64" by (rule unat_u64_less)
  have u: "unat (fv_entry st + of_nat (length p)) = length h + length p"
    using Cons.prems(1,4) lim by (subst unat_plus_small) (simp_all add: writing_def unat_small)
  have g: "\<not> fv_limit st < fv_entry st + of_nat (length p)" using u Cons.prems(1,4) by (simp add: word_less_nat_alt writing_def)
  obtain d where d: "write_all (te_dev E) (part_path dp) p (w_disk w) = (Inr (), d)" "dfiles d = (dfiles (w_disk w))(fp_names (part_path dp) \<mapsto> h @ p)"
    "shaped (w_disk w) d" using write_shape[OF assms Cons.prems(2), of p] by (auto simp: shaped_def)
  show ?case
  proof (rule reaches_trans)
    show "reaches E P J C st w (\<lambda>st' w'. writing C dp (h @ p) lim st' \<and> kept st st' \<and> w_disk w' = d
        \<and> w_in w' = wire (map chunk_frame ps) @ xs \<and> w_claims w' = w_claims w \<and> w_out w' = w_out w)"
    proof (rule reaches_frame[OF assms])
      show "w_in w = Inr (Some (chunk_frame p)) # wire (map chunk_frame ps) @ xs" using Cons.prems(3) by simp
      fix w1 assume l: "like w (wire (map chunk_frame ps) @ xs) w1"
      then show "\<exists>st' w'. on_folder_frame E P J C (chunk_frame p) st w1 = F_again st' w' \<and> writing C dp (h @ p) lim st' \<and> kept st st' \<and> w_disk w' = d
          \<and> w_in w' = wire (map chunk_frame ps) @ xs \<and> w_claims w' = w_claims w \<and> w_out w' = w_out w"
        using Cons.prems(1) g d(1) u by (simp add: on_folder_frame_def on_folder_chunk_def Let_def writing_def kept_def like_def)
    qed
    fix st' :: frecv and w' :: world
    assume a: "writing C dp (h @ p) lim st' \<and> kept st st' \<and> w_disk w' = d \<and> w_in w' = wire (map chunk_frame ps) @ xs
      \<and> w_claims w' = w_claims w \<and> w_out w' = w_out w"
    then have "reaches E P J C st' w' (\<lambda>st'' w''. writing C dp ((h @ p) @ concat ps) lim st'' \<and> kept st' st'' \<and> shaped (w_disk w') (w_disk w'')
      \<and> dfiles (w_disk w'') = (dfiles (w_disk w'))(fp_names (part_path dp) \<mapsto> (h @ p) @ concat ps)
      \<and> w_in w'' = xs \<and> w_claims w'' = w_claims w' \<and> w_out w'' = w_out w')"
      using Cons.prems(4) d(2) by (intro Cons.IH) simp_all
    then show "reaches E P J C st' w' (\<lambda>st' w'. writing C dp (h @ concat (p # ps)) lim st' \<and> kept st st' \<and> shaped (w_disk w) (w_disk w')
      \<and> dfiles (w_disk w') = (dfiles (w_disk w))(fp_names (part_path dp) \<mapsto> h @ concat (p # ps))
      \<and> w_in w' = xs \<and> w_claims w' = w_claims w \<and> w_out w' = w_out w)"
      by (rule reaches_mono) (use a d(2,3) in \<open>auto simp: kept_def shaped_def\<close>)
  qed
qed

lemma chunks_skipped:
  assumes "calm E"
  shows "fv_current st = None \<Longrightarrow> w_in w = wire (map chunk_frame ps) @ xs \<Longrightarrow>
    reaches E P J C st w (\<lambda>st' w'. st' = st \<and> like w xs w')"
proof (induction ps arbitrary: w)
  case Nil
  then show ?case by (intro reaches_here) (simp add: like_def)
next
  case (Cons p ps)
  have "reaches E P J C st w (\<lambda>st' w'. st' = st \<and> like w (wire (map chunk_frame ps) @ xs) w')"
    by (rule reaches_frame[OF assms, of w "chunk_frame p" "wire (map chunk_frame ps) @ xs"])
      (use Cons.prems in \<open>simp_all add: on_folder_frame_def on_folder_chunk_def\<close>)
  then show ?case
  proof (rule reaches_trans)
    fix st' :: frecv and w' :: world
    assume a: "st' = st \<and> like w (wire (map chunk_frame ps) @ xs) w'"
    then have "reaches E P J C st w' (\<lambda>st' w''. st' = st \<and> like w' xs w'')" using Cons.prems(1) by (intro Cons.IH) (simp_all add: like_def)
    with a show "reaches E P J C st' w' (\<lambda>st' w'. st' = st \<and> like w xs w')" by (auto simp: like_def elim!: reaches_mono)
  qed
qed

text \<open>The frames of one entry, of all entries, and of a folder.\<close>

definition entry_frames :: "prims \<Rightarrow> fjson \<Rightarrow> nat \<Rightarrow> nat \<Rightarrow> string \<Rightarrow> bytes \<Rightarrow> link_frame list" where
  "entry_frames P J chunk i rel content =
     folder_frame J (FileHeader (of_nat i) rel (of_nat (length content)) 0) # map chunk_frame (pieces chunk content)
       @ [folder_frame J (FileEnd (of_nat i) (Some (to_hex (sha256 P content))))]"

primrec entries_frames :: "prims \<Rightarrow> fjson \<Rightarrow> nat \<Rightarrow> nat \<Rightarrow> (string \<times> bytes) list \<Rightarrow> link_frame list" where
  "entries_frames P J chunk i [] = []"
| "entries_frames P J chunk i (e # es) = entry_frames P J chunk i (fst e) (snd e) @ entries_frames P J chunk (Suc i) es"

definition idle :: "frecv \<Rightarrow> bool" where
  "idle st = (fv_current st = None \<and> fv_paths st = None \<and> fv_hash st = [])"

abbreviation target :: "fctx \<Rightarrow> string \<Rightarrow> fpath option" where
  "target C rel \<equiv> dest_path (fc_windows C) (fc_dir C) (fc_root C) rel"

lemma finish_nothing [simp]: "finish_entry E None None w = (Inr False, w)"
  by (simp add: finish_entry_def close_writer_def)

lemma header_opens:
  assumes "calm E" "fjson_ok J" "idle st" "target C rel = Some dp" "path_key (fc_lower C) dp \<notin> set (fv_written st)"
    and "part_path dp \<notin> set (w_claims w)" "roomy (w_disk w) dp" "w_in w = Inr (Some (folder_frame J (FileHeader i rel sz 0))) # xs"
  shows "reaches E P J C st w (\<lambda>st' w'. writing C dp [] (unat sz) st' \<and> fv_completed st' = fv_completed st \<and> fv_corrupt st' = fv_corrupt st
    \<and> fv_written st' = path_key (fc_lower C) dp # fv_written st
    \<and> dfiles (w_disk w') = (dfiles (w_disk w))(fp_names (part_path dp) \<mapsto> []) \<and> (\<forall>q. isdir (w_disk w') q \<longleftrightarrow> isdir (w_disk w) q \<or> below q (fst dp))
    \<and> (\<forall>q. islink (w_disk w') q \<longrightarrow> islink (w_disk w) q) \<and> w_in w' = xs \<and> w_claims w' = part_path dp # w_claims w \<and> w_out w' = w_out w)"
proof (rule reaches_frame[OF assms(1,8)])
  fix w1
  assume l: "like w xs w1"
  obtain d where d: "open_write (te_dev E) (part_path dp) (w_disk w) = (Inr (), d)" "dfiles d = (dfiles (w_disk w))(fp_names (part_path dp) \<mapsto> [])"
    "\<forall>q. isdir d q \<longleftrightarrow> isdir (w_disk w) q \<or> below q (fst dp)" "\<forall>q. islink d q \<longrightarrow> islink (w_disk w) q"
    using open_entry_file[OF assms(1,7)] by blast
  have z: "(0 :: u64) \<le> sz" by simp
  show "\<exists>st' w'. on_folder_frame E P J C (folder_frame J (FileHeader i rel sz 0)) st w1 = F_again st' w' \<and> (writing C dp [] (unat sz) st'
    \<and> fv_completed st' = fv_completed st \<and> fv_corrupt st' = fv_corrupt st \<and> fv_written st' = path_key (fc_lower C) dp # fv_written st
    \<and> dfiles (w_disk w') = (dfiles (w_disk w))(fp_names (part_path dp) \<mapsto> []) \<and> (\<forall>q. isdir (w_disk w') q \<longleftrightarrow> isdir (w_disk w) q \<or> below q (fst dp))
    \<and> (\<forall>q. islink (w_disk w') q \<longrightarrow> islink (w_disk w) q) \<and> w_in w' = xs \<and> w_claims w' = part_path dp # w_claims w \<and> w_out w' = w_out w)"
    using assms(2-6) l d
    by (simp add: on_folder_frame_def on_header_def Let_def idle_def own_name_def open_entry_def claim_destination_def take_claim_def like_def writing_def z)
qed

lemma end_publishes:
  assumes "calm E" "fjson_ok J" "writing C dp content lim st" "dfiles (w_disk w) (fp_names (part_path dp)) = Some content" "\<not> isdir (w_disk w) (fp_names dp)"
    and "w_claims w = part_path dp # cs" "part_path dp \<notin> set cs"
    and "w_in w = Inr (Some (folder_frame J (FileEnd i (Some (to_hex (sha256 P content)))))) # xs"
  shows "reaches E P J C st w (\<lambda>st' w'. idle st' \<and> fv_completed st' = fv_completed st + 1 \<and> fv_corrupt st' = fv_corrupt st \<and> fv_written st' = fv_written st
    \<and> dfiles (w_disk w') = (dfiles (w_disk w))(fp_names (part_path dp) := None, fp_names dp \<mapsto> content) \<and> shaped (w_disk w) (w_disk w')
    \<and> w_in w' = xs \<and> w_claims w' = cs \<and> w_out w' = w_out w)"
proof (rule reaches_frame[OF assms(1,8)])
  fix w1
  assume l: "like w xs w1"
  have "dfiles (tick (tick (w_disk w))) (fp_names (part_path dp)) = Some content" "fst (part_path dp) = fst dp" "\<not> isdir (tick (tick (w_disk w))) (fp_names dp)"
    using assms(4,5) by (simp_all add: part_path_def)
  then obtain d where d: "finalize_replacing (te_dev E) (part_path dp) dp (tick (tick (w_disk w))) = (Inr dp, d)"
    "dfiles d = (dfiles (w_disk w))(fp_names (part_path dp) := None, fp_names dp \<mapsto> content)" "shaped (w_disk w) d"
    using replace_shape[OF assms(1), of "tick (tick (w_disk w))" "part_path dp" content dp] part_not_dest[of dp] by (auto simp: shaped_def)
  show "\<exists>st' w'. on_folder_frame E P J C (folder_frame J (FileEnd i (Some (to_hex (sha256 P content))))) st w1 = F_again st' w' \<and>
      (idle st' \<and> fv_completed st' = fv_completed st + 1 \<and> fv_corrupt st' = fv_corrupt st \<and> fv_written st' = fv_written st
    \<and> dfiles (w_disk w') = (dfiles (w_disk w))(fp_names (part_path dp) := None, fp_names dp \<mapsto> content) \<and> shaped (w_disk w) (w_disk w')
    \<and> w_in w' = xs \<and> w_claims w' = cs \<and> w_out w' = w_out w)"
    using assms(2,3,6,7) l d close_calm[OF assms(1)]
    by (simp add: on_folder_frame_def on_file_end_def Let_def idle_def finish_entry_def like_def writing_def release_def drop_claim_def)
qed

lemma entry_delivered:
  assumes "calm E" "fjson_ok J" "idle st" "target C rel = Some dp" "path_key (fc_lower C) dp \<notin> set (fv_written st)"
    and "part_path dp \<notin> set (w_claims w)" "roomy (w_disk w) dp" "w_in w = wire (entry_frames P J chunk i rel content) @ xs"
    and "0 < chunk" "length content < 2 ^ 64"
  shows "reaches E P J C st w (\<lambda>st' w'. idle st' \<and> fv_completed st' = fv_completed st + 1 \<and> fv_corrupt st' = fv_corrupt st
    \<and> fv_written st' = path_key (fc_lower C) dp # fv_written st
    \<and> dfiles (w_disk w') = (dfiles (w_disk w))(fp_names (part_path dp) := None, fp_names dp \<mapsto> content)
    \<and> (\<forall>q. isdir (w_disk w') q \<longleftrightarrow> isdir (w_disk w) q \<or> below q (fst dp)) \<and> (\<forall>q. islink (w_disk w') q \<longrightarrow> islink (w_disk w) q)
    \<and> w_in w' = xs \<and> w_claims w' = w_claims w \<and> w_out w' = w_out w)" (is "reaches _ _ _ _ _ _ ?Q")
proof -
  let ?e = "[Inr (Some (folder_frame J (FileEnd (of_nat i) (Some (to_hex (sha256 P content))))))] @ xs"
  let ?ps = "pieces chunk content"
  have ps: "concat ?ps = content" using assms(9) by (rule concat_pieces)
  have "w_in w = Inr (Some (folder_frame J (FileHeader (of_nat i) rel (of_nat (length content)) 0))) # wire (map chunk_frame ?ps) @ ?e"
    using assms(8) by (simp add: entry_frames_def)
  from header_opens[OF assms(1-7) this, of P] show ?thesis
  proof (rule reaches_trans, elim conjE)
    fix st1 :: frecv and w1 :: world
    assume h: "writing C dp [] (unat (of_nat (length content) :: u64)) st1" "fv_completed st1 = fv_completed st" "fv_corrupt st1 = fv_corrupt st"
      "fv_written st1 = path_key (fc_lower C) dp # fv_written st" "dfiles (w_disk w1) = (dfiles (w_disk w))(fp_names (part_path dp) \<mapsto> [])"
      "\<forall>q. isdir (w_disk w1) q \<longleftrightarrow> isdir (w_disk w) q \<or> below q (fst dp)" "\<forall>q. islink (w_disk w1) q \<longrightarrow> islink (w_disk w) q"
      "w_in w1 = wire (map chunk_frame ?ps) @ ?e" "w_claims w1 = part_path dp # w_claims w" "w_out w1 = w_out w"
    have "writing C dp [] (length content) st1" "dfiles (w_disk w1) (fp_names (part_path dp)) = Some []" "length [] + length (concat ?ps) \<le> length content"
      using h(1,5) assms(10) ps by (simp_all add: unat_small)
    from chunks_written[OF assms(1) this(1,2) h(8) this(3), of P J, unfolded ps append_Nil] show "reaches E P J C st1 w1 ?Q"
    proof (rule reaches_trans, elim conjE)
      fix st2 :: frecv and w2 :: world
      assume c: "writing C dp content (length content) st2" "kept st1 st2" "shaped (w_disk w1) (w_disk w2)"
        "dfiles (w_disk w2) = (dfiles (w_disk w1))(fp_names (part_path dp) \<mapsto> content)" "w_in w2 = ?e" "w_claims w2 = w_claims w1" "w_out w2 = w_out w1"
      have "\<not> isdir (w_disk w2) (fp_names dp)" using c(3) h(6) assms(7) by (simp add: shaped_def roomy_def)
      then have "reaches E P J C st2 w2 (\<lambda>st' w'. idle st' \<and> fv_completed st' = fv_completed st2 + 1 \<and> fv_corrupt st' = fv_corrupt st2 \<and> fv_written st' = fv_written st2
        \<and> dfiles (w_disk w') = (dfiles (w_disk w2))(fp_names (part_path dp) := None, fp_names dp \<mapsto> content) \<and> shaped (w_disk w2) (w_disk w')
        \<and> w_in w' = xs \<and> w_claims w' = w_claims w \<and> w_out w' = w_out w2)"
        using c h(9) assms(6) by (intro end_publishes[OF assms(1,2) c(1)]) simp_all
      then show "reaches E P J C st2 w2 ?Q"
        by (rule reaches_mono) (use c h in \<open>auto simp: shaped_def kept_def\<close>)
    qed
  qed
qed

lemma entry_skipped:
  assumes "calm E" "fjson_ok J" "idle st" "target C rel = None" "w_in w = wire (entry_frames P J chunk i rel content) @ xs"
  shows "reaches E P J C st w (\<lambda>st' w'. idle st' \<and> fv_completed st' = fv_completed st
    \<and> fv_corrupt st' = fv_corrupt st + (if to_hex (sha256 P content) \<noteq> to_hex (sha256 P []) then 1 else 0)
    \<and> fv_written st' = fv_written st \<and> like w xs w')" (is "reaches _ _ _ _ _ _ ?Q")
proof -
  let ?e = "[Inr (Some (folder_frame J (FileEnd (of_nat i) (Some (to_hex (sha256 P content))))))] @ xs"
  let ?c = "wire (map chunk_frame (pieces chunk content)) @ ?e"
  have f: "w_in w = Inr (Some (folder_frame J (FileHeader (of_nat i) rel (of_nat (length content)) 0))) # ?c"
    using assms(5) by (simp add: entry_frames_def)
  have "reaches E P J C st w (\<lambda>st' w'. idle st' \<and> kept st st' \<and> fv_skipped st' \<and> like w ?c w')"
    by (rule reaches_frame[OF assms(1) f])
      (use assms(2-4) in \<open>simp add: on_folder_frame_def on_header_def Let_def idle_def skip_entry_def kept_def\<close>)
  then show ?thesis
  proof (rule reaches_trans, elim conjE)
    fix st1 :: frecv and w1 :: world
    assume h: "idle st1" "kept st st1" "fv_skipped st1" "like w ?c w1"
    have "reaches E P J C st1 w1 (\<lambda>st' w'. st' = st1 \<and> like w1 ?e w')"
      using h by (intro chunks_skipped[OF assms(1)]) (simp_all add: idle_def like_def)
    then show "reaches E P J C st1 w1 ?Q"
    proof (rule reaches_trans, elim conjE)
      fix st2 :: frecv and w2 :: world
      assume c: "st2 = st1" "like w1 ?e w2"
      then have e: "w_in w2 = Inr (Some (folder_frame J (FileEnd (of_nat i) (Some (to_hex (sha256 P content)))))) # xs" by (simp add: like_def)
      show "reaches E P J C st2 w2 ?Q"
        by (rule reaches_frame[OF assms(1) e]) (use c h assms(2) in
          \<open>auto simp: on_folder_frame_def on_file_end_def Let_def idle_def kept_def like_def close_writer_def release_def\<close>)
    qed
  qed
qed

section \<open>All entries\<close>

definition delivered :: "fctx \<Rightarrow> (string \<times> bytes) list \<Rightarrow> (fpath \<times> bytes) list" where
  "delivered C es = List.map_filter (\<lambda>(rel, c). map_option (\<lambda>dp. (dp, c)) (target C rel)) es"

definition withheld :: "prims \<Rightarrow> fctx \<Rightarrow> (string \<times> bytes) list \<Rightarrow> (string \<times> bytes) list" where
  "withheld P C es = filter (\<lambda>(rel, c). target C rel = None \<and> to_hex (sha256 P c) \<noteq> to_hex (sha256 P [])) es"

lemma delivered_simps [simp]:
  "delivered C [] = []" "delivered C ((rel, c) # es) = (case target C rel of None \<Rightarrow> delivered C es | Some dp \<Rightarrow> (dp, c) # delivered C es)"
  by (simp_all add: delivered_def List.map_filter_def split: option.splits)

lemma withheld_simps [simp]:
  "withheld P C [] = []" "withheld P C ((rel, c) # es) =
    (if target C rel = None \<and> to_hex (sha256 P c) \<noteq> to_hex (sha256 P []) then (rel, c) # withheld P C es else withheld P C es)"
  by (simp_all add: withheld_def)

text \<open>Two destinations that do not get in each other's way, staging files included.\<close>

definition no_clash :: "fpath \<Rightarrow> fpath \<Rightarrow> bool" where
  "no_clash p q = (p \<noteq> q \<and> p \<noteq> part_path q \<and> q \<noteq> part_path p
     \<and> (\<forall>x \<in> {p, part_path p}. \<not> below (fp_names x) (fst q)) \<and> (\<forall>x \<in> {q, part_path q}. \<not> below (fp_names x) (fst p)))"

definition receivable :: "fctx \<Rightarrow> world \<Rightarrow> (string \<times> bytes) list \<Rightarrow> bool" where
  "receivable C w es = (sorted_wrt no_clash (map fst (delivered C es)) \<and> distinct (map (\<lambda>x. path_key (fc_lower C) (fst x)) (delivered C es))
     \<and> (\<forall>x \<in> set (delivered C es). roomy (w_disk w) (fst x) \<and> part_path (fst x) \<notin> set (w_claims w)) \<and> (\<forall>e \<in> set es. length (snd e) < 2 ^ 64))"

definition place :: "(string list \<Rightarrow> bytes option) \<Rightarrow> fpath \<times> bytes \<Rightarrow> string list \<Rightarrow> bytes option" where
  "place F x = F(fp_names (part_path (fst x)) := None, fp_names (fst x) \<mapsto> snd x)"

lemma roomy_kept:
  assumes "roomy d q" "no_clash p q" "dfiles d' = (dfiles d)(fp_names (part_path p) := None, fp_names p \<mapsto> c)"
    and "\<forall>x. isdir d' x \<longleftrightarrow> isdir d x \<or> below x (fst p)" "\<forall>x. islink d' x \<longrightarrow> islink d x"
  shows "roomy d' q"
  unfolding roomy_def
proof (intro conjI allI impI ballI)
  fix x
  assume b: "below x (fst q)"
  then have "x \<noteq> fp_names p" using assms(2) by (auto simp: no_clash_def)
  then show "dfiles d' x = None" using assms(1,3) b by (simp add: roomy_def)
  show "\<not> islink d' x" using assms(1,5) b by (auto simp: roomy_def)
next
  fix x
  assume "x \<in> {q, part_path q}"
  then show "\<not> isdir d' (fp_names x)" "\<not> islink d' (fp_names x)"
    using assms(1,2,4,5) by (auto simp: roomy_def no_clash_def)
qed

lemma entries_delivered:
  assumes "calm E" "fjson_ok J" "0 < chunk"
  shows "idle st \<Longrightarrow> receivable C w es \<Longrightarrow> set (fv_written st) \<inter> (\<lambda>x. path_key (fc_lower C) (fst x)) ` set (delivered C es) = {}
    \<Longrightarrow> w_in w = wire (entries_frames P J chunk i es) @ xs \<Longrightarrow>
    reaches E P J C st w (\<lambda>st' w'. idle st' \<and> fv_completed st' = fv_completed st + of_nat (length (delivered C es))
      \<and> fv_corrupt st' = fv_corrupt st + of_nat (length (withheld P C es))
      \<and> dfiles (w_disk w') = foldl place (dfiles (w_disk w)) (delivered C es) \<and> w_in w' = xs \<and> w_claims w' = w_claims w \<and> w_out w' = w_out w)"
proof (induction es arbitrary: i st w)
  case Nil
  then show ?case by (intro reaches_here) simp
next
  case (Cons e es)
  obtain rel content where e: "e = (rel, content)" by fastforce
  have wi: "w_in w = wire (entry_frames P J chunk i rel content) @ wire (entries_frames P J chunk (Suc i) es) @ xs" using Cons.prems(4) e by simp
  show ?case
  proof (cases "target C rel")
    case None
    note skipped = entry_skipped[OF assms(1,2) Cons.prems(1) None wi]
    then show ?thesis
    proof (rule reaches_trans, elim conjE)
      fix st1 :: frecv and w1 :: world
      assume a: "idle st1" "fv_completed st1 = fv_completed st"
        "fv_corrupt st1 = fv_corrupt st + (if to_hex (sha256 P content) \<noteq> to_hex (sha256 P []) then 1 else 0)"
        "fv_written st1 = fv_written st" "like w (wire (entries_frames P J chunk (Suc i) es) @ xs) w1"
      have "receivable C w1 es" "set (fv_written st1) \<inter> (\<lambda>x. path_key (fc_lower C) (fst x)) ` set (delivered C es) = {}"
        using Cons.prems(2,3) a e None by (auto simp: receivable_def like_def)
      from Cons.IH[OF a(1) this, of "Suc i"] a(5)
      have ih: "reaches E P J C st1 w1 (\<lambda>st' w'. idle st' \<and> fv_completed st' = fv_completed st1 + of_nat (length (delivered C es))
        \<and> fv_corrupt st' = fv_corrupt st1 + of_nat (length (withheld P C es)) \<and> dfiles (w_disk w') = foldl place (dfiles (w_disk w1)) (delivered C es)
        \<and> w_in w' = xs \<and> w_claims w' = w_claims w1 \<and> w_out w' = w_out w1)" by (simp add: like_def)
      show "reaches E P J C st1 w1 (\<lambda>st' w'. idle st' \<and> fv_completed st' = fv_completed st + of_nat (length (delivered C (e # es)))
        \<and> fv_corrupt st' = fv_corrupt st + of_nat (length (withheld P C (e # es)))
        \<and> dfiles (w_disk w') = foldl place (dfiles (w_disk w)) (delivered C (e # es)) \<and> w_in w' = xs \<and> w_claims w' = w_claims w \<and> w_out w' = w_out w)"
        by (rule reaches_mono[OF ih]) (use a e None in \<open>auto simp: like_def\<close>)
    qed
  next
    case (Some dp)
    have r: "path_key (fc_lower C) dp \<notin> set (fv_written st)" "part_path dp \<notin> set (w_claims w)" "roomy (w_disk w) dp" "length content < 2 ^ 64"
      "\<forall>x \<in> set (delivered C es). no_clash dp (fst x) \<and> path_key (fc_lower C) (fst x) \<noteq> path_key (fc_lower C) dp"
      using Cons.prems(2,3) e Some by (auto simp: receivable_def rev_image_eqI)
    note landed = entry_delivered[OF assms(1,2) Cons.prems(1) Some r(1-3) wi assms(3) r(4)]
    then show ?thesis
    proof (rule reaches_trans, elim conjE)
      fix st1 :: frecv and w1 :: world
      assume a: "idle st1" "fv_completed st1 = fv_completed st + 1" "fv_corrupt st1 = fv_corrupt st" "fv_written st1 = path_key (fc_lower C) dp # fv_written st"
        "dfiles (w_disk w1) = (dfiles (w_disk w))(fp_names (part_path dp) := None, fp_names dp \<mapsto> content)"
        "\<forall>q. isdir (w_disk w1) q \<longleftrightarrow> isdir (w_disk w) q \<or> below q (fst dp)" "\<forall>q. islink (w_disk w1) q \<longrightarrow> islink (w_disk w) q"
        "w_in w1 = wire (entries_frames P J chunk (Suc i) es) @ xs" "w_claims w1 = w_claims w" "w_out w1 = w_out w"
      have "roomy (w_disk w1) (fst x)" if "x \<in> set (delivered C es)" for x
        using that Cons.prems(2) e Some r(5) by (intro roomy_kept[OF _ _ a(5-7)]) (auto simp: receivable_def)
      then have "receivable C w1 es" "set (fv_written st1) \<inter> (\<lambda>x. path_key (fc_lower C) (fst x)) ` set (delivered C es) = {}"
        using Cons.prems(2,3) a r(5) e Some by (auto simp: receivable_def)
      note ih = Cons.IH[OF a(1) this a(8)]
      have pl: "dfiles (w_disk w1) = place (dfiles (w_disk w)) (dp, content)" using a(5) by (simp add: place_def)
      show "reaches E P J C st1 w1 (\<lambda>st' w'. idle st' \<and> fv_completed st' = fv_completed st + of_nat (length (delivered C (e # es)))
        \<and> fv_corrupt st' = fv_corrupt st + of_nat (length (withheld P C (e # es)))
        \<and> dfiles (w_disk w') = foldl place (dfiles (w_disk w)) (delivered C (e # es)) \<and> w_in w' = xs \<and> w_claims w' = w_claims w \<and> w_out w' = w_out w)"
        by (rule reaches_mono[OF ih]) (use a(2,3,9,10) pl e Some in \<open>auto\<close>)
    qed
  qed
qed

lemma place_rest: "p \<notin> (\<Union>x \<in> set ds. {fp_names (fst x), fp_names (part_path (fst x))}) \<Longrightarrow> foldl place F ds p = F p"
  by (induction ds arbitrary: F) (auto simp: place_def)

lemma place_result: "sorted_wrt no_clash (map fst ds) \<Longrightarrow> x \<in> set ds \<Longrightarrow> foldl place F ds (fp_names (fst x)) = Some (snd x)"
proof (induction ds arbitrary: F)
  case (Cons y ds)
  show ?case
  proof (cases "x \<in> set ds")
    case True
    then show ?thesis using Cons.IH[of "place F y"] Cons.prems(1) by simp
  next
    case False
    then have "x = y" using Cons.prems by simp
    have at: "place F y (fp_names (fst y)) = Some (snd y)" by (simp add: place_def)
    note \<open>x = y\<close>
    moreover have "fp_names (fst y) \<notin> (\<Union>x \<in> set ds. {fp_names (fst x), fp_names (part_path (fst x))})"
      using Cons.prems(1) by (fastforce simp: no_clash_def)
    ultimately show ?thesis using place_rest[of "fp_names (fst y)" ds "place F y"] at by simp
  qed
qed simp

section \<open>The exchange\<close>

definition folder_ctx :: "(string \<Rightarrow> path) \<Rightarrow> bool \<Rightarrow> (string \<Rightarrow> string) \<Rightarrow> string list \<Rightarrow> string \<Rightarrow> string \<Rightarrow> file_meta list \<Rightarrow> fctx" where
  "folder_ctx host windows lower dir tid name files =
     \<lparr>fc_id = tid, fc_root = sanitize_name host windows name, fc_total = sum_sizes (map fm_size files), fc_files = of_nat (length files),
      fc_dir = dir, fc_windows = windows, fc_lower = lower\<rparr>"

lemma recv_folder_picks:
  assumes "fjson_ok J" "w_in w = Inr (Some (folder_frame J m)) # r"
  shows "m = Manifest tid name files \<Longrightarrow> recv_manifest J host windows w = (Some (Inr (tid, sanitize_name host windows name, files)), w\<lparr>w_in := r\<rparr>)"
    "m = ResumeState held \<Longrightarrow> recv_resume J w = (Some (Inr held), w\<lparr>w_in := r\<rparr>)"
    "m = Folder_Received a b \<Longrightarrow> wait_for_folder_ack J n w =
      ((if 0 < b then Some (Inl (EIntegrity (show_nat (unat b) @ '' of '' @ show_nat (unat n) @ '' folder entries failed their checksum and were not written'')))
        else Some (Inr ())), w\<lparr>w_in := r\<rparr>)"
  using assms by (simp_all add: recv_manifest_def recv_resume_def wait_for_folder_ack_def recv_folder_message_def recv_picking_def wbind_def fail_with_def done_with_def)

lemma receive_folder_calm:
  assumes "calm E" "fjson_ok J" "0 < chunk" "C = folder_ctx host windows lower dir tid name files" "receivable C w es"
    and "w_in w = wire (folder_frame J (Manifest tid name files) # entries_frames P J chunk 0 es @ [folder_frame J Folder_Complete])"
  shows "\<exists>rv w'. receive_folder E P J host windows lower dir True w = (Some (Inr rv), w') \<and> fd_outcome rv = T_Completed
    \<and> fd_files rv = of_nat (length (delivered C es)) \<and> dfiles (w_disk w') = foldl place (dfiles (w_disk w)) (delivered C es)
    \<and> w_out w' = w_out w @ [folder_frame J (ResumeState (replicate (length files) 0)),
         folder_frame J (Folder_Received (ucast (of_nat (length (delivered C es)) :: u32)) (of_nat (length (withheld P C es))))]
    \<and> w_claims w' = w_claims w"
proof -
  let ?xs = "wire [folder_frame J Folder_Complete]"
  define w0 where "w0 = w\<lparr>w_in := wire (entries_frames P J chunk 0 es) @ ?xs\<rparr>"
  have m: "recv_manifest J host windows w = (Some (Inr (tid, sanitize_name host windows name, files)), w0)"
    using assms(6) by (subst recv_folder_picks(1)[OF assms(2), where r = "wire (entries_frames P J chunk 0 es) @ ?xs"]) (simp_all add: w0_def)
  let ?rs = "folder_frame J (ResumeState (replicate (length files) 0))"
  define w1 where "w1 = w0\<lparr>w_tries := Suc (w_tries w0), w_out := w_out w0 @ [?rs]\<rparr>"
  have a: "send_with_retry E ?rs 0 w0 = (Some (Inr ()), w1)" unfolding w1_def by (rule send_calm[OF assms(1)])
  have "receivable C w1 es" "w_in w1 = wire (entries_frames P J chunk 0 es) @ ?xs" using assms(5) by (simp_all add: receivable_def w1_def w0_def)
  then have "reaches E P J C frecv_start w1 (\<lambda>st' w'. idle st' \<and> fv_completed st' = fv_completed frecv_start + of_nat (length (delivered C es))
      \<and> fv_corrupt st' = fv_corrupt frecv_start + of_nat (length (withheld P C es))
      \<and> dfiles (w_disk w') = foldl place (dfiles (w_disk w1)) (delivered C es) \<and> w_in w' = ?xs \<and> w_claims w' = w_claims w1 \<and> w_out w' = w_out w1)"
    by (intro entries_delivered[OF assms(1-3)]) (simp_all add: idle_def frecv_start_def)
  from this[unfolded reaches_def, rule_format, of 0 False] obtain k sg st w2 where
    "folder_loop E P J C 0 False frecv_start w1 = folder_loop E P J C k sg st w2 \<and> idle st
      \<and> fv_completed st = fv_completed frecv_start + of_nat (length (delivered C es))
      \<and> fv_corrupt st = fv_corrupt frecv_start + of_nat (length (withheld P C es))
      \<and> dfiles (w_disk w2) = foldl place (dfiles (w_disk w1)) (delivered C es) \<and> w_in w2 = ?xs \<and> w_claims w2 = w_claims w1 \<and> w_out w2 = w_out w1"
    by blast
  then have r: "folder_loop E P J C 0 False frecv_start w1 = folder_loop E P J C k sg st w2" "idle st"
    "fv_completed st = of_nat (length (delivered C es))" "fv_corrupt st = of_nat (length (withheld P C es))"
    "dfiles (w_disk w2) = foldl place (dfiles (w_disk w)) (delivered C es)" "w_in w2 = ?xs" "w_claims w2 = w_claims w" "w_out w2 = w_out w @ [?rs]"
    by (simp_all add: frecv_start_def w1_def w0_def)
  obtain w3 where l: "like w2 [] w3" "folder_loop E P J C k sg st w2 = (Some (Inr T_Completed), st\<lparr>fv_current := None, fv_paths := None\<rparr>, w3)"
    using folder_loop_calm[OF assms(1), of w2 "folder_frame J Folder_Complete" "[]" P J C k sg st] r(2,6) assms(2)
    by (auto simp: on_folder_frame_def idle_def)
  let ?st = "st\<lparr>fv_current := None, fv_paths := None\<rparr>"
  let ?rc = "folder_frame J (Folder_Received (ucast (fv_completed st)) (fv_corrupt st))"
  have s: "send_frame E ?rc w3 = (Some (Inr ()), w3\<lparr>w_tries := Suc (w_tries w3), w_out := w_out w3 @ [?rc]\<rparr>)"
    using send_calm[OF assms(1), of ?rc 0 w3] by simp
  obtain rv w4 where f: "finish_folder E J C True T_Completed ?st w3 = (rv, w4)" by fastforce
  have rv: "fd_outcome rv = T_Completed" "fd_files rv = fv_completed st" "w_disk w4 = w_disk w3" "w_claims w4 = w_claims w3" "w_out w4 = w_out w3 @ [?rc]"
    using f s by (auto simp: finish_folder_def Let_def)
  have "receive_folder E P J host windows lower dir True w = (Some (Inr rv), w4)"
    using m a r(1) l(2) f by (simp add: receive_folder_def wbind_def Let_def assms(4)[unfolded folder_ctx_def, symmetric] release_def)
  then show ?thesis using rv r l(1) by (auto simp: like_def)
qed

text \<open>The sender.\<close>

lemma send_entry_calm:
  assumes "calm E" "0 < chunk"
  shows "\<exists>w' k'. send_entry_loop E J rep retries chunk k False data dn h w = (Some (Inr (Entry_sent k' False (dn + of_nat (length data)) (h @ data))), w')
    \<and> ((\<forall>n w. w_out (rep n w) = w_out w \<and> w_in (rep n w) = w_in w \<and> w_disk (rep n w) = w_disk w) \<longrightarrow>
        w_out w' = w_out w @ map chunk_frame (pieces chunk data) \<and> w_in w' = w_in w \<and> w_disk w' = w_disk w)"
proof (induction "length data" arbitrary: k data dn h w rule: less_induct)
  case less
  have e: "signal_pause_edge E (te_ctl E k) p q False w = (False, w)" for p q
    using calmD(5)[OF assms(1)] by (simp add: signal_pause_edge_def)
  have c: "cancel_or_pause E (te_ctl E k) f retries w = (Some (Inr False), w)" for f
    using calmD(4)[OF assms(1), of k] by (simp add: cancel_or_pause_def ctl_stops_def)
  obtain i where i: "read_fill (te_read E) chunk (w_reads w) data [] = Inr (take chunk data, drop chunk data, i)"
    using read_fill_all[OF calmD(3)[OF assms(1)]] by blast
  show ?case
  proof (cases "data = []")
    case True
    then show ?thesis using i by (simp add: send_entry_loop.simps[of E J rep retries chunk k] e c Let_def)
  next
    case False
    define w1 where "w1 = w\<lparr>w_reads := i, w_tries := Suc (w_tries w), w_out := w_out w @ [chunk_frame (take chunk data)]\<rparr>"
    define dn1 where "dn1 = dn + of_nat (length (take chunk data))"
    have step: "send_entry_loop E J rep retries chunk k False data dn h w =
        send_entry_loop E J rep retries chunk (Suc k) False (drop chunk data) dn1 (h @ take chunk data) (rep dn1 w1)"
      using i False assms(2) by (simp add: send_entry_loop.simps[of E J rep retries chunk k] e c Let_def send_calm[OF assms(1)] w1_def dn1_def)
    have len: "dn1 + of_nat (length (drop chunk data)) = dn + of_nat (length data)"
      by (simp add: dn1_def add.assoc flip: of_nat_add) (metis append_take_drop_id length_append length_drop length_take)
    have "length (drop chunk data) < length data" using False assms(2) by (cases data) auto
    note ih = less[OF this, where k = "Suc k" and dn = dn1 and h = "h @ take chunk data" and w = "rep dn1 w1"]
    have "pieces chunk data = take chunk data # pieces chunk (drop chunk data)"
      using False assms(2) by (subst pieces.simps) simp
    then show ?thesis using ih step len by (auto simp: w1_def)
  qed
qed

lemma send_entries_calm:
  assumes "calm E" "chunk = unat (max (fr_chunk_size req) 1)" "held = replicate n 0"
  shows "\<forall>e \<in> set es. dfiles (w_disk w) (fp_names (folder_join host (fr_root_path req) (fst e))) = Some (snd e) \<and> length (snd e) < 2 ^ 64 \<Longrightarrow>
    \<exists>w'. send_entries E P J host req retries tot files_total held (map (\<lambda>(rel, c). (rel, of_nat (length c))) es) i k False dn completed w = (Some (Inr (Some ())), w')
      \<and> w_out w' = w_out w @ entries_frames P J chunk i es \<and> w_in w' = w_in w \<and> dfiles (w_disk w') = dfiles (w_disk w)"
proof (induction es arbitrary: i k dn completed w)
  case (Cons e es)
  obtain rel content where e: "e = (rel, content)" by fastforce
  have al: "min (if i < length held then held ! i else 0) (of_nat (length content)) = (0 :: u64)" using assms(3) by (auto simp: min_def)
  have sp: "signal_pause_edge E (te_ctl E k) p q False w = (False, w)" for p q using calmD(5)[OF assms(1)] by (simp add: signal_pause_edge_def)
  have cp: "cancel_or_pause E (te_ctl E k) f retries w = (Some (Inr False), w)" for f
    using calmD(4)[OF assms(1), of k] by (simp add: cancel_or_pause_def ctl_stops_def)
  have o: "open_read (te_dev E) (folder_join host (fr_root_path req) rel) 0 (w_disk w) = (Inr content, tick (w_disk w))"
    using open_read_calm[OF assms(1), of "w_disk w" _ content 0] Cons.prems e by simp
  let ?h = "folder_frame J (FileHeader (of_nat i) rel (of_nat (length content)) 0)"
  let ?f = "folder_frame J (FileEnd (of_nat i) (Some (to_hex (sha256 P content))))"
  let ?rep = "\<lambda>n. emit_progress (fr_id req) tot n rel completed files_total Sending TS_Transferring"
  let ?w0 = "w\<lparr>w_disk := tick (w_disk w)\<rparr>"
  let ?w1 = "?w0\<lparr>w_tries := Suc (w_tries ?w0), w_out := w_out ?w0 @ [?h]\<rparr>"
  have ch: "0 < chunk" using assms(2) by (auto simp: max_def word_le_nat_alt split: if_splits)
  obtain w2 k' where w2: "send_entry_loop E J ?rep retries chunk (Suc k) False content dn [] ?w1 =
      (Some (Inr (Entry_sent k' False (dn + of_nat (length content)) content)), w2)"
    "w_out w2 = w_out w @ ?h # map chunk_frame (pieces chunk content)" "w_in w2 = w_in w" "w_disk w2 = tick (w_disk w)"
    using send_entry_calm[OF assms(1) ch, of J ?rep retries "Suc k" content dn "[]" ?w1] by auto
  let ?w3 = "w2\<lparr>w_tries := Suc (w_tries w2), w_out := w_out w2 @ [?f]\<rparr>"
  have step: "send_entries E P J host req retries tot files_total held (map (\<lambda>(rel, c). (rel, of_nat (length c))) (e # es)) i k False dn completed w =
      send_entries E P J host req retries tot files_total held (map (\<lambda>(rel, c). (rel, of_nat (length c))) es) (Suc i) k' False
        (dn + of_nat (length content)) (completed + 1) ?w3"
    using e al sp cp o w2(1) by (simp add: word_gt_0 Let_def wbind_def send_calm[OF assms(1)] done_with_def assms(2))
  have "\<forall>e \<in> set es. dfiles (w_disk ?w3) (fp_names (folder_join host (fr_root_path req) (fst e))) = Some (snd e) \<and> length (snd e) < 2 ^ 64"
    using Cons.prems w2(4) by simp
  from Cons.IH[OF this, of "Suc i" k' "dn + of_nat (length content)" "completed + 1"] show ?case
    using step w2 e by (auto simp: entry_frames_def)
qed simp

definition listing_of :: "(string \<times> bytes) list \<Rightarrow> (string \<times> u64) list" where
  "listing_of es = map (\<lambda>(rel, c). (rel, of_nat (length c))) es"

definition metas_of :: "(string \<times> bytes) list \<Rightarrow> file_meta list" where
  "metas_of es = map (\<lambda>(rel, c). \<lparr>fm_path = rel, fm_size = of_nat (length c)\<rparr>) es"

text \<open>The folder is on the sender's disk as listed.\<close>

definition has_folder :: "disk \<Rightarrow> (string \<Rightarrow> path) \<Rightarrow> string \<Rightarrow> (string \<times> bytes) list \<Rightarrow> bool" where
  "has_folder d host root es = (\<forall>e \<in> set es. dfiles d (fp_names (folder_join host root (fst e))) = Some (snd e) \<and> length (snd e) < 2 ^ 64)"

lemma send_folder_calm:
  assumes "calm E" "fjson_ok J" "has_folder (w_disk w) host (fr_root_path req) es"
    and "w_in w = wire [folder_frame J (ResumeState (replicate (length es) 0)), folder_frame J (Folder_Received a b)]"
  shows "\<exists>err w'. send_folder E P J host (Inr (listing_of es)) req retries True w =
      (if 0 < b then Some (Inl (EIntegrity err)) else Some (Inr T_Completed), w')
    \<and> w_out w' = w_out w @ folder_frame J (Manifest (fr_id req) (base_name host (fr_root_path req)) (metas_of es))
        # entries_frames P J (unat (max (fr_chunk_size req) 1)) 0 es @ [folder_frame J Folder_Complete]
    \<and> dfiles (w_disk w') = dfiles (w_disk w)"
proof -
  let ?m = "folder_frame J (folder_manifest host req (listing_of es))" and ?c = "folder_frame J Folder_Complete"
  have mm: "folder_manifest host req (listing_of es) = Manifest (fr_id req) (base_name host (fr_root_path req)) (metas_of es)"
    by (simp add: folder_manifest_def listing_of_def metas_of_def case_prod_unfold comp_def)
  define w1 where "w1 = w\<lparr>w_tries := Suc (w_tries w), w_out := w_out w @ [?m]\<rparr>"
  define w2 where "w2 = w1\<lparr>w_in := wire [folder_frame J (Folder_Received a b)]\<rparr>"
  have m: "send_with_retry E ?m retries w = (Some (Inr ()), w1)" unfolding w1_def by (rule send_calm[OF assms(1)])
  have h: "recv_resume J w1 = (Some (Inr (replicate (length es) 0)), w2)"
    using assms(4) by (subst recv_folder_picks(2)[OF assms(2), where r = "wire [folder_frame J (Folder_Received a b)]"]) (simp_all add: w1_def w2_def)
  have "\<forall>e \<in> set es. dfiles (w_disk w2) (fp_names (folder_join host (fr_root_path req) (fst e))) = Some (snd e) \<and> length (snd e) < 2 ^ 64"
    using assms(3) by (simp add: has_folder_def w2_def w1_def)
  from send_entries_calm[OF assms(1) refl refl this, of P J retries "sum_sizes (map snd (listing_of es))" "of_nat (length (listing_of es))" "length es" 0 0 0 0]
  obtain w3 where s: "send_entries E P J host req retries (sum_sizes (map snd (listing_of es))) (of_nat (length (listing_of es))) (replicate (length es) 0)
      (listing_of es) 0 0 False 0 0 w2 = (Some (Inr (Some ())), w3)"
    "w_out w3 = w_out w2 @ entries_frames P J (unat (max (fr_chunk_size req) 1)) 0 es" "w_in w3 = w_in w2" "dfiles (w_disk w3) = dfiles (w_disk w2)"
    unfolding listing_of_def by blast
  define w4 where "w4 = w3\<lparr>w_tries := Suc (w_tries w3), w_out := w_out w3 @ [?c]\<rparr>"
  have c: "send_with_retry E ?c retries w3 = (Some (Inr ()), w4)" unfolding w4_def by (rule send_calm[OF assms(1)])
  have "w_in w4 = Inr (Some (folder_frame J (Folder_Received a b))) # []" using s(3) by (simp add: w4_def w2_def)
  note ack = recv_folder_picks(3)[OF assms(2) this refl, of "of_nat (length (listing_of es))"]
  have o: "w_out w4 = w_out w @ ?m # entries_frames P J (unat (max (fr_chunk_size req) 1)) 0 es @ [?c]" "dfiles (w_disk w4) = dfiles (w_disk w)"
    using s(2,4) by (simp_all add: w4_def w2_def w1_def)
  show ?thesis unfolding send_folder_def wbind_def prod.case option.case sum.case Let_def m h s(1) c if_True ack
    using o by (cases "0 < b") (auto simp: mm)
qed

lemma folder_exchange:
  assumes "calm ES" "calm ER" "fjson_ok J" "has_folder (w_disk ws) shost (fr_root_path req) es" "length es < 2 ^ 32"
    and C: "C = folder_ctx host windows lower dir (fr_id req) (base_name shost (fr_root_path req)) (metas_of es)" "receivable C wr es"
  shows "\<exists>frames acks rv ws' wr' r. send_folder ES P J shost (Inr (listing_of es)) req retries True (ws\<lparr>w_in := wire acks\<rparr>) = (Some r, ws')
      \<and> w_out ws' = w_out ws @ frames \<and> (if withheld P C es = [] then r = Inr T_Completed else (\<exists>m. r = Inl (EIntegrity m)))
      \<and> receive_folder ER P J host windows lower dir True (wr\<lparr>w_in := wire frames\<rparr>) = (Some (Inr rv), wr') \<and> w_out wr' = w_out wr @ acks
      \<and> fd_outcome rv = T_Completed \<and> fd_files rv = of_nat (length (delivered C es))
      \<and> dfiles (w_disk wr') = foldl place (dfiles (w_disk wr)) (delivered C es) \<and> w_claims wr' = w_claims wr"
proof -
  let ?n = "ucast (of_nat (length (delivered C es)) :: u32) :: u64" and ?b = "of_nat (length (withheld P C es)) :: u64"
  let ?chunk = "unat (max (fr_chunk_size req) 1)"
  define frames where "frames = folder_frame J (Manifest (fr_id req) (base_name shost (fr_root_path req)) (metas_of es))
    # entries_frames P J ?chunk 0 es @ [folder_frame J Folder_Complete]"
  define acks where "acks = [folder_frame J (ResumeState (replicate (length es) 0)), folder_frame J (Folder_Received ?n ?b)]"
  have ch: "0 < ?chunk" by (auto simp: max_def word_le_nat_alt split: if_splits)
  have len: "length (metas_of es) = length es" by (simp add: metas_of_def)
  have "has_folder (w_disk (ws\<lparr>w_in := wire acks\<rparr>)) shost (fr_root_path req) es" "w_in (ws\<lparr>w_in := wire acks\<rparr>) = wire acks" using assms(4) by simp_all
  from send_folder_calm[OF assms(1,3) this(1), of ?n ?b P retries] this(2)
  obtain err ws' where s: "send_folder ES P J shost (Inr (listing_of es)) req retries True (ws\<lparr>w_in := wire acks\<rparr>) =
      (if 0 < ?b then Some (Inl (EIntegrity err)) else Some (Inr T_Completed), ws')" "w_out ws' = w_out ws @ frames"
    by (auto simp: acks_def frames_def)
  have "receivable C (wr\<lparr>w_in := wire frames\<rparr>) es" "w_in (wr\<lparr>w_in := wire frames\<rparr>) = wire frames" using C(2) by (simp_all add: receivable_def)
  from receive_folder_calm[OF assms(2,3) ch C(1) this(1), of P] this(2) obtain rv wr' where
    r: "receive_folder ER P J host windows lower dir True (wr\<lparr>w_in := wire frames\<rparr>) = (Some (Inr rv), wr')" "fd_outcome rv = T_Completed"
      "fd_files rv = of_nat (length (delivered C es))" "dfiles (w_disk wr') = foldl place (dfiles (w_disk wr)) (delivered C es)"
      "w_out wr' = w_out wr @ acks" "w_claims wr' = w_claims wr" by (auto simp: frames_def acks_def len)
  have "length (withheld P C es) \<le> length es" by (simp add: withheld_def)
  then have "length (withheld P C es) < 2 ^ 64" using assms(5) by simp
  then have "0 < ?b \<longleftrightarrow> withheld P C es \<noteq> []" by (simp add: word_gt_0 word_unat_eq_iff unat_small)
  then obtain x where "send_folder ES P J shost (Inr (listing_of es)) req retries True (ws\<lparr>w_in := wire acks\<rparr>) = (Some x, ws')"
    "if withheld P C es = [] then x = Inr T_Completed else (\<exists>m. x = Inl (EIntegrity m))" using s(1) by (cases "withheld P C es = []") auto
  with s(2) r show ?thesis by blast
qed

text \<open>
  C30. An honest pair delivers a folder: when every entry has a destination and the destinations
  and their staging files do not get in each other's way, there is an exchange - each side
  reading exactly the frames the other sends - in which the receiver confirms every entry, the
  sender completes, every file of the folder is stored under its path with its exact content,
  and no file other than those and their staging files has changed.
\<close>

theorem folder_delivers:
  assumes env: "calm ES" "calm ER" "fjson_ok J" and src: "has_folder (w_disk ws) shost (fr_root_path req) es" "length es < 2 ^ 32"
    and C: "C = folder_ctx host windows lower dir (fr_id req) (base_name shost (fr_root_path req)) (metas_of es)" "receivable C wr es"
    and all: "\<forall>e \<in> set es. target C (fst e) \<noteq> None"
  shows "\<exists>frames acks rv ws' wr'.
      send_folder ES P J shost (Inr (listing_of es)) req retries True (ws\<lparr>w_in := wire acks\<rparr>) = (Some (Inr T_Completed), ws')
      \<and> w_out ws' = w_out ws @ frames
      \<and> receive_folder ER P J host windows lower dir True (wr\<lparr>w_in := wire frames\<rparr>) = (Some (Inr rv), wr') \<and> w_out wr' = w_out wr @ acks
      \<and> fd_outcome rv = T_Completed \<and> unat (fd_files rv) = length es
      \<and> (\<forall>(rel, content) \<in> set es. dfiles (w_disk wr') (fp_names (the (target C rel))) = Some content)
      \<and> (\<forall>p. p \<notin> (\<Union>e \<in> set es. {fp_names (the (target C (fst e))), fp_names (part_path (the (target C (fst e))))}) \<longrightarrow>
           dfiles (w_disk wr') p = dfiles (w_disk wr) p)
      \<and> w_claims wr' = w_claims wr"
proof -
  have d: "delivered C es = map (\<lambda>e. (the (target C (fst e)), snd e)) es" using all by (induction es) (auto split: option.splits)
  have none: "(withheld P C es = []) = True" using all by (auto simp: withheld_def filter_empty_conv)
  from folder_exchange[OF env src C, of P retries, unfolded none if_True] obtain frames acks rv ws' wr' where
    x: "send_folder ES P J shost (Inr (listing_of es)) req retries True (ws\<lparr>w_in := wire acks\<rparr>) = (Some (Inr T_Completed), ws')"
      "w_out ws' = w_out ws @ frames"
      "receive_folder ER P J host windows lower dir True (wr\<lparr>w_in := wire frames\<rparr>) = (Some (Inr rv), wr')" "w_out wr' = w_out wr @ acks"
      "fd_outcome rv = T_Completed" "fd_files rv = of_nat (length (delivered C es))"
      "dfiles (w_disk wr') = foldl place (dfiles (w_disk wr)) (delivered C es)" "w_claims wr' = w_claims wr"
    by blast
  have n: "unat (fd_files rv) = length es" using x(6) src(2) d by (simp add: unat_small)
  have s: "sorted_wrt no_clash (map fst (delivered C es))" using C(2) by (simp add: receivable_def)
  have "\<forall>(rel, content) \<in> set es. dfiles (w_disk wr') (fp_names (the (target C rel))) = Some content"
    using place_result[OF s] x(7) d by fastforce
  moreover have "dfiles (w_disk wr') p = dfiles (w_disk wr) p"
    if "p \<notin> (\<Union>e \<in> set es. {fp_names (the (target C (fst e))), fp_names (part_path (the (target C (fst e))))})" for p
    unfolding x(7) using that by (intro place_rest) (simp add: d)
  ultimately show ?thesis using x(1-5,8) n by blast
qed

text \<open>
  An entry the receiver has to skip fails the whole send: an entry whose path is unsafe is
  not written, as intended, but its end is still compared with the digest of nothing, so it is
  reported as corrupt and the sender, whose link and files were in order, ends with an integrity
  error - although the receiver reports the folder as completed with all its other entries.
\<close>

lemma skipped_entry_fails_send:
  assumes env: "calm ES" "calm ER" "fjson_ok J" and src: "has_folder (w_disk ws) shost (fr_root_path req) es" "length es < 2 ^ 32"
    and C: "C = folder_ctx host windows lower dir (fr_id req) (base_name shost (fr_root_path req)) (metas_of es)" "receivable C wr es"
    and bad: "(rel, content) \<in> set es" "target C rel = None" "to_hex (sha256 P content) \<noteq> to_hex (sha256 P [])"
  shows "\<exists>frames acks m rv ws' wr'.
      send_folder ES P J shost (Inr (listing_of es)) req retries True (ws\<lparr>w_in := wire acks\<rparr>) = (Some (Inl (EIntegrity m)), ws')
      \<and> w_out ws' = w_out ws @ frames
      \<and> receive_folder ER P J host windows lower dir True (wr\<lparr>w_in := wire frames\<rparr>) = (Some (Inr rv), wr') \<and> w_out wr' = w_out wr @ acks
      \<and> fd_outcome rv = T_Completed \<and> (\<forall>x \<in> set (delivered C es). dfiles (w_disk wr') (fp_names (fst x)) = Some (snd x))"
proof -
  have "withheld P C es \<noteq> []" using bad by (auto simp: withheld_def filter_empty_conv)
  with folder_exchange[OF env src C, of P retries] obtain frames acks m rv ws' wr' where
    x: "send_folder ES P J shost (Inr (listing_of es)) req retries True (ws\<lparr>w_in := wire acks\<rparr>) = (Some (Inl (EIntegrity m)), ws')"
      "w_out ws' = w_out ws @ frames"
      "receive_folder ER P J host windows lower dir True (wr\<lparr>w_in := wire frames\<rparr>) = (Some (Inr rv), wr')" "w_out wr' = w_out wr @ acks"
      "fd_outcome rv = T_Completed" "dfiles (w_disk wr') = foldl place (dfiles (w_disk wr)) (delivered C es)"
    by (simp only: if_False) blast
  have "sorted_wrt no_clash (map fst (delivered C es))" using C(2) by (simp add: receivable_def)
  from place_result[OF this] x show ?thesis by metis
qed

section \<open>Witnesses\<close>

definition toy_many :: "bytes list \<Rightarrow> bytes" where
  "toy_many xs = replicate (length xs) 1 @ 0 # concat (map toy_put xs)"

primrec toy_take :: "nat \<Rightarrow> bytes \<Rightarrow> bytes list" where
  "toy_take 0 r = []"
| "toy_take (Suc n) r = (case toy_get r of (x, r) \<Rightarrow> x # toy_take n r)"

definition toy_each :: "bytes \<Rightarrow> bytes list" where
  "toy_each bs = toy_take (length (takeWhile (\<lambda>b. b = 1) bs)) (tl (dropWhile (\<lambda>b. b = 1) bs))"

lemma toy_each_many [simp]: "toy_each (toy_many xs) = xs"
proof -
  have "toy_take (length xs) (concat (map toy_put xs)) = xs" by (induction xs) simp_all
  moreover have "takeWhile (\<lambda>b. b = 1) (replicate n 1 @ 0 # r) = replicate n (1 :: u8)" "dropWhile (\<lambda>b. b = 1) (replicate n 1 @ 0 # r) = (0 :: u8) # r" for n r
    by (induction n) simp_all
  ultimately show ?thesis by (simp add: toy_each_def toy_many_def)
qed

definition toy_meta :: "file_meta \<Rightarrow> bytes" where
  "toy_meta m = toy_put (str_bytes (fm_path m)) @ to_be (fm_size m)"

definition toy_unmeta :: "bytes \<Rightarrow> file_meta" where
  "toy_unmeta bs = (case toy_get bs of (p, r) \<Rightarrow> \<lparr>fm_path = toy_str p, fm_size = from_be r\<rparr>)"

definition toy_fjson :: fjson where
  "toy_fjson =
     \<lparr>fj_enc = (\<lambda>m. case m of
        Manifest t r fs \<Rightarrow> 0 # toy_many (str_bytes t # str_bytes r # map toy_meta fs)
      | ResumeState us \<Rightarrow> 1 # toy_many (map to_be us)
      | FileHeader i p s off \<Rightarrow> 2 # toy_many [to_be i, str_bytes p, to_be s, to_be off]
      | FileEnd i c \<Rightarrow> 3 # toy_many (to_be i # (case c of None \<Rightarrow> [] | Some x \<Rightarrow> [str_bytes x]))
      | Folder_Received a b \<Rightarrow> 4 # toy_many [to_be a, to_be b]
      | Folder_Complete \<Rightarrow> [5] | Folder_Cancel \<Rightarrow> [6] | Folder_Pause \<Rightarrow> [7] | Folder_Resume \<Rightarrow> [8]),
      fj_dec = (\<lambda>bs. case bs of [] \<Rightarrow> Inl ''empty'' | t # r \<Rightarrow>
        let xs = toy_each r in
        if t = 0 then Inr (Manifest (toy_str (xs ! 0)) (toy_str (xs ! 1)) (map toy_unmeta (drop 2 xs)))
        else if t = 1 then Inr (ResumeState (map from_be xs))
        else if t = 2 then Inr (FileHeader (from_be (xs ! 0)) (toy_str (xs ! 1)) (from_be (xs ! 2)) (from_be (xs ! 3)))
        else if t = 3 then Inr (FileEnd (from_be (xs ! 0)) (if length xs = 1 then None else Some (toy_str (xs ! 1))))
        else if t = 4 then Inr (Folder_Received (from_be (xs ! 0)) (from_be (xs ! 1)))
        else if t = 5 then Inr Folder_Complete else if t = 6 then Inr Folder_Cancel else if t = 7 then Inr Folder_Pause
        else Inr Folder_Resume)\<rparr>"

lemma toy_fjson_ok: "fjson_ok toy_fjson"
  unfolding fjson_ok_def
proof
  have m: "map toy_unmeta (map toy_meta fs) = fs" for fs
    by (induction fs) (simp_all add: toy_unmeta_def toy_meta_def be64.dec_enc)
  have u: "map from_be (map to_be us) = us" for us :: "u64 list" by (induction us) (simp_all add: be64.dec_enc)
  show "fj_dec toy_fjson (fj_enc toy_fjson m) = Inr m" for m
  proof (cases m)
    case (FileEnd i c)
    then show ?thesis by (cases c) (simp_all add: toy_fjson_def be32.dec_enc)
  qed (simp_all add: toy_fjson_def be64.dec_enc be32.dec_enc m[unfolded map_map] u[unfolded map_map] Let_def)
qed

definition toy_folder_send :: folder_send_request where
  "toy_folder_send = \<lparr>fr_id = ''t'', fr_root_path = ''/d/r'', fr_chunk_size = 2\<rparr>"

definition toy_tree :: "string \<Rightarrow> bytes \<Rightarrow> world" where
  "toy_tree name b = toy_world [(''r'', DirN [(name, FileN b 0)])] []"

lemma toy_joined: "folder_join components_unix ''/d/r'' ''a'' = ([''d'', ''r''], ''a'')" "base_name components_unix ''/d/r'' = ''r''"
  "sanitize_name components_unix False ''r'' = ''r''" "folder_join components_unix ''/d/r'' ''../x'' = ([''d'', ''r''], ''x'')"
  by code_simp+

lemma toy_has: "has_folder (w_disk (toy_tree ''a'' [1, 2])) components_unix ''/d/r'' [(''a'', [1, 2])]"
  "has_folder (w_disk (toy_tree ''x'' [1])) components_unix ''/d/r'' [(''../x'', [1])]"
  by (simp_all add: has_folder_def toy_joined toy_tree_def toy_world_def fp_names_def dfiles_def fs_files_def file_at_def)

definition toy_ctx :: "(string \<times> bytes) list \<Rightarrow> fctx" where
  "toy_ctx es = folder_ctx components_unix False (map ascii_upper) [''d''] ''t'' ''r'' (metas_of es)"

lemma toy_targets: "target (toy_ctx es) ''a'' = Some ([''d'', ''r''], ''a'')" "target (toy_ctx es) ''../x'' = None"
  by (simp_all add: toy_ctx_def folder_ctx_def toy_joined dest_path_def sanitize_rel_def safe_component_def)

lemma toy_roomy: "roomy (w_disk (toy_world [] [])) ([''d'', ''r''], ''a'')"
proof -
  have "q = [] \<or> q = [''d''] \<or> q = [''d'', ''r'']" if "below q [''d'', ''r'']" for q
    using that by (cases q; cases "tl q"; cases "tl (tl q)") (auto simp: below_def)
  then have "dfiles (w_disk (toy_world [] [])) q = None \<and> \<not> islink (w_disk (toy_world [] [])) q" if "below q [''d'', ''r'']" for q
    using that by (fastforce simp: toy_world_def dfiles_def fs_files_def file_at_def islink_def)
  then show ?thesis
    by (auto simp: roomy_def toy_world_def dfiles_def fs_files_def file_at_def islink_def isdir_def fs_is_dir_def fp_names_def part_path_def)
qed

theorem folder_delivers_witness:
  "\<exists>frames acks rv ws' wr'.
     send_folder toy_tenv toy_prims toy_fjson components_unix (Inr (listing_of [(''a'', [1, 2])])) toy_folder_send 0 True
       ((toy_tree ''a'' [1, 2])\<lparr>w_in := wire acks\<rparr>) = (Some (Inr T_Completed), ws')
     \<and> receive_folder toy_tenv toy_prims toy_fjson components_unix False (map ascii_upper) [''d''] True (toy_world [] (wire frames)) = (Some (Inr rv), wr')
     \<and> fd_outcome rv = T_Completed \<and> dfiles (w_disk wr') [''d'', ''r'', ''a''] = Some [1, 2]"
proof -
  let ?es = "[(''a'', [1, 2 :: u8])]"
  have "has_folder (w_disk (toy_tree ''a'' [1, 2])) components_unix (fr_root_path toy_folder_send) ?es" "length ?es < 2 ^ 32"
    "toy_ctx ?es = folder_ctx components_unix False (map ascii_upper) [''d''] (fr_id toy_folder_send)
      (base_name components_unix (fr_root_path toy_folder_send)) (metas_of ?es)"
    "receivable (toy_ctx ?es) (toy_world [] []) ?es" "\<forall>e \<in> set ?es. target (toy_ctx ?es) (fst e) \<noteq> None"
    using toy_has(1) toy_roomy by (simp_all add: toy_folder_send_def toy_ctx_def[of ?es] toy_joined receivable_def toy_targets[unfolded toy_ctx_def])
  from folder_delivers[OF toy_calm toy_calm toy_fjson_ok this, of toy_prims 0]
  show ?thesis unfolding toy_world_simps
    by (elim exE conjE) (intro exI conjI, assumption, assumption, assumption, simp add: toy_targets fp_names_def)
qed

lemma skipped_entry_fails_send_witness:
  "\<exists>frames acks m rv ws' wr'.
     send_folder toy_tenv toy_prims toy_fjson components_unix (Inr (listing_of [(''../x'', [1])])) toy_folder_send 0 True
       ((toy_tree ''x'' [1])\<lparr>w_in := wire acks\<rparr>) = (Some (Inl (EIntegrity m)), ws')
     \<and> receive_folder toy_tenv toy_prims toy_fjson components_unix False (map ascii_upper) [''d''] True (toy_world [] (wire frames)) = (Some (Inr rv), wr')
     \<and> fd_outcome rv = T_Completed"
proof -
  let ?es = "[(''../x'', [1 :: u8])]"
  have h: "to_hex (sha256 toy_prims [1]) \<noteq> to_hex (sha256 toy_prims [])" by code_simp
  have "has_folder (w_disk (toy_tree ''x'' [1])) components_unix (fr_root_path toy_folder_send) ?es" "length ?es < 2 ^ 32"
    "toy_ctx ?es = folder_ctx components_unix False (map ascii_upper) [''d''] (fr_id toy_folder_send)
      (base_name components_unix (fr_root_path toy_folder_send)) (metas_of ?es)"
    "receivable (toy_ctx ?es) (toy_world [] []) ?es" "(''../x'', [1]) \<in> set ?es" "target (toy_ctx ?es) ''../x'' = None"
    using toy_has(2) by (simp_all add: toy_folder_send_def toy_ctx_def[of ?es] toy_joined receivable_def toy_targets[unfolded toy_ctx_def])
  from skipped_entry_fails_send[OF toy_calm toy_calm toy_fjson_ok this h, of 0]
  show ?thesis unfolding toy_world_simps
    by (elim exE conjE) (intro exI conjI, assumption, assumption, assumption)
qed



end
