(* ===== verification/PB_Chat.thy ===== *)
theory PB_Chat
  imports PB_AppStore PB_Trust "HOL-Library.Option_ord" "HOL-Library.Product_Lexorder"
begin

text \<open>
  The data of chat (\<open>peerbeam-chat/src\<close>): the five wire messages and their frames
  (\<open>message.rs\<close>), message ids, the stored record with its render-safe file names (\<open>record.rs\<close>),
  the disappearing-message window (\<open>retention.rs\<close>), quoted replies (\<open>reply.rs\<close>) and the permission
  to send (\<open>gate.rs\<close>).

  JSON coding and the parsing of times are arguments (\<open>chat_env\<close>); an instant is a number of
  nanoseconds. A clock reading, a random sample and a rendered time are arguments of the function
  that takes them.
\<close>

section \<open>Errors and coding\<close>

datatype chat_error =
    CeTooLarge nat | CeSerialization string | CeWrongType u16 | CeBadName string | CeBadReaction string
  | CeBadReceipt string | CeBadId string | CeBadReply string | CeBadRetention string | CeQueueUnreadable string

definition MAX_BODY :: nat where "MAX_BODY = 16384"
definition MAX_NAME :: nat where "MAX_NAME = 255"
definition MAX_ID :: nat where "MAX_ID = 128"
definition MAX_REACTION :: nat where "MAX_REACTION = 64"
definition MSG_TEXT :: u16 where "MSG_TEXT = 1"
definition MSG_FILE_REF :: u16 where "MSG_FILE_REF = 2"
definition MSG_FILE_DECLINE :: u16 where "MSG_FILE_DECLINE = 3"
definition MSG_REACTION :: u16 where "MSG_REACTION = 4"
definition MSG_RECEIPT :: u16 where "MSG_RECEIPT = 5"

fun chat_error_show :: "chat_error \<Rightarrow> string" where
  "chat_error_show (CeTooLarge len) = ''chat body too large: '' @ show_nat len @ '' bytes (max '' @ show_nat MAX_BODY @ '')''"
| "chat_error_show (CeSerialization e) = ''chat serialization: '' @ e"
| "chat_error_show (CeWrongType t) = ''unexpected chat message type '' @ show_nat (unat t)"
| "chat_error_show (CeBadName e) = ''bad file name: '' @ e"
| "chat_error_show (CeBadReaction e) = ''bad reaction: '' @ e"
| "chat_error_show (CeBadReceipt e) = ''bad receipt: '' @ e"
| "chat_error_show (CeBadId e) = ''bad file id: '' @ e"
| "chat_error_show (CeBadReply e) = ''bad reply reference: '' @ e"
| "chat_error_show (CeBadRetention e) = ''bad retention window: '' @ e"
| "chat_error_show (CeQueueUnreadable e) = ''a queued outbox entry could not be decoded: '' @ e"

definition chat_session_error :: "chat_error \<Rightarrow> session_error" where
  "chat_session_error e = FrameDecode (chat_error_show e)"

text \<open>A serde coding of a type: what \<open>to_vec\<close> and \<open>from_slice\<close> answer.\<close>

record 'a codec =
  cd_enc :: "'a \<Rightarrow> (string, bytes) result"
  cd_dec :: "bytes \<Rightarrow> (string, 'a) result"

definition codec_ok :: "'a codec \<Rightarrow> bool" where
  "codec_ok c = (\<forall>x. \<exists>b. cd_enc c x = Inr b \<and> cd_dec c b = Inr x)"

section \<open>Wire messages\<close>

record chat_message =
  cm_id :: string
  cm_timestamp :: string
  cm_body :: string
  cm_in_reply_to :: "string option"
  cm_group :: "string option"

record file_ref =
  fr_id :: string
  fr_timestamp :: string
  fr_name :: string
  fr_size :: u64

record file_decline =
  fd_id :: string
  fd_timestamp :: string

record reaction =
  rx_target_id :: string
  rx_emoji :: string
  rx_remove :: bool
  rx_timestamp :: string

record receipt =
  rp_read_through :: string
  rp_timestamp :: string

text \<open>
  Ids: the process keeps the last milliseconds and suffix it used. \<open>{:013}\<close> pads with zeros,
  \<open>{:016x}\<close> writes the eight bytes in hex.
\<close>

definition pad13 :: "string \<Rightarrow> string" where
  "pad13 d = replicate (13 - length d) (CHR ''0'') @ d"

definition mint_id :: "int \<Rightarrow> u64 \<Rightarrow> u64 \<times> u64 \<Rightarrow> string \<times> u64 \<times> u64" where
  "mint_id now_ms sample prev =
     (let now_millis = word_of_int (max now_ms 0);
          (millis, suffix) = (if now_millis > fst prev then (now_millis, sample) else (fst prev, snd prev + 1))
      in (pad13 (show_nat (unat millis)) @ hex_encode (to_be suffix), millis, suffix))"

definition validate_reply_ref :: "string option \<Rightarrow> string \<Rightarrow> (chat_error, unit) result" where
  "validate_reply_ref in_reply_to own_id =
     (case in_reply_to of
        None \<Rightarrow> Inr ()
      | Some parent \<Rightarrow>
          if parent = [] \<or> length parent > MAX_ID then
            Inl (CeBadReply (''reply reference length '' @ show_nat (length parent) @ '' (max '' @ show_nat MAX_ID @ '')''))
          else if parent = own_id then Inl (CeBadReply (''a message cannot answer itself: '' @ parent))
          else Inr ())"

text \<open>\<open>Path::new(name).file_name()\<close>; the host's path parser is an argument.\<close>

definition file_name_of :: "(string \<Rightarrow> path) \<Rightarrow> string \<Rightarrow> string option" where
  "file_name_of comps p = (case rev (comps p) of Normal n # _ \<Rightarrow> Some n | _ \<Rightarrow> None)"

definition validate_name :: "(string \<Rightarrow> path) \<Rightarrow> string \<Rightarrow> (chat_error, unit) result" where
  "validate_name comps name =
     (if name = [] \<or> length name > MAX_NAME then Inl (CeBadName (''bad length: '' @ show_nat (length name)))
      else if file_name_of comps name \<noteq> Some name then Inl (CeBadName (''not a bare filename: '' @ name))
      else Inr ())"

definition validate_id :: "string \<Rightarrow> (chat_error, unit) result" where
  "validate_id i =
     (if i = [] \<or> length i > MAX_ID then Inl (CeBadId (''bad length: '' @ show_nat (length i)))
      else if i = ''.'' \<or> i = ''..'' then Inl (CeBadId (''reserved name: '' @ i))
      else if \<not> list_all (\<lambda>c. is_ascii_alphanumeric c \<or> c \<in> {CHR ''-'', CHR ''_'', CHR ''.''}) i then
        Inl (CeBadId (''not a bare [A-Za-z0-9._-] token: '' @ i))
      else Inr ())"

text \<open>\<open>ChatMessage::replying\<close> and \<open>new\<close>; the minted id and the process's id state are passed along.\<close>

definition message_replying :: "int \<Rightarrow> u64 \<Rightarrow> string \<Rightarrow> string \<Rightarrow> string option \<Rightarrow> u64 \<times> u64
    \<Rightarrow> (chat_error, chat_message) result \<times> u64 \<times> u64" where
  "message_replying now_ms sample stamp body in_reply_to prev =
     (if length body > MAX_BODY then (Inl (CeTooLarge (length body)), prev)
      else case mint_id now_ms sample prev of (i, prev') \<Rightarrow>
        (rbind (validate_reply_ref in_reply_to i) (\<lambda>_.
           Inr \<lparr>cm_id = i, cm_timestamp = stamp, cm_body = body, cm_in_reply_to = in_reply_to, cm_group = None\<rparr>), prev'))"

definition message_new :: "int \<Rightarrow> u64 \<Rightarrow> string \<Rightarrow> string \<Rightarrow> u64 \<times> u64 \<Rightarrow> (chat_error, chat_message) result \<times> u64 \<times> u64" where
  "message_new now_ms sample stamp body prev = message_replying now_ms sample stamp body None prev"

definition file_ref_new :: "(string \<Rightarrow> path) \<Rightarrow> int \<Rightarrow> u64 \<Rightarrow> string \<Rightarrow> string \<Rightarrow> u64 \<Rightarrow> u64 \<times> u64
    \<Rightarrow> (chat_error, file_ref) result \<times> u64 \<times> u64" where
  "file_ref_new comps now_ms sample stamp name len prev =
     (case validate_name comps name of
        Inl e \<Rightarrow> (Inl e, prev)
      | Inr _ \<Rightarrow> (case mint_id now_ms sample prev of (i, prev') \<Rightarrow>
          (Inr \<lparr>fr_id = i, fr_timestamp = stamp, fr_name = name, fr_size = len\<rparr>, prev')))"

definition file_decline_new :: "string \<Rightarrow> string \<Rightarrow> file_decline" where
  "file_decline_new stamp i = \<lparr>fd_id = i, fd_timestamp = stamp\<rparr>"

definition reaction_add :: "string \<Rightarrow> string \<Rightarrow> string \<Rightarrow> reaction" where
  "reaction_add stamp target emoji = \<lparr>rx_target_id = target, rx_emoji = emoji, rx_remove = False, rx_timestamp = stamp\<rparr>"

definition reaction_remove :: "string \<Rightarrow> string \<Rightarrow> string \<Rightarrow> reaction" where
  "reaction_remove stamp target emoji = \<lparr>rx_target_id = target, rx_emoji = emoji, rx_remove = True, rx_timestamp = stamp\<rparr>"

definition receipt_through :: "string \<Rightarrow> string \<Rightarrow> receipt" where
  "receipt_through stamp i = \<lparr>rp_read_through = i, rp_timestamp = stamp\<rparr>"

section \<open>Records\<close>

datatype chat_direction = Out | In

datatype chat_status =
  St_Pending | St_Sent | St_Received | St_PendingApproval | St_Transferring | St_Declined | St_Failed | St_Interrupted | St_Staging

datatype chat_kind = Kd_Text | Kd_File | Kd_Decline

record stored_reaction =
  sr_emoji :: string
  sr_by :: chat_direction
  sr_timestamp :: string

record chat_file_meta =
  fm_name :: string
  fm_size :: u64
  fm_local_path :: "string option"

record chat_record =
  cr_id :: string
  cr_peer_id :: device_id
  cr_direction :: chat_direction
  cr_timestamp :: string
  cr_body :: string
  cr_status :: chat_status
  cr_kind :: chat_kind
  cr_file :: "chat_file_meta option"
  cr_read_at :: "string option"
  cr_reactions :: "stored_reaction list"
  cr_in_reply_to :: "string option"
  cr_group :: "string option"
  cr_stored_at :: "int option"

text \<open>
  The characters of a string, each its bytes: a first byte and the continuation bytes after it.
  The code point of a character.
\<close>

definition cont_char :: "char \<Rightarrow> bool" where
  "cont_char c = (128 \<le> (of_char c :: nat) \<and> (of_char c :: nat) < 192)"

fun str_chars :: "string \<Rightarrow> string list" where
  "str_chars [] = []"
| "str_chars (c # s) =
     (case str_chars s of
        [] \<Rightarrow> [[c]]
      | g # gs \<Rightarrow> if cont_char (hd g) then (c # g) # gs else [c] # g # gs)"

definition code_point :: "string \<Rightarrow> nat" where
  "code_point g =
     (case map (of_char :: char \<Rightarrow> nat) g of
        [a] \<Rightarrow> a
      | [a, b] \<Rightarrow> (a mod 32) * 64 + b mod 64
      | [a, b, c] \<Rightarrow> (a mod 16) * 4096 + (b mod 64) * 64 + c mod 64
      | [a, b, c, d] \<Rightarrow> (a mod 8) * 262144 + (b mod 64) * 4096 + (c mod 64) * 64 + d mod 64
      | _ \<Rightarrow> 0)"

definition is_control_point :: "nat \<Rightarrow> bool" where
  "is_control_point n = (n < 0x20 \<or> (0x7F \<le> n \<and> n < 0xA0))"

definition is_display_hostile :: "string \<Rightarrow> bool" where
  "is_display_hostile g =
     (let n = code_point g in is_control_point n \<or> n = 0x200E \<or> n = 0x200F
        \<or> (0x202A \<le> n \<and> n \<le> 0x202E) \<or> (0x2066 \<le> n \<and> n \<le> 0x2069))"

definition REPLACEMENT :: string where
  "REPLACEMENT = [CHR 0xEF, CHR 0xBF, CHR 0xBD]"

definition display_name :: "string \<Rightarrow> string" where
  "display_name raw = concat (map (\<lambda>g. if is_display_hostile g then REPLACEMENT else g) (str_chars raw))"

text \<open>\<open>char::is_whitespace\<close>, \<open>str::trim\<close> and \<open>str::split_whitespace\<close>.\<close>

definition is_whitespace_point :: "nat \<Rightarrow> bool" where
  "is_whitespace_point n = ((9 \<le> n \<and> n \<le> 13) \<or> n \<in> {0x20, 0x85, 0xA0, 0x1680} \<or> (0x2000 \<le> n \<and> n \<le> 0x200A)
     \<or> n \<in> {0x2028, 0x2029, 0x202F, 0x205F, 0x3000})"

definition is_space :: "string \<Rightarrow> bool" where
  "is_space g = is_whitespace_point (code_point g)"

definition str_trim :: "string \<Rightarrow> string" where
  "str_trim s = concat (rev (dropWhile is_space (rev (dropWhile is_space (str_chars s)))))"

fun words_of :: "string list \<Rightarrow> string \<Rightarrow> string list" where
  "words_of [] w = (if w = [] then [] else [w])"
| "words_of (g # gs) w = (if is_space g then (if w = [] then words_of gs [] else w # words_of gs []) else words_of gs (w @ g))"

definition split_whitespace :: "string \<Rightarrow> string list" where
  "split_whitespace s = words_of (str_chars s) []"

definition file_meta_new :: "string \<Rightarrow> u64 \<Rightarrow> string option \<Rightarrow> chat_file_meta" where
  "file_meta_new name len path = \<lparr>fm_name = display_name name, fm_size = len, fm_local_path = path\<rparr>"

definition record_out :: "int \<Rightarrow> device_id \<Rightarrow> chat_message \<Rightarrow> chat_status \<Rightarrow> chat_record" where
  "record_out now peer msg status =
     \<lparr>cr_id = cm_id msg, cr_peer_id = peer, cr_direction = Out, cr_timestamp = cm_timestamp msg, cr_body = cm_body msg,
      cr_status = status, cr_kind = Kd_Text, cr_file = None, cr_read_at = None, cr_reactions = [],
      cr_in_reply_to = cm_in_reply_to msg, cr_group = cm_group msg, cr_stored_at = Some now\<rparr>"

definition record_sent_of :: "int \<Rightarrow> device_id \<Rightarrow> chat_message \<Rightarrow> chat_record" where
  "record_sent_of now peer msg =
     \<lparr>cr_id = cm_id msg, cr_peer_id = peer, cr_direction = Out, cr_timestamp = cm_timestamp msg, cr_body = cm_body msg,
      cr_status = St_Sent, cr_kind = Kd_Text, cr_file = None, cr_read_at = None, cr_reactions = [],
      cr_in_reply_to = cm_in_reply_to msg, cr_group = cm_group msg, cr_stored_at = Some now\<rparr>"

definition record_received :: "int \<Rightarrow> device_id \<Rightarrow> chat_message \<Rightarrow> chat_record" where
  "record_received now peer msg =
     \<lparr>cr_id = cm_id msg, cr_peer_id = peer, cr_direction = In, cr_timestamp = cm_timestamp msg, cr_body = cm_body msg,
      cr_status = St_Received, cr_kind = Kd_Text, cr_file = None, cr_read_at = None, cr_reactions = [],
      cr_in_reply_to = cm_in_reply_to msg, cr_group = cm_group msg, cr_stored_at = Some now\<rparr>"

definition record_file_out :: "int \<Rightarrow> device_id \<Rightarrow> file_ref \<Rightarrow> chat_file_meta \<Rightarrow> chat_status \<Rightarrow> chat_record" where
  "record_file_out now peer r meta status =
     \<lparr>cr_id = fr_id r, cr_peer_id = peer, cr_direction = Out, cr_timestamp = fr_timestamp r, cr_body = [],
      cr_status = status, cr_kind = Kd_File, cr_file = Some meta, cr_read_at = None, cr_reactions = [],
      cr_in_reply_to = None, cr_group = None, cr_stored_at = Some now\<rparr>"

definition record_file_in :: "int \<Rightarrow> device_id \<Rightarrow> file_ref \<Rightarrow> chat_record" where
  "record_file_in now peer r =
     \<lparr>cr_id = fr_id r, cr_peer_id = peer, cr_direction = In, cr_timestamp = fr_timestamp r, cr_body = [],
      cr_status = St_PendingApproval, cr_kind = Kd_File, cr_file = Some (file_meta_new (fr_name r) (fr_size r) None),
      cr_read_at = None, cr_reactions = [], cr_in_reply_to = None, cr_group = None, cr_stored_at = Some now\<rparr>"

definition is_settleable_file_row :: "chat_direction \<Rightarrow> chat_record \<Rightarrow> bool" where
  "is_settleable_file_row expected r =
     (cr_kind r = Kd_File \<and> cr_direction r = expected \<and> cr_status r \<in> {St_Transferring, St_PendingApproval})"

definition is_cancellable_outgoing_file :: "chat_record \<Rightarrow> bool" where
  "is_cancellable_outgoing_file r =
     (cr_kind r = Kd_File \<and> cr_direction r = Out \<and> cr_status r \<notin> {St_Sent, St_Declined})"

section \<open>The window\<close>

record retention =
  rt_ttl_secs :: "u64 option"

definition RETENTION_OFF :: retention where
  "RETENTION_OFF = \<lparr>rt_ttl_secs = None\<rparr>"

definition MAX_TTL_SECS :: u64 where
  "MAX_TTL_SECS = 100 * 365 * 24 * 60 * 60"

definition retention_for_secs :: "u64 \<Rightarrow> (chat_error, retention) result" where
  "retention_for_secs secs =
     (if secs = 0 \<or> secs > MAX_TTL_SECS then
        Inl (CeBadRetention (''window '' @ show_nat (unat secs) @ ''s is outside 1..='' @ show_nat (unat MAX_TTL_SECS)
          @ '' (use Retention::OFF to keep history)''))
      else Inr \<lparr>rt_ttl_secs = Some secs\<rparr>)"

definition retention_is_off :: "retention \<Rightarrow> bool" where
  "retention_is_off r = (rt_ttl_secs r = None)"

text \<open>
  One queued outbound message and the staged copy of a file; a landing is the name and size a
  transfer announces.
\<close>

record staged_file =
  sg_name :: string
  sg_size :: u64
  sg_path :: string

record outbox_entry =
  oe_peer_id :: device_id
  oe_message_id :: string
  oe_body :: string
  oe_timestamp :: string
  oe_kind :: chat_kind
  oe_file :: "staged_file option"
  oe_offers_refused :: u32
  oe_in_reply_to :: "string option"
  oe_group :: "string option"

text \<open>
  The environment: the codings, \<open>DateTime::parse_from_rfc3339\<close>, and
  \<open>now.checked_sub_signed(Duration::try_seconds(secs)?)\<close>.
\<close>

record chat_env =
  ce_message :: "chat_message codec"
  ce_file_ref :: "file_ref codec"
  ce_decline :: "file_decline codec"
  ce_reaction :: "reaction codec"
  ce_receipt :: "receipt codec"
  ce_record :: "chat_record codec"
  ce_entry :: "outbox_entry codec"
  ce_retention :: "retention codec"
  ce_landing :: "(string \<times> u64) codec"
  ce_parse_time :: "string \<Rightarrow> int option"
  ce_sub_secs :: "int \<Rightarrow> int \<Rightarrow> int option"

definition cutoff :: "chat_env \<Rightarrow> retention \<Rightarrow> int \<Rightarrow> int option" where
  "cutoff E r now =
     (case rt_ttl_secs r of
        None \<Rightarrow> None
      | Some secs \<Rightarrow> if unat secs < 2 ^ 63 then ce_sub_secs E now (uint secs) else None)"

definition closed_on :: "chat_env \<Rightarrow> retention \<Rightarrow> int option \<Rightarrow> int \<Rightarrow> bool" where
  "closed_on E r basis now =
     (case cutoff E r now of
        None \<Rightarrow> False
      | Some c \<Rightarrow> (case basis of Some stored \<Rightarrow> stored \<le> c | None \<Rightarrow> True))"

definition age_basis :: "chat_env \<Rightarrow> chat_record \<Rightarrow> int option" where
  "age_basis E r = (case cr_stored_at r of Some at \<Rightarrow> Some at | None \<Rightarrow> ce_parse_time E (cr_timestamp r))"

definition has_disappeared :: "chat_env \<Rightarrow> chat_record \<Rightarrow> retention \<Rightarrow> int \<Rightarrow> bool" where
  "has_disappeared E r ret now = closed_on E ret (age_basis E r) now"

definition entry_disappeared :: "chat_env \<Rightarrow> outbox_entry \<Rightarrow> retention \<Rightarrow> int \<Rightarrow> bool" where
  "entry_disappeared E e ret now = closed_on E ret (ce_parse_time E (oe_timestamp e)) now"

text \<open>The stored forms. A record or entry that does not encode is written as nothing.\<close>

definition record_encode :: "chat_env \<Rightarrow> chat_record \<Rightarrow> bytes" where
  "record_encode E r = (case cd_enc (ce_record E) r of Inl _ \<Rightarrow> [] | Inr b \<Rightarrow> b)"

definition record_decode :: "chat_env \<Rightarrow> bytes \<Rightarrow> (chat_error, chat_record) result" where
  "record_decode E b = map_sum CeSerialization (\<lambda>r. r) (cd_dec (ce_record E) b)"

definition entry_encode :: "chat_env \<Rightarrow> outbox_entry \<Rightarrow> bytes" where
  "entry_encode E e = (case cd_enc (ce_entry E) e of Inl _ \<Rightarrow> [] | Inr b \<Rightarrow> b)"

definition entry_decode :: "chat_env \<Rightarrow> bytes \<Rightarrow> (chat_error, outbox_entry) result" where
  "entry_decode E b = map_sum CeSerialization (\<lambda>e. e) (cd_dec (ce_entry E) b)"

definition retention_encode :: "chat_env \<Rightarrow> retention \<Rightarrow> (chat_error, bytes) result" where
  "retention_encode E r = map_sum CeSerialization (\<lambda>b. b) (cd_enc (ce_retention E) r)"

definition retention_decode :: "chat_env \<Rightarrow> bytes \<Rightarrow> (chat_error, retention) result" where
  "retention_decode E b = map_sum CeSerialization (\<lambda>r. r) (cd_dec (ce_retention E) b)"

section \<open>Frames\<close>

abbreviation additive_flags :: message_flags where
  "additive_flags \<equiv> flags_with FLAG_OPTIONAL FLAG_END_OF_MESSAGE"

definition chat_frame :: "channel_id \<Rightarrow> u16 \<Rightarrow> message_flags \<Rightarrow> (string, bytes) result \<Rightarrow> (chat_error, session_frame) result" where
  "chat_frame ch t flags enc =
     (case enc of
        Inl e \<Rightarrow> Inl (CeSerialization e)
      | Inr b \<Rightarrow> Inr \<lparr>sf_channel = ch, sf_message_type = t, sf_flags = flags, sf_payload = b\<rparr>)"

definition chat_payload :: "u16 \<Rightarrow> 'a codec \<Rightarrow> session_frame \<Rightarrow> (chat_error, 'a) result" where
  "chat_payload t c f =
     (if sf_message_type f \<noteq> t then Inl (CeWrongType (sf_message_type f))
      else map_sum CeSerialization (\<lambda>x. x) (cd_dec c (sf_payload f)))"

definition message_to_frame :: "chat_env \<Rightarrow> channel_id \<Rightarrow> chat_message \<Rightarrow> (chat_error, session_frame) result" where
  "message_to_frame E ch m =
     (if length (cm_body m) > MAX_BODY then Inl (CeTooLarge (length (cm_body m)))
      else rbind (validate_reply_ref (cm_in_reply_to m) (cm_id m)) (\<lambda>_.
        chat_frame ch MSG_TEXT FLAG_END_OF_MESSAGE (cd_enc (ce_message E) m)))"

definition message_from_frame :: "chat_env \<Rightarrow> session_frame \<Rightarrow> (chat_error, chat_message) result" where
  "message_from_frame E f =
     rbind (chat_payload MSG_TEXT (ce_message E) f) (\<lambda>m.
       if length (cm_body m) > MAX_BODY then Inl (CeTooLarge (length (cm_body m)))
       else rbind (validate_reply_ref (cm_in_reply_to m) (cm_id m)) (\<lambda>_. Inr m))"

definition file_ref_to_frame :: "chat_env \<Rightarrow> (string \<Rightarrow> path) \<Rightarrow> channel_id \<Rightarrow> file_ref \<Rightarrow> (chat_error, session_frame) result" where
  "file_ref_to_frame E comps ch r =
     rbind (validate_name comps (fr_name r)) (\<lambda>_. rbind (validate_id (fr_id r)) (\<lambda>_.
       chat_frame ch MSG_FILE_REF additive_flags (cd_enc (ce_file_ref E) r)))"

definition file_ref_from_frame :: "chat_env \<Rightarrow> (string \<Rightarrow> path) \<Rightarrow> session_frame \<Rightarrow> (chat_error, file_ref) result" where
  "file_ref_from_frame E comps f =
     rbind (chat_payload MSG_FILE_REF (ce_file_ref E) f) (\<lambda>r.
       rbind (validate_name comps (fr_name r)) (\<lambda>_. rbind (validate_id (fr_id r)) (\<lambda>_. Inr r)))"

definition decline_to_frame :: "chat_env \<Rightarrow> channel_id \<Rightarrow> file_decline \<Rightarrow> (chat_error, session_frame) result" where
  "decline_to_frame E ch d = chat_frame ch MSG_FILE_DECLINE additive_flags (cd_enc (ce_decline E) d)"

definition decline_from_frame :: "chat_env \<Rightarrow> session_frame \<Rightarrow> (chat_error, file_decline) result" where
  "decline_from_frame E f = chat_payload MSG_FILE_DECLINE (ce_decline E) f"

definition reaction_to_frame :: "chat_env \<Rightarrow> channel_id \<Rightarrow> reaction \<Rightarrow> (chat_error, session_frame) result" where
  "reaction_to_frame E ch r = chat_frame ch MSG_REACTION additive_flags (cd_enc (ce_reaction E) r)"

definition reaction_from_frame :: "chat_env \<Rightarrow> session_frame \<Rightarrow> (chat_error, reaction) result" where
  "reaction_from_frame E f =
     rbind (chat_payload MSG_REACTION (ce_reaction E) f) (\<lambda>r.
       if rx_target_id r = [] \<or> length (rx_target_id r) > MAX_ID then
         Inl (CeBadReaction (''target id length '' @ show_nat (length (rx_target_id r)) @ '' (max '' @ show_nat MAX_ID @ '')''))
       else if rx_emoji r = [] \<or> length (rx_emoji r) > MAX_REACTION then
         Inl (CeBadReaction (''reaction length '' @ show_nat (length (rx_emoji r)) @ '' (max '' @ show_nat MAX_REACTION @ '')''))
       else Inr r)"

definition receipt_to_frame :: "chat_env \<Rightarrow> channel_id \<Rightarrow> receipt \<Rightarrow> (chat_error, session_frame) result" where
  "receipt_to_frame E ch r = chat_frame ch MSG_RECEIPT additive_flags (cd_enc (ce_receipt E) r)"

definition receipt_from_frame :: "chat_env \<Rightarrow> session_frame \<Rightarrow> (chat_error, receipt) result" where
  "receipt_from_frame E f =
     rbind (chat_payload MSG_RECEIPT (ce_receipt E) f) (\<lambda>r.
       if rp_read_through r = [] \<or> length (rp_read_through r) > MAX_ID then
         Inl (CeBadReceipt (''read_through length '' @ show_nat (length (rp_read_through r)) @ '' (max '' @ show_nat MAX_ID @ '')''))
       else Inr r)"

section \<open>Quoted replies\<close>

record reply_parent =
  rq_id :: string
  rq_direction :: chat_direction
  rq_kind :: chat_kind
  rq_preview :: string

datatype reply_context = NotAReply | Quoting reply_parent | Orphaned string

definition is_reply :: "reply_context \<Rightarrow> bool" where
  "is_reply c = (c \<noteq> NotAReply)"

definition PREVIEW_CHARS :: nat where "PREVIEW_CHARS = 80"

definition preview_of :: "chat_record \<Rightarrow> string" where
  "preview_of r =
     (let field = (case (cr_kind r, cr_file r) of (Kd_File, Some f) \<Rightarrow> fm_name f | _ \<Rightarrow> cr_body r);
          cs = str_chars field
      in if PREVIEW_CHARS < length cs then concat (take PREVIEW_CHARS cs) else field)"

text \<open>Rows collected into a map by id; a later row replaces an earlier one.\<close>

definition resolve_replies :: "chat_record list \<Rightarrow> reply_context list" where
  "resolve_replies rows =
     (let by_id = map_of (rev (map (\<lambda>r. (cr_id r, r)) rows))
      in map (\<lambda>r. case cr_in_reply_to r of
            None \<Rightarrow> NotAReply
          | Some pid \<Rightarrow> (case by_id pid of
              Some p \<Rightarrow> Quoting \<lparr>rq_id = cr_id p, rq_direction = cr_direction p, rq_kind = cr_kind p, rq_preview = preview_of p\<rparr>
            | None \<Rightarrow> Orphaned pid)) rows)"

section \<open>The permission to send\<close>

definition may_exchange_chat :: "fs_trust \<Rightarrow> device_id \<Rightarrow> int \<Rightarrow> int \<Rightarrow> bool" where
  "may_exchange_chat trust peer now1 now2 =
     (if is_approved trust peer now1 then may trust peer Chat now2 else True)"

end
