(* ===== verification/PB_Chat_Store.thy ===== *)
theory PB_Chat_Store
  imports PB_Chat
begin

text \<open>
  The conversation store (\<open>peerbeam-chat/src/store.rs\<close>, with \<open>prune_conversation\<close> and
  \<open>prune_all_conversations\<close> of \<open>retention.rs\<close>) over the \<open>AppStore\<close> port: one namespace per peer
  for the conversation, one for landings that arrive before their row, one shared outbox and one
  for the windows.

  An operation takes the store and returns it with its result. Reading a conversation may write:
  a landing parked for a row is applied when the row is read.
\<close>

section \<open>Namespaces\<close>

definition chat_namespace :: "device_id \<Rightarrow> string" where
  "chat_namespace peer = ''chat-'' @ peer"

definition OUTBOX_NS :: string where "OUTBOX_NS = ''chat.outbox''"

definition RETENTION_NS :: string where "RETENTION_NS = ''chat.retention''"

definition landing_ns :: "device_id \<Rightarrow> string" where
  "landing_ns peer = ''chat.landing-'' @ peer"

definition cerr :: "domain_error \<Rightarrow> chat_error" where
  "cerr e = CeSerialization (domain_error_show e)"

definition store_put :: "'s app_port \<Rightarrow> string \<Rightarrow> string \<Rightarrow> bytes \<Rightarrow> 's \<Rightarrow> (chat_error, unit) result \<times> 's" where
  "store_put A ns k v s = (case ap_put A ns k v s of (r, t) \<Rightarrow> (map_sum cerr (\<lambda>_. ()) r, t))"

definition store_get :: "'s app_port \<Rightarrow> string \<Rightarrow> string \<Rightarrow> 's \<Rightarrow> (chat_error, bytes option) result" where
  "store_get A ns k s = map_sum cerr (\<lambda>v. v) (ap_get A ns k s)"

definition store_list :: "'s app_port \<Rightarrow> string \<Rightarrow> 's \<Rightarrow> (chat_error, (string \<times> bytes) list) result" where
  "store_list A ns s = map_sum cerr (\<lambda>v. v) (ap_list A ns s)"

definition store_delete :: "'s app_port \<Rightarrow> string \<Rightarrow> string \<Rightarrow> 's \<Rightarrow> (chat_error, bool) result \<times> 's" where
  "store_delete A ns k s = (case ap_delete A ns k s of (r, t) \<Rightarrow> (map_sum cerr (\<lambda>b. b) r, t))"

section \<open>Records and landings\<close>

definition chat_write :: "chat_env \<Rightarrow> 's app_port \<Rightarrow> chat_record \<Rightarrow> 's \<Rightarrow> (chat_error, unit) result \<times> 's" where
  "chat_write E A r s = store_put A (''chat-'' @ cr_peer_id r) (cr_id r) (record_encode E r) s"

definition drop_pending_landing :: "'s app_port \<Rightarrow> device_id \<Rightarrow> string \<Rightarrow> 's \<Rightarrow> 's" where
  "drop_pending_landing A peer i s = snd (ap_delete A (landing_ns peer) i s)"

definition park_pending_landing :: "chat_env \<Rightarrow> 's app_port \<Rightarrow> device_id \<Rightarrow> string \<Rightarrow> string \<Rightarrow> u64 \<Rightarrow> 's
    \<Rightarrow> (chat_error, unit) result \<times> 's" where
  "park_pending_landing E A peer i name len s =
     (case cd_enc (ce_landing E) (name, len) of
        Inl e \<Rightarrow> (Inl (CeSerialization e), s)
      | Inr blob \<Rightarrow> store_put A (landing_ns peer) i blob s)"

definition take_pending_landing :: "chat_env \<Rightarrow> 's app_port \<Rightarrow> device_id \<Rightarrow> string \<Rightarrow> 's
    \<Rightarrow> (chat_error, (string \<times> u64) option) result \<times> 's" where
  "take_pending_landing E A peer i s =
     (case store_get A (landing_ns peer) i s of
        Inl e \<Rightarrow> (Inl e, s)
      | Inr None \<Rightarrow> (Inr None, s)
      | Inr (Some blob) \<Rightarrow>
          (Inr (case cd_dec (ce_landing E) blob of Inl _ \<Rightarrow> None | Inr l \<Rightarrow> Some l),
           snd (ap_delete A (landing_ns peer) i s)))"

definition landed :: "string \<times> u64 \<Rightarrow> chat_record \<Rightarrow> chat_record" where
  "landed l r = r\<lparr>cr_file := map_option (\<lambda>f. f\<lparr>fm_name := display_name (fst l), fm_size := snd l\<rparr>) (cr_file r)\<rparr>"

definition chat_append :: "chat_env \<Rightarrow> 's app_port \<Rightarrow> chat_record \<Rightarrow> 's \<Rightarrow> (chat_error, unit) result \<times> 's" where
  "chat_append E A r s =
     (if is_settleable_file_row In r then
        (case take_pending_landing E A (cr_peer_id r) (cr_id r) s of
           (Inl e, s) \<Rightarrow> (Inl e, s)
         | (Inr None, s) \<Rightarrow> chat_write E A r s
         | (Inr (Some l), s) \<Rightarrow> chat_write E A (landed l r) s)
      else chat_write E A r s)"

definition with_landing :: "chat_env \<Rightarrow> 's app_port \<Rightarrow> chat_record \<Rightarrow> 's \<Rightarrow> chat_record \<times> 's" where
  "with_landing E A r s =
     (if \<not> is_settleable_file_row In r then (r, s)
      else case take_pending_landing E A (cr_peer_id r) (cr_id r) s of
        (Inr (Some l), s) \<Rightarrow>
          if cr_file r = None then (r, s)
          else (landed l r, snd (chat_write E A (landed l r) s))
      | (_, s) \<Rightarrow> (r, s))"

section \<open>Conversations\<close>

definition peer_namespaces :: "'s app_port \<Rightarrow> 's \<Rightarrow> (chat_error, device_id list) result" where
  "peer_namespaces A s =
     (case ap_namespaces A ''chat-'' s of
        Inl e \<Rightarrow> Inl (cerr e)
      | Inr names \<Rightarrow> Inr (List.map_filter (\<lambda>n. if take 5 n = ''chat-'' then Some (drop 5 n) else None) names))"

definition holds_private_record :: "chat_env \<Rightarrow> 's app_port \<Rightarrow> string \<Rightarrow> 's \<Rightarrow> bool" where
  "holds_private_record E A ns s =
     (case ap_list A ns s of
        Inl _ \<Rightarrow> True
      | Inr rows \<Rightarrow> list_ex (\<lambda>(_, v). case record_decode E v of Inl _ \<Rightarrow> True | Inr r \<Rightarrow> cr_group r = None) rows)"

definition conversations :: "chat_env \<Rightarrow> 's app_port \<Rightarrow> 's \<Rightarrow> (chat_error, device_id list) result" where
  "conversations E A s =
     (case peer_namespaces A s of
        Inl e \<Rightarrow> Inl e
      | Inr peers \<Rightarrow> Inr (filter (\<lambda>p. holds_private_record E A (chat_namespace p) s) peers))"

definition chat_retention :: "chat_env \<Rightarrow> 's app_port \<Rightarrow> device_id \<Rightarrow> 's \<Rightarrow> (chat_error, retention) result" where
  "chat_retention E A peer s =
     (case store_get A RETENTION_NS peer s of
        Inl e \<Rightarrow> Inl e
      | Inr (Some b) \<Rightarrow> retention_decode E b
      | Inr None \<Rightarrow> Inr RETENTION_OFF)"

definition set_retention :: "chat_env \<Rightarrow> 's app_port \<Rightarrow> device_id \<Rightarrow> retention \<Rightarrow> 's \<Rightarrow> (chat_error, unit) result \<times> 's" where
  "set_retention E A peer ret s =
     (if retention_is_off ret then
        (case store_delete A RETENTION_NS peer s of (r, t) \<Rightarrow> (map_sum (\<lambda>e. e) (\<lambda>_. ()) r, t))
      else case retention_encode E ret of
        Inl e \<Rightarrow> (Inl e, s)
      | Inr b \<Rightarrow> store_put A RETENTION_NS peer b s)"

fun records_loop :: "chat_env \<Rightarrow> 's app_port \<Rightarrow> retention \<Rightarrow> int \<Rightarrow> bool \<Rightarrow> (string \<times> bytes) list \<Rightarrow> 's \<Rightarrow> chat_record list \<times> 's" where
  "records_loop E A ret now include_groups [] s = ([], s)"
| "records_loop E A ret now include_groups ((key, value) # raw) s =
     (case record_decode E value of
        Inl _ \<Rightarrow> records_loop E A ret now include_groups raw s
      | Inr r \<Rightarrow>
          if has_disappeared E r ret now then records_loop E A ret now include_groups raw s
          else if cr_group r \<noteq> None \<and> \<not> include_groups then records_loop E A ret now include_groups raw s
          else (case with_landing E A r s of (r', s') \<Rightarrow>
                 case records_loop E A ret now include_groups raw s' of (out, s'') \<Rightarrow> (r' # out, s'')))"

definition chat_records :: "chat_env \<Rightarrow> 's app_port \<Rightarrow> int \<Rightarrow> device_id \<Rightarrow> bool \<Rightarrow> 's \<Rightarrow> (chat_error, chat_record list) result \<times> 's" where
  "chat_records E A now peer include_groups s =
     (case store_list A (chat_namespace peer) s of
        Inl e \<Rightarrow> (Inl e, s)
      | Inr raw \<Rightarrow> (case chat_retention E A peer s of
          Inl e \<Rightarrow> (Inl e, s)
        | Inr ret \<Rightarrow> (case records_loop E A ret now include_groups raw s of (out, t) \<Rightarrow> (Inr out, t))))"

definition chat_history :: "chat_env \<Rightarrow> 's app_port \<Rightarrow> int \<Rightarrow> device_id \<Rightarrow> 's \<Rightarrow> (chat_error, chat_record list) result \<times> 's" where
  "chat_history E A now peer s = chat_records E A now peer False s"

text \<open>The rows of one member's namespace that belong to the group and were not seen before.\<close>

fun group_rows :: "chat_env \<Rightarrow> 's app_port \<Rightarrow> string \<Rightarrow> retention \<Rightarrow> int \<Rightarrow> (string \<times> bytes) list
    \<Rightarrow> string set \<Rightarrow> chat_record list \<Rightarrow> 's \<Rightarrow> string set \<times> chat_record list \<times> 's" where
  "group_rows E A grp ret now [] seen out s = (seen, out, s)"
| "group_rows E A grp ret now ((key, value) # raw) seen out s =
     (case record_decode E value of
        Inl _ \<Rightarrow> group_rows E A grp ret now raw seen out s
      | Inr r \<Rightarrow>
          if cr_group r \<noteq> Some grp then group_rows E A grp ret now raw seen out s
          else if has_disappeared E r ret now then group_rows E A grp ret now raw seen out s
          else if cr_id r \<in> seen then group_rows E A grp ret now raw seen out s
          else (case with_landing E A r s of (r', s') \<Rightarrow>
                 group_rows E A grp ret now raw (insert (cr_id r) seen) (out @ [r']) s'))"

fun group_members :: "chat_env \<Rightarrow> 's app_port \<Rightarrow> string \<Rightarrow> int \<Rightarrow> device_id list
    \<Rightarrow> string set \<Rightarrow> chat_record list \<Rightarrow> 's \<Rightarrow> (chat_error, chat_record list) result \<times> 's" where
  "group_members E A grp now [] seen out s = (Inr out, s)"
| "group_members E A grp now (peer # peers) seen out s =
     (case chat_retention E A peer s of
        Inl e \<Rightarrow> (Inl e, s)
      | Inr ret \<Rightarrow> (case store_list A (chat_namespace peer) s of
          Inl e \<Rightarrow> (Inl e, s)
        | Inr raw \<Rightarrow> (case group_rows E A grp ret now raw seen out s of (seen', out', s') \<Rightarrow>
            group_members E A grp now peers seen' out' s')))"

definition group_history :: "chat_env \<Rightarrow> 's app_port \<Rightarrow> int \<Rightarrow> string \<Rightarrow> 's \<Rightarrow> (chat_error, chat_record list) result \<times> 's" where
  "group_history E A now grp s =
     (case peer_namespaces A s of
        Inl e \<Rightarrow> (Inl e, s)
      | Inr peers \<Rightarrow> (case group_members E A grp now peers {} [] s of
          (Inl e, t) \<Rightarrow> (Inl e, t)
        | (Inr out, t) \<Rightarrow> (Inr (sort_key (\<lambda>r. (age_basis E r, cr_id r)) out), t)))"

definition chat_contains :: "'s app_port \<Rightarrow> device_id \<Rightarrow> string \<Rightarrow> 's \<Rightarrow> (chat_error, bool) result" where
  "chat_contains A peer i s = map_sum (\<lambda>e. e) (\<lambda>v. v \<noteq> None) (store_get A (chat_namespace peer) i s)"

definition chat_get :: "chat_env \<Rightarrow> 's app_port \<Rightarrow> int \<Rightarrow> device_id \<Rightarrow> string \<Rightarrow> 's
    \<Rightarrow> (chat_error, chat_record option) result \<times> 's" where
  "chat_get E A now peer i s =
     (case store_get A (chat_namespace peer) i s of
        Inl e \<Rightarrow> (Inl e, s)
      | Inr None \<Rightarrow> (Inr None, s)
      | Inr (Some b) \<Rightarrow> (case record_decode E b of
          Inl e \<Rightarrow> (Inl e, s)
        | Inr r \<Rightarrow> (case chat_retention E A peer s of
            Inl e \<Rightarrow> (Inl e, s)
          | Inr ret \<Rightarrow>
              if has_disappeared E r ret now then (Inr None, s)
              else (case with_landing E A r s of (r', t) \<Rightarrow> (Inr (Some r'), t)))))"

section \<open>The outbox\<close>

definition enqueue :: "chat_env \<Rightarrow> 's app_port \<Rightarrow> int \<Rightarrow> device_id \<Rightarrow> chat_message \<Rightarrow> 's \<Rightarrow> (chat_error, unit) result \<times> 's" where
  "enqueue E A now peer msg s =
     (case chat_append E A (record_out now peer msg St_Pending) s of
        (Inl e, s) \<Rightarrow> (Inl e, s)
      | (Inr _, s) \<Rightarrow>
          store_put A OUTBOX_NS (cm_id msg) (entry_encode E
            \<lparr>oe_peer_id = peer, oe_message_id = cm_id msg, oe_body = cm_body msg, oe_timestamp = cm_timestamp msg,
             oe_kind = Kd_Text, oe_file = None, oe_offers_refused = 0, oe_in_reply_to = cm_in_reply_to msg,
             oe_group = cm_group msg\<rparr>) s)"

definition enqueue_file :: "chat_env \<Rightarrow> 's app_port \<Rightarrow> int \<Rightarrow> device_id \<Rightarrow> file_ref \<Rightarrow> staged_file \<Rightarrow> 's
    \<Rightarrow> (chat_error, bool) result \<times> 's" where
  "enqueue_file E A now peer r staged s =
     (case chat_get E A now peer (fr_id r) s of
        (Inl e, s) \<Rightarrow> (Inl e, s)
      | (Inr None, s) \<Rightarrow> (Inr False, s)
      | (Inr (Some rec), s) \<Rightarrow>
          (case store_put A OUTBOX_NS (fr_id r) (entry_encode E
              \<lparr>oe_peer_id = peer, oe_message_id = fr_id r, oe_body = [], oe_timestamp = fr_timestamp r,
               oe_kind = Kd_File, oe_file = Some staged, oe_offers_refused = 0, oe_in_reply_to = None, oe_group = None\<rparr>) s of
             (Inl e, s) \<Rightarrow> (Inl e, s)
           | (Inr _, s) \<Rightarrow>
               (case chat_append E A (rec\<lparr>cr_status := St_Pending,
                   cr_file := map_option (\<lambda>f. f\<lparr>fm_name := display_name (sg_name staged), fm_size := sg_size staged\<rparr>) (cr_file rec)\<rparr>) s of
                  (Inl e, s) \<Rightarrow> (Inl e, s)
                | (Inr _, s) \<Rightarrow> (Inr True, s))))"

definition enqueue_decline :: "chat_env \<Rightarrow> 's app_port \<Rightarrow> device_id \<Rightarrow> file_decline \<Rightarrow> 's \<Rightarrow> (chat_error, bool) result \<times> 's" where
  "enqueue_decline E A peer d s =
     (case store_get A OUTBOX_NS (fd_id d) s of
        Inl e \<Rightarrow> (Inl e, s)
      | Inr (Some _) \<Rightarrow> (Inr False, s)
      | Inr None \<Rightarrow>
          (case store_put A OUTBOX_NS (fd_id d) (entry_encode E
              \<lparr>oe_peer_id = peer, oe_message_id = fd_id d, oe_body = [], oe_timestamp = fd_timestamp d,
               oe_kind = Kd_Decline, oe_file = None, oe_offers_refused = 0, oe_in_reply_to = None, oe_group = None\<rparr>) s of
             (Inl e, s) \<Rightarrow> (Inl e, s)
           | (Inr _, s) \<Rightarrow> (Inr True, s)))"

definition outbox_bump_refused :: "chat_env \<Rightarrow> 's app_port \<Rightarrow> string \<Rightarrow> 's \<Rightarrow> (chat_error, u32) result \<times> 's" where
  "outbox_bump_refused E A i s =
     (case store_get A OUTBOX_NS i s of
        Inl e \<Rightarrow> (Inl e, s)
      | Inr None \<Rightarrow> (Inr 0, s)
      | Inr (Some b) \<Rightarrow> (case entry_decode E b of
          Inl e \<Rightarrow> (Inl e, s)
        | Inr entry \<Rightarrow>
            (let now = saturating_add (oe_offers_refused entry) 1
             in case store_put A OUTBOX_NS i (entry_encode E (entry\<lparr>oe_offers_refused := now\<rparr>)) s of
                  (Inl e, s) \<Rightarrow> (Inl e, s)
                | (Inr _, s) \<Rightarrow> (Inr now, s))))"

definition reopen_for_retry :: "chat_env \<Rightarrow> 's app_port \<Rightarrow> int \<Rightarrow> device_id \<Rightarrow> string \<Rightarrow> 's \<Rightarrow> (chat_error, bool) result \<times> 's" where
  "reopen_for_retry E A now peer i s =
     (case chat_get E A now peer i s of
        (Inl e, s) \<Rightarrow> (Inl e, s)
      | (Inr None, s) \<Rightarrow> (Inr False, s)
      | (Inr (Some rec), s) \<Rightarrow>
          if cr_kind rec \<noteq> Kd_File \<or> cr_direction rec \<noteq> Out then (Inr False, s)
          else if cr_status rec \<notin> {St_Pending, St_Failed, St_Staging, St_Interrupted} then (Inr False, s)
          else (case chat_append E A (rec\<lparr>cr_status := St_Transferring\<rparr>) s of
                  (Inl e, s) \<Rightarrow> (Inl e, s)
                | (Inr _, s) \<Rightarrow> (Inr True, s)))"

text \<open>Each peer's window is read once; \<open>windows\<close> remembers it.\<close>

fun pending_loop :: "chat_env \<Rightarrow> 's app_port \<Rightarrow> int \<Rightarrow> (device_id \<rightharpoonup> retention) \<Rightarrow> (string \<times> bytes) list \<Rightarrow> 's
    \<Rightarrow> (chat_error, outbox_entry list) result" where
  "pending_loop E A now windows [] s = Inr []"
| "pending_loop E A now windows ((key, value) # raw) s =
     (case entry_decode E value of
        Inl _ \<Rightarrow> pending_loop E A now windows raw s
      | Inr entry \<Rightarrow>
          rbind (case windows (oe_peer_id entry) of Some r \<Rightarrow> Inr r | None \<Rightarrow> chat_retention E A (oe_peer_id entry) s) (\<lambda>ret.
            let windows' = windows(oe_peer_id entry \<mapsto> ret)
            in if oe_kind entry \<noteq> Kd_Decline \<and> entry_disappeared E entry ret now then pending_loop E A now windows' raw s
               else rbind (pending_loop E A now windows' raw s) (\<lambda>out. Inr (entry # out))))"

definition outbox_pending :: "chat_env \<Rightarrow> 's app_port \<Rightarrow> int \<Rightarrow> 's \<Rightarrow> (chat_error, outbox_entry list) result" where
  "outbox_pending E A now s = rbind (store_list A OUTBOX_NS s) (\<lambda>raw. pending_loop E A now Map.empty raw s)"

definition outbox_for :: "chat_env \<Rightarrow> 's app_port \<Rightarrow> int \<Rightarrow> device_id \<Rightarrow> 's \<Rightarrow> (chat_error, outbox_entry list) result" where
  "outbox_for E A now peer s = rbind (outbox_pending E A now s) (\<lambda>es. Inr (filter (\<lambda>e. oe_peer_id e = peer) es))"

definition outbox_peers :: "chat_env \<Rightarrow> 's app_port \<Rightarrow> int \<Rightarrow> 's \<Rightarrow> (chat_error, device_id list) result" where
  "outbox_peers E A now s = rbind (outbox_pending E A now s) (\<lambda>es. Inr (sort (remdups (map oe_peer_id es))))"

fun owned_loop :: "chat_env \<Rightarrow> (string \<times> bytes) list \<Rightarrow> string set \<Rightarrow> (chat_error, string set) result" where
  "owned_loop E [] owned = Inr owned"
| "owned_loop E ((key, value) # raw) owned =
     (case entry_decode E value of
        Inl e \<Rightarrow> Inl (CeSerialization (''outbox entry '' @ key @
          '' is unreadable, so the set of staged files still owned cannot be established: '' @ chat_error_show e))
      | Inr entry \<Rightarrow> owned_loop E raw (case oe_file entry of Some f \<Rightarrow> insert (sg_path f) owned | None \<Rightarrow> owned))"

definition outbox_owned_blobs :: "chat_env \<Rightarrow> 's app_port \<Rightarrow> 's \<Rightarrow> (chat_error, string set) result" where
  "outbox_owned_blobs E A s = rbind (store_list A OUTBOX_NS s) (\<lambda>raw. owned_loop E raw {})"

definition outbox_remove :: "'s app_port \<Rightarrow> string \<Rightarrow> 's \<Rightarrow> (chat_error, unit) result \<times> 's" where
  "outbox_remove A i s = (case store_delete A OUTBOX_NS i s of (r, t) \<Rightarrow> (map_sum (\<lambda>e. e) (\<lambda>_. ()) r, t))"

definition record_sent :: "chat_env \<Rightarrow> 's app_port \<Rightarrow> int \<Rightarrow> outbox_entry \<Rightarrow> 's \<Rightarrow> (chat_error, unit) result \<times> 's" where
  "record_sent E A now entry s =
     (case store_get A (chat_namespace (oe_peer_id entry)) (oe_message_id entry) s of
        Inl e \<Rightarrow> (Inl e, s)
      | Inr (Some b) \<Rightarrow> (case record_decode E b of
          Inl e \<Rightarrow> (Inl e, s)
        | Inr r \<Rightarrow> chat_append E A (r\<lparr>cr_status := St_Sent\<rparr>) s)
      | Inr None \<Rightarrow>
          if oe_kind entry = Kd_Decline then (Inr (), s)
          else
            (let (kind, f) = (case (oe_kind entry, oe_file entry) of
                 (Kd_File, Some staged) \<Rightarrow> (Kd_File, Some (file_meta_new (sg_name staged) (sg_size staged) None))
               | _ \<Rightarrow> (Kd_Text, None))
             in chat_append E A
               \<lparr>cr_id = oe_message_id entry, cr_peer_id = oe_peer_id entry, cr_direction = Out, cr_timestamp = oe_timestamp entry,
                cr_body = oe_body entry, cr_status = St_Sent, cr_kind = kind, cr_file = f, cr_read_at = None, cr_reactions = [],
                cr_in_reply_to = oe_in_reply_to entry, cr_group = oe_group entry, cr_stored_at = Some now\<rparr> s))"

section \<open>Changing a row\<close>

fun receipt_loop :: "chat_env \<Rightarrow> 's app_port \<Rightarrow> string \<Rightarrow> string \<Rightarrow> chat_record list \<Rightarrow> nat \<Rightarrow> 's \<Rightarrow> (chat_error, nat) result \<times> 's" where
  "receipt_loop E A read_through at [] changed s = (Inr changed, s)"
| "receipt_loop E A read_through at (r # rs) changed s =
     (if cr_direction r \<noteq> Out \<or> cr_read_at r \<noteq> None \<or> cr_id r > read_through then receipt_loop E A read_through at rs changed s
      else case chat_append E A (r\<lparr>cr_read_at := Some at\<rparr>) s of
        (Inl e, s) \<Rightarrow> (Inl e, s)
      | (Inr _, s) \<Rightarrow> receipt_loop E A read_through at rs (changed + 1) s)"

definition apply_receipt :: "chat_env \<Rightarrow> 's app_port \<Rightarrow> int \<Rightarrow> device_id \<Rightarrow> string \<Rightarrow> string \<Rightarrow> 's \<Rightarrow> (chat_error, nat) result \<times> 's" where
  "apply_receipt E A now peer read_through at s =
     (case chat_history E A now peer s of
        (Inl e, s) \<Rightarrow> (Inl e, s)
      | (Inr rs, s) \<Rightarrow> receipt_loop E A read_through at rs 0 s)"

definition reaction_index :: "string \<Rightarrow> chat_direction \<Rightarrow> stored_reaction list \<Rightarrow> nat option" where
  "reaction_index emoji by rs =
     (let k = length (takeWhile (\<lambda>r. \<not> (sr_emoji r = emoji \<and> sr_by r = by)) rs) in if k < length rs then Some k else None)"

definition apply_reaction :: "chat_env \<Rightarrow> 's app_port \<Rightarrow> int \<Rightarrow> string \<Rightarrow> device_id \<Rightarrow> string \<Rightarrow> string \<Rightarrow> chat_direction \<Rightarrow> bool \<Rightarrow> 's
    \<Rightarrow> (chat_error, bool) result \<times> 's" where
  "apply_reaction E A now stamp peer target emoji by remove s =
     (case chat_get E A now peer target s of
        (Inl e, s) \<Rightarrow> (Inl e, s)
      | (Inr None, s) \<Rightarrow> (Inr False, s)
      | (Inr (Some rec), s) \<Rightarrow>
          (let rs = cr_reactions rec;
               rs' = (case (reaction_index emoji by rs, remove) of
                   (Some i, True) \<Rightarrow> Some (take i rs @ drop (Suc i) rs)
                 | (None, False) \<Rightarrow> Some (rs @ [\<lparr>sr_emoji = emoji, sr_by = by, sr_timestamp = stamp\<rparr>])
                 | _ \<Rightarrow> None)
           in case rs' of
                None \<Rightarrow> (Inr False, s)
              | Some rs' \<Rightarrow> (case chat_append E A (rec\<lparr>cr_reactions := rs'\<rparr>) s of
                  (Inl e, s) \<Rightarrow> (Inl e, s)
                | (Inr _, s) \<Rightarrow> (Inr True, s))))"

definition set_status :: "chat_env \<Rightarrow> 's app_port \<Rightarrow> device_id \<Rightarrow> string \<Rightarrow> chat_status \<Rightarrow> 's \<Rightarrow> (chat_error, unit) result \<times> 's" where
  "set_status E A peer i status s =
     (case store_get A (chat_namespace peer) i s of
        Inl e \<Rightarrow> (Inl e, s)
      | Inr None \<Rightarrow> (Inr (), s)
      | Inr (Some b) \<Rightarrow> (case record_decode E b of
          Inl e \<Rightarrow> (Inl e, s)
        | Inr r \<Rightarrow> chat_append E A (r\<lparr>cr_status := status\<rparr>) s))"

definition set_file_path :: "chat_env \<Rightarrow> 's app_port \<Rightarrow> int \<Rightarrow> device_id \<Rightarrow> string \<Rightarrow> string \<Rightarrow> 's \<Rightarrow> (chat_error, unit) result \<times> 's" where
  "set_file_path E A now peer i path s =
     (case chat_get E A now peer i s of
        (Inl e, s) \<Rightarrow> (Inl e, s)
      | (Inr None, s) \<Rightarrow> (Inr (), s)
      | (Inr (Some rec), s) \<Rightarrow> (case cr_file rec of
          None \<Rightarrow> (Inr (), s)
        | Some f \<Rightarrow> chat_append E A (rec\<lparr>cr_file := Some (f\<lparr>fm_local_path := Some path\<rparr>)\<rparr>) s))"

definition settle_file_row :: "chat_env \<Rightarrow> 's app_port \<Rightarrow> int \<Rightarrow> device_id \<Rightarrow> string \<Rightarrow> chat_direction \<Rightarrow> chat_status \<Rightarrow> 's
    \<Rightarrow> (chat_error, bool) result \<times> 's" where
  "settle_file_row E A now peer i expected status s =
     (case chat_get E A now peer i s of
        (Inl e, s) \<Rightarrow> (Inl e, s)
      | (Inr None, s) \<Rightarrow> (Inr False, s)
      | (Inr (Some rec), s) \<Rightarrow>
          if \<not> is_settleable_file_row expected rec then (Inr False, s)
          else (case set_status E A peer i status s of
                  (Inl e, s) \<Rightarrow> (Inl e, s)
                | (Inr _, s) \<Rightarrow> (Inr True, s)))"

definition set_file_row_path :: "chat_env \<Rightarrow> 's app_port \<Rightarrow> int \<Rightarrow> int \<Rightarrow> device_id \<Rightarrow> string \<Rightarrow> chat_direction \<Rightarrow> string \<Rightarrow> 's
    \<Rightarrow> (chat_error, bool) result \<times> 's" where
  "set_file_row_path E A now1 now2 peer i expected path s =
     (case chat_get E A now1 peer i s of
        (Inl e, s) \<Rightarrow> (Inl e, s)
      | (Inr None, s) \<Rightarrow> (Inr False, s)
      | (Inr (Some rec), s) \<Rightarrow>
          if \<not> is_settleable_file_row expected rec then (Inr False, s)
          else (case set_file_path E A now2 peer i path s of
                  (Inl e, s) \<Rightarrow> (Inl e, s)
                | (Inr _, s) \<Rightarrow> (Inr True, s)))"

datatype landing = Applied | Parked | Declined

definition set_file_row_landing :: "chat_env \<Rightarrow> 's app_port \<Rightarrow> int \<Rightarrow> device_id \<Rightarrow> string \<Rightarrow> chat_direction \<Rightarrow> string \<Rightarrow> u64 \<Rightarrow> 's
    \<Rightarrow> (chat_error, landing) result \<times> 's" where
  "set_file_row_landing E A now peer i expected name len s =
     (if name = [] then (Inr Declined, s)
      else case chat_get E A now peer i s of
        (Inl e, s) \<Rightarrow> (Inl e, s)
      | (Inr None, s) \<Rightarrow> (case park_pending_landing E A peer i name len s of
          (Inl e, s) \<Rightarrow> (Inl e, s) | (Inr _, s) \<Rightarrow> (Inr Parked, s))
      | (Inr (Some rec), s) \<Rightarrow>
          if \<not> is_settleable_file_row expected rec then (Inr Declined, s)
          else if cr_file rec = None then (Inr Declined, s)
          else (case chat_append E A (landed (name, len) rec) s of
                  (Inl e, s) \<Rightarrow> (Inl e, s) | (Inr _, s) \<Rightarrow> (Inr Applied, s)))"

fun reconcile_loop :: "chat_env \<Rightarrow> 's app_port \<Rightarrow> device_id \<Rightarrow> chat_record list \<Rightarrow> nat \<Rightarrow> 's \<Rightarrow> (chat_error, nat) result \<times> 's" where
  "reconcile_loop E A peer [] changed s = (Inr changed, s)"
| "reconcile_loop E A peer (r # rs) changed s =
     (if cr_status r \<in> {St_Transferring, St_PendingApproval} then
        (case set_status E A peer (cr_id r) St_Interrupted s of
           (Inl e, s) \<Rightarrow> (Inl e, s)
         | (Inr _, s) \<Rightarrow> reconcile_loop E A peer rs (changed + 1) s)
      else reconcile_loop E A peer rs changed s)"

definition reconcile_peer :: "chat_env \<Rightarrow> 's app_port \<Rightarrow> int \<Rightarrow> device_id \<Rightarrow> 's \<Rightarrow> (chat_error, nat) result \<times> 's" where
  "reconcile_peer E A now peer s =
     (case chat_history E A now peer s of
        (Inl e, s) \<Rightarrow> (Inl e, s)
      | (Inr rs, s) \<Rightarrow> reconcile_loop E A peer rs 0 s)"

definition record_count :: "'s app_port \<Rightarrow> device_id \<Rightarrow> 's \<Rightarrow> (chat_error, nat) result" where
  "record_count A peer s = map_sum (\<lambda>e. e) length (store_list A (chat_namespace peer) s)"

section \<open>Deleting\<close>

fun keep_loop :: "chat_env \<Rightarrow> device_id \<Rightarrow> (string \<times> bytes) list \<Rightarrow> string set \<Rightarrow> (chat_error, string set) result" where
  "keep_loop E peer [] queued = Inr queued"
| "keep_loop E peer ((key, value) # raw) queued =
     (case entry_decode E value of
        Inl e \<Rightarrow> Inl (CeQueueUnreadable (''outbox entry '' @ key @
          '' is unreadable, so the records still backing queued messages cannot be established: '' @ chat_error_show e))
      | Inr entry \<Rightarrow> keep_loop E peer raw
          (if oe_peer_id entry = peer \<and> oe_kind entry \<noteq> Kd_Decline then insert (oe_message_id entry) queued else queued))"

definition keep_establish :: "chat_env \<Rightarrow> 's app_port \<Rightarrow> device_id \<Rightarrow> 's \<Rightarrow> (chat_error, string set) result" where
  "keep_establish E A peer s = rbind (store_list A OUTBOX_NS s) (\<lambda>raw. keep_loop E peer raw {})"

definition keeps_row :: "chat_env \<Rightarrow> string set \<Rightarrow> string \<Rightarrow> bytes \<Rightarrow> bool" where
  "keeps_row E queued key value =
     (key \<in> queued \<or> (case record_decode E value of Inr r \<Rightarrow> cr_status r = St_Staging | Inl _ \<Rightarrow> False))"

fun delete_rows :: "chat_env \<Rightarrow> 's app_port \<Rightarrow> string \<Rightarrow> string set \<Rightarrow> (string \<times> bytes) list \<Rightarrow> nat \<Rightarrow> 's
    \<Rightarrow> (chat_error, nat) result \<times> 's" where
  "delete_rows E A ns queued [] removed s = (Inr removed, s)"
| "delete_rows E A ns queued ((key, value) # rows) removed s =
     (if keeps_row E queued key value then delete_rows E A ns queued rows removed s
      else case store_delete A ns key s of
        (Inl e, s) \<Rightarrow> (Inl e, s)
      | (Inr gone, s) \<Rightarrow> delete_rows E A ns queued rows (if gone then removed + 1 else removed) s)"

definition delete_conversation :: "chat_env \<Rightarrow> 's app_port \<Rightarrow> device_id \<Rightarrow> 's \<Rightarrow> (chat_error, nat) result \<times> 's" where
  "delete_conversation E A peer s =
     (case keep_establish E A peer s of
        Inl e \<Rightarrow> (Inl e, s)
      | Inr queued \<Rightarrow> (case store_list A (chat_namespace peer) s of
          Inl e \<Rightarrow> (Inl e, s)
        | Inr rows \<Rightarrow> delete_rows E A (chat_namespace peer) queued rows 0 s))"

fun delete_ids :: "chat_env \<Rightarrow> 's app_port \<Rightarrow> string \<Rightarrow> string set \<Rightarrow> string list \<Rightarrow> string set \<Rightarrow> nat \<Rightarrow> string list \<Rightarrow> 's
    \<Rightarrow> (chat_error, nat \<times> string list) result \<times> 's" where
  "delete_ids E A ns queued [] seen removed kept s = (Inr (removed, kept), s)"
| "delete_ids E A ns queued (i # ids) seen removed kept s =
     (if i \<in> seen then delete_ids E A ns queued ids seen removed kept s
      else let seen = insert i seen in
        case store_get A ns i s of
          Inl e \<Rightarrow> (Inl e, s)
        | Inr None \<Rightarrow> delete_ids E A ns queued ids seen removed kept s
        | Inr (Some value) \<Rightarrow>
            if keeps_row E queued i value then delete_ids E A ns queued ids seen removed (kept @ [i]) s
            else case store_delete A ns i s of
              (Inl e, s) \<Rightarrow> (Inl e, s)
            | (Inr gone, s) \<Rightarrow> delete_ids E A ns queued ids seen (if gone then removed + 1 else removed) kept s)"

definition delete_messages :: "chat_env \<Rightarrow> 's app_port \<Rightarrow> device_id \<Rightarrow> string list \<Rightarrow> 's
    \<Rightarrow> (chat_error, nat \<times> string list) result \<times> 's" where
  "delete_messages E A peer ids s =
     (case keep_establish E A peer s of
        Inl e \<Rightarrow> (Inl e, s)
      | Inr queued \<Rightarrow> delete_ids E A (chat_namespace peer) queued ids {} 0 [] s)"

section \<open>Pruning\<close>

record pruned =
  pr_records :: nat
  pr_queued :: nat
  pr_staged :: "string list"

definition pruned_none :: pruned where
  "pruned_none = \<lparr>pr_records = 0, pr_queued = 0, pr_staged = []\<rparr>"

definition pruned_absorb :: "pruned \<Rightarrow> pruned \<Rightarrow> pruned" where
  "pruned_absorb a b = \<lparr>pr_records = pr_records a + pr_records b, pr_queued = pr_queued a + pr_queued b,
     pr_staged = pr_staged a @ pr_staged b\<rparr>"

definition pruned_is_empty :: "pruned \<Rightarrow> bool" where
  "pruned_is_empty p = (pr_records p = 0 \<and> pr_queued p = 0 \<and> pr_staged p = [])"

fun prune_queue :: "chat_env \<Rightarrow> 's app_port \<Rightarrow> device_id \<Rightarrow> retention \<Rightarrow> int \<Rightarrow> (string \<times> bytes) list \<Rightarrow> pruned \<Rightarrow> 's
    \<Rightarrow> (chat_error, pruned) result \<times> 's" where
  "prune_queue E A peer ret now [] p s = (Inr p, s)"
| "prune_queue E A peer ret now ((key, value) # raw) p s =
     (case entry_decode E value of
        Inl _ \<Rightarrow> prune_queue E A peer ret now raw p s
      | Inr entry \<Rightarrow>
          if oe_peer_id entry \<noteq> peer \<or> oe_kind entry = Kd_Decline \<or> \<not> entry_disappeared E entry ret now then
            prune_queue E A peer ret now raw p s
          else (case store_delete A OUTBOX_NS key s of
              (Inl e, s) \<Rightarrow> (Inl e, s)
            | (Inr gone, s) \<Rightarrow> prune_queue E A peer ret now raw
                (if gone then p\<lparr>pr_queued := pr_queued p + 1,
                   pr_staged := pr_staged p @ (case oe_file entry of Some f \<Rightarrow> [sg_path f] | None \<Rightarrow> [])\<rparr> else p) s))"

fun prune_rows :: "chat_env \<Rightarrow> 's app_port \<Rightarrow> string \<Rightarrow> retention \<Rightarrow> int \<Rightarrow> (string \<times> bytes) list \<Rightarrow> pruned \<Rightarrow> 's
    \<Rightarrow> (chat_error, pruned) result \<times> 's" where
  "prune_rows E A ns ret now [] p s = (Inr p, s)"
| "prune_rows E A ns ret now ((key, value) # raw) p s =
     (case record_decode E value of
        Inl _ \<Rightarrow> prune_rows E A ns ret now raw p s
      | Inr r \<Rightarrow>
          if \<not> has_disappeared E r ret now then prune_rows E A ns ret now raw p s
          else (case store_delete A ns key s of
              (Inl e, s) \<Rightarrow> (Inl e, s)
            | (Inr gone, s) \<Rightarrow> prune_rows E A ns ret now raw (if gone then p\<lparr>pr_records := pr_records p + 1\<rparr> else p) s))"

definition chat_prune :: "chat_env \<Rightarrow> 's app_port \<Rightarrow> device_id \<Rightarrow> int \<Rightarrow> 's \<Rightarrow> (chat_error, pruned) result \<times> 's" where
  "chat_prune E A peer now s =
     (case chat_retention E A peer s of
        Inl e \<Rightarrow> (Inl e, s)
      | Inr ret \<Rightarrow>
          if retention_is_off ret then (Inr pruned_none, s)
          else (case store_list A OUTBOX_NS s of
              Inl e \<Rightarrow> (Inl e, s)
            | Inr raw \<Rightarrow> (case prune_queue E A peer ret now raw pruned_none s of
                (Inl e, s) \<Rightarrow> (Inl e, s)
              | (Inr p, s) \<Rightarrow> (case store_list A (chat_namespace peer) s of
                  Inl e \<Rightarrow> (Inl e, s)
                | Inr rows \<Rightarrow> prune_rows E A (chat_namespace peer) ret now rows p s))))"

definition prunable_peers :: "chat_env \<Rightarrow> 's app_port \<Rightarrow> 's \<Rightarrow> (chat_error, device_id list) result" where
  "prunable_peers E A s =
     rbind (conversations E A s) (\<lambda>cs. rbind (store_list A OUTBOX_NS s) (\<lambda>raw.
       Inr (sort (remdups (cs @ List.map_filter (\<lambda>(_, v). case entry_decode E v of Inr e \<Rightarrow> Some (oe_peer_id e) | Inl _ \<Rightarrow> None) raw)))))"

text \<open>
  The staged copies are files of the staging store: \<open>rm\<close> removes one and says whether it is gone.
  A copy that stays is only logged.
\<close>

definition prune_conversation :: "chat_env \<Rightarrow> 's app_port \<Rightarrow> (string \<Rightarrow> 'f \<Rightarrow> bool \<times> 'f) \<Rightarrow> device_id \<Rightarrow> int \<Rightarrow> 's \<times> 'f
    \<Rightarrow> (chat_error, pruned) result \<times> 's \<times> 'f" where
  "prune_conversation E A rm peer now sf =
     (case chat_prune E A peer now (fst sf) of
        (Inl e, s) \<Rightarrow> (Inl e, s, snd sf)
      | (Inr p, s) \<Rightarrow> (Inr p, s, fold (\<lambda>path f. snd (rm path f)) (pr_staged p) (snd sf)))"

fun prune_all_loop :: "chat_env \<Rightarrow> 's app_port \<Rightarrow> (string \<Rightarrow> 'f \<Rightarrow> bool \<times> 'f) \<Rightarrow> int \<Rightarrow> device_id list \<Rightarrow> pruned \<Rightarrow> 's \<times> 'f
    \<Rightarrow> (chat_error, pruned) result \<times> 's \<times> 'f" where
  "prune_all_loop E A rm now [] acc sf = (Inr acc, sf)"
| "prune_all_loop E A rm now (peer # peers) acc sf =
     (case prune_conversation E A rm peer now sf of
        (Inl e, sf) \<Rightarrow> (Inl e, sf)
      | (Inr p, sf) \<Rightarrow> prune_all_loop E A rm now peers (pruned_absorb acc p) sf)"

definition prune_all_conversations :: "chat_env \<Rightarrow> 's app_port \<Rightarrow> (string \<Rightarrow> 'f \<Rightarrow> bool \<times> 'f) \<Rightarrow> int \<Rightarrow> 's \<times> 'f
    \<Rightarrow> (chat_error, pruned) result \<times> 's \<times> 'f" where
  "prune_all_conversations E A rm now sf =
     (case prunable_peers E A (fst sf) of
        Inl e \<Rightarrow> (Inl e, sf)
      | Inr peers \<Rightarrow> prune_all_loop E A rm now peers pruned_none sf)"

end
