(* ===== verification/PB_Chat_Session.thy ===== *)
theory PB_Chat_Session
  imports PB_Chat_Store
begin

text \<open>
  Chat over a session: the channel's message handler (\<open>peerbeam-chat/src/handler.rs\<close>), sending and
  flushing the outbox (\<open>send.rs\<close>), and the outbox's own copies of files (\<open>staging.rs\<close>).

  The session's answers are arguments: the lane (an open chat channel or why there is none) and
  whether the n-th frame is accepted. Frames handed to the session are collected in order.
\<close>

section \<open>The handler\<close>

datatype chat_event = Surfaced chat_record | Foreign device_id u16 bytes

definition chat_lift :: "(chat_error, 'a) result \<times> 's \<Rightarrow> (session_error, unit) result \<times> 's" where
  "chat_lift rs = (map_sum chat_session_error (\<lambda>_. ()) (fst rs), snd rs)"

definition handle_new :: "chat_env \<Rightarrow> 's app_port \<Rightarrow> device_id \<Rightarrow> chat_record \<Rightarrow> 's
    \<Rightarrow> (session_error, unit) result \<times> chat_event list \<times> 's" where
  "handle_new E A peer rec s =
     (case chat_contains A peer (cr_id rec) s of
        Inl e \<Rightarrow> (Inl (chat_session_error e), [], s)
      | Inr True \<Rightarrow> (Inr (), [], s)
      | Inr False \<Rightarrow> (case chat_append E A rec s of
          (Inl e, s) \<Rightarrow> (Inl (chat_session_error e), [], s)
        | (Inr _, s) \<Rightarrow> (Inr (), [Surfaced rec], s)))"

definition chat_handle :: "chat_env \<Rightarrow> 's app_port \<Rightarrow> (string \<Rightarrow> path) \<Rightarrow> bool \<Rightarrow> device_id option \<Rightarrow> int \<Rightarrow> string \<Rightarrow> session_frame \<Rightarrow> 's
    \<Rightarrow> (session_error, unit) result \<times> chat_event list \<times> 's" where
  "chat_handle E A comps foreign bound now stamp f s =
     (case bound of
        None \<Rightarrow> (Inl (FrameDecode ''chat peer not bound''), [], s)
      | Some peer \<Rightarrow>
          if sf_message_type f = MSG_TEXT then
            (case message_from_frame E f of
               Inl e \<Rightarrow> (Inl (chat_session_error e), [], s)
             | Inr msg \<Rightarrow> handle_new E A peer (record_received now peer msg) s)
          else if sf_message_type f = MSG_FILE_REF then
            (case file_ref_from_frame E comps f of
               Inl e \<Rightarrow> (Inl (chat_session_error e), [], s)
             | Inr r \<Rightarrow> handle_new E A peer (record_file_in now peer r) s)
          else if sf_message_type f = MSG_FILE_DECLINE then
            (case decline_from_frame E f of
               Inl e \<Rightarrow> (Inl (chat_session_error e), [], s)
             | Inr d \<Rightarrow> (case chat_lift (settle_file_row E A now peer (fd_id d) Out St_Declined s) of (r, t) \<Rightarrow> (r, [], t)))
          else if sf_message_type f = MSG_REACTION then
            (case reaction_from_frame E f of
               Inl e \<Rightarrow> (Inl (chat_session_error e), [], s)
             | Inr x \<Rightarrow> (case chat_lift (apply_reaction E A now stamp peer (rx_target_id x) (rx_emoji x) In (rx_remove x) s) of
                 (r, t) \<Rightarrow> (r, [], t)))
          else if sf_message_type f = MSG_RECEIPT then
            (case receipt_from_frame E f of
               Inl e \<Rightarrow> (Inl (chat_session_error e), [], s)
             | Inr x \<Rightarrow> (case chat_lift (apply_receipt E A now peer (rp_read_through x) (rp_timestamp x) s) of
                 (r, t) \<Rightarrow> (r, [], t)))
          else if is_optional (sf_flags f) then
            (Inr (), if foreign then [Foreign peer (sf_message_type f) (sf_payload f)] else [], s)
          else (Inl (FrameDecode (''unsupported chat message type '' @ show_nat (unat (sf_message_type f)) @ '' (required)'')), [], s))"

section \<open>Opening the lane\<close>

datatype poll_outcome = PollOpen | PollKeepWaiting | PollRejected

definition poll_decide :: "channel_state option \<Rightarrow> bool \<Rightarrow> poll_outcome" where
  "poll_decide found seen_before =
     (case found of
        Some st \<Rightarrow> if ch_is_open st then PollOpen
          else if ch_is_terminal st \<or> st = ChErrored then PollRejected else PollKeepWaiting
      | None \<Rightarrow> if seen_before then PollRejected else PollKeepWaiting)"

datatype send_error = SeChat chat_error | SeSession string

text \<open>
  One entry per poll: the channel's state in that snapshot, or that the session could not answer.
  The list ends where the budget does.
\<close>

fun wait_for_channel_open :: "(string, channel_state option) result list \<Rightarrow> bool \<Rightarrow> (send_error, unit) result" where
  "wait_for_channel_open [] seen = Inl (SeSession ''chat channel did not open in time'')"
| "wait_for_channel_open (p # ps) seen =
     (case p of
        Inl e \<Rightarrow> Inl (SeSession e)
      | Inr found \<Rightarrow> (case poll_decide found seen of
          PollOpen \<Rightarrow> Inr ()
        | PollRejected \<Rightarrow> Inl (SeSession ''chat channel rejected by peer'')
        | PollKeepWaiting \<Rightarrow> wait_for_channel_open ps (seen \<or> found \<noteq> None)))"

text \<open>The channels of the session with their type and state; what opening one answers.\<close>

definition chat_lane :: "(string, (channel_id \<times> channel_type \<times> channel_state) list) result \<Rightarrow> (string, channel_id) result
    \<Rightarrow> (string, channel_state option) result list \<Rightarrow> (send_error, channel_id) result" where
  "chat_lane channels opened polls =
     (case channels of
        Inl e \<Rightarrow> Inl (SeSession e)
      | Inr cs \<Rightarrow> (case find (\<lambda>(_, t, st). t = CT_CHAT \<and> ch_is_open st) cs of
          Some (c, _) \<Rightarrow> Inr c
        | None \<Rightarrow> (case opened of
            Inl e \<Rightarrow> Inl (SeSession e)
          | Inr c \<Rightarrow> rbind (wait_for_channel_open polls False) (\<lambda>_. Inr c))))"

section \<open>Sending\<close>

definition send_reply :: "chat_env \<Rightarrow> 's app_port \<Rightarrow> (send_error, channel_id) result \<Rightarrow> (string, unit) result \<Rightarrow> int \<Rightarrow> int \<Rightarrow> u64 \<Rightarrow> string
    \<Rightarrow> device_id \<Rightarrow> string \<Rightarrow> string option \<Rightarrow> u64 \<times> u64 \<Rightarrow> 's
    \<Rightarrow> (send_error, chat_record) result \<times> session_frame list \<times> (u64 \<times> u64) \<times> 's" where
  "send_reply E A lane accepted now now_ms sample stamp peer body in_reply_to ids s =
     (case message_replying now_ms sample stamp body in_reply_to ids of
        (Inl e, ids) \<Rightarrow> (Inl (SeChat e), [], ids, s)
      | (Inr msg, ids) \<Rightarrow> (case lane of
          Inl e \<Rightarrow> (Inl e, [], ids, s)
        | Inr ch \<Rightarrow> (case message_to_frame E ch msg of
            Inl e \<Rightarrow> (Inl (SeChat e), [], ids, s)
          | Inr f \<Rightarrow> (case accepted of
              Inl e \<Rightarrow> (Inl (SeSession e), [], ids, s)
            | Inr _ \<Rightarrow> (case chat_append E A (record_sent_of now peer msg) s of
                (Inl e, s) \<Rightarrow> (Inl (SeChat e), [f], ids, s)
              | (Inr _, s) \<Rightarrow> (Inr (record_sent_of now peer msg), [f], ids, s))))))"

definition entry_message :: "outbox_entry \<Rightarrow> chat_message" where
  "entry_message e = \<lparr>cm_id = oe_message_id e, cm_timestamp = oe_timestamp e, cm_body = oe_body e,
     cm_in_reply_to = oe_in_reply_to e, cm_group = oe_group e\<rparr>"

definition entry_decline :: "outbox_entry \<Rightarrow> file_decline" where
  "entry_decline e = \<lparr>fd_id = oe_message_id e, fd_timestamp = oe_timestamp e\<rparr>"

text \<open>The session's answer to the n-th frame is \<open>ok n\<close>; \<open>now n\<close> is the clock after it.\<close>

fun flush_loop :: "chat_env \<Rightarrow> 's app_port \<Rightarrow> channel_id \<Rightarrow> (nat \<Rightarrow> bool) \<Rightarrow> (nat \<Rightarrow> int) \<Rightarrow> nat \<Rightarrow> outbox_entry list \<Rightarrow> 's
    \<Rightarrow> (send_error, string list) result \<times> session_frame list \<times> 's" where
  "flush_loop E A ch ok now n [] s = (Inr [], [], s)"
| "flush_loop E A ch ok now n (entry # entries) s =
     (case oe_kind entry of
        Kd_Text \<Rightarrow>
          (case message_to_frame E ch (entry_message entry) of
             Inl _ \<Rightarrow> (Inr [], [], s)
           | Inr f \<Rightarrow>
               if \<not> ok n then (Inr [], [], s)
               else (case record_sent E A (now n) entry s of
                   (Inl e, s) \<Rightarrow> (Inl (SeChat e), [f], s)
                 | (Inr _, s) \<Rightarrow> (case outbox_remove A (oe_message_id entry) s of
                     (Inl e, s) \<Rightarrow> (Inl (SeChat e), [f], s)
                   | (Inr _, s) \<Rightarrow> (case flush_loop E A ch ok now (Suc n) entries s of (r, fs, s) \<Rightarrow>
                       (map_sum (\<lambda>e. e) (\<lambda>ids. oe_message_id entry # ids) r, f # fs, s)))))
      | Kd_Decline \<Rightarrow>
          (case decline_to_frame E ch (entry_decline entry) of
             Inl _ \<Rightarrow> (Inr [], [], s)
           | Inr f \<Rightarrow>
               if \<not> ok n then (Inr [], [], s)
               else (case outbox_remove A (oe_message_id entry) s of
                   (Inl e, s) \<Rightarrow> (Inl (SeChat e), [f], s)
                 | (Inr _, s) \<Rightarrow> (case flush_loop E A ch ok now (Suc n) entries s of (r, fs, s) \<Rightarrow> (r, f # fs, s))))
      | Kd_File \<Rightarrow> flush_loop E A ch ok now n entries s)"

definition flush_to_session :: "chat_env \<Rightarrow> 's app_port \<Rightarrow> (send_error, channel_id) result \<Rightarrow> (nat \<Rightarrow> bool) \<Rightarrow> int \<Rightarrow> (nat \<Rightarrow> int) \<Rightarrow> device_id \<Rightarrow> 's
    \<Rightarrow> (send_error, string list) result \<times> session_frame list \<times> 's" where
  "flush_to_session E A lane ok now0 now peer s =
     (case outbox_for E A now0 peer s of
        Inl e \<Rightarrow> (Inl (SeChat e), [], s)
      | Inr entries \<Rightarrow>
          if \<not> list_ex (\<lambda>e. oe_kind e = Kd_Text \<or> oe_kind e = Kd_Decline) entries then (Inr [], [], s)
          else (case lane of Inl e \<Rightarrow> (Inl e, [], s) | Inr ch \<Rightarrow> flush_loop E A ch ok now 0 entries s))"

text \<open>\<open>exists\<close> is \<open>Path::exists\<close>.\<close>

definition next_file_for :: "chat_env \<Rightarrow> 's app_port \<Rightarrow> (string \<Rightarrow> bool) \<Rightarrow> int \<Rightarrow> device_id \<Rightarrow> 's
    \<Rightarrow> (chat_error, (outbox_entry \<times> staged_file) option) result" where
  "next_file_for E A exists now peer s =
     rbind (outbox_for E A now peer s) (\<lambda>es.
       Inr (List.find (\<lambda>_. True) (List.map_filter (\<lambda>e.
         if oe_kind e \<noteq> Kd_File then None
         else case oe_file e of Some f \<Rightarrow> if exists (sg_path f) then Some (e, f) else None | None \<Rightarrow> None) es)))"

section \<open>Staging\<close>

text \<open>
  The blob directory: the name of a file and its content. Every path the outbox holds is a file of
  the root, so the file name of a path stands for it.
\<close>

record staging_store =
  ss_root :: string
  ss_blobs :: "(string, bytes) omap"

record staging_limits =
  sl_max_bytes :: u64
  sl_min_free_bytes :: u64

datatype staging_error = SgTooLarge u64 u64 | SgNotEnoughSpace u64 u64 u64 | SgCancelled | SgIo string

definition trim_slashes :: "string \<Rightarrow> string" where
  "trim_slashes s = rev (dropWhile (\<lambda>c. c = CHR ''/'') (rev s))"

definition blob_path :: "(string \<Rightarrow> path) \<Rightarrow> staging_store \<Rightarrow> string \<Rightarrow> (staging_error, string) result" where
  "blob_path comps st i =
     (if file_name_of comps i \<noteq> Some i \<or> CHR 0x5C \<in> set i then Inl (SgIo (''invalid staging id: '' @ i))
      else Inr (trim_slashes (ss_root st) @ ''/'' @ i))"

definition blob_drop :: "(string \<Rightarrow> path) \<Rightarrow> string \<Rightarrow> staging_store \<Rightarrow> staging_store" where
  "blob_drop comps p st = (case file_name_of comps p of
     Some n \<Rightarrow> st\<lparr>ss_blobs := om_remove n (ss_blobs st)\<rparr> | None \<Rightarrow> st)"

text \<open>Four attempts; the device's answer to each is an argument. A missing file counts as removed.\<close>

definition blob_remove :: "(string \<Rightarrow> path) \<Rightarrow> (nat \<Rightarrow> bool) \<Rightarrow> string \<Rightarrow> staging_store \<Rightarrow> bool \<times> staging_store" where
  "blob_remove comps rm p st =
     (case file_name_of comps p of
        None \<Rightarrow> (False, st)
      | Some n \<Rightarrow>
          if map_of (ss_blobs st) n = None then (True, st)
          else if \<exists>k < 4. rm k then (True, blob_drop comps p st) else (False, st))"

text \<open>
  The copy loop. An entry of \<open>reads\<close> is a round: whether the user has cancelled, and what the
  reader gives; the list ends with the source. Writing and flushing answer \<open>wr\<close>.
\<close>

fun stage_pump :: "u64 \<Rightarrow> (nat \<Rightarrow> (string, unit) result) \<Rightarrow> nat \<Rightarrow> (bool \<times> (string, bytes) result) list \<Rightarrow> u64 \<Rightarrow> bytes
    \<Rightarrow> (staging_error, u64) result \<times> bytes" where
  "stage_pump max_bytes wr n [] copied acc = (case wr n of Inl e \<Rightarrow> (Inl (SgIo e), acc) | Inr _ \<Rightarrow> (Inr copied, acc))"
| "stage_pump max_bytes wr n ((cancelled, rd) # reads) copied acc =
     (if cancelled then (Inl SgCancelled, acc)
      else case rd of
        Inl e \<Rightarrow> (Inl (SgIo e), acc)
      | Inr b \<Rightarrow>
          if b = [] then (case wr n of Inl e \<Rightarrow> (Inl (SgIo e), acc) | Inr _ \<Rightarrow> (Inr copied, acc))
          else (case wr n of
            Inl e \<Rightarrow> (Inl (SgIo e), acc)
          | Inr _ \<Rightarrow>
              (let copied = saturating_add copied (of_nat (length b))
               in if max_bytes < copied then (Inl (SgTooLarge copied max_bytes), acc @ b)
                  else stage_pump max_bytes wr (Suc n) reads copied (acc @ b))))"

record stage_world =
  sw_meta :: "(string, bool \<times> bool \<times> u64) result"
  sw_free :: "u64 option"
  sw_open_read :: "(string, unit) result"
  sw_open_write :: "(string, unit) result"
  sw_restrict :: "(string, unit) result"
  sw_write :: "nat \<Rightarrow> (string, unit) result"
  sw_close :: "(string, unit) result"
  sw_reads :: "(bool \<times> (string, bytes) result) list"
  sw_remove :: "nat \<Rightarrow> bool"

definition stage_copy :: "(string \<Rightarrow> path) \<Rightarrow> stage_world \<Rightarrow> string \<Rightarrow> u64 \<Rightarrow> staging_store \<Rightarrow> (staging_error, u64) result \<times> staging_store" where
  "stage_copy comps w dest max_bytes st =
     (case sw_open_read w of
        Inl e \<Rightarrow> (Inl (SgIo e), st)
      | Inr _ \<Rightarrow> (case sw_open_write w of
          Inl e \<Rightarrow> (Inl (SgIo e), st)
        | Inr _ \<Rightarrow>
            (let (pumped, content) = (case sw_restrict w of
                   Inl e \<Rightarrow> (Inl (SgIo (''restrict '' @ dest @ '': '' @ e)), [])
                 | Inr _ \<Rightarrow> stage_pump max_bytes (sw_write w) 0 (sw_reads w) 0 []);
                 st = (case file_name_of comps dest of Some n \<Rightarrow> st\<lparr>ss_blobs := om_insert n content (ss_blobs st)\<rparr> | None \<Rightarrow> st)
             in (case pumped of
                   Inl e \<Rightarrow> (Inl e, st)
                 | Inr copied \<Rightarrow> (case sw_close w of Inl e \<Rightarrow> (Inl (SgIo e), st) | Inr _ \<Rightarrow> (Inr copied, st))))))"

text \<open>The refusal of a folder, with its dash.\<close>

definition NO_FOLDERS :: string where
  "NO_FOLDERS = ''folders aren'' @ [CHR 0x27] @ ''t supported in chat yet '' @ [CHR 0xE2, CHR 0x80, CHR 0x94] @ '' use Send folder''"

definition stage_write :: "(string \<Rightarrow> path) \<Rightarrow> stage_world \<Rightarrow> staging_limits \<Rightarrow> string \<Rightarrow> string \<Rightarrow> staging_store
    \<Rightarrow> (staging_error, staged_file) result \<times> staging_store" where
  "stage_write comps w limits source dest st =
     (case file_name_of comps source of
        None \<Rightarrow> (Inl (SgIo (''no file name in '' @ source)), st)
      | Some name \<Rightarrow> (case stage_copy comps w dest (sl_max_bytes limits) st of
          (Inr copied, st) \<Rightarrow> (Inr \<lparr>sg_name = name, sg_size = copied, sg_path = dest\<rparr>, st)
        | (Inl e, st) \<Rightarrow> (Inl e, snd (blob_remove comps (sw_remove w) dest st))))"

definition stage :: "(string \<Rightarrow> path) \<Rightarrow> stage_world \<Rightarrow> staging_limits \<Rightarrow> string \<Rightarrow> string \<Rightarrow> staging_store
    \<Rightarrow> (staging_error, staged_file) result \<times> staging_store" where
  "stage comps w limits i source st =
     (case blob_path comps st i of
        Inl e \<Rightarrow> (Inl e, st)
      | Inr dest \<Rightarrow> (case sw_meta w of
          Inl e \<Rightarrow> (Inl (SgIo e), st)
        | Inr (is_file, is_dir, len) \<Rightarrow>
            if \<not> is_file then
              (Inl (SgIo (if is_dir then NO_FOLDERS
                          else source @ '' is not a regular file'')), st)
            else if sl_max_bytes limits < len then (Inl (SgTooLarge len (sl_max_bytes limits)), st)
            else case (if 0 < sl_min_free_bytes limits then sw_free w else None) of
                Some free \<Rightarrow> if (if len \<le> free then free - len else 0) < sl_min_free_bytes limits
                  then (Inl (SgNotEnoughSpace len free (sl_min_free_bytes limits)), st)
                  else stage_write comps w limits source dest st
              | None \<Rightarrow> stage_write comps w limits source dest st))"

text \<open>
  The sweep: \<open>readable\<close> says whether the directory could be listed, \<open>rm n\<close> whether the file named
  \<open>n\<close> could be removed.
\<close>

definition sweep :: "(string \<Rightarrow> path) \<Rightarrow> bool \<Rightarrow> (string \<Rightarrow> bool) \<Rightarrow> string set \<Rightarrow> staging_store \<Rightarrow> nat \<times> staging_store" where
  "sweep comps readable rm keep st =
     (if \<not> readable then (0, st)
      else let gone = filter (\<lambda>n. \<not> (\<exists>p \<in> keep. file_name_of comps p = Some n) \<and> rm n) (om_keys (ss_blobs st))
           in (length gone, st\<lparr>ss_blobs := filter (\<lambda>(n, _). n \<notin> set gone) (ss_blobs st)\<rparr>))"

section \<open>Attaching a file\<close>

text \<open>\<open>meta\<close> is what \<open>std::fs::metadata\<close> answers: whether it is a directory, and the length.\<close>

definition begin_file_send :: "chat_env \<Rightarrow> 's app_port \<Rightarrow> (string \<Rightarrow> path) \<Rightarrow> (string, bool \<times> u64) result \<Rightarrow> int \<Rightarrow> int \<Rightarrow> u64 \<Rightarrow> string
    \<Rightarrow> device_id \<Rightarrow> string \<Rightarrow> u64 \<times> u64 \<Rightarrow> 's \<Rightarrow> (send_error, file_ref) result \<times> (u64 \<times> u64) \<times> 's" where
  "begin_file_send E A comps meta now now_ms sample stamp peer path ids s =
     (case meta of
        Inl e \<Rightarrow> (Inl (SeSession (''cannot read '' @ path @ '': '' @ e)), ids, s)
      | Inr (is_dir, len) \<Rightarrow>
          if is_dir then (Inl (SeSession NO_FOLDERS), ids, s)
          else (case file_name_of comps path of
              None \<Rightarrow> (Inl (SeSession (''no file name in '' @ path)), ids, s)
            | Some name \<Rightarrow> (case file_ref_new comps now_ms sample stamp name len ids of
                (Inl e, ids) \<Rightarrow> (Inl (SeChat e), ids, s)
              | (Inr r, ids) \<Rightarrow>
                  (case chat_append E A (record_file_out now peer r (file_meta_new (fr_name r) (fr_size r) (Some path)) St_Staging) s of
                     (Inl e, s) \<Rightarrow> (Inl (SeChat e), ids, s)
                   | (Inr _, s) \<Rightarrow> (Inr r, ids, s)))))"

fun staging_error_show :: "staging_error \<Rightarrow> string" where
  "staging_error_show (SgTooLarge len mx) =
     show_nat (unat len) @ '' bytes is over the '' @ show_nat (unat mx) @ ''-byte limit for a chat attachment''"
| "staging_error_show (SgNotEnoughSpace need free floor) =
     ''staging '' @ show_nat (unat need) @ '' bytes would leave less than the '' @ show_nat (unat floor)
       @ '' bytes that must stay free (only '' @ show_nat (unat free) @ '' available)''"
| "staging_error_show SgCancelled = ''staging cancelled''"
| "staging_error_show (SgIo e) = ''staging failed: '' @ e"

definition stage_file_send :: "chat_env \<Rightarrow> 's app_port \<Rightarrow> (string \<Rightarrow> path) \<Rightarrow> stage_world \<Rightarrow> staging_limits \<Rightarrow> int \<Rightarrow> device_id \<Rightarrow> file_ref \<Rightarrow> string
    \<Rightarrow> 's \<times> staging_store \<Rightarrow> (send_error, staged_file option) result \<times> file_ref \<times> 's \<times> staging_store" where
  "stage_file_send E A comps w limits now peer r path ss =
     (case stage comps w limits (fr_id r) path (snd ss) of
        (Inl e, st) \<Rightarrow> (Inl (SeSession (staging_error_show e)), r, snd (set_status E A peer (fr_id r) St_Failed (fst ss)), st)
      | (Inr staged, st) \<Rightarrow>
          (let r = r\<lparr>fr_size := sg_size staged\<rparr>
           in case enqueue_file E A now peer r staged (fst ss) of
                (Inl e, s) \<Rightarrow> (Inl (SeChat e), r, s, st)
              | (Inr False, s) \<Rightarrow> (Inr None, r, s, snd (blob_remove comps (sw_remove w) (sg_path staged) st))
              | (Inr True, s) \<Rightarrow> (Inr (Some staged), r, s, st)))"

definition prepare_file_send :: "chat_env \<Rightarrow> 's app_port \<Rightarrow> (string \<Rightarrow> path) \<Rightarrow> stage_world \<Rightarrow> staging_limits \<Rightarrow> (string, bool \<times> u64) result
    \<Rightarrow> int \<Rightarrow> int \<Rightarrow> int \<Rightarrow> u64 \<Rightarrow> string \<Rightarrow> device_id \<Rightarrow> string \<Rightarrow> u64 \<times> u64 \<Rightarrow> 's \<times> staging_store
    \<Rightarrow> (send_error, (file_ref \<times> staged_file) option) result \<times> (u64 \<times> u64) \<times> 's \<times> staging_store" where
  "prepare_file_send E A comps w limits meta now1 now2 now_ms sample stamp peer path ids ss =
     (case begin_file_send E A comps meta now1 now_ms sample stamp peer path ids (fst ss) of
        (Inl e, ids, s) \<Rightarrow> (Inl e, ids, s, snd ss)
      | (Inr r, ids, s) \<Rightarrow> (case stage_file_send E A comps w limits now2 peer r path (s, snd ss) of
          (Inl e, r, ss) \<Rightarrow> (Inl e, ids, ss)
        | (Inr None, r, ss) \<Rightarrow> (Inr None, ids, ss)
        | (Inr (Some staged), r, ss) \<Rightarrow> (Inr (Some (r, staged)), ids, ss)))"

end
