(* ===== verification/PB_Chat_Codec.thy ===== *)
theory PB_Chat_Codec
  imports PB_Chat
begin

text \<open>
  A concrete coding of chat's data, for examples: a value is a list of byte strings, each written
  with the self-delimiting coding of \<open>PB_Prelude\<close>. It stands in for JSON where a property needs an
  instance of the codings it assumes.
\<close>

type_synonym 'a token_codec = "('a \<Rightarrow> bytes list) \<times> (bytes list \<Rightarrow> 'a \<times> bytes list)"

definition tc_ok :: "'a token_codec \<Rightarrow> bool" where
  "tc_ok c = (\<forall>x ts. snd c (fst c x @ ts) = (x, ts))"

lemma tc_okD [simp]: "tc_ok c \<Longrightarrow> snd c (fst c x @ ts) = (x, ts)"
  by (simp add: tc_ok_def)

definition tc_str :: "string token_codec" where
  "tc_str = (\<lambda>s. [str_bytes s], \<lambda>ts. (toy_str (hd ts), tl ts))"

definition tc_word :: "'a::len word token_codec" where
  "tc_word = (\<lambda>w. [replicate (unat w) 0], \<lambda>ts. (of_nat (length (hd ts)), tl ts))"

definition tc_int :: "int token_codec" where
  "tc_int = (\<lambda>i. [(if i < 0 then 1 else 0) # replicate (nat (abs i)) 0],
     \<lambda>ts. (let m = int (length (tl (hd ts))) in if hd (hd ts) = 1 then - m else m, tl ts))"

definition tc_enum :: "'a list \<Rightarrow> 'a token_codec" where
  "tc_enum xs = (\<lambda>x. [replicate (length (takeWhile (\<lambda>y. y \<noteq> x) xs)) 0], \<lambda>ts. (xs ! length (hd ts), tl ts))"

definition tc_pair :: "'a token_codec \<Rightarrow> 'b token_codec \<Rightarrow> ('a \<times> 'b) token_codec" where
  "tc_pair a b = (\<lambda>(x, y). fst a x @ fst b y, \<lambda>ts. case snd a ts of (x, ts) \<Rightarrow> case snd b ts of (y, ts) \<Rightarrow> ((x, y), ts))"

definition tc_map :: "('b \<Rightarrow> 'a) \<Rightarrow> ('a \<Rightarrow> 'b) \<Rightarrow> 'a token_codec \<Rightarrow> 'b token_codec" where
  "tc_map f g c = (\<lambda>x. fst c (f x), \<lambda>ts. case snd c ts of (y, ts) \<Rightarrow> (g y, ts))"

definition tc_option :: "'a token_codec \<Rightarrow> 'a option token_codec" where
  "tc_option c = (\<lambda>v. case v of None \<Rightarrow> [[0]] | Some x \<Rightarrow> [1] # fst c x,
     \<lambda>ts. if hd ts = [0] then (None, tl ts) else case snd c (tl ts) of (x, ts) \<Rightarrow> (Some x, ts))"

fun tc_many :: "'a token_codec \<Rightarrow> nat \<Rightarrow> bytes list \<Rightarrow> 'a list \<times> bytes list" where
  "tc_many c 0 ts = ([], ts)"
| "tc_many c (Suc n) ts = (case snd c ts of (x, ts) \<Rightarrow> case tc_many c n ts of (xs, ts) \<Rightarrow> (x # xs, ts))"

definition tc_list :: "'a token_codec \<Rightarrow> 'a list token_codec" where
  "tc_list c = (\<lambda>xs. replicate (length xs) 0 # concat (map (fst c) xs), \<lambda>ts. tc_many c (length (hd ts)) (tl ts))"

lemma tc_str_ok [simp]: "tc_ok tc_str"
  by (simp add: tc_ok_def tc_str_def)

lemma tc_word_ok [simp]: "tc_ok tc_word"
  by (simp add: tc_ok_def tc_word_def)

lemma tc_int_ok [simp]: "tc_ok tc_int"
  by (simp add: tc_ok_def tc_int_def Let_def)

lemma tc_enum_ok: "(\<And>x. x \<in> set xs) \<Longrightarrow> tc_ok (tc_enum xs)"
proof -
  assume a: "\<And>x. x \<in> set xs"
  have "xs ! length (takeWhile (\<lambda>y. y \<noteq> x) xs) = x" for x
  proof -
    have "length (takeWhile (\<lambda>y. y \<noteq> x) xs) < length xs"
      using a[of x] by (metis (mono_tags, lifting) length_takeWhile_le nat_less_le takeWhile_eq_all_conv takeWhile_eq_take take_all_iff)
    then show ?thesis using nth_length_takeWhile[of "\<lambda>y. y \<noteq> x" xs] by simp
  qed
  then show ?thesis by (simp add: tc_ok_def tc_enum_def)
qed

lemma tc_pair_ok [simp]: "tc_ok a \<Longrightarrow> tc_ok b \<Longrightarrow> tc_ok (tc_pair a b)"
  by (auto simp: tc_ok_def tc_pair_def)

lemma tc_map_ok: "tc_ok c \<Longrightarrow> (\<And>x. g (f x) = x) \<Longrightarrow> tc_ok (tc_map f g c)"
  by (simp add: tc_ok_def tc_map_def)

lemma tc_option_ok [simp]: "tc_ok c \<Longrightarrow> tc_ok (tc_option c)"
  by (auto simp: tc_ok_def tc_option_def split: option.splits)

lemma tc_many_ok: "tc_ok c \<Longrightarrow> tc_many c (length xs) (concat (map (fst c) xs) @ ts) = (xs, ts)"
  by (induction xs) (simp_all add: tc_ok_def)

lemma tc_list_ok [simp]: "tc_ok c \<Longrightarrow> tc_ok (tc_list c)"
  by (simp add: tc_ok_def tc_list_def tc_many_ok)

text \<open>Tokens as bytes; bytes that are not the coding of what they decode to are refused.\<close>

lemma toy_get_shorter: "length (snd (toy_get bs)) \<le> length bs - 1"
  by (induction bs rule: toy_get.induct) (auto split: prod.splits)

lemma toy_get_less: "bs \<noteq> [] \<Longrightarrow> (t, r) = toy_get bs \<Longrightarrow> length r < length bs"
  using toy_get_shorter[of bs] by (cases bs) (simp_all add: prod_eq_iff)

function toy_tokens :: "bytes \<Rightarrow> bytes list" where
  "toy_tokens bs = (if bs = [] then [] else case toy_get bs of (t, r) \<Rightarrow> t # toy_tokens r)"
  by pat_completeness auto
termination
  by (relation "measure length") (auto dest: toy_get_less)

declare toy_tokens.simps [simp del]

lemma toy_tokens_put: "toy_tokens (concat (map toy_put ts)) = ts"
proof (induction ts)
  case (Cons t ts)
  have "toy_put t \<noteq> []" by (simp add: toy_put_def)
  then show ?case using Cons by (subst toy_tokens.simps) simp
qed (simp add: toy_tokens.simps)

definition toy_codec :: "'a token_codec \<Rightarrow> 'a codec" where
  "toy_codec c = \<lparr>cd_enc = (\<lambda>x. Inr (concat (map toy_put (fst c x)))),
     cd_dec = (\<lambda>b. let x = fst (snd c (toy_tokens b)) in if concat (map toy_put (fst c x)) = b then Inr x else Inl ''malformed'')\<rparr>"

lemma toy_codec_dec [simp]: "tc_ok c \<Longrightarrow> cd_dec (toy_codec c) (concat (map toy_put (fst c x))) = Inr x"
  using tc_okD[of c x "[]"] by (simp add: toy_codec_def toy_tokens_put Let_def)

lemma toy_codec_enc [simp]: "cd_enc (toy_codec c) x = Inr (concat (map toy_put (fst c x)))"
  by (simp add: toy_codec_def)

lemma toy_codec_ok: "tc_ok c \<Longrightarrow> codec_ok (toy_codec c)"
  by (simp add: codec_ok_def)

section \<open>Chat's data\<close>

definition tc_direction :: "chat_direction token_codec" where
  "tc_direction = tc_enum [Out, In]"

definition tc_kind :: "chat_kind token_codec" where
  "tc_kind = tc_enum [Kd_Text, Kd_File, Kd_Decline]"

definition tc_status :: "chat_status token_codec" where
  "tc_status = tc_enum [St_Pending, St_Sent, St_Received, St_PendingApproval, St_Transferring, St_Declined, St_Failed, St_Interrupted, St_Staging]"

lemma tc_enums_ok [simp]: "tc_ok tc_direction" "tc_ok tc_kind" "tc_ok tc_status"
proof -
  have "x \<in> set [Out, In]" for x by (cases x) simp_all
  then show "tc_ok tc_direction" unfolding tc_direction_def by (rule tc_enum_ok)
  have "x \<in> set [Kd_Text, Kd_File, Kd_Decline]" for x by (cases x) simp_all
  then show "tc_ok tc_kind" unfolding tc_kind_def by (rule tc_enum_ok)
  have "x \<in> set [St_Pending, St_Sent, St_Received, St_PendingApproval, St_Transferring, St_Declined, St_Failed, St_Interrupted, St_Staging]"
    for x by (cases x) simp_all
  then show "tc_ok tc_status" unfolding tc_status_def by (rule tc_enum_ok)
qed

abbreviation tc_opt_str :: "string option token_codec" where
  "tc_opt_str \<equiv> tc_option tc_str"

definition tc_message :: "chat_message token_codec" where
  "tc_message = tc_map (\<lambda>m. (cm_id m, cm_timestamp m, cm_body m, cm_in_reply_to m, cm_group m))
     (\<lambda>(a, b, c, d, e). \<lparr>cm_id = a, cm_timestamp = b, cm_body = c, cm_in_reply_to = d, cm_group = e\<rparr>)
     (tc_pair tc_str (tc_pair tc_str (tc_pair tc_str (tc_pair tc_opt_str tc_opt_str))))"

definition tc_file_ref :: "file_ref token_codec" where
  "tc_file_ref = tc_map (\<lambda>m. (fr_id m, fr_timestamp m, fr_name m, fr_size m))
     (\<lambda>(a, b, c, d). \<lparr>fr_id = a, fr_timestamp = b, fr_name = c, fr_size = d\<rparr>) (tc_pair tc_str (tc_pair tc_str (tc_pair tc_str tc_word)))"

definition tc_decline :: "file_decline token_codec" where
  "tc_decline = tc_map (\<lambda>m. (fd_id m, fd_timestamp m)) (\<lambda>(a, b). \<lparr>fd_id = a, fd_timestamp = b\<rparr>) (tc_pair tc_str tc_str)"

definition tc_reaction :: "reaction token_codec" where
  "tc_reaction = tc_map (\<lambda>m. (rx_target_id m, rx_emoji m, rx_remove m, rx_timestamp m))
     (\<lambda>(a, b, c, d). \<lparr>rx_target_id = a, rx_emoji = b, rx_remove = c, rx_timestamp = d\<rparr>)
     (tc_pair tc_str (tc_pair tc_str (tc_pair (tc_enum [False, True]) tc_str)))"

definition tc_receipt :: "receipt token_codec" where
  "tc_receipt = tc_map (\<lambda>m. (rp_read_through m, rp_timestamp m)) (\<lambda>(a, b). \<lparr>rp_read_through = a, rp_timestamp = b\<rparr>) (tc_pair tc_str tc_str)"

definition tc_meta :: "chat_file_meta token_codec" where
  "tc_meta = tc_map (\<lambda>m. (fm_name m, fm_size m, fm_local_path m)) (\<lambda>(a, b, c). \<lparr>fm_name = a, fm_size = b, fm_local_path = c\<rparr>)
     (tc_pair tc_str (tc_pair tc_word tc_opt_str))"

definition tc_stored :: "stored_reaction token_codec" where
  "tc_stored = tc_map (\<lambda>m. (sr_emoji m, sr_by m, sr_timestamp m)) (\<lambda>(a, b, c). \<lparr>sr_emoji = a, sr_by = b, sr_timestamp = c\<rparr>)
     (tc_pair tc_str (tc_pair tc_direction tc_str))"

definition tc_record :: "chat_record token_codec" where
  "tc_record = tc_map
     (\<lambda>r. (cr_id r, cr_peer_id r, cr_direction r, cr_timestamp r, cr_body r, cr_status r, cr_kind r, cr_file r, cr_read_at r,
           cr_reactions r, cr_in_reply_to r, cr_group r, cr_stored_at r))
     (\<lambda>(a, b, c, d, e, f, g, h, i, j, k, l, m). \<lparr>cr_id = a, cr_peer_id = b, cr_direction = c, cr_timestamp = d, cr_body = e,
        cr_status = f, cr_kind = g, cr_file = h, cr_read_at = i, cr_reactions = j, cr_in_reply_to = k, cr_group = l, cr_stored_at = m\<rparr>)
     (tc_pair tc_str (tc_pair tc_str (tc_pair tc_direction (tc_pair tc_str (tc_pair tc_str (tc_pair tc_status (tc_pair tc_kind
       (tc_pair (tc_option tc_meta) (tc_pair tc_opt_str (tc_pair (tc_list tc_stored) (tc_pair tc_opt_str
         (tc_pair tc_opt_str (tc_option tc_int)))))))))))))"

definition tc_staged :: "staged_file token_codec" where
  "tc_staged = tc_map (\<lambda>m. (sg_name m, sg_size m, sg_path m)) (\<lambda>(a, b, c). \<lparr>sg_name = a, sg_size = b, sg_path = c\<rparr>)
     (tc_pair tc_str (tc_pair tc_word tc_str))"

definition tc_entry :: "outbox_entry token_codec" where
  "tc_entry = tc_map
     (\<lambda>e. (oe_peer_id e, oe_message_id e, oe_body e, oe_timestamp e, oe_kind e, oe_file e, oe_offers_refused e, oe_in_reply_to e, oe_group e))
     (\<lambda>(a, b, c, d, e, f, g, h, i). \<lparr>oe_peer_id = a, oe_message_id = b, oe_body = c, oe_timestamp = d, oe_kind = e, oe_file = f,
        oe_offers_refused = g, oe_in_reply_to = h, oe_group = i\<rparr>)
     (tc_pair tc_str (tc_pair tc_str (tc_pair tc_str (tc_pair tc_str (tc_pair tc_kind (tc_pair (tc_option tc_staged)
       (tc_pair tc_word (tc_pair tc_opt_str tc_opt_str))))))))"

definition tc_retention :: "retention token_codec" where
  "tc_retention = tc_map rt_ttl_secs (\<lambda>v. \<lparr>rt_ttl_secs = v\<rparr>) (tc_option tc_word)"

lemma tc_chat_ok [simp]: "tc_ok tc_message" "tc_ok tc_file_ref" "tc_ok tc_decline" "tc_ok tc_reaction" "tc_ok tc_receipt"
  "tc_ok tc_meta" "tc_ok tc_stored" "tc_ok tc_staged" "tc_ok tc_entry" "tc_ok tc_retention"
proof -
  have b: "tc_ok (tc_enum [False, True])" by (rule tc_enum_ok) auto
  then show "tc_ok tc_reaction" unfolding tc_reaction_def by (intro tc_map_ok) simp_all
  show m: "tc_ok tc_meta" and s: "tc_ok tc_stored" and g: "tc_ok tc_staged"
    unfolding tc_meta_def tc_stored_def tc_staged_def by (intro tc_map_ok; simp)+
  show "tc_ok tc_message" "tc_ok tc_file_ref" "tc_ok tc_decline" "tc_ok tc_receipt" "tc_ok tc_retention"
    unfolding tc_message_def tc_file_ref_def tc_decline_def tc_receipt_def tc_retention_def by (intro tc_map_ok; simp)+
  show "tc_ok tc_entry" unfolding tc_entry_def by (intro tc_map_ok; simp add: g)
qed

lemma tc_record_ok [simp]: "tc_ok tc_record"
  unfolding tc_record_def by (intro tc_map_ok) simp_all

definition toy_chat :: chat_env where
  "toy_chat = \<lparr>ce_message = toy_codec tc_message, ce_file_ref = toy_codec tc_file_ref, ce_decline = toy_codec tc_decline,
     ce_reaction = toy_codec tc_reaction, ce_receipt = toy_codec tc_receipt, ce_record = toy_codec tc_record,
     ce_entry = toy_codec tc_entry, ce_retention = toy_codec tc_retention, ce_landing = toy_codec (tc_pair tc_str tc_word),
     ce_parse_time = (\<lambda>s. Some (int (length s))), ce_sub_secs = (\<lambda>now secs. Some (now - secs * 1000000000))\<rparr>"

end
