(* ===== verification/PB_Chat_Props.thy ===== *)
theory PB_Chat_Props
  imports PB_Chat_Session PB_Chat_Codec
begin

text \<open>
  What the conversation store keeps and what a peer can do to it. The store reaches this theory
  through the locale \<open>strict_store\<close>; the properties are stated for the encrypted file store by the
  interpretation \<open>strict\<close>.

  \<open>chat_wf\<close>: every row sits under its own id in its own peer's namespace. \<open>peer_may\<close> relates a row
  to what a peer's frame may turn it into.
\<close>

section \<open>Hypotheses and views\<close>

definition chat_env_ok :: "chat_env \<Rightarrow> bool" where
  "chat_env_ok E = (codec_ok (ce_message E) \<and> codec_ok (ce_file_ref E) \<and> codec_ok (ce_decline E) \<and> codec_ok (ce_reaction E)
     \<and> codec_ok (ce_receipt E) \<and> codec_ok (ce_record E) \<and> codec_ok (ce_entry E) \<and> codec_ok (ce_retention E) \<and> codec_ok (ce_landing E))"

text \<open>A decoded message holds Rust strings, which are valid UTF-8.\<close>

definition payload_ok :: "chat_env \<Rightarrow> bytes \<Rightarrow> bool" where
  "payload_ok E b = ((\<forall>m. cd_dec (ce_message E) b = Inr m \<longrightarrow> str_ok (cm_id m)) \<and> (\<forall>r. cd_dec (ce_file_ref E) b = Inr r \<longrightarrow> str_ok (fr_id r)))"

type_synonym chat_abs = "string \<Rightarrow> string \<Rightarrow> bytes option"

definition chat_row :: "chat_env \<Rightarrow> chat_abs \<Rightarrow> device_id \<Rightarrow> string \<Rightarrow> chat_record option" where
  "chat_row E a p k = (case a (chat_namespace p) k of
     None \<Rightarrow> None | Some b \<Rightarrow> (case record_decode E b of Inr r \<Rightarrow> Some r | Inl _ \<Rightarrow> None))"

definition chat_wf :: "chat_env \<Rightarrow> chat_abs \<Rightarrow> bool" where
  "chat_wf E a = (\<forall>p k r. chat_row E a p k = Some r \<longrightarrow> cr_id r = k \<and> cr_peer_id r = p)"

lemma map_sum_Inr [simp]: "map_sum f g x = Inr y \<longleftrightarrow> (\<exists>z. x = Inr z \<and> y = g z)"
  by (cases x) auto

lemma record_codec [simp]: "chat_env_ok E \<Longrightarrow> record_decode E (record_encode E r) = Inr r"
  by (auto simp: chat_env_ok_def codec_ok_def record_decode_def record_encode_def) (metis map_sum.simps(2) old.sum.simps(6))

lemma entry_codec [simp]: "chat_env_ok E \<Longrightarrow> entry_decode E (entry_encode E e) = Inr e"
  by (auto simp: chat_env_ok_def codec_ok_def entry_decode_def entry_encode_def) (metis map_sum.simps(2) old.sum.simps(6))

lemma chat_namespaces_apart [simp]:
  "chat_namespace p = chat_namespace q \<longleftrightarrow> p = q" "landing_ns p = landing_ns q \<longleftrightarrow> p = q"
  "chat_namespace p \<noteq> landing_ns q" "landing_ns q \<noteq> chat_namespace p"
  "chat_namespace p \<noteq> OUTBOX_NS" "OUTBOX_NS \<noteq> chat_namespace p" "chat_namespace p \<noteq> RETENTION_NS" "RETENTION_NS \<noteq> chat_namespace p"
  "landing_ns p \<noteq> OUTBOX_NS" "OUTBOX_NS \<noteq> landing_ns p" "landing_ns p \<noteq> RETENTION_NS" "RETENTION_NS \<noteq> landing_ns p"
  "OUTBOX_NS \<noteq> RETENTION_NS" "RETENTION_NS \<noteq> OUTBOX_NS"
  by (simp_all add: chat_namespace_def landing_ns_def OUTBOX_NS_def RETENTION_NS_def)

lemma fixed_ns_ok [simp]: "namespace_ok OUTBOX_NS" "namespace_ok RETENTION_NS"
  by (simp_all add: namespace_ok_def OUTBOX_NS_def RETENTION_NS_def slug_char_def is_ascii_alphanumeric_def)

definition row_set :: "device_id \<Rightarrow> string \<Rightarrow> bytes \<Rightarrow> chat_abs \<Rightarrow> chat_abs" where
  "row_set p k b a = a(chat_namespace p := (a (chat_namespace p))(k \<mapsto> b))"

definition landing_drop :: "device_id \<Rightarrow> string \<Rightarrow> chat_abs \<Rightarrow> chat_abs" where
  "landing_drop p k a = a(landing_ns p := (a (landing_ns p))(k := None))"

definition landing_of :: "chat_env \<Rightarrow> chat_abs \<Rightarrow> device_id \<Rightarrow> string \<Rightarrow> (string \<times> u64) option" where
  "landing_of E a p k = (if namespace_ok (landing_ns p) then
     (case a (landing_ns p) k of None \<Rightarrow> None | Some b \<Rightarrow> (case cd_dec (ce_landing E) b of Inr l \<Rightarrow> Some l | Inl _ \<Rightarrow> None)) else None)"

lemma view_updates [simp]:
  "landing_drop p k a (chat_namespace q) = a (chat_namespace q)" "landing_drop p k a OUTBOX_NS = a OUTBOX_NS"
  "landing_drop p k a RETENTION_NS = a RETENTION_NS" "row_set p k b a (landing_ns q) = a (landing_ns q)"
  "row_set p k b a OUTBOX_NS = a OUTBOX_NS" "row_set p k b a RETENTION_NS = a RETENTION_NS"
  "chat_row E (landing_drop p k a) = chat_row E a"
  by (simp_all add: landing_drop_def row_set_def chat_row_def fun_eq_iff)

lemma chat_row_set:
  "chat_row E (row_set p k b a) q j = (if q = p \<and> j = k then (case record_decode E b of Inr r \<Rightarrow> Some r | Inl _ \<Rightarrow> None) else chat_row E a q j)"
  by (simp add: chat_row_def row_set_def)

lemma settleable_landed [simp]: "is_settleable_file_row d (landed l r) = is_settleable_file_row d r"
  "cr_id (landed l r) = cr_id r" "cr_peer_id (landed l r) = cr_peer_id r"
  by (simp_all add: is_settleable_file_row_def landed_def)

text \<open>A row with the landing waiting for it, and what reading or writing the row leaves of the landings.\<close>

definition reconciled :: "chat_env \<Rightarrow> chat_abs \<Rightarrow> chat_record \<Rightarrow> chat_record" where
  "reconciled E a r = (if is_settleable_file_row In r then
     (case landing_of E a (cr_peer_id r) (cr_id r) of Some l \<Rightarrow> landed l r | None \<Rightarrow> r) else r)"

definition claimed :: "chat_record \<Rightarrow> chat_abs \<Rightarrow> chat_abs" where
  "claimed r a = (if is_settleable_file_row In r \<and> namespace_ok (landing_ns (cr_peer_id r))
     then landing_drop (cr_peer_id r) (cr_id r) a else a)"

lemma reconciled_simps [simp]: "cr_id (reconciled E a r) = cr_id r" "cr_peer_id (reconciled E a r) = cr_peer_id r"
  "is_settleable_file_row d (reconciled E a r) = is_settleable_file_row d r"
  by (simp_all add: reconciled_def split: option.splits)

lemma claimed_simps [simp]: "claimed r a (chat_namespace q) = a (chat_namespace q)" "claimed r a OUTBOX_NS = a OUTBOX_NS"
  "claimed r a RETENTION_NS = a RETENTION_NS" "chat_row E (claimed r a) = chat_row E a"
  by (simp_all add: claimed_def)

section \<open>The store's steps\<close>

context strict_store
begin

lemma chat_write_spec:
  assumes "inv s" "str_ok (cr_id r)" "chat_write E A r s = (res, t)"
  shows "inv t \<and> (res = Inr () \<longrightarrow> namespace_ok (chat_namespace (cr_peer_id r)))
    \<and> abs t = (if res = Inr () then row_set (cr_peer_id r) (cr_id r) (record_encode E r) (abs s) else abs s)"
proof -
  obtain x where p: "ap_put A (chat_namespace (cr_peer_id r)) (cr_id r) (record_encode E r) s = (x, t)" "res = map_sum cerr (\<lambda>_. ()) x"
    using assms(3) by (auto simp: chat_write_def store_put_def chat_namespace_def split: prod.splits)
  then have "res = Inr () \<longleftrightarrow> x = Inr ()" by (cases x) auto
  with put_law[OF assms(1,2) p(1)] show ?thesis by (simp add: row_set_def)
qed

lemma take_landing_spec:
  assumes "inv s" "take_pending_landing E A p k s = (res, t)"
  shows "inv t \<and> abs t = (if namespace_ok (landing_ns p) then landing_drop p k (abs s) else abs s)
    \<and> (case res of Inr l \<Rightarrow> l = landing_of E (abs s) p k \<and> namespace_ok (landing_ns p) | Inl _ \<Rightarrow> \<not> namespace_ok (landing_ns p))"
proof (cases "namespace_ok (landing_ns p)")
  case True
  note g = get_law[OF assms(1) True, of k]
  show ?thesis
  proof (cases "abs s (landing_ns p) k")
    case None
    then have "landing_drop p k (abs s) = abs s" by (simp add: landing_drop_def fun_upd_idem)
    then show ?thesis using assms True g None by (auto simp: take_pending_landing_def store_get_def landing_of_def)
  next
    case (Some b)
    obtain rd t' where d: "ap_delete A (landing_ns p) k s = (rd, t')" by fastforce
    show ?thesis using delete_law[OF assms(1) True d] Some d assms True g
      by (auto simp: take_pending_landing_def store_get_def landing_of_def landing_drop_def split: sum.splits)
  qed
next
  case False
  then obtain e where "ap_get A (landing_ns p) k s = Inl e" using bad_get[OF assms(1)] by blast
  then show ?thesis using assms False by (auto simp: take_pending_landing_def store_get_def)
qed

lemma append_spec:
  assumes "inv s" "str_ok (cr_id r)" "chat_append E A r s = (res, t)"
  shows "inv t \<and> (res = Inr () \<longrightarrow> namespace_ok (chat_namespace (cr_peer_id r)))
    \<and> abs t = (if res = Inr () then row_set (cr_peer_id r) (cr_id r) (record_encode E (reconciled E (abs s) r)) (claimed r (abs s))
        else claimed r (abs s))"
proof (cases "is_settleable_file_row In r")
  case True
  obtain l s1 where l: "take_pending_landing E A (cr_peer_id r) (cr_id r) s = (l, s1)" by fastforce
  note spec = take_landing_spec[OF assms(1) l]
  then have i: "inv s1" "abs s1 = claimed r (abs s)" using True by (auto simp: claimed_def)
  show ?thesis
  proof (cases l)
    case (Inl e)
    then show ?thesis using l i True assms(3) by (auto simp: chat_append_def)
  next
    case (Inr x)
    then have "chat_write E A (reconciled E (abs s) r) s1 = (res, t)"
      using l spec True assms(3) by (auto simp: chat_append_def reconciled_def split: option.splits)
    from chat_write_spec[OF i(1) _ this] assms(2) i show ?thesis by simp
  qed
next
  case False
  then have "chat_write E A r s = (res, t)" "reconciled E (abs s) r = r" "claimed r (abs s) = abs s"
    using assms(3) by (auto simp: chat_append_def reconciled_def claimed_def)
  with chat_write_spec[OF assms(1,2), of E res t] show ?thesis by simp
qed

lemma with_landing_spec:
  assumes "inv s" "str_ok (cr_id r)" "with_landing E A r s = (r', t)"
  shows "inv t \<and> r' = reconciled E (abs s) r
    \<and> (abs t = claimed r (abs s) \<or> abs t = row_set (cr_peer_id r) (cr_id r) (record_encode E r') (claimed r (abs s)))"
proof (cases "is_settleable_file_row In r")
  case True
  obtain l s1 where l: "take_pending_landing E A (cr_peer_id r) (cr_id r) s = (l, s1)" by fastforce
  note spec = take_landing_spec[OF assms(1) l]
  then have i: "inv s1" "abs s1 = claimed r (abs s)" using True by (auto simp: claimed_def)
  consider "l = Inr None" | e where "l = Inl e" | x where "l = Inr (Some x)" by (metis option.exhaust sum.exhaust)
  then show ?thesis
  proof cases
    case 1
    then show ?thesis using l spec True assms(3) i by (auto simp: with_landing_def reconciled_def)
  next
    case 2
    then show ?thesis using l spec True assms(3) i by (auto simp: with_landing_def landing_of_def reconciled_def)
  next
    case 3
    obtain w t' where w: "chat_write E A (landed x r) s1 = (w, t')" by fastforce
    have n: "landed x r = r" if "cr_file r = None" using that by (simp add: landed_def)
    have "landing_of E (abs s) (cr_peer_id r) (cr_id r) = Some x" using spec 3 by simp
    then have rc: "reconciled E (abs s) r = landed x r" using True by (simp add: reconciled_def)
    have "r' = landed x r" "t = (if cr_file r = None then s1 else t')"
      using assms(3) l 3 True w n by (auto simp: with_landing_def split: if_splits)
    then show ?thesis using chat_write_spec[OF i(1) _ w] assms(2) i rc by simp
  qed
next
  case False
  then show ?thesis using assms by (auto simp: with_landing_def reconciled_def claimed_def)
qed

end

section \<open>What a peer may do\<close>

text \<open>
  A row may change only so: an in-flight file of ours becomes declined; a message of ours becomes
  read, once; the peer's own reactions change; an in-flight offer of the peer takes the name and
  size its transfer announced.
\<close>

definition peer_may :: "chat_record \<Rightarrow> chat_record \<Rightarrow> bool" where
  "peer_may r r' =
     (cr_id r' = cr_id r \<and> cr_peer_id r' = cr_peer_id r \<and> cr_direction r' = cr_direction r \<and> cr_kind r' = cr_kind r
      \<and> cr_timestamp r' = cr_timestamp r \<and> cr_body r' = cr_body r \<and> cr_in_reply_to r' = cr_in_reply_to r
      \<and> cr_group r' = cr_group r \<and> cr_stored_at r' = cr_stored_at r
      \<and> (cr_status r' = cr_status r \<or> is_settleable_file_row Out r \<and> cr_status r' = St_Declined)
      \<and> (cr_read_at r' = cr_read_at r \<or> cr_direction r = Out \<and> cr_read_at r = None)
      \<and> filter (\<lambda>x. sr_by x = Out) (cr_reactions r') = filter (\<lambda>x. sr_by x = Out) (cr_reactions r)
      \<and> (cr_file r' = cr_file r \<or> is_settleable_file_row In r
          \<and> map_option fm_local_path (cr_file r') = map_option fm_local_path (cr_file r)))"

lemma peer_may_refl [simp]: "peer_may r r"
  by (simp add: peer_may_def)

lemma peer_may_fixed:
  "peer_may r r' \<Longrightarrow> cr_id r' = cr_id r" "peer_may r r' \<Longrightarrow> cr_peer_id r' = cr_peer_id r"
  "peer_may r r' \<Longrightarrow> cr_direction r' = cr_direction r" "peer_may r r' \<Longrightarrow> cr_kind r' = cr_kind r"
  by (simp_all add: peer_may_def)

lemma peer_may_settleable: "peer_may r r' \<Longrightarrow> is_settleable_file_row In r' \<longleftrightarrow> is_settleable_file_row In r"
  unfolding peer_may_def is_settleable_file_row_def by auto

lemma peer_may_trans:
  assumes "peer_may r r'" "peer_may r' r''"
  shows "peer_may r r''"
proof -
  have "is_settleable_file_row Out r' \<Longrightarrow> is_settleable_file_row Out r"
    using assms(1) unfolding peer_may_def is_settleable_file_row_def by auto
  then have st: "cr_status r'' = cr_status r \<or> is_settleable_file_row Out r \<and> cr_status r'' = St_Declined"
    using assms unfolding peer_may_def by metis
  have rd: "cr_read_at r'' = cr_read_at r \<or> cr_direction r = Out \<and> cr_read_at r = None"
    using assms unfolding peer_may_def by metis
  have fl: "cr_file r'' = cr_file r \<or> is_settleable_file_row In r
      \<and> map_option fm_local_path (cr_file r'') = map_option fm_local_path (cr_file r)"
    using assms peer_may_settleable[OF assms(1)] unfolding peer_may_def by metis
  show ?thesis using st rd fl assms unfolding peer_may_def by simp
qed

lemma peer_may_landed: "is_settleable_file_row In r \<Longrightarrow> peer_may r (landed l r)"
  by (simp add: peer_may_def landed_def option.map_comp comp_def)

lemma peer_may_reconciled: "peer_may r (reconciled E a r)"
  by (auto simp: reconciled_def peer_may_landed split: option.splits)

text \<open>
  The store after a frame of \<open>p\<close>: other namespaces as before, landings only taken, no row gone,
  rows changed only as allowed, new rows only incoming ones.
\<close>

definition authority :: "chat_env \<Rightarrow> device_id \<Rightarrow> chat_abs \<Rightarrow> chat_abs \<Rightarrow> bool" where
  "authority E p a a' =
     ((\<forall>ns. ns \<noteq> chat_namespace p \<longrightarrow> ns \<noteq> landing_ns p \<longrightarrow> a' ns = a ns)
      \<and> (\<forall>k. a' (landing_ns p) k = a (landing_ns p) k \<or> a' (landing_ns p) k = None)
      \<and> (\<forall>k b. a (chat_namespace p) k = Some b \<longrightarrow> a' (chat_namespace p) k = Some b
          \<or> (\<exists>r r'. chat_row E a p k = Some r \<and> chat_row E a' p k = Some r' \<and> peer_may r r'))
      \<and> (\<forall>k. a (chat_namespace p) k = None \<longrightarrow> a' (chat_namespace p) k \<noteq> None \<longrightarrow>
          (\<exists>r. chat_row E a' p k = Some r \<and> cr_id r = k \<and> cr_peer_id r = p \<and> cr_direction r = In
             \<and> cr_status r \<in> {St_Received, St_PendingApproval} \<and> cr_read_at r = None
             \<and> filter (\<lambda>x. sr_by x = Out) (cr_reactions r) = [])))"

lemma authority_refl [simp]: "authority E p a a"
  by (simp add: authority_def)

lemma authority_claimed: "cr_peer_id r = p \<Longrightarrow> authority E p a (claimed r a)"
  by (auto simp: authority_def claimed_def landing_drop_def)

lemma authority_row:
  assumes "chat_env_ok E" "chat_row E a p k = Some r0" "peer_may r0 r"
  shows "authority E p a (row_set p k (record_encode E r) a)"
  using assms by (auto simp: authority_def row_set_def chat_row_def)

lemma chat_row_some: "chat_row E a p k = Some r \<longleftrightarrow> (\<exists>b. a (chat_namespace p) k = Some b \<and> record_decode E b = Inr r)"
  by (auto simp: chat_row_def split: option.splits sum.splits)

lemma authority_trans:
  assumes "authority E p a b" "authority E p b c"
  shows "authority E p a c"
  unfolding authority_def
proof (intro conjI allI impI)
  fix ns assume "ns \<noteq> chat_namespace p" "ns \<noteq> landing_ns p"
  then show "c ns = a ns" using assms unfolding authority_def by simp
next
  fix k show "c (landing_ns p) k = a (landing_ns p) k \<or> c (landing_ns p) k = None" using assms unfolding authority_def by metis
next
  fix k v assume v: "a (chat_namespace p) k = Some v"
  consider "b (chat_namespace p) k = Some v" | r r' where "chat_row E a p k = Some r" "chat_row E b p k = Some r'" "peer_may r r'"
    using assms(1) v unfolding authority_def by blast
  then show "c (chat_namespace p) k = Some v \<or> (\<exists>r r'. chat_row E a p k = Some r \<and> chat_row E c p k = Some r' \<and> peer_may r r')"
  proof cases
    case 1
    then have "chat_row E b p k = chat_row E a p k" using v by (simp add: chat_row_def)
    then show ?thesis using assms(2) 1 unfolding authority_def by metis
  next
    case 2
    then obtain w where w: "b (chat_namespace p) k = Some w" by (auto simp: chat_row_some)
    then have "c (chat_namespace p) k = Some w \<or> (\<exists>r r'. chat_row E b p k = Some r \<and> chat_row E c p k = Some r' \<and> peer_may r r')"
      using assms(2) unfolding authority_def by blast
    then show ?thesis using 2 w peer_may_trans[OF 2(3)] by (metis chat_row_def option.inject option.simps(5))
  qed
next
  fix k assume n: "a (chat_namespace p) k = None" "c (chat_namespace p) k \<noteq> None"
  show "\<exists>r. chat_row E c p k = Some r \<and> cr_id r = k \<and> cr_peer_id r = p \<and> cr_direction r = In
      \<and> cr_status r \<in> {St_Received, St_PendingApproval} \<and> cr_read_at r = None
      \<and> filter (\<lambda>x. sr_by x = Out) (cr_reactions r) = []"
  proof (cases "b (chat_namespace p) k")
    case None
    then show ?thesis using assms(2) n unfolding authority_def by blast
  next
    case (Some w)
    then obtain r where r: "chat_row E b p k = Some r" "cr_id r = k" "cr_peer_id r = p" "cr_direction r = In"
      "cr_status r \<in> {St_Received, St_PendingApproval}" "cr_read_at r = None" "filter (\<lambda>x. sr_by x = Out) (cr_reactions r) = []"
      using assms(1) n unfolding authority_def by blast
    have "c (chat_namespace p) k = Some w \<or> (\<exists>r r'. chat_row E b p k = Some r \<and> chat_row E c p k = Some r' \<and> peer_may r r')"
      using assms(2) Some unfolding authority_def by blast
    then consider "chat_row E c p k = Some r" | r' where "chat_row E c p k = Some r'" "peer_may r r'"
      using r(1) Some by (auto simp: chat_row_def)
    then show ?thesis
    proof cases
      case 2
      with r show ?thesis by (intro exI[of _ r']) (auto simp: peer_may_def is_settleable_file_row_def)
    qed (use r in blast)
  qed
qed

lemma authority_old: "authority E p a a' \<Longrightarrow> a (chat_namespace p) k = Some b \<Longrightarrow> a' (chat_namespace p) k = Some b
    \<or> (\<exists>r r'. chat_row E a p k = Some r \<and> chat_row E a' p k = Some r' \<and> peer_may r r')"
  unfolding authority_def by blast

lemma authority_new: "authority E p a a' \<Longrightarrow> a (chat_namespace p) k = None \<Longrightarrow> chat_row E a' p k = Some r \<Longrightarrow>
    cr_id r = k \<and> cr_peer_id r = p \<and> cr_direction r = In"
  unfolding authority_def chat_row_some by (metis chat_row_some option.distinct(1) option.inject)

lemma authority_wf:
  assumes "authority E p a a'" "chat_wf E a"
  shows "chat_wf E a'"
  unfolding chat_wf_def
proof (intro allI impI)
  fix q k r assume r: "chat_row E a' q k = Some r"
  show "cr_id r = k \<and> cr_peer_id r = q"
  proof (cases "q = p")
    case False
    then have "chat_row E a' q k = chat_row E a q k" using assms(1) by (simp add: authority_def chat_row_def)
    with r assms(2) show ?thesis by (simp add: chat_wf_def)
  next
    case True
    then obtain b' where b': "a' (chat_namespace p) k = Some b'" using r by (auto simp: chat_row_some)
    show ?thesis
    proof (cases "a (chat_namespace p) k")
      case None
      then show ?thesis using authority_new[OF assms(1), of k r] r True by simp
    next
      case (Some b)
      then consider "a' (chat_namespace p) k = Some b" | r0 where "chat_row E a p k = Some r0" "peer_may r0 r"
        using authority_old[OF assms(1), of k b] r True by auto
      then show ?thesis
      proof cases
        case 1
        then have "chat_row E a p k = Some r" using r True Some by (simp add: chat_row_def)
        then show ?thesis using assms(2) True by (simp add: chat_wf_def)
      next
        case 2
        then show ?thesis using assms(2) True peer_may_fixed[OF 2(2)] by (auto simp: chat_wf_def)
      qed
    qed
  qed
qed

definition rows_of :: "chat_env \<Rightarrow> device_id \<Rightarrow> chat_abs \<Rightarrow> chat_record list \<Rightarrow> bool" where
  "rows_of E p a rs = (distinct (map cr_id rs) \<and> (\<forall>r \<in> set rs. \<exists>r0. chat_row E a p (cr_id r) = Some r0 \<and> peer_may r0 r))"

lemma rows_of_frame:
  "rows_of E p a rs \<Longrightarrow> (\<And>r. r \<in> set rs \<Longrightarrow> a' (chat_namespace p) (cr_id r) = a (chat_namespace p) (cr_id r)) \<Longrightarrow> rows_of E p a' rs"
  by (simp add: rows_of_def chat_row_def)

context strict_store
begin

lemma row_key: "inv s \<Longrightarrow> chat_wf E (abs s) \<Longrightarrow> chat_row E (abs s) p k = Some r \<Longrightarrow> cr_id r = k \<and> cr_peer_id r = p \<and> str_ok k"
  using key_law by (auto simp: chat_wf_def chat_row_some)

lemma with_landing_auth:
  assumes "inv s" "chat_env_ok E" "chat_wf E (abs s)" "chat_row E (abs s) p k = Some r" "with_landing E A r s = (r', t)"
  shows "inv t \<and> authority E p (abs s) (abs t) \<and> peer_may r r' \<and> (\<exists>r0. chat_row E (abs t) p k = Some r0 \<and> peer_may r0 r')
    \<and> (\<forall>j. j \<noteq> k \<longrightarrow> abs t (chat_namespace p) j = abs s (chat_namespace p) j)"
proof -
  note k = row_key[OF assms(1,3,4)]
  then have w: "inv t" "r' = reconciled E (abs s) r" "abs t = claimed r (abs s) \<or> abs t = row_set p k (record_encode E r') (claimed r (abs s))"
    using with_landing_spec[OF assms(1) _ assms(5)] by auto
  have m: "peer_may r r'" using w(2) peer_may_reconciled by simp
  have c: "authority E p (abs s) (claimed r (abs s))" using k authority_claimed by blast
  have "authority E p (claimed r (abs s)) (row_set p k (record_encode E r') (claimed r (abs s)))"
    by (rule authority_row[OF assms(2) _ m]) (simp add: assms(4))
  with c w(3) have "authority E p (abs s) (abs t)" using authority_trans by metis
  moreover have "\<exists>r0. chat_row E (abs t) p k = Some r0 \<and> peer_may r0 r'"
    using w(3) assms(2,4) m by (auto simp: chat_row_set)
  moreover have "\<forall>j. j \<noteq> k \<longrightarrow> abs t (chat_namespace p) j = abs s (chat_namespace p) j" using w(3) by (auto simp: row_set_def)
  ultimately show ?thesis using w(1) m by blast
qed

lemma append_auth:
  assumes "inv s" "chat_env_ok E" "chat_wf E (abs s)" "chat_row E (abs s) p k = Some r0" "peer_may r0 m" "chat_append E A m s = (res, t)"
  shows "inv t \<and> authority E p (abs s) (abs t) \<and> (\<forall>j. j \<noteq> k \<longrightarrow> abs t (chat_namespace p) j = abs s (chat_namespace p) j)"
proof -
  note k = row_key[OF assms(1,3,4)]
  have i: "cr_id m = k" "cr_peer_id m = p" "str_ok (cr_id m)" using k peer_may_fixed[OF assms(5)] by auto
  let ?r = "record_encode E (reconciled E (abs s) m)"
  have w: "inv t" "abs t = claimed m (abs s) \<or> abs t = row_set p k ?r (claimed m (abs s))"
    using append_spec[OF assms(1) i(3) assms(6)] i by (auto split: if_splits)
  have "authority E p (claimed m (abs s)) (row_set p k ?r (claimed m (abs s)))"
    by (rule authority_row[OF assms(2), of _ _ _ r0]) (simp_all add: assms(4) peer_may_trans[OF assms(5) peer_may_reconciled])
  with w(2) authority_claimed[OF i(2), of E "abs s"] have "authority E p (abs s) (abs t)" using authority_trans by metis
  moreover have "\<forall>j. j \<noteq> k \<longrightarrow> abs t (chat_namespace p) j = abs s (chat_namespace p) j" using w(2) by (auto simp: row_set_def)
  ultimately show ?thesis using w(1) by blast
qed

lemma get_auth:
  assumes "inv s" "chat_env_ok E" "chat_wf E (abs s)" "chat_get E A now p k s = (res, t)"
  shows "inv t \<and> authority E p (abs s) (abs t)
    \<and> (\<forall>r'. res = Inr (Some r') \<longrightarrow> (\<exists>r0. chat_row E (abs t) p k = Some r0 \<and> peer_may r0 r'))"
proof (cases "\<exists>r r'. chat_row E (abs s) p k = Some r \<and> with_landing E A r s = (r', t) \<and> res = Inr (Some r')")
  case True
  then obtain r r' where r: "chat_row E (abs s) p k = Some r" "with_landing E A r s = (r', t)" "res = Inr (Some r')" by blast
  from with_landing_auth[OF assms(1-3) r(1,2)] r(3) show ?thesis by simp
next
  case False
  have "t = s \<and> (\<forall>r'. res \<noteq> Inr (Some r'))"
  proof (cases "ap_get A (chat_namespace p) k s")
    case (Inl e)
    then show ?thesis using assms(4) by (auto simp: chat_get_def store_get_def)
  next
    case (Inr v)
    then have "v = abs s (chat_namespace p) k" using get_cases[OF assms(1), of "chat_namespace p" k] by auto
    then show ?thesis using False assms(4) Inr
      by (auto simp: chat_get_def store_get_def chat_row_some split: option.splits sum.splits if_splits prod.splits)
  qed
  then show ?thesis using assms(1) by simp
qed

lemma records_loop_step:
  assumes "records_loop E A ret now inc ((k, v) # raw) s = (out, t)"
  obtains (skip) "records_loop E A ret now inc raw s = (out, t)"
    | (row) r r' s1 out' where "record_decode E v = Inr r" "\<not> has_disappeared E r ret now" "cr_group r = None \<or> inc"
        "with_landing E A r s = (r', s1)" "records_loop E A ret now inc raw s1 = (out', t)" "out = r' # out'"
proof (cases "record_decode E v")
  case (Inr r)
  obtain r' s1 where w: "with_landing E A r s = (r', s1)" by fastforce
  obtain out' t' where l: "records_loop E A ret now inc raw s1 = (out', t')" by fastforce
  show thesis using assms Inr w l skip row[OF Inr _ _ w] by (auto split: if_splits)
qed (use assms skip in simp)

lemma records_loop_auth:
  "inv s \<Longrightarrow> chat_env_ok E \<Longrightarrow> chat_wf E (abs s) \<Longrightarrow> distinct (map fst raw) \<Longrightarrow>
   (\<And>k v. (k, v) \<in> set raw \<Longrightarrow> abs s (chat_namespace p) k = Some v) \<Longrightarrow> records_loop E A ret now inc raw s = (out, t) \<Longrightarrow>
   inv t \<and> authority E p (abs s) (abs t) \<and> rows_of E p (abs t) out \<and> cr_id ` set out \<subseteq> fst ` set raw
     \<and> (\<forall>j. j \<notin> fst ` set raw \<longrightarrow> abs t (chat_namespace p) j = abs s (chat_namespace p) j)"
proof (induction raw arbitrary: s out)
  case Nil
  then show ?case by (simp add: rows_of_def)
next
  case (Cons kv raw)
  obtain k v where kv: "kv = (k, v)" by fastforce
  have v: "abs s (chat_namespace p) k = Some v" using Cons.prems(5) kv by simp
  from Cons.prems(6)[unfolded kv] show ?case
  proof (cases rule: records_loop_step)
    case skip
    have "inv t \<and> authority E p (abs s) (abs t) \<and> rows_of E p (abs t) out \<and> cr_id ` set out \<subseteq> fst ` set raw
        \<and> (\<forall>j. j \<notin> fst ` set raw \<longrightarrow> abs t (chat_namespace p) j = abs s (chat_namespace p) j)"
      by (rule Cons.IH[OF Cons.prems(1-3) _ _ skip]) (use Cons.prems(4,5) in auto)
    then show ?thesis using kv by auto
  next
    case (row r r' s1 out')
    have rw: "chat_row E (abs s) p k = Some r" using v row(1) by (simp add: chat_row_some)
    note w = with_landing_auth[OF Cons.prems(1-3) rw row(4)]
    have k: "k \<notin> fst ` set raw" using Cons.prems(4) kv by simp
    have id: "cr_id r' = k" using row_key[OF Cons.prems(1,3) rw] w peer_may_fixed(1) by metis
    have h: "inv t \<and> authority E p (abs s1) (abs t) \<and> rows_of E p (abs t) out' \<and> cr_id ` set out' \<subseteq> fst ` set raw
        \<and> (\<forall>j. j \<notin> fst ` set raw \<longrightarrow> abs t (chat_namespace p) j = abs s1 (chat_namespace p) j)"
    proof (rule Cons.IH[OF _ Cons.prems(2) _ _ _ row(5)])
      show "inv s1" "chat_wf E (abs s1)" using w authority_wf Cons.prems(3) by blast+
      show "distinct (map fst raw)" using Cons.prems(4) by simp
      fix j u assume "(j, u) \<in> set raw"
      moreover from this have "j \<noteq> k" using k by force
      ultimately show "abs s1 (chat_namespace p) j = Some u" using w Cons.prems(5)[of j u] by simp
    qed
    have "abs t (chat_namespace p) k = abs s1 (chat_namespace p) k" using h k by blast
    then have "chat_row E (abs t) p k = chat_row E (abs s1) p k" by (simp add: chat_row_def)
    then obtain r0 where r0: "chat_row E (abs t) p (cr_id r') = Some r0" "peer_may r0 r'" using w id by auto
    have "cr_id r' \<notin> cr_id ` set out'" using h k id by blast
    moreover have "rows_of E p (abs t) out'" using h by blast
    ultimately have "rows_of E p (abs t) out" using r0 unfolding rows_of_def row(6) by auto
    moreover have "authority E p (abs s) (abs t)" by (rule authority_trans[OF conjunct1[OF conjunct2[OF w]] conjunct1[OF conjunct2[OF h]]])
    moreover have "\<forall>j. j \<notin> fst ` set (kv # raw) \<longrightarrow> abs t (chat_namespace p) j = abs s (chat_namespace p) j"
    proof (intro allI impI)
      fix j assume "j \<notin> fst ` set (kv # raw)"
      then have "j \<noteq> k" "j \<notin> fst ` set raw" using kv by auto
      then show "abs t (chat_namespace p) j = abs s (chat_namespace p) j" using h w by metis
    qed
    moreover have "cr_id ` set out' \<subseteq> fst ` set raw" using h by blast
    then have "cr_id ` set out \<subseteq> fst ` set (kv # raw)" using id row(6) kv by auto
    ultimately show ?thesis using h by blast
  qed
qed

lemma history_auth:
  assumes "inv s" "chat_env_ok E" "chat_wf E (abs s)" "chat_records E A now p inc s = (res, t)"
  shows "inv t \<and> authority E p (abs s) (abs t) \<and> (\<forall>rs. res = Inr rs \<longrightarrow> rows_of E p (abs t) rs)"
proof (cases "\<exists>raw ret out. ap_list A (chat_namespace p) s = Inr raw \<and> records_loop E A ret now inc raw s = (out, t) \<and> res = Inr out")
  case True
  then obtain raw ret out where r: "ap_list A (chat_namespace p) s = Inr raw" "records_loop E A ret now inc raw s = (out, t)" "res = Inr out"
    by blast
  have n: "namespace_ok (chat_namespace p)" using bad_list[OF assms(1), of "chat_namespace p"] r(1) by auto
  then have d: "distinct (map fst raw)" and v: "(k, v) \<in> set raw \<Longrightarrow> abs s (chat_namespace p) k = Some v" for k v
    using list_law[OF assms(1) n] list_rows[OF assms(1) n r(1)] r(1) by auto
  have "inv t \<and> authority E p (abs s) (abs t) \<and> rows_of E p (abs t) out \<and> cr_id ` set out \<subseteq> fst ` set raw
      \<and> (\<forall>j. j \<notin> fst ` set raw \<longrightarrow> abs t (chat_namespace p) j = abs s (chat_namespace p) j)"
    by (rule records_loop_auth[OF assms(1-3) d v r(2)])
  then show ?thesis using r(3) by simp
next
  case False
  then have "t = s" "\<forall>rs. res \<noteq> Inr rs"
    using assms(4) by (cases "ap_list A (chat_namespace p) s"; force simp: chat_records_def store_list_def split: sum.splits prod.splits)+
  then show ?thesis using assms(1) by simp
qed

lemma receipt_loop_auth:
  "inv s \<Longrightarrow> chat_env_ok E \<Longrightarrow> chat_wf E (abs s) \<Longrightarrow> rows_of E p (abs s) rs \<Longrightarrow> receipt_loop E A through at rs n s = (res, t) \<Longrightarrow>
   inv t \<and> authority E p (abs s) (abs t)"
proof (induction rs arbitrary: s n)
  case Nil
  then show ?case by auto
next
  case (Cons r rs)
  have tl: "rows_of E p (abs s) rs" using Cons.prems(4) by (simp add: rows_of_def)
  show ?case
  proof (cases "cr_direction r \<noteq> Out \<or> cr_read_at r \<noteq> None \<or> cr_id r > through")
    case True
    then show ?thesis using Cons.IH[OF Cons.prems(1-3) tl] Cons.prems(5) by simp
  next
    case False
    obtain r0 where r0: "chat_row E (abs s) p (cr_id r) = Some r0" "peer_may r0 r" using Cons.prems(4) by (auto simp: rows_of_def)
    have m: "peer_may r0 (r\<lparr>cr_read_at := Some at\<rparr>)"
      by (rule peer_may_trans[OF r0(2)]) (use False in \<open>auto simp: peer_may_def\<close>)
    obtain x s1 where a: "chat_append E A (r\<lparr>cr_read_at := Some at\<rparr>) s = (x, s1)" by fastforce
    note w = append_auth[OF Cons.prems(1-3) r0(1) m a]
    have wf: "chat_wf E (abs s1)" using authority_wf w Cons.prems(3) by blast
    have "rows_of E p (abs s1) rs"
    proof (rule rows_of_frame[OF tl])
      fix q assume "q \<in> set rs"
      then have "cr_id q \<in> cr_id ` set rs" by (rule imageI)
      moreover have "cr_id r \<notin> cr_id ` set rs" using Cons.prems(4) by (simp add: rows_of_def)
      ultimately have "cr_id q \<noteq> cr_id r" by metis
      then show "abs s1 (chat_namespace p) (cr_id q) = abs s (chat_namespace p) (cr_id q)" using w by blast
    qed
    then have ih: "receipt_loop E A through at rs k s1 = (res, t) \<Longrightarrow> inv t \<and> authority E p (abs s1) (abs t)" for k
      using Cons.IH[OF _ Cons.prems(2) wf] w by blast
    show ?thesis
    proof (cases x)
      case (Inl e)
      then show ?thesis using Cons.prems(5) False a w by simp
    next
      case (Inr u)
      then have "receipt_loop E A through at rs (n + 1) s1 = (res, t)" using Cons.prems(5) False a by simp
      from ih[OF this] show ?thesis using authority_trans[OF conjunct1[OF conjunct2[OF w]]] by blast
    qed
  qed
qed

lemma receipt_auth:
  assumes "inv s" "chat_env_ok E" "chat_wf E (abs s)" "apply_receipt E A now p through at s = (res, t)"
  shows "inv t \<and> authority E p (abs s) (abs t)"
proof -
  obtain x s1 where h: "chat_history E A now p s = (x, s1)" by fastforce
  note w = history_auth[OF assms(1-3) h[unfolded chat_history_def]]
  have wf: "chat_wf E (abs s1)" using authority_wf w assms(3) by blast
  show ?thesis
  proof (cases x)
    case (Inl e)
    then show ?thesis using assms(4) h w by (simp add: apply_receipt_def)
  next
    case (Inr rs)
    then have "receipt_loop E A through at rs 0 s1 = (res, t)" using assms(4) h by (simp add: apply_receipt_def)
    from receipt_loop_auth[OF conjunct1[OF w] assms(2) wf _ this] w Inr
    show ?thesis using authority_trans[OF conjunct1[OF conjunct2[OF w]]] by blast
  qed
qed

lemma get_append_auth:
  assumes "inv s" "chat_env_ok E" "chat_wf E (abs s)" "chat_get E A now p k s = (Inr (Some r), s1)" "peer_may r m" "chat_append E A m s1 = (res, t)"
  shows "inv t \<and> authority E p (abs s) (abs t)"
proof -
  note w = get_auth[OF assms(1-4)]
  then obtain r0 where r0: "chat_row E (abs s1) p k = Some r0" "peer_may r0 r" by blast
  have wf: "chat_wf E (abs s1)" using authority_wf w assms(3) by blast
  from append_auth[OF conjunct1[OF w] assms(2) wf r0(1) peer_may_trans[OF r0(2) assms(5)] assms(6)]
  show ?thesis using authority_trans[OF conjunct1[OF conjunct2[OF w]]] by blast
qed

lemma reaction_auth:
  assumes "inv s" "chat_env_ok E" "chat_wf E (abs s)" "apply_reaction E A now stamp p k emoji In rm s = (res, t)"
  shows "inv t \<and> authority E p (abs s) (abs t)"
proof -
  obtain x s1 where g: "chat_get E A now p k s = (x, s1)" by fastforce
  note w = get_auth[OF assms(1-3) g]
  consider "t = s1" | r rs' y where "x = Inr (Some r)" "chat_append E A (r\<lparr>cr_reactions := rs'\<rparr>) s1 = (y, t)"
      "filter (\<lambda>x. sr_by x = Out) rs' = filter (\<lambda>x. sr_by x = Out) (cr_reactions r)"
  proof (cases "\<exists>r. x = Inr (Some r)")
    case True
    then obtain r where r: "x = Inr (Some r)" by blast
    let ?P = "\<lambda>z. \<not> (sr_emoji z = emoji \<and> sr_by z = In)"
    let ?rs = "cr_reactions r" and ?k = "length (takeWhile ?P (cr_reactions r))"
    have d: "filter (\<lambda>x. sr_by x = Out) (take ?k ?rs @ drop (Suc ?k) ?rs) = filter (\<lambda>x. sr_by x = Out) ?rs" if k: "?k < length ?rs"
    proof -
      have "sr_by (?rs ! ?k) = In" using nth_length_takeWhile[OF k] by simp
      moreover have "filter (\<lambda>x. sr_by x = Out) ?rs = filter (\<lambda>x. sr_by x = Out) (take ?k ?rs @ ?rs ! ?k # drop (Suc ?k) ?rs)"
        by (rule arg_cong[OF id_take_nth_drop[OF k]])
      ultimately show ?thesis by (simp del: append_take_drop_id)
    qed
    show thesis
    proof (cases "(reaction_index emoji In ?rs, rm)")
      case (Pair o' b)
      then show thesis using assms(4) g r that d
        by (cases o'; cases b) (auto simp: apply_reaction_def reaction_index_def Let_def split: prod.splits sum.splits if_splits)
    qed
  next
    case False
    then show thesis using assms(4) g that(1) by (auto simp: apply_reaction_def split: sum.splits option.splits)
  qed
  then show ?thesis
  proof cases
    case 2
    have "peer_may r (r\<lparr>cr_reactions := rs'\<rparr>)" using 2(3) by (simp add: peer_may_def)
    from get_append_auth[OF assms(1-3) _ this 2(2)] g 2(1) show ?thesis by simp
  qed (use w in simp)
qed

lemma settle_auth:
  assumes "inv s" "chat_env_ok E" "chat_wf E (abs s)" "settle_file_row E A now p k Out St_Declined s = (res, t)"
  shows "inv t \<and> authority E p (abs s) (abs t)"
proof -
  obtain x s1 where g: "chat_get E A now p k s = (x, s1)" by fastforce
  note w = get_auth[OF assms(1-3) g]
  have wf: "chat_wf E (abs s1)" using authority_wf w assms(3) by blast
  consider "t = s1" | r y where "x = Inr (Some r)" "is_settleable_file_row Out r" "set_status E A p k St_Declined s1 = (y, t)"
    using assms(4) g by (auto simp: settle_file_row_def split: sum.splits option.splits if_splits prod.splits)
  then show ?thesis
  proof cases
    case 2
    obtain r0 where r0: "chat_row E (abs s1) p k = Some r0" "peer_may r0 r" using w 2(1) by blast
    then obtain b where b: "abs s1 (chat_namespace p) k = Some b" "record_decode E b = Inr r0" by (auto simp: chat_row_some)
    have "is_settleable_file_row Out r0" using r0(2) 2(2) unfolding peer_may_def is_settleable_file_row_def by auto
    then have m: "peer_may r0 (r0\<lparr>cr_status := St_Declined\<rparr>)" by (simp add: peer_may_def)
    have "t = s1 \<or> chat_append E A (r0\<lparr>cr_status := St_Declined\<rparr>) s1 = (y, t)"
      using get_cases[OF conjunct1[OF w], of "chat_namespace p" k] 2(3) b by (auto simp: set_status_def store_get_def)
    then show ?thesis
      using w append_auth[OF conjunct1[OF w] assms(2) wf r0(1) m] authority_trans[OF conjunct1[OF conjunct2[OF w]]] by blast
  qed (use w in simp)
qed

lemma handle_new_auth:
  assumes "inv s" "chat_env_ok E" "cr_peer_id rec = p" "str_ok (cr_id rec)" "cr_direction rec = In"
    "cr_status rec \<in> {St_Received, St_PendingApproval}" "cr_read_at rec = None" "cr_reactions rec = []"
    "handle_new E A p rec s = (res, ev, t)"
  shows "inv t \<and> authority E p (abs s) (abs t)"
proof (cases "t = s")
  case False
  then have c: "chat_contains A p (cr_id rec) s = Inr False" using assms(9)
    by (cases "chat_contains A p (cr_id rec) s") (auto simp: handle_new_def split: bool.splits)
  obtain x where a: "chat_append E A rec s = (x, t)" using assms(9) c by (auto simp: handle_new_def split: prod.splits sum.splits)
  have n: "abs s (chat_namespace p) (cr_id rec) = None"
    using c get_cases[OF assms(1), of "chat_namespace p" "cr_id rec"] by (auto simp: chat_contains_def store_get_def)
  let ?m = "reconciled E (abs s) rec"
  have m: "peer_may rec ?m" by (rule peer_may_reconciled)
  have w: "inv t" "abs t = claimed rec (abs s) \<or> abs t = row_set p (cr_id rec) (record_encode E ?m) (claimed rec (abs s))"
    using append_spec[OF assms(1,4) a] assms(3) by (auto split: if_splits)
  have "authority E p (claimed rec (abs s)) (row_set p (cr_id rec) (record_encode E ?m) (claimed rec (abs s)))"
    using n assms(2-8) m unfolding authority_def
    by (auto simp: row_set_def chat_row_def peer_may_def is_settleable_file_row_def)
  with w authority_claimed[OF assms(3), of E "abs s"] show ?thesis using authority_trans by metis
qed (use assms in simp)

lemma handle_auth:
  assumes "inv s" "chat_env_ok E" "chat_wf E (abs s)" "payload_ok E (sf_payload f)"
    "chat_handle E A comps foreign (Some p) now stamp f s = (res, ev, t)"
  shows "inv t \<and> authority E p (abs s) (abs t)"
proof -
  have t: "str_ok (cm_id m)" if "message_from_frame E f = Inr m" for m
    using that assms(4) by (auto simp: message_from_frame_def chat_payload_def payload_ok_def rbind_def split: sum.splits if_splits)
  have r: "str_ok (fr_id m)" if "file_ref_from_frame E comps f = Inr m" for m
    using that assms(4) by (auto simp: file_ref_from_frame_def chat_payload_def payload_ok_def rbind_def split: sum.splits if_splits)
  consider "t = s" | m where "message_from_frame E f = Inr m" "handle_new E A p (record_received now p m) s = (res, ev, t)"
    | m where "file_ref_from_frame E comps f = Inr m" "handle_new E A p (record_file_in now p m) s = (res, ev, t)"
    | d where "t = snd (settle_file_row E A now p d Out St_Declined s)"
    | k em rm where "t = snd (apply_reaction E A now stamp p k em In rm s)"
    | th at where "t = snd (apply_receipt E A now p th at s)"
    using assms(5) by (auto simp: chat_handle_def chat_lift_def split: sum.splits if_splits prod.splits)
  then show ?thesis
  proof cases
    case 2
    then show ?thesis using handle_new_auth[OF assms(1,2) _ _ _ _ _ _ 2(2)] t by (simp add: record_received_def)
  next
    case 3
    then show ?thesis using handle_new_auth[OF assms(1,2) _ _ _ _ _ _ 3(2)] r by (simp add: record_file_in_def)
  qed (use assms(1) settle_auth[OF assms(1-3) prod.collapse[symmetric]] reaction_auth[OF assms(1-3) prod.collapse[symmetric]]
      receipt_auth[OF assms(1-3) prod.collapse[symmetric]] in auto)
qed

end

text \<open>
  C14. Whatever frame a peer sends on the chat channel, it reaches only its own conversation: every
  other namespace - other conversations, the outbox, the windows - is as before; no row of the
  conversation disappears; a row changes at most so that an in-flight file of ours is declined, a
  message of ours is marked read, the peer's own reactions change, or an in-flight offer takes the
  name and size of its transfer; and a new row is an incoming one. The ids of rows stay the keys
  they are stored under.
\<close>

theorem peer_frame_authority:
  assumes "app_port_inv P io s" "chat_env_ok E" "chat_wf E (app_port_abs P s)" "payload_ok E (sf_payload f)"
    "chat_handle E (fs_app_port P io) comps foreign (Some p) now stamp f s = (res, ev, t)"
  shows "app_port_inv P io t \<and> chat_wf E (app_port_abs P t) \<and> authority E p (app_port_abs P s) (app_port_abs P t)"
  using strict.handle_auth[OF assms] authority_wf[OF _ assms(3)] by blast

context served_store
begin

lemma write_served:
  "inv s \<Longrightarrow> calm s \<Longrightarrow> str_ok (cr_id r) \<Longrightarrow> namespace_ok (chat_namespace (cr_peer_id r)) \<Longrightarrow> chat_write E A r s = (res, t) \<Longrightarrow>
     res = Inr () \<and> calm t"
  using put_served[of s "chat_namespace (cr_peer_id r)" "cr_id r" "record_encode E r"]
  by (cases "ap_put A (chat_namespace (cr_peer_id r)) (cr_id r) (record_encode E r) s")
    (auto simp: chat_write_def store_put_def chat_namespace_def)

lemma take_calm: "inv s \<Longrightarrow> calm s \<Longrightarrow> take_pending_landing E A p k s = (l, t) \<Longrightarrow> calm t"
  using delete_calm[of s "landing_ns p" k, OF _ _ prod.collapse[symmetric]]
  by (auto simp: take_pending_landing_def store_get_def split: sum.splits option.splits)

lemma append_served:
  assumes "inv s" "calm s" "str_ok (cr_id r)" "namespace_ok (chat_namespace (cr_peer_id r))" "namespace_ok (landing_ns (cr_peer_id r))"
    "chat_append E A r s = (res, t)"
  shows "res = Inr () \<and> calm t"
proof (cases "is_settleable_file_row In r")
  case True
  obtain l s1 where l: "take_pending_landing E A (cr_peer_id r) (cr_id r) s = (l, s1)" by fastforce
  note i = take_landing_spec[OF assms(1) l] take_calm[OF assms(1,2) l]
  obtain v where v: "l = Inr v" using i assms(5) by (cases l) auto
  have "chat_write E A (case v of None \<Rightarrow> r | Some x \<Rightarrow> landed x r) s1 = (res, t)"
    using assms(6) l v True by (auto simp: chat_append_def split: option.splits)
  then show ?thesis using write_served[OF conjunct1[OF i(1)] i(2), of "case v of None \<Rightarrow> r | Some x \<Rightarrow> landed x r"] assms(3,4)
    by (auto split: option.splits)
next
  case False
  then show ?thesis using write_served[OF assms(1-4)] assms(6) by (auto simp: chat_append_def)
qed

end

section \<open>Witnesses\<close>

lemma toy_chat_ok: "chat_env_ok toy_chat"
  by (simp add: chat_env_ok_def toy_chat_def toy_codec_ok)

lemma toy_chat_names: "namespace_ok (chat_namespace ''b'')" "namespace_ok (landing_ns ''b'')" "namespace_ok (chat_namespace ''c'')"
  "namespace_ok (landing_ns ''c'')" "str_ok ''m''" "str_ok ''b''"
  by (simp_all add: namespace_ok_def chat_namespace_def landing_ns_def slug_char_def is_ascii_alphanumeric_def str_bytes_def unat_of_char)

definition toy_msg :: chat_message where
  "toy_msg = \<lparr>cm_id = ''m'', cm_timestamp = ''t'', cm_body = ''hi'', cm_in_reply_to = None, cm_group = None\<rparr>"

definition toy_text :: session_frame where
  "toy_text = \<lparr>sf_channel = 1, sf_message_type = MSG_TEXT, sf_flags = FLAG_END_OF_MESSAGE, sf_payload = concat (map toy_put (fst tc_message toy_msg))\<rparr>"

lemma toy_text_reads: "message_from_frame toy_chat toy_text = Inr toy_msg" "sf_message_type toy_text = MSG_TEXT"
  by (simp_all add: message_from_frame_def chat_payload_def toy_text_def toy_chat_def rbind_def validate_reply_ref_def toy_msg_def MAX_BODY_def)

lemma toy_text_ok: "payload_ok toy_chat (sf_payload toy_text)"
proof -
  have "str_ok (fr_id r)" if "cd_dec (toy_codec tc_file_ref) (concat (map toy_put (fst tc_message toy_msg))) = Inr r" for r
  proof -
    let ?t = "fst tc_message toy_msg"
    have "fst (snd tc_file_ref ?t) = r" using that by (simp add: toy_codec_def toy_tokens_put Let_def split: if_splits)
    then have "fr_id r = ''m''" by (auto simp: tc_file_ref_def tc_message_def tc_map_def tc_pair_def tc_str_def toy_msg_def split: prod.splits)
    then show ?thesis using toy_chat_names(5) by simp
  qed
  then show ?thesis using toy_chat_names(5) by (auto simp: payload_ok_def toy_chat_def toy_text_def toy_msg_def simp del: map_sum_Inr)
qed

abbreviation toy_inv :: "app_store \<times> nat \<Rightarrow> bool" where
  "toy_inv \<equiv> app_port_inv toy_prims (\<lambda>_. toy_put_io)"

abbreviation toy_abs :: "app_store \<times> nat \<Rightarrow> chat_abs" where
  "toy_abs \<equiv> app_port_abs toy_prims"

theorem peer_frame_authority_witness:
  "\<exists>t. chat_handle toy_chat toy_port components_unix False (Some ''b'') 5 ''t'' toy_text (toy_app, 0) = (Inr (), [Surfaced (record_received 5 ''b'' toy_msg)], t)
     \<and> chat_row toy_chat (toy_abs t) ''b'' ''m'' = Some (record_received 5 ''b'' toy_msg) \<and> authority toy_chat ''b'' (\<lambda>_ _. None) (toy_abs t)"
proof -
  let ?r = "record_received 5 ''b'' toy_msg"
  have r: "cr_id ?r = ''m''" "cr_peer_id ?r = ''b''" "\<not> is_settleable_file_row In ?r"
    by (simp_all add: record_received_def toy_msg_def is_settleable_file_row_def)
  obtain x t where a: "chat_append toy_chat toy_port ?r (toy_app, 0) = (x, t)" by (metis prod.exhaust)
  have x: "x = Inr ()" using served.append_served[OF toy_port_inv(1) toy_port_calm _ _ _ a] r toy_chat_names by simp
  have row: "chat_row toy_chat (toy_abs t) ''b'' ''m'' = Some ?r"
    using strict.append_spec[OF toy_port_inv(1) _ a] r toy_chat_names x toy_chat_ok
    by (simp add: chat_row_set reconciled_def)
  have h: "chat_handle toy_chat toy_port components_unix False (Some ''b'') 5 ''t'' toy_text (toy_app, 0) = (Inr (), [Surfaced ?r], t)"
    using a x r app.get_law[OF toy_port_inv(1) toy_chat_names(1), of "''m''"]
    by (simp add: chat_handle_def toy_text_reads handle_new_def chat_contains_def store_get_def toy_port_inv(2))
  have "chat_wf toy_chat (toy_abs (toy_app, 0))" by (simp add: chat_wf_def chat_row_def toy_port_inv(2))
  from peer_frame_authority[OF toy_port_inv(1) toy_chat_ok this toy_text_ok h] h row show ?thesis
    by (simp add: toy_port_inv(2))
qed

end
