(* ===== verification/PB_Groups.thy ===== *)
theory PB_Groups
  imports PB_Chat_Session
begin

text \<open>
  Groups (\<open>peerbeam-groups/src\<close>): the roster a device holds, invitations, the three membership
  messages (\<open>control.rs\<close>), and sending a message to a group (\<open>groups_send\<close> of
  \<open>peerbeam-ffi/src/transfer.rs\<close>), which is one queued chat message per member.

  The trust store is the file store of \<open>PB_Trust\<close>. JSON coding and Unicode lower-casing are
  arguments. Every read-modify-write runs under the process's write lock and is one step here.
\<close>

section \<open>Data\<close>

record group_rec =
  gr_id :: string
  gr_name :: string
  gr_members :: "device_id list"

record pending_invite =
  pv_group :: string
  pv_name :: string
  pv_from :: device_id
  pv_members :: "device_id list"
  pv_at :: string

record group_invite =
  gv_group :: string
  gv_name :: string
  gv_members :: "device_id list"

datatype group_error =
    GeEmptyName | GeNameTooLong | GeDuplicateName string | GeUnknownGroup string | GeTooManyMembers
  | GeBadMember string string | GeUnreadable string | GeUnwritable string

definition GROUP_MAX_NAME :: nat where "GROUP_MAX_NAME = 64"
definition MAX_MEMBERS :: nat where "MAX_MEMBERS = 64"
definition GROUPS_NS :: string where "GROUPS_NS = ''groups''"
definition INVITES_NS :: string where "INVITES_NS = ''group-invites''"
definition MSG_GROUP_INVITE :: u16 where "MSG_GROUP_INVITE = 6"
definition MSG_GROUP_JOINED :: u16 where "MSG_GROUP_JOINED = 7"
definition MSG_GROUP_LEFT :: u16 where "MSG_GROUP_LEFT = 8"

text \<open>
  \<open>GroupJoined\<close> and \<open>GroupLeft\<close> hold only the group's id. \<open>ge_lower\<close> is \<open>str::to_lowercase\<close>;
  \<open>ge_char\<close> renders a character for an error message.
\<close>

record group_env =
  ge_group :: "group_rec codec"
  ge_pending :: "pending_invite codec"
  ge_invite :: "group_invite codec"
  ge_joined :: "string codec"
  ge_left :: "string codec"
  ge_lower :: "string \<Rightarrow> string"
  ge_char :: "string \<Rightarrow> string"

definition recipients :: "group_rec \<Rightarrow> device_id \<Rightarrow> device_id list" where
  "recipients g me = filter (\<lambda>m. m \<noteq> me) (gr_members g)"

definition holds :: "group_rec \<Rightarrow> device_id \<Rightarrow> bool" where
  "holds g device = (device \<in> set (gr_members g))"

definition normalise :: "group_env \<Rightarrow> string \<Rightarrow> string" where
  "normalise G name = ge_lower G (join_with (CHR '' '') (split_whitespace name))"

definition group_validate_name :: "string \<Rightarrow> (group_error, string) result" where
  "group_validate_name name =
     (let trimmed = str_trim name in
      if trimmed = [] then Inl GeEmptyName
      else if length (str_chars trimmed) > GROUP_MAX_NAME then Inl GeNameTooLong
      else Inr trimmed)"

definition validate_member :: "group_env \<Rightarrow> device_id \<Rightarrow> (group_error, unit) result" where
  "validate_member G raw =
     (if str_trim raw = [] then Inl (GeBadMember raw ''it is empty'')
      else case find (\<lambda>g. is_control_point (code_point g) \<or> g \<in> {''/'', [CHR 0x5C], [CHR 0x00]}) (str_chars raw) of
        Some bad \<Rightarrow> Inl (GeBadMember raw (''it contains '' @ ge_char G bad))
      | None \<Rightarrow> Inr ())"

fun validate_members :: "group_env \<Rightarrow> device_id list \<Rightarrow> (group_error, unit) result" where
  "validate_members G [] = Inr ()"
| "validate_members G (m # ms) = rbind (validate_member G m) (\<lambda>_. validate_members G ms)"

section \<open>The store\<close>

definition group_list :: "group_env \<Rightarrow> 's app_port \<Rightarrow> 's \<Rightarrow> (group_error, group_rec list) result" where
  "group_list G A s =
     (case ap_list A GROUPS_NS s of
        Inl e \<Rightarrow> Inl (GeUnreadable (domain_error_show e))
      | Inr raw \<Rightarrow> Inr (sort_key (\<lambda>g. normalise G (gr_name g))
          (List.map_filter (\<lambda>(_, b). case cd_dec (ge_group G) b of Inr g \<Rightarrow> Some g | Inl _ \<Rightarrow> None) raw)))"

definition group_get :: "group_env \<Rightarrow> 's app_port \<Rightarrow> string \<Rightarrow> 's \<Rightarrow> (group_error, group_rec) result" where
  "group_get G A i s = rbind (group_list G A s) (\<lambda>gs.
     case find (\<lambda>g. gr_id g = i) gs of Some g \<Rightarrow> Inr g | None \<Rightarrow> Inl (GeUnknownGroup i))"

definition group_write :: "group_env \<Rightarrow> 's app_port \<Rightarrow> group_rec \<Rightarrow> 's \<Rightarrow> (group_error, group_rec) result \<times> 's" where
  "group_write G A g s =
     (case cd_enc (ge_group G) g of
        Inl e \<Rightarrow> (Inl (GeUnwritable e), s)
      | Inr b \<Rightarrow> (case ap_put A GROUPS_NS (gr_id g) b s of
          (Inl e, s) \<Rightarrow> (Inl (GeUnwritable (domain_error_show e)), s) | (Inr _, s) \<Rightarrow> (Inr g, s)))"

text \<open>The random id: sixteen bytes in hex.\<close>

definition group_create :: "group_env \<Rightarrow> 's app_port \<Rightarrow> device_id \<Rightarrow> bytes \<Rightarrow> string \<Rightarrow> 's \<Rightarrow> (group_error, group_rec) result \<times> 's" where
  "group_create G A me random name s =
     (case group_validate_name name of
        Inl e \<Rightarrow> (Inl e, s)
      | Inr name \<Rightarrow> (case group_list G A s of
          Inl e \<Rightarrow> (Inl e, s)
        | Inr gs \<Rightarrow>
            if list_ex (\<lambda>g. normalise G (gr_name g) = normalise G name) gs then (Inl (GeDuplicateName name), s)
            else group_write G A \<lparr>gr_id = hex_encode random, gr_name = name, gr_members = [me]\<rparr> s))"

definition group_adopt :: "group_env \<Rightarrow> 's app_port \<Rightarrow> device_id \<Rightarrow> string \<Rightarrow> string \<Rightarrow> device_id list \<Rightarrow> 's
    \<Rightarrow> (group_error, group_rec) result \<times> 's" where
  "group_adopt G A me i name members s =
     (case group_validate_name name of
        Inl e \<Rightarrow> (Inl e, s)
      | Inr name \<Rightarrow> (case validate_members G members of
          Inl e \<Rightarrow> (Inl e, s)
        | Inr _ \<Rightarrow>
            (let roster = (if me \<in> set members then members else members @ [me])
             in if length roster > MAX_MEMBERS then (Inl GeTooManyMembers, s)
                else group_write G A \<lparr>gr_id = i, gr_name = name, gr_members = roster\<rparr> s)))"

definition add_member :: "group_env \<Rightarrow> 's app_port \<Rightarrow> string \<Rightarrow> device_id \<Rightarrow> 's \<Rightarrow> (group_error, group_rec) result \<times> 's" where
  "add_member G A i device s =
     (case validate_member G device of
        Inl e \<Rightarrow> (Inl e, s)
      | Inr _ \<Rightarrow> (case group_get G A i s of
          Inl e \<Rightarrow> (Inl e, s)
        | Inr g \<Rightarrow>
            if holds g device then (Inr g, s)
            else if length (gr_members g) + 1 > MAX_MEMBERS then (Inl GeTooManyMembers, s)
            else group_write G A (g\<lparr>gr_members := gr_members g @ [device]\<rparr>) s))"

definition remove_member :: "group_env \<Rightarrow> 's app_port \<Rightarrow> string \<Rightarrow> device_id \<Rightarrow> 's \<Rightarrow> (group_error, group_rec) result \<times> 's" where
  "remove_member G A i device s =
     (case group_get G A i s of
        Inl e \<Rightarrow> (Inl e, s)
      | Inr g \<Rightarrow> group_write G A (g\<lparr>gr_members := filter (\<lambda>m. m \<noteq> device) (gr_members g)\<rparr>) s)"

definition group_forget :: "'s app_port \<Rightarrow> string \<Rightarrow> 's \<Rightarrow> (group_error, bool) result \<times> 's" where
  "group_forget A i s = (case ap_delete A GROUPS_NS i s of (r, t) \<Rightarrow> (map_sum (\<lambda>e. GeUnwritable (domain_error_show e)) (\<lambda>b. b) r, t))"

definition group_rename :: "group_env \<Rightarrow> 's app_port \<Rightarrow> string \<Rightarrow> string \<Rightarrow> 's \<Rightarrow> (group_error, group_rec) result \<times> 's" where
  "group_rename G A i name s =
     (case group_validate_name name of
        Inl e \<Rightarrow> (Inl e, s)
      | Inr name \<Rightarrow> (case group_get G A i s of
          Inl e \<Rightarrow> (Inl e, s)
        | Inr g \<Rightarrow> (case group_list G A s of
            Inl e \<Rightarrow> (Inl e, s)
          | Inr gs \<Rightarrow>
              if list_ex (\<lambda>h. gr_id h \<noteq> i \<and> normalise G (gr_name h) = normalise G name) gs then (Inl (GeDuplicateName name), s)
              else group_write G A (g\<lparr>gr_name := name\<rparr>) s)))"

definition record_invite :: "group_env \<Rightarrow> 's app_port \<Rightarrow> pending_invite \<Rightarrow> 's \<Rightarrow> (group_error, unit) result \<times> 's" where
  "record_invite G A v s =
     (case validate_members G (pv_members v) of
        Inl e \<Rightarrow> (Inl e, s)
      | Inr _ \<Rightarrow> (case cd_enc (ge_pending G) v of
          Inl e \<Rightarrow> (Inl (GeUnwritable e), s)
        | Inr b \<Rightarrow> (case ap_put A INVITES_NS (pv_group v) b s of
            (r, t) \<Rightarrow> (map_sum (\<lambda>e. GeUnwritable (domain_error_show e)) (\<lambda>_. ()) r, t))))"

definition group_invites :: "group_env \<Rightarrow> 's app_port \<Rightarrow> 's \<Rightarrow> (group_error, pending_invite list) result" where
  "group_invites G A s =
     (case ap_list A INVITES_NS s of
        Inl e \<Rightarrow> Inl (GeUnreadable (domain_error_show e))
      | Inr raw \<Rightarrow> rbind (group_list G A s) (\<lambda>held.
          Inr (filter (\<lambda>v. \<not> list_ex (\<lambda>g. gr_id g = pv_group v) held)
            (List.map_filter (\<lambda>(_, b). case cd_dec (ge_pending G) b of Inr v \<Rightarrow> Some v | Inl _ \<Rightarrow> None) raw))))"

definition pending_for :: "group_env \<Rightarrow> 's app_port \<Rightarrow> string \<Rightarrow> 's \<Rightarrow> (group_error, pending_invite option) result" where
  "pending_for G A i s = rbind (group_invites G A s) (\<lambda>vs. Inr (find (\<lambda>v. pv_group v = i) vs))"

definition forget_invite :: "'s app_port \<Rightarrow> string \<Rightarrow> 's \<Rightarrow> (group_error, bool) result \<times> 's" where
  "forget_invite A i s = (case ap_delete A INVITES_NS i s of (r, t) \<Rightarrow> (map_sum (\<lambda>e. GeUnwritable (domain_error_show e)) (\<lambda>b. b) r, t))"

text \<open>\<open>now m\<close> is the clock when the trust store is asked about \<open>m\<close>.\<close>

definition reachable :: "group_env \<Rightarrow> 's app_port \<Rightarrow> fs_trust \<Rightarrow> (device_id \<Rightarrow> int) \<Rightarrow> device_id \<Rightarrow> string \<Rightarrow> 's
    \<Rightarrow> (group_error, device_id list \<times> device_id list) result" where
  "reachable G A trust now me i s =
     rbind (group_get G A i s) (\<lambda>g. Inr (partition (\<lambda>m. may trust m Chat (now m)) (recipients g me)))"

section \<open>Membership messages\<close>

datatype group_event = Invited string string device_id "device_id list" | Joined string device_id | Left_group string device_id | Ignored

definition group_apply :: "group_env \<Rightarrow> 's app_port \<Rightarrow> device_id \<Rightarrow> u16 \<Rightarrow> bytes \<Rightarrow> 's \<Rightarrow> (group_error, group_event) result \<times> 's" where
  "group_apply G A sender t payload s =
     (if t = MSG_GROUP_INVITE then
        (case cd_dec (ge_invite G) payload of
           Inl _ \<Rightarrow> (Inr Ignored, s)
         | Inr v \<Rightarrow> (Inr (Invited (gv_group v) (gv_name v) sender (gv_members v)), s))
      else if t = MSG_GROUP_JOINED then
        (case cd_dec (ge_joined G) payload of
           Inl _ \<Rightarrow> (Inr Ignored, s)
         | Inr i \<Rightarrow> (case group_get G A i s of
             Inl _ \<Rightarrow> (Inr Ignored, s)
           | Inr _ \<Rightarrow> (case add_member G A i sender s of
               (Inl e, s) \<Rightarrow> (Inl e, s) | (Inr _, s) \<Rightarrow> (Inr (Joined i sender), s))))
      else if t = MSG_GROUP_LEFT then
        (case cd_dec (ge_left G) payload of
           Inl _ \<Rightarrow> (Inr Ignored, s)
         | Inr i \<Rightarrow> (case group_get G A i s of
             Inl _ \<Rightarrow> (Inr Ignored, s)
           | Inr _ \<Rightarrow> (case remove_member G A i sender s of
               (Inl e, s) \<Rightarrow> (Inl e, s) | (Inr _, s) \<Rightarrow> (Inr (Left_group i sender), s))))
      else (Inr Ignored, s))"

text \<open>The sink of \<open>peerbeam-ffi/src/groups_sync.rs\<close>; an error is only logged.\<close>

definition groups_sink :: "group_env \<Rightarrow> 's app_port \<Rightarrow> string \<Rightarrow> device_id \<Rightarrow> u16 \<Rightarrow> bytes \<Rightarrow> 's \<Rightarrow> 's" where
  "groups_sink G A stamp peer t payload s =
     (case group_apply G A peer t payload s of
        (Inr (Invited i name from members), s) \<Rightarrow>
          snd (record_invite G A \<lparr>pv_group = i, pv_name = name, pv_from = from, pv_members = members, pv_at = stamp\<rparr> s)
      | (_, s) \<Rightarrow> s)"

section \<open>Accepting and sending\<close>

datatype op_error = OpPermissionDenied string | OpInvalid string | OpInternal chat_error | OpGroup group_error

definition groups_accept :: "group_env \<Rightarrow> 's app_port \<Rightarrow> device_id \<Rightarrow> string \<Rightarrow> 's \<Rightarrow> (op_error, group_rec) result \<times> 's" where
  "groups_accept G A me i s =
     (case pending_for G A i s of
        Inl e \<Rightarrow> (Inl (OpGroup e), s)
      | Inr None \<Rightarrow> (Inl (OpInvalid ''no such invitation''), s)
      | Inr (Some v) \<Rightarrow> (case group_adopt G A me (pv_group v) (pv_name v) (pv_members v) s of
          (Inl e, s) \<Rightarrow> (Inl (OpGroup e), s)
        | (Inr g, s) \<Rightarrow> (case forget_invite A (pv_group v) s of
            (Inl e, s) \<Rightarrow> (Inl (OpGroup e), s)
          | (Inr _, s) \<Rightarrow> (Inr g, s))))"

fun enqueue_all :: "chat_env \<Rightarrow> 's app_port \<Rightarrow> (device_id \<Rightarrow> int) \<Rightarrow> chat_message \<Rightarrow> device_id list \<Rightarrow> 's \<Rightarrow> (chat_error, unit) result \<times> 's" where
  "enqueue_all E A now msg [] s = (Inr (), s)"
| "enqueue_all E A now msg (m # ms) s =
     (case enqueue E A (now m) m msg s of (Inl e, s) \<Rightarrow> (Inl e, s) | (Inr _, s) \<Rightarrow> enqueue_all E A now msg ms s)"

definition groups_send :: "chat_env \<Rightarrow> group_env \<Rightarrow> 's app_port \<Rightarrow> fs_trust \<Rightarrow> (device_id \<Rightarrow> int) \<Rightarrow> int \<Rightarrow> u64 \<Rightarrow> string \<Rightarrow> device_id \<Rightarrow> string
    \<Rightarrow> string \<Rightarrow> u64 \<times> u64 \<Rightarrow> 's \<Rightarrow> (op_error, string \<times> nat \<times> device_id list) result \<times> (u64 \<times> u64) \<times> 's" where
  "groups_send E G A trust now now_ms sample stamp me i txt ids s =
     (case group_get G A i s of
        Inl e \<Rightarrow> (Inl (OpGroup e), ids, s)
      | Inr g \<Rightarrow> (case reachable G A trust now me (gr_id g) s of
          Inl e \<Rightarrow> (Inl (OpGroup e), ids, s)
        | Inr (live, stale) \<Rightarrow>
            if live = [] then (Inl (OpPermissionDenied (gr_name g @ '' has nobody this device may message'')), ids, s)
            else (case message_new now_ms sample stamp txt ids of
                (Inl e, ids) \<Rightarrow> (Inl (OpInvalid (chat_error_show e)), ids, s)
              | (Inr msg, ids) \<Rightarrow>
                  (case enqueue_all E A now (msg\<lparr>cm_group := Some (gr_id g)\<rparr>) live s of
                     (Inl e, s) \<Rightarrow> (Inl (OpInternal e), ids, s)
                   | (Inr _, s) \<Rightarrow> (Inr (cm_id msg, length live, stale), ids, s)))))"

end
