(* ===== verification/PB_Chat_Outbox.thy ===== *)
theory PB_Chat_Outbox
  imports PB_Chat_Props PB_Groups
begin

text \<open>
  The outbox: what a queue entry is stored under, which entries a drain sees,
  and what happens to a message sent to a group.

  The outbox is keyed by message id alone. A group message is queued once per member under one id,
  so each copy replaces the one before it.
\<close>

section \<open>Entries\<close>

definition outbox_row :: "chat_env \<Rightarrow> chat_abs \<Rightarrow> string \<Rightarrow> outbox_entry option" where
  "outbox_row E a k = (case a OUTBOX_NS k of
     None \<Rightarrow> None | Some b \<Rightarrow> (case entry_decode E b of Inr e \<Rightarrow> Some e | Inl _ \<Rightarrow> None))"

definition outbox_wf :: "chat_env \<Rightarrow> chat_abs \<Rightarrow> bool" where
  "outbox_wf E a = (\<forall>k e. outbox_row E a k = Some e \<longrightarrow> oe_message_id e = k)"

lemma outbox_row_some: "outbox_row E a k = Some e \<longleftrightarrow> (\<exists>b. a OUTBOX_NS k = Some b \<and> entry_decode E b = Inr e)"
  by (auto simp: outbox_row_def split: option.splits sum.splits)

definition decoded_entries :: "chat_env \<Rightarrow> (string \<times> bytes) list \<Rightarrow> outbox_entry list" where
  "decoded_entries E raw = List.map_filter (\<lambda>(_, v). case entry_decode E v of Inr e \<Rightarrow> Some e | Inl _ \<Rightarrow> None) raw"

lemma decoded_entries_simps [simp]:
  "decoded_entries E [] = []"
  "decoded_entries E ((k, v) # raw) = (case entry_decode E v of Inr e \<Rightarrow> e # decoded_entries E raw | Inl _ \<Rightarrow> decoded_entries E raw)"
  by (auto simp: decoded_entries_def List.map_filter_def split: sum.splits)

lemma set_decoded: "e \<in> set (decoded_entries E raw) \<longleftrightarrow> (\<exists>k v. (k, v) \<in> set raw \<and> entry_decode E v = Inr e)"
  by (induction raw) (auto split: sum.splits, blast+)

lemma decoded_sorted:
  "sorted (map fst raw) \<Longrightarrow> distinct (map fst raw) \<Longrightarrow> \<forall>k v e. (k, v) \<in> set raw \<longrightarrow> entry_decode E v = Inr e \<longrightarrow> oe_message_id e = k \<Longrightarrow>
   sorted (map oe_message_id (decoded_entries E raw)) \<and> distinct (map oe_message_id (decoded_entries E raw))
     \<and> oe_message_id ` set (decoded_entries E raw) \<subseteq> fst ` set raw"
proof (induction raw)
  case (Cons kv raw)
  obtain k v where kv: "kv = (k, v)" by fastforce
  have ih: "sorted (map oe_message_id (decoded_entries E raw))" "distinct (map oe_message_id (decoded_entries E raw))"
    "oe_message_id ` set (decoded_entries E raw) \<subseteq> fst ` set raw"
    using Cons.IH Cons.prems by auto
  show ?case
  proof (cases "entry_decode E v")
    case (Inr e)
    then have "oe_message_id e = k" using Cons.prems(3) kv by simp
    moreover have "\<forall>x \<in> fst ` set raw. k \<le> x \<and> x \<noteq> k" using Cons.prems(1,2) kv by auto
    then have "\<forall>x \<in> oe_message_id ` set (decoded_entries E raw). k \<le> x \<and> x \<noteq> k" using ih(3) by blast
    ultimately show ?thesis using ih Inr kv by auto
  qed (use ih kv in auto)
qed simp

text \<open>An entry a drain still sees: a decline, or one inside its conversation's window.\<close>

definition entry_live :: "chat_env \<Rightarrow> 's app_port \<Rightarrow> int \<Rightarrow> 's \<Rightarrow> outbox_entry \<Rightarrow> bool" where
  "entry_live E A now s e = (oe_kind e = Kd_Decline \<or>
     (\<exists>ret. chat_retention E A (oe_peer_id e) s = Inr ret \<and> \<not> entry_disappeared E e ret now))"

lemma pending_loop_eq:
  assumes "\<And>p r. windows p = Some r \<Longrightarrow> chat_retention E A p s = Inr r" "pending_loop E A now windows raw s = Inr es"
  shows "es = filter (entry_live E A now s) (decoded_entries E raw)"
  using assms
proof (induction raw arbitrary: windows es)
  case (Cons kv raw)
  obtain k v where kv: "kv = (k, v)" by fastforce
  show ?case
  proof (cases "entry_decode E v")
    case (Inl e)
    then show ?thesis using Cons.IH[OF Cons.prems(1)] Cons.prems(2) kv by simp
  next
    case (Inr e)
    let ?p = "oe_peer_id e"
    obtain ret where r: "(case windows ?p of Some r \<Rightarrow> Inr r | None \<Rightarrow> chat_retention E A ?p s) = Inr ret"
      using Cons.prems(2) Inr kv by (auto simp: rbind_def split: sum.splits)
    then have ret: "chat_retention E A ?p s = Inr ret" using Cons.prems(1) by (auto split: option.splits)
    have c: "\<And>p r. (windows(?p \<mapsto> ret)) p = Some r \<Longrightarrow> chat_retention E A p s = Inr r" using Cons.prems(1) ret by (auto split: if_splits)
    show ?thesis
    proof (cases "oe_kind e \<noteq> Kd_Decline \<and> entry_disappeared E e ret now")
      case True
      then have "pending_loop E A now (windows(?p \<mapsto> ret)) raw s = Inr es"
        using Cons.prems(2) Inr r kv by (simp add: rbind_def)
      from Cons.IH[OF c this] show ?thesis using True Inr ret kv by (simp add: entry_live_def)
    next
      case False
      then obtain out where o: "pending_loop E A now (windows(?p \<mapsto> ret)) raw s = Inr out" "es = e # out"
        using Cons.prems(2) Inr r kv by (auto simp: rbind_def split: sum.splits)
      from Cons.IH[OF c o(1)] show ?thesis using False Inr ret kv o(2) by (auto simp: entry_live_def)
    qed
  qed
qed simp

context strict_store
begin

lemma outbox_for_spec:
  assumes "inv s" "outbox_for E A now p s = Inr es"
  shows "\<exists>raw. sorted (map fst raw) \<and> distinct (map fst raw) \<and> map_of raw = abs s OUTBOX_NS
    \<and> es = filter (\<lambda>e. oe_peer_id e = p) (filter (entry_live E A now s) (decoded_entries E raw))"
proof -
  obtain raw where r: "ap_list A OUTBOX_NS s = Inr raw" "sorted (map fst raw)" "distinct (map fst raw)" "map_of raw = abs s OUTBOX_NS"
    using list_law[OF assms(1) fixed_ns_ok(1)] by blast
  then obtain ps where ps: "pending_loop E A now Map.empty raw s = Inr ps" "es = filter (\<lambda>e. oe_peer_id e = p) ps"
    using assms(2) by (auto simp: outbox_for_def outbox_pending_def store_list_def rbind_def split: sum.splits)
  with pending_loop_eq[OF _ ps(1)] r show ?thesis by auto
qed

lemma outbox_for_rows:
  assumes "inv s" "outbox_wf E (abs s)" "outbox_for E A now p s = Inr es"
  shows "sorted (map oe_message_id es) \<and> distinct (map oe_message_id es)
    \<and> (\<forall>e \<in> set es. outbox_row E (abs s) (oe_message_id e) = Some e \<and> oe_peer_id e = p \<and> entry_live E A now s e)"
proof -
  obtain raw where r: "sorted (map fst raw)" "distinct (map fst raw)" "map_of raw = abs s OUTBOX_NS"
    "es = filter (\<lambda>e. oe_peer_id e = p) (filter (entry_live E A now s) (decoded_entries E raw))"
    using outbox_for_spec[OF assms(1,3)] by blast
  have key: "outbox_row E (abs s) k = Some e" "oe_message_id e = k" if "(k, v) \<in> set raw" "entry_decode E v = Inr e" for k v e
  proof -
    have "abs s OUTBOX_NS k = Some v" using that(1) r(2,3) by (metis map_of_eq_Some_iff)
    with that(2) show "outbox_row E (abs s) k = Some e" by (simp add: outbox_row_some)
    then show "oe_message_id e = k" using assms(2) by (simp add: outbox_wf_def)
  qed
  have "sorted (map oe_message_id (decoded_entries E raw)) \<and> distinct (map oe_message_id (decoded_entries E raw))
      \<and> oe_message_id ` set (decoded_entries E raw) \<subseteq> fst ` set raw"
    by (rule decoded_sorted[OF r(1,2)]) (use key(2) in blast)
  then have "sorted (map oe_message_id es)" "distinct (map oe_message_id es)" unfolding r(4) by (auto intro: sorted_filter distinct_map_filter)
  moreover have "outbox_row E (abs s) (oe_message_id e) = Some e \<and> oe_peer_id e = p \<and> entry_live E A now s e" if "e \<in> set es" for e
    using that key r(4) by (auto simp: set_decoded)
  ultimately show ?thesis by blast
qed

end

section \<open>Queueing\<close>

definition text_entry :: "device_id \<Rightarrow> chat_message \<Rightarrow> outbox_entry" where
  "text_entry p msg = \<lparr>oe_peer_id = p, oe_message_id = cm_id msg, oe_body = cm_body msg, oe_timestamp = cm_timestamp msg,
     oe_kind = Kd_Text, oe_file = None, oe_offers_refused = 0, oe_in_reply_to = cm_in_reply_to msg, oe_group = cm_group msg\<rparr>"

definition queued :: "string \<Rightarrow> bytes \<Rightarrow> chat_abs \<Rightarrow> chat_abs" where
  "queued k b a = a(OUTBOX_NS := (a OUTBOX_NS)(k \<mapsto> b))"

lemma queued_simps [simp]: "queued k b a (chat_namespace p) = a (chat_namespace p)" "queued k b a RETENTION_NS = a RETENTION_NS"
  "chat_row E (queued k b a) = chat_row E a"
  by (simp_all add: queued_def chat_row_def fun_eq_iff)

lemma outbox_row_updates: "outbox_row E (queued k b a) j = (if j = k then (case entry_decode E b of Inr e \<Rightarrow> Some e | Inl _ \<Rightarrow> None) else outbox_row E a j)"
  "outbox_row E (row_set p k b a) = outbox_row E a"
  by (auto simp: outbox_row_def queued_def fun_eq_iff)

context strict_store
begin

lemma enqueue_spec:
  assumes "inv s" "str_ok (cm_id msg)" "enqueue E A now p msg s = (Inr (), t)"
  shows "inv t \<and> abs t = queued (cm_id msg) (entry_encode E (text_entry p msg))
      (row_set p (cm_id msg) (record_encode E (record_out now p msg St_Pending)) (abs s))"
proof -
  let ?r = "record_out now p msg St_Pending"
  have r: "cr_id ?r = cm_id msg" "cr_peer_id ?r = p" "\<not> is_settleable_file_row In ?r"
    by (simp_all add: record_out_def is_settleable_file_row_def)
  obtain x s1 where a: "chat_append E A ?r s = (x, s1)" by fastforce
  then have x: "x = Inr ()" using assms(3) by (cases x) (auto simp: enqueue_def)
  have s1: "inv s1" "abs s1 = row_set p (cm_id msg) (record_encode E ?r) (abs s)"
    using append_spec[OF assms(1) _ a] assms(2) r x by (simp_all add: reconciled_def claimed_def)
  have "store_put A OUTBOX_NS (cm_id msg) (entry_encode E (text_entry p msg)) s1 = (Inr (), t)"
    using assms(3) a x by (simp add: enqueue_def text_entry_def)
  then have "ap_put A OUTBOX_NS (cm_id msg) (entry_encode E (text_entry p msg)) s1 = (Inr (), t)"
    by (auto simp: store_put_def split: prod.splits)
  from put_law[OF s1(1) assms(2) this] show ?thesis using s1(2) by (simp add: queued_def)
qed

lemma enqueue_all_spec:
  assumes "chat_env_ok E" "str_ok (cm_id msg)"
  shows "inv s \<Longrightarrow> outbox_wf E (abs s) \<Longrightarrow> enqueue_all E A now msg ms s = (Inr (), t) \<Longrightarrow>
    inv t \<and> outbox_wf E (abs t) \<and> (ms \<noteq> [] \<longrightarrow> outbox_row E (abs t) (cm_id msg) = Some (text_entry (last ms) msg))
    \<and> (\<forall>k. k \<noteq> cm_id msg \<longrightarrow> abs t OUTBOX_NS k = abs s OUTBOX_NS k)
    \<and> (\<forall>m. chat_row E (abs t) m (cm_id msg) = (if m \<in> set ms then Some (record_out (now m) m msg St_Pending) else chat_row E (abs s) m (cm_id msg)))"
proof (induction ms arbitrary: s)
  case (Cons m ms)
  obtain x s1 where e: "enqueue E A (now m) m msg s = (x, s1)" by fastforce
  then have l: "x = Inr ()" "enqueue_all E A now msg ms s1 = (Inr (), t)" using Cons.prems(3) by (cases x; simp)+
  note s1 = enqueue_spec[OF Cons.prems(1) assms(2), of E "now m" m s1] e l(1)
  have a: "abs s1 = queued (cm_id msg) (entry_encode E (text_entry m msg))
      (row_set m (cm_id msg) (record_encode E (record_out (now m) m msg St_Pending)) (abs s))" and i: "inv s1" using s1 by auto
  have o: "outbox_row E (abs s1) j = (if j = cm_id msg then Some (text_entry m msg) else outbox_row E (abs s) j)" for j
    using assms(1) by (simp add: a outbox_row_updates)
  have w: "outbox_wf E (abs s1)" using Cons.prems(2) o by (auto simp: outbox_wf_def text_entry_def)
  have r: "chat_row E (abs s1) q (cm_id msg) = (if q = m then Some (record_out (now m) m msg St_Pending) else chat_row E (abs s) q (cm_id msg))" for q
    using assms(1) by (simp add: a chat_row_set)
  have q: "abs s1 OUTBOX_NS k = abs s OUTBOX_NS k" if "k \<noteq> cm_id msg" for k using that by (simp add: a queued_def)
  from Cons.IH[OF i w l(2)] o[of "cm_id msg"] r q show ?case by (cases "ms = []") (use l(2) in auto)
qed auto

end

lemma hex_ok: "str_ok (hex_encode b)"
  by (simp add: ascii_utf8 hex_encode_ascii)

lemma minted_ok: "str_ok (fst (mint_id now_ms sample prev))"
proof -
  have "is_ascii (show_nat n)" for n
  proof (induction n rule: show_nat.induct)
    case (1 n)
    have "(of_char (char_of (48 + m mod 10) :: char) :: nat) < 128" "m < 10 \<Longrightarrow> (of_char (char_of (48 + m) :: char) :: nat) < 128" for m :: nat
      by (simp_all add: take_bit_eq_mod)
    with 1 show ?case by (subst show_nat.simps) (simp add: is_ascii_def)
  qed
  then have "is_ascii (pad13 (show_nat n))" for n by (auto simp: pad13_def is_ascii_def list_all_iff)
  then show ?thesis using ascii_utf8 str_ok_append hex_ok by (simp add: mint_id_def Let_def split: prod.splits)
qed

text \<open>
  C16. A message to a group is queued for one member only. When \<open>groups_send\<close> reports that it sent
  to \<open>n\<close> members, every one of them has a row of the message marked pending in this device's own
  history, yet the outbox holds a single entry under the message's id, addressed to the last
  member: a drain for any other member finds no copy, now or later, and nothing else in the store
  remembers that one is owed.
\<close>

theorem group_message_reaches_last_member:
  assumes "app_port_inv P io s" "chat_env_ok E" "outbox_wf E (app_port_abs P s)"
    "groups_send E G (fs_app_port P io) trust now now_ms sample stamp me gid txt ids s = (Inr (i, n, skipped), ids', t)"
  shows "\<exists>live. reachable G (fs_app_port P io) trust now me gid s = Inr (live, skipped) \<and> n = length live \<and> live \<noteq> []
    \<and> (\<forall>m \<in> set live. \<exists>r. chat_row E (app_port_abs P t) m i = Some r \<and> cr_status r = St_Pending)
    \<and> (\<exists>e. outbox_row E (app_port_abs P t) i = Some e \<and> oe_peer_id e = last live)
    \<and> (\<forall>m when es. m \<noteq> last live \<longrightarrow> outbox_for E (fs_app_port P io) when m t = Inr es \<longrightarrow> i \<notin> oe_message_id ` set es)"
proof -
  let ?A = "fs_app_port P io"
  obtain g where g: "group_get G ?A gid s = Inr g" using assms(4) by (auto simp: groups_send_def split: sum.splits)
  then have gid: "gr_id g = gid" by (auto simp: group_get_def rbind_def find_Some_iff split: sum.splits option.splits)
  obtain live st where l: "reachable G ?A trust now me gid s = Inr (live, st)"
    using assms(4) g gid by (auto simp: groups_send_def split: sum.splits)
  have ne: "live \<noteq> []" using assms(4) g l gid by (auto simp: groups_send_def)
  obtain msg ids1 where m: "message_new now_ms sample stamp txt ids = (Inr msg, ids1)"
    using assms(4) g l ne gid by (cases "message_new now_ms sample stamp txt ids"; cases "fst (message_new now_ms sample stamp txt ids)")
      (auto simp: groups_send_def)
  let ?m = "msg\<lparr>cm_group := Some (gr_id g)\<rparr>"
  have e: "enqueue_all E ?A now ?m live s = (Inr (), t)" "i = cm_id msg" "n = length live" "st = skipped"
    using assms(4) g l ne m gid by (auto simp: groups_send_def split: prod.splits sum.splits)
  have "str_ok (cm_id ?m)" using m minted_ok[of now_ms sample ids]
    by (auto simp: message_new_def message_replying_def rbind_def split: if_splits prod.splits sum.splits)
  note sp = strict.enqueue_all_spec[OF assms(2) this assms(1,3) e(1)]
  have "i \<notin> oe_message_id ` set es" if "x \<noteq> last live" "outbox_for E ?A when x t = Inr es" for x "when" es
  proof
    assume "i \<in> oe_message_id ` set es"
    then obtain y where "y \<in> set es" "oe_message_id y = i" by blast
    then have "outbox_row E (app_port_abs P t) i = Some y" "oe_peer_id y = x"
      using strict.outbox_for_rows[of P io t E "when" x es] sp that(2) by auto
    then show False using sp ne e(2) that(1) by (simp add: text_entry_def)
  qed
  then show ?thesis using l ne e sp by (auto simp: record_out_def text_entry_def)
qed

context served_store
begin

lemma enqueue_served:
  assumes "inv s" "calm s" "str_ok (cm_id msg)" "namespace_ok (chat_namespace p)" "enqueue E A now p msg s = (r, t)"
  shows "r = Inr () \<and> inv t \<and> calm t"
proof -
  let ?r = "record_out now p msg St_Pending"
  have i: "cr_id ?r = cm_id msg" "cr_peer_id ?r = p" "\<not> is_settleable_file_row In ?r"
    by (simp_all add: record_out_def is_settleable_file_row_def)
  obtain x s1 where w: "chat_write E A ?r s = (x, s1)" by fastforce
  then have x: "x = Inr ()" "calm s1" "inv s1"
    using write_served[OF assms(1,2) _ _ w] chat_write_spec[OF assms(1) _ w] assms(3,4) i by simp_all
  obtain y t' where p: "ap_put A OUTBOX_NS (cm_id msg) (entry_encode E (text_entry p msg)) s1 = (y, t')" by fastforce
  have "r = map_sum cerr (\<lambda>_. ()) y" "t = t'"
    using assms(5) w x(1) i p by (auto simp: enqueue_def chat_append_def store_put_def text_entry_def)
  then show ?thesis using put_served[OF x(3,2) fixed_ns_ok(1) assms(3) p] put_law[OF x(3) assms(3) p] by simp
qed

lemma enqueue_all_served:
  "inv s \<Longrightarrow> calm s \<Longrightarrow> str_ok (cm_id msg) \<Longrightarrow> \<forall>m \<in> set ms. namespace_ok (chat_namespace m) \<Longrightarrow> \<exists>t. enqueue_all E A now msg ms s = (Inr (), t)"
proof (induction ms arbitrary: s)
  case (Cons m ms)
  obtain r t where e: "enqueue E A (now m) m msg s = (r, t)" by fastforce
  have "r = Inr () \<and> inv t \<and> calm t" by (rule enqueue_served[OF Cons.prems(1-3) _ e]) (use Cons.prems(4) in simp)
  then show ?case using Cons.IH[of t] Cons.prems(3,4) e by simp
qed simp

end

section \<open>Witnesses\<close>

definition tc_group :: "group_rec token_codec" where
  "tc_group = tc_map (\<lambda>g. (gr_id g, gr_name g, gr_members g)) (\<lambda>(a, b, c). \<lparr>gr_id = a, gr_name = b, gr_members = c\<rparr>)
     (tc_pair tc_str (tc_pair tc_str (tc_list tc_str)))"

lemma tc_group_ok [simp]: "tc_ok tc_group"
  unfolding tc_group_def by (intro tc_map_ok) simp_all

definition tc_pending :: "pending_invite token_codec" where
  "tc_pending = tc_map (\<lambda>v. (pv_group v, pv_name v, pv_from v, pv_members v, pv_at v))
     (\<lambda>(a, b, c, d, e). \<lparr>pv_group = a, pv_name = b, pv_from = c, pv_members = d, pv_at = e\<rparr>)
     (tc_pair tc_str (tc_pair tc_str (tc_pair tc_str (tc_pair (tc_list tc_str) tc_str))))"

definition tc_invite :: "group_invite token_codec" where
  "tc_invite = tc_map (\<lambda>v. (gv_group v, gv_name v, gv_members v)) (\<lambda>(a, b, c). \<lparr>gv_group = a, gv_name = b, gv_members = c\<rparr>)
     (tc_pair tc_str (tc_pair tc_str (tc_list tc_str)))"

lemma tc_groups_ok [simp]: "tc_ok tc_pending" "tc_ok tc_invite"
  unfolding tc_pending_def tc_invite_def by (intro tc_map_ok; simp)+

definition toy_groups :: group_env where
  "toy_groups = \<lparr>ge_group = toy_codec tc_group, ge_pending = toy_codec tc_pending, ge_invite = toy_codec tc_invite,
     ge_joined = toy_codec tc_str, ge_left = toy_codec tc_str, ge_lower = (\<lambda>s. s), ge_char = (\<lambda>s. s)\<rparr>"

definition toy_group :: group_rec where
  "toy_group = \<lparr>gr_id = ''g'', gr_name = ''n'', gr_members = [''a'', ''b'', ''c'']\<rparr>"

definition toy_friends :: fs_trust where
  "toy_friends = \<lparr>ft_cache = [(''b'', toy_record granted_on_approval), (''c'', toy_record granted_on_approval)], ft_disk = None\<rparr>"

lemma single_row: "distinct (map fst rows) \<Longrightarrow> map_of rows = [k \<mapsto> v] \<Longrightarrow> rows = [(k, v)]"
proof (cases rows)
  case (Cons x xs)
  assume d: "distinct (map fst rows)" and m: "map_of rows = [k \<mapsto> v]"
  have "map_of rows (fst x) = Some (snd x)" using Cons by simp
  then have x: "x = (k, v)" unfolding m by (cases x) (simp split: if_splits)
  have "fst y = k" if "y \<in> set xs" for y
    using map_of_is_SomeI[OF d, of "fst y" "snd y"] that Cons unfolding m by (simp split: if_splits)
  then have "fst ` set xs \<subseteq> {k}" by auto
  then have "xs = []" using d Cons x by (cases xs) auto
  then show ?thesis using Cons x by simp
qed (simp add: fun_eq_iff, meson option.distinct(1))

text \<open>The store of device \<open>a\<close> with one group.\<close>

lemma toy_group_store:
  obtains s where "group_write toy_groups toy_port toy_group (toy_app, 0) = (Inr toy_group, s)" "toy_inv s" "app_port_calm toy_prims (\<lambda>_. toy_put_io) s"
    "outbox_wf toy_chat (toy_abs s)" "chat_wf toy_chat (toy_abs s)" "group_get toy_groups toy_port ''g'' s = Inr toy_group"
    "reachable toy_groups toy_port toy_friends now ''a'' ''g'' s = Inr ([''b'', ''c''], [])"
    "toy_abs s = (\<lambda>_ _. None)(GROUPS_NS := [''g'' \<mapsto> concat (map toy_put (fst tc_group toy_group))])"
proof -
  let ?b = "concat (map toy_put (fst tc_group toy_group))"
  have n: "namespace_ok GROUPS_NS" "str_ok ''g''"
    by (simp_all add: namespace_ok_def GROUPS_NS_def slug_char_def is_ascii_alphanumeric_def str_bytes_def unat_of_char)
  obtain r s where p: "ap_put toy_port GROUPS_NS ''g'' ?b (toy_app, 0) = (r, s)" by (metis prod.exhaust)
  have r: "r = Inr ()" "app_port_calm toy_prims (\<lambda>_. toy_put_io) s" using served.put_served[OF toy_port_inv(1) toy_port_calm n p] by auto
  have a: "toy_inv s" "toy_abs s = (\<lambda>_ _. None)(GROUPS_NS := [''g'' \<mapsto> ?b])"
    using app.put_law[OF toy_port_inv(1) n(2) p] r by (simp_all add: toy_port_inv(2))
  obtain rows where rows: "ap_list toy_port GROUPS_NS s = Inr rows" "distinct (map fst rows)" "map_of rows = [''g'' \<mapsto> ?b]"
    using app.list_law[OF a(1) n(1)] a(2) by auto
  have l: "ap_list toy_port GROUPS_NS s = Inr [(''g'', ?b)]" using rows(1) single_row[OF rows(2,3)] by simp
  have g: "group_get toy_groups toy_port ''g'' s = Inr toy_group"
    using l by (simp add: group_get_def group_list_def rbind_def toy_groups_def List.map_filter_def toy_group_def)
  have w: "group_write toy_groups toy_port toy_group (toy_app, 0) = (Inr toy_group, s)"
    using p r by (simp add: group_write_def toy_groups_def toy_group_def)
  have "GROUPS_NS \<noteq> OUTBOX_NS" "\<And>q. chat_namespace q \<noteq> GROUPS_NS" by (simp_all add: GROUPS_NS_def OUTBOX_NS_def chat_namespace_def)
  then have wf: "outbox_wf toy_chat (toy_abs s)" "chat_wf toy_chat (toy_abs s)"
    by (simp_all add: outbox_wf_def outbox_row_def chat_wf_def chat_row_def a(2))
  have "reachable toy_groups toy_port toy_friends now ''a'' ''g'' s = Inr ([''b'', ''c''], [])"
    by (simp add: reachable_def g rbind_def recipients_def toy_group_def may_def trust_lookup_def toy_friends_def grants_on_approval)
  from that[OF w a(1) r(2) wf g this a(2)] show thesis .
qed

theorem group_message_reaches_last_member_witness:
  "\<exists>s t i ids. groups_send toy_chat toy_groups toy_port toy_friends (\<lambda>_. 0) 1 2 ''t'' ''a'' ''g'' ''hi'' (0, 0) s = (Inr (i, 2, []), ids, t)
     \<and> (\<forall>when es. outbox_for toy_chat toy_port when ''b'' t = Inr es \<longrightarrow> i \<notin> oe_message_id ` set es)
     \<and> (\<exists>r. chat_row toy_chat (toy_abs t) ''b'' i = Some r \<and> cr_status r = St_Pending)"
proof -
  obtain s where s: "toy_inv s" "app_port_calm toy_prims (\<lambda>_. toy_put_io) s" "outbox_wf toy_chat (toy_abs s)"
    "group_get toy_groups toy_port ''g'' s = Inr toy_group"
    "reachable toy_groups toy_port toy_friends (\<lambda>_. 0) ''a'' ''g'' s = Inr ([''b'', ''c''], [])"
    by (rule toy_group_store)
  obtain i ids where i: "mint_id 1 2 (0, 0) = (i, ids)" by (metis prod.exhaust)
  let ?m = "\<lparr>cm_id = i, cm_timestamp = ''t'', cm_body = ''hi'', cm_in_reply_to = None, cm_group = Some ''g''\<rparr>"
  have "str_ok (cm_id ?m)" using minted_ok[of 1 2 "(0, 0)"] i by simp
  then obtain t where t: "enqueue_all toy_chat toy_port (\<lambda>_. 0) ?m [''b'', ''c''] s = (Inr (), t)"
    using served.enqueue_all_served[OF s(1,2), of ?m "[''b'', ''c'']" toy_chat "\<lambda>_. 0"] toy_chat_names by auto
  have g: "groups_send toy_chat toy_groups toy_port toy_friends (\<lambda>_. 0) 1 2 ''t'' ''a'' ''g'' ''hi'' (0, 0) s = (Inr (i, 2, []), ids, t)"
    using t i by (simp add: groups_send_def s(4,5) toy_group_def message_new_def message_replying_def validate_reply_ref_def rbind_def MAX_BODY_def)
  obtain live where live: "Inr ([''b'', ''c''], []) = (Inr (live, []) :: (string, _) result)"
    "\<forall>m \<in> set live. \<exists>r. chat_row toy_chat (toy_abs t) m i = Some r \<and> cr_status r = St_Pending"
    "\<forall>m when es. m \<noteq> last live \<longrightarrow> outbox_for toy_chat toy_port when m t = Inr es \<longrightarrow> i \<notin> oe_message_id ` set es"
    using group_message_reaches_last_member[OF s(1) toy_chat_ok s(3) g] unfolding s(5) by blast
  then have b: "''b'' \<in> set live" "''b'' \<noteq> last live" by auto
  show ?thesis using g live(2)[rule_format, OF b(1)] live(3)[rule_format, OF b(2)] by blast
qed

end
