(* ===== verification/PB_Chat_Delivery.thy ===== *)
theory PB_Chat_Delivery
  imports PB_Chat_Outbox
begin

text \<open>
  Delivery over a session: what a flush takes from the outbox, and what the other end's handler
  makes of the frames. The sender may send a message again after a failed write; the receiver
  recognises it by its id.
\<close>

section \<open>Flushing\<close>

definition sendable :: "outbox_entry \<Rightarrow> bool" where
  "sendable e = (oe_kind e \<noteq> Kd_File)"

definition entry_frame :: "chat_env \<Rightarrow> channel_id \<Rightarrow> outbox_entry \<Rightarrow> (chat_error, session_frame) result" where
  "entry_frame E ch e = (if oe_kind e = Kd_Text then message_to_frame E ch (entry_message e) else decline_to_frame E ch (entry_decline e))"

text \<open>
  The effect of sending \<open>sent\<close> in order: the entries fully dealt with, \<open>settled\<close>, have left the
  outbox and their rows are marked sent; the rest of the outbox is as before.
\<close>

definition flushed :: "chat_env \<Rightarrow> device_id \<Rightarrow> outbox_entry list \<Rightarrow> outbox_entry list \<Rightarrow> chat_abs \<Rightarrow> chat_abs \<Rightarrow> bool" where
  "flushed E p sent settled a a' =
     ((\<forall>k. k \<notin> oe_message_id ` set sent \<longrightarrow> a' OUTBOX_NS k = a OUTBOX_NS k)
      \<and> (\<forall>ns. ns \<noteq> OUTBOX_NS \<longrightarrow> ns \<noteq> chat_namespace p \<longrightarrow> a' ns = a ns)
      \<and> (\<forall>k. k \<notin> oe_message_id ` set sent \<longrightarrow> a' (chat_namespace p) k = a (chat_namespace p) k)
      \<and> (\<forall>e \<in> set settled. a' OUTBOX_NS (oe_message_id e) = None
          \<and> (oe_kind e = Kd_Text \<longrightarrow> (\<exists>r. chat_row E a' p (oe_message_id e) = Some r \<and> cr_status r = St_Sent))))"

text \<open>
  A flush of \<open>es\<close> sends the first \<open>m\<close> of them, each accepted by the session. It stops early only at
  an entry the session refuses (or that has no frame) or when the store fails, which leaves the
  last entry sent in the queue.
\<close>

definition flush_outcome :: "chat_env \<Rightarrow> device_id \<Rightarrow> channel_id \<Rightarrow> (nat \<Rightarrow> bool) \<Rightarrow> nat \<Rightarrow> outbox_entry list \<Rightarrow> (send_error, string list) result
    \<Rightarrow> session_frame list \<Rightarrow> nat \<Rightarrow> chat_abs \<Rightarrow> chat_abs \<Rightarrow> bool" where
  "flush_outcome E p ch ok n es res fs m a a' =
     (m \<le> length es \<and> map (entry_frame E ch) (take m es) = map Inr fs \<and> (\<forall>j < m. ok (n + j))
      \<and> (case res of
           Inr ids \<Rightarrow> flushed E p (take m es) (take m es) a a' \<and> ids = map oe_message_id (filter (\<lambda>e. oe_kind e = Kd_Text) (take m es))
             \<and> (m < length es \<longrightarrow> ok (n + m) \<longrightarrow> \<not> is_ok (entry_frame E ch (es ! m)))
         | Inl _ \<Rightarrow> m \<noteq> 0 \<and> flushed E p (take m es) (butlast (take m es)) a a'))"

lemma flushed_none [simp]: "flushed E p [] [] a a"
  by (simp add: flushed_def)

lemma flushed_cons:
  assumes "flushed E p [e] [e] a b" "flushed E p sent settled b c" "oe_message_id e \<notin> oe_message_id ` set sent"
  shows "flushed E p (e # sent) (e # settled) a c"
proof -
  have "c OUTBOX_NS (oe_message_id e) = b OUTBOX_NS (oe_message_id e)" "chat_row E c p (oe_message_id e) = chat_row E b p (oe_message_id e)"
    using assms(2,3) by (simp_all add: flushed_def chat_row_def)
  then show ?thesis using assms(1,2) unfolding flushed_def by simp
qed

lemma flush_outcome_cons:
  assumes "flushed E p [e] [e] a b" "entry_frame E ch e = Inr f" "ok n" "fs = f # fs'"
    "res = map_sum (\<lambda>e. e) (\<lambda>ids. if oe_kind e = Kd_Text then oe_message_id e # ids else ids) r"
    "flush_outcome E p ch ok (Suc n) es r fs' m b c" "oe_message_id e \<notin> oe_message_id ` set es"
  shows "flush_outcome E p ch ok n (e # es) res fs (Suc m) a c"
proof -
  have n: "oe_message_id e \<notin> oe_message_id ` set (take m es)" using assms(7) by (auto dest: in_set_takeD)
  have o: "\<forall>j < Suc m. ok (n + j)"
  proof (intro allI impI)
    fix j assume "j < Suc m"
    then show "ok (n + j)" using assms(3,6) by (cases j) (auto simp: flush_outcome_def)
  qed
  have len: "m \<le> length es" "map (entry_frame E ch) (take m es) = map Inr fs'" using assms(6) by (simp_all add: flush_outcome_def)
  show ?thesis
  proof (cases r)
    case (Inl x)
    then have r: "m \<noteq> 0" "flushed E p (take m es) (butlast (take m es)) b c" using assms(6) by (simp_all add: flush_outcome_def)
    then have "butlast (take (Suc m) (e # es)) = e # butlast (take m es)" using len by (cases "take m es") auto
    then show ?thesis using flushed_cons[OF assms(1) r(2) n] o len assms(2,4,5) Inl by (simp add: flush_outcome_def)
  next
    case (Inr ids)
    then have r: "flushed E p (take m es) (take m es) b c" "ids = map oe_message_id (filter (\<lambda>e. oe_kind e = Kd_Text) (take m es))"
      "m < length es \<longrightarrow> ok (Suc n + m) \<longrightarrow> \<not> is_ok (entry_frame E ch (es ! m))" using assms(6) by (simp_all add: flush_outcome_def)
    then show ?thesis using flushed_cons[OF assms(1) r(1) n] o len assms(2,4,5) Inr by (simp add: flush_outcome_def)
  qed
qed

context strict_store
begin

lemma record_sent_spec:
  assumes "inv s" "chat_env_ok E" "chat_wf E (abs s)" "oe_kind e = Kd_Text" "str_ok (oe_message_id e)" "record_sent E A now e s = (res, t)"
  shows "inv t \<and> chat_wf E (abs t) \<and> (if res = Inr () then \<exists>r. cr_status r = St_Sent
      \<and> abs t = row_set (oe_peer_id e) (oe_message_id e) (record_encode E r) (abs s) else abs t = abs s)"
proof (cases "\<exists>r. cr_status r = St_Sent \<and> cr_id r = oe_message_id e \<and> cr_peer_id r = oe_peer_id e \<and> chat_append E A r s = (res, t)")
  case True
  then obtain r where r: "cr_status r = St_Sent" "cr_id r = oe_message_id e" "cr_peer_id r = oe_peer_id e" "chat_append E A r s = (res, t)" by blast
  then have n: "\<not> is_settleable_file_row In r" by (simp add: is_settleable_file_row_def)
  have a: "inv t" "abs t = (if res = Inr () then row_set (oe_peer_id e) (oe_message_id e) (record_encode E r) (abs s) else abs s)"
    using append_spec[OF assms(1) _ r(4)] assms(5) r n by (auto simp: reconciled_def claimed_def)
  then have "chat_wf E (abs t)" using assms(2,3) r by (auto simp: chat_wf_def chat_row_set split: if_splits)
  then show ?thesis using a r(1) by auto
next
  case False
  let ?p = "oe_peer_id e" and ?k = "oe_message_id e"
  have "t = s \<and> res \<noteq> Inr ()"
  proof (cases "ap_get A (chat_namespace ?p) ?k s")
    case (Inl x)
    then show ?thesis using assms(6) by (auto simp: record_sent_def store_get_def)
  next
    case (Inr v)
    then have v: "abs s (chat_namespace ?p) ?k = v" using get_cases[OF assms(1), of "chat_namespace ?p" ?k] by auto
    show ?thesis
    proof (cases v)
      case None
      then show ?thesis using assms(4,6) Inr False by (auto simp: record_sent_def store_get_def)
    next
      case (Some b)
      have "cr_id r = ?k \<and> cr_peer_id r = ?p" if "record_decode E b = Inr r" for r
        using that assms(3) v Some unfolding chat_wf_def chat_row_some by blast
      then show ?thesis using assms(6) Inr Some False by (auto simp: record_sent_def store_get_def split: sum.splits)
    qed
  qed
  then show ?thesis using assms(1,3) by simp
qed

lemma outbox_remove_spec:
  assumes "inv s" "outbox_remove A k s = (res, t)"
  shows "inv t \<and> res = Inr () \<and> abs t = (abs s)(OUTBOX_NS := (abs s OUTBOX_NS)(k := None))"
proof -
  obtain x t' where d: "ap_delete A OUTBOX_NS k s = (x, t')" by fastforce
  from delete_law[OF assms(1) fixed_ns_ok(1) d] assms(2) d show ?thesis by (auto simp: outbox_remove_def store_delete_def)
qed

text \<open>One entry of the loop, once its frame is accepted.\<close>

lemma flush_entry:
  assumes "inv s" "chat_env_ok E" "chat_wf E (abs s)" "oe_kind e = Kd_Text" "str_ok (oe_message_id e)" "oe_peer_id e = p"
    "record_sent E A now e s = (Inr (), s1)" "outbox_remove A (oe_message_id e) s1 = (x, t)"
  shows "inv t \<and> x = Inr () \<and> chat_wf E (abs t) \<and> flushed E p [e] [e] (abs s) (abs t)"
proof -
  obtain r where r: "inv s1" "chat_wf E (abs s1)" "cr_status r = St_Sent" "abs s1 = row_set p (oe_message_id e) (record_encode E r) (abs s)"
    using record_sent_spec[OF assms(1-5,7)] assms(6) by auto
  have t: "inv t" "x = Inr ()" "abs t = (abs s1)(OUTBOX_NS := (abs s1 OUTBOX_NS)(oe_message_id e := None))"
    using outbox_remove_spec[OF r(1) assms(8)] by auto
  then have c: "chat_row E (abs t) = chat_row E (abs s1)" by (simp add: chat_row_def fun_eq_iff)
  have "chat_row E (abs s1) p (oe_message_id e) = Some r" using assms(2) by (simp add: r(4) chat_row_set)
  then show ?thesis using t r c by (auto simp: flushed_def chat_wf_def row_set_def)
qed

lemma decline_entry:
  assumes "inv s" "chat_wf E (abs s)" "oe_kind e = Kd_Decline" "outbox_remove A (oe_message_id e) s = (x, t)"
  shows "inv t \<and> x = Inr () \<and> chat_wf E (abs t) \<and> flushed E p [e] [e] (abs s) (abs t)"
proof -
  note t = outbox_remove_spec[OF assms(1,4)]
  then have "chat_row E (abs t) = chat_row E (abs s)" by (simp add: chat_row_def fun_eq_iff)
  then show ?thesis using t assms(2,3) by (auto simp: flushed_def chat_wf_def)
qed

lemma flush_step:
  assumes "inv s" "chat_env_ok E" "chat_wf E (abs s)" "sendable e" "oe_peer_id e = p" "str_ok (oe_message_id e)"
    "flush_loop E A ch ok now n (e # es) s = (res, fs, t)"
  obtains (stop) "res = Inr []" "fs = []" "t = s" "ok n \<longrightarrow> \<not> is_ok (entry_frame E ch e)"
    | (fail) f x where "entry_frame E ch e = Inr f" "ok n" "res = Inl x" "fs = [f]" "inv t" "abs t = abs s"
    | (go) f s1 r fs' where "entry_frame E ch e = Inr f" "ok n" "inv s1" "chat_wf E (abs s1)" "flushed E p [e] [e] (abs s) (abs s1)"
        "flush_loop E A ch ok now (Suc n) es s1 = (r, fs', t)" "fs = f # fs'"
        "res = map_sum (\<lambda>e. e) (\<lambda>ids. if oe_kind e = Kd_Text then oe_message_id e # ids else ids) r"
proof (cases "entry_frame E ch e")
  case (Inl x)
  then show thesis using assms(4,7) stop by (cases "oe_kind e") (auto simp: entry_frame_def sendable_def is_ok_def)
next
  case (Inr f)
  show thesis
  proof (cases "ok n")
    case False
    then show thesis using Inr assms(4,7) stop by (cases "oe_kind e") (auto simp: entry_frame_def sendable_def)
  next
    case True
    show thesis
    proof (cases "oe_kind e = Kd_Text")
      case tx: True
      obtain x s1 where a: "record_sent E A (now n) e s = (x, s1)" by fastforce
      note spec = record_sent_spec[OF assms(1-3) tx assms(6) a]
      show thesis
      proof (cases x)
        case (Inl err)
        then show thesis using fail[OF Inr True, of "SeChat err"] spec assms(7) Inr True tx a by (simp add: entry_frame_def)
      next
        case ok: (Inr u)
        obtain y s2 where d: "outbox_remove A (oe_message_id e) s1 = (y, s2)" by fastforce
        obtain r fs' t' where l: "flush_loop E A ch ok now (Suc n) es s2 = (r, fs', t')" by (metis prod.exhaust)
        have fe: "inv s2 \<and> y = Inr () \<and> chat_wf E (abs s2) \<and> flushed E p [e] [e] (abs s) (abs s2)"
          by (rule flush_entry[OF assms(1-3) tx assms(6,5) _ d]) (use a ok in simp)
        then show thesis using go[OF Inr True, of s2 r fs'] l assms(7) Inr True tx a d ok by (simp add: entry_frame_def)
      qed
    next
      case False
      then have k: "oe_kind e = Kd_Decline" using assms(4) by (cases "oe_kind e") (auto simp: sendable_def)
      obtain y s2 where d: "outbox_remove A (oe_message_id e) s = (y, s2)" by fastforce
      obtain r fs' t' where l: "flush_loop E A ch ok now (Suc n) es s2 = (r, fs', t')" by (metis prod.exhaust)
      have fe: "inv s2 \<and> y = Inr () \<and> chat_wf E (abs s2) \<and> flushed E p [e] [e] (abs s) (abs s2)"
        by (rule decline_entry[OF assms(1,3) k d])
      have "map_sum (\<lambda>e. e) (\<lambda>ids. ids) r = r" by (cases r) auto
      with fe show thesis using go[OF Inr True, of s2 r fs'] l assms(7) Inr True k d by (simp add: entry_frame_def)
    qed
  qed
qed

lemma flush_loop_spec:
  "inv s \<Longrightarrow> chat_env_ok E \<Longrightarrow> chat_wf E (abs s) \<Longrightarrow> distinct (map oe_message_id es) \<Longrightarrow>
   \<forall>e \<in> set es. oe_peer_id e = p \<and> str_ok (oe_message_id e) \<Longrightarrow> flush_loop E A ch ok now n es s = (res, fs, t) \<Longrightarrow>
   inv t \<and> (\<exists>m. flush_outcome E p ch ok n (filter sendable es) res fs m (abs s) (abs t))"
proof (induction es arbitrary: s n res fs)
  case Nil
  then show ?case by (auto simp: flush_outcome_def)
next
  case (Cons e es)
  show ?case
  proof (cases "sendable e")
    case False
    then have "flush_loop E A ch ok now n es s = (res, fs, t)" using Cons.prems(6) by (simp add: sendable_def)
    from Cons.IH[OF Cons.prems(1-3) _ _ this] show ?thesis using False Cons.prems(4,5) by simp
  next
    case True
    have e: "oe_peer_id e = p" "str_ok (oe_message_id e)" using Cons.prems(5) by auto
    from Cons.prems(1-3) True e Cons.prems(6) show ?thesis
    proof (cases rule: flush_step)
      case stop
      then show ?thesis using True Cons.prems(1) by (intro conjI exI[of _ 0]) (auto simp: flush_outcome_def)
    next
      case (fail f x)
      then show ?thesis using True by (intro conjI exI[of _ 1]) (auto simp: flush_outcome_def flushed_def)
    next
      case (go f s1 r fs')
      obtain m where h: "inv t" "flush_outcome E p ch ok (Suc n) (filter sendable es) r fs' m (abs s1) (abs t)"
        using Cons.IH[OF go(3) Cons.prems(2) go(4) _ _ go(6)] Cons.prems(4,5) by auto
      have "oe_message_id e \<notin> oe_message_id ` set (filter sendable es)" using Cons.prems(4) by auto
      from flush_outcome_cons[OF go(5,1,2,7,8) h(2) this] show ?thesis using h(1) True by auto
    qed
  qed
qed

end

section \<open>Receiving\<close>

text \<open>The handler over the frames of a session, in order; \<open>now i\<close> and \<open>stamp i\<close> are its clock at the i-th frame.\<close>

fun receive_all :: "chat_env \<Rightarrow> 's app_port \<Rightarrow> (string \<Rightarrow> path) \<Rightarrow> bool \<Rightarrow> device_id \<Rightarrow> (nat \<Rightarrow> int) \<Rightarrow> (nat \<Rightarrow> string) \<Rightarrow> nat
    \<Rightarrow> session_frame list \<Rightarrow> 's \<Rightarrow> (session_error, unit) result \<times> chat_event list \<times> 's" where
  "receive_all E A comps foreign p now stamp n [] s = (Inr (), [], s)"
| "receive_all E A comps foreign p now stamp n (f # fs) s =
     (case chat_handle E A comps foreign (Some p) (now n) (stamp n) f s of
        (Inl e, ev, s) \<Rightarrow> (Inl e, ev, s)
      | (Inr _, ev, s) \<Rightarrow> (case receive_all E A comps foreign p now stamp (Suc n) fs s of (r, evs, s) \<Rightarrow> (r, ev @ evs, s)))"

lemma message_frame_reads:
  "chat_env_ok E \<Longrightarrow> message_to_frame E ch m = Inr f \<Longrightarrow> message_from_frame E f = Inr m \<and> sf_message_type f = MSG_TEXT"
  by (auto simp: message_to_frame_def message_from_frame_def chat_frame_def chat_payload_def rbind_def chat_env_ok_def codec_ok_def
      split: if_splits sum.splits) (metis map_sum.simps(2) Inr_inject Inl_Inr_False)+

text \<open>What the messages \<open>ms\<close>, read from the \<open>n\<close>-th frame on, leave of a conversation.\<close>

definition surfaced :: "chat_abs \<Rightarrow> device_id \<Rightarrow> (nat \<Rightarrow> int) \<Rightarrow> nat \<Rightarrow> chat_message list \<Rightarrow> chat_event list" where
  "surfaced a p now n ms = map (\<lambda>(i, m). Surfaced (record_received (now i) p m))
     (filter (\<lambda>(i, m). a (chat_namespace p) (cm_id m) = None) (enumerate n ms))"

definition taken_in :: "chat_env \<Rightarrow> device_id \<Rightarrow> (nat \<Rightarrow> int) \<Rightarrow> nat \<Rightarrow> chat_message list \<Rightarrow> chat_abs \<Rightarrow> chat_abs \<Rightarrow> bool" where
  "taken_in E p now n ms a a' =
     ((\<forall>ns. ns \<noteq> chat_namespace p \<longrightarrow> a' ns = a ns)
      \<and> (\<forall>k. k \<notin> cm_id ` set ms \<or> a (chat_namespace p) k \<noteq> None \<longrightarrow> a' (chat_namespace p) k = a (chat_namespace p) k)
      \<and> (\<forall>(i, m) \<in> set (enumerate n ms). a (chat_namespace p) (cm_id m) = None \<longrightarrow>
           chat_row E a' p (cm_id m) = Some (record_received (now i) p m)))"

lemma taken_in_cons:
  assumes "taken_in E p now (Suc n) ms b c" "cm_id m \<notin> cm_id ` set ms" "chat_env_ok E"
    "b = (if a (chat_namespace p) (cm_id m) = None then row_set p (cm_id m) (record_encode E (record_received (now n) p m)) a else a)"
  shows "taken_in E p now n (m # ms) a c"
proof -
  have o: "b ns = a ns" if "ns \<noteq> chat_namespace p" for ns using that by (simp add: assms(4) row_set_def)
  have k: "b (chat_namespace p) j = a (chat_namespace p) j" if "j \<noteq> cm_id m \<or> a (chat_namespace p) j \<noteq> None" for j
    using that by (auto simp: assms(4) row_set_def)
  have new: "chat_row E c p (cm_id m) = Some (record_received (now n) p m)" if "a (chat_namespace p) (cm_id m) = None"
  proof -
    have "c (chat_namespace p) (cm_id m) = b (chat_namespace p) (cm_id m)" using assms(1,2) unfolding taken_in_def by blast
    then have "chat_row E c p (cm_id m) = chat_row E b p (cm_id m)" by (simp add: chat_row_def)
    then show ?thesis using that assms(3,4) by (simp add: chat_row_set)
  qed
  have old: "a (chat_namespace p) (cm_id x) = b (chat_namespace p) (cm_id x)" if "(i, x) \<in> set (enumerate (Suc n) ms)" for i x
  proof -
    have "x \<in> set ms" using that by (metis in_set_zip enumerate_eq_zip snd_conv nth_mem)
    then have "cm_id x \<noteq> cm_id m" using assms(2) by (metis imageI)
    then show ?thesis using k[of "cm_id x"] by simp
  qed
  show ?thesis unfolding taken_in_def
  proof (intro conjI)
    show "\<forall>ns. ns \<noteq> chat_namespace p \<longrightarrow> c ns = a ns" using assms(1) o by (simp add: taken_in_def)
    show "\<forall>j. j \<notin> cm_id ` set (m # ms) \<or> a (chat_namespace p) j \<noteq> None \<longrightarrow> c (chat_namespace p) j = a (chat_namespace p) j"
    proof (intro allI impI)
      fix j assume j: "j \<notin> cm_id ` set (m # ms) \<or> a (chat_namespace p) j \<noteq> None"
      then have "j \<noteq> cm_id m \<or> a (chat_namespace p) j \<noteq> None" by auto
      then have "b (chat_namespace p) j = a (chat_namespace p) j" by (rule k)
      moreover have "c (chat_namespace p) j = b (chat_namespace p) j" using assms(1) j calculation by (auto simp: taken_in_def)
      ultimately show "c (chat_namespace p) j = a (chat_namespace p) j" by simp
    qed
    show "\<forall>(i, x) \<in> set (enumerate n (m # ms)). a (chat_namespace p) (cm_id x) = None \<longrightarrow>
        chat_row E c p (cm_id x) = Some (record_received (now i) p x)"
      using assms(1) new old by (auto simp: taken_in_def)
  qed
qed

context served_store
begin

lemma handle_text:
  assumes "inv s" "calm s" "chat_env_ok E" "namespace_ok (chat_namespace p)" "str_ok (cm_id m)" "message_to_frame E ch m = Inr f"
    "chat_handle E A comps foreign (Some p) now stamp f s = (r, ev, t)"
  shows "r = Inr () \<and> inv t \<and> calm t
    \<and> ev = (if abs s (chat_namespace p) (cm_id m) = None then [Surfaced (record_received now p m)] else [])
    \<and> abs t = (if abs s (chat_namespace p) (cm_id m) = None then row_set p (cm_id m) (record_encode E (record_received now p m)) (abs s) else abs s)"
proof -
  let ?r = "record_received now p m"
  have i: "cr_id ?r = cm_id m" "cr_peer_id ?r = p" "\<not> is_settleable_file_row In ?r"
    by (simp_all add: record_received_def is_settleable_file_row_def)
  have h: "handle_new E A p ?r s = (r, ev, t)"
    using assms(7) message_frame_reads[OF assms(3,6)] by (simp add: chat_handle_def)
  have c: "chat_contains A p (cm_id m) s = Inr (abs s (chat_namespace p) (cm_id m) \<noteq> None)"
    using get_law[OF assms(1,4)] by (simp add: chat_contains_def store_get_def)
  show ?thesis
  proof (cases "abs s (chat_namespace p) (cm_id m)")
    case (Some b)
    then show ?thesis using h c i assms(1,2) by (auto simp: handle_new_def)
  next
    case None
    obtain x t' where w: "chat_write E A ?r s = (x, t')" by fastforce
    then have x: "x = Inr ()" "calm t'" "inv t'" "abs t' = row_set p (cm_id m) (record_encode E ?r) (abs s)"
      using write_served[OF assms(1,2) _ _ w] chat_write_spec[OF assms(1) _ w] assms(4,5) i by simp_all
    then show ?thesis using h c i None w by (auto simp: handle_new_def chat_append_def)
  qed
qed

lemma receive_texts:
  "inv s \<Longrightarrow> calm s \<Longrightarrow> chat_env_ok E \<Longrightarrow> namespace_ok (chat_namespace p) \<Longrightarrow> distinct (map cm_id ms) \<Longrightarrow>
   \<forall>m \<in> set ms. str_ok (cm_id m) \<Longrightarrow> map (message_to_frame E ch) ms = map Inr fs \<Longrightarrow>
   receive_all E A comps foreign p now stamp n fs s = (r, evs, t) \<Longrightarrow>
   r = Inr () \<and> inv t \<and> calm t \<and> evs = surfaced (abs s) p now n ms \<and> taken_in E p now n ms (abs s) (abs t)"
proof (induction ms arbitrary: fs s n evs)
  case Nil
  then show ?case by (auto simp: surfaced_def taken_in_def)
next
  case (Cons m ms)
  obtain f fs' where f: "fs = f # fs'" "message_to_frame E ch m = Inr f" "map (message_to_frame E ch) ms = map Inr fs'"
    using Cons.prems(7) by (cases fs) auto
  obtain x ev s1 where h: "chat_handle E A comps foreign (Some p) (now n) (stamp n) f s = (x, ev, s1)" by (metis prod.exhaust)
  obtain r' evs' t' where l: "receive_all E A comps foreign p now stamp (Suc n) fs' s1 = (r', evs', t')" by (metis prod.exhaust)
  have "str_ok (cm_id m)" using Cons.prems(6) by simp
  note s1 = handle_text[OF Cons.prems(1-4) this f(2) h]
  have e: "r = r'" "evs = ev @ evs'" "t = t'" using Cons.prems(8) f(1) h l s1 by simp_all
  have d: "cm_id m \<notin> cm_id ` set ms" "distinct (map cm_id ms)" using Cons.prems(5) by simp_all
  have ih: "r = Inr () \<and> inv t \<and> calm t \<and> evs' = surfaced (abs s1) p now (Suc n) ms \<and> taken_in E p now (Suc n) ms (abs s1) (abs t)"
    by (rule Cons.IH[OF _ _ Cons.prems(3,4) d(2) _ f(3) l[folded e(1,3)]]) (use s1 Cons.prems(6) in auto)
  have "surfaced (abs s1) p now (Suc n) ms = surfaced (abs s) p now (Suc n) ms"
  proof -
    have "abs s1 (chat_namespace p) (cm_id y) = None \<longleftrightarrow> abs s (chat_namespace p) (cm_id y) = None" if "y \<in> set ms" for y
      using imageI[OF that, of cm_id] d(1) s1 by (auto simp: row_set_def)
    then have "filter (\<lambda>(i, m). abs s1 (chat_namespace p) (cm_id m) = None) (enumerate (Suc n) ms)
        = filter (\<lambda>(i, m). abs s (chat_namespace p) (cm_id m) = None) (enumerate (Suc n) ms)"
      by (intro filter_cong) (auto simp: in_set_enumerate_eq)
    then show ?thesis by (simp add: surfaced_def)
  qed
  then have "evs = surfaced (abs s) p now n (m # ms)" using e(2) ih s1 by (simp add: surfaced_def)
  moreover have "taken_in E p now n (m # ms) (abs s) (abs t)"
    by (rule taken_in_cons[OF _ d(1) Cons.prems(3)]) (use ih s1 in auto)
  ultimately show ?case using e ih by simp
qed

end

lemma entry_message_id [simp]: "cm_id (entry_message e) = oe_message_id e"
  by (simp add: entry_message_def)

context strict_store
begin

lemma flush_spec:
  assumes "inv s" "chat_env_ok E" "chat_wf E (abs s)" "outbox_wf E (abs s)" "outbox_for E A now0 p s = Inr es"
    "flush_to_session E A (Inr ch) ok now0 now p s = (res, fs, t)"
  shows "inv t \<and> (\<exists>m. flush_outcome E p ch ok 0 (filter sendable es) res fs m (abs s) (abs t))"
proof (cases "filter sendable es = []")
  case True
  then have "\<not> list_ex (\<lambda>e. oe_kind e = Kd_Text \<or> oe_kind e = Kd_Decline) es"
    by (auto simp: list_ex_iff filter_empty_conv sendable_def)
  then have "res = Inr []" "fs = []" "t = s" using assms(5,6) by (auto simp: flush_to_session_def)
  then show ?thesis using True assms(1) by (auto simp: flush_outcome_def)
next
  case False
  then obtain e where "e \<in> set es" "oe_kind e \<noteq> Kd_File" by (auto simp: filter_empty_conv sendable_def)
  then have "list_ex (\<lambda>e. oe_kind e = Kd_Text \<or> oe_kind e = Kd_Decline) es" by (cases "oe_kind e") (auto simp: list_ex_iff)
  then have l: "flush_loop E A ch ok now 0 es s = (res, fs, t)" using assms(5,6) by (simp add: flush_to_session_def)
  note rows = outbox_for_rows[OF assms(1,4,5)]
  have "\<forall>e \<in> set es. oe_peer_id e = p \<and> str_ok (oe_message_id e)" using rows key_law[OF assms(1)] by (auto simp: outbox_row_some)
  from flush_loop_spec[OF assms(1-3) _ this l] rows show ?thesis by blast
qed

end

text \<open>
  C15. A queued text message is shown to its recipient once. A flush sends the queued messages of a
  peer oldest first and stops only where the session refuses a frame or the store fails; every
  message it is done with has left the outbox and its row is marked sent, at most the last frame
  sent may belong to an entry still queued, and nothing else of the outbox changes. The peer's
  handler shows exactly the messages it does not hold yet, in the order sent, and files each as an
  incoming row; a message sent again after a failure changes nothing and is not shown again.
\<close>

theorem messages_surface_once:
  assumes "app_port_inv P io s" "chat_env_ok E" "chat_wf E (app_port_abs P s)" "outbox_wf E (app_port_abs P s)"
    "outbox_for E (fs_app_port P io) now0 b s = Inr es" "\<forall>e \<in> set es. oe_kind e \<noteq> Kd_Decline"
    "flush_to_session E (fs_app_port P io) (Inr ch) ok now0 now b s = (res, fs, t)"
    "app_port_inv P' io' q" "app_port_calm P' io' q" "namespace_ok (chat_namespace a)"
    "receive_all E (fs_app_port P' io') comps foreign a clock stamp 0 fs q = (r, evs, q')"
  shows "\<exists>m. flush_outcome E b ch ok 0 (filter sendable es) res fs m (app_port_abs P s) (app_port_abs P t)
    \<and> sorted (map oe_message_id es) \<and> distinct (map oe_message_id es)
    \<and> r = Inr () \<and> evs = surfaced (app_port_abs P' q) a clock 0 (map entry_message (take m (filter sendable es)))
    \<and> taken_in E a clock 0 (map entry_message (take m (filter sendable es))) (app_port_abs P' q) (app_port_abs P' q')"
proof -
  obtain m where m: "flush_outcome E b ch ok 0 (filter sendable es) res fs m (app_port_abs P s) (app_port_abs P t)"
    using strict.flush_spec[OF assms(1-5,7)] by blast
  let ?xs = "take m (filter sendable es)"
  have sub: "set ?xs \<subseteq> set (filter sendable es)" by (rule set_take_subset)
  have "oe_kind e = Kd_Text" if "e \<in> set ?xs" for e
    using that sub assms(6) by (cases "oe_kind e") (auto simp: sendable_def)
  then have "map (message_to_frame E ch) (map entry_message ?xs) = map (entry_frame E ch) ?xs" by (simp add: entry_frame_def)
  then have f: "map (message_to_frame E ch) (map entry_message ?xs) = map Inr fs" using m unfolding flush_outcome_def by metis
  note rows = strict.outbox_for_rows[OF assms(1,4,5)]
  have d: "distinct (map cm_id (map entry_message ?xs))"
  proof -
    have "distinct (map oe_message_id (filter sendable es))" using rows by (simp add: distinct_map_filter)
    then have "distinct (take m (map oe_message_id (filter sendable es)))" by (rule distinct_take)
    then show ?thesis by (simp add: take_map comp_def)
  qed
  have "str_ok (oe_message_id e)" if "e \<in> set es" for e
    using that rows strict.key_law[OF assms(1)] unfolding outbox_row_some by blast
  then have "\<forall>x \<in> set (map entry_message ?xs). str_ok (cm_id x)" using sub by auto
  from served.receive_texts[OF assms(8,9,2,10) d this f assms(11)] m rows show ?thesis by blast
qed

text \<open>Device \<open>a\<close> with one message queued for \<open>b\<close>.\<close>

lemma toy_queue:
  obtains s where "toy_inv s" "app_port_calm toy_prims (\<lambda>_. toy_put_io) s" "outbox_wf toy_chat (toy_abs s)" "chat_wf toy_chat (toy_abs s)"
    "outbox_for toy_chat toy_port 9 ''b'' s = Inr [text_entry ''b'' toy_msg]"
    "fst (record_sent toy_chat toy_port 9 (text_entry ''b'' toy_msg) s) = Inr ()"
    "toy_abs s = queued ''m'' (entry_encode toy_chat (text_entry ''b'' toy_msg))
       (row_set ''b'' ''m'' (record_encode toy_chat (record_out 5 ''b'' toy_msg St_Pending)) (\<lambda>_ _. None))"
proof -
  let ?b = "entry_encode toy_chat (text_entry ''b'' toy_msg)" and ?r = "record_out 5 ''b'' toy_msg St_Pending"
  obtain r s where e: "enqueue toy_chat toy_port 5 ''b'' toy_msg (toy_app, 0) = (r, s)" by (metis prod.exhaust)
  have m: "cm_id toy_msg = ''m''" "str_ok (cm_id toy_msg)" using toy_chat_names by (simp_all add: toy_msg_def)
  have r: "r = Inr ()" "toy_inv s" "app_port_calm toy_prims (\<lambda>_. toy_put_io) s"
    using served.enqueue_served[OF toy_port_inv(1) toy_port_calm m(2) toy_chat_names(1) e] by auto
  have a: "toy_abs s = queued ''m'' ?b (row_set ''b'' ''m'' (record_encode toy_chat ?r) (\<lambda>_ _. None))"
    using strict.enqueue_spec[OF toy_port_inv(1) m(2) e[unfolded r(1)]] m(1) by (simp add: toy_port_inv(2))
  have wf: "outbox_wf toy_chat (toy_abs s)" "chat_wf toy_chat (toy_abs s)"
    using toy_chat_ok m(1) by (auto simp: a outbox_wf_def outbox_row_updates chat_wf_def chat_row_set text_entry_def record_out_def
        outbox_row_def chat_row_def queued_def row_set_def split: if_splits)
  obtain rows where rows: "ap_list toy_port OUTBOX_NS s = Inr rows" "distinct (map fst rows)" "map_of rows = [''m'' \<mapsto> ?b]"
    using app.list_law[OF r(2) fixed_ns_ok(1)] by (auto simp: a queued_def)
  have l: "ap_list toy_port OUTBOX_NS s = Inr [(''m'', ?b)]" using rows(1) single_row[OF rows(2,3)] by simp
  have "chat_retention toy_chat toy_port ''b'' s = Inr RETENTION_OFF"
    using app.get_law[OF r(2) fixed_ns_ok(2), of "''b''"] by (simp add: chat_retention_def store_get_def a)
  then have o: "outbox_for toy_chat toy_port 9 ''b'' s = Inr [text_entry ''b'' toy_msg]"
    using l toy_chat_ok by (simp add: outbox_for_def outbox_pending_def store_list_def rbind_def text_entry_def entry_disappeared_def
        closed_on_def cutoff_def RETENTION_OFF_def)
  have st: "store_get toy_port (chat_namespace ''b'') ''m'' s = Inr (Some (record_encode toy_chat ?r))"
    using app.get_law[OF r(2) toy_chat_names(1), of "''m''"] by (simp add: store_get_def a row_set_def)
  obtain y t where y: "chat_append toy_chat toy_port (?r\<lparr>cr_status := St_Sent\<rparr>) s = (y, t)" by (metis prod.exhaust)
  then have "y = Inr ()" using served.append_served[OF r(2,3) _ _ _ y] toy_chat_names m by (simp add: record_out_def)
  then have "fst (record_sent toy_chat toy_port 9 (text_entry ''b'' toy_msg) s) = Inr ()"
    using st y m(1) toy_chat_ok by (simp add: record_sent_def text_entry_def)
  from that[OF r(2,3) wf o this a] show thesis .
qed

theorem messages_surface_once_witness:
  "\<exists>s t q fs. flush_to_session toy_chat toy_port (Inr 1) (\<lambda>_. True) 9 (\<lambda>_. 9) ''b'' s = (Inr [''m''], fs, t)
     \<and> toy_abs t OUTBOX_NS ''m'' = None
     \<and> receive_all toy_chat toy_port components_unix False ''c'' (\<lambda>_. 7) (\<lambda>_. ''u'') 0 fs (toy_app, 0)
         = (Inr (), [Surfaced (record_received 7 ''c'' toy_msg)], q)
     \<and> chat_row toy_chat (toy_abs q) ''c'' ''m'' = Some (record_received 7 ''c'' toy_msg)"
proof -
  obtain s where s: "toy_inv s" "outbox_wf toy_chat (toy_abs s)" "chat_wf toy_chat (toy_abs s)"
    "outbox_for toy_chat toy_port 9 ''b'' s = Inr [text_entry ''b'' toy_msg]"
    "fst (record_sent toy_chat toy_port 9 (text_entry ''b'' toy_msg) s) = Inr ()" by (rule toy_queue)
  obtain res fs t where fl: "flush_to_session toy_chat toy_port (Inr 1) (\<lambda>_. True) 9 (\<lambda>_. 9) ''b'' s = (res, fs, t)" by (metis prod.exhaust)
  obtain r evs q where g: "receive_all toy_chat toy_port components_unix False ''c'' (\<lambda>_. 7) (\<lambda>_. ''u'') 0 fs (toy_app, 0) = (r, evs, q)"
    by (metis prod.exhaust)
  have k: "\<forall>e \<in> set [text_entry ''b'' toy_msg]. oe_kind e \<noteq> Kd_Decline" by (simp add: text_entry_def)
  have m: "entry_message (text_entry ''b'' toy_msg) = toy_msg" "sendable (text_entry ''b'' toy_msg)" "oe_kind (text_entry ''b'' toy_msg) = Kd_Text"
    "oe_message_id (text_entry ''b'' toy_msg) = ''m''" by (simp_all add: entry_message_def text_entry_def toy_msg_def sendable_def)
  obtain n where n: "flush_outcome toy_chat ''b'' 1 (\<lambda>_. True) 0 [text_entry ''b'' toy_msg] res fs n (toy_abs s) (toy_abs t)"
    "r = Inr ()" "evs = surfaced (toy_abs (toy_app, 0)) ''c'' (\<lambda>_. 7) 0 (map entry_message (take n [text_entry ''b'' toy_msg]))"
    "taken_in toy_chat ''c'' (\<lambda>_. 7) 0 (map entry_message (take n [text_entry ''b'' toy_msg])) (toy_abs (toy_app, 0)) (toy_abs q)"
    using messages_surface_once[OF s(1) toy_chat_ok s(3,2,4) k fl toy_port_inv(1) toy_port_calm toy_chat_names(3) g] m(2) by auto
  have f: "\<exists>y. message_to_frame toy_chat 1 toy_msg = Inr y"
    by (simp add: message_to_frame_def toy_msg_def MAX_BODY_def validate_reply_ref_def rbind_def chat_frame_def toy_chat_def)
  have r: "res = Inr [''m'']"
  proof -
    obtain s1 where s1: "record_sent toy_chat toy_port 9 (text_entry ''b'' toy_msg) s = (Inr (), s1)" using s(5) by (metis fst_conv prod.exhaust)
    have i: "toy_inv s1" using strict.record_sent_spec[OF s(1) toy_chat_ok s(3) m(3) _ s1] m(4) toy_chat_names by simp
    obtain x s2 where "outbox_remove toy_port ''m'' s1 = (x, s2)" by (metis prod.exhaust)
    moreover from this have "x = Inr ()" using strict.outbox_remove_spec[OF i] by blast
    ultimately show ?thesis using fl f s1 s(4) m by (auto simp: flush_to_session_def)
  qed
  have "n = 1" using n(1) f r m by (cases n) (auto simp: flush_outcome_def entry_frame_def is_ok_def)
  then have "toy_abs t OUTBOX_NS ''m'' = None" "evs = [Surfaced (record_received 7 ''c'' toy_msg)]"
    "chat_row toy_chat (toy_abs q) ''c'' ''m'' = Some (record_received 7 ''c'' toy_msg)"
    using n r m by (auto simp: flush_outcome_def flushed_def surfaced_def taken_in_def toy_port_inv(2) toy_msg_def)
  then show ?thesis using fl g n(2) unfolding r by blast
qed

end
