(* ===== verification/PB_Chat_Retention.thy ===== *)
theory PB_Chat_Retention
  imports PB_Chat_Delivery
begin

text \<open>
  Disappearing messages and deletion. A window hides what has aged out of it from every read at
  once; pruning deletes it later. Here: pruning a conversation deletes exactly what its window has
  closed on and no read can tell; pruning everything passes by the conversations that hold only
  group messages; deleting a conversation leaves what the outbox still needs.
\<close>

section \<open>Removing rows\<close>

definition dropped :: "string \<Rightarrow> string set \<Rightarrow> chat_abs \<Rightarrow> chat_abs" where
  "dropped ns K a = a(ns := (\<lambda>k. if k \<in> K then None else a ns k))"

lemma dropped_none [simp]: "dropped ns {} a = a"
  by (simp add: dropped_def)

lemma dropped_other [simp]: "ns' \<noteq> ns \<Longrightarrow> dropped ns K a ns' = a ns'"
  by (simp add: dropped_def)

lemma dropped_step: "dropped ns K (dropped ns {k} a) = dropped ns (insert k K) a"
  by (auto simp: dropped_def fun_eq_iff)

lemma dropped_same: "dropped ns K a ns = (\<lambda>k. if k \<in> K then None else a ns k)"
  by (simp add: dropped_def)

lemma dropped_kept: "k \<notin> K \<Longrightarrow> dropped ns K a ns k = a ns k"
  by (simp add: dropped_def)

lemma rows_after_drop:
  assumes "distinct (map fst ((k, v) # raw))" "\<forall>(j, u) \<in> set ((k, v) # raw). a ns j = Some u"
  shows "\<forall>(j, u) \<in> set raw. dropped ns {k} a ns j = Some u"
proof (clarify)
  fix j u assume j: "(j, u) \<in> set raw"
  then have "j \<noteq> k" using assms(1) by force
  then show "dropped ns {k} a ns j = Some u" using assms(2) j by (auto simp: dropped_def)
qed

lemma sorted_rows_unique:
  assumes "sorted (map fst xs)" "distinct (map fst xs)" "sorted (map fst ys)" "distinct (map fst ys)" "map_of xs = map_of (ys :: (string \<times> bytes) list)"
  shows "xs = ys"
proof (rule map_sorted_distinct_set_unique[of fst])
  show eq: "set xs = set ys"
  proof (rule set_eqI)
    fix x show "x \<in> set xs \<longleftrightarrow> x \<in> set ys"
      using map_of_eq_Some_iff[OF assms(2), of "fst x" "snd x"] map_of_eq_Some_iff[OF assms(4), of "fst x" "snd x"] assms(5) by simp
  qed
  show "inj_on fst (set xs \<union> set ys)" using assms(2) eq by (simp add: distinct_map)
qed (use assms in auto)

lemma map_of_kept:
  "distinct (map fst raw) \<Longrightarrow> map_of (filter (\<lambda>kv. fst kv \<notin> K) raw) = (\<lambda>k. if k \<in> K then None else map_of raw k)"
  by (induction raw) (auto simp: fun_eq_iff map_of_eq_None_iff)

definition closed_row :: "chat_env \<Rightarrow> retention \<Rightarrow> int \<Rightarrow> string \<times> bytes \<Rightarrow> bool" where
  "closed_row E ret now kv = (case record_decode E (snd kv) of Inr r \<Rightarrow> has_disappeared E r ret now | Inl _ \<Rightarrow> False)"

definition closed_entry :: "chat_env \<Rightarrow> device_id \<Rightarrow> retention \<Rightarrow> int \<Rightarrow> string \<times> bytes \<Rightarrow> bool" where
  "closed_entry E p ret now kv = (case entry_decode E (snd kv) of
     Inr e \<Rightarrow> oe_peer_id e = p \<and> oe_kind e \<noteq> Kd_Decline \<and> entry_disappeared E e ret now | Inl _ \<Rightarrow> False)"

definition staged_of :: "chat_env \<Rightarrow> string \<times> bytes \<Rightarrow> string list" where
  "staged_of E kv = (case entry_decode E (snd kv) of Inr e \<Rightarrow> (case oe_file e of Some f \<Rightarrow> [sg_path f] | None \<Rightarrow> []) | Inl _ \<Rightarrow> [])"

text \<open>What is left when everything the window has closed on is gone.\<close>

definition prune_gone :: "chat_env \<Rightarrow> device_id \<Rightarrow> retention \<Rightarrow> int \<Rightarrow> chat_abs \<Rightarrow> chat_abs" where
  "prune_gone E p ret now a = dropped (chat_namespace p) {k. \<exists>r. chat_row E a p k = Some r \<and> has_disappeared E r ret now}
     (dropped OUTBOX_NS {k. \<exists>e. outbox_row E a k = Some e \<and> oe_peer_id e = p \<and> oe_kind e \<noteq> Kd_Decline \<and> entry_disappeared E e ret now} a)"

lemma prune_gone_views:
  "prune_gone E p ret now a (chat_namespace p) = (\<lambda>k. if k \<in> {k. \<exists>r. chat_row E a p k = Some r \<and> has_disappeared E r ret now} then None else a (chat_namespace p) k)"
  "prune_gone E p ret now a OUTBOX_NS = (\<lambda>k. if k \<in> {k. \<exists>e. outbox_row E a k = Some e \<and> oe_peer_id e = p \<and> oe_kind e \<noteq> Kd_Decline \<and> entry_disappeared E e ret now}
     then None else a OUTBOX_NS k)"
  "ns \<noteq> chat_namespace p \<Longrightarrow> ns \<noteq> OUTBOX_NS \<Longrightarrow> prune_gone E p ret now a ns = a ns"
  by (simp_all only: prune_gone_def dropped_same dropped_other chat_namespaces_apart simp_thms)

lemma closed_row_iff: "closed_row E ret now (k, v) \<longleftrightarrow> (\<exists>r. record_decode E v = Inr r \<and> has_disappeared E r ret now)"
  by (cases "record_decode E v") (auto simp: closed_row_def)

lemma closed_entry_iff: "closed_entry E p ret now (k, v) \<longleftrightarrow>
    (\<exists>e. entry_decode E v = Inr e \<and> oe_peer_id e = p \<and> oe_kind e \<noteq> Kd_Decline \<and> entry_disappeared E e ret now)"
  by (cases "entry_decode E v") (auto simp: closed_entry_def)

lemma closed_rows_set:
  assumes "distinct (map fst raw)" "map_of raw = a (chat_namespace p)"
  shows "fst ` set (filter (closed_row E ret now) raw) = {k. \<exists>r. chat_row E a p k = Some r \<and> has_disappeared E r ret now}"
proof -
  have "k \<in> fst ` set (filter (closed_row E ret now) raw) \<longleftrightarrow> (\<exists>v. map_of raw k = Some v \<and> closed_row E ret now (k, v))" for k
    unfolding map_of_eq_Some_iff[OF assms(1)] by force
  then show ?thesis unfolding assms(2) set_eq_iff mem_Collect_eq closed_row_iff chat_row_some by blast
qed

lemma closed_entries_set:
  assumes "distinct (map fst raw)" "map_of raw = a OUTBOX_NS"
  shows "fst ` set (filter (closed_entry E p ret now) raw)
    = {k. \<exists>e. outbox_row E a k = Some e \<and> oe_peer_id e = p \<and> oe_kind e \<noteq> Kd_Decline \<and> entry_disappeared E e ret now}"
proof -
  have "k \<in> fst ` set (filter (closed_entry E p ret now) raw) \<longleftrightarrow> (\<exists>v. map_of raw k = Some v \<and> closed_entry E p ret now (k, v))" for k
    unfolding map_of_eq_Some_iff[OF assms(1)] by force
  then show ?thesis unfolding assms(2) set_eq_iff mem_Collect_eq closed_entry_iff outbox_row_some by blast
qed

context strict_store
begin

lemma drop_step:
  assumes "inv s" "namespace_ok ns" "abs s ns k = Some v" "store_delete A ns k s = (x, s1)"
  shows "x = Inr True \<and> inv s1 \<and> abs s1 = dropped ns {k} (abs s)"
proof -
  obtain y t' where d: "ap_delete A ns k s = (y, t')" by fastforce
  from delete_law[OF assms(1,2) d] assms(3,4) d show ?thesis by (auto simp: store_delete_def dropped_def fun_eq_iff)
qed

lemma prune_rows_spec:
  "inv s \<Longrightarrow> namespace_ok ns \<Longrightarrow> distinct (map fst raw) \<Longrightarrow> \<forall>(k, v) \<in> set raw. abs s ns k = Some v \<Longrightarrow>
   prune_rows E A ns ret now raw pr s = (res, t) \<Longrightarrow>
   res = Inr (pr\<lparr>pr_records := pr_records pr + length (filter (closed_row E ret now) raw)\<rparr>) \<and> inv t
     \<and> abs t = dropped ns (fst ` set (filter (closed_row E ret now) raw)) (abs s)"
proof (induction raw arbitrary: s pr)
  case (Cons kv raw)
  obtain k v where kv: "kv = (k, v)" by fastforce
  have v: "abs s ns k = Some v" using Cons.prems(4) kv by simp
  show ?case
  proof (cases "closed_row E ret now kv")
    case False
    then have "prune_rows E A ns ret now raw pr s = (res, t)" using Cons.prems(5) kv by (auto simp: closed_row_def split: sum.splits)
    from Cons.IH[OF Cons.prems(1,2) _ _ this] False Cons.prems(3,4) show ?thesis by simp
  next
    case True
    obtain x s1 where d: "store_delete A ns k s = (x, s1)" by fastforce
    note s1 = drop_step[OF Cons.prems(1,2) v d]
    have l: "prune_rows E A ns ret now raw (pr\<lparr>pr_records := pr_records pr + 1\<rparr>) s1 = (res, t)"
      using Cons.prems(5) kv True d s1 by (auto simp: closed_row_def split: sum.splits)
    have "\<forall>(j, u) \<in> set raw. abs s1 ns j = Some u" using rows_after_drop[of k v raw "abs s" ns] Cons.prems(3,4) kv s1 by simp
    from Cons.IH[OF _ Cons.prems(2) _ this l] s1 True Cons.prems(3) kv show ?thesis by (simp add: dropped_step)
  qed
qed simp

lemma prune_queue_spec:
  "inv s \<Longrightarrow> distinct (map fst raw) \<Longrightarrow> \<forall>(k, v) \<in> set raw. abs s OUTBOX_NS k = Some v \<Longrightarrow>
   prune_queue E A p ret now raw pr s = (res, t) \<Longrightarrow>
   res = Inr (pr\<lparr>pr_queued := pr_queued pr + length (filter (closed_entry E p ret now) raw),
       pr_staged := pr_staged pr @ concat (map (staged_of E) (filter (closed_entry E p ret now) raw))\<rparr>) \<and> inv t
     \<and> abs t = dropped OUTBOX_NS (fst ` set (filter (closed_entry E p ret now) raw)) (abs s)"
proof (induction raw arbitrary: s pr)
  case (Cons kv raw)
  obtain k v where kv: "kv = (k, v)" by fastforce
  have v: "abs s OUTBOX_NS k = Some v" using Cons.prems(3) kv by simp
  show ?case
  proof (cases "closed_entry E p ret now kv")
    case False
    then have "prune_queue E A p ret now raw pr s = (res, t)" using Cons.prems(4) kv by (auto simp: closed_entry_def split: sum.splits)
    from Cons.IH[OF Cons.prems(1) _ _ this] False Cons.prems(2,3) show ?thesis by simp
  next
    case True
    obtain x s1 where d: "store_delete A OUTBOX_NS k s = (x, s1)" by fastforce
    note s1 = drop_step[OF Cons.prems(1) fixed_ns_ok(1) v d]
    have l: "prune_queue E A p ret now raw (pr\<lparr>pr_queued := pr_queued pr + 1, pr_staged := pr_staged pr @ staged_of E kv\<rparr>) s1 = (res, t)"
      using Cons.prems(4) kv True d s1 by (auto simp: closed_entry_def staged_of_def split: sum.splits)
    have "\<forall>(j, u) \<in> set raw. abs s1 OUTBOX_NS j = Some u" using rows_after_drop[of k v raw "abs s" OUTBOX_NS] Cons.prems(2,3) kv s1 by simp
    from Cons.IH[OF _ _ this l] s1 True Cons.prems(2) kv show ?thesis by (simp add: dropped_step)
  qed
qed simp

lemma list_view:
  assumes "inv s" "ap_list A ns s = Inr raw"
  shows "namespace_ok ns \<and> sorted (map fst raw) \<and> distinct (map fst raw) \<and> map_of raw = abs s ns \<and> (\<forall>(k, v) \<in> set raw. abs s ns k = Some v)"
proof -
  have n: "namespace_ok ns" using bad_list[OF assms(1), of ns] assms(2) by fastforce
  then show ?thesis using list_law[OF assms(1) n] list_rows[OF assms(1) n assms(2)] assms(2) by auto
qed

lemma retention_view:
  "inv s \<Longrightarrow> chat_retention E A p s = (case abs s RETENTION_NS p of Some b \<Rightarrow> retention_decode E b | None \<Rightarrow> Inr RETENTION_OFF)"
  using get_law[OF _ fixed_ns_ok(2)] by (simp add: chat_retention_def store_get_def split: option.splits)

lemma prune_spec:
  assumes "inv s" "chat_retention E A p s = Inr ret" "\<not> retention_is_off ret" "chat_prune E A p now s = (Inr pr, t)"
  shows "inv t \<and> namespace_ok (chat_namespace p) \<and> abs t = prune_gone E p ret now (abs s)
    \<and> pr_records pr = card {k. \<exists>r. chat_row E (abs s) p k = Some r \<and> has_disappeared E r ret now}"
proof -
  obtain raw where raw: "ap_list A OUTBOX_NS s = Inr raw" using list_law[OF assms(1) fixed_ns_ok(1)] by blast
  note v = list_view[OF assms(1) raw]
  obtain q s1 where q: "prune_queue E A p ret now raw pruned_none s = (q, s1)" by fastforce
  have s1: "q = Inr (pruned_none\<lparr>pr_queued := length (filter (closed_entry E p ret now) raw),
       pr_staged := concat (map (staged_of E) (filter (closed_entry E p ret now) raw))\<rparr>)" "inv s1"
    "abs s1 = dropped OUTBOX_NS (fst ` set (filter (closed_entry E p ret now) raw)) (abs s)"
    using prune_queue_spec[OF assms(1) _ _ q] v by (auto simp: pruned_none_def)
  obtain rows where rows: "ap_list A (chat_namespace p) s1 = Inr rows"
    using assms(2,3,4) raw q s1(1) by (cases "ap_list A (chat_namespace p) s1") (auto simp: chat_prune_def store_list_def)
  note w = list_view[OF s1(2) rows]
  have c: "abs s1 (chat_namespace p) = abs s (chat_namespace p)" by (simp add: s1(3))
  obtain pr0 where l: "prune_rows E A (chat_namespace p) ret now rows pr0 s1 = (Inr pr, t)" "pr_records pr0 = 0"
    using assms(2,3,4) raw q s1(1) rows by (auto simp: chat_prune_def store_list_def pruned_none_def)
  note t = prune_rows_spec[OF s1(2) _ _ _ l(1)] w
  have ks: "fst ` set (filter (closed_row E ret now) rows) = {k. \<exists>r. chat_row E (abs s) p k = Some r \<and> has_disappeared E r ret now}"
    by (rule closed_rows_set) (use w c in auto)
  have es: "fst ` set (filter (closed_entry E p ret now) raw)
      = {k. \<exists>e. outbox_row E (abs s) k = Some e \<and> oe_peer_id e = p \<and> oe_kind e \<noteq> Kd_Decline \<and> entry_disappeared E e ret now}"
    by (rule closed_entries_set) (use v in auto)
  have "distinct (map fst (filter (closed_row E ret now) rows))" using w by (simp add: distinct_map_filter)
  then have "length (filter (closed_row E ret now) rows) = card (fst ` set (filter (closed_row E ret now) rows))"
    by (metis distinct_card length_map set_map)
  then show ?thesis using t l(2) ks es s1(3) by (auto simp: prune_gone_def)
qed

end

section \<open>Reads after a prune\<close>

text \<open>Reading the outbox without the cache of windows.\<close>

fun pending_ref :: "chat_env \<Rightarrow> (device_id \<Rightarrow> (chat_error, retention) result) \<Rightarrow> int \<Rightarrow> (string \<times> bytes) list \<Rightarrow> (chat_error, outbox_entry list) result" where
  "pending_ref E W now [] = Inr []"
| "pending_ref E W now ((k, v) # raw) = (case entry_decode E v of
     Inl _ \<Rightarrow> pending_ref E W now raw
   | Inr e \<Rightarrow> rbind (W (oe_peer_id e)) (\<lambda>ret.
       if oe_kind e \<noteq> Kd_Decline \<and> entry_disappeared E e ret now then pending_ref E W now raw
       else rbind (pending_ref E W now raw) (\<lambda>out. Inr (e # out))))"

lemma pending_loop_ref:
  "(\<And>p r. windows p = Some r \<Longrightarrow> chat_retention E A p s = Inr r) \<Longrightarrow>
   pending_loop E A now windows raw s = pending_ref E (\<lambda>p. chat_retention E A p s) now raw"
proof (induction raw arbitrary: windows)
  case (Cons kv raw)
  obtain k v where kv: "kv = (k, v)" by fastforce
  show ?case
  proof (cases "entry_decode E v")
    case (Inl e)
    then show ?thesis using Cons kv by simp
  next
    case (Inr e)
    let ?p = "oe_peer_id e"
    have w: "(case windows ?p of Some r \<Rightarrow> Inr r | None \<Rightarrow> chat_retention E A ?p s) = chat_retention E A ?p s"
      using Cons.prems[of ?p] by (simp split: option.splits)
    have "pending_loop E A now (windows(?p \<mapsto> ret)) raw s = pending_ref E (\<lambda>p. chat_retention E A p s) now raw"
      if "chat_retention E A ?p s = Inr ret" for ret
      by (rule Cons.IH) (use Cons.prems that in \<open>auto split: if_splits\<close>)
    then show ?thesis using Inr kv w by (cases "chat_retention E A ?p s") (simp_all add: rbind_def)
  qed
qed simp

lemma pending_ref_pruned:
  "W p = Inr ret \<Longrightarrow> pending_ref E W now (filter (\<lambda>kv. \<not> closed_entry E p ret now kv) raw) = pending_ref E W now raw"
proof (induction raw)
  case (Cons kv raw)
  obtain k v where kv: "kv = (k, v)" by fastforce
  show ?case
  proof (cases "closed_entry E p ret now kv")
    case True
    then have "pending_ref E W now (kv # raw) = pending_ref E W now raw" using Cons.prems kv by (auto simp: closed_entry_iff rbind_def)
    then show ?thesis using True Cons by simp
  next
    case False
    have "pending_ref E W now (kv # raw') = pending_ref E W now (kv # raw)" if "pending_ref E W now raw' = pending_ref E W now raw" for raw'
      using that kv by (cases "entry_decode E v") (simp_all cong: if_cong)
    from this[OF Cons.IH[OF Cons.prems]] show ?thesis using False by simp
  qed
qed simp

lemma filter_keys:
  assumes "distinct (map fst raw)"
  shows "filter (\<lambda>kv. fst kv \<notin> fst ` set (filter Q raw)) raw = filter (\<lambda>kv. \<not> Q kv) raw"
proof (rule filter_cong[OF refl])
  fix kv assume kv: "kv \<in> set raw"
  have "inj_on fst (set raw)" using assms by (simp add: distinct_map)
  then have "fst kv \<in> fst ` set (filter Q raw) \<longleftrightarrow> Q kv" using kv unfolding inj_on_def image_iff set_filter by (metis (mono_tags, lifting) mem_Collect_eq)
  then show "(fst kv \<notin> fst ` set (filter Q raw)) = (\<not> Q kv)" by simp
qed

definition shown_rows :: "chat_env \<Rightarrow> retention \<Rightarrow> int \<Rightarrow> bool \<Rightarrow> (string \<times> bytes) list \<Rightarrow> chat_record list" where
  "shown_rows E ret now inc raw = List.map_filter (\<lambda>(_, v). case record_decode E v of
     Inl _ \<Rightarrow> None | Inr r \<Rightarrow> if has_disappeared E r ret now \<or> cr_group r \<noteq> None \<and> \<not> inc then None else Some r) raw"

lemma shown_rows_simps [simp]:
  "shown_rows E ret now inc [] = []"
  "shown_rows E ret now inc ((k, v) # raw) = (case record_decode E v of
     Inl _ \<Rightarrow> shown_rows E ret now inc raw
   | Inr r \<Rightarrow> if has_disappeared E r ret now \<or> cr_group r \<noteq> None \<and> \<not> inc then shown_rows E ret now inc raw
       else r # shown_rows E ret now inc raw)"
  by (cases "record_decode E v"; auto simp: shown_rows_def List.map_filter_def)+

lemma shown_rows_pruned: "shown_rows E ret now inc (filter (\<lambda>kv. \<not> closed_row E ret now kv) raw) = shown_rows E ret now inc raw"
proof (induction raw)
  case (Cons kv raw)
  obtain k v where kv: "kv = (k, v)" by fastforce
  then show ?case using Cons by (cases "record_decode E v") (auto simp: closed_row_iff)
qed simp

lemma shown_rows_keys:
  assumes "chat_wf E a" "\<forall>(k, v) \<in> set raw. a (chat_namespace p) k = Some v" "r \<in> set (shown_rows E ret now inc raw)"
  shows "cr_peer_id r = p \<and> cr_id r \<in> fst ` set raw"
proof -
  obtain k v where k: "(k, v) \<in> set raw" "record_decode E v = Inr r"
    using assms(3) by (auto simp: shown_rows_def map_filter_def split: sum.splits if_splits)
  then have "chat_row E a p k = Some r" using assms(2) by (auto simp: chat_row_some)
  then show ?thesis using assms(1) k(1) by (force simp: chat_wf_def)
qed

lemma landing_of_updates:
  "landing_of E (row_set q k b a) p j = landing_of E a p j" "j \<noteq> cr_id r \<Longrightarrow> landing_of E (claimed r a) p j = landing_of E a p j"
  by (auto simp: landing_of_def claimed_def landing_drop_def)

context strict_store
begin

lemma list_after:
  assumes "inv s" "inv t" "ap_list A ns s = Inr raw" "abs t ns = (\<lambda>k. if k \<in> fst ` set (filter Q raw) then None else abs s ns k)"
  shows "ap_list A ns t = Inr (filter (\<lambda>kv. \<not> Q kv) raw)"
proof -
  note v = list_view[OF assms(1,3)]
  obtain raw' where r: "ap_list A ns t = Inr raw'" using list_law[OF assms(2)] v by blast
  note w = list_view[OF assms(2) r]
  have "raw' = filter (\<lambda>kv. fst kv \<notin> fst ` set (filter Q raw)) raw"
  proof (rule sorted_rows_unique)
    show "map_of raw' = map_of (filter (\<lambda>kv. fst kv \<notin> fst ` set (filter Q raw)) raw)"
      using v w assms(4) by (subst map_of_kept) auto
  qed (use v w in \<open>auto intro: sorted_filter distinct_map_filter\<close>)
  then show ?thesis using r filter_keys v by metis
qed

lemma records_loop_out:
  "inv s \<Longrightarrow> chat_env_ok E \<Longrightarrow> chat_wf E (abs s) \<Longrightarrow> distinct (map fst raw) \<Longrightarrow> \<forall>(k, v) \<in> set raw. abs s (chat_namespace p) k = Some v \<Longrightarrow>
   fst (records_loop E A ret now inc raw s) = map (reconciled E (abs s)) (shown_rows E ret now inc raw)"
proof (induction raw arbitrary: s)
  case (Cons kv raw)
  obtain k v where kv: "kv = (k, v)" by fastforce
  have v: "abs s (chat_namespace p) k = Some v" "k \<notin> fst ` set raw" using Cons.prems(4,5) kv by auto
  have tl: "\<forall>(k, v) \<in> set raw. abs s (chat_namespace p) k = Some v" "distinct (map fst raw)" using Cons.prems(4,5) by auto
  show ?case
  proof (cases "\<exists>r. record_decode E v = Inr r \<and> \<not> has_disappeared E r ret now \<and> (cr_group r = None \<or> inc)")
    case False
    then show ?thesis using Cons.IH[OF Cons.prems(1-3) tl(2,1)] kv by (auto split: sum.splits)
  next
    case True
    then obtain r where r: "record_decode E v = Inr r" "\<not> has_disappeared E r ret now" "cr_group r = None \<or> inc" by blast
    have rw: "chat_row E (abs s) p k = Some r" using v r by (simp add: chat_row_some)
    note key = row_key[OF Cons.prems(1,3) rw]
    obtain r' s1 where w: "with_landing E A r s = (r', s1)" by fastforce
    note wa = with_landing_auth[OF Cons.prems(1-3) rw w]
    have ws: "r' = reconciled E (abs s) r" "abs s1 = claimed r (abs s) \<or> abs s1 = row_set p k (record_encode E r') (claimed r (abs s))"
      using with_landing_spec[OF Cons.prems(1) _ w] key by auto
    have rows: "\<forall>(j, u) \<in> set raw. abs s1 (chat_namespace p) j = Some u"
    proof (clarify)
      fix j u assume j: "(j, u) \<in> set raw"
      then have "j \<noteq> k" using v(2) by force
      then show "abs s1 (chat_namespace p) j = Some u" using wa tl(1) j by auto
    qed
    have ih: "fst (records_loop E A ret now inc raw s1) = map (reconciled E (abs s1)) (shown_rows E ret now inc raw)"
      by (rule Cons.IH[OF conjunct1[OF wa] Cons.prems(2) _ tl(2) rows]) (use wa authority_wf Cons.prems(3) in blast)
    have "reconciled E (abs s1) x = reconciled E (abs s) x" if "x \<in> set (shown_rows E ret now inc raw)" for x
    proof -
      have "cr_id x \<noteq> cr_id r" using shown_rows_keys[OF Cons.prems(3) tl(1) that] v(2) key by metis
      then show ?thesis using ws(2) by (auto simp: reconciled_def landing_of_updates)
    qed
    then show ?thesis using ih r w kv ws(1) by (auto split: prod.splits)
  qed
qed simp

lemma records_view:
  assumes "inv s" "chat_env_ok E" "chat_wf E (abs s)" "ap_list A (chat_namespace p) s = Inr raw"
  shows "fst (chat_records E A now p inc s) = rbind (chat_retention E A p s) (\<lambda>ret. Inr (map (reconciled E (abs s)) (shown_rows E ret now inc raw)))"
proof -
  note v = list_view[OF assms(1,4)]
  then have "fst (records_loop E A ret now inc raw s) = map (reconciled E (abs s)) (shown_rows E ret now inc raw)" for ret
    using records_loop_out[OF assms(1-3)] by blast
  then show ?thesis using assms(4) by (cases "chat_retention E A p s") (simp_all add: chat_records_def store_list_def rbind_def split_beta)
qed

lemma prune_unseen:
  assumes "inv s" "chat_env_ok E" "chat_wf E (abs s)" "chat_retention E A p s = Inr ret" "\<not> retention_is_off ret"
    "chat_prune E A p now s = (Inr pr, t)"
  shows "fst (chat_records E A now p inc t) = fst (chat_records E A now p inc s) \<and> outbox_for E A now q t = outbox_for E A now q s"
proof -
  have t: "inv t" "namespace_ok (chat_namespace p)" "abs t = prune_gone E p ret now (abs s)" using prune_spec[OF assms(1,4-6)] by auto
  have ret: "chat_retention E A x t = chat_retention E A x s" for x
    using retention_view[OF t(1)] retention_view[OF assms(1)] t(3) by (simp add: prune_gone_views)
  obtain raw where raw: "ap_list A (chat_namespace p) s = Inr raw" using list_law[OF assms(1) t(2)] by blast
  note v = list_view[OF assms(1) raw]
  have ks: "fst ` set (filter (closed_row E ret now) raw) = {k. \<exists>r. chat_row E (abs s) p k = Some r \<and> has_disappeared E r ret now}"
    by (rule closed_rows_set) (use v in auto)
  have l: "ap_list A (chat_namespace p) t = Inr (filter (\<lambda>kv. \<not> closed_row E ret now kv) raw)"
    by (rule list_after[OF assms(1) t(1) raw]) (simp only: ks t(3) prune_gone_views)
  have "chat_row E (abs t) x k = Some r \<Longrightarrow> chat_row E (abs s) x k = Some r" for x k r
    by (cases "x = p") (auto simp: chat_row_some t(3) prune_gone_views split: if_splits)
  then have wf: "chat_wf E (abs t)" using assms(3) unfolding chat_wf_def by blast
  have "landing_of E (abs t) = landing_of E (abs s)" by (simp add: fun_eq_iff landing_of_def t(3) prune_gone_views)
  then have rc: "reconciled E (abs t) = reconciled E (abs s)" by (simp add: fun_eq_iff reconciled_def)
  have rs: "fst (chat_records E A now p inc t) = fst (chat_records E A now p inc s)"
    unfolding records_view[OF t(1) assms(2) wf l] records_view[OF assms(1-3) raw] ret rc assms(4) by (simp add: rbind_def shown_rows_pruned)
  obtain box where box: "ap_list A OUTBOX_NS s = Inr box" using list_law[OF assms(1) fixed_ns_ok(1)] by blast
  note w = list_view[OF assms(1) box]
  have es: "fst ` set (filter (closed_entry E p ret now) box)
      = {k. \<exists>e. outbox_row E (abs s) k = Some e \<and> oe_peer_id e = p \<and> oe_kind e \<noteq> Kd_Decline \<and> entry_disappeared E e ret now}"
    by (rule closed_entries_set) (use w in auto)
  have b: "ap_list A OUTBOX_NS t = Inr (filter (\<lambda>kv. \<not> closed_entry E p ret now kv) box)"
    by (rule list_after[OF assms(1) t(1) box]) (simp only: es t(3) prune_gone_views)
  have pl: "pending_loop E A now Map.empty rows x = pending_ref E (\<lambda>p. chat_retention E A p x) now rows" for rows x
    by (rule pending_loop_ref) simp
  have "pending_loop E A now Map.empty (filter (\<lambda>kv. \<not> closed_entry E p ret now kv) box) t = pending_loop E A now Map.empty box s"
    by (simp add: pl ret pending_ref_pruned[of "\<lambda>x. chat_retention E A x s", OF assms(4)])
  then show ?thesis using rs b box by (simp add: outbox_for_def outbox_pending_def store_list_def rbind_def)
qed

end


section \<open>What pruning everything passes by\<close>

context strict_store
begin

lemma prune_frame:
  assumes "inv s" "chat_prune E A q now s = (res, t)"
  shows "inv t \<and> (\<forall>ns. ns \<noteq> chat_namespace q \<longrightarrow> ns \<noteq> OUTBOX_NS \<longrightarrow> abs t ns = abs s ns)
    \<and> (namespace_ok (chat_namespace q) \<longrightarrow> is_ok (chat_retention E A q s) \<longrightarrow> is_ok res)"
proof (cases "\<exists>ret. chat_retention E A q s = Inr ret \<and> \<not> retention_is_off ret")
  case False
  then show ?thesis using assms by (auto simp: chat_prune_def is_ok_def split: sum.splits if_splits)
next
  case True
  then obtain ret where ret: "chat_retention E A q s = Inr ret" "\<not> retention_is_off ret" by blast
  obtain raw where raw: "ap_list A OUTBOX_NS s = Inr raw" using list_law[OF assms(1) fixed_ns_ok(1)] by blast
  note v = list_view[OF assms(1) raw]
  obtain x s1 where q: "prune_queue E A q ret now raw pruned_none s = (x, s1)" by fastforce
  then have s1: "is_ok x" "inv s1" "\<forall>ns. ns \<noteq> OUTBOX_NS \<longrightarrow> abs s1 ns = abs s ns"
    using prune_queue_spec[OF assms(1) _ _ q] v by (auto simp: is_ok_def)
  then obtain pr where x: "x = Inr pr" by (cases x) (auto simp: is_ok_def)
  show ?thesis
  proof (cases "ap_list A (chat_namespace q) s1")
    case (Inl e)
    then have "\<not> namespace_ok (chat_namespace q)" using list_law[OF s1(2)] by force
    then show ?thesis using assms(2) ret raw q x s1 Inl by (auto simp: chat_prune_def store_list_def)
  next
    case (Inr rows)
    note w = list_view[OF s1(2) Inr]
    have l: "prune_rows E A (chat_namespace q) ret now rows pr s1 = (res, t)"
      using assms(2) ret raw q x Inr by (simp add: chat_prune_def store_list_def)
    from prune_rows_spec[OF s1(2) _ _ _ l] w s1(3) show ?thesis by (auto simp: is_ok_def)
  qed
qed

lemma prune_all_frame:
  "inv (fst sf) \<Longrightarrow> p \<notin> set peers \<Longrightarrow> prune_all_loop E A rm now peers acc sf = (res, t, g) \<Longrightarrow>
   abs t (chat_namespace p) = abs (fst sf) (chat_namespace p)"
proof (induction peers arbitrary: sf acc)
  case (Cons q peers)
  obtain x s1 where c: "chat_prune E A q now (fst sf) = (x, s1)" by fastforce
  note f = prune_frame[OF Cons.prems(1) c]
  have q: "abs s1 (chat_namespace p) = abs (fst sf) (chat_namespace p)" using f Cons.prems(2) by simp
  show ?case
  proof (cases x)
    case (Inl e)
    then show ?thesis using Cons.prems(3) c q by (simp add: prune_conversation_def)
  next
    case (Inr pr)
    obtain acc' f' where "prune_all_loop E A rm now peers acc' (s1, f') = (res, t, g)"
      using Cons.prems(3) c Inr by (auto simp: prune_conversation_def)
    from Cons.IH[OF _ _ this] f Cons.prems(2) q show ?thesis by simp
  qed
qed simp

lemma group_only_not_prunable:
  assumes "inv s" "namespace_ok (chat_namespace p)"
    "\<forall>k v. abs s (chat_namespace p) k = Some v \<longrightarrow> (\<exists>r. record_decode E v = Inr r \<and> cr_group r \<noteq> None)"
    "\<forall>k e. outbox_row E (abs s) k = Some e \<longrightarrow> oe_peer_id e \<noteq> p" "prunable_peers E A s = Inr peers"
  shows "p \<notin> set peers"
proof -
  obtain raw where raw: "ap_list A (chat_namespace p) s = Inr raw" using list_law[OF assms(1,2)] by blast
  note v = list_view[OF assms(1) raw]
  have "\<not> holds_private_record E A (chat_namespace p) s"
    using raw v assms(3) by (fastforce simp: holds_private_record_def list_ex_iff)
  then have c: "conversations E A s = Inr cs \<Longrightarrow> p \<notin> set cs" for cs by (auto simp: conversations_def split: sum.splits)
  obtain box where box: "ap_list A OUTBOX_NS s = Inr box" using list_law[OF assms(1) fixed_ns_ok(1)] by blast
  note w = list_view[OF assms(1) box]
  have "oe_peer_id e \<noteq> p" if "(k, u) \<in> set box" "entry_decode E u = Inr e" for k u e
  proof -
    have "abs s OUTBOX_NS k = Some u" using w that(1) by auto
    then show ?thesis using assms(4) that(2) unfolding outbox_row_some by blast
  qed
  then show ?thesis using assms(5) c box
    by (auto simp: prunable_peers_def rbind_def store_list_def List.map_filter_def split: sum.splits)
qed

end

text \<open>
  C35. Pruning everything leaves a conversation that holds only group messages alone, whatever its
  window: such a conversation is not among the listed ones, and unless something is queued for the
  peer no prune of all conversations ever reaches it. Rows past their window stay on disk.
\<close>

theorem prune_all_skips_group_rows:
  assumes "app_port_inv P io s" "namespace_ok (chat_namespace p)"
    "\<forall>k v. app_port_abs P s (chat_namespace p) k = Some v \<longrightarrow> (\<exists>r. record_decode E v = Inr r \<and> cr_group r \<noteq> None)"
    "\<forall>k e. outbox_row E (app_port_abs P s) k = Some e \<longrightarrow> oe_peer_id e \<noteq> p"
    "prune_all_conversations E (fs_app_port P io) rm now (s, f) = (res, t, g)"
  shows "app_port_abs P t (chat_namespace p) = app_port_abs P s (chat_namespace p)"
proof (cases "prunable_peers E (fs_app_port P io) s")
  case (Inl e)
  then show ?thesis using assms(5) by (simp add: prune_all_conversations_def)
next
  case (Inr peers)
  then have "p \<notin> set peers" by (rule strict.group_only_not_prunable[OF assms(1-4)])
  moreover have "prune_all_loop E (fs_app_port P io) rm now peers pruned_none (s, f) = (res, t, g)"
    using assms(5) Inr by (simp add: prune_all_conversations_def)
  ultimately show ?thesis using strict.prune_all_frame[of P io "(s, f)" p peers E rm now pruned_none res t g] assms(1) by simp
qed

section \<open>Deleting a conversation\<close>

text \<open>The ids queued for a peer, refusals aside, and the rows a delete takes.\<close>

definition queued_ids :: "chat_env \<Rightarrow> device_id \<Rightarrow> chat_abs \<Rightarrow> string set" where
  "queued_ids E p a = {oe_message_id e | k e. outbox_row E a k = Some e \<and> oe_peer_id e = p \<and> oe_kind e \<noteq> Kd_Decline}"

definition deletable :: "chat_env \<Rightarrow> device_id \<Rightarrow> chat_abs \<Rightarrow> string set" where
  "deletable E p a = {k. a (chat_namespace p) k \<noteq> None \<and> k \<notin> queued_ids E p a
     \<and> (\<forall>r. chat_row E a p k = Some r \<longrightarrow> cr_status r \<noteq> St_Staging)}"

definition entry_ids :: "chat_env \<Rightarrow> device_id \<Rightarrow> string \<times> bytes \<Rightarrow> string set" where
  "entry_ids E p kv = (case entry_decode E (snd kv) of
     Inr e \<Rightarrow> if oe_peer_id e = p \<and> oe_kind e \<noteq> Kd_Decline then {oe_message_id e} else {} | Inl _ \<Rightarrow> {})"

lemma entry_ids_iff: "i \<in> entry_ids E p (k, v) \<longleftrightarrow>
    (\<exists>e. entry_decode E v = Inr e \<and> oe_peer_id e = p \<and> oe_kind e \<noteq> Kd_Decline \<and> oe_message_id e = i)"
  by (cases "entry_decode E v") (auto simp: entry_ids_def)

lemma keep_loop_ok:
  "\<forall>(k, v) \<in> set raw. is_ok (entry_decode E v) \<Longrightarrow> keep_loop E p raw Q = Inr (Q \<union> (\<Union>kv \<in> set raw. entry_ids E p kv))"
proof (induction raw arbitrary: Q)
  case (Cons kv raw)
  obtain k v where kv: "kv = (k, v)" by fastforce
  with Cons.prems obtain e where e: "entry_decode E v = Inr e" by (cases "entry_decode E v") (auto simp: is_ok_def)
  then show ?case using Cons kv by (simp add: entry_ids_def)
qed simp

lemma keep_loop_bad:
  "\<not> (\<forall>(k, v) \<in> set raw. is_ok (entry_decode E v)) \<Longrightarrow> \<exists>m. keep_loop E p raw Q = Inl (CeQueueUnreadable m)"
proof (induction raw arbitrary: Q)
  case (Cons kv raw)
  obtain k v where kv: "kv = (k, v)" by fastforce
  show ?case
  proof (cases "entry_decode E v")
    case (Inr e)
    then show ?thesis using Cons kv by (simp add: is_ok_def)
  qed (simp add: kv)
qed simp

context strict_store
begin

lemma delete_rows_spec:
  "inv s \<Longrightarrow> namespace_ok ns \<Longrightarrow> distinct (map fst raw) \<Longrightarrow> \<forall>(k, v) \<in> set raw. abs s ns k = Some v \<Longrightarrow>
   delete_rows E A ns Q raw n s = (res, t) \<Longrightarrow>
   res = Inr (n + length (filter (\<lambda>(k, v). \<not> keeps_row E Q k v) raw)) \<and> inv t
     \<and> abs t = dropped ns (fst ` set (filter (\<lambda>(k, v). \<not> keeps_row E Q k v) raw)) (abs s)"
proof (induction raw arbitrary: s n)
  case (Cons kv raw)
  obtain k v where kv: "kv = (k, v)" by fastforce
  have v: "abs s ns k = Some v" using Cons.prems(4) kv by simp
  show ?case
  proof (cases "keeps_row E Q k v")
    case True
    then have "delete_rows E A ns Q raw n s = (res, t)" using Cons.prems(5) kv by simp
    from Cons.IH[OF Cons.prems(1,2) _ _ this] True Cons.prems(3,4) kv show ?thesis by simp
  next
    case False
    obtain x s1 where d: "store_delete A ns k s = (x, s1)" by fastforce
    note s1 = drop_step[OF Cons.prems(1,2) v d]
    have l: "delete_rows E A ns Q raw (n + 1) s1 = (res, t)" using Cons.prems(5) kv False d s1 by simp
    have "\<forall>(j, u) \<in> set raw. abs s1 ns j = Some u" using rows_after_drop[of k v raw "abs s" ns] Cons.prems(3,4) kv s1 by simp
    from Cons.IH[OF _ Cons.prems(2) _ this l] s1 False Cons.prems(3) kv show ?thesis by (simp add: dropped_step)
  qed
qed simp

lemma establish_spec:
  assumes "inv s"
  shows "keep_establish E A p s = Inr (queued_ids E p (abs s)) \<and> (\<forall>k v. abs s OUTBOX_NS k = Some v \<longrightarrow> is_ok (entry_decode E v))
    \<or> (\<exists>m. keep_establish E A p s = Inl (CeQueueUnreadable m)) \<and> (\<exists>k v. abs s OUTBOX_NS k = Some v \<and> \<not> is_ok (entry_decode E v))"
proof -
  obtain box where box: "ap_list A OUTBOX_NS s = Inr box" using list_law[OF assms fixed_ns_ok(1)] by blast
  have m: "(k, v) \<in> set box \<longleftrightarrow> abs s OUTBOX_NS k = Some v" for k v using list_rows[OF assms fixed_ns_ok(1) box] .
  have e: "keep_establish E A p s = keep_loop E p box {}" by (simp add: keep_establish_def store_list_def box rbind_def)
  have q: "queued_ids E p (abs s) = (\<Union>kv \<in> set box. entry_ids E p kv)"
  proof (rule set_eqI)
    fix i
    have "i \<in> (\<Union>kv \<in> set box. entry_ids E p kv) \<longleftrightarrow> (\<exists>k v. (k, v) \<in> set box \<and> i \<in> entry_ids E p (k, v))" by (auto simp: Bex_def)
    then show "i \<in> queued_ids E p (abs s) \<longleftrightarrow> i \<in> (\<Union>kv \<in> set box. entry_ids E p kv)"
      unfolding queued_ids_def outbox_row_some m entry_ids_iff by blast
  qed
  show ?thesis
  proof (cases "\<forall>(k, v) \<in> set box. is_ok (entry_decode E v)")
    case True
    then have "keep_loop E p box {} = Inr (queued_ids E p (abs s))" using keep_loop_ok q by simp
    then show ?thesis using True m e by auto
  next
    case False
    then have "\<exists>m. keep_loop E p box {} = Inl (CeQueueUnreadable m)" by (rule keep_loop_bad)
    then show ?thesis using False m e by auto
  qed
qed

lemma delete_spec:
  assumes "inv s" "namespace_ok (chat_namespace p)" "delete_conversation E A p s = (res, t)"
  shows "inv t \<and> (if \<forall>k v. abs s OUTBOX_NS k = Some v \<longrightarrow> is_ok (entry_decode E v)
    then res = Inr (card (deletable E p (abs s))) \<and> abs t = dropped (chat_namespace p) (deletable E p (abs s)) (abs s)
    else t = s \<and> (\<exists>m. res = Inl (CeQueueUnreadable m)))"
proof (cases "\<forall>k v. abs s OUTBOX_NS k = Some v \<longrightarrow> is_ok (entry_decode E v)")
  case False
  then show ?thesis using establish_spec[OF assms(1), of E p] assms(1,3) by (auto simp: delete_conversation_def)
next
  case True
  let ?Q = "queued_ids E p (abs s)"
  have k: "keep_establish E A p s = Inr ?Q" using establish_spec[OF assms(1), of E p] True by auto
  obtain raw where raw: "ap_list A (chat_namespace p) s = Inr raw" using list_law[OF assms(1,2)] by blast
  note v = list_view[OF assms(1) raw]
  have d: "delete_rows E A (chat_namespace p) ?Q raw 0 s = (res, t)" using assms(3) k raw by (simp add: delete_conversation_def store_list_def)
  note spec = delete_rows_spec[OF assms(1,2) _ _ d]
  let ?del = "filter (\<lambda>(k, v). \<not> keeps_row E ?Q k v) raw"
  have m: "(j, u) \<in> set raw \<longleftrightarrow> abs s (chat_namespace p) j = Some u" for j u using list_rows[OF assms(1,2) raw] .
  have "keeps_row E ?Q j u \<longleftrightarrow> j \<in> ?Q \<or> (\<exists>r. record_decode E u = Inr r \<and> cr_status r = St_Staging)" for j u
    by (auto simp: keeps_row_def split: sum.splits)
  then have ks: "fst ` set ?del = deletable E p (abs s)"
    unfolding deletable_def set_filter by (force simp: m chat_row_some image_iff)
  have "distinct (map fst ?del)" using v by (simp add: distinct_map_filter)
  then have "length ?del = card (deletable E p (abs s))" using ks by (metis distinct_card length_map set_map)
  then show ?thesis using spec v ks True by simp
qed

end

text \<open>
  Deleting a conversation deletes every row except those a queued message still needs and those
  being staged, and counts them; the outbox and every other conversation stay as they are. While
  any queued entry cannot be read the delete is refused with nothing changed.
\<close>

lemma delete_keeps_queued:
  assumes "app_port_inv P io s" "namespace_ok (chat_namespace p)" "delete_conversation E (fs_app_port P io) p s = (res, t)"
  shows "app_port_inv P io t \<and> (if \<forall>k v. app_port_abs P s OUTBOX_NS k = Some v \<longrightarrow> is_ok (entry_decode E v)
    then res = Inr (card (deletable E p (app_port_abs P s)))
      \<and> app_port_abs P t = dropped (chat_namespace p) (deletable E p (app_port_abs P s)) (app_port_abs P s)
    else t = s \<and> (\<exists>m. res = Inl (CeQueueUnreadable m)))"
  by (rule strict.delete_spec[OF assms])

section \<open>Witnesses\<close>

definition toy_second :: retention where
  "toy_second = \<lparr>rt_ttl_secs = Some 1\<rparr>"

text \<open>A store with a window of one second for \<open>b\<close> and one row.\<close>

lemma toy_window:
  assumes "cr_id r = ''m''" "cr_peer_id r = ''b''" "\<not> is_settleable_file_row In r"
  obtains s where "toy_inv s" "chat_wf toy_chat (toy_abs s)" "chat_retention toy_chat toy_port ''b'' s = Inr toy_second"
    "\<forall>k. toy_abs s (chat_namespace ''b'') k = (if k = ''m'' then Some (record_encode toy_chat r) else None)" "\<forall>k. toy_abs s OUTBOX_NS k = None"
proof -
  obtain w where w: "retention_encode toy_chat toy_second = Inr w" "retention_decode toy_chat w = Inr toy_second"
    by (auto simp: retention_encode_def retention_decode_def toy_chat_def)
  obtain x s0 where p: "ap_put toy_port RETENTION_NS ''b'' w (toy_app, 0) = (x, s0)" by (metis prod.exhaust)
  have s0: "x = Inr ()" "app_port_calm toy_prims (\<lambda>_. toy_put_io) s0" "toy_inv s0" "toy_abs s0 = (\<lambda>_ _. None)(RETENTION_NS := [''b'' \<mapsto> w])"
    using served.put_served[OF toy_port_inv(1) toy_port_calm fixed_ns_ok(2) toy_chat_names(6) p] app.put_law[OF toy_port_inv(1) toy_chat_names(6) p]
    by (simp_all add: toy_port_inv(2))
  obtain y s where a: "chat_append toy_chat toy_port r s0 = (y, s)" by (metis prod.exhaust)
  then have y: "y = Inr ()" using served.append_served[OF s0(3,2) _ _ _ a] assms toy_chat_names by simp
  have s: "toy_inv s" "toy_abs s = row_set ''b'' ''m'' (record_encode toy_chat r) (toy_abs s0)"
    using strict.append_spec[OF s0(3) _ a] assms toy_chat_names y by (simp_all add: reconciled_def claimed_def)
  have wf: "chat_wf toy_chat (toy_abs s)"
    using toy_chat_ok assms by (auto simp: s(2) s0(4) chat_wf_def chat_row_def row_set_def split: if_splits)
  have ret: "chat_retention toy_chat toy_port ''b'' s = Inr toy_second"
    using strict.retention_view[OF s(1), of toy_chat "''b''"] w(2) by (simp add: s(2) s0(4))
  have "\<forall>k. toy_abs s (chat_namespace ''b'') k = (if k = ''m'' then Some (record_encode toy_chat r) else None)" "\<forall>k. toy_abs s OUTBOX_NS k = None"
    by (simp_all add: s(2) s0(4) row_set_def)
  from that[OF s(1) wf ret this] show thesis .
qed

lemma toy_closed: "cr_stored_at r = Some 5 \<Longrightarrow> has_disappeared toy_chat r toy_second 1000000005"
  by (simp add: has_disappeared_def age_basis_def closed_on_def cutoff_def toy_second_def toy_chat_def)


theorem prune_all_skips_group_rows_witness:
  "\<exists>s t r. fst (snd (prune_all_conversations toy_chat toy_port (\<lambda>_ f. (True, f)) 1000000005 (s, ()))) = t
     \<and> chat_retention toy_chat toy_port ''b'' s = Inr toy_second \<and> has_disappeared toy_chat r toy_second 1000000005
     \<and> chat_row toy_chat (toy_abs t) ''b'' ''m'' = Some r"
proof -
  let ?r = "record_out 5 ''b'' (toy_msg\<lparr>cm_group := Some ''g''\<rparr>) St_Sent"
  have r: "cr_id ?r = ''m''" "cr_peer_id ?r = ''b''" "\<not> is_settleable_file_row In ?r" "cr_stored_at ?r = Some 5" "cr_group ?r = Some ''g''"
    by (simp_all add: record_out_def toy_msg_def is_settleable_file_row_def)
  obtain s where s: "toy_inv s" "chat_wf toy_chat (toy_abs s)" "chat_retention toy_chat toy_port ''b'' s = Inr toy_second"
    "\<forall>k. toy_abs s (chat_namespace ''b'') k = (if k = ''m'' then Some (record_encode toy_chat ?r) else None)" "\<forall>k. toy_abs s OUTBOX_NS k = None"
    by (rule toy_window[OF r(1-3)])
  have g: "\<forall>k v. toy_abs s (chat_namespace ''b'') k = Some v \<longrightarrow> (\<exists>r. record_decode toy_chat v = Inr r \<and> cr_group r \<noteq> None)"
    using s(4) r(5) toy_chat_ok by auto
  have o: "\<forall>k e. outbox_row toy_chat (toy_abs s) k = Some e \<longrightarrow> oe_peer_id e \<noteq> ''b''" by (simp add: outbox_row_def s(5))
  let ?x = "prune_all_conversations toy_chat toy_port (\<lambda>_ f. (True, f)) 1000000005 (s, ())" and ?t = "fst (snd (prune_all_conversations toy_chat toy_port (\<lambda>_ f. (True, f)) 1000000005 (s, ())))"
  have p: "?x = (fst ?x, ?t, ())" by (simp add: prod_eq_iff)
  from prune_all_skips_group_rows[OF s(1) toy_chat_names(1) g o p]
  have "chat_row toy_chat (toy_abs ?t) ''b'' ''m'' = Some ?r" using s(4) toy_chat_ok by (simp add: chat_row_def)
  then show ?thesis using s(3) toy_closed[OF r(4)] by blast
qed

lemma delete_keeps_queued_witness:
  "\<exists>s t. delete_conversation toy_chat toy_port ''b'' s = (Inr 1, t) \<and> chat_row toy_chat (toy_abs s) ''b'' ''n'' \<noteq> None
     \<and> chat_row toy_chat (toy_abs t) ''b'' ''n'' = None \<and> chat_row toy_chat (toy_abs t) ''b'' ''m'' = Some (record_out 5 ''b'' toy_msg St_Pending)"
proof -
  obtain s0 where s0: "toy_inv s0" "app_port_calm toy_prims (\<lambda>_. toy_put_io) s0"
    "toy_abs s0 = queued ''m'' (entry_encode toy_chat (text_entry ''b'' toy_msg))
       (row_set ''b'' ''m'' (record_encode toy_chat (record_out 5 ''b'' toy_msg St_Pending)) (\<lambda>_ _. None))" by (rule toy_queue)
  let ?r = "record_received 6 ''b'' (toy_msg\<lparr>cm_id := ''n''\<rparr>)" and ?m = "record_out 5 ''b'' toy_msg St_Pending"
  have r: "cr_id ?r = ''n''" "cr_peer_id ?r = ''b''" "\<not> is_settleable_file_row In ?r" "cr_status ?r \<noteq> St_Staging"
    by (simp_all add: record_received_def is_settleable_file_row_def)
  have n: "str_ok ''n''" by (simp add: str_bytes_def unat_of_char)
  obtain y s where a: "chat_append toy_chat toy_port ?r s0 = (y, s)" by (metis prod.exhaust)
  then have y: "y = Inr ()" using served.append_served[OF s0(1,2) _ _ _ a] r n toy_chat_names by simp
  have s: "toy_inv s" "toy_abs s = row_set ''b'' ''n'' (record_encode toy_chat ?r) (toy_abs s0)"
    using strict.append_spec[OF s0(1) _ a] r n y by (simp_all add: reconciled_def claimed_def)
  have box: "toy_abs s OUTBOX_NS = [''m'' \<mapsto> entry_encode toy_chat (text_entry ''b'' toy_msg)]" by (simp add: s(2) s0(3) queued_def fun_eq_iff)
  have rows: "chat_row toy_chat (toy_abs s) ''b'' k = (if k = ''n'' then Some ?r else if k = ''m'' then Some ?m else None)" for k
    using toy_chat_ok by (simp add: s(2) s0(3) chat_row_set chat_row_def[of _ "\<lambda>_ _. None"])
  have "queued_ids toy_chat ''b'' (toy_abs s) = {''m''}"
    using toy_chat_ok by (auto simp: queued_ids_def outbox_row_def box text_entry_def toy_msg_def split: if_splits)
  moreover have "toy_abs s (chat_namespace ''b'') k \<noteq> None \<longleftrightarrow> k = ''n'' \<or> k = ''m''" for k
    by (simp add: s(2) s0(3) row_set_def)
  ultimately have d: "deletable toy_chat ''b'' (toy_abs s) = {''n''}" using r(4) unfolding deletable_def rows by auto
  have ok: "\<forall>k v. toy_abs s OUTBOX_NS k = Some v \<longrightarrow> is_ok (entry_decode toy_chat v)"
    using toy_chat_ok by (simp add: box is_ok_def)
  obtain res t where t: "delete_conversation toy_chat toy_port ''b'' s = (res, t)" by (metis prod.exhaust)
  note w = delete_keeps_queued[OF s(1) toy_chat_names(1) t]
  then have "res = Inr 1" "toy_abs t = dropped (chat_namespace ''b'') {''n''} (toy_abs s)" using ok d by simp_all
  moreover from this have "chat_row toy_chat (toy_abs t) ''b'' k = (if k = ''n'' then None else chat_row toy_chat (toy_abs s) ''b'' k)" for k
    by (simp add: chat_row_def dropped_def)
  ultimately show ?thesis using t rows by (intro exI[of _ s] exI[of _ t]) simp
qed

end
