(* ===== verification/PB_Chat_Files.thy ===== *)
theory PB_Chat_Files
  imports PB_Chat_Delivery PB_Names
begin

text \<open>
  Files in chat. An incoming file has two sources: the offer on the chat channel, which makes the
  row, and the transfer, which says the name and size the file lands under; they arrive in either
  order. An outgoing file is copied aside first, so that the queue owns what it will send.
\<close>

section \<open>Landings\<close>

definition landing_put :: "device_id \<Rightarrow> string \<Rightarrow> bytes \<Rightarrow> chat_abs \<Rightarrow> chat_abs" where
  "landing_put p k b a = a(landing_ns p := (a (landing_ns p))(k \<mapsto> b))"

lemma landing_put_views [simp]: "landing_put p k b a (chat_namespace q) = a (chat_namespace q)" "landing_put p k b a RETENTION_NS = a RETENTION_NS"
  by (simp_all add: landing_put_def)

lemma landing_put_drop: "a (landing_ns p) k = None \<Longrightarrow> landing_drop p k (landing_put p k b a) = a" "a (landing_ns p) k = None \<Longrightarrow> landing_drop p k a = a"
  by (auto simp: landing_drop_def landing_put_def fun_eq_iff)

lemma landing_codec: "chat_env_ok E \<Longrightarrow> \<exists>b. cd_enc (ce_landing E) l = Inr b \<and> cd_dec (ce_landing E) b = Inr l"
  unfolding chat_env_ok_def codec_ok_def by blast

lemma landing_of_put: "namespace_ok (landing_ns p) \<Longrightarrow> cd_dec (ce_landing E) b = Inr l \<Longrightarrow> landing_of E (landing_put p k b a) p k = Some l"
  by (simp add: landing_of_def landing_put_def)

lemma row_set_twice: "row_set p k b (row_set p k c a) = row_set p k b a"
  by (simp add: row_set_def fun_eq_iff)

lemma file_in_row [simp]: "cr_id (record_file_in at p r) = fr_id r" "cr_peer_id (record_file_in at p r) = p"
  "is_settleable_file_row In (record_file_in at p r)" "cr_file (record_file_in at p r) \<noteq> None"
  by (simp_all add: record_file_in_def is_settleable_file_row_def)

context served_store
begin

text \<open>An offer that comes before its landing.\<close>

lemma offer_first:
  assumes "inv s" "calm s" "chat_env_ok E" "namespace_ok (chat_namespace p)" "namespace_ok (landing_ns p)" "str_ok (fr_id r)" "name \<noteq> []"
    "abs s (landing_ns p) (fr_id r) = None" "chat_retention E A p s = Inr ret" "\<not> has_disappeared E (record_file_in at p r) ret now"
    "chat_append E A (record_file_in at p r) s = (x, s1)" "set_file_row_landing E A now p (fr_id r) In name len s1 = (y, t)"
  shows "x = Inr () \<and> y = Inr Applied \<and> inv t
    \<and> abs t = row_set p (fr_id r) (record_encode E (landed (name, len) (record_file_in at p r))) (abs s)"
proof -
  let ?f = "record_file_in at p r" and ?k = "fr_id r"
  have none: "landing_of E (abs s) p ?k = None" using assms(8) by (simp add: landing_of_def)
  have cl: "claimed ?f (abs s) = abs s" using assms(5,8) landing_put_drop(2) by (simp add: claimed_def)
  have x: "x = Inr ()" "calm s1" using append_served[OF assms(1,2) _ _ _ assms(11)] assms(4-6) by auto
  have s1: "inv s1" "abs s1 = row_set p ?k (record_encode E ?f) (abs s)"
    using append_spec[OF assms(1) _ assms(11)] assms(6) x none cl by (simp_all add: reconciled_def)
  have ret: "chat_retention E A p s1 = Inr ret"
    using assms(9) get_law[OF s1(1) fixed_ns_ok(2), of p] get_law[OF assms(1) fixed_ns_ok(2), of p] by (simp add: chat_retention_def store_get_def s1(2))
  have nl: "abs s1 (landing_ns p) ?k = None" using assms(8) by (simp add: s1(2))
  have wl: "with_landing E A ?f s1 = (?f, s1)"
    using get_law[OF s1(1) assms(5), of ?k] nl by (simp add: with_landing_def take_pending_landing_def store_get_def)
  have g: "chat_get E A now p ?k s1 = (Inr (Some ?f), s1)"
    using get_law[OF s1(1) assms(4), of ?k] assms(3,10) ret wl by (simp add: chat_get_def store_get_def s1(2) row_set_def)
  let ?l = "landed (name, len) ?f"
  obtain z t' where a: "chat_append E A ?l s1 = (z, t')" by fastforce
  have z: "z = Inr ()" using append_served[OF s1(1) x(2) _ _ _ a] assms(4-6) by simp
  have "landing_of E (abs s1) p ?k = None" "claimed ?l (abs s1) = abs s1"
    using nl assms(5) landing_put_drop(2) by (simp_all add: landing_of_def claimed_def)
  then have t': "inv t'" "abs t' = row_set p ?k (record_encode E ?l) (abs s)"
    using append_spec[OF s1(1) _ a] assms(6) z by (simp_all add: reconciled_def s1(2) row_set_twice)
  have "y = Inr Applied" "t = t'" using assms(7,12) g a z by (simp_all add: set_file_row_landing_def)
  then show ?thesis using x t' by simp
qed

text \<open>A landing that comes before its offer.\<close>

lemma landing_first:
  assumes "inv s" "calm s" "chat_env_ok E" "namespace_ok (chat_namespace p)" "namespace_ok (landing_ns p)" "str_ok (fr_id r)" "name \<noteq> []"
    "abs s (landing_ns p) (fr_id r) = None" "abs s (chat_namespace p) (fr_id r) = None"
    "set_file_row_landing E A now p (fr_id r) In name len s = (y, s1)" "chat_append E A (record_file_in at p r) s1 = (x, t)"
  shows "x = Inr () \<and> y = Inr Parked \<and> inv t
    \<and> abs t = row_set p (fr_id r) (record_encode E (landed (name, len) (record_file_in at p r))) (abs s)"
proof -
  let ?f = "record_file_in at p r" and ?k = "fr_id r"
  obtain b where b: "cd_enc (ce_landing E) (name, len) = Inr b" "cd_dec (ce_landing E) b = Inr (name, len)" using landing_codec[OF assms(3)] by blast
  have g: "chat_get E A now p ?k s = (Inr None, s)" using get_law[OF assms(1,4), of ?k] assms(9) by (simp add: chat_get_def store_get_def)
  obtain z s1' where p: "ap_put A (landing_ns p) ?k b s = (z, s1')" by fastforce
  have z: "z = Inr ()" "calm s1'" using put_served[OF assms(1,2,5,6) p] by auto
  have s1': "inv s1'" "abs s1' = landing_put p ?k b (abs s)"
    using put_law[OF assms(1,6) p] z by (simp_all add: landing_put_def)
  have y: "y = Inr Parked" "s1 = s1'" using assms(7,10) g b p z by (simp_all add: set_file_row_landing_def park_pending_landing_def store_put_def)
  have lo: "landing_of E (abs s1) p ?k = Some (name, len)" using landing_of_put[OF assms(5) b(2)] s1'(2) y by simp
  have cl: "claimed ?f (abs s1) = abs s" using assms(5,8) landing_put_drop(1) s1'(2) y by (simp add: claimed_def)
  have x: "x = Inr ()" using append_served[OF _ _ _ _ _ assms(11)] assms(4-6) s1'(1) z(2) y by simp
  have "inv t" "abs t = row_set p ?k (record_encode E (landed (name, len) ?f)) (abs s)"
    using append_spec[OF _ _ assms(11)] assms(6) s1'(1) y(2) x lo cl by (simp_all add: reconciled_def)
  then show ?thesis using x y by simp
qed

end

text \<open>
  C32. It does not matter whether the offer of a file or its transfer's announcement arrives first.
  With the device serving, an offer followed by a landing and a landing followed by an offer leave
  the same store: one row for the file, under the name and size the transfer announced, and no
  landing waiting. Only the answer to the landing tells the orders apart.
\<close>

theorem landing_order_irrelevant:
  assumes "app_port_inv P io s" "app_port_calm P io s" "chat_env_ok E" "namespace_ok (chat_namespace p)" "namespace_ok (landing_ns p)"
    "str_ok (fr_id r)" "name \<noteq> []" "app_port_abs P s (landing_ns p) (fr_id r) = None" "app_port_abs P s (chat_namespace p) (fr_id r) = None"
    "chat_retention E (fs_app_port P io) p s = Inr ret" "\<not> has_disappeared E (record_file_in at p r) ret now"
    "chat_append E (fs_app_port P io) (record_file_in at p r) s = (x1, s1)"
    "set_file_row_landing E (fs_app_port P io) now p (fr_id r) In name len s1 = (y1, t1)"
    "set_file_row_landing E (fs_app_port P io) now p (fr_id r) In name len s = (y2, s2)"
    "chat_append E (fs_app_port P io) (record_file_in at p r) s2 = (x2, t2)"
  shows "app_port_abs P t1 = app_port_abs P t2 \<and> x1 = Inr () \<and> x2 = Inr () \<and> y1 = Inr Applied \<and> y2 = Inr Parked
    \<and> chat_row E (app_port_abs P t1) p (fr_id r) = Some (landed (name, len) (record_file_in at p r))
    \<and> app_port_abs P t1 (landing_ns p) (fr_id r) = None"
  using served.offer_first[OF assms(1-8,10-13)] served.landing_first[OF assms(1-9,14,15)] assms(3,8) by (simp add: chat_row_set)

definition toy_offer :: file_ref where
  "toy_offer = \<lparr>fr_id = ''m'', fr_timestamp = ''t'', fr_name = ''f'', fr_size = 3\<rparr>"

theorem landing_order_irrelevant_witness:
  "\<exists>s1 t1 s2 t2. chat_append toy_chat toy_port (record_file_in 5 ''b'' toy_offer) (toy_app, 0) = (Inr (), s1)
     \<and> set_file_row_landing toy_chat toy_port 5 ''b'' ''m'' In ''g'' 4 s1 = (Inr Applied, t1)
     \<and> set_file_row_landing toy_chat toy_port 5 ''b'' ''m'' In ''g'' 4 (toy_app, 0) = (Inr Parked, s2)
     \<and> chat_append toy_chat toy_port (record_file_in 5 ''b'' toy_offer) s2 = (Inr (), t2) \<and> toy_abs t1 = toy_abs t2"
proof -
  have r: "fr_id toy_offer = ''m''" "str_ok (fr_id toy_offer)" using toy_chat_names by (simp_all add: toy_offer_def)
  obtain x1 s1 where a: "chat_append toy_chat toy_port (record_file_in 5 ''b'' toy_offer) (toy_app, 0) = (x1, s1)" by (metis prod.exhaust)
  obtain y1 t1 where b: "set_file_row_landing toy_chat toy_port 5 ''b'' (fr_id toy_offer) In ''g'' 4 s1 = (y1, t1)" by (metis prod.exhaust)
  obtain y2 s2 where c: "set_file_row_landing toy_chat toy_port 5 ''b'' (fr_id toy_offer) In ''g'' 4 (toy_app, 0) = (y2, s2)" by (metis prod.exhaust)
  obtain x2 t2 where d: "chat_append toy_chat toy_port (record_file_in 5 ''b'' toy_offer) s2 = (x2, t2)" by (metis prod.exhaust)
  have ret: "chat_retention toy_chat toy_port ''b'' (toy_app, 0) = Inr RETENTION_OFF"
    using app.get_law[OF toy_port_inv(1) fixed_ns_ok(2), of "''b''"] by (simp add: chat_retention_def store_get_def toy_port_inv(2))
  have h: "\<not> has_disappeared toy_chat (record_file_in 5 ''b'' toy_offer) RETENTION_OFF 5"
    by (simp add: has_disappeared_def closed_on_def cutoff_def RETENTION_OFF_def)
  have "toy_abs (toy_app, 0) ns k = None" for ns k by (simp add: toy_port_inv(2))
  from landing_order_irrelevant[OF toy_port_inv(1) toy_port_calm toy_chat_ok toy_chat_names(1,2) r(2) _ this this ret h a b c d]
  have "x1 = Inr () \<and> x2 = Inr () \<and> y1 = Inr Applied \<and> y2 = Inr Parked \<and> toy_abs t1 = toy_abs t2" by simp
  then show ?thesis by (intro exI[of _ s1] exI[of _ t1] exI[of _ s2] exI[of _ t2]) (use a b c d r(1) in simp)
qed

section \<open>Outgoing files\<close>

text \<open>The size of the copy buffer (\<open>COPY_BUF\<close>): a read gives no more. A blob's path ends in its id.\<close>

definition reads_ok :: "stage_world \<Rightarrow> bool" where
  "reads_ok w = (\<forall>(c, rd) \<in> set (sw_reads w). \<forall>b. rd = Inr b \<longrightarrow> length b \<le> 65536)"

definition host_join :: "(string \<Rightarrow> path) \<Rightarrow> bool" where
  "host_join comps = (\<forall>root i. file_name_of comps i = Some i \<longrightarrow> file_name_of comps (root @ ''/'' @ i) = Some i)"

lemma split_on_snoc: "split_on c (s @ c # t) = split_on c s @ split_on c t"
  by (induction s) (auto split: list.splits)

lemma host_join_unix: "host_join components_unix"
  unfolding host_join_def
proof (intro allI impI)
  fix root i assume i: "file_name_of components_unix i = Some i"
  then have "Normal i \<in> set (components_unix i)"
    by (auto simp: file_name_of_def split: list.splits path_component.splits)
  then have pl: "plain_part i" using host_ok_unix unfolding host_ok_def by blast
  then have "CHR ''/'' \<notin> set i" "i \<noteq> []" "i \<noteq> ''.''" "i \<noteq> ''..''" by (auto simp: plain_part_def)
  then have "\<exists>xs. components_unix (root @ ''/'' @ i) = xs @ [Normal i]"
    by (cases "split_on (CHR ''/'') root") (auto simp: components_unix_def split_on_snoc split_on_one Let_def List.map_filter_def)
  then show "file_name_of components_unix (root @ ''/'' @ i) = Some i" by (auto simp: file_name_of_def)
qed

fun read_content :: "(bool \<times> (string, bytes) result) list \<Rightarrow> bytes" where
  "read_content [] = []"
| "read_content ((c, rd) # rds) = (case rd of Inl _ \<Rightarrow> [] | Inr b \<Rightarrow> if b = [] then [] else b @ read_content rds)"

lemma stage_pump_ok:
  "stage_pump mx wr n rds copied acc = (Inr c, content) \<Longrightarrow> \<forall>(x, rd) \<in> set rds. \<forall>b. rd = Inr b \<longrightarrow> length b \<le> 65536 \<Longrightarrow>
   unat copied = min (length acc) (2 ^ 64 - 1) \<Longrightarrow> copied \<le> mx \<Longrightarrow>
   content = acc @ read_content rds \<and> unat c = min (length content) (2 ^ 64 - 1) \<and> c \<le> mx"
proof (induction mx wr n rds copied acc rule: stage_pump.induct)
  case (1 mx wr n copied acc)
  then show ?case by (auto split: sum.splits)
next
  case (2 mx wr n cancelled rd rds copied acc)
  obtain b where b: "rd = Inr b" "\<not> cancelled" using "2.prems"(1) by (cases rd) (auto split: if_splits)
  show ?case
  proof (cases "b = []")
    case True
    then show ?thesis using 2 b by (auto split: sum.splits)
  next
    case False
    let ?c = "saturating_add copied (of_nat (length b))"
    obtain u where w: "wr n = Inr u" using "2.prems"(1) b False by (cases "wr n") auto
    have le: "\<not> mx < ?c" and run: "stage_pump mx wr (Suc n) rds ?c (acc @ b) = (Inr c, content)"
      using "2.prems"(1) b False w by (auto simp: Let_def split: if_splits)
    have "length b \<le> 65536" using "2.prems"(2) b by auto
    then have "unat (of_nat (length b) :: u64) = length b" by (simp add: unat_of_nat)
    then have "unat ?c = min (length (acc @ b)) (2 ^ 64 - 1)" using "2.prems"(3) by (simp add: unat_saturating_add min_def)
    then show ?thesis using "2.IH"[OF b(2,1) False w refl le run] "2.prems"(2) le b False by (auto simp: not_less)
  qed
qed

lemma stage_ok:
  assumes "stage comps w limits i source st = (Inr staged, st')" "host_join comps" "reads_ok w"
  shows "file_name_of comps (sg_path staged) = Some i \<and> map_of (ss_blobs st') i = Some (read_content (sw_reads w))
    \<and> unat (sg_size staged) = min (length (read_content (sw_reads w))) (2 ^ 64 - 1) \<and> sg_size staged \<le> sl_max_bytes limits"
proof -
  obtain dest where d: "blob_path comps st i = Inr dest" using assms(1) by (auto simp: stage_def split: sum.splits)
  then have dest: "file_name_of comps dest = Some i" using assms(2) by (auto simp: blob_path_def host_join_def split: if_splits)
  have "stage_write comps w limits source dest st = (Inr staged, st')"
    using assms(1) d by (auto simp: stage_def split: sum.splits prod.splits if_splits option.splits)
  then obtain copied where c: "stage_copy comps w dest (sl_max_bytes limits) st = (Inr copied, st')" "sg_path staged = dest" "sg_size staged = copied"
    by (auto simp: stage_write_def split: option.splits prod.splits sum.splits)
  then obtain content where p: "stage_pump (sl_max_bytes limits) (sw_write w) 0 (sw_reads w) 0 [] = (Inr copied, content)"
    "ss_blobs st' = om_insert i content (ss_blobs st)"
    using dest by (auto simp: stage_copy_def Let_def split: sum.splits prod.splits option.splits)
  from stage_pump_ok[OF p(1)] assms(3) have "content = read_content (sw_reads w)" "unat copied = min (length content) (2 ^ 64 - 1)" "copied \<le> sl_max_bytes limits"
    by (auto simp: reads_ok_def)
  then show ?thesis using dest c p(2) by simp
qed

definition file_entry :: "device_id \<Rightarrow> file_ref \<Rightarrow> staged_file \<Rightarrow> outbox_entry" where
  "file_entry p r staged = \<lparr>oe_peer_id = p, oe_message_id = fr_id r, oe_body = [], oe_timestamp = fr_timestamp r,
     oe_kind = Kd_File, oe_file = Some staged, oe_offers_refused = 0, oe_in_reply_to = None, oe_group = None\<rparr>"

definition queued_row :: "chat_record \<Rightarrow> staged_file \<Rightarrow> chat_record" where
  "queued_row rec staged = rec\<lparr>cr_status := St_Pending,
     cr_file := map_option (\<lambda>f. f\<lparr>fm_name := display_name (sg_name staged), fm_size := sg_size staged\<rparr>) (cr_file rec)\<rparr>"

lemma owned_loop_mono: "owned_loop E raw Q = Inr keep \<Longrightarrow> Q \<subseteq> keep
    \<and> (\<forall>k v e f. (k, v) \<in> set raw \<longrightarrow> entry_decode E v = Inr e \<longrightarrow> oe_file e = Some f \<longrightarrow> sg_path f \<in> keep)"
proof (induction raw arbitrary: Q)
  case (Cons kv raw)
  obtain k v where kv: "kv = (k, v)" by fastforce
  then obtain e where e: "entry_decode E v = Inr e" using Cons.prems by (cases "entry_decode E v") auto
  let ?Q = "case oe_file e of Some f \<Rightarrow> insert (sg_path f) Q | None \<Rightarrow> Q"
  have "owned_loop E raw ?Q = Inr keep" using Cons.prems kv e by simp
  from Cons.IH[OF this] have ih: "?Q \<subseteq> keep"
    "\<forall>k v e f. (k, v) \<in> set raw \<longrightarrow> entry_decode E v = Inr e \<longrightarrow> oe_file e = Some f \<longrightarrow> sg_path f \<in> keep" by blast+
  then have "\<forall>f. oe_file e = Some f \<longrightarrow> sg_path f \<in> keep" "Q \<subseteq> keep" by (auto split: option.splits)
  then show ?case using ih(2) kv e by auto
qed simp

lemma sweep_keeps:
  assumes "p \<in> keep" "file_name_of comps p = Some n"
  shows "map_of (ss_blobs (snd (sweep comps readable rm keep st))) n = map_of (ss_blobs st) n"
proof -
  have f: "map_of (filter (\<lambda>(k, _). Q k) m) n = map_of m n" if "Q n" for Q and m :: "(string, bytes) omap"
    using that by (induction m) auto
  show ?thesis using assms by (auto simp: sweep_def Let_def intro: f)
qed

context strict_store
begin

lemma owned_spec:
  assumes "inv s" "outbox_owned_blobs E A s = Inr keep" "outbox_row E (abs s) k = Some e" "oe_file e = Some f"
  shows "sg_path f \<in> keep"
proof -
  obtain box where box: "ap_list A OUTBOX_NS s = Inr box" using list_law[OF assms(1) fixed_ns_ok(1)] by blast
  then have "owned_loop E box {} = Inr keep" using assms(2) by (simp add: outbox_owned_blobs_def store_list_def rbind_def)
  moreover obtain v where "(k, v) \<in> set box" "entry_decode E v = Inr e"
    using assms(3) list_rows[OF assms(1) fixed_ns_ok(1) box] by (auto simp: outbox_row_some)
  ultimately show ?thesis using owned_loop_mono assms(4) by blast
qed

lemma enqueue_file_spec:
  assumes "inv s" "str_ok (fr_id r)" "chat_row E (abs s) p (fr_id r) = Some rec" "cr_id rec = fr_id r" "cr_peer_id rec = p" "cr_direction rec = Out"
    "enqueue_file E A now p r staged s = (Inr True, t)"
  shows "inv t \<and> abs t = row_set p (fr_id r) (record_encode E (queued_row rec staged)) (queued (fr_id r) (entry_encode E (file_entry p r staged)) (abs s))"
proof -
  obtain b where b: "abs s (chat_namespace p) (fr_id r) = Some b" "record_decode E b = Inr rec" using assms(3) by (auto simp: chat_row_some)
  have n: "\<not> is_settleable_file_row In rec" "\<not> is_settleable_file_row In (queued_row rec staged)"
    using assms(6) by (simp_all add: is_settleable_file_row_def queued_row_def)
  obtain x s1 where g: "chat_get E A now p (fr_id r) s = (x, s1)" by fastforce
  have x: "x = Inr (Some rec)" "s1 = s"
  proof -
    obtain rec' where x': "x = Inr (Some rec')" using assms(7) g by (auto simp: enqueue_file_def split: sum.splits option.splits)
    have "with_landing E A rec s = (rec, s)" using n by (simp add: with_landing_def)
    then show "x = Inr (Some rec)" "s1 = s"
      using g x' b get_cases[OF assms(1), of "chat_namespace p" "fr_id r"]
      by (auto simp: chat_get_def store_get_def split: sum.splits if_splits)
  qed
  obtain y s2 where p: "ap_put A OUTBOX_NS (fr_id r) (entry_encode E (file_entry p r staged)) s = (y, s2)" by fastforce
  obtain z t' where a: "chat_append E A (queued_row rec staged) s2 = (z, t')" by fastforce
  have y: "y = Inr ()" "z = Inr ()" "t' = t"
    using assms(7) g x p a by (auto simp: enqueue_file_def store_put_def file_entry_def[symmetric] queued_row_def[symmetric] split: sum.splits)
  have s2: "inv s2" "abs s2 = queued (fr_id r) (entry_encode E (file_entry p r staged)) (abs s)"
    using put_law[OF assms(1,2) p] y(1) by (simp_all add: queued_def)
  have "cr_id (queued_row rec staged) = fr_id r" "cr_peer_id (queued_row rec staged) = p" using assms(4,5) by (simp_all add: queued_row_def)
  with append_spec[OF s2(1) _ a] assms(2) y n s2(2) show ?thesis by (simp add: reconciled_def claimed_def)
qed

end

lemma file_out_row [simp]: "cr_id (record_file_out at p r m st) = fr_id r" "cr_peer_id (record_file_out at p r m st) = p"
  "cr_direction (record_file_out at p r m st) = Out"
  by (simp_all add: record_file_out_def)

lemma file_ref_new_id:
  "file_ref_new comps now_ms sample stamp name len ids = (Inr r, ids') \<Longrightarrow> str_ok (fr_id r)"
  using minted_ok[of now_ms sample ids] by (auto simp: file_ref_new_def split: sum.splits prod.splits)

context strict_store
begin

lemma begin_spec:
  assumes "inv s" "chat_env_ok E" "begin_file_send E A comps meta now now_ms sample stamp p path ids s = (Inr r, ids', t)"
  shows "inv t \<and> str_ok (fr_id r) \<and> chat_row E (abs t) p (fr_id r)
    = Some (record_file_out now p r (file_meta_new (fr_name r) (fr_size r) (Some path)) St_Staging)"
proof -
  let ?row = "record_file_out now p r (file_meta_new (fr_name r) (fr_size r) (Some path)) St_Staging"
  obtain name len where n: "file_ref_new comps now_ms sample stamp name len ids = (Inr r, ids')" "chat_append E A ?row s = (Inr (), t)"
    using assms(3) by (auto simp: begin_file_send_def split: sum.splits prod.splits if_splits option.splits)
  have i: "str_ok (fr_id r)" by (rule file_ref_new_id[OF n(1)])
  have "\<not> is_settleable_file_row In ?row" by (simp add: is_settleable_file_row_def)
  with append_spec[OF assms(1) _ n(2)] i assms(2) show ?thesis by (simp add: chat_row_set reconciled_def claimed_def)
qed

lemma prepare_spec:
  assumes "inv s" "chat_env_ok E" "host_join comps" "reads_ok w"
    "prepare_file_send E A comps w limits meta now1 now2 now_ms sample stamp p path ids (s, st) = (Inr (Some (r, staged)), ids', t, st')"
  shows "inv t \<and> (\<exists>row. chat_row E (abs t) p (fr_id r) = Some row \<and> cr_status row = St_Pending \<and> cr_file row = Some \<lparr>fm_name = display_name (sg_name staged), fm_size = sg_size staged, fm_local_path = Some path\<rparr>)
    \<and> outbox_row E (abs t) (fr_id r) = Some (file_entry p r staged)
    \<and> file_name_of comps (sg_path staged) = Some (fr_id r) \<and> map_of (ss_blobs st') (fr_id r) = Some (read_content (sw_reads w))
    \<and> unat (sg_size staged) = min (length (read_content (sw_reads w))) (2 ^ 64 - 1) \<and> sg_size staged \<le> sl_max_bytes limits"
proof -
  obtain r0 ids1 s1 where b: "begin_file_send E A comps meta now1 now_ms sample stamp p path ids s = (Inr r0, ids1, s1)"
    "stage_file_send E A comps w limits now2 p r0 path (s1, st) = (Inr (Some staged), r, t, st')"
    using assms(5) by (auto simp: prepare_file_send_def split: prod.splits sum.splits option.splits)
  note bs = begin_spec[OF assms(1,2) b(1)]
  have sg: "stage comps w limits (fr_id r0) path st = (Inr staged, st')" "r = r0\<lparr>fr_size := sg_size staged\<rparr>"
    "enqueue_file E A now2 p r staged s1 = (Inr True, t)"
    using b(2) by (auto simp: stage_file_send_def Let_def split: prod.splits sum.splits bool.splits)
  let ?row = "record_file_out now1 p r0 (file_meta_new (fr_name r0) (fr_size r0) (Some path)) St_Staging"
  have i: "fr_id r = fr_id r0" using sg(2) by simp
  have "inv t \<and> abs t = row_set p (fr_id r) (record_encode E (queued_row ?row staged)) (queued (fr_id r) (entry_encode E (file_entry p r staged)) (abs s1))"
    by (rule enqueue_file_spec[OF _ _ _ _ _ _ sg(3)]) (use bs i in auto)
  moreover have "cr_status (queued_row ?row staged) = St_Pending" "cr_file (queued_row ?row staged) = Some \<lparr>fm_name = display_name (sg_name staged), fm_size = sg_size staged, fm_local_path = Some path\<rparr>"
    by (simp_all add: queued_row_def record_file_out_def file_meta_new_def)
  ultimately show ?thesis using stage_ok[OF sg(1) assms(3,4)] assms(2) i by (auto simp: chat_row_set outbox_row_updates)
qed

end

text \<open>
  C31. Once attaching a file has succeeded, the outbox owns it: the copy holds exactly the bytes
  read from the source, its size is the number of those bytes and within the limit, the row is
  pending and shows the copy's name and size, the queue holds an entry naming the copy, and no sweep of the blob
  directory that is given the set of owned blobs removes it.
\<close>

theorem attached_file_is_owned:
  assumes "app_port_inv P io s" "chat_env_ok E" "host_join comps" "reads_ok w"
    "prepare_file_send E (fs_app_port P io) comps w limits meta now1 now2 now_ms sample stamp p path ids (s, st) = (Inr (Some (r, staged)), ids', t, st')"
  shows "map_of (ss_blobs st') (fr_id r) = Some (read_content (sw_reads w))
    \<and> unat (sg_size staged) = min (length (read_content (sw_reads w))) (2 ^ 64 - 1) \<and> sg_size staged \<le> sl_max_bytes limits
    \<and> (\<exists>row. chat_row E (app_port_abs P t) p (fr_id r) = Some row \<and> cr_status row = St_Pending
         \<and> cr_file row = Some \<lparr>fm_name = display_name (sg_name staged), fm_size = sg_size staged, fm_local_path = Some path\<rparr>)
    \<and> outbox_row E (app_port_abs P t) (fr_id r) = Some (file_entry p r staged)
    \<and> (\<forall>keep readable rm. outbox_owned_blobs E (fs_app_port P io) t = Inr keep \<longrightarrow>
         map_of (ss_blobs (snd (sweep comps readable rm keep st'))) (fr_id r) = Some (read_content (sw_reads w)))"
proof -
  note sp = strict.prepare_spec[OF assms]
  have "oe_file (file_entry p r staged) = Some staged" by (simp add: file_entry_def)
  then have "\<forall>keep. outbox_owned_blobs E (fs_app_port P io) t = Inr keep \<longrightarrow> sg_path staged \<in> keep" using strict.owned_spec sp by blast
  then have "\<forall>keep readable rm. outbox_owned_blobs E (fs_app_port P io) t = Inr keep \<longrightarrow>
      map_of (ss_blobs (snd (sweep comps readable rm keep st'))) (fr_id r) = Some (read_content (sw_reads w))"
    using sweep_keeps sp by metis
  then show ?thesis using sp by blast
qed

definition toy_stage :: stage_world where
  "toy_stage = \<lparr>sw_meta = Inr (True, False, 2), sw_free = None, sw_open_read = Inr (), sw_open_write = Inr (), sw_restrict = Inr (),
     sw_write = (\<lambda>_. Inr ()), sw_close = Inr (), sw_reads = [(False, Inr [1, 2])], sw_remove = (\<lambda>_. True)\<rparr>"

context served_store
begin

lemma enqueue_file_served:
  assumes "inv s" "calm s" "chat_env_ok E" "str_ok (fr_id r)" "namespace_ok (chat_namespace p)" "chat_row E (abs s) p (fr_id r) = Some rec"
    "cr_id rec = fr_id r" "cr_peer_id rec = p" "cr_direction rec = Out" "chat_retention E A p s = Inr RETENTION_OFF"
  shows "fst (enqueue_file E A now p r staged s) = Inr True"
proof -
  have n: "\<not> is_settleable_file_row In rec" "\<not> is_settleable_file_row In (queued_row rec staged)" "cr_id (queued_row rec staged) = fr_id r"
    "cr_peer_id (queued_row rec staged) = p"
    using assms(7-9) by (simp_all add: is_settleable_file_row_def queued_row_def)
  obtain b where b: "abs s (chat_namespace p) (fr_id r) = Some b" "record_decode E b = Inr rec" using assms(6) by (auto simp: chat_row_some)
  have "\<not> has_disappeared E rec RETENTION_OFF now" by (simp add: has_disappeared_def closed_on_def cutoff_def RETENTION_OFF_def)
  then have g: "chat_get E A now p (fr_id r) s = (Inr (Some rec), s)"
    using get_law[OF assms(1,5), of "fr_id r"] b n assms(10) by (simp add: chat_get_def store_get_def with_landing_def)
  obtain y s1 where p: "ap_put A OUTBOX_NS (fr_id r) (entry_encode E (file_entry p r staged)) s = (y, s1)" by fastforce
  have y: "y = Inr ()" "calm s1" "inv s1" using put_served[OF assms(1,2) fixed_ns_ok(1) assms(4) p] put_law[OF assms(1,4) p] by auto
  obtain z t where w: "chat_write E A (queued_row rec staged) s1 = (z, t)" by fastforce
  then have "z = Inr ()" using write_served[OF y(3,2) _ _ w] n assms(4,5) by simp
  then show ?thesis using g p y w n
    by (simp add: enqueue_file_def store_put_def file_entry_def[symmetric] queued_row_def[symmetric] chat_append_def)
qed

end

abbreviation toy_id :: string where
  "toy_id \<equiv> ''00000000000010000000000000002''"

lemma toy_mint: "mint_id 1 2 (0, 0) = (toy_id, 1, 2)"
  by code_simp

lemma toy_file_names: "file_name_of components_unix toy_id = Some toy_id" "file_name_of components_unix ''/f'' = Some ''f''"
  "file_name_of components_unix ''f'' = Some ''f''" "file_name_of components_unix ''/blobs/00000000000010000000000000002'' = Some toy_id"
  by code_simp+

theorem attached_file_is_owned_witness:
  "\<exists>r staged ids t st. prepare_file_send toy_chat toy_port components_unix toy_stage \<lparr>sl_max_bytes = 10, sl_min_free_bytes = 0\<rparr> (Inr (False, 2)) 5 6 1 2 ''t'' ''b'' ''/f''
       (0, 0) ((toy_app, 0), \<lparr>ss_root = ''/blobs'', ss_blobs = []\<rparr>) = (Inr (Some (r, staged)), ids, t, st)
     \<and> map_of (ss_blobs st) (fr_id r) = Some [1, 2] \<and> unat (sg_size staged) = 2"
proof -
  let ?st = "\<lparr>ss_root = ''/blobs'', ss_blobs = []\<rparr>" and ?lim = "\<lparr>sl_max_bytes = 10, sl_min_free_bytes = 0\<rparr>"
  let ?r = "\<lparr>fr_id = toy_id, fr_timestamp = ''t'', fr_name = ''f'', fr_size = 2\<rparr>"
  let ?sg = "\<lparr>sg_name = ''f'', sg_size = 2, sg_path = ''/blobs/00000000000010000000000000002''\<rparr>"
  let ?row = "record_file_out 5 ''b'' ?r (file_meta_new ''f'' 2 (Some ''/f'')) St_Staging"
  have i: "str_ok toy_id" using minted_ok[of 1 2 "(0, 0)"] by (simp add: toy_mint)
  obtain x s1 where a: "chat_append toy_chat toy_port ?row (toy_app, 0) = (x, s1)" by (metis prod.exhaust)
  have ns: "\<not> is_settleable_file_row In ?row" by (simp add: is_settleable_file_row_def)
  have w: "chat_write toy_chat toy_port ?row (toy_app, 0) = (x, s1)" using a ns by (simp add: chat_append_def)
  have x: "x = Inr ()" "app_port_calm toy_prims (\<lambda>_. toy_put_io) s1" using served.write_served[OF toy_port_inv(1) toy_port_calm _ _ w] i toy_chat_names by auto
  have b: "begin_file_send toy_chat toy_port components_unix (Inr (False, 2)) 5 1 2 ''t'' ''b'' ''/f'' (0, 0) (toy_app, 0) = (Inr ?r, (1, 2), s1)"
    using a x by (simp add: begin_file_send_def file_ref_new_def toy_file_names validate_name_def MAX_NAME_def toy_mint)
  note bs = strict.begin_spec[OF toy_port_inv(1) toy_chat_ok b]
  have sa: "toy_abs s1 RETENTION_NS = (\<lambda>_. None)"
    using strict.chat_write_spec[OF toy_port_inv(1) _ w] i x by (simp add: toy_port_inv(2))
  have ret: "chat_retention toy_chat toy_port ''b'' s1 = Inr RETENTION_OFF"
    using app.get_law[OF conjunct1[OF bs] fixed_ns_ok(2), of "''b''"] by (simp add: chat_retention_def store_get_def sa)
  have sg: "stage components_unix toy_stage ?lim toy_id ''/f'' ?st = (Inr ?sg, \<lparr>ss_root = ''/blobs'', ss_blobs = [(toy_id, [1, 2])]\<rparr>)"
    by (simp add: stage_def blob_path_def toy_file_names toy_stage_def trim_slashes_def stage_write_def stage_copy_def saturating_add_def Let_def)
  have "fst (enqueue_file toy_chat toy_port 6 ''b'' ?r ?sg s1) = Inr True"
    by (rule served.enqueue_file_served[OF conjunct1[OF bs] x(2) toy_chat_ok _ toy_chat_names(1) _ _ _ _ ret]) (use bs in auto)
  then obtain t where e: "enqueue_file toy_chat toy_port 6 ''b'' ?r ?sg s1 = (Inr True, t)" by (metis fst_conv prod.exhaust)
  have p: "prepare_file_send toy_chat toy_port components_unix toy_stage ?lim (Inr (False, 2)) 5 6 1 2 ''t'' ''b'' ''/f'' (0, 0) ((toy_app, 0), ?st)
      = (Inr (Some (?r, ?sg)), (1, 2), t, \<lparr>ss_root = ''/blobs'', ss_blobs = [(toy_id, [1, 2])]\<rparr>)"
    using b sg e by (simp add: prepare_file_send_def stage_file_send_def)
  have "reads_ok toy_stage" by (simp add: reads_ok_def toy_stage_def)
  from attached_file_is_owned[OF toy_port_inv(1) toy_chat_ok host_join_unix this p]
  have "map_of (ss_blobs \<lparr>ss_root = ''/blobs'', ss_blobs = [(toy_id, [1, 2 :: u8])]\<rparr>) (fr_id ?r) = Some [1, 2]" "unat (sg_size ?sg) = 2"
    by (simp_all add: toy_stage_def)
  then show ?thesis using p by blast
qed

end
