(* ===== verification/PB_Chat_Search.thy ===== *)
theory PB_Chat_Search
  imports PB_Chat_Store "HOL-Library.Sublist"
begin

text \<open>
  Searching conversations (\<open>peerbeam-chat/src/search.rs\<close>): folded substring search over bodies and
  file names, snippets cut at characters, and the bounded list of the newest hits. Unicode
  lower-casing of a character is an argument. The bounded list is proved equal to sorting all hits
  and keeping the first ones.
\<close>

record search_hit =
  sh_peer_id :: device_id
  sh_message_id :: string
  sh_timestamp :: string
  sh_at :: "int option"
  sh_direction :: chat_direction
  sh_kind :: chat_kind
  sh_snippet :: string
  sh_group :: "string option"

definition SNIPPET_CHARS :: nat where "SNIPPET_CHARS = 120"
definition SNIPPET_LEAD :: nat where "SNIPPET_LEAD = 24"

text \<open>
  \<open>(Reverse(at), peer, id)\<close> in ascending order; an undated hit counts as the earliest instant
  there is, \<open>MIN_UTC\<close>, which is an argument.
\<close>

definition hit_order :: "int \<Rightarrow> search_hit \<Rightarrow> int \<times> string \<times> string" where
  "hit_order min_utc h = (- (case sh_at h of Some t \<Rightarrow> t | None \<Rightarrow> min_utc), sh_peer_id h, sh_message_id h)"

text \<open>A character is folded to the characters of its lower case.\<close>

definition fold_chars :: "(string \<Rightarrow> string list) \<Rightarrow> string \<Rightarrow> string list" where
  "fold_chars lower s = concat (map lower (str_chars s))"

fun match_lower :: "string list \<Rightarrow> string list \<Rightarrow> bool + string list" where
  "match_lower [] want = Inr want"
| "match_lower (l # ls) [] = Inl True"
| "match_lower (l # ls) (w # ws) = (if w \<noteq> l then Inl False else match_lower ls ws)"

fun folded_starts_with :: "(string \<Rightarrow> string list) \<Rightarrow> string list \<Rightarrow> string list \<Rightarrow> bool" where
  "folded_starts_with lower [] want = (want = [])"
| "folded_starts_with lower (c # cs) want =
     (case match_lower (lower c) want of Inl b \<Rightarrow> b | Inr want' \<Rightarrow> folded_starts_with lower cs want')"

fun find_folded_at :: "(string \<Rightarrow> string list) \<Rightarrow> string list \<Rightarrow> string list \<Rightarrow> nat \<Rightarrow> nat option" where
  "find_folded_at lower [] needle k = None"
| "find_folded_at lower (c # cs) needle k =
     (if folded_starts_with lower (c # cs) needle then Some k else find_folded_at lower cs needle (Suc k))"

definition find_folded :: "(string \<Rightarrow> string list) \<Rightarrow> string list \<Rightarrow> string list \<Rightarrow> nat option" where
  "find_folded lower hay needle = (if needle = [] then None else find_folded_at lower hay needle 0)"

definition snippet_of :: "(string \<Rightarrow> string list) \<Rightarrow> string list \<Rightarrow> string \<Rightarrow> string option" where
  "snippet_of lower needle field =
     (let cs = str_chars field in
      case find_folded lower cs needle of
        None \<Rightarrow> None
      | Some at \<Rightarrow> Some (concat (take SNIPPET_CHARS (drop (at - SNIPPET_LEAD) cs))))"

definition search_hit_of :: "chat_env \<Rightarrow> (string \<Rightarrow> string list) \<Rightarrow> string list \<Rightarrow> device_id \<Rightarrow> chat_record \<Rightarrow> search_hit option" where
  "search_hit_of E lower needle peer r =
     (case (case snippet_of lower needle (cr_body r) of
              Some s \<Rightarrow> Some s
            | None \<Rightarrow> (case cr_file r of Some f \<Rightarrow> snippet_of lower needle (fm_name f) | None \<Rightarrow> None)) of
        None \<Rightarrow> None
      | Some s \<Rightarrow> Some \<lparr>sh_peer_id = peer, sh_message_id = cr_id r, sh_timestamp = cr_timestamp r, sh_at = age_basis E r,
          sh_direction = cr_direction r, sh_kind = cr_kind r, sh_snippet = s, sh_group = cr_group r\<rparr>)"

record top_hits =
  th_hits :: "search_hit list"
  th_limit :: nat
  th_truncated :: bool

definition top_new :: "nat \<Rightarrow> top_hits" where
  "top_new limit = \<lparr>th_hits = [], th_limit = limit, th_truncated = False\<rparr>"

text \<open>\<open>partition_point\<close> on a list ordered by the key: the length of the part below.\<close>

definition top_push :: "int \<Rightarrow> search_hit \<Rightarrow> top_hits \<Rightarrow> top_hits" where
  "top_push min_utc h t =
     (let at = length (takeWhile (\<lambda>held. hit_order min_utc held < hit_order min_utc h) (th_hits t))
      in if th_limit t \<le> at then t\<lparr>th_truncated := True\<rparr>
         else let hits = take at (th_hits t) @ [h] @ drop at (th_hits t)
              in if th_limit t < length hits then t\<lparr>th_hits := butlast hits, th_truncated := True\<rparr>
                 else t\<lparr>th_hits := hits\<rparr>)"

fun search_rows :: "chat_env \<Rightarrow> (string \<Rightarrow> string list) \<Rightarrow> int \<Rightarrow> string list \<Rightarrow> device_id \<Rightarrow> chat_record list
    \<Rightarrow> string set \<times> top_hits \<Rightarrow> string set \<times> top_hits" where
  "search_rows E lower min_utc needle peer [] acc = acc"
| "search_rows E lower min_utc needle peer (r # rs) (seen, best) =
     (if cr_group r \<noteq> None \<and> cr_id r \<in> seen then search_rows E lower min_utc needle peer rs (seen, best)
      else search_rows E lower min_utc needle peer rs
        (if cr_group r \<noteq> None then insert (cr_id r) seen else seen,
         case search_hit_of E lower needle peer r of Some h \<Rightarrow> top_push min_utc h best | None \<Rightarrow> best))"

fun search_peers :: "chat_env \<Rightarrow> 's app_port \<Rightarrow> (string \<Rightarrow> string list) \<Rightarrow> int \<Rightarrow> (device_id \<Rightarrow> int) \<Rightarrow> string list \<Rightarrow> device_id list
    \<Rightarrow> string set \<times> top_hits \<Rightarrow> 's \<Rightarrow> (chat_error, top_hits) result \<times> 's" where
  "search_peers E A lower min_utc now needle [] acc s = (Inr (snd acc), s)"
| "search_peers E A lower min_utc now needle (peer # peers) acc s =
     (case chat_records E A (now peer) peer True s of
        (Inl e, s) \<Rightarrow> (Inl e, s)
      | (Inr rs, s) \<Rightarrow> search_peers E A lower min_utc now needle peers (search_rows E lower min_utc needle peer rs acc) s)"

definition chat_search :: "chat_env \<Rightarrow> 's app_port \<Rightarrow> (string \<Rightarrow> string list) \<Rightarrow> int \<Rightarrow> (device_id \<Rightarrow> int) \<Rightarrow> string \<Rightarrow> nat \<Rightarrow> 's
    \<Rightarrow> (chat_error, search_hit list \<times> bool) result \<times> 's" where
  "chat_search E A lower min_utc now query limit s =
     (let needle = fold_chars lower (str_trim query) in
      if needle = [] then (Inr ([], False), s)
      else case peer_namespaces A s of
        Inl e \<Rightarrow> (Inl e, s)
      | Inr peers \<Rightarrow> (case search_peers E A lower min_utc now needle peers ({}, top_new limit) s of
          (Inl e, s) \<Rightarrow> (Inl e, s)
        | (Inr best, s) \<Rightarrow> (Inr (th_hits best, th_truncated best), s)))"

section \<open>The bounded list\<close>

lemma insort_split: "insort_key f x xs = takeWhile (\<lambda>y. f y < f x) xs @ x # dropWhile (\<lambda>y. f y < f x) xs"
  by (induction xs) (auto simp: not_le)

lemma take_insort: "take n (insort_key f x (take n xs)) = take n (insort_key f x xs)"
proof (induction xs arbitrary: n)
  case (Cons y ys)
  show ?case using Cons by (cases n; cases "n - 1") (auto simp: take_Cons' min_def)
qed simp

definition top_of :: "int \<Rightarrow> nat \<Rightarrow> search_hit list \<Rightarrow> top_hits" where
  "top_of min_utc limit hs = \<lparr>th_hits = take limit (sort_key (hit_order min_utc) (rev hs)), th_limit = limit, th_truncated = limit < length hs\<rparr>"

lemma top_new_of: "top_new limit = top_of min_utc limit []"
  by (simp add: top_new_def top_of_def)

lemma take_split: "take (length (takeWhile P xs)) xs = takeWhile P xs" "drop (length (takeWhile P xs)) xs = dropWhile P xs"
  by (simp_all add: takeWhile_eq_take[symmetric] dropWhile_eq_drop[symmetric])

lemma top_push_insort:
  "top_push min_utc h t =
     (if th_limit t \<le> length (takeWhile (\<lambda>y. hit_order min_utc y < hit_order min_utc h) (th_hits t)) then t\<lparr>th_truncated := True\<rparr>
      else if th_limit t < length (insort_key (hit_order min_utc) h (th_hits t))
        then t\<lparr>th_hits := butlast (insort_key (hit_order min_utc) h (th_hits t)), th_truncated := True\<rparr>
      else t\<lparr>th_hits := insort_key (hit_order min_utc) h (th_hits t)\<rparr>)"
  unfolding insort_split by (simp add: top_push_def Let_def take_split)

lemma top_push_of: "top_push min_utc h (top_of min_utc limit hs) = top_of min_utc limit (hs @ [h])"
proof -
  let ?f = "hit_order min_utc" and ?P = "\<lambda>y. hit_order min_utc y < hit_order min_utc h"
  let ?xs = "take limit (sort_key ?f (rev hs))"
  let ?ys = "insort_key ?f h ?xs"
  have ys: "?ys = takeWhile ?P ?xs @ h # dropWhile ?P ?xs" by (rule insort_split)
  have goal: "th_hits (top_of min_utc limit (hs @ [h])) = take limit ?ys" by (simp add: top_of_def take_insort)
  have len: "length ?xs = min limit (length hs)" by simp
  show ?thesis
  proof (cases "limit \<le> length (takeWhile ?P ?xs)")
    case True
    have "length (takeWhile ?P ?xs) \<le> length ?xs" by (rule length_takeWhile_le)
    then have "length (takeWhile ?P ?xs) = limit" "length ?xs = limit" using True len by auto
    then have tw: "takeWhile ?P ?xs = ?xs" by (metis take_split(1) take_all_iff order_refl)
    have "take limit ?ys = ?xs" unfolding ys tw using \<open>length ?xs = limit\<close> by (metis append_eq_conv_conj)
    moreover have "limit \<le> length hs" using \<open>length ?xs = limit\<close> len by linarith
    ultimately show ?thesis using True goal by (simp add: top_push_def top_of_def Let_def)
  next
    case False
    have l: "length ?ys = Suc (min limit (length hs))" by simp
    have "take limit ?ys = (if limit < length ?ys then butlast ?ys else ?ys)" using l by (auto simp: butlast_conv_take min_def)
    moreover have "limit < length ?ys \<longleftrightarrow> limit < length (hs @ [h])" using l by auto
    moreover have "limit < length hs \<Longrightarrow> limit < length ?ys" using l by simp
    ultimately have "take limit ?ys = (if limit < length (hs @ [h]) then butlast ?ys else ?ys)"
      and "limit < length ?ys \<longleftrightarrow> limit < length (hs @ [h])" by simp_all
    with False goal show ?thesis unfolding top_push_insort by (auto simp: top_of_def)
  qed
qed

section \<open>The reference\<close>

fun hits_rows :: "chat_env \<Rightarrow> (string \<Rightarrow> string list) \<Rightarrow> string list \<Rightarrow> device_id \<Rightarrow> chat_record list \<Rightarrow> string set \<Rightarrow> string set \<times> search_hit list" where
  "hits_rows E lower needle peer [] seen = (seen, [])"
| "hits_rows E lower needle peer (r # rs) seen =
     (if cr_group r \<noteq> None \<and> cr_id r \<in> seen then hits_rows E lower needle peer rs seen
      else case hits_rows E lower needle peer rs (if cr_group r \<noteq> None then insert (cr_id r) seen else seen) of
        (seen', hs) \<Rightarrow> (seen', (case search_hit_of E lower needle peer r of Some h \<Rightarrow> h # hs | None \<Rightarrow> hs)))"

fun hits_peers :: "chat_env \<Rightarrow> 's app_port \<Rightarrow> (string \<Rightarrow> string list) \<Rightarrow> (device_id \<Rightarrow> int) \<Rightarrow> string list \<Rightarrow> device_id list \<Rightarrow> string set \<Rightarrow> 's
    \<Rightarrow> (chat_error, search_hit list) result \<times> 's" where
  "hits_peers E A lower now needle [] seen s = (Inr [], s)"
| "hits_peers E A lower now needle (peer # peers) seen s =
     (case chat_records E A (now peer) peer True s of
        (Inl e, s) \<Rightarrow> (Inl e, s)
      | (Inr rs, s) \<Rightarrow> (case hits_rows E lower needle peer rs seen of (seen', hs) \<Rightarrow>
          case hits_peers E A lower now needle peers seen' s of (r, s) \<Rightarrow> (map_sum (\<lambda>e. e) (\<lambda>hs'. hs @ hs') r, s)))"

lemma search_rows_of:
  "search_rows E lower min_utc needle peer rs (seen, top_of min_utc limit hs)
   = (case hits_rows E lower needle peer rs seen of (seen', hs') \<Rightarrow> (seen', top_of min_utc limit (hs @ hs')))"
proof (induction rs arbitrary: seen hs)
  case (Cons r rs)
  show ?case using Cons by (auto simp: top_push_of split: option.splits prod.splits)
qed simp

lemma search_peers_of:
  "search_peers E A lower min_utc now needle peers (seen, top_of min_utc limit hs) s
   = (case hits_peers E A lower now needle peers seen s of (r, t) \<Rightarrow> (map_sum (\<lambda>e. e) (\<lambda>hs'. top_of min_utc limit (hs @ hs')) r, t))"
proof (induction peers arbitrary: seen hs s)
  case (Cons peer peers)
  obtain x s1 where c: "chat_records E A (now peer) peer True s = (x, s1)" by fastforce
  show ?case
  proof (cases x)
    case (Inr rs)
    obtain seen' hs' where h: "hits_rows E lower needle peer rs seen = (seen', hs')" by fastforce
    obtain y t where t: "hits_peers E A lower now needle peers seen' s1 = (y, t)" by fastforce
    show ?thesis using Cons[of seen' "hs @ hs'" s1] c Inr h t by (cases y) (simp_all add: search_rows_of)
  qed (simp add: c)
qed simp

section \<open>Matching\<close>

lemma match_lower_spec:
  "match_lower ls want = (if prefix ls want then Inr (drop (length ls) want) else Inl (prefix want ls))"
  by (induction ls want rule: match_lower.induct) auto

lemma folded_prefix: "folded_starts_with lower cs want = prefix want (concat (map lower cs))"
proof (induction lower cs want rule: folded_starts_with.induct)
  case (2 lower c cs want)
  show ?case
  proof (cases "prefix (lower c) want")
    case True
    then obtain w where w: "want = lower c @ w" by (auto simp: prefix_def)
    then have "match_lower (lower c) want = Inr w" by (simp add: match_lower_spec)
    then show ?thesis using 2 w by simp
  next
    case False
    then have "prefix want (lower c @ xs) \<longleftrightarrow> prefix want (lower c)" for xs
      by (auto dest: prefix_append[THEN iffD1] intro: prefix_prefix)
    then show ?thesis using False by (simp add: match_lower_spec)
  qed
qed auto

definition field_matches :: "(string \<Rightarrow> string list) \<Rightarrow> string list \<Rightarrow> string \<Rightarrow> bool" where
  "field_matches lower needle field = (needle \<noteq> [] \<and> (\<exists>at < length (str_chars field). prefix needle (concat (map lower (drop at (str_chars field))))))"

lemma find_folded_at_none: "find_folded_at lower cs needle k = None \<longleftrightarrow> (\<forall>at < length cs. \<not> prefix needle (concat (map lower (drop at cs))))"
proof (induction lower cs needle k rule: find_folded_at.induct)
  case (2 lower c cs needle k)
  have "(\<forall>at < length (c # cs). \<not> prefix needle (concat (map lower (drop at (c # cs))))) \<longleftrightarrow>
      \<not> prefix needle (concat (map lower (c # cs))) \<and> (\<forall>at < length cs. \<not> prefix needle (concat (map lower (drop at cs))))"
    by (auto simp: less_Suc_eq_0_disj)
  then show ?case using 2 by (auto simp: folded_prefix simp del: list.map concat.simps folded_starts_with.simps)
qed simp

lemma snippet_found: "snippet_of lower needle field \<noteq> None \<longleftrightarrow> field_matches lower needle field"
  using find_folded_at_none[of lower "str_chars field" needle 0]
  by (auto simp: snippet_of_def find_folded_def field_matches_def Let_def split: option.splits)

definition search_ref :: "chat_env \<Rightarrow> 's app_port \<Rightarrow> (string \<Rightarrow> string list) \<Rightarrow> int \<Rightarrow> (device_id \<Rightarrow> int) \<Rightarrow> string \<Rightarrow> nat \<Rightarrow> 's
    \<Rightarrow> (chat_error, search_hit list \<times> bool) result \<times> 's" where
  "search_ref E A lower min_utc now query limit s =
     (let needle = fold_chars lower (str_trim query) in
      if needle = [] then (Inr ([], False), s)
      else case peer_namespaces A s of
        Inl e \<Rightarrow> (Inl e, s)
      | Inr peers \<Rightarrow> (case hits_peers E A lower now needle peers {} s of
          (Inl e, s) \<Rightarrow> (Inl e, s)
        | (Inr hs, s) \<Rightarrow> (Inr (take limit (sort_key (hit_order min_utc) (rev hs)), limit < length hs), s)))"

text \<open>
  C36. A search answers what sorting would. It returns the first \<open>limit\<close> of all hits in the order
  newest first, peer, id, and says it left some out exactly when there were more than \<open>limit\<close>,
  although it never holds more than \<open>limit\<close> of them; and a row is a hit exactly when the folded
  query occurs in its folded text, or its file's name, from some character on.
\<close>

theorem search_is_sorted_prefix:
  "chat_search E A lower min_utc now query limit s = search_ref E A lower min_utc now query limit s
   \<and> (search_hit_of E lower needle peer r \<noteq> None) =
      (field_matches lower needle (cr_body r) \<or> (\<exists>f. cr_file r = Some f \<and> field_matches lower needle (fm_name f)))"
proof
  let ?n = "fold_chars lower (str_trim query)"
  have "search_peers E A lower min_utc now ?n peers ({}, top_new limit) s
      = (case hits_peers E A lower now ?n peers {} s of (r, t) \<Rightarrow> (map_sum (\<lambda>e. e) (\<lambda>hs. top_of min_utc limit hs) r, t))" for peers
    unfolding top_new_of[of limit min_utc] search_peers_of by simp
  then show "chat_search E A lower min_utc now query limit s = search_ref E A lower min_utc now query limit s"
    by (auto simp: chat_search_def search_ref_def Let_def top_of_def split: sum.splits prod.splits)
  show "(search_hit_of E lower needle peer r \<noteq> None) =
      (field_matches lower needle (cr_body r) \<or> (\<exists>f. cr_file r = Some f \<and> field_matches lower needle (fm_name f)))"
    unfolding snippet_found[symmetric] by (auto simp: search_hit_of_def split: option.splits)
qed

end
