(* ===== verification/PB_Group_Props.thy ===== *)
theory PB_Group_Props
  imports PB_Chat_Outbox
begin

text \<open>
  What a peer's membership frames can do to the groups of this device: a peer enters or leaves a
  roster only in its own name, and an invitation waits for the user.
\<close>

definition group_env_ok :: "group_env \<Rightarrow> bool" where
  "group_env_ok G = (codec_ok (ge_group G) \<and> codec_ok (ge_pending G))"

text \<open>The strings of a decoded invitation are valid UTF-8.\<close>

definition invite_ok :: "group_env \<Rightarrow> bytes \<Rightarrow> bool" where
  "invite_ok G b = (\<forall>v. cd_dec (ge_invite G) b = Inr v \<longrightarrow> str_ok (gv_group v))"

definition group_row :: "group_env \<Rightarrow> chat_abs \<Rightarrow> string \<Rightarrow> group_rec option" where
  "group_row G a k = (case a GROUPS_NS k of None \<Rightarrow> None | Some b \<Rightarrow> (case cd_dec (ge_group G) b of Inr g \<Rightarrow> Some g | Inl _ \<Rightarrow> None))"

definition invite_row :: "group_env \<Rightarrow> chat_abs \<Rightarrow> string \<Rightarrow> pending_invite option" where
  "invite_row G a k = (case a INVITES_NS k of None \<Rightarrow> None | Some b \<Rightarrow> (case cd_dec (ge_pending G) b of Inr v \<Rightarrow> Some v | Inl _ \<Rightarrow> None))"

definition groups_wf :: "group_env \<Rightarrow> chat_abs \<Rightarrow> bool" where
  "groups_wf G a = (\<forall>k g. group_row G a k = Some g \<longrightarrow> gr_id g = k)"

lemma group_row_some: "group_row G a k = Some g \<longleftrightarrow> (\<exists>b. a GROUPS_NS k = Some b \<and> cd_dec (ge_group G) b = Inr g)"
  by (auto simp: group_row_def split: option.splits sum.splits)

lemma group_ns_ok [simp]: "namespace_ok GROUPS_NS" "namespace_ok INVITES_NS" "GROUPS_NS \<noteq> INVITES_NS" "INVITES_NS \<noteq> GROUPS_NS"
  by (simp_all add: namespace_ok_def GROUPS_NS_def INVITES_NS_def slug_char_def is_ascii_alphanumeric_def)

text \<open>A group after a frame of \<open>p\<close>: the same group, in which only the place of \<open>p\<close> may differ.\<close>

definition own_place :: "device_id \<Rightarrow> group_rec \<Rightarrow> group_rec \<Rightarrow> bool" where
  "own_place p g g' = (gr_id g' = gr_id g \<and> gr_name g' = gr_name g
     \<and> filter (\<lambda>m. m \<noteq> p) (gr_members g') = filter (\<lambda>m. m \<noteq> p) (gr_members g)
     \<and> length (gr_members g') \<le> max (length (gr_members g)) MAX_MEMBERS)"

definition speaks_for :: "group_env \<Rightarrow> device_id \<Rightarrow> chat_abs \<Rightarrow> chat_abs \<Rightarrow> bool" where
  "speaks_for G p a a' =
     ((\<forall>ns. ns \<noteq> GROUPS_NS \<longrightarrow> ns \<noteq> INVITES_NS \<longrightarrow> a' ns = a ns)
      \<and> (\<forall>k. a' GROUPS_NS k = a GROUPS_NS k \<or> (\<exists>g g'. group_row G a k = Some g \<and> group_row G a' k = Some g' \<and> own_place p g g'))
      \<and> (\<forall>k. a' INVITES_NS k = a INVITES_NS k \<or> (\<exists>v. invite_row G a' k = Some v \<and> pv_group v = k \<and> pv_from v = p)))"

lemma speaks_refl [simp]: "speaks_for G p a a"
  by (simp add: speaks_for_def)

lemma group_codec: "group_env_ok G \<Longrightarrow> cd_enc (ge_group G) g = Inr b \<Longrightarrow> cd_dec (ge_group G) b = Inr g"
  unfolding group_env_ok_def codec_ok_def by (metis Inr_inject)

lemma pending_codec: "group_env_ok G \<Longrightarrow> cd_enc (ge_pending G) v = Inr b \<Longrightarrow> cd_dec (ge_pending G) b = Inr v"
  unfolding group_env_ok_def codec_ok_def by (metis Inr_inject)

lemma speaks_wf:
  assumes "speaks_for G p a a'" "groups_wf G a"
  shows "groups_wf G a'"
  unfolding groups_wf_def
proof (intro allI impI)
  fix k g assume g: "group_row G a' k = Some g"
  have "a' GROUPS_NS k = a GROUPS_NS k \<or> (\<exists>h h'. group_row G a k = Some h \<and> group_row G a' k = Some h' \<and> own_place p h h')"
    using assms(1) unfolding speaks_for_def by blast
  then show "gr_id g = k"
  proof
    assume "a' GROUPS_NS k = a GROUPS_NS k"
    then have "group_row G a k = Some g" using g by (simp add: group_row_def)
    then show ?thesis using assms(2) by (simp add: groups_wf_def)
  next
    assume "\<exists>h h'. group_row G a k = Some h \<and> group_row G a' k = Some h' \<and> own_place p h h'"
    then show ?thesis using assms(2) g by (auto simp: groups_wf_def own_place_def)
  qed
qed

lemma find_in: "find Q xs = Some x \<Longrightarrow> x \<in> set xs \<and> Q x"
  by (metis find_Some_iff nth_mem)

lemma apply_cases:
  assumes "ty \<noteq> MSG_GROUP_INVITE"
  shows "groups_sink G A stamp p ty payload s = s \<or> (\<exists>i. groups_sink G A stamp p ty payload s = snd (add_member G A i p s))
    \<or> (\<exists>i. groups_sink G A stamp p ty payload s = snd (remove_member G A i p s))"
proof -
  obtain x t where a: "group_apply G A p ty payload s = (x, t)" by fastforce
  have "(t = s \<or> (\<exists>i. t = snd (add_member G A i p s)) \<or> (\<exists>i. t = snd (remove_member G A i p s))) \<and> (\<forall>i n f m. x \<noteq> Inr (Invited i n f m))"
  proof (cases "ty = MSG_GROUP_JOINED")
    case True
    then show ?thesis using a assms by (auto simp: group_apply_def split: sum.splits prod.splits) (metis snd_conv)+
  next
    case False
    then show ?thesis using a assms by (auto simp: group_apply_def split: sum.splits prod.splits if_splits) (metis snd_conv)+
  qed
  moreover from this have "groups_sink G A stamp p ty payload s = t" using a by (auto simp: groups_sink_def split: sum.splits group_event.splits)
  ultimately show ?thesis by simp
qed

context strict_store
begin

lemma group_get_spec:
  assumes "inv s" "groups_wf G (abs s)" "group_get G A i s = Inr g"
  shows "group_row G (abs s) i = Some g \<and> gr_id g = i \<and> str_ok i"
proof -
  obtain raw where raw: "ap_list A GROUPS_NS s = Inr raw" using list_law[OF assms(1) group_ns_ok(1)] by blast
  have "g \<in> set (sort_key (\<lambda>g. normalise G (gr_name g)) (List.map_filter (\<lambda>(_, b). case cd_dec (ge_group G) b of Inr g \<Rightarrow> Some g | Inl _ \<Rightarrow> None) raw))"
    "gr_id g = i"
    using assms(3) raw by (auto simp: group_get_def group_list_def rbind_def split: option.splits dest!: find_in)
  then obtain k b where k: "(k, b) \<in> set raw" "cd_dec (ge_group G) b = Inr g" by (auto simp: map_filter_def split: sum.splits)
  then have a: "abs s GROUPS_NS k = Some b" using list_rows[OF assms(1) group_ns_ok(1) raw] by blast
  then have "group_row G (abs s) k = Some g" using k(2) by (simp add: group_row_some)
  moreover from this have "k = i" using assms(2) \<open>gr_id g = i\<close> by (simp add: groups_wf_def)
  ultimately show ?thesis using \<open>gr_id g = i\<close> key_law[OF assms(1) a] by simp
qed

lemma group_write_speaks:
  assumes "inv s" "group_env_ok G" "group_row G (abs s) (gr_id g) = Some h" "own_place p h g" "str_ok (gr_id g)" "group_write G A g s = (res, t)"
  shows "inv t \<and> speaks_for G p (abs s) (abs t)"
proof (cases "cd_enc (ge_group G) g")
  case (Inl e)
  then show ?thesis using assms(1,6) by (simp add: group_write_def)
next
  case (Inr b)
  obtain x t' where p: "ap_put A GROUPS_NS (gr_id g) b s = (x, t')" by fastforce
  have t: "t = t'" using assms(6) Inr p by (auto simp: group_write_def split: sum.splits)
  note l = put_law[OF assms(1,5) p]
  show ?thesis
  proof (cases "x = Inr ()")
    case True
    then have a: "abs t = (abs s)(GROUPS_NS := (abs s GROUPS_NS)(gr_id g \<mapsto> b))" "inv t" using l t by simp_all
    have "group_row G (abs t) (gr_id g) = Some g" using group_codec[OF assms(2) Inr] by (simp add: group_row_some a(1))
    then show ?thesis using a assms(3,4) by (auto simp: speaks_for_def)
  next
    case False
    then show ?thesis using l t by simp
  qed
qed

lemma add_member_speaks:
  assumes "inv s" "group_env_ok G" "groups_wf G (abs s)" "add_member G A i p s = (res, t)"
  shows "inv t \<and> speaks_for G p (abs s) (abs t)"
proof (cases "\<exists>g. group_get G A i s = Inr g \<and> \<not> holds g p \<and> length (gr_members g) + 1 \<le> MAX_MEMBERS
    \<and> group_write G A (g\<lparr>gr_members := gr_members g @ [p]\<rparr>) s = (res, t)")
  case True
  then obtain g where g: "group_get G A i s = Inr g" "length (gr_members g) + 1 \<le> MAX_MEMBERS"
    "group_write G A (g\<lparr>gr_members := gr_members g @ [p]\<rparr>) s = (res, t)" by blast
  note r = group_get_spec[OF assms(1,3) g(1)]
  show ?thesis by (rule group_write_speaks[OF assms(1,2) _ _ _ g(3)]) (use r g(2) in \<open>auto simp: own_place_def\<close>)
next
  case False
  then show ?thesis using assms(1,4) by (auto simp: add_member_def not_le split: sum.splits if_splits)
qed

lemma remove_member_speaks:
  assumes "inv s" "group_env_ok G" "groups_wf G (abs s)" "remove_member G A i p s = (res, t)"
  shows "inv t \<and> speaks_for G p (abs s) (abs t)"
proof (cases "group_get G A i s")
  case (Inr g)
  note r = group_get_spec[OF assms(1,3) Inr]
  have w: "group_write G A (g\<lparr>gr_members := filter (\<lambda>m. m \<noteq> p) (gr_members g)\<rparr>) s = (res, t)" using assms(4) Inr by (simp add: remove_member_def)
  show ?thesis by (rule group_write_speaks[OF assms(1,2) _ _ _ w]) (use r in \<open>auto simp: own_place_def intro: le_trans[OF length_filter_le] max.coboundedI1\<close>)
qed (use assms in \<open>simp add: remove_member_def\<close>)

lemma record_invite_speaks:
  assumes "inv s" "group_env_ok G" "str_ok (pv_group v)" "pv_from v = p" "record_invite G A v s = (res, t)"
  shows "inv t \<and> speaks_for G p (abs s) (abs t)"
proof (cases "\<exists>b x. cd_enc (ge_pending G) v = Inr b \<and> ap_put A INVITES_NS (pv_group v) b s = (x, t)")
  case True
  then obtain b x where b: "cd_enc (ge_pending G) v = Inr b" "ap_put A INVITES_NS (pv_group v) b s = (x, t)" by blast
  note l = put_law[OF assms(1,3) b(2)]
  show ?thesis
  proof (cases "x = Inr ()")
    case True
    then have a: "abs t = (abs s)(INVITES_NS := (abs s INVITES_NS)(pv_group v \<mapsto> b))" "inv t" using l by simp_all
    have "invite_row G (abs t) (pv_group v) = Some v" using pending_codec[OF assms(2) b(1)] by (simp add: invite_row_def a(1))
    then show ?thesis using a assms(4) by (auto simp: speaks_for_def)
  qed (use l in simp)
next
  case False
  then show ?thesis using assms(1,5) by (auto simp: record_invite_def split: sum.splits prod.splits)
qed

lemma sink_speaks:
  assumes "inv s" "group_env_ok G" "groups_wf G (abs s)" "invite_ok G payload"
  shows "inv (groups_sink G A stamp p ty payload s) \<and> speaks_for G p (abs s) (abs (groups_sink G A stamp p ty payload s))"
proof -
  let ?t = "groups_sink G A stamp p ty payload s"
  consider "?t = s" | i where "?t = snd (add_member G A i p s)" | i where "?t = snd (remove_member G A i p s)"
    | v where "cd_dec (ge_invite G) payload = Inr v"
        "?t = snd (record_invite G A \<lparr>pv_group = gv_group v, pv_name = gv_name v, pv_from = p, pv_members = gv_members v, pv_at = stamp\<rparr> s)"
  proof (cases "ty = MSG_GROUP_INVITE")
    case True
    then show thesis using that(1,4) by (cases "cd_dec (ge_invite G) payload") (auto simp: groups_sink_def group_apply_def)
  next
    case False
    then show thesis using apply_cases[of ty G A stamp p payload s] that(1-3) by blast
  qed
  then show ?thesis
  proof cases
    case 2
    then show ?thesis using add_member_speaks[OF assms(1-3) prod.collapse[symmetric]] by simp
  next
    case 3
    then show ?thesis using remove_member_speaks[OF assms(1-3) prod.collapse[symmetric]] by simp
  next
    case 4
    then have "str_ok (gv_group v)" using assms(4) by (simp add: invite_ok_def)
    then show ?thesis unfolding 4(2) using record_invite_speaks[OF assms(1,2) _ _ prod.collapse[symmetric]] by simp
  qed (use assms(1) in simp)
qed

end

text \<open>
  C33. A peer's membership frames speak for that peer alone. Whatever frame arrives, no group is
  created or deleted and none is renamed; in any group the members other than the sender stay the
  same, in the same order, and the roster stays within its bound; an invitation is only kept as
  pending, under its group's id and with the sender as its origin; and nothing outside the groups
  and the pending invitations changes.
\<close>

theorem membership_frames_speak_for_sender:
  assumes "app_port_inv P io s" "group_env_ok G" "groups_wf G (app_port_abs P s)" "invite_ok G payload"
    "t = groups_sink G (fs_app_port P io) stamp p ty payload s"
  shows "app_port_inv P io t \<and> groups_wf G (app_port_abs P t) \<and> speaks_for G p (app_port_abs P s) (app_port_abs P t)"
  unfolding assms(5) using strict.sink_speaks[OF assms(1-4)] speaks_wf[OF _ assms(3)] by blast

lemma toy_groups_ok: "group_env_ok toy_groups"
  by (simp add: group_env_ok_def toy_groups_def toy_codec_ok)

definition toy_left :: bytes where
  "toy_left = concat (map toy_put (fst tc_str ''g''))"

lemma toy_left_ok: "invite_ok toy_groups toy_left"
proof -
  have "str_ok (gv_group v)" if "cd_dec (toy_codec tc_invite) toy_left = Inr v" for v
  proof -
    let ?t = "fst tc_str ''g''"
    have "fst (snd tc_invite ?t) = v" using that by (simp add: toy_left_def toy_codec_def toy_tokens_put Let_def split: if_splits)
    then have "gv_group v = ''g''" by (auto simp: tc_invite_def tc_map_def tc_pair_def tc_str_def split: prod.splits)
    then show ?thesis by (simp add: str_bytes_def unat_of_char)
  qed
  then show ?thesis by (simp add: invite_ok_def toy_groups_def)
qed

theorem membership_frames_speak_for_sender_witness:
  "\<exists>s t. t = groups_sink toy_groups toy_port ''u'' ''b'' MSG_GROUP_LEFT toy_left s \<and> group_row toy_groups (toy_abs s) ''g'' = Some toy_group
     \<and> group_row toy_groups (toy_abs t) ''g'' = Some (toy_group\<lparr>gr_members := [''a'', ''c'']\<rparr>) \<and> speaks_for toy_groups ''b'' (toy_abs s) (toy_abs t)"
proof -
  obtain s where s: "toy_inv s" "app_port_calm toy_prims (\<lambda>_. toy_put_io) s" "group_get toy_groups toy_port ''g'' s = Inr toy_group"
    "toy_abs s = (\<lambda>_ _. None)(GROUPS_NS := [''g'' \<mapsto> concat (map toy_put (fst tc_group toy_group))])" by (rule toy_group_store)
  let ?t = "groups_sink toy_groups toy_port ''u'' ''b'' MSG_GROUP_LEFT toy_left s"
  have row: "group_row toy_groups (toy_abs s) k = (if k = ''g'' then Some toy_group else None)" for k
    by (simp add: group_row_def s(4) toy_groups_def)
  then have wf: "groups_wf toy_groups (toy_abs s)" by (simp add: groups_wf_def toy_group_def)
  let ?g = "toy_group\<lparr>gr_members := [''a'', ''c'']\<rparr>" and ?b = "concat (map toy_put (fst tc_group (toy_group\<lparr>gr_members := [''a'', ''c'']\<rparr>)))"
  have n: "str_ok ''g''" "gr_id ?g = ''g''" by (simp_all add: str_bytes_def unat_of_char toy_group_def)
  obtain x t where p: "ap_put toy_port GROUPS_NS ''g'' ?b s = (x, t)" by (metis prod.exhaust)
  have x: "x = Inr ()" "toy_abs t = (toy_abs s)(GROUPS_NS := (toy_abs s GROUPS_NS)(''g'' \<mapsto> ?b))"
    using served.put_served[OF s(1,2) group_ns_ok(1) n(1) p] app.put_law[OF s(1) n(1) p] by auto
  have "toy_group\<lparr>gr_members := filter (\<lambda>m. m \<noteq> ''b'') (gr_members toy_group)\<rparr> = ?g" by (simp add: toy_group_def)
  then have "remove_member toy_groups toy_port ''g'' ''b'' s = (Inr ?g, t)"
    using s(3) p x(1) n(2) by (simp add: remove_member_def group_write_def toy_groups_def)
  moreover have "cd_dec (ge_left toy_groups) toy_left = Inr ''g''" by (simp add: toy_groups_def toy_left_def)
  ultimately have t: "?t = t"
    using s(3) by (simp add: groups_sink_def group_apply_def MSG_GROUP_LEFT_def MSG_GROUP_JOINED_def MSG_GROUP_INVITE_def)
  have "group_row toy_groups (toy_abs t) ''g'' = Some ?g" by (simp add: group_row_def x(2) toy_groups_def)
  moreover have "speaks_for toy_groups ''b'' (toy_abs s) (toy_abs t)"
    using membership_frames_speak_for_sender[OF s(1) toy_groups_ok wf toy_left_ok refl, of "''u''" "''b''" MSG_GROUP_LEFT] t by simp
  ultimately show ?thesis using t row by (intro exI[of _ s] exI[of _ t]) simp
qed

end
