(* ===== verification/PB_Notes.thy ===== *)
theory PB_Notes
  imports PB_Chat_Codec
begin

text \<open>
  Notes (\<open>peerbeam-notes\<close>: \<open>note.rs\<close>, \<open>message.rs\<close>, \<open>gate.rs\<close>, \<open>store.rs\<close>, \<open>handler.rs\<close>, with
  \<open>send_notes_on\<close> of \<open>peerbeam-ffi/src/session_exec.rs\<close>): short texts kept in one namespace of the
  record store and copied between the devices that were granted the permission. A deleted note
  stays as a tombstone; of two versions the later edit wins.

  Times are the RFC 3339 strings the code compares; the clock and the random bytes are arguments.
  The JSON of a note and of a batch are the codings of \<open>notes_env\<close>.

  Shown here: the batches of a set are the whole set, in frames a receiver accepts; a peer without
  the permission writes and learns nothing, and any other reaches the notes only; one exchange
  leaves two devices with the same notes.
\<close>

section \<open>Notes\<close>

definition NOTE_MAX_BODY :: nat where "NOTE_MAX_BODY = 65536"
definition NOTE_MAX_TITLE :: nat where "NOTE_MAX_TITLE = 256"
definition NOTE_MAX_ID :: nat where "NOTE_MAX_ID = 128"

datatype note_error =
    NeBodyTooLarge nat
  | NeTitleTooLarge nat
  | NeBadId string
  | NeStorage string
  | NeSerialization string

fun note_error_show :: "note_error \<Rightarrow> string" where
  "note_error_show (NeBodyTooLarge n) = ''note body too large: '' @ show_nat n @ '' bytes (max '' @ show_nat NOTE_MAX_BODY @ '')''"
| "note_error_show (NeTitleTooLarge n) = ''note title too large: '' @ show_nat n @ '' bytes (max '' @ show_nat NOTE_MAX_TITLE @ '')''"
| "note_error_show (NeBadId e) = ''bad note id: '' @ e"
| "note_error_show (NeStorage e) = ''note storage: '' @ e"
| "note_error_show (NeSerialization e) = ''note serialization: '' @ e"

record note_rec =
  nt_id :: string
  nt_title :: string
  nt_body :: string
  nt_updated_at :: string
  nt_deleted :: bool

definition note_at :: "string \<Rightarrow> string \<Rightarrow> string \<Rightarrow> string \<Rightarrow> (note_error, note_rec) result" where
  "note_at now i title body =
     (if i = [] \<or> length i > NOTE_MAX_ID then Inl (NeBadId (''length '' @ show_nat (length i)))
      else if length title > NOTE_MAX_TITLE then Inl (NeTitleTooLarge (length title))
      else if length body > NOTE_MAX_BODY then Inl (NeBodyTooLarge (length body))
      else Inr \<lparr>nt_id = i, nt_title = title, nt_body = body, nt_updated_at = now, nt_deleted = False\<rparr>)"

definition note_mint_id :: "int \<Rightarrow> u64 \<Rightarrow> string" where
  "note_mint_id now_ms suffix = pad13 (show_nat (unat (word_of_int (max now_ms 0) :: u64))) @ hex_encode (to_be suffix)"

definition note_new :: "int \<Rightarrow> u64 \<Rightarrow> string \<Rightarrow> string \<Rightarrow> string \<Rightarrow> (note_error, note_rec) result" where
  "note_new now_ms suffix now title body = note_at now (note_mint_id now_ms suffix) title body"

definition note_tombstone :: "string \<Rightarrow> note_rec \<Rightarrow> note_rec" where
  "note_tombstone now n = \<lparr>nt_id = nt_id n, nt_title = [], nt_body = [], nt_updated_at = now, nt_deleted = True\<rparr>"

definition wins :: "note_rec \<Rightarrow> note_rec \<Rightarrow> note_rec" where
  "wins a b = (if nt_updated_at b < nt_updated_at a then a
     else if nt_updated_at a < nt_updated_at b then b
     else if nt_deleted a then a else b)"

section \<open>Batches\<close>

definition MSG_NOTE_BATCH :: message_type where "MSG_NOTE_BATCH = 1"
definition MAX_BATCH_BYTES :: nat where "MAX_BATCH_BYTES = 256 * 1024"
definition MAX_BATCH_NOTES :: nat where "MAX_BATCH_NOTES = 256"

record note_batch =
  nb_notes :: "note_rec list"
  nb_more :: bool
  nb_reply :: bool

record notes_env =
  ne_note :: "note_rec codec"
  ne_batch :: "note_batch codec"

definition note_cost :: "note_rec \<Rightarrow> nat" where
  "note_cost n = length (nt_id n) + length (nt_title n) + length (nt_body n) + length (nt_updated_at n) + 64"

text \<open>\<open>current\<close> is the batch being filled, \<open>bytes\<close> its estimated size.\<close>

fun split_loop :: "bool \<Rightarrow> note_rec list \<Rightarrow> note_rec list \<Rightarrow> nat \<Rightarrow> note_batch list" where
  "split_loop reply [] current bytes = [\<lparr>nb_notes = current, nb_more = False, nb_reply = reply\<rparr>]"
| "split_loop reply (n # notes) current bytes =
     (if current \<noteq> [] \<and> (length current \<ge> MAX_BATCH_NOTES \<or> bytes + note_cost n > MAX_BATCH_BYTES)
      then \<lparr>nb_notes = current, nb_more = True, nb_reply = reply\<rparr> # split_loop reply notes [n] (note_cost n)
      else split_loop reply notes (current @ [n]) (bytes + note_cost n))"

definition batch_split :: "note_rec list \<Rightarrow> bool \<Rightarrow> note_batch list" where
  "batch_split notes reply = split_loop reply notes [] 0"

definition batch_too_big :: "nat \<Rightarrow> note_error" where
  "batch_too_big n = NeSerialization (''batch of '' @ show_nat n @ '' bytes exceeds '' @ show_nat MAX_BATCH_BYTES)"

definition batch_to_frame :: "notes_env \<Rightarrow> channel_id \<Rightarrow> note_batch \<Rightarrow> (note_error, session_frame) result" where
  "batch_to_frame N ch b =
     (case cd_enc (ne_batch N) b of
        Inl e \<Rightarrow> Inl (NeSerialization e)
      | Inr payload \<Rightarrow>
          if length payload > MAX_BATCH_BYTES then Inl (batch_too_big (length payload))
          else Inr \<lparr>sf_channel = ch, sf_message_type = MSG_NOTE_BATCH, sf_flags = additive_flags, sf_payload = payload\<rparr>)"

definition note_check :: "note_rec \<Rightarrow> (note_error, unit) result" where
  "note_check n =
     (if nt_id n = [] \<or> length (nt_id n) > NOTE_MAX_ID then Inl (NeBadId (''length '' @ show_nat (length (nt_id n))))
      else if length (nt_title n) > NOTE_MAX_TITLE then Inl (NeTitleTooLarge (length (nt_title n)))
      else if length (nt_body n) > NOTE_MAX_BODY then Inl (NeBodyTooLarge (length (nt_body n)))
      else Inr ())"

fun notes_check :: "note_rec list \<Rightarrow> (note_error, unit) result" where
  "notes_check [] = Inr ()"
| "notes_check (n # ns) = rbind (note_check n) (\<lambda>_. notes_check ns)"

definition batch_from_frame :: "notes_env \<Rightarrow> session_frame \<Rightarrow> (note_error, note_batch) result" where
  "batch_from_frame N f =
     (if sf_message_type f \<noteq> MSG_NOTE_BATCH then
        Inl (NeSerialization (''unexpected notes message type '' @ show_nat (unat (sf_message_type f))))
      else if length (sf_payload f) > MAX_BATCH_BYTES then Inl (batch_too_big (length (sf_payload f)))
      else case cd_dec (ne_batch N) (sf_payload f) of
        Inl e \<Rightarrow> Inl (NeSerialization e)
      | Inr b \<Rightarrow>
          if length (nb_notes b) > MAX_BATCH_NOTES then
            Inl (NeSerialization (''batch of '' @ show_nat (length (nb_notes b)) @ '' notes exceeds '' @ show_nat MAX_BATCH_NOTES))
          else rbind (notes_check (nb_notes b)) (\<lambda>_. Inr b))"

section \<open>The store\<close>

definition NOTES_NS :: string where "NOTES_NS = ''notes''"

definition note_put :: "notes_env \<Rightarrow> 's app_port \<Rightarrow> note_rec \<Rightarrow> 's \<Rightarrow> (note_error, unit) result \<times> 's" where
  "note_put N A n s =
     (case cd_enc (ne_note N) n of
        Inl e \<Rightarrow> (Inl (NeSerialization e), s)
      | Inr b \<Rightarrow> (case ap_put A NOTES_NS (nt_id n) b s of
          (Inl e, t) \<Rightarrow> (Inl (NeStorage (domain_error_show e)), t)
        | (Inr _, t) \<Rightarrow> (Inr (), t)))"

definition note_get :: "notes_env \<Rightarrow> 's app_port \<Rightarrow> string \<Rightarrow> 's \<Rightarrow> (note_error, note_rec option) result" where
  "note_get N A i s =
     (case ap_get A NOTES_NS i s of
        Inl e \<Rightarrow> Inl (NeStorage (domain_error_show e))
      | Inr None \<Rightarrow> Inr None
      | Inr (Some b) \<Rightarrow> Inr (case cd_dec (ne_note N) b of Inr n \<Rightarrow> Some n | Inl _ \<Rightarrow> None))"

definition note_all :: "notes_env \<Rightarrow> 's app_port \<Rightarrow> 's \<Rightarrow> (note_error, note_rec list) result" where
  "note_all N A s =
     (case ap_list A NOTES_NS s of
        Inl e \<Rightarrow> Inl (NeStorage (domain_error_show e))
      | Inr rows \<Rightarrow> Inr (List.map_filter (\<lambda>(_, v). case cd_dec (ne_note N) v of Inr n \<Rightarrow> Some n | Inl _ \<Rightarrow> None) rows))"

text \<open>The comparison of \<open>sort_by\<close>: the later edit first, then the smaller id; the sort is stable.\<close>

definition note_before :: "note_rec \<Rightarrow> note_rec \<Rightarrow> bool" where
  "note_before a b = (nt_updated_at b < nt_updated_at a \<or> nt_updated_at a = nt_updated_at b \<and> nt_id a < nt_id b)"

primrec note_insort :: "note_rec \<Rightarrow> note_rec list \<Rightarrow> note_rec list" where
  "note_insort x [] = [x]"
| "note_insort x (y # ys) = (if note_before y x then y # note_insort x ys else x # y # ys)"

definition note_sort :: "note_rec list \<Rightarrow> note_rec list" where
  "note_sort xs = foldr note_insort xs []"

definition note_list :: "notes_env \<Rightarrow> 's app_port \<Rightarrow> 's \<Rightarrow> (note_error, note_rec list) result" where
  "note_list N A s = rbind (note_all N A s) (\<lambda>notes. Inr (note_sort (filter (\<lambda>n. \<not> nt_deleted n) notes)))"

definition note_edit :: "notes_env \<Rightarrow> 's app_port \<Rightarrow> string \<Rightarrow> string \<Rightarrow> string \<Rightarrow> string \<Rightarrow> 's \<Rightarrow> (note_error, bool) result \<times> 's" where
  "note_edit N A now i title body s =
     (case note_get N A i s of
        Inl e \<Rightarrow> (Inl e, s)
      | Inr None \<Rightarrow> (Inr False, s)
      | Inr (Some existing) \<Rightarrow>
          if nt_deleted existing then (Inr False, s)
          else case note_at now i title body of
            Inl e \<Rightarrow> (Inl e, s)
          | Inr n \<Rightarrow> (case note_put N A n s of (Inl e, t) \<Rightarrow> (Inl e, t) | (Inr _, t) \<Rightarrow> (Inr True, t)))"

definition note_delete :: "notes_env \<Rightarrow> 's app_port \<Rightarrow> string \<Rightarrow> string \<Rightarrow> 's \<Rightarrow> (note_error, bool) result \<times> 's" where
  "note_delete N A now i s =
     (case note_get N A i s of
        Inl e \<Rightarrow> (Inl e, s)
      | Inr None \<Rightarrow> (Inr False, s)
      | Inr (Some existing) \<Rightarrow>
          if nt_deleted existing then (Inr False, s)
          else (case note_put N A (note_tombstone now existing) s of (Inl e, t) \<Rightarrow> (Inl e, t) | (Inr _, t) \<Rightarrow> (Inr True, t)))"

definition note_merge :: "notes_env \<Rightarrow> 's app_port \<Rightarrow> note_rec \<Rightarrow> 's \<Rightarrow> (note_error, bool) result \<times> 's" where
  "note_merge N A incoming s =
     (case note_get N A (nt_id incoming) s of
        Inl e \<Rightarrow> (Inl e, s)
      | Inr None \<Rightarrow> (case note_put N A incoming s of (Inl e, t) \<Rightarrow> (Inl e, t) | (Inr _, t) \<Rightarrow> (Inr True, t))
      | Inr (Some mine) \<Rightarrow>
          if wins mine incoming = incoming \<and> mine \<noteq> incoming
          then (case note_put N A incoming s of (Inl e, t) \<Rightarrow> (Inl e, t) | (Inr _, t) \<Rightarrow> (Inr True, t))
          else (Inr False, s))"

section \<open>The handler and the sender\<close>

definition may_sync_notes :: "fs_trust \<Rightarrow> device_id \<Rightarrow> int \<Rightarrow> bool" where
  "may_sync_notes T peer now = may T peer Notes now"

fun merge_loop :: "notes_env \<Rightarrow> 's app_port \<Rightarrow> note_rec list \<Rightarrow> 's \<Rightarrow> (note_error, unit) result \<times> 's" where
  "merge_loop N A [] s = (Inr (), s)"
| "merge_loop N A (n # ns) s =
     (case note_merge N A n s of (Inl e, t) \<Rightarrow> (Inl e, t) | (Inr _, t) \<Rightarrow> merge_loop N A ns t)"

definition note_session_error :: "note_error \<Rightarrow> session_error" where
  "note_session_error e = FrameDecode (note_error_show e)"

text \<open>The second component is what the reply sink is called with, one list of batches per call.\<close>

definition notes_handle :: "notes_env \<Rightarrow> 's app_port \<Rightarrow> fs_trust \<Rightarrow> device_id option \<Rightarrow> int \<Rightarrow> session_frame \<Rightarrow> 's
    \<Rightarrow> (session_error, unit) result \<times> note_batch list list \<times> 's" where
  "notes_handle N A T bound now f s =
     (case bound of
        None \<Rightarrow> (Inl (FrameDecode ''notes peer not bound''), [], s)
      | Some peer \<Rightarrow>
          if sf_message_type f \<noteq> MSG_NOTE_BATCH then (Inr (), [], s)
          else if \<not> may_sync_notes T peer now then (Inr (), [], s)
          else case batch_from_frame N f of
            Inl e \<Rightarrow> (Inl (note_session_error e), [], s)
          | Inr batch \<Rightarrow> (case merge_loop N A (nb_notes batch) s of
              (Inl e, t) \<Rightarrow> (Inl (note_session_error e), [], t)
            | (Inr _, t) \<Rightarrow>
                if \<not> nb_more batch \<and> \<not> nb_reply batch then
                  (case note_all N A t of
                     Inl e \<Rightarrow> (Inl (note_session_error e), [], t)
                   | Inr mine \<Rightarrow> (Inr (), [batch_split mine True], t))
                else (Inr (), [], t)))"

text \<open>The frames of a sequence of batches, up to the first that cannot be encoded.\<close>

fun send_notes_on :: "notes_env \<Rightarrow> channel_id \<Rightarrow> note_batch list \<Rightarrow> (note_error, unit) result \<times> session_frame list" where
  "send_notes_on N ch [] = (Inr (), [])"
| "send_notes_on N ch (b # bs) =
     (case batch_to_frame N ch b of
        Inl e \<Rightarrow> (Inl e, [])
      | Inr f \<Rightarrow> (case send_notes_on N ch bs of (r, fs) \<Rightarrow> (r, f # fs)))"

text \<open>A channel's frames handled in order, until one fails.\<close>

fun notes_serve :: "notes_env \<Rightarrow> 's app_port \<Rightarrow> fs_trust \<Rightarrow> device_id \<Rightarrow> int \<Rightarrow> session_frame list \<Rightarrow> 's
    \<Rightarrow> (session_error, unit) result \<times> note_batch list list \<times> 's" where
  "notes_serve N A T peer now [] s = (Inr (), [], s)"
| "notes_serve N A T peer now (f # fs) s =
     (case notes_handle N A T (Some peer) now f s of
        (Inl e, r, t) \<Rightarrow> (Inl e, r, t)
      | (Inr _, r, t) \<Rightarrow> (case notes_serve N A T peer now fs t of (x, r', t') \<Rightarrow> (x, r @ r', t')))"

section \<open>Splitting\<close>

definition batch_fits :: "note_rec list \<Rightarrow> bool" where
  "batch_fits ns = (length ns \<le> MAX_BATCH_NOTES \<and> (length ns \<le> 1 \<or> sum_list (map note_cost ns) \<le> MAX_BATCH_BYTES))"

lemma split_loop_notes: "concat (map nb_notes (split_loop r ns cur b)) = cur @ ns"
  by (induction r ns cur b rule: split_loop.induct) simp_all

lemma split_loop_nonempty [simp]: "split_loop r ns cur b \<noteq> []"
  by (induction r ns cur b rule: split_loop.induct) simp_all

lemma split_loop_flags:
  "list_all (\<lambda>x. nb_more x \<and> nb_reply x = r) (butlast (split_loop r ns cur b))
   \<and> \<not> nb_more (last (split_loop r ns cur b)) \<and> nb_reply (last (split_loop r ns cur b)) = r"
proof (induction r ns cur b rule: split_loop.induct)
  case (2 r n ns cur b)
  show ?case
  proof (cases "cur \<noteq> [] \<and> (length cur \<ge> MAX_BATCH_NOTES \<or> b + note_cost n > MAX_BATCH_BYTES)")
    case True
    then show ?thesis using 2(1) by simp
  next
    case False
    show ?thesis unfolding split_loop.simps if_not_P[OF False] by (rule 2(2)[OF False])
  qed
qed simp

lemma split_loop_fits:
  "batch_fits cur \<Longrightarrow> b = sum_list (map note_cost cur) \<Longrightarrow> list_all (\<lambda>x. batch_fits (nb_notes x)) (split_loop r ns cur b)"
proof (induction r ns cur b rule: split_loop.induct)
  case (2 r n ns cur b)
  show ?case
  proof (cases "cur \<noteq> [] \<and> (length cur \<ge> MAX_BATCH_NOTES \<or> b + note_cost n > MAX_BATCH_BYTES)")
    case True
    have "batch_fits [n]" by (simp add: batch_fits_def MAX_BATCH_NOTES_def)
    from 2(1)[OF True this] True 2(3) show ?thesis by simp
  next
    case False
    have "length cur = 0 \<or> length cur < MAX_BATCH_NOTES \<and> b + note_cost n \<le> MAX_BATCH_BYTES" using False by fastforce
    then have f: "batch_fits (cur @ [n])" unfolding 2(4) by (elim disjE) (simp_all add: batch_fits_def MAX_BATCH_NOTES_def)
    have "b + note_cost n = sum_list (map note_cost (cur @ [n]))" using 2(4) by simp
    from 2(2)[OF False f this] show ?thesis unfolding split_loop.simps if_not_P[OF False] .
  qed
qed simp

lemma batch_split_simps:
  "concat (map nb_notes (batch_split ns r)) = ns" "batch_split ns r \<noteq> []"
  "list_all (\<lambda>x. nb_more x \<and> nb_reply x = r) (butlast (batch_split ns r))"
  "\<not> nb_more (last (batch_split ns r))" "nb_reply (last (batch_split ns r)) = r"
  "list_all (\<lambda>x. batch_fits (nb_notes x)) (batch_split ns r)"
  using split_loop_flags[of r ns "[]" 0] split_loop_fits[of "[]" 0 r ns]
  by (simp_all add: batch_split_def split_loop_notes batch_fits_def)

lemma batch_split_member: "b \<in> set (batch_split ns r) \<Longrightarrow> set (nb_notes b) \<subseteq> set ns \<and> nb_reply b = r \<and> batch_fits (nb_notes b)"
proof -
  assume b: "b \<in> set (batch_split ns r)"
  have "set ns = (\<Union>x \<in> set (batch_split ns r). set (nb_notes x))"
    by (subst batch_split_simps(1)[where ns = ns and r = r, symmetric]) (simp only: set_concat set_map image_image)
  moreover have "b \<in> set (butlast (batch_split ns r)) \<or> b = last (batch_split ns r)"
    using b batch_split_simps(2)[where ns = ns and r = r] by (metis append_butlast_last_id in_set_conv_decomp_last rotate1.simps(2) set_ConsD set_rotate1)
  ultimately show ?thesis using b batch_split_simps(3,5,6)[where ns = ns and r = r] by (auto simp: list_all_iff)
qed

section \<open>Frames\<close>

definition notes_env_ok :: "notes_env \<Rightarrow> bool" where
  "notes_env_ok N = (codec_ok (ne_note N) \<and> codec_ok (ne_batch N))"

lemma notes_check_ok: "notes_check ns = Inr () \<longleftrightarrow> (\<forall>n \<in> set ns. note_check n = Inr ())"
  by (induction ns) (auto simp: rbind_def split: sum.splits)

lemma batch_arrives:
  assumes "notes_env_ok N" "batch_to_frame N ch b = Inr f" "batch_fits (nb_notes b)" "\<forall>n \<in> set (nb_notes b). note_check n = Inr ()"
  shows "batch_from_frame N f = Inr b \<and> sf_message_type f = MSG_NOTE_BATCH"
proof -
  obtain p where p: "cd_enc (ne_batch N) b = Inr p" "cd_dec (ne_batch N) p = Inr b"
    using assms(1) unfolding notes_env_ok_def codec_ok_def by blast
  moreover have "notes_check (nb_notes b) = Inr ()" using assms(4) by (simp only: notes_check_ok)
  ultimately show ?thesis using assms(2,3)
    by (auto simp: batch_to_frame_def batch_from_frame_def batch_fits_def rbind_def split: if_splits)
qed

lemma batches_arrive:
  assumes "notes_env_ok N" "send_notes_on N ch bs = (Inr (), fs)"
    "\<forall>b \<in> set bs. batch_fits (nb_notes b) \<and> (\<forall>n \<in> set (nb_notes b). note_check n = Inr ())"
  shows "map (batch_from_frame N) fs = map Inr bs \<and> (\<forall>f \<in> set fs. sf_message_type f = MSG_NOTE_BATCH)"
  using assms(2,3)
proof (induction bs arbitrary: fs)
  case (Cons b bs)
  then obtain f gs where f: "batch_to_frame N ch b = Inr f" "send_notes_on N ch bs = (Inr (), gs)" "fs = f # gs"
    by (auto split: sum.splits prod.splits)
  have "batch_from_frame N f = Inr b \<and> sf_message_type f = MSG_NOTE_BATCH" using batch_arrives[OF assms(1) f(1)] Cons.prems(2) by simp
  moreover have "map (batch_from_frame N) gs = map Inr bs \<and> (\<forall>f \<in> set gs. sf_message_type f = MSG_NOTE_BATCH)"
    using Cons.IH[OF f(2)] Cons.prems(2) by simp
  ultimately show ?case using f(3) by simp
qed simp

lemma split_arrives:
  assumes "notes_env_ok N" "\<forall>n \<in> set ns. note_check n = Inr ()" "send_notes_on N ch (batch_split ns r) = (Inr (), fs)"
  shows "map (batch_from_frame N) fs = map Inr (batch_split ns r) \<and> (\<forall>f \<in> set fs. sf_message_type f = MSG_NOTE_BATCH)"
  using batches_arrive[OF assms(1,3)] batch_split_member[of _ ns r] assms(2) by blast

text \<open>
  A set of notes travels whole. Its batches, in order, are the notes in order, tombstones too;
  there is at least one; all but the last say that more follow; each holds at most 256 notes and,
  when it holds more than one, at most 256 KiB by the sender's estimate. Once encoded, every one of
  them is accepted by the receiver as it was sent, if the notes keep the bounds notes are made with.
\<close>

lemma note_batches_arrive:
  assumes "notes_env_ok N" "\<forall>n \<in> set ns. note_check n = Inr ()" "send_notes_on N ch (batch_split ns r) = (Inr (), fs)"
  shows "map (batch_from_frame N) fs = map Inr (batch_split ns r) \<and> concat (map nb_notes (batch_split ns r)) = ns
    \<and> map nb_more (batch_split ns r) = replicate (length fs - 1) True @ [False]
    \<and> (\<forall>b \<in> set (batch_split ns r). nb_reply b = r \<and> batch_fits (nb_notes b))"
proof -
  have m: "map (batch_from_frame N) fs = map Inr (batch_split ns r)" using split_arrives[OF assms] by blast
  then have "length fs = length (batch_split ns r)" by (metis length_map)
  moreover have "map nb_more (butlast (batch_split ns r)) = replicate (length (batch_split ns r) - 1) True"
    using batch_split_simps(3)[where ns = ns and r = r] by (intro replicate_eqI) (auto simp: list_all_iff)
  moreover have "map nb_more (batch_split ns r) = map nb_more (butlast (batch_split ns r)) @ [nb_more (last (batch_split ns r))]"
    using batch_split_simps(2)[where ns = ns and r = r] by (metis append_butlast_last_id list.simps(8,9) map_append)
  ultimately show ?thesis using m batch_split_simps(1,4)[where ns = ns and r = r] batch_split_member[of _ ns r] by auto
qed

section \<open>What a device knows\<close>

definition note_view :: "notes_env \<Rightarrow> (string \<Rightarrow> string \<Rightarrow> bytes option) \<Rightarrow> string \<Rightarrow> note_rec option" where
  "note_view N a k = (case a NOTES_NS k of
     None \<Rightarrow> None | Some b \<Rightarrow> (case cd_dec (ne_note N) b of Inr n \<Rightarrow> Some n | Inl _ \<Rightarrow> None))"

text \<open>The later version of a note, and what a device knows after it took in a note or a whole set.\<close>

definition later :: "note_rec option \<Rightarrow> note_rec \<Rightarrow> note_rec" where
  "later v n = (case v of None \<Rightarrow> n | Some m \<Rightarrow> wins m n)"

definition absorb :: "note_rec \<Rightarrow> (string \<Rightarrow> note_rec option) \<Rightarrow> string \<Rightarrow> note_rec option" where
  "absorb n v = v(nt_id n := Some (later (v (nt_id n)) n))"

definition merge_view :: "(string \<Rightarrow> note_rec option) \<Rightarrow> (string \<Rightarrow> note_rec option) \<Rightarrow> string \<Rightarrow> note_rec option" where
  "merge_view v w k = (case w k of None \<Rightarrow> v k | Some n \<Rightarrow> Some (later (v k) n))"

text \<open>A row only moves forward: to a later edit, or at the same time away from a live one.\<close>

definition note_forward :: "note_rec \<Rightarrow> note_rec \<Rightarrow> bool" where
  "note_forward m n = (n = m \<or> nt_updated_at m < nt_updated_at n \<or> nt_updated_at m = nt_updated_at n \<and> \<not> nt_deleted m)"

lemma note_forward_trans: "note_forward a b \<Longrightarrow> note_forward b c \<Longrightarrow> note_forward a c"
  by (auto simp: note_forward_def)

lemma wins_forward: "note_forward m (wins m n)"
  by (auto simp: note_forward_def wins_def)

lemma wins_choice: "wins m n = m \<or> wins m n = n"
  by (simp add: wins_def)

lemma fold_absorb:
  "distinct (map nt_id ns) \<Longrightarrow> fold absorb ns v = merge_view v (map_of (map (\<lambda>n. (nt_id n, n)) ns))"
proof (induction ns arbitrary: v)
  case (Cons n ns)
  have "nt_id n \<notin> nt_id ` set ns" using Cons.prems by simp
  then have o: "map_of (map (\<lambda>n. (nt_id n, n)) ns) (nt_id n) = None" by (auto simp: map_of_eq_None_iff)
  have "fold absorb (n # ns) v = merge_view (absorb n v) (map_of (map (\<lambda>n. (nt_id n, n)) ns))"
    using Cons by simp
  also have "\<dots> = merge_view v (map_of (map (\<lambda>n. (nt_id n, n)) (n # ns)))"
    by (rule ext) (use o in \<open>auto simp: merge_view_def absorb_def split: option.splits\<close>)
  finally show ?case .
qed (simp add: merge_view_def fun_eq_iff)

definition blank_tombstone :: "note_rec \<Rightarrow> bool" where
  "blank_tombstone n = (nt_deleted n \<longrightarrow> nt_title n = [] \<and> nt_body n = [])"

text \<open>Every readable note sits under its own id, keeps the bounds, and a tombstone keeps no text.\<close>

definition notes_wf :: "notes_env \<Rightarrow> (string \<Rightarrow> string \<Rightarrow> bytes option) \<Rightarrow> bool" where
  "notes_wf N a = (\<forall>k n. note_view N a k = Some n \<longrightarrow> nt_id n = k \<and> note_check n = Inr () \<and> blank_tombstone n)"

lemma exchange_agrees:
  assumes "\<And>k n. v k = Some n \<Longrightarrow> nt_id n = k \<and> blank_tombstone n" "\<And>k n. w k = Some n \<Longrightarrow> nt_id n = k \<and> blank_tombstone n"
  shows "merge_view w (merge_view v w) = merge_view v w"
proof
  fix k
  have "wins n (wins m n) = wins m n" if "v k = Some m" "w k = Some n" for m n
  proof -
    have "nt_id m = nt_id n" "blank_tombstone m" "blank_tombstone n" using assms that by blast+
    then show ?thesis unfolding wins_def blank_tombstone_def
      by (cases "nt_updated_at m < nt_updated_at n"; cases "nt_updated_at n < nt_updated_at m") (auto intro: note_rec.equality)
  qed
  moreover have "wins n n = n" for n by (simp add: wins_def)
  ultimately show "merge_view w (merge_view v w) k = merge_view v w k"
    by (auto simp: merge_view_def later_def split: option.splits)
qed

lemma merge_view_wf:
  "(\<And>k n. v k = Some n \<Longrightarrow> Q k n) \<Longrightarrow> (\<And>k n. w k = Some n \<Longrightarrow> Q k n) \<Longrightarrow> merge_view v w k = Some n \<Longrightarrow> Q k n"
  using wins_choice[of "the (v k)" "the (w k)"] by (auto simp: merge_view_def later_def split: option.splits)

section \<open>The store's steps\<close>

lemma notes_ns_ok [simp]: "namespace_ok NOTES_NS"
  by (simp add: namespace_ok_def NOTES_NS_def slug_char_def is_ascii_alphanumeric_def)

definition note_set :: "string \<Rightarrow> bytes \<Rightarrow> (string \<Rightarrow> string \<Rightarrow> bytes option) \<Rightarrow> string \<Rightarrow> string \<Rightarrow> bytes option" where
  "note_set k b a = a(NOTES_NS := (a NOTES_NS)(k \<mapsto> b))"

lemma note_set_view: "cd_dec (ne_note N) b = Inr n \<Longrightarrow> note_view N (note_set k b a) = (note_view N a)(k \<mapsto> n)"
  by (auto simp: note_view_def note_set_def fun_eq_iff)

lemma note_set_other: "ns \<noteq> NOTES_NS \<Longrightarrow> note_set k b a ns = a ns"
  by (simp add: note_set_def)

context strict_store
begin

lemma note_get_view: "inv s \<Longrightarrow> note_get N A k s = Inr (note_view N (abs s) k)"
  using get_law[of s NOTES_NS k] by (auto simp: note_get_def note_view_def split: option.splits)

lemma note_put_spec:
  assumes "inv s" "str_ok (nt_id n)" "notes_env_ok N" "note_put N A n s = (r, t)"
  shows "inv t \<and> (\<forall>ns. ns \<noteq> NOTES_NS \<longrightarrow> abs t ns = abs s ns)
    \<and> note_view N (abs t) = (if r = Inr () then (note_view N (abs s))(nt_id n \<mapsto> n) else note_view N (abs s))"
proof -
  obtain b where b: "cd_enc (ne_note N) n = Inr b" "cd_dec (ne_note N) b = Inr n"
    using assms(3) unfolding notes_env_ok_def codec_ok_def by blast
  obtain x where x: "ap_put A NOTES_NS (nt_id n) b s = (x, t)" "r = Inr () \<longleftrightarrow> x = Inr ()"
    using assms(4) b by (auto simp: note_put_def split: prod.splits sum.splits)
  from put_law[OF assms(1,2) x(1)] show ?thesis
    unfolding x(2) note_set_def[symmetric] by (auto simp: note_set_view[OF b(2)] note_set_other)
qed

lemma note_merge_spec:
  assumes "inv s" "str_ok (nt_id n)" "notes_env_ok N" "note_merge N A n s = (r, t)"
  shows "inv t \<and> (\<forall>ns. ns \<noteq> NOTES_NS \<longrightarrow> abs t ns = abs s ns)
    \<and> note_view N (abs t) \<in> {note_view N (abs s), absorb n (note_view N (abs s))}
    \<and> ((\<exists>c. r = Inr c) \<longrightarrow> note_view N (abs t) = absorb n (note_view N (abs s)))"
proof -
  let ?v = "note_view N (abs s)"
  obtain x u where p: "note_put N A n s = (x, u)" by fastforce
  note w = note_put_spec[OF assms(1-3) p]
  note g = note_get_view[OF assms(1), of N "nt_id n"]
  show ?thesis
  proof (cases "\<exists>m. ?v (nt_id n) = Some m \<and> \<not> (wins m n = n \<and> m \<noteq> n)")
    case True
    then obtain m where m: "?v (nt_id n) = Some m" "\<not> (wins m n = n \<and> m \<noteq> n)" by blast
    then have "wins m n = m" using wins_choice[of m n] by auto
    with m(1) have "absorb n ?v = ?v" by (auto simp: absorb_def later_def)
    moreover have "t = s" using m g assms(4) by (auto simp: note_merge_def)
    ultimately show ?thesis using assms(1) by simp
  next
    case False
    then have a: "absorb n ?v = ?v(nt_id n \<mapsto> n)" by (auto simp: absorb_def later_def split: option.splits)
    have "t = u \<and> ((\<exists>c. r = Inr c) \<longrightarrow> x = Inr ())"
      using False g assms(4) p by (cases x) (auto simp: note_merge_def split: option.splits if_splits)
    with w a show ?thesis by (auto split: if_splits)
  qed
qed

text \<open>What a sequence of notes can do to the view: each row stays, moves forward, or is new.\<close>

lemma merge_loop_spec:
  assumes "inv s" "\<forall>n \<in> set ns. str_ok (nt_id n)" "notes_env_ok N" "merge_loop N A ns s = (r, t)"
  shows "inv t \<and> (\<forall>ns. ns \<noteq> NOTES_NS \<longrightarrow> abs t ns = abs s ns)
    \<and> (\<forall>k m. note_view N (abs s) k = Some m \<longrightarrow> (\<exists>m'. note_view N (abs t) k = Some m' \<and> note_forward m m'))
    \<and> (r = Inr () \<longrightarrow> note_view N (abs t) = fold absorb ns (note_view N (abs s)))"
  using assms(1,2,4)
proof (induction ns arbitrary: s)
  case (Cons n ns)
  obtain x u where u: "note_merge N A n s = (x, u)" by fastforce
  have n: "str_ok (nt_id n)" using Cons.prems(2) by simp
  note w = note_merge_spec[OF Cons.prems(1) n assms(3) u]
  have f: "\<exists>m'. note_view N (abs u) k = Some m' \<and> note_forward m m'" if "note_view N (abs s) k = Some m" for k m
  proof -
    have "note_forward m m" by (simp add: note_forward_def)
    with w that wins_forward[of m n] show ?thesis by (auto simp: absorb_def later_def)
  qed
  show ?case
  proof (cases x)
    case (Inl e)
    with Cons.prems(3) u have "t = u" "r \<noteq> Inr ()" by auto
    with w f show ?thesis by blast
  next
    case (Inr c)
    with Cons.prems(3) u have l: "merge_loop N A ns u = (r, t)" by simp
    have "\<forall>n \<in> set ns. str_ok (nt_id n)" using Cons.prems(2) by simp
    note i = Cons.IH[OF conjunct1[OF w] this l]
    have "\<exists>m'. note_view N (abs t) k = Some m' \<and> note_forward m m'" if "note_view N (abs s) k = Some m" for k m
      using f[OF that] i note_forward_trans by blast
    moreover have "note_view N (abs u) = absorb n (note_view N (abs s))" using w Inr by blast
    ultimately show ?thesis using i w by simp
  qed
qed (auto simp: note_forward_def)

text \<open>Local changes: a note is replaced or turned into a tombstone, and nothing else happens; a deleted note stays as it is.\<close>

lemma note_edit_spec:
  assumes "inv s" "str_ok i" "notes_env_ok N" "notes_wf N (abs s)" "note_edit N A now i title body s = (r, t)"
  shows "inv t \<and> notes_wf N (abs t) \<and> (\<forall>ns. ns \<noteq> NOTES_NS \<longrightarrow> abs t ns = abs s ns)
    \<and> (if r = Inr True then \<exists>m n. note_view N (abs s) i = Some m \<and> \<not> nt_deleted m \<and> note_at now i title body = Inr n
         \<and> note_view N (abs t) = (note_view N (abs s))(i \<mapsto> n)
       else note_view N (abs t) = note_view N (abs s))"
proof (cases "t = s \<and> r \<noteq> Inr True")
  case False
  then obtain m n x where m: "note_view N (abs s) i = Some m" "\<not> nt_deleted m" "note_at now i title body = Inr n"
      "note_put N A n s = (x, t)" "r = Inr True \<longleftrightarrow> x = Inr ()"
    using assms(5) note_get_view[OF assms(1), of N i] by (auto simp: note_edit_def split: option.splits if_splits sum.splits prod.splits)
  then have n: "nt_id n = i" "note_check n = Inr ()" "\<not> nt_deleted n" by (auto simp: note_at_def note_check_def split: if_splits)
  have "str_ok (nt_id n)" using n(1) assms(2) by simp
  note w = note_put_spec[OF assms(1) this assms(3) m(4)]
  have "notes_wf N (abs t)" using w assms(4) n by (auto simp: notes_wf_def blank_tombstone_def)
  with w m n(1) show ?thesis by auto
qed (use assms in simp)

lemma note_delete_spec:
  assumes "inv s" "str_ok i" "notes_env_ok N" "notes_wf N (abs s)" "note_delete N A now i s = (r, t)"
  shows "inv t \<and> notes_wf N (abs t) \<and> (\<forall>ns. ns \<noteq> NOTES_NS \<longrightarrow> abs t ns = abs s ns)
    \<and> (if r = Inr True then \<exists>m. note_view N (abs s) i = Some m \<and> \<not> nt_deleted m \<and> note_view N (abs t) = (note_view N (abs s))(i \<mapsto> note_tombstone now m)
       else note_view N (abs t) = note_view N (abs s))"
proof (cases "t = s \<and> r \<noteq> Inr True")
  case False
  then obtain m x where m: "note_view N (abs s) i = Some m" "\<not> nt_deleted m" "note_put N A (note_tombstone now m) s = (x, t)" "r = Inr True \<longleftrightarrow> x = Inr ()"
    using assms(5) note_get_view[OF assms(1), of N i] by (auto simp: note_delete_def split: option.splits if_splits sum.splits prod.splits)
  have "nt_id m = i" "note_check m = Inr ()" using assms(4) m(1) unfolding notes_wf_def by auto
  then have n: "nt_id (note_tombstone now m) = i" "note_check (note_tombstone now m) = Inr ()" "blank_tombstone (note_tombstone now m)"
    by (auto simp: note_tombstone_def note_check_def blank_tombstone_def split: if_splits)
  have "str_ok (nt_id (note_tombstone now m))" using n(1) assms(2) by simp
  note w = note_put_spec[OF assms(1) this assms(3) m(3)]
  have "notes_wf N (abs t)" using w assms(4) n by (auto simp: notes_wf_def)
  with w m n(1) show ?thesis by auto
qed (use assms in simp)

lemma note_all_spec:
  assumes "inv s" "notes_wf N (abs s)"
  shows "\<exists>ns. note_all N A s = Inr ns \<and> distinct (map nt_id ns) \<and> map_of (map (\<lambda>n. (nt_id n, n)) ns) = note_view N (abs s)
    \<and> (\<forall>n \<in> set ns. str_ok (nt_id n) \<and> note_check n = Inr ())"
proof -
  obtain rows where rows: "ap_list A NOTES_NS s = Inr rows" "distinct (map fst rows)" "map_of rows = abs s NOTES_NS"
    using list_law[OF assms(1) notes_ns_ok] by blast
  let ?d = "\<lambda>v. case cd_dec (ne_note N) v of Inr n \<Rightarrow> Some n | Inl _ \<Rightarrow> None"
  have k: "nt_id n = k \<and> note_check n = Inr () \<and> str_ok k" if "(k, b) \<in> set rows" "?d b = Some n" for k b n
  proof -
    have a: "abs s NOTES_NS k = Some b" using that(1) rows(2,3) by (metis map_of_eq_Some_iff)
    then have "note_view N (abs s) k = Some n" using that(2) by (simp add: note_view_def)
    then show ?thesis using assms(2) key_law[OF assms(1) a] unfolding notes_wf_def by blast
  qed
  have g: "distinct (map nt_id ns) \<and> map_of (map (\<lambda>n. (nt_id n, n)) ns) = (\<lambda>k. Option.bind (map_of rs k) ?d)
      \<and> nt_id ` set ns \<subseteq> fst ` set rs \<and> (\<forall>n \<in> set ns. str_ok (nt_id n) \<and> note_check n = Inr ())"
    if "ns = List.map_filter (\<lambda>(_, v). ?d v) rs" "set rs \<subseteq> set rows" "distinct (map fst rs)" for ns rs
    using that
  proof (induction rs arbitrary: ns)
    case (Cons r rs)
    obtain j b where r: "r = (j, b)" by fastforce
    let ?m = "List.map_filter (\<lambda>(_, v). ?d v) rs"
    have i: "distinct (map nt_id ?m) \<and> map_of (map (\<lambda>n. (nt_id n, n)) ?m) = (\<lambda>k. Option.bind (map_of rs k) ?d)
      \<and> nt_id ` set ?m \<subseteq> fst ` set rs \<and> (\<forall>n \<in> set ?m. str_ok (nt_id n) \<and> note_check n = Inr ())"
      using Cons.IH[OF refl] Cons.prems(2,3) by simp
    have j: "j \<notin> fst ` set rs" "map_of rs j = None" using Cons.prems(3) r by (simp_all add: map_of_eq_None_iff)
    show ?case
    proof (cases "?d b")
      case None
      then have "ns = ?m" using Cons.prems(1) r by simp
      with i j None r show ?thesis by (auto simp: fun_eq_iff)
    next
      case (Some n)
      then have n: "ns = n # ?m" using Cons.prems(1) r by simp
      have "nt_id n = j \<and> note_check n = Inr () \<and> str_ok j" using k[of j b n] Cons.prems(2) r Some by simp
      with n i j Some r show ?thesis by (auto simp: fun_eq_iff)
    qed
  qed simp
  have "(\<lambda>k. Option.bind (map_of rows k) ?d) = note_view N (abs s)"
    by (auto simp: rows(3) note_view_def fun_eq_iff split: option.splits)
  with g[OF refl order_refl rows(2)] rows(1) show ?thesis by (simp add: note_all_def)
qed

lemma handle_spec:
  assumes "inv s" "notes_env_ok N" "notes_handle N A T (Some p) now f s = (r, rs, t)"
    "\<forall>b. batch_from_frame N f = Inr b \<longrightarrow> (\<forall>n \<in> set (nb_notes b). str_ok (nt_id n))"
  shows "inv t \<and> (\<forall>ns. ns \<noteq> NOTES_NS \<longrightarrow> abs t ns = abs s ns)
    \<and> (\<forall>k m. note_view N (abs s) k = Some m \<longrightarrow> (\<exists>m'. note_view N (abs t) k = Some m' \<and> note_forward m m'))
    \<and> (\<not> may_sync_notes T p now \<longrightarrow> t = s \<and> rs = [])
    \<and> (rs = [] \<or> (\<exists>b mine. batch_from_frame N f = Inr b \<and> \<not> nb_more b \<and> \<not> nb_reply b
        \<and> note_all N A t = Inr mine \<and> rs = [batch_split mine True]))"
proof (cases "t = s \<and> rs = []")
  case True
  then show ?thesis using assms(1) by (auto simp: note_forward_def)
next
  case False
  then obtain b x where b: "batch_from_frame N f = Inr b" "merge_loop N A (nb_notes b) s = (x, t)" "may_sync_notes T p now"
    using assms(3) by (auto simp: notes_handle_def split: if_splits sum.splits prod.splits)
  have "\<forall>n \<in> set (nb_notes b). str_ok (nt_id n)" using assms(4) b(1) by blast
  note w = merge_loop_spec[OF assms(1) this assms(2) b(2)]
  have "rs = [] \<or> \<not> nb_more b \<and> \<not> nb_reply b \<and> (\<exists>mine. note_all N A t = Inr mine \<and> rs = [batch_split mine True])"
    using assms(3) b False by (auto simp: notes_handle_def split: if_splits sum.splits)
  with w b show ?thesis by blast
qed

end

text \<open>
  C38. Whatever a peer sends on the notes channel, it reaches the notes and nothing else in the
  store; no note disappears, and a note changes only to a later edit, or at the same time from a
  live note - so a deletion is undone by a later edit only. A peer without the permission changes
  nothing and is told nothing. An answer goes out only after the last batch of a set that is not
  itself an answer; it is a single one, marked as an answer, and holds all notes of the device.
\<close>

theorem notes_peer_authority:
  assumes "app_port_inv P io s" "notes_env_ok N" "notes_handle N (fs_app_port P io) T (Some p) now f s = (r, rs, t)"
    "\<forall>b. batch_from_frame N f = Inr b \<longrightarrow> (\<forall>n \<in> set (nb_notes b). str_ok (nt_id n))"
  shows "app_port_inv P io t \<and> (\<forall>ns. ns \<noteq> NOTES_NS \<longrightarrow> app_port_abs P t ns = app_port_abs P s ns)
    \<and> (\<forall>k m. note_view N (app_port_abs P s) k = Some m \<longrightarrow>
         (\<exists>m'. note_view N (app_port_abs P t) k = Some m' \<and> note_forward m m'))
    \<and> (\<not> may_sync_notes T p now \<longrightarrow> t = s \<and> rs = [])
    \<and> (rs = [] \<or> (\<exists>b mine. batch_from_frame N f = Inr b \<and> \<not> nb_more b \<and> \<not> nb_reply b
        \<and> note_all N (fs_app_port P io) t = Inr mine \<and> rs = [batch_split mine True]))"
  by (rule strict.handle_spec[OF assms])

section \<open>An exchange\<close>

context served_store
begin

lemma note_merge_served:
  assumes "inv s" "calm s" "str_ok (nt_id n)" "notes_env_ok N" "note_merge N A n s = (r, t)"
  shows "(\<exists>c. r = Inr c) \<and> calm t"
proof -
  obtain b where b: "cd_enc (ne_note N) n = Inr b" using assms(4) unfolding notes_env_ok_def codec_ok_def by blast
  obtain x u where u: "ap_put A NOTES_NS (nt_id n) b s = (x, u)" by fastforce
  have "x = Inr ()" "calm u" using put_served[OF assms(1,2) notes_ns_ok assms(3) u] by auto
  then show ?thesis using assms(2,5) b u note_get_view[OF assms(1), of N "nt_id n"]
    by (auto simp: note_merge_def note_put_def split: option.splits if_splits)
qed

lemma merge_loop_served:
  assumes "inv s" "calm s" "\<forall>n \<in> set ns. str_ok (nt_id n)" "notes_env_ok N"
  shows "\<exists>t. merge_loop N A ns s = (Inr (), t) \<and> calm t"
  using assms(1-3)
proof (induction ns arbitrary: s)
  case (Cons n ns)
  obtain x u where u: "note_merge N A n s = (x, u)" by fastforce
  have n: "str_ok (nt_id n)" using Cons.prems(3) by simp
  note w = note_merge_served[OF Cons.prems(1,2) n assms(4) u]
  have "inv u" using note_merge_spec[OF Cons.prems(1) n assms(4) u] by blast
  with Cons.IH[of u] w Cons.prems(3) u show ?case by auto
qed simp

text \<open>The frames of some batches, all but those in \<open>answered\<close> of a kind that is not answered.\<close>

lemma serve_batches:
  assumes "inv s" "calm s" "notes_env_ok N" "may_sync_notes T p now" "map (batch_from_frame N) fs = map Inr bs"
    "\<forall>f \<in> set fs. sf_message_type f = MSG_NOTE_BATCH" "\<forall>b \<in> set bs. \<forall>n \<in> set (nb_notes b). str_ok (nt_id n)"
    "\<forall>b \<in> set bs. nb_more b \<or> nb_reply b"
  shows "\<exists>t. notes_serve N A T p now fs s = (Inr (), [], t) \<and> inv t \<and> calm t
    \<and> note_view N (abs t) = fold absorb (concat (map nb_notes bs)) (note_view N (abs s))"
  using assms(1,2,5-8)
proof (induction fs arbitrary: s bs)
  case (Cons f fs)
  then obtain b cs where b: "bs = b # cs" "batch_from_frame N f = Inr b" "map (batch_from_frame N) fs = map Inr cs" by (cases bs) auto
  have n: "\<forall>n \<in> set (nb_notes b). str_ok (nt_id n)" using Cons.prems(5) b(1) by simp
  obtain u where u: "merge_loop N A (nb_notes b) s = (Inr (), u)" "calm u" using merge_loop_served[OF Cons.prems(1,2) n assms(3)] by blast
  note w = merge_loop_spec[OF Cons.prems(1) n assms(3) u(1)]
  have "notes_handle N A T (Some p) now f s = (Inr (), [], u)"
    using b u assms(4) Cons.prems(4,6) by (auto simp: notes_handle_def)
  moreover have "\<exists>t. notes_serve N A T p now fs u = (Inr (), [], t) \<and> inv t \<and> calm t
    \<and> note_view N (abs t) = fold absorb (concat (map nb_notes cs)) (note_view N (abs u))"
    using Cons.IH[OF conjunct1[OF w] u(2) b(3)] Cons.prems(4-6) b(1) by simp
  ultimately show ?case using w b(1) by auto
qed auto

lemma notes_serve_append:
  "notes_serve N A T p now fs s = (Inr (), r, t) \<Longrightarrow> notes_serve N A T p now gs t = (x, r', u) \<Longrightarrow>
     notes_serve N A T p now (fs @ gs) s = (x, r @ r', u)"
  by (induction fs arbitrary: s r) (auto split: prod.splits sum.splits)

lemma serve_split:
  assumes "inv s" "calm s" "notes_env_ok N" "may_sync_notes T p now" "\<forall>n \<in> set ns. str_ok (nt_id n) \<and> note_check n = Inr ()"
    "send_notes_on N ch (batch_split ns r) = (Inr (), fs)"
  shows "\<exists>rs t. notes_serve N A T p now fs s = (Inr (), rs, t) \<and> inv t \<and> calm t \<and> note_view N (abs t) = fold absorb ns (note_view N (abs s))
    \<and> (if r then rs = [] else \<exists>mine. note_all N A t = Inr mine \<and> rs = [batch_split mine True])"
proof -
  let ?bs = "batch_split ns r"
  have "\<forall>n \<in> set ns. note_check n = Inr ()" using assms(5) by blast
  note a = split_arrives[OF assms(3) this assms(6)]
  have id: "\<forall>b \<in> set ?bs. \<forall>n \<in> set (nb_notes b). str_ok (nt_id n)" using batch_split_member[of _ ns r] assms(5) by blast
  have c: "butlast ?bs @ [last ?bs] = ?bs" by (rule append_butlast_last_id) (rule batch_split_simps)
  have "map (batch_from_frame N) fs = map Inr (butlast ?bs @ [last ?bs])" unfolding c using a by blast
  then obtain gs f where g: "fs = gs @ [f]" "map (batch_from_frame N) gs = map Inr (butlast ?bs)" "batch_from_frame N f = Inr (last ?bs)"
    by (auto simp: map_eq_append_conv)
  have b: "\<forall>b \<in> set (butlast ?bs). nb_more b \<or> nb_reply b" using batch_split_simps(3)[where ns = ns and r = r] by (auto simp: list_all_iff)
  obtain u where u: "notes_serve N A T p now gs s = (Inr (), [], u)" "inv u" "calm u"
      "note_view N (abs u) = fold absorb (concat (map nb_notes (butlast ?bs))) (note_view N (abs s))"
  proof -
    have "\<forall>f \<in> set gs. sf_message_type f = MSG_NOTE_BATCH" using a g(1) by simp
    moreover have "\<forall>b \<in> set (butlast ?bs). \<forall>n \<in> set (nb_notes b). str_ok (nt_id n)"
      by (intro ballI) (rule bspec[OF bspec[OF id in_set_butlastD]])
    ultimately show thesis using serve_batches[OF assms(1-4) g(2) _ _ b] that by blast
  qed
  have l: "\<forall>n \<in> set (nb_notes (last ?bs)). str_ok (nt_id n)" using id last_in_set[OF batch_split_simps(2)] by blast
  obtain t where t: "merge_loop N A (nb_notes (last ?bs)) u = (Inr (), t)" "calm t" using merge_loop_served[OF u(2,3) l assms(3)] by blast
  note w = merge_loop_spec[OF u(2) l assms(3) t(1)]
  obtain mine where m: "note_all N A t = Inr mine" using list_law[OF conjunct1[OF w] notes_ns_ok] by (auto simp: note_all_def)
  have "sf_message_type f = MSG_NOTE_BATCH" using a g(1) by simp
  then have "notes_handle N A T (Some p) now f u = (Inr (), if r then [] else [batch_split mine True], t)"
    by (simp add: notes_handle_def g(3) t(1) assms(4) m batch_split_simps(4,5))
  then have "notes_serve N A T p now fs s = (Inr (), if r then [] else [batch_split mine True], t)"
    using notes_serve_append[OF u(1), of "[f]"] g(1) by simp
  moreover have "note_view N (abs t) = fold absorb (concat (map nb_notes (butlast ?bs @ [last ?bs]))) (note_view N (abs s))"
    using w by (simp add: u(4))
  then have "note_view N (abs t) = fold absorb ns (note_view N (abs s))" unfolding c batch_split_simps(1) .
  ultimately show ?thesis using w t(2) m by (cases r) auto
qed

end

lemma notes_wf_merge: "notes_wf N a \<Longrightarrow> notes_wf N b \<Longrightarrow> note_view N c = merge_view (note_view N a) (note_view N b) \<Longrightarrow> notes_wf N c"
  unfolding notes_wf_def by (intro allI impI) (rule merge_view_wf[of "note_view N a" _ "note_view N b"], blast, blast, simp)

text \<open>
  C37. One exchange makes two devices agree. When each grants the other the permission, the store
  takes its writes and the batches can be encoded: the second device takes in the first one's set
  without error, knows of every note the version that wins, and answers exactly once, with all it
  then knows; the first takes in that answer, answers nothing, and both know the same notes -
  deletions included, whatever each knew before, and whichever note ties with another.
\<close>

theorem notes_exchange_converges:
  assumes "app_port_inv P io s" "app_port_calm P io s" "app_port_inv P' io' t" "app_port_calm P' io' t" "notes_env_ok N"
    "notes_wf N (app_port_abs P s)" "notes_wf N (app_port_abs P' t)" "may_sync_notes T pb now" "may_sync_notes T' pa now'"
    "note_all N (fs_app_port P io) s = Inr mine" "send_notes_on N ch (batch_split mine False) = (Inr (), fs)"
    "notes_serve N (fs_app_port P' io') T' pa now' fs t = (r, rs, t')"
  shows "r = Inr () \<and> notes_wf N (app_port_abs P' t')
    \<and> note_view N (app_port_abs P' t') = merge_view (note_view N (app_port_abs P' t)) (note_view N (app_port_abs P s))
    \<and> (\<exists>theirs. note_all N (fs_app_port P' io') t' = Inr theirs \<and> rs = [batch_split theirs True]
      \<and> (\<forall>ch' gs. send_notes_on N ch' (batch_split theirs True) = (Inr (), gs) \<longrightarrow>
          (\<exists>s'. notes_serve N (fs_app_port P io) T pb now gs s = (Inr (), [], s')
            \<and> note_view N (app_port_abs P s') = note_view N (app_port_abs P' t'))))"
proof -
  obtain ns where ns: "mine = ns" "distinct (map nt_id ns)" "map_of (map (\<lambda>n. (nt_id n, n)) ns) = note_view N (app_port_abs P s)"
      "\<forall>n \<in> set ns. str_ok (nt_id n) \<and> note_check n = Inr ()"
    using strict.note_all_spec[OF assms(1,6)] assms(10) by auto
  obtain rs' u where u: "notes_serve N (fs_app_port P' io') T' pa now' fs t = (Inr (), rs', u)" "app_port_inv P' io' u"
      "note_view N (app_port_abs P' u) = merge_view (note_view N (app_port_abs P' t)) (note_view N (app_port_abs P s))"
      "\<exists>theirs. note_all N (fs_app_port P' io') u = Inr theirs \<and> rs' = [batch_split theirs True]"
    using served.serve_split[OF assms(3,4,5,9) ns(4) assms(11)[unfolded ns(1)]] fold_absorb[OF ns(2)] ns(3) by auto
  have e: "r = Inr ()" "rs = rs'" "t' = u" using u(1) assms(12) by auto
  have wf: "notes_wf N (app_port_abs P' u)" using notes_wf_merge[OF assms(7,6) u(3)] .
  obtain ts where ts: "note_all N (fs_app_port P' io') u = Inr ts" "distinct (map nt_id ts)"
      "map_of (map (\<lambda>n. (nt_id n, n)) ts) = note_view N (app_port_abs P' u)" "\<forall>n \<in> set ts. str_ok (nt_id n) \<and> note_check n = Inr ()"
    using strict.note_all_spec[OF u(2) wf] by blast
  have "\<exists>s'. notes_serve N (fs_app_port P io) T pb now gs s = (Inr (), [], s')
      \<and> note_view N (app_port_abs P s') = note_view N (app_port_abs P' u)"
    if sent: "send_notes_on N ch' (batch_split ts True) = (Inr (), gs)" for ch' gs
  proof -
    obtain s' where s': "notes_serve N (fs_app_port P io) T pb now gs s = (Inr (), [], s')"
        "note_view N (app_port_abs P s') = merge_view (note_view N (app_port_abs P s)) (note_view N (app_port_abs P' u))"
      using served.serve_split[OF assms(1,2,5,8) ts(4) sent] fold_absorb[OF ts(2)] ts(3) by auto
    then show ?thesis unfolding u(3)
      using exchange_agrees[of "note_view N (app_port_abs P' t)" "note_view N (app_port_abs P s)"] assms(6,7)
      unfolding notes_wf_def by auto
  qed
  with e u(3,4) wf ts(1) show ?thesis by auto
qed

section \<open>Witnesses\<close>

definition tc_note :: "note_rec token_codec" where
  "tc_note = tc_map (\<lambda>n. (nt_id n, nt_title n, nt_body n, nt_updated_at n, nt_deleted n))
     (\<lambda>(i, t, b, u, d). \<lparr>nt_id = i, nt_title = t, nt_body = b, nt_updated_at = u, nt_deleted = d\<rparr>)
     (tc_pair tc_str (tc_pair tc_str (tc_pair tc_str (tc_pair tc_str (tc_enum [False, True])))))"

definition tc_batch :: "note_batch token_codec" where
  "tc_batch = tc_map (\<lambda>b. (nb_notes b, nb_more b, nb_reply b)) (\<lambda>(n, m, r). \<lparr>nb_notes = n, nb_more = m, nb_reply = r\<rparr>)
     (tc_pair (tc_list tc_note) (tc_pair (tc_enum [False, True]) (tc_enum [False, True])))"

definition toy_notes :: notes_env where
  "toy_notes = \<lparr>ne_note = toy_codec tc_note, ne_batch = toy_codec tc_batch\<rparr>"

lemma tc_bool_ok: "tc_ok (tc_enum [False, True])"
  by (rule tc_enum_ok) auto

lemma toy_notes_ok: "notes_env_ok toy_notes"
proof -
  have "tc_ok tc_note" unfolding tc_note_def by (intro tc_map_ok) (simp_all add: tc_bool_ok)
  moreover from this have "tc_ok tc_batch" unfolding tc_batch_def by (intro tc_map_ok) (simp_all add: tc_bool_ok)
  ultimately show ?thesis by (simp add: notes_env_ok_def toy_notes_def toy_codec_ok)
qed

definition toy_note :: note_rec where
  "toy_note = \<lparr>nt_id = ''m'', nt_title = [], nt_body = ''hi'', nt_updated_at = ''t'', nt_deleted = False\<rparr>"

lemma toy_note_facts: "note_check toy_note = Inr ()" "blank_tombstone toy_note" "str_ok (nt_id toy_note)"
  by (simp_all add: note_check_def toy_note_def NOTE_MAX_ID_def NOTE_MAX_TITLE_def NOTE_MAX_BODY_def blank_tombstone_def str_bytes_def unat_of_char)

lemma toy_note_split: "batch_split [toy_note] r = [\<lparr>nb_notes = [toy_note], nb_more = False, nb_reply = r\<rparr>]"
  by (simp add: batch_split_def)

lemma toy_note_sent: "\<exists>fs. send_notes_on toy_notes 1 (batch_split [toy_note] r) = (Inr (), fs)"
proof -
  have "length (concat (map toy_put (fst tc_batch \<lparr>nb_notes = [toy_note], nb_more = False, nb_reply = r\<rparr>))) \<le> MAX_BATCH_BYTES"
    by (simp add: tc_batch_def tc_note_def tc_map_def tc_pair_def tc_list_def tc_str_def tc_enum_def toy_note_def toy_put_def str_bytes_def
        MAX_BATCH_BYTES_def)
  then show ?thesis by (simp add: toy_note_split batch_to_frame_def toy_notes_def)
qed

lemma note_batches_arrive_witness:
  "\<exists>fs. map (batch_from_frame toy_notes) fs = [Inr \<lparr>nb_notes = [toy_note], nb_more = False, nb_reply = True\<rparr>]"
proof -
  obtain fs where "send_notes_on toy_notes 1 (batch_split [toy_note] True) = (Inr (), fs)" using toy_note_sent by blast
  from note_batches_arrive[OF toy_notes_ok _ this] show ?thesis by (intro exI[of _ fs]) (simp add: toy_note_facts toy_note_split)
qed

theorem notes_peer_authority_witness:
  "\<exists>f b. batch_from_frame toy_notes f = Inr b \<and> nb_notes b = [toy_note] \<and> \<not> may_sync_notes toy_store ''peer'' 5
    \<and> (\<exists>r. notes_handle toy_notes toy_port toy_store (Some ''peer'') 5 f (toy_app, 0) = (r, [], (toy_app, 0)))"
proof -
  obtain f where f: "send_notes_on toy_notes 1 (batch_split [toy_note] False) = (Inr (), [f])"
    using toy_note_sent[of False] by (auto simp: toy_note_split split: sum.splits)
  then have b: "batch_from_frame toy_notes f = Inr \<lparr>nb_notes = [toy_note], nb_more = False, nb_reply = False\<rparr>"
    using split_arrives[OF toy_notes_ok _ f] by (simp add: toy_note_facts toy_note_split)
  have n: "\<not> may_sync_notes toy_store ''peer'' 5" by (simp add: may_sync_notes_def may_def toy_store_facts grants_on_approval)
  obtain r rs t where h: "notes_handle toy_notes toy_port toy_store (Some ''peer'') 5 f (toy_app, 0) = (r, rs, t)" by (metis prod.exhaust)
  from notes_peer_authority[OF toy_port_inv(1) toy_notes_ok h] b n h toy_note_facts(3) show ?thesis by fastforce
qed

definition toy_granted :: fs_trust where
  "toy_granted = \<lparr>ft_cache = [(''peer'', toy_record (perm_set granted_on_approval Notes True))], ft_disk = None\<rparr>"

lemma toy_granted_may: "may_sync_notes toy_granted ''peer'' 5"
  by (simp add: may_sync_notes_def may_def trust_lookup_def toy_granted_def)

lemma toy_single: "map_of (map (\<lambda>n. (nt_id n, n)) ns) = [k \<mapsto> n] \<Longrightarrow> distinct (map nt_id ns) \<Longrightarrow> ns = [n]"
proof (cases ns)
  case (Cons m ms)
  assume a: "map_of (map (\<lambda>n. (nt_id n, n)) ns) = [k \<mapsto> n]" "distinct (map nt_id ns)"
  have "map_of (map (\<lambda>n. (nt_id n, n)) ns) (nt_id m) = Some m" using Cons by simp
  then have "[k \<mapsto> n] (nt_id m) = Some m" unfolding a(1) .
  then have m: "m = n" "nt_id m = k" by (auto split: if_splits)
  moreover have "ms = []"
  proof (cases ms)
    case (Cons x xs)
    then have "map_of (map (\<lambda>n. (nt_id n, n)) ns) (nt_id x) = Some x" using a(2) \<open>ns = m # ms\<close> by auto
    then have "nt_id x = k" unfolding a(1) by (auto split: if_splits)
    then show ?thesis using a(2) m(2) Cons \<open>ns = m # ms\<close> by simp
  qed
  ultimately show ?thesis using Cons by simp
qed (auto simp: fun_eq_iff split: if_splits)

theorem notes_exchange_converges_witness:
  "\<exists>s fs t'. note_view toy_notes (app_port_abs toy_prims s) = [''m'' \<mapsto> toy_note]
    \<and> send_notes_on toy_notes 1 (batch_split [toy_note] False) = (Inr (), fs)
    \<and> notes_serve toy_notes toy_port toy_granted ''peer'' 5 fs (toy_app, 0) = (Inr (), [batch_split [toy_note] True], t')
    \<and> note_view toy_notes (app_port_abs toy_prims t') = [''m'' \<mapsto> toy_note]"
proof -
  let ?i = "app_port_inv toy_prims (\<lambda>_. toy_put_io)" and ?c = "app_port_calm toy_prims (\<lambda>_. toy_put_io)"
  let ?v = "\<lambda>s. note_view toy_notes (app_port_abs toy_prims s)"
  have e: "?v (toy_app, 0) = Map.empty" by (simp add: toy_port_inv(2) note_view_def fun_eq_iff)
  have wf: "notes_wf toy_notes (app_port_abs toy_prims (toy_app, 0))" using e by (simp add: notes_wf_def)
  have i: "nt_id toy_note = ''m''" by (simp add: toy_note_def)
  obtain x s where m: "note_merge toy_notes toy_port toy_note (toy_app, 0) = (x, s)" by (metis prod.exhaust)
  note w = served.note_merge_served[OF toy_port_inv(1) toy_port_calm toy_note_facts(3) toy_notes_ok m]
  have s: "?i s" "?c s" "?v s = [''m'' \<mapsto> toy_note]"
    using strict.note_merge_spec[OF toy_port_inv(1) toy_note_facts(3) toy_notes_ok m] w i by (auto simp: e absorb_def later_def)
  have ws: "notes_wf toy_notes (app_port_abs toy_prims s)" using s(3) i toy_note_facts by (simp add: notes_wf_def)
  have all: "note_all toy_notes toy_port u = Inr [toy_note]"
    if "?i u" "notes_wf toy_notes (app_port_abs toy_prims u)" "?v u = [''m'' \<mapsto> toy_note]" for u
    using strict.note_all_spec[OF that(1,2)] that(3) toy_single by fastforce
  obtain fs where fs: "send_notes_on toy_notes 1 (batch_split [toy_note] False) = (Inr (), fs)" using toy_note_sent by blast
  obtain r rs t' where t: "notes_serve toy_notes toy_port toy_granted ''peer'' 5 fs (toy_app, 0) = (r, rs, t')" by (metis prod.exhaust)
  note c = notes_exchange_converges[OF s(1,2) toy_port_inv(1) toy_port_calm toy_notes_ok ws wf toy_granted_may toy_granted_may all[OF s(1) ws s(3)] fs t]
  have v: "?v t' = [''m'' \<mapsto> toy_note]" using c by (auto simp: e s(3) merge_view_def later_def fun_eq_iff)
  obtain theirs where h: "note_all toy_notes toy_port t' = Inr theirs" "rs = [batch_split theirs True]" using c by blast
  obtain u where "notes_serve toy_notes toy_port toy_granted ''peer'' 5 fs (toy_app, 0) = (Inr (), rs, u)" "?i u"
    using served.serve_split[OF toy_port_inv(1) toy_port_calm toy_notes_ok toy_granted_may _ fs] toy_note_facts t by auto
  then have "?i t'" using t by simp
  then have "theirs = [toy_note]" using all[of t'] c v h(1) by simp
  then show ?thesis using s(3) fs t c v h(2) by blast
qed

end
