(* ===== verification/PB_Browse.thy ===== *)
theory PB_Browse
  imports PB_Chat_Codec PB_Storage
begin

text \<open>
  Browsing shared folders (\<open>peerbeam-browse\<close>: \<open>share.rs\<close>, \<open>message.rs\<close>, \<open>handler.rs\<close>): the shares a
  device offers, the name each is addressed by, the one function that turns a peer's path into a
  real one, and the handler that answers.

  The folder tree here has symbolic links, because the argument of \<open>share.rs\<close> rests on resolving
  them before anything is compared: \<open>canonicalize\<close> follows them the way the system does, up to the
  host's limit. Paths are those of a Unix host, the names below \<open>/\<close>; a root has no drive prefix.
  How a name that is not UTF-8 is displayed (\<open>to_string_lossy\<close>) and whether the metadata of an entry
  can be read are arguments.

  Shown here: every share is reachable under a name of its own; whatever a peer asks, it is shown
  share names, or entries of a folder that really lies inside a share, or the one refusal.
\<close>

section \<open>The tree\<close>

datatype bnode = BFile u64 | BDir "(string \<times> bnode) list" | BLink bool "string list" u64

text \<open>What is at a path, no link followed. A link is absolute or not, with its segments and its length.\<close>

fun node_at :: "bnode \<Rightarrow> string list \<Rightarrow> bnode option" where
  "node_at n [] = Some n"
| "node_at (BDir es) (x # p) = (case map_of es x of None \<Rightarrow> None | Some n \<Rightarrow> node_at n p)"
| "node_at _ (x # p) = None"

function path_walk :: "bnode \<Rightarrow> nat \<Rightarrow> string list \<Rightarrow> string list \<Rightarrow> string list option" where
  "path_walk t links at [] = Some at"
| "path_walk t links at (x # xs) =
     (if x = [] \<or> x = ''.'' then path_walk t links at xs
      else if x = ''..'' then path_walk t links (butlast at) xs
      else case node_at t (at @ [x]) of
        None \<Rightarrow> None
      | Some (BDir _) \<Rightarrow> path_walk t links (at @ [x]) xs
      | Some (BFile _) \<Rightarrow> if xs = [] then Some (at @ [x]) else None
      | Some (BLink absolute target _) \<Rightarrow>
          (case links of 0 \<Rightarrow> None | Suc l \<Rightarrow> path_walk t l (if absolute then [] else at) (target @ xs)))"
  by pat_completeness auto
termination
  by (relation "measures [\<lambda>(t, l, at, xs). l, \<lambda>(t, l, at, xs). length xs]") auto

definition canonicalize :: "bnode \<Rightarrow> nat \<Rightarrow> string list \<Rightarrow> string list option" where
  "canonicalize t links p = path_walk t links [] p"

section \<open>Shares\<close>

datatype share_error = NoShare | OutsideShare | MissingPath

record share =
  sh_name :: string
  sh_root :: "string list"

record shares =
  ss_shares :: "share list"
  ss_unresolved :: "string list list"

definition share_label :: "(string \<Rightarrow> string) \<Rightarrow> string list \<Rightarrow> string" where
  "share_label lossy root = (if root \<noteq> [] \<and> lossy (last root) \<noteq> [] then lossy (last root) else ''root'')"

definition share_free :: "share list \<Rightarrow> string \<Rightarrow> bool" where
  "share_free taken name = (\<not> list_ex (\<lambda>s. sh_name s = name) taken)"

definition share_candidate :: "string \<Rightarrow> nat \<Rightarrow> string" where
  "share_candidate base n = base @ '' ('' @ show_nat n @ '')''"

text \<open>The counter is a \<open>u32\<close>; past its end the base is used.\<close>

function share_search :: "string \<Rightarrow> share list \<Rightarrow> nat \<Rightarrow> string" where
  "share_search base taken n =
     (if n \<ge> 2 ^ 32 then base
      else if share_free taken (share_candidate base n) then share_candidate base n
      else share_search base taken (Suc n))"
  by pat_completeness auto
termination
  by (relation "measure (\<lambda>(b, t, n). 2 ^ 32 - n)") auto

declare share_search.simps [simp del]

definition share_unique_name :: "string \<Rightarrow> share list \<Rightarrow> string" where
  "share_unique_name base taken = (if share_free taken base then base else share_search base taken 2)"

fun shares_loop :: "(string \<Rightarrow> string) \<Rightarrow> bnode \<Rightarrow> nat \<Rightarrow> string list list \<Rightarrow> shares \<Rightarrow> shares" where
  "shares_loop lossy t links [] s = s"
| "shares_loop lossy t links (p # ps) s =
     (case canonicalize t links p of
        None \<Rightarrow> shares_loop lossy t links ps
          (if p \<in> set (ss_unresolved s) then s else s\<lparr>ss_unresolved := ss_unresolved s @ [p]\<rparr>)
      | Some root \<Rightarrow>
          if list_ex (\<lambda>x. sh_root x = root) (ss_shares s) then shares_loop lossy t links ps s
          else shares_loop lossy t links ps (s\<lparr>ss_shares := ss_shares s @
            [\<lparr>sh_name = share_unique_name (share_label lossy root) (ss_shares s), sh_root = root\<rparr>]\<rparr>))"

definition shares_new :: "(string \<Rightarrow> string) \<Rightarrow> bnode \<Rightarrow> nat \<Rightarrow> string list list \<Rightarrow> shares" where
  "shares_new lossy t links ps = shares_loop lossy t links ps \<lparr>ss_shares = [], ss_unresolved = []\<rparr>"

definition segments :: "string \<Rightarrow> string list" where
  "segments rel = filter (\<lambda>p. p \<noteq> []) (split_on (CHR ''/'') rel)"

definition resolve :: "bnode \<Rightarrow> nat \<Rightarrow> shares \<Rightarrow> string \<Rightarrow> (share_error, string list) result" where
  "resolve t links s rel =
     (case segments rel of
        [] \<Rightarrow> Inl NoShare
      | first # parts \<Rightarrow> (case find (\<lambda>x. sh_name x = first) (ss_shares s) of
          None \<Rightarrow> Inl NoShare
        | Some sh \<Rightarrow> (case canonicalize t links (sh_root sh @ parts) of
            None \<Rightarrow> Inl MissingPath
          | Some real \<Rightarrow> if take (length (sh_root sh)) real = sh_root sh then Inr real else Inl OutsideShare)))"

section \<open>Messages\<close>

definition MSG_LIST_REQUEST :: message_type where "MSG_LIST_REQUEST = 1"
definition MSG_LIST_RESPONSE :: message_type where "MSG_LIST_RESPONSE = 2"
definition BROWSE_MAX_PATH :: nat where "BROWSE_MAX_PATH = 4096"
definition MAX_ENTRIES :: nat where "MAX_ENTRIES = 500"

datatype browse_error = BeSerialization string | BeWrongType message_type | BePathTooLong nat

fun browse_error_show :: "browse_error \<Rightarrow> string" where
  "browse_error_show (BeSerialization e) = ''browse serialization: '' @ e"
| "browse_error_show (BeWrongType t) = ''unexpected browse message type '' @ show_nat (unat t)"
| "browse_error_show (BePathTooLong n) = ''path too long: '' @ show_nat n @ '' bytes (max '' @ show_nat BROWSE_MAX_PATH @ '')''"

record browse_entry =
  be_name :: string
  be_is_dir :: bool
  be_size :: u64

record list_response =
  lr_path :: string
  lr_entries :: "browse_entry list"
  lr_truncated :: bool
  lr_denied :: bool

text \<open>A request is its path.\<close>

record browse_env =
  bv_request :: "string codec"
  bv_response :: "list_response codec"

definition response_denied :: "string \<Rightarrow> list_response" where
  "response_denied path = \<lparr>lr_path = path, lr_entries = [], lr_truncated = False, lr_denied = True\<rparr>"

definition browse_frame :: "channel_id \<Rightarrow> message_type \<Rightarrow> (string, bytes) result \<Rightarrow> (browse_error, session_frame) result" where
  "browse_frame ch ty enc = (case enc of
     Inl e \<Rightarrow> Inl (BeSerialization e)
   | Inr payload \<Rightarrow> Inr \<lparr>sf_channel = ch, sf_message_type = ty, sf_flags = additive_flags, sf_payload = payload\<rparr>)"

definition request_to_frame :: "browse_env \<Rightarrow> channel_id \<Rightarrow> string \<Rightarrow> (browse_error, session_frame) result" where
  "request_to_frame B ch path = browse_frame ch MSG_LIST_REQUEST (cd_enc (bv_request B) path)"

definition request_from_frame :: "browse_env \<Rightarrow> session_frame \<Rightarrow> (browse_error, string) result" where
  "request_from_frame B f =
     (if sf_message_type f \<noteq> MSG_LIST_REQUEST then Inl (BeWrongType (sf_message_type f))
      else case cd_dec (bv_request B) (sf_payload f) of
        Inl e \<Rightarrow> Inl (BeSerialization e)
      | Inr path \<Rightarrow> if length path > BROWSE_MAX_PATH then Inl (BePathTooLong (length path)) else Inr path)"

definition response_to_frame :: "browse_env \<Rightarrow> channel_id \<Rightarrow> list_response \<Rightarrow> (browse_error, session_frame) result" where
  "response_to_frame B ch r = browse_frame ch MSG_LIST_RESPONSE (cd_enc (bv_response B) r)"

definition response_from_frame :: "browse_env \<Rightarrow> session_frame \<Rightarrow> (browse_error, list_response) result" where
  "response_from_frame B f =
     (if sf_message_type f \<noteq> MSG_LIST_RESPONSE then Inl (BeWrongType (sf_message_type f))
      else case cd_dec (bv_response B) (sf_payload f) of
        Inl e \<Rightarrow> Inl (BeSerialization e)
      | Inr r \<Rightarrow> Inr (if length (lr_entries r) > MAX_ENTRIES
          then r\<lparr>lr_entries := take MAX_ENTRIES (lr_entries r), lr_truncated := True\<rparr> else r))"

section \<open>The handler\<close>

text \<open>\<open>DirEntry::metadata\<close> does not follow a link: a link is not a directory and has its own length.\<close>

definition entry_of :: "(string \<Rightarrow> string) \<Rightarrow> string \<times> bnode \<Rightarrow> browse_entry" where
  "entry_of lossy e = \<lparr>be_name = lossy (fst e), be_is_dir = (case snd e of BDir _ \<Rightarrow> True | _ \<Rightarrow> False),
     be_size = (case snd e of BDir _ \<Rightarrow> 0 | BFile n \<Rightarrow> n | BLink _ _ n \<Rightarrow> n)\<rparr>"

fun entries_loop :: "(string \<Rightarrow> string) \<Rightarrow> (string \<Rightarrow> bool) \<Rightarrow> (string \<times> bnode) list \<Rightarrow> browse_entry list \<Rightarrow> browse_entry list \<times> bool" where
  "entries_loop lossy readable [] out = (out, False)"
| "entries_loop lossy readable (e # es) out =
     (if length out \<ge> MAX_ENTRIES then (out, True)
      else entries_loop lossy readable es (if readable (fst e) then out @ [entry_of lossy e] else out))"

definition browse_list :: "(string \<Rightarrow> string) \<Rightarrow> (string \<Rightarrow> bool) \<Rightarrow> bnode \<Rightarrow> nat \<Rightarrow> shares \<Rightarrow> string \<Rightarrow> list_response" where
  "browse_list lossy readable t links s path =
     (if segments path = [] then
        \<lparr>lr_path = path, lr_entries = map (\<lambda>x. \<lparr>be_name = sh_name x, be_is_dir = True, be_size = 0\<rparr>) (ss_shares s),
         lr_truncated = False, lr_denied = False\<rparr>
      else case resolve t links s path of
        Inl _ \<Rightarrow> response_denied path
      | Inr real \<Rightarrow> (case node_at t real of
          Some (BDir es) \<Rightarrow> (case entries_loop lossy readable es [] of (entries, truncated) \<Rightarrow>
            \<lparr>lr_path = path, lr_entries = sort_key (\<lambda>e. (\<not> be_is_dir e, be_name e)) entries, lr_truncated = truncated, lr_denied = False\<rparr>)
        | _ \<Rightarrow> response_denied path))"

text \<open>What the two sinks are called with: answers to the peer, and answers to a request of ours.\<close>

datatype browse_out = Answer list_response | Incoming list_response

definition browse_handle :: "browse_env \<Rightarrow> (string \<Rightarrow> string) \<Rightarrow> (string \<Rightarrow> bool) \<Rightarrow> bnode \<Rightarrow> nat \<Rightarrow> shares \<Rightarrow> fs_trust
    \<Rightarrow> device_id option \<Rightarrow> int \<Rightarrow> session_frame \<Rightarrow> (session_error, unit) result \<times> browse_out list" where
  "browse_handle B lossy readable t links s T bound now f =
     (case bound of
        None \<Rightarrow> (Inl (FrameDecode ''browse peer not bound''), [])
      | Some peer \<Rightarrow>
          if sf_message_type f = MSG_LIST_RESPONSE then
            (if \<not> is_approved T peer now then (Inr (), [])
             else case response_from_frame B f of Inr r \<Rightarrow> (Inr (), [Incoming r]) | Inl _ \<Rightarrow> (Inr (), []))
          else if sf_message_type f \<noteq> MSG_LIST_REQUEST then (Inr (), [])
          else case request_from_frame B f of
            Inl e \<Rightarrow> (Inl (FrameDecode (browse_error_show e)), [])
          | Inr path \<Rightarrow>
              if \<not> may T peer Browse now then (Inr (), [Answer (response_denied path)])
              else (Inr (), [Answer (browse_list lossy readable t links s path)]))"

section \<open>Canonical paths\<close>

definition proper :: "string \<Rightarrow> bool" where
  "proper x = (x \<noteq> [] \<and> x \<noteq> ''.'' \<and> x \<noteq> ''..'')"

definition is_link :: "bnode \<Rightarrow> bool" where
  "is_link n = (case n of BLink _ _ _ \<Rightarrow> True | _ \<Rightarrow> False)"

text \<open>A path every step of which is a directory and which does not end in a link: it is where it says.\<close>

definition canonical :: "bnode \<Rightarrow> string list \<Rightarrow> bool" where
  "canonical t p = ((\<forall>x \<in> set p. proper x) \<and> (\<exists>n. node_at t p = Some n \<and> \<not> is_link n))"

lemma node_at_append: "node_at t (p @ q) = (case node_at t p of None \<Rightarrow> None | Some n \<Rightarrow> node_at n q)"
  by (induction t p rule: node_at.induct) (auto split: option.splits)

lemma node_at_Cons_dir: "node_at n (x # p) = Some m \<Longrightarrow> \<exists>es. n = BDir es"
  by (cases n) auto

lemma dir_butlast:
  assumes "node_at t p = Some (BDir es)"
  shows "\<exists>ds. node_at t (butlast p) = Some (BDir ds)"
proof (cases "p = []")
  case False
  then have "node_at t (butlast p @ [last p]) = Some (BDir es)" using assms by simp
  then show ?thesis by (auto simp: node_at_append split: option.splits dest: node_at_Cons_dir)
qed (use assms in auto)

lemma path_walk_canonical:
  "path_walk t l at xs = Some p \<Longrightarrow> \<forall>x \<in> set at. proper x \<Longrightarrow> node_at t at = Some (BDir es) \<Longrightarrow> canonical t p"
proof (induction t l at xs arbitrary: es rule: path_walk.induct)
  case (2 t l at x xs)
  consider "x = [] \<or> x = ''.''" | "x = ''..''" | "proper x" unfolding proper_def by blast
  then show ?case
  proof cases
    case 1
    then show ?thesis using 2 by auto
  next
    case 2
    have "\<forall>x \<in> set (butlast at). proper x" using "2.prems"(2) in_set_butlastD by fast
    moreover obtain ds where "node_at t (butlast at) = Some (BDir ds)" using dir_butlast[OF "2.prems"(3)] by blast
    ultimately show ?thesis using "2.IH"(2) "2.prems"(1) 2 by simp
  next
    case 3
    then have x: "\<not> (x = [] \<or> x = ''.'')" "x \<noteq> ''..''" by (auto simp: proper_def)
    have pr: "\<forall>x \<in> set (at @ [x]). proper x" using 3 "2.prems"(2) by simp
    show ?thesis
    proof (cases "node_at t (at @ [x])")
      case None
      then show ?thesis using "2.prems"(1) x by simp
    next
      case (Some n)
      show ?thesis
      proof (cases n)
        case (BFile k)
        then have "p = at @ [x]" using Some "2.prems"(1) x by (auto split: if_splits)
        then show ?thesis using Some BFile pr by (auto simp: canonical_def is_link_def)
      next
        case (BDir ds)
        then show ?thesis using Some "2.prems"(1) x "2.IH"(3)[OF x Some BDir _ pr] by simp
      next
        case (BLink ab tg k)
        then obtain m where m: "l = Suc m" "path_walk t m (if ab then [] else at) (tg @ xs) = Some p"
          using Some "2.prems"(1) x by (auto split: nat.splits)
        have "\<exists>ds. node_at t (if ab then [] else at) = Some (BDir ds)"
          using "2.prems"(3) by (cases at) (auto dest: node_at_Cons_dir)
        then show ?thesis using "2.IH"(4)[OF x Some BLink m(1) m(2)] "2.prems"(2) by auto
      qed
    qed
  qed
qed (auto simp: canonical_def is_link_def)

lemma path_walk_id:
  "\<forall>x \<in> set xs. proper x \<Longrightarrow> node_at t (at @ xs) = Some n \<Longrightarrow> \<not> is_link n \<Longrightarrow> path_walk t l at xs = Some (at @ xs)"
proof (induction xs arbitrary: at)
  case (Cons x xs)
  have x: "proper x" using Cons.prems(1) by simp
  obtain m where m: "node_at t (at @ [x]) = Some m" "node_at m xs = Some n"
    using Cons.prems(2) node_at_append[of t "at @ [x]" xs] by (auto split: option.splits)
  show ?case
  proof (cases "xs = []")
    case True
    with m have "m = n" by simp
    with m(1) x True Cons.prems(3) show ?thesis by (auto simp: proper_def is_link_def split: bnode.splits)
  next
    case False
    then obtain es where "m = BDir es" using m(2) by (cases xs) (auto dest: node_at_Cons_dir)
    with m(1) x Cons.IH[of "at @ [x]"] Cons.prems show ?thesis by (auto simp: proper_def)
  qed
qed simp

lemma canonicalize_canonical: "canonicalize (BDir es) l p = Some q \<Longrightarrow> canonical (BDir es) q"
  unfolding canonicalize_def by (erule path_walk_canonical) auto

lemma canonicalize_id: "canonical t p \<Longrightarrow> canonicalize t l p = Some p"
  using path_walk_id[of p t "[]"] by (auto simp: canonicalize_def canonical_def)

section \<open>Every share is reachable\<close>

text \<open>\<open>to_string_lossy\<close> replaces what is not UTF-8 by a replacement character and keeps everything else.\<close>

definition lossy_ok :: "(string \<Rightarrow> string) \<Rightarrow> bool" where
  "lossy_ok lossy = (\<forall>s. (CHR ''/'' \<notin> set s \<longrightarrow> CHR ''/'' \<notin> set (lossy s)))"

text \<open>No name in a folder holds the separator.\<close>

definition names_ok :: "bnode \<Rightarrow> bool" where
  "names_ok t = (\<forall>p n x. node_at t p = Some n \<longrightarrow> x \<in> set p \<longrightarrow> CHR ''/'' \<notin> set x)"

lemma share_candidate_inject: "share_candidate b m = share_candidate b n \<Longrightarrow> m = n"
  by (auto simp: share_candidate_def dest: show_nat_inject)

lemma share_free_iff: "share_free taken x \<longleftrightarrow> x \<notin> sh_name ` set taken"
  by (auto simp: share_free_def list_ex_iff)

lemma share_search_cases: "share_search b taken n = b \<or> (\<exists>m. share_search b taken n = share_candidate b m)"
proof (induction b taken n rule: share_search.induct)
  case (1 b taken n)
  then show ?case by (subst (1 2) share_search.simps) auto
qed

lemma share_search_free:
  assumes "n \<le> m" "m < 2 ^ 32" "share_free taken (share_candidate b m)"
  shows "share_free taken (share_search b taken n)"
  using assms
proof (induction b taken n rule: share_search.induct)
  case (1 b taken n)
  show ?case
  proof (cases "share_free taken (share_candidate b n)")
    case False
    then have "n \<noteq> m" using 1(4) by auto
    then have "share_free taken (share_search b taken (Suc n))" using 1 False by simp
    then show ?thesis using False 1(2,3) by (subst share_search.simps) simp
  qed (use 1 in \<open>subst share_search.simps, simp\<close>)
qed

text \<open>Among more candidates than shares one is free.\<close>

lemma share_unique_free:
  assumes "length taken < 2 ^ 32 - 2"
  shows "share_free taken (share_unique_name b taken)"
proof (cases "share_free taken b")
  case False
  let ?C = "share_candidate b ` {2..<2 ^ 32 :: nat}"
  have "card ?C = 2 ^ 32 - 2" by (subst card_image) (auto intro: inj_onI dest: share_candidate_inject)
  moreover have "card (sh_name ` set taken) \<le> length taken" by (metis card_image_le card_length finite_set le_trans)
  ultimately have "\<not> ?C \<subseteq> sh_name ` set taken" using assms by (metis card_mono finite_imageI finite_set leD le_trans)
  then obtain m where m: "m \<in> {2..<2 ^ 32}" "share_candidate b m \<notin> sh_name ` set taken" by blast
  have "share_free taken (share_search b taken 2)" by (rule share_search_free[of 2 m]) (use m in \<open>simp_all add: share_free_iff\<close>)
  then show ?thesis using False by (simp add: share_unique_name_def)
qed (simp add: share_unique_name_def)

lemma show_nat_plain: "CHR ''/'' \<notin> set (show_nat n)"
proof (induction n rule: show_nat.induct)
  case (1 n)
  have d: "CHR ''/'' \<noteq> char_of (48 + k)" if "k < 10" for k :: nat
  proof
    assume e: "CHR ''/'' = char_of (48 + k)"
    have "of_char (char_of (48 + k) :: char) = (47 :: nat)" by (simp flip: e)
    then show False using that by simp
  qed
  show ?case using 1 d[of n] d[of "n mod 10"] by (subst show_nat.simps) simp
qed

text \<open>A share can be named by a peer: its name is one segment, its own, and its folder is where it says.\<close>

definition share_ok :: "bnode \<Rightarrow> share \<Rightarrow> bool" where
  "share_ok t x = (sh_name x \<noteq> [] \<and> CHR ''/'' \<notin> set (sh_name x) \<and> canonical t (sh_root x))"

definition shares_ok :: "bnode \<Rightarrow> shares \<Rightarrow> bool" where
  "shares_ok t s = (distinct (map sh_name (ss_shares s)) \<and> distinct (map sh_root (ss_shares s)) \<and> list_all (share_ok t) (ss_shares s))"

lemma label_plain:
  assumes "lossy_ok lossy" "names_ok t" "canonical t root"
  shows "share_label lossy root \<noteq> [] \<and> CHR ''/'' \<notin> set (share_label lossy root)"
proof -
  have "CHR ''/'' \<notin> set (lossy (last root))" if "root \<noteq> []"
    using assms that last_in_set[OF that] unfolding lossy_ok_def names_ok_def canonical_def by blast
  then show ?thesis by (simp add: share_label_def)
qed

lemma unique_plain:
  "b \<noteq> [] \<and> CHR ''/'' \<notin> set b \<Longrightarrow> share_unique_name b taken \<noteq> [] \<and> CHR ''/'' \<notin> set (share_unique_name b taken)"
  using share_search_cases[of b taken 2] show_nat_plain by (auto simp: share_unique_name_def share_candidate_def)

lemma shares_loop_ok:
  assumes "lossy_ok lossy" "names_ok (BDir es)" "shares_ok (BDir es) s" "length (ss_shares s) + length ps < 2 ^ 32 - 2"
  shows "shares_ok (BDir es) (shares_loop lossy (BDir es) links ps s)
    \<and> sh_root ` set (ss_shares (shares_loop lossy (BDir es) links ps s))
        = sh_root ` set (ss_shares s) \<union> {root. \<exists>p \<in> set ps. canonicalize (BDir es) links p = Some root}"
  using assms(3,4)
proof (induction ps arbitrary: s)
  case (Cons p ps)
  show ?case
  proof (cases "canonicalize (BDir es) links p")
    case None
    have "shares_ok (BDir es) (if p \<in> set (ss_unresolved s) then s else s\<lparr>ss_unresolved := ss_unresolved s @ [p]\<rparr>)"
      using Cons.prems(1) by (simp add: shares_ok_def)
    from Cons.IH[OF this] Cons.prems(2) None show ?thesis by simp
  next
    case (Some root)
    show ?thesis
    proof (cases "root \<in> sh_root ` set (ss_shares s)")
      case True
      then have "list_ex (\<lambda>x. sh_root x = root) (ss_shares s)" by (auto simp: list_ex_iff)
      with Cons.IH[OF Cons.prems(1)] Cons.prems(2) Some True show ?thesis by auto
    next
      case False
      let ?n = "share_unique_name (share_label lossy root) (ss_shares s)"
      let ?s = "s\<lparr>ss_shares := ss_shares s @ [\<lparr>sh_name = ?n, sh_root = root\<rparr>]\<rparr>"
      have c: "canonical (BDir es) root" using canonicalize_canonical[OF Some] .
      have "?n \<notin> sh_name ` set (ss_shares s)"
        using share_unique_free[of "ss_shares s" "share_label lossy root"] Cons.prems(2) by (simp add: share_free_iff)
      then have k: "shares_ok (BDir es) ?s"
        using Cons.prems(1) False c unique_plain[OF label_plain[OF assms(1,2) c], of "ss_shares s"]
        by (auto simp: shares_ok_def share_ok_def)
      have "\<not> list_ex (\<lambda>x. sh_root x = root) (ss_shares s)" using False by (auto simp: list_ex_iff)
      with Cons.IH[OF k] Cons.prems(2) Some show ?thesis by auto
    qed
  qed
qed simp

lemma find_share: "distinct (map sh_name xs) \<Longrightarrow> x \<in> set xs \<Longrightarrow> find (\<lambda>y. sh_name y = sh_name x) xs = Some x"
  by (induction xs) auto

lemma resolve_share:
  assumes "shares_ok t s" "x \<in> set (ss_shares s)"
  shows "resolve t links s (sh_name x) = Inr (sh_root x)"
proof -
  have x: "share_ok t x" "find (\<lambda>y. sh_name y = sh_name x) (ss_shares s) = Some x"
    using assms find_share by (auto simp: shares_ok_def list_all_iff)
  then have "segments (sh_name x) = [sh_name x]" by (simp add: segments_def share_ok_def split_on_one)
  with x show ?thesis by (simp add: resolve_def share_ok_def canonicalize_id)
qed

text \<open>
  C40. Every folder the user shares can be reached, and under one name. The names of the shares are
  different, not empty and one segment each, whatever folders are configured and whatever they are
  called; the shares are exactly the configured folders that exist, each once, with links resolved;
  and a peer that asks for a share's name is led to that share's folder and no other.
\<close>

theorem every_share_is_addressable:
  assumes "lossy_ok lossy" "names_ok (BDir es)" "length ps < 2 ^ 32 - 2" "s = shares_new lossy (BDir es) links ps"
  shows "distinct (map sh_name (ss_shares s)) \<and> distinct (map sh_root (ss_shares s))
    \<and> sh_root ` set (ss_shares s) = {root. \<exists>p \<in> set ps. canonicalize (BDir es) links p = Some root}
    \<and> (\<forall>x \<in> set (ss_shares s). sh_name x \<noteq> [] \<and> segments (sh_name x) = [sh_name x] \<and> canonical (BDir es) (sh_root x)
        \<and> (\<forall>links'. resolve (BDir es) links' s (sh_name x) = Inr (sh_root x)))"
proof -
  have "shares_ok (BDir es) \<lparr>ss_shares = [], ss_unresolved = []\<rparr>" by (simp add: shares_ok_def)
  from shares_loop_ok[OF assms(1,2) this, of ps links] assms(3,4)
  have k: "shares_ok (BDir es) s" "sh_root ` set (ss_shares s) = {root. \<exists>p \<in> set ps. canonicalize (BDir es) links p = Some root}"
    by (simp_all add: shares_new_def)
  then have "segments (sh_name x) = [sh_name x] \<and> sh_name x \<noteq> [] \<and> canonical (BDir es) (sh_root x)" if "x \<in> set (ss_shares s)" for x
    using that by (auto simp: shares_ok_def list_all_iff share_ok_def segments_def split_on_one)
  with k resolve_share[OF k(1)] show ?thesis by (auto simp: shares_ok_def)
qed

section \<open>What a peer is shown\<close>

lemma resolve_inside:
  assumes "resolve (BDir es) links s rel = Inr real"
  shows "canonical (BDir es) real \<and> (\<exists>x \<in> set (ss_shares s). \<exists>q. real = sh_root x @ q)"
proof -
  obtain first parts x where x: "segments rel = first # parts" "find (\<lambda>x. sh_name x = first) (ss_shares s) = Some x"
      "canonicalize (BDir es) links (sh_root x @ parts) = Some real" "take (length (sh_root x)) real = sh_root x"
    using assms by (auto simp: resolve_def split: list.splits option.splits if_splits)
  have "x \<in> set (ss_shares s)" using x(2) by (auto simp: find_Some_iff)
  moreover have "real = sh_root x @ drop (length (sh_root x)) real" using x(4) by (metis append_take_drop_id)
  ultimately show ?thesis using canonicalize_canonical[OF x(3)] by blast
qed

lemma entries_loop_spec:
  "entries_loop lossy readable es out = (xs, tr) \<Longrightarrow> length out \<le> MAX_ENTRIES \<Longrightarrow>
     length xs \<le> MAX_ENTRIES \<and> set xs \<subseteq> set out \<union> entry_of lossy ` {e \<in> set es. readable (fst e)}
     \<and> (\<not> tr \<longrightarrow> set xs = set out \<union> entry_of lossy ` {e \<in> set es. readable (fst e)})"
proof (induction es arbitrary: out)
  case (Cons e es)
  show ?case
  proof (cases "length out \<ge> MAX_ENTRIES")
    case False
    let ?o = "if readable (fst e) then out @ [entry_of lossy e] else out"
    have "entries_loop lossy readable es ?o = (xs, tr)" "length ?o \<le> MAX_ENTRIES" using Cons.prems False by simp_all
    note i = Cons.IH[OF this]
    have "{d \<in> set (e # es). readable (fst d)} = (if readable (fst e) then {e} else {}) \<union> {d \<in> set es. readable (fst d)}" by auto
    with i show ?thesis by (auto simp: image_Un)
  qed (use Cons.prems in auto)
qed simp

text \<open>The folder an answer describes, if it describes one.\<close>

definition shows_folder :: "(string \<Rightarrow> string) \<Rightarrow> (string \<Rightarrow> bool) \<Rightarrow> bnode \<Rightarrow> shares \<Rightarrow> list_response \<Rightarrow> bool" where
  "shows_folder lossy readable t s r = (\<exists>x \<in> set (ss_shares s). \<exists>q es. canonical t (sh_root x @ q) \<and> node_at t (sh_root x @ q) = Some (BDir es)
     \<and> length (lr_entries r) \<le> MAX_ENTRIES \<and> set (lr_entries r) \<subseteq> entry_of lossy ` {e \<in> set es. readable (fst e)}
     \<and> (\<not> lr_truncated r \<longrightarrow> set (lr_entries r) = entry_of lossy ` {e \<in> set es. readable (fst e)}))"

lemma browse_list_cases:
  assumes "segments path \<noteq> []" "r = browse_list lossy readable (BDir es) links s path"
  shows "r = response_denied path \<or> (\<not> lr_denied r \<and> shows_folder lossy readable (BDir es) s r
    \<and> sorted (map (\<lambda>e. (\<not> be_is_dir e, be_name e)) (lr_entries r)))"
proof (cases "r = response_denied path")
  case False
  then obtain real ds where n: "resolve (BDir es) links s path = Inr real" "node_at (BDir es) real = Some (BDir ds)"
    using assms by (auto simp: browse_list_def split: sum.splits option.splits bnode.splits)
  obtain xs tr where l: "entries_loop lossy readable ds [] = (xs, tr)" by fastforce
  have r: "r = \<lparr>lr_path = path, lr_entries = sort_key (\<lambda>e. (\<not> be_is_dir e, be_name e)) xs, lr_truncated = tr, lr_denied = False\<rparr>"
    using assms n l by (simp add: browse_list_def)
  obtain x q where x: "x \<in> set (ss_shares s)" "real = sh_root x @ q" "canonical (BDir es) real" using resolve_inside[OF n(1)] by blast
  have "length xs \<le> MAX_ENTRIES" "set xs \<subseteq> entry_of lossy ` {e \<in> set ds. readable (fst e)}"
      "\<not> tr \<longrightarrow> set xs = entry_of lossy ` {e \<in> set ds. readable (fst e)}"
    using entries_loop_spec[OF l] by auto
  then have "shows_folder lossy readable (BDir es) s r"
    unfolding shows_folder_def r using x n(2) by (intro bexI[OF _ x(1)] exI[of _ q] exI[of _ ds]) simp
  then show ?thesis by (simp add: r)
qed simp

text \<open>
  C39. What a peer can learn by browsing. To any request the handler gives one answer. Without the
  permission it is the refusal. With it, an empty path is answered with the names of the shares -
  never where they are - and any other path with the refusal, or with the entries of a folder that
  lies inside a share once every link and every \<open>..\<close> on the way is resolved: at most 500 of them,
  all of them if the answer does not say otherwise, folders first and by name. The refusal is the
  same whether the peer may not browse, the path leads outside, or there is nothing there.
\<close>

theorem browsing_stays_in_shares:
  assumes "sf_message_type f = MSG_LIST_REQUEST" "request_from_frame B f = Inr path"
    "browse_handle B lossy readable (BDir es) links s T (Some p) now f = (res, outs)"
  shows "res = Inr () \<and> (\<exists>r. outs = [Answer r] \<and> lr_path r = path
    \<and> (\<not> may T p Browse now \<longrightarrow> r = response_denied path)
    \<and> (may T p Browse now \<longrightarrow> (if segments path = [] then map be_name (lr_entries r) = map sh_name (ss_shares s)
         else r = response_denied path \<or> (\<not> lr_denied r \<and> shows_folder lossy readable (BDir es) s r
           \<and> sorted (map (\<lambda>e. (\<not> be_is_dir e, be_name e)) (lr_entries r))))))"
proof (cases "may T p Browse now")
  case False
  then show ?thesis using assms by (auto simp: browse_handle_def response_denied_def MSG_LIST_REQUEST_def MSG_LIST_RESPONSE_def)
next
  case True
  let ?r = "browse_list lossy readable (BDir es) links s path"
  have h: "res = Inr ()" "outs = [Answer ?r]"
    using assms True by (auto simp: browse_handle_def MSG_LIST_REQUEST_def MSG_LIST_RESPONSE_def)
  have "lr_path ?r = path"
    by (simp add: browse_list_def response_denied_def split: sum.splits option.splits bnode.splits prod.splits)
  moreover have "map be_name (lr_entries ?r) = map sh_name (ss_shares s)" if "segments path = []"
    using that by (simp add: browse_list_def comp_def)
  ultimately show ?thesis using h True browse_list_cases[OF _ refl, of path lossy readable es links s] by auto
qed

section \<open>Witnesses\<close>

text \<open>Two folders of one name, one of them reached by a link, and a link that leads out of a share.\<close>

definition toy_share_tree :: "(string \<times> bnode) list" where
  "toy_share_tree = [(''h'', BDir [(''d'', BDir [(''f'', BFile 3), (''out'', BLink True [''k''] 2)])]), (''n'', BDir [(''d'', BDir [])]),
     (''l'', BLink True [''n'', ''d''] 4), (''k'', BDir [])]"

definition toy_shares :: shares where
  "toy_shares = shares_new (\<lambda>x. x) (BDir toy_share_tree) 40 [[''h'', ''d''], [''l''], [''gone'']]"

lemma toy_names_ok: "names_ok (BDir toy_share_tree)"
proof -
  have "CHR ''/'' \<notin> set x" if "node_at (BDir toy_share_tree) p = Some n" "x \<in> set p" for p n x
    using that by (cases p; cases "tl p"; cases "tl (tl p)"; cases "tl (tl (tl p))") (auto simp: toy_share_tree_def split: if_splits option.splits)
  then show ?thesis by (auto simp: names_ok_def)
qed

lemma toy_shares_eq:
  "ss_shares toy_shares = [\<lparr>sh_name = ''d'', sh_root = [''h'', ''d'']\<rparr>, \<lparr>sh_name = ''d (2)'', sh_root = [''n'', ''d'']\<rparr>]"
proof -
  have "show_nat 2 = ''2''" by (simp add: show_nat.simps char_of_def bit_0)
  then have "share_search ''d'' [\<lparr>sh_name = ''d'', sh_root = r\<rparr>] 2 = ''d (2)''" for r
    by (subst share_search.simps) (simp add: share_free_def share_candidate_def)
  then show ?thesis
    by (simp add: toy_shares_def shares_new_def canonicalize_def toy_share_tree_def share_unique_name_def share_free_def share_label_def)
qed

theorem every_share_is_addressable_witness:
  "resolve (BDir toy_share_tree) 40 toy_shares ''d (2)'' = Inr [''n'', ''d'']"
proof -
  have "lossy_ok (\<lambda>x. x)" by (simp add: lossy_ok_def)
  from every_share_is_addressable[OF this toy_names_ok _ toy_shares_def] show ?thesis by (simp add: toy_shares_eq)
qed

definition toy_browse :: browse_env where
  "toy_browse = \<lparr>bv_request = toy_codec tc_str, bv_response = \<lparr>cd_enc = (\<lambda>_. Inl []), cd_dec = (\<lambda>_. Inl [])\<rparr>\<rparr>"

definition toy_list_request :: "string \<Rightarrow> session_frame" where
  "toy_list_request path = \<lparr>sf_channel = 1, sf_message_type = MSG_LIST_REQUEST, sf_flags = additive_flags, sf_payload = concat (map toy_put (fst tc_str path))\<rparr>"

definition toy_browser :: fs_trust where
  "toy_browser = \<lparr>ft_cache = [(''peer'', toy_record (perm_set granted_on_approval Browse True))], ft_disk = None\<rparr>"

lemma toy_list_request_reads: "length q \<le> 9 \<Longrightarrow> request_from_frame toy_browse (toy_list_request q) = Inr q"
  by (simp add: request_from_frame_def toy_list_request_def toy_browse_def BROWSE_MAX_PATH_def)

lemma toy_browse_list:
  "browse_list (\<lambda>x. x) (\<lambda>_. True) (BDir toy_share_tree) 40 toy_shares ''d/out'' = response_denied ''d/out''"
  "map be_name (lr_entries (browse_list (\<lambda>x. x) (\<lambda>_. True) (BDir toy_share_tree) 40 toy_shares ''d'')) = [''f'', ''out'']"
  by (simp_all add: browse_list_def segments_def resolve_def toy_shares_eq canonicalize_def toy_share_tree_def MAX_ENTRIES_def entry_of_def)

theorem browsing_stays_in_shares_witness:
  "browse_list (\<lambda>x. x) (\<lambda>_. True) (BDir toy_share_tree) 40 toy_shares ''d/out'' = response_denied ''d/out''
   \<and> (\<exists>r. browse_handle toy_browse (\<lambda>x. x) (\<lambda>_. True) (BDir toy_share_tree) 40 toy_shares toy_browser (Some ''peer'') 5 (toy_list_request ''d'')
         = (Inr (), [Answer r]) \<and> map be_name (lr_entries r) = [''f'', ''out'']
       \<and> shows_folder (\<lambda>x. x) (\<lambda>_. True) (BDir toy_share_tree) toy_shares r)"
proof -
  have m: "may toy_browser ''peer'' Browse 5" by (simp add: may_def trust_lookup_def toy_browser_def)
  have t: "sf_message_type (toy_list_request ''d'') = MSG_LIST_REQUEST" by (simp add: toy_list_request_def)
  have q: "request_from_frame toy_browse (toy_list_request ''d'') = Inr ''d''" by (simp add: toy_list_request_reads)
  let ?r = "browse_list (\<lambda>x. x) (\<lambda>_. True) (BDir toy_share_tree) 40 toy_shares ''d''"
  have h: "browse_handle toy_browse (\<lambda>x. x) (\<lambda>_. True) (BDir toy_share_tree) 40 toy_shares toy_browser (Some ''peer'') 5 (toy_list_request ''d'')
      = (Inr (), [Answer ?r])"
    using m q t by (simp add: browse_handle_def MSG_LIST_REQUEST_def MSG_LIST_RESPONSE_def)
  have "lr_entries ?r \<noteq> []" using toy_browse_list(2) by (metis list.discI list.map_disc_iff)
  then have "?r \<noteq> response_denied ''d''" by (metis response_denied_def list_response.select_convs(2))
  then have "shows_folder (\<lambda>x. x) (\<lambda>_. True) (BDir toy_share_tree) toy_shares ?r"
    using browsing_stays_in_shares[OF t q h] m by (simp add: segments_def)
  then show ?thesis by (intro conjI exI[of _ ?r]) (rule toy_browse_list h | assumption)+
qed

end
