(* ===== verification/Spec2Isabelle.thy ===== *)
theory Spec2Isabelle
  imports PB_Auth PB_Sync_Apply PB_Folder_Delivery PB_Chat_Retention PB_Chat_Files PB_Chat_Search PB_Group_Props PB_Notes PB_Browse
begin

text \<open>
  A verification of PeerBeam: devices on a local network authenticate each other, open encrypted
  sessions that carry channels for files, chat and sync, and keep shared folders in step. The
  theories model the Rust crates under \<open>src/rust/crates\<close>; a name in parentheses is the file.

  \<^bold>\<open>Conventions.\<close> Machine integers are words of their width; \<open>int\<close> stands for the signed seconds
  and counters the code never lets overflow. A Rust \<open>str\<close> is the list of its bytes. \<open>Result\<close> is a
  sum with the error on the left, \<open>Option\<close> is \<open>option\<close>. A \<open>BTreeMap\<close> is an association list in key
  order (\<open>PB_Prelude\<close>); a \<open>HashMap\<close> whose order is never observed uses the same. A function with
  effects takes its state and returns it with its result. Code outside the repository is an
  argument: the ciphers and hashes (record \<open>prims\<close>), JSON coding (records of encoders and
  decoders), random values, clocks, and what the network or the disk answers. What the proofs
  need of it is a named hypothesis - \<open>gcm_ok\<close>, \<open>dh_ok\<close>, \<open>json_ok\<close>, \<open>collision_free\<close> and so on -
  and each property that uses one has a witness on a concrete instance.

  \<^bold>\<open>Sessions.\<close>
  \<^item> \<open>PB_Session_Types\<close> (\<open>peerbeam-domain/src/session\<close>): lifecycle states, channel states, errors.
  \<^item> \<open>PB_Frame\<close> (\<open>session/frame.rs\<close>, \<open>hex.rs\<close>): the session frame and hex codecs. The decoder
    accepts exactly what the encoder emits.
  \<^item> \<open>PB_Negotiation\<close> (\<open>session/negotiation.rs\<close>): both peers compute the same agreed
    capabilities and version.
  \<^item> \<open>PB_Crypto\<close> (\<open>peerbeam-crypto\<close>, \<open>peerbeam-transfer/src/session/crypto.rs\<close>): key derivation,
    sealed channels with counters. Both ends derive matching keys, no nonce repeats, and under
    any replay, reordering, loss or injection a receiver gets a prefix of what was sent.
  \<^item> \<open>PB_Resume\<close>, \<open>PB_Control\<close> (\<open>session/resume.rs\<close>, \<open>control.rs\<close>, the resume half of
    \<open>session/mod.rs\<close>): resume tokens and control messages; an epoch is consumed once.
  \<^item> \<open>PB_Channel_Manager\<close>, \<open>PB_Channel_Inv\<close> (\<open>session/channel_manager.rs\<close>): channel bookkeeping as
    a step relation, its invariant, its bounds against a hostile peer, and the refinement of
    stream pairing to a queue.
  \<^item> \<open>PB_Session\<close>, \<open>PB_Session_Props\<close> (\<open>session/mod.rs\<close>, \<open>recovery.rs\<close>): opening,
    the pump, closing, resumption and recovery. A recovery loop runs over a bounded number of
    attempts and its termination is a theorem about the function itself, not about fuel.
  \<^item> \<open>PB_Trust\<close> (\<open>peerbeam-trust-fs\<close>, \<open>port/trust.rs\<close>, permissions): the trust file with several
    processes writing it.
  \<^item> \<open>PB_Auth\<close> (\<open>peerbeam-transfer/src/auth.rs\<close>): the mutual handshake, its transcript, trust on
    first use. The trust store reaches it through the locale \<open>pin_store\<close>, interpreted on the
    file store.

  \<^bold>\<open>Storage and folder sync.\<close>
  \<^item> \<open>PB_Fs\<close>: the part of \<open>std::fs\<close> the stores use, as a tree.
  \<^item> \<open>PB_AppStore\<close> (\<open>peerbeam-appstore-fs\<close>, \<open>port/appstore.rs\<close>): the encrypted record store
    refines a map. Its contract is the locale \<open>record_store\<close>; sync is proved over the locale and
    instantiated with the file store by the interpretation \<open>app\<close>.
  \<^item> \<open>PB_Paths\<close> (\<open>wire_path.rs\<close>, the key and namespace encodings): a peer's path stays inside the
    folder; storage names never collide.
  \<^item> \<open>PB_Version_Vector\<close>, \<open>PB_Reconcile\<close> (\<open>version.rs\<close>, \<open>reconcile.rs\<close>, \<open>rename.rs\<close>): version
    vectors form a join semilattice; reconciliation overwrites or deletes only what the peer has
    superseded, the two ends decide alike, and collapsed renames are moves.
  \<^item> \<open>PB_Chunk\<close> (\<open>peerbeam-chunk\<close>, \<open>delta.rs\<close>): chunks tile a file; a delta rebuilds the file or
    nothing; a streamed fetch is atomic.
  \<^item> \<open>PB_Sync_Index\<close> (\<open>index.rs\<close>, \<open>store.rs\<close>, \<open>fetch_by_delta\<close> of the command line): a scan brings
    the index in line with the disk; a chunk map that outlives its file blocks a fetch.
  \<^item> \<open>PB_Sync_Apply\<close> (\<open>apply.rs\<close>, \<open>scan.rs\<close>): applying a plan touches only what it names; an applied
    deletion is settled, an applied rename need not be; when a polled file counts as settled.

  \<^bold>\<open>Transfers.\<close> A transfer runs in a world of a file system, the staging claims of the process and the
  frames still to come from the peer; the device's answers are an argument, and a run that would
  wait for a frame that never comes is \<open>None\<close>.
  \<^item> \<open>PB_Storage\<close> (\<open>peerbeam-storage-fs\<close>): opening, writing, reserving and publishing files.
  \<^item> \<open>PB_Names\<close> (the sanitizers of \<open>peerbeam-transfer/src/stream.rs\<close> and \<open>folder.rs\<close>): names a receiver writes under.
  \<^item> \<open>PB_Transfer\<close> (\<open>protocol.rs\<close>, shared helpers): frames, messages, progress, staging claims.
  \<^item> \<open>PB_Stream\<close>, \<open>PB_Stream_Props\<close>, \<open>PB_Stream_Delivery\<close> (\<open>stream.rs\<close>, recovery): one file. Whatever the
    peer sends stays in the staging file and one free name; an honest pair delivers the source,
    through any number of broken links; a stale staging file can spoil a transfer unnoticed.
  \<^item> \<open>PB_Folder\<close>, \<open>PB_Folder_Props\<close>, \<open>PB_Folder_Delivery\<close> (\<open>folder.rs\<close>): the same for a folder, and that
    an entry the receiver skips fails the whole send.

  \<^bold>\<open>Chat and groups.\<close>
  \<^item> \<open>PB_Chat\<close> (\<open>peerbeam-chat/src/message.rs\<close>, \<open>record.rs\<close>, \<open>retention.rs\<close>, \<open>reply.rs\<close>, \<open>gate.rs\<close>): messages,
    rows, windows. \<open>PB_Chat_Store\<close> (\<open>store.rs\<close>): conversations, landings, the outbox, deleting and
    pruning, over the \<open>AppStore\<close> port. \<open>PB_Chat_Session\<close> (\<open>handler.rs\<close>, \<open>send.rs\<close>, \<open>staging.rs\<close>): the
    channel's handler, flushing, staged copies. \<open>PB_Chat_Search\<close> (\<open>search.rs\<close>): search, equal to sorting.
    \<open>PB_Groups\<close> (\<open>peerbeam-groups\<close> and the group operations of \<open>peerbeam-ffi\<close>).
  \<^item> \<open>PB_Chat_Codec\<close>: a concrete coding, for the witnesses.
  \<^item> \<open>PB_Chat_Props\<close>: what a peer's frame may change. \<open>PB_Chat_Delivery\<close>: flush and handler together show
    a message once. \<open>PB_Chat_Outbox\<close>: the outbox, and that a group message stays with one member.
    \<open>PB_Chat_Files\<close>: offers and landings commute; an attached file is owned by the queue.
    \<open>PB_Chat_Retention\<close>: pruning and deleting. \<open>PB_Group_Props\<close>: membership frames.
  \<^item> \<open>PB_Notes\<close> (\<open>peerbeam-notes\<close>, \<open>send_notes_on\<close> of \<open>peerbeam-ffi\<close>): notes, batches, store and handler. A
    peer moves notes forward only; one exchange makes two devices agree.
  \<^item> These theories see the store through the locales \<open>strict_store\<close> (\<open>record_store\<close> with what it
    refuses and lists) and \<open>served_store\<close> (writes succeed while the device serves), interpreted on the
    file store as \<open>strict\<close> and \<open>served\<close>.

  \<^bold>\<open>Browsing.\<close>
  \<^item> \<open>PB_Browse\<close> (\<open>peerbeam-browse\<close>): shared folders, on a tree of its own with symbolic links. Every share
    is reached by its own name, and a peer is shown only what really lies inside a share.

  \<^bold>\<open>Loops.\<close> Every loop is a total function: structural recursion over the list it consumes, or a
  measure (\<open>split_from\<close>, \<open>window_loop\<close> and \<open>toy_tokens\<close> shorten their input, \<open>commit_loop\<close> counts its
  twenty attempts down, \<open>path_walk\<close> the links the host lets a path follow, \<open>share_search\<close> the values of a
  32-bit counter). No definition uses fuel. Receiving loops recurse over the frames the peer
  sends; running out of them is the value \<open>None\<close>, a peer that falls silent.

  \<^bold>\<open>Not modelled.\<close> The ciphers, hashes and key agreement; JSON and time formats; QUIC, TCP and discovery
  transports, async scheduling and timers (their outcomes are arguments); rate limits, checkpoints
  and admission of transfers; sending a folder with symbolic links; the sync channel's message
  loop; drive prefixes of shares on Windows; spaces, presence, clipboard, wake-up and update; configuration, logging and
  telemetry; engine assembly; the FFI layer except its group operations and note sender, the command-line programs
  except \<open>fetch_by_delta\<close>, and the Flutter application. Most of what is left either calls the
  modelled components or talks to the operating system.
\<close>

end
